(* ===== verification/Prelude.thy ===== *)
theory Prelude
  imports Main "HOL-Library.Word" "HOL-Library.AList" "HOL-Library.Monad_Syntax"
    "HOL-Library.Product_Lexorder"
begin

text \<open>
  What every component of the development shares: the byte and time types, the parts of
  Rust's arithmetic and slices the sources use (saturating addition, the subtraction and the
  slice expression that panic, the \<open>as i64\<close> cast), hash maps as association lists with
  their contract, and the contract of a state machine whose steps keep an invariant.

  Conventions. \<open>u64\<close> offsets and \<open>usize\<close> lengths are \<open>nat\<close> with the 64-bit
  limit written out where the code depends on it; counters that only count events are plain
  \<open>nat\<close>; wire integers (sequence numbers, ports, addresses, flag bytes) are words of
  their width. A \<open>SystemTime\<close> is an \<open>int\<close> (nanoseconds since the Unix epoch, negative before
  it), a \<open>Duration\<close> or an \<open>Instant\<close> a \<open>nat\<close> of nanoseconds. A panic is \<open>None\<close>.
\<close>

named_theorems rust_simps \<open>equations of the Rust primitives on arguments that do not panic\<close>
named_theorems hm_simps \<open>equations of the hash-map operations\<close>

type_synonym byte = "8 word"
type_synonym bytes = "8 word list"
type_synonym duration = nat
type_synonym instant = nat
type_synonym system_time = int

section \<open>Rust arithmetic and slices\<close>

definition u64_max :: nat where
  "u64_max = 18446744073709551615"

definition saturating_add :: "nat \<Rightarrow> nat \<Rightarrow> nat" where
  "saturating_add a b = min (a + b) u64_max"

text \<open>Unsigned subtraction: below zero it panics (overflow checks) and never yields a value
  the code means; the model makes it \<open>None\<close>.\<close>

definition usub :: "nat \<Rightarrow> nat \<Rightarrow> nat option" where
  "usub a b = (if b \<le> a then Some (a - b) else None)"

text \<open>\<open>&xs[from..to]\<close> panics unless \<open>from \<le> to \<le> xs.len()\<close>.\<close>

definition slice :: "'a list \<Rightarrow> nat \<Rightarrow> nat \<Rightarrow> 'a list option" where
  "slice xs from to =
     (if from \<le> to \<and> to \<le> length xs then Some (take (to - from) (drop from xs)) else None)"

text \<open>\<open>xs[from..from + ys.len()].copy_from_slice(ys)\<close> on in-range arguments.\<close>

definition splice_at :: "'a list \<Rightarrow> nat \<Rightarrow> 'a list \<Rightarrow> 'a list" where
  "splice_at xs from ys = take from xs @ ys @ drop (from + length ys) xs"

text \<open>\<open>Vec::resize(n, 0)\<close> where \<open>n\<close> is not below the length.\<close>

definition resize :: "'a list \<Rightarrow> nat \<Rightarrow> 'a \<Rightarrow> 'a list" where
  "resize xs n z = take n xs @ replicate (n - length xs) z"

text \<open>The \<open>u64 as i64\<close> cast: two's complement reinterpretation.\<close>

definition as_i64 :: "nat \<Rightarrow> int" where
  "as_i64 n = (if n mod 2 ^ 64 < 2 ^ 63 then int (n mod 2 ^ 64)
               else int (n mod 2 ^ 64) - 2 ^ 64)"

text \<open>\<open>now.duration_since(earlier)\<close>: an error when the clock went backwards.\<close>

definition duration_since :: "system_time \<Rightarrow> system_time \<Rightarrow> duration option" where
  "duration_since now earlier = (if earlier \<le> now then Some (nat (now - earlier)) else None)"

definition unwrap_or :: "'a option \<Rightarrow> 'a \<Rightarrow> 'a" where
  "unwrap_or x d = (case x of None \<Rightarrow> d | Some v \<Rightarrow> v)"

definition nanos_per_sec :: nat where
  "nanos_per_sec = 1000000000"

definition secs :: "nat \<Rightarrow> duration" where
  "secs n = n * nanos_per_sec"

lemma unwrap_or_simps [simp]: "unwrap_or None d = d" "unwrap_or (Some v) d = v"
  by (simp_all add: unwrap_or_def)

lemma usub_eq [rust_simps]: "b \<le> a \<Longrightarrow> usub a b = Some (a - b)"
  by (simp add: usub_def)

lemma slice_eq [rust_simps]:
  "from \<le> to \<Longrightarrow> to \<le> length xs \<Longrightarrow> slice xs from to = Some (take (to - from) (drop from xs))"
  by (simp add: slice_def)

lemma saturating_add_eq [rust_simps]: "a + b \<le> u64_max \<Longrightarrow> saturating_add a b = a + b"
  by (simp add: saturating_add_def)

lemma saturating_add_bounds: "saturating_add a b \<le> a + b" "saturating_add a b \<le> u64_max"
  by (simp_all add: saturating_add_def)

lemma as_i64_small [rust_simps]: "n < 2 ^ 63 \<Longrightarrow> as_i64 n = int n"
  by (simp add: as_i64_def)

lemma length_splice_at [simp]:
  "from + length ys \<le> length xs \<Longrightarrow> length (splice_at xs from ys) = length xs"
  by (simp add: splice_at_def)

lemma nth_splice_at:
  assumes "from + length ys \<le> length xs" "i < length xs"
  shows "splice_at xs from ys ! i =
    (if from \<le> i \<and> i < from + length ys then ys ! (i - from) else xs ! i)"
  using assms by (auto simp: splice_at_def nth_append not_less min_def)

lemma length_resize [simp]: "length xs \<le> n \<Longrightarrow> length (resize xs n z) = n"
  by (simp add: resize_def)

lemma nth_resize: "length xs \<le> n \<Longrightarrow> i < length xs \<Longrightarrow> resize xs n z ! i = xs ! i"
  by (simp add: resize_def nth_append)

section \<open>Bytes and words\<close>

text \<open>\<open>to_be_bytes\<close> and \<open>octets\<close>: the \<open>n\<close> bytes of a word, most significant first.\<close>

definition be_bytes :: "nat \<Rightarrow> 'a::len word \<Rightarrow> bytes" where
  "be_bytes n w = map (\<lambda>i. ucast (drop_bit (8 * (n - 1 - i)) w)) [0..<n]"

text \<open>\<open>from_be_bytes\<close>.\<close>

definition be_word :: "bytes \<Rightarrow> 'a::len word" where
  "be_word bs = foldl (\<lambda>w b. or (push_bit 8 w) (ucast b)) 0 bs"

lemma be_bytes_Suc: "be_bytes (Suc n) w = ucast (drop_bit (8 * n) w) # be_bytes n w"
  by (rule nth_equalityI) (auto simp: be_bytes_def nth_Cons simp del: upt_Suc split: nat.splits)

lemma length_be_bytes [simp]: "length (be_bytes n w) = n"
  by (simp add: be_bytes_def)

lemma be_word_fold:
  "foldl (\<lambda>w b. or (push_bit 8 w) (ucast b)) acc (be_bytes n w) =
     or (push_bit (8 * n) acc) (take_bit (8 * n) w)"
  for w acc :: "'a::len word"
proof (induction n arbitrary: acc)
  case 0
  then show ?case by (simp add: be_bytes_def)
next
  case (Suc n)
  have "or (push_bit (8 * n) (or (push_bit 8 acc) (ucast (ucast (drop_bit (8 * n) w) :: byte)))) (take_bit (8 * n) w) =
      or (push_bit (8 * Suc n) acc) (take_bit (8 * Suc n) w)"
    by (rule bit_word_eqI) (auto simp: bit_simps ac_simps)
  with Suc show ?case by (simp add: be_bytes_Suc)
qed

lemma be_word_be_bytes: "LENGTH('a) \<le> 8 * n \<Longrightarrow> be_word (be_bytes n w) = w" for w :: "'a::len word"
  by (simp add: be_word_def be_word_fold take_bit_word_eq_self)

section \<open>Hash maps\<close>

text \<open>
  A \<open>HashMap\<close> (or \<open>BTreeMap\<close>) is an association list with distinct keys; the list order
  stands for the iteration order, which the standard library leaves open for \<open>HashMap\<close>.
  Theorems quantify over every list with distinct keys, so over every iteration order of
  the state an operation starts from.
\<close>

type_synonym ('k, 'v) hashmap = "('k \<times> 'v) list"

definition hm_invar :: "('k, 'v) hashmap \<Rightarrow> bool" where
  "hm_invar m = distinct (map fst m)"

abbreviation hm_get :: "('k, 'v) hashmap \<Rightarrow> 'k \<Rightarrow> 'v option" where
  "hm_get \<equiv> map_of"

definition hm_contains :: "('k, 'v) hashmap \<Rightarrow> 'k \<Rightarrow> bool" where
  "hm_contains m k = (hm_get m k \<noteq> None)"

abbreviation hm_insert :: "'k \<Rightarrow> 'v \<Rightarrow> ('k, 'v) hashmap \<Rightarrow> ('k, 'v) hashmap" where
  "hm_insert \<equiv> AList.update"

abbreviation hm_remove :: "'k \<Rightarrow> ('k, 'v) hashmap \<Rightarrow> ('k, 'v) hashmap" where
  "hm_remove \<equiv> AList.delete"

definition hm_retain :: "('k \<Rightarrow> 'v \<Rightarrow> bool) \<Rightarrow> ('k, 'v) hashmap \<Rightarrow> ('k, 'v) hashmap" where
  "hm_retain p m = filter (\<lambda>(k, v). p k v) m"

definition hm_sum :: "('v \<Rightarrow> nat) \<Rightarrow> ('k, 'v) hashmap \<Rightarrow> nat" where
  "hm_sum f m = sum_list (map (\<lambda>(k, v). f v) m)"

lemma hm_invar_Nil [simp, hm_simps]: "hm_invar []"
  by (simp add: hm_invar_def)

lemma hm_invar_insert [simp, hm_simps]: "hm_invar m \<Longrightarrow> hm_invar (hm_insert k v m)"
  by (simp add: hm_invar_def distinct_update)

lemma hm_invar_remove [simp, hm_simps]: "hm_invar m \<Longrightarrow> hm_invar (hm_remove k m)"
  by (simp add: hm_invar_def distinct_delete)

lemma hm_invar_retain [simp, hm_simps]: "hm_invar m \<Longrightarrow> hm_invar (hm_retain p m)"
  by (auto simp: hm_invar_def hm_retain_def distinct_map_filter)

lemma hm_contains_iff: "hm_contains m k \<longleftrightarrow> k \<in> fst ` set m"
  by (auto simp: hm_contains_def map_of_eq_None_iff)

lemma hm_get_retain:
  "hm_invar m \<Longrightarrow> hm_get (hm_retain p m) k =
     (case hm_get m k of None \<Rightarrow> None | Some v \<Rightarrow> if p k v then Some v else None)"
  by (induction m) (auto simp: hm_invar_def hm_retain_def map_of_eq_None_iff image_iff
      split: option.splits)

lemma hm_len_dom: "hm_invar m \<Longrightarrow> length m = card (dom (hm_get m))"
  by (metis dom_map_of_conv_image_fst distinct_card hm_invar_def length_map list.set_map)

text \<open>The contract of a map: what a client may rely on, through the lookup view alone.\<close>

locale hash_table =
  fixes invar :: "'m \<Rightarrow> bool"
    and get :: "'m \<Rightarrow> 'k \<Rightarrow> 'v option"
    and insert :: "'k \<Rightarrow> 'v \<Rightarrow> 'm \<Rightarrow> 'm"
    and remove :: "'k \<Rightarrow> 'm \<Rightarrow> 'm"
    and retain :: "('k \<Rightarrow> 'v \<Rightarrow> bool) \<Rightarrow> 'm \<Rightarrow> 'm"
    and size :: "'m \<Rightarrow> nat"
  assumes get_insert: "invar m \<Longrightarrow> get (insert k v m) = (get m)(k \<mapsto> v)"
    and get_remove: "invar m \<Longrightarrow> get (remove k m) = (get m)(k := None)"
    and get_retain: "invar m \<Longrightarrow> get (retain p m) k =
          (case get m k of None \<Rightarrow> None | Some v \<Rightarrow> if p k v then Some v else None)"
    and invar_insert: "invar m \<Longrightarrow> invar (insert k v m)"
    and invar_remove: "invar m \<Longrightarrow> invar (remove k m)"
    and invar_retain: "invar m \<Longrightarrow> invar (retain p m)"
    and finite_get: "finite (dom (get m))"
    and size_get: "invar m \<Longrightarrow> size m = card (dom (get m))"
begin

lemma size_insert:
  "invar m \<Longrightarrow> size (insert k v m) = (if get m k = None then Suc (size m) else size m)"
  by (auto simp: size_get invar_insert get_insert card_insert_if finite_get domIff insert_absorb)

lemma size_remove:
  "invar m \<Longrightarrow> size (remove k m) = (if get m k = None then size m else size m - 1)"
  by (auto simp: size_get invar_remove get_remove finite_get domIff card_Diff_singleton_if)

lemma dom_retain_subset: "invar m \<Longrightarrow> dom (get (retain p m)) \<subseteq> dom (get m)"
  by (auto simp: dom_def get_retain split: option.splits)

lemma size_retain: "invar m \<Longrightarrow> size (retain p m) \<le> size m"
  by (simp add: size_get invar_retain card_mono finite_get dom_retain_subset)

lemma size_pos: "invar m \<Longrightarrow> get m k \<noteq> None \<Longrightarrow> 0 < size m"
  by (auto simp: size_get card_gt_0_iff finite_get)

end

interpretation hm: hash_table hm_invar hm_get hm_insert hm_remove hm_retain length
proof unfold_locales
  fix m :: "('a, 'b) hashmap" and k v and p :: "'a \<Rightarrow> 'b \<Rightarrow> bool"
  show "hm_get (hm_insert k v m) = (hm_get m)(k \<mapsto> v)"
    by (rule update_conv')
  show "hm_get (hm_remove k m) = (hm_get m)(k := None)"
    by (rule delete_conv')
  show "finite (dom (hm_get m))"
    by (rule finite_dom_map_of)
  assume "hm_invar m"
  then show "hm_invar (hm_insert k v m)" "hm_invar (hm_remove k m)" "hm_invar (hm_retain p m)"
    "length m = card (dom (hm_get m))"
    "hm_get (hm_retain p m) k =
       (case hm_get m k of None \<Rightarrow> None | Some v \<Rightarrow> if p k v then Some v else None)"
    by (simp_all add: hm_len_dom hm_get_retain)
qed

lemma hm_sum_simps [simp]: "hm_sum f [] = 0" "hm_sum f ((k, v) # m) = f v + hm_sum f m"
  by (simp_all add: hm_sum_def)

lemma hm_remove_notin: "hm_get m k = None \<Longrightarrow> hm_remove k m = m"
  by (induction m) (auto split: if_splits)

lemma hm_sum_remove:
  "hm_invar m \<Longrightarrow> hm_get m k = Some v \<Longrightarrow> hm_sum f m = f v + hm_sum f (hm_remove k m)"
proof (induction m)
  case Nil
  then show ?case by simp
next
  case (Cons kv m)
  show ?case
  proof (cases "fst kv = k")
    case True
    with Cons.prems have "hm_get m k = None" "v = snd kv"
      by (auto simp: hm_invar_def map_of_eq_None_iff)
    with True show ?thesis by (cases kv) (simp add: hm_remove_notin)
  next
    case False
    with Cons.prems have "hm_invar m" "hm_get m k = Some v"
      by (auto simp: hm_invar_def)
    with False Cons.IH show ?thesis by (cases kv) simp
  qed
qed

lemma hm_sum_insert_new: "hm_get m k = None \<Longrightarrow> hm_sum f (hm_insert k v m) = hm_sum f m + f v"
  by (induction m) (auto split: if_splits)

lemma hm_sum_insert_old:
  "hm_invar m \<Longrightarrow> hm_get m k = Some w \<Longrightarrow> hm_sum f (hm_insert k v m) + f w = hm_sum f m + f v"
  by (induction m) (auto simp: hm_invar_def split: if_splits)

lemma hm_sum_bound:
  "(\<And>k v. (k, v) \<in> set m \<Longrightarrow> f v \<le> b) \<Longrightarrow> hm_sum f m \<le> length m * b"
proof (induction m)
  case Nil
  then show ?case by simp
next
  case (Cons kv m)
  have "hm_sum f m \<le> length m * b"
    by (rule Cons.IH) (metis Cons.prems list.set_intros(2))
  moreover have "f (snd kv) \<le> b"
    using Cons.prems [of "fst kv" "snd kv"] by simp
  ultimately show ?case by (cases kv) simp
qed

lemma hm_set_insert: "(k', v') \<in> set (hm_insert k v m) \<Longrightarrow> (k', v') = (k, v) \<or> (k', v') \<in> set m"
  by (induction m) (auto split: if_splits)

lemma hm_set_remove: "(k', v') \<in> set (hm_remove k m) \<Longrightarrow> (k', v') \<in> set m \<and> k' \<noteq> k"
  by (induction m) (auto split: if_splits)

lemma hm_get_in_set: "hm_get m k = Some v \<Longrightarrow> (k, v) \<in> set m"
  by (rule map_of_SomeD)

lemma hm_in_set_get: "hm_invar m \<Longrightarrow> (k, v) \<in> set m \<Longrightarrow> hm_get m k = Some v"
  by (simp add: hm_invar_def map_of_is_SomeI)

section \<open>State machines\<close>

text \<open>
  A component is a state with a step function over events. Its invariant holds in every
  state reached by any sequence of events, once each step keeps it.
\<close>

locale invariant_machine =
  fixes start :: "'s \<Rightarrow> bool"
    and step :: "'s \<Rightarrow> 'e \<Rightarrow> 's"
    and inv :: "'s \<Rightarrow> bool"
  assumes inv_start: "start s \<Longrightarrow> inv s"
    and inv_step: "inv s \<Longrightarrow> inv (step s e)"
begin

lemma inv_run: "inv s \<Longrightarrow> inv (foldl step s es)"
  by (induction es arbitrary: s) (auto intro: inv_step)

lemma inv_reachable: "start s \<Longrightarrow> inv (foldl step s es)"
  by (blast intro: inv_start inv_run)

end

end
