(* ===== verification/Net.thy ===== *)
theory Net
  imports Prelude
begin

text \<open>
  Addresses and CIDR networks (\<open>crates/common/src/net.rs\<close>), the protocol and 5-tuple of
  \<open>crates/common/src/event.rs\<close>, and the reassembly section of
  \<open>crates/common/src/config.rs\<close>. An IPv4 address is a 32-bit word and an IPv6 address a
  128-bit word; \<open>IpAddr\<close> orders every V4 address before every V6 address and compares
  numerically within a family, as the derived \<open>Ord\<close> of the standard library does.
\<close>

unbundle bit_operations_syntax

section \<open>Data\<close>

datatype ip_addr = V4 "32 word" | V6 "128 word"

instantiation ip_addr :: linorder
begin

fun less_eq_ip_addr :: "ip_addr \<Rightarrow> ip_addr \<Rightarrow> bool" where
  "less_eq_ip_addr (V4 a) (V4 b) = (a \<le> b)"
| "less_eq_ip_addr (V4 a) (V6 b) = True"
| "less_eq_ip_addr (V6 a) (V4 b) = False"
| "less_eq_ip_addr (V6 a) (V6 b) = (a \<le> b)"

definition less_ip_addr :: "ip_addr \<Rightarrow> ip_addr \<Rightarrow> bool" where
  "less_ip_addr a b = (a \<le> b \<and> \<not> b \<le> a)"

instance
proof
  fix x y z :: ip_addr
  show "(x < y) = (x \<le> y \<and> \<not> y \<le> x)" by (rule less_ip_addr_def)
  show "x \<le> x" by (cases x) auto
  show "x \<le> y \<Longrightarrow> y \<le> z \<Longrightarrow> x \<le> z" by (cases x; cases y; cases z) auto
  show "x \<le> y \<Longrightarrow> y \<le> x \<Longrightarrow> x = y" by (cases x; cases y) auto
  show "x \<le> y \<or> y \<le> x" by (cases x; cases y) auto
qed

end

record ip_network =
  net_address :: ip_addr
  net_prefix_len :: nat

datatype ip_network_error = BadAddress string | BadPrefix string | PrefixTooLong nat nat

type_synonym endpoint = "ip_addr \<times> 16 word"

datatype protocol = Tcp | Udp | Icmp | Ip

record net_tuple =
  src_ip :: ip_addr
  src_port :: "16 word option"
  dest_ip :: ip_addr
  dest_port :: "16 word option"
  proto :: protocol

text \<open>The reassembly configuration.\<close>

datatype overlap_policy = First | Last

record host_policy =
  hp_network :: ip_network
  hp_policy :: overlap_policy

record reassembly_config =
  overlap_policy :: overlap_policy
  host_policies :: "host_policy list"
  max_fragment_sets :: nat
  max_fragment_bytes_total :: nat
  fragment_timeout_secs :: nat
  max_stream_bytes_per_flow :: nat
  max_stream_bytes_total :: nat
  delivery_flush_bytes :: nat

definition default_reassembly_config :: reassembly_config where
  "default_reassembly_config = \<lparr>
     overlap_policy = First, host_policies = [],
     max_fragment_sets = 4096, max_fragment_bytes_total = 33554432,
     fragment_timeout_secs = 60, max_stream_bytes_per_flow = 1048576,
     max_stream_bytes_total = 268435456, delivery_flush_bytes = 65536\<rparr>"

section \<open>Networks\<close>

fun max_prefix_len :: "ip_addr \<Rightarrow> nat" where
  "max_prefix_len (V4 _) = 32"
| "max_prefix_len (V6 _) = 128"

text \<open>\<open>MAX << (width - prefix)\<close>, with the zero prefix handled apart as the code does.\<close>

definition masked_v4 :: "32 word \<Rightarrow> nat \<Rightarrow> 32 word" where
  "masked_v4 a prefix_len =
     (let m = (if prefix_len = 0 then 0 else push_bit (32 - prefix_len) (- 1)) in a AND m)"

definition masked_v6 :: "128 word \<Rightarrow> nat \<Rightarrow> 128 word" where
  "masked_v6 a prefix_len =
     (let m = (if prefix_len = 0 then 0 else push_bit (128 - prefix_len) (- 1)) in a AND m)"

fun mask_addr :: "ip_addr \<Rightarrow> nat \<Rightarrow> ip_addr" where
  "mask_addr (V4 a) prefix_len = V4 (masked_v4 a prefix_len)"
| "mask_addr (V6 a) prefix_len = V6 (masked_v6 a prefix_len)"

definition new_network :: "ip_addr \<Rightarrow> nat \<Rightarrow> ip_network_error + ip_network" where
  "new_network address prefix_len =
     (let mx = max_prefix_len address in
      if mx < prefix_len then Inl (PrefixTooLong prefix_len mx)
      else Inr \<lparr>net_address = mask_addr address prefix_len, net_prefix_len = prefix_len\<rparr>)"

definition host_network :: "ip_addr \<Rightarrow> ip_network" where
  "host_network address = \<lparr>net_address = address, net_prefix_len = max_prefix_len address\<rparr>"

definition net_contains :: "ip_network \<Rightarrow> ip_addr \<Rightarrow> bool" where
  "net_contains n address =
     (case (net_address n, address) of
        (V4 network, V4 candidate) \<Rightarrow> masked_v4 candidate (net_prefix_len n) = network
      | (V6 network, V6 candidate) \<Rightarrow> masked_v6 candidate (net_prefix_len n) = network
      | _ \<Rightarrow> False)"

section \<open>Properties\<close>

text \<open>A network value is well formed when it has come out of one of the constructors.\<close>

definition wf_network :: "ip_network \<Rightarrow> bool" where
  "wf_network n \<longleftrightarrow> net_prefix_len n \<le> max_prefix_len (net_address n) \<and>
     mask_addr (net_address n) (net_prefix_len n) = net_address n"

lemma high_mask_eq_iff:
  fixes a b :: "'a::len word"
  shows "a AND NOT (mask n) = b AND NOT (mask n) \<longleftrightarrow> drop_bit n a = drop_bit n b"
proof -
  have "a AND NOT (mask n) = b AND NOT (mask n) \<longleftrightarrow> (\<forall>i. n \<le> i \<longrightarrow> bit a i = bit b i)"
    by (auto simp: bit_eq_iff bit_simps dest: bit_imp_le_length)
  also have "\<dots> \<longleftrightarrow> (\<forall>j. bit a (n + j) = bit b (n + j))"
    by (metis le_Suc_ex le_add1)
  also have "\<dots> \<longleftrightarrow> drop_bit n a = drop_bit n b"
    by (auto simp: bit_eq_iff bit_drop_bit_eq dest: bit_imp_le_length)
      (metis add_lessD1 add.commute bit_imp_le_length)+
  finally show ?thesis .
qed

lemma drop_bit_whole [simp]:
  "drop_bit 32 (a :: 32 word) = 0" "drop_bit 128 (b :: 128 word) = 0"
  by (auto simp: bit_eq_iff bit_drop_bit_eq dest: bit_imp_le_length)

lemma masked_eq_iff:
  "masked_v4 a p = masked_v4 b p \<longleftrightarrow> drop_bit (32 - p) a = drop_bit (32 - p) b"
  "masked_v6 c p = masked_v6 d p \<longleftrightarrow> drop_bit (128 - p) c = drop_bit (128 - p) d"
  by (simp_all add: masked_v4_def masked_v6_def Let_def high_mask_eq_iff)

lemma masked_idem [simp]:
  "masked_v4 (masked_v4 a p) p = masked_v4 a p"
  "masked_v6 (masked_v6 b p) p = masked_v6 b p"
  by (simp_all add: masked_v4_def masked_v6_def Let_def and.assoc)

lemma mask_addr_idem [simp]: "mask_addr (mask_addr a p) p = mask_addr a p"
  by (cases a) simp_all

lemma max_prefix_len_mask [simp]: "max_prefix_len (mask_addr a p) = max_prefix_len a"
  by (cases a) simp_all

lemma mask_addr_full: "mask_addr a (max_prefix_len a) = a"
  by (cases a) (simp_all add: masked_v4_def masked_v6_def)

lemma new_network_wf: "new_network a p = Inr n \<Longrightarrow> wf_network n"
  by (auto simp: new_network_def wf_network_def Let_def split: if_splits)

lemma host_network_wf: "wf_network (host_network a)"
  by (simp add: host_network_def wf_network_def mask_addr_full)

text \<open>What a CIDR block means: the two addresses are of one family and their first
  \<open>p\<close> bits agree.\<close>

fun prefix_agrees :: "nat \<Rightarrow> ip_addr \<Rightarrow> ip_addr \<Rightarrow> bool" where
  "prefix_agrees p (V4 a) (V4 b) = (drop_bit (32 - p) a = drop_bit (32 - p) b)"
| "prefix_agrees p (V6 a) (V6 b) = (drop_bit (128 - p) a = drop_bit (128 - p) b)"
| "prefix_agrees p _ _ = False"

lemma net_contains_wf:
  "wf_network n \<Longrightarrow> net_contains n x \<longleftrightarrow> prefix_agrees (net_prefix_len n) (net_address n) x"
  by (cases "net_address n"; cases x)
    (auto simp: net_contains_def wf_network_def masked_eq_iff [symmetric])

text \<open>A longer prefix of the same block contains less.\<close>

lemma drop_bit_mono: "n \<le> m \<Longrightarrow> drop_bit n a = drop_bit n b \<Longrightarrow> drop_bit m a = drop_bit m b"
  for a b :: "'a::len word"
  by (metis drop_bit_drop_bit le_add_diff_inverse2)

lemma prefix_agrees_mono: "q \<le> p \<Longrightarrow> prefix_agrees p a x \<Longrightarrow> prefix_agrees q a x"
  by (cases a; cases x) (auto elim: drop_bit_mono [rotated])

lemma prefix_agrees_trans:
  "prefix_agrees p a b \<Longrightarrow> prefix_agrees p a c \<Longrightarrow> prefix_agrees p b c"
  by (cases a; cases b; cases c) auto

text \<open>A network built from any address and an admissible prefix contains exactly
  the addresses of the same family that agree with that address on the first \<open>p\<close> bits;
  in particular the host bits the operator wrote do not matter.\<close>

theorem new_network_contains:
  assumes "new_network a p = Inr n"
  shows "net_contains n x \<longleftrightarrow> prefix_agrees p a x"
  using assms
  by (cases a; cases x)
    (auto simp: new_network_def net_contains_def masked_eq_iff Let_def split: if_splits)

end
