(* ===== verification/Policy.thy ===== *)
theory Policy
  imports Net "HOL-Library.Multiset"
begin

text \<open>
  Choosing the overlap policy of a destination host: the configuration check of
  \<open>crates/common/src/config.rs\<close> and the resolver of
  \<open>crates/reassembly/src/policy.rs\<close>. The resolver sorts the overrides by descending prefix
  length with a stable sort and takes the first that contains the address.
\<close>

section \<open>The configuration check\<close>

datatype config_error =
    MaxFragmentSetsZero | FragmentTimeoutZero | MaxStreamBytesPerFlowZero
  | MaxStreamBytesTotalTooSmall | DeliveryFlushZero | DeliveryFlushTooLarge
  | DuplicateHostPolicy ip_network

text \<open>The scan for a network listed twice. The source compares the canonical text of a
  network, which names its address and prefix length, so equal texts are equal networks.\<close>

fun check_duplicates :: "host_policy list \<Rightarrow> ip_network list \<Rightarrow> config_error + unit" where
  "check_duplicates [] seen = Inr ()"
| "check_duplicates (e # es) seen =
     (if hp_network e \<in> set seen then Inl (DuplicateHostPolicy (hp_network e))
      else check_duplicates es (hp_network e # seen))"

definition reassembly_check :: "reassembly_config \<Rightarrow> config_error + unit" where
  "reassembly_check c =
     (if max_fragment_sets c = 0 then Inl MaxFragmentSetsZero
      else if fragment_timeout_secs c = 0 then Inl FragmentTimeoutZero
      else if max_stream_bytes_per_flow c = 0 then Inl MaxStreamBytesPerFlowZero
      else if max_stream_bytes_total c < max_stream_bytes_per_flow c
      then Inl MaxStreamBytesTotalTooSmall
      else if delivery_flush_bytes c = 0 then Inl DeliveryFlushZero
      else if max_stream_bytes_per_flow c < delivery_flush_bytes c then Inl DeliveryFlushTooLarge
      else check_duplicates (host_policies c) [])"

lemma check_duplicates_ok:
  "check_duplicates es seen = Inr () \<longleftrightarrow>
     distinct (map hp_network es) \<and> set seen \<inter> hp_network ` set es = {}"
  by (induction es arbitrary: seen) auto

lemma reassembly_check_ok:
  "reassembly_check c = Inr () \<longleftrightarrow>
     1 \<le> max_fragment_sets c \<and> 1 \<le> fragment_timeout_secs c \<and>
     1 \<le> max_stream_bytes_per_flow c \<and>
     max_stream_bytes_per_flow c \<le> max_stream_bytes_total c \<and>
     1 \<le> delivery_flush_bytes c \<and> delivery_flush_bytes c \<le> max_stream_bytes_per_flow c \<and>
     distinct (map hp_network (host_policies c))"
  by (auto simp: reassembly_check_def check_duplicates_ok)

section \<open>The resolver\<close>

record policy_resolver =
  default_policy :: overlap_policy
  pr_entries :: "(ip_network \<times> overlap_policy) list"

definition resolver_new :: "overlap_policy \<Rightarrow> host_policy list \<Rightarrow> policy_resolver" where
  "resolver_new d overrides = \<lparr>default_policy = d,
     pr_entries = sort_key (\<lambda>(network, _). - int (net_prefix_len network))
       (map (\<lambda>entry. (hp_network entry, hp_policy entry)) overrides)\<rparr>"

definition resolver_from_config :: "reassembly_config \<Rightarrow> policy_resolver" where
  "resolver_from_config c = resolver_new (overlap_policy c) (host_policies c)"

definition for_destination :: "policy_resolver \<Rightarrow> ip_addr \<Rightarrow> overlap_policy" where
  "for_destination r address =
     (case find (\<lambda>(network, _). net_contains network address) (pr_entries r) of
        None \<Rightarrow> default_policy r
      | Some (_, policy) \<Rightarrow> policy)"

definition override_count :: "policy_resolver \<Rightarrow> nat" where
  "override_count r = length (pr_entries r)"

section \<open>Properties\<close>

text \<open>The first hit in a list sorted by a key has the least key among the hits.\<close>

lemma find_sorted_least:
  assumes "sorted (map f xs)" "find P xs = Some x"
  shows "x \<in> set xs \<and> P x \<and> (\<forall>y\<in>set xs. P y \<longrightarrow> f x \<le> f y)"
  using assms by (induction xs) (auto split: if_splits simp: find_Some_iff)

lemma find_sort_key:
  fixes f :: "'a \<Rightarrow> 'b::linorder"
  assumes "find P (sort_key f xs) = Some x"
  shows "x \<in> set xs \<and> P x \<and> (\<forall>y\<in>set xs. P y \<longrightarrow> f x \<le> f y)"
  using find_sorted_least [of f "sort_key f xs" P x] assms by simp

lemma for_destination_hit:
  assumes "\<exists>e\<in>set os. net_contains (hp_network e) a"
  shows "\<exists>e\<in>set os. net_contains (hp_network e) a \<and>
    for_destination (resolver_new d os) a = hp_policy e \<and>
    (\<forall>e'\<in>set os. net_contains (hp_network e') a \<longrightarrow>
       net_prefix_len (hp_network e') \<le> net_prefix_len (hp_network e))"
proof -
  let ?f = "\<lambda>(network, _ :: overlap_policy). - int (net_prefix_len network)"
  let ?es = "map (\<lambda>e. (hp_network e, hp_policy e)) os"
  let ?P = "\<lambda>(network, _ :: overlap_policy). net_contains network a"
  have "find ?P (sort_key ?f ?es) \<noteq> None"
    using assms by (auto simp: find_None_iff)
  then obtain np where f: "find ?P (sort_key ?f ?es) = Some np" by blast
  from find_sort_key [OF f] obtain e where e: "e \<in> set os" "np = (hp_network e, hp_policy e)"
      "net_contains (hp_network e) a"
      "\<forall>e'\<in>set os. net_contains (hp_network e') a \<longrightarrow>
         net_prefix_len (hp_network e') \<le> net_prefix_len (hp_network e)"
    by fastforce
  with f show ?thesis
    by (intro bexI [of _ e]) (auto simp: for_destination_def resolver_new_def)
qed

lemma for_destination_miss:
  "\<forall>e\<in>set os. \<not> net_contains (hp_network e) a \<Longrightarrow> for_destination (resolver_new d os) a = d"
proof -
  assume "\<forall>e\<in>set os. \<not> net_contains (hp_network e) a"
  then have "find (\<lambda>(network, _). net_contains network a)
      (sort_key (\<lambda>(network, _). - int (net_prefix_len network))
        (map (\<lambda>e. (hp_network e, hp_policy e)) os)) = None"
    by (auto simp: find_None_iff)
  then show ?thesis by (simp add: for_destination_def resolver_new_def)
qed

text \<open>Two well-formed networks of one prefix length that share an address are one network.\<close>

lemma same_prefix_same_network:
  assumes "wf_network n" "wf_network n'" "net_contains n a" "net_contains n' a"
    and "net_prefix_len n = net_prefix_len n'"
  shows "n = n'"
  using assms
  by (cases "net_address n"; cases "net_address n'"; cases a)
    (auto simp: net_contains_def)

text \<open>The most specific override decides: the resolver returns the policy of an override
  that contains the destination and whose prefix no other containing override exceeds, and
  the configured default exactly when no override contains the destination.\<close>

theorem longest_prefix_wins:
  "if \<exists>e\<in>set os. net_contains (hp_network e) a
   then \<exists>e\<in>set os. net_contains (hp_network e) a \<and>
     for_destination (resolver_new d os) a = hp_policy e \<and>
     (\<forall>e'\<in>set os. net_contains (hp_network e') a \<longrightarrow>
        net_prefix_len (hp_network e') \<le> net_prefix_len (hp_network e))
   else for_destination (resolver_new d os) a = d"
  using for_destination_hit [of os a d] for_destination_miss [of os a d] by auto

theorem longest_prefix_wins_witness:
  "let os = [\<lparr>hp_network = \<lparr>net_address = V4 0, net_prefix_len = 0\<rparr>, hp_policy = First\<rparr>,
             \<lparr>hp_network = host_network (V6 1), hp_policy = Last\<rparr>]
   in for_destination (resolver_new First os) (V6 1) = Last"
proof -
  let ?os = "[\<lparr>hp_network = \<lparr>net_address = V4 0, net_prefix_len = 0\<rparr>, hp_policy = First\<rparr>,
             \<lparr>hp_network = host_network (V6 1), hp_policy = Last\<rparr>]"
  have "net_contains (host_network (V6 1)) (V6 1)"
    "\<not> net_contains \<lparr>net_address = V4 0, net_prefix_len = 0\<rparr> (V6 1)"
    by (simp_all add: net_contains_def host_network_def masked_v6_def)
  with longest_prefix_wins [of ?os "V6 1" First] show ?thesis by simp
qed

text \<open>The order of the overrides in the file is irrelevant: for a configuration that passes
  its check, every reordering of its overrides resolves every destination alike.\<close>

theorem resolver_order_irrelevant:
  assumes "reassembly_check c = Inr ()" "\<forall>e\<in>set (host_policies c). wf_network (hp_network e)"
    and "mset os = mset (host_policies c)"
  shows "for_destination (resolver_new (overlap_policy c) os) a =
    for_destination (resolver_from_config c) a"
proof (cases "\<exists>e\<in>set os. net_contains (hp_network e) a")
  case False
  with assms(3) show ?thesis
    by (simp add: resolver_from_config_def for_destination_miss flip: set_mset_mset)
next
  case True
  have same: "set os = set (host_policies c)" using assms(3) by (metis set_mset_mset)
  have dist: "distinct (map hp_network (host_policies c))"
    using assms(1) by (simp add: reassembly_check_ok)
  obtain e where e: "e \<in> set os" "net_contains (hp_network e) a"
      "for_destination (resolver_new (overlap_policy c) os) a = hp_policy e"
      "\<forall>e'\<in>set os. net_contains (hp_network e') a \<longrightarrow>
        net_prefix_len (hp_network e') \<le> net_prefix_len (hp_network e)"
    using for_destination_hit [OF True] by blast
  obtain q where q: "q \<in> set os" "net_contains (hp_network q) a"
      "for_destination (resolver_from_config c) a = hp_policy q"
      "\<forall>e'\<in>set os. net_contains (hp_network e') a \<longrightarrow>
        net_prefix_len (hp_network e') \<le> net_prefix_len (hp_network q)"
    using for_destination_hit [of "host_policies c" a "overlap_policy c"] True
    unfolding same resolver_from_config_def by blast
  have "net_prefix_len (hp_network e) = net_prefix_len (hp_network q)"
    using e q by (intro antisym) auto
  then have "hp_network e = hp_network q"
    using same_prefix_same_network e q assms(2) same by blast
  then have "e = q" using e(1) q(1) dist same by (metis distinct_map inj_onD)
  with e q show ?thesis by simp
qed

theorem resolver_order_irrelevant_witness:
  "let net8 = \<lparr>net_address = V4 0x0A000000, net_prefix_len = 8\<rparr>;
       host = host_network (V4 0x0A010203);
       os = [\<lparr>hp_network = net8, hp_policy = First\<rparr>, \<lparr>hp_network = host, hp_policy = Last\<rparr>];
       c = default_reassembly_config\<lparr>host_policies := os\<rparr>
   in for_destination (resolver_new (overlap_policy c) (rev os)) (V4 0x0A010203) =
      for_destination (resolver_from_config c) (V4 0x0A010203)"
proof -
  let ?net8 = "\<lparr>net_address = V4 0x0A000000, net_prefix_len = 8\<rparr>"
  let ?host = "host_network (V4 0x0A010203)"
  let ?os = "[\<lparr>hp_network = ?net8, hp_policy = First\<rparr>, \<lparr>hp_network = ?host, hp_policy = Last\<rparr>]"
  let ?c = "default_reassembly_config\<lparr>host_policies := ?os\<rparr>"
  have "reassembly_check ?c = Inr ()"
    by (simp add: reassembly_check_ok default_reassembly_config_def host_network_def)
  moreover have "wf_network ?net8"
    by (simp add: wf_network_def masked_v4_def mask_eq_exp_minus_1)
  then have "\<forall>e\<in>set (host_policies ?c). wf_network (hp_network e)"
    by (simp add: host_network_wf)
  moreover have "mset (rev ?os) = mset (host_policies ?c)" by simp
  ultimately show ?thesis unfolding Let_def by (rule resolver_order_irrelevant)
qed

end
