(* ===== verification/RangeBuffer.thy ===== *)
theory RangeBuffer
  imports Net
begin

text \<open>
  The bounded byte buffer addressed by absolute offset
  (\<open>crates/reassembly/src/range_buffer.rs\<close>), on which both IP defragmentation and TCP
  reassembly rest. The definitions follow the source function by function; slices and
  unsigned subtractions that would panic are \<open>None\<close>. The abstract view of a buffer is the
  partial function \<open>rb_contents\<close> from absolute offsets to the bytes held there.
\<close>

section \<open>State\<close>

record write_outcome =
  wo_accepted :: nat
  wo_overlapped :: nat
  wo_conflicting :: nat
  wo_replaced :: nat
  wo_refused :: nat
  wo_before_window :: nat

definition default_outcome :: write_outcome where
  "default_outcome = \<lparr>wo_accepted = 0, wo_overlapped = 0, wo_conflicting = 0,
     wo_replaced = 0, wo_refused = 0, wo_before_window = 0\<rparr>"

definition lost_data :: "write_outcome \<Rightarrow> bool" where
  "lost_data out \<longleftrightarrow> 0 < wo_refused out"

type_synonym range = "nat \<times> nat"

record range_buffer =
  rb_base :: nat
  rb_data :: bytes
  rb_covered :: "range list"
  rb_byte_limit :: nat
  rb_range_limit :: nat

definition rb_new :: "nat \<Rightarrow> nat \<Rightarrow> nat \<Rightarrow> range_buffer" where
  "rb_new base byte_limit range_limit =
     \<lparr>rb_base = base, rb_data = [], rb_covered = [],
      rb_byte_limit = max byte_limit 1, rb_range_limit = max range_limit 1\<rparr>"

section \<open>Queries\<close>

definition buffered_bytes :: "range_buffer \<Rightarrow> nat" where
  "buffered_bytes rb = sum_list (map (\<lambda>(s, e). e - s) (rb_covered rb))"

definition range_count :: "range_buffer \<Rightarrow> nat" where
  "range_count rb = length (rb_covered rb)"

definition rb_is_empty :: "range_buffer \<Rightarrow> bool" where
  "rb_is_empty rb \<longleftrightarrow> rb_covered rb = []"

definition contiguous_end :: "range_buffer \<Rightarrow> nat" where
  "contiguous_end rb =
     (case rb_covered rb of
        (s, e) # _ \<Rightarrow> if s = rb_base rb then e else rb_base rb
      | [] \<Rightarrow> rb_base rb)"

definition covered_end :: "range_buffer \<Rightarrow> nat" where
  "covered_end rb = (if rb_covered rb = [] then rb_base rb else snd (last (rb_covered rb)))"

definition touches_existing :: "range_buffer \<Rightarrow> nat \<Rightarrow> nat \<Rightarrow> bool" where
  "touches_existing rb start end = list_ex (\<lambda>(s, e). start \<le> e \<and> s \<le> end) (rb_covered rb)"

section \<open>Writing\<close>

text \<open>Copy \<open>[from, to)\<close> of the write into the buffer; \<open>None\<close> is a panic.\<close>

definition copy_in :: "range_buffer \<Rightarrow> nat \<Rightarrow> nat \<Rightarrow> nat \<Rightarrow> bytes \<Rightarrow> range_buffer option" where
  "copy_in rb from to write_offset bs = do {
     source_start \<leftarrow> usub from write_offset;
     source_end \<leftarrow> usub to write_offset;
     target_start \<leftarrow> usub from (rb_base rb);
     target_end \<leftarrow> usub to (rb_base rb);
     _ \<leftarrow> slice (rb_data rb) target_start target_end;
     src \<leftarrow> slice bs source_start source_end;
     Some (rb\<lparr>rb_data := splice_at (rb_data rb) target_start src\<rparr>) }"

definition count_differing :: "range_buffer \<Rightarrow> nat \<Rightarrow> nat \<Rightarrow> nat \<Rightarrow> bytes \<Rightarrow> nat option" where
  "count_differing rb from to write_offset bs = do {
     source_start \<leftarrow> usub from write_offset;
     source_end \<leftarrow> usub to write_offset;
     target_start \<leftarrow> usub from (rb_base rb);
     target_end \<leftarrow> usub to (rb_base rb);
     tgt \<leftarrow> slice (rb_data rb) target_start target_end;
     src \<leftarrow> slice bs source_start source_end;
     Some (length (filter (\<lambda>(existing, incoming). existing \<noteq> incoming) (zip tgt src))) }"

text \<open>\<open>mark_covered\<close>: one pass over the old ranges, absorbing what touches the new one.\<close>

fun mark_loop :: "range list \<Rightarrow> range \<Rightarrow> range list \<Rightarrow> bool \<Rightarrow> range list" where
  "mark_loop [] merged out inserted = (if inserted then out else out @ [merged])"
| "mark_loop ((s, e) # rs) merged out inserted =
     (if e < fst merged then mark_loop rs merged (out @ [(s, e)]) inserted
      else if snd merged < s then
        (if inserted then mark_loop rs merged (out @ [(s, e)]) inserted
         else mark_loop rs merged (out @ [merged, (s, e)]) True)
      else mark_loop rs (min (fst merged) s, max (snd merged) e) out inserted)"

definition mark_covered :: "range_buffer \<Rightarrow> nat \<Rightarrow> nat \<Rightarrow> range_buffer" where
  "mark_covered rb start end =
     rb\<lparr>rb_covered := mark_loop (rb_covered rb) (start, end) [] False\<rparr>"

text \<open>The walk of \<open>write\<close> over the ranges covered before it, alternating between gaps and
  overlaps; the state is the buffer, the outcome so far and the cursor.\<close>

type_synonym walk_state = "range_buffer \<times> write_outcome \<times> nat"

definition walk_gap :: "nat \<Rightarrow> nat \<Rightarrow> nat \<Rightarrow> bytes \<Rightarrow> walk_state \<Rightarrow> walk_state option" where
  "walk_gap s end offset bs st = (case st of (rb, out, cursor) \<Rightarrow>
     if cursor < s then do {
       let gap_end = min s end;
       rb' \<leftarrow> copy_in rb cursor gap_end offset bs;
       n \<leftarrow> usub gap_end cursor;
       Some (rb', out\<lparr>wo_accepted := wo_accepted out + n\<rparr>, gap_end) }
     else Some st)"

definition walk_overlap ::
    "nat \<Rightarrow> nat \<Rightarrow> nat \<Rightarrow> bytes \<Rightarrow> overlap_policy \<Rightarrow> walk_state \<Rightarrow> walk_state option" where
  "walk_overlap e end offset bs policy st = (case st of (rb, out, cursor) \<Rightarrow>
     let overlap_end = min e end in
     if cursor < overlap_end then do {
       differing \<leftarrow> count_differing rb cursor overlap_end offset bs;
       n \<leftarrow> usub overlap_end cursor;
       let out = out\<lparr>wo_overlapped := wo_overlapped out + n,
                     wo_conflicting := wo_conflicting out + differing\<rparr>;
       (if policy = Last then do {
          rb' \<leftarrow> copy_in rb cursor overlap_end offset bs;
          Some (rb', out\<lparr>wo_replaced := wo_replaced out + differing\<rparr>, overlap_end) }
        else Some (rb, out, overlap_end)) }
     else Some st)"

fun write_walk ::
    "range list \<Rightarrow> nat \<Rightarrow> nat \<Rightarrow> bytes \<Rightarrow> overlap_policy \<Rightarrow> walk_state \<Rightarrow> walk_state option" where
  "write_walk [] end offset bs policy st = Some st"
| "write_walk ((s, e) # rs) end offset bs policy (rb, out, cursor) =
     (if e \<le> cursor then write_walk rs end offset bs policy (rb, out, cursor)
      else if end \<le> s then Some (rb, out, cursor)
      else do {
        st1 \<leftarrow> walk_gap s end offset bs (rb, out, cursor);
        st2 \<leftarrow> walk_overlap e end offset bs policy st1;
        write_walk rs end offset bs policy st2 })"

text \<open>The first half of \<open>write\<close>: the early returns and the trimming to the window. Either
  the write is over with an outcome, or it goes on with a trimmed offset and payload.\<close>

datatype clip = Done write_outcome | Clipped nat bytes write_outcome

definition write_clip :: "range_buffer \<Rightarrow> nat \<Rightarrow> bytes \<Rightarrow> clip option" where
  "write_clip rb offset0 bs0 =
     (if bs0 = [] then Some (Done default_outcome)
      else if saturating_add offset0 (length bs0) \<le> rb_base rb
      then Some (Done (default_outcome\<lparr>wo_before_window := length bs0\<rparr>))
      else do {
        (offset, bs, out) \<leftarrow>
          (if offset0 < rb_base rb then do {
             skip \<leftarrow> usub (rb_base rb) offset0;
             rest \<leftarrow> slice bs0 skip (length bs0);
             Some (rb_base rb, rest, default_outcome\<lparr>wo_before_window := skip\<rparr>) }
           else Some (offset0, bs0, default_outcome));
        let window_end = saturating_add (rb_base rb) (rb_byte_limit rb);
        (if window_end \<le> offset then Some (Done (out\<lparr>wo_refused := length bs\<rparr>))
         else do {
           (bs, out) \<leftarrow>
             (if window_end < saturating_add offset (length bs) then do {
                keep \<leftarrow> usub window_end offset;
                lost \<leftarrow> usub (length bs) keep;
                kept \<leftarrow> slice bs 0 keep;
                Some (kept, out\<lparr>wo_refused := lost\<rparr>) }
              else Some (bs, out));
           (if bs = [] then Some (Done out) else Some (Clipped offset bs out)) }) })"

text \<open>The second half: the range cap, growing the store, the walk, and the coverage.\<close>

definition write_apply ::
    "range_buffer \<Rightarrow> nat \<Rightarrow> bytes \<Rightarrow> overlap_policy \<Rightarrow> write_outcome \<Rightarrow>
     (range_buffer \<times> write_outcome) option" where
  "write_apply rb0 offset bs policy out0 = (let end = saturating_add offset (length bs) in
     if rb_range_limit rb0 \<le> length (rb_covered rb0) \<and> \<not> touches_existing rb0 offset end
     then Some (rb0, out0\<lparr>wo_refused := wo_refused out0 + length bs\<rparr>)
     else do {
       needed \<leftarrow> usub end (rb_base rb0);
       let rb1 = (if length (rb_data rb0) < needed
                  then rb0\<lparr>rb_data := resize (rb_data rb0) needed 0\<rparr> else rb0);
       (rb2, out, cursor) \<leftarrow> write_walk (rb_covered rb1) end offset bs policy (rb1, out0, offset);
       (rb3, out) \<leftarrow>
         (if cursor < end then do {
            rb3 \<leftarrow> copy_in rb2 cursor end offset bs;
            n \<leftarrow> usub end cursor;
            Some (rb3, out\<lparr>wo_accepted := wo_accepted out + n\<rparr>) }
          else Some (rb2, out));
       Some (mark_covered rb3 offset end, out) })"

definition rb_write ::
    "range_buffer \<Rightarrow> nat \<Rightarrow> bytes \<Rightarrow> overlap_policy \<Rightarrow> (range_buffer \<times> write_outcome) option" where
  "rb_write rb offset bs policy = do {
     c \<leftarrow> write_clip rb offset bs;
     (case c of Done out \<Rightarrow> Some (rb, out)
      | Clipped offset' bs' out \<Rightarrow> write_apply rb offset' bs' policy out) }"

section \<open>Draining\<close>

definition consume :: "range_buffer \<Rightarrow> nat \<Rightarrow> range_buffer" where
  "consume rb count = (let base = rb_base rb + count in
     rb\<lparr>rb_data := drop count (rb_data rb), rb_base := base,
        rb_covered := filter (\<lambda>(s, e). base < e)
          (map (\<lambda>(s, e). (max s base, e)) (rb_covered rb))\<rparr>)"

text \<open>Returns the buffer, the bytes appended to the output and how many they are.\<close>

definition drain_contiguous_upto ::
    "range_buffer \<Rightarrow> nat \<Rightarrow> bytes \<Rightarrow> (range_buffer \<times> bytes \<times> nat) option" where
  "drain_contiguous_upto rb limit out = (let end = min (contiguous_end rb) limit in
     if end \<le> rb_base rb then Some (rb, out, 0)
     else do {
       count \<leftarrow> usub end (rb_base rb);
       moved \<leftarrow> slice (rb_data rb) 0 count;
       Some (consume rb count, out @ moved, count) })"

definition drain_contiguous :: "range_buffer \<Rightarrow> bytes \<Rightarrow> (range_buffer \<times> bytes \<times> nat) option" where
  "drain_contiguous rb out = drain_contiguous_upto rb u64_max out"

definition rb_reset :: "range_buffer \<Rightarrow> nat \<Rightarrow> range_buffer" where
  "rb_reset rb base = rb\<lparr>rb_data := [], rb_covered := [], rb_base := base\<rparr>"

definition peek_contiguous :: "range_buffer \<Rightarrow> bytes option" where
  "peek_contiguous rb = do {
     count \<leftarrow> usub (contiguous_end rb) (rb_base rb);
     slice (rb_data rb) 0 (min count (length (rb_data rb))) }"

section \<open>Covered ranges\<close>

text \<open>Whether an offset lies in one of the ranges.\<close>

definition cov :: "range list \<Rightarrow> nat \<Rightarrow> bool" where
  "cov rs k = list_ex (\<lambda>(s, e). s \<le> k \<and> k < e) rs"

text \<open>Sorted, disjoint, non-touching and non-empty: the source's invariant on \<open>covered\<close>.\<close>

definition separated :: "range list \<Rightarrow> bool" where
  "separated rs \<longleftrightarrow> sorted_wrt (\<lambda>r q. snd r < fst q) rs \<and> (\<forall>r\<in>set rs. fst r < snd r)"

lemma cov_simps [simp]:
  "\<not> cov [] k" "cov ((s, e) # rs) k \<longleftrightarrow> s \<le> k \<and> k < e \<or> cov rs k"
  "cov (rs @ qs) k \<longleftrightarrow> cov rs k \<or> cov qs k"
  by (auto simp: cov_def list_ex_iff)

lemma cov_iff: "cov rs k \<longleftrightarrow> (\<exists>r\<in>set rs. fst r \<le> k \<and> k < snd r)"
  by (force simp: cov_def list_ex_iff)

lemma separated_simps [simp]:
  "separated []"
  "separated ((s, e) # rs) \<longleftrightarrow> s < e \<and> (\<forall>r\<in>set rs. e < fst r) \<and> separated rs"
  by (auto simp: separated_def)

lemma separated_append:
  "separated (rs @ qs) \<longleftrightarrow>
     separated rs \<and> separated qs \<and> (\<forall>r\<in>set rs. \<forall>q\<in>set qs. snd r < fst q)"
  by (auto simp: separated_def sorted_wrt_append)

lemma separated_ltD: "separated rs \<Longrightarrow> r \<in> set rs \<Longrightarrow> fst r < snd r"
  by (simp add: separated_def)

lemma cov_tail: "separated ((s, e) # rs) \<Longrightarrow> cov rs k \<Longrightarrow> e < k"
  by (fastforce simp: cov_iff)

text \<open>Inserting a range into a separated list, as a reference definition.\<close>

fun insert_range :: "range list \<Rightarrow> range \<Rightarrow> range list" where
  "insert_range [] m = [m]"
| "insert_range ((s, e) # rs) m =
     (if e < fst m then (s, e) # insert_range rs m
      else if snd m < s then m # (s, e) # rs
      else insert_range rs (min (fst m) s, max (snd m) e))"

lemma mark_loop_done:
  "separated rs \<Longrightarrow> (\<forall>r\<in>set rs. snd m < fst r) \<Longrightarrow> fst m \<le> snd m \<Longrightarrow>
     mark_loop rs m out True = out @ rs"
proof (induction rs arbitrary: out)
  case Nil
  then show ?case by simp
next
  case (Cons r rs)
  obtain s e where r: "r = (s, e)" by (cases r)
  from Cons.prems have "\<not> e < fst m" "snd m < s" by (auto simp: r)
  with Cons show ?case by (simp add: r)
qed

lemma mark_loop_insert_range:
  "separated rs \<Longrightarrow> fst m \<le> snd m \<Longrightarrow> mark_loop rs m out False = out @ insert_range rs m"
proof (induction rs arbitrary: m out)
  case Nil
  then show ?case by simp
next
  case (Cons r rs)
  obtain s e where r: "r = (s, e)" by (cases r)
  from Cons.prems have rs: "separated rs" "\<forall>q\<in>set rs. e < fst q" "s < e" by (auto simp: r)
  show ?case
  proof (cases "\<not> e < fst m \<and> snd m < s")
    case True
    with rs Cons.prems(2) have "mark_loop rs m (out @ [m, (s, e)]) True = out @ [m, (s, e)] @ rs"
      by (subst mark_loop_done) (auto simp: r)
    with True show ?thesis by (simp add: r)
  next
    case False
    with Cons.IH rs Cons.prems(2) show ?thesis by (auto simp: r min_def max_def)
  qed
qed

lemma cov_insert_range:
  "separated rs \<Longrightarrow> fst m < snd m \<Longrightarrow>
     cov (insert_range rs m) k \<longleftrightarrow> cov rs k \<or> (fst m \<le> k \<and> k < snd m)"
  by (induction rs m rule: insert_range.induct) (auto simp: min_def max_def split: if_splits)

lemma insert_range_lower:
  "\<forall>r\<in>set rs. b < fst r \<Longrightarrow> b < fst m \<Longrightarrow> \<forall>r\<in>set (insert_range rs m). b < fst r"
  by (induction rs m rule: insert_range.induct) (auto simp: min_def)

lemma insert_range_upper:
  "\<forall>r\<in>set rs. snd r \<le> b \<Longrightarrow> snd m \<le> b \<Longrightarrow> \<forall>r\<in>set (insert_range rs m). snd r \<le> b"
  by (induction rs m rule: insert_range.induct) (auto simp: max_def)

lemma insert_range_lower_eq:
  "\<forall>r\<in>set rs. b \<le> fst r \<Longrightarrow> b \<le> fst m \<Longrightarrow> \<forall>r\<in>set (insert_range rs m). b \<le> fst r"
  by (induction rs m rule: insert_range.induct) (auto simp: min_def)

lemma separated_insert_range:
  "separated rs \<Longrightarrow> fst m < snd m \<Longrightarrow> separated (insert_range rs m)"
proof (induction rs m rule: insert_range.induct)
  case (1 m)
  then show ?case by (cases m) simp
next
  case (2 s e rs m)
  then have rs: "separated rs" "\<forall>q\<in>set rs. e < fst q" "s < e" by auto
  consider "e < fst m" | "\<not> e < fst m" "snd m < s" | "\<not> e < fst m" "\<not> snd m < s" by blast
  then show ?case
  proof cases
    case 1
    with 2 rs have "separated (insert_range rs m)" by simp
    with 1 rs insert_range_lower [of rs e m] show ?thesis by simp
  next
    case 2
    with \<open>fst m < snd m\<close> rs show ?thesis by (cases m) auto
  next
    case 3
    with 2 rs show ?thesis by (auto simp: min_def max_def)
  qed
qed

lemma length_insert_range: "length (insert_range rs m) \<le> Suc (length rs)"
  by (induction rs m rule: insert_range.induct) auto

text \<open>A range that touches an old one takes its place: the list does not grow.\<close>

lemma length_insert_range_touch:
  "separated rs \<Longrightarrow> list_ex (\<lambda>(s, e). fst m \<le> e \<and> s \<le> snd m) rs \<Longrightarrow>
     length (insert_range rs m) \<le> length rs"
proof (induction rs m rule: insert_range.induct)
  case (1 m)
  then show ?case by simp
next
  case (2 s e rs m)
  consider "e < fst m" | "\<not> e < fst m" "snd m < s" | "\<not> e < fst m" "\<not> snd m < s" by blast
  then show ?case
  proof cases
    case 1
    with 2 show ?thesis by auto
  next
    case gap: 2
    with 2 have False by (fastforce simp: list_ex_iff)
    then show ?thesis ..
  next
    case 3
    then show ?thesis using length_insert_range [of rs "(min (fst m) s, max (snd m) e)"] by simp
  qed
qed

section \<open>The walk\<close>

text \<open>Counting the offsets of \<open>[a, b)\<close> with a property.\<close>

definition count_in :: "(nat \<Rightarrow> bool) \<Rightarrow> nat \<Rightarrow> nat \<Rightarrow> nat" where
  "count_in P a b = length (filter P [a..<b])"

lemma count_in_empty [simp]: "b \<le> a \<Longrightarrow> count_in P a b = 0"
  by (simp add: count_in_def)

lemma count_in_split: "a \<le> b \<Longrightarrow> b \<le> c \<Longrightarrow> count_in P a c = count_in P a b + count_in P b c"
  unfolding count_in_def
  by (metis filter_append le_iff_add length_append upt_add_eq_append)

lemma count_in_cong:
  "(\<And>k. a \<le> k \<Longrightarrow> k < b \<Longrightarrow> P k = Q k) \<Longrightarrow> count_in P a b = count_in Q a b"
  by (auto simp: count_in_def intro!: arg_cong [of _ _ length] filter_cong)

lemma count_in_all: "(\<And>k. a \<le> k \<Longrightarrow> k < b \<Longrightarrow> P k) \<Longrightarrow> count_in P a b = b - a"
proof -
  assume "\<And>k. a \<le> k \<Longrightarrow> k < b \<Longrightarrow> P k"
  then have "filter P [a..<b] = [a..<b]" by (simp add: filter_id_conv)
  then show ?thesis by (simp add: count_in_def)
qed

lemma count_in_none: "(\<And>k. a \<le> k \<Longrightarrow> k < b \<Longrightarrow> \<not> P k) \<Longrightarrow> count_in P a b = 0"
  by (simp add: count_in_def filter_empty_conv)

lemma count_in_compl: "count_in P a b + count_in (\<lambda>k. \<not> P k) a b = b - a"
  unfolding count_in_def by (metis length_upt sum_length_filter_compl)

lemma count_in_mono:
  "(\<And>k. a \<le> k \<Longrightarrow> k < b \<Longrightarrow> P k \<Longrightarrow> Q k) \<Longrightarrow> count_in P a b \<le> count_in Q a b"
proof -
  assume sub: "\<And>k. a \<le> k \<Longrightarrow> k < b \<Longrightarrow> P k \<Longrightarrow> Q k"
  have "filter P [a..<b] = filter P (filter Q [a..<b])"
    using sub by (auto simp: filter_filter intro!: filter_cong)
  then show ?thesis
    using length_filter_le [of P "filter Q [a..<b]"] by (simp add: count_in_def)
qed

text \<open>The byte of the buffer at an absolute offset.\<close>

definition byte_at :: "range_buffer \<Rightarrow> nat \<Rightarrow> byte" where
  "byte_at rb k = rb_data rb ! (k - rb_base rb)"

text \<open>When a part of a write lies inside the store: no slice or subtraction can fail.\<close>

definition in_store :: "range_buffer \<Rightarrow> nat \<Rightarrow> nat \<Rightarrow> nat \<Rightarrow> bytes \<Rightarrow> bool" where
  "in_store rb from to offset bs \<longleftrightarrow>
     rb_base rb \<le> offset \<and> offset \<le> from \<and> from \<le> to \<and> to \<le> offset + length bs \<and>
     to \<le> rb_base rb + length (rb_data rb)"

lemma copy_in_Some:
  assumes "in_store rb from to offset bs"
  shows "\<exists>d. copy_in rb from to offset bs = Some (rb\<lparr>rb_data := d\<rparr>) \<and>
    length d = length (rb_data rb) \<and>
    (\<forall>i < length d. d ! i = (if from \<le> rb_base rb + i \<and> rb_base rb + i < to
        then bs ! (rb_base rb + i - offset) else rb_data rb ! i))"
proof -
  let ?src = "take (to - from) (drop (from - offset) bs)"
  let ?d = "splice_at (rb_data rb) (from - rb_base rb) ?src"
  have len: "length ?src = to - from"
    using assms by (auto simp: in_store_def)
  have "copy_in rb from to offset bs = Some (rb\<lparr>rb_data := ?d\<rparr>)"
    using assms by (auto simp: copy_in_def in_store_def rust_simps)
  moreover have "length ?d = length (rb_data rb)"
    using assms len by (intro length_splice_at) (auto simp: in_store_def)
  moreover have "?d ! i = (if from \<le> rb_base rb + i \<and> rb_base rb + i < to
      then bs ! (rb_base rb + i - offset) else rb_data rb ! i)"
    if "i < length (rb_data rb)" for i
  proof -
    have "?d ! i = (if from - rb_base rb \<le> i \<and> i < from - rb_base rb + length ?src
        then ?src ! (i - (from - rb_base rb)) else rb_data rb ! i)"
      using assms that len by (intro nth_splice_at) (auto simp: in_store_def)
    with assms len show ?thesis by (auto simp: in_store_def add.commute)
  qed
  ultimately show ?thesis by (intro exI [of _ ?d]) simp
qed

lemma count_differing_Some:
  assumes "in_store rb from to offset bs"
  shows "count_differing rb from to offset bs =
    Some (count_in (\<lambda>k. byte_at rb k \<noteq> bs ! (k - offset)) from to)"
proof -
  let ?tgt = "take (to - from) (drop (from - rb_base rb) (rb_data rb))"
  let ?src = "take (to - from) (drop (from - offset) bs)"
  have "zip ?tgt ?src = map (\<lambda>k. (byte_at rb k, bs ! (k - offset))) [from..<to]"
    using assms by (intro nth_equalityI) (auto simp: in_store_def byte_at_def)
  with assms show ?thesis
    by (auto simp: count_differing_def in_store_def rust_simps count_in_def filter_map o_def)
qed

text \<open>
  What one stretch of the walk does, in the abstract: over \<open>[c, c')\<close> the bytes already
  covered are kept or replaced by the policy, the others are written, and the outcome counts
  the offsets of each kind.
\<close>

definition resolved :: "range list \<Rightarrow> overlap_policy \<Rightarrow> range_buffer \<Rightarrow> nat \<Rightarrow> bytes \<Rightarrow> nat \<Rightarrow> byte" where
  "resolved rs policy rb offset bs k =
     (if cov rs k \<and> policy = First then byte_at rb k else bs ! (k - offset))"

definition differs :: "range list \<Rightarrow> range_buffer \<Rightarrow> nat \<Rightarrow> bytes \<Rightarrow> nat \<Rightarrow> bool" where
  "differs rs rb offset bs k \<longleftrightarrow> cov rs k \<and> byte_at rb k \<noteq> bs ! (k - offset)"

definition walked ::
    "range list \<Rightarrow> overlap_policy \<Rightarrow> nat \<Rightarrow> bytes \<Rightarrow> walk_state \<Rightarrow> walk_state \<Rightarrow> bool" where
  "walked rs policy offset bs st st' = (case (st, st') of ((rb, out, c), (rb', out', c')) \<Rightarrow>
     (\<exists>d. rb' = rb\<lparr>rb_data := d\<rparr> \<and> length d = length (rb_data rb)) \<and> c \<le> c' \<and>
     (\<forall>k. rb_base rb \<le> k \<longrightarrow> k < rb_base rb + length (rb_data rb) \<longrightarrow>
        byte_at rb' k =
          (if c \<le> k \<and> k < c' then resolved rs policy rb offset bs k else byte_at rb k)) \<and>
     wo_accepted out' = wo_accepted out + count_in (\<lambda>k. \<not> cov rs k) c c' \<and>
     wo_overlapped out' = wo_overlapped out + count_in (cov rs) c c' \<and>
     wo_conflicting out' = wo_conflicting out + count_in (differs rs rb offset bs) c c' \<and>
     wo_replaced out' = wo_replaced out +
       (if policy = Last then count_in (differs rs rb offset bs) c c' else 0) \<and>
     wo_refused out' = wo_refused out \<and> wo_before_window out' = wo_before_window out)"

lemma walked_refl: "walked rs policy offset bs st st"
  by (cases st) (auto simp: walked_def intro!: exI [of _ "rb_data (fst st)"])

lemma walked_trans:
  assumes "walked rs policy offset bs (rb, out, c) (rb1, out1, c1)"
    and "walked rs policy offset bs (rb1, out1, c1) (rb2, out2, c2)"
    and "rb_base rb \<le> c" and "c2 \<le> rb_base rb + length (rb_data rb)"
  shows "walked rs policy offset bs (rb, out, c) (rb2, out2, c2)"
proof -
  obtain d1 d2 where rb: "rb1 = rb\<lparr>rb_data := d1\<rparr>" "length d1 = length (rb_data rb)"
      "rb2 = rb\<lparr>rb_data := d2\<rparr>" "length d2 = length (rb_data rb)"
    using assms(1,2) by (auto simp: walked_def)
  have c: "c \<le> c1" "c1 \<le> c2" using assms(1,2) by (auto simp: walked_def)
  have old: "byte_at rb1 k = byte_at rb k" if "c1 \<le> k" "k < c2" for k
    using assms(1,3,4) c that by (auto simp: walked_def)
  have res: "resolved rs policy rb1 offset bs k = resolved rs policy rb offset bs k"
    if "c1 \<le> k" "k < c2" for k
    using old [OF that] by (simp add: resolved_def)
  have dif: "count_in (differs rs rb1 offset bs) c1 c2 = count_in (differs rs rb offset bs) c1 c2"
    by (rule count_in_cong) (simp add: differs_def old)
  have "byte_at rb2 k = (if c \<le> k \<and> k < c2 then resolved rs policy rb offset bs k else byte_at rb k)"
    if "rb_base rb \<le> k" "k < rb_base rb + length (rb_data rb)" for k
    using assms(1,2) that rb c res by (auto simp: walked_def)
  then show ?thesis
    using assms(1,2) rb c dif by (auto simp: walked_def count_in_split [of c c1 c2])
qed

lemma walk_gap_walked:
  assumes "in_store rb c end offset bs" and "\<And>k. c \<le> k \<Longrightarrow> k < s \<Longrightarrow> \<not> cov rs k"
  shows "\<exists>rb' out'. walk_gap s end offset bs (rb, out, c) = Some (rb', out', max c (min s end)) \<and>
    walked rs policy offset bs (rb, out, c) (rb', out', max c (min s end))"
proof (cases "c < s")
  case False
  then have "max c (min s end) = c" by simp
  with False walked_refl show ?thesis by (auto simp: walk_gap_def)
next
  case True
  let ?g = "min s end"
  have c: "c \<le> end" using assms by (simp add: in_store_def)
  with True have g: "c \<le> ?g" "max c ?g = ?g" by simp_all
  have "in_store rb c ?g offset bs" using assms(1) g by (auto simp: in_store_def)
  from copy_in_Some [OF this] obtain d where
    d: "copy_in rb c ?g offset bs = Some (rb\<lparr>rb_data := d\<rparr>)" "length d = length (rb_data rb)"
      "\<And>i. i < length d \<Longrightarrow> d ! i = (if c \<le> rb_base rb + i \<and> rb_base rb + i < ?g
          then bs ! (rb_base rb + i - offset) else rb_data rb ! i)"
    by blast
  have cnt: "count_in (\<lambda>k. \<not> cov rs k) c ?g = ?g - c" "count_in (cov rs) c ?g = 0"
      "count_in (differs rs rb offset bs) c ?g = 0"
    using assms(2) by (auto intro!: count_in_all count_in_none simp: differs_def)
  have "walked rs policy offset bs (rb, out, c)
      (rb\<lparr>rb_data := d\<rparr>, out\<lparr>wo_accepted := wo_accepted out + (?g - c)\<rparr>, ?g)"
    using assms(2) d(2,3) g cnt by (auto simp: walked_def byte_at_def resolved_def)
  with True g d(1) show ?thesis by (simp add: walk_gap_def Let_def rust_simps)
qed

lemma walk_overlap_walked:
  assumes "in_store rb c end offset bs" and "\<And>k. c \<le> k \<Longrightarrow> k < e \<Longrightarrow> k < end \<Longrightarrow> cov rs k"
  shows "\<exists>rb' out'. walk_overlap e end offset bs policy (rb, out, c) =
      Some (rb', out', max c (min e end)) \<and>
    walked rs policy offset bs (rb, out, c) (rb', out', max c (min e end))"
proof (cases "c < min e end")
  case False
  then have "max c (min e end) = c" by (auto simp: max_def min_def)
  with False walked_refl show ?thesis by (auto simp: walk_overlap_def)
next
  case True
  let ?g = "min e end"
  from True have g: "c \<le> ?g" "max c ?g = ?g" by simp_all
  have st: "in_store rb c ?g offset bs" using assms(1) g by (auto simp: in_store_def)
  from copy_in_Some [OF this] obtain d where
    d: "copy_in rb c ?g offset bs = Some (rb\<lparr>rb_data := d\<rparr>)" "length d = length (rb_data rb)"
      "\<And>i. i < length d \<Longrightarrow> d ! i = (if c \<le> rb_base rb + i \<and> rb_base rb + i < ?g
          then bs ! (rb_base rb + i - offset) else rb_data rb ! i)"
    by blast
  let ?n = "count_in (\<lambda>k. byte_at rb k \<noteq> bs ! (k - offset)) c ?g"
  let ?out = "out\<lparr>wo_overlapped := wo_overlapped out + (?g - c),
      wo_conflicting := wo_conflicting out + ?n\<rparr>"
  have cnt: "count_in (\<lambda>k. \<not> cov rs k) c ?g = 0" "count_in (cov rs) c ?g = ?g - c"
      "count_in (differs rs rb offset bs) c ?g = ?n"
    using assms(2) by (auto intro!: count_in_all count_in_none count_in_cong simp: differs_def)
  show ?thesis
  proof (cases policy)
    case First
    have "walked rs First offset bs (rb, out, c) (rb, ?out, ?g)"
      using assms(2) g cnt
      by (auto simp: walked_def resolved_def intro!: exI [of _ "rb_data rb"])
    with First True g count_differing_Some [OF st] show ?thesis
      by (simp add: walk_overlap_def Let_def rust_simps)
  next
    case Last
    have "walked rs Last offset bs (rb, out, c)
        (rb\<lparr>rb_data := d\<rparr>, ?out\<lparr>wo_replaced := wo_replaced out + ?n\<rparr>, ?g)"
      using d(2,3) g cnt by (auto simp: walked_def byte_at_def resolved_def)
    with Last True g d(1) count_differing_Some [OF st] show ?thesis
      by (simp add: walk_overlap_def Let_def rust_simps)
  qed
qed

lemma walked_cong:
  assumes "\<And>k. c \<le> k \<Longrightarrow> k < c' \<Longrightarrow> cov rs k = cov qs k"
    and "walked rs policy offset bs (rb, out, c) (rb', out', c')"
  shows "walked qs policy offset bs (rb, out, c) (rb', out', c')"
proof -
  have "count_in (\<lambda>k. \<not> cov rs k) c c' = count_in (\<lambda>k. \<not> cov qs k) c c'"
      "count_in (cov rs) c c' = count_in (cov qs) c c'"
      "count_in (differs rs rb offset bs) c c' = count_in (differs qs rb offset bs) c c'"
    using assms(1) by (auto intro!: count_in_cong simp: differs_def)
  moreover have "resolved rs policy rb offset bs k = resolved qs policy rb offset bs k"
    if "c \<le> k" "k < c'" for k
    using assms(1) [OF that] by (simp add: resolved_def)
  ultimately show ?thesis using assms(2) by (auto simp: walked_def)
qed

lemma walked_in_store:
  "walked rs policy offset bs (rb, out, c) (rb', out', c') \<Longrightarrow> in_store rb c end offset bs \<Longrightarrow>
     c' \<le> end \<Longrightarrow> in_store rb' c' end offset bs"
  by (auto simp: walked_def in_store_def)

text \<open>One iteration that reaches an old range: its gap, then its overlap.\<close>

lemma walk_iteration:
  assumes "separated ((s, e) # rs)" "in_store rb c end offset bs" "c < e"
  shows "\<exists>st1 rb2 out2. walk_gap s end offset bs (rb, out, c) = Some st1 \<and>
    walk_overlap e end offset bs policy st1 = Some (rb2, out2, max (max c (min s end)) (min e end)) \<and>
    walked ((s, e) # rs) policy offset bs (rb, out, c)
      (rb2, out2, max (max c (min s end)) (min e end))"
proof -
  let ?c1 = "max c (min s end)"
  let ?c2 = "max ?c1 (min e end)"
  have le: "c \<le> end" using assms(2) by (simp add: in_store_def)
  have nocov: "\<not> cov ((s, e) # rs) k" if "c \<le> k" "k < s" for k
    using assms(1) cov_tail [OF assms(1), of k] that by auto
  obtain rb1 out1 where g: "walk_gap s end offset bs (rb, out, c) = Some (rb1, out1, ?c1)"
      "walked ((s, e) # rs) policy offset bs (rb, out, c) (rb1, out1, ?c1)"
    using walk_gap_walked [OF assms(2) nocov] by blast
  have st1: "in_store rb1 ?c1 end offset bs"
    using walked_in_store [OF g(2) assms(2)] le by simp
  have iscov: "cov ((s, e) # rs) k" if "?c1 \<le> k" "k < e" "k < end" for k
    using that by auto
  obtain rb2 out2 where o: "walk_overlap e end offset bs policy (rb1, out1, ?c1) =
        Some (rb2, out2, ?c2)"
      "walked ((s, e) # rs) policy offset bs (rb1, out1, ?c1) (rb2, out2, ?c2)"
    using walk_overlap_walked [OF st1 iscov] by blast
  have "walked ((s, e) # rs) policy offset bs (rb, out, c) (rb2, out2, ?c2)"
    by (rule walked_trans [OF g(2) o(2)]) (use assms(2) le in \<open>auto simp: in_store_def\<close>)
  with g(1) o(1) show ?thesis by blast
qed

text \<open>The walk stops where no old range is left before the end of the write.\<close>

lemma write_walk_walked:
  assumes "separated rs" "in_store rb c end offset bs"
  shows "\<exists>rb' out' c'. write_walk rs end offset bs policy (rb, out, c) = Some (rb', out', c') \<and>
    walked rs policy offset bs (rb, out, c) (rb', out', c') \<and> c' \<le> end \<and>
    (\<forall>k. c' \<le> k \<longrightarrow> k < end \<longrightarrow> \<not> cov rs k)"
  using assms
proof (induction rs arbitrary: rb out c)
  case Nil
  then show ?case by (auto simp: walked_refl in_store_def)
next
  case (Cons r rs)
  obtain s e where r: "r = (s, e)" by (cases r)
  from Cons.prems have sep: "separated rs" "s < e" "\<And>k. cov rs k \<Longrightarrow> e < k"
    using cov_tail [of s e rs] by (auto simp: r)
  have le: "c \<le> end" using Cons.prems(2) by (simp add: in_store_def)
  consider "e \<le> c" | "c < e" "end \<le> s" | "c < e" "\<not> end \<le> s" by linarith
  then show ?case
  proof cases
    case 1
    from Cons.IH [OF sep(1) Cons.prems(2)] obtain rb' out' c' where
      w: "write_walk rs end offset bs policy (rb, out, c) = Some (rb', out', c')"
        "walked rs policy offset bs (rb, out, c) (rb', out', c')" "c' \<le> end"
        "\<forall>k. c' \<le> k \<longrightarrow> k < end \<longrightarrow> \<not> cov rs k"
      by blast
    have "c \<le> c'" using w(2) by (simp add: walked_def)
    with 1 w walked_cong [of c c' rs "r # rs"] show ?thesis by (auto simp: r)
  next
    case 2
    have "\<not> cov (r # rs) k" if "k < end" for k
      using 2 sep(2) sep(3) [of k] that by (auto simp: r)
    with 2 le show ?thesis by (auto simp: r walked_refl)
  next
    case 3
    let ?c2 = "max (max c (min s end)) (min e end)"
    obtain st1 rb2 out2 where i: "walk_gap s end offset bs (rb, out, c) = Some st1"
        "walk_overlap e end offset bs policy st1 = Some (rb2, out2, ?c2)"
        "walked (r # rs) policy offset bs (rb, out, c) (rb2, out2, ?c2)"
      using walk_iteration [OF Cons.prems(1) [unfolded r] Cons.prems(2) 3(1)]
      unfolding r by blast
    have "in_store rb2 ?c2 end offset bs"
      using walked_in_store [OF i(3) Cons.prems(2)] le by simp
    from Cons.IH [OF sep(1) this] obtain rb' out' c' where
      w: "write_walk rs end offset bs policy (rb2, out2, ?c2) = Some (rb', out', c')"
        "walked rs policy offset bs (rb2, out2, ?c2) (rb', out', c')" "c' \<le> end"
        "\<forall>k. c' \<le> k \<longrightarrow> k < end \<longrightarrow> \<not> cov rs k"
      by blast
    have "?c2 \<le> c'" using w(2) by (simp add: walked_def)
    have "walked (r # rs) policy offset bs (rb2, out2, ?c2) (rb', out', c')"
      by (rule walked_cong [OF _ w(2)]) (use w(3) in \<open>auto simp: r\<close>)
    then have "walked (r # rs) policy offset bs (rb, out, c) (rb', out', c')"
      by (rule walked_trans [OF i(3)])
        (use Cons.prems(2) w(3) in \<open>auto simp: in_store_def\<close>)
    moreover have "\<not> cov (r # rs) k" if "c' \<le> k" "k < end" for k
      using w(4) that \<open>?c2 \<le> c'\<close> by (auto simp: r)
    ultimately show ?thesis using 3 i(1,2) w(1,3) by (auto simp: r)
  qed
qed

section \<open>The invariant and the abstract view\<close>

definition rb_wf :: "range_buffer \<Rightarrow> bool" where
  "rb_wf rb \<longleftrightarrow> separated (rb_covered rb) \<and>
     (\<forall>r\<in>set (rb_covered rb). rb_base rb \<le> fst r \<and> snd r \<le> rb_base rb + length (rb_data rb)) \<and>
     rb_base rb + length (rb_data rb) \<le> u64_max \<and>
     length (rb_data rb) \<le> rb_byte_limit rb \<and>
     length (rb_covered rb) \<le> rb_range_limit rb \<and>
     1 \<le> rb_byte_limit rb \<and> 1 \<le> rb_range_limit rb"

definition rb_contents :: "range_buffer \<Rightarrow> nat \<Rightarrow> byte option" where
  "rb_contents rb k = (if cov (rb_covered rb) k then Some (byte_at rb k) else None)"

lemma rb_new_wf: "base \<le> u64_max \<Longrightarrow> rb_wf (rb_new base bl rl)"
  by (simp add: rb_wf_def rb_new_def)

lemma rb_contents_new [simp]: "rb_contents (rb_new base bl rl) = Map.empty"
  by (auto simp: rb_contents_def rb_new_def)

lemma rb_reset_wf: "rb_wf rb \<Longrightarrow> base \<le> u64_max \<Longrightarrow> rb_wf (rb_reset rb base)"
  by (simp add: rb_wf_def rb_reset_def)

lemma rb_contents_reset [simp]: "rb_contents (rb_reset rb base) = Map.empty"
  by (auto simp: rb_contents_def rb_reset_def)

lemma cov_window:
  "rb_wf rb \<Longrightarrow> cov (rb_covered rb) k \<Longrightarrow>
     rb_base rb \<le> k \<and> k < rb_base rb + length (rb_data rb)"
  by (fastforce simp: rb_wf_def cov_iff)

text \<open>Growing the store changes no byte that is covered.\<close>

definition grown :: "range_buffer \<Rightarrow> nat \<Rightarrow> range_buffer" where
  "grown rb needed = (if length (rb_data rb) < needed
     then rb\<lparr>rb_data := resize (rb_data rb) needed 0\<rparr> else rb)"

lemma grown_simps [simp]:
  "rb_base (grown rb n) = rb_base rb" "rb_covered (grown rb n) = rb_covered rb"
  "rb_byte_limit (grown rb n) = rb_byte_limit rb" "rb_range_limit (grown rb n) = rb_range_limit rb"
  "length (rb_data (grown rb n)) = max (length (rb_data rb)) n"
  by (auto simp: grown_def)

lemma byte_at_grown:
  "rb_wf rb \<Longrightarrow> cov (rb_covered rb) k \<Longrightarrow> byte_at (grown rb n) k = byte_at rb k"
  using cov_window [of rb k] by (auto simp: grown_def byte_at_def nth_resize)

text \<open>What a write that passes the caps does to the abstract view.\<close>

definition written ::
    "(nat \<Rightarrow> byte option) \<Rightarrow> nat \<Rightarrow> nat \<Rightarrow> bytes \<Rightarrow> overlap_policy \<Rightarrow> nat \<Rightarrow> nat \<Rightarrow> byte option" where
  "written f from to bs policy offset k =
     (if from \<le> k \<and> k < to
      then (case f k of
              None \<Rightarrow> Some (bs ! (k - offset))
            | Some b \<Rightarrow> Some (if policy = Last then bs ! (k - offset) else b))
      else f k)"

definition conflicts :: "range_buffer \<Rightarrow> nat \<Rightarrow> bytes \<Rightarrow> nat \<Rightarrow> bool" where
  "conflicts rb offset bs k \<longleftrightarrow>
     (case rb_contents rb k of None \<Rightarrow> False | Some b \<Rightarrow> b \<noteq> bs ! (k - offset))"

definition held :: "range_buffer \<Rightarrow> nat \<Rightarrow> bool" where
  "held rb k \<longleftrightarrow> rb_contents rb k \<noteq> None"

lemma held_iff [simp]: "held rb k \<longleftrightarrow> cov (rb_covered rb) k"
  by (simp add: held_def rb_contents_def)

definition range_capped :: "range_buffer \<Rightarrow> nat \<Rightarrow> nat \<Rightarrow> bool" where
  "range_capped rb offset end \<longleftrightarrow>
     rb_range_limit rb \<le> length (rb_covered rb) \<and> \<not> touches_existing rb offset end"

text \<open>The walk and the final stretch together fill \<open>[offset, end)\<close>.\<close>

lemma walk_to_end:
  assumes "separated rs" "in_store rb offset end offset bs"
  shows "\<exists>rb' out'. (do {
      (rb2, out, cursor) \<leftarrow> write_walk rs end offset bs policy (rb, out0, offset);
      (if cursor < end then do {
         rb3 \<leftarrow> copy_in rb2 cursor end offset bs;
         n \<leftarrow> usub end cursor;
         Some (rb3, out\<lparr>wo_accepted := wo_accepted out + n\<rparr>) }
       else Some (rb2, out)) }) = Some (rb', out') \<and>
    walked rs policy offset bs (rb, out0, offset) (rb', out', end)"
proof -
  obtain rb2 out c where
    w: "write_walk rs end offset bs policy (rb, out0, offset) = Some (rb2, out, c)"
      "walked rs policy offset bs (rb, out0, offset) (rb2, out, c)" "c \<le> end"
      "\<And>k. c \<le> k \<Longrightarrow> k < end \<Longrightarrow> \<not> cov rs k"
    using write_walk_walked [OF assms] by blast
  have st: "in_store rb2 c end offset bs"
    by (rule walked_in_store [OF w(2) assms(2) w(3)])
  have "\<exists>rb' out'. walk_gap end end offset bs (rb2, out, c) = Some (rb', out', max c (min end end)) \<and>
      walked rs policy offset bs (rb2, out, c) (rb', out', max c (min end end))"
    by (rule walk_gap_walked [OF st]) (use w(4) in auto)
  with w(3) obtain rb' out' where g: "walk_gap end end offset bs (rb2, out, c) = Some (rb', out', end)"
      "walked rs policy offset bs (rb2, out, c) (rb', out', end)"
    by auto
  have "walked rs policy offset bs (rb, out0, offset) (rb', out', end)"
    by (rule walked_trans [OF w(2) g(2)]) (use assms(2) in \<open>auto simp: in_store_def\<close>)
  moreover have "(if c < end then do {
         rb3 \<leftarrow> copy_in rb2 c end offset bs;
         n \<leftarrow> usub end c;
         Some (rb3, out\<lparr>wo_accepted := wo_accepted out + n\<rparr>) }
       else Some (rb2, out)) = Some (rb', out')"
    using g(1) w(3) by (auto simp: walk_gap_def Let_def split: if_splits Option.bind_splits)
  ultimately show ?thesis using w(1) by auto
qed

lemma mark_covered_eq:
  "separated (rb_covered rb) \<Longrightarrow> s \<le> e \<Longrightarrow>
     mark_covered rb s e = rb\<lparr>rb_covered := insert_range (rb_covered rb) (s, e)\<rparr>"
  by (simp add: mark_covered_def mark_loop_insert_range)

lemma insert_range_wf:
  assumes "rb_wf rb" "rb_base rb \<le> s" "s < e" "\<not> range_capped rb s e"
    and "rb' = rb\<lparr>rb_data := d, rb_covered := insert_range (rb_covered rb) (s, e)\<rparr>"
    and "length d = max (length (rb_data rb)) (e - rb_base rb)"
    and "e \<le> u64_max" "e \<le> rb_base rb + rb_byte_limit rb"
  shows "rb_wf rb'"
proof -
  let ?new = "insert_range (rb_covered rb) (s, e)"
  have wf: "separated (rb_covered rb)" "\<forall>r\<in>set (rb_covered rb). rb_base rb \<le> fst r"
      "\<forall>r\<in>set (rb_covered rb). snd r \<le> rb_base rb + length d"
    using assms(1,6) by (auto simp: rb_wf_def)
  have "length ?new \<le> rb_range_limit rb"
  proof (cases "length (rb_covered rb) < rb_range_limit rb")
    case True
    then show ?thesis using length_insert_range [of "rb_covered rb" "(s, e)"] by linarith
  next
    case False
    with assms(1,4) have "list_ex (\<lambda>(s', e'). s \<le> e' \<and> s' \<le> e) (rb_covered rb)"
      by (simp add: range_capped_def touches_existing_def)
    then show ?thesis
      using length_insert_range_touch [of "rb_covered rb" "(s, e)"] assms(1)
      by (fastforce simp: rb_wf_def)
  qed
  moreover have "\<forall>r\<in>set ?new. rb_base rb \<le> fst r"
    by (rule insert_range_lower_eq) (use wf assms in auto)
  moreover have "\<forall>r\<in>set ?new. snd r \<le> rb_base rb + length d"
    by (rule insert_range_upper) (use wf assms in auto)
  ultimately show ?thesis
    using assms separated_insert_range [OF wf(1), of "(s, e)"] by (auto simp: rb_wf_def)
qed

text \<open>What a write is allowed to touch: from its own offset or the window's start, up to its
  own end or the window's end.\<close>

definition win_from :: "range_buffer \<Rightarrow> nat \<Rightarrow> nat" where
  "win_from rb offset = max offset (rb_base rb)"

definition win_to :: "range_buffer \<Rightarrow> nat \<Rightarrow> bytes \<Rightarrow> nat" where
  "win_to rb offset bs = min (saturating_add offset (length bs))
     (saturating_add (rb_base rb) (rb_byte_limit rb))"

lemma write_apply_capped:
  "end = saturating_add offset (length bs) \<Longrightarrow> range_capped rb offset end \<Longrightarrow>
     write_apply rb offset bs policy out =
       Some (rb, out\<lparr>wo_refused := wo_refused out + length bs\<rparr>)"
  by (simp add: write_apply_def range_capped_def Let_def)

lemma walked_contents:
  assumes wf: "rb_wf rb" and o: "rb_base rb \<le> offset" "offset < end"
    and w: "walked (rb_covered rb) policy offset bs
      (grown rb (end - rb_base rb), out, offset) (rb3, out', end)"
  shows "rb_contents (rb3\<lparr>rb_covered := insert_range (rb_covered rb) (offset, end)\<rparr>) k =
    written (rb_contents rb) offset end bs policy offset k"
proof -
  let ?cs = "rb_covered rb"
  let ?rb1 = "grown rb (end - rb_base rb)"
  let ?rb' = "rb3\<lparr>rb_covered := insert_range ?cs (offset, end)\<rparr>"
  have cov: "cov (insert_range ?cs (offset, end)) k \<longleftrightarrow> cov ?cs k \<or> offset \<le> k \<and> k < end"
    using wf o by (subst cov_insert_range) (auto simp: rb_wf_def)
  have at: "byte_at ?rb' k = (if offset \<le> k \<and> k < end
      then resolved ?cs policy ?rb1 offset bs k else byte_at ?rb1 k)"
    if "cov ?cs k \<or> offset \<le> k \<and> k < end"
  proof -
    have "rb_base rb \<le> k" "k < rb_base rb + max (length (rb_data rb)) (end - rb_base rb)"
      using that o cov_window [OF wf, of k] by auto
    with w show ?thesis by (simp add: walked_def byte_at_def)
  qed
  show ?thesis
  proof (cases "cov ?cs k")
    case True
    with at cov byte_at_grown [OF wf True] show ?thesis
      by (cases policy) (auto simp: rb_contents_def written_def resolved_def)
  next
    case False
    with at cov show ?thesis by (auto simp: rb_contents_def written_def resolved_def)
  qed
qed

lemma walked_outcome:
  assumes wf: "rb_wf rb"
    and w: "walked (rb_covered rb) policy offset bs (grown rb n, out, offset) (rb3, out', end)"
  shows "out' = out\<lparr>wo_accepted := wo_accepted out + count_in (\<lambda>k. \<not> held rb k) offset end,
      wo_overlapped := wo_overlapped out + count_in (held rb) offset end,
      wo_conflicting := wo_conflicting out + count_in (conflicts rb offset bs) offset end,
      wo_replaced := wo_replaced out +
        (if policy = Last then count_in (conflicts rb offset bs) offset end else 0)\<rparr>"
proof -
  have "differs (rb_covered rb) (grown rb n) offset bs = conflicts rb offset bs"
    using byte_at_grown [OF wf]
    by (auto simp: differs_def conflicts_def rb_contents_def fun_eq_iff)
  moreover have "held rb = cov (rb_covered rb)" by (auto simp: fun_eq_iff)
  ultimately show ?thesis using w by (simp add: walked_def)
qed

text \<open>The second half of a write refines the abstract update of the view.\<close>

lemma write_apply_spec:
  assumes wf: "rb_wf rb" and o: "rb_base rb \<le> offset" "offset < end"
    and e: "end = saturating_add offset (length bs)"
    and lim: "end \<le> saturating_add (rb_base rb) (rb_byte_limit rb)"
    and cap: "\<not> range_capped rb offset end"
  shows "\<exists>rb' out'. write_apply rb offset bs policy out = Some (rb', out') \<and> rb_wf rb' \<and>
    rb_base rb' = rb_base rb \<and> rb_byte_limit rb' = rb_byte_limit rb \<and>
    rb_range_limit rb' = rb_range_limit rb \<and>
    rb_covered rb' = insert_range (rb_covered rb) (offset, end) \<and>
    rb_contents rb' = written (rb_contents rb) offset end bs policy offset \<and>
    out' = out\<lparr>wo_accepted := wo_accepted out + count_in (\<lambda>k. \<not> held rb k) offset end,
      wo_overlapped := wo_overlapped out + count_in (held rb) offset end,
      wo_conflicting := wo_conflicting out + count_in (conflicts rb offset bs) offset end,
      wo_replaced := wo_replaced out +
        (if policy = Last then count_in (conflicts rb offset bs) offset end else 0)\<rparr>"
proof -
  let ?n = "end - rb_base rb"
  let ?rb1 = "grown rb ?n"
  let ?cs = "rb_covered rb"
  have sep: "separated ?cs" using wf by (simp add: rb_wf_def)
  have bd: "end \<le> offset + length bs" "end \<le> u64_max" "end \<le> rb_base rb + rb_byte_limit rb"
    using e lim saturating_add_bounds [of offset "length bs"]
      saturating_add_bounds [of "rb_base rb" "rb_byte_limit rb"] by linarith+
  have st: "in_store ?rb1 offset end offset bs"
    using o bd by (auto simp: in_store_def)
  obtain rb3 out' where w: "(do {
      (rb2, out, cursor) \<leftarrow> write_walk ?cs end offset bs policy (?rb1, out, offset);
      (if cursor < end then do {
         rb3 \<leftarrow> copy_in rb2 cursor end offset bs;
         n \<leftarrow> usub end cursor;
         Some (rb3, out\<lparr>wo_accepted := wo_accepted out + n\<rparr>) }
       else Some (rb2, out)) }) = Some (rb3, out')"
    "walked ?cs policy offset bs (?rb1, out, offset) (rb3, out', end)"
    using walk_to_end [OF sep st] by blast
  obtain d where d: "rb3 = ?rb1\<lparr>rb_data := d\<rparr>" "length d = max (length (rb_data rb)) ?n"
    using w(2) by (auto simp: walked_def)
  let ?rb' = "rb3\<lparr>rb_covered := insert_range ?cs (offset, end)\<rparr>"
  have "write_apply rb offset bs policy out = Some (mark_covered rb3 offset end, out')"
    using w(1) cap o e
    by (auto simp: write_apply_def range_capped_def Let_def grown_def [symmetric] usub_eq
        split: Option.bind_splits)
  also have "mark_covered rb3 offset end = ?rb'"
    using sep o by (simp add: mark_covered_eq d)
  finally have run: "write_apply rb offset bs policy out = Some (?rb', out')" .
  have "?rb' = rb\<lparr>rb_data := d, rb_covered := insert_range ?cs (offset, end)\<rparr>"
    by (simp add: d grown_def)
  from insert_range_wf [OF wf o cap this d(2) bd(2,3)] have "rb_wf ?rb'" .
  with run walked_contents [OF wf o w(2)] walked_outcome [OF wf w(2)] show ?thesis
    by (intro exI [of _ ?rb'] exI [of _ out']) (auto simp: d fun_eq_iff)
qed

text \<open>The first half computes the window of the write and accounts for what lies outside.\<close>

definition clip_outcome :: "range_buffer \<Rightarrow> nat \<Rightarrow> bytes \<Rightarrow> write_outcome" where
  "clip_outcome rb offset bs = default_outcome\<lparr>
     wo_before_window := rb_base rb - offset,
     wo_refused := (if saturating_add (rb_base rb) (rb_byte_limit rb) <
         saturating_add offset (length bs)
       then offset + length bs - saturating_add (rb_base rb) (rb_byte_limit rb) else 0)\<rparr>"

lemma write_clip_done:
  "bs = [] \<Longrightarrow> write_clip rb offset bs = Some (Done default_outcome)"
  "bs \<noteq> [] \<Longrightarrow> saturating_add offset (length bs) \<le> rb_base rb \<Longrightarrow>
     write_clip rb offset bs = Some (Done (default_outcome\<lparr>wo_before_window := length bs\<rparr>))"
  by (simp_all add: write_clip_def)

lemma write_clip_outside:
  assumes "rb_base rb < saturating_add offset (length bs)"
    and "saturating_add (rb_base rb) (rb_byte_limit rb) \<le> win_from rb offset"
  shows "write_clip rb offset bs = Some (Done (default_outcome\<lparr>
      wo_before_window := rb_base rb - offset,
      wo_refused := length bs - (rb_base rb - offset)\<rparr>))"
proof -
  have "rb_base rb < offset + length bs"
    using assms(1) saturating_add_bounds(1) [of offset "length bs"] by linarith
  moreover from this have "bs = [] \<Longrightarrow> rb_base rb < offset" by simp
  ultimately show ?thesis
    using assms
    by (cases "offset < rb_base rb")
      (auto simp: write_clip_def win_from_def max_def rust_simps default_outcome_def)
qed

lemma write_clip_inside:
  assumes "rb_base rb < saturating_add offset (length bs)"
    and "win_from rb offset < saturating_add (rb_base rb) (rb_byte_limit rb)" "bs \<noteq> []"
  shows "\<exists>bs'. write_clip rb offset bs = Some (Clipped (win_from rb offset) bs' (clip_outcome rb offset bs)) \<and>
    saturating_add (win_from rb offset) (length bs') = win_to rb offset bs \<and>
    win_from rb offset < win_to rb offset bs \<and>
    (offset + length bs \<le> u64_max \<longrightarrow> win_from rb offset + length bs' = win_to rb offset bs) \<and>
    (\<forall>k. win_from rb offset \<le> k \<longrightarrow> k < win_to rb offset bs \<longrightarrow>
       bs' ! (k - win_from rb offset) = bs ! (k - offset))"
proof -
  let ?we = "saturating_add (rb_base rb) (rb_byte_limit rb)"
  let ?from = "win_from rb offset"
  let ?bs1 = "drop (rb_base rb - offset) bs"
  let ?bs' = "if ?we < saturating_add offset (length bs) then take (?we - ?from) ?bs1 else ?bs1"
  have lt: "rb_base rb < offset + length bs" "?we \<le> u64_max" "?from < u64_max"
    using assms(1,2) saturating_add_bounds(1) [of offset "length bs"]
      saturating_add_bounds(2) [of "rb_base rb" "rb_byte_limit rb"] by linarith+
  have "rb_base rb - offset < length bs"
    using lt(1) assms(3) by (simp add: less_diff_conv2 less_diff_conv add.commute
        flip: length_greater_0_conv)
  then have len1: "?from + length ?bs1 = offset + length bs" "?bs1 \<noteq> []"
    by (auto simp: win_from_def max_def)
  then have sat1: "saturating_add ?from (length ?bs1) = saturating_add offset (length bs)"
    by (simp add: saturating_add_def)
  have more: "?we < saturating_add offset (length bs) \<Longrightarrow> ?we - ?from < length ?bs1"
    using len1 assms(2) saturating_add_bounds(1) [of offset "length bs"] by linarith
  have run: "write_clip rb offset bs = Some (Clipped ?from ?bs' (clip_outcome rb offset bs))"
  proof (cases "offset < rb_base rb")
    case True
    then have "?from = rb_base rb" by (simp add: win_from_def)
    with True assms lt len1 sat1 more show ?thesis
      by (auto simp: write_clip_def rust_simps clip_outcome_def Let_def default_outcome_def)
  next
    case False
    then have "?from = offset" by (simp add: win_from_def)
    with False assms lt len1 sat1 more show ?thesis
      by (auto simp: write_clip_def rust_simps clip_outcome_def Let_def default_outcome_def)
  qed
  have sat: "saturating_add ?from (length ?bs') = win_to rb offset bs"
  proof (cases "?we < saturating_add offset (length bs)")
    case True
    with more have "length ?bs' = ?we - ?from" by simp
    with True assms(2) lt(2) show ?thesis by (simp add: saturating_add_eq win_to_def)
  next
    case False
    with sat1 show ?thesis by (simp add: win_to_def)
  qed
  have exact: "?from + length ?bs' = win_to rb offset bs" if "offset + length bs \<le> u64_max"
    using that more len1(1) assms(2) by (auto simp: win_to_def saturating_add_eq)
  have "?bs' \<noteq> []" using len1 assms(2) by auto
  then have "?from < win_to rb offset bs"
    using sat [symmetric] lt(3) by (simp add: saturating_add_def)
  moreover have "?bs' ! (k - ?from) = bs ! (k - offset)" if "?from \<le> k" "k < win_to rb offset bs" for k
    using that lt by (auto simp: win_from_def win_to_def max_def)
  ultimately show ?thesis
    using run sat exact by (intro exI [of _ ?bs']) auto
qed

text \<open>When a write changes the buffer at all: it reaches into the window and the range cap
  does not refuse it.\<close>

definition write_lands :: "range_buffer \<Rightarrow> nat \<Rightarrow> bytes \<Rightarrow> bool" where
  "write_lands rb offset bs \<longleftrightarrow> bs \<noteq> [] \<and>
     win_from rb offset < win_to rb offset bs \<and>
     \<not> range_capped rb (win_from rb offset) (win_to rb offset bs)"

lemma count_in_cong_bs:
  "(\<And>k. a \<le> k \<Longrightarrow> k < b \<Longrightarrow> bs' ! (k - q) = bs ! (k - p)) \<Longrightarrow>
     count_in (conflicts rb q bs') a b = count_in (conflicts rb p bs) a b"
  by (rule count_in_cong) (auto simp: conflicts_def split: option.splits)

lemma written_cong_bs:
  "(\<And>k. a \<le> k \<Longrightarrow> k < b \<Longrightarrow> bs' ! (k - q) = bs ! (k - p)) \<Longrightarrow>
     written f a b bs' policy q = written f a b bs policy p"
  by (auto simp: written_def fun_eq_iff split: option.splits)

lemma write_lands_window:
  "win_from rb offset < win_to rb offset bs \<longleftrightarrow>
     rb_base rb < saturating_add offset (length bs) \<and>
     win_from rb offset < saturating_add (rb_base rb) (rb_byte_limit rb) \<and>
     offset < saturating_add offset (length bs)"
  by (auto simp: win_from_def win_to_def)

lemma rb_write_lands:
  assumes wf: "rb_wf rb" and lands: "write_lands rb offset bs"
  defines "a \<equiv> win_from rb offset" and "b \<equiv> win_to rb offset bs"
  shows "\<exists>rb'. rb_write rb offset bs policy = Some (rb',
      (clip_outcome rb offset bs)\<lparr>wo_accepted := count_in (\<lambda>k. \<not> held rb k) a b,
        wo_overlapped := count_in (held rb) a b,
        wo_conflicting := count_in (conflicts rb offset bs) a b,
        wo_replaced := (if policy = Last then count_in (conflicts rb offset bs) a b else 0)\<rparr>) \<and>
    rb_wf rb' \<and> rb_base rb' = rb_base rb \<and> rb_byte_limit rb' = rb_byte_limit rb \<and>
    rb_range_limit rb' = rb_range_limit rb \<and>
    rb_covered rb' = insert_range (rb_covered rb) (a, b) \<and>
    rb_contents rb' = written (rb_contents rb) a b bs policy offset"
proof -
  obtain bs' where c: "write_clip rb offset bs = Some (Clipped a bs' (clip_outcome rb offset bs))"
      "saturating_add a (length bs') = b" "a < b"
      "\<And>k. a \<le> k \<Longrightarrow> k < b \<Longrightarrow> bs' ! (k - a) = bs ! (k - offset)"
    using write_clip_inside [of rb offset bs] lands
    by (auto simp: write_lands_def write_lands_window a_def b_def)
  have "rb_base rb \<le> a" by (simp add: a_def win_from_def)
  moreover have "b \<le> saturating_add (rb_base rb) (rb_byte_limit rb)"
    by (simp add: b_def win_to_def)
  moreover have "\<not> range_capped rb a b" using lands by (simp add: write_lands_def a_def b_def)
  ultimately obtain rb' out' where w:
    "write_apply rb a bs' policy (clip_outcome rb offset bs) = Some (rb', out')"
    "rb_wf rb'" "rb_base rb' = rb_base rb" "rb_byte_limit rb' = rb_byte_limit rb"
    "rb_range_limit rb' = rb_range_limit rb"
    "rb_covered rb' = insert_range (rb_covered rb) (a, b)"
    "rb_contents rb' = written (rb_contents rb) a b bs' policy a"
    "out' = (clip_outcome rb offset bs)\<lparr>wo_accepted := count_in (\<lambda>k. \<not> held rb k) a b,
        wo_overlapped := count_in (held rb) a b,
        wo_conflicting := count_in (conflicts rb a bs') a b,
        wo_replaced := (if policy = Last then count_in (conflicts rb a bs') a b else 0)\<rparr>"
    using write_apply_spec [OF wf _ c(3) c(2) [symmetric], of policy "clip_outcome rb offset bs"]
    by (auto simp: clip_outcome_def default_outcome_def)
  show ?thesis
    using w c(1) count_in_cong_bs [OF c(4)] written_cong_bs [OF c(4)]
    by (auto simp: rb_write_def)
qed

lemma rb_write_misses:
  assumes "\<not> write_lands rb offset bs" and "rb_base rb \<le> u64_max"
  shows "\<exists>out. rb_write rb offset bs policy = Some (rb, out) \<and>
    wo_accepted out = 0 \<and> wo_overlapped out = 0 \<and> wo_conflicting out = 0 \<and> wo_replaced out = 0 \<and>
    (offset + length bs \<le> u64_max \<longrightarrow> rb_base rb + rb_byte_limit rb \<le> u64_max \<longrightarrow>
       wo_refused out + wo_before_window out = length bs)"
proof -
  consider "bs = []" | "bs \<noteq> []" "saturating_add offset (length bs) \<le> rb_base rb"
    | "bs \<noteq> []" "rb_base rb < saturating_add offset (length bs)"
      "saturating_add (rb_base rb) (rb_byte_limit rb) \<le> win_from rb offset"
    | "bs \<noteq> []" "rb_base rb < saturating_add offset (length bs)"
      "win_from rb offset < saturating_add (rb_base rb) (rb_byte_limit rb)"
    by linarith
  then show ?thesis
  proof cases
    case 4
    then obtain bs' where c: "write_clip rb offset bs =
          Some (Clipped (win_from rb offset) bs' (clip_outcome rb offset bs))"
        "saturating_add (win_from rb offset) (length bs') = win_to rb offset bs"
        "win_from rb offset < win_to rb offset bs"
        "offset + length bs \<le> u64_max \<Longrightarrow> win_from rb offset + length bs' = win_to rb offset bs"
      using write_clip_inside [of rb offset bs] by blast
    with assms 4 have "range_capped rb (win_from rb offset) (win_to rb offset bs)"
      by (simp add: write_lands_def)
    from write_apply_capped [OF c(2) [symmetric] this] c(1) show ?thesis
      using c(3,4) 4 by (auto simp: rb_write_def clip_outcome_def default_outcome_def
          win_to_def win_from_def saturating_add_eq)
  next
    case 3
    then have "rb_base rb - offset \<le> length bs"
      using saturating_add_bounds(1) [of offset "length bs"] by linarith
    with write_clip_outside [OF 3(2,3)] show ?thesis
      by (simp add: rb_write_def default_outcome_def)
  qed (simp_all add: rb_write_def write_clip_done write_clip_outside default_outcome_def)
qed

section \<open>Draining\<close>

lemma contiguous_end_bounds:
  "rb_wf rb \<Longrightarrow> rb_base rb \<le> contiguous_end rb \<and>
     contiguous_end rb \<le> rb_base rb + length (rb_data rb)"
  by (auto simp: contiguous_end_def rb_wf_def split: list.splits)

lemma contiguous_end_held:
  "rb_base rb \<le> k \<Longrightarrow> k < contiguous_end rb \<Longrightarrow> cov (rb_covered rb) k"
  by (auto simp: contiguous_end_def split: list.splits if_splits)

lemma contiguous_end_maximal:
  assumes "rb_wf rb" shows "\<not> cov (rb_covered rb) (contiguous_end rb)"
proof (cases "rb_covered rb")
  case Nil
  then show ?thesis by (simp add: contiguous_end_def)
next
  case (Cons r rs)
  obtain s e where r: "r = (s, e)" by (cases r)
  have sep: "separated ((s, e) # rs)" "rb_base rb \<le> s"
    using assms by (auto simp: rb_wf_def Cons r)
  then have "\<not> cov rs k" if "k \<le> e" for k
    using cov_tail [OF sep(1), of k] that by auto
  with sep show ?thesis by (auto simp: contiguous_end_def Cons r)
qed

lemma covered_end_bounds:
  "rb_wf rb \<Longrightarrow> rb_base rb \<le> covered_end rb \<and> covered_end rb \<le> rb_base rb + length (rb_data rb)"
proof -
  assume wf: "rb_wf rb"
  show ?thesis
  proof (cases "rb_covered rb = []")
    case False
    then have "last (rb_covered rb) \<in> set (rb_covered rb)" by simp
    with wf have "fst (last (rb_covered rb)) < snd (last (rb_covered rb))"
        "rb_base rb \<le> fst (last (rb_covered rb))"
        "snd (last (rb_covered rb)) \<le> rb_base rb + length (rb_data rb)"
      by (auto simp: rb_wf_def dest: separated_ltD)
    with False show ?thesis by (simp add: covered_end_def)
  qed (simp add: covered_end_def)
qed

text \<open>The ranges a consume leaves.\<close>

definition trim_ranges :: "nat \<Rightarrow> range list \<Rightarrow> range list" where
  "trim_ranges b rs = filter (\<lambda>(s, e). b < e) (map (\<lambda>(s, e). (max s b, e)) rs)"

lemma trim_ranges_simps [simp]:
  "trim_ranges b [] = []"
  "trim_ranges b ((s, e) # rs) =
     (if b < e then (max s b, e) # trim_ranges b rs else trim_ranges b rs)"
  by (simp_all add: trim_ranges_def)

lemma trim_ranges_set: "r \<in> set (trim_ranges b rs) \<Longrightarrow>
    \<exists>q\<in>set rs. fst r = max (fst q) b \<and> snd r = snd q \<and> b < snd q"
  by (force simp: trim_ranges_def)

lemma cov_trim: "cov (trim_ranges b rs) k \<longleftrightarrow> cov rs k \<and> b \<le> k"
  by (induction rs) (auto split: if_splits)

lemma separated_trim: "separated rs \<Longrightarrow> separated (trim_ranges b rs)"
proof (induction rs)
  case (Cons r rs)
  obtain s e where r: "r = (s, e)" by (cases r)
  have "e < fst q" if "q \<in> set (trim_ranges b rs)" for q
    using Cons.prems trim_ranges_set [OF that] by (fastforce simp: r max_def)
  with Cons show ?case by (auto simp: r)
qed simp

lemma length_trim: "length (trim_ranges b rs) \<le> length rs"
  by (simp add: trim_ranges_def le_trans [OF length_filter_le])

lemma consume_wf:
  assumes "rb_wf rb" "n \<le> length (rb_data rb)"
  shows "rb_wf (consume rb n)"
proof -
  have eq: "rb_covered (consume rb n) = trim_ranges (rb_base rb + n) (rb_covered rb)"
    by (simp add: consume_def trim_ranges_def Let_def)
  have "rb_base rb + n \<le> fst r \<and> snd r \<le> rb_base rb + length (rb_data rb)"
    if "r \<in> set (trim_ranges (rb_base rb + n) (rb_covered rb))" for r
    using trim_ranges_set [OF that] assms(1) by (auto simp: rb_wf_def)
  then show ?thesis
    using assms length_trim [of "rb_base rb + n" "rb_covered rb"]
    by (auto simp: rb_wf_def eq separated_trim) (auto simp: consume_def Let_def)
qed

lemma rb_contents_consume:
  assumes "rb_wf rb" "n \<le> length (rb_data rb)"
  shows "rb_contents (consume rb n) k = (if rb_base rb + n \<le> k then rb_contents rb k else None)"
proof -
  have "cov (rb_covered (consume rb n)) k \<longleftrightarrow> cov (rb_covered rb) k \<and> rb_base rb + n \<le> k"
    using cov_trim by (simp add: consume_def trim_ranges_def Let_def)
  moreover have "byte_at (consume rb n) k = byte_at rb k" if "rb_base rb + n \<le> k"
    using assms that by (simp add: byte_at_def consume_def Let_def)
  ultimately show ?thesis by (auto simp: rb_contents_def)
qed

lemma drain_spec:
  fixes limit :: nat
  assumes "rb_wf rb"
  defines "n \<equiv> min (contiguous_end rb) limit - rb_base rb"
  shows "\<exists>rb'. drain_contiguous_upto rb limit out =
      Some (rb', out @ map (\<lambda>k. the (rb_contents rb k)) [rb_base rb..<rb_base rb + n], n) \<and>
    rb_wf rb' \<and> rb_base rb' = rb_base rb + n \<and>
    rb_byte_limit rb' = rb_byte_limit rb \<and> rb_range_limit rb' = rb_range_limit rb \<and>
    (\<forall>k. rb_contents rb' k = (if rb_base rb + n \<le> k then rb_contents rb k else None))"
proof (cases "min (contiguous_end rb) limit \<le> rb_base rb")
  case True
  then have "n = 0" by (simp add: n_def)
  moreover have "rb_contents rb k = None" if "k < rb_base rb" for k
    using cov_window [OF assms(1), of k] that by (auto simp: rb_contents_def)
  ultimately show ?thesis
    using True assms(1) by (intro exI [of _ rb]) (auto simp: drain_contiguous_upto_def)
next
  case False
  have n: "n \<le> length (rb_data rb)" "rb_base rb + n \<le> contiguous_end rb"
    using contiguous_end_bounds [OF assms(1)] False by (auto simp: n_def)
  have "take n (rb_data rb) = map (\<lambda>k. the (rb_contents rb k)) [rb_base rb..<rb_base rb + n]"
    using n contiguous_end_held [of rb]
    by (intro nth_equalityI) (auto simp: rb_contents_def byte_at_def)
  with False n have "drain_contiguous_upto rb limit out = Some (consume rb n,
      out @ map (\<lambda>k. the (rb_contents rb k)) [rb_base rb..<rb_base rb + n], n)"
    by (simp add: drain_contiguous_upto_def Let_def rust_simps n_def)
  with consume_wf [OF assms(1) n(1)] rb_contents_consume [OF assms(1) n(1)] show ?thesis
    by (intro exI [of _ "consume rb n"]) (simp add: consume_def Let_def)
qed

section \<open>Bytes held\<close>

lemma sum_ranges_count:
  "separated rs \<Longrightarrow> \<forall>r\<in>set rs. a \<le> fst r \<and> snd r \<le> b \<Longrightarrow>
     sum_list (map (\<lambda>(s, e). e - s) rs) = count_in (cov rs) a b"
proof (induction rs arbitrary: a)
  case Nil
  then show ?case by (simp add: count_in_none)
next
  case (Cons r rs)
  obtain s e where r: "r = (s, e)" by (cases r)
  have bd: "a \<le> s" "s < e" "e \<le> b" "separated rs" "\<forall>q\<in>set rs. e \<le> fst q \<and> snd q \<le> b"
    using Cons.prems by (auto simp: r)
  have tail: "e < k" if "cov rs k" for k
    using cov_tail [of s e rs k] Cons.prems(1) that by (simp add: r)
  have "count_in (cov (r # rs)) a b =
      count_in (cov (r # rs)) a s + count_in (cov (r # rs)) s e + count_in (cov (r # rs)) e b"
    using bd by (simp add: count_in_split [of a s b] count_in_split [of s e b])
  also have "count_in (cov (r # rs)) a s = 0"
    by (rule count_in_none) (use bd tail in \<open>fastforce simp: r\<close>)
  also have "count_in (cov (r # rs)) s e = e - s"
    by (rule count_in_all) (simp add: r)
  also have "count_in (cov (r # rs)) e b = count_in (cov rs) e b"
    by (rule count_in_cong) (simp add: r)
  finally show ?case using Cons.IH [OF bd(4,5)] by (simp add: r)
qed

lemma buffered_bytes_count:
  "rb_wf rb \<Longrightarrow> buffered_bytes rb =
     count_in (held rb) (rb_base rb) (rb_base rb + length (rb_data rb))"
proof -
  assume wf: "rb_wf rb"
  have "held rb = cov (rb_covered rb)" by (simp add: fun_eq_iff)
  with wf show ?thesis
    using sum_ranges_count [of "rb_covered rb" "rb_base rb" "rb_base rb + length (rb_data rb)"]
    by (simp add: buffered_bytes_def rb_wf_def)
qed

lemma buffered_bytes_bound: "rb_wf rb \<Longrightarrow> buffered_bytes rb \<le> rb_byte_limit rb"
proof -
  assume wf: "rb_wf rb"
  have "buffered_bytes rb \<le> length (rb_data rb)"
    using count_in_compl [of "held rb" "rb_base rb" "rb_base rb + length (rb_data rb)"]
    by (simp add: buffered_bytes_count [OF wf])
  with wf show ?thesis by (simp add: rb_wf_def)
qed

lemma buffered_bytes_reset [simp]: "buffered_bytes (rb_reset rb b) = 0"
  by (simp add: buffered_bytes_def rb_reset_def)

section \<open>The contract of a byte store\<close>

text \<open>
  What the reassemblers rely on: a store with a base, a view from offsets to bytes, a write
  that resolves overlaps and a drain that hands out a contiguous prefix. The client lemmas
  are about a message \<open>m\<close> of which the writes are pieces.
\<close>

locale byte_store =
  fixes wf :: "'s \<Rightarrow> bool"
    and base :: "'s \<Rightarrow> nat"
    and look :: "'s \<Rightarrow> nat \<Rightarrow> byte option"
    and put :: "'s \<Rightarrow> nat \<Rightarrow> bytes \<Rightarrow> overlap_policy \<Rightarrow> ('s \<times> 'o) option"
    and drain :: "'s \<Rightarrow> nat \<Rightarrow> bytes \<Rightarrow> ('s \<times> bytes \<times> nat) option"
  assumes put_total: "wf s \<Longrightarrow> \<exists>s' r. put s k bs p = Some (s', r)"
    and put_wf: "wf s \<Longrightarrow> put s k bs p = Some (s', r) \<Longrightarrow> wf s'"
    and put_base: "wf s \<Longrightarrow> put s k bs p = Some (s', r) \<Longrightarrow> base s' = base s"
    and put_view: "wf s \<Longrightarrow> put s off bs p = Some (s', r) \<Longrightarrow>
          look s' k = look s k \<or>
          off \<le> k \<and> k < off + length bs \<and> look s' k = Some (bs ! (k - off))"
    and put_first: "wf s \<Longrightarrow> put s off bs First = Some (s', r) \<Longrightarrow>
          look s k = Some b \<Longrightarrow> look s' k = Some b"
    and drain_law: "wf s \<Longrightarrow> \<exists>s' n. drain s limit out =
            Some (s', out @ map (\<lambda>k. the (look s k)) [base s..<base s + n], n) \<and>
          wf s' \<and> base s' = base s + n \<and> base s + n \<le> max (base s) limit \<and>
          (\<forall>k. base s \<le> k \<longrightarrow> k < base s + n \<longrightarrow> look s k \<noteq> None) \<and>
          (\<forall>k. look s' k = (if base s + n \<le> k then look s k else None))"
begin

definition agrees :: "(nat \<Rightarrow> byte) \<Rightarrow> 's \<Rightarrow> bool" where
  "agrees m s \<longleftrightarrow> (\<forall>k b. look s k = Some b \<longrightarrow> b = m k)"

text \<open>Writing a piece of the message keeps the store in agreement with it, whatever the
  policy: without contradicting copies the policy decides nothing.\<close>

lemma agrees_write:
  assumes "wf s" "agrees m s" "put s off bs p = Some (s', r)"
    and "\<And>i. i < length bs \<Longrightarrow> bs ! i = m (off + i)"
  shows "agrees m s'"
  unfolding agrees_def
proof (intro allI impI)
  fix k b assume "look s' k = Some b"
  then show "b = m k"
    using put_view [OF assms(1,3), of k] assms(2) assms(4) [of "k - off"]
    by (auto simp: agrees_def)
qed

text \<open>What a drain hands out of such a store is the message.\<close>

lemma agrees_drain:
  assumes "wf s" "agrees m s" "drain s limit out = Some (s', out', n)"
  shows "out' = out @ map m [base s..<base s + n] \<and> agrees m s' \<and> wf s' \<and>
    base s' = base s + n \<and> base s + n \<le> max (base s) limit"
proof -
  from drain_law [OF assms(1), of limit out] assms(3)
  have d: "out' = out @ map (\<lambda>k. the (look s k)) [base s..<base s + n]" "wf s'"
      "base s' = base s + n" "base s + n \<le> max (base s) limit"
      "\<And>k. base s \<le> k \<Longrightarrow> k < base s + n \<Longrightarrow> look s k \<noteq> None"
      "\<And>k. look s' k = (if base s + n \<le> k then look s k else None)"
    by auto
  have "map (\<lambda>k. the (look s k)) [base s..<base s + n] = map m [base s..<base s + n]"
    using d(5) assms(2) by (fastforce simp: agrees_def)
  moreover have "agrees m s'" using assms(2) d(6) by (simp add: agrees_def)
  ultimately show ?thesis using d by simp
qed

lemma drain_Some: "wf s \<Longrightarrow> \<exists>s' out' n. drain s limit out = Some (s', out', n)"
  using drain_law [of s limit out] by blast

end

lemma rb_write_result:
  assumes "rb_wf rb"
  shows "\<exists>rb' out. rb_write rb offset bs policy = Some (rb', out) \<and> rb_wf rb' \<and>
    rb_base rb' = rb_base rb \<and> rb_byte_limit rb' = rb_byte_limit rb \<and>
    rb_range_limit rb' = rb_range_limit rb \<and>
    rb_contents rb' = (if write_lands rb offset bs
      then written (rb_contents rb) (win_from rb offset) (win_to rb offset bs) bs policy offset
      else rb_contents rb) \<and>
    length (rb_covered rb') \<le> Suc (length (rb_covered rb))"
proof (cases "write_lands rb offset bs")
  case True
  then show ?thesis using rb_write_lands [OF assms True, of policy]
    by (auto intro!: length_insert_range)
next
  case False
  have "rb_base rb \<le> u64_max" using assms by (simp add: rb_wf_def)
  with False show ?thesis using rb_write_misses [OF False, of policy] assms by auto
qed

lemma win_bounds:
  "offset \<le> win_from rb offset" "win_to rb offset bs \<le> offset + length bs"
  by (simp_all add: win_from_def win_to_def saturating_add_def)

interpretation rb: byte_store rb_wf rb_base rb_contents rb_write drain_contiguous_upto
proof unfold_locales
  fix s s' :: range_buffer and off k limit :: nat and bs out :: bytes and p r b
  assume wf: "rb_wf s"
  show "\<exists>s' r. rb_write s k bs p = Some (s', r)"
    using rb_write_result [OF wf] by blast
  show "\<exists>s' n. drain_contiguous_upto s limit out =
        Some (s', out @ map (\<lambda>k. the (rb_contents s k)) [rb_base s..<rb_base s + n], n) \<and>
      rb_wf s' \<and> rb_base s' = rb_base s + n \<and> rb_base s + n \<le> max (rb_base s) limit \<and>
      (\<forall>k. rb_base s \<le> k \<longrightarrow> k < rb_base s + n \<longrightarrow> rb_contents s k \<noteq> None) \<and>
      (\<forall>k. rb_contents s' k = (if rb_base s + n \<le> k then rb_contents s k else None))"
    using drain_spec [OF wf, of limit out] contiguous_end_held [of s]
    by (fastforce simp: rb_contents_def)
  show "rb_write s k bs p = Some (s', r) \<Longrightarrow> rb_wf s'"
    and "rb_write s k bs p = Some (s', r) \<Longrightarrow> rb_base s' = rb_base s"
    using rb_write_result [OF wf, of k bs p] by auto
  show "rb_contents s' k = rb_contents s k \<or>
      off \<le> k \<and> k < off + length bs \<and> rb_contents s' k = Some (bs ! (k - off))"
    if "rb_write s off bs p = Some (s', r)"
    using rb_write_result [OF wf, of off bs p] that win_bounds(1) [of off s] win_bounds(2) [of s off bs]
    by (auto simp: written_def split: option.splits if_splits)
  show "rb_contents s' k = Some b"
    if "rb_write s off bs First = Some (s', r)" "rb_contents s k = Some b"
    using rb_write_result [OF wf, of off bs First] that
    by (auto simp: written_def split: if_splits)
qed

section \<open>Properties\<close>

text \<open>C1. Writing refines the abstract update of the view: for every offset, payload and
  policy an attacker can choose, a write into a well-formed buffer returns (no slice or
  subtraction panics), keeps the buffer well formed, and either leaves the view alone or
  overwrites exactly the window \<open>[win_from, win_to)\<close>, keeping (\<open>First\<close>) or replacing
  (\<open>Last\<close>) the bytes already held there.\<close>

theorem rb_write_refines:
  assumes "rb_wf rb"
  shows "\<exists>rb' out. rb_write rb offset bs policy = Some (rb', out) \<and> rb_wf rb' \<and>
    rb_base rb' = rb_base rb \<and>
    rb_contents rb' = (if write_lands rb offset bs
      then written (rb_contents rb) (win_from rb offset) (win_to rb offset bs) bs policy offset
      else rb_contents rb)"
  using rb_write_result [OF assms, of offset bs policy] by blast

theorem rb_write_refines_witness:
  "rb_wf (rb_new 0 16 4) \<and> (\<exists>rb' out. rb_write (rb_new 0 16 4) 2 [7, 8] Last = Some (rb', out) \<and>
     rb_contents rb' 3 = Some 8)"
proof -
  have wf: "rb_wf (rb_new 0 16 4)" by (rule rb_new_wf) simp
  have win: "win_from (rb_new 0 16 4) 2 = 2" "win_to (rb_new 0 16 4) 2 [7, 8] = 4"
    by (simp_all add: win_from_def win_to_def rb_new_def saturating_add_def u64_max_def)
  then have "write_lands (rb_new 0 16 4) 2 [7, 8]"
    by (simp add: write_lands_def range_capped_def rb_new_def)
  with rb_write_refines [OF wf, of 2 "[7, 8]" Last] wf win show ?thesis
    by (auto simp: written_def fun_eq_iff)
qed



text \<open>No byte is lost silently: as long as no offset saturates, the accepted,
  overlapping, refused and already-delivered bytes of a write add up to its length, the
  contradicting bytes are among the overlapping ones, and bytes are replaced exactly when
  they contradict and the policy is \<open>Last\<close>.\<close>

theorem rb_write_accounting:
  assumes "rb_wf rb" "offset + length bs \<le> u64_max" "rb_base rb + rb_byte_limit rb \<le> u64_max"
    and "rb_write rb offset bs policy = Some (rb', out)"
  shows "wo_accepted out + wo_overlapped out + wo_refused out + wo_before_window out = length bs \<and>
    wo_conflicting out \<le> wo_overlapped out \<and>
    wo_replaced out = (if policy = Last then wo_conflicting out else 0)"
proof (cases "write_lands rb offset bs")
  case False
  have "rb_base rb \<le> u64_max" using assms(3) by simp
  with False assms show ?thesis using rb_write_misses [OF False, of policy] by auto
next
  case True
  let ?a = "win_from rb offset" and ?b = "win_to rb offset bs"
  have o: "out = (clip_outcome rb offset bs)\<lparr>wo_accepted := count_in (\<lambda>k. \<not> held rb k) ?a ?b,
        wo_overlapped := count_in (held rb) ?a ?b,
        wo_conflicting := count_in (conflicts rb offset bs) ?a ?b,
        wo_replaced := (if policy = Last then count_in (conflicts rb offset bs) ?a ?b else 0)\<rparr>"
    using rb_write_lands [OF assms(1) True, of policy] assms(4) by auto
  have "count_in (conflicts rb offset bs) ?a ?b \<le> count_in (held rb) ?a ?b"
    by (rule count_in_mono) (auto simp: conflicts_def rb_contents_def split: if_splits)
  moreover have "?a < ?b" using True by (simp add: write_lands_def)
  then have "(?b - ?a) + wo_refused (clip_outcome rb offset bs) +
      wo_before_window (clip_outcome rb offset bs) = length bs"
    using assms(2,3) by (auto simp: clip_outcome_def win_from_def win_to_def saturating_add_eq)
  ultimately show ?thesis using o count_in_compl [of "held rb" ?a ?b] by auto
qed

theorem rb_write_accounting_witness:
  "\<exists>rb' out. rb_write (rb_new 0 4 4) 2 [1, 2, 3] First = Some (rb', out) \<and>
     wo_accepted out + wo_overlapped out + wo_refused out + wo_before_window out = 3"
proof -
  have wf: "rb_wf (rb_new 0 4 4)" by (rule rb_new_wf) simp
  then obtain rb' out where r: "rb_write (rb_new 0 4 4) 2 [1, 2, 3] First = Some (rb', out)"
    using rb.put_total [of "rb_new 0 4 4" 2 "[1, 2, 3]" First] by blast
  have "2 + length [1, 2, 3 :: byte] \<le> u64_max"
      "rb_base (rb_new 0 4 4) + rb_byte_limit (rb_new 0 4 4) \<le> u64_max"
    by (simp_all add: u64_max_def rb_new_def)
  from rb_write_accounting [OF wf this r] r show ?thesis by auto
qed

lemma drain_prefix:
  assumes "rb_wf rb"
  shows "\<exists>rb' n. drain_contiguous_upto rb limit out =
      Some (rb', out @ map (\<lambda>k. the (rb_contents rb k)) [rb_base rb..<rb_base rb + n], n) \<and>
    rb_wf rb' \<and> rb_base rb' = rb_base rb + n \<and>
    (\<forall>k < n. rb_contents rb (rb_base rb + k) \<noteq> None) \<and>
    (limit \<le> rb_base rb + n \<or> rb_contents rb (rb_base rb + n) = None) \<and>
    (\<forall>k. rb_contents rb' k = (if rb_base rb + n \<le> k then rb_contents rb k else None))"
proof -
  let ?n = "min (contiguous_end rb) limit - rb_base rb"
  have "rb_contents rb (rb_base rb + k) \<noteq> None" if "k < ?n" for k
    using that contiguous_end_held [of rb "rb_base rb + k"] by (simp add: rb_contents_def)
  moreover have "limit \<le> rb_base rb + ?n \<or> rb_contents rb (rb_base rb + ?n) = None"
    using contiguous_end_maximal [OF assms] contiguous_end_bounds [OF assms]
    by (auto simp: rb_contents_def min_def)
  ultimately show ?thesis using drain_spec [OF assms, of limit out] by blast
qed

text \<open>Draining hands out exactly the bytes held from the base up to the first hole or
  the limit, moves the base past them, and forgets nothing else; what it stops at is a hole,
  the limit, or both.\<close>

theorem rb_drain_prefix:
  assumes "rb_wf rb"
  shows "\<exists>rb' n. drain_contiguous_upto rb limit out =
      Some (rb', out @ map (\<lambda>k. the (rb_contents rb k)) [rb_base rb..<rb_base rb + n], n) \<and>
    rb_wf rb' \<and> rb_base rb' = rb_base rb + n \<and>
    (\<forall>k < n. rb_contents rb (rb_base rb + k) \<noteq> None) \<and>
    (limit \<le> rb_base rb + n \<or> rb_contents rb (rb_base rb + n) = None) \<and>
    (\<forall>k. rb_contents rb' k = (if rb_base rb + n \<le> k then rb_contents rb k else None))"
  by (rule drain_prefix [OF assms])

theorem rb_drain_prefix_witness:
  "\<exists>rb. rb_wf rb \<and> (\<exists>rb' n. drain_contiguous_upto rb 9 [1] = Some (rb', [1, 5, 6], n))"
proof -
  let ?rb = "\<lparr>rb_base = 3, rb_data = [5, 6, 0, 7], rb_covered = [(3, 5), (6, 7)],
      rb_byte_limit = 8, rb_range_limit = 4\<rparr>"
  have wf: "rb_wf ?rb" by (simp add: rb_wf_def u64_max_def)
  have run: "drain_contiguous_upto ?rb 9 [1] = Some (consume ?rb 2, [1, 5, 6], 2)"
    by (simp add: drain_contiguous_upto_def contiguous_end_def usub_def slice_def)
  from rb_drain_prefix [OF wf, of 9 "[1]"] wf run show ?thesis by blast
qed

section \<open>Any order of operations\<close>

datatype rb_op = WriteOp nat bytes overlap_policy | DrainOp nat | ResetOp nat

text \<open>One operation of a client; a panic is the absorbing state \<open>None\<close>.\<close>

fun rb_step :: "range_buffer option \<Rightarrow> rb_op \<Rightarrow> range_buffer option" where
  "rb_step None op = None"
| "rb_step (Some rb) (WriteOp offset bs policy) = map_option fst (rb_write rb offset bs policy)"
| "rb_step (Some rb) (DrainOp limit) = map_option fst (drain_contiguous_upto rb limit [])"
| "rb_step (Some rb) (ResetOp base) = Some (rb_reset rb (min base u64_max))"

definition rb_safe :: "nat \<Rightarrow> nat \<Rightarrow> range_buffer option \<Rightarrow> bool" where
  "rb_safe bl rl s \<longleftrightarrow> (case s of None \<Rightarrow> False
     | Some rb \<Rightarrow> rb_wf rb \<and> rb_byte_limit rb = bl \<and> rb_range_limit rb = rl)"

lemma rb_step_safe: "rb_safe bl rl s \<Longrightarrow> rb_safe bl rl (rb_step s op)"
proof (cases s; cases op)
  fix rb offset bs policy
  assume "s = Some rb" "op = WriteOp offset bs policy" "rb_safe bl rl s"
  then show ?thesis using rb_write_result [of rb offset bs policy] by (auto simp: rb_safe_def)
next
  fix rb limit
  assume "s = Some rb" "op = DrainOp limit" "rb_safe bl rl s"
  then show ?thesis using drain_spec [of rb limit "[]"] by (auto simp: rb_safe_def)
qed (auto simp: rb_safe_def rb_reset_wf, simp_all add: rb_reset_def)

interpretation rb_ops: invariant_machine
  "\<lambda>s. \<exists>base. base \<le> u64_max \<and> s = Some (rb_new base bl rl)" rb_step
  "rb_safe (max bl 1) (max rl 1)" for bl rl
proof unfold_locales
  show "\<exists>base\<le>u64_max. s = Some (rb_new base bl rl) \<Longrightarrow> rb_safe (max bl 1) (max rl 1) s" for s
    by (auto simp: rb_safe_def rb_new_wf) (simp_all add: rb_new_def)
qed (rule rb_step_safe)

text \<open>Bounded twice over: after any sequence of writes, drains and resets, with
  attacker-chosen offsets and payloads, the buffer has not panicked, holds at most
  \<open>byte_limit\<close> bytes and tracks at most \<open>range_limit\<close> ranges.\<close>

theorem rb_bounded:
  assumes "base \<le> u64_max"
  shows "\<exists>rb. foldl rb_step (Some (rb_new base bl rl)) ops = Some rb \<and>
    buffered_bytes rb \<le> max bl 1 \<and> range_count rb \<le> max rl 1"
proof -
  have "rb_safe (max bl 1) (max rl 1) (foldl rb_step (Some (rb_new base bl rl)) ops)"
    using assms by (intro rb_ops.inv_reachable) blast
  then show ?thesis
    using buffered_bytes_bound by (fastforce simp: rb_safe_def range_count_def rb_wf_def
        split: option.splits)
qed

theorem rb_bounded_witness:
  "\<exists>rb. foldl rb_step (Some (rb_new 0 4 1)) [WriteOp 2 [1] First, WriteOp 0 [2] Last, DrainOp 3]
     = Some rb \<and> buffered_bytes rb \<le> 4 \<and> range_count rb \<le> 1"
  using rb_bounded [of 0 4 1 "[WriteOp 2 [1] First, WriteOp 0 [2] Last, DrainOp 3]"] by simp

section \<open>Out-of-order delivery\<close>

text \<open>Writing pieces \<open>(offset, length)\<close> of a message, in the order of the list.\<close>

fun write_pieces ::
    "bytes \<Rightarrow> (nat \<times> nat \<times> overlap_policy) list \<Rightarrow> range_buffer \<Rightarrow> range_buffer option" where
  "write_pieces m [] rb = Some rb"
| "write_pieces m ((off, len, policy) # ps) rb = do {
     (rb', out) \<leftarrow> rb_write rb off (take len (drop off m)) policy;
     write_pieces m ps rb' }"

definition of_message :: "bytes \<Rightarrow> nat \<Rightarrow> range_buffer \<Rightarrow> bool" where
  "of_message m j rb \<longleftrightarrow> rb_wf rb \<and> rb_base rb = 0 \<and> length m \<le> rb_byte_limit rb \<and>
     length (rb_covered rb) + j \<le> rb_range_limit rb \<and>
     (\<forall>k b. rb_contents rb k = Some b \<longrightarrow> k < length m \<and> b = m ! k)"

lemma write_piece_of_message:
  assumes "of_message m (Suc j) rb" "length m < u64_max"
  shows "\<exists>rb' out. rb_write rb off (take len (drop off m)) policy = Some (rb', out) \<and>
    of_message m j rb' \<and> (\<forall>k. rb_contents rb' k \<noteq> None \<longleftrightarrow>
      rb_contents rb k \<noteq> None \<or> off \<le> k \<and> k < off + len \<and> k < length m)"
proof -
  let ?bs = "take len (drop off m)"
  have wf: "rb_wf rb" "rb_base rb = 0" "length m \<le> rb_byte_limit rb"
      "length (rb_covered rb) < rb_range_limit rb"
    using assms(1) by (auto simp: of_message_def)
  obtain rb' out where w: "rb_write rb off ?bs policy = Some (rb', out)" "rb_wf rb'" "rb_base rb' = 0"
      "rb_byte_limit rb' = rb_byte_limit rb" "rb_range_limit rb' = rb_range_limit rb"
      "rb_contents rb' = (if write_lands rb off ?bs
        then written (rb_contents rb) (win_from rb off) (win_to rb off ?bs) ?bs policy off
        else rb_contents rb)"
      "length (rb_covered rb') \<le> Suc (length (rb_covered rb))"
    using rb_write_result [OF wf(1), of off ?bs policy] wf(2) by auto
  have win: "win_from rb off = off" "?bs \<noteq> [] \<Longrightarrow> win_to rb off ?bs = min (off + len) (length m)"
    using wf assms(2) by (auto simp: win_from_def win_to_def saturating_add_def)
  have lands: "write_lands rb off ?bs \<longleftrightarrow> ?bs \<noteq> []"
    using wf(4) win by (auto simp: write_lands_def range_capped_def)
  have new: "rb_contents rb' k = (if off \<le> k \<and> k < off + len \<and> k < length m then Some (m ! k)
      else rb_contents rb k)" for k
    using assms(1) w(6) lands win
    by (cases "?bs = []") (auto simp: written_def of_message_def split: option.splits)
  then have "of_message m j rb'"
    using assms(1) w by (auto simp: of_message_def split: if_splits)
  with w(1) new show ?thesis by auto
qed

lemma write_pieces_of_message:
  assumes "of_message m (length ps) rb" "length m < u64_max"
  shows "\<exists>rb'. write_pieces m ps rb = Some rb' \<and> of_message m 0 rb' \<and>
    (\<forall>k. rb_contents rb' k \<noteq> None \<longleftrightarrow> rb_contents rb k \<noteq> None \<or>
      (\<exists>(off, len, policy)\<in>set ps. off \<le> k \<and> k < off + len \<and> k < length m))"
  using assms(1)
proof (induction ps arbitrary: rb)
  case Nil
  then show ?case by simp
next
  case (Cons p ps)
  obtain off len policy where p: "p = (off, len, policy)" by (cases p)
  obtain rb1 out where r1: "rb_write rb off (take len (drop off m)) policy = Some (rb1, out)"
      "of_message m (length ps) rb1" "\<forall>k. rb_contents rb1 k \<noteq> None \<longleftrightarrow>
      rb_contents rb k \<noteq> None \<or> off \<le> k \<and> k < off + len \<and> k < length m"
    using write_piece_of_message [of m "length ps" rb off len policy] Cons.prems assms(2) by auto
  from Cons.IH [OF r1(2)] r1 show ?case by (fastforce simp: p)
qed

text \<open>C35. Delivery is independent of arrival order and of the policy: if pieces of a message
  cover it, writing them in any order (overlapping or not, under any policies) into a buffer
  with room for them and draining yields the message.\<close>

theorem pieces_reassemble:
  assumes "length m < u64_max" "length m \<le> bl" "length ps \<le> rl"
    and "\<forall>k < length m. \<exists>(off, len, policy)\<in>set ps. off \<le> k \<and> k < off + len"
  shows "\<exists>rb rb'. write_pieces m ps (rb_new 0 bl rl) = Some rb \<and>
    drain_contiguous rb [] = Some (rb', m, length m)"
proof -
  have "of_message m (length ps) (rb_new 0 bl rl)"
    using assms(1-3) by (simp add: of_message_def rb_new_wf) (simp add: rb_new_def le_max_iff_disj)
  from write_pieces_of_message [OF this assms(1)] obtain rb where
    r: "write_pieces m ps (rb_new 0 bl rl) = Some rb" "of_message m 0 rb"
      "\<And>k. rb_contents rb k \<noteq> None \<longleftrightarrow>
        (\<exists>(off, len, policy)\<in>set ps. off \<le> k \<and> k < off + len \<and> k < length m)"
    by auto
  have full: "rb_contents rb k = Some (m ! k)" if "k < length m" for k
    using r(2) r(3) [of k] assms(4) that by (fastforce simp: of_message_def)
  have none: "rb_contents rb k = None" if "length m \<le> k" for k
    using r(3) [of k] that by auto
  obtain rb' n where d: "drain_contiguous_upto rb u64_max [] =
        Some (rb', map (\<lambda>k. the (rb_contents rb k)) [0..<n], n)"
      "\<forall>k < n. rb_contents rb k \<noteq> None" "u64_max \<le> n \<or> rb_contents rb n = None"
    using drain_prefix [of rb u64_max "[]"] r(2) by (auto simp: of_message_def)
  have "n = length m"
  proof (rule antisym)
    have "\<not> length m < n" using d(2) none [of "length m"] by blast
    then show "n \<le> length m" by simp
    have "\<not> n < length m" using d(3) full [of n] assms(1) by auto
    then show "length m \<le> n" by simp
  qed
  moreover have "map (\<lambda>k. the (rb_contents rb k)) [0..<length m] = m"
    using full by (intro nth_equalityI) auto
  ultimately show ?thesis using r(1) d(1) by (auto simp: drain_contiguous_def)
qed

theorem pieces_reassemble_witness:
  "\<exists>rb rb'. write_pieces [10, 20, 30] [(1, 2, Last), (0, 2, First)] (rb_new 0 8 4) = Some rb \<and>
     drain_contiguous rb [] = Some (rb', [10, 20, 30], 3)"
proof -
  have cover: "\<forall>k < length [10, 20, 30 :: byte].
      \<exists>(off, len, policy)\<in>set [(1, 2, Last), (0, 2, First)]. off \<le> k \<and> k < off + len"
    by (auto simp: less_Suc_eq numeral_3_eq_3)
  have "length [10, 20, 30 :: byte] < u64_max" by (simp add: u64_max_def)
  from pieces_reassemble [OF this _ _ cover, of 8 4] show ?thesis
    by (simp add: numeral_3_eq_3)
qed

text \<open>The definitions a concrete run of a buffer unfolds.\<close>

lemmas rb_run = rb_new_def rb_write_def write_clip_def write_apply_def Let_def
  touches_existing_def range_count_def walk_gap_def walk_overlap_def copy_in_def count_differing_def
  mark_covered_def default_outcome_def saturating_add_def u64_max_def usub_def slice_def
  splice_at_def resize_def as_i64_def contiguous_end_def drain_contiguous_upto_def consume_def
  covered_end_def

end
