(* ===== verification/Defrag.thy ===== *)
theory Defrag
  imports RangeBuffer
begin

text \<open>
  IP defragmentation (\<open>crates/reassembly/src/defrag.rs\<close>): a bounded table of partly assembled
  datagrams, each a range buffer of at most 65535 bytes, keyed by addresses, identification
  and protocol. Capture time is an argument of every operation. A panic is \<open>None\<close>; the
  counters are unbounded naturals.
\<close>

section \<open>Data\<close>

definition max_datagram_len :: nat where
  "max_datagram_len = 65535"

definition max_holes_per_datagram :: nat where
  "max_holes_per_datagram = 128"

definition defrag_sweep_interval :: duration where
  "defrag_sweep_interval = secs 5"

record fragment_view =
  fv_source :: ip_addr
  fv_destination :: ip_addr
  fv_identification :: "32 word"
  fv_protocol :: byte
  fv_offset :: "16 word"
  fv_more_fragments :: bool
  fv_payload :: bytes

record fragment_key =
  fk_source :: ip_addr
  fk_destination :: ip_addr
  fk_identification :: "32 word"
  fk_protocol :: byte

record reassembled =
  ra_source :: ip_addr
  ra_destination :: ip_addr
  ra_protocol :: byte
  ra_data :: bytes
  ra_fragments :: nat
  ra_conflicting_bytes :: nat

record defrag_counters =
  dc_fragments :: nat
  dc_completed :: nat
  dc_started :: nat
  dc_timed_out :: nat
  dc_evicted :: nat
  dc_overlaps :: nat
  dc_conflicting_overlaps :: nat
  dc_oversized :: nat
  dc_refused_bytes :: nat
  dc_misaligned :: nat

definition default_defrag_counters :: defrag_counters where
  "default_defrag_counters = \<lparr>dc_fragments = 0, dc_completed = 0, dc_started = 0, dc_timed_out = 0,
     dc_evicted = 0, dc_overlaps = 0, dc_conflicting_overlaps = 0, dc_oversized = 0,
     dc_refused_bytes = 0, dc_misaligned = 0\<rparr>"

record fragment_set =
  fs_buffer :: range_buffer
  fs_first_seen :: system_time
  fs_last_seen :: system_time
  fs_total_len :: "nat option"
  fs_fragments :: nat
  fs_conflicting_bytes :: nat
  fs_source :: ip_addr
  fs_destination :: ip_addr
  fs_protocol :: byte

record defragmenter =
  df_sets :: "(fragment_key, fragment_set) hashmap"
  df_max_sets :: nat
  df_max_bytes_total :: nat
  df_timeout :: duration
  df_counters :: defrag_counters
  df_last_sweep :: "system_time option"

section \<open>Operations\<close>

definition defrag_new :: "reassembly_config \<Rightarrow> defragmenter" where
  "defrag_new c = \<lparr>df_sets = [], df_max_sets = max (max_fragment_sets c) 1,
     df_max_bytes_total = max (max_fragment_bytes_total c) 1,
     df_timeout = secs (max (fragment_timeout_secs c) 1),
     df_counters = default_defrag_counters, df_last_sweep = None\<rparr>"

definition active_sets :: "defragmenter \<Rightarrow> nat" where
  "active_sets d = length (df_sets d)"

definition defrag_buffered_bytes :: "defragmenter \<Rightarrow> nat" where
  "defrag_buffered_bytes d = hm_sum (\<lambda>fset. buffered_bytes (fs_buffer fset)) (df_sets d)"

definition upd_dc :: "(defrag_counters \<Rightarrow> defrag_counters) \<Rightarrow> defragmenter \<Rightarrow> defragmenter" where
  "upd_dc f d = d\<lparr>df_counters := f (df_counters d)\<rparr>"

definition defrag_sweep :: "defragmenter \<Rightarrow> system_time \<Rightarrow> defragmenter" where
  "defrag_sweep d now =
     (let before = length (df_sets d);
          sets = hm_retain (\<lambda>_ fset. unwrap_or (duration_since now (fs_last_seen fset)) 0 < df_timeout d)
            (df_sets d)
      in upd_dc (\<lambda>c. c\<lparr>dc_timed_out := dc_timed_out c + (before - length sets)\<rparr>)
           (d\<lparr>df_last_sweep := Some now, df_sets := sets\<rparr>))"

definition defrag_maybe_sweep :: "defragmenter \<Rightarrow> system_time \<Rightarrow> defragmenter" where
  "defrag_maybe_sweep d now =
     (let due = (case df_last_sweep d of None \<Rightarrow> True
        | Some swept \<Rightarrow> (case duration_since now swept of
            None \<Rightarrow> False | Some elapsed \<Rightarrow> defrag_sweep_interval \<le> elapsed))
      in if due then defrag_sweep d now else d)"

definition defrag_has_room :: "defragmenter \<Rightarrow> bool" where
  "defrag_has_room d \<longleftrightarrow>
     length (df_sets d) < df_max_sets d \<and> defrag_buffered_bytes d < df_max_bytes_total d"

text \<open>The eviction loop: a key that is still there is removed and counted.\<close>

fun defrag_evict :: "fragment_key list \<Rightarrow> defragmenter \<Rightarrow> defragmenter" where
  "defrag_evict [] d = d"
| "defrag_evict (k # ks) d = defrag_evict ks
     (if hm_contains (df_sets d) k
      then upd_dc (\<lambda>c. c\<lparr>dc_evicted := dc_evicted c + 1\<rparr>) (d\<lparr>df_sets := hm_remove k (df_sets d)\<rparr>)
      else d)"

definition defrag_make_room :: "defragmenter \<Rightarrow> system_time \<Rightarrow> defragmenter" where
  "defrag_make_room d now =
     (if defrag_has_room d then d
      else let d = defrag_sweep d now in
        if defrag_has_room d then d
        else let batch = max (df_max_sets d div 10) 1;
                 by_age = sort_key fst (map (\<lambda>(k, fset). (fs_first_seen fset, k)) (df_sets d))
             in defrag_evict (map snd (take batch by_age)) d)"

definition fragment_key_of :: "fragment_view \<Rightarrow> fragment_key" where
  "fragment_key_of f = \<lparr>fk_source = fv_source f, fk_destination = fv_destination f,
     fk_identification = fv_identification f, fk_protocol = fv_protocol f\<rparr>"

definition new_fragment_set :: "fragment_view \<Rightarrow> system_time \<Rightarrow> fragment_set" where
  "new_fragment_set f now =
     \<lparr>fs_buffer = rb_new 0 max_datagram_len max_holes_per_datagram, fs_first_seen = now,
      fs_last_seen = now, fs_total_len = None, fs_fragments = 0, fs_conflicting_bytes = 0,
      fs_source = fv_source f, fs_destination = fv_destination f, fs_protocol = fv_protocol f\<rparr>"

text \<open>What a fragment does to the set of its datagram; the write's outcome goes to the
  table's counters.\<close>

definition set_add :: "fragment_set \<Rightarrow> fragment_view \<Rightarrow> system_time \<Rightarrow> overlap_policy \<Rightarrow>
    (fragment_set \<times> write_outcome) option" where
  "set_add fset f now policy = do {
     let offset = 8 * unat (fv_offset f);
     let end = saturating_add offset (length (fv_payload f));
     (buffer, out) \<leftarrow> rb_write (fs_buffer fset) offset (fv_payload f) policy;
     Some (fset\<lparr>fs_fragments := fs_fragments fset + 1,
        fs_last_seen := (if fs_last_seen fset < now then now else fs_last_seen fset),
        fs_buffer := buffer,
        fs_conflicting_bytes := fs_conflicting_bytes fset + wo_conflicting out,
        fs_total_len := (if fv_more_fragments f then fs_total_len fset
          else case fs_total_len fset of None \<Rightarrow> Some end | Some t \<Rightarrow> Some t)\<rparr>, out) }"

definition set_complete :: "fragment_set \<Rightarrow> bool" where
  "set_complete fset = (case fs_total_len fset of None \<Rightarrow> False
     | Some total_len \<Rightarrow> total_len \<le> contiguous_end (fs_buffer fset))"

definition set_finish :: "fragment_set \<Rightarrow> reassembled option" where
  "set_finish fset = do {
     (_, data, _) \<leftarrow> drain_contiguous_upto (fs_buffer fset) (unwrap_or (fs_total_len fset) 0) [];
     Some \<lparr>ra_source = fs_source fset, ra_destination = fs_destination fset,
       ra_protocol = fs_protocol fset, ra_data = data, ra_fragments = fs_fragments fset,
       ra_conflicting_bytes = fs_conflicting_bytes fset\<rparr> }"

text \<open>The table with an entry for the fragment's datagram.\<close>

definition ensure_set :: "defragmenter \<Rightarrow> fragment_view \<Rightarrow> system_time \<Rightarrow> defragmenter" where
  "ensure_set d f now =
     (if hm_contains (df_sets d) (fragment_key_of f) then d
      else let d = upd_dc (\<lambda>c. c\<lparr>dc_started := dc_started c + 1\<rparr>) (defrag_make_room d now)
           in d\<lparr>df_sets := hm_insert (fragment_key_of f) (new_fragment_set f now) (df_sets d)\<rparr>)"

definition defrag_push :: "defragmenter \<Rightarrow> fragment_view \<Rightarrow> system_time \<Rightarrow> overlap_policy \<Rightarrow>
    (defragmenter \<times> reassembled option) option" where
  "defrag_push d f now policy =
     (let d = defrag_maybe_sweep (upd_dc (\<lambda>c. c\<lparr>dc_fragments := dc_fragments c + 1\<rparr>) d) now;
          offset = 8 * unat (fv_offset f);
          end = saturating_add offset (length (fv_payload f)) in
      if max_datagram_len < end
      then Some (upd_dc (\<lambda>c. c\<lparr>dc_oversized := dc_oversized c + 1\<rparr>) d, None)
      else
        let d = (if fv_more_fragments f \<and> fv_payload f \<noteq> [] \<and> length (fv_payload f) mod 8 \<noteq> 0
                 then upd_dc (\<lambda>c. c\<lparr>dc_misaligned := dc_misaligned c + 1\<rparr>) d else d);
            key = fragment_key_of f;
            d = ensure_set d f now in
        case hm_get (df_sets d) key of
          None \<Rightarrow> Some (d, None)
        | Some fset \<Rightarrow> do {
            (fset, out) \<leftarrow> set_add fset f now policy;
            let d = upd_dc (\<lambda>c. c\<lparr>dc_overlaps := dc_overlaps c + wo_overlapped out,
                dc_conflicting_overlaps := dc_conflicting_overlaps c + wo_conflicting out,
                dc_refused_bytes := dc_refused_bytes c + wo_refused out\<rparr>)
              (d\<lparr>df_sets := hm_insert key fset (df_sets d)\<rparr>);
            if \<not> set_complete fset then Some (d, None)
            else do {
              r \<leftarrow> set_finish fset;
              Some (upd_dc (\<lambda>c. c\<lparr>dc_completed := dc_completed c + 1\<rparr>)
                  (d\<lparr>df_sets := hm_remove key (df_sets d)\<rparr>), Some r) } })"

section \<open>Losing entries\<close>

lemma upd_dc_simps [simp]:
  "df_sets (upd_dc f d) = df_sets d" "df_max_sets (upd_dc f d) = df_max_sets d"
  "df_max_bytes_total (upd_dc f d) = df_max_bytes_total d" "df_timeout (upd_dc f d) = df_timeout d"
  "df_counters (upd_dc f d) = f (df_counters d)" "df_last_sweep (upd_dc f d) = df_last_sweep d"
  by (simp_all add: upd_dc_def)

text \<open>Sweeping and eviction only drop entries, and each one dropped is counted.\<close>

definition shrunk :: "defragmenter \<Rightarrow> defragmenter \<Rightarrow> bool" where
  "shrunk d d' \<longleftrightarrow> hm_invar (df_sets d') \<and> set (df_sets d') \<subseteq> set (df_sets d) \<and>
     length (df_sets d') \<le> length (df_sets d) \<and>
     df_max_sets d' = df_max_sets d \<and> df_max_bytes_total d' = df_max_bytes_total d \<and>
     df_timeout d' = df_timeout d \<and>
     dc_started (df_counters d') = dc_started (df_counters d) \<and>
     dc_completed (df_counters d') = dc_completed (df_counters d) \<and>
     length (df_sets d') + dc_timed_out (df_counters d') + dc_evicted (df_counters d') =
       length (df_sets d) + dc_timed_out (df_counters d) + dc_evicted (df_counters d)"

lemma shrunk_refl: "hm_invar (df_sets d) \<Longrightarrow> shrunk d d"
  by (simp add: shrunk_def)

lemma shrunk_trans: "shrunk d d' \<Longrightarrow> shrunk d' d'' \<Longrightarrow> shrunk d d''"
  by (auto simp: shrunk_def)

lemma shrunk_sweep: "hm_invar (df_sets d) \<Longrightarrow> shrunk d (defrag_sweep d now)"
  by (auto simp: shrunk_def defrag_sweep_def Let_def) (auto simp: hm_retain_def)

lemma shrunk_maybe_sweep: "hm_invar (df_sets d) \<Longrightarrow> shrunk d (defrag_maybe_sweep d now)"
  by (simp add: defrag_maybe_sweep_def Let_def shrunk_sweep shrunk_refl)

lemma shrunk_evict: "hm_invar (df_sets d) \<Longrightarrow> shrunk d (defrag_evict ks d)"
proof (induction ks d rule: defrag_evict.induct)
  case (1 d)
  then show ?case by (simp add: shrunk_refl)
next
  case (2 k ks d)
  let ?d = "if hm_contains (df_sets d) k
      then upd_dc (\<lambda>c. c\<lparr>dc_evicted := dc_evicted c + 1\<rparr>) (d\<lparr>df_sets := hm_remove k (df_sets d)\<rparr>)
      else d"
  have "shrunk d ?d"
  proof (cases "hm_contains (df_sets d) k")
    case True
    have "length (hm_remove k (df_sets d)) = length (df_sets d) - 1" "0 < length (df_sets d)"
      using True hm.size_remove [OF 2(2), of k] hm.size_pos [OF 2(2), of k]
      by (auto simp only: hm_contains_def if_False)
    moreover have "set (hm_remove k (df_sets d)) \<subseteq> set (df_sets d)"
      using hm_set_remove by fastforce
    ultimately show ?thesis using True 2(2) by (simp add: shrunk_def)
  next
    case False
    with 2(2) show ?thesis by (simp add: shrunk_refl)
  qed
  moreover have "hm_invar (df_sets ?d)" using 2(2) by simp
  then have "shrunk ?d (defrag_evict ks ?d)" by (rule 2(1))
  ultimately have "shrunk d (defrag_evict ks ?d)" by (rule shrunk_trans)
  then show ?case by (simp only: defrag_evict.simps)
qed

lemma evict_removes:
  assumes "hm_invar (df_sets d)" "ks \<noteq> []" "hm_contains (df_sets d) (hd ks)"
  shows "length (df_sets (defrag_evict ks d)) < length (df_sets d)"
proof -
  obtain k ks' where ks: "ks = k # ks'" using assms(2) by (cases ks) auto
  let ?d = "upd_dc (\<lambda>c. c\<lparr>dc_evicted := dc_evicted c + 1\<rparr>) (d\<lparr>df_sets := hm_remove k (df_sets d)\<rparr>)"
  have "shrunk ?d (defrag_evict ks' ?d)"
    using assms(1) by (intro shrunk_evict) simp
  then have "length (df_sets (defrag_evict ks' ?d)) \<le> length (hm_remove k (df_sets d))"
    by (simp add: shrunk_def)
  also have "\<dots> < length (df_sets d)"
    using assms ks hm.size_remove [OF assms(1), of k] hm.size_pos [OF assms(1), of k]
    by (auto simp: hm_contains_def)
  finally show ?thesis using assms(3) ks by simp
qed

lemma shrunk_make_room: "hm_invar (df_sets d) \<Longrightarrow> shrunk d (defrag_make_room d now)"
proof -
  assume inv: "hm_invar (df_sets d)"
  then have sw: "shrunk d (defrag_sweep d now)" by (rule shrunk_sweep)
  then have "shrunk (defrag_sweep d now) (defrag_evict ks (defrag_sweep d now))" for ks
    by (intro shrunk_evict) (simp add: shrunk_def)
  with sw inv show ?thesis
    by (auto simp: defrag_make_room_def Let_def shrunk_refl intro: shrunk_trans)
qed

lemma make_room_room:
  assumes inv: "hm_invar (df_sets d)" "length (df_sets d) \<le> df_max_sets d" "1 \<le> df_max_sets d"
  shows "length (df_sets (defrag_make_room d now)) < df_max_sets d"
proof (cases "defrag_has_room d \<or> defrag_has_room (defrag_sweep d now)")
  case True
  with shrunk_sweep [OF inv(1), of now] inv show ?thesis
    by (auto simp: defrag_make_room_def Let_def defrag_has_room_def shrunk_def)
next
  case False
  let ?d = "defrag_sweep d now"
  let ?by = "sort_key fst (map (\<lambda>(k, fset). (fs_first_seen fset, k)) (df_sets ?d))"
  let ?ks = "map snd (take (max (df_max_sets ?d div 10) 1) ?by)"
  have sw: "shrunk d ?d" by (rule shrunk_sweep [OF inv(1)])
  have mk: "defrag_make_room d now = defrag_evict ?ks ?d"
    using False by (simp add: defrag_make_room_def Let_def)
  show ?thesis
  proof (cases "df_sets ?d")
    case Nil
    with shrunk_evict [of ?d ?ks] sw inv mk show ?thesis by (auto simp: shrunk_def)
  next
    case (Cons kv rest)
    have "length ?by = length (df_sets ?d)" by simp
    with Cons have ne: "?by \<noteq> []" by (metis length_greater_0_conv list.distinct(1))
    then obtain t k rest' where srt: "?by = (t, k) # rest'" by (cases ?by) auto
    have "(t, k) \<in> set (map (\<lambda>(k, fset). (fs_first_seen fset, k)) (df_sets ?d))"
      using srt by (metis list.set_intros(1) set_sort)
    then have "hm_contains (df_sets ?d) k" by (force simp: hm_contains_iff)
    moreover have "?ks = k # map snd (take (max (df_max_sets ?d div 10) 1 - 1) rest')"
      unfolding srt by (cases "max (df_max_sets ?d div 10) 1") (auto simp: max_def split: if_splits)
    ultimately have "length (df_sets (defrag_evict ?ks ?d)) < length (df_sets ?d)"
      using sw by (intro evict_removes) (auto simp: shrunk_def)
    with sw mk inv show ?thesis by (auto simp: shrunk_def)
  qed
qed

section \<open>The invariant\<close>

definition set_wf :: "fragment_set \<Rightarrow> bool" where
  "set_wf s \<longleftrightarrow> rb_wf (fs_buffer s) \<and> rb_base (fs_buffer s) = 0 \<and>
     rb_byte_limit (fs_buffer s) = max_datagram_len"

definition accounted :: "defragmenter \<Rightarrow> bool" where
  "accounted d \<longleftrightarrow> dc_started (df_counters d) = dc_completed (df_counters d) +
     dc_timed_out (df_counters d) + dc_evicted (df_counters d) + length (df_sets d)"

definition defrag_wf :: "defragmenter \<Rightarrow> bool" where
  "defrag_wf d \<longleftrightarrow> hm_invar (df_sets d) \<and> 1 \<le> df_max_sets d \<and>
     length (df_sets d) \<le> df_max_sets d \<and> accounted d \<and>
     (\<forall>k s. (k, s) \<in> set (df_sets d) \<longrightarrow> set_wf s)"

lemma defrag_new_wf: "defrag_wf (defrag_new c)"
  by (simp add: defrag_wf_def defrag_new_def accounted_def default_defrag_counters_def)

lemma shrunk_wf: "defrag_wf d \<Longrightarrow> shrunk d d' \<Longrightarrow> defrag_wf d'"
  by (auto simp: defrag_wf_def shrunk_def accounted_def)

text \<open>Counters other than the four of the balance are free to change.\<close>

definition balance :: "defrag_counters \<Rightarrow> nat \<times> nat \<times> nat \<times> nat" where
  "balance c = (dc_started c, dc_completed c, dc_timed_out c, dc_evicted c)"

lemma defrag_wf_upd_dc: "(\<And>c. balance (f c) = balance c) \<Longrightarrow> defrag_wf (upd_dc f d) = defrag_wf d"
  by (simp add: defrag_wf_def accounted_def balance_def)

lemma shrunk_get:
  assumes "hm_invar (df_sets d)" "shrunk d d'" "hm_get (df_sets d') k = Some v"
  shows "hm_get (df_sets d) k = Some v"
  using assms hm_get_in_set [OF assms(3)] by (intro hm_in_set_get) (auto simp: shrunk_def)

lemma new_set_wf: "set_wf (new_fragment_set f now)"
  by (simp add: set_wf_def new_fragment_set_def rb_new_wf) (simp add: rb_new_def max_datagram_len_def)

lemma set_add_result:
  assumes "set_wf s"
  shows "\<exists>s' out. set_add s f now policy = Some (s', out) \<and> set_wf s' \<and>
    rb_write (fs_buffer s) (8 * unat (fv_offset f)) (fv_payload f) policy = Some (fs_buffer s', out) \<and>
    fs_total_len s' = (if fv_more_fragments f then fs_total_len s
      else case fs_total_len s of None \<Rightarrow>
          Some (saturating_add (8 * unat (fv_offset f)) (length (fv_payload f)))
        | Some t \<Rightarrow> Some t) \<and>
    fs_source s' = fs_source s \<and> fs_destination s' = fs_destination s \<and>
    fs_protocol s' = fs_protocol s \<and> fs_last_seen s' = max (fs_last_seen s) now"
  using assms rb_write_result [of "fs_buffer s" "8 * unat (fv_offset f)" "fv_payload f" policy]
  by (auto simp: set_add_def set_wf_def Let_def)

lemma set_finish_result:
  assumes "set_wf s" "set_complete s"
  shows "\<exists>r t. set_finish s = Some r \<and> fs_total_len s = Some t \<and>
    ra_data r = map (\<lambda>k. the (rb_contents (fs_buffer s) k)) [0..<t] \<and>
    ra_source r = fs_source s \<and> ra_destination r = fs_destination s \<and> ra_protocol r = fs_protocol s"
proof -
  from assms(2) obtain t where t: "fs_total_len s = Some t" "t \<le> contiguous_end (fs_buffer s)"
    by (auto simp: set_complete_def split: option.splits)
  with drain_spec [of "fs_buffer s" t "[]"] assms(1) show ?thesis
    by (auto simp: set_finish_def set_wf_def unwrap_or_def)
qed

lemma ensure_set_result:
  assumes wf: "defrag_wf d"
  shows "\<exists>s. defrag_wf (ensure_set d f now) \<and>
    hm_get (df_sets (ensure_set d f now)) (fragment_key_of f) = Some s \<and> set_wf s \<and>
    s = (case hm_get (df_sets d) (fragment_key_of f) of None \<Rightarrow> new_fragment_set f now | Some s \<Rightarrow> s) \<and>
    df_max_sets (ensure_set d f now) = df_max_sets d \<and> df_timeout (ensure_set d f now) = df_timeout d \<and>
    (\<forall>k v. k \<noteq> fragment_key_of f \<longrightarrow> hm_get (df_sets (ensure_set d f now)) k = Some v \<longrightarrow>
      hm_get (df_sets d) k = Some v)"
proof (cases "hm_get (df_sets d) (fragment_key_of f)")
  case (Some s)
  with wf hm_get_in_set [OF Some] show ?thesis
    by (auto simp: ensure_set_def hm_contains_def defrag_wf_def)
next
  case None
  let ?k = "fragment_key_of f" and ?r = "defrag_make_room d now"
  have inv: "hm_invar (df_sets d)" using wf by (simp add: defrag_wf_def)
  have sh: "shrunk d ?r" by (rule shrunk_make_room [OF inv])
  have room: "length (df_sets ?r) < df_max_sets d"
    using wf by (intro make_room_room) (auto simp: defrag_wf_def)
  have wfr: "defrag_wf ?r" by (rule shrunk_wf [OF wf sh])
  then have invr: "hm_invar (df_sets ?r)" by (simp add: defrag_wf_def)
  have absent: "hm_get (df_sets ?r) ?k = None"
    using shrunk_get [OF inv sh, of ?k] None by (cases "hm_get (df_sets ?r) ?k") auto
  have len: "length (hm_insert ?k (new_fragment_set f now) (df_sets ?r)) = Suc (length (df_sets ?r))"
    using hm.size_insert [OF invr, of ?k] absent by simp
  have e: "ensure_set d f now = (upd_dc (\<lambda>c. c\<lparr>dc_started := dc_started c + 1\<rparr>) ?r)
      \<lparr>df_sets := hm_insert ?k (new_fragment_set f now) (df_sets ?r)\<rparr>"
    using None by (simp add: ensure_set_def hm_contains_def Let_def)
  have "\<forall>k s. (k, s) \<in> set (hm_insert ?k (new_fragment_set f now) (df_sets ?r)) \<longrightarrow> set_wf s"
    using wfr new_set_wf [of f now] hm_set_insert [of _ _ ?k "new_fragment_set f now" "df_sets ?r"]
    by (fastforce simp: defrag_wf_def)
  with wfr room len sh have "defrag_wf (ensure_set d f now)"
    unfolding e by (simp add: defrag_wf_def accounted_def shrunk_def)
  moreover have "hm_get (df_sets (ensure_set d f now)) = (hm_get (df_sets ?r))(?k \<mapsto> new_fragment_set f now)"
    unfolding e by (simp add: hm.get_insert [OF invr])
  ultimately show ?thesis
    using shrunk_get [OF inv sh] new_set_wf None sh e
    by (auto simp: fun_upd_apply shrunk_def split: if_splits)
qed

lemma maybe_sweep_upd_dc: "df_sets (defrag_maybe_sweep (upd_dc f d) now) = df_sets (defrag_maybe_sweep d now)"
  by (simp add: defrag_maybe_sweep_def defrag_sweep_def Let_def split: option.splits)

text \<open>The set a fragment goes to: what the sweep left of its datagram, or a new one.\<close>

definition target_set :: "defragmenter \<Rightarrow> fragment_view \<Rightarrow> system_time \<Rightarrow> fragment_set" where
  "target_set d f now =
     (case hm_get (df_sets (defrag_maybe_sweep d now)) (fragment_key_of f) of
        None \<Rightarrow> new_fragment_set f now | Some s \<Rightarrow> s)"

definition fragment_end :: "fragment_view \<Rightarrow> nat" where
  "fragment_end f = 8 * unat (fv_offset f) + length (fv_payload f)"

lemma oversized_iff:
  "max_datagram_len < saturating_add (8 * unat (fv_offset f)) (length (fv_payload f)) \<longleftrightarrow>
     max_datagram_len < fragment_end f"
  by (auto simp: saturating_add_def fragment_end_def max_datagram_len_def u64_max_def)

lemma end_exact:
  "fragment_end f \<le> max_datagram_len \<Longrightarrow>
     saturating_add (8 * unat (fv_offset f)) (length (fv_payload f)) = fragment_end f"
  by (simp add: saturating_add_def fragment_end_def max_datagram_len_def u64_max_def)

lemma defrag_push_oversized:
  assumes wf: "defrag_wf d" and big: "max_datagram_len < fragment_end f"
  shows "\<exists>d'. defrag_push d f now policy = Some (d', None) \<and> defrag_wf d' \<and> shrunk d d' \<and>
    dc_oversized (df_counters d') = Suc (dc_oversized (df_counters d))"
proof -
  let ?c = "upd_dc (\<lambda>c. c\<lparr>dc_fragments := dc_fragments c + 1\<rparr>) d"
  have sh: "shrunk ?c (defrag_maybe_sweep ?c now)"
    using wf by (intro shrunk_maybe_sweep) (simp add: defrag_wf_def)
  have ov: "dc_oversized (df_counters (defrag_maybe_sweep ?c now)) = dc_oversized (df_counters d)"
    by (simp add: defrag_maybe_sweep_def defrag_sweep_def Let_def)
  have "defrag_wf ?c" using wf by (simp add: defrag_wf_upd_dc balance_def)
  from shrunk_wf [OF this sh]
  have "defrag_wf (upd_dc (\<lambda>c. c\<lparr>dc_oversized := dc_oversized c + 1\<rparr>) (defrag_maybe_sweep ?c now))"
    by (simp add: defrag_wf_upd_dc balance_def)
  with sh ov big show ?thesis
    by (simp add: defrag_push_def Let_def oversized_iff shrunk_def)
qed

lemma defrag_push_stored:
  assumes wf: "defrag_wf d" and fits: "fragment_end f \<le> max_datagram_len"
  defines "key \<equiv> fragment_key_of f"
  shows "\<exists>d' r s' out. defrag_push d f now policy = Some (d', r) \<and> defrag_wf d' \<and>
    df_max_sets d' = df_max_sets d \<and> df_timeout d' = df_timeout d \<and>
    (\<forall>k v. k \<noteq> key \<longrightarrow> hm_get (df_sets d') k = Some v \<longrightarrow> hm_get (df_sets d) k = Some v) \<and>
    set_wf (target_set d f now) \<and> set_add (target_set d f now) f now policy = Some (s', out) \<and>
    (if set_complete s' then hm_get (df_sets d') key = None \<and> r = set_finish s' \<and> r \<noteq> None
     else hm_get (df_sets d') key = Some s' \<and> r = None)"
proof -
  let ?c = "upd_dc (\<lambda>c. c\<lparr>dc_fragments := dc_fragments c + 1\<rparr>) d"
  let ?s = "defrag_maybe_sweep ?c now"
  let ?m = "if fv_more_fragments f \<and> fv_payload f \<noteq> [] \<and> length (fv_payload f) mod 8 \<noteq> 0
      then upd_dc (\<lambda>c. c\<lparr>dc_misaligned := dc_misaligned c + 1\<rparr>) ?s else ?s"
  let ?e = "ensure_set ?m f now"
  have inv: "hm_invar (df_sets d)" using wf by (simp add: defrag_wf_def)
  have sh: "shrunk ?c ?s" using inv by (intro shrunk_maybe_sweep) simp
  have "defrag_wf ?c" using wf by (simp add: defrag_wf_upd_dc balance_def)
  from shrunk_wf [OF this sh] have wfm: "defrag_wf ?m" by (simp add: defrag_wf_upd_dc balance_def)
  have old: "hm_get (df_sets ?m) k = Some v \<Longrightarrow> hm_get (df_sets d) k = Some v" for k v
    using shrunk_get [OF _ sh, of k v] inv by (simp split: if_splits)
  have tgt: "(case hm_get (df_sets ?m) (fragment_key_of f) of None \<Rightarrow> new_fragment_set f now
      | Some s \<Rightarrow> s) = target_set d f now"
    by (simp add: target_set_def maybe_sweep_upd_dc)
  have lim: "df_max_sets ?m = df_max_sets d" "df_timeout ?m = df_timeout d"
    using sh by (auto simp: shrunk_def)
  define e where "e = ?e"
  have e: "defrag_wf e" "hm_get (df_sets e) key = Some (target_set d f now)"
      "set_wf (target_set d f now)" "df_max_sets e = df_max_sets d" "df_timeout e = df_timeout d"
      "\<And>k v. k \<noteq> key \<Longrightarrow> hm_get (df_sets e) k = Some v \<Longrightarrow> hm_get (df_sets d) k = Some v"
    using ensure_set_result [OF wfm, of f now, unfolded tgt] old
    unfolding key_def e_def lim [symmetric] by blast+
  have inve: "hm_invar (df_sets e)" using e(1) by (simp add: defrag_wf_def)
  obtain s' out where a: "set_add (target_set d f now) f now policy = Some (s', out)" "set_wf s'"
    using set_add_result [OF e(3), of f now policy] by blast
  let ?u = "upd_dc (\<lambda>c. c\<lparr>dc_overlaps := dc_overlaps c + wo_overlapped out,
                dc_conflicting_overlaps := dc_conflicting_overlaps c + wo_conflicting out,
                dc_refused_bytes := dc_refused_bytes c + wo_refused out\<rparr>)
              (e\<lparr>df_sets := hm_insert key s' (df_sets e)\<rparr>)"
  have ov: "(max_datagram_len < saturating_add (8 * unat (fv_offset f)) (length (fv_payload f))) = False"
    using fits by (simp add: oversized_iff)
  have run: "defrag_push d f now policy = (if \<not> set_complete s' then Some (?u, None)
      else do { r \<leftarrow> set_finish s';
        Some (upd_dc (\<lambda>c. c\<lparr>dc_completed := dc_completed c + 1\<rparr>)
                  (?u\<lparr>df_sets := hm_remove key (df_sets ?u)\<rparr>), Some r) })"
    unfolding defrag_push_def Let_def ov if_False e_def [symmetric]
    by (simp only: e(2) [unfolded key_def] key_def option.case a(1) Option.bind.simps prod.case)
  have len: "length (hm_insert key s' (df_sets e)) = length (df_sets e)"
    using hm.size_insert [OF inve, of key] e(2) by simp
  have allwf: "(k, s) \<in> set (hm_insert key s' (df_sets e)) \<Longrightarrow> set_wf s" for k s
    using hm_set_insert [of k s key s' "df_sets e"] e(1) a(2) by (auto simp: defrag_wf_def)
  have wfu: "defrag_wf ?u"
    using e(1) allwf len inve by (auto simp: defrag_wf_def accounted_def)
  show ?thesis
  proof (cases "set_complete s'")
    case False
    then show ?thesis
      using run wfu e a by (auto simp: hm.get_insert [OF inve])
  next
    case True
    then obtain r where r: "set_finish s' = Some r" using set_finish_result [OF a(2)] by blast
    let ?f = "upd_dc (\<lambda>c. c\<lparr>dc_completed := dc_completed c + 1\<rparr>)
                  (?u\<lparr>df_sets := hm_remove key (df_sets ?u)\<rparr>)"
    have invu: "hm_invar (df_sets ?u)" using inve by simp
    have "length (hm_remove key (df_sets ?u)) = length (df_sets ?u) - 1" "0 < length (df_sets ?u)"
      using hm.size_remove [OF invu, of key] hm.size_pos [OF invu, of key]
      by (simp_all add: hm.get_insert [OF inve])
    then have "defrag_wf ?f"
      using wfu hm_set_remove [of _ _ key "df_sets ?u"] by (auto simp: defrag_wf_def accounted_def)
    moreover have "hm_get (df_sets ?f) = (hm_get (df_sets e))(key := None)"
      using inve by (simp add: hm.get_insert hm.get_remove)
    moreover have "defrag_push d f now policy = Some (?f, Some r)"
      using True run r by simp
    ultimately show ?thesis
      using True r e a by (intro exI [of _ ?f] exI [of _ "Some r"] exI [of _ s'] exI [of _ out]) auto
  qed
qed

section \<open>Any traffic\<close>

datatype defrag_op = Fragment fragment_view system_time overlap_policy | Sweep system_time

text \<open>The table with every datagram it has returned so far, under its key; a panic is the
  absorbing state \<open>None\<close>.\<close>

type_synonym defrag_run = "(defragmenter \<times> (fragment_key \<times> reassembled) list) option"

fun defrag_step :: "defrag_run \<Rightarrow> defrag_op \<Rightarrow> defrag_run" where
  "defrag_step None op = None"
| "defrag_step (Some (d, outs)) (Sweep now) = Some (defrag_sweep d now, outs)"
| "defrag_step (Some (d, outs)) (Fragment f now policy) = do {
     (d, r) \<leftarrow> defrag_push d f now policy;
     Some (d, case r of None \<Rightarrow> outs | Some r \<Rightarrow> outs @ [(fragment_key_of f, r)]) }"

definition defrag_safe :: "nat \<Rightarrow> defrag_run \<Rightarrow> bool" where
  "defrag_safe n s \<longleftrightarrow> (case s of None \<Rightarrow> False
     | Some (d, outs) \<Rightarrow> defrag_wf d \<and> df_max_sets d = n \<and>
         dc_completed (df_counters d) = length outs)"

lemma sweep_wf: "defrag_wf d \<Longrightarrow> defrag_wf (defrag_sweep d now)"
  by (rule shrunk_wf [OF _ shrunk_sweep]) (auto simp: defrag_wf_def)

text \<open>What comes out of one call, and that it is counted.\<close>

lemma ensure_set_completed:
  "dc_completed (df_counters (ensure_set d f now)) = dc_completed (df_counters d)"
  if "hm_invar (df_sets d)"
  using shrunk_make_room [OF that, of now] by (simp add: ensure_set_def Let_def shrunk_def)

lemma maybe_sweep_completed:
  "dc_completed (df_counters (defrag_maybe_sweep d now)) = dc_completed (df_counters d)"
  by (simp add: defrag_maybe_sweep_def defrag_sweep_def Let_def)

lemma defrag_push_completed:
  assumes "hm_invar (df_sets d)" "defrag_push d f now policy = Some (d', r)"
  shows "dc_completed (df_counters d') = dc_completed (df_counters d) + (if r = None then 0 else 1)"
proof -
  have inv: "hm_invar (df_sets (defrag_maybe_sweep (upd_dc g d) now))" for g
    using assms(1) shrunk_maybe_sweep [of "upd_dc g d" now] by (simp add: shrunk_def)
  show ?thesis
    using assms(2)
    by (auto simp: defrag_push_def Let_def ensure_set_completed inv maybe_sweep_completed
        split: if_splits option.splits Option.bind_splits)
qed

lemma defrag_push_wf:
  assumes "defrag_wf d"
  shows "\<exists>d' r. defrag_push d f now policy = Some (d', r) \<and> defrag_wf d' \<and>
    df_max_sets d' = df_max_sets d \<and> df_timeout d' = df_timeout d"
proof (cases "fragment_end f \<le> max_datagram_len")
  case True
  then show ?thesis using defrag_push_stored [OF assms True, of now policy] by blast
next
  case False
  then show ?thesis
    using defrag_push_oversized [OF assms, of f now policy] by (auto simp: shrunk_def)
qed

lemma defrag_step_safe: "defrag_safe n s \<Longrightarrow> defrag_safe n (defrag_step s op)"
proof (cases s; cases op)
  fix dr f now policy
  assume *: "s = Some dr" "op = Fragment f now policy" "defrag_safe n s"
  then obtain d outs where dr: "dr = (d, outs)" "defrag_wf d" by (cases dr) (auto simp: defrag_safe_def)
  then obtain d' r where p: "defrag_push d f now policy = Some (d', r)" "defrag_wf d'"
      "df_max_sets d' = df_max_sets d"
    using defrag_push_wf [of d f now policy] by blast
  with * dr defrag_push_completed [OF _ p(1)] show ?thesis
    by (auto simp: defrag_safe_def defrag_wf_def split: option.splits)
next
  fix dr now
  assume "s = Some dr" "op = Sweep now" "defrag_safe n s"
  then show ?thesis
    using sweep_wf by (cases dr) (simp add: defrag_safe_def, simp add: defrag_sweep_def Let_def)
qed (simp_all add: defrag_safe_def)

interpretation defrag_ops: invariant_machine
  "\<lambda>s. s = Some (defrag_new c, [])" defrag_step
  "defrag_safe (max (max_fragment_sets c) 1)" for c
proof unfold_locales
  show "s = Some (defrag_new c, []) \<Longrightarrow> defrag_safe (max (max_fragment_sets c) 1) s" for s
    using defrag_new_wf [of c]
    by (simp add: defrag_safe_def) (simp add: defrag_new_def default_defrag_counters_def)
qed (rule defrag_step_safe)

lemma defrag_wf_bytes: "defrag_wf d \<Longrightarrow> defrag_buffered_bytes d \<le> active_sets d * max_datagram_len"
  unfolding defrag_buffered_bytes_def active_sets_def
  by (rule hm_sum_bound) (metis buffered_bytes_bound defrag_wf_def set_wf_def)

text \<open>The attacker chooses how many incomplete datagrams exist, not how much the sensor
  holds: after any sequence of fragments (any headers, offsets, payloads, times and policies)
  and sweeps, nothing has panicked, at most \<open>max_fragment_sets\<close> datagrams of at most 65535
  bytes each are held, and every reassembly ever started is accounted for: returned, timed
  out, evicted or still there.\<close>

theorem defrag_bounded:
  "\<exists>d outs. foldl defrag_step (Some (defrag_new c, [])) ops = Some (d, outs) \<and>
     active_sets d \<le> max (max_fragment_sets c) 1 \<and>
     defrag_buffered_bytes d \<le> active_sets d * 65535 \<and>
     dc_started (df_counters d) = length outs + dc_timed_out (df_counters d) +
       dc_evicted (df_counters d) + active_sets d"
proof -
  have "defrag_safe (max (max_fragment_sets c) 1) (foldl defrag_step (Some (defrag_new c, [])) ops)"
    by (rule defrag_ops.inv_reachable) simp
  then obtain d outs where d: "foldl defrag_step (Some (defrag_new c, [])) ops = Some (d, outs)"
      "defrag_wf d" "df_max_sets d = max (max_fragment_sets c) 1"
      "dc_completed (df_counters d) = length outs"
    by (auto simp: defrag_safe_def split: option.splits)
  from d(2) have "active_sets d \<le> df_max_sets d" "accounted d"
    by (simp_all add: defrag_wf_def active_sets_def)
  with d defrag_wf_bytes [OF d(2)] show ?thesis
    by (simp add: accounted_def active_sets_def max_datagram_len_def)
qed

section \<open>What was sent is what comes out\<close>

text \<open>A fragment that carries a piece of the datagram \<open>m\<close>, the last one ending it.\<close>

definition genuine_fragment :: "bytes \<Rightarrow> fragment_view \<Rightarrow> bool" where
  "genuine_fragment m f \<longleftrightarrow>
     fv_payload f = take (length (fv_payload f)) (drop (8 * unat (fv_offset f)) m) \<and>
     fragment_end f \<le> length m \<and> (\<not> fv_more_fragments f \<longrightarrow> fragment_end f = length m)"

definition set_genuine :: "bytes \<Rightarrow> fragment_set \<Rightarrow> bool" where
  "set_genuine m s \<longleftrightarrow> rb.agrees (\<lambda>k. m ! k) (fs_buffer s) \<and>
     (fs_total_len s = None \<or> fs_total_len s = Some (length m))"

lemma genuine_byte:
  assumes "genuine_fragment m f" "i < length (fv_payload f)"
  shows "fv_payload f ! i = m ! (8 * unat (fv_offset f) + i)"
  using assms unfolding genuine_fragment_def fragment_end_def
  by (metis add_leD1 nth_drop nth_take)

lemma set_add_genuine:
  assumes "set_wf s" "set_genuine m s" "genuine_fragment m f" "fragment_end f \<le> max_datagram_len"
    "set_add s f now policy = Some (s', out)"
  shows "set_genuine m s'"
proof -
  from set_add_result [OF assms(1), of f now policy] assms(5)
  have w: "rb_write (fs_buffer s) (8 * unat (fv_offset f)) (fv_payload f) policy = Some (fs_buffer s', out)"
    and t: "fs_total_len s' = (if fv_more_fragments f then fs_total_len s
      else case fs_total_len s of None \<Rightarrow>
          Some (saturating_add (8 * unat (fv_offset f)) (length (fv_payload f)))
        | Some t \<Rightarrow> Some t)"
    by auto
  have "rb.agrees (\<lambda>k. m ! k) (fs_buffer s')"
    using rb.agrees_write [OF _ _ w, of "\<lambda>k. m ! k"] assms(1,2) genuine_byte [OF assms(3)]
    by (auto simp: set_wf_def set_genuine_def)
  moreover have "fs_total_len s' = None \<or> fs_total_len s' = Some (length m)"
    using t assms(2,3) end_exact [OF assms(4)]
    by (auto simp: set_genuine_def genuine_fragment_def split: option.splits)
  ultimately show ?thesis by (simp add: set_genuine_def)
qed

lemma set_finish_genuine:
  assumes "set_wf s" "set_genuine m s" "set_complete s" "set_finish s = Some r"
  shows "ra_data r = m"
proof -
  from assms(2,3) have t: "fs_total_len s = Some (length m)" "length m \<le> contiguous_end (fs_buffer s)"
    by (auto simp: set_genuine_def set_complete_def split: option.splits)
  have "rb_contents (fs_buffer s) k = Some (m ! k)" if "k < length m" for k
  proof -
    have "cov (rb_covered (fs_buffer s)) k"
      using contiguous_end_held [of "fs_buffer s" k] t(2) that assms(1) by (simp add: set_wf_def)
    then obtain b where "rb_contents (fs_buffer s) k = Some b"
      by (auto simp: rb_contents_def)
    with assms(2) show ?thesis by (simp add: set_genuine_def rb.agrees_def)
  qed
  then have "map (\<lambda>k. the (rb_contents (fs_buffer s) k)) [0..<length m] = m"
    by (intro nth_equalityI) auto
  with set_finish_result [OF assms(1,3)] t(1) assms(4) show ?thesis by auto
qed

lemma new_set_genuine: "set_genuine m (new_fragment_set f now)"
  by (simp add: set_genuine_def new_fragment_set_def rb.agrees_def)

text \<open>The traffic of a run in which the fragments of one key are genuine; all the others are
  arbitrary.\<close>

definition op_genuine :: "fragment_key \<Rightarrow> bytes \<Rightarrow> defrag_op \<Rightarrow> bool" where
  "op_genuine key m op = (case op of Sweep _ \<Rightarrow> True
     | Fragment f _ _ \<Rightarrow> fragment_key_of f = key \<longrightarrow> genuine_fragment m f)"

definition run_genuine :: "fragment_key \<Rightarrow> bytes \<Rightarrow> defrag_run \<Rightarrow> bool" where
  "run_genuine key m s \<longleftrightarrow> (case s of None \<Rightarrow> False
     | Some (d, outs) \<Rightarrow> defrag_wf d \<and>
         (\<forall>s. hm_get (df_sets d) key = Some s \<longrightarrow> set_genuine m s) \<and>
         (\<forall>r. (key, r) \<in> set outs \<longrightarrow> ra_data r = m))"

lemma target_set_genuine:
  assumes "defrag_wf d" "\<And>s. hm_get (df_sets d) key = Some s \<Longrightarrow> set_genuine m s"
    "fragment_key_of f = key"
  shows "set_genuine m (target_set d f now)"
proof -
  have inv: "hm_invar (df_sets d)" using assms(1) by (simp add: defrag_wf_def)
  show ?thesis
    using shrunk_get [OF inv shrunk_maybe_sweep [OF inv], of now key] assms(2,3)
    by (auto simp: target_set_def new_set_genuine split: option.splits)
qed

lemma defrag_push_genuine:
  assumes wf: "defrag_wf d" and gen: "\<And>s. hm_get (df_sets d) key = Some s \<Longrightarrow> set_genuine m s"
    and f: "fragment_key_of f = key \<Longrightarrow> genuine_fragment m f"
    and push: "defrag_push d f now policy = Some (d', r)"
  shows "defrag_wf d' \<and> (\<forall>s. hm_get (df_sets d') key = Some s \<longrightarrow> set_genuine m s) \<and>
    (\<forall>x. fragment_key_of f = key \<longrightarrow> r = Some x \<longrightarrow> ra_data x = m)"
proof (cases "fragment_end f \<le> max_datagram_len")
  case False
  then have "shrunk d d'" "r = None" "defrag_wf d'"
    using defrag_push_oversized [OF wf, of f now policy] push by auto
  moreover have "hm_invar (df_sets d)" using wf by (simp add: defrag_wf_def)
  ultimately show ?thesis using gen shrunk_get [of d d' key] by auto
next
  case True
  from defrag_push_stored [OF wf True, of now policy] push obtain s' out where
    p: "defrag_wf d'" "\<And>k v. k \<noteq> fragment_key_of f \<Longrightarrow> hm_get (df_sets d') k = Some v \<Longrightarrow>
        hm_get (df_sets d) k = Some v"
      "set_wf (target_set d f now)" "set_add (target_set d f now) f now policy = Some (s', out)"
      "if set_complete s' then hm_get (df_sets d') (fragment_key_of f) = None \<and> r = set_finish s'
       else hm_get (df_sets d') (fragment_key_of f) = Some s' \<and> r = None"
    by (auto split: if_splits)
  show ?thesis
  proof (cases "fragment_key_of f = key")
    case False
    with p gen show ?thesis by auto
  next
    case key: True
    have wf': "set_wf s'" using set_add_result [OF p(3), of f now policy] p(4) by auto
    have "set_genuine m s'"
      using set_add_genuine [OF p(3) target_set_genuine [OF wf gen key] f [OF key] True p(4)] .
    with p(1,5) key set_finish_genuine [OF wf'] show ?thesis by (auto split: if_splits)
  qed
qed

lemma defrag_step_genuine:
  assumes "run_genuine key m s" "op_genuine key m op"
  shows "run_genuine key m (defrag_step s op)"
proof -
  from assms(1) obtain d outs where s: "s = Some (d, outs)" and wf: "defrag_wf d"
    and gen: "\<And>t. hm_get (df_sets d) key = Some t \<Longrightarrow> set_genuine m t"
    and outs: "\<And>r. (key, r) \<in> set outs \<Longrightarrow> ra_data r = m"
    by (auto simp: run_genuine_def split: option.splits)
  show ?thesis
  proof (cases op)
    case (Sweep now)
    have inv: "hm_invar (df_sets d)" using wf by (simp add: defrag_wf_def)
    show ?thesis
      using Sweep s sweep_wf [OF wf] shrunk_get [OF inv shrunk_sweep [OF inv], of now key] gen outs
      by (auto simp: run_genuine_def)
  next
    case (Fragment f now policy)
    obtain d' r where p: "defrag_push d f now policy = Some (d', r)"
      using defrag_push_wf [OF wf, of f now policy] by blast
    have "fragment_key_of f = key \<Longrightarrow> genuine_fragment m f"
      using assms(2) Fragment by (simp add: op_genuine_def)
    from defrag_push_genuine [OF wf gen this p] Fragment s p outs show ?thesis
      by (auto simp: run_genuine_def split: option.splits)
  qed
qed

text \<open>C7. No datagram is misassembled: if every fragment of one datagram carries a piece of \<open>m\<close>,
  then in any run, however its fragments are ordered, duplicated or overlapped, whatever
  other datagrams, timeouts and evictions come between, and under whatever policies, every
  datagram returned under its key is \<open>m\<close>.\<close>

theorem defrag_no_forgery:
  assumes "\<forall>op \<in> set ops. op_genuine key m op"
    and "foldl defrag_step (Some (defrag_new c, [])) ops = Some (d, outs)"
    and "(key, r) \<in> set outs"
  shows "ra_data r = m"
proof -
  have "run_genuine key m (foldl defrag_step s ops)" if "run_genuine key m s" for s
    using assms(1) that
    by (induction ops arbitrary: s) (auto intro: defrag_step_genuine)
  moreover have "run_genuine key m (Some (defrag_new c, []))"
    using defrag_new_wf [of c] by (simp add: run_genuine_def) (simp add: defrag_new_def)
  ultimately show ?thesis using assms(2,3) by (fastforce simp: run_genuine_def)
qed

section \<open>What was sent does come out\<close>

type_synonym arrival = "fragment_view \<times> system_time \<times> overlap_policy"

definition covers :: "arrival list \<Rightarrow> nat \<Rightarrow> bool" where
  "covers fs k \<longleftrightarrow> (\<exists>(f, now, policy)\<in>set fs. 8 * unat (fv_offset f) \<le> k \<and> k < fragment_end f)"

definition has_final :: "arrival list \<Rightarrow> bool" where
  "has_final fs \<longleftrightarrow> (\<exists>(f, now, policy)\<in>set fs. \<not> fv_more_fragments f)"

text \<open>The set of a datagram after the arrivals \<open>fs\<close> and before it is complete: it holds exactly
  what they cover, has room for \<open>j\<close> more ranges and was touched at or after \<open>t0\<close>.\<close>

definition set_holds :: "bytes \<Rightarrow> nat \<Rightarrow> system_time \<Rightarrow> arrival list \<Rightarrow> fragment_set \<Rightarrow> bool" where
  "set_holds m j t0 fs s \<longleftrightarrow> of_message m j (fs_buffer s) \<and>
     (\<forall>k < length m. rb_contents (fs_buffer s) k \<noteq> None \<longleftrightarrow> covers fs k) \<and>
     fs_total_len s = (if has_final fs then Some (length m) else None) \<and> t0 \<le> fs_last_seen s"

lemma new_set_holds:
  "length m \<le> max_datagram_len \<Longrightarrow> set_holds m max_holes_per_datagram now [] (new_fragment_set f now)"
  by (simp add: set_holds_def of_message_def new_fragment_set_def rb_new_wf max_datagram_len_def
      covers_def has_final_def max_holes_per_datagram_def) (simp add: rb_new_def)

lemma set_add_holds:
  assumes wf: "set_wf s" and h: "set_holds m (Suc j) t0 fs s" and gen: "genuine_fragment m f"
    and len: "length m \<le> max_datagram_len" and add: "set_add s f now policy = Some (s', out)"
  shows "set_holds m j t0 (fs @ [(f, now, policy)]) s'"
proof -
  let ?off = "8 * unat (fv_offset f)" and ?n = "length (fv_payload f)"
  have pl: "fv_payload f = take ?n (drop ?off m)" and fe: "fragment_end f \<le> length m"
    using gen by (auto simp: genuine_fragment_def)
  from set_add_result [OF wf, of f now policy] add
  have w: "rb_write (fs_buffer s) ?off (fv_payload f) policy = Some (fs_buffer s', out)"
    and t: "fs_total_len s' = (if fv_more_fragments f then fs_total_len s
      else case fs_total_len s of None \<Rightarrow> Some (saturating_add ?off ?n) | Some t \<Rightarrow> Some t)"
    and seen: "fs_last_seen s' = max (fs_last_seen s) now"
    by auto
  have "of_message m (Suc j) (fs_buffer s)" using h by (simp add: set_holds_def)
  from write_piece_of_message [OF this, of ?off ?n policy] len w
  have o: "of_message m j (fs_buffer s')" "\<And>k. rb_contents (fs_buffer s') k \<noteq> None \<longleftrightarrow>
      rb_contents (fs_buffer s) k \<noteq> None \<or> ?off \<le> k \<and> k < ?off + ?n \<and> k < length m"
    unfolding pl [symmetric] by (auto simp: max_datagram_len_def u64_max_def)
  have "rb_contents (fs_buffer s') k \<noteq> None \<longleftrightarrow> covers (fs @ [(f, now, policy)]) k" if "k < length m" for k
    using o(2) [of k] h that by (auto simp: covers_def set_holds_def fragment_end_def)
  moreover have "fs_total_len s' = (if has_final (fs @ [(f, now, policy)]) then Some (length m) else None)"
    using t h gen end_exact [of f] fe len
    by (auto simp: set_holds_def has_final_def genuine_fragment_def split: if_splits)
  moreover have "t0 \<le> fs_last_seen s'" using seen h by (simp add: set_holds_def le_max_iff_disj)
  ultimately show ?thesis using o(1) by (simp add: set_holds_def)
qed

text \<open>A set all of whose bytes and whose end have arrived is complete.\<close>

lemma set_holds_complete:
  assumes "set_holds m j t0 fs s" "has_final fs" "\<forall>k < length m. covers fs k"
  shows "set_complete s"
proof -
  have o: "of_message m j (fs_buffer s)" and total: "fs_total_len s = Some (length m)"
    and held: "\<And>k. k < length m \<Longrightarrow> rb_contents (fs_buffer s) k \<noteq> None"
    using assms by (auto simp: set_holds_def)
  have "rb_contents (fs_buffer s) (contiguous_end (fs_buffer s)) = None"
    using contiguous_end_maximal [of "fs_buffer s"] o by (auto simp: of_message_def rb_contents_def)
  with held have "length m \<le> contiguous_end (fs_buffer s)" by (metis not_le)
  with total show ?thesis by (simp add: set_complete_def)
qed

text \<open>The sweep keeps a set touched less than the timeout ago.\<close>

lemma maybe_sweep_keeps:
  assumes "hm_invar (df_sets d)" "hm_get (df_sets d) k = Some s"
    "t0 \<le> fs_last_seen s" "now < t0 + int (df_timeout d)" "1 \<le> df_timeout d"
  shows "hm_get (df_sets (defrag_maybe_sweep d now)) k = Some s"
  using assms
  by (auto simp: defrag_maybe_sweep_def defrag_sweep_def Let_def hm.get_retain unwrap_or_def
      duration_since_def split: option.splits)

text \<open>Where a run of one datagram stands: it came out, or its set holds what has arrived.\<close>

definition progress :: "fragment_key \<Rightarrow> bytes \<Rightarrow> system_time \<Rightarrow> duration \<Rightarrow> arrival list \<Rightarrow> defrag_run \<Rightarrow> bool" where
  "progress key m t0 timeout fs run \<longleftrightarrow> (case run of None \<Rightarrow> False
     | Some (d, outs) \<Rightarrow> defrag_wf d \<and> df_timeout d = timeout \<and>
        ((\<exists>r. (key, r) \<in> set outs) \<or>
         (if fs = [] then hm_get (df_sets d) key = None
          else \<exists>s. hm_get (df_sets d) key = Some s \<and> set_wf s \<and> \<not> set_complete s \<and>
            set_holds m (max_holes_per_datagram - length fs) t0 fs s)))"

definition arrival_ok :: "fragment_key \<Rightarrow> bytes \<Rightarrow> system_time \<Rightarrow> duration \<Rightarrow> arrival \<Rightarrow> bool" where
  "arrival_ok key m t0 timeout a = (case a of (f, now, policy) \<Rightarrow>
     fragment_key_of f = key \<and> genuine_fragment m f \<and> t0 \<le> now \<and> now < t0 + int timeout)"

lemma progress_step:
  assumes prog: "progress key m t0 timeout fs run" and ok: "arrival_ok key m t0 timeout (f, now, policy)"
    and room: "length fs < max_holes_per_datagram" and len: "length m \<le> max_datagram_len"
    and to: "1 \<le> timeout"
  shows "progress key m t0 timeout (fs @ [(f, now, policy)]) (defrag_step run (Fragment f now policy))"
proof -
  from prog obtain d outs where run: "run = Some (d, outs)" and wf: "defrag_wf d" and
    lim: "df_timeout d = timeout"
    by (auto simp: progress_def split: option.splits)
  from ok have f: "fragment_key_of f = key" "genuine_fragment m f" "t0 \<le> now" "now < t0 + int timeout"
    by (simp_all add: arrival_ok_def)
  have fits: "fragment_end f \<le> max_datagram_len"
    using f(2) len by (simp add: genuine_fragment_def)
  obtain d' r s' out where p: "defrag_push d f now policy = Some (d', r)" "defrag_wf d'"
      "df_timeout d' = df_timeout d"
      "set_wf (target_set d f now)" "set_add (target_set d f now) f now policy = Some (s', out)"
      "if set_complete s' then hm_get (df_sets d') key = None \<and> r = set_finish s' \<and> r \<noteq> None
       else hm_get (df_sets d') key = Some s' \<and> r = None"
    using defrag_push_stored [OF wf fits, of now policy] unfolding f(1) by blast
  have inv: "hm_invar (df_sets d)" using wf by (simp add: defrag_wf_def)
  have "set_holds m (max_holes_per_datagram - length fs) t0 fs (target_set d f now)"
    if "\<not> (\<exists>r. (key, r) \<in> set outs)"
  proof (cases "fs = []")
    case True
    with prog run that have "hm_get (df_sets d) key = None" by (simp add: progress_def)
    then have "target_set d f now = new_fragment_set f now"
      using shrunk_get [OF inv shrunk_maybe_sweep [OF inv], of now key] f(1)
      by (auto simp: target_set_def split: option.splits)
    with new_set_holds [OF len, of now f] f(3) True show ?thesis by (auto simp: set_holds_def)
  next
    case False
    with prog run that obtain s where s: "hm_get (df_sets d) key = Some s"
        "set_holds m (max_holes_per_datagram - length fs) t0 fs s"
      by (auto simp: progress_def)
    with maybe_sweep_keeps [OF inv s(1), of t0 now] f lim to show ?thesis
      by (simp add: target_set_def set_holds_def)
  qed
  with room set_add_holds [OF p(4) _ f(2) len p(5), of "max_holes_per_datagram - Suc (length fs)" t0 fs]
  have "(\<exists>r. (key, r) \<in> set outs) \<or>
      set_holds m (max_holes_per_datagram - Suc (length fs)) t0 (fs @ [(f, now, policy)]) s'"
    by (auto simp: Suc_diff_Suc)
  moreover have "set_wf s'" using set_add_result [OF p(4), of f now policy] p(5) by auto
  moreover have "if set_complete s' then \<exists>x. r = Some x
      else hm_get (df_sets d') key = Some s' \<and> r = None"
    using p(6) by (auto split: if_splits)
  ultimately show ?thesis
    using p(1-3) run f(1) lim by (auto simp: progress_def split: if_splits)
qed

lemma fragments_reassemble:
  assumes ok: "\<forall>a \<in> set fs. arrival_ok key m t0 (secs (max (fragment_timeout_secs c) 1)) a"
    and cov: "has_final fs" "\<forall>k < length m. covers fs k"
    and len: "length m \<le> 65535" "length fs \<le> 128"
  shows "\<exists>d outs r. foldl defrag_step (Some (defrag_new c, []))
      (map (\<lambda>(f, now, policy). Fragment f now policy) fs) = Some (d, outs) \<and> (key, r) \<in> set outs"
proof -
  let ?run = "\<lambda>fs. foldl defrag_step (Some (defrag_new c, [])) (map (\<lambda>(f, now, policy). Fragment f now policy) fs)"
  let ?t = "secs (max (fragment_timeout_secs c) 1)"
  have t: "1 \<le> ?t" by (simp add: secs_def nanos_per_sec_def)
  have "progress key m t0 ?t fs (?run fs)"
    using ok len(2)
  proof (induction fs rule: rev_induct)
    case Nil
    have "hm_get (df_sets (defrag_new c)) key = None" "df_timeout (defrag_new c) = ?t"
      by (simp_all add: defrag_new_def)
    with defrag_new_wf [of c] show ?case by (simp add: progress_def)
  next
    case (snoc a fs)
    obtain f now policy where a: "a = (f, now, policy)" by (cases a)
    have "progress key m t0 ?t (fs @ [(f, now, policy)]) (defrag_step (?run fs) (Fragment f now policy))"
      using snoc a t len(1)
      by (intro progress_step) (auto simp: max_holes_per_datagram_def max_datagram_len_def)
    then show ?case by (simp add: a)
  qed
  moreover have "fs \<noteq> []" using cov(1) by (auto simp: has_final_def)
  ultimately show ?thesis
    using set_holds_complete [OF _ cov, of "max_holes_per_datagram - length fs" t0]
    by (auto simp: progress_def split: option.splits)
qed

text \<open>C36. Fragmentation is undone: if the fragments of a datagram of at most 65535 bytes cover it
  and include the final one, at most 128 of them arrive, in any order, overlapping or
  duplicated, under any policies and each within the fragment timeout of the first, then a
  defragmenter that has seen nothing else returns a datagram under its key.\<close>

theorem defrag_completes:
  assumes "\<forall>a \<in> set fs. arrival_ok key m t0 (secs (max (fragment_timeout_secs c) 1)) a"
    and "has_final fs" "\<forall>k < length m. covers fs k"
    and "length m \<le> 65535" "length fs \<le> 128"
  shows "\<exists>d outs r. foldl defrag_step (Some (defrag_new c, []))
      (map (\<lambda>(f, now, policy). Fragment f now policy) fs) = Some (d, outs) \<and> (key, r) \<in> set outs"
  by (rule fragments_reassemble [OF assms])

text \<open>A datagram of ten bytes in two fragments, the final one first.\<close>

definition example_key :: fragment_key where
  "example_key = \<lparr>fk_source = V4 1, fk_destination = V4 2, fk_identification = 3, fk_protocol = 17\<rparr>"

definition example_fragment :: "16 word \<Rightarrow> bool \<Rightarrow> bytes \<Rightarrow> fragment_view" where
  "example_fragment offset mf payload = \<lparr>fv_source = V4 1, fv_destination = V4 2, fv_identification = 3,
     fv_protocol = 17, fv_offset = offset, fv_more_fragments = mf, fv_payload = payload\<rparr>"

definition example_arrivals :: "arrival list" where
  "example_arrivals = [(example_fragment 1 False [9, 10], 0, Last),
     (example_fragment 0 True [1, 2, 3, 4, 5, 6, 7, 8], 1, First)]"

lemma example_ok:
  "\<forall>a \<in> set example_arrivals. arrival_ok example_key [1, 2, 3, 4, 5, 6, 7, 8, 9, 10] 0 (secs (max n 1)) a"
  by (simp add: example_arrivals_def arrival_ok_def example_fragment_def example_key_def
      fragment_key_of_def genuine_fragment_def fragment_end_def secs_def nanos_per_sec_def)

lemma example_covers:
  "has_final example_arrivals" "\<forall>k < length [1, 2, 3, 4, 5, 6, 7, 8, 9, 10 :: byte]. covers example_arrivals k"
  by (auto simp: has_final_def covers_def example_arrivals_def example_fragment_def fragment_end_def)

lemma example_short: "length [1, 2, 3, 4, 5, 6, 7, 8, 9, 10 :: byte] \<le> 65535" "length example_arrivals \<le> 128"
  by (simp_all add: example_arrivals_def)

theorem defrag_completes_witness:
  "\<exists>d outs r. foldl defrag_step (Some (defrag_new default_reassembly_config, []))
      (map (\<lambda>(f, now, policy). Fragment f now policy) example_arrivals) = Some (d, outs) \<and>
    (example_key, r) \<in> set outs"
  by (rule defrag_completes [OF example_ok example_covers example_short])

theorem defrag_no_forgery_witness:
  "\<exists>d outs r. foldl defrag_step (Some (defrag_new default_reassembly_config, []))
      (map (\<lambda>(f, now, policy). Fragment f now policy) example_arrivals) = Some (d, outs) \<and>
    (example_key, r) \<in> set outs \<and> ra_data r = [1, 2, 3, 4, 5, 6, 7, 8, 9, 10]"
proof -
  let ?ops = "map (\<lambda>(f, now, policy). Fragment f now policy) example_arrivals"
  obtain d outs r where run: "foldl defrag_step (Some (defrag_new default_reassembly_config, [])) ?ops =
      Some (d, outs)" "(example_key, r) \<in> set outs"
    using fragments_reassemble [OF example_ok example_covers example_short, of default_reassembly_config]
    by blast
  have "\<forall>op \<in> set ?ops. op_genuine example_key [1, 2, 3, 4, 5, 6, 7, 8, 9, 10] op"
    using example_ok [of 1] by (auto simp: op_genuine_def arrival_ok_def)
  from defrag_no_forgery [OF this run] run show ?thesis by blast
qed

text \<open>The byte budget is consulted only when a datagram starts: a fragment of a datagram
  already in the table is stored whatever the total, so \<open>max_fragment_bytes_total\<close> is not
  the maximum held. Here a budget of one byte holds sixteen.\<close>

theorem fragment_budget_exceeded:
  "\<exists>d outs. foldl defrag_step (Some (defrag_new (default_reassembly_config\<lparr>max_fragment_bytes_total := 1\<rparr>), []))
      [Fragment (example_fragment 0 True [1, 2, 3, 4, 5, 6, 7, 8]) 0 First,
       Fragment (example_fragment 1 True [1, 2, 3, 4, 5, 6, 7, 8]) 0 First] = Some (d, outs) \<and>
    df_max_bytes_total d = 1 \<and> defrag_buffered_bytes d = 16"
  by (simp add: defrag_push_def defrag_new_def default_reassembly_config_def upd_dc_def rb_run
      defrag_maybe_sweep_def defrag_sweep_def hm_retain_def default_defrag_counters_def
      max_datagram_len_def max_holes_per_datagram_def example_fragment_def ensure_set_def
      defrag_make_room_def defrag_has_room_def defrag_buffered_bytes_def hm_contains_def
      new_fragment_set_def set_add_def set_complete_def fragment_key_of_def duration_since_def
      defrag_sweep_interval_def secs_def nanos_per_sec_def buffered_bytes_def)

end
