(* ===== verification/TcpStream.thy ===== *)
theory TcpStream
  imports RangeBuffer
begin

text \<open>
  TCP stream reassembly (\<open>crates/reassembly/src/stream.rs\<close>): one direction of a
  conversation over a range buffer, and the pair of both directions. Operations that reach
  the buffer are in the option type, \<open>None\<close> being a panic. Sequence numbers are 32-bit words;
  the signed distance to the anchor is \<open>sint\<close> of the wrapping difference. Offsets of the
  absolute space are \<open>nat\<close>, and \<open>int\<close> where the source uses \<open>i64\<close>.
\<close>

unbundle bit_operations_syntax

section \<open>Data\<close>

definition FIN :: "8 word" where "FIN = 1"
definition SYN :: "8 word" where "SYN = 2"
definition RST :: "8 word" where "RST = 4"
definition ACK :: "8 word" where "ACK = 16"

definition max_holes_per_stream :: nat where
  "max_holes_per_stream = 256"

definition rst_sequence_slack :: nat where
  "rst_sequence_slack = 65535"

record tcp_segment =
  seg_sequence :: "32 word"
  seg_acknowledgment :: "32 word"
  seg_flags :: "8 word"
  seg_payload :: bytes

definition seg_has :: "tcp_segment \<Rightarrow> 8 word \<Rightarrow> bool" where
  "seg_has seg flag \<longleftrightarrow> seg_flags seg AND flag \<noteq> 0"

record stream_ready =
  ready_to_server :: bytes
  ready_to_client :: bytes

definition default_ready :: stream_ready where
  "default_ready = \<lparr>ready_to_server = [], ready_to_client = []\<rparr>"

definition ready_is_empty :: "stream_ready \<Rightarrow> bool" where
  "ready_is_empty r \<longleftrightarrow> ready_to_server r = [] \<and> ready_to_client r = []"

definition ready_len :: "stream_ready \<Rightarrow> nat" where
  "ready_len r = length (ready_to_server r) + length (ready_to_client r)"

record stream_counters =
  sc_segments :: nat
  sc_bytes_accepted :: nat
  sc_bytes_delivered :: nat
  sc_overlaps :: nat
  sc_conflicting_overlaps :: nat
  sc_refused_bytes :: nat
  sc_out_of_window :: nat
  sc_before_window :: nat
  sc_after_fin :: nat
  sc_syn_data :: nat
  sc_flushed_unacked :: nat
  sc_dropped_incomplete :: nat

definition default_stream_counters :: stream_counters where
  "default_stream_counters = \<lparr>sc_segments = 0, sc_bytes_accepted = 0, sc_bytes_delivered = 0,
     sc_overlaps = 0, sc_conflicting_overlaps = 0, sc_refused_bytes = 0, sc_out_of_window = 0,
     sc_before_window = 0, sc_after_fin = 0, sc_syn_data = 0, sc_flushed_unacked = 0,
     sc_dropped_incomplete = 0\<rparr>"

definition merge_counters :: "stream_counters \<Rightarrow> stream_counters \<Rightarrow> stream_counters" where
  "merge_counters a b = \<lparr>sc_segments = sc_segments a + sc_segments b,
     sc_bytes_accepted = sc_bytes_accepted a + sc_bytes_accepted b,
     sc_bytes_delivered = sc_bytes_delivered a + sc_bytes_delivered b,
     sc_overlaps = sc_overlaps a + sc_overlaps b,
     sc_conflicting_overlaps = sc_conflicting_overlaps a + sc_conflicting_overlaps b,
     sc_refused_bytes = sc_refused_bytes a + sc_refused_bytes b,
     sc_out_of_window = sc_out_of_window a + sc_out_of_window b,
     sc_before_window = sc_before_window a + sc_before_window b,
     sc_after_fin = sc_after_fin a + sc_after_fin b,
     sc_syn_data = sc_syn_data a + sc_syn_data b,
     sc_flushed_unacked = sc_flushed_unacked a + sc_flushed_unacked b,
     sc_dropped_incomplete = sc_dropped_incomplete a + sc_dropped_incomplete b\<rparr>"

record stream =
  st_base_sequence :: "32 word"
  st_established :: bool
  st_buffer :: range_buffer
  st_acknowledged_upto :: nat
  st_fin_at :: "nat option"
  st_byte_limit :: nat
  st_flush_bytes :: nat
  st_counters :: stream_counters

definition stream_new :: "nat \<Rightarrow> nat \<Rightarrow> stream" where
  "stream_new byte_limit flush_bytes = \<lparr>st_base_sequence = 0, st_established = False,
     st_buffer = rb_new 0 byte_limit max_holes_per_stream, st_acknowledged_upto = 0,
     st_fin_at = None, st_byte_limit = byte_limit, st_flush_bytes = flush_bytes,
     st_counters = default_stream_counters\<rparr>"

section \<open>One direction\<close>

definition absolute :: "stream \<Rightarrow> 32 word \<Rightarrow> int" where
  "absolute s sequence = as_i64 (rb_base (st_buffer s)) + sint (sequence - st_base_sequence s)"

definition establish :: "stream \<Rightarrow> tcp_segment \<Rightarrow> stream" where
  "establish s seg =
     (if st_established s then s
      else if seg_has seg SYN
      then s\<lparr>st_base_sequence := seg_sequence seg + 1, st_established := True\<rparr>
      else if seg_payload seg \<noteq> []
      then s\<lparr>st_base_sequence := seg_sequence seg, st_established := True\<rparr>
      else s)"

text \<open>\<open>i64::saturating_add\<close> on a non-negative offset.\<close>

definition i64_saturating_add :: "int \<Rightarrow> int \<Rightarrow> int" where
  "i64_saturating_add a b = max (- (2 ^ 63)) (min (a + b) (2 ^ 63 - 1))"

definition upd_counters :: "(stream_counters \<Rightarrow> stream_counters) \<Rightarrow> stream \<Rightarrow> stream" where
  "upd_counters f s = s\<lparr>st_counters := f (st_counters s)\<rparr>"

definition store :: "stream \<Rightarrow> 32 word \<Rightarrow> bytes \<Rightarrow> overlap_policy \<Rightarrow> stream option" where
  "store s sequence payload policy =
     (let offset = absolute s sequence; n = length payload in
      if offset + int n \<le> as_i64 (rb_base (st_buffer s))
      then Some (upd_counters (\<lambda>c. c\<lparr>sc_before_window := sc_before_window c + n\<rparr>) s)
      else let window_end = rb_base (st_buffer s) + st_byte_limit s in
      if offset < 0 \<or> int window_end \<le> offset
      then Some (upd_counters (\<lambda>c. c\<lparr>sc_out_of_window := sc_out_of_window c + n\<rparr>) s)
      else let offset = nat offset in
      if (case st_fin_at s of Some fin_at \<Rightarrow> fin_at \<le> offset | None \<Rightarrow> False)
      then Some (upd_counters (\<lambda>c. c\<lparr>sc_after_fin := sc_after_fin c + n\<rparr>) s)
      else do {
        (buffer, out) \<leftarrow> rb_write (st_buffer s) offset payload policy;
        Some (upd_counters (\<lambda>c. c\<lparr>
            sc_bytes_accepted := sc_bytes_accepted c + wo_accepted out,
            sc_overlaps := sc_overlaps c + wo_overlapped out,
            sc_conflicting_overlaps := sc_conflicting_overlaps c + wo_conflicting out,
            sc_refused_bytes := sc_refused_bytes c + wo_refused out,
            sc_before_window := sc_before_window c + wo_before_window out\<rparr>)
          (s\<lparr>st_buffer := buffer\<rparr>)) })"

definition note_fin :: "stream \<Rightarrow> 32 word \<Rightarrow> bytes \<Rightarrow> stream" where
  "note_fin s sequence payload =
     (let fin_at = nat (i64_saturating_add (max (absolute s sequence) 0) (int (length payload))) in
      s\<lparr>st_fin_at := Some (case st_fin_at s of None \<Rightarrow> fin_at | Some existing \<Rightarrow> min existing fin_at)\<rparr>)"

definition stream_push :: "stream \<Rightarrow> tcp_segment \<Rightarrow> overlap_policy \<Rightarrow> stream option" where
  "stream_push s0 seg policy =
     (let s = establish s0 seg; payload = seg_payload seg in
      if \<not> st_established s then Some s
      else do {
        let s = (if payload \<noteq> []
                 then upd_counters (\<lambda>c. c\<lparr>sc_segments := sc_segments c + 1\<rparr>) s else s);
        let (sequence, s) =
          (if seg_has seg SYN
           then (seg_sequence seg + 1,
                 if payload \<noteq> []
                 then upd_counters (\<lambda>c. c\<lparr>sc_syn_data := sc_syn_data c + length payload\<rparr>) s
                 else s)
           else (seg_sequence seg, s));
        s \<leftarrow> (if payload \<noteq> [] then store s sequence payload policy else Some s);
        Some (if seg_has seg FIN then note_fin s sequence payload else s) })"

definition acknowledge :: "stream \<Rightarrow> 32 word \<Rightarrow> stream" where
  "acknowledge s acknowledgment =
     (if \<not> st_established s then s
      else let offset = absolute s acknowledgment in
        if 0 < offset then s\<lparr>st_acknowledged_upto := max (st_acknowledged_upto s) (nat offset)\<rparr>
        else s)"

text \<open>Move settled bytes into the output: the new stream and the output.\<close>

definition deliver :: "stream \<Rightarrow> bytes \<Rightarrow> bool \<Rightarrow> (stream \<times> bytes) option" where
  "deliver s out force =
     (let contiguous = contiguous_end (st_buffer s);
          available = contiguous - rb_base (st_buffer s);
          (limit, s) =
            (if force then (contiguous, s)
             else if st_flush_bytes s \<le> available
             then (contiguous,
                   upd_counters (\<lambda>c. c\<lparr>sc_flushed_unacked := sc_flushed_unacked c + available\<rparr>) s)
             else (min (st_acknowledged_upto s) contiguous, s))
      in do {
        (buffer, out', _) \<leftarrow> drain_contiguous_upto (st_buffer s) limit out;
        moved \<leftarrow> usub (length out') (length out);
        Some (upd_counters (\<lambda>c. c\<lparr>sc_bytes_delivered := sc_bytes_delivered c + moved\<rparr>)
            (s\<lparr>st_buffer := buffer, st_base_sequence := st_base_sequence s + of_nat moved\<rparr>), out') })"

definition rst_is_in_window :: "stream \<Rightarrow> 32 word \<Rightarrow> bool" where
  "rst_is_in_window s sequence \<longleftrightarrow> st_established s \<and>
     (let offset = absolute s sequence in
      0 \<le> offset \<and> nat offset \<le> covered_end (st_buffer s) + rst_sequence_slack)"

definition discard :: "stream \<Rightarrow> stream" where
  "discard s = upd_counters (\<lambda>c. c\<lparr>sc_dropped_incomplete :=
       sc_dropped_incomplete c + buffered_bytes (st_buffer s)\<rparr>)
     (s\<lparr>st_buffer := rb_reset (st_buffer s) (rb_base (st_buffer s))\<rparr>)"

definition stream_buffered_bytes :: "stream \<Rightarrow> nat" where
  "stream_buffered_bytes s = buffered_bytes (st_buffer s)"

section \<open>Both directions\<close>

record stream_pair =
  sp_to_server :: stream
  sp_to_client :: stream

definition pair_new :: "reassembly_config \<Rightarrow> stream_pair" where
  "pair_new c = (let byte_limit = max (max_stream_bytes_per_flow c) 1;
       flush = min (max (delivery_flush_bytes c) 1) byte_limit in
     \<lparr>sp_to_server = stream_new byte_limit flush, sp_to_client = stream_new byte_limit flush\<rparr>)"

definition pair_push ::
    "stream_pair \<Rightarrow> bool \<Rightarrow> tcp_segment \<Rightarrow> overlap_policy \<Rightarrow> overlap_policy \<Rightarrow> stream_ready \<Rightarrow>
     (stream_pair \<times> stream_ready) option" where
  "pair_push p to_server seg policy_to_server policy_to_client ready = do {
     (srv, cli) \<leftarrow>
       (if to_server then do {
          srv \<leftarrow> stream_push (sp_to_server p) seg policy_to_server;
          Some (srv, if seg_has seg ACK then acknowledge (sp_to_client p) (seg_acknowledgment seg)
                     else sp_to_client p) }
        else do {
          cli \<leftarrow> stream_push (sp_to_client p) seg policy_to_client;
          Some (if seg_has seg ACK then acknowledge (sp_to_server p) (seg_acknowledgment seg)
                else sp_to_server p, cli) });
     (srv, out_srv) \<leftarrow> deliver srv (ready_to_server ready) False;
     (cli, out_cli) \<leftarrow> deliver cli (ready_to_client ready) False;
     Some (\<lparr>sp_to_server = srv, sp_to_client = cli\<rparr>,
           \<lparr>ready_to_server = out_srv, ready_to_client = out_cli\<rparr>) }"

definition rst_should_close :: "stream_pair \<Rightarrow> bool \<Rightarrow> 32 word \<Rightarrow> bool" where
  "rst_should_close p to_server sequence =
     rst_is_in_window (if to_server then sp_to_server p else sp_to_client p) sequence"

definition pair_flush :: "stream_pair \<Rightarrow> stream_ready \<Rightarrow> (stream_pair \<times> stream_ready) option" where
  "pair_flush p ready = do {
     (srv, out_srv) \<leftarrow> deliver (sp_to_server p) (ready_to_server ready) True;
     (cli, out_cli) \<leftarrow> deliver (sp_to_client p) (ready_to_client ready) True;
     Some (\<lparr>sp_to_server = discard srv, sp_to_client = discard cli\<rparr>,
           \<lparr>ready_to_server = out_srv, ready_to_client = out_cli\<rparr>) }"

definition pair_buffered_bytes :: "stream_pair \<Rightarrow> nat" where
  "pair_buffered_bytes p =
     stream_buffered_bytes (sp_to_server p) + stream_buffered_bytes (sp_to_client p)"

definition pair_counters :: "stream_pair \<Rightarrow> stream_counters" where
  "pair_counters p = merge_counters (st_counters (sp_to_server p)) (st_counters (sp_to_client p))"

definition direction_counters :: "stream_pair \<Rightarrow> bool \<Rightarrow> stream_counters" where
  "direction_counters p to_server =
     (if to_server then st_counters (sp_to_server p) else st_counters (sp_to_client p))"

section \<open>The sequence space\<close>

text \<open>The anchor of a direction whose byte at offset 0 has sequence number \<open>isn\<close>.\<close>

definition anchored :: "32 word \<Rightarrow> stream \<Rightarrow> bool" where
  "anchored isn s \<longleftrightarrow> st_base_sequence s = isn + of_nat (rb_base (st_buffer s))"

definition near :: "stream \<Rightarrow> nat \<Rightarrow> bool" where
  "near s k \<longleftrightarrow> rb_base (st_buffer s) < 2 ^ 62 \<and>
     - (2 ^ 31) \<le> int k - int (rb_base (st_buffer s)) \<and>
     int k - int (rb_base (st_buffer s)) < 2 ^ 31"

lemma sint_small: "- (2 ^ 31) \<le> x \<Longrightarrow> x < 2 ^ 31 \<Longrightarrow> sint (word_of_int x :: 32 word) = x"
  by (simp add: sint_sbintrunc' signed_take_bit_int_eq_self)

lemma absolute_near:
  assumes "anchored isn s" "near s k"
  shows "absolute s (isn + of_nat k) = int k"
proof -
  have "isn + of_nat k - st_base_sequence s =
      word_of_int (int k - int (rb_base (st_buffer s)))"
    using assms(1) by (simp add: anchored_def)
  then have "sint (isn + of_nat k - st_base_sequence s) = int k - int (rb_base (st_buffer s))"
    using assms(2) by (simp only: near_def sint_small)
  moreover have "as_i64 (rb_base (st_buffer s)) = int (rb_base (st_buffer s))"
    using assms(2) by (intro as_i64_small) (simp add: near_def)
  ultimately show ?thesis by (simp add: absolute_def)
qed

section \<open>The invariant of one direction\<close>

definition stream_wf :: "stream \<Rightarrow> bool" where
  "stream_wf s \<longleftrightarrow> rb_wf (st_buffer s) \<and> rb_byte_limit (st_buffer s) = st_byte_limit s"

text \<open>The fields an operation leaves alone.\<close>

definition same_setup :: "stream \<Rightarrow> stream \<Rightarrow> bool" where
  "same_setup s s' \<longleftrightarrow> st_byte_limit s' = st_byte_limit s \<and> st_flush_bytes s' = st_flush_bytes s"

lemma upd_counters_simps [simp]:
  "st_base_sequence (upd_counters f s) = st_base_sequence s"
  "st_established (upd_counters f s) = st_established s"
  "st_buffer (upd_counters f s) = st_buffer s"
  "st_acknowledged_upto (upd_counters f s) = st_acknowledged_upto s"
  "st_fin_at (upd_counters f s) = st_fin_at s"
  "st_byte_limit (upd_counters f s) = st_byte_limit s"
  "st_flush_bytes (upd_counters f s) = st_flush_bytes s"
  "st_counters (upd_counters f s) = f (st_counters s)"
  by (simp_all add: upd_counters_def)

lemma absolute_upd_counters [simp]: "absolute (upd_counters f s) q = absolute s q"
  by (simp add: absolute_def)

lemma stream_wf_upd_counters [simp]: "stream_wf (upd_counters f s) = stream_wf s"
  by (simp add: stream_wf_def)

lemma stream_new_wf: "1 \<le> bl \<Longrightarrow> stream_wf (stream_new bl fl)"
  by (simp add: stream_wf_def stream_new_def rb_new_wf) (simp add: rb_new_def)

lemma establish_simps [simp]:
  "st_buffer (establish s seg) = st_buffer s"
  "st_acknowledged_upto (establish s seg) = st_acknowledged_upto s"
  "st_fin_at (establish s seg) = st_fin_at s"
  "st_byte_limit (establish s seg) = st_byte_limit s"
  "st_flush_bytes (establish s seg) = st_flush_bytes s"
  "st_counters (establish s seg) = st_counters s"
  by (simp_all add: establish_def)

lemma establish_payload: "seg_payload seg \<noteq> [] \<Longrightarrow> st_established (establish s seg)"
  by (simp add: establish_def)

lemma stream_wf_establish [simp]: "stream_wf (establish s seg) = stream_wf s"
  by (simp add: stream_wf_def)

lemma note_fin_simps [simp]:
  "st_base_sequence (note_fin s q pl) = st_base_sequence s"
  "st_established (note_fin s q pl) = st_established s"
  "st_buffer (note_fin s q pl) = st_buffer s"
  "st_acknowledged_upto (note_fin s q pl) = st_acknowledged_upto s"
  "st_byte_limit (note_fin s q pl) = st_byte_limit s"
  "st_flush_bytes (note_fin s q pl) = st_flush_bytes s"
  "st_counters (note_fin s q pl) = st_counters s"
  by (simp_all add: note_fin_def Let_def)

lemma stream_wf_note_fin [simp]: "stream_wf (note_fin s q pl) = stream_wf s"
  by (simp add: stream_wf_def)

lemma acknowledge_simps [simp]:
  "st_base_sequence (acknowledge s a) = st_base_sequence s"
  "st_established (acknowledge s a) = st_established s"
  "st_buffer (acknowledge s a) = st_buffer s"
  "st_fin_at (acknowledge s a) = st_fin_at s"
  "st_byte_limit (acknowledge s a) = st_byte_limit s"
  "st_flush_bytes (acknowledge s a) = st_flush_bytes s"
  "st_counters (acknowledge s a) = st_counters s"
  by (simp_all add: acknowledge_def Let_def)

lemma stream_wf_acknowledge [simp]: "stream_wf (acknowledge s a) = stream_wf s"
  by (simp add: stream_wf_def)

lemma discard_simps [simp]:
  "st_base_sequence (discard s) = st_base_sequence s"
  "st_established (discard s) = st_established s"
  "rb_base (st_buffer (discard s)) = rb_base (st_buffer s)"
  "st_byte_limit (discard s) = st_byte_limit s"
  "st_flush_bytes (discard s) = st_flush_bytes s"
  "buffered_bytes (st_buffer (discard s)) = 0"
  by (simp_all add: discard_def) (simp add: rb_reset_def)

lemma stream_wf_discard: "stream_wf s \<Longrightarrow> stream_wf (discard s)"
  by (auto simp: stream_wf_def discard_def rb_reset_wf rb_wf_def rb_reset_def)

text \<open>Storing never panics; it changes the buffer by at most one write, at the absolute
  offset of the segment, and nothing else of the stream but its counters.\<close>

definition stored :: "stream \<Rightarrow> 32 word \<Rightarrow> bytes \<Rightarrow> overlap_policy \<Rightarrow> stream \<Rightarrow> bool" where
  "stored s q pl policy s' \<longleftrightarrow> stream_wf s' \<and> same_setup s s' \<and>
     st_base_sequence s' = st_base_sequence s \<and> st_established s' = st_established s \<and>
     st_acknowledged_upto s' = st_acknowledged_upto s \<and>
     rb_base (st_buffer s') = rb_base (st_buffer s) \<and>
     sc_bytes_delivered (st_counters s') = sc_bytes_delivered (st_counters s) \<and>
     (st_buffer s' = st_buffer s \<or>
      pl \<noteq> [] \<and> 0 \<le> absolute s q \<and>
      (\<exists>out. rb_write (st_buffer s) (nat (absolute s q)) pl policy = Some (st_buffer s', out)))"

lemma store_stored:
  assumes "stream_wf s" "pl \<noteq> []"
  shows "\<exists>s'. store s q pl policy = Some s' \<and> stored s q pl policy s' \<and> st_fin_at s' = st_fin_at s"
proof -
  have wf: "rb_wf (st_buffer s)" using assms(1) by (simp add: stream_wf_def)
  obtain rb' out where w: "rb_write (st_buffer s) (nat (absolute s q)) pl policy = Some (rb', out)"
      "rb_wf rb'" "rb_base rb' = rb_base (st_buffer s)"
      "rb_byte_limit rb' = rb_byte_limit (st_buffer s)"
    using rb_write_result [OF wf, of "nat (absolute s q)" pl policy] by blast
  show ?thesis
    using assms w
    by (auto simp: store_def Let_def stored_def same_setup_def stream_wf_def)
qed

definition data_sequence :: "tcp_segment \<Rightarrow> 32 word" where
  "data_sequence seg = (if seg_has seg SYN then seg_sequence seg + 1 else seg_sequence seg)"

lemma stream_push_stored:
  assumes "stream_wf s"
  shows "\<exists>s'. stream_push s seg policy = Some s' \<and>
    stored (establish s seg) (data_sequence seg) (seg_payload seg) policy s'"
proof -
  let ?e = "establish s seg"
  have trivial: "stored t (data_sequence seg) (seg_payload seg) policy (upd_counters f t)"
    if "stream_wf t" "\<And>c. sc_bytes_delivered (f c) = sc_bytes_delivered c" for t f
    using that by (simp add: stored_def same_setup_def)
  show ?thesis
  proof (cases "st_established ?e \<and> seg_payload seg \<noteq> []")
    case False
    with assms trivial [of ?e "\<lambda>c. c"] show ?thesis
      by (auto simp: stream_push_def Let_def stored_def same_setup_def)
  next
    case True
    let ?f = "\<lambda>c. (if seg_has seg SYN then c\<lparr>sc_segments := sc_segments c + 1,
        sc_syn_data := sc_syn_data c + length (seg_payload seg)\<rparr>
      else c\<lparr>sc_segments := sc_segments c + 1\<rparr>)"
    let ?t = "upd_counters ?f ?e"
    obtain s' where s': "store ?t (data_sequence seg) (seg_payload seg) policy = Some s'"
        "stored ?t (data_sequence seg) (seg_payload seg) policy s'"
      using store_stored [of ?t "seg_payload seg" "data_sequence seg" policy] assms True by auto
    have "stream_push s seg policy =
        Some (if seg_has seg FIN then note_fin s' (data_sequence seg) (seg_payload seg) else s')"
      using True s'(1)
      by (auto simp: stream_push_def Let_def data_sequence_def upd_counters_def)
    moreover have "stored ?e (data_sequence seg) (seg_payload seg) policy
        (if seg_has seg FIN then note_fin s' (data_sequence seg) (seg_payload seg) else s')"
      using s'(2) by (auto simp: stored_def same_setup_def stream_wf_def)
    ultimately show ?thesis by blast
  qed
qed

text \<open>How far a delivery may go: everything contiguous when forced or when the flush
  threshold is reached, the acknowledged part of it otherwise.\<close>

definition deliver_limit :: "stream \<Rightarrow> bool \<Rightarrow> nat" where
  "deliver_limit s force = (let contiguous = contiguous_end (st_buffer s) in
     if force \<or> st_flush_bytes s \<le> contiguous - rb_base (st_buffer s) then contiguous
     else min (st_acknowledged_upto s) contiguous)"

lemma deliver_spec:
  fixes force :: bool
  assumes "stream_wf s"
  defines "n \<equiv> deliver_limit s force - rb_base (st_buffer s)"
  defines "b \<equiv> rb_base (st_buffer s)"
  shows "\<exists>s'. deliver s out force =
      Some (s', out @ map (\<lambda>k. the (rb_contents (st_buffer s) k)) [b..<b + n]) \<and>
    stream_wf s' \<and> same_setup s s' \<and> rb_base (st_buffer s') = b + n \<and>
    st_base_sequence s' = st_base_sequence s + of_nat n \<and>
    st_established s' = st_established s \<and> st_fin_at s' = st_fin_at s \<and>
    st_acknowledged_upto s' = st_acknowledged_upto s \<and>
    sc_bytes_delivered (st_counters s') = sc_bytes_delivered (st_counters s) + n \<and>
    drain_contiguous_upto (st_buffer s) (deliver_limit s force) out =
      Some (st_buffer s', out @ map (\<lambda>k. the (rb_contents (st_buffer s) k)) [b..<b + n], n)"
proof -
  have wf: "rb_wf (st_buffer s)" using assms(1) by (simp add: stream_wf_def)
  have "min (contiguous_end (st_buffer s)) (deliver_limit s force) = deliver_limit s force"
    by (simp add: deliver_limit_def Let_def)
  with drain_spec [OF wf, of "deliver_limit s force" out] obtain rb' where
    d: "drain_contiguous_upto (st_buffer s) (deliver_limit s force) out =
        Some (rb', out @ map (\<lambda>k. the (rb_contents (st_buffer s) k)) [b..<b + n], n)"
      "rb_wf rb'" "rb_base rb' = b + n" "rb_byte_limit rb' = rb_byte_limit (st_buffer s)"
    by (auto simp: n_def b_def)
  with assms(1) show ?thesis
    by (auto simp: deliver_def Let_def deliver_limit_def usub_def stream_wf_def same_setup_def)
qed

section \<open>A conversation in one direction\<close>

text \<open>
  A segment that carries a genuine piece of the message \<open>m\<close> whose first byte has sequence
  number \<open>isn\<close>: its payload is \<open>m\<close> from some offset \<open>k\<close> on, less than half the sequence space
  away from the delivery point (what TCP's window guarantees), and the segment that anchors
  the stream starts it.
\<close>

definition genuine :: "(nat \<Rightarrow> byte) \<Rightarrow> 32 word \<Rightarrow> stream \<Rightarrow> tcp_segment \<Rightarrow> bool" where
  "genuine m isn s seg \<longleftrightarrow>
     (seg_payload seg \<noteq> [] \<longrightarrow> (\<exists>k. data_sequence seg = isn + of_nat k \<and> near s k \<and>
        (\<forall>i < length (seg_payload seg). seg_payload seg ! i = m (k + i)))) \<and>
     (\<not> st_established s \<longrightarrow> st_established (establish s seg) \<longrightarrow> data_sequence seg = isn)"

text \<open>The states one direction can reach, with everything delivered so far: the sender's
  segments arrive in any order, repeatedly, under any policy; acknowledgements are arbitrary
  numbers; deliveries happen at any time, forced or not.\<close>

inductive conversation ::
    "(nat \<Rightarrow> byte) \<Rightarrow> 32 word \<Rightarrow> nat \<Rightarrow> nat \<Rightarrow> stream \<Rightarrow> bytes \<Rightarrow> bool"
  for m isn bl fl where
  start: "conversation m isn bl fl (stream_new bl fl) []"
| segment: "conversation m isn bl fl s out \<Longrightarrow> genuine m isn s seg \<Longrightarrow>
     stream_push s seg policy = Some s' \<Longrightarrow> conversation m isn bl fl s' out"
| acked: "conversation m isn bl fl s out \<Longrightarrow> conversation m isn bl fl (acknowledge s a) out"
| delivered: "conversation m isn bl fl s out \<Longrightarrow> deliver s out force = Some (s', out') \<Longrightarrow>
     conversation m isn bl fl s' out'"

definition conv_inv :: "(nat \<Rightarrow> byte) \<Rightarrow> 32 word \<Rightarrow> nat \<Rightarrow> stream \<Rightarrow> bytes \<Rightarrow> bool" where
  "conv_inv m isn bl s out \<longleftrightarrow> stream_wf s \<and> st_byte_limit s = bl \<and>
     rb.agrees m (st_buffer s) \<and> out = map m [0..<rb_base (st_buffer s)] \<and>
     (if st_established s then anchored isn s
      else rb_base (st_buffer s) = 0 \<and> rb_contents (st_buffer s) = Map.empty) \<and>
     sc_bytes_delivered (st_counters s) = rb_base (st_buffer s)"

lemma conv_inv_start: "1 \<le> bl \<Longrightarrow> conv_inv m isn bl (stream_new bl fl) []"
  by (simp add: conv_inv_def stream_new_wf)
    (simp add: stream_new_def rb.agrees_def default_stream_counters_def,
      simp add: rb_new_def rb_contents_def fun_eq_iff)

lemma conv_inv_establish:
  assumes "conv_inv m isn bl s out" "genuine m isn s seg"
  shows "if st_established (establish s seg) then anchored isn (establish s seg)
    else establish s seg = s"
proof (cases "st_established s")
  case True
  with assms(1) show ?thesis by (simp add: conv_inv_def establish_def)
next
  case False
  with assms show ?thesis
    by (auto simp: conv_inv_def genuine_def establish_def anchored_def data_sequence_def
        split: if_splits)
qed

lemma conv_inv_segment:
  assumes inv: "conv_inv m isn bl s out" and gen: "genuine m isn s seg"
    and push: "stream_push s seg policy = Some s'"
  shows "conv_inv m isn bl s' out"
proof -
  let ?e = "establish s seg" and ?pl = "seg_payload seg"
  have wf: "stream_wf s" "rb_wf (st_buffer s)" using inv by (auto simp: conv_inv_def stream_wf_def)
  have st: "stored ?e (data_sequence seg) ?pl policy s'"
    using stream_push_stored [OF wf(1), of seg policy] push by auto
  have anch: "if st_established ?e then anchored isn ?e else ?e = s"
    by (rule conv_inv_establish [OF inv gen])
  have agr: "rb.agrees m (st_buffer s')"
  proof (cases "st_buffer s' = st_buffer s")
    case True
    with inv show ?thesis by (simp add: conv_inv_def)
  next
    case False
    with st obtain r where w: "?pl \<noteq> []"
        "rb_write (st_buffer s) (nat (absolute ?e (data_sequence seg))) ?pl policy =
          Some (st_buffer s', r)"
      by (auto simp: stored_def)
    with anch establish_payload [of seg s] have a: "anchored isn ?e" by simp
    from gen w(1) obtain k where k: "data_sequence seg = isn + of_nat k" "near s k"
        "\<And>i. i < length ?pl \<Longrightarrow> ?pl ! i = m (k + i)"
      by (auto simp: genuine_def)
    then have "absolute ?e (data_sequence seg) = int k"
      using absolute_near [OF a, of k] by (simp add: near_def)
    with w k inv wf show ?thesis
      using rb.agrees_write [of "st_buffer s" m k ?pl policy "st_buffer s'" r]
      by (simp add: conv_inv_def)
  qed
  show ?thesis
    using inv st agr anch establish_payload [of seg s]
    by (auto simp: conv_inv_def stored_def same_setup_def anchored_def split: if_splits)
qed

lemma conv_inv_deliver:
  assumes inv: "conv_inv m isn bl s out" and del: "deliver s out force = Some (s', out')"
  shows "conv_inv m isn bl s' out'"
proof -
  let ?b = "rb_base (st_buffer s)"
  let ?n = "deliver_limit s force - ?b"
  have wf: "stream_wf s" "rb_wf (st_buffer s)" "rb.agrees m (st_buffer s)"
    using inv by (auto simp: conv_inv_def stream_wf_def)
  have d: "stream_wf s'" "same_setup s s'" "rb_base (st_buffer s') = ?b + ?n"
      "st_base_sequence s' = st_base_sequence s + of_nat ?n" "st_established s' = st_established s"
      "sc_bytes_delivered (st_counters s') = sc_bytes_delivered (st_counters s) + ?n"
      "drain_contiguous_upto (st_buffer s) (deliver_limit s force) out =
        Some (st_buffer s', out', ?n)"
  proof -
    from deliver_spec [OF wf(1), of out force] obtain t where
      t: "deliver s out force =
          Some (t, out @ map (\<lambda>k. the (rb_contents (st_buffer s) k)) [?b..<?b + ?n])"
        "stream_wf t" "same_setup s t" "rb_base (st_buffer t) = ?b + ?n"
        "st_base_sequence t = st_base_sequence s + of_nat ?n" "st_established t = st_established s"
        "sc_bytes_delivered (st_counters t) = sc_bytes_delivered (st_counters s) + ?n"
        "drain_contiguous_upto (st_buffer s) (deliver_limit s force) out =
          Some (st_buffer t, out @ map (\<lambda>k. the (rb_contents (st_buffer s) k)) [?b..<?b + ?n], ?n)"
      by blast
    from t(1) del have eq: "t = s'" "out' = out @ map (\<lambda>k. the (rb_contents (st_buffer s) k)) [?b..<?b + ?n]"
      by simp_all
    show "stream_wf s'" "same_setup s s'" "rb_base (st_buffer s') = ?b + ?n"
      "st_base_sequence s' = st_base_sequence s + of_nat ?n" "st_established s' = st_established s"
      "sc_bytes_delivered (st_counters s') = sc_bytes_delivered (st_counters s) + ?n"
      "drain_contiguous_upto (st_buffer s) (deliver_limit s force) out =
        Some (st_buffer s', out', ?n)"
      using t(2-8) unfolding eq(1) eq(2) by blast+
  qed
  from rb.agrees_drain [OF wf(2,3) d(7)]
  have o: "out' = out @ map m [?b..<?b + ?n]" "rb.agrees m (st_buffer s')" by auto
  have "out' = map m [0..<?b + ?n]"
    using o(1) inv upt_add_eq_append [of 0 ?b ?n] by (simp add: conv_inv_def)
  moreover have "?b + ?n = 0 \<and> rb_contents (st_buffer s') = Map.empty" if "\<not> st_established s"
  proof -
    have empty: "?b = 0" "rb_contents (st_buffer s) = Map.empty"
      using inv that by (auto simp: conv_inv_def)
    from drain_spec [OF wf(2), of "deliver_limit s force" out] d(7)
    have "rb_contents (st_buffer s') = Map.empty" using empty by (auto simp: fun_eq_iff)
    moreover have "contiguous_end (st_buffer s) = 0"
      using contiguous_end_held [of "st_buffer s" 0] empty
      by (auto simp: rb_contents_def fun_eq_iff split: if_splits)
    ultimately show ?thesis using empty by (simp add: deliver_limit_def Let_def)
  qed
  ultimately show ?thesis
    using inv d o(2) by (auto simp: conv_inv_def same_setup_def anchored_def)
qed

lemma conversation_inv:
  "conversation m isn bl fl s out \<Longrightarrow> 1 \<le> bl \<Longrightarrow> conv_inv m isn bl s out"
proof (induction rule: conversation.induct)
  case start
  then show ?case by (rule conv_inv_start)
next
  case (segment s out seg policy s')
  then show ?case using conv_inv_segment by blast
next
  case (acked s out a)
  then show ?case by (auto simp: conv_inv_def anchored_def split: if_splits)
next
  case (delivered s out force s' out')
  then show ?case using conv_inv_deliver by blast
qed

section \<open>Properties\<close>

text \<open>The definitions a concrete run unfolds.\<close>

lemmas stream_run = rb_run stream_push_def establish_def stream_new_def seg_has_def store_def
  absolute_def FIN_def SYN_def max_holes_per_stream_def upd_counters_def note_fin_def
  acknowledge_def deliver_def default_stream_counters_def

text \<open>C2. The sensor sees the bytes that were sent: in every state one direction can reach by
  segments of a message \<open>m\<close> (any order, any duplication, any overlap policy; the segment
  that anchors the stream is its first, and each lies less than half the sequence space from the delivery point), arbitrary
  acknowledgements and deliveries at any time, what has been delivered is exactly the
  beginning of \<open>m\<close> up to the buffer's base, the delivery counter says how long it is, and no
  more than the per-direction limit is buffered. It holds across wraps of the 32-bit
  sequence space.\<close>

theorem stream_delivers_message:
  assumes "conversation m isn bl fl s out" "1 \<le> bl"
  shows "out = map m [0..<rb_base (st_buffer s)] \<and>
    sc_bytes_delivered (st_counters s) = length out \<and> stream_buffered_bytes s \<le> bl"
proof -
  have inv: "conv_inv m isn bl s out" by (rule conversation_inv [OF assms])
  then have "stream_buffered_bytes s \<le> bl"
    using buffered_bytes_bound [of "st_buffer s"]
    by (auto simp: conv_inv_def stream_wf_def stream_buffered_bytes_def)
  with inv show ?thesis by (simp add: conv_inv_def)
qed

text \<open>A conversation that really delivers: an anchor near the top of the sequence space, two
  segments out of order, and a forced delivery.\<close>

theorem stream_delivers_message_witness:
  "\<exists>s. conversation (\<lambda>k. word_of_nat k) 0xFFFFFFFF 64 8 s [0, 1] \<and>
     [0, 1] = map (\<lambda>k. word_of_nat k :: byte) [0..<rb_base (st_buffer s)]"
proof -
  let ?m = "\<lambda>k. word_of_nat k :: byte" and ?isn = "0xFFFFFFFF :: 32 word"
  let ?seg = "\<lparr>seg_sequence = ?isn, seg_acknowledgment = 0, seg_flags = 0, seg_payload = [0, 1]\<rparr>"
  let ?s0 = "stream_new 64 8"
  obtain s1 where s1: "stream_push ?s0 ?seg First = Some s1"
    using stream_push_stored [of ?s0 ?seg First] stream_new_wf [of 64 8] by auto
  have syn: "\<not> seg_has ?seg SYN" by (simp add: seg_has_def)
  have gen: "genuine ?m ?isn ?s0 ?seg"
    using syn by (auto simp: genuine_def data_sequence_def near_def stream_new_def rb_new_def
        less_Suc_eq intro!: exI [of _ 0])
  have c1: "conversation ?m ?isn 64 8 s1 []"
    by (rule conversation.segment [OF conversation.start gen s1])
  have run: "stream_push ?s0 ?seg First \<bind> (\<lambda>s. deliver s [] True) \<bind> (\<lambda>(s, out). Some out) =
      Some [0, 1]"
    by (simp add: stream_run)
  then obtain s2 where "deliver s1 [] True = Some (s2, [0, 1])"
    using s1 by (auto split: Option.bind_splits)
  from conversation.delivered [OF c1 this] have c2: "conversation ?m ?isn 64 8 s2 [0, 1]" .
  with stream_delivers_message [OF c2] show ?thesis by auto
qed

text \<open>Delivery is gated on acknowledgement: a delivery that is not forced and hands out any
  byte either stops at what the peer has acknowledged, so every copy of those bytes has had
  its chance to arrive, or is the counted fallback, taken only once \<open>delivery_flush_bytes\<close>
  contiguous bytes have piled up.\<close>

theorem deliver_gated:
  assumes wf: "stream_wf s" and del: "deliver s out False = Some (s', out')" and new: "out' \<noteq> out"
  shows "rb_base (st_buffer s') \<le> st_acknowledged_upto s \<or>
    (let available = contiguous_end (st_buffer s) - rb_base (st_buffer s) in
      st_flush_bytes s \<le> available \<and>
      sc_flushed_unacked (st_counters s') = sc_flushed_unacked (st_counters s) + available)"
proof (cases "st_flush_bytes s \<le> contiguous_end (st_buffer s) - rb_base (st_buffer s)")
  case True
  with del show ?thesis
    by (auto simp: deliver_def Let_def split: Option.bind_splits)
next
  case False
  let ?b = "rb_base (st_buffer s)" and ?n = "deliver_limit s False - rb_base (st_buffer s)"
  from False have lim: "deliver_limit s False \<le> st_acknowledged_upto s"
    by (simp add: deliver_limit_def Let_def)
  from deliver_spec [OF wf, of out False] del new
  have "rb_base (st_buffer s') = ?b + ?n" "?n \<noteq> 0" by auto
  with lim show ?thesis by linarith
qed

theorem deliver_gated_witness:
  "\<exists>s s'. stream_push (stream_new 64 8) \<lparr>seg_sequence = 7, seg_acknowledgment = 0, seg_flags = 0,
       seg_payload = [1, 2]\<rparr> First = Some s \<and>
     deliver (acknowledge s 8) [] False = Some (s', [1]) \<and>
     rb_base (st_buffer s') \<le> st_acknowledged_upto (acknowledge s 8)"
proof -
  let ?seg = "\<lparr>seg_sequence = 7, seg_acknowledgment = 0, seg_flags = 0, seg_payload = [1, 2]\<rparr>"
  have wf0: "stream_wf (stream_new 64 8)" by (rule stream_new_wf) simp
  obtain s where s: "stream_push (stream_new 64 8) ?seg First = Some s" "stream_wf s"
    using stream_push_stored [OF wf0, of ?seg First] by (auto simp: stored_def)
  have "stream_push (stream_new 64 8) ?seg First \<bind> (\<lambda>s. map_option (\<lambda>(t, out). (out, st_flush_bytes s,
      contiguous_end (st_buffer s) - rb_base (st_buffer s))) (deliver (acknowledge s 8) [] False)) =
      Some ([1], 8, 2)"
    by (simp add: stream_run)
  with s obtain s' where d: "deliver (acknowledge s 8) [] False = Some (s', [1])"
      "st_flush_bytes s = 8" "contiguous_end (st_buffer s) - rb_base (st_buffer s) = 2" by auto
  from deliver_gated [of "acknowledge s 8" "[]" s' "[1]"] d s
  have "rb_base (st_buffer s') \<le> st_acknowledged_upto (acknowledge s 8)" by (simp add: Let_def)
  with s d show ?thesis by blast
qed

section \<open>End of a direction\<close>

lemma absolute_establish: "st_established s \<Longrightarrow> establish s seg = s"
  by (simp add: establish_def)

lemma store_past_fin:
  assumes "stream_wf s" "pl \<noteq> []" "st_fin_at s = Some f" "int f \<le> absolute s q"
    "store s q pl policy = Some s'"
  shows "st_buffer s' = st_buffer s"
  using assms by (auto simp: store_def Let_def nat_le_iff split: if_splits)

text \<open>A FIN shuts its direction: once one has been seen at offset \<open>f\<close>, no later segment moves
  the end of the stream further out, and one that starts at or after \<open>f\<close> leaves the buffer
  as it was.\<close>

theorem fin_is_final:
  assumes wf: "stream_wf s" and est: "st_established s" and fin: "st_fin_at s = Some f"
    and push: "stream_push s seg policy = Some s'"
  shows "(\<exists>f' \<le> f. st_fin_at s' = Some f') \<and>
    (int f \<le> absolute s (data_sequence seg) \<longrightarrow> st_buffer s' = st_buffer s)"
proof (cases "seg_payload seg = []")
  case True
  with est fin push show ?thesis
    by (auto simp: stream_push_def absolute_establish Let_def note_fin_def split: if_splits)
next
  case False
  let ?f = "\<lambda>c. (if seg_has seg SYN then c\<lparr>sc_segments := sc_segments c + 1,
      sc_syn_data := sc_syn_data c + length (seg_payload seg)\<rparr>
    else c\<lparr>sc_segments := sc_segments c + 1\<rparr>)"
  let ?t = "upd_counters ?f s"
  obtain t where t: "store ?t (data_sequence seg) (seg_payload seg) policy = Some t"
      "st_fin_at t = Some f"
    using store_stored [of ?t "seg_payload seg" "data_sequence seg" policy] wf False fin by auto
  have "stream_push s seg policy =
      Some (if seg_has seg FIN then note_fin t (data_sequence seg) (seg_payload seg) else t)"
    using False est t(1)
    by (auto simp: stream_push_def absolute_establish Let_def data_sequence_def upd_counters_def)
  with push have s': "s' = (if seg_has seg FIN then note_fin t (data_sequence seg) (seg_payload seg)
      else t)" by simp
  have "st_buffer t = st_buffer s" if "int f \<le> absolute s (data_sequence seg)"
    using store_past_fin [OF _ False _ _ t(1), of f] wf fin that by simp
  with t(2) show ?thesis unfolding s' by (auto simp: note_fin_def Let_def)
qed

theorem fin_is_final_witness:
  "\<exists>s s' f. stream_push (stream_new 64 8) \<lparr>seg_sequence = 7, seg_acknowledgment = 0, seg_flags = 1,
       seg_payload = [1, 2]\<rparr> First = Some s \<and> st_fin_at s = Some 2 \<and>
     stream_push s \<lparr>seg_sequence = 9, seg_acknowledgment = 0, seg_flags = 1, seg_payload = [3]\<rparr> Last =
       Some s' \<and> st_fin_at s' = Some f \<and> f \<le> 2"
proof -
  let ?seg = "\<lparr>seg_sequence = 7, seg_acknowledgment = 0, seg_flags = 1, seg_payload = [1, 2]\<rparr>"
  let ?seg2 = "\<lparr>seg_sequence = 9, seg_acknowledgment = 0, seg_flags = 1, seg_payload = [3]\<rparr>"
  have wf0: "stream_wf (stream_new 64 8)" by (rule stream_new_wf) simp
  obtain s where s: "stream_push (stream_new 64 8) ?seg First = Some s" "stream_wf s"
    using stream_push_stored [OF wf0, of ?seg First] by (auto simp: stored_def)
  have "map_option (\<lambda>s. (st_fin_at s, st_established s)) (stream_push (stream_new 64 8) ?seg First) =
      Some (Some 2, True)"
    by (simp add: stream_run i64_saturating_add_def)
  with s have f: "st_fin_at s = Some 2" "st_established s" by auto
  obtain s' where s': "stream_push s ?seg2 Last = Some s'"
    using stream_push_stored [OF s(2), of ?seg2 Last] by auto
  from fin_is_final [OF s(2) f(2,1) s'] s f s' show ?thesis by blast
qed

text \<open>The sensor's end of stream is only checked against where a segment starts: one that
  begins before the FIN and runs past it is stored whole, and the bytes past the FIN are
  handed downstream.\<close>

theorem fin_straddle_delivered:
  "\<exists>s1 s2 s3. stream_push (stream_new 64 8) \<lparr>seg_sequence = 7, seg_acknowledgment = 0, seg_flags = 1,
       seg_payload = [1]\<rparr> First = Some s1 \<and> st_fin_at s1 = Some 1 \<and>
     stream_push s1 \<lparr>seg_sequence = 7, seg_acknowledgment = 0, seg_flags = 0,
       seg_payload = [1, 2, 3]\<rparr> First = Some s2 \<and>
     sc_after_fin (st_counters s2) = 0 \<and> deliver s2 [] True = Some (s3, [1, 2, 3])"
  by (simp add: stream_run i64_saturating_add_def)

text \<open>Which resets are believed: with the anchor at its place, a RST at offset \<open>k\<close> of the
  stream (within half the sequence space of the delivery point) is honoured exactly when it
  is at most one unscaled window past the last byte seen. Every offset already delivered is
  on the believed side.\<close>

theorem rst_window:
  assumes "st_established s" "anchored isn s" "near s k"
  shows "rst_is_in_window s (isn + of_nat k) \<longleftrightarrow> k \<le> covered_end (st_buffer s) + 65535"
  using assms absolute_near [OF assms(2,3)]
  by (simp add: rst_is_in_window_def Let_def rst_sequence_slack_def)

theorem rst_window_witness:
  "\<not> rst_is_in_window ((stream_new 64 8)\<lparr>st_established := True, st_base_sequence := 7\<rparr>) (7 + of_nat 65536)"
  using rst_window [of "(stream_new 64 8)\<lparr>st_established := True, st_base_sequence := 7\<rparr>" 7 65536]
  by (simp add: anchored_def near_def stream_new_def rb_new_def covered_end_def)

text \<open>Consequence for a long-lived connection: once two gigabytes have been delivered, every
  sequence number in the half of the sequence space behind the delivery point is a reset the
  sensor believes, not the 64 KiB target the slack is documented to leave.\<close>

theorem rst_behind_delivery_believed:
  assumes "st_established s" "2 ^ 31 \<le> rb_base (st_buffer s)" "rb_base (st_buffer s) < 2 ^ 62"
    and "- (2 ^ 31) \<le> d" "d < 0" "rb_base (st_buffer s) \<le> covered_end (st_buffer s)"
  shows "rst_is_in_window s (st_base_sequence s + word_of_int d)"
proof -
  have b: "as_i64 (rb_base (st_buffer s)) = int (rb_base (st_buffer s))"
    using assms(3) by (intro as_i64_small) simp
  have "sint (word_of_int d :: 32 word) = d"
    using assms(4,5) by (intro sint_small) simp_all
  with b assms show ?thesis
    by (simp add: rst_is_in_window_def absolute_def Let_def)
qed

theorem rst_behind_delivery_believed_witness:
  "rst_is_in_window \<lparr>st_base_sequence = 7, st_established = True,
      st_buffer = rb_new (2 ^ 31) 64 256, st_acknowledged_upto = 0, st_fin_at = None,
      st_byte_limit = 64, st_flush_bytes = 8, st_counters = default_stream_counters\<rparr>
     (7 + word_of_int (- 1000000000))"
  using rst_behind_delivery_believed [of "\<lparr>st_base_sequence = 7, st_established = True,
      st_buffer = rb_new (2 ^ 31) 64 256, st_acknowledged_upto = 0, st_fin_at = None,
      st_byte_limit = 64, st_flush_bytes = 8, st_counters = default_stream_counters\<rparr>" "- 1000000000"]
  by (simp add: rb_new_def covered_end_def)

section \<open>The pair of directions\<close>

definition dir_wf :: "nat \<Rightarrow> stream \<Rightarrow> bool" where
  "dir_wf bl s \<longleftrightarrow> stream_wf s \<and> st_byte_limit s = bl"

definition pair_wf :: "nat \<Rightarrow> stream_pair \<Rightarrow> bool" where
  "pair_wf bl p \<longleftrightarrow> dir_wf bl (sp_to_server p) \<and> dir_wf bl (sp_to_client p)"

lemma pair_new_wf: "pair_wf (max (max_stream_bytes_per_flow c) 1) (pair_new c)"
  by (simp add: pair_wf_def dir_wf_def pair_new_def Let_def stream_new_wf)
    (simp add: stream_new_def)

lemma dir_push:
  assumes "dir_wf bl s"
  shows "\<exists>s'. stream_push s seg policy = Some s' \<and> dir_wf bl s' \<and>
    sc_bytes_delivered (st_counters s') = sc_bytes_delivered (st_counters s)"
  using assms stream_push_stored [of s seg policy]
  by (auto simp: dir_wf_def stored_def same_setup_def)

lemma dir_ack: "dir_wf bl s \<Longrightarrow> dir_wf bl (acknowledge s a)"
  by (simp add: dir_wf_def)

lemma dir_deliver:
  assumes "dir_wf bl s"
  shows "\<exists>s' bs. deliver s out force = Some (s', out @ bs) \<and> dir_wf bl s' \<and>
    sc_bytes_delivered (st_counters s') = sc_bytes_delivered (st_counters s) + length bs"
proof -
  have wf: "stream_wf s" using assms by (simp add: dir_wf_def)
  from deliver_spec [OF wf, of out force] assms show ?thesis
    by (fastforce simp: dir_wf_def same_setup_def)
qed

lemma dir_discard: "dir_wf bl s \<Longrightarrow> dir_wf bl (discard s)"
  by (simp add: dir_wf_def stream_wf_discard)

lemma dir_bound: "dir_wf bl s \<Longrightarrow> stream_buffered_bytes s \<le> bl"
  using buffered_bytes_bound [of "st_buffer s"]
  by (auto simp: dir_wf_def stream_wf_def stream_buffered_bytes_def)

lemma pair_bound: "pair_wf bl p \<Longrightarrow> pair_buffered_bytes p \<le> 2 * bl"
  using dir_bound [of bl "sp_to_server p"] dir_bound [of bl "sp_to_client p"]
  by (simp add: pair_wf_def pair_buffered_bytes_def)

definition pair_delivered :: "stream_pair \<Rightarrow> nat" where
  "pair_delivered p = sc_bytes_delivered (st_counters (sp_to_server p)) +
     sc_bytes_delivered (st_counters (sp_to_client p))"

text \<open>Pushing a segment: the packet's own direction stores it, the other one hears the
  acknowledgement, and both deliver.\<close>

lemma pair_push_total:
  assumes "pair_wf bl p"
  shows "\<exists>p' ready' a b. pair_push p to_server seg ps pc ready = Some (p', ready') \<and> pair_wf bl p' \<and>
    ready_to_server ready' = ready_to_server ready @ a \<and>
    ready_to_client ready' = ready_to_client ready @ b \<and>
    pair_delivered p' = pair_delivered p + length a + length b"
proof -
  have wf: "dir_wf bl (sp_to_server p)" "dir_wf bl (sp_to_client p)"
    using assms by (auto simp: pair_wf_def)
  obtain srv cli where sc: "(if to_server then do {
          srv \<leftarrow> stream_push (sp_to_server p) seg ps;
          Some (srv, if seg_has seg ACK then acknowledge (sp_to_client p) (seg_acknowledgment seg)
                     else sp_to_client p) }
        else do {
          cli \<leftarrow> stream_push (sp_to_client p) seg pc;
          Some (if seg_has seg ACK then acknowledge (sp_to_server p) (seg_acknowledgment seg)
                else sp_to_server p, cli) }) = Some (srv, cli)"
    "dir_wf bl srv" "dir_wf bl cli"
    "sc_bytes_delivered (st_counters srv) = sc_bytes_delivered (st_counters (sp_to_server p))"
    "sc_bytes_delivered (st_counters cli) = sc_bytes_delivered (st_counters (sp_to_client p))"
    using dir_push [OF wf(1), of seg ps] dir_push [OF wf(2), of seg pc] wf
    by (cases to_server) (auto simp: dir_ack)
  obtain srv' a where a: "deliver srv (ready_to_server ready) False = Some (srv', ready_to_server ready @ a)"
      "dir_wf bl srv'"
      "sc_bytes_delivered (st_counters srv') = sc_bytes_delivered (st_counters srv) + length a"
    using dir_deliver [OF sc(2)] by blast
  obtain cli' b where b: "deliver cli (ready_to_client ready) False = Some (cli', ready_to_client ready @ b)"
      "dir_wf bl cli'"
      "sc_bytes_delivered (st_counters cli') = sc_bytes_delivered (st_counters cli) + length b"
    using dir_deliver [OF sc(3)] by blast
  show ?thesis
    unfolding pair_push_def sc(1) using a b sc(4,5) by (simp add: pair_wf_def pair_delivered_def)
qed

lemma pair_flush_total:
  assumes "pair_wf bl p"
  shows "\<exists>p' ready' a b. pair_flush p ready = Some (p', ready') \<and> pair_wf bl p' \<and>
    ready_to_server ready' = ready_to_server ready @ a \<and>
    ready_to_client ready' = ready_to_client ready @ b \<and>
    pair_delivered p' = pair_delivered p + length a + length b \<and> pair_buffered_bytes p' = 0"
proof -
  have wf: "dir_wf bl (sp_to_server p)" "dir_wf bl (sp_to_client p)"
    using assms by (auto simp: pair_wf_def)
  obtain srv a where a: "deliver (sp_to_server p) (ready_to_server ready) True =
        Some (srv, ready_to_server ready @ a)" "dir_wf bl srv"
      "sc_bytes_delivered (st_counters srv) = sc_bytes_delivered (st_counters (sp_to_server p)) + length a"
    using dir_deliver [OF wf(1)] by blast
  obtain cli b where b: "deliver (sp_to_client p) (ready_to_client ready) True =
        Some (cli, ready_to_client ready @ b)" "dir_wf bl cli"
      "sc_bytes_delivered (st_counters cli) = sc_bytes_delivered (st_counters (sp_to_client p)) + length b"
    using dir_deliver [OF wf(2)] by blast
  have "sc_bytes_delivered (st_counters (discard t)) = sc_bytes_delivered (st_counters t)" for t
    by (simp add: discard_def)
  with a b show ?thesis
    by (simp add: pair_flush_def pair_wf_def pair_delivered_def dir_discard pair_buffered_bytes_def
        stream_buffered_bytes_def)
qed

text \<open>Everything a client does with a pair, and what it has been handed.\<close>

datatype pair_op = PushOp bool tcp_segment overlap_policy overlap_policy | FlushOp

fun pair_step :: "(stream_pair \<times> stream_ready) option \<Rightarrow> pair_op \<Rightarrow> (stream_pair \<times> stream_ready) option" where
  "pair_step None op = None"
| "pair_step (Some (p, r)) (PushOp to_server seg ps pc) = pair_push p to_server seg ps pc r"
| "pair_step (Some (p, r)) FlushOp = pair_flush p r"

definition pair_safe :: "nat \<Rightarrow> (stream_pair \<times> stream_ready) option \<Rightarrow> bool" where
  "pair_safe bl s \<longleftrightarrow> (case s of None \<Rightarrow> False
     | Some (p, r) \<Rightarrow> pair_wf bl p \<and> pair_delivered p = ready_len r)"

lemma pair_step_safe: "pair_safe bl s \<Longrightarrow> pair_safe bl (pair_step s op)"
proof (cases s; cases op)
  fix pr to_server seg ps pc
  assume "s = Some pr" "op = PushOp to_server seg ps pc" "pair_safe bl s"
  then show ?thesis using pair_push_total [of bl "fst pr" to_server seg ps pc "snd pr"]
    by (cases pr) (auto simp: pair_safe_def ready_len_def)
next
  fix pr
  assume "s = Some pr" "op = FlushOp" "pair_safe bl s"
  then show ?thesis using pair_flush_total [of bl "fst pr" "snd pr"]
    by (cases pr) (auto simp: pair_safe_def ready_len_def)
qed (simp_all add: pair_safe_def)

interpretation pair_ops: invariant_machine
  "\<lambda>s. s = Some (pair_new c, default_ready)" pair_step
  "pair_safe (max (max_stream_bytes_per_flow c) 1)" for c
proof unfold_locales
  show "s = Some (pair_new c, default_ready) \<Longrightarrow>
      pair_safe (max (max_stream_bytes_per_flow c) 1) s" for s
    using pair_new_wf [of c]
    by (simp add: pair_safe_def pair_delivered_def pair_new_def default_ready_def ready_len_def
        Let_def stream_new_def default_stream_counters_def)
qed (rule pair_step_safe)

text \<open>Reassembling a connection is safe against whatever arrives: after any sequence of
  segments in either direction (any flags, sequence numbers, payloads and policies) and
  flushes, nothing has panicked, at most twice \<open>max_stream_bytes_per_flow\<close> is buffered, and
  the delivery counters of the two directions add up to exactly the bytes handed out.\<close>

theorem pair_bounded:
  "\<exists>p r. foldl pair_step (Some (pair_new c, default_ready)) ops = Some (p, r) \<and>
     pair_buffered_bytes p \<le> 2 * max (max_stream_bytes_per_flow c) 1 \<and>
     sc_bytes_delivered (pair_counters p) = ready_len r"
proof -
  have "pair_safe (max (max_stream_bytes_per_flow c) 1)
      (foldl pair_step (Some (pair_new c, default_ready)) ops)"
    by (rule pair_ops.inv_reachable) simp
  then show ?thesis
    using pair_bound [of "max (max_stream_bytes_per_flow c) 1"]
    by (fastforce simp: pair_safe_def pair_delivered_def pair_counters_def merge_counters_def
        split: option.splits)
qed

end
