(* ===== verification/FlowTable.thy ===== *)
theory FlowTable
  imports TcpStream
begin

text \<open>
  The flow table (\<open>crates/reassembly/src/flow.rs\<close> and the limits of
  \<open>crates/reassembly/src/lib.rs\<close>): one entry per conversation under a key that is the same in
  both directions, its TCP reassembly state, idle timeout, eviction under two budgets, and
  the queue of ended flows. The overlap policy of a host is a parameter (the closure the
  pipeline passes, \<open>Policy\<close> models what it calls). A panic, an underflow of the running byte
  total included, is \<open>None\<close>. Endpoints are ordered lexicographically, as Rust orders tuples.
\<close>

unbundle bit_operations_syntax

section \<open>Data\<close>

record limits =
  max_flows :: nat
  max_bytes_per_flow :: nat
  max_bytes_total :: nat
  lim_max_fragment_sets :: nat
  flow_timeout :: duration
  fragment_timeout :: duration

definition default_limits :: limits where
  "default_limits = \<lparr>max_flows = 65536, max_bytes_per_flow = 1048576, max_bytes_total = 536870912,
     lim_max_fragment_sets = 4096, flow_timeout = secs 300, fragment_timeout = secs 60\<rparr>"

record flow_key =
  key_protocol :: byte
  key_first :: endpoint
  key_second :: endpoint

definition flow_key_new :: "byte \<Rightarrow> endpoint \<Rightarrow> endpoint \<Rightarrow> flow_key" where
  "flow_key_new protocol source destination =
     (if source \<le> destination
      then \<lparr>key_protocol = protocol, key_first = source, key_second = destination\<rparr>
      else \<lparr>key_protocol = protocol, key_first = destination, key_second = source\<rparr>)"

record dir_counters =
  dir_packets :: nat
  dir_bytes :: nat

definition default_dir_counters :: dir_counters where
  "default_dir_counters = \<lparr>dir_packets = 0, dir_bytes = 0\<rparr>"

type_synonym flow_id = "64 word"

record flow =
  fl_id :: flow_id
  fl_key :: flow_key
  fl_initiator :: endpoint
  fl_start :: system_time
  fl_last_seen :: system_time
  fl_to_server :: dir_counters
  fl_to_client :: dir_counters
  fl_tcp_flags_seen :: "8 word"
  fl_fin_from_initiator :: bool
  fl_fin_from_responder :: bool
  fl_saw_reset :: bool
  fl_streams :: "stream_pair option"

definition tcp_protocol :: byte where
  "tcp_protocol = 6"

definition responder :: "flow \<Rightarrow> endpoint" where
  "responder f = (if fl_initiator f = key_first (fl_key f) then key_second (fl_key f)
     else key_first (fl_key f))"

definition oriented_tuple :: "flow \<Rightarrow> endpoint \<times> endpoint" where
  "oriented_tuple f = (fl_initiator f, responder f)"

definition flow_duration :: "flow \<Rightarrow> duration" where
  "flow_duration f = unwrap_or (duration_since (fl_last_seen f) (fl_start f)) 0"

definition is_closed :: "flow \<Rightarrow> bool" where
  "is_closed f \<longleftrightarrow> fl_saw_reset f \<or> fl_fin_from_initiator f \<and> fl_fin_from_responder f"

definition flow_stream_counters :: "flow \<Rightarrow> stream_counters option" where
  "flow_stream_counters f = map_option pair_counters (fl_streams f)"

definition flow_buffered_bytes :: "flow \<Rightarrow> nat" where
  "flow_buffered_bytes f = (case fl_streams f of None \<Rightarrow> 0 | Some p \<Rightarrow> pair_buffered_bytes p)"

definition tcp_flags_string :: "flow \<Rightarrow> string option" where
  "tcp_flags_string f =
     (if key_protocol (fl_key f) \<noteq> tcp_protocol then None
      else Some (map snd (filter (\<lambda>(n, _). fl_tcp_flags_seen f AND push_bit n 1 \<noteq> 0)
        [(0, CHR ''F''), (1, CHR ''S''), (2, CHR ''R''), (3, CHR ''P''),
         (4, CHR ''A''), (5, CHR ''U''), (6, CHR ''E''), (7, CHR ''C'')])))"

datatype end_reason = Closed | TimedOut | Evicted | SensorStopped

record ended_flow =
  ef_flow :: flow
  ef_reason :: end_reason
  ef_final_ready :: stream_ready

record observed =
  ob_flow_id :: flow_id
  ob_to_server :: bool
  ob_is_new :: bool

record flow_counters =
  fc_created :: nat
  fc_closed :: nat
  fc_timed_out :: nat
  fc_evicted :: nat
  fc_resets_ignored :: nat

definition default_flow_counters :: flow_counters where
  "default_flow_counters = \<lparr>fc_created = 0, fc_closed = 0, fc_timed_out = 0, fc_evicted = 0,
     fc_resets_ignored = 0\<rparr>"

record packet_summary =
  pk_protocol :: byte
  pk_source :: endpoint
  pk_destination :: endpoint
  pk_timestamp :: system_time
  pk_frame_len :: nat
  pk_payload :: bytes
  pk_tcp :: "tcp_segment option"

record flow_table =
  ft_flows :: "(flow_key, flow) hashmap"
  ft_limits :: limits
  ft_reassembly :: reassembly_config
  ft_stream_bytes :: nat
  ft_finished_stream_counters :: stream_counters
  ft_counters :: flow_counters
  ft_ended :: "ended_flow list"
  ft_last_sweep :: "system_time option"

definition flow_sweep_interval :: duration where
  "flow_sweep_interval = secs 10"

definition eviction_batch_fraction :: nat where
  "eviction_batch_fraction = 10"

definition with_reassembly :: "limits \<Rightarrow> reassembly_config \<Rightarrow> flow_table" where
  "with_reassembly lim c = \<lparr>ft_flows = [], ft_limits = lim, ft_reassembly = c, ft_stream_bytes = 0,
     ft_finished_stream_counters = default_stream_counters, ft_counters = default_flow_counters,
     ft_ended = [], ft_last_sweep = None\<rparr>"

definition flow_table_new :: "limits \<Rightarrow> flow_table" where
  "flow_table_new lim = with_reassembly lim default_reassembly_config"

definition flow_len :: "flow_table \<Rightarrow> nat" where
  "flow_len t = length (ft_flows t)"

section \<open>Flow identifiers\<close>

definition fnv_mix :: "64 word \<Rightarrow> bytes \<Rightarrow> 64 word" where
  "fnv_mix hash bs = foldl (\<lambda>h b. (h XOR ucast b) * 0x00000100000001b3) hash bs"

fun octets :: "ip_addr \<Rightarrow> bytes" where
  "octets (V4 a) = be_bytes 4 a"
| "octets (V6 a) = be_bytes 16 a"

definition mix_endpoint :: "64 word \<Rightarrow> endpoint \<Rightarrow> 64 word" where
  "mix_endpoint hash e = fnv_mix (fnv_mix hash (octets (fst e))) (be_bytes 2 (snd e))"

definition derive_flow_id :: "flow_key \<Rightarrow> system_time \<Rightarrow> flow_id" where
  "derive_flow_id key start =
     (let hash = fnv_mix 0xcbf29ce484222325 [key_protocol key];
          hash = mix_endpoint (mix_endpoint hash (key_first key)) (key_second key);
          nanos = of_nat (unwrap_or (duration_since start 0) 0) :: 64 word;
          hash = fnv_mix hash (be_bytes 8 nanos)
      in if hash = 0 then 1 else hash)"

section \<open>Ending flows\<close>

definition upd_fc :: "(flow_counters \<Rightarrow> flow_counters) \<Rightarrow> flow_table \<Rightarrow> flow_table" where
  "upd_fc g t = t\<lparr>ft_counters := g (ft_counters t)\<rparr>"

definition end_flow :: "flow_table \<Rightarrow> flow \<Rightarrow> end_reason \<Rightarrow> flow_table option" where
  "end_flow t f reason = do {
     let released = flow_buffered_bytes f;
     (f, final_ready) \<leftarrow> (case fl_streams f of
         None \<Rightarrow> Some (f, default_ready)
       | Some p \<Rightarrow> do { (p, ready) \<leftarrow> pair_flush p default_ready; Some (f\<lparr>fl_streams := Some p\<rparr>, ready) });
     Some (t\<lparr>ft_finished_stream_counters := (case flow_stream_counters f of
           None \<Rightarrow> ft_finished_stream_counters t
         | Some c \<Rightarrow> merge_counters (ft_finished_stream_counters t) c),
       ft_stream_bytes := ft_stream_bytes t - released,
       ft_ended := ft_ended t @ [\<lparr>ef_flow = f, ef_reason = reason, ef_final_ready = final_ready\<rparr>]\<rparr>) }"

text \<open>The two loops that remove a list of keys, counting each flow that was still there.\<close>

fun remove_flows :: "(flow_counters \<Rightarrow> flow_counters) \<Rightarrow> end_reason \<Rightarrow> flow_key list \<Rightarrow> flow_table \<Rightarrow>
    flow_table option" where
  "remove_flows g reason [] t = Some t"
| "remove_flows g reason (k # ks) t = do {
     t \<leftarrow> (case hm_get (ft_flows t) k of
         None \<Rightarrow> Some t
       | Some f \<Rightarrow> end_flow (upd_fc g (t\<lparr>ft_flows := hm_remove k (ft_flows t)\<rparr>)) f reason);
     remove_flows g reason ks t }"

definition flow_expired :: "flow_table \<Rightarrow> system_time \<Rightarrow> flow \<Rightarrow> bool" where
  "flow_expired t now f \<longleftrightarrow>
     flow_timeout (ft_limits t) \<le> unwrap_or (duration_since now (fl_last_seen f)) 0"

definition flow_sweep :: "flow_table \<Rightarrow> system_time \<Rightarrow> flow_table option" where
  "flow_sweep t now =
     (let t = t\<lparr>ft_last_sweep := Some now\<rparr>;
          expired = map fst (filter (\<lambda>(_, f). flow_expired t now f) (ft_flows t))
      in remove_flows (\<lambda>c. c\<lparr>fc_timed_out := fc_timed_out c + 1\<rparr>) TimedOut expired t)"

definition flow_maybe_sweep :: "flow_table \<Rightarrow> system_time \<Rightarrow> flow_table option" where
  "flow_maybe_sweep t now =
     (let due = (case ft_last_sweep t of None \<Rightarrow> True
        | Some swept \<Rightarrow> (case duration_since now swept of
            None \<Rightarrow> False | Some elapsed \<Rightarrow> flow_sweep_interval \<le> elapsed))
      in if due then flow_sweep t now else Some t)"

definition within_limits :: "flow_table \<Rightarrow> bool" where
  "within_limits t \<longleftrightarrow> length (ft_flows t) < max_flows (ft_limits t) \<and>
     ft_stream_bytes t < max_stream_bytes_total (ft_reassembly t)"

definition flow_make_room :: "flow_table \<Rightarrow> system_time \<Rightarrow> flow_table option" where
  "flow_make_room t now =
     (if within_limits t then Some t
      else do {
        t \<leftarrow> flow_sweep t now;
        if within_limits t then Some t
        else let batch = max (max_flows (ft_limits t) div eviction_batch_fraction) 1;
                 by_age = sort_key fst (map (\<lambda>(k, f). (fl_last_seen f, k)) (ft_flows t))
             in remove_flows (\<lambda>c. c\<lparr>fc_evicted := fc_evicted c + 1\<rparr>) Evicted
                  (map snd (take batch by_age)) t })"

fun end_all :: "flow list \<Rightarrow> flow_table \<Rightarrow> flow_table option" where
  "end_all [] t = Some t"
| "end_all (f # fs) t = do { t \<leftarrow> end_flow t f SensorStopped; end_all fs t }"

definition flow_flush :: "flow_table \<Rightarrow> flow_table option" where
  "flow_flush t = end_all (map snd (ft_flows t)) (t\<lparr>ft_flows := []\<rparr>)"

definition table_stream_counters :: "flow_table \<Rightarrow> stream_counters" where
  "table_stream_counters t = foldl (\<lambda>totals (_, f). case flow_stream_counters f of
       None \<Rightarrow> totals | Some c \<Rightarrow> merge_counters totals c)
     (ft_finished_stream_counters t) (ft_flows t)"

section \<open>Observing a packet\<close>

definition new_flow :: "reassembly_config \<Rightarrow> packet_summary \<Rightarrow> flow_key \<Rightarrow> flow" where
  "new_flow c p key = \<lparr>fl_id = derive_flow_id key (pk_timestamp p), fl_key = key,
     fl_initiator = pk_source p, fl_start = pk_timestamp p, fl_last_seen = pk_timestamp p,
     fl_to_server = default_dir_counters, fl_to_client = default_dir_counters,
     fl_tcp_flags_seen = 0, fl_fin_from_initiator = False, fl_fin_from_responder = False,
     fl_saw_reset = False,
     fl_streams = (if pk_protocol p = tcp_protocol then Some (pair_new c) else None)\<rparr>"

definition count_packet :: "packet_summary \<Rightarrow> dir_counters \<Rightarrow> dir_counters" where
  "count_packet p d = d\<lparr>dir_packets := dir_packets d + 1, dir_bytes := dir_bytes d + pk_frame_len p\<rparr>"

text \<open>The per-packet counters and times of the flow the packet belongs to.\<close>

definition touch_flow :: "packet_summary \<Rightarrow> bool \<Rightarrow> flow \<Rightarrow> flow" where
  "touch_flow p to_server f =
     (let f = (if to_server then f\<lparr>fl_to_server := count_packet p (fl_to_server f)\<rparr>
               else f\<lparr>fl_to_client := count_packet p (fl_to_client f)\<rparr>)
      in if fl_last_seen f < pk_timestamp p then f\<lparr>fl_last_seen := pk_timestamp p\<rparr> else f)"

text \<open>The segment of the packet, if any: the flow, what became ready, and whether a reset
  was ignored.\<close>

definition flow_segment :: "flow \<Rightarrow> bool \<Rightarrow> tcp_segment \<Rightarrow> (ip_addr \<Rightarrow> overlap_policy) \<Rightarrow> stream_ready \<Rightarrow>
    (flow \<times> stream_ready \<times> bool) option" where
  "flow_segment f to_server seg policy ready =
     (let f = f\<lparr>fl_tcp_flags_seen := fl_tcp_flags_seen f OR seg_flags seg\<rparr>;
          f = (if seg_has seg FIN
               then if to_server then f\<lparr>fl_fin_from_initiator := True\<rparr>
                    else f\<lparr>fl_fin_from_responder := True\<rparr>
               else f);
          policy_to_server = policy (fst (responder f));
          policy_to_client = policy (fst (fl_initiator f))
      in case fl_streams f of
           None \<Rightarrow> Some (if seg_has seg RST then f\<lparr>fl_saw_reset := True\<rparr> else f, ready, False)
         | Some streams \<Rightarrow> do {
             (streams, ready) \<leftarrow> pair_push streams to_server seg policy_to_server policy_to_client ready;
             let f = f\<lparr>fl_streams := Some streams\<rparr>;
             Some (if seg_has seg RST
               then if rst_should_close streams to_server (seg_sequence seg)
                    then (f\<lparr>fl_saw_reset := True\<rparr>, ready, False) else (f, ready, True)
               else (f, ready, False)) })"

definition observe :: "flow_table \<Rightarrow> packet_summary \<Rightarrow> (ip_addr \<Rightarrow> overlap_policy) \<Rightarrow> stream_ready \<Rightarrow>
    (flow_table \<times> stream_ready \<times> observed) option" where
  "observe t p policy ready = do {
     t \<leftarrow> flow_maybe_sweep t (pk_timestamp p);
     let key = flow_key_new (pk_protocol p) (pk_source p) (pk_destination p);
     let is_new = (\<not> hm_contains (ft_flows t) key);
     t \<leftarrow> (if is_new then flow_make_room t (pk_timestamp p) else Some t);
     let (t, f) = (case hm_get (ft_flows t) key of
         Some f \<Rightarrow> (t, f)
       | None \<Rightarrow> (upd_fc (\<lambda>c. c\<lparr>fc_created := fc_created c + 1\<rparr>) t, new_flow (ft_reassembly t) p key));
     let to_server = (pk_source p = fl_initiator f);
     let f = touch_flow p to_server f;
     let buffered_before = flow_buffered_bytes f;
     (f, ready, ignored) \<leftarrow> (case pk_tcp p of
         None \<Rightarrow> Some (f, ready, False)
       | Some seg \<Rightarrow> flow_segment f to_server seg policy ready);
     let t = (if ignored then upd_fc (\<lambda>c. c\<lparr>fc_resets_ignored := fc_resets_ignored c + 1\<rparr>) t else t);
     stream_bytes \<leftarrow> usub (ft_stream_bytes t + flow_buffered_bytes f) buffered_before;
     let t = t\<lparr>ft_stream_bytes := stream_bytes, ft_flows := hm_insert key f (ft_flows t)\<rparr>;
     t \<leftarrow> (if is_closed f
       then end_flow (upd_fc (\<lambda>c. c\<lparr>fc_closed := fc_closed c + 1\<rparr>)
              (t\<lparr>ft_flows := hm_remove key (ft_flows t)\<rparr>)) f Closed
       else Some t);
     Some (t, ready, \<lparr>ob_flow_id = fl_id f, ob_to_server = to_server, ob_is_new = is_new\<rparr>) }"

section \<open>The invariant\<close>

lemma upd_fc_simps [simp]:
  "ft_flows (upd_fc g t) = ft_flows t" "ft_limits (upd_fc g t) = ft_limits t"
  "ft_reassembly (upd_fc g t) = ft_reassembly t" "ft_stream_bytes (upd_fc g t) = ft_stream_bytes t"
  "ft_ended (upd_fc g t) = ft_ended t" "ft_last_sweep (upd_fc g t) = ft_last_sweep t"
  "ft_counters (upd_fc g t) = g (ft_counters t)"
  by (simp_all add: upd_fc_def)

text \<open>The per-direction byte limit every stream of the table is built with.\<close>

definition stream_limit :: "flow_table \<Rightarrow> nat" where
  "stream_limit t = max (max_stream_bytes_per_flow (ft_reassembly t)) 1"

definition flow_ok :: "nat \<Rightarrow> flow \<Rightarrow> bool" where
  "flow_ok bl f \<longleftrightarrow> (\<forall>p. fl_streams f = Some p \<longrightarrow> pair_wf bl p)"

definition ended_for :: "end_reason \<Rightarrow> ended_flow list \<Rightarrow> nat" where
  "ended_for r es = length (filter (\<lambda>e. ef_reason e = r) es)"

text \<open>Every flow ever created is in the table or has been handed over, with \<open>rep\<close> the ended
  flows the caller has already taken; the counters say why they ended.\<close>

definition balanced :: "ended_flow list \<Rightarrow> flow_table \<Rightarrow> bool" where
  "balanced rep t \<longleftrightarrow> (let es = rep @ ft_ended t; c = ft_counters t in
     fc_created c = length (ft_flows t) + length es \<and> fc_closed c = ended_for Closed es \<and>
     fc_timed_out c = ended_for TimedOut es \<and> fc_evicted c = ended_for Evicted es)"

definition flow_wf0 :: "ended_flow list \<Rightarrow> flow_table \<Rightarrow> bool" where
  "flow_wf0 rep t \<longleftrightarrow> hm_invar (ft_flows t) \<and>
     length (ft_flows t) \<le> max (max_flows (ft_limits t)) 1 \<and>
     (\<forall>k f. (k, f) \<in> set (ft_flows t) \<longrightarrow> fl_key f = k \<and> flow_ok (stream_limit t) f) \<and>
     ft_stream_bytes t = hm_sum flow_buffered_bytes (ft_flows t) \<and> balanced rep t"

text \<open>Between packets no closed flow is left in the table.\<close>

definition flow_wf :: "ended_flow list \<Rightarrow> flow_table \<Rightarrow> bool" where
  "flow_wf rep t \<longleftrightarrow> flow_wf0 rep t \<and> (\<forall>k f. (k, f) \<in> set (ft_flows t) \<longrightarrow> \<not> is_closed f)"

lemma with_reassembly_wf: "flow_wf [] (with_reassembly lim c)"
  by (simp add: flow_wf_def flow_wf0_def with_reassembly_def balanced_def Let_def default_flow_counters_def
      ended_for_def)

definition bumps :: "end_reason \<Rightarrow> (flow_counters \<Rightarrow> flow_counters) \<Rightarrow> bool" where
  "bumps r g \<longleftrightarrow> (\<forall>c. fc_created (g c) = fc_created c \<and>
     fc_closed (g c) = fc_closed c + (if r = Closed then 1 else 0) \<and>
     fc_timed_out (g c) = fc_timed_out c + (if r = TimedOut then 1 else 0) \<and>
     fc_evicted (g c) = fc_evicted c + (if r = Evicted then 1 else 0))"

lemma bumps_reasons:
  "bumps TimedOut (\<lambda>c. c\<lparr>fc_timed_out := fc_timed_out c + 1\<rparr>)"
  "bumps Evicted (\<lambda>c. c\<lparr>fc_evicted := fc_evicted c + 1\<rparr>)"
  "bumps Closed (\<lambda>c. c\<lparr>fc_closed := fc_closed c + 1\<rparr>)"
  "bumps SensorStopped (\<lambda>c. c)"
  by (simp_all add: bumps_def)

lemma end_flow_result:
  assumes "flow_ok bl f"
  shows "\<exists>t' e. end_flow t f reason = Some t' \<and> ft_flows t' = ft_flows t \<and> ft_limits t' = ft_limits t \<and>
    ft_reassembly t' = ft_reassembly t \<and> ft_counters t' = ft_counters t \<and>
    ft_last_sweep t' = ft_last_sweep t \<and>
    ft_stream_bytes t' = ft_stream_bytes t - flow_buffered_bytes f \<and>
    ft_ended t' = ft_ended t @ [e] \<and> ef_reason e = reason \<and>
    fl_id (ef_flow e) = fl_id f \<and> fl_key (ef_flow e) = fl_key f"
proof (cases "fl_streams f")
  case None
  then show ?thesis by (simp add: end_flow_def)
next
  case (Some p)
  with assms have "pair_wf bl p" by (simp add: flow_ok_def)
  with Some show ?thesis
    using pair_flush_total [of bl p default_ready] by (auto simp: end_flow_def)
qed

text \<open>What the loops leave of the table.\<close>

definition kept :: "flow_table \<Rightarrow> flow_table \<Rightarrow> bool" where
  "kept t t' \<longleftrightarrow> set (ft_flows t') \<subseteq> set (ft_flows t) \<and> length (ft_flows t') \<le> length (ft_flows t) \<and>
     ft_limits t' = ft_limits t \<and> ft_reassembly t' = ft_reassembly t \<and>
     fc_created (ft_counters t') = fc_created (ft_counters t)"

lemma kept_refl: "kept t t"
  by (simp add: kept_def)

lemma kept_trans: "kept t t' \<Longrightarrow> kept t' t'' \<Longrightarrow> kept t t''"
  by (auto simp: kept_def)

lemma ended_for_snoc: "ended_for r (es @ [e]) = ended_for r es + (if ef_reason e = r then 1 else 0)"
  by (simp add: ended_for_def)

lemma drop_flow0:
  assumes wf: "flow_wf0 rep t" and get: "hm_get (ft_flows t) k = Some f" and g: "bumps reason g"
  shows "\<exists>t'. end_flow (upd_fc g (t\<lparr>ft_flows := hm_remove k (ft_flows t)\<rparr>)) f reason = Some t' \<and>
    flow_wf0 rep t' \<and> kept t t' \<and> hm_get (ft_flows t') = (hm_get (ft_flows t))(k := None)"
proof -
  let ?m = "hm_remove k (ft_flows t)"
  let ?t = "upd_fc g (t\<lparr>ft_flows := ?m\<rparr>)"
  have inv: "hm_invar (ft_flows t)" using wf by (simp add: flow_wf0_def)
  have ok: "flow_ok (stream_limit t) f"
    using wf hm_get_in_set [OF get] by (auto simp: flow_wf0_def)
  obtain t' e where t': "end_flow ?t f reason = Some t'" "ft_flows t' = ?m" "ft_limits t' = ft_limits t"
      "ft_reassembly t' = ft_reassembly t" "ft_counters t' = g (ft_counters t)"
      "ft_stream_bytes t' = ft_stream_bytes t - flow_buffered_bytes f"
      "ft_ended t' = ft_ended t @ [e]" "ef_reason e = reason"
    using end_flow_result [OF ok, of ?t reason] by auto
  have len: "Suc (length ?m) = length (ft_flows t)"
    using hm.size_remove [OF inv, of k] hm.size_pos [OF inv, of k] get by simp
  have sub: "set ?m \<subseteq> set (ft_flows t)" using hm_set_remove by fastforce
  have sum: "hm_sum flow_buffered_bytes (ft_flows t) = flow_buffered_bytes f + hm_sum flow_buffered_bytes ?m"
    by (rule hm_sum_remove [OF inv get])
  have lim: "stream_limit t' = stream_limit t" using t' by (simp add: stream_limit_def)
  have c: "fc_created (ft_counters t') = fc_created (ft_counters t)"
    using t'(5) g by (simp add: bumps_def)
  have app: "rep @ ft_ended t @ [e] = (rep @ ft_ended t) @ [e]" by simp
  have bal: "balanced rep t'"
    using wf g t'(2,5,7,8) len
    by (simp add: flow_wf0_def balanced_def Let_def bumps_def app ended_for_snoc del: append_assoc)
  have "flow_wf0 rep t'"
    using wf t'(2,3,6) len sub sum bal lim inv by (auto simp: flow_wf0_def)
  moreover have "kept t t'"
    using t'(2,3,4) len sub c by (simp add: kept_def)
  ultimately show ?thesis using t'(1,2) hm.get_remove [OF inv, of k] by auto
qed

lemma drop_flow:
  assumes "flow_wf rep t" "hm_get (ft_flows t) k = Some f" "bumps reason g"
  shows "\<exists>t'. end_flow (upd_fc g (t\<lparr>ft_flows := hm_remove k (ft_flows t)\<rparr>)) f reason = Some t' \<and>
    flow_wf rep t' \<and> kept t t' \<and> hm_get (ft_flows t') = (hm_get (ft_flows t))(k := None)"
  using assms drop_flow0 [of rep t k f reason g] by (fastforce simp: flow_wf_def kept_def)

lemma remove_flows_result:
  assumes "flow_wf rep t" "bumps reason g"
  shows "\<exists>t'. remove_flows g reason ks t = Some t' \<and> flow_wf rep t' \<and> kept t t' \<and>
    (\<forall>k. hm_get (ft_flows t') k = (if k \<in> set ks then None else hm_get (ft_flows t) k))"
  using assms(1)
proof (induction ks arbitrary: t)
  case Nil
  then show ?case by (simp add: kept_refl)
next
  case (Cons k ks)
  obtain t1 where t1: "(case hm_get (ft_flows t) k of None \<Rightarrow> Some t
       | Some f \<Rightarrow> end_flow (upd_fc g (t\<lparr>ft_flows := hm_remove k (ft_flows t)\<rparr>)) f reason) = Some t1"
      "flow_wf rep t1" "kept t t1" "hm_get (ft_flows t1) = (hm_get (ft_flows t))(k := None)"
    using Cons.prems drop_flow [OF Cons.prems _ assms(2), of k]
    by (cases "hm_get (ft_flows t) k") (auto simp: kept_refl fun_upd_idem)
  from Cons.IH [OF t1(2)] t1 show ?case by (auto intro: kept_trans)
qed

lemma flow_wf_last_sweep [simp]: "flow_wf rep (t\<lparr>ft_last_sweep := x\<rparr>) = flow_wf rep t"
  by (simp add: flow_wf_def flow_wf0_def balanced_def stream_limit_def)

lemma flow_sweep_result:
  assumes wf: "flow_wf rep t"
  shows "\<exists>t'. flow_sweep t now = Some t' \<and> flow_wf rep t' \<and> kept t t' \<and>
    (\<forall>k. hm_get (ft_flows t') k = (case hm_get (ft_flows t) k of None \<Rightarrow> None
       | Some f \<Rightarrow> if flow_expired t now f then None else Some f))"
proof -
  let ?t = "t\<lparr>ft_last_sweep := Some now\<rparr>"
  let ?ks = "map fst (filter (\<lambda>(_, f). flow_expired ?t now f) (ft_flows ?t))"
  have inv: "hm_invar (ft_flows t)" using wf by (simp add: flow_wf_def flow_wf0_def)
  have ex: "flow_expired ?t now f = flow_expired t now f" for f
    by (simp add: flow_expired_def)
  have mem: "k \<in> set ?ks \<longleftrightarrow> (\<exists>f. hm_get (ft_flows t) k = Some f \<and> flow_expired t now f)" for k
    using hm_in_set_get [OF inv] hm_get_in_set by (force simp: ex)
  obtain t' where t': "remove_flows (\<lambda>c. c\<lparr>fc_timed_out := fc_timed_out c + 1\<rparr>) TimedOut ?ks ?t = Some t'"
      "flow_wf rep t'" "kept ?t t'"
      "\<And>k. hm_get (ft_flows t') k = (if k \<in> set ?ks then None else hm_get (ft_flows ?t) k)"
    using remove_flows_result [OF _ bumps_reasons(1), of rep ?t ?ks] wf by auto
  have "hm_get (ft_flows t') k = (case hm_get (ft_flows t) k of None \<Rightarrow> None
      | Some f \<Rightarrow> if flow_expired t now f then None else Some f)" for k
    unfolding t'(4) mem by (auto split: option.splits)
  moreover have "kept t t'" using t'(3) by (simp add: kept_def)
  ultimately show ?thesis using t'(1,2) by (simp add: flow_sweep_def Let_def)
qed

text \<open>A flow that has not been idle for the timeout survives the sweep a packet triggers.\<close>

lemma flow_maybe_sweep_result:
  assumes wf: "flow_wf rep t"
  shows "\<exists>t'. flow_maybe_sweep t now = Some t' \<and> flow_wf rep t' \<and> kept t t' \<and>
    (\<forall>k f. hm_get (ft_flows t) k = Some f \<longrightarrow> \<not> flow_expired t now f \<longrightarrow>
       hm_get (ft_flows t') k = Some f)"
  using flow_sweep_result [OF wf, of now] wf
  by (auto simp: flow_maybe_sweep_def Let_def kept_refl)

lemma kept_get:
  "flow_wf rep t \<Longrightarrow> kept t t' \<Longrightarrow> hm_get (ft_flows t') k = Some f \<Longrightarrow> hm_get (ft_flows t) k = Some f"
  using hm_get_in_set hm_in_set_get by (fastforce simp: flow_wf_def flow_wf0_def kept_def)

lemma flow_make_room_result:
  assumes wf: "flow_wf rep t"
  shows "\<exists>t'. flow_make_room t now = Some t' \<and> flow_wf rep t' \<and> kept t t' \<and>
    length (ft_flows t') < max (max_flows (ft_limits t)) 1"
proof (cases "within_limits t")
  case True
  with wf show ?thesis by (auto simp: flow_make_room_def kept_refl within_limits_def)
next
  case False
  obtain s where s: "flow_sweep t now = Some s" "flow_wf rep s" "kept t s"
    using flow_sweep_result [OF wf, of now] by blast
  let ?by = "sort_key fst (map (\<lambda>(k, f). (fl_last_seen f, k)) (ft_flows s))"
  let ?ks = "map snd (take (max (max_flows (ft_limits s) div eviction_batch_fraction) 1) ?by)"
  obtain t' where t': "remove_flows (\<lambda>c. c\<lparr>fc_evicted := fc_evicted c + 1\<rparr>) Evicted ?ks s = Some t'"
      "flow_wf rep t'" "kept s t'"
      "\<And>k. hm_get (ft_flows t') k = (if k \<in> set ?ks then None else hm_get (ft_flows s) k)"
    using remove_flows_result [OF s(2) bumps_reasons(2), of ?ks] by blast
  have lim: "ft_limits s = ft_limits t" using s(3) by (simp add: kept_def)
  have len: "length (ft_flows s) \<le> max (max_flows (ft_limits t)) 1"
    using s(2) lim by (simp add: flow_wf_def flow_wf0_def)
  have "length (ft_flows t') < max (max_flows (ft_limits t)) 1"
  proof (cases "ft_flows s = []")
    case True
    with t'(3) show ?thesis by (simp add: kept_def)
  next
    case ne: False
    have "length ?by = length (ft_flows s)" by simp
    with ne have "?by \<noteq> []" by (metis length_greater_0_conv)
    then obtain a k rest where srt: "?by = (a, k) # rest" by (cases ?by) auto
    have "(a, k) \<in> set (map (\<lambda>(k, f). (fl_last_seen f, k)) (ft_flows s))"
      using srt by (metis list.set_intros(1) set_sort)
    then obtain f where "(k, f) \<in> set (ft_flows s)" by auto
    then have present: "hm_get (ft_flows s) k \<noteq> None"
      by (auto dest: weak_map_of_SomeI)
    have "k \<in> set ?ks" unfolding srt by (simp add: take_Cons')
    then have gone: "hm_get (ft_flows t') k = None" using t'(4) by simp
    have "dom (hm_get (ft_flows t')) \<subset> dom (hm_get (ft_flows s))"
      using t'(4) present gone by (auto simp: dom_def split: if_splits)
    then have "card (dom (hm_get (ft_flows t'))) < card (dom (hm_get (ft_flows s)))"
      by (intro psubset_card_mono finite_dom_map_of)
    then have "length (ft_flows t') < length (ft_flows s)"
      using s(2) t'(2) by (simp add: hm_len_dom flow_wf_def flow_wf0_def)
    with len show ?thesis by simp
  qed
  then show ?thesis
    using False s t' lim kept_trans [OF s(3) t'(3)] kept_refl
    by (cases "within_limits s") (auto simp: flow_make_room_def Let_def within_limits_def)
qed

section \<open>Observing keeps the invariant\<close>

lemma touch_flow_simps [simp]:
  "fl_id (touch_flow p b f) = fl_id f" "fl_key (touch_flow p b f) = fl_key f"
  "fl_initiator (touch_flow p b f) = fl_initiator f" "fl_streams (touch_flow p b f) = fl_streams f"
  "is_closed (touch_flow p b f) = is_closed f"
  "fl_last_seen (touch_flow p b f) = max (fl_last_seen f) (pk_timestamp p)"
  by (simp_all add: touch_flow_def Let_def is_closed_def)

lemma flow_ok_touch [simp]: "flow_ok bl (touch_flow p b f) = flow_ok bl f"
  by (simp add: flow_ok_def)

lemma new_flow_ok: "flow_ok (stream_limit t) (new_flow (ft_reassembly t) p key)"
  using pair_new_wf [of "ft_reassembly t"] by (simp add: flow_ok_def new_flow_def stream_limit_def)

lemma responder_simps [simp]:
  "responder (f\<lparr>fl_tcp_flags_seen := x\<rparr>) = responder f"
  "responder (f\<lparr>fl_fin_from_initiator := b\<rparr>) = responder f"
  "responder (f\<lparr>fl_fin_from_responder := b\<rparr>) = responder f"
  by (simp_all add: responder_def)

lemma flow_segment_result:
  assumes "flow_ok bl f"
  shows "\<exists>f' ready' ignored. flow_segment f to_server seg policy ready = Some (f', ready', ignored) \<and>
    flow_ok bl f' \<and> fl_id f' = fl_id f \<and> fl_key f' = fl_key f \<and> fl_initiator f' = fl_initiator f \<and>
    fl_last_seen f' = fl_last_seen f"
proof (cases "fl_streams f")
  case None
  then show ?thesis by (auto simp: flow_segment_def Let_def flow_ok_def)
next
  case (Some p)
  with assms have wf: "pair_wf bl p" by (simp add: flow_ok_def)
  obtain p' ready' where "pair_push p to_server seg (policy (fst (responder f)))
      (policy (fst (fl_initiator f))) ready = Some (p', ready')" "pair_wf bl p'"
    using pair_push_total [OF wf] by blast
  with Some show ?thesis by (auto simp: flow_segment_def Let_def flow_ok_def)
qed

text \<open>The table and flow a packet is charged to, after sweeping and making room.\<close>

definition charged :: "ended_flow list \<Rightarrow> flow_key \<Rightarrow> packet_summary \<Rightarrow> flow_table \<Rightarrow> flow_table \<Rightarrow> flow \<Rightarrow> bool" where
  "charged rep key p t u f \<longleftrightarrow> flow_wf rep t \<and>
     (hm_get (ft_flows t) key = Some f \<and> u = t \<or>
      hm_get (ft_flows t) key = None \<and> length (ft_flows t) < max (max_flows (ft_limits t)) 1 \<and>
        u = upd_fc (\<lambda>c. c\<lparr>fc_created := fc_created c + 1\<rparr>) t \<and> f = new_flow (ft_reassembly t) p key)"

lemma new_flow_simps [simp]:
  "fl_key (new_flow c p key) = key" "fl_initiator (new_flow c p key) = pk_source p"
  "\<not> is_closed (new_flow c p key)" "flow_buffered_bytes (new_flow c p key) = 0"
  "fl_id (new_flow c p key) = derive_flow_id key (pk_timestamp p)"
  by (simp_all add: new_flow_def is_closed_def flow_buffered_bytes_def pair_new_def Let_def
      pair_buffered_bytes_def stream_buffered_bytes_def stream_new_def)
    (simp add: rb_new_def buffered_bytes_def)

lemma charged_flow:
  assumes "charged rep key p t u f"
  shows "fl_key f = key" "flow_ok (stream_limit t) f" "flow_buffered_bytes f \<le> ft_stream_bytes u"
proof -
  have inv: "hm_invar (ft_flows t)" using assms by (simp add: charged_def flow_wf_def flow_wf0_def)
  show "fl_key f = key" "flow_ok (stream_limit t) f" "flow_buffered_bytes f \<le> ft_stream_bytes u"
    using assms hm_get_in_set [of "ft_flows t" key f] new_flow_ok [of t p key]
      hm_sum_remove [OF inv, of key f flow_buffered_bytes]
    by (auto simp: charged_def flow_wf_def flow_wf0_def)
qed

text \<open>Writing the charged flow back keeps the running byte total exact.\<close>

lemma commit_flow:
  assumes ch: "charged rep key p t u f" and f': "flow_ok (stream_limit t) f'" "fl_key f' = key"
    and v: "v = (upd_fc g u)\<lparr>ft_stream_bytes := ft_stream_bytes u + flow_buffered_bytes f' - flow_buffered_bytes f,
      ft_flows := hm_insert key f' (ft_flows u)\<rparr>"
    and g: "\<And>c. fc_created (g c) = fc_created c \<and> fc_closed (g c) = fc_closed c \<and>
      fc_timed_out (g c) = fc_timed_out c \<and> fc_evicted (g c) = fc_evicted c"
  shows "flow_wf0 rep v" "hm_get (ft_flows v) = (hm_get (ft_flows t))(key \<mapsto> f')"
proof -
  have wf: "flow_wf0 rep t" using ch by (simp add: charged_def flow_wf_def)
  then have inv: "hm_invar (ft_flows t)" by (simp add: flow_wf0_def)
  have u: "ft_flows u = ft_flows t" "ft_limits u = ft_limits t" "ft_reassembly u = ft_reassembly t"
      "ft_stream_bytes u = ft_stream_bytes t" "ft_ended u = ft_ended t"
    using ch by (auto simp: charged_def)
  let ?m = "hm_insert key f' (ft_flows t)"
  show "hm_get (ft_flows v) = (hm_get (ft_flows t))(key \<mapsto> f')"
    by (simp add: v u hm.get_insert [OF inv])
  have size: "length ?m = (if hm_get (ft_flows t) key = None then Suc (length (ft_flows t))
      else length (ft_flows t))"
    by (rule hm.size_insert [OF inv])
  have sum: "hm_sum flow_buffered_bytes ?m =
      ft_stream_bytes t + flow_buffered_bytes f' - flow_buffered_bytes f"
    using ch wf hm_sum_insert_new [of "ft_flows t" key flow_buffered_bytes f']
      hm_sum_insert_old [OF inv, of key f flow_buffered_bytes f']
    by (auto simp: charged_def flow_wf0_def)
  have len: "length ?m \<le> max (max_flows (ft_limits t)) 1"
    using size ch wf by (auto simp: charged_def flow_wf0_def)
  have bal: "balanced rep v"
    using size ch wf g by (auto simp: v u charged_def flow_wf0_def balanced_def Let_def)
  have lim: "stream_limit v = stream_limit t" by (simp add: v u stream_limit_def)
  have "fl_key x = k \<and> flow_ok (stream_limit t) x" if "(k, x) \<in> set ?m" for k x
    using hm_set_insert [OF that] wf f' by (auto simp: flow_wf0_def)
  then show "flow_wf0 rep v"
    using inv len sum bal lim by (simp add: flow_wf0_def v u)
qed

text \<open>The tail of \<open>observe\<close>: the flow is written back, or ends if the packet closed it.\<close>

lemma finish_flow:
  assumes ch: "charged rep key p t u f" and v: "flow_wf0 rep v"
    "hm_get (ft_flows v) = (hm_get (ft_flows t))(key \<mapsto> f')"
  shows "\<exists>w. (if is_closed f'
       then end_flow (upd_fc (\<lambda>c. c\<lparr>fc_closed := fc_closed c + 1\<rparr>)
              (v\<lparr>ft_flows := hm_remove key (ft_flows v)\<rparr>)) f' Closed
       else Some v) = Some w \<and> flow_wf rep w \<and> ft_limits w = ft_limits v \<and>
       ft_reassembly w = ft_reassembly v \<and>
       hm_get (ft_flows w) = (hm_get (ft_flows t))(key := if is_closed f' then None else Some f')"
proof -
  have inv: "hm_invar (ft_flows v)" using v(1) by (simp add: flow_wf0_def)
  have other: "\<not> is_closed x" if "(k, x) \<in> set (ft_flows v)" "k \<noteq> key" for k x
  proof -
    have "hm_get (ft_flows t) k = Some x" using hm_in_set_get [OF inv that(1)] v(2) that(2) by simp
    then show ?thesis using ch hm_get_in_set by (fastforce simp: charged_def flow_wf_def)
  qed
  show ?thesis
  proof (cases "is_closed f'")
    case True
    obtain w where w: "end_flow (upd_fc (\<lambda>c. c\<lparr>fc_closed := fc_closed c + 1\<rparr>)
        (v\<lparr>ft_flows := hm_remove key (ft_flows v)\<rparr>)) f' Closed = Some w" "flow_wf0 rep w" "kept v w"
        "hm_get (ft_flows w) = (hm_get (ft_flows v))(key := None)"
      using drop_flow0 [OF v(1) _ bumps_reasons(3), of key f'] v(2) by auto
    have "\<not> is_closed x" if x: "(k, x) \<in> set (ft_flows w)" for k x
    proof -
      have "hm_get (ft_flows w) k = Some x"
        using x w(2) by (intro hm_in_set_get) (auto simp: flow_wf0_def)
      then have "k \<noteq> key" using w(4) by auto
      then show ?thesis using other x w(3) by (auto simp: kept_def)
    qed
    with w True v(2) show ?thesis by (auto simp: flow_wf_def kept_def)
  next
    case False
    have "\<not> is_closed x" if "(k, x) \<in> set (ft_flows v)" for k x
      using other [OF that] hm_in_set_get [OF inv that] v(2) False by (cases "k = key") auto
    with v False show ?thesis by (auto simp: flow_wf_def)
  qed
qed

definition packet_key :: "packet_summary \<Rightarrow> flow_key" where
  "packet_key p = flow_key_new (pk_protocol p) (pk_source p) (pk_destination p)"

text \<open>Which flow a packet belongs to: the live one under its key, unless it has been idle for
  the timeout, and otherwise a new one.\<close>

definition attributed :: "flow_table \<Rightarrow> packet_summary \<Rightarrow> observed \<Rightarrow> bool" where
  "attributed t p ob \<longleftrightarrow> (case hm_get (ft_flows t) (packet_key p) of
     None \<Rightarrow> ob = \<lparr>ob_flow_id = derive_flow_id (packet_key p) (pk_timestamp p), ob_to_server = True,
       ob_is_new = True\<rparr>
   | Some f \<Rightarrow> flow_expired t (pk_timestamp p) f \<or>
       ob = \<lparr>ob_flow_id = fl_id f, ob_to_server = (pk_source p = fl_initiator f), ob_is_new = False\<rparr>)"

lemma charge_exists:
  assumes wf: "flow_wf rep t"
  shows "\<exists>t1 t2 u f. flow_maybe_sweep t (pk_timestamp p) = Some t1 \<and>
    (if \<not> hm_contains (ft_flows t1) (packet_key p) then flow_make_room t1 (pk_timestamp p)
     else Some t1) = Some t2 \<and>
    (case hm_get (ft_flows t2) (packet_key p) of Some f \<Rightarrow> (t2, f)
     | None \<Rightarrow> (upd_fc (\<lambda>c. c\<lparr>fc_created := fc_created c + 1\<rparr>) t2,
         new_flow (ft_reassembly t2) p (packet_key p))) = (u, f) \<and>
    charged rep (packet_key p) p t2 u f \<and> kept t t2 \<and>
    attributed t p \<lparr>ob_flow_id = fl_id f, ob_to_server = (pk_source p = fl_initiator f),
      ob_is_new = (\<not> hm_contains (ft_flows t1) (packet_key p))\<rparr>"
proof -
  let ?k = "packet_key p"
  obtain t1 where t1: "flow_maybe_sweep t (pk_timestamp p) = Some t1" "flow_wf rep t1" "kept t t1"
      "\<And>k f. hm_get (ft_flows t) k = Some f \<Longrightarrow> \<not> flow_expired t (pk_timestamp p) f \<Longrightarrow>
        hm_get (ft_flows t1) k = Some f"
    using flow_maybe_sweep_result [OF wf, of "pk_timestamp p"] by blast
  show ?thesis
  proof (cases "hm_get (ft_flows t1) ?k")
    case (Some f)
    have "hm_get (ft_flows t) ?k = Some f" by (rule kept_get [OF wf t1(3) Some])
    with Some t1 show ?thesis
      by (auto simp: hm_contains_def charged_def attributed_def)
  next
    case None
    obtain t2 where t2: "flow_make_room t1 (pk_timestamp p) = Some t2" "flow_wf rep t2" "kept t1 t2"
        "length (ft_flows t2) < max (max_flows (ft_limits t1)) 1"
      using flow_make_room_result [OF t1(2), of "pk_timestamp p"] by blast
    have gone: "hm_get (ft_flows t2) ?k = None"
      using kept_get [OF t1(2) t2(3), of ?k] None by (cases "hm_get (ft_flows t2) ?k") auto
    have "ft_limits t2 = ft_limits t1" using t2(3) by (simp add: kept_def)
    moreover have "attributed t p \<lparr>ob_flow_id = derive_flow_id ?k (pk_timestamp p), ob_to_server = True,
        ob_is_new = True\<rparr>"
      using t1(4) [of ?k] None by (auto simp: attributed_def split: option.splits)
    ultimately show ?thesis
      using t1 t2 None gone kept_trans [OF t1(3) t2(3)] by (simp add: hm_contains_def charged_def)
  qed
qed

lemma observe_result:
  assumes wf: "flow_wf rep t"
  shows "\<exists>t' ready' ob. observe t p policy ready = Some (t', ready', ob) \<and> flow_wf rep t' \<and>
    ft_limits t' = ft_limits t \<and> ft_reassembly t' = ft_reassembly t \<and> attributed t p ob"
proof -
  let ?k = "packet_key p"
  obtain t1 t2 u f where pre: "flow_maybe_sweep t (pk_timestamp p) = Some t1"
      "(if \<not> hm_contains (ft_flows t1) ?k then flow_make_room t1 (pk_timestamp p) else Some t1) = Some t2"
      "(case hm_get (ft_flows t2) ?k of Some f \<Rightarrow> (t2, f)
        | None \<Rightarrow> (upd_fc (\<lambda>c. c\<lparr>fc_created := fc_created c + 1\<rparr>) t2,
            new_flow (ft_reassembly t2) p ?k)) = (u, f)"
    and ch: "charged rep ?k p t2 u f" and kept: "kept t t2"
    and att: "attributed t p \<lparr>ob_flow_id = fl_id f, ob_to_server = (pk_source p = fl_initiator f),
      ob_is_new = (\<not> hm_contains (ft_flows t1) ?k)\<rparr>"
    using charge_exists [OF wf, of p] by blast
  note fl = charged_flow [OF ch]
  let ?ts = "pk_source p = fl_initiator f"
  let ?f1 = "touch_flow p ?ts f"
  obtain f2 ready2 ignored where seg: "(case pk_tcp p of None \<Rightarrow> Some (?f1, ready, False)
       | Some seg \<Rightarrow> flow_segment ?f1 ?ts seg policy ready) = Some (f2, ready2, ignored)"
      "flow_ok (stream_limit t2) f2" "fl_id f2 = fl_id f" "fl_key f2 = ?k"
    using fl flow_segment_result [of "stream_limit t2" ?f1 ?ts _ policy ready]
    by (cases "pk_tcp p") fastforce+
  have buf: "flow_buffered_bytes ?f1 = flow_buffered_bytes f" by (simp add: flow_buffered_bytes_def)
  let ?g = "if ignored then (\<lambda>c. c\<lparr>fc_resets_ignored := fc_resets_ignored c + 1\<rparr>) else (\<lambda>c. c)"
  define v where "v = (upd_fc ?g u)\<lparr>
      ft_stream_bytes := ft_stream_bytes u + flow_buffered_bytes f2 - flow_buffered_bytes f,
      ft_flows := hm_insert ?k f2 (ft_flows u)\<rparr>"
  have v: "flow_wf0 rep v" "hm_get (ft_flows v) = (hm_get (ft_flows t2))(?k \<mapsto> f2)"
    using commit_flow [OF ch seg(2,4) v_def] by auto
  obtain w where w: "(if is_closed f2
       then end_flow (upd_fc (\<lambda>c. c\<lparr>fc_closed := fc_closed c + 1\<rparr>)
              (v\<lparr>ft_flows := hm_remove ?k (ft_flows v)\<rparr>)) f2 Closed
       else Some v) = Some w" "flow_wf rep w" "ft_limits w = ft_limits v" "ft_reassembly w = ft_reassembly v"
    using finish_flow [OF ch v] by blast
  have sub: "usub (ft_stream_bytes u + flow_buffered_bytes f2) (flow_buffered_bytes f) =
      Some (ft_stream_bytes u + flow_buffered_bytes f2 - flow_buffered_bytes f)"
    using fl(3) by (simp add: usub_def)
  have ign: "(if ignored then upd_fc (\<lambda>c. c\<lparr>fc_resets_ignored := fc_resets_ignored c + 1\<rparr>) u else u) = upd_fc ?g u"
    by (simp add: upd_fc_def)
  have "observe t p policy ready = Some (w, ready2, \<lparr>ob_flow_id = fl_id f,
      ob_to_server = ?ts, ob_is_new = (\<not> hm_contains (ft_flows t1) ?k)\<rparr>)"
    unfolding observe_def Let_def packet_key_def [symmetric] pre(1) Option.bind.simps pre(2) pre(3)
      prod.case seg(1) buf ign upd_fc_simps sub v_def [symmetric] w(1) seg(3) ..
  moreover have "ft_limits w = ft_limits t" "ft_reassembly w = ft_reassembly t"
    using w(3,4) kept ch by (auto simp: v_def kept_def charged_def)
  ultimately show ?thesis using w(2) att by blast
qed

lemma end_all_result:
  assumes "\<forall>f \<in> set fs. flow_ok bl f"
  shows "\<exists>t' es. end_all fs t = Some t' \<and> ft_flows t' = ft_flows t \<and> ft_limits t' = ft_limits t \<and>
    ft_reassembly t' = ft_reassembly t \<and> ft_counters t' = ft_counters t \<and>
    ft_stream_bytes t' = ft_stream_bytes t - sum_list (map flow_buffered_bytes fs) \<and>
    ft_ended t' = ft_ended t @ es \<and> length es = length fs \<and> (\<forall>e \<in> set es. ef_reason e = SensorStopped)"
  using assms
proof (induction fs arbitrary: t)
  case Nil
  then show ?case by simp
next
  case (Cons f fs)
  obtain t1 e where t1: "end_flow t f SensorStopped = Some t1" "ft_flows t1 = ft_flows t"
      "ft_limits t1 = ft_limits t" "ft_reassembly t1 = ft_reassembly t" "ft_counters t1 = ft_counters t"
      "ft_stream_bytes t1 = ft_stream_bytes t - flow_buffered_bytes f"
      "ft_ended t1 = ft_ended t @ [e]" "ef_reason e = SensorStopped"
    using end_flow_result [of bl f t SensorStopped] Cons.prems by auto
  from Cons.IH [of t1] Cons.prems obtain t' es where
    t': "end_all fs t1 = Some t'" "ft_flows t' = ft_flows t1" "ft_limits t' = ft_limits t1"
      "ft_reassembly t' = ft_reassembly t1" "ft_counters t' = ft_counters t1"
      "ft_stream_bytes t' = ft_stream_bytes t1 - sum_list (map flow_buffered_bytes fs)"
      "ft_ended t' = ft_ended t1 @ es" "length es = length fs" "\<forall>e \<in> set es. ef_reason e = SensorStopped"
    by auto
  from t1 t' show ?case by (intro exI [of _ t'] exI [of _ "e # es"]) auto
qed

lemma flow_flush_result:
  assumes wf: "flow_wf rep t"
  shows "\<exists>t'. flow_flush t = Some t' \<and> flow_wf rep t' \<and> ft_flows t' = [] \<and>
    ft_limits t' = ft_limits t \<and> ft_reassembly t' = ft_reassembly t"
proof -
  have ok: "\<forall>f \<in> set (map snd (ft_flows t)). flow_ok (stream_limit t) f"
    using wf by (auto simp: flow_wf_def flow_wf0_def)
  have sum: "sum_list (map flow_buffered_bytes (map snd (ft_flows t))) = ft_stream_bytes t"
    using wf by (simp add: flow_wf_def flow_wf0_def hm_sum_def comp_def case_prod_unfold)
  obtain t' es where t': "flow_flush t = Some t'" "ft_flows t' = []" "ft_limits t' = ft_limits t"
      "ft_reassembly t' = ft_reassembly t" "ft_counters t' = ft_counters t" "ft_stream_bytes t' = 0"
      "ft_ended t' = ft_ended t @ es" "length es = length (ft_flows t)"
      "\<forall>e \<in> set es. ef_reason e = SensorStopped"
    using end_all_result [OF ok, of "t\<lparr>ft_flows := []\<rparr>"] sum by (auto simp: flow_flush_def)
  have "ended_for r (xs @ es) = ended_for r xs" if "r \<noteq> SensorStopped" for r xs
    using t'(9) that by (auto simp: ended_for_def filter_empty_conv)
  then have "ended_for r (rep @ ft_ended t @ es) = ended_for r (rep @ ft_ended t)"
    if "r \<noteq> SensorStopped" for r
    using that by (metis append_assoc)
  then have "balanced rep t'"
    using wf t' by (simp add: flow_wf_def flow_wf0_def balanced_def Let_def)
  with t' show ?thesis by (simp add: flow_wf_def flow_wf0_def)
qed

section \<open>Any traffic\<close>

datatype flow_op = Observe packet_summary | SweepFlows system_time | FlushFlows | TakeEnded

text \<open>The table with the ended flows the caller has taken so far.\<close>

type_synonym flow_run = "(flow_table \<times> ended_flow list) option"

fun flow_step :: "(ip_addr \<Rightarrow> overlap_policy) \<Rightarrow> flow_run \<Rightarrow> flow_op \<Rightarrow> flow_run" where
  "flow_step policy None op = None"
| "flow_step policy (Some (t, rep)) (Observe p) =
     map_option (\<lambda>(t, ready, ob). (t, rep)) (observe t p policy default_ready)"
| "flow_step policy (Some (t, rep)) (SweepFlows now) = map_option (\<lambda>t. (t, rep)) (flow_sweep t now)"
| "flow_step policy (Some (t, rep)) FlushFlows = map_option (\<lambda>t. (t, rep)) (flow_flush t)"
| "flow_step policy (Some (t, rep)) TakeEnded = Some (t\<lparr>ft_ended := []\<rparr>, rep @ ft_ended t)"

definition flow_safe :: "limits \<Rightarrow> reassembly_config \<Rightarrow> flow_run \<Rightarrow> bool" where
  "flow_safe lim c s \<longleftrightarrow> (case s of None \<Rightarrow> False
     | Some (t, rep) \<Rightarrow> flow_wf rep t \<and> ft_limits t = lim \<and> ft_reassembly t = c)"

lemma flow_step_safe: "flow_safe lim c s \<Longrightarrow> flow_safe lim c (flow_step policy s op)"
proof (cases s; cases op)
  fix tr p
  assume "s = Some tr" "op = Observe p" "flow_safe lim c s"
  then show ?thesis using observe_result [of "snd tr" "fst tr" p policy default_ready]
    by (cases tr) (auto simp: flow_safe_def)
next
  fix tr now
  assume "s = Some tr" "op = SweepFlows now" "flow_safe lim c s"
  then show ?thesis using flow_sweep_result [of "snd tr" "fst tr" now]
    by (cases tr) (auto simp: flow_safe_def kept_def)
next
  fix tr
  assume "s = Some tr" "op = FlushFlows" "flow_safe lim c s"
  then show ?thesis using flow_flush_result [of "snd tr" "fst tr"]
    by (cases tr) (auto simp: flow_safe_def)
next
  fix tr
  assume "s = Some tr" "op = TakeEnded" "flow_safe lim c s"
  then show ?thesis
    by (cases tr) (auto simp: flow_safe_def flow_wf_def flow_wf0_def balanced_def Let_def stream_limit_def)
qed (simp_all add: flow_safe_def)

interpretation flow_ops: invariant_machine
  "\<lambda>s. s = Some (with_reassembly lim c, [])" "flow_step policy" "flow_safe lim c" for lim c policy
proof unfold_locales
  show "s = Some (with_reassembly lim c, []) \<Longrightarrow> flow_safe lim c s" for s
    using with_reassembly_wf [of lim c]
    by (simp add: flow_safe_def) (simp add: with_reassembly_def)
qed (rule flow_step_safe)

lemma flow_wf_bytes: "flow_wf rep t \<Longrightarrow> ft_stream_bytes t \<le> flow_len t * (2 * stream_limit t)"
proof -
  assume wf: "flow_wf rep t"
  have "flow_buffered_bytes f \<le> 2 * stream_limit t" if "(k, f) \<in> set (ft_flows t)" for k f
    using wf that pair_bound
    by (auto simp: flow_wf_def flow_wf0_def flow_ok_def flow_buffered_bytes_def split: option.splits)
  then show ?thesis
    using wf hm_sum_bound [of "ft_flows t" flow_buffered_bytes "2 * stream_limit t"]
    by (simp add: flow_wf_def flow_wf0_def flow_len_def)
qed

text \<open>C11. The flow table under any traffic: after any sequence of packets (spoofed endpoints,
  arbitrary segments, timestamps that go backwards), sweeps, flushes and hand-overs, nothing
  has panicked and the running byte total has not underflowed; the table holds at most \<open>max_flows\<close> conversations (one, if that is zero) and none that is closed; the running total is exactly what the
  streams buffer and at most twice the per-direction limit per flow; and the flows ever created are as many as the live and the reported ones together, with the counters agreeing with the reported reasons.\<close>

theorem flow_table_bounded:
  "\<exists>t rep. foldl (flow_step policy) (Some (with_reassembly lim c, [])) ops = Some (t, rep) \<and>
     flow_len t \<le> max (max_flows lim) 1 \<and>
     (\<forall>k f. hm_get (ft_flows t) k = Some f \<longrightarrow> fl_key f = k \<and> \<not> is_closed f) \<and>
     ft_stream_bytes t = hm_sum flow_buffered_bytes (ft_flows t) \<and>
     ft_stream_bytes t \<le> flow_len t * (2 * max (max_stream_bytes_per_flow c) 1) \<and>
     fc_created (ft_counters t) = flow_len t + length (rep @ ft_ended t) \<and>
     fc_closed (ft_counters t) = ended_for Closed (rep @ ft_ended t) \<and>
     fc_timed_out (ft_counters t) = ended_for TimedOut (rep @ ft_ended t) \<and>
     fc_evicted (ft_counters t) = ended_for Evicted (rep @ ft_ended t)"
proof -
  have "flow_safe lim c (foldl (flow_step policy) (Some (with_reassembly lim c, [])) ops)"
    by (rule flow_ops.inv_reachable) simp
  then obtain t rep where t: "foldl (flow_step policy) (Some (with_reassembly lim c, [])) ops = Some (t, rep)"
      "flow_wf rep t" "ft_limits t = lim" "ft_reassembly t = c"
    by (auto simp: flow_safe_def split: option.splits)
  have "hm_get (ft_flows t) k = Some f \<Longrightarrow> fl_key f = k \<and> \<not> is_closed f" for k f
    using t(2) hm_get_in_set by (fastforce simp: flow_wf_def flow_wf0_def)
  with t flow_wf_bytes [OF t(2)] show ?thesis
    by (simp add: flow_wf_def flow_wf0_def balanced_def Let_def flow_len_def stream_limit_def)
qed

text \<open>A conversation has one key: swapping source and destination changes nothing, and two
  packets share a key only if they have the same protocol and the same two endpoints.\<close>

theorem flow_key_canonical:
  "flow_key_new pr a b = flow_key_new pr' a' b' \<longleftrightarrow> pr = pr' \<and> (a = a' \<and> b = b' \<or> a = b' \<and> b = a')"
  by (auto simp: flow_key_new_def)

text \<open>Every packet is charged to the right conversation and direction: if its key has a
  live flow that has not been idle for the timeout, the packet is reported under that flow's
  id, as towards the server exactly when the initiator sent it and never as a new flow; if
  the key is unknown it opens a flow, towards the server. In particular a reply is seen in
  the opposite direction under the same id.\<close>

theorem observe_attributes:
  assumes "flow_wf rep t"
  shows "\<exists>t' ready' ob. observe t p policy ready = Some (t', ready', ob) \<and> flow_wf rep t' \<and>
    attributed t p ob"
  using observe_result [OF assms] by blast

theorem observe_attributes_witness:
  "\<exists>t' ready' ob. observe (with_reassembly default_limits default_reassembly_config)
      \<lparr>pk_protocol = 17, pk_source = (V4 1, 2), pk_destination = (V4 3, 4), pk_timestamp = 0,
       pk_frame_len = 60, pk_payload = [], pk_tcp = None\<rparr> (\<lambda>_. First) default_ready =
      Some (t', ready', ob) \<and> ob_to_server ob \<and> ob_is_new ob"
  using observe_attributes [OF with_reassembly_wf [of default_limits default_reassembly_config],
      of "\<lparr>pk_protocol = 17, pk_source = (V4 1, 2), pk_destination = (V4 3, 4), pk_timestamp = 0,
       pk_frame_len = 60, pk_payload = [], pk_tcp = None\<rparr>" "\<lambda>_. First" default_ready]
  by (auto simp: attributed_def with_reassembly_def)

theorem flow_table_bounded_witness:
  "\<exists>t rep. foldl (flow_step (\<lambda>_. Last)) (Some (with_reassembly default_limits default_reassembly_config, []))
      [Observe \<lparr>pk_protocol = 6, pk_source = (V4 1, 2), pk_destination = (V4 3, 4), pk_timestamp = 0,
         pk_frame_len = 60, pk_payload = [], pk_tcp = None\<rparr>, FlushFlows, TakeEnded] = Some (t, rep) \<and>
     flow_len t \<le> 65536 \<and> fc_created (ft_counters t) = flow_len t + length (rep @ ft_ended t)"
  using flow_table_bounded [of "\<lambda>_. Last" default_limits default_reassembly_config
      "[Observe \<lparr>pk_protocol = 6, pk_source = (V4 1, 2), pk_destination = (V4 3, 4), pk_timestamp = 0,
         pk_frame_len = 60, pk_payload = [], pk_tcp = None\<rparr>, FlushFlows, TakeEnded]"]
  by (elim exE conjE) (intro exI conjI, assumption, simp_all add: default_limits_def)

end
