(* ===== verification/Normalize.thy ===== *)
theory Normalize
  imports Prelude
begin

text \<open>
  Normalization of request paths (\<open>crates/reassembly/src/normalize.rs\<close>): percent decoding,
  repeated decoding under a round limit, and resolution of dot segments. Index loops over a
  byte slice are recursions over what is left of it.
\<close>

unbundle bit_operations_syntax

section \<open>Data\<close>

record normalization_flags =
  percent_encoded :: bool
  double_encoded :: bool
  invalid_escape :: bool
  null_byte :: bool
  traversal :: bool
  above_root :: bool
  self_reference :: bool
  empty_segment :: bool
  backslash :: bool
  decode_limit_reached :: bool

definition default_flags :: normalization_flags where
  "default_flags = \<lparr>percent_encoded = False, double_encoded = False, invalid_escape = False,
     null_byte = False, traversal = False, above_root = False, self_reference = False,
     empty_segment = False, backslash = False, decode_limit_reached = False\<rparr>"

definition flags_any :: "normalization_flags \<Rightarrow> bool" where
  "flags_any f \<longleftrightarrow> f \<noteq> default_flags"

definition merge_flags :: "normalization_flags \<Rightarrow> normalization_flags \<Rightarrow> normalization_flags" where
  "merge_flags a b = \<lparr>percent_encoded = (percent_encoded a \<or> percent_encoded b),
     double_encoded = (double_encoded a \<or> double_encoded b),
     invalid_escape = (invalid_escape a \<or> invalid_escape b),
     null_byte = (null_byte a \<or> null_byte b), traversal = (traversal a \<or> traversal b),
     above_root = (above_root a \<or> above_root b),
     self_reference = (self_reference a \<or> self_reference b),
     empty_segment = (empty_segment a \<or> empty_segment b),
     backslash = (backslash a \<or> backslash b),
     decode_limit_reached = (decode_limit_reached a \<or> decode_limit_reached b)\<rparr>"

record normalize_options =
  decode_rounds :: nat
  opt_collapse_path :: bool
  backslash_is_separator :: bool

definition default_normalize_options :: normalize_options where
  "default_normalize_options =
     \<lparr>decode_rounds = 2, opt_collapse_path = True, backslash_is_separator = False\<rparr>"

record normalized =
  nz_bytes :: bytes
  rounds_applied :: nat
  nz_flags :: normalization_flags

text \<open>The bytes the code names by character: \<open>%\<close>, \<open>/\<close>, \<open>.\<close> and the backslash.\<close>

abbreviation PERCENT :: byte where "PERCENT \<equiv> 37"
abbreviation SLASH :: byte where "SLASH \<equiv> 47"
abbreviation DOT :: byte where "DOT \<equiv> 46"
abbreviation BACKSLASH :: byte where "BACKSLASH \<equiv> 92"

section \<open>Percent decoding\<close>

definition hex_value :: "byte \<Rightarrow> byte option" where
  "hex_value b = (if 48 \<le> b \<and> b \<le> 57 then Some (b - 48)
     else if 97 \<le> b \<and> b \<le> 102 then Some (b - 97 + 10)
     else if 65 \<le> b \<and> b \<le> 70 then Some (b - 65 + 10)
     else None)"

text \<open>\<open>input.get(i).and_then(hex_value)\<close> for the next two bytes.\<close>

definition hex_pair :: "bytes \<Rightarrow> (byte \<times> byte) option" where
  "hex_pair rest = (case rest of h # l # _ \<Rightarrow>
       (case (hex_value h, hex_value l) of (Some high, Some low) \<Rightarrow> Some (high, low) | _ \<Rightarrow> None)
     | _ \<Rightarrow> None)"

function percent_decode_loop :: "bytes \<Rightarrow> bytes \<Rightarrow> normalization_flags \<Rightarrow> bytes \<times> normalization_flags" where
  "percent_decode_loop [] out flags = (out, flags)"
| "percent_decode_loop (c # rest) out flags =
     (if c \<noteq> PERCENT then percent_decode_loop rest (out @ [c]) flags
      else case hex_pair rest of
          Some (high, low) \<Rightarrow>
            let b = push_bit 4 high OR low;
                flags = (if b = 0 then flags\<lparr>null_byte := True\<rparr> else flags)
            in percent_decode_loop (drop 2 rest) (out @ [b]) (flags\<lparr>percent_encoded := True\<rparr>)
        | None \<Rightarrow> percent_decode_loop rest (out @ [PERCENT]) (flags\<lparr>invalid_escape := True\<rparr>))"
  by pat_completeness auto
termination by (relation "measure (\<lambda>(xs, _, _). length xs)") auto

definition percent_decode :: "bytes \<Rightarrow> bytes \<times> normalization_flags" where
  "percent_decode input = percent_decode_loop input [] default_flags"

text \<open>The rounds from \<open>round\<close> on: what is current, the passes applied, and the flags.\<close>

function decode_loop :: "nat \<Rightarrow> nat \<Rightarrow> bytes \<Rightarrow> nat \<Rightarrow> normalization_flags \<Rightarrow>
    bytes \<times> nat \<times> normalization_flags" where
  "decode_loop round rounds current applied flags =
     (if rounds \<le> round then (current, applied, flags)
      else let (decoded, round_flags) = percent_decode current in
        if decoded = current then (current, applied, flags)
        else let flags = merge_flags flags round_flags;
                 flags = (if 0 < round then flags\<lparr>double_encoded := True\<rparr> else flags)
             in decode_loop (round + 1) rounds decoded (round + 1) flags)"
  by pat_completeness auto
termination by (relation "measure (\<lambda>(round, rounds, _). rounds - round)") auto

declare decode_loop.simps [simp del]

definition percent_decode_repeatedly :: "bytes \<Rightarrow> nat \<Rightarrow> normalized" where
  "percent_decode_repeatedly input rounds =
     (let (current, applied, flags) = decode_loop 0 rounds input 0 default_flags;
          flags = (if applied = rounds \<and> 0 < rounds \<and> fst (percent_decode current) \<noteq> current
                   then flags\<lparr>decode_limit_reached := True\<rparr> else flags)
      in \<lparr>nz_bytes = current, rounds_applied = applied, nz_flags = flags\<rparr>)"

section \<open>Resolving a path\<close>

text \<open>\<open>slice::split\<close>: the parts between separators, one more than there are separators.\<close>

fun split_on :: "byte \<Rightarrow> bytes \<Rightarrow> bytes list" where
  "split_on s [] = [[]]"
| "split_on s (x # xs) = (if x = s then [] # split_on s xs
     else case split_on s xs of p # ps \<Rightarrow> (x # p) # ps | [] \<Rightarrow> [[x]])"

text \<open>The loop over the parts: the segments kept (a stack, popped at its end) and the flags.\<close>

fun walk_parts :: "bytes list \<Rightarrow> bytes list \<Rightarrow> normalization_flags \<Rightarrow> bytes list \<times> normalization_flags" where
  "walk_parts [] segments flags = (segments, flags)"
| "walk_parts (part # parts) segments flags =
     (if part = [] then walk_parts parts segments flags
      else if part = [DOT] then walk_parts parts segments (flags\<lparr>self_reference := True\<rparr>)
      else if part = [DOT, DOT] then
        let flags = flags\<lparr>traversal := True\<rparr> in
        if segments = [] then walk_parts parts segments (flags\<lparr>above_root := True\<rparr>)
        else walk_parts parts (butlast segments) flags
      else walk_parts parts (segments @ [part]) flags)"

fun join_segments :: "bytes list \<Rightarrow> bytes" where
  "join_segments [] = []"
| "join_segments [s] = s"
| "join_segments (s # ss) = s @ [SLASH] @ join_segments ss"

definition collapse_path :: "bytes \<Rightarrow> bool \<Rightarrow> bytes \<times> normalization_flags" where
  "collapse_path input backslash_sep =
     (let flags = default_flags\<lparr>backslash := backslash_sep \<and> BACKSLASH \<in> set input\<rparr>;
          seps = (if backslash_sep then map (\<lambda>b. if b = BACKSLASH then SLASH else b) input else input)
      in if seps = [] then ([], flags)
         else let absolute = (hd seps = SLASH);
                  parts = split_on SLASH seps;
                  flags = flags\<lparr>empty_segment := (\<exists>i \<in> {1..<length parts - 1}. parts ! i = [])\<rparr>;
                  trailing = last parts \<in> {[], [DOT], [DOT, DOT]};
                  (segments, flags) = walk_parts parts [] flags;
                  out = (if absolute then [SLASH] else []) @ join_segments segments;
                  out = (if trailing \<and> out \<noteq> [] \<and> last out \<noteq> SLASH then out @ [SLASH] else out)
              in (out, flags))"

definition normalize_path :: "bytes \<Rightarrow> normalize_options \<Rightarrow> normalized" where
  "normalize_path input options =
     (let decoded = percent_decode_repeatedly input (decode_rounds options) in
      if \<not> opt_collapse_path options then decoded
      else let (collapsed, flags) = collapse_path (nz_bytes decoded) (backslash_is_separator options)
           in decoded\<lparr>nz_flags := merge_flags (nz_flags decoded) flags, nz_bytes := collapsed\<rparr>)"

section \<open>Decoding as a function of bytes\<close>

function dec :: "bytes \<Rightarrow> bytes" where
  "dec [] = []"
| "dec (c # rest) = (if c \<noteq> PERCENT then c # dec rest
     else case hex_pair rest of
         Some (high, low) \<Rightarrow> (push_bit 4 high OR low) # dec (drop 2 rest)
       | None \<Rightarrow> PERCENT # dec rest)"
  by pat_completeness auto
termination by (relation "measure length") auto

lemma percent_decode_loop_dec:
  "fst (percent_decode_loop input out flags) = out @ dec input"
  by (induction input out flags rule: percent_decode_loop.induct)
    (auto simp: Let_def split: option.splits)

lemma percent_decode_dec: "fst (percent_decode input) = dec input"
  by (simp add: percent_decode_def percent_decode_loop_dec)

lemma hex_pair_some: "hex_pair rest = Some hl \<Longrightarrow> Suc (length (drop 2 rest)) < length rest"
  by (auto simp: hex_pair_def split: list.splits)

lemma dec_length: "length (dec input) \<le> length input"
proof (induction input rule: dec.induct)
  case (2 c rest)
  then show ?case
    using hex_pair_some [of rest] by (fastforce split: option.splits)
qed simp

text \<open>A pass changes the bytes exactly when it shortens them: an escape is three bytes.\<close>

lemma dec_shorter: "dec input \<noteq> input \<Longrightarrow> length (dec input) < length input"
proof (induction input rule: dec.induct)
  case (2 c rest)
  show ?case
  proof (cases "c = PERCENT \<and> hex_pair rest \<noteq> None")
    case True
    then obtain h l where "hex_pair rest = Some (h, l)" by auto
    with True hex_pair_some [OF this] dec_length [of "drop 2 rest"] show ?thesis by simp
  next
    case False
    with 2 show ?thesis by (auto split: option.splits)
  qed
qed simp

lemma decode_loop_dec:
  "round \<le> rounds \<Longrightarrow> fst (decode_loop round rounds current applied flags) = (dec ^^ (rounds - round)) current"
proof (induction round rounds current applied flags rule: decode_loop.induct)
  case (1 round rounds current applied flags)
  show ?case
  proof (cases "rounds \<le> round \<or> dec current = current")
    case True
    have "(dec ^^ n) current = current" if "dec current = current" for n
      using that by (induction n) auto
    with True 1(2) show ?thesis
      by (auto simp: decode_loop.simps [of round] case_prod_unfold percent_decode_dec Let_def)
  next
    case False
    obtain d fl where d: "percent_decode current = (d, fl)" by (cases "percent_decode current")
    then have dd: "d = dec current" using percent_decode_dec [of current] by simp
    have "rounds - round = Suc (rounds - (round + 1))" using False by linarith
    with False 1(1) [OF _ d [symmetric]] d dd show ?thesis
      by (simp add: decode_loop.simps [of round] Let_def funpow_swap1)
  qed
qed

lemma repeatedly_bytes: "nz_bytes (percent_decode_repeatedly input rounds) = (dec ^^ rounds) input"
  using decode_loop_dec [of 0 rounds input 0 default_flags]
  by (simp add: percent_decode_repeatedly_def case_prod_unfold Let_def)

text \<open>\<open>spells x y\<close>: \<open>y\<close> is \<open>x\<close> with some bytes, at least every percent sign, written as an
  escape, in either case of hexadecimal digits.\<close>

inductive spells :: "bytes \<Rightarrow> bytes \<Rightarrow> bool" where
  nil: "spells [] []"
| plain: "c \<noteq> PERCENT \<Longrightarrow> spells xs ys \<Longrightarrow> spells (c # xs) (c # ys)"
| escaped: "hex_value h = Some a \<Longrightarrow> hex_value l = Some b \<Longrightarrow> spells xs ys \<Longrightarrow>
    spells ((push_bit 4 a OR b) # xs) (PERCENT # h # l # ys)"

lemma spells_dec: "spells x y \<Longrightarrow> dec y = x"
  by (induction rule: spells.induct) (auto simp: hex_pair_def)

lemma spells_dec_n: "(spells ^^ n) x z \<Longrightarrow> (dec ^^ n) z = x"
proof (induction n arbitrary: z)
  case (Suc n)
  then obtain y where "(spells ^^ n) x y" "spells y z" by auto
  with Suc.IH [of y] spells_dec [of y z] show ?case by (simp add: funpow_swap1)
qed simp

section \<open>Properties of decoding\<close>

text \<open>Percent encoding hides nothing: however the bytes \<open>x\<close> are spelled with escapes, and
  however often the spelling is encoded again, decoding with as many rounds as there are
  layers gives back \<open>x\<close>. With the default of two rounds, \<open>%252f\<close> and
  \<open>%2f\<close> are both the slash.\<close>

theorem decode_undoes_encoding:
  assumes "(spells ^^ n) x z"
  shows "nz_bytes (percent_decode_repeatedly z n) = x"
  using spells_dec_n [OF assms] by (simp add: repeatedly_bytes)

theorem decode_undoes_encoding_witness:
  "nz_bytes (percent_decode_repeatedly [37, 50, 53, 50, 102] 2) = [47]"
proof -
  have "spells [47] [37, 50, 102]"
    using escaped [of 50 2 102 15 "[]" "[]"] nil by (simp add: hex_value_def)
  moreover have "spells [37, 50, 102] [37, 50, 53, 50, 102]"
    using escaped [of 50 2 53 5 "[50, 102]" "[50, 102]"]
    by (simp add: hex_value_def spells.intros)
  ultimately have "(spells ^^ 2) [47] [37, 50, 53, 50, 102]" by (auto simp: numeral_2_eq_2)
  then show ?thesis by (rule decode_undoes_encoding)
qed

lemma percent_decode_loop_flags:
  "decode_limit_reached (snd (percent_decode_loop input out flags)) = decode_limit_reached flags \<and>
   double_encoded (snd (percent_decode_loop input out flags)) = double_encoded flags \<and>
   percent_encoded (snd (percent_decode_loop input out flags)) =
     (percent_encoded flags \<or> dec input \<noteq> input)"
proof (induction input out flags rule: percent_decode_loop.induct)
  case (2 c rest out flags)
  show ?case
  proof (cases "c = PERCENT")
    case True
    show ?thesis
    proof (cases "hex_pair rest")
      case (Some hl)
      obtain h l where hl: "hl = (h, l)" by (cases hl)
      have "length (dec (drop 2 rest)) \<noteq> length rest"
        using hex_pair_some [OF Some] dec_length [of "drop 2 rest"] by linarith
      then have "dec (drop 2 rest) \<noteq> rest" by metis
      moreover define b fl where "b = push_bit 4 h OR l"
        and "fl = (if b = 0 then flags\<lparr>null_byte := True\<rparr> else flags)"
      moreover have "percent_decode_loop (c # rest) out flags =
          percent_decode_loop (drop 2 rest) (out @ [b]) (fl\<lparr>percent_encoded := True\<rparr>)"
        using True Some hl by (simp add: Let_def b_def fl_def)
      ultimately show ?thesis
        using 2(3) [OF _ Some hl [symmetric] b_def fl_def] True Some hl
        by (simp add: fl_def)
    next
      case None
      with True 2(2) show ?thesis by simp
    qed
  next
    case False
    with 2(1) show ?thesis by simp
  qed
qed simp

lemma percent_decode_flags:
  "\<not> decode_limit_reached (snd (percent_decode input))" "\<not> double_encoded (snd (percent_decode input))"
  "percent_encoded (snd (percent_decode input)) = (dec input \<noteq> input)"
  by (simp_all add: percent_decode_def percent_decode_loop_flags default_flags_def)

text \<open>What the rounds leave behind, from the state \<open>round\<close> passes have produced.\<close>

lemma decode_loop_flags:
  assumes "decode_loop round rounds current round flags = (cur, applied, fl)" "round \<le> rounds"
    "\<not> decode_limit_reached flags" "double_encoded flags = (2 \<le> round)" "percent_encoded flags = (1 \<le> round)"
  shows "applied \<le> rounds \<and> (applied < rounds \<longrightarrow> dec cur = cur) \<and> \<not> decode_limit_reached fl \<and>
    double_encoded fl = (2 \<le> applied) \<and> percent_encoded fl = (1 \<le> applied)"
  using assms
proof (induction "rounds - round" arbitrary: round current flags)
  case 0
  then show ?case by (auto simp: decode_loop.simps [of round])
next
  case (Suc n)
  obtain d df where d: "percent_decode current = (d, df)" by (cases "percent_decode current")
  have dd: "d = dec current" "\<not> decode_limit_reached df" "\<not> double_encoded df"
      "percent_encoded df = (dec current \<noteq> current)"
    using percent_decode_dec [of current] percent_decode_flags [of current] d by simp_all
  show ?case
  proof (cases "d = current")
    case True
    with Suc.prems d dd Suc.hyps(2) show ?thesis
      by (auto simp: decode_loop.simps [of round] split: if_splits)
  next
    case False
    let ?fl = "merge_flags flags df"
    let ?fl' = "if 0 < round then ?fl\<lparr>double_encoded := True\<rparr> else ?fl"
    have step: "decode_loop (round + 1) rounds d (round + 1) ?fl' = (cur, applied, fl)"
    proof -
      have "\<not> rounds \<le> round" using Suc.hyps(2) by linarith
      with Suc.prems(1) [unfolded decode_loop.simps [of round]] d False show ?thesis
        by (simp only: Let_def prod.case if_False)
    qed
    have "\<not> decode_limit_reached ?fl'" "double_encoded ?fl' = (2 \<le> round + 1)"
        "percent_encoded ?fl' = (1 \<le> round + 1)"
      using Suc.prems(3-5) dd False by (auto simp: merge_flags_def)
    with step Suc.hyps show ?thesis
      by (intro Suc.hyps(1) [of "round + 1" d ?fl']) auto
  qed
qed

text \<open>The decoding flags are exact. With at least one round allowed, the limit flag is set if and
  only if the result still contains an escape to decode, so an unflagged result is fully
  decoded; the input is reported percent-encoded exactly when a pass changed it and
  double-encoded exactly when two did.\<close>

theorem decode_flags_exact:
  assumes "0 < rounds"
  shows "let r = percent_decode_repeatedly input rounds in
    decode_limit_reached (nz_flags r) = (fst (percent_decode (nz_bytes r)) \<noteq> nz_bytes r) \<and>
    percent_encoded (nz_flags r) = (1 \<le> rounds_applied r) \<and>
    double_encoded (nz_flags r) = (2 \<le> rounds_applied r) \<and> rounds_applied r \<le> rounds"
proof -
  obtain cur applied fl where d: "decode_loop 0 rounds input 0 default_flags = (cur, applied, fl)"
    using prod_cases3 by blast
  from decode_loop_flags [OF d] have
    f: "applied \<le> rounds" "applied < rounds \<Longrightarrow> dec cur = cur" "\<not> decode_limit_reached fl"
      "double_encoded fl = (2 \<le> applied)" "percent_encoded fl = (1 \<le> applied)"
    by (auto simp: default_flags_def)
  have "\<not> applied < rounds \<Longrightarrow> applied = rounds" using f(1) by simp
  with d f assms show ?thesis
    by (cases "applied < rounds") (auto simp: percent_decode_repeatedly_def Let_def percent_decode_dec)
qed

theorem decode_flags_exact_witness:
  "let r = percent_decode_repeatedly [37, 50, 53, 50, 102] 1 in
     decode_limit_reached (nz_flags r) = (fst (percent_decode (nz_bytes r)) \<noteq> nz_bytes r) \<and>
     rounds_applied r \<le> 1"
  using decode_flags_exact [of 1 "[37, 50, 53, 50, 102]"] by (simp add: Let_def)

text \<open>A stray percent sign goes unreported when nothing else in the path is encoded: the pass
  that finds it changes no byte, and its flags are thrown away with it, although
  \<open>percent_decode\<close> itself flags the escape as invalid.\<close>

theorem stray_percent_unreported:
  assumes "fst (percent_decode input) = input"
  shows "nz_flags (percent_decode_repeatedly input rounds) = default_flags"
proof -
  have "decode_loop 0 rounds input 0 default_flags = (input, 0, default_flags)"
    using assms by (auto simp: decode_loop.simps [of 0] case_prod_unfold Let_def)
  with assms show ?thesis by (simp add: percent_decode_repeatedly_def)
qed

theorem stray_percent_unreported_witness:
  "invalid_escape (snd (percent_decode [49, 48, 48, 37])) \<and>
   nz_flags (percent_decode_repeatedly [49, 48, 48, 37] 2) = default_flags"
proof -
  have run: "percent_decode [49, 48, 48, 37] = ([49, 48, 48, 37], default_flags\<lparr>invalid_escape := True\<rparr>)"
    by (simp add: percent_decode_def hex_pair_def)
  then show ?thesis using stray_percent_unreported [of "[49, 48, 48, 37]" 2] by simp
qed

section \<open>Splitting and joining\<close>

lemma split_on_plain: "s \<notin> set p \<Longrightarrow> split_on s p = [p]"
  by (induction p) auto

lemma split_on_first: "s \<notin> set p \<Longrightarrow> split_on s (p @ s # q) = p # split_on s q"
  by (induction p) auto

lemma split_on_not_Nil: "split_on s xs \<noteq> []"
  by (induction xs) (auto split: list.splits)

lemma split_on_parts: "p \<in> set (split_on s xs) \<Longrightarrow> s \<notin> set p \<and> set p \<subseteq> set xs"
proof (induction xs arbitrary: p)
  case (Cons x xs)
  show ?case
  proof (cases "split_on s xs")
    case Nil
    then show ?thesis using split_on_not_Nil by blast
  next
    case (Cons q qs)
    with Cons.prems Cons.IH show ?thesis by (fastforce split: if_splits)
  qed
qed simp

text \<open>The weight of a list of parts: their bytes and one separator each.\<close>

definition weight :: "bytes list \<Rightarrow> nat" where
  "weight ps = sum_list (map (\<lambda>p. Suc (length p)) ps)"

lemma weight_simps [simp]:
  "weight [] = 0" "weight (p # ps) = Suc (length p) + weight ps" "weight (ps @ qs) = weight ps + weight qs"
  by (simp_all add: weight_def)

lemma split_on_weight: "weight (split_on s xs) = Suc (length xs)"
proof (induction xs)
  case (Cons x xs)
  show ?case
  proof (cases "split_on s xs")
    case Nil
    then show ?thesis using split_on_not_Nil by blast
  next
    case (Cons q qs)
    with Cons.IH show ?thesis by simp
  qed
qed simp

lemma join_segments_Cons: "ss \<noteq> [] \<Longrightarrow> join_segments (s # ss) = s @ SLASH # join_segments ss"
  by (cases ss) simp_all

lemma join_segments_length: "ss \<noteq> [] \<Longrightarrow> Suc (length (join_segments ss)) = weight ss"
proof (induction ss)
  case (Cons s ss)
  then show ?case by (cases "ss = []") (simp_all add: join_segments_Cons)
qed simp

lemma join_segments_set: "set (join_segments ss) \<subseteq> insert SLASH (\<Union> (set ` set ss))"
proof (induction ss)
  case (Cons s ss)
  then show ?case by (cases "ss = []") (auto simp: join_segments_Cons)
qed simp

text \<open>A segment that stays: not empty, not a dot segment, and free of separators.\<close>

definition good_segment :: "bytes \<Rightarrow> bool" where
  "good_segment s \<longleftrightarrow> s \<notin> {[], [DOT], [DOT, DOT]} \<and> SLASH \<notin> set s"

lemma join_segments_last:
  "ss \<noteq> [] \<Longrightarrow> \<forall>s \<in> set ss. good_segment s \<Longrightarrow> join_segments ss \<noteq> [] \<and> last (join_segments ss) \<noteq> SLASH"
proof (induction ss)
  case (Cons s ss)
  show ?case
  proof (cases "ss = []")
    case True
    with Cons.prems show ?thesis by (auto simp: good_segment_def dest: last_in_set)
  next
    case False
    with Cons show ?thesis by (simp add: join_segments_Cons)
  qed
qed simp

lemma split_join:
  "ss \<noteq> [] \<Longrightarrow> \<forall>s \<in> set ss. good_segment s \<Longrightarrow>
     split_on SLASH (join_segments ss @ (if trail then [SLASH] else [])) =
       ss @ (if trail then [[]] else [])"
proof (induction ss)
  case (Cons s ss)
  have ns: "SLASH \<notin> set s" using Cons.prems by (simp add: good_segment_def)
  show ?case
  proof (cases "ss = []")
    case True
    with ns split_on_first [OF ns, of "[]"] show ?thesis by (simp add: split_on_plain)
  next
    case False
    with Cons split_on_first [OF ns, of "join_segments ss @ (if trail then [SLASH] else [])"]
    show ?thesis by (simp add: join_segments_Cons)
  qed
qed simp

section \<open>What the walk keeps\<close>

text \<open>What one part does to the stack.\<close>

definition walk_one :: "bytes list \<Rightarrow> bytes \<Rightarrow> bytes list" where
  "walk_one segs part = (if part = [] \<or> part = [DOT] then segs
     else if part = [DOT, DOT] then butlast segs else segs @ [part])"

lemma walk_parts_fold: "fst (walk_parts parts segs flags) = foldl walk_one segs parts"
proof (induction parts arbitrary: segs flags)
  case (Cons part parts)
  then show ?case by (simp add: walk_one_def Let_def)
qed simp

lemma walk_good:
  assumes "\<forall>p \<in> set parts. SLASH \<notin> set p" "\<forall>s \<in> set segs. good_segment s"
  shows "(\<forall>s \<in> set (foldl walk_one segs parts). good_segment s) \<and>
    set (foldl walk_one segs parts) \<subseteq> set segs \<union> set parts"
  using assms
proof (induction parts arbitrary: segs)
  case (Cons part parts)
  have one: "\<forall>s \<in> set (walk_one segs part). good_segment s"
      "set (walk_one segs part) \<subseteq> insert part (set segs)"
    using Cons.prems by (auto simp: walk_one_def good_segment_def dest: in_set_butlastD)
  from Cons.IH [OF _ one(1)] Cons.prems(1) one(2) show ?case by fastforce
qed simp

definition dropped :: "bytes list \<Rightarrow> nat" where
  "dropped ps = weight (filter (\<lambda>p. p \<in> {[], [DOT], [DOT, DOT]}) ps)"

lemma walk_weight: "weight (foldl walk_one segs parts) + dropped parts \<le> weight segs + weight parts"
proof (induction parts arbitrary: segs)
  case (Cons part parts)
  have "weight (butlast segs) \<le> weight segs"
    by (cases segs rule: rev_cases) simp_all
  then have "weight (walk_one segs part) + dropped [part] \<le> weight segs + weight [part]"
    by (auto simp: walk_one_def dropped_def)
  moreover have "dropped (part # parts) = dropped [part] + dropped parts"
    by (simp add: dropped_def)
  ultimately show ?case using Cons.IH [of "walk_one segs part"] by simp
qed (simp add: dropped_def)

lemma walk_good_parts: "\<forall>p \<in> set parts. good_segment p \<Longrightarrow> foldl walk_one segs parts = segs @ parts"
  by (induction parts arbitrary: segs) (auto simp: good_segment_def walk_one_def)

section \<open>Canonical paths\<close>

definition render :: "bool \<Rightarrow> bytes list \<Rightarrow> bool \<Rightarrow> bytes" where
  "render absolute segs trail = (if absolute then [SLASH] else []) @ join_segments segs @
     (if trail \<and> segs \<noteq> [] then [SLASH] else [])"

definition separators :: "bytes \<Rightarrow> bool \<Rightarrow> bytes" where
  "separators input backslash_sep =
     (if backslash_sep then map (\<lambda>b. if b = BACKSLASH then SLASH else b) input else input)"

definition kept_segments :: "bytes \<Rightarrow> bytes list" where
  "kept_segments seps = foldl walk_one [] (split_on SLASH seps)"

lemma kept_segments_good: "s \<in> set (kept_segments seps) \<Longrightarrow> good_segment s \<and> set s \<subseteq> set seps"
  using walk_good [of "split_on SLASH seps" "[]"] split_on_parts [of _ SLASH seps]
  by (fastforce simp: kept_segments_def)

lemma collapse_path_render:
  assumes "separators input b \<noteq> []"
  shows "fst (collapse_path input b) = render (hd (separators input b) = SLASH)
    (kept_segments (separators input b))
    (last (split_on SLASH (separators input b)) \<in> {[], [DOT], [DOT, DOT]})"
proof -
  let ?seps = "separators input b"
  let ?segs = "kept_segments ?seps"
  let ?abs = "hd ?seps = SLASH"
  let ?trail = "last (split_on SLASH ?seps) \<in> {[], [DOT], [DOT, DOT]}"
  let ?out = "(if ?abs then [SLASH] else []) @ join_segments ?segs"
  have segs: "fst (walk_parts (split_on SLASH ?seps) [] fl) = ?segs" for fl
    by (simp add: kept_segments_def walk_parts_fold)
  have ending: "(?out \<noteq> [] \<and> last ?out \<noteq> SLASH) \<longleftrightarrow> ?segs \<noteq> []"
    using join_segments_last [of ?segs] kept_segments_good [of _ ?seps]
    by (cases "?segs = []") auto
  have "fst (collapse_path input b) =
      (if ?trail \<and> ?out \<noteq> [] \<and> last ?out \<noteq> SLASH then ?out @ [SLASH] else ?out)"
    using assms unfolding collapse_path_def separators_def [symmetric] Let_def
    by (simp add: case_prod_unfold segs)
  also have "\<dots> = render ?abs ?segs ?trail"
    using ending by (simp add: render_def)
  finally show ?thesis .
qed

lemma collapse_path_empty: "fst (collapse_path [] b) = []"
  by (simp add: collapse_path_def)

text \<open>A path that is already canonical is left as it is.\<close>

lemma collapse_render:
  assumes good: "\<forall>s \<in> set segs. good_segment s"
    and sep: "separators (render absolute segs trail) b = render absolute segs trail"
  shows "fst (collapse_path (render absolute segs trail) b) = render absolute segs trail"
proof (cases "segs = []")
  case True
  then show ?thesis
    by (cases absolute) (simp_all add: render_def collapse_path_def case_prod_unfold Let_def)
next
  case False
  let ?p = "render absolute segs trail"
  let ?tail = "segs @ (if trail then [[]] else [])"
  have split: "split_on SLASH ?p = (if absolute then [[]] else []) @ ?tail"
    using split_join [OF False good, of trail] False by (simp add: render_def)
  have kept: "kept_segments ?p = segs"
    using walk_good_parts [OF good, of "[]"]
    by (simp add: kept_segments_def split walk_one_def)
  have "hd (join_segments segs) \<noteq> SLASH"
  proof -
    obtain s ss where s: "segs = s # ss" using False by (cases segs) auto
    with good have "s \<noteq> []" "SLASH \<notin> set s" by (auto simp: good_segment_def)
    then show ?thesis using s by (cases ss; cases s) auto
  qed
  then have abs: "hd ?p = SLASH \<longleftrightarrow> absolute" "?p \<noteq> []"
    using join_segments_last [OF False good] by (auto simp: render_def)
  have last: "last (split_on SLASH ?p) \<in> {[], [DOT], [DOT, DOT]} \<longleftrightarrow> trail"
    using False good last_in_set [OF False] by (auto simp: split good_segment_def)
  show ?thesis
    using collapse_path_render [of ?p b] sep abs kept last by simp
qed

lemma render_set: "set (render absolute segs trail) \<subseteq> insert SLASH (\<Union> (set ` set segs))"
  using join_segments_set [of segs] by (auto simp: render_def)

lemma separators_clean: "BACKSLASH \<notin> set p \<Longrightarrow> separators p b = p"
  by (auto simp: separators_def intro: map_idI)

lemma separators_no_backslash: "b \<Longrightarrow> BACKSLASH \<notin> set (separators input b)"
  by (auto simp: separators_def)

lemma collapse_result:
  "\<exists>absolute segs trail. fst (collapse_path input b) = render absolute segs trail \<and>
     (\<forall>s \<in> set segs. good_segment s \<and> (b \<longrightarrow> BACKSLASH \<notin> set s))"
proof (cases "separators input b = []")
  case True
  then have "input = []" by (simp add: separators_def split: if_splits)
  then have "fst (collapse_path input b) = render False [] False"
    by (simp add: collapse_path_empty render_def)
  then show ?thesis by (intro exI [of _ False] exI [of _ "[]"]) auto
next
  case False
  have "\<forall>s \<in> set (kept_segments (separators input b)). good_segment s \<and> (b \<longrightarrow> BACKSLASH \<notin> set s)"
    using kept_segments_good separators_no_backslash [of b input] by blast
  with collapse_path_render [OF False] show ?thesis by blast
qed

text \<open>The canonical form of a path: a leading separator or none, then segments joined by single
  separators, none of which is empty, a dot segment or contains a separator (the backslash
  included when it counts as one), and a trailing separator or none.\<close>

theorem collapse_canonical:
  "\<exists>absolute segs trail. fst (collapse_path input b) = render absolute segs trail \<and>
     list_all (\<lambda>s. good_segment s \<and> \<not> (b \<and> BACKSLASH \<in> set s)) segs"
  using collapse_result [of input b] by (fastforce simp: list_all_iff)

text \<open>Resolving is idempotent: there is no path a second pass would read differently, so no
  spelling survives normalization that a server resolving once more would see through.\<close>

theorem collapse_idempotent:
  "fst (collapse_path (fst (collapse_path input b)) b) = fst (collapse_path input b)"
proof -
  obtain absolute segs trail where r: "fst (collapse_path input b) = render absolute segs trail"
      "\<forall>s \<in> set segs. good_segment s \<and> (b \<longrightarrow> BACKSLASH \<notin> set s)"
    using collapse_result by blast
  have "separators (render absolute segs trail) b = render absolute segs trail"
  proof (cases b)
    case True
    then have "BACKSLASH \<notin> set (render absolute segs trail)"
      using r(2) render_set [of absolute segs trail] by auto
    then show ?thesis by (rule separators_clean)
  qed (simp add: separators_def)
  with r show ?thesis using collapse_render by auto
qed

lemma dropped_ends:
  assumes "ps \<noteq> []" "last ps \<in> {[], [DOT], [DOT, DOT]}"
  shows "1 \<le> dropped ps"
proof -
  obtain qs q where "ps = qs @ [q]" using assms(1) by (cases ps rule: rev_cases) auto
  with assms(2) show ?thesis by (auto simp: dropped_def)
qed

lemma collapse_length: "length (fst (collapse_path input b)) \<le> length input"
proof (cases "separators input b")
  case Nil
  then have "input = []" by (simp add: separators_def split: if_splits)
  then show ?thesis by (simp add: collapse_path_empty)
next
  case (Cons c rest)
  let ?seps = "separators input b"
  let ?parts = "split_on SLASH ?seps"
  let ?trail = "last ?parts \<in> {[], [DOT], [DOT, DOT]}"
  let ?abs = "hd ?seps = SLASH"
  have len: "length ?seps = length input" by (simp add: separators_def)
  have w: "weight (kept_segments ?seps) + dropped ?parts \<le> Suc (length ?seps)"
    using walk_weight [of "[]" ?parts]
    by (simp add: kept_segments_def split_on_weight)
  have d: "(if ?abs then 1 else 0) + (if ?trail then 1 else 0) \<le> dropped ?parts"
  proof (cases ?abs)
    case True
    then have p: "?parts = [] # split_on SLASH rest" using Cons by simp
    then have "last ?parts = last (split_on SLASH rest)" by (simp add: split_on_not_Nil)
    with dropped_ends [OF split_on_not_Nil, of SLASH rest] p True show ?thesis
      by (auto simp: dropped_def)
  next
    case False
    with dropped_ends [OF split_on_not_Nil, of SLASH ?seps] show ?thesis by auto
  qed
  have r: "fst (collapse_path input b) = render ?abs (kept_segments ?seps) ?trail"
    using Cons by (intro collapse_path_render) simp
  show ?thesis
  proof (cases "kept_segments ?seps = []")
    case True
    with r Cons len show ?thesis by (simp add: render_def)
  next
    case False
    have "length (fst (collapse_path input b)) =
        (if ?abs then 1 else 0) + length (join_segments (kept_segments ?seps)) + (if ?trail then 1 else 0)"
      using False by (simp add: r render_def)
    with join_segments_length [OF False] w d len show ?thesis by linarith
  qed
qed

lemma dec_n_length: "length ((dec ^^ n) input) \<le> length input"
proof (induction n)
  case (Suc n)
  then show ?case using dec_length [of "(dec ^^ n) input"] by simp
qed simp

text \<open>Nothing here can grow its input: whatever the options, the normalized path is no longer
  than the path it came from, so no packet can be amplified into a larger allocation.\<close>

theorem normalize_never_grows: "length (nz_bytes (normalize_path input options)) \<le> length input"
proof -
  let ?d = "nz_bytes (percent_decode_repeatedly input (decode_rounds options))"
  have "length ?d \<le> length input" using dec_n_length by (simp add: repeatedly_bytes)
  with collapse_length [of ?d "backslash_is_separator options"] show ?thesis
    by (simp add: normalize_path_def Let_def case_prod_unfold)
qed

end
