(* ===== verification/Http.thy ===== *)
theory Http
  imports Normalize
begin

text \<open>
  The HTTP/1.x request parser (\<open>crates/applayer/src/http.rs\<close>): finding the end of a request
  head in the reassembled client-to-server bytes, reading the request line and headers, and
  the incremental parser with its cap on a head that never ends. Totals are naturals.
\<close>

section \<open>Data\<close>

definition default_max_head :: nat where
  "default_max_head = 65536"

definition max_headers :: nat where
  "max_headers = 128"

record http_request =
  rq_method :: bytes
  rq_raw_uri :: bytes
  rq_uri :: bytes
  rq_normalization :: normalization_flags
  rq_version :: bytes
  rq_headers :: bytes
  rq_user_agent :: "bytes option"
  rq_host :: "bytes option"
  rq_truncated :: bool

record http_counters =
  hc_requests :: nat
  hc_oversized :: nat
  hc_malformed :: nat

record http_parser =
  hp_buffer :: bytes
  hp_max_head :: nat
  hp_counters :: http_counters
  hp_resynchronising :: bool

definition http_parser_new :: "nat \<Rightarrow> http_parser" where
  "http_parser_new max_head = \<lparr>hp_buffer = [], hp_max_head = max max_head 64,
     hp_counters = \<lparr>hc_requests = 0, hc_oversized = 0, hc_malformed = 0\<rparr>, hp_resynchronising = False\<rparr>"

definition http_buffered :: "http_parser \<Rightarrow> nat" where
  "http_buffered p = length (hp_buffer p)"

abbreviation CR :: byte where "CR \<equiv> 13"
abbreviation LF :: byte where "LF \<equiv> 10"
abbreviation SP :: byte where "SP \<equiv> 32"

section \<open>The end of a head\<close>

text \<open>\<open>buffer.windows(n).position(|w| w == pattern)\<close>.\<close>

fun find_window :: "bytes \<Rightarrow> bytes \<Rightarrow> nat option" where
  "find_window pat [] = (if pat = [] then Some 0 else None)"
| "find_window pat (x # xs) =
     (if length (x # xs) < length pat then None
      else if take (length pat) (x # xs) = pat then Some 0
      else map_option Suc (find_window pat xs))"

definition find_head_end :: "bytes \<Rightarrow> nat option" where
  "find_head_end buffer =
     (let crlf = map_option (\<lambda>p. p + 4) (find_window [CR, LF, CR, LF] buffer);
          lf = map_option (\<lambda>p. p + 2) (find_window [LF, LF] buffer)
      in case (crlf, lf) of
           (Some a, Some b) \<Rightarrow> Some (min a b)
         | (Some a, None) \<Rightarrow> Some a
         | (None, Some b) \<Rightarrow> Some b
         | (None, None) \<Rightarrow> None)"

section \<open>Reading a head\<close>

definition is_ascii_whitespace :: "byte \<Rightarrow> bool" where
  "is_ascii_whitespace b \<longleftrightarrow> b \<in> {SP, 9, LF, 12, CR}"

definition is_ascii_alphabetic :: "byte \<Rightarrow> bool" where
  "is_ascii_alphabetic b \<longleftrightarrow> 65 \<le> b \<and> b \<le> 90 \<or> 97 \<le> b \<and> b \<le> 122"

definition to_ascii_lower :: "byte \<Rightarrow> byte" where
  "to_ascii_lower b = (if 65 \<le> b \<and> b \<le> 90 then b + 32 else b)"

definition eq_ignore_ascii_case :: "bytes \<Rightarrow> bytes \<Rightarrow> bool" where
  "eq_ignore_ascii_case a b \<longleftrightarrow> map to_ascii_lower a = map to_ascii_lower b"

definition trim :: "bytes \<Rightarrow> bytes" where
  "trim bs = rev (dropWhile is_ascii_whitespace (rev (dropWhile is_ascii_whitespace bs)))"

text \<open>\<open>splitn(n, sep)\<close>: at most \<open>n\<close> parts, the last one the unsplit rest.\<close>

fun splitn :: "nat \<Rightarrow> byte \<Rightarrow> bytes \<Rightarrow> bytes list" where
  "splitn 0 s xs = []"
| "splitn (Suc 0) s xs = [xs]"
| "splitn (Suc (Suc n)) s xs =
     (let p = takeWhile (\<lambda>b. b \<noteq> s) xs in
      if length p = length xs then [xs] else p # splitn (Suc n) s (drop (Suc (length p)) xs))"

definition user_agent_name :: bytes where
  "user_agent_name = [117, 115, 101, 114, 45, 97, 103, 101, 110, 116]"

definition host_name :: bytes where
  "host_name = [104, 111, 115, 116]"

text \<open>One header line; the count of lines seen is threaded through.\<close>

definition add_header :: "http_request \<Rightarrow> bytes \<Rightarrow> http_request" where
  "add_header request line =
     (let request = request\<lparr>rq_headers := (if rq_headers request = [] then []
            else rq_headers request @ [LF]) @ line\<rparr>;
          name = takeWhile (\<lambda>b. b \<noteq> 58) line in
      if length name = length line then request
      else let value = trim (drop (Suc (length name)) line) in
        if eq_ignore_ascii_case name user_agent_name then request\<lparr>rq_user_agent := Some value\<rparr>
        else if eq_ignore_ascii_case name host_name then request\<lparr>rq_host := Some value\<rparr>
        else request)"

fun parse_headers :: "bytes list \<Rightarrow> nat \<Rightarrow> http_request \<Rightarrow> http_request" where
  "parse_headers [] seen request = request"
| "parse_headers (line # rest) seen request =
     (let line = trim line in
      if line = [] then parse_headers rest seen request
      else let seen = seen + 1 in
        if max_headers < seen then request\<lparr>rq_truncated := True\<rparr>
        else parse_headers rest seen (add_header request line))"

definition parse_request_line :: "bytes \<Rightarrow> normalize_options \<Rightarrow> http_request option" where
  "parse_request_line request_line options =
     (if request_line = [] then None
      else case splitn 3 SP request_line of
          m # t # rest \<Rightarrow>
            let method = trim m; raw_uri = trim t;
                version = (case rest of [] \<Rightarrow> [] | v # _ \<Rightarrow> trim v) in
            if method = [] \<or> raw_uri = [] then None
            else if \<not> list_all is_ascii_alphabetic method then None
            else let path = takeWhile (\<lambda>b. b \<noteq> 63) raw_uri;
                     normalized = normalize_path path options
                 in Some \<lparr>rq_method = method, rq_raw_uri = raw_uri,
                      rq_uri = nz_bytes normalized @ drop (length path) raw_uri,
                      rq_normalization = nz_flags normalized, rq_version = version, rq_headers = [],
                      rq_user_agent = None, rq_host = None, rq_truncated = False\<rparr>
        | _ \<Rightarrow> None)"

definition parse_head :: "bytes \<Rightarrow> normalize_options \<Rightarrow> http_request option" where
  "parse_head head options =
     (case split_on LF head of
        [] \<Rightarrow> None
      | line # lines \<Rightarrow> map_option (parse_headers lines 0) (parse_request_line (trim line) options))"

section \<open>The incremental parser\<close>

lemma find_window_bounds: "find_window pat xs = Some p \<Longrightarrow> p + length pat \<le> length xs"
  by (induction xs arbitrary: p) (auto split: if_splits)

lemma find_head_end_bounds: "find_head_end xs = Some e \<Longrightarrow> 0 < e \<and> e \<le> length xs"
  using find_window_bounds [of "[CR, LF, CR, LF]" xs] find_window_bounds [of "[LF, LF]" xs]
  by (auto simp: find_head_end_def Let_def split: option.splits)

definition upd_hc :: "(http_counters \<Rightarrow> http_counters) \<Rightarrow> http_parser \<Rightarrow> http_parser" where
  "upd_hc f p = p\<lparr>hp_counters := f (hp_counters p)\<rparr>"

function http_loop :: "normalize_options \<Rightarrow> http_parser \<Rightarrow> http_request list \<Rightarrow>
    http_parser \<times> http_request list" where
  "http_loop options p requests =
     (case find_head_end (hp_buffer p) of
        None \<Rightarrow>
          (if hp_max_head p < length (hp_buffer p)
           then ((upd_hc (\<lambda>c. c\<lparr>hc_oversized := hc_oversized c + 1\<rparr>) p)
                   \<lparr>hp_buffer := [], hp_resynchronising := True\<rparr>, requests)
           else (p, requests))
      | Some end \<Rightarrow>
          let head = take end (hp_buffer p); p = p\<lparr>hp_buffer := drop end (hp_buffer p)\<rparr> in
          if hp_resynchronising p then http_loop options (p\<lparr>hp_resynchronising := False\<rparr>) requests
          else case parse_head head options of
              Some request \<Rightarrow> http_loop options (upd_hc (\<lambda>c. c\<lparr>hc_requests := hc_requests c + 1\<rparr>) p)
                (requests @ [request])
            | None \<Rightarrow> http_loop options (upd_hc (\<lambda>c. c\<lparr>hc_malformed := hc_malformed c + 1\<rparr>) p) requests)"
  by pat_completeness auto
termination
  by (relation "measure (\<lambda>(_, p, _). length (hp_buffer p))")
    (auto simp: upd_hc_def dest: find_head_end_bounds)

declare http_loop.simps [simp del]

definition http_push :: "http_parser \<Rightarrow> bytes \<Rightarrow> normalize_options \<Rightarrow> http_parser \<times> http_request list" where
  "http_push p bs options = http_loop options (p\<lparr>hp_buffer := hp_buffer p @ bs\<rparr>) []"

section \<open>Heads and chunks\<close>

lemma take_window: "\<not> length (x # xs) < n \<Longrightarrow> take n (x # xs @ ys) = take n (x # xs)"
  using take_append [of n "x # xs" ys] by simp

lemma find_window_append: "find_window pat xs = Some p \<Longrightarrow> find_window pat (xs @ ys) = Some p"
proof (induction xs arbitrary: p)
  case Nil
  then show ?case by (cases ys) (auto split: if_splits)
next
  case (Cons x xs)
  then show ?case using take_window [of x xs "length pat" ys] by (auto split: if_splits)
qed

text \<open>A window that shows up only once \<open>ys\<close> is there ends after \<open>xs\<close>.\<close>

lemma find_window_late:
  "find_window pat xs = None \<Longrightarrow> find_window pat (xs @ ys) = Some p \<Longrightarrow> length xs < p + length pat"
proof (induction xs arbitrary: p)
  case Nil
  then show ?case by (cases pat) auto
next
  case (Cons x xs)
  show ?case
  proof (cases "length (x # xs) < length pat")
    case True
    then show ?thesis by simp
  next
    case False
    with Cons.prems take_window [OF False, of ys]
    have n: "find_window pat xs = None" and "take (length pat) (x # xs @ ys) \<noteq> pat"
      by (auto split: if_splits)
    with Cons.prems(2) obtain q where "find_window pat (xs @ ys) = Some q" "p = Suc q"
      by (auto split: if_splits)
    with Cons.IH [OF n] show ?thesis by fastforce
  qed
qed

lemma find_head_end_append:
  assumes "find_head_end xs = Some e" shows "find_head_end (xs @ ys) = Some e"
proof -
  let ?c = "find_window [CR, LF, CR, LF]" and ?l = "find_window [LF, LF]"
  note late = find_window_late [of "[CR, LF, CR, LF]" xs ys] find_window_late [of "[LF, LF]" xs ys]
  note bounds = find_window_bounds [of "[CR, LF, CR, LF]" xs] find_window_bounds [of "[LF, LF]" xs]
  note app = find_window_append [of "[CR, LF, CR, LF]" xs _ ys] find_window_append [of "[LF, LF]" xs _ ys]
  show ?thesis
  proof (cases "?c xs"; cases "?l xs")
    fix a b
    assume "?c xs = Some a" "?l xs = Some b"
    with app assms show ?thesis by (auto simp: find_head_end_def)
  next
    fix a
    assume ca: "?c xs = Some a" and l: "?l xs = None"
    then have "?c (xs @ ys) = Some a" "e = a + 4" using app assms by (auto simp: find_head_end_def)
    with late(2) [OF l] bounds(1) [OF ca] show ?thesis
      by (cases "?l (xs @ ys)") (auto simp: find_head_end_def min_def)
  next
    fix b
    assume c: "?c xs = None" and lb: "?l xs = Some b"
    then have "?l (xs @ ys) = Some b" "e = b + 2" using app assms by (auto simp: find_head_end_def)
    with late(1) [OF c] bounds(2) [OF lb] show ?thesis
      by (cases "?c (xs @ ys)") (auto simp: find_head_end_def min_def)
  next
    assume "?c xs = None" "?l xs = None"
    with assms show ?thesis by (simp add: find_head_end_def)
  qed
qed

text \<open>What one complete head does: the parser after it, and the request it gives, if any.\<close>

definition head_step :: "normalize_options \<Rightarrow> http_parser \<Rightarrow> nat \<Rightarrow> http_parser \<times> http_request list" where
  "head_step options p e = (let q = p\<lparr>hp_buffer := drop e (hp_buffer p)\<rparr> in
     if hp_resynchronising p then (q\<lparr>hp_resynchronising := False\<rparr>, [])
     else case parse_head (take e (hp_buffer p)) options of
         Some r \<Rightarrow> (upd_hc (\<lambda>c. c\<lparr>hc_requests := hc_requests c + 1\<rparr>) q, [r])
       | None \<Rightarrow> (upd_hc (\<lambda>c. c\<lparr>hc_malformed := hc_malformed c + 1\<rparr>) q, []))"

lemma head_step_simps [simp]:
  "hp_buffer (fst (head_step options p e)) = drop e (hp_buffer p)"
  "hp_max_head (fst (head_step options p e)) = hp_max_head p"
  by (simp_all add: head_step_def Let_def upd_hc_def split: option.splits)

lemma http_loop_head:
  "find_head_end (hp_buffer p) = Some e \<Longrightarrow> http_loop options p requests =
     http_loop options (fst (head_step options p e)) (requests @ snd (head_step options p e))"
  by (simp add: http_loop.simps [of options p] head_step_def Let_def split: option.splits)

text \<open>The requests of a loop are appended to those it starts with.\<close>

lemma http_loop_requests:
  "http_loop options p requests =
     (fst (http_loop options p []), requests @ snd (http_loop options p []))"
proof (induction "length (hp_buffer p)" arbitrary: p requests rule: less_induct)
  case less
  show ?case
  proof (cases "find_head_end (hp_buffer p)")
    case None
    then show ?thesis by (simp add: http_loop.simps [of options p])
  next
    case (Some e)
    let ?q = "fst (head_step options p e)" and ?r = "snd (head_step options p e)"
    have "length (hp_buffer ?q) < length (hp_buffer p)"
      using find_head_end_bounds [OF Some] unfolding head_step_simps length_drop by linarith
    from less [OF this, of "requests @ ?r"] less [OF this, of ?r]
    show ?thesis by (simp add: http_loop_head [OF Some])
  qed
qed

lemma http_loop_end:
  "length (hp_buffer (fst (http_loop options p []))) \<le> hp_max_head p \<and>
   find_head_end (hp_buffer (fst (http_loop options p []))) = None \<and>
   hp_max_head (fst (http_loop options p [])) = hp_max_head p"
proof (induction "length (hp_buffer p)" arbitrary: p rule: less_induct)
  case less
  show ?case
  proof (cases "find_head_end (hp_buffer p)")
    case None
    then show ?thesis
      by (simp add: http_loop.simps [of options p] upd_hc_def) (simp add: find_head_end_def)
  next
    case (Some e)
    let ?q = "fst (head_step options p e)"
    have "length (hp_buffer ?q) < length (hp_buffer p)"
      using find_head_end_bounds [OF Some] unfolding head_step_simps length_drop by linarith
    from less [OF this] show ?thesis
      by (simp add: http_loop_head [OF Some] http_loop_requests [of options ?q "snd (head_step options p e)"])
  qed
qed

lemma head_step_append:
  assumes "e \<le> length (hp_buffer p)"
  shows "head_step options (p\<lparr>hp_buffer := hp_buffer p @ ys\<rparr>) e =
    (let (q, r) = head_step options p e in (q\<lparr>hp_buffer := hp_buffer q @ ys\<rparr>, r))"
  using assms by (simp add: head_step_def Let_def upd_hc_def split: option.splits)

text \<open>Below the cap, more bytes first and a loop after is a loop, more bytes, and a loop.\<close>

lemma http_loop_split:
  assumes "length (hp_buffer p) \<le> hp_max_head p"
  shows "http_loop options (p\<lparr>hp_buffer := hp_buffer p @ ys\<rparr>) [] =
    (let (q, r1) = http_loop options p [] in
     let (q', r2) = http_loop options (q\<lparr>hp_buffer := hp_buffer q @ ys\<rparr>) [] in (q', r1 @ r2))"
  using assms
proof (induction "length (hp_buffer p)" arbitrary: p rule: less_induct)
  case less
  show ?case
  proof (cases "find_head_end (hp_buffer p)")
    case None
    with less.prems show ?thesis by (simp add: http_loop.simps [of options p])
  next
    case (Some e)
    let ?q = "fst (head_step options p e)" and ?r = "snd (head_step options p e)"
    let ?p = "p\<lparr>hp_buffer := hp_buffer p @ ys\<rparr>"
    have e: "0 < e" "e \<le> length (hp_buffer p)" using find_head_end_bounds [OF Some] by auto
    then have ih: "http_loop options (?q\<lparr>hp_buffer := hp_buffer ?q @ ys\<rparr>) [] =
        (let (q, r1) = http_loop options ?q [] in
         let (q', r2) = http_loop options (q\<lparr>hp_buffer := hp_buffer q @ ys\<rparr>) [] in (q', r1 @ r2))"
      using less.prems by (intro less.hyps) auto
    have "find_head_end (hp_buffer ?p) = Some e" using find_head_end_append [OF Some, of ys] by simp
    from http_loop_head [OF this, of options "[]"]
    have "http_loop options ?p [] = http_loop options (?q\<lparr>hp_buffer := hp_buffer ?q @ ys\<rparr>) ?r"
      by (simp add: head_step_append [OF e(2)] case_prod_unfold Let_def)
    with ih http_loop_requests [of options "?q\<lparr>hp_buffer := hp_buffer ?q @ ys\<rparr>" ?r]
      http_loop_requests [of options ?q ?r] http_loop_head [OF Some, of options "[]"]
    show ?thesis by (simp add: case_prod_unfold Let_def)
  qed
qed

section \<open>Properties\<close>

lemma push_bounds:
  "http_buffered (fst (http_push p bs options)) \<le> hp_max_head p \<and> hp_max_head (fst (http_push p bs options)) = hp_max_head p"
  using http_loop_end [of options "p\<lparr>hp_buffer := hp_buffer p @ bs\<rparr>"]
  by (simp add: http_push_def http_buffered_def)

text \<open>The parser is bounded whatever arrives: after every push it holds at most its cap, and
  no complete head is left waiting.\<close>

theorem http_push_bounded:
  "http_buffered (fst (http_push p bs options)) \<le> hp_max_head p \<and>
   find_head_end (hp_buffer (fst (http_push p bs options))) = None \<and>
   hp_max_head (fst (http_push p bs options)) = hp_max_head p"
  using http_loop_end [of options "p\<lparr>hp_buffer := hp_buffer p @ bs\<rparr>"]
  by (simp add: http_push_def http_buffered_def)

text \<open>C40. Segmentation is invisible: splitting the bytes of a stream at any point, as an attacker
  choosing segment boundaries can, yields the same requests and leaves the parser in the same
  state, as long as the first part stays below the cap.\<close>

theorem http_push_split:
  assumes "http_buffered p + length xs \<le> hp_max_head p"
  shows "http_push p (xs @ ys) options =
    (let (q, r1) = http_push p xs options; (q', r2) = http_push q ys options in (q', r1 @ r2))"
  using http_loop_split [of "p\<lparr>hp_buffer := hp_buffer p @ xs\<rparr>" options ys] assms
  by (simp add: http_push_def http_buffered_def)

theorem http_push_split_witness:
  "http_push (http_parser_new 64) ([71, 69, 84] @ [32, 47, 10, 10]) default_normalize_options =
    (let (q, r1) = http_push (http_parser_new 64) [71, 69, 84] default_normalize_options;
         (q', r2) = http_push q [32, 47, 10, 10] default_normalize_options in (q', r1 @ r2))"
  by (rule http_push_split) (simp add: http_parser_new_def http_buffered_def)

section \<open>A request line\<close>

lemma trim_ends:
  assumes "bs \<noteq> []" "\<not> is_ascii_whitespace (hd bs)" "\<not> is_ascii_whitespace (last bs)"
  shows "trim bs = bs" "trim (bs @ [CR]) = bs"
proof -
  have "dropWhile is_ascii_whitespace bs = bs"
      "dropWhile is_ascii_whitespace (bs @ [CR]) = bs @ [CR]"
      "dropWhile is_ascii_whitespace (rev bs) = rev bs"
    using assms by (simp_all add: dropWhile_eq_self_iff hd_rev)
  then show "trim bs = bs" "trim (bs @ [CR]) = bs"
    by (simp_all add: trim_def) (simp add: is_ascii_whitespace_def)
qed

lemma splitn_first:
  assumes "SP \<notin> set m"
  shows "splitn (Suc (Suc n)) SP (m @ SP # rest) = m # splitn (Suc n) SP rest"
proof -
  have "takeWhile (\<lambda>b. b \<noteq> SP) (m @ SP # rest) = m"
    using assms by (subst takeWhile_append2) auto
  then show ?thesis by (simp add: Let_def)
qed

definition token :: "bytes \<Rightarrow> bool" where
  "token bs \<longleftrightarrow> bs \<noteq> [] \<and> (\<forall>b \<in> set bs. \<not> is_ascii_whitespace b)"

lemma token_plain: "token bs \<Longrightarrow> SP \<notin> set bs \<and> LF \<notin> set bs \<and> CR \<notin> set bs"
  by (auto simp: token_def is_ascii_whitespace_def)

lemma splitn_request:
  assumes "token m" "token t" "token v"
  shows "splitn 3 SP (m @ SP # t @ SP # v) = [m, t, v]"
  using token_plain [OF assms(1)] token_plain [OF assms(2)]
    splitn_first [of m 1 "t @ SP # v"] splitn_first [of t 0 v]
  by (simp add: numeral_3_eq_3)

text \<open>A request is seen as the server will serve it: for a request line of a method, a target and
  a version, the parser reports them as written, with the query left alone and the path in
  its canonical form, whatever the normalization options.\<close>

theorem request_line_parsed:
  assumes "token m" "token t" "token v" "list_all is_ascii_alphabetic m"
  shows "\<exists>r. parse_head (m @ SP # t @ SP # v @ [CR, LF, CR, LF]) options = Some r \<and>
    rq_method r = m \<and> rq_raw_uri r = t \<and> rq_version r = v \<and>
    rq_uri r = nz_bytes (normalize_path (takeWhile (\<lambda>b. b \<noteq> 63) t) options) @ dropWhile (\<lambda>b. b \<noteq> 63) t \<and>
    rq_headers r = [] \<and> \<not> rq_truncated r"
proof -
  let ?line = "m @ SP # t @ SP # v"
  have ne: "m \<noteq> []" "t \<noteq> []" "v \<noteq> []" and ws: "\<forall>b \<in> set m \<union> set t \<union> set v. \<not> is_ascii_whitespace b"
    using assms(1-3) by (auto simp: token_def)
  have nl: "LF \<notin> set (?line @ [CR])"
    using token_plain [OF assms(1)] token_plain [OF assms(2)] token_plain [OF assms(3)] by simp
  have split: "split_on LF ((?line @ [CR]) @ LF # [CR, LF]) = (?line @ [CR]) # [[CR], []]"
    unfolding split_on_first [OF nl] by simp
  have line: "trim (?line @ [CR]) = ?line"
    using ne ws by (intro trim_ends) auto
  have tr: "trim m = m" "trim t = t" "trim v = v" using ne ws by (auto intro!: trim_ends)
  have "parse_request_line ?line options = Some \<lparr>rq_method = m, rq_raw_uri = t,
      rq_uri = nz_bytes (normalize_path (takeWhile (\<lambda>b. b \<noteq> 63) t) options) @
        drop (length (takeWhile (\<lambda>b. b \<noteq> 63) t)) t,
      rq_normalization = nz_flags (normalize_path (takeWhile (\<lambda>b. b \<noteq> 63) t) options),
      rq_version = v, rq_headers = [], rq_user_agent = None, rq_host = None, rq_truncated = False\<rparr>"
    using assms(4) ne tr
    by (simp add: parse_request_line_def splitn_request [OF assms(1-3)] Let_def)
  moreover have "trim [CR] = []" by (simp add: trim_def is_ascii_whitespace_def)
  moreover have "trim [] = []" by (simp add: trim_def)
  ultimately show ?thesis
    using split line by (simp add: parse_head_def dropWhile_eq_drop)
qed

theorem request_line_parsed_witness:
  "\<exists>r. parse_head ([71, 69, 84] @ SP # [47, 97, 47, 46, 46, 47, 98] @ SP # [72] @ [CR, LF, CR, LF])
      default_normalize_options = Some r \<and> rq_uri r = [47, 98]"
proof -
  have "token [71, 69, 84]" "token [47, 97, 47, 46, 46, 47, 98]" "token [72]"
      "list_all is_ascii_alphabetic [71, 69, 84]"
    by (simp_all add: token_def is_ascii_whitespace_def is_ascii_alphabetic_def)
  from request_line_parsed [OF this, of default_normalize_options] show ?thesis
    by (auto simp: normalize_path_def percent_decode_repeatedly_def decode_loop.simps [of 0]
        percent_decode_def default_normalize_options_def Let_def collapse_path_def)
qed

text \<open>Giving up on an over-long head can cost the next request: when the buffer is cleared in
  the middle of the terminator, the parser does not see that head end and drops the next
  head, a complete request, as its tail.\<close>

theorem resync_swallows_request:
  "let (q, r1) = http_push (http_parser_new 64) (replicate 62 97 @ [CR, LF, CR]) default_normalize_options;
       (q', r2) = http_push q [LF, 71, 69, 84, 32, 47, 32, 72, CR, LF, CR, LF] default_normalize_options
   in r1 = [] \<and> r2 = [] \<and> hp_counters q' = \<lparr>hc_requests = 0, hc_oversized = 1, hc_malformed = 0\<rparr>"
  by code_simp

end
