(* ===== verification/Prevention.thy ===== *)
theory Prevention
  imports Net
begin

text \<open>
  The verdict store (\<open>crates/prevent/src/store.rs\<close>) and its statistics
  (\<open>PreventStats\<close> of \<open>crates/common/src/event.rs\<close>): what the inline path does with a packet,
  decided from the verdicts the detection path has recorded. \<open>Instant\<close> is the number of
  nanoseconds of the monotonic clock, and \<open>duration_since\<close> saturates at zero, as \<open>nat\<close>
  subtraction does. Log lines are left out.
\<close>

section \<open>Data\<close>

definition default_max_blocked_flows :: nat where
  "default_max_blocked_flows = 65536"

definition default_max_blocked_sources :: nat where
  "default_max_blocked_sources = 16384"

definition default_source_block :: duration where
  "default_source_block = secs 600"

datatype mode = Detect | Prevent

fun mode_as_str :: "mode \<Rightarrow> string" where
  "mode_as_str Detect = ''detect''"
| "mode_as_str Prevent = ''prevent''"

datatype fail_mode = Open | Closed

fun fail_mode_as_str :: "fail_mode \<Rightarrow> string" where
  "fail_mode_as_str Open = ''open''"
| "fail_mode_as_str Closed = ''closed''"

datatype drop_reason = FlowVerdict | BlockedSource

fun drop_reason_as_str :: "drop_reason \<Rightarrow> string" where
  "drop_reason_as_str FlowVerdict = ''flow_verdict''"
| "drop_reason_as_str BlockedSource = ''blocked_source''"

datatype decision = Accept | Drop drop_reason

fun is_drop :: "decision \<Rightarrow> bool" where
  "is_drop Accept = False"
| "is_drop (Drop _) = True"

datatype block_outcome = Blocked "ip_addr option" | NotArmed | AllowListed ip_addr | Full

record prevention_settings =
  ps_mode :: mode
  ps_fail_mode :: fail_mode
  ps_allow_list :: "ip_network list"
  ps_source_block :: duration
  ps_max_blocked_flows :: nat
  ps_max_blocked_sources :: nat

definition default_settings :: prevention_settings where
  "default_settings = \<lparr>ps_mode = Detect, ps_fail_mode = Open, ps_allow_list = [],
     ps_source_block = default_source_block, ps_max_blocked_flows = default_max_blocked_flows,
     ps_max_blocked_sources = default_max_blocked_sources\<rparr>"

record prevent_stats =
  st_enabled :: bool
  st_mode :: string
  st_fail_mode :: string
  packets_judged :: nat
  packets_dropped :: nat
  allow_listed_passes :: nat
  allow_listed_blocks_refused :: nat
  flows_blocked :: nat
  sources_blocked :: nat
  blocked_flows_active :: nat
  blocked_sources_active :: nat
  flow_verdicts_expired :: nat
  source_blocks_expired :: nat
  blocks_dropped_at_capacity :: nat
  fail_mode_packets :: nat
  verdict_latency_us_total :: nat
  verdict_latency_us_max :: nat
  verdict_latency_over_1ms :: nat
  verdict_latency_over_10ms :: nat
  queue_depth :: nat
  queue_depth_max :: nat
  queue_unjudged :: nat

definition default_prevent_stats :: prevent_stats where
  "default_prevent_stats = \<lparr>st_enabled = False, st_mode = [], st_fail_mode = [], packets_judged = 0,
     packets_dropped = 0, allow_listed_passes = 0, allow_listed_blocks_refused = 0, flows_blocked = 0,
     sources_blocked = 0, blocked_flows_active = 0, blocked_sources_active = 0,
     flow_verdicts_expired = 0, source_blocks_expired = 0, blocks_dropped_at_capacity = 0,
     fail_mode_packets = 0, verdict_latency_us_total = 0, verdict_latency_us_max = 0,
     verdict_latency_over_1ms = 0, verdict_latency_over_10ms = 0, queue_depth = 0,
     queue_depth_max = 0, queue_unjudged = 0\<rparr>"

record verdict_key =
  vk_protocol :: nat
  vk_lower :: endpoint
  vk_upper :: endpoint

text \<open>\<open>proto as u8\<close>: the discriminant, in declaration order.\<close>

fun protocol_u8 :: "protocol \<Rightarrow> nat" where
  "protocol_u8 Tcp = 0"
| "protocol_u8 Udp = 1"
| "protocol_u8 Icmp = 2"
| "protocol_u8 Ip = 3"

definition from_tuple :: "net_tuple \<Rightarrow> verdict_key" where
  "from_tuple t =
     (let first = (src_ip t, unwrap_or (src_port t) 0);
          second = (dest_ip t, unwrap_or (dest_port t) 0);
          (lower, upper) = (if first \<le> second then (first, second) else (second, first))
      in \<lparr>vk_protocol = protocol_u8 (proto t), vk_lower = lower, vk_upper = upper\<rparr>)"

record prevention =
  pv_settings :: prevention_settings
  pv_flows :: "(verdict_key, instant) hashmap"
  pv_sources :: "(ip_addr, instant) hashmap"
  pv_stats :: prevent_stats

text \<open>One line of \<open>/proc/net/netfilter/nfnetlink_queue\<close> (\<open>crates/prevent/src/depth.rs\<close>).\<close>

record queue_depth_line =
  qd_queue_num :: nat
  qd_queued :: nat
  qd_queue_dropped :: nat
  qd_user_dropped :: nat
  qd_id_sequence :: nat

definition unjudged :: "queue_depth_line \<Rightarrow> nat" where
  "unjudged d = qd_queue_dropped d + qd_user_dropped d"

section \<open>Operations\<close>

definition prevention_new :: "prevention_settings \<Rightarrow> prevention" where
  "prevention_new s = \<lparr>pv_settings = s, pv_flows = [], pv_sources = [],
     pv_stats = default_prevent_stats\<lparr>st_enabled := True, st_mode := mode_as_str (ps_mode s),
       st_fail_mode := fail_mode_as_str (ps_fail_mode s)\<rparr>\<rparr>"

definition armed :: "prevention \<Rightarrow> bool" where
  "armed p \<longleftrightarrow> ps_mode (pv_settings p) = Prevent"

definition upd_stats :: "(prevent_stats \<Rightarrow> prevent_stats) \<Rightarrow> prevention \<Rightarrow> prevention" where
  "upd_stats f p = p\<lparr>pv_stats := f (pv_stats p)\<rparr>"

definition set_mode :: "prevention \<Rightarrow> mode \<Rightarrow> prevention" where
  "set_mode p m = upd_stats (\<lambda>s. s\<lparr>st_mode := mode_as_str m\<rparr>)
     (p\<lparr>pv_settings := (pv_settings p)\<lparr>ps_mode := m\<rparr>\<rparr>)"

definition is_allow_listed :: "prevention \<Rightarrow> ip_addr \<Rightarrow> bool" where
  "is_allow_listed p address \<longleftrightarrow> list_ex (\<lambda>n. net_contains n address) (ps_allow_list (pv_settings p))"

definition decide :: "prevention \<Rightarrow> net_tuple \<Rightarrow> instant \<Rightarrow> prevention \<times> decision" where
  "decide p t now =
     (let p = upd_stats (\<lambda>s. s\<lparr>packets_judged := packets_judged s + 1\<rparr>) p in
      if \<not> armed p then (p, Accept)
      else if is_allow_listed p (src_ip t) \<or> is_allow_listed p (dest_ip t)
      then (upd_stats (\<lambda>s. s\<lparr>allow_listed_passes := allow_listed_passes s + 1\<rparr>) p, Accept)
      else if hm_contains (pv_flows p) (from_tuple t)
      then (upd_stats (\<lambda>s. s\<lparr>packets_dropped := packets_dropped s + 1\<rparr>) p, Drop FlowVerdict)
      else case hm_get (pv_sources p) (src_ip t) of
          None \<Rightarrow> (p, Accept)
        | Some until \<Rightarrow>
            if now < until
            then (upd_stats (\<lambda>s. s\<lparr>packets_dropped := packets_dropped s + 1\<rparr>) p, Drop BlockedSource)
            else (upd_stats (\<lambda>s. s\<lparr>source_blocks_expired := source_blocks_expired s + 1\<rparr>)
                    (p\<lparr>pv_sources := hm_remove (src_ip t) (pv_sources p)\<rparr>), Accept))"

text \<open>The first allow-listed endpoint, source before destination.\<close>

definition refused_address :: "prevention \<Rightarrow> net_tuple \<Rightarrow> ip_addr option" where
  "refused_address p t = find (is_allow_listed p) [src_ip t, dest_ip t]"

definition block :: "prevention \<Rightarrow> net_tuple \<Rightarrow> instant \<Rightarrow> prevention \<times> block_outcome" where
  "block p t now =
     (if \<not> armed p then (p, NotArmed)
      else case refused_address p t of
          Some address \<Rightarrow>
            (upd_stats (\<lambda>s. s\<lparr>allow_listed_blocks_refused := allow_listed_blocks_refused s + 1\<rparr>) p,
             AllowListed address)
        | None \<Rightarrow>
            if ps_max_blocked_flows (pv_settings p) \<le> length (pv_flows p) \<or>
               ps_max_blocked_sources (pv_settings p) \<le> length (pv_sources p)
            then (upd_stats (\<lambda>s. s\<lparr>blocks_dropped_at_capacity := blocks_dropped_at_capacity s + 1\<rparr>) p, Full)
            else
              let p = upd_stats (\<lambda>s. s\<lparr>flows_blocked := flows_blocked s + 1\<rparr>)
                    (p\<lparr>pv_flows := hm_insert (from_tuple t) now (pv_flows p)\<rparr>);
                  expiry = now + ps_source_block (pv_settings p);
                  source = src_ip t;
                  already = hm_contains (pv_sources p) source;
                  p = p\<lparr>pv_sources := hm_insert source expiry (pv_sources p)\<rparr>;
                  p = (if already then p
                       else upd_stats (\<lambda>s. s\<lparr>sources_blocked := sources_blocked s + 1\<rparr>) p)
              in (p, Blocked (Some source)))"

definition expire :: "prevention \<Rightarrow> instant \<Rightarrow> prevention" where
  "expire p now =
     (let horizon = ps_source_block (pv_settings p);
          before = length (pv_flows p);
          p = p\<lparr>pv_flows := hm_retain (\<lambda>_ at. now - at < horizon) (pv_flows p)\<rparr>;
          p = upd_stats (\<lambda>s. s\<lparr>flow_verdicts_expired :=
                flow_verdicts_expired s + (before - length (pv_flows p))\<rparr>) p;
          before = length (pv_sources p);
          p = p\<lparr>pv_sources := hm_retain (\<lambda>_ until. now < until) (pv_sources p)\<rparr>
      in upd_stats (\<lambda>s. s\<lparr>source_blocks_expired :=
                source_blocks_expired s + (before - length (pv_sources p))\<rparr>) p)"

definition prevention_stats :: "prevention \<Rightarrow> prevent_stats" where
  "prevention_stats p = (pv_stats p)\<lparr>blocked_flows_active := length (pv_flows p),
     blocked_sources_active := length (pv_sources p)\<rparr>"

definition record_latency :: "prevention \<Rightarrow> nat \<Rightarrow> prevention" where
  "record_latency p micros = upd_stats (\<lambda>s. s\<lparr>
     verdict_latency_us_total := verdict_latency_us_total s + micros,
     verdict_latency_us_max := max (verdict_latency_us_max s) micros,
     verdict_latency_over_1ms := verdict_latency_over_1ms s + (if 1000 < micros then 1 else 0),
     verdict_latency_over_10ms := verdict_latency_over_10ms s + (if 10000 < micros then 1 else 0)\<rparr>) p"

definition record_queue_depth :: "prevention \<Rightarrow> queue_depth_line \<Rightarrow> prevention" where
  "record_queue_depth p d = upd_stats (\<lambda>s. s\<lparr>queue_depth := qd_queued d,
     queue_depth_max := max (queue_depth_max s) (qd_queued d), queue_unjudged := unjudged d\<rparr>) p"

definition record_fail_mode_applied :: "prevention \<Rightarrow> nat \<Rightarrow> prevention" where
  "record_fail_mode_applied p packets =
     upd_stats (\<lambda>s. s\<lparr>fail_mode_packets := fail_mode_packets s + packets\<rparr>) p"

section \<open>One packet\<close>

lemma upd_stats_simps [simp]:
  "pv_settings (upd_stats f p) = pv_settings p" "pv_flows (upd_stats f p) = pv_flows p"
  "pv_sources (upd_stats f p) = pv_sources p" "pv_stats (upd_stats f p) = f (pv_stats p)"
  "armed (upd_stats f p) = armed p" "is_allow_listed (upd_stats f p) = is_allow_listed p"
  by (simp_all add: upd_stats_def armed_def is_allow_listed_def fun_eq_iff)

text \<open>When a packet is dropped: exactly when enforcement is armed, no endpoint is allow-listed,
  and a verdict stands against its conversation or its source.\<close>

definition condemned :: "prevention \<Rightarrow> net_tuple \<Rightarrow> instant \<Rightarrow> bool" where
  "condemned p t now \<longleftrightarrow> hm_contains (pv_flows p) (from_tuple t) \<or>
     (\<exists>until. hm_get (pv_sources p) (src_ip t) = Some until \<and> now < until)"

definition protected :: "prevention \<Rightarrow> net_tuple \<Rightarrow> bool" where
  "protected p t \<longleftrightarrow> is_allow_listed p (src_ip t) \<or> is_allow_listed p (dest_ip t)"

lemma decide_drop_iff:
  "is_drop (snd (decide p t now)) \<longleftrightarrow> armed p \<and> \<not> protected p t \<and> condemned p t now"
  by (auto simp: decide_def Let_def condemned_def protected_def split: option.splits)

text \<open>What judging a packet does to the store: at most it forgets a lapsed source.\<close>

lemma decide_state:
  assumes "decide p t now = (p', d)"
  shows "pv_settings p' = pv_settings p" "pv_flows p' = pv_flows p"
    "pv_sources p' = pv_sources p \<or>
      pv_sources p' = hm_remove (src_ip t) (pv_sources p) \<and>
      (\<exists>until. hm_get (pv_sources p) (src_ip t) = Some until \<and> until \<le> now)"
  using assms by (auto simp: decide_def Let_def split: if_splits option.splits)

lemma block_state:
  assumes "block p t now = (p', out)"
  shows "pv_settings p' = pv_settings p"
    "(out \<noteq> Blocked (Some (src_ip t)) \<and> pv_flows p' = pv_flows p \<and> pv_sources p' = pv_sources p) \<or>
     (out = Blocked (Some (src_ip t)) \<and> armed p \<and> \<not> protected p t \<and>
      length (pv_flows p) < ps_max_blocked_flows (pv_settings p) \<and>
      length (pv_sources p) < ps_max_blocked_sources (pv_settings p) \<and>
      pv_flows p' = hm_insert (from_tuple t) now (pv_flows p) \<and>
      pv_sources p' = hm_insert (src_ip t) (now + ps_source_block (pv_settings p)) (pv_sources p))"
  using assms
  by (auto simp: block_def Let_def refused_address_def protected_def split: if_splits option.splits)

lemma expire_state:
  "pv_settings (expire p now) = pv_settings p"
  "pv_flows (expire p now) = hm_retain (\<lambda>_ at. now - at < ps_source_block (pv_settings p)) (pv_flows p)"
  "pv_sources (expire p now) = hm_retain (\<lambda>_ until. now < until) (pv_sources p)"
  by (simp_all add: expire_def Let_def)

section \<open>Any sequence of calls\<close>

datatype prevent_op = Judge net_tuple instant | Condemn net_tuple instant | Lapse instant
  | SetMode mode | Latency nat | Depth queue_depth_line | FailModeApplied nat

fun prevent_step :: "prevention \<Rightarrow> prevent_op \<Rightarrow> prevention" where
  "prevent_step p (Judge t now) = fst (decide p t now)"
| "prevent_step p (Condemn t now) = fst (block p t now)"
| "prevent_step p (Lapse now) = expire p now"
| "prevent_step p (SetMode m) = set_mode p m"
| "prevent_step p (Latency micros) = record_latency p micros"
| "prevent_step p (Depth d) = record_queue_depth p d"
| "prevent_step p (FailModeApplied n) = record_fail_mode_applied p n"

lemma bookkeeping_simps [simp]:
  "pv_settings (record_latency p n) = pv_settings p" "pv_flows (record_latency p n) = pv_flows p"
  "pv_sources (record_latency p n) = pv_sources p"
  "pv_settings (record_queue_depth p d) = pv_settings p" "pv_flows (record_queue_depth p d) = pv_flows p"
  "pv_sources (record_queue_depth p d) = pv_sources p"
  "pv_settings (record_fail_mode_applied p n) = pv_settings p"
  "pv_flows (record_fail_mode_applied p n) = pv_flows p"
  "pv_sources (record_fail_mode_applied p n) = pv_sources p"
  by (simp_all add: record_latency_def record_queue_depth_def record_fail_mode_applied_def)

lemma set_mode_simps [simp]:
  "pv_flows (set_mode p m) = pv_flows p" "pv_sources (set_mode p m) = pv_sources p"
  "pv_settings (set_mode p m) = (pv_settings p)\<lparr>ps_mode := m\<rparr>"
  by (simp_all add: set_mode_def)

definition key_listed :: "prevention \<Rightarrow> verdict_key \<Rightarrow> bool" where
  "key_listed p k \<longleftrightarrow> is_allow_listed p (fst (vk_lower k)) \<or> is_allow_listed p (fst (vk_upper k))"

definition prevention_wf :: "prevention_settings \<Rightarrow> prevention \<Rightarrow> bool" where
  "prevention_wf s p \<longleftrightarrow> (pv_settings p)\<lparr>ps_mode := ps_mode s\<rparr> = s \<and>
     hm_invar (pv_flows p) \<and> hm_invar (pv_sources p) \<and>
     length (pv_flows p) \<le> ps_max_blocked_flows s \<and> length (pv_sources p) \<le> ps_max_blocked_sources s \<and>
     (\<forall>k. hm_get (pv_flows p) k \<noteq> None \<longrightarrow> \<not> key_listed p k) \<and>
     (\<forall>a. hm_get (pv_sources p) a \<noteq> None \<longrightarrow> \<not> is_allow_listed p a)"

text \<open>The settings a store was built with, but for the mode, never change.\<close>

lemma settings_kept:
  assumes "(pv_settings p)\<lparr>ps_mode := ps_mode s\<rparr> = s"
  shows "ps_allow_list (pv_settings p) = ps_allow_list s"
    "ps_source_block (pv_settings p) = ps_source_block s"
    "ps_max_blocked_flows (pv_settings p) = ps_max_blocked_flows s"
    "ps_max_blocked_sources (pv_settings p) = ps_max_blocked_sources s"
  using arg_cong [OF assms, of ps_allow_list] arg_cong [OF assms, of ps_source_block]
    arg_cong [OF assms, of ps_max_blocked_flows] arg_cong [OF assms, of ps_max_blocked_sources]
  by simp_all

lemma key_listed_from_tuple: "key_listed p (from_tuple t) = protected p t"
  by (auto simp: key_listed_def from_tuple_def protected_def Let_def)

text \<open>Forgetting entries keeps the invariant.\<close>

lemma prevention_wf_shrink:
  assumes "prevention_wf s p" "pv_settings p' = (pv_settings p)\<lparr>ps_mode := m\<rparr>"
    "hm_invar (pv_flows p')" "hm_invar (pv_sources p')"
    "length (pv_flows p') \<le> length (pv_flows p)" "length (pv_sources p') \<le> length (pv_sources p)"
    "\<And>k. hm_get (pv_flows p') k \<noteq> None \<Longrightarrow> hm_get (pv_flows p) k \<noteq> None"
    "\<And>a. hm_get (pv_sources p') a \<noteq> None \<Longrightarrow> hm_get (pv_sources p) a \<noteq> None"
  shows "prevention_wf s p'"
proof -
  have "is_allow_listed p' = is_allow_listed p"
    using assms(2) by (simp add: is_allow_listed_def fun_eq_iff)
  with assms show ?thesis by (fastforce simp: prevention_wf_def key_listed_def)
qed

lemma prevent_step_wf:
  assumes wf: "prevention_wf s p" shows "prevention_wf s (prevent_step p op)"
proof -
  have inv: "hm_invar (pv_flows p)" "hm_invar (pv_sources p)"
    and lim: "ps_max_blocked_flows (pv_settings p) = ps_max_blocked_flows s"
      "ps_max_blocked_sources (pv_settings p) = ps_max_blocked_sources s"
    using wf settings_kept [where p = p and s = s] by (simp_all add: prevention_wf_def)
  show ?thesis
  proof (cases op)
    case (Judge t now)
    obtain p' d where d: "decide p t now = (p', d)" by (cases "decide p t now")
    note ds = decide_state [OF d]
    have "prevention_wf s p'"
      by (rule prevention_wf_shrink [OF wf, of _ "ps_mode (pv_settings p)"])
        (use ds inv hm.size_remove [OF inv(2), of "src_ip t"] in
          \<open>auto simp: hm.get_remove split: if_splits\<close>)
    with Judge d show ?thesis by simp
  next
    case (Condemn t now)
    obtain p' out where b: "block p t now = (p', out)" by (cases "block p t now")
    have al: "is_allow_listed p' = is_allow_listed p"
      using block_state(1) [OF b] by (simp add: is_allow_listed_def fun_eq_iff)
    have "prevention_wf s p'"
    proof (cases "out = Blocked (Some (src_ip t))")
      case False
      with wf block_state [OF b] al show ?thesis by (auto simp: prevention_wf_def key_listed_def)
    next
      case True
      with block_state(2) [OF b]
      have r: "\<not> protected p t" "length (pv_flows p) < ps_max_blocked_flows (pv_settings p)"
          "length (pv_sources p) < ps_max_blocked_sources (pv_settings p)"
          "pv_flows p' = hm_insert (from_tuple t) now (pv_flows p)"
          "pv_sources p' = hm_insert (src_ip t) (now + ps_source_block (pv_settings p)) (pv_sources p)"
        by auto
      have "length (pv_flows p') \<le> ps_max_blocked_flows s" "length (pv_sources p') \<le> ps_max_blocked_sources s"
        using r lim hm.size_insert [OF inv(1)] hm.size_insert [OF inv(2)] by (auto split: if_splits)
      moreover have "\<not> key_listed p (from_tuple t)" "\<not> is_allow_listed p (src_ip t)"
        using r(1) by (auto simp: key_listed_from_tuple protected_def)
      ultimately show ?thesis
        using wf block_state(1) [OF b] al inv r(4,5)
        by (auto simp: prevention_wf_def key_listed_def hm.get_insert)
    qed
    with Condemn b show ?thesis by simp
  next
    case (Lapse now)
    have "prevention_wf s (expire p now)"
      by (rule prevention_wf_shrink [OF wf, of _ "ps_mode (pv_settings p)"])
        (use inv hm.size_retain [OF inv(1)] hm.size_retain [OF inv(2)] in
          \<open>auto simp: expire_state hm.get_retain split: option.splits if_splits\<close>)
    with Lapse show ?thesis by simp
  next
    case (SetMode m)
    have "prevention_wf s (set_mode p m)"
      by (rule prevention_wf_shrink [OF wf, of _ m]) (use inv in auto)
    with SetMode show ?thesis by simp
  qed (use wf in \<open>auto simp: prevention_wf_def key_listed_def is_allow_listed_def\<close>)
qed

interpretation prevent_ops: invariant_machine "\<lambda>p. p = prevention_new s" prevent_step "prevention_wf s" for s
proof unfold_locales
  show "p = prevention_new s \<Longrightarrow> prevention_wf s p" for p
    by (simp add: prevention_wf_def prevention_new_def)
qed (rule prevent_step_wf)

section \<open>Properties\<close>

text \<open>C9. The allow-list is absolute: after any sequence of judgements, block requests, expiries and
  mode changes, no packet to or from an allow-listed address is dropped, and no such address
  is in the set of blocked sources.\<close>

theorem allow_list_absolute:
  assumes "net_contains n (src_ip t) \<or> net_contains n (dest_ip t)" "n \<in> set (ps_allow_list s)"
  shows "snd (decide (foldl prevent_step (prevention_new s) ops) t now) = Accept \<and>
    (\<forall>a. net_contains n a \<longrightarrow> \<not> hm_contains (pv_sources (foldl prevent_step (prevention_new s) ops)) a)"
proof -
  let ?p = "foldl prevent_step (prevention_new s) ops"
  have wf: "prevention_wf s ?p" by (rule prevent_ops.inv_reachable) simp
  then have al: "ps_allow_list (pv_settings ?p) = ps_allow_list s"
    using settings_kept [where p = ?p and s = s] by (simp add: prevention_wf_def)
  have "protected ?p t" using assms al by (auto simp: protected_def is_allow_listed_def list_ex_iff)
  then have "\<not> is_drop (snd (decide ?p t now))" by (simp add: decide_drop_iff)
  then have "snd (decide ?p t now) = Accept" by (cases "snd (decide ?p t now)") auto
  with wf assms(2) al show ?thesis
    by (auto simp: prevention_wf_def hm_contains_def is_allow_listed_def list_ex_iff)
qed

theorem allow_list_absolute_witness:
  "snd (decide (foldl prevent_step (prevention_new (default_settings\<lparr>ps_mode := Prevent,
       ps_allow_list := [\<lparr>net_address = V4 9, net_prefix_len = 32\<rparr>]\<rparr>))
     [Condemn \<lparr>src_ip = V4 9, src_port = None, dest_ip = V4 2, dest_port = None, proto = Icmp\<rparr> 0])
     \<lparr>src_ip = V4 9, src_port = None, dest_ip = V4 2, dest_port = None, proto = Icmp\<rparr> 1) = Accept"
proof -
  have "net_contains \<lparr>net_address = V4 9, net_prefix_len = 32\<rparr> (V4 9)"
    by (simp add: net_contains_def masked_v4_def)
  with allow_list_absolute [of "\<lparr>net_address = V4 9, net_prefix_len = 32\<rparr>"
      "\<lparr>src_ip = V4 9, src_port = None, dest_ip = V4 2, dest_port = None, proto = Icmp\<rparr>"
      "default_settings\<lparr>ps_mode := Prevent, ps_allow_list := [\<lparr>net_address = V4 9, net_prefix_len = 32\<rparr>]\<rparr>"
      "[Condemn \<lparr>src_ip = V4 9, src_port = None, dest_ip = V4 2, dest_port = None, proto = Icmp\<rparr> 0]" 1]
  show ?thesis by simp
qed

text \<open>Prevention state is bounded: whatever is asked of it, the store holds at most its configured
  number of condemned flows and of blocked sources, and reports exactly how many it holds.\<close>

theorem prevention_bounded:
  "let p = foldl prevent_step (prevention_new s) ops in
     length (pv_flows p) \<le> ps_max_blocked_flows s \<and> length (pv_sources p) \<le> ps_max_blocked_sources s \<and>
     blocked_flows_active (prevention_stats p) = card (dom (hm_get (pv_flows p))) \<and>
     blocked_sources_active (prevention_stats p) = card (dom (hm_get (pv_sources p)))"
proof -
  have "prevention_wf s (foldl prevent_step (prevention_new s) ops)"
    by (rule prevent_ops.inv_reachable) simp
  then show ?thesis
    by (simp add: prevention_wf_def prevention_stats_def Let_def hm_len_dom [symmetric])
qed

text \<open>The kill switch: from the moment the sensor is disarmed, and until somebody arms it again,
  every packet is accepted whatever was recorded before and whatever is asked for since, and
  no new verdict is recorded.\<close>

theorem kill_switch:
  assumes "SetMode Prevent \<notin> set ops"
  shows "snd (decide (foldl prevent_step (set_mode p Detect) ops) t now) = Accept \<and>
    set (pv_flows (foldl prevent_step (set_mode p Detect) ops)) \<subseteq> set (pv_flows p) \<and>
    set (pv_sources (foldl prevent_step (set_mode p Detect) ops)) \<subseteq> set (pv_sources p)"
proof -
  have "\<not> armed (foldl prevent_step q ops) \<and>
      set (pv_flows (foldl prevent_step q ops)) \<subseteq> set (pv_flows q) \<and>
      set (pv_sources (foldl prevent_step q ops)) \<subseteq> set (pv_sources q)" if "\<not> armed q" for q
    using assms that
  proof (induction ops arbitrary: q)
    case (Cons op ops)
    have "\<not> armed (prevent_step q op) \<and> set (pv_flows (prevent_step q op)) \<subseteq> set (pv_flows q) \<and>
        set (pv_sources (prevent_step q op)) \<subseteq> set (pv_sources q)"
    proof (cases op)
      case (SetMode m)
      with Cons.prems show ?thesis by (cases m) (auto simp: armed_def)
    next
      case (Lapse now)
      with Cons.prems show ?thesis by (auto simp: armed_def expire_state hm_retain_def)
    qed (use Cons.prems in \<open>auto simp: decide_def block_def armed_def Let_def\<close>)
    with Cons.IH [of "prevent_step q op"] Cons.prems(1) show ?case by auto
  qed simp
  from this [of "set_mode p Detect"]
  show ?thesis by (auto simp: armed_def decide_def Let_def)
qed

theorem kill_switch_witness:
  "snd (decide (foldl prevent_step (set_mode (prevention_new default_settings) Detect)
     [Condemn \<lparr>src_ip = V4 1, src_port = None, dest_ip = V4 2, dest_port = None, proto = Icmp\<rparr> 0])
     \<lparr>src_ip = V4 1, src_port = None, dest_ip = V4 2, dest_port = None, proto = Icmp\<rparr> 1) = Accept"
  using kill_switch [of "[Condemn \<lparr>src_ip = V4 1, src_port = None, dest_ip = V4 2, dest_port = None,
      proto = Icmp\<rparr> 0]"] by (simp del: foldl.simps)

definition reverse_tuple :: "net_tuple \<Rightarrow> net_tuple" where
  "reverse_tuple t = \<lparr>src_ip = dest_ip t, src_port = dest_port t, dest_ip = src_ip t,
     dest_port = src_port t, proto = proto t\<rparr>"

lemma from_tuple_reverse: "from_tuple (reverse_tuple t) = from_tuple t"
  by (auto simp: from_tuple_def reverse_tuple_def Let_def)

text \<open>What may happen between a block and its expiry without ending it: anything but disarming,
  with the clock running forward from the block and an expiry only before the horizon.\<close>

definition within :: "instant \<Rightarrow> duration \<Rightarrow> prevent_op \<Rightarrow> bool" where
  "within now horizon op = (case op of
       Condemn t tm \<Rightarrow> now \<le> tm | Lapse tm \<Rightarrow> now \<le> tm \<and> tm < now + horizon
     | SetMode m \<Rightarrow> m = Prevent | _ \<Rightarrow> True)"

definition standing :: "prevention_settings \<Rightarrow> verdict_key \<Rightarrow> instant \<Rightarrow> prevention \<Rightarrow> bool" where
  "standing s key now q \<longleftrightarrow> prevention_wf s q \<and> armed q \<and>
     (\<exists>at. hm_get (pv_flows q) key = Some at \<and> now \<le> at)"

lemma standing_step:
  assumes st: "standing s key now q" and op: "within now (ps_source_block s) op"
  shows "standing s key now (prevent_step q op)"
proof -
  have wf: "prevention_wf s q" and arm: "armed q"
    using st by (auto simp: standing_def)
  obtain at where at: "hm_get (pv_flows q) key = Some at" "now \<le> at"
    using st by (auto simp: standing_def)
  have inv: "hm_invar (pv_flows q)" and hz: "ps_source_block (pv_settings q) = ps_source_block s"
    using wf settings_kept [where p = q and s = s] by (simp_all add: prevention_wf_def)
  have "armed (prevent_step q op) \<and> (\<exists>at. hm_get (pv_flows (prevent_step q op)) key = Some at \<and> now \<le> at)"
  proof (cases op)
    case (Judge t tm)
    with decide_state [of q t tm] arm at show ?thesis
      by (cases "decide q t tm") (auto simp: armed_def)
  next
    case (Condemn t tm)
    obtain p' out where b: "block q t tm = (p', out)" by (cases "block q t tm")
    from block_state [OF b] Condemn b arm at op inv show ?thesis
      by (auto simp: armed_def within_def hm.get_insert)
  next
    case (Lapse tm)
    with op at inv hz arm show ?thesis
      by (auto simp: expire_state hm.get_retain within_def armed_def)
  next
    case (SetMode m)
    with op at show ?thesis by (simp add: within_def armed_def)
  qed (use arm at in \<open>auto simp: armed_def\<close>)
  with prevent_step_wf [OF wf] show ?thesis by (simp add: standing_def)
qed

text \<open>The same for the source: it is forgotten only by a judgement or an expiry after its time.\<close>

definition judged_before :: "instant \<Rightarrow> prevent_op \<Rightarrow> bool" where
  "judged_before until op = (case op of Judge t tm \<Rightarrow> tm < until | _ \<Rightarrow> True)"

definition standing_source :: "prevention_settings \<Rightarrow> ip_addr \<Rightarrow> instant \<Rightarrow> prevention \<Rightarrow> bool" where
  "standing_source s a until q \<longleftrightarrow> prevention_wf s q \<and> armed q \<and> (\<exists>u. hm_get (pv_sources q) a = Some u \<and> until \<le> u)"

lemma standing_source_step:
  assumes st: "standing_source s a (now + ps_source_block s) q" and op: "within now (ps_source_block s) op"
    and early: "judged_before (now + ps_source_block s) op"
  shows "standing_source s a (now + ps_source_block s) (prevent_step q op)"
proof -
  have wf: "prevention_wf s q" and arm: "armed q" using st by (auto simp: standing_source_def)
  obtain u where u: "hm_get (pv_sources q) a = Some u" "now + ps_source_block s \<le> u" using st by (auto simp: standing_source_def)
  have inv: "hm_invar (pv_sources q)" and hz: "ps_source_block (pv_settings q) = ps_source_block s"
    using wf settings_kept [where p = q and s = s] by (simp_all add: prevention_wf_def)
  have "armed (prevent_step q op) \<and> (\<exists>u. hm_get (pv_sources (prevent_step q op)) a = Some u \<and> now + ps_source_block s \<le> u)"
  proof (cases op)
    case (Judge t tm)
    with decide_state [of q t tm] arm u early inv show ?thesis
      by (cases "decide q t tm") (fastforce simp: armed_def judged_before_def hm.get_remove)
  next
    case (Condemn t tm)
    obtain p' out where b: "block q t tm = (p', out)" by (cases "block q t tm")
    from block_state [OF b] Condemn b arm u op inv hz show ?thesis
      by (auto simp: armed_def within_def hm.get_insert)
  next
    case (Lapse tm)
    with op u inv arm show ?thesis by (auto simp: expire_state hm.get_retain within_def armed_def)
  next
    case (SetMode m)
    with op u show ?thesis by (simp add: within_def armed_def)
  qed (use arm u in \<open>auto simp: armed_def\<close>)
  with prevent_step_wf [OF wf] show ?thesis by (simp add: standing_source_def)
qed

text \<open>C8. A verdict, once recorded, is enforced. When a block request has been granted, every later packet with the 5-tuple of the request or with
  the reverse of it is dropped, whatever packets, further block requests, expiries and mode settings come in between, as long as the clock
  of requests and expiries does not go back, the expiries come before the block time is over and no mode setting disarms. Until the block time is over, and as long as no packet has been judged
  after it, every packet from the condemned source to a host that is not on the allow-list is dropped too.\<close>

theorem blocked_conversation_dropped:
  assumes init: "p = foldl prevent_step (prevention_new s) ops"
    and b: "block p t now = (p', Blocked src)"
    and ops': "\<forall>op \<in> set ops'. within now (ps_source_block s) op"
  shows "snd (decide (foldl prevent_step p' ops') t tm) = Drop FlowVerdict \<and>
    snd (decide (foldl prevent_step p' ops') (reverse_tuple t) tm) = Drop FlowVerdict \<and>
    (src_ip t' = src_ip t \<and> \<not> is_allow_listed p (dest_ip t') \<and> tm < now + ps_source_block s \<and>
      (\<forall>op \<in> set ops'. judged_before (now + ps_source_block s) op) \<longrightarrow> is_drop (snd (decide (foldl prevent_step p' ops') t' tm)))"
proof -
  have wf: "prevention_wf s p" unfolding init by (rule prevent_ops.inv_reachable) simp
  have bs: "armed p" "\<not> protected p t" "pv_settings p' = pv_settings p"
      "pv_flows p' = hm_insert (from_tuple t) now (pv_flows p)"
      "pv_sources p' = hm_insert (src_ip t) (now + ps_source_block (pv_settings p)) (pv_sources p)"
    using block_state [OF b] b by (auto simp: block_def Let_def split: if_splits option.splits)
  have inv: "hm_invar (pv_flows p)" "hm_invar (pv_sources p)"
    and hz: "ps_source_block (pv_settings p) = ps_source_block s"
    using wf settings_kept [where p = p and s = s] by (simp_all add: prevention_wf_def)
  have wf': "prevention_wf s p'" using prevent_step_wf [OF wf, of "Condemn t now"] b by simp
  then have "standing s (from_tuple t) now p'"
    using bs inv by (simp add: standing_def hm.get_insert armed_def)
  then have "standing s (from_tuple t) now (foldl prevent_step p' ops')"
    using ops' by (induction ops' arbitrary: p') (auto intro: standing_step)
  then have q: "armed (foldl prevent_step p' ops')" "prevention_wf s (foldl prevent_step p' ops')"
      "hm_contains (pv_flows (foldl prevent_step p' ops')) (from_tuple t)"
    by (auto simp: standing_def hm_contains_def)
  have np: "\<not> protected (foldl prevent_step p' ops') t" "\<not> protected (foldl prevent_step p' ops') (reverse_tuple t)"
    using q(2,3) by (auto simp: prevention_wf_def hm_contains_def key_listed_from_tuple [symmetric]
        from_tuple_reverse)
  let ?q = "foldl prevent_step p' ops'" and ?until = "now + ps_source_block s"
  have src0: "standing_source s (src_ip t) ?until p'" using wf' bs inv hz by (simp add: standing_source_def hm.get_insert armed_def)
  have "is_drop (snd (decide ?q t' tm))"
    if "src_ip t' = src_ip t" "\<not> is_allow_listed p (dest_ip t')" "tm < ?until" "\<forall>op \<in> set ops'. judged_before ?until op"
  proof -
    have "standing_source s (src_ip t) ?until ?q"
      using src0 ops' that(4) by (induction ops' arbitrary: p') (auto intro: standing_source_step)
    then obtain u where u: "hm_get (pv_sources ?q) (src_ip t) = Some u" "?until \<le> u" by (auto simp: standing_source_def)
    have "is_allow_listed ?q = is_allow_listed p"
      using q(2) wf settings_kept(1) [where p = ?q and s = s] settings_kept(1) [where p = p and s = s] by (simp add: is_allow_listed_def prevention_wf_def fun_eq_iff)
    then show ?thesis using that q(1) u bs(2) by (auto simp: decide_drop_iff protected_def condemned_def)
  qed
  with q np show ?thesis
    by (auto simp: decide_def Let_def protected_def from_tuple_reverse)
qed

theorem blocked_conversation_dropped_witness:
  "\<exists>p'. block (prevention_new (default_settings\<lparr>ps_mode := Prevent\<rparr>))
      \<lparr>src_ip = V4 1, src_port = Some 5, dest_ip = V4 2, dest_port = Some 80, proto = Tcp\<rparr> 7 =
      (p', Blocked (Some (V4 1))) \<and>
    snd (decide (foldl prevent_step p' [Lapse 8])
      \<lparr>src_ip = V4 1, src_port = Some 5, dest_ip = V4 2, dest_port = Some 80, proto = Tcp\<rparr> 9) = Drop FlowVerdict"
proof -
  let ?s = "default_settings\<lparr>ps_mode := Prevent\<rparr>"
  let ?t = "\<lparr>src_ip = V4 1, src_port = Some 5, dest_ip = V4 2, dest_port = Some 80, proto = Tcp\<rparr>"
  have hz: "ps_source_block ?s = 600000000000"
    by (simp add: default_settings_def default_source_block_def secs_def nanos_per_sec_def)
  have out: "snd (block (prevention_new ?s) ?t 7) = Blocked (Some (V4 1))"
    by (simp add: block_def prevention_new_def armed_def refused_address_def is_allow_listed_def
        default_settings_def default_max_blocked_flows_def default_max_blocked_sources_def Let_def)
  then obtain p' where b: "block (prevention_new ?s) ?t 7 = (p', Blocked (Some (V4 1)))"
    by (cases "block (prevention_new ?s) ?t 7") auto
  have "\<forall>op \<in> set [Lapse 8]. within 7 (ps_source_block ?s) op" by (simp add: within_def hz)
  from blocked_conversation_dropped [OF _ b this, of "[]" 9 ?t] b show ?thesis by simp
qed

section \<open>Where verdicts come from\<close>

text \<open>A block request of the run that was granted.\<close>

definition granted :: "prevention_settings \<Rightarrow> prevent_op list \<Rightarrow> net_tuple \<Rightarrow> instant \<Rightarrow> bool" where
  "granted s ops t tm \<longleftrightarrow> (\<exists>pre post src. ops = pre @ Condemn t tm # post \<and>
     snd (block (foldl prevent_step (prevention_new s) pre) t tm) = Blocked src)"

lemma granted_snoc: "granted s ops t tm \<Longrightarrow> granted s (ops @ [op]) t tm"
  unfolding granted_def by (metis append_Cons append_assoc)

lemma granted_last:
  "snd (block (foldl prevent_step (prevention_new s) ops) t tm) = Blocked src \<Longrightarrow>
     granted s (ops @ [Condemn t tm]) t tm"
  unfolding granted_def by blast

definition explained :: "prevention_settings \<Rightarrow> prevent_op list \<Rightarrow> prevention \<Rightarrow> bool" where
  "explained s ops p \<longleftrightarrow>
     (\<forall>k at. hm_get (pv_flows p) k = Some at \<longrightarrow> (\<exists>t tm. granted s ops t tm \<and> from_tuple t = k)) \<and>
     (\<forall>a until. hm_get (pv_sources p) a = Some until \<longrightarrow>
       (\<exists>t tm. granted s ops t tm \<and> src_ip t = a \<and> until = tm + ps_source_block s))"

lemma explained_shrink:
  assumes "explained s ops p"
    "\<And>k at. hm_get (pv_flows p') k = Some at \<Longrightarrow> hm_get (pv_flows p) k = Some at"
    "\<And>a u. hm_get (pv_sources p') a = Some u \<Longrightarrow> hm_get (pv_sources p) a = Some u"
  shows "explained s (ops @ [op]) p'"
  using assms granted_snoc [of s ops] unfolding explained_def by meson

lemma all_explained: "explained s ops (foldl prevent_step (prevention_new s) ops)"
proof (induction ops rule: rev_induct)
  case Nil
  show ?case by (simp add: explained_def prevention_new_def)
next
  case (snoc op ops)
  let ?p = "foldl prevent_step (prevention_new s) ops"
  have wf: "prevention_wf s ?p" by (rule prevent_ops.inv_reachable) simp
  then have inv: "hm_invar (pv_flows ?p)" "hm_invar (pv_sources ?p)"
    and hz: "ps_source_block (pv_settings ?p) = ps_source_block s"
    using settings_kept [where p = ?p and s = s] by (simp_all add: prevention_wf_def)
  have "explained s (ops @ [op]) (prevent_step ?p op)"
  proof (cases op)
    case (Judge t now)
    obtain p' d where d: "decide ?p t now = (p', d)" by (cases "decide ?p t now")
    show ?thesis
      by (rule explained_shrink [OF snoc])
        (use decide_state [OF d] Judge d inv in \<open>auto simp: hm.get_remove split: if_splits\<close>)
  next
    case (Condemn t now)
    obtain p' out where b: "block ?p t now = (p', out)" by (cases "block ?p t now")
    show ?thesis
    proof (cases "out = Blocked (Some (src_ip t))")
      case False
      show ?thesis
        by (rule explained_shrink [OF snoc]) (use False block_state [OF b] Condemn b in auto)
    next
      case True
      with b have g: "granted s (ops @ [op]) t now" using granted_last [of s ops t now] Condemn by simp
      have "hm_get (pv_flows p') = (hm_get (pv_flows ?p))(from_tuple t \<mapsto> now)"
          "hm_get (pv_sources p') = (hm_get (pv_sources ?p))(src_ip t \<mapsto> now + ps_source_block s)"
        using block_state [OF b] True inv hz by (auto simp: hm.get_insert)
      moreover have "explained s (ops @ [op]) ?p" by (rule explained_shrink [OF snoc])
      ultimately have "explained s (ops @ [op]) p'"
        using g unfolding explained_def by (auto split: if_splits)
      with Condemn b show ?thesis by simp
    qed
  next
    case (Lapse now)
    show ?thesis
      by (rule explained_shrink [OF snoc])
        (use Lapse inv in \<open>auto simp: expire_state hm.get_retain split: option.splits if_splits\<close>)
  qed (auto intro: explained_shrink [OF snoc])
  then show ?case by simp
qed

text \<open>Nothing is dropped on suspicion: if a packet is dropped, the detection path had earlier asked
  to block this very conversation, or another one from the same source less than the block
  duration ago, and was granted it.\<close>

theorem no_drop_without_block:
  assumes "is_drop (snd (decide (foldl prevent_step (prevention_new s) ops) t now))"
  shows "\<exists>t' tm. granted s ops t' tm \<and>
    (from_tuple t' = from_tuple t \<or> src_ip t' = src_ip t \<and> now < tm + ps_source_block s)"
  using assms all_explained [of s ops]
  by (fastforce simp: decide_drop_iff condemned_def explained_def hm_contains_def)

theorem no_drop_without_block_witness:
  "\<exists>t' tm. granted (default_settings\<lparr>ps_mode := Prevent\<rparr>)
      [Condemn \<lparr>src_ip = V4 1, src_port = None, dest_ip = V4 2, dest_port = None, proto = Icmp\<rparr> 7] t' tm"
proof -
  let ?s = "default_settings\<lparr>ps_mode := Prevent\<rparr>"
  let ?t = "\<lparr>src_ip = V4 1, src_port = None, dest_ip = V4 2, dest_port = None, proto = Icmp\<rparr>"
  have "is_drop (snd (decide (foldl prevent_step (prevention_new ?s) [Condemn ?t 7]) ?t 8))"
    by (simp add: decide_drop_iff protected_def condemned_def block_def prevention_new_def armed_def
        refused_address_def is_allow_listed_def default_settings_def default_max_blocked_flows_def
        default_max_blocked_sources_def Let_def hm_contains_def)
  from no_drop_without_block [OF this] show ?thesis by blast
qed

end
