(* ===== verification/VerdictPath.thy ===== *)
theory VerdictPath
  imports Prevention
begin

text \<open>
  The inline driver (\<open>crates/prevent/src/queue.rs\<close>): reading a 5-tuple out of a bare IP packet,
  judging and answering packets from any verdict source, the offline queue and the kernel
  queue; the queueing rule (\<open>nft.rs\<close>); and the kernel's queue counters (\<open>depth.rs\<close>).
  What the netfilter library returns is an input: the list of receive results, an empty list
  being a fatal error. The clock (\<open>Instant::now\<close> and the elapsed microseconds of each packet)
  is an argument.
\<close>

unbundle bit_operations_syntax

section \<open>The 5-tuple of a packet\<close>

definition byte_get :: "bytes \<Rightarrow> nat \<Rightarrow> byte option" where
  "byte_get bs i = (if i < length bs then Some (bs ! i) else None)"

definition range_get :: "bytes \<Rightarrow> nat \<Rightarrow> nat \<Rightarrow> bytes option" where
  "range_get bs from to = (if from \<le> to \<and> to \<le> length bs then Some (take (to - from) (drop from bs)) else None)"

definition range_from :: "bytes \<Rightarrow> nat \<Rightarrow> bytes option" where
  "range_from bs from = (if from \<le> length bs then Some (drop from bs) else None)"

type_synonym ip_header = "ip_addr \<times> ip_addr \<times> byte \<times> bytes option"

definition read_v4 :: "bytes \<Rightarrow> ip_header option" where
  "read_v4 bs = do {
     b0 \<leftarrow> byte_get bs 0;
     let header_len = unat (b0 AND 0x0f) * 4;
     if header_len < 20 \<or> length bs < header_len then None else do {
       protocol \<leftarrow> byte_get bs 9;
       s0 \<leftarrow> byte_get bs 12; s1 \<leftarrow> byte_get bs 13; s2 \<leftarrow> byte_get bs 14; s3 \<leftarrow> byte_get bs 15;
       d0 \<leftarrow> byte_get bs 16; d1 \<leftarrow> byte_get bs 17; d2 \<leftarrow> byte_get bs 18; d3 \<leftarrow> byte_get bs 19;
       f0 \<leftarrow> byte_get bs 6; f1 \<leftarrow> byte_get bs 7;
       let fragment_offset = (be_word [f0 AND 0x1f, f1] :: 16 word);
       let transport = (if fragment_offset = 0 then range_from bs header_len else None);
       Some (V4 (be_word [s0, s1, s2, s3]), V4 (be_word [d0, d1, d2, d3]), protocol, transport) } }"

definition read_v6 :: "bytes \<Rightarrow> ip_header option" where
  "read_v6 bs = (if length bs < 40 then None else do {
     protocol \<leftarrow> byte_get bs 6;
     source \<leftarrow> range_get bs 8 24;
     destination \<leftarrow> range_get bs 24 40;
     Some (V6 (be_word source), V6 (be_word destination), protocol, range_from bs 40) })"

definition classify_protocol :: "byte \<Rightarrow> protocol \<times> bool" where
  "classify_protocol protocol = (if protocol = 6 then (Tcp, True) else if protocol = 17 then (Udp, True)
     else if protocol = 1 \<or> protocol = 58 then (Icmp, False) else (Ip, False))"

definition read_ports :: "bool \<Rightarrow> bytes option \<Rightarrow> 16 word option \<times> 16 word option" where
  "read_ports wants_ports transport = (case transport of
       Some (a # b # c # d # _) \<Rightarrow>
         if wants_ports then (Some (be_word [a, b]), Some (be_word [c, d])) else (None, None)
     | _ \<Rightarrow> (None, None))"

definition tuple_from_ip_packet :: "bytes \<Rightarrow> net_tuple option" where
  "tuple_from_ip_packet bs = do {
     b0 \<leftarrow> byte_get bs 0;
     let version = drop_bit 4 b0;
     (source, destination, protocol, transport) \<leftarrow>
       (if version = 4 then read_v4 bs else if version = 6 then read_v6 bs else None);
     let (pr, wants_ports) = classify_protocol protocol;
     let (sport, dport) = read_ports wants_ports transport;
     Some \<lparr>src_ip = source, src_port = sport, dest_ip = destination, dest_port = dport, proto = pr\<rparr> }"

section \<open>Judging\<close>

record queued_packet =
  qp_id :: "32 word"
  qp_tuple :: net_tuple
  qp_received :: instant

definition judge :: "prevention \<Rightarrow> queued_packet \<Rightarrow> instant \<Rightarrow> prevention \<times> decision" where
  "judge p packet now = decide p (qp_tuple packet) now"

record run_summary =
  rs_accepted :: nat
  rs_dropped :: nat

text \<open>The trait's \<open>resolve\<close> is the argument \<open>res\<close>; \<open>now\<close> and \<open>micros\<close> are what the clock says.\<close>

definition judge_and_resolve ::
    "('s \<Rightarrow> queued_packet \<Rightarrow> decision \<Rightarrow> 's) \<Rightarrow> 's \<Rightarrow> prevention \<Rightarrow> queued_packet \<Rightarrow> instant \<Rightarrow> nat \<Rightarrow>
     's \<times> prevention \<times> decision" where
  "judge_and_resolve res source p packet now micros =
     (let (p, d) = judge p packet now;
          source = res source packet d
      in (source, record_latency p (min micros u64_max), d))"

text \<open>The loop of \<open>run\<close>, on any source: \<open>fuel\<close> bounds the packets, \<open>None\<close> is running out of it.\<close>

fun run_source :: "('s \<Rightarrow> queued_packet option \<times> 's) \<Rightarrow> ('s \<Rightarrow> queued_packet \<Rightarrow> decision \<Rightarrow> 's) \<Rightarrow>
    (nat \<Rightarrow> instant \<times> nat) \<Rightarrow> nat \<Rightarrow> 's \<Rightarrow> prevention \<Rightarrow> run_summary \<Rightarrow>
    ('s \<times> prevention \<times> run_summary) option" where
  "run_source nxt res clock 0 source p summary = None"
| "run_source nxt res clock (Suc fuel) source p summary = (case nxt source of
       (None, source) \<Rightarrow> Some (source, p, summary)
     | (Some packet, source) \<Rightarrow>
         let (now, micros) = clock fuel;
             (source, p, d) = judge_and_resolve res source p packet now micros
         in run_source nxt res clock fuel source p
              (case d of Accept \<Rightarrow> summary\<lparr>rs_accepted := rs_accepted summary + 1\<rparr>
               | Drop _ \<Rightarrow> summary\<lparr>rs_dropped := rs_dropped summary + 1\<rparr>))"

definition empty_summary :: run_summary where
  "empty_summary = \<lparr>rs_accepted = 0, rs_dropped = 0\<rparr>"

section \<open>The offline queue\<close>

record offline_queue =
  oq_pending :: "queued_packet list"
  oq_verdicts :: "(32 word \<times> decision) list"

definition offline_new :: "queued_packet list \<Rightarrow> offline_queue" where
  "offline_new packets = \<lparr>oq_pending = packets, oq_verdicts = []\<rparr>"

definition offline_next :: "offline_queue \<Rightarrow> queued_packet option \<times> offline_queue" where
  "offline_next q = (case oq_pending q of [] \<Rightarrow> (None, q)
     | packet # rest \<Rightarrow> (Some packet, q\<lparr>oq_pending := rest\<rparr>))"

definition offline_resolve :: "offline_queue \<Rightarrow> queued_packet \<Rightarrow> decision \<Rightarrow> offline_queue" where
  "offline_resolve q packet d = q\<lparr>oq_verdicts := oq_verdicts q @ [(qp_id packet, d)]\<rparr>"

definition all_accepted :: "offline_queue \<Rightarrow> bool" where
  "all_accepted q = list_all (\<lambda>(_, d). d = Accept) (oq_verdicts q)"

definition decisions :: "offline_queue \<Rightarrow> decision list" where
  "decisions q = map snd (oq_verdicts q)"

section \<open>The kernel queue\<close>

datatype recv_result = Message "32 word" bytes instant | RecvRetry | RecvFatal

datatype nfq_verdict = NfAccept | NfDrop

text \<open>\<open>kq_incoming\<close> is what the socket will return, \<open>kq_sent\<close> the verdicts handed to it. The code ignores a failure of that call, which
  changes none of its state: what is stated of \<open>kq_sent\<close> is what was handed over, not what the kernel did with it.\<close>

record kernel_queue =
  kq_incoming :: "recv_result list"
  kq_in_flight :: "(32 word, bytes) hashmap"
  kq_unparsed :: nat
  kq_retries :: nat
  kq_fatal :: bool
  kq_sent :: "(32 word \<times> nfq_verdict) list"

definition kernel_bind :: "recv_result list \<Rightarrow> kernel_queue" where
  "kernel_bind incoming = \<lparr>kq_incoming = incoming, kq_in_flight = [], kq_unparsed = 0, kq_retries = 0,
     kq_fatal = False, kq_sent = []\<rparr>"

function kernel_next :: "kernel_queue \<Rightarrow> queued_packet option \<times> kernel_queue" where
  "kernel_next q = (case kq_incoming q of
       [] \<Rightarrow> (None, q\<lparr>kq_fatal := True\<rparr>)
     | RecvRetry # rest \<Rightarrow> kernel_next (q\<lparr>kq_incoming := rest, kq_retries := kq_retries q + 1\<rparr>)
     | RecvFatal # rest \<Rightarrow> (None, q\<lparr>kq_incoming := rest, kq_fatal := True\<rparr>)
     | Message pid payload received # rest \<Rightarrow>
         (case tuple_from_ip_packet payload of
            Some tuple \<Rightarrow>
              (Some \<lparr>qp_id = pid, qp_tuple = tuple, qp_received = received\<rparr>,
               q\<lparr>kq_incoming := rest, kq_in_flight := hm_insert pid payload (kq_in_flight q)\<rparr>)
          | None \<Rightarrow>
              kernel_next (q\<lparr>kq_incoming := rest, kq_unparsed := kq_unparsed q + 1,
                kq_sent := kq_sent q @ [(pid, NfAccept)]\<rparr>)))"
  by pat_completeness auto
termination by (relation "measure (\<lambda>q. length (kq_incoming q))") auto

declare kernel_next.simps [simp del]

definition kernel_resolve :: "kernel_queue \<Rightarrow> queued_packet \<Rightarrow> decision \<Rightarrow> kernel_queue" where
  "kernel_resolve q packet d = (case hm_get (kq_in_flight q) (qp_id packet) of
       None \<Rightarrow> q
     | Some message \<Rightarrow> q\<lparr>kq_in_flight := hm_remove (qp_id packet) (kq_in_flight q),
         kq_sent := kq_sent q @ [(qp_id packet, case d of Accept \<Rightarrow> NfAccept | Drop _ \<Rightarrow> NfDrop)]\<rparr>)"

section \<open>The queueing rule\<close>

fun show_nat :: "nat \<Rightarrow> string" where
  "show_nat n = (if n < 10 then [char_of (48 + n)] else show_nat (n div 10) @ [char_of (48 + n mod 10)])"

declare show_nat.simps [simp del]

definition queue_statement :: "nat \<Rightarrow> fail_mode \<Rightarrow> string" where
  "queue_statement queue fm = (case fm of
       Open \<Rightarrow> ''queue num '' @ show_nat queue @ '' bypass''
     | Closed \<Rightarrow> ''queue num '' @ show_nat queue)"

definition newline :: string where
  "newline = [char_of (10 :: nat)]"

definition queue_rule :: "nat \<Rightarrow> fail_mode \<Rightarrow> string" where
  "queue_rule queue fm = ''table inet cybersentinel {'' @ newline @
     ''  set blocked_v4 { type ipv4_addr; flags timeout; }'' @ newline @
     ''  set blocked_v6 { type ipv6_addr; flags timeout; }'' @ newline @
     ''  chain forward {'' @ newline @
     ''    type filter hook forward priority 0; policy accept;'' @ newline @
     ''    ip saddr @blocked_v4 drop'' @ newline @
     ''    ip6 saddr @blocked_v6 drop'' @ newline @
     ''    '' @ queue_statement queue fm @ newline @
     ''  }'' @ newline @ ''}''"

text \<open>The arguments of \<open>nft\<close>; how the standard library prints an address is the argument \<open>show_addr\<close>.\<close>

definition add_element_args :: "(ip_addr \<Rightarrow> string) \<Rightarrow> ip_addr \<Rightarrow> duration \<Rightarrow> string list" where
  "add_element_args show_addr address timeout =
     [''add'', ''element'', ''inet'', ''cybersentinel'',
      case address of V4 _ \<Rightarrow> ''blocked_v4'' | V6 _ \<Rightarrow> ''blocked_v6'',
      ''{ '' @ show_addr address @ '' timeout '' @ show_nat (timeout div nanos_per_sec) @ ''s }'']"

section \<open>The kernel's counters\<close>

definition is_space :: "char \<Rightarrow> bool" where
  "is_space c \<longleftrightarrow> (let n = of_char c :: nat in 9 \<le> n \<and> n \<le> 13 \<or> n = 32 \<or> n = 133 \<or> n = 160)"

definition push_word :: "string \<Rightarrow> string list \<Rightarrow> string list" where
  "push_word w ws = (if w = [] then ws else ws @ [w])"

fun split_whitespace :: "string \<Rightarrow> string \<Rightarrow> string list \<Rightarrow> string list" where
  "split_whitespace [] w ws = push_word w ws"
| "split_whitespace (c # cs) w ws =
     (if is_space c then split_whitespace cs [] (push_word w ws) else split_whitespace cs (w @ [c]) ws)"

definition digit_value :: "char \<Rightarrow> nat option" where
  "digit_value c = (let n = of_char c in if 48 \<le> n \<and> n \<le> 57 then Some (n - 48) else None)"

fun parse_digits :: "nat \<Rightarrow> string \<Rightarrow> nat \<Rightarrow> nat option" where
  "parse_digits mx [] acc = Some acc"
| "parse_digits mx (c # cs) acc = (case digit_value c of
       None \<Rightarrow> None
     | Some d \<Rightarrow> if mx < acc * 10 + d then None else parse_digits mx cs (acc * 10 + d))"

text \<open>\<open>str::parse\<close> into an unsigned integer of maximum \<open>mx\<close>: one optional plus sign, then digits.\<close>

definition parse_uint :: "nat \<Rightarrow> string \<Rightarrow> nat option" where
  "parse_uint mx cs = (let ds = (case cs of c # rest \<Rightarrow> if c = CHR ''+'' then rest else cs | [] \<Rightarrow> [])
     in if ds = [] then None else parse_digits mx ds 0)"

definition u16_max :: nat where "u16_max = 65535"
definition u32_max :: nat where "u32_max = 4294967295"

fun split_lines :: "string \<Rightarrow> string \<Rightarrow> string list" where
  "split_lines [] l = (if l = [] then [] else [l])"
| "split_lines (c # cs) l = (if of_char c = (10 :: nat) then l # split_lines cs [] else split_lines cs (l @ [c]))"

definition read_u32 :: "string \<Rightarrow> nat" where
  "read_u32 w = unwrap_or (parse_uint u32_max w) 0"

fun parse_depth_lines :: "string list \<Rightarrow> nat \<Rightarrow> queue_depth_line option" where
  "parse_depth_lines [] queue = None"
| "parse_depth_lines (line # lines) queue =
     (let fields = split_whitespace line [] [] in
      if length fields < 7 then parse_depth_lines lines queue
      else case parse_uint u16_max (fields ! 0) of
          None \<Rightarrow> parse_depth_lines lines queue
        | Some queue_num \<Rightarrow>
            if queue_num \<noteq> queue then parse_depth_lines lines queue
            else Some \<lparr>qd_queue_num = queue_num, qd_queued = read_u32 (fields ! 2),
                  qd_queue_dropped = read_u32 (fields ! 5), qd_user_dropped = read_u32 (fields ! 6),
                  qd_id_sequence = (if 7 < length fields then read_u32 (fields ! 7) else 0)\<rparr>)"

definition parse_depth :: "string \<Rightarrow> nat \<Rightarrow> queue_depth_line option" where
  "parse_depth text queue = parse_depth_lines (split_lines text []) queue"

definition min_netlink_recv_buffer :: nat where
  "min_netlink_recv_buffer = 4 * 1024 * 1024"

definition buffer_is_adequate :: "nat \<Rightarrow> bool" where
  "buffer_is_adequate n \<longleftrightarrow> min_netlink_recv_buffer \<le> n"

section \<open>The contract of a verdict source\<close>

text \<open>
  What the trait promises its caller: every packet taken makes progress, the answer to a packet
  just taken is delivered under its id, and nothing else is answered but packets the source
  itself accepts unread. \<open>owed\<close> are the ids still to be answered, in order; \<open>answered\<close> are the
  answers given, with whether they dropped the packet.
\<close>

locale verdict_source =
  fixes nxt :: "'s \<Rightarrow> queued_packet option \<times> 's"
    and res :: "'s \<Rightarrow> queued_packet \<Rightarrow> decision \<Rightarrow> 's"
    and pending :: "'s \<Rightarrow> nat"
    and answered :: "'s \<Rightarrow> (32 word \<times> bool) list"
    and owed :: "'s \<Rightarrow> 32 word list"
  assumes progress: "nxt s = (Some pk, s') \<Longrightarrow> pending s' < pending s"
    and pending_res: "nxt s = (Some pk, s') \<Longrightarrow> pending (res s' pk d) = pending s'"
    and answer: "nxt s = (Some pk, s') \<Longrightarrow> answered (res s' pk d) = answered s' @ [(qp_id pk, is_drop d)]"
    and owed_res: "nxt s = (Some pk, s') \<Longrightarrow> owed (res s' pk d) = owed s'"
    and owed_next: "nxt s = (Some pk, s') \<Longrightarrow>
          map fst (answered s) @ owed s = map fst (answered s') @ qp_id pk # owed s'"
    and owed_end: "nxt s = (None, s') \<Longrightarrow> map fst (answered s') = map fst (answered s) @ owed s"
    and no_drop_next: "nxt s = (x, s') \<Longrightarrow> filter snd (answered s') = filter snd (answered s)"
begin

lemma run_total: "pending s < fuel \<Longrightarrow> \<exists>r. run_source nxt res clock fuel s p sm = Some r"
proof (induction fuel arbitrary: s p sm)
  case (Suc fuel)
  show ?case
  proof (cases "nxt s")
    case (Pair x s')
    show ?thesis
    proof (cases x)
      case None
      with Pair show ?thesis by simp
    next
      case (Some pk)
      have "pending (res s' pk d) < fuel" for d
        using progress [of s pk s'] pending_res [of s pk s' d] Pair Some Suc.prems by simp
      with Suc.IH Pair Some show ?thesis
        by (simp add: judge_and_resolve_def case_prod_unfold Let_def)
    qed
  qed
qed simp

lemma judge_settings: "judge p pk now = (p', d) \<Longrightarrow> pv_settings p' = pv_settings p \<and> (\<not> armed p \<longrightarrow> d = Accept)"
  using decide_state(1) [of p "qp_tuple pk" now p' d]
  by (auto simp: judge_def decide_def Let_def split: if_splits)

text \<open>A finished run has answered everything owed, in order; its summary counts its drops; and
  a store that is not armed drops nothing.\<close>

lemma run_answers:
  "run_source nxt res clock fuel s p sm = Some (s', p', sm') \<Longrightarrow>
     map fst (answered s') = map fst (answered s) @ owed s \<and>
     rs_dropped sm' + length (filter snd (answered s)) = rs_dropped sm + length (filter snd (answered s')) \<and>
     (\<not> armed p \<longrightarrow> filter snd (answered s') = filter snd (answered s))"
proof (induction fuel arbitrary: s p sm)
  case (Suc fuel)
  obtain x t where nx: "nxt s = (x, t)" by (cases "nxt s")
  show ?case
  proof (cases x)
    case None
    with Suc.prems nx have "s' = t" "p' = p" "sm' = sm" by simp_all
    with nx None owed_end [of s t] no_drop_next [OF nx] show ?thesis by simp
  next
    case (Some pk)
    obtain now micros where cl: "clock fuel = (now, micros)" by (cases "clock fuel")
    obtain q d where j: "judge p pk now = (q, d)" by (cases "judge p pk now")
    note nx' = nx [unfolded Some]
    let ?sm = "case d of Accept \<Rightarrow> sm\<lparr>rs_accepted := rs_accepted sm + 1\<rparr>
        | Drop _ \<Rightarrow> sm\<lparr>rs_dropped := rs_dropped sm + 1\<rparr>"
    have run: "run_source nxt res clock fuel (res t pk d) (record_latency q (min micros u64_max)) ?sm =
        Some (s', p', sm')"
      using Suc.prems nx Some cl j by (simp add: judge_and_resolve_def)
    note ih = Suc.IH [OF run]
    have arm: "armed (record_latency q (min micros u64_max)) = armed p"
      using judge_settings [OF j] by (simp add: armed_def)
    have "rs_dropped ?sm = rs_dropped sm + (if is_drop d then 1 else 0)" by (cases d) auto
    with ih arm judge_settings [OF j] answer [OF nx', of d] owed_res [OF nx', of d] owed_next [OF nx']
      no_drop_next [OF nx]
    show ?thesis by (cases "is_drop d") auto
  qed
qed simp

end

interpretation offline: verdict_source offline_next offline_resolve "\<lambda>q. length (oq_pending q)"
  "\<lambda>q. map (\<lambda>(i, d). (i, is_drop d)) (oq_verdicts q)" "\<lambda>q. map qp_id (oq_pending q)"
  by unfold_locales
    (auto simp: offline_next_def offline_resolve_def case_prod_unfold comp_def split: list.splits)

text \<open>The ids the kernel will see answered: every message up to a fatal error.\<close>

fun message_ids :: "recv_result list \<Rightarrow> 32 word list" where
  "message_ids [] = []"
| "message_ids (Message i _ _ # rest) = i # message_ids rest"
| "message_ids (RecvRetry # rest) = message_ids rest"
| "message_ids (RecvFatal # rest) = []"

abbreviation kernel_answers :: "kernel_queue \<Rightarrow> (32 word \<times> bool) list" where
  "kernel_answers q \<equiv> map (\<lambda>(i, v). (i, v = NfDrop)) (kq_sent q)"

lemma kernel_next_spec:
  "kernel_next q = (x, q') \<Longrightarrow>
     (case x of
        None \<Rightarrow> map fst (kq_sent q') = map fst (kq_sent q) @ message_ids (kq_incoming q)
      | Some pk \<Rightarrow> length (kq_incoming q') < length (kq_incoming q) \<and>
          map fst (kq_sent q) @ message_ids (kq_incoming q) =
            map fst (kq_sent q') @ qp_id pk # message_ids (kq_incoming q') \<and>
          hm_get (kq_in_flight q') (qp_id pk) \<noteq> None) \<and>
     filter snd (kernel_answers q') = filter snd (kernel_answers q)"
proof (induction "kq_incoming q" arbitrary: q)
  case Nil
  then show ?case by (auto simp: kernel_next.simps [of q])
next
  case (Cons r rest)
  note inc = Cons.hyps(2) [symmetric]
  show ?case
  proof (cases r)
    case (Message pid payload received)
    show ?thesis
    proof (cases "tuple_from_ip_packet payload")
      case None
      let ?q = "q\<lparr>kq_incoming := rest, kq_unparsed := kq_unparsed q + 1,
          kq_sent := kq_sent q @ [(pid, NfAccept)]\<rparr>"
      have "kernel_next ?q = (x, q')" using Cons.prems inc Message None by (simp add: kernel_next.simps [of q])
      from Cons.hyps(1) [OF _ this] inc Message show ?thesis by (auto split: option.splits)
    next
      case (Some t)
      with Cons.prems inc Message show ?thesis
        by (auto simp: kernel_next.simps [of q] update_conv)
    qed
  next
    case RecvRetry
    let ?q = "q\<lparr>kq_incoming := rest, kq_retries := kq_retries q + 1\<rparr>"
    have "kernel_next ?q = (x, q')" using Cons.prems inc RecvRetry by (simp add: kernel_next.simps [of q])
    from Cons.hyps(1) [OF _ this] inc RecvRetry show ?thesis by (auto split: option.splits)
  next
    case RecvFatal
    with Cons.prems inc show ?thesis by (auto simp: kernel_next.simps [of q])
  qed
qed

interpretation kernel: verdict_source kernel_next kernel_resolve "\<lambda>q. length (kq_incoming q)"
  kernel_answers "\<lambda>q. message_ids (kq_incoming q)"
proof unfold_locales
  fix s pk s' d
  assume n: "kernel_next s = (Some pk, s')"
  note spec = kernel_next_spec [OF n]
  show "length (kq_incoming s') < length (kq_incoming s)" using spec by simp
  show "length (kq_incoming (kernel_resolve s' pk d)) = length (kq_incoming s')"
    "message_ids (kq_incoming (kernel_resolve s' pk d)) = message_ids (kq_incoming s')"
    by (simp_all add: kernel_resolve_def split: option.splits)
  show "kernel_answers (kernel_resolve s' pk d) = kernel_answers s' @ [(qp_id pk, is_drop d)]"
    using spec by (cases d) (auto simp: kernel_resolve_def split: option.splits)
  show "map fst (kernel_answers s) @ message_ids (kq_incoming s) =
      map fst (kernel_answers s') @ qp_id pk # message_ids (kq_incoming s')"
    using spec by (simp add: comp_def case_prod_unfold)
next
  fix s s'
  assume "kernel_next s = (None, s')"
  from kernel_next_spec [OF this]
  show "map fst (kernel_answers s') = map fst (kernel_answers s) @ message_ids (kq_incoming s)"
    by (simp add: comp_def case_prod_unfold)
next
  fix s x s'
  assume "kernel_next s = (x, s')"
  from kernel_next_spec [OF this]
  show "filter snd (kernel_answers s') = filter snd (kernel_answers s)" by simp
qed

section \<open>Properties of the driver\<close>

text \<open>C37. Every packet gets one answer: on the kernel queue, whatever the socket returns (packets with
  any bytes, interrupted receives, a fatal error), the verdict loop ends, and every packet
  received before the error has been answered exactly once, in order, unreadable ones
  included; the run's drop count is the number of drop verdicts sent.\<close>

theorem kernel_queue_answers_all:
  "\<exists>q p' sm. run_source kernel_next kernel_resolve clock (Suc (length incoming)) (kernel_bind incoming) p
       empty_summary = Some (q, p', sm) \<and>
     map fst (kq_sent q) = message_ids incoming \<and>
     rs_dropped sm = length (filter (\<lambda>(i, v). v = NfDrop) (kq_sent q))"
proof -
  obtain q p' sm where r: "run_source kernel_next kernel_resolve clock (Suc (length incoming))
      (kernel_bind incoming) p empty_summary = Some (q, p', sm)"
    using kernel.run_total [of "kernel_bind incoming" "Suc (length incoming)" clock p empty_summary]
    by (auto simp: kernel_bind_def)
  have "filter snd (kernel_answers q) = map (\<lambda>(i, v). (i, v = NfDrop)) (filter (\<lambda>(i, v). v = NfDrop) (kq_sent q))"
    by (simp add: filter_map comp_def case_prod_unfold)
  with kernel.run_answers [OF r] r show ?thesis
    by (simp add: kernel_bind_def empty_summary_def comp_def case_prod_unfold)
qed

text \<open>In detect mode the inline path is transparent: every packet the kernel hands over is answered
  with accept, whatever verdicts the store holds.\<close>

theorem detect_mode_transparent:
  assumes "\<not> armed p"
  shows "\<exists>q p' sm. run_source kernel_next kernel_resolve clock (Suc (length incoming)) (kernel_bind incoming) p
       empty_summary = Some (q, p', sm) \<and> kq_sent q = map (\<lambda>i. (i, NfAccept)) (message_ids incoming)"
proof -
  obtain q p' sm where r: "run_source kernel_next kernel_resolve clock (Suc (length incoming))
      (kernel_bind incoming) p empty_summary = Some (q, p', sm)"
    using kernel.run_total [of "kernel_bind incoming" "Suc (length incoming)" clock p empty_summary]
    by (auto simp: kernel_bind_def)
  have ids: "map fst (kq_sent q) = message_ids incoming" and "filter snd (kernel_answers q) = []"
    using kernel.run_answers [OF r] assms by (simp_all add: kernel_bind_def comp_def case_prod_unfold)
  then have "snd x = NfAccept" if "x \<in> set (kq_sent q)" for x
    using that by (cases x; cases "snd x") (force simp: filter_empty_conv)+
  then have "map (\<lambda>x. (fst x, NfAccept)) (kq_sent q) = kq_sent q"
    by (intro map_idI) (metis prod.collapse)
  then have "kq_sent q = map (\<lambda>i. (i, NfAccept)) (map fst (kq_sent q))" by (simp add: comp_def)
  with r ids show ?thesis by simp
qed

theorem detect_mode_transparent_witness:
  "\<exists>q p' sm. run_source kernel_next kernel_resolve (\<lambda>_. (0, 5)) 3 (kernel_bind [RecvRetry, Message 7 [0x45] 0])
      (prevention_new default_settings) empty_summary = Some (q, p', sm) \<and> kq_sent q = [(7, NfAccept)]"
proof -
  have "\<not> armed (prevention_new default_settings)"
    by (simp add: armed_def prevention_new_def default_settings_def)
  from detect_mode_transparent [OF this, of "\<lambda>_. (0, 5)" "[RecvRetry, Message 7 [0x45] 0]"]
  show ?thesis by (simp add: numeral_3_eq_3 del: run_source.simps)
qed

section \<open>Reading packets\<close>

text \<open>An IPv4 packet with a header of \<open>n\<close> 32-bit words: the flags and fragment offset are the
  bytes \<open>f0\<close> and \<open>f1\<close>.\<close>

definition ipv4_packet :: "nat \<Rightarrow> byte list \<Rightarrow> byte \<Rightarrow> byte \<Rightarrow> byte \<Rightarrow> byte list \<Rightarrow> byte \<Rightarrow> 32 word \<Rightarrow> 32 word \<Rightarrow>
    bytes \<Rightarrow> bytes \<Rightarrow> bytes" where
  "ipv4_packet n tos_len_id f0 f1 ttl checksum protocol src dst opts transport =
     of_nat (64 + n) # tos_len_id @ [f0, f1, ttl, protocol] @ checksum @
     be_bytes 4 src @ be_bytes 4 dst @ opts @ transport"

lemma first_byte:
  "5 \<le> n \<Longrightarrow> n \<le> 15 \<Longrightarrow> drop_bit 4 (of_nat (64 + n) :: byte) = 4 \<and> unat (of_nat (64 + n) AND (0x0f :: byte)) = n"
proof -
  assume "5 \<le> n" "n \<le> 15"
  then have "n \<in> {5, 6, 7, 8, 9, 10, 11, 12, 13, 14, 15}" by (simp, presburger)
  then show ?thesis by auto
qed

lemma drop_exact: "k = length h \<Longrightarrow> p = h @ t \<Longrightarrow> drop k p = t"
  by simp

lemma list5: "length xs = 5 \<Longrightarrow> \<exists>a b c d e. xs = [a, b, c, d, e]"
  by (auto simp: eval_nat_numeral length_Suc_conv)

lemma list4: "length xs = 4 \<Longrightarrow> \<exists>a b c d. xs = [a, b, c, d]"
  by (auto simp: eval_nat_numeral length_Suc_conv)

lemma list2: "length xs = 2 \<Longrightarrow> \<exists>a b. xs = [a, b]"
  by (auto simp: eval_nat_numeral length_Suc_conv)

text \<open>The verdict path reads the right conversation: from a well-formed IPv4 packet with any
  options it takes exactly the addresses, the protocol and, for the first fragment of TCP or
  UDP with at least four transport bytes, the ports of the header; a later fragment has no
  ports.\<close>

theorem ipv4_tuple_read:
  assumes "5 \<le> n" "n \<le> 15" "length tos_len_id = 5" "length checksum = 2" "length opts = 4 * n - 20"
  shows "tuple_from_ip_packet (ipv4_packet n tos_len_id f0 f1 ttl checksum protocol src dst opts transport) =
    Some \<lparr>src_ip = V4 src,
      src_port = fst (read_ports (protocol \<in> {6, 17})
        (if be_word [f0 AND 0x1f, f1] = (0 :: 16 word) then Some transport else None)),
      dest_ip = V4 dst,
      dest_port = snd (read_ports (protocol \<in> {6, 17})
        (if be_word [f0 AND 0x1f, f1] = (0 :: 16 word) then Some transport else None)),
      proto = fst (classify_protocol protocol)\<rparr>"
proof -
  obtain t0 t1 t2 t3 t4 where t: "tos_len_id = [t0, t1, t2, t3, t4]" using list5 [OF assms(3)] by blast
  obtain c0 c1 where c: "checksum = [c0, c1]" using list2 [OF assms(4)] by blast
  obtain s0 s1 s2 s3 where s: "be_bytes 4 src = [s0, s1, s2, s3]"
    using list4 [of "be_bytes 4 src"] by auto
  obtain d0 d1 d2 d3 where d: "be_bytes 4 dst = [d0, d1, d2, d3]"
    using list4 [of "be_bytes 4 dst"] by auto
  have sw: "be_word [s0, s1, s2, s3] = src" "be_word [d0, d1, d2, d3] = dst"
    using be_word_be_bytes [of 4 src] be_word_be_bytes [of 4 dst] by (simp_all add: s d)
  let ?p = "ipv4_packet n tos_len_id f0 f1 ttl checksum protocol src dst opts transport"
  define b :: byte where "b = of_nat (64 + n)"
  have p: "?p = [b, t0, t1, t2, t3, t4, f0, f1, ttl, protocol, c0, c1, s0, s1, s2, s3, d0, d1, d2, d3] @ opts @ transport"
    by (simp add: ipv4_packet_def t c s d b_def)
  have fb: "drop_bit 4 b = 4" "unat (b AND 0x0f) = n"
    using first_byte [OF assms(1,2)] unfolding b_def by blast+
  have len: "length ?p = 20 + length opts + length transport" by (simp add: p)
  have rest: "drop (4 * n) ?p = transport"
  proof -
    let ?h = "[b, t0, t1, t2, t3, t4, f0, f1, ttl, protocol, c0, c1, s0, s1, s2, s3, d0, d1, d2, d3] @ opts"
    have "4 * n = length ?h" using assms(1,5) by simp
    moreover have "?p = ?h @ transport" by (simp add: p)
    ultimately show ?thesis by (rule drop_exact)
  qed
  have b0: "byte_get ?p 0 = Some b" by (simp add: byte_get_def p)
  have "read_v4 ?p = Some (V4 src, V4 dst, protocol,
      if be_word [f0 AND 0x1f, f1] = (0 :: 16 word) then Some transport else None)"
  proof -
    have hl: "\<not> (n * 4 < 20 \<or> length ?p < n * 4)" using assms(1,5) len by simp
    have rf: "range_from ?p (n * 4) = Some transport"
      using hl rest by (simp add: range_from_def mult.commute)
    have g: "byte_get ?p 9 = Some protocol" "byte_get ?p 12 = Some s0" "byte_get ?p 13 = Some s1"
      "byte_get ?p 14 = Some s2" "byte_get ?p 15 = Some s3" "byte_get ?p 16 = Some d0"
      "byte_get ?p 17 = Some d1" "byte_get ?p 18 = Some d2" "byte_get ?p 19 = Some d3"
      "byte_get ?p 6 = Some f0" "byte_get ?p 7 = Some f1"
      by (simp_all add: byte_get_def p)
    show ?thesis
      unfolding read_v4_def Let_def using hl by (simp add: b0 g rf fb sw)
  qed
  then show ?thesis
    unfolding tuple_from_ip_packet_def Let_def
    by (simp add: b0 fb case_prod_unfold) (simp add: classify_protocol_def)
qed

theorem ipv4_tuple_read_witness:
  "tuple_from_ip_packet (ipv4_packet 5 [0, 0, 40, 0, 0] 0 0 64 [0, 0] 6 1 2 [] [0, 80, 1, 187]) =
    Some \<lparr>src_ip = V4 1, src_port = Some 80, dest_ip = V4 2, dest_port = Some 443, proto = Tcp\<rparr>"
  using ipv4_tuple_read [of 5 "[0, 0, 40, 0, 0]" "[0, 0]" "[]" 0 0 64 6 1 2 "[0, 80, 1, 187]"]
  by (simp add: read_ports_def classify_protocol_def be_word_def)

text \<open>Fragments of the replies pass: a flow verdict names ports, a later fragment carries none, and
  the server is not a blocked source, so a fragment other than the first of what the server
  of a condemned conversation sends is accepted.\<close>

theorem reply_fragment_passes:
  assumes "block (prevention_new s) t now = (p', Blocked src)"
    and "src_port t = Some sp" "dest_port t = Some dp" "sp \<noteq> 0 \<or> dp \<noteq> 0" "src_ip t \<noteq> dest_ip t"
  shows "snd (decide p' \<lparr>src_ip = dest_ip t, src_port = None, dest_ip = src_ip t, dest_port = None,
    proto = proto t\<rparr> tm) = Accept"
proof -
  let ?f = "\<lparr>src_ip = dest_ip t, src_port = None, dest_ip = src_ip t, dest_port = None, proto = proto t\<rparr>"
  have st: "pv_flows p' = [(from_tuple t, now)]" "pv_sources p' = [(src_ip t, now + ps_source_block s)]"
    using block_state [OF assms(1)] assms(1)
    by (auto simp: prevention_new_def block_def Let_def split: if_splits option.splits)
  have "from_tuple ?f \<noteq> from_tuple t"
    using assms(2-5) by (auto simp: from_tuple_def unwrap_or_def Let_def split: if_splits)
  then have "\<not> condemned p' ?f tm"
    using st assms(5) by (simp add: condemned_def hm_contains_def)
  then have "\<not> is_drop (snd (decide p' ?f tm))" by (simp add: decide_drop_iff)
  then show ?thesis by (cases "snd (decide p' ?f tm)") auto
qed

theorem reply_fragment_passes_witness:
  "\<exists>p'. block (prevention_new (default_settings\<lparr>ps_mode := Prevent\<rparr>))
      \<lparr>src_ip = V4 1, src_port = Some 5, dest_ip = V4 2, dest_port = Some 80, proto = Tcp\<rparr> 7 =
      (p', Blocked (Some (V4 1))) \<and>
    snd (decide p' \<lparr>src_ip = V4 2, src_port = None, dest_ip = V4 1, dest_port = None, proto = Tcp\<rparr> 8) = Accept"
proof -
  let ?t = "\<lparr>src_ip = V4 1, src_port = Some 5, dest_ip = V4 2, dest_port = Some 80, proto = Tcp\<rparr>"
  have "snd (block (prevention_new (default_settings\<lparr>ps_mode := Prevent\<rparr>)) ?t 7) = Blocked (Some (V4 1))"
    by (simp add: block_def prevention_new_def armed_def refused_address_def is_allow_listed_def
        default_settings_def default_max_blocked_flows_def default_max_blocked_sources_def Let_def)
  then obtain p' where b: "block (prevention_new (default_settings\<lparr>ps_mode := Prevent\<rparr>)) ?t 7 =
      (p', Blocked (Some (V4 1)))"
    by (cases "block (prevention_new (default_settings\<lparr>ps_mode := Prevent\<rparr>)) ?t 7") auto
  from reply_fragment_passes [OF b, of 5 80 8] b show ?thesis by simp
qed

section \<open>Numbers and lines\<close>

lemma digit_char: "n < 10 \<Longrightarrow> digit_value (char_of (48 + n)) = Some n"
  by (simp add: digit_value_def Let_def)

lemma parse_digits_snoc:
  assumes "d < 10" "v * 10 + d \<le> mx" "parse_digits mx cs acc = Some v"
  shows "parse_digits mx (cs @ [char_of (48 + d)]) acc = Some (v * 10 + d)"
  using assms(3)
  by (induction cs arbitrary: acc) (auto simp: digit_char assms(1,2) not_less split: option.splits if_splits)

lemma parse_show_digits: "n \<le> mx \<Longrightarrow> parse_digits mx (show_nat n) 0 = Some n"
proof (induction n rule: show_nat.induct)
  case (1 n)
  show ?case
  proof (cases "n < 10")
    case True
    with 1 show ?thesis by (simp add: show_nat.simps [of n] digit_char)
  next
    case False
    have "n div 10 * 10 + n mod 10 = n" by simp
    with False 1 parse_digits_snoc [of "n mod 10" "n div 10" mx "show_nat (n div 10)" 0] show ?thesis
      by (simp add: show_nat.simps [of n])
  qed
qed

definition digit_char_p :: "char \<Rightarrow> bool" where
  "digit_char_p c \<longleftrightarrow> (let n = of_char c :: nat in 48 \<le> n \<and> n \<le> 57)"

lemma show_nat_chars: "\<forall>c \<in> set (show_nat n). digit_char_p c"
proof (induction n rule: show_nat.induct)
  case (1 n)
  have "n mod 10 < 10" by simp
  then have "48 + n mod 10 < 256" by linarith
  with 1 show ?case by (auto simp: show_nat.simps [of n] digit_char_p_def Let_def)
qed

lemma show_nat_ne: "show_nat n \<noteq> []"
  by (simp add: show_nat.simps [of n])

lemma digit_not_special: "digit_char_p c \<Longrightarrow> c \<noteq> CHR ''+'' \<and> \<not> is_space c \<and> of_char c \<noteq> (10 :: nat)"
  by (auto simp: digit_char_p_def is_space_def Let_def)

lemma parse_uint_show: "n \<le> mx \<Longrightarrow> parse_uint mx (show_nat n) = Some n"
proof -
  assume n: "n \<le> mx"
  obtain c cs where c: "show_nat n = c # cs" using show_nat_ne by (cases "show_nat n") auto
  then have "c \<noteq> CHR ''+''" using show_nat_chars [of n] digit_not_special by auto
  with c parse_show_digits [OF n] show ?thesis by (simp add: parse_uint_def)
qed

text \<open>The rule installed says what was configured: the queue statement determines both the queue
  number and the fail mode, and ends in \<open>bypass\<close> exactly when the mode is fail-open.\<close>

theorem queue_statement_faithful:
  "(queue_statement q m = queue_statement q' m' \<longleftrightarrow> q = q' \<and> m = m') \<and>
   (drop (length (queue_statement q m) - 7) (queue_statement q m) = '' bypass'' \<longleftrightarrow> m = Open)"
proof -
  have digits: "list_all digit_char_p (show_nat k)" for k using show_nat_chars by (simp add: list_all_iff)
  have sp: "\<not> digit_char_p (CHR '' '')" "\<not> digit_char_p (CHR ''s'')"
    by (simp_all add: digit_char_p_def Let_def)
  have inj: "a = b" if e: "show_nat a = show_nat b" for a b
  proof -
    have "parse_digits (a + b) (show_nat a) 0 = Some a" by (rule parse_show_digits) simp
    moreover have "parse_digits (a + b) (show_nat b) 0 = Some b" by (rule parse_show_digits) simp
    ultimately show ?thesis using e by (metis option.inject)
  qed
  have last_digit: "digit_char_p (last (show_nat k))" for k
    using show_nat_chars [of k] show_nat_ne [of k] by simp
  have split: "takeWhile digit_char_p (show_nat k @ '' bypass'') = show_nat k" for k
    using digits [of k] sp by (simp add: takeWhile_append list_all_iff)
  have mix: "show_nat a \<noteq> show_nat b @ '' bypass''" for a b
  proof
    assume "show_nat a = show_nat b @ '' bypass''"
    then have "last (show_nat a) = CHR ''s''" by simp
    with last_digit [of a] sp show False by simp
  qed
  have "drop (length (queue_statement q Closed) - 7) (queue_statement q Closed) \<noteq> '' bypass''"
  proof
    assume e: "drop (length (queue_statement q Closed) - 7) (queue_statement q Closed) = '' bypass''"
    then have "queue_statement q Closed =
        take (length (queue_statement q Closed) - 7) (queue_statement q Closed) @ '' bypass''"
      by (metis append_take_drop_id)
    then have "last (queue_statement q Closed) = CHR ''s''" by (metis last_appendR last.simps list.distinct(1))
    moreover have "last (queue_statement q Closed) = last (show_nat q)"
      using show_nat_ne by (simp add: queue_statement_def)
    ultimately show False using last_digit [of q] sp by simp
  qed
  moreover have "queue_statement q m = queue_statement q' m' \<longleftrightarrow> q = q' \<and> m = m'"
    using inj [of q q'] mix [of q q'] mix [of q' q] split [of q] split [of q']
    by (cases m; cases m') (auto simp: queue_statement_def)
  ultimately show ?thesis by (cases m) (auto simp: queue_statement_def)
qed

text \<open>A line of the proc file, as the kernel prints it: right-aligned columns.\<close>

definition depth_line :: "nat list \<Rightarrow> string" where
  "depth_line ns = concat (map (\<lambda>n. '' '' @ show_nat n) ns)"

lemma split_word:
  assumes "w \<noteq> []" "\<forall>c \<in> set w. \<not> is_space c" "rest = [] \<or> (\<exists>r. rest = CHR '' '' # r)"
  shows "split_whitespace (w @ rest) acc ws = split_whitespace rest (acc @ w) ws"
  using assms(2)
  by (induction w arbitrary: acc) simp_all

lemma split_depth:
  "split_whitespace (depth_line ns) acc ws =
     (if ns = [] then push_word acc ws else push_word acc ws @ map show_nat ns)"
proof (induction ns arbitrary: acc ws)
  case Nil
  then show ?case by (simp add: depth_line_def)
next
  case (Cons n ns)
  have sp: "is_space (CHR '' '')" by (simp add: is_space_def)
  have rest: "depth_line ns = [] \<or> (\<exists>r. depth_line ns = CHR '' '' # r)"
    by (cases ns) (simp_all add: depth_line_def)
  have ns: "\<forall>c \<in> set (show_nat n). \<not> is_space c" using show_nat_chars digit_not_special by blast
  have "split_whitespace (depth_line (n # ns)) acc ws =
      split_whitespace (show_nat n @ depth_line ns) [] (push_word acc ws)"
    using sp by (simp add: depth_line_def)
  also have "\<dots> = split_whitespace (depth_line ns) (show_nat n) (push_word acc ws)"
    using split_word [OF show_nat_ne ns rest, of "[]"] by simp
  also have "\<dots> = push_word acc ws @ map show_nat (n # ns)"
    using Cons.IH [of "show_nat n" "push_word acc ws"] show_nat_ne [of n]
    by (auto simp: push_word_def)
  finally show ?case by simp
qed

text \<open>The kernel's counters are read back: from a line the kernel prints for the queue (nine
  columns), preceded by any lines too short to be one, the reader returns exactly the depth,
  the two drop counters and the sequence number, as long as they fit their 32-bit fields.\<close>

theorem depth_line_read:
  assumes "\<forall>l \<in> set junk. length (split_whitespace l [] []) < 7" "q \<le> 65535"
    "queued \<le> u32_max" "dropped \<le> u32_max" "user \<le> u32_max" "sequence \<le> u32_max"
  shows "parse_depth_lines (junk @ depth_line [q, portid, queued, copy_mode, copy_range, dropped, user, sequence, 1] # rest) q =
    Some \<lparr>qd_queue_num = q, qd_queued = queued, qd_queue_dropped = dropped, qd_user_dropped = user,
      qd_id_sequence = sequence\<rparr>"
proof -
  have fields: "split_whitespace (depth_line [q, portid, queued, copy_mode, copy_range, dropped, user, sequence, 1]) [] [] =
      map show_nat [q, portid, queued, copy_mode, copy_range, dropped, user, sequence, 1]"
    by (simp add: split_depth push_word_def)
  have "parse_uint u16_max (show_nat q) = Some q" using assms(2) by (simp add: parse_uint_show u16_max_def)
  with fields assms(3-6) have "parse_depth_lines
      (depth_line [q, portid, queued, copy_mode, copy_range, dropped, user, sequence, 1] # rest) q =
    Some \<lparr>qd_queue_num = q, qd_queued = queued, qd_queue_dropped = dropped, qd_user_dropped = user,
      qd_id_sequence = sequence\<rparr>"
    by (simp add: read_u32_def parse_uint_show unwrap_or_def eval_nat_numeral)
  with assms(1) show ?thesis by (induction junk) (simp_all add: Let_def)
qed

theorem depth_line_read_witness:
  "parse_depth_lines [''queue_num peer'', depth_line [17, 12345, 3, 2, 65535, 4, 5, 4271, 1]] 17 =
    Some \<lparr>qd_queue_num = 17, qd_queued = 3, qd_queue_dropped = 4, qd_user_dropped = 5, qd_id_sequence = 4271\<rparr>"
  using depth_line_read [of "[''queue_num peer'']" 17 3 4 5 4271 12345 2 65535 "[]"]
  by (simp add: is_space_def push_word_def u32_max_def)

end
