(* ===== verification/Correlation.thy ===== *)
theory Correlation
  imports VerdictPath "HOL-Library.Multiset" "HOL-Library.Sublist"
begin

text \<open>
  Local correlation (\<open>crates/correlation/src/lib.rs\<close>), with the incident and counter types of
  \<open>crates/common/src/event.rs\<close>: recent observations per host, and an incident when host-side
  and network-side evidence on one host fall within the window. Timestamps are nanoseconds
  (\<open>int\<close>); the ordered maps are association lists. A panic is \<open>None\<close>.
\<close>

section \<open>Data\<close>

definition default_window :: duration where "default_window = secs 120"
definition default_max_hosts :: nat where "default_max_hosts = 1024"
definition default_max_per_host :: nat where "default_max_per_host = 256"
definition default_cooldown :: duration where "default_cooldown = secs 300"

datatype event_kind = Alert | Anomaly | Flow | Fim | Auth | Process | Incident | Stats

datatype domain = Network | Host

fun domain_of :: "event_kind \<Rightarrow> domain option" where
  "domain_of Alert = Some Network"
| "domain_of Anomaly = Some Network"
| "domain_of Flow = Some Network"
| "domain_of Fim = Some Host"
| "domain_of Auth = Some Host"
| "domain_of Process = Some Host"
| "domain_of Incident = None"
| "domain_of Stats = None"

record observation =
  obs_host :: string
  obs_timestamp :: system_time
  obs_domain :: domain
  obs_event_type :: event_kind
  obs_sid :: "nat option"
  obs_severity :: nat
  obs_summary :: string

record correlation_settings =
  cs_window :: duration
  cs_max_hosts :: nat
  cs_max_per_host :: nat
  cs_cooldown :: duration

definition default_correlation_settings :: correlation_settings where
  "default_correlation_settings = \<lparr>cs_window = default_window, cs_max_hosts = default_max_hosts,
     cs_max_per_host = default_max_per_host, cs_cooldown = default_cooldown\<rparr>"

record incident_contributor =
  ic_event_type :: event_kind
  ic_sid :: "nat option"
  ic_summary :: string
  ic_timestamp :: system_time

record incident_event =
  ie_reason :: string
  ie_severity :: nat
  ie_first_seen :: system_time
  ie_last_seen :: system_time
  ie_contributors :: "incident_contributor list"

record correlation_stats =
  cst_enabled :: bool
  cst_observations :: nat
  cst_incidents :: nat
  cst_dropped :: nat

record correlator =
  co_settings :: correlation_settings
  co_windows :: "(string, observation list) hashmap"
  co_last_incident :: "(string, system_time) hashmap"
  co_stats :: correlation_stats

definition correlator_new :: "correlation_settings \<Rightarrow> correlator" where
  "correlator_new s = \<lparr>co_settings = s, co_windows = [], co_last_incident = [],
     co_stats = \<lparr>cst_enabled = True, cst_observations = 0, cst_incidents = 0, cst_dropped = 0\<rparr>\<rparr>"

section \<open>Operations\<close>

definition within_window :: "system_time \<Rightarrow> system_time \<Rightarrow> duration \<Rightarrow> bool" where
  "within_window earlier now window \<longleftrightarrow> nat \<bar>now - earlier\<bar> \<le> window"

definition describe :: "observation list \<Rightarrow> string" where
  "describe contributors =
     (let host_side = length (filter (\<lambda>o'. obs_domain o' = Host) contributors);
          network_side = length contributors - host_side
      in show_nat network_side @ '' network and '' @ show_nat host_side @
         '' host observations on the same host within the correlation window'')"

definition upd_cst :: "(correlation_stats \<Rightarrow> correlation_stats) \<Rightarrow> correlator \<Rightarrow> correlator" where
  "upd_cst f c = c\<lparr>co_stats := f (co_stats c)\<rparr>"

text \<open>The outer \<open>retain\<close> trims each host's list and forgets the hosts left with none.\<close>

definition trim_window :: "duration \<Rightarrow> system_time \<Rightarrow> observation list \<Rightarrow> observation list" where
  "trim_window window now os = filter (\<lambda>x. within_window (obs_timestamp x) now window) os"

definition correlator_expire :: "correlator \<Rightarrow> system_time \<Rightarrow> correlator" where
  "correlator_expire c now =
     c\<lparr>co_windows := filter (\<lambda>(_, os). os \<noteq> [])
         (map (\<lambda>(k, os). (k, trim_window (cs_window (co_settings c)) now os)) (co_windows c)),
       co_last_incident := hm_retain (\<lambda>_ when. within_window when now (cs_cooldown (co_settings c)))
         (co_last_incident c)\<rparr>"

fun opposite :: "domain \<Rightarrow> domain" where
  "opposite Network = Host"
| "opposite Host = Network"

definition contributor :: "observation \<Rightarrow> incident_contributor" where
  "contributor x = \<lparr>ic_event_type = obs_event_type x, ic_sid = obs_sid x, ic_summary = obs_summary x,
     ic_timestamp = obs_timestamp x\<rparr>"

definition make_incident :: "observation list \<Rightarrow> incident_event option" where
  "make_incident window =
     (let contributors = sort_key obs_timestamp window in
      case contributors of
        [] \<Rightarrow> None
      | first # _ \<Rightarrow> Some \<lparr>ie_reason = describe contributors,
          ie_severity = Min (obs_severity ` set contributors),
          ie_first_seen = obs_timestamp first, ie_last_seen = obs_timestamp (last contributors),
          ie_contributors = map contributor contributors\<rparr>)"

definition try_correlate :: "correlator \<Rightarrow> observation \<Rightarrow> correlator \<times> incident_event option" where
  "try_correlate c trigger =
     (if (case hm_get (co_last_incident c) (obs_host trigger) of None \<Rightarrow> False
          | Some previous \<Rightarrow> within_window previous (obs_timestamp trigger) (cs_cooldown (co_settings c)))
      then (c, None)
      else case hm_get (co_windows c) (obs_host trigger) of
          None \<Rightarrow> (c, None)
        | Some window \<Rightarrow>
            if \<not> list_ex (\<lambda>x. obs_domain x = opposite (obs_domain trigger)) window then (c, None)
            else case make_incident window of
                None \<Rightarrow> (c, None)
              | Some incident \<Rightarrow>
                  (upd_cst (\<lambda>s. s\<lparr>cst_incidents := cst_incidents s + 1\<rparr>)
                     (c\<lparr>co_last_incident := hm_insert (obs_host trigger) (obs_timestamp trigger)
                          (co_last_incident c)\<rparr>),
                   Some incident))"

text \<open>Room for one more observation of a host: the oldest makes way. Removing from an empty list
  is a panic.\<close>

definition push_observation :: "nat \<Rightarrow> observation list \<Rightarrow> observation \<Rightarrow> (observation list \<times> bool) option" where
  "push_observation max_per_host window x =
     (if max_per_host \<le> length window
      then case window of [] \<Rightarrow> None | _ # rest \<Rightarrow> Some (rest @ [x], True)
      else Some (window @ [x], False))"

definition correlator_observe :: "correlator \<Rightarrow> observation \<Rightarrow> (correlator \<times> incident_event option) option" where
  "correlator_observe c x =
     (let c = correlator_expire (upd_cst (\<lambda>s. s\<lparr>cst_observations := cst_observations s + 1\<rparr>) c)
                (obs_timestamp x) in
      if \<not> hm_contains (co_windows c) (obs_host x) \<and> cs_max_hosts (co_settings c) \<le> length (co_windows c)
      then Some (upd_cst (\<lambda>s. s\<lparr>cst_dropped := cst_dropped s + 1\<rparr>) c, None)
      else do {
        let window = unwrap_or (hm_get (co_windows c) (obs_host x)) [];
        (window, dropped) \<leftarrow> push_observation (cs_max_per_host (co_settings c)) window x;
        let c = c\<lparr>co_windows := hm_insert (obs_host x) window (co_windows c)\<rparr>;
        let c = (if dropped then upd_cst (\<lambda>s. s\<lparr>cst_dropped := cst_dropped s + 1\<rparr>) c else c);
        Some (try_correlate c x) })"

section \<open>The invariant\<close>

lemma upd_cst_simps [simp]:
  "co_settings (upd_cst f c) = co_settings c" "co_windows (upd_cst f c) = co_windows c"
  "co_last_incident (upd_cst f c) = co_last_incident c" "co_stats (upd_cst f c) = f (co_stats c)"
  by (simp_all add: upd_cst_def)

definition window_ok :: "correlation_settings \<Rightarrow> string \<Rightarrow> observation list \<Rightarrow> bool" where
  "window_ok s k os \<longleftrightarrow> length os \<le> cs_max_per_host s \<and> (\<forall>x \<in> set os. obs_host x = k)"

definition corr_wf :: "correlation_settings \<Rightarrow> correlator \<Rightarrow> bool" where
  "corr_wf s c \<longleftrightarrow> co_settings c = s \<and> hm_invar (co_windows c) \<and> hm_invar (co_last_incident c) \<and>
     length (co_windows c) \<le> cs_max_hosts s \<and>
     (\<forall>k os. hm_get (co_windows c) k = Some os \<longrightarrow> window_ok s k os)"

lemma trim_get:
  "hm_get (filter (\<lambda>(_, os). os \<noteq> []) (map (\<lambda>(k, os). (k, g os)) m)) k =
     (case hm_get m k of None \<Rightarrow> None | Some os \<Rightarrow> if g os = [] then None else Some (g os))"
  if "hm_invar m"
  using that
proof (induction m)
  case (Cons kv m)
  then have "hm_invar m" and nk: "fst kv \<notin> fst ` set m" by (auto simp: hm_invar_def)
  then have "hm_get m (fst kv) = None" by (simp add: map_of_eq_None_iff)
  with Cons.IH [OF \<open>hm_invar m\<close>] show ?case by (cases kv) auto
qed simp

lemma trim_keys:
  "hm_invar m \<Longrightarrow> hm_invar (filter (\<lambda>(_, os). os \<noteq> []) (map (\<lambda>(k, os). (k, g os)) m))"
proof -
  assume "hm_invar m"
  moreover have "map fst (map (\<lambda>(k, os). (k, g os)) m) = map fst m"
    by (simp add: comp_def case_prod_unfold)
  ultimately show ?thesis unfolding hm_invar_def by (metis distinct_map_filter)
qed

lemma expire_get:
  "corr_wf s c \<Longrightarrow> hm_get (co_windows (correlator_expire c now)) k =
     (case hm_get (co_windows c) k of None \<Rightarrow> None
      | Some os \<Rightarrow> if trim_window (cs_window s) now os = [] then None else Some (trim_window (cs_window s) now os))"
  by (simp add: correlator_expire_def corr_wf_def trim_get)

lemma trim_window_ok: "window_ok s k os \<Longrightarrow> window_ok s k (trim_window w now os)"
  by (auto simp: window_ok_def trim_window_def intro: le_trans [OF length_filter_le])

lemma expire_shrinks: "length (co_windows (correlator_expire c now)) \<le> length (co_windows c)"
  using length_filter_le [of "\<lambda>(_, os). os \<noteq> []"
      "map (\<lambda>(k, os). (k, trim_window (cs_window (co_settings c)) now os)) (co_windows c)"]
  by (simp add: correlator_expire_def)

lemma correlator_expire_wf:
  assumes wf: "corr_wf s c"
  shows "corr_wf s (correlator_expire c now)"
proof -
  note expire_shrinks [of c now]
  moreover have "window_ok s k os" if "hm_get (co_windows (correlator_expire c now)) k = Some os" for k os
    using that wf by (auto simp: expire_get [OF wf] corr_wf_def trim_window_ok split: option.splits if_splits)
  moreover have "hm_invar (co_windows (correlator_expire c now))"
      "hm_invar (co_last_incident (correlator_expire c now))" "co_settings (correlator_expire c now) = s"
    using wf by (simp_all add: corr_wf_def correlator_expire_def trim_keys)
  ultimately show ?thesis using wf by (simp add: corr_wf_def)
qed

lemma corr_wf_upd_cst [simp]: "corr_wf s (upd_cst f c) = corr_wf s c"
  by (simp add: corr_wf_def)

lemma try_correlate_wf:
  assumes "corr_wf s c" "try_correlate c x = (c', r)"
  shows "corr_wf s c'" "co_windows c' = co_windows c"
  using assms by (auto simp: try_correlate_def corr_wf_def split: if_splits option.splits)

lemma push_observation_result:
  assumes "window_ok s k os" "obs_host x = k" "1 \<le> cs_max_per_host s"
  shows "\<exists>os' d. push_observation (cs_max_per_host s) os x = Some (os', d) \<and> window_ok s k os' \<and>
    x \<in> set os' \<and> set os' \<subseteq> insert x (set os) \<and>
    os' = drop (Suc (length os) - cs_max_per_host s) os @ [x]"
  using assms by (cases os) (auto simp: push_observation_def window_ok_def)

text \<open>The state in which an observation is tried, and the window it is tried against.\<close>

lemma observe_tried:
  assumes wf: "corr_wf s c" and mx: "1 \<le> cs_max_per_host s"
  shows "(\<exists>c'. correlator_observe c x = Some (c', None) \<and> corr_wf s c' \<and>
      co_last_incident c' = co_last_incident (correlator_expire c (obs_timestamp x)) \<and>
      hm_get (co_windows (correlator_expire c (obs_timestamp x))) (obs_host x) = None \<and>
      cs_max_hosts s \<le> length (co_windows c)) \<or>
    (\<exists>d os. correlator_observe c x = Some (try_correlate d x) \<and> corr_wf s d \<and>
      hm_get (co_windows d) (obs_host x) = Some os \<and> x \<in> set os \<and>
      co_last_incident d = co_last_incident (correlator_expire c (obs_timestamp x)) \<and>
      (\<forall>y \<in> set os. obs_host y = obs_host x \<and> within_window (obs_timestamp y) (obs_timestamp x) (cs_window s)) \<and>
      (\<exists>old. old = unwrap_or (hm_get (co_windows (correlator_expire c (obs_timestamp x))) (obs_host x)) [] \<and>
        os = drop (Suc (length old) - cs_max_per_host s) old @ [x]))"
proof -
  let ?u = "upd_cst (\<lambda>s. s\<lparr>cst_observations := cst_observations s + 1\<rparr>) c"
  define e where "e = correlator_expire ?u (obs_timestamp x)"
  have e': "correlator_expire (upd_cst (\<lambda>s. s\<lparr>cst_observations := Suc (cst_observations s)\<rparr>) c)
      (obs_timestamp x) = e" by (simp add: e_def)
  let ?k = "obs_host x"
  have e: "corr_wf s e" unfolding e_def using wf by (intro correlator_expire_wf) simp
  have same: "co_windows e = co_windows (correlator_expire c (obs_timestamp x))"
      "co_last_incident e = co_last_incident (correlator_expire c (obs_timestamp x))"
    by (simp_all add: e_def correlator_expire_def)
  show ?thesis
  proof (cases "\<not> hm_contains (co_windows e) ?k \<and> cs_max_hosts s \<le> length (co_windows e)")
    case True
    with e have "correlator_observe c x = Some (upd_cst (\<lambda>s. s\<lparr>cst_dropped := cst_dropped s + 1\<rparr>) e, None)"
      by (simp add: correlator_observe_def Let_def corr_wf_def e')
    moreover have "cs_max_hosts s \<le> length (co_windows c)"
      using True expire_shrinks [of ?u "obs_timestamp x"] by (simp add: e')
    ultimately show ?thesis using e True same by (auto simp: hm_contains_def)
  next
    case False
    let ?old = "unwrap_or (hm_get (co_windows e) ?k) []"
    have old: "window_ok s ?k ?old"
      using e by (cases "hm_get (co_windows e) ?k") (auto simp: corr_wf_def unwrap_or_def window_ok_def)
    have near: "\<forall>y \<in> set ?old. within_window (obs_timestamp y) (obs_timestamp x) (cs_window s)"
    proof -
      have "hm_get (co_windows e) ?k = (case hm_get (co_windows c) ?k of None \<Rightarrow> None
          | Some os \<Rightarrow> if trim_window (cs_window s) (obs_timestamp x) os = [] then None
              else Some (trim_window (cs_window s) (obs_timestamp x) os))"
        unfolding same(1) by (rule expire_get [OF wf])
      then have "hm_get (co_windows e) ?k = None \<or>
          (\<exists>os. hm_get (co_windows e) ?k = Some (trim_window (cs_window s) (obs_timestamp x) os))"
        by (cases "hm_get (co_windows c) ?k") (auto split: if_splits)
      then show ?thesis
      proof (elim disjE exE)
        fix os
        assume "hm_get (co_windows e) ?k = Some (trim_window (cs_window s) (obs_timestamp x) os)"
        then have "?old = trim_window (cs_window s) (obs_timestamp x) os" by (simp only: unwrap_or_def option.case)
        then show ?thesis by (simp add: trim_window_def)
      qed (simp add: unwrap_or_def)
    qed
    obtain os dr where p: "push_observation (cs_max_per_host s) ?old x = Some (os, dr)" "window_ok s ?k os"
        "x \<in> set os" "set os \<subseteq> insert x (set ?old)" 
        "os = drop (Suc (length ?old) - cs_max_per_host s) ?old @ [x]"
      using push_observation_result [OF old refl mx] by blast
    define d where "d = (let d = e\<lparr>co_windows := hm_insert ?k os (co_windows e)\<rparr>
      in if dr then upd_cst (\<lambda>s. s\<lparr>cst_dropped := cst_dropped s + 1\<rparr>) d else d)"
    have inv: "hm_invar (co_windows e)" using e by (simp add: corr_wf_def)
    have dw: "co_windows d = hm_insert ?k os (co_windows e)" "co_last_incident d = co_last_incident e"
        "co_settings d = s"
      using e by (simp_all add: d_def Let_def corr_wf_def)
    have "length (co_windows d) \<le> cs_max_hosts s"
      using False e hm.size_insert [OF inv, of ?k os] by (auto simp: dw corr_wf_def hm_contains_def)
    moreover have "window_ok s k ws" if "hm_get (co_windows d) k = Some ws" for k ws
      using that p(2) e by (auto simp: dw hm.get_insert inv corr_wf_def split: if_splits)
    ultimately have wfd: "corr_wf s d" using e inv dw by (simp add: corr_wf_def)
    have run: "correlator_observe c x = Some (try_correlate d x)"
    proof -
      have "co_settings e = s" using e by (simp add: corr_wf_def)
      then show ?thesis
        using False p(1) unfolding correlator_observe_def Let_def e_def [symmetric] d_def
        by (simp only: if_False bind.bind_lunit prod.case)
    qed
    have self: "within_window (obs_timestamp x) (obs_timestamp x) (cs_window s)" by (simp add: within_window_def)
    have at: "\<forall>y \<in> set os. obs_host y = ?k" using p(2) unfolding window_ok_def by blast
    have "\<forall>y \<in> set os. within_window (obs_timestamp y) (obs_timestamp x) (cs_window s)"
      using p(4) near self by blast
    with at have "\<forall>y \<in> set os. obs_host y = ?k \<and> within_window (obs_timestamp y) (obs_timestamp x) (cs_window s)"
      by blast
    moreover have "hm_get (co_windows d) ?k = Some os" by (simp add: dw hm.get_insert inv)
    ultimately show ?thesis
      using wfd run dw(2) p(3,5) unfolding same by blast
  qed
qed

lemma observe_wf:
  assumes "corr_wf s c" "1 \<le> cs_max_per_host s"
  shows "\<exists>c' r. correlator_observe c x = Some (c', r) \<and> corr_wf s c'"
  using observe_tried [OF assms, of x]
proof (elim disjE exE conjE)
  fix d
  assume "correlator_observe c x = Some (try_correlate d x)" "corr_wf s d"
  then show ?thesis using try_correlate_wf [of s d x] by (cases "try_correlate d x") auto
qed blast

type_synonym correlation_run = "(correlator \<times> (observation \<times> incident_event) list) option"

text \<open>The correlator with every incident it has raised, each with its trigger.\<close>

fun correlation_step :: "correlation_run \<Rightarrow> observation \<Rightarrow> correlation_run" where
  "correlation_step None x = None"
| "correlation_step (Some (c, is)) x = do {
     (c, r) \<leftarrow> correlator_observe c x;
     Some (c, case r of None \<Rightarrow> is | Some i \<Rightarrow> is @ [(x, i)]) }"

definition correlation_safe :: "correlation_settings \<Rightarrow> correlation_run \<Rightarrow> bool" where
  "correlation_safe s run \<longleftrightarrow> 1 \<le> cs_max_per_host s \<longrightarrow> (case run of None \<Rightarrow> False | Some (c, is) \<Rightarrow> corr_wf s c)"

interpretation correlation_ops: invariant_machine
  "\<lambda>run. run = Some (correlator_new s, [])" correlation_step "correlation_safe s" for s
proof unfold_locales
  show "run = Some (correlator_new s, []) \<Longrightarrow> correlation_safe s run" for run
    by (simp add: correlation_safe_def corr_wf_def correlator_new_def)
  show "correlation_safe s run \<Longrightarrow> correlation_safe s (correlation_step run x)" for run x
  proof (cases run)
    case (Some ci)
    assume "correlation_safe s run"
    with Some observe_wf [of s "fst ci" x] show ?thesis
      by (cases ci) (auto simp: correlation_safe_def)
  qed (simp add: correlation_safe_def)
qed

lemma reachable_wf:
  assumes "foldl correlation_step (Some (correlator_new s, [])) xs = Some (c, is)" "1 \<le> cs_max_per_host s"
  shows "corr_wf s c"
proof -
  have "correlation_safe s (foldl correlation_step (Some (correlator_new s, [])) xs)"
    by (rule correlation_ops.inv_reachable) simp
  with assms show ?thesis by (simp add: correlation_safe_def)
qed

section \<open>Properties\<close>

text \<open>The correlator is bounded against whoever generates events: with room for at least one
  observation per host, any sequence of observations leaves it without a panic, tracking at
  most \<open>max_hosts\<close> hosts with at most \<open>max_per_host\<close> observations each.\<close>

theorem correlator_bounded:
  assumes "1 \<le> cs_max_per_host s"
  shows "\<exists>c is. foldl correlation_step (Some (correlator_new s, [])) xs = Some (c, is) \<and>
    length (co_windows c) \<le> cs_max_hosts s \<and>
    (\<forall>k os. hm_get (co_windows c) k = Some os \<longrightarrow> length os \<le> cs_max_per_host s)"
proof -
  have "correlation_safe s (foldl correlation_step (Some (correlator_new s, [])) xs)"
    by (rule correlation_ops.inv_reachable) simp
  with assms show ?thesis
    by (fastforce simp: correlation_safe_def corr_wf_def window_ok_def split: option.splits)
qed

theorem correlator_bounded_witness:
  "\<exists>c is. foldl correlation_step (Some (correlator_new default_correlation_settings, []))
      [\<lparr>obs_host = ''a'', obs_timestamp = 0, obs_domain = Host, obs_event_type = Fim, obs_sid = None,
        obs_severity = 2, obs_summary = ''''\<rparr>] = Some (c, is) \<and> length (co_windows c) \<le> 1024"
  using correlator_bounded [of default_correlation_settings
      "[\<lparr>obs_host = ''a'', obs_timestamp = 0, obs_domain = Host, obs_event_type = Fim, obs_sid = None,
        obs_severity = 2, obs_summary = ''''\<rparr>]"]
  by (auto simp del: foldl.simps simp: default_correlation_settings_def default_max_per_host_def
      default_max_hosts_def)

text \<open>A bound of zero observations per host, which the configuration accepts, is a panic at the
  first observation: the code makes room by removing the first element of an empty list.\<close>

theorem zero_per_host_panics:
  assumes "cs_max_per_host s = 0" "0 < cs_max_hosts s"
  shows "correlator_observe (correlator_new s) x = None"
  using assms by (simp add: correlator_observe_def correlator_new_def correlator_expire_def Let_def
      hm_contains_def unwrap_or_def push_observation_def upd_cst_def)

theorem zero_per_host_panics_witness:
  "correlator_observe (correlator_new (default_correlation_settings\<lparr>cs_max_per_host := 0\<rparr>))
     \<lparr>obs_host = ''a'', obs_timestamp = 0, obs_domain = Host, obs_event_type = Fim, obs_sid = None,
      obs_severity = 2, obs_summary = ''''\<rparr> = None"
  by (rule zero_per_host_panics) (simp_all add: default_correlation_settings_def default_max_hosts_def)

section \<open>What the windows hold\<close>

text \<open>A window is a part of what was observed of its host, in the order it was observed.\<close>

definition windows_of :: "observation list \<Rightarrow> correlator \<Rightarrow> bool" where
  "windows_of xs c \<longleftrightarrow> (\<forall>k os. hm_get (co_windows c) k = Some os \<longrightarrow> subseq os (filter (\<lambda>y. obs_host y = k) xs))"

lemma subseq_drop: "subseq (drop n xs) xs"
  by (simp add: suffix_drop suffix_imp_subseq)

lemma subseq_unwrap: "windows_of xs c \<Longrightarrow> subseq (unwrap_or (hm_get (co_windows c) k) []) (filter (\<lambda>y. obs_host y = k) xs)"
  by (cases "hm_get (co_windows c) k") (auto simp: windows_of_def unwrap_or_def)

lemma expire_windows_of: "corr_wf s c \<Longrightarrow> windows_of xs c \<Longrightarrow> windows_of xs (correlator_expire c now)"
  by (auto simp: windows_of_def expire_get trim_window_def split: option.splits if_splits intro: subseq_order.trans [OF subseq_filter_left])

lemma pushed_windows_of:
  assumes "hm_invar (co_windows c)" "windows_of xs c" "subseq os (filter (\<lambda>y. obs_host y = obs_host x) (xs @ [x]))"
  shows "windows_of (xs @ [x]) (c\<lparr>co_windows := hm_insert (obs_host x) os (co_windows c)\<rparr>)"
  using assms by (auto simp: windows_of_def hm.get_insert)

lemma upd_windows_of [simp]: "windows_of xs (upd_cst f c) = windows_of xs c"
  by (simp add: windows_of_def)

lemma observe_windows_of:
  assumes wf: "corr_wf s c" and w: "windows_of xs c" and o': "correlator_observe c x = Some (c', r)"
  shows "windows_of (xs @ [x]) c'"
proof -
  define e where "e = correlator_expire (upd_cst (\<lambda>s. s\<lparr>cst_observations := Suc (cst_observations s)\<rparr>) c) (obs_timestamp x)"
  have e: "corr_wf s e" unfolding e_def by (rule correlator_expire_wf) (simp add: wf)
  have we: "windows_of xs e" unfolding e_def by (rule expire_windows_of [of s]) (simp_all add: wf w)
  have later: "windows_of (xs @ [x]) e"
    using we subseq_order.trans [OF _ subseq_rev_drop_many] unfolding windows_of_def filter_append by blast
  let ?k = "obs_host x"
  have same: "co_windows (fst (try_correlate d x)) = co_windows d" for d
    by (auto simp: try_correlate_def split: option.splits if_splits)
  have tried: "windows_of (xs @ [x]) (fst (try_correlate d x)) = windows_of (xs @ [x]) d" for d
    by (simp add: windows_of_def same)
  show ?thesis
  proof (cases "\<not> hm_contains (co_windows e) ?k \<and> cs_max_hosts (co_settings e) \<le> length (co_windows e)")
    case True
    then show ?thesis using o' later by (auto simp: correlator_observe_def Let_def e_def [symmetric])
  next
    case False
    let ?old = "unwrap_or (hm_get (co_windows e) ?k) []"
    obtain os dr where p: "push_observation (cs_max_per_host (co_settings e)) ?old x = Some (os, dr)"
      and c': "c' = fst (try_correlate (let d = e\<lparr>co_windows := hm_insert ?k os (co_windows e)\<rparr> in
        if dr then upd_cst (\<lambda>s. s\<lparr>cst_dropped := cst_dropped s + 1\<rparr>) d else d) x)"
      using o' False unfolding correlator_observe_def Let_def
      by (auto simp: e_def [symmetric] split: bind_splits if_splits)
    have "subseq (drop n ?old @ [x]) (filter (\<lambda>y. obs_host y = ?k) (xs @ [x]))" for n
      using subseq_order.trans [OF subseq_drop subseq_unwrap [OF we]] by (simp add: list_emb_append_mono)
    moreover have "\<exists>n. os = drop n ?old @ [x]"
      using p by (cases ?old) (auto simp: push_observation_def split: if_splits intro: exI [of _ 0] exI [of _ 1])
    ultimately have "subseq os (filter (\<lambda>y. obs_host y = ?k) (xs @ [x]))" by blast
    with pushed_windows_of [of e xs os x] we e show ?thesis by (simp add: c' tried Let_def corr_wf_def)
  qed
qed

lemma run_windows_of:
  "foldl correlation_step (Some (correlator_new s, [])) xs = Some (c, is) \<Longrightarrow> 1 \<le> cs_max_per_host s \<Longrightarrow> windows_of xs c"
proof (induction xs arbitrary: c "is" rule: rev_induct)
  case Nil
  then show ?case by (auto simp: windows_of_def correlator_new_def)
next
  case (snoc x xs)
  then obtain c0 is0 r where r: "foldl correlation_step (Some (correlator_new s, [])) xs = Some (c0, is0)" "correlator_observe c0 x = Some (c, r)"
    by (cases "foldl correlation_step (Some (correlator_new s, [])) xs") (auto split: bind_splits)
  then show ?case using snoc observe_windows_of [OF reachable_wf] by blast
qed

section \<open>What an incident says\<close>

definition evidence_of :: "incident_event \<Rightarrow> observation list \<Rightarrow> bool" where
  "evidence_of i os \<longleftrightarrow> os \<noteq> [] \<and> ie_contributors i = map contributor os \<and>
     sorted (map obs_timestamp os) \<and> ie_severity i = Min (obs_severity ` set os) \<and>
     ie_first_seen i = Min (obs_timestamp ` set os) \<and> ie_last_seen i = Max (obs_timestamp ` set os) \<and>
     ie_reason i = show_nat (length (filter (\<lambda>y. obs_domain y = Network) os)) @ '' network and '' @
       show_nat (length (filter (\<lambda>y. obs_domain y = Host) os)) @ '' host observations on the same host within the correlation window''"

lemma described: "describe os = show_nat (length (filter (\<lambda>y. obs_domain y = Network) os)) @ '' network and '' @
    show_nat (length (filter (\<lambda>y. obs_domain y = Host) os)) @ '' host observations on the same host within the correlation window''"
proof -
  have n: "(\<lambda>y. obs_domain y = Network) = (\<lambda>y. \<not> obs_domain y = Host)" by (auto simp: fun_eq_iff) (metis domain.exhaust)
  have "length os - length (filter (\<lambda>y. obs_domain y = Host) os) = length (filter (\<lambda>y. obs_domain y = Network) os)"
    unfolding n using sum_length_filter_compl [of "\<lambda>y. obs_domain y = Host" os] by linarith
  then show ?thesis by (simp add: describe_def Let_def)
qed

lemma sorted_ends:
  assumes "sorted (map f os)" "os \<noteq> []"
  shows "f (hd os) = Min (f ` set os)" "f (last os) = Max (f ` set os)"
proof -
  show "f (hd os) = Min (f ` set os)"
    using assms by (intro Min_eqI [symmetric]) (cases os; auto)+
  show "f (last os) = Max (f ` set os)"
    using assms by (intro Max_eqI [symmetric]) (cases os rule: rev_cases; auto simp: sorted_append)+
qed

lemma make_incident_evidence:
  assumes "os \<noteq> []"
  shows "\<exists>i. make_incident os = Some i \<and> evidence_of i (sort_key obs_timestamp os)"
proof -
  let ?c = "sort_key obs_timestamp os"
  have ne: "?c \<noteq> []" using assms by (metis length_0_conv length_sort)
  have srt: "sorted (map obs_timestamp ?c)" by simp
  let ?i = "\<lparr>ie_reason = describe ?c, ie_severity = Min (obs_severity ` set ?c),
      ie_first_seen = obs_timestamp (hd ?c), ie_last_seen = obs_timestamp (last ?c),
      ie_contributors = map contributor ?c\<rparr>"
  have "make_incident os = Some ?i"
    using ne by (cases ?c) (simp_all add: make_incident_def)
  moreover have "evidence_of ?i ?c"
    using sorted_ends [OF srt ne] ne srt by (simp only: evidence_of_def incident_event.simps described simp_thms)
  ultimately show ?thesis by blast
qed

lemma try_correlate_raises:
  assumes "try_correlate d x = (c', r)" "hm_get (co_windows d) (obs_host x) = Some os" "x \<in> set os"
  shows "(case r of None \<Rightarrow> co_last_incident c' = co_last_incident d
      | Some i \<Rightarrow> evidence_of i (sort_key obs_timestamp os) \<and>
          (\<exists>y \<in> set os. obs_domain y = opposite (obs_domain x)) \<and>
          co_last_incident c' = hm_insert (obs_host x) (obs_timestamp x) (co_last_incident d)) \<and>
    (r = None \<longleftrightarrow>
      (\<exists>t. hm_get (co_last_incident d) (obs_host x) = Some t \<and>
        within_window t (obs_timestamp x) (cs_cooldown (co_settings d))) \<or>
      (\<forall>y \<in> set os. obs_domain y \<noteq> opposite (obs_domain x)))"
proof -
  have "os \<noteq> []" using assms(3) by auto
  then obtain i where i: "make_incident os = Some i" "evidence_of i (sort_key obs_timestamp os)"
    using make_incident_evidence by blast
  with assms show ?thesis
    by (auto simp: try_correlate_def list_ex_iff split: if_splits option.splits)
qed

text \<open>C39. An incident is corroborated: whenever one is raised, there are observations, among those actually made, in the order they were made and the
  trigger the last of them, all of the trigger's host and all within the correlation window of it, host-side and network-side ones
  both; the incident lists exactly these, in time order, says how many of them are from each side, first and last seen are their
  extremes, and the severity is the worst of them.\<close>

theorem incident_is_corroborated:
  assumes "foldl correlation_step (Some (correlator_new s, [])) xs = Some (c, is)"
    and "1 \<le> cs_max_per_host s" "correlator_observe c x = Some (c', Some i)"
  shows "\<exists>os. subseq os (filter (\<lambda>y. obs_host y = obs_host x \<and> within_window (obs_timestamp y) (obs_timestamp x) (cs_window s)) (xs @ [x])) \<and>
    last os = x \<and> obs_domain ` set os = {Host, Network} \<and> evidence_of i (sort_key obs_timestamp os)"
proof -
  have wf: "corr_wf s c" by (rule reachable_wf [OF assms(1,2)])
  obtain d os where d: "try_correlate d x = (c', Some i)" "hm_get (co_windows d) (obs_host x) = Some os"
      "x \<in> set os" "\<forall>y \<in> set os. obs_host y = obs_host x \<and>
        within_window (obs_timestamp y) (obs_timestamp x) (cs_window s)" "last os = x"
    using observe_tried [OF wf assms(2), of x]
  proof (elim disjE exE conjE)
    fix d os old
    assume h: "correlator_observe c x = Some (try_correlate d x)" "hm_get (co_windows d) (obs_host x) = Some os"
      "x \<in> set os" "\<forall>y \<in> set os. obs_host y = obs_host x \<and>
        within_window (obs_timestamp y) (obs_timestamp x) (cs_window s)" "os = drop (Suc (length old) - cs_max_per_host s) old @ [x]"
    from h(1) assms(3) have "try_correlate d x = (c', Some i)" by simp
    then show thesis using h(2-4) by (rule that) (simp add: h(5))
  next
    fix c''
    assume "correlator_observe c x = Some (c'', None)"
    with assms(3) show thesis by simp
  qed
  have "co_windows c' = co_windows d" using d(1) by (auto simp: try_correlate_def split: if_splits option.splits)
  then have sub: "subseq os (filter (\<lambda>y. obs_host y = obs_host x) (xs @ [x]))"
    using observe_windows_of [OF wf run_windows_of [OF assms(1,2)] assms(3)] d(2) unfolding windows_of_def by metis
  have "filter (\<lambda>y. obs_host y = obs_host x \<and> within_window (obs_timestamp y) (obs_timestamp x) (cs_window s)) os = os"
    using d(4) by simp
  with subseq_filter [OF sub, of "\<lambda>y. within_window (obs_timestamp y) (obs_timestamp x) (cs_window s)"]
  have sub': "subseq os (filter (\<lambda>y. obs_host y = obs_host x \<and> within_window (obs_timestamp y) (obs_timestamp x) (cs_window s)) (xs @ [x]))"
    using d(4) by (simp add: conj_commute within_window_def [of "obs_timestamp x" "obs_timestamp x"])
  from try_correlate_raises [OF d(1-3)] obtain y where
    ev: "evidence_of i (sort_key obs_timestamp os)" "y \<in> set os" "obs_domain y = opposite (obs_domain x)"
    unfolding option.case by blast
  have "{obs_domain x, obs_domain y} = {Host, Network}" using ev(3) by (cases "obs_domain x") auto
  then have "obs_domain ` set os = {Host, Network}" using d(3) ev(2) domain.exhaust by blast
  with sub' d(5) ev(1) show ?thesis by blast
qed

text \<open>A file change and a network alert on one host, one second apart.\<close>

abbreviation sample_fim :: observation where
  "sample_fim \<equiv> \<lparr>obs_host = ''web'', obs_timestamp = 0, obs_domain = Host, obs_event_type = Fim,
     obs_sid = None, obs_severity = 2, obs_summary = ''drop''\<rparr>"

abbreviation sample_alert :: observation where
  "sample_alert \<equiv> \<lparr>obs_host = ''web'', obs_timestamp = 5, obs_domain = Network, obs_event_type = Alert,
     obs_sid = Some 7, obs_severity = 1, obs_summary = ''shell''\<rparr>"

abbreviation sample_settings :: correlation_settings where
  "sample_settings \<equiv> \<lparr>cs_window = 10, cs_max_hosts = 4, cs_max_per_host = 4, cs_cooldown = 20\<rparr>"

abbreviation sample_incident :: incident_event where
  "sample_incident \<equiv> \<lparr>ie_reason = ''1 network and 1 host observations on the same host within the correlation window'',
     ie_severity = 1, ie_first_seen = 0, ie_last_seen = 5,
     ie_contributors = [contributor sample_fim, contributor sample_alert]\<rparr>"

lemma sample_first:
  "foldl correlation_step (Some (correlator_new sample_settings, [])) [sample_fim] =
     Some (\<lparr>co_settings = sample_settings, co_windows = [(''web'', [sample_fim])], co_last_incident = [],
       co_stats = \<lparr>cst_enabled = True, cst_observations = 1, cst_incidents = 0, cst_dropped = 0\<rparr>\<rparr>, [])"
  by code_simp

lemma sample_second:
  "correlator_observe \<lparr>co_settings = sample_settings, co_windows = [(''web'', [sample_fim])],
       co_last_incident = [],
       co_stats = \<lparr>cst_enabled = True, cst_observations = 1, cst_incidents = 0, cst_dropped = 0\<rparr>\<rparr> sample_alert =
     Some (\<lparr>co_settings = sample_settings, co_windows = [(''web'', [sample_fim, sample_alert])],
       co_last_incident = [(''web'', 5)],
       co_stats = \<lparr>cst_enabled = True, cst_observations = 2, cst_incidents = 1, cst_dropped = 0\<rparr>\<rparr>,
     Some sample_incident)"
  by code_simp

theorem incident_is_corroborated_witness:
  "\<exists>os. subseq os [sample_fim, sample_alert] \<and> last os = sample_alert \<and> obs_domain ` set os = {Host, Network} \<and>
     evidence_of sample_incident (sort_key obs_timestamp os)"
  using incident_is_corroborated [OF sample_first _ sample_second] by (auto simp: within_window_def)

lemma cooldown_step:
  assumes wf: "corr_wf s c" and mx: "1 \<le> cs_max_per_host s"
    and cool: "hm_get (co_last_incident c) h = Some t" "within_window t (obs_timestamp y) (cs_cooldown s)"
  shows "\<exists>c' r. correlator_observe c y = Some (c', r) \<and> corr_wf s c' \<and>
    hm_get (co_last_incident c') h = Some t \<and> (obs_host y = h \<longrightarrow> r = None)"
proof -
  have kept: "hm_get (co_last_incident (correlator_expire c (obs_timestamp y))) h = Some t"
    using wf cool by (simp add: correlator_expire_def corr_wf_def hm.get_retain)
  show ?thesis using observe_tried [OF wf mx, of y]
  proof (elim disjE exE conjE)
    fix d os
    assume d: "correlator_observe c y = Some (try_correlate d y)" "corr_wf s d"
      "hm_get (co_windows d) (obs_host y) = Some os" "y \<in> set os"
      "co_last_incident d = co_last_incident (correlator_expire c (obs_timestamp y))"
    obtain c' r where tc: "try_correlate d y = (c', r)" by (cases "try_correlate d y")
    note R = try_correlate_raises [OF tc d(3,4)]
    have ds: "co_settings d = s" "hm_invar (co_last_incident d)" using d(2) by (simp_all add: corr_wf_def)
    have no: "obs_host y = h \<longrightarrow> r = None" using R kept cool(2) d(5) ds by auto
    have "hm_get (co_last_incident c') h = Some t"
    proof (cases r)
      case None
      with R kept d(5) show ?thesis by simp
    next
      case (Some i)
      with R have "co_last_incident c' = hm_insert (obs_host y) (obs_timestamp y) (co_last_incident d)" by simp
      with Some no kept d(5) ds show ?thesis by (simp add: hm.get_insert)
    qed
    with d(1) tc no try_correlate_wf(1) [OF d(2) tc] show ?thesis by auto
  qed (use kept in auto)
qed

lemma cooldown_run:
  assumes "corr_wf s c" "1 \<le> cs_max_per_host s" "hm_get (co_last_incident c) h = Some t"
    and "\<forall>y \<in> set ys. within_window t (obs_timestamp y) (cs_cooldown s)"
    and "\<forall>(y, j) \<in> set js. obs_host y \<noteq> h"
  shows "\<exists>c' js'. foldl correlation_step (Some (c, js)) ys = Some (c', js') \<and>
    (\<forall>(y, j) \<in> set js'. obs_host y \<noteq> h)"
  using assms(1,3-)
proof (induction ys arbitrary: c js)
  case (Cons y ys)
  then obtain c' r where o': "correlator_observe c y = Some (c', r)" "corr_wf s c'"
      "hm_get (co_last_incident c') h = Some t" "obs_host y = h \<longrightarrow> r = None"
    using cooldown_step [OF Cons.prems(1) assms(2) Cons.prems(2), of y] by auto
  have "\<forall>(y, j) \<in> set (case r of None \<Rightarrow> js | Some i \<Rightarrow> js @ [(y, i)]). obs_host y \<noteq> h"
    using o'(4) Cons.prems(4) by (auto split: option.splits)
  with Cons.IH [OF o'(2,3)] Cons.prems(3) o'(1) show ?case by simp
qed simp

text \<open>One incident is not a stream of them: once an incident has been raised on a host, no
  sequence of observations (of any hosts, in any order) whose timestamps lie within the
  cooldown of it raises another on that host, and none of them makes the correlator panic.\<close>

theorem one_incident_per_cooldown:
  assumes "foldl correlation_step (Some (correlator_new s, [])) xs = Some (c, is)"
    and "1 \<le> cs_max_per_host s" "correlator_observe c x = Some (c', Some i)"
    and "\<forall>y \<in> set ys. within_window (obs_timestamp x) (obs_timestamp y) (cs_cooldown s)"
  shows "\<exists>c'' js. foldl correlation_step (Some (c', [])) ys = Some (c'', js) \<and>
    (\<forall>(y, j) \<in> set js. obs_host y \<noteq> obs_host x)"
proof -
  have wf: "corr_wf s c" by (rule reachable_wf [OF assms(1,2)])
  have wf': "corr_wf s c'" using observe_wf [OF wf assms(2), of x] assms(3) by auto
  have "hm_get (co_last_incident c') (obs_host x) = Some (obs_timestamp x)"
    using observe_tried [OF wf assms(2), of x]
  proof (elim disjE exE conjE)
    fix d os
    assume d: "correlator_observe c x = Some (try_correlate d x)" "corr_wf s d"
      "hm_get (co_windows d) (obs_host x) = Some os" "x \<in> set os"
    from d(1) assms(3) have "try_correlate d x = (c', Some i)" by simp
    from try_correlate_raises [OF this d(3,4)] d(2) show ?thesis by (simp add: corr_wf_def hm.get_insert)
  qed (use assms(3) in simp)
  from cooldown_run [OF wf' assms(2) this assms(4), of "[]"] show ?thesis by simp
qed

theorem one_incident_per_cooldown_witness:
  "\<exists>c js. foldl correlation_step (Some (\<lparr>co_settings = sample_settings,
       co_windows = [(''web'', [sample_fim, sample_alert])], co_last_incident = [(''web'', 5)],
       co_stats = \<lparr>cst_enabled = True, cst_observations = 2, cst_incidents = 1, cst_dropped = 0\<rparr>\<rparr>, []))
     [sample_alert\<lparr>obs_timestamp := 9\<rparr>] = Some (c, js) \<and> (\<forall>(y, j) \<in> set js. obs_host y \<noteq> ''web'')"
  using one_incident_per_cooldown [OF sample_first _ sample_second, of "[sample_alert\<lparr>obs_timestamp := 9\<rparr>]"]
  by (simp add: within_window_def del: foldl.simps)

text \<open>Evidence just taken in is still in the host's window at the next observation that is near.\<close>

lemma observed_is_kept:
  assumes wf: "corr_wf s c" and mx: "1 \<le> cs_max_per_host s" and room: "length (co_windows c) < cs_max_hosts s"
    and quiet: "hm_get (co_last_incident c) (obs_host a) = None"
  shows "\<exists>c' r. correlator_observe c a = Some (c', r) \<and> corr_wf s c' \<and>
    (r = None \<longrightarrow> hm_get (co_last_incident c') (obs_host a) = None \<and>
      (\<exists>os. hm_get (co_windows c') (obs_host a) = Some (os @ [a])))"
  using observe_tried [OF wf mx, of a]
proof (elim disjE exE conjE)
  fix d os old
  assume d: "correlator_observe c a = Some (try_correlate d a)" "corr_wf s d"
    "hm_get (co_windows d) (obs_host a) = Some os" "a \<in> set os"
    "co_last_incident d = co_last_incident (correlator_expire c (obs_timestamp a))"
    "os = drop (Suc (length old) - cs_max_per_host s) old @ [a]"
  obtain c' r where tc: "try_correlate d a = (c', r)" by (cases "try_correlate d a")
  have "hm_get (co_last_incident d) (obs_host a) = None"
    using wf quiet by (simp add: d(5) correlator_expire_def corr_wf_def hm.get_retain)
  with d try_correlate_wf [OF d(2) tc] try_correlate_raises [OF tc d(3,4)] tc show ?thesis by auto
qed (use room in simp)

text \<open>Corroboration is not missed: for every reachable correlator that has a slot for another
  host and has not lately raised an incident on this one, two observations of the host from opposite
  halves of the sensor, one after the other and within the window of each other, raise an
  incident; when it is the second that raises it, both are among its contributors.\<close>

theorem agreeing_pair_raises:
  assumes "foldl correlation_step (Some (correlator_new s, [])) xs = Some (c, is)"
    and mx: "2 \<le> cs_max_per_host s" and room: "length (co_windows c) < cs_max_hosts s"
    and quiet: "hm_get (co_last_incident c) (obs_host a) = None"
    and pair: "obs_host b = obs_host a" "obs_domain b = opposite (obs_domain a)"
      "within_window (obs_timestamp a) (obs_timestamp b) (cs_window s)"
  shows "\<exists>c' r. correlator_observe c a = Some (c', r) \<and> (r = None \<longrightarrow>
    (\<exists>c'' i. correlator_observe c' b = Some (c'', Some i) \<and>
      {contributor a, contributor b} \<subseteq> set (ie_contributors i)))"
proof -
  have mx1: "1 \<le> cs_max_per_host s" using mx by simp
  from observed_is_kept [OF reachable_wf [OF assms(1) mx1] mx1 room quiet] obtain c' r where
    c': "correlator_observe c a = Some (c', r)" "corr_wf s c'"
      "r = None \<longrightarrow> hm_get (co_last_incident c') (obs_host a) = None \<and>
        (\<exists>os. hm_get (co_windows c') (obs_host a) = Some (os @ [a]))" by blast
  have "\<exists>c'' i. correlator_observe c' b = Some (c'', Some i) \<and>
      {contributor a, contributor b} \<subseteq> set (ie_contributors i)" if "r = None"
  proof -
    from that c'(3) obtain os0 where q: "hm_get (co_last_incident c') (obs_host a) = None"
      and w: "hm_get (co_windows c') (obs_host a) = Some (os0 @ [a])" by blast
    have tr: "hm_get (co_windows (correlator_expire c' (obs_timestamp b))) (obs_host b) =
        Some (trim_window (cs_window s) (obs_timestamp b) os0 @ [a])"
      using w pair by (simp add: expire_get [OF c'(2)] trim_window_def)
    show ?thesis using observe_tried [OF c'(2) mx1, of b]
    proof (elim disjE exE conjE)
      fix d os old
      assume d: "correlator_observe c' b = Some (try_correlate d b)" "corr_wf s d"
        "hm_get (co_windows d) (obs_host b) = Some os" "b \<in> set os"
        "co_last_incident d = co_last_incident (correlator_expire c' (obs_timestamp b))"
        "old = unwrap_or (hm_get (co_windows (correlator_expire c' (obs_timestamp b))) (obs_host b)) []"
        "os = drop (Suc (length old) - cs_max_per_host s) old @ [b]"
      have old: "old = trim_window (cs_window s) (obs_timestamp b) os0 @ [a]" by (simp add: d(6) tr)
      have "length old \<le> cs_max_per_host s"
        using correlator_expire_wf [OF c'(2), of "obs_timestamp b"] tr
        unfolding corr_wf_def window_ok_def old by blast
      then have a: "a \<in> set os" using mx by (simp add: d(7) old)
      obtain c'' r' where tc: "try_correlate d b = (c'', r')" by (cases "try_correlate d b")
      note R = try_correlate_raises [OF tc d(3,4)]
      have "hm_get (co_last_incident d) (obs_host b) = None"
        using c'(2) q pair by (simp add: d(5) correlator_expire_def corr_wf_def hm.get_retain)
      moreover have "obs_domain a = opposite (obs_domain b)" using pair by (cases "obs_domain a") auto
      ultimately obtain i where r': "r' = Some i" using R a by fastforce
      then have "evidence_of i (sort_key obs_timestamp os)" using R by auto
      with a d(4) have "{contributor a, contributor b} \<subseteq> set (ie_contributors i)"
        by (simp add: evidence_of_def)
      with d(1) tc r' show ?thesis by auto
    qed (use tr in simp)
  qed
  with c'(1) show ?thesis by blast
qed

theorem agreeing_pair_raises_witness:
  "\<exists>c' r. correlator_observe (correlator_new sample_settings) sample_fim = Some (c', r) \<and> (r = None \<longrightarrow>
    (\<exists>c'' i. correlator_observe c' sample_alert = Some (c'', Some i) \<and>
      {contributor sample_fim, contributor sample_alert} \<subseteq> set (ie_contributors i)))"
  by (rule agreeing_pair_raises [of sample_settings "[]" _ "[]"])
    (simp_all add: correlator_new_def within_window_def)

end
