(* ===== verification/NetText.thy ===== *)
theory NetText
  imports VerdictPath
begin

text \<open>
  Networks from text (\<open>IpNetwork::from_str\<close> and \<open>Display\<close> of \<open>crates/common/src/net.rs\<close>), on the
  address parser of the standard library: a reader takes the text and returns the value with
  the rest, or \<open>None\<close> having consumed nothing. Text is a list of characters below 256.
\<close>

section \<open>Text helpers\<close>

definition str_trim :: "string \<Rightarrow> string" where
  "str_trim cs = rev (dropWhile is_space (rev (dropWhile is_space cs)))"

text \<open>\<open>split_once\<close>: around the first separator.\<close>

definition split_once :: "char \<Rightarrow> string \<Rightarrow> (string \<times> string) option" where
  "split_once s cs = (let p = takeWhile (\<lambda>c. c \<noteq> s) cs in
     if length p = length cs then None else Some (p, drop (Suc (length p)) cs))"

lemma str_trim_length: "length (str_trim cs) \<le> length cs"
  unfolding str_trim_def by (metis length_dropWhile_le length_rev le_trans)

section \<open>Addresses\<close>

definition to_digit :: "nat \<Rightarrow> char \<Rightarrow> nat option" where
  "to_digit radix c = (let n = of_char c;
       v = (if 48 \<le> n \<and> n \<le> 57 then n - 48 else if 97 \<le> n \<and> n \<le> 122 then n - 87
            else if 65 \<le> n \<and> n \<le> 90 then n - 55 else radix)
     in if v < radix then Some v else None)"

definition read_number :: "nat \<Rightarrow> nat \<Rightarrow> nat \<Rightarrow> bool \<Rightarrow> string \<Rightarrow> (nat \<times> string) option" where
  "read_number radix max_digits mx allow_zero_prefix cs =
     (let ds = takeWhile (\<lambda>c. to_digit radix c \<noteq> None) cs;
          v = foldl (\<lambda>a c. a * radix + the (to_digit radix c)) 0 ds
      in if ds = [] \<or> max_digits < length ds \<or> \<not> allow_zero_prefix \<and> hd ds = CHR ''0'' \<and> 1 < length ds \<or> mx < v
         then None else Some (v, drop (length ds) cs))"

definition read_separator :: "char \<Rightarrow> nat \<Rightarrow> (string \<Rightarrow> ('a \<times> string) option) \<Rightarrow> string \<Rightarrow> ('a \<times> string) option" where
  "read_separator sep index inner cs =
     (if index = 0 then inner cs
      else case cs of [] \<Rightarrow> None | c # rest \<Rightarrow> if c = sep then inner rest else None)"

fun read_octets :: "nat \<Rightarrow> nat \<Rightarrow> string \<Rightarrow> (bytes \<times> string) option" where
  "read_octets index 0 cs = Some ([], cs)"
| "read_octets index (Suc n) cs = do {
     (v, cs) \<leftarrow> read_separator (CHR ''.'') index (read_number 10 3 255 False) cs;
     (vs, cs) \<leftarrow> read_octets (Suc index) n cs;
     Some (of_nat v # vs, cs) }"

definition read_ipv4 :: "string \<Rightarrow> (32 word \<times> string) option" where
  "read_ipv4 cs = do { (vs, cs) \<leftarrow> read_octets 0 4 cs; Some (be_word vs, cs) }"

text \<open>Up to \<open>n\<close> more groups, the last two of which may be a dotted address.\<close>

fun read_groups :: "nat \<Rightarrow> nat \<Rightarrow> string \<Rightarrow> 16 word list \<times> bool \<times> string" where
  "read_groups index 0 cs = ([], False, cs)"
| "read_groups index (Suc n) cs =
     (case (if 0 < n then read_separator (CHR '':'') index read_ipv4 cs else None) of
        Some (v4, cs) \<Rightarrow> ([ucast (drop_bit 16 v4), ucast v4], True, cs)
      | None \<Rightarrow> (case read_separator (CHR '':'') index (read_number 16 4 65535 True) cs of
            None \<Rightarrow> ([], False, cs)
          | Some (g, cs) \<Rightarrow> (case read_groups (Suc index) n cs of
                (gs, v4, cs) \<Rightarrow> (of_nat g # gs, v4, cs))))"

definition groups_word :: "16 word list \<Rightarrow> 128 word" where
  "groups_word gs = foldl (\<lambda>w g. or (push_bit 16 w) (ucast g)) 0 gs"

definition read_ipv6 :: "string \<Rightarrow> (128 word \<times> string) option" where
  "read_ipv6 cs = (case read_groups 0 8 cs of (head, head_v4, cs) \<Rightarrow>
     if length head = 8 then Some (groups_word head, cs)
     else if head_v4 then None
     else case cs of
         c1 # c2 # rest \<Rightarrow>
           if c1 = CHR '':'' \<and> c2 = CHR '':''
           then (case read_groups 0 (8 - (length head + 1)) rest of (tl', _, cs) \<Rightarrow>
               Some (groups_word (head @ replicate (8 - length head - length tl') 0 @ tl'), cs))
           else None
       | _ \<Rightarrow> None)"

definition parse_ip :: "string \<Rightarrow> ip_addr option" where
  "parse_ip cs = (case read_ipv4 cs of
       Some (a, rest) \<Rightarrow> if rest = [] then Some (V4 a) else None
     | None \<Rightarrow> (case read_ipv6 cs of
           Some (a, rest) \<Rightarrow> if rest = [] then Some (V6 a) else None
         | None \<Rightarrow> None))"

section \<open>Networks\<close>

definition u8_max :: nat where "u8_max = 255"

definition network_from_str :: "string \<Rightarrow> ip_network_error + ip_network" where
  "network_from_str cs =
     (let cs = str_trim cs in
      case split_once (CHR ''/'') cs of
        None \<Rightarrow> (case parse_ip cs of
            None \<Rightarrow> Inl (BadAddress cs)
          | Some address \<Rightarrow> Inr (host_network address))
      | Some (a, prefix) \<Rightarrow> (case parse_ip a of
            None \<Rightarrow> Inl (BadAddress a)
          | Some address \<Rightarrow> (case parse_uint u8_max prefix of
                None \<Rightarrow> Inl (BadPrefix prefix)
              | Some prefix_len \<Rightarrow> new_network address prefix_len)))"

text \<open>The dotted form of an address, and the text of a network over it.\<close>

definition show_ipv4 :: "32 word \<Rightarrow> string" where
  "show_ipv4 a = (case map (\<lambda>b. show_nat (unat b)) (be_bytes 4 a) of
     [s0, s1, s2, s3] \<Rightarrow> s0 @ ''.'' @ s1 @ ''.'' @ s2 @ ''.'' @ s3 | _ \<Rightarrow> [])"

text \<open>\<open>{:x}\<close> of a number, and the text of an IPv6 address: the longest run of at least two zero groups, the
  first of them, becomes a double colon.\<close>

fun show_hex :: "nat \<Rightarrow> string" where
  "show_hex n = (if n < 16 then [] else show_hex (n div 16)) @ [''0123456789abcdef'' ! (n mod 16)]"

declare show_hex.simps [simp del]

fun zero_run :: "nat \<Rightarrow> nat \<times> nat \<Rightarrow> nat \<times> nat \<Rightarrow> 16 word list \<Rightarrow> nat \<times> nat" where
  "zero_run i current longest [] = longest"
| "zero_run i current longest (g # gs) =
     (if g = 0
      then let current = (if snd current = 0 then i else fst current, snd current + 1)
           in zero_run (i + 1) current (if snd longest < snd current then current else longest) gs
      else zero_run (i + 1) (0, 0) longest gs)"

definition show_groups :: "16 word list \<Rightarrow> string" where
  "show_groups gs = (case map (\<lambda>g. show_hex (unat g)) gs of [] \<Rightarrow> []
     | t # ts \<Rightarrow> t @ concat (map (\<lambda>t. '':'' @ t) ts))"

definition ipv6_groups :: "128 word \<Rightarrow> 16 word list" where
  "ipv6_groups a = map (\<lambda>i. ucast (drop_bit (16 * (7 - i)) a)) [0..<8]"

definition show_ipv6 :: "128 word \<Rightarrow> string" where
  "show_ipv6 a = (let gs = ipv6_groups a in
     if take 6 gs = [0, 0, 0, 0, 0, 0xffff] then ''::ffff:'' @ show_ipv4 (ucast a)
     else case zero_run 0 (0, 0) (0, 0) gs of (start, len) \<Rightarrow>
       if 1 < len then show_groups (take start gs) @ ''::'' @ show_groups (drop (start + len) gs)
       else show_groups gs)"

fun show_ip :: "ip_addr \<Rightarrow> string" where
  "show_ip (V4 a) = show_ipv4 a"
| "show_ip (V6 a) = show_ipv6 a"

definition show_network :: "(ip_addr \<Rightarrow> string) \<Rightarrow> ip_network \<Rightarrow> string" where
  "show_network show_addr n = show_addr (net_address n) @ ''/'' @ show_nat (net_prefix_len n)"

section \<open>Reading back what was printed\<close>

lemma to_digit_char: "d < 10 \<Longrightarrow> to_digit 10 (char_of (48 + d)) = Some d"
  by (simp add: to_digit_def Let_def)

lemma show_nat_one: "n < 10 \<Longrightarrow> show_nat n = [char_of (48 + n)]"
  by (simp add: show_nat.simps)

lemma show_nat_two: "10 \<le> n \<Longrightarrow> n < 100 \<Longrightarrow> show_nat n = [char_of (48 + n div 10), char_of (48 + n mod 10)]"
  by (simp add: show_nat.simps [of n] show_nat_one)

lemma show_nat_three:
  "100 \<le> n \<Longrightarrow> n < 1000 \<Longrightarrow>
     show_nat n = [char_of (48 + n div 100), char_of (48 + n div 10 mod 10), char_of (48 + n mod 10)]"
  using show_nat_two [of "n div 10"] by (simp add: show_nat.simps [of n] div_mult2_eq [symmetric])

lemma leading_char: "0 < (d::nat) \<Longrightarrow> d < 10 \<Longrightarrow> char_of (48 + d) \<noteq> CHR ''0''"
proof
  assume "0 < d" "d < 10" "char_of (48 + d) = CHR ''0''"
  moreover have "to_digit 10 (CHR ''0'') = Some 0" by (simp add: to_digit_def)
  ultimately show False using to_digit_char [of d] by simp
qed

lemma read_number_show:
  assumes "n \<le> 255" "rest = [] \<or> to_digit 10 (hd rest) = None"
  shows "read_number 10 3 255 False (show_nat n @ rest) = Some (n, rest)"
proof -
  have stop: "takeWhile (\<lambda>c. \<exists>y. to_digit 10 c = Some y) rest = []"
    using assms(2) by (cases rest) auto
  consider "n < 10" | "10 \<le> n" "n < 100" | "100 \<le> n" "n < 1000" using assms(1) by linarith
  then show ?thesis
  proof cases
    case 1
    then show ?thesis
      using assms(1) stop by (simp add: show_nat_one read_number_def Let_def to_digit_char)
  next
    case 2
    have d: "n div 10 < 10" "n mod 10 < 10" "0 < n div 10" using 2 by (simp_all add: div_greater_zero_iff)
    have "(n div 10) * 10 + n mod 10 = n" by simp
    with 2 d show ?thesis
      using assms(1) stop by (simp add: show_nat_two read_number_def Let_def to_digit_char leading_char)
  next
    case 3
    have d: "n div 100 < 10" "n div 10 mod 10 < 10" "n mod 10 < 10" "0 < n div 100"
      using 3 by (simp_all add: div_greater_zero_iff)
    have "n div 10 div 10 = n div 100" by (simp add: div_mult2_eq [symmetric])
    then have "(n div 100 * 10 + n div 10 mod 10) * 10 + n mod 10 = n"
      by (metis div_mult_mod_eq)
    with 3 d show ?thesis
      using assms(1) stop by (simp add: show_nat_three read_number_def Let_def to_digit_char leading_char)
  qed
qed

lemma byte_le: "unat (b :: byte) \<le> 255"
proof -
  have "unat b < 2 ^ LENGTH(8)" by (rule unsigned_less)
  then show ?thesis by simp
qed

lemma four_bytes: "\<exists>b b1 b2 b3. be_bytes 4 a = [b, b1, b2, b3]"
  using length_be_bytes [of 4 a] by (auto simp: length_Suc_conv numeral_eq_Suc simp del: length_be_bytes)

lemma read_octets_show:
  fixes bs :: bytes
  assumes "rest = [] \<or> to_digit 10 (hd rest) = None" "length bs = n"
  shows "read_octets (Suc i) n (concat (map (\<lambda>b. ''.'' @ show_nat (unat b)) bs) @ rest) = Some (bs, rest)"
  using assms(2)
proof (induction bs arbitrary: i n)
  case (Cons b bs)
  have b: "unat b \<le> 255" by (rule byte_le)
  have dot: "to_digit 10 (CHR ''.'') = None" by (simp add: to_digit_def)
  let ?tail = "concat (map (\<lambda>b. ''.'' @ show_nat (unat b)) bs) @ rest"
  have "?tail = [] \<or> to_digit 10 (hd ?tail) = None" using assms(1) dot by (cases bs) auto
  from read_number_show [OF b this] Cons show ?case by (auto simp: read_separator_def)
qed simp

lemma show_ipv4_octets:
  "be_bytes 4 a = b # bs \<Longrightarrow>
     show_ipv4 a = show_nat (unat b) @ concat (map (\<lambda>b. ''.'' @ show_nat (unat b)) bs)"
  using four_bytes [of a] by (auto simp: show_ipv4_def)

lemma read_ipv4_show:
  assumes "rest = [] \<or> to_digit 10 (hd rest) = None"
  shows "read_ipv4 (show_ipv4 a @ rest) = Some (a, rest)"
proof -
  obtain b bs where e: "be_bytes 4 a = b # bs" and l: "length bs = 3" using four_bytes [of a] by auto
  let ?tail = "concat (map (\<lambda>b. ''.'' @ show_nat (unat b)) bs) @ rest"
  have dot: "to_digit 10 (CHR ''.'') = None" by (simp add: to_digit_def)
  have "?tail = [] \<or> to_digit 10 (hd ?tail) = None" using assms dot by (cases bs) auto
  moreover have "unat b \<le> 255" by (rule byte_le)
  ultimately have n: "read_number 10 3 255 False (show_nat (unat b) @ ?tail) = Some (unat b, ?tail)"
    by (intro read_number_show)
  have "read_octets 0 4 (show_nat (unat b) @ ?tail) = Some (b # bs, rest)"
  proof -
    have "read_octets 0 (Suc 3) (show_nat (unat b) @ ?tail) = Some (b # bs, rest)"
      unfolding read_octets.simps using n read_octets_show [OF assms l, of 0]
      by (simp add: read_separator_def)
    then show ?thesis by simp
  qed
  moreover have "be_word (b # bs) = a" using be_word_be_bytes [of 4 a] by (simp add: e [symmetric])
  ultimately show ?thesis by (simp add: read_ipv4_def show_ipv4_octets [OF e])
qed

lemma show_ipv4_chars: "\<forall>c \<in> set (show_ipv4 a). digit_char_p c \<or> c = CHR ''.''"
proof -
  obtain b bs where e: "be_bytes 4 a = b # bs" using four_bytes [of a] by auto
  show ?thesis using show_nat_chars by (auto simp: show_ipv4_octets [OF e])
qed

lemma trim_plain: "\<forall>c \<in> set cs. \<not> is_space c \<Longrightarrow> str_trim cs = cs"
proof -
  assume p: "\<forall>c \<in> set cs. \<not> is_space c"
  then have "dropWhile is_space cs = cs" by (cases cs) auto
  moreover have "dropWhile is_space (rev cs) = rev cs" 
    using p by (metis dropWhile_eq_self_iff hd_in_set set_rev)
  ultimately show ?thesis by (simp add: str_trim_def)
qed

text \<open>Reading a network never yields anything but a well-formed one: the prefix fits the family
  and the host bits are clear, whatever the text.\<close>

theorem network_from_str_wf:
  assumes "network_from_str cs = Inr n"
  shows "wf_network n"
  using assms by (auto simp: network_from_str_def Let_def new_network_wf host_network_wf
      split: option.splits prod.splits)

theorem network_from_str_wf_witness:
  "wf_network \<lparr>net_address = V4 0x0A000000, net_prefix_len = 8\<rparr>"
proof (rule network_from_str_wf)
  show "network_from_str '' 10.1.2.3/8'' = Inr \<lparr>net_address = V4 0x0A000000, net_prefix_len = 8\<rparr>"
    by code_simp
qed

text \<open>A printed IPv4 network is read back: for every address and every prefix that fits a byte, the text
  \<open>a.b.c.d/p\<close> is read as the network of that address and prefix, or refused as too long; and the
  bare address is read as the network of that one host.\<close>

theorem network_text_roundtrip:
  assumes "p \<le> 255"
  shows "network_from_str (show_ipv4 a @ ''/'' @ show_nat p) = new_network (V4 a) p \<and>
    network_from_str (show_ipv4 a) = Inr (host_network (V4 a))"
proof -
  have slash: "to_digit 10 (CHR ''/'') = None" by (simp add: to_digit_def)
  have plain: "\<not> is_space c \<and> c \<noteq> CHR ''/''" if "digit_char_p c \<or> c = CHR ''.''" for c
    using that by (auto simp: digit_char_p_def is_space_def Let_def)
  have tw: "takeWhile (\<lambda>c. c \<noteq> CHR ''/'') (show_ipv4 a @ ys) = show_ipv4 a @ takeWhile (\<lambda>c. c \<noteq> CHR ''/'') ys" for ys
    using show_ipv4_chars plain by (auto simp: takeWhile_append)
  have tw0: "takeWhile (\<lambda>c. c \<noteq> CHR ''/'') (show_ipv4 a) = show_ipv4 a"
    using tw [of "[]"] by (simp only: append_Nil2 takeWhile.simps)
  have sp: "\<not> is_space (CHR ''/'')" by (simp add: is_space_def)
  have "str_trim (show_ipv4 a @ ''/'' @ show_nat p) = show_ipv4 a @ ''/'' @ show_nat p"
    using show_ipv4_chars show_nat_chars plain sp by (intro trim_plain) auto
  moreover have "str_trim (show_ipv4 a) = show_ipv4 a"
    using show_ipv4_chars plain by (intro trim_plain) auto
  moreover have "parse_ip (show_ipv4 a) = Some (V4 a)"
    using read_ipv4_show [of "[]" a] by (simp add: parse_ip_def)
  moreover have "parse_uint u8_max (show_nat p) = Some p"
    using assms by (intro parse_uint_show) (simp add: u8_max_def)
  moreover have "split_once (CHR ''/'') (show_ipv4 a @ ''/'' @ show_nat p) = Some (show_ipv4 a, show_nat p)"
    using tw [of "''/'' @ show_nat p"] by (simp add: split_once_def Let_def)
  moreover have "split_once (CHR ''/'') (show_ipv4 a) = None"
    unfolding split_once_def Let_def tw0 by simp
  ultimately show ?thesis by (simp add: network_from_str_def Let_def)
qed

theorem network_text_roundtrip_witness:
  "network_from_str (show_ipv4 0x0A010203 @ ''/'' @ show_nat 24) = new_network (V4 0x0A010203) 24"
  using network_text_roundtrip [of 24 "0x0A010203"] by simp

end
