(* ===== verification/Headers.thy ===== *)
theory Headers
  imports NetText
begin

text \<open>
  Rule headers: the header model of \<open>crates/rules/src/model.rs\<close> and the resolution of variables into
  address and port sets in \<open>crates/engine/src/vars.rs\<close>. The two kinds of set have the same
  shape and the same code in the source, so they are one record over the type of their elements, and
  the resolver is one function over the reader of a literal. The text an error message
  carries besides the name or literal it is about is left out.
\<close>

section \<open>Headers as parsed\<close>

datatype rule_action = RAlert | RPass | RDrop

fun action_blocks :: "rule_action \<Rightarrow> bool" where
  "action_blocks RDrop = True"
| "action_blocks _ = False"

datatype rule_protocol = RTcp | RUdp | RIcmp | RIp | RHttp | RDns | RTls

fun is_app_layer :: "rule_protocol \<Rightarrow> bool" where
  "is_app_layer RHttp = True"
| "is_app_layer RDns = True"
| "is_app_layer RTls = True"
| "is_app_layer _ = False"

datatype direction = ToDestination | Bidirectional

datatype address_value = AnyAddress | AddressVar string | AddressList string | AddressLiteral string

record address_spec =
  asp_negated :: bool
  asp_value :: address_value

datatype port_value = AnyPort | PortVar string | PortList string | PortSingle "16 word"
  | PortRange "16 word option" "16 word option"

record port_spec =
  psp_negated :: bool
  psp_value :: port_value

record rule_header =
  rh_action :: rule_action
  rh_protocol :: rule_protocol
  rh_source :: address_spec
  rh_source_port :: port_spec
  rh_direction :: direction
  rh_destination :: address_spec
  rh_destination_port :: port_spec

section \<open>Sets\<close>

definition max_var_depth :: nat where "max_var_depth = 16"

datatype var_error = Undefined string | TooDeep string | Malformed string | UnsupportedNegation

record 'a match_set =
  ms_any :: bool
  ms_include :: "'a list"
  ms_exclude :: "'a list"

type_synonym address_set = "ip_network match_set"
type_synonym port_set = "(16 word \<times> 16 word) match_set"

definition set_contains :: "('a \<Rightarrow> 'b \<Rightarrow> bool) \<Rightarrow> 'a match_set \<Rightarrow> 'b \<Rightarrow> bool" where
  "set_contains has s x = (if list_ex (\<lambda>e. has e x) (ms_exclude s) then False
     else ms_any s \<or> list_ex (\<lambda>e. has e x) (ms_include s))"

definition address_set_contains :: "address_set \<Rightarrow> ip_addr \<Rightarrow> bool" where
  "address_set_contains = set_contains net_contains"

definition port_in :: "16 word \<times> 16 word \<Rightarrow> 16 word \<Rightarrow> bool" where
  "port_in r port \<longleftrightarrow> (case r of (low, high) \<Rightarrow> low \<le> port \<and> port \<le> high)"

definition port_set_contains :: "port_set \<Rightarrow> 16 word \<Rightarrow> bool" where
  "port_set_contains = set_contains port_in"

definition no_set :: "'a match_set" where
  "no_set = \<lparr>ms_any = False, ms_include = [], ms_exclude = []\<rparr>"

definition everything :: "'a match_set" where
  "everything = \<lparr>ms_any = True, ms_include = [], ms_exclude = []\<rparr>"

definition just :: "'a \<Rightarrow> 'a match_set" where
  "just e = \<lparr>ms_any = False, ms_include = [e], ms_exclude = []\<rparr>"

definition set_negate :: "'a match_set \<Rightarrow> var_error + 'a match_set" where
  "set_negate s = (case (ms_any s, ms_include s = [], ms_exclude s = []) of
       (True, True, True) \<Rightarrow> Inr no_set
     | (True, True, False) \<Rightarrow> Inr \<lparr>ms_any = False, ms_include = ms_exclude s, ms_exclude = []\<rparr>
     | (False, False, True) \<Rightarrow> Inr \<lparr>ms_any = True, ms_include = [], ms_exclude = ms_include s\<rparr>
     | (False, True, True) \<Rightarrow> Inr everything
     | _ \<Rightarrow> Inl UnsupportedNegation)"

definition set_extend :: "'a match_set \<Rightarrow> 'a match_set \<Rightarrow> 'a match_set" where
  "set_extend combined part = \<lparr>ms_any = ms_any combined \<or> ms_any part,
     ms_include = ms_include combined @ ms_include part, ms_exclude = ms_exclude combined @ ms_exclude part\<rparr>"

section \<open>Expressions\<close>

definition strip_prefix :: "char \<Rightarrow> string \<Rightarrow> string option" where
  "strip_prefix p cs = (case cs of [] \<Rightarrow> None | c # rest \<Rightarrow> if c = p then Some rest else None)"

definition strip_brackets :: "string \<Rightarrow> string option" where
  "strip_brackets cs = (case strip_prefix (CHR ''['') cs of
       None \<Rightarrow> None
     | Some rest \<Rightarrow> if rest \<noteq> [] \<and> last rest = CHR '']'' then Some (butlast rest) else None)"

text \<open>Splitting at the commas outside nested brackets.\<close>

fun split_loop :: "string \<Rightarrow> nat \<Rightarrow> string \<Rightarrow> string list" where
  "split_loop [] depth cur = [cur]"
| "split_loop (c # cs) depth cur =
     (if c = CHR ''['' then split_loop cs (depth + 1) (cur @ [c])
      else if c = CHR '']'' then split_loop cs (depth - 1) (cur @ [c])
      else if c = CHR '','' \<and> depth = 0 then cur # split_loop cs depth []
      else split_loop cs depth (cur @ [c]))"

definition split_top_level :: "string \<Rightarrow> string list" where
  "split_top_level cs = filter (\<lambda>p. p \<noteq> []) (map str_trim (split_loop cs 0 []))"

definition is_any :: "string \<Rightarrow> bool" where
  "is_any cs \<longleftrightarrow> length cs = 3 \<and> cs ! 0 \<in> {CHR ''a'', CHR ''A''} \<and> cs ! 1 \<in> {CHR ''n'', CHR ''N''} \<and>
     cs ! 2 \<in> {CHR ''y'', CHR ''Y''}"

type_synonym vars = "(string, string) hashmap"

text \<open>The text of a variable, one level deeper.\<close>

definition var_text :: "vars \<Rightarrow> nat \<Rightarrow> string \<Rightarrow> var_error + string" where
  "var_text vars depth name =
     (if max_var_depth \<le> depth then Inl (TooDeep name)
      else case hm_get vars name of None \<Rightarrow> Inl (Undefined name) | Some body \<Rightarrow> Inr body)"

lemma split_loop_length:
  "sum_list (map (\<lambda>p. Suc (length p)) (split_loop cs d cur)) = Suc (length cs + length cur)"
  by (induction cs d cur rule: split_loop.induct) auto

lemma split_top_level_length:
  "sum_list (map (\<lambda>p. Suc (length p)) (split_top_level cs)) \<le> Suc (length cs)"
proof -
  have "sum_list (map (\<lambda>p. Suc (length p)) (filter (\<lambda>p. p \<noteq> []) (map str_trim ps))) \<le>
      sum_list (map (\<lambda>p. Suc (length p)) ps)" for ps
  proof (induction ps)
    case (Cons p ps)
    then show ?case using str_trim_length [of p] by simp
  qed simp
  from this [of "split_loop cs 0 []"] show ?thesis by (simp add: split_top_level_def split_loop_length)
qed

lemma strip_prefix_length: "strip_prefix p cs = Some rest \<Longrightarrow> length rest < length cs"
  by (cases cs) (auto simp: strip_prefix_def split: if_splits)

lemma strip_brackets_length: "strip_brackets cs = Some inner \<Longrightarrow> Suc (length inner) < length cs"
  by (cases cs) (auto simp: strip_brackets_def strip_prefix_def split: option.splits if_splits)

lemma var_text_depth: "var_text vars depth name = Inr body \<Longrightarrow> depth < max_var_depth"
  by (simp add: var_text_def split: if_splits)

lemma strip_trimmed_length: "strip_prefix p (str_trim cs) = Some rest \<Longrightarrow> length rest < length cs"
  using strip_prefix_length [of p "str_trim cs" rest] str_trim_length [of cs] by simp

lemma split_trimmed_length:
  "strip_brackets (str_trim cs) = Some inner \<Longrightarrow>
     sum_list (map (\<lambda>p. Suc (length p)) (split_top_level inner)) < length cs"
  using strip_brackets_length [of "str_trim cs" inner] str_trim_length [of cs] split_top_level_length [of inner]
  by simp

lemma var_text_deeper:
  "var_text vars depth name = Inr body \<Longrightarrow> max_var_depth - Suc depth < max_var_depth - depth"
  using var_text_depth [of vars depth name body] by simp

text \<open>An expression as written in the configuration, over a reader of literals.\<close>

function set_expression :: "(string \<Rightarrow> var_error + 'a match_set) \<Rightarrow> vars \<Rightarrow> nat \<Rightarrow> string \<Rightarrow> var_error + 'a match_set"
  and set_elements :: "(string \<Rightarrow> var_error + 'a match_set) \<Rightarrow> vars \<Rightarrow> nat \<Rightarrow> string list \<Rightarrow> 'a match_set \<Rightarrow>
    var_error + 'a match_set" where
  "set_expression literal vars depth cs0 = (let cs = str_trim cs0 in
     case strip_prefix (CHR ''!'') cs of
       Some rest \<Rightarrow> (case set_expression literal vars depth rest of Inl e \<Rightarrow> Inl e | Inr s \<Rightarrow> set_negate s)
     | None \<Rightarrow> (case strip_brackets cs of
         Some inner \<Rightarrow> set_elements literal vars depth (split_top_level inner) no_set
       | None \<Rightarrow>
           if is_any cs then Inr everything
           else (case strip_prefix (CHR ''$'') cs of
             Some name \<Rightarrow> (case var_text vars depth name of
                 Inl e \<Rightarrow> Inl e
               | Inr body \<Rightarrow> set_expression literal vars (depth + 1) body)
           | None \<Rightarrow> literal cs)))"
| "set_elements literal vars depth [] combined = Inr combined"
| "set_elements literal vars depth (e # es) combined = (case set_expression literal vars depth e of
       Inl err \<Rightarrow> Inl err
     | Inr part \<Rightarrow> set_elements literal vars depth es (set_extend combined part))"
  by pat_completeness auto

text \<open>Resolving ends: a step strips text, or goes one variable deeper, which the depth bound stops.\<close>

termination
  by (relation "measures [\<lambda>x. case x of Inl (_, _, depth, _) \<Rightarrow> max_var_depth - depth
        | Inr (_, _, depth, _, _) \<Rightarrow> max_var_depth - depth,
      \<lambda>x. case x of Inl (_, _, _, cs) \<Rightarrow> length cs
        | Inr (_, _, _, es, _) \<Rightarrow> sum_list (map (\<lambda>p. Suc (length p)) es)]")
    (auto dest: strip_trimmed_length split_trimmed_length var_text_deeper)

declare set_expression.simps [simp del]

section \<open>Addresses and ports\<close>

definition address_literal :: "string \<Rightarrow> var_error + address_set" where
  "address_literal cs = (case network_from_str cs of Inl _ \<Rightarrow> Inl (Malformed cs) | Inr n \<Rightarrow> Inr (just n))"

definition parse_port :: "string \<Rightarrow> 16 word \<Rightarrow> var_error + 16 word" where
  "parse_port cs empty_default = (let cs = str_trim cs in
     if cs = [] then Inr empty_default
     else case parse_uint u16_max cs of None \<Rightarrow> Inl (Malformed cs) | Some p \<Rightarrow> Inr (of_nat p))"

definition port_literal :: "string \<Rightarrow> var_error + port_set" where
  "port_literal cs = (case split_once (CHR '':'') cs of
       Some (low, high) \<Rightarrow> (case parse_port low 0 of
           Inl e \<Rightarrow> Inl e
         | Inr low \<Rightarrow> (case parse_port high (- 1) of
             Inl e \<Rightarrow> Inl e
           | Inr high \<Rightarrow> Inr (just (low, high))))
     | None \<Rightarrow> (case parse_port cs 0 of Inl e \<Rightarrow> Inl e | Inr port \<Rightarrow> Inr (just (port, port))))"

definition address_expression :: "vars \<Rightarrow> nat \<Rightarrow> string \<Rightarrow> var_error + address_set" where
  "address_expression = set_expression address_literal"

definition port_expression :: "vars \<Rightarrow> nat \<Rightarrow> string \<Rightarrow> var_error + port_set" where
  "port_expression = set_expression port_literal"

record var_table =
  vt_addresses :: vars
  vt_ports :: vars

fun address_value_set :: "var_table \<Rightarrow> address_value \<Rightarrow> nat \<Rightarrow> var_error + address_set" where
  "address_value_set vt AnyAddress depth = Inr everything"
| "address_value_set vt (AddressLiteral cs) depth = address_literal cs"
| "address_value_set vt (AddressVar name) depth = (case var_text (vt_addresses vt) depth name of
       Inl e \<Rightarrow> Inl e | Inr body \<Rightarrow> address_expression (vt_addresses vt) (depth + 1) body)"
| "address_value_set vt (AddressList cs) depth = address_expression (vt_addresses vt) depth cs"

fun port_value_set :: "var_table \<Rightarrow> port_value \<Rightarrow> nat \<Rightarrow> var_error + port_set" where
  "port_value_set vt AnyPort depth = Inr everything"
| "port_value_set vt (PortSingle port) depth = Inr (just (port, port))"
| "port_value_set vt (PortRange low high) depth = Inr (just (unwrap_or low 0, unwrap_or high (- 1)))"
| "port_value_set vt (PortVar name) depth = (case var_text (vt_ports vt) depth name of
       Inl e \<Rightarrow> Inl e | Inr body \<Rightarrow> port_expression (vt_ports vt) (depth + 1) body)"
| "port_value_set vt (PortList cs) depth = port_expression (vt_ports vt) depth cs"

definition resolve_addresses :: "var_table \<Rightarrow> address_spec \<Rightarrow> var_error + address_set" where
  "resolve_addresses vt spec = (case address_value_set vt (asp_value spec) 0 of
       Inl e \<Rightarrow> Inl e | Inr s \<Rightarrow> if asp_negated spec then set_negate s else Inr s)"

definition resolve_ports :: "var_table \<Rightarrow> port_spec \<Rightarrow> var_error + port_set" where
  "resolve_ports vt spec = (case port_value_set vt (psp_value spec) 0 of
       Inl e \<Rightarrow> Inl e | Inr s \<Rightarrow> if psp_negated spec then set_negate s else Inr s)"

section \<open>Compiled headers\<close>

record compiled_header =
  ch_protocol :: rule_protocol
  ch_source :: address_set
  ch_source_ports :: port_set
  ch_destination :: address_set
  ch_destination_ports :: port_set
  ch_bidirectional :: bool

definition header_resolve :: "rule_header \<Rightarrow> var_table \<Rightarrow> var_error + compiled_header" where
  "header_resolve h vt = (case resolve_addresses vt (rh_source h) of Inl e \<Rightarrow> Inl e | Inr src \<Rightarrow>
     case resolve_ports vt (rh_source_port h) of Inl e \<Rightarrow> Inl e | Inr src_ports \<Rightarrow>
     case resolve_addresses vt (rh_destination h) of Inl e \<Rightarrow> Inl e | Inr dst \<Rightarrow>
     case resolve_ports vt (rh_destination_port h) of Inl e \<Rightarrow> Inl e | Inr dst_ports \<Rightarrow>
       Inr \<lparr>ch_protocol = rh_protocol h, ch_source = src, ch_source_ports = src_ports,
         ch_destination = dst, ch_destination_ports = dst_ports,
         ch_bidirectional = (rh_direction h = Bidirectional)\<rparr>)"

definition one_way :: "compiled_header \<Rightarrow> ip_addr \<Rightarrow> 16 word option \<Rightarrow> ip_addr \<Rightarrow> 16 word option \<Rightarrow> bool" where
  "one_way h source source_port destination destination_port \<longleftrightarrow>
     address_set_contains (ch_source h) source \<and> address_set_contains (ch_destination h) destination \<and>
     (case source_port of None \<Rightarrow> True | Some port \<Rightarrow> port_set_contains (ch_source_ports h) port) \<and>
     (case destination_port of None \<Rightarrow> True | Some port \<Rightarrow> port_set_contains (ch_destination_ports h) port)"

fun protocol_matches :: "rule_protocol \<Rightarrow> protocol \<Rightarrow> bool" where
  "protocol_matches RIp wire = True"
| "protocol_matches RTcp wire = (wire = Tcp)"
| "protocol_matches RUdp wire = (wire = Udp)"
| "protocol_matches RIcmp wire = (wire = Icmp)"
| "protocol_matches RHttp wire = (wire = Tcp)"
| "protocol_matches RTls wire = (wire = Tcp)"
| "protocol_matches RDns wire = (wire = Udp \<or> wire = Tcp)"

definition header_matches :: "compiled_header \<Rightarrow> net_tuple \<Rightarrow> bool" where
  "header_matches h t =
     (if \<not> protocol_matches (ch_protocol h) (proto t) then False
      else if one_way h (src_ip t) (src_port t) (dest_ip t) (dest_port t) then True
      else ch_bidirectional h \<and> one_way h (dest_ip t) (dest_port t) (src_ip t) (src_port t))"

section \<open>Properties\<close>

lemma set_negate_exact:
  "set_negate s = Inr s' \<Longrightarrow> set_contains has s' x \<longleftrightarrow> \<not> set_contains has s x"
  by (auto simp: set_negate_def set_contains_def no_set_def everything_def list_ex_iff split: bool.splits if_splits)

lemma set_negate_refused:
  "set_negate s = Inl e \<longleftrightarrow> e = UnsupportedNegation \<and>
     (ms_any s \<and> ms_include s \<noteq> [] \<or> \<not> ms_any s \<and> ms_exclude s \<noteq> [])"
  by (auto simp: set_negate_def split: bool.splits)

text \<open>Negation is exact or refused: when a negated address or port field resolves, it selects exactly
  what the field without the negation leaves out, whatever lists, variables and inner
  negations it is made of; a set it could only approximate is an error.\<close>

theorem negated_field_exact:
  assumes "resolve_addresses vt (spec\<lparr>asp_negated := True\<rparr>) = Inr s"
    and "resolve_ports vt (pspec\<lparr>psp_negated := True\<rparr>) = Inr ps"
  shows "\<exists>s0 ps0. resolve_addresses vt (spec\<lparr>asp_negated := False\<rparr>) = Inr s0 \<and>
    resolve_ports vt (pspec\<lparr>psp_negated := False\<rparr>) = Inr ps0 \<and>
    (\<forall>a. address_set_contains s a \<longleftrightarrow> \<not> address_set_contains s0 a) \<and>
    (\<forall>p. port_set_contains ps p \<longleftrightarrow> \<not> port_set_contains ps0 p)"
  using assms
  by (auto simp: resolve_addresses_def resolve_ports_def address_set_contains_def port_set_contains_def
      set_negate_exact split: sum.splits)

lemmas resolve_eval = set_expression.simps var_text_def max_var_depth_def str_trim_def is_space_def strip_prefix_def
  strip_brackets_def split_top_level_def is_any_def split_once_def parse_uint_def digit_value_def
  set_extend_def just_def no_set_def set_negate_def

abbreviation sample_vars :: var_table where
  "sample_vars \<equiv> \<lparr>vt_addresses = [(''HOME'', ''[10.0.0.0/8, 192.168.0.0/16]''), (''EXT'', ''!$HOME''), (''LOOP'', ''$LOOP''),
       (''MIXED'', ''[10.0.0.0/8,!10.1.0.0/16]'')],
     vt_ports = [(''WEB'', ''[80,8000:8100]'')]\<rparr>"

lemma sample_resolved:
  "resolve_addresses sample_vars \<lparr>asp_negated = True, asp_value = AddressVar ''EXT''\<rparr> =
     Inr \<lparr>ms_any = False, ms_include = [\<lparr>net_address = V4 0x0A000000, net_prefix_len = 8\<rparr>,
       \<lparr>net_address = V4 0xC0A80000, net_prefix_len = 16\<rparr>], ms_exclude = []\<rparr>"
  "resolve_ports sample_vars \<lparr>psp_negated = True, psp_value = PortVar ''WEB''\<rparr> =
     Inr \<lparr>ms_any = True, ms_include = [], ms_exclude = [(80, 80), (8000, 8100)]\<rparr>"
proof -
  show "resolve_addresses sample_vars \<lparr>asp_negated = True, asp_value = AddressVar ''EXT''\<rparr> =
     Inr \<lparr>ms_any = False, ms_include = [\<lparr>net_address = V4 0x0A000000, net_prefix_len = 8\<rparr>,
       \<lparr>net_address = V4 0xC0A80000, net_prefix_len = 16\<rparr>], ms_exclude = []\<rparr>"
    by code_simp
  show "resolve_ports sample_vars \<lparr>psp_negated = True, psp_value = PortVar ''WEB''\<rparr> =
     Inr \<lparr>ms_any = True, ms_include = [], ms_exclude = [(80, 80), (8000, 8100)]\<rparr>"
    by (simp add: resolve_ports_def port_expression_def resolve_eval port_literal_def parse_port_def u16_max_def)
qed

theorem negated_field_exact_witness:
  "\<exists>s0 ps0. resolve_addresses sample_vars \<lparr>asp_negated = False, asp_value = AddressVar ''EXT''\<rparr> = Inr s0 \<and>
    resolve_ports sample_vars \<lparr>psp_negated = False, psp_value = PortVar ''WEB''\<rparr> = Inr ps0 \<and>
    \<not> address_set_contains s0 (V4 0x0A000001) \<and> port_set_contains ps0 80"
proof -
  have "resolve_addresses sample_vars (\<lparr>asp_negated = True, asp_value = AddressVar ''EXT''\<rparr>\<lparr>asp_negated := True\<rparr>) =
      Inr \<lparr>ms_any = False, ms_include = [\<lparr>net_address = V4 0x0A000000, net_prefix_len = 8\<rparr>,
       \<lparr>net_address = V4 0xC0A80000, net_prefix_len = 16\<rparr>], ms_exclude = []\<rparr>"
    "resolve_ports sample_vars (\<lparr>psp_negated = True, psp_value = PortVar ''WEB''\<rparr>\<lparr>psp_negated := True\<rparr>) =
      Inr \<lparr>ms_any = True, ms_include = [], ms_exclude = [(80, 80), (8000, 8100)]\<rparr>"
    using sample_resolved by simp_all
  from negated_field_exact [OF this] obtain s0 ps0 where r: "resolve_addresses sample_vars \<lparr>asp_negated = False, asp_value = AddressVar ''EXT''\<rparr> = Inr s0"
      "resolve_ports sample_vars \<lparr>psp_negated = False, psp_value = PortVar ''WEB''\<rparr> = Inr ps0"
    and a: "\<forall>a. address_set_contains \<lparr>ms_any = False, ms_include = [\<lparr>net_address = V4 0x0A000000, net_prefix_len = 8\<rparr>,
       \<lparr>net_address = V4 0xC0A80000, net_prefix_len = 16\<rparr>], ms_exclude = []\<rparr> a \<longleftrightarrow> \<not> address_set_contains s0 a"
    and p: "\<forall>p. port_set_contains \<lparr>ms_any = True, ms_include = [], ms_exclude = [(80, 80), (8000, 8100)]\<rparr> p \<longleftrightarrow>
        \<not> port_set_contains ps0 p"
    by auto
  have "address_set_contains \<lparr>ms_any = False, ms_include = [\<lparr>net_address = V4 0x0A000000, net_prefix_len = 8\<rparr>,
       \<lparr>net_address = V4 0xC0A80000, net_prefix_len = 16\<rparr>], ms_exclude = []\<rparr> (V4 0x0A000001)" by code_simp
  moreover have "\<not> port_set_contains \<lparr>ms_any = True, ms_include = [], ms_exclude = [(80, 80), (8000, 8100)]\<rparr> 80"
    by (simp add: port_set_contains_def set_contains_def port_in_def)
  ultimately show ?thesis using r a p by blast
qed

text \<open>What a list resolves to, element by element.\<close>

lemma set_elements_result:
  "set_elements literal vars depth es combined = Inr s \<longleftrightarrow>
     (\<exists>parts. list_all2 (\<lambda>e part. set_expression literal vars depth e = Inr part) es parts \<and>
       s = foldl set_extend combined parts)"
proof (induction es arbitrary: combined)
  case (Cons e es)
  show ?case
    by (cases "set_expression literal vars depth e") (auto simp: Cons list_all2_Cons1)
qed auto

lemma foldl_set_extend:
  "ms_any (foldl set_extend c parts) \<longleftrightarrow> ms_any c \<or> (\<exists>p \<in> set parts. ms_any p)"
  "set (ms_include (foldl set_extend c parts)) = set (ms_include c) \<union> (\<Union>p \<in> set parts. set (ms_include p))"
  "set (ms_exclude (foldl set_extend c parts)) = set (ms_exclude c) \<union> (\<Union>p \<in> set parts. set (ms_exclude p))"
  by (induction parts arbitrary: c) (auto simp: set_extend_def)

lemma set_elements_contains:
  assumes "set_elements literal vars depth es no_set = Inr s"
  shows "\<exists>parts. list_all2 (\<lambda>e part. set_expression literal vars depth e = Inr part) es parts \<and>
    (set_contains has s x \<longleftrightarrow> (\<forall>p \<in> set parts. \<forall>e \<in> set (ms_exclude p). \<not> has e x) \<and>
      (\<exists>p \<in> set parts. ms_any p \<or> (\<exists>e \<in> set (ms_include p). has e x)))"
proof -
  from assms obtain parts where p: "list_all2 (\<lambda>e part. set_expression literal vars depth e = Inr part) es parts"
    "s = foldl set_extend no_set parts" by (auto simp: set_elements_result)
  have "set_contains has s x \<longleftrightarrow> (\<forall>p \<in> set parts. \<forall>e \<in> set (ms_exclude p). \<not> has e x) \<and>
      (\<exists>p \<in> set parts. ms_any p \<or> (\<exists>e \<in> set (ms_include p). has e x))"
    unfolding set_contains_def list_ex_iff p(2) foldl_set_extend by (auto simp: no_set_def)
  with p(1) show ?thesis by blast
qed

text \<open>A list of inclusions is their union: if no element of an address list excludes anything, the list
  selects an address exactly when one of its elements, resolved on its own, does.\<close>

theorem list_is_union:
  assumes "set_elements address_literal vars depth es no_set = Inr s"
    and "\<forall>e \<in> set es. \<forall>part. address_expression vars depth e = Inr part \<longrightarrow> ms_exclude part = []"
  shows "address_set_contains s a \<longleftrightarrow>
    (\<exists>e \<in> set es. \<exists>part. address_expression vars depth e = Inr part \<and> address_set_contains part a)"
proof -
  from set_elements_contains [OF assms(1), of net_contains a] obtain parts where
    r: "list_all2 (\<lambda>e part. address_expression vars depth e = Inr part) es parts"
    and c: "address_set_contains s a \<longleftrightarrow> (\<forall>p \<in> set parts. \<forall>e \<in> set (ms_exclude p). \<not> net_contains e a) \<and>
      (\<exists>p \<in> set parts. ms_any p \<or> (\<exists>e \<in> set (ms_include p). net_contains e a))"
    unfolding address_expression_def [symmetric] address_set_contains_def by blast
  have ex: "ms_exclude p = []" if "p \<in> set parts" for p
    using r assms(2) that by (fastforce simp: list_all2_conv_all_nth in_set_conv_nth)
  then have "address_set_contains s a \<longleftrightarrow> (\<exists>p \<in> set parts. address_set_contains p a)"
    unfolding c by (auto simp: address_set_contains_def set_contains_def list_ex_iff)
  also have "\<dots> \<longleftrightarrow> (\<exists>e \<in> set es. \<exists>part. address_expression vars depth e = Inr part \<and> address_set_contains part a)"
    using r by (fastforce simp: list_all2_conv_all_nth in_set_conv_nth)
  finally show ?thesis .
qed

theorem list_is_union_witness:
  "\<exists>s. set_elements address_literal [] 0 [''10.0.0.0/8'', ''192.168.0.0/16''] no_set = Inr s \<and>
    (address_set_contains s (V4 0x0A000001) \<longleftrightarrow>
      (\<exists>e \<in> {''10.0.0.0/8'', ''192.168.0.0/16''}. \<exists>part. address_expression [] 0 e = Inr part \<and>
        address_set_contains part (V4 0x0A000001)))"
proof -
  let ?s = "\<lparr>ms_any = False, ms_include = [\<lparr>net_address = V4 0x0A000000, net_prefix_len = 8\<rparr>,
       \<lparr>net_address = V4 0xC0A80000, net_prefix_len = 16\<rparr>], ms_exclude = []\<rparr>"
  have r: "set_elements address_literal [] 0 [''10.0.0.0/8'', ''192.168.0.0/16''] no_set = Inr ?s"
    by code_simp
  have e: "address_expression [] 0 ''10.0.0.0/8'' = Inr (just \<lparr>net_address = V4 0x0A000000, net_prefix_len = 8\<rparr>)"
    "address_expression [] 0 ''192.168.0.0/16'' = Inr (just \<lparr>net_address = V4 0xC0A80000, net_prefix_len = 16\<rparr>)"
    by code_simp+
  show ?thesis
    using r e list_is_union [OF r, of "V4 0x0A000001"] by (auto simp: just_def)
qed

text \<open>An exclusion in a list widens it to everything else: the element \<open>!b\<close> resolves to every address
  but \<open>b\<close>, and the list takes the union, so the documented form \<open>[10.0.0.0/8,!10.1.0.0/16]\<close> selects
  every address outside \<open>10.1.0.0/16\<close>, here \<open>8.8.8.8\<close>.\<close>

theorem excluded_element_widens:
  "\<exists>s. resolve_addresses sample_vars \<lparr>asp_negated = False, asp_value = AddressVar ''MIXED''\<rparr> = Inr s \<and>
     address_set_contains s (V4 0x08080808) \<and> \<not> address_set_contains s (V4 0x0A010001)"
proof -
  let ?s = "\<lparr>ms_any = True, ms_include = [\<lparr>net_address = V4 0x0A000000, net_prefix_len = 8\<rparr>],
    ms_exclude = [\<lparr>net_address = V4 0x0A010000, net_prefix_len = 16\<rparr>]\<rparr>"
  have "resolve_addresses sample_vars \<lparr>asp_negated = False, asp_value = AddressVar ''MIXED''\<rparr> = Inr ?s"
    by code_simp
  moreover have "address_set_contains ?s (V4 0x08080808)" "\<not> address_set_contains ?s (V4 0x0A010001)"
    by code_simp+
  ultimately show ?thesis by blast
qed

text \<open>A reference cycle is an error, not a hang: a variable that refers to itself is refused as
  nesting too deeply.\<close>

theorem reference_cycle_refused:
  assumes "hm_get vars name = Some (CHR ''$'' # name)" "name \<noteq> []" "\<not> is_space (last name)"
  shows "set_expression literal vars depth (CHR ''$'' # name) = Inl (TooDeep name)"
proof -
  have t: "str_trim (CHR ''$'' # name) = CHR ''$'' # name"
  proof -
    have "dropWhile is_space (rev (CHR ''$'' # name)) = rev (CHR ''$'' # name)"
      using assms(2,3) by (metis dropWhile_eq_self_iff hd_rev last_ConsR)
    moreover have "\<not> is_space (CHR ''$'')" by (simp add: is_space_def)
    ultimately show ?thesis by (simp add: str_trim_def)
  qed
  show ?thesis
  proof (induction "max_var_depth - depth" arbitrary: depth)
    case 0
    then show ?case
      by (simp add: set_expression.simps [of literal vars depth] t strip_prefix_def strip_brackets_def is_any_def var_text_def)
  next
    case (Suc n)
    then have "set_expression literal vars (Suc depth) (CHR ''$'' # name) = Inl (TooDeep name)" by simp
    with assms(1) show ?case
      by (simp add: set_expression.simps [of literal vars depth] t strip_prefix_def strip_brackets_def is_any_def var_text_def)
  qed
qed

theorem reference_cycle_refused_witness:
  "set_expression address_literal [(''LOOP'', ''$LOOP'')] 0 ''$LOOP'' = Inl (TooDeep ''LOOP'')"
  by (rule reference_cycle_refused) (simp_all add: is_space_def)

text \<open>The direction: a bidirectional header selects a packet and its reply alike, any other
  selects a packet exactly when the packet itself, not its reply, fits the fields.\<close>

lemma header_direction:
  assumes "header_resolve h vt = Inr ch"
  shows "rh_direction h = Bidirectional \<longrightarrow> header_matches ch (reverse_tuple t) = header_matches ch t"
    and "rh_direction h = ToDestination \<longrightarrow> header_matches ch t =
      (protocol_matches (rh_protocol h) (proto t) \<and> one_way ch (src_ip t) (src_port t) (dest_ip t) (dest_port t))"
  using assms
  by (auto simp: header_resolve_def header_matches_def reverse_tuple_def split: sum.splits)

end
