(* ===== verification/RuleOptions.thy ===== *)
theory RuleOptions
  imports Headers
begin

text \<open>
  The match conditions of a rule (\<open>crates/rules/src/options.rs\<close>) and the parsed rule
  (\<open>crates/rules/src/model.rs\<close>). 32-bit settings of a rule are naturals or integers; the values
  compared with packet bytes are 64-bit words.
\<close>

unbundle bit_operations_syntax

section \<open>Text\<close>

definition char_lower :: "char \<Rightarrow> char" where
  "char_lower c = (let n = of_char c :: nat in if 65 \<le> n \<and> n \<le> 90 then char_of (n + 32) else c)"

definition starts_with :: "string \<Rightarrow> string \<Rightarrow> bool" where
  "starts_with cs p \<longleftrightarrow> take (length p) cs = p"

section \<open>Buffers\<close>

datatype buffer = Payload | HttpUri | HttpHeader | HttpUserAgent | HttpMethod | HttpHost

fun buffer_as_str :: "buffer \<Rightarrow> string" where
  "buffer_as_str Payload = ''payload''"
| "buffer_as_str HttpUri = ''http.uri''"
| "buffer_as_str HttpHeader = ''http.header''"
| "buffer_as_str HttpUserAgent = ''http.user_agent''"
| "buffer_as_str HttpMethod = ''http.method''"
| "buffer_as_str HttpHost = ''http.host''"

definition buffer_from_keyword :: "string \<Rightarrow> buffer option" where
  "buffer_from_keyword keyword =
     (if keyword = ''http.uri'' then Some HttpUri
      else if keyword = ''http.header'' then Some HttpHeader
      else if keyword = ''http.user_agent'' then Some HttpUserAgent
      else if keyword = ''http.method'' then Some HttpMethod
      else if keyword = ''http.host'' then Some HttpHost
      else None)"

definition is_http :: "buffer \<Rightarrow> bool" where
  "is_http b \<longleftrightarrow> b \<noteq> Payload"

section \<open>Conditions\<close>

record content_match =
  cm_pattern :: bytes
  cm_buffer :: buffer
  cm_negated :: bool
  cm_nocase :: bool
  cm_offset :: "nat option"
  cm_depth :: "nat option"
  cm_distance :: "int option"
  cm_within :: "nat option"
  cm_fast_pattern :: bool

definition content_new :: "bytes \<Rightarrow> content_match" where
  "content_new pattern = \<lparr>cm_pattern = pattern, cm_buffer = Payload, cm_negated = False, cm_nocase = False,
     cm_offset = None, cm_depth = None, cm_distance = None, cm_within = None, cm_fast_pattern = False\<rparr>"

definition is_relative :: "content_match \<Rightarrow> bool" where
  "is_relative c \<longleftrightarrow> cm_distance c \<noteq> None \<or> cm_within c \<noteq> None"

definition usable_as_fast_pattern :: "content_match \<Rightarrow> bool" where
  "usable_as_fast_pattern c \<longleftrightarrow> \<not> cm_negated c \<and> cm_pattern c \<noteq> []"

record pcre_match =
  pm_source :: string
  pm_buffer :: buffer
  pm_negated :: bool
  pm_case_insensitive :: bool
  pm_dot_matches_newline :: bool
  pm_multi_line :: bool
  pm_relative :: bool

record flow_match =
  fm_established :: "bool option"
  fm_to_server :: "bool option"

datatype flow_bits_op = BitSet string | BitUnset string | BitToggle string | BitIsSet string
  | BitIsNotSet string | NoAlert

fun is_condition :: "flow_bits_op \<Rightarrow> bool" where
  "is_condition (BitIsSet _) = True"
| "is_condition (BitIsNotSet _) = True"
| "is_condition _ = False"

datatype numeric_op = OpEqual | OpNotEqual | OpLess | OpLessOrEqual | OpGreater | OpGreaterOrEqual
  | OpBitAnd | OpBitXor

fun numeric_apply :: "numeric_op \<Rightarrow> 64 word \<Rightarrow> 64 word \<Rightarrow> bool" where
  "numeric_apply OpEqual l r = (l = r)"
| "numeric_apply OpNotEqual l r = (l \<noteq> r)"
| "numeric_apply OpLess l r = (l < r)"
| "numeric_apply OpLessOrEqual l r = (l \<le> r)"
| "numeric_apply OpGreater l r = (r < l)"
| "numeric_apply OpGreaterOrEqual l r = (r \<le> l)"
| "numeric_apply OpBitAnd l r = (l AND r \<noteq> 0)"
| "numeric_apply OpBitXor l r = (l XOR r \<noteq> 0)"

definition numeric_parse :: "string \<Rightarrow> numeric_op option" where
  "numeric_parse cs = (let cs = str_trim cs in
     if cs = ''='' \<or> cs = ''=='' then Some OpEqual
     else if cs = ''!='' \<or> cs = ''!'' then Some OpNotEqual
     else if cs = ''<'' then Some OpLess
     else if cs = ''<='' then Some OpLessOrEqual
     else if cs = ''>'' then Some OpGreater
     else if cs = ''>='' then Some OpGreaterOrEqual
     else if cs = ''&'' then Some OpBitAnd
     else if cs = ''^'' then Some OpBitXor
     else None)"

datatype endian = Big | Little

record byte_test =
  bt_bytes :: nat
  bt_op :: numeric_op
  bt_value :: "64 word"
  bt_offset :: int
  bt_relative :: bool
  bt_endian :: endian
  bt_negated :: bool

record byte_jump =
  bj_bytes :: nat
  bj_offset :: int
  bj_relative :: bool
  bj_multiplier :: nat
  bj_endian :: endian
  bj_post_offset :: int

record dsize_match =
  dz_op :: numeric_op
  dz_value :: nat
  dz_upper :: "nat option"

definition dsize_matches :: "dsize_match \<Rightarrow> nat \<Rightarrow> bool" where
  "dsize_matches d len = (case dz_upper d of
       Some upper \<Rightarrow> dz_value d < len \<and> len < upper
     | None \<Rightarrow> numeric_apply (dz_op d) (of_nat len) (of_nat (dz_value d)))"

datatype threshold_kind = Threshold | Limit | Both

datatype track = BySource | ByDestination | ByRule

record threshold =
  th_kind :: threshold_kind
  th_track :: track
  th_count :: nat
  th_seconds :: nat

datatype normalization_condition = PercentEncoded | DoubleEncoded | InvalidEscape | NullByte | Traversal
  | AboveRoot | SelfReference | EmptySegment | Backslash | DecodeLimitReached

fun condition_as_str :: "normalization_condition \<Rightarrow> string" where
  "condition_as_str PercentEncoded = ''percent_encoded''"
| "condition_as_str DoubleEncoded = ''double_encoded''"
| "condition_as_str InvalidEscape = ''invalid_escape''"
| "condition_as_str NullByte = ''null_byte''"
| "condition_as_str Traversal = ''traversal''"
| "condition_as_str AboveRoot = ''above_root''"
| "condition_as_str SelfReference = ''self_reference''"
| "condition_as_str EmptySegment = ''empty_segment''"
| "condition_as_str Backslash = ''backslash''"
| "condition_as_str DecodeLimitReached = ''decode_limit_reached''"

definition condition_parse :: "string \<Rightarrow> normalization_condition option" where
  "condition_parse cs = find (\<lambda>c. condition_as_str c = str_trim cs)
     [PercentEncoded, DoubleEncoded, InvalidEscape, NullByte, Traversal, AboveRoot, SelfReference,
      EmptySegment, Backslash, DecodeLimitReached]"

section \<open>Host conditions\<close>

datatype host_field = FilePath | FileChange | AuthOutcome | AuthUser | AuthService | AuthSource
  | ProcessName | ProcessChange | ProcessCommandLine

datatype host_event_kind = HostFim | HostAuth | HostProcess

fun host_field_as_str :: "host_field \<Rightarrow> string" where
  "host_field_as_str FilePath = ''file.path''"
| "host_field_as_str FileChange = ''file.change''"
| "host_field_as_str AuthOutcome = ''auth.outcome''"
| "host_field_as_str AuthUser = ''auth.user''"
| "host_field_as_str AuthService = ''auth.service''"
| "host_field_as_str AuthSource = ''auth.source''"
| "host_field_as_str ProcessName = ''process.name''"
| "host_field_as_str ProcessChange = ''process.change''"
| "host_field_as_str ProcessCommandLine = ''process.cmdline''"

definition host_field_from_keyword :: "string \<Rightarrow> host_field option" where
  "host_field_from_keyword keyword = find (\<lambda>f. host_field_as_str f = keyword)
     [FilePath, FileChange, AuthOutcome, AuthUser, AuthService, AuthSource, ProcessName, ProcessChange,
      ProcessCommandLine]"

fun field_event_kind :: "host_field \<Rightarrow> host_event_kind" where
  "field_event_kind FilePath = HostFim"
| "field_event_kind FileChange = HostFim"
| "field_event_kind AuthOutcome = HostAuth"
| "field_event_kind AuthUser = HostAuth"
| "field_event_kind AuthService = HostAuth"
| "field_event_kind AuthSource = HostAuth"
| "field_event_kind ProcessName = HostProcess"
| "field_event_kind ProcessChange = HostProcess"
| "field_event_kind ProcessCommandLine = HostProcess"

datatype host_match_kind = Exact | Prefix | Contains

fun default_match_kind :: "host_field \<Rightarrow> host_match_kind" where
  "default_match_kind FilePath = Prefix"
| "default_match_kind ProcessCommandLine = Contains"
| "default_match_kind _ = Exact"

datatype host_matcher = AnyOf "string list" host_match_kind bool | HostRegex string

record host_field_match =
  hf_field :: host_field
  hf_matcher :: host_matcher
  hf_negated :: bool

datatype rule_option = Content content_match | Pcre pcre_match | OnFlow flow_match | FlowBits flow_bits_op
  | ByteTest byte_test | ByteJump byte_jump | Dsize dsize_match | Normalized normalization_condition
  | OnHost host_field_match

fun option_buffer :: "rule_option \<Rightarrow> buffer option" where
  "option_buffer (Content c) = Some (cm_buffer c)"
| "option_buffer (Pcre p) = Some (pm_buffer p)"
| "option_buffer _ = None"

fun option_host_kind :: "rule_option \<Rightarrow> host_event_kind option" where
  "option_host_kind (OnHost h) = Some (field_event_kind (hf_field h))"
| "option_host_kind _ = None"

fun is_side_effect :: "rule_option \<Rightarrow> bool" where
  "is_side_effect (FlowBits (BitSet _)) = True"
| "is_side_effect (FlowBits (BitUnset _)) = True"
| "is_side_effect (FlowBits (BitToggle _)) = True"
| "is_side_effect (ByteJump _) = True"
| "is_side_effect _ = False"

section \<open>Rules\<close>

record rule_origin =
  ro_file :: string
  ro_line :: nat

definition show_origin :: "rule_origin \<Rightarrow> string" where
  "show_origin origin = ro_file origin @ '':'' @ show_nat (ro_line origin)"

record rule =
  ru_header :: rule_header
  ru_sid :: nat
  ru_rev :: nat
  ru_gid :: "nat option"
  ru_priority :: "nat option"
  ru_msg :: string
  ru_classtype :: "string option"
  ru_metadata :: "(string \<times> string) list"
  ru_references :: "string list"
  ru_options :: "rule_option list"
  ru_threshold :: "threshold option"
  ru_no_alert :: bool
  ru_unsupported :: "string list"
  ru_raw :: string
  ru_origin :: "rule_origin option"

definition location :: "rule \<Rightarrow> string" where
  "location r = (case ru_origin r of None \<Rightarrow> ''<inline>'' | Some origin \<Rightarrow> show_origin origin)"

definition is_host_rule :: "rule \<Rightarrow> bool" where
  "is_host_rule r \<longleftrightarrow> 1000000 \<le> ru_sid r"

definition is_evaluable :: "rule \<Rightarrow> bool" where
  "is_evaluable r \<longleftrightarrow> ru_unsupported r = []"

definition severity :: "rule \<Rightarrow> nat" where
  "severity r = unwrap_or (ru_priority r) 3"

text \<open>The buffers a rule inspects; the source sorts and deduplicates the list.\<close>

definition rule_buffers :: "rule \<Rightarrow> buffer set" where
  "rule_buffers r = set (List.map_filter option_buffer (ru_options r))"

text \<open>The kind of host record a rule is about; two kinds in one rule are an error that names both.\<close>

fun host_kinds :: "host_event_kind list \<Rightarrow> host_event_kind option \<Rightarrow>
    host_event_kind \<times> host_event_kind + host_event_kind option" where
  "host_kinds [] found = Inr found"
| "host_kinds (kind # kinds) found = (case found of
       Some existing \<Rightarrow> if existing \<noteq> kind then Inl (existing, kind) else host_kinds kinds (Some kind)
     | None \<Rightarrow> host_kinds kinds (Some kind))"

definition rule_host_event_kind :: "rule \<Rightarrow> host_event_kind \<times> host_event_kind + host_event_kind option" where
  "rule_host_event_kind r = host_kinds (List.map_filter option_host_kind (ru_options r)) None"

definition is_host_rule_by_options :: "rule \<Rightarrow> bool" where
  "is_host_rule_by_options r \<longleftrightarrow> list_ex (\<lambda>opt. option_host_kind opt \<noteq> None) (ru_options r)"

definition rule_needs_http :: "rule \<Rightarrow> bool" where
  "rule_needs_http r \<longleftrightarrow> is_app_layer (rh_protocol (ru_header r)) \<or> (\<exists>b \<in> rule_buffers r. is_http b)"

section \<open>Keywords\<close>

lemma keywords_roundtrip:
  "buffer_from_keyword (buffer_as_str b) = (if is_http b then Some b else None)"
  "host_field_from_keyword (host_field_as_str f) = Some f"
  "condition_parse (condition_as_str c) = Some c"
proof -
  show "buffer_from_keyword (buffer_as_str b) = (if is_http b then Some b else None)"
    by (cases b) (simp_all add: buffer_from_keyword_def is_http_def)
  show "host_field_from_keyword (host_field_as_str f) = Some f"
    by (cases f) (simp_all add: host_field_from_keyword_def)
  show "condition_parse (condition_as_str c) = Some c"
    by (cases c) (simp_all add: condition_parse_def str_trim_def is_space_def)
qed

lemma host_kinds_some: "host_kinds ks (Some k) = Inr r \<longleftrightarrow> r = Some k \<and> set ks \<subseteq> {k}"
  by (induction ks) auto

lemma host_kinds_none:
  "host_kinds ks None = Inr r \<longleftrightarrow> (case ks of [] \<Rightarrow> r = None | k # ks' \<Rightarrow> r = Some k \<and> set ks' \<subseteq> {k})"
  by (cases ks) (auto simp: host_kinds_some)

lemma rule_host_kind:
  "rule_host_event_kind r = Inr (Some k) \<longleftrightarrow>
     is_host_rule_by_options r \<and> (\<forall>opt \<in> set (ru_options r). option_host_kind opt \<in> {None, Some k})"
proof -
  have s: "set (List.map_filter option_host_kind (ru_options r)) =
      {k. \<exists>opt \<in> set (ru_options r). option_host_kind opt = Some k}"
    by (force simp: List.map_filter_def image_iff)
  let ?m = "List.map_filter option_host_kind (ru_options r)"
  have "rule_host_event_kind r = Inr (Some k) \<longleftrightarrow> set ?m \<noteq> {} \<and> set ?m \<subseteq> {k}"
    unfolding rule_host_event_kind_def by (cases ?m) (auto simp: host_kinds_some)
  moreover have "set ?m \<noteq> {} \<longleftrightarrow> is_host_rule_by_options r"
    unfolding s by (simp add: is_host_rule_by_options_def list_ex_iff ex_in_conv [symmetric]) blast
  moreover have "set ?m \<subseteq> {k} \<longleftrightarrow> (\<forall>opt \<in> set (ru_options r). option_host_kind opt \<in> {None, Some k})"
  proof -
    have "(\<forall>j. v = Some j \<longrightarrow> j = k) \<longleftrightarrow> v \<in> {None, Some k}" for v by (cases v) auto
    then show ?thesis unfolding s by blast
  qed
  ultimately show ?thesis by simp
qed

end
