(* ===== verification/RuleEval.thy ===== *)
theory RuleEval
  imports RuleOptions Http TcpStream
begin

text \<open>
  Evaluating one rule against one unit of data (\<open>crates/engine/src/eval.rs\<close>, with the compiled rule of
  \<open>crates/engine/src/compile.rs\<close>). A compiled regular expression is the function its \<open>find\<close>
  computes, start and end of the leftmost match: the crate that builds it is not part of the sources.
  The array of cursors, one per buffer, is a function of the buffer. The outer \<open>None\<close> is a panic,
  the inner one \<open>no match\<close>.
\<close>

section \<open>What is inspected\<close>

record buffers =
  bf_payload :: bytes
  bf_http_uri :: "bytes option"
  bf_http_header :: "bytes option"
  bf_http_user_agent :: "bytes option"
  bf_http_method :: "bytes option"
  bf_http_host :: "bytes option"
  bf_normalization :: normalization_flags

definition default_buffers :: buffers where
  "default_buffers = \<lparr>bf_payload = [], bf_http_uri = None, bf_http_header = None, bf_http_user_agent = None,
     bf_http_method = None, bf_http_host = None, bf_normalization = default_flags\<rparr>"

fun buffers_get :: "buffers \<Rightarrow> buffer \<Rightarrow> bytes option" where
  "buffers_get bs Payload = Some (bf_payload bs)"
| "buffers_get bs HttpUri = bf_http_uri bs"
| "buffers_get bs HttpHeader = bf_http_header bs"
| "buffers_get bs HttpUserAgent = bf_http_user_agent bs"
| "buffers_get bs HttpMethod = bf_http_method bs"
| "buffers_get bs HttpHost = bf_http_host bs"

record match_input =
  mi_tuple :: net_tuple
  mi_established :: bool
  mi_to_server :: bool
  mi_buffers :: buffers

type_synonym flow_bits = "string set"

definition bit_is_set :: "flow_bits \<Rightarrow> string \<Rightarrow> bool" where
  "bit_is_set bits name \<longleftrightarrow> name \<in> bits"

fun bits_apply :: "nat \<Rightarrow> flow_bits \<Rightarrow> flow_bits_op \<Rightarrow> flow_bits" where
  "bits_apply limit bits (BitSet name) = (if card bits < limit \<or> name \<in> bits then insert name bits else bits)"
| "bits_apply limit bits (BitUnset name) = bits - {name}"
| "bits_apply limit bits (BitToggle name) =
     (if name \<in> bits then bits - {name} else if card bits < limit then insert name bits else bits)"
| "bits_apply limit bits _ = bits"

section \<open>Compiled rules\<close>

type_synonym matcher = "bytes \<Rightarrow> (nat \<times> nat) option"

datatype compiled_option = COContent content_match | COPcre matcher buffer bool bool | COFlow flow_match
  | COFlowBits flow_bits_op | COByteTest byte_test | COByteJump byte_jump | CODsize dsize_match
  | CONormalized normalization_condition

record compiled_rule =
  cr_sid :: nat
  cr_rev :: nat
  cr_msg :: string
  cr_classtype :: "string option"
  cr_severity :: nat
  cr_blocks :: bool
  cr_metadata :: "string \<rightharpoonup> string list"
  cr_header :: compiled_header
  cr_options :: "compiled_option list"
  cr_threshold :: "threshold option"
  cr_no_alert :: bool
  cr_needs_http :: bool
  cr_origin :: string

section \<open>Content\<close>

definition bytes_match :: "bool \<Rightarrow> bytes \<Rightarrow> bytes \<Rightarrow> bool" where
  "bytes_match nocase window needle =
     (if nocase then list_all (\<lambda>(a, b). to_ascii_lower a = to_ascii_lower b) (zip window needle) else window = needle)"

text \<open>\<open>haystack.windows(n).position(p)\<close> for \<open>n > 0\<close>.\<close>

definition window_position :: "(bytes \<Rightarrow> bool) \<Rightarrow> nat \<Rightarrow> bytes \<Rightarrow> nat option" where
  "window_position p n hay = find (\<lambda>i. p (take n (drop i hay))) [0..<length hay + 1 - n]"

definition find_bytes :: "bytes \<Rightarrow> bytes \<Rightarrow> bool \<Rightarrow> nat option" where
  "find_bytes hay needle nocase =
     (if needle = [] \<or> length hay < length needle then None
      else window_position (\<lambda>w. bytes_match nocase w needle) (length needle) hay)"

text \<open>Where the search starts and stops.\<close>

definition content_start :: "content_match \<Rightarrow> nat \<Rightarrow> nat" where
  "content_start c cursor =
     nat (max 0 (i64_saturating_add (unwrap_or (cm_distance c) 0)
       (if is_relative c then as_i64 cursor else int (unwrap_or (cm_offset c) 0))))"

definition content_end :: "content_match \<Rightarrow> nat \<Rightarrow> nat \<Rightarrow> nat" where
  "content_end c len cursor =
     (let base = (if is_relative c then cursor else 0);
          e = (case cm_within c of None \<Rightarrow> len | Some w \<Rightarrow> min len (saturating_add base w))
      in case cm_depth c of None \<Rightarrow> e | Some d \<Rightarrow> min e (saturating_add (content_start c cursor) d))"

definition match_content :: "content_match \<Rightarrow> bytes \<Rightarrow> nat \<Rightarrow> (bool \<times> nat) option" where
  "match_content c hay cursor =
     (let len = length hay;
          start = min (content_start c cursor) len;
          end = max (min (content_end c len cursor) len) start
      in do {
        w \<leftarrow> slice hay start end;
        Some (case (find_bytes w (cm_pattern c) (cm_nocase c), cm_negated c) of
            (Some position, False) \<Rightarrow> (True, start + position + length (cm_pattern c))
          | (None, True) \<Rightarrow> (True, cursor)
          | _ \<Rightarrow> (False, cursor)) })"

section \<open>Numbers\<close>

definition read_int :: "bytes \<Rightarrow> nat \<Rightarrow> nat \<Rightarrow> endian \<Rightarrow> 64 word option" where
  "read_int hay position width endian =
     (if u64_max < position + width then None
      else case range_get hay position (position + width) of
          None \<Rightarrow> None
        | Some s \<Rightarrow> Some (case endian of Big \<Rightarrow> be_word s | Little \<Rightarrow> be_word (rev s)))"

definition resolve_position :: "nat \<Rightarrow> int \<Rightarrow> bool \<Rightarrow> nat option" where
  "resolve_position base offset relative =
     (let position = (if relative then as_i64 base else 0) + offset
      in if 0 \<le> position \<and> position < 2 ^ 63 then Some (nat position) else None)"

definition match_byte_test :: "byte_test \<Rightarrow> bytes \<Rightarrow> nat \<Rightarrow> bool" where
  "match_byte_test t hay cursor = (case resolve_position cursor (bt_offset t) (bt_relative t) of
       None \<Rightarrow> False
     | Some position \<Rightarrow> (case read_int hay position (bt_bytes t) (bt_endian t) of
           None \<Rightarrow> False
         | Some value \<Rightarrow> numeric_apply (bt_op t) value (bt_value t) \<noteq> bt_negated t))"

text \<open>Where a jump lands: the two checked operations, then the cast and the signed addition, which
  overflows in the outer \<open>None\<close>.\<close>

definition jump_destination :: "byte_jump \<Rightarrow> nat \<Rightarrow> 64 word \<Rightarrow> nat option option" where
  "jump_destination j position value =
     (let scaled = unat value * bj_multiplier j; destination = scaled + (position + bj_bytes j);
          with_post = as_i64 destination + bj_post_offset j
      in if u64_max < scaled \<or> u64_max < destination then Some None
         else if with_post < - (2 ^ 63) \<or> 2 ^ 63 \<le> with_post then None
         else Some (if with_post < 0 then None else Some (nat with_post)))"

definition apply_byte_jump :: "byte_jump \<Rightarrow> bytes \<Rightarrow> nat \<Rightarrow> (bool \<times> nat) option" where
  "apply_byte_jump j hay cursor = (case resolve_position cursor (bj_offset j) (bj_relative j) of
       None \<Rightarrow> Some (False, cursor)
     | Some position \<Rightarrow> (case read_int hay position (bj_bytes j) (bj_endian j) of
           None \<Rightarrow> Some (False, cursor)
         | Some value \<Rightarrow> do {
             jumped \<leftarrow> jump_destination j position value;
             Some (case jumped of
                 Some destination \<Rightarrow> if destination \<le> length hay then (True, destination) else (False, cursor)
               | None \<Rightarrow> (False, cursor)) }))"

section \<open>The remaining conditions\<close>

definition match_flow :: "flow_match \<Rightarrow> match_input \<Rightarrow> bool" where
  "match_flow f input \<longleftrightarrow>
     (case fm_established f of None \<Rightarrow> True | Some e \<Rightarrow> e = mi_established input) \<and>
     (case fm_to_server f of None \<Rightarrow> True | Some t \<Rightarrow> t = mi_to_server input)"

fun normalization_matches :: "normalization_condition \<Rightarrow> normalization_flags \<Rightarrow> bool" where
  "normalization_matches PercentEncoded flags = percent_encoded flags"
| "normalization_matches DoubleEncoded flags = double_encoded flags"
| "normalization_matches InvalidEscape flags = invalid_escape flags"
| "normalization_matches NullByte flags = null_byte flags"
| "normalization_matches Traversal flags = traversal flags"
| "normalization_matches AboveRoot flags = above_root flags"
| "normalization_matches SelfReference flags = self_reference flags"
| "normalization_matches EmptySegment flags = empty_segment flags"
| "normalization_matches Backslash flags = backslash flags"
| "normalization_matches DecodeLimitReached flags = decode_limit_reached flags"

section \<open>Evaluation\<close>

record eval_state =
  es_cursors :: "buffer \<Rightarrow> nat"
  es_current :: buffer
  es_effects :: "flow_bits_op list"

text \<open>A condition on the bytes of a buffer that may move its cursor.\<close>

definition with_cursor :: "match_input \<Rightarrow> buffer \<Rightarrow> (bytes \<Rightarrow> nat \<Rightarrow> (bool \<times> nat) option) \<Rightarrow> eval_state \<Rightarrow>
    eval_state option option" where
  "with_cursor input b f st = (case buffers_get (mi_buffers input) b of
       None \<Rightarrow> Some None
     | Some hay \<Rightarrow> do {
         (ok, cursor) \<leftarrow> f hay (es_cursors st b);
         Some (if ok then Some (st\<lparr>es_cursors := (es_cursors st)(b := cursor)\<rparr>) else None) })"

definition match_pcre :: "matcher \<Rightarrow> bool \<Rightarrow> bool \<Rightarrow> bytes \<Rightarrow> nat \<Rightarrow> (bool \<times> nat) option" where
  "match_pcre m negated relative hay cursor =
     (let start = (if relative then min cursor (length hay) else 0) in do {
        rest \<leftarrow> slice hay start (length hay);
        Some (case (m rest, negated) of
            (Some (_, e), False) \<Rightarrow> (True, start + e)
          | (None, True) \<Rightarrow> (True, cursor)
          | _ \<Rightarrow> (False, cursor)) })"

fun eval_option :: "match_input \<Rightarrow> flow_bits \<Rightarrow> compiled_option \<Rightarrow> eval_state \<Rightarrow> eval_state option option" where
  "eval_option input bits (COContent c) st =
     with_cursor input (cm_buffer c) (match_content c) (st\<lparr>es_current := cm_buffer c\<rparr>)"
| "eval_option input bits (COPcre m b negated relative) st =
     with_cursor input b (match_pcre m negated relative) (st\<lparr>es_current := b\<rparr>)"
| "eval_option input bits (COFlow f) st = Some (if match_flow f input then Some st else None)"
| "eval_option input bits (COFlowBits op) st = Some (case op of
       BitIsSet name \<Rightarrow> if bit_is_set bits name then Some st else None
     | BitIsNotSet name \<Rightarrow> if bit_is_set bits name then None else Some st
     | other \<Rightarrow> Some (st\<lparr>es_effects := es_effects st @ [other]\<rparr>))"
| "eval_option input bits (COByteTest t) st =
     with_cursor input (es_current st) (\<lambda>hay cursor. Some (match_byte_test t hay cursor, cursor)) st"
| "eval_option input bits (COByteJump j) st = with_cursor input (es_current st) (apply_byte_jump j) st"
| "eval_option input bits (CODsize d) st =
     with_cursor input (es_current st) (\<lambda>hay cursor. Some (dsize_matches d (length hay), cursor)) st"
| "eval_option input bits (CONormalized c) st =
     Some (if normalization_matches c (bf_normalization (mi_buffers input)) then Some st else None)"

fun eval_options :: "match_input \<Rightarrow> flow_bits \<Rightarrow> compiled_option list \<Rightarrow> eval_state \<Rightarrow> eval_state option option" where
  "eval_options input bits [] st = Some (Some st)"
| "eval_options input bits (x # xs) st = (case eval_option input bits x st of
       None \<Rightarrow> None
     | Some None \<Rightarrow> Some None
     | Some (Some st) \<Rightarrow> eval_options input bits xs st)"

definition initial_state :: eval_state where
  "initial_state = \<lparr>es_cursors = (\<lambda>_. 0), es_current = Payload, es_effects = []\<rparr>"

definition evaluate :: "compiled_rule \<Rightarrow> match_input \<Rightarrow> flow_bits \<Rightarrow> flow_bits_op list option option" where
  "evaluate r input bits =
     (if \<not> header_matches (cr_header r) (mi_tuple input) then Some None
      else map_option (map_option es_effects) (eval_options input bits (cr_options r) initial_state))"

section \<open>Searching\<close>

text \<open>The pattern stands at a place of the haystack.\<close>

definition occurs :: "bool \<Rightarrow> bytes \<Rightarrow> bytes \<Rightarrow> nat \<Rightarrow> bool" where
  "occurs nocase needle hay i \<longleftrightarrow> i + length needle \<le> length hay \<and>
     bytes_match nocase (take (length needle) (drop i hay)) needle"

lemma find_bytes_None:
  "find_bytes hay needle nc = None \<longleftrightarrow> needle = [] \<or> (\<forall>i. \<not> occurs nc needle hay i)"
  by (auto simp: find_bytes_def window_position_def occurs_def find_None_iff)

lemma find_bytes_Some:
  "find_bytes hay needle nc = Some p \<longleftrightarrow> needle \<noteq> [] \<and> occurs nc needle hay p \<and> (\<forall>q < p. \<not> occurs nc needle hay q)"
proof
  assume "find_bytes hay needle nc = Some p"
  then show "needle \<noteq> [] \<and> occurs nc needle hay p \<and> (\<forall>q < p. \<not> occurs nc needle hay q)"
    by (auto simp: find_bytes_def window_position_def occurs_def find_Some_iff split: if_splits)
next
  assume h: "needle \<noteq> [] \<and> occurs nc needle hay p \<and> (\<forall>q < p. \<not> occurs nc needle hay q)"
  then have "find_bytes hay needle nc \<noteq> None" by (auto simp: find_bytes_None)
  then obtain r where r: "find_bytes hay needle nc = Some r" by blast
  then have "occurs nc needle hay r" "\<forall>q < r. \<not> occurs nc needle hay q"
    by (auto simp: find_bytes_def window_position_def occurs_def find_Some_iff split: if_splits)
  with h r show "find_bytes hay needle nc = Some p" by (metis linorder_neqE_nat)
qed

lemma occurs_within:
  assumes "needle \<noteq> []" "start \<le> end" "end \<le> length hay"
  shows "occurs nc needle (take (end - start) (drop start hay)) i \<longleftrightarrow>
    start + i + length needle \<le> end \<and> occurs nc needle hay (start + i)"
proof (cases "i + length needle \<le> end - start")
  case True
  then have "take (length needle) (drop i (take (end - start) (drop start hay))) =
      take (length needle) (drop (start + i) hay)"
    by (simp add: drop_take take_take min_def add.commute)
  with True assms show ?thesis by (auto simp: occurs_def)
qed (use assms in \<open>auto simp: occurs_def\<close>)

text \<open>A place where a content condition holds: from the start the modifiers give up to their end.\<close>

definition content_hit :: "content_match \<Rightarrow> bytes \<Rightarrow> nat \<Rightarrow> nat \<Rightarrow> bool" where
  "content_hit c hay cursor p \<longleftrightarrow> content_start c cursor \<le> p \<and>
     p + length (cm_pattern c) \<le> content_end c (length hay) cursor \<and>
     occurs (cm_nocase c) (cm_pattern c) hay p"

lemma match_content_cases:
  assumes "cm_pattern c \<noteq> []"
  shows "match_content c hay cursor =
    Some (if \<exists>p. content_hit c hay cursor p
      then (\<not> cm_negated c, if cm_negated c then cursor
        else (LEAST p. content_hit c hay cursor p) + length (cm_pattern c))
      else (cm_negated c, cursor))"
proof -
  define start where "start = min (content_start c cursor) (length hay)"
  define fin where "fin = max (min (content_end c (length hay) cursor) (length hay)) start"
  let ?w = "take (fin - start) (drop start hay)"
  let ?f = "find_bytes ?w (cm_pattern c) (cm_nocase c)"
  have b: "start \<le> fin" "fin \<le> length hay" by (simp_all add: start_def fin_def)
  have run: "match_content c hay cursor = Some (case (?f, cm_negated c) of
      (Some position, False) \<Rightarrow> (True, start + position + length (cm_pattern c))
    | (None, True) \<Rightarrow> (True, cursor) | _ \<Rightarrow> (False, cursor))"
    unfolding match_content_def Let_def start_def [symmetric] fin_def [symmetric]
    using slice_eq [OF b] by simp
  obtain m where n: "length (cm_pattern c) = Suc m" using assms by (cases "cm_pattern c") auto
  have hit: "occurs (cm_nocase c) (cm_pattern c) ?w i \<longleftrightarrow> content_hit c hay cursor (start + i)" for i
  proof (cases "occurs (cm_nocase c) (cm_pattern c) hay (start + i)")
    case True
    then have "start + i + length (cm_pattern c) \<le> length hay" by (simp add: occurs_def)
    with True show ?thesis
      unfolding occurs_within [OF assms b] content_hit_def n
      unfolding start_def fin_def min_def max_def by auto
  qed (simp add: occurs_within [OF assms b] content_hit_def)
  have low: "start \<le> p" if "content_hit c hay cursor p" for p
    using that unfolding content_hit_def start_def by (intro min.coboundedI1) simp
  show ?thesis
  proof (cases ?f)
    case None
    then have "\<not> (\<exists>p. content_hit c hay cursor p)"
      using assms hit low by (metis find_bytes_None le_Suc_ex)
    with None run show ?thesis by (auto split: bool.splits)
  next
    case (Some i)
    then have h: "content_hit c hay cursor (start + i)" and "\<forall>q < i. \<not> content_hit c hay cursor (start + q)"
      by (simp_all add: find_bytes_Some hit)
    then have "(LEAST p. content_hit c hay cursor p) = start + i"
      using low by (intro Least_equality) (auto, metis le_Suc_ex nat_add_left_cancel_le not_le)
    with Some run h show ?thesis by (auto split: bool.splits)
  qed
qed

lemma match_content_no_panic: "match_content c hay cursor \<noteq> None"
  by (simp add: match_content_def Let_def slice_def)

text \<open>A content condition means what its modifiers say: the search never panics; a positive condition
  holds exactly when the pattern stands somewhere between the start that \<open>offset\<close> or \<open>distance\<close> gives and
  the end that \<open>depth\<close> and \<open>within\<close> give, and moves the cursor to the end of the first such
  place; a negated one holds exactly when there is none, and leaves the cursor alone.\<close>

theorem content_condition:
  assumes "cm_pattern c \<noteq> []"
  shows "\<exists>ok cursor'. match_content c hay cursor = Some (ok, cursor') \<and>
    (ok \<longleftrightarrow> (\<exists>p. content_hit c hay cursor p) \<noteq> cm_negated c) \<and>
    (ok \<and> \<not> cm_negated c \<longrightarrow> (\<exists>p. content_hit c hay cursor p \<and> (\<forall>q < p. \<not> content_hit c hay cursor q) \<and>
      cursor' = p + length (cm_pattern c))) \<and>
    (cm_negated c \<longrightarrow> cursor' = cursor)"
proof (cases "\<exists>p. content_hit c hay cursor p")
  case True
  define p where "p = (LEAST p. content_hit c hay cursor p)"
  have "content_hit c hay cursor p" "\<forall>q < p. \<not> content_hit c hay cursor q"
    using True LeastI_ex not_less_Least unfolding p_def by blast+
  with True show ?thesis
    unfolding match_content_cases [OF assms] p_def [symmetric] by (cases "cm_negated c") auto
next
  case False
  then show ?thesis unfolding match_content_cases [OF assms] by simp
qed

theorem content_condition_witness:
  "\<exists>ok cursor'. match_content ((content_new [3, 4])\<lparr>cm_distance := Some 1\<rparr>) [1, 2, 9, 3, 4] 2 = Some (ok, cursor') \<and>
    (ok \<longleftrightarrow> (\<exists>p. content_hit ((content_new [3, 4])\<lparr>cm_distance := Some 1\<rparr>) [1, 2, 9, 3, 4] 2 p))"
  using content_condition [of "(content_new [3, 4])\<lparr>cm_distance := Some 1\<rparr>" "[1, 2, 9, 3, 4]" 2]
  by (auto simp: content_new_def)

section \<open>One option at a time\<close>

lemma with_cursor_Some:
  "with_cursor input b f st = Some (Some st') \<longleftrightarrow> (\<exists>hay cursor. buffers_get (mi_buffers input) b = Some hay \<and>
     f hay (es_cursors st b) = Some (True, cursor) \<and> st' = st\<lparr>es_cursors := (es_cursors st)(b := cursor)\<rparr>)"
  by (auto simp: with_cursor_def split: option.splits bind_splits if_splits)

lemma eval_options_append:
  "eval_options input bits (xs @ ys) st = (case eval_options input bits xs st of
       None \<Rightarrow> None | Some None \<Rightarrow> Some None | Some (Some st) \<Rightarrow> eval_options input bits ys st)"
  by (induction xs arbitrary: st) (auto split: option.splits)

lemma eval_options_split:
  assumes "eval_options input bits xs st = Some (Some st')" and "x \<in> set xs"
  shows "\<exists>mid after. eval_option input bits x mid = Some (Some after)"
  using assms by (induction xs arbitrary: st) (auto split: option.splits)

text \<open>The operations an option leaves to be applied once the rule has matched.\<close>

fun option_effects :: "compiled_option \<Rightarrow> flow_bits_op list" where
  "option_effects (COFlowBits op) = (if is_condition op then [] else [op])"
| "option_effects _ = []"

lemma eval_option_effects:
  assumes "eval_option input bits x st = Some (Some st')"
  shows "es_effects st' = es_effects st @ option_effects x"
proof (cases x)
  case (COFlowBits op)
  with assms show ?thesis by (cases op) (auto split: if_splits)
qed (use assms in \<open>auto simp: with_cursor_Some split: if_splits\<close>)

lemma eval_options_effects:
  "eval_options input bits xs st = Some (Some st') \<Longrightarrow>
     es_effects st' = es_effects st @ concat (map option_effects xs)"
  by (induction xs arbitrary: st) (auto split: option.splits dest!: eval_option_effects)

lemma evaluate_Some:
  "evaluate r input bits = Some (Some effects) \<longleftrightarrow> header_matches (cr_header r) (mi_tuple input) \<and>
     (\<exists>st. eval_options input bits (cr_options r) initial_state = Some (Some st) \<and> effects = es_effects st)"
  by (auto simp: evaluate_def)

text \<open>What a positive content or a regular expression needs of its buffer.\<close>

lemma option_needs_buffer:
  assumes "evaluate r input bits = Some (Some effects)" and "COContent c \<in> set (cr_options r)"
  shows "\<exists>hay cursor cursor'. buffers_get (mi_buffers input) (cm_buffer c) = Some hay \<and>
    match_content c hay cursor = Some (True, cursor')"
proof -
  obtain mid after where "eval_option input bits (COContent c) mid = Some (Some after)"
    using assms eval_options_split unfolding evaluate_Some by meson
  then show ?thesis by (auto simp: with_cursor_Some)
qed

lemma match_needs_pattern:
  assumes "evaluate r input bits = Some (Some effects)" and "COContent c \<in> set (cr_options r)"
    and "usable_as_fast_pattern c"
  shows "\<exists>hay p. buffers_get (mi_buffers input) (cm_buffer c) = Some hay \<and>
    occurs (cm_nocase c) (cm_pattern c) hay p"
proof -
  obtain hay cursor cursor' where b: "buffers_get (mi_buffers input) (cm_buffer c) = Some hay"
    and m: "match_content c hay cursor = Some (True, cursor')"
    using option_needs_buffer [OF assms(1,2)] by blast
  have "cm_pattern c \<noteq> []" "\<not> cm_negated c" using assms(3) by (simp_all add: usable_as_fast_pattern_def)
  with m have "\<exists>p. content_hit c hay cursor p" by (auto simp: match_content_cases split: if_splits)
  with b show ?thesis by (auto simp: content_hit_def)
qed

section \<open>What a match means\<close>

text \<open>A rule on every TCP packet, and a packet, for concrete runs.\<close>

definition open_rule :: "compiled_option list \<Rightarrow> compiled_rule" where
  "open_rule opts = \<lparr>cr_sid = 1, cr_rev = 1, cr_msg = ''sample'', cr_classtype = None, cr_severity = 3,
     cr_blocks = False, cr_metadata = Map.empty,
     cr_header = \<lparr>ch_protocol = RTcp, ch_source = everything, ch_source_ports = everything,
       ch_destination = everything, ch_destination_ports = everything, ch_bidirectional = False\<rparr>,
     cr_options = opts, cr_threshold = None, cr_no_alert = False, cr_needs_http = False, cr_origin = ''<inline>''\<rparr>"

definition sample_tuple :: net_tuple where
  "sample_tuple = \<lparr>src_ip = V4 1, src_port = Some 51000, dest_ip = V4 2, dest_port = Some 80, proto = Tcp\<rparr>"

definition payload_input :: "bytes \<Rightarrow> match_input" where
  "payload_input bs = \<lparr>mi_tuple = sample_tuple, mi_established = True, mi_to_server = True,
     mi_buffers = default_buffers\<lparr>bf_payload := bs\<rparr>\<rparr>"

text \<open>A rule that matches has every buffer it names: a rule on \<open>http.uri\<close> never matches traffic that has no
  URI, and every positive pattern of the rule stands somewhere in its buffer.\<close>

theorem absent_buffer_no_match:
  assumes "x \<in> set (cr_options r)"
    and "(\<exists>c. x = COContent c \<and> b = cm_buffer c) \<or> (\<exists>m negated relative. x = COPcre m b negated relative)"
    and "buffers_get (mi_buffers input) b = None"
  shows "\<nexists>effects. evaluate r input bits = Some (Some effects)"
proof
  assume "\<exists>effects. evaluate r input bits = Some (Some effects)"
  then obtain mid after where "eval_option input bits x mid = Some (Some after)"
    using assms(1) eval_options_split unfolding evaluate_Some by meson
  with assms(2,3) show False by (auto simp: with_cursor_Some)
qed

theorem absent_buffer_no_match_witness:
  "\<nexists>effects. evaluate (open_rule [COContent ((content_new [9])\<lparr>cm_buffer := HttpUri, cm_negated := True\<rparr>)])
     (payload_input [1]) {} = Some (Some effects)"
  by (rule absent_buffer_no_match [where b = HttpUri and
        x = "COContent ((content_new [9])\<lparr>cm_buffer := HttpUri, cm_negated := True\<rparr>)"])
    (simp_all add: open_rule_def payload_input_def default_buffers_def)

text \<open>Conditions only narrow a rule: a rule that matches still matches, with fewer things left to do, when
  the last of its options are taken away; and what is left to do is exactly its flowbits operations that
  are no conditions, in the order they are written.\<close>

theorem conditions_narrow:
  assumes "evaluate r input bits = Some (Some effects)" and "cr_options r = xs @ ys"
  shows "evaluate (r\<lparr>cr_options := xs\<rparr>) input bits = Some (Some (concat (map option_effects xs))) \<and>
    effects = concat (map option_effects xs) @ concat (map option_effects ys)"
proof -
  obtain st where st: "eval_options input bits (xs @ ys) initial_state = Some (Some st)"
    "effects = es_effects st" "header_matches (cr_header r) (mi_tuple input)"
    using assms unfolding evaluate_Some by auto
  then obtain mid where "eval_options input bits xs initial_state = Some (Some mid)"
    by (auto simp: eval_options_append split: option.splits)
  with st(3) have "evaluate (r\<lparr>cr_options := xs\<rparr>) input bits = Some (Some (concat (map option_effects xs)))"
    by (auto simp: evaluate_Some initial_state_def dest: eval_options_effects)
  with eval_options_effects [OF st(1)] st(2) show ?thesis by (simp add: initial_state_def)
qed

theorem conditions_narrow_witness:
  "evaluate (open_rule [COFlowBits (BitSet ''a''), COContent (content_new [7])]) (payload_input [6, 7]) {} =
     Some (Some [BitSet ''a'']) \<and>
   evaluate ((open_rule [COFlowBits (BitSet ''a''), COContent (content_new [7])])\<lparr>cr_options := [COFlowBits (BitSet ''a'')]\<rparr>)
     (payload_input [6, 7]) {} = Some (Some [BitSet ''a''])"
proof -
  let ?r = "open_rule [COFlowBits (BitSet ''a''), COContent (content_new [7])]"
  have e: "evaluate ?r (payload_input [6, 7]) {} = Some (Some [BitSet ''a''])" by code_simp
  show ?thesis
    using conditions_narrow [OF e, of "[COFlowBits (BitSet ''a'')]" "[COContent (content_new [7])]"] e
    by (simp add: open_rule_def)
qed

section \<open>Jumps\<close>

text \<open>A jump never leaves the buffer, and where nothing overflows it lands exactly where it says: at the
  end of the field read, plus the scaled value, plus the post offset. A destination outside the buffer
  fails the rule and leaves the cursor where it was.\<close>

theorem jump_exact:
  assumes "resolve_position cursor (bj_offset j) (bj_relative j) = Some position"
    and "read_int hay position (bj_bytes j) (bj_endian j) = Some value"
    and "unat value * bj_multiplier j + (position + bj_bytes j) < 2 ^ 62"
    and "\<bar>bj_post_offset j\<bar> < 2 ^ 31"
  shows "apply_byte_jump j hay cursor =
    (let to = int (unat value * bj_multiplier j + (position + bj_bytes j)) + bj_post_offset j
     in Some (if 0 \<le> to \<and> to \<le> int (length hay) then (True, nat to) else (False, cursor)))"
proof -
  define d where "d = unat value * bj_multiplier j + (position + bj_bytes j)"
  have d: "d < 2 ^ 62" using assms(3) by (simp add: d_def)
  then have i: "as_i64 d = int d" by (intro as_i64_small) simp
  have u: "unat value * bj_multiplier j \<le> u64_max" "d \<le> u64_max"
    using d by (simp_all add: d_def u64_max_def)
  have di: "int d < 2 ^ 62" using d by (metis of_nat_less_iff of_nat_numeral of_nat_power)
  have r: "\<not> (int d + bj_post_offset j < - (2 ^ 63))" "\<not> (2 ^ 63 \<le> int d + bj_post_offset j)"
    using di assms(4) by simp_all
  have jd: "jump_destination j position value = Some (if int d + bj_post_offset j < 0 then None
      else Some (nat (int d + bj_post_offset j)))"
    unfolding jump_destination_def Let_def d_def [symmetric] i using u r by (simp add: not_le)
  show ?thesis
    unfolding apply_byte_jump_def assms(1,2) option.case d_def [symmetric] jd Let_def
    by (auto simp: nat_le_iff)
qed

theorem jump_exact_witness:
  "apply_byte_jump \<lparr>bj_bytes = 1, bj_offset = 0, bj_relative = False, bj_multiplier = 2, bj_endian = Big,
     bj_post_offset = - 1\<rparr> [2, 0, 0, 0, 9] 0 = Some (True, 4)"
  using jump_exact [of 0 "\<lparr>bj_bytes = 1, bj_offset = 0, bj_relative = False, bj_multiplier = 2,
      bj_endian = Big, bj_post_offset = - 1\<rparr>" 0 "[2, 0, 0, 0, 9]" 2]
  by (simp add: resolve_position_def read_int_def u64_max_def range_get_def be_word_def)

text \<open>A destination of 2^63 and more is cast to a negative number before the post offset is added, so it can
  come back into the buffer: the eight bytes \<open>2^64 - 13\<close>, read at the start, ask for a destination far
  outside the nine bytes of the buffer, and the cursor lands on byte 5.\<close>

theorem jump_wraps:
  "apply_byte_jump \<lparr>bj_bytes = 8, bj_offset = 0, bj_relative = False, bj_multiplier = 1, bj_endian = Big,
     bj_post_offset = 10\<rparr> [0xff, 0xff, 0xff, 0xff, 0xff, 0xff, 0xff, 0xf3, 0] 0 = Some (True, 5)"
  by (simp add: apply_byte_jump_def resolve_position_def read_int_def u64_max_def range_get_def be_word_def
      jump_destination_def as_i64_def)

section \<open>No panic\<close>

text \<open>The only arithmetic of the evaluator that can overflow is the post offset of a jump.\<close>

definition calm_jump :: "byte_jump \<Rightarrow> bool" where
  "calm_jump j \<longleftrightarrow> bj_post_offset j = 0 \<or> bj_bytes j \<le> 4 \<and> bj_multiplier j < 2 ^ 16 \<and> \<bar>bj_post_offset j\<bar> < 2 ^ 31"

definition calm_option :: "compiled_option \<Rightarrow> bool" where
  "calm_option x = (case x of COByteJump j \<Rightarrow> calm_jump j | _ \<Rightarrow> True)"

definition short_buffers :: "buffers \<Rightarrow> bool" where
  "short_buffers bs \<longleftrightarrow> (\<forall>b hay. buffers_get bs b = Some hay \<longrightarrow> length hay < 2 ^ 61)"

lemma byte_step_bound:
  "take_bit k w = w \<Longrightarrow> take_bit (k + 8) (or (push_bit 8 w) (ucast b)) = (or (push_bit 8 w) (ucast b) :: 64 word)"
  for w :: "64 word" and b :: byte
proof (rule bit_word_eqI)
  fix n
  assume w: "take_bit k w = w" and n: "n < LENGTH(64)"
  have "bit w (n - 8) \<Longrightarrow> n - 8 < k" using w by (metis bit_take_bit_iff)
  then show "bit (take_bit (k + 8) (or (push_bit 8 w) (ucast b :: 64 word))) n = bit (or (push_bit 8 w) (ucast b :: 64 word)) n"
    by (auto simp: bit_simps dest: bit_imp_le_length)
qed

lemma be_word_take: "take_bit (8 * length bs) (be_word bs :: 64 word) = be_word bs"
proof -
  have "take_bit (k + 8 * length bs) (foldl (\<lambda>w b. or (push_bit 8 w) (ucast b)) w bs) =
      foldl (\<lambda>w b. or (push_bit 8 w) (ucast b)) w bs" if "take_bit k w = w" for k and w :: "64 word"
    using that
  proof (induction bs arbitrary: k w)
    case (Cons b bs)
    from Cons.IH [OF byte_step_bound [OF Cons.prems, of b]] show ?case by (simp add: ac_simps)
  qed simp
  from this [of 0 0] show ?thesis by (simp add: be_word_def)
qed

lemma be_word_less: "unat (be_word bs :: 64 word) < 2 ^ (8 * length bs)"
proof -
  have "unat (be_word bs :: 64 word) = take_bit (8 * length bs) (unat (be_word bs :: 64 word))"
    by (metis be_word_take unsigned_take_bit_eq)
  then show ?thesis using take_bit_nat_less_exp by metis
qed

lemma read_int_bounds:
  assumes "read_int hay position width endian = Some v"
  shows "position + width \<le> length hay" and "unat v < 2 ^ (8 * width)"
proof -
  obtain s where s: "range_get hay position (position + width) = Some s"
    and v: "v = (case endian of Big \<Rightarrow> be_word s | Little \<Rightarrow> be_word (rev s))"
    using assms by (auto simp: read_int_def split: if_splits option.splits)
  then have l: "position + width \<le> length hay" "length s = width" by (auto simp: range_get_def split: if_splits)
  show "position + width \<le> length hay" by (rule l(1))
  show "unat v < 2 ^ (8 * width)"
    using be_word_less [of s] be_word_less [of "rev s"] l(2) by (cases endian) (simp_all add: v)
qed

lemma as_i64_range: "- (2 ^ 63) \<le> as_i64 n \<and> as_i64 n < 2 ^ 63"
proof -
  have "n mod 2 ^ 64 < 2 ^ 64" by simp
  then show ?thesis by (auto simp: as_i64_def)
qed

text \<open>A jump without an offset behind it cannot overflow, however long the buffer is.\<close>

lemma plain_destination: "bj_post_offset j = 0 \<Longrightarrow> jump_destination j position v \<noteq> None"
  using as_i64_range [of "unat v * bj_multiplier j + (position + bj_bytes j)"] by (auto simp: jump_destination_def Let_def)

lemma jump_total:
  assumes "bj_post_offset j = 0 \<or> calm_jump j \<and> length hay < 2 ^ 61"
  shows "apply_byte_jump j hay cursor \<noteq> None"
proof (cases "resolve_position cursor (bj_offset j) (bj_relative j)")
  case (Some position)
  show ?thesis
  proof (cases "read_int hay position (bj_bytes j) (bj_endian j)")
    case v: (Some v)
    note b = read_int_bounds [OF v]
    have "jump_destination j position v \<noteq> None"
    proof (cases "bj_post_offset j = 0")
      case True
      then show ?thesis by (rule plain_destination)
    next
      case False
      define d where "d = unat v * bj_multiplier j + (position + bj_bytes j)"
      have c: "bj_bytes j \<le> 4" "bj_multiplier j < 2 ^ 16" "\<bar>bj_post_offset j\<bar> < 2 ^ 31"
        using assms False by (simp_all add: calm_jump_def)
      have "unat v < 2 ^ 32" using b(2) c(1) power_increasing [of "8 * bj_bytes j" 32 "2 :: nat"] by simp
      then have "unat v * bj_multiplier j \<le> 2 ^ 32 * 2 ^ 16" using c(2) by (intro mult_le_mono) simp_all
      then have d: "d < 2 ^ 62" using b(1) assms False by (simp add: d_def)
      then have "as_i64 d = int d" by (intro as_i64_small) simp
      moreover have "int d < 2 ^ 62" using d by (metis of_nat_less_iff of_nat_numeral of_nat_power)
      ultimately show ?thesis using c(3) by (auto simp: jump_destination_def Let_def d_def [symmetric])
    qed
    with Some v show ?thesis by (auto simp: apply_byte_jump_def split: bind_splits)
  qed (simp add: apply_byte_jump_def Some)
qed (simp add: apply_byte_jump_def)

lemma with_cursor_total:
  "(\<And>hay. buffers_get (mi_buffers input) b = Some hay \<Longrightarrow> f hay (es_cursors st b) \<noteq> None) \<Longrightarrow> with_cursor input b f st \<noteq> None"
  by (auto simp: with_cursor_def split: option.splits bind_splits)

definition plain_option :: "compiled_option \<Rightarrow> bool" where
  "plain_option x = (case x of COByteJump j \<Rightarrow> bj_post_offset j = 0 | _ \<Rightarrow> True)"

lemma eval_option_total:
  assumes "plain_option x \<or> calm_option x \<and> short_buffers (mi_buffers input)"
  shows "eval_option input bits x st \<noteq> None"
proof (cases x)
  case (COPcre m b negated relative)
  have "match_pcre m negated relative hay cursor \<noteq> None" for hay cursor
    by (simp add: match_pcre_def slice_def Let_def)
  with COPcre show ?thesis by (simp only: eval_option.simps) (rule with_cursor_total, blast)
next
  case (COByteJump j)
  then show ?thesis using assms jump_total
    by (simp only: eval_option.simps) (rule with_cursor_total, auto simp: plain_option_def calm_option_def short_buffers_def)
next
  case (COContent c)
  then show ?thesis using match_content_no_panic by (simp only: eval_option.simps) (rule with_cursor_total, blast)
qed (auto intro!: with_cursor_total simp del: not_None_eq)

lemma evaluate_returns:
  assumes "list_all (\<lambda>x. plain_option x \<or> calm_option x \<and> short_buffers (mi_buffers input)) (cr_options r)"
  shows "evaluate r input bits \<noteq> None"
proof -
  have "eval_options input bits xs st \<noteq> None" if "list_all (\<lambda>x. plain_option x \<or> calm_option x \<and> short_buffers (mi_buffers input)) xs" for xs st
    using that
  proof (induction xs arbitrary: st)
    case (Cons x xs)
    then show ?case using eval_option_total [of x input bits st] by (auto split: option.splits)
  qed simp
  from this [OF assms(1), of initial_state] show ?thesis by (auto simp: evaluate_def)
qed

lemma evaluate_total_lemma:
  assumes "list_all calm_option (cr_options r)" and "short_buffers (mi_buffers input)"
  shows "evaluate r input bits \<noteq> None"
  using assms by (intro evaluate_returns) (simp add: list_all_iff)

end
