(* ===== verification/Compile.thy ===== *)
theory Compile
  imports RuleEval
begin

text \<open>
  Compiling a ruleset (\<open>crates/engine/src/compile.rs\<close>): headers resolved, regular expressions built,
  the most distinctive pattern of every rule gathered per buffer and case sensitivity, and the scan that
  tells which rules are worth evaluating. The regex and aho-corasick crates are two parameters: the
  builder of an expression, which may refuse it, and the builder of an automaton, whose scan returns the
  indices of the patterns it reports. The tables indexed by buffer are maps; the iteration over the
  pattern table is over its keys in order.
\<close>

section \<open>Limits, errors, reports\<close>

record compile_limits =
  regex_size_limit :: nat
  regex_dfa_size_limit :: nat

definition default_compile_limits :: compile_limits where
  "default_compile_limits = \<lparr>regex_size_limit = 2 ^ 20, regex_dfa_size_limit = 2 ^ 20\<rparr>"

datatype compile_error = HeaderError var_error | RegexError string string | NotEvaluable string
  | NotHandled rule_option

record compile_failure =
  cf_sid :: nat
  cf_origin :: string
  cf_reason :: compile_error

record compile_report =
  rp_compiled :: nat
  rp_not_evaluable :: nat
  rp_failed :: "compile_failure list"
  rp_without_prefilter :: nat

definition default_report :: compile_report where
  "default_report = \<lparr>rp_compiled = 0, rp_not_evaluable = 0, rp_failed = [], rp_without_prefilter = 0\<rparr>"

definition merge_reports :: "compile_report \<Rightarrow> compile_report \<Rightarrow> compile_report" where
  "merge_reports a b = \<lparr>rp_compiled = rp_compiled a + rp_compiled b,
     rp_not_evaluable = rp_not_evaluable a + rp_not_evaluable b, rp_failed = rp_failed a @ rp_failed b,
     rp_without_prefilter = rp_without_prefilter a + rp_without_prefilter b\<rparr>"

section \<open>One rule\<close>

type_synonym regex_builder = "pcre_match \<Rightarrow> compile_limits \<Rightarrow> string + matcher"

fun compile_option :: "regex_builder \<Rightarrow> compile_limits \<Rightarrow> rule_option \<Rightarrow> compile_error + compiled_option" where
  "compile_option rb limits (Content c) = Inr (COContent c)"
| "compile_option rb limits (Pcre p) = (case rb p limits of
       Inl reason \<Rightarrow> Inl (RegexError (pm_source p) reason)
     | Inr m \<Rightarrow> Inr (COPcre m (pm_buffer p) (pm_negated p) (pm_relative p)))"
| "compile_option rb limits (OnFlow f) = Inr (COFlow f)"
| "compile_option rb limits (FlowBits op) = Inr (COFlowBits op)"
| "compile_option rb limits (ByteTest t) = Inr (COByteTest t)"
| "compile_option rb limits (ByteJump j) = Inr (COByteJump j)"
| "compile_option rb limits (Dsize d) = Inr (CODsize d)"
| "compile_option rb limits (Normalized c) = Inr (CONormalized c)"
| "compile_option rb limits other = Inl (NotHandled other)"

fun compile_each :: "('a \<Rightarrow> 'e + 'b) \<Rightarrow> 'a list \<Rightarrow> 'e + 'b list" where
  "compile_each f [] = Inr []"
| "compile_each f (x # xs) = (case f x of Inl e \<Rightarrow> Inl e | Inr y \<Rightarrow>
     case compile_each f xs of Inl e \<Rightarrow> Inl e | Inr ys \<Rightarrow> Inr (y # ys))"

text \<open>\<open>entry(key).or_default().push(value)\<close> over the entries.\<close>

definition group_metadata :: "(string \<times> string) list \<Rightarrow> string \<rightharpoonup> string list" where
  "group_metadata entries = foldl (\<lambda>m (k, v). m(k \<mapsto> unwrap_or (m k) [] @ [v])) Map.empty entries"

fun join :: "string \<Rightarrow> string list \<Rightarrow> string" where
  "join sep [] = []"
| "join sep [x] = x"
| "join sep (x # y # ys) = x @ sep @ join sep (y # ys)"

definition compile_rule :: "regex_builder \<Rightarrow> rule \<Rightarrow> var_table \<Rightarrow> compile_limits \<Rightarrow> compile_error + compiled_rule" where
  "compile_rule rb r vt limits =
     (if \<not> is_evaluable r then Inl (NotEvaluable (join '', '' (ru_unsupported r)))
      else case header_resolve (ru_header r) vt of Inl e \<Rightarrow> Inl (HeaderError e) | Inr header \<Rightarrow>
        case compile_each (compile_option rb limits) (ru_options r) of Inl e \<Rightarrow> Inl e | Inr options \<Rightarrow>
          Inr \<lparr>cr_sid = ru_sid r, cr_rev = ru_rev r, cr_msg = ru_msg r, cr_classtype = ru_classtype r,
            cr_severity = severity r, cr_blocks = action_blocks (rh_action (ru_header r)),
            cr_metadata = group_metadata (ru_metadata r), cr_header = header, cr_options = options,
            cr_threshold = ru_threshold r, cr_no_alert = ru_no_alert r, cr_needs_http = rule_needs_http r,
            cr_origin = location r\<rparr>)"

text \<open>\<open>max_by_key\<close>: the last of the greatest elements.\<close>

definition max_by_key :: "('a \<Rightarrow> nat) \<Rightarrow> 'a list \<Rightarrow> 'a option" where
  "max_by_key key xs = foldl (\<lambda>best x. case best of
       None \<Rightarrow> Some x | Some b \<Rightarrow> if key b \<le> key x then Some x else Some b) None xs"

fun usable_content :: "rule_option \<Rightarrow> content_match option" where
  "usable_content (Content c) = (if usable_as_fast_pattern c then Some c else None)"
| "usable_content _ = None"

definition select_fast_pattern :: "rule \<Rightarrow> (buffer \<times> bytes \<times> bool) option" where
  "select_fast_pattern r =
     (let contents = List.map_filter usable_content (ru_options r);
          chosen = (case find cm_fast_pattern contents of
              Some c \<Rightarrow> Some c
            | None \<Rightarrow> max_by_key (\<lambda>c. length (cm_pattern c)) contents)
      in map_option (\<lambda>c. (cm_buffer c, cm_pattern c, cm_nocase c)) chosen)"

section \<open>The ruleset\<close>

type_synonym scanner = "bytes \<Rightarrow> nat list"
type_synonym ac_builder = "bool \<Rightarrow> bytes list \<Rightarrow> scanner option"
type_synonym patterns_by_buffer = "buffer \<times> bool \<rightharpoonup> bytes list \<times> nat list"

record prefilter =
  pf_sensitive :: "(scanner \<times> nat list) option"
  pf_insensitive :: "(scanner \<times> nat list) option"

definition owner_candidates :: "(scanner \<times> nat list) option \<Rightarrow> bytes \<Rightarrow> nat list" where
  "owner_candidates side hay = (case side of None \<Rightarrow> []
     | Some (scan, owners) \<Rightarrow> List.map_filter (\<lambda>k. if k < length owners then Some (owners ! k) else None) (scan hay))"

definition prefilter_candidates :: "prefilter \<Rightarrow> bytes \<Rightarrow> nat list" where
  "prefilter_candidates pf hay = owner_candidates (pf_sensitive pf) hay @ owner_candidates (pf_insensitive pf) hay"

record compiled_ruleset =
  rs_rules :: "compiled_rule list"
  rs_prefilters :: "buffer \<rightharpoonup> prefilter"
  rs_always :: "nat list"
  rs_buffers :: "buffer list"

record compile_state =
  cs_report :: compile_report
  cs_compiled :: "compiled_rule list"
  cs_patterns :: patterns_by_buffer
  cs_always :: "nat list"

definition add_rule :: "rule \<Rightarrow> compiled_rule \<Rightarrow> compile_state \<Rightarrow> compile_state" where
  "add_rule r entry cs = (let index = length (cs_compiled cs) in (case select_fast_pattern r of
       Some (buffer, pattern, nocase) \<Rightarrow>
         (let slot = unwrap_or (cs_patterns cs (buffer, nocase)) ([], [])
          in cs\<lparr>cs_patterns := (cs_patterns cs)((buffer, nocase) \<mapsto> (fst slot @ [pattern], snd slot @ [index]))\<rparr>)
     | None \<Rightarrow> cs\<lparr>cs_report := (cs_report cs)\<lparr>rp_without_prefilter := rp_without_prefilter (cs_report cs) + 1\<rparr>,
         cs_always := cs_always cs @ [index]\<rparr>)\<lparr>cs_compiled := cs_compiled cs @ [entry]\<rparr>)"

definition compile_step :: "regex_builder \<Rightarrow> var_table \<Rightarrow> compile_limits \<Rightarrow> compile_state \<Rightarrow> rule \<Rightarrow> compile_state" where
  "compile_step rb vt limits cs r =
     (if \<not> is_evaluable r
      then cs\<lparr>cs_report := (cs_report cs)\<lparr>rp_not_evaluable := rp_not_evaluable (cs_report cs) + 1\<rparr>\<rparr>
      else case compile_rule rb r vt limits of
          Inr entry \<Rightarrow> add_rule r entry cs
        | Inl e \<Rightarrow> cs\<lparr>cs_report := (cs_report cs)\<lparr>rp_failed := rp_failed (cs_report cs) @
            [\<lparr>cf_sid = ru_sid r, cf_origin = location r, cf_reason = e\<rparr>]\<rparr>\<rparr>)"

definition empty_compile :: compile_state where
  "empty_compile = \<lparr>cs_report = default_report, cs_compiled = [], cs_patterns = Map.empty, cs_always = []\<rparr>"

definition all_buffers :: "buffer list" where
  "all_buffers = [Payload, HttpUri, HttpHeader, HttpUserAgent, HttpMethod, HttpHost]"

definition pattern_keys :: "(buffer \<times> bool) list" where
  "pattern_keys = concat (map (\<lambda>b. [(b, False), (b, True)]) all_buffers)"

definition build_prefilter :: "ac_builder \<Rightarrow> patterns_by_buffer \<Rightarrow> (buffer \<rightharpoonup> prefilter) \<times> nat list \<Rightarrow>
    buffer \<times> bool \<Rightarrow> (buffer \<rightharpoonup> prefilter) \<times> nat list" where
  "build_prefilter ac patterns acc key = (case patterns key of
       None \<Rightarrow> acc
     | Some (needles, owners) \<Rightarrow> (case ac (snd key) needles of
           None \<Rightarrow> (fst acc, snd acc @ owners)
         | Some automaton \<Rightarrow>
             (let entry = unwrap_or (fst acc (fst key)) \<lparr>pf_sensitive = None, pf_insensitive = None\<rparr>;
                  entry = (if snd key then entry\<lparr>pf_insensitive := Some (automaton, owners)\<rparr>
                           else entry\<lparr>pf_sensitive := Some (automaton, owners)\<rparr>)
              in ((fst acc)(fst key \<mapsto> entry), snd acc))))"

fun compiled_option_buffer :: "compiled_option \<Rightarrow> buffer option" where
  "compiled_option_buffer (COContent c) = Some (cm_buffer c)"
| "compiled_option_buffer (COPcre _ b _ _) = Some b"
| "compiled_option_buffer _ = None"

definition compile :: "regex_builder \<Rightarrow> ac_builder \<Rightarrow> rule list \<Rightarrow> var_table \<Rightarrow> compile_limits \<Rightarrow>
    compiled_ruleset \<times> compile_report" where
  "compile rb ac rules vt limits =
     (let cs = foldl (compile_step rb vt limits) empty_compile rules;
          (prefilters, always) = foldl (build_prefilter ac (cs_patterns cs)) (Map.empty, cs_always cs) pattern_keys;
          used = (\<lambda>b. prefilters b \<noteq> None \<or>
            list_ex (\<lambda>r. list_ex (\<lambda>opt. compiled_option_buffer opt = Some b) (cr_options r)) (cs_compiled cs))
      in (\<lparr>rs_rules = cs_compiled cs, rs_prefilters = prefilters, rs_always = always,
            rs_buffers = filter used all_buffers\<rparr>,
          (cs_report cs)\<lparr>rp_compiled := length (cs_compiled cs)\<rparr>))"

definition ruleset_needs_http :: "compiled_ruleset \<Rightarrow> bool" where
  "ruleset_needs_http rs \<longleftrightarrow> list_ex is_http (rs_buffers rs) \<or> list_ex cr_needs_http (rs_rules rs)"

definition candidates_in :: "compiled_ruleset \<Rightarrow> (buffer \<times> bytes) list \<Rightarrow> nat list" where
  "candidates_in rs buffers =
     (let out = concat (map (\<lambda>(b, hay). case rs_prefilters rs b of None \<Rightarrow> [] | Some pf \<Rightarrow> prefilter_candidates pf hay)
            buffers) @ rs_always rs
      in remdups_adj (sort out))"

definition rule_at :: "compiled_ruleset \<Rightarrow> nat \<Rightarrow> compiled_rule option" where
  "rule_at rs index = (if index < length (rs_rules rs) then Some (rs_rules rs ! index) else None)"

section \<open>The chosen pattern\<close>

lemma max_by_key_fold:
  fixes key :: "'a \<Rightarrow> nat"
  assumes "foldl (\<lambda>best x. case best of None \<Rightarrow> Some x | Some b \<Rightarrow> if key b \<le> key x then Some x else Some b) acc xs = Some m"
  shows "(m \<in> set xs \<or> acc = Some m) \<and> (\<forall>x \<in> set xs. key x \<le> key m) \<and> (\<forall>b. acc = Some b \<longrightarrow> key b \<le> key m)"
  using assms
proof (induction xs arbitrary: acc)
  case (Cons x xs)
  show ?case
  proof (cases acc)
    case None
    with Cons.IH [of "Some x"] Cons.prems show ?thesis by auto
  next
    case (Some b)
    with Cons.IH [of "if key b \<le> key x then Some x else Some b"] Cons.prems show ?thesis
      by (auto split: if_splits)
  qed
qed simp

lemma max_by_key_Some: "max_by_key key xs = Some m \<Longrightarrow> m \<in> set xs \<and> (\<forall>x \<in> set xs. key x \<le> key m)"
  unfolding max_by_key_def by (drule max_by_key_fold) simp

lemma max_by_key_None: "max_by_key key xs = None \<longleftrightarrow> xs = []"
proof -
  have "foldl (\<lambda>best x. case best of None \<Rightarrow> Some x | Some b \<Rightarrow> if key b \<le> key x then Some x else Some b) (Some b) ys \<noteq> None"
    for b ys by (induction ys arbitrary: b) (auto split: if_splits)
  then show ?thesis by (cases xs) (auto simp: max_by_key_def)
qed

lemma usable_contents:
  "c \<in> set (List.map_filter usable_content opts) \<longleftrightarrow> Content c \<in> set opts \<and> usable_as_fast_pattern c"
proof (induction opts)
  case (Cons opt opts)
  then show ?case by (cases opt) (auto simp: List.map_filter_simps)
qed (simp add: List.map_filter_simps)

lemma fast_pattern_chosen:
  assumes "select_fast_pattern r = Some (b, pattern, nc)"
  shows "\<exists>c. Content c \<in> set (ru_options r) \<and> usable_as_fast_pattern c \<and> cm_buffer c = b \<and>
    cm_pattern c = pattern \<and> cm_nocase c = nc"
proof -
  let ?cs = "List.map_filter usable_content (ru_options r)"
  have "c \<in> set ?cs" if "find cm_fast_pattern ?cs = Some c" for c
    using that by (auto simp: find_Some_iff)
  moreover have "c \<in> set ?cs" if "max_by_key (\<lambda>c. length (cm_pattern c)) ?cs = Some c" for c
    using max_by_key_Some [OF that] by simp
  ultimately obtain c where c: "c \<in> set ?cs" "cm_buffer c = b" "cm_pattern c = pattern" "cm_nocase c = nc"
    using assms unfolding select_fast_pattern_def Let_def map_option_eq_Some
    by (cases "find cm_fast_pattern ?cs") auto
  then show ?thesis unfolding usable_contents by blast
qed

lemma compile_each_Inr:
  "compile_each f xs = Inr ys \<longleftrightarrow> list_all2 (\<lambda>x y. f x = Inr y) xs ys"
proof (induction xs arbitrary: ys)
  case (Cons x xs)
  show ?case
  proof (cases "f x")
    case (Inr y)
    have "compile_each f (x # xs) = Inr ys \<longleftrightarrow> (\<exists>zs. compile_each f xs = Inr zs \<and> ys = y # zs)"
      by (auto simp: Inr split: sum.splits)
    then show ?thesis by (auto simp: Cons.IH list_all2_Cons1 Inr)
  qed (simp add: list_all2_Cons1)
qed auto

lemma compile_rule_options:
  "compile_rule rb r vt limits = Inr entry \<Longrightarrow>
     list_all2 (\<lambda>x y. compile_option rb limits x = Inr y) (ru_options r) (cr_options entry)"
  by (auto simp: compile_rule_def compile_each_Inr split: if_splits sum.splits)

lemma compile_rule_content:
  assumes "compile_rule rb r vt limits = Inr entry" and "Content c \<in> set (ru_options r)"
  shows "COContent c \<in> set (cr_options entry)"
proof -
  obtain i where "i < length (ru_options r)" "ru_options r ! i = Content c"
    using assms(2) by (auto simp: in_set_conv_nth)
  with compile_rule_options [OF assms(1)] show ?thesis by (force simp: list_all2_conv_all_nth in_set_conv_nth)
qed

section \<open>Every rule has its place\<close>

text \<open>The rule of an index carries the pattern it is listed under.\<close>

definition listed :: "compiled_rule list \<Rightarrow> patterns_by_buffer \<Rightarrow> nat \<Rightarrow> bool" where
  "listed rules patterns i \<longleftrightarrow> (\<exists>key needles owners k c. patterns key = Some (needles, owners) \<and>
     k < length needles \<and> owners ! k = i \<and> COContent c \<in> set (cr_options (rules ! i)) \<and>
     usable_as_fast_pattern c \<and> key = (cm_buffer c, cm_nocase c) \<and> needles ! k = cm_pattern c)"

definition placed :: "compile_state \<Rightarrow> bool" where
  "placed cs \<longleftrightarrow>
     (\<forall>key needles owners. cs_patterns cs key = Some (needles, owners) \<longrightarrow>
        length needles = length owners \<and> (\<forall>i \<in> set owners. i < length (cs_compiled cs))) \<and>
     (\<forall>i \<in> set (cs_always cs). i < length (cs_compiled cs)) \<and>
     (\<forall>i < length (cs_compiled cs). i \<in> set (cs_always cs) \<or> listed (cs_compiled cs) (cs_patterns cs) i)"

lemma listed_mono:
  assumes "listed rules patterns i" and "i < length rules"
    and "\<And>key needles owners. patterns key = Some (needles, owners) \<Longrightarrow> length needles = length owners \<and>
      (\<exists>ns os. patterns' key = Some (needles @ ns, owners @ os))"
  shows "listed (rules @ extra) patterns' i"
proof -
  obtain key needles owners k c where h: "patterns key = Some (needles, owners)" "k < length needles"
    "owners ! k = i" "COContent c \<in> set (cr_options (rules ! i))" "usable_as_fast_pattern c"
    "key = (cm_buffer c, cm_nocase c)" "needles ! k = cm_pattern c"
    using assms(1) unfolding listed_def by blast
  obtain ns os where p: "patterns' key = Some (needles @ ns, owners @ os)" "length needles = length owners"
    using assms(3) [OF h(1)] by blast
  have "k < length (needles @ ns)" "(owners @ os) ! k = i" "(needles @ ns) ! k = cm_pattern c"
    "COContent c \<in> set (cr_options ((rules @ extra) ! i))"
    using h p(2) assms(2) by (simp_all add: nth_append)
  with p(1) h(5,6) show ?thesis unfolding listed_def by blast
qed

lemma add_rule_placed:
  assumes "placed cs" and "compile_rule rb r vt limits = Inr entry"
  shows "placed (add_rule r entry cs)"
proof -
  let ?n = "length (cs_compiled cs)"
  have len: "length needles = length owners" and low: "\<And>i. i \<in> set owners \<Longrightarrow> i < ?n"
    if "cs_patterns cs key = Some (needles, owners)" for key needles owners
    using assms(1) that unfolding placed_def by blast+
  have al: "\<And>i. i \<in> set (cs_always cs) \<Longrightarrow> i < ?n" using assms(1) unfolding placed_def by blast
  have each: "i \<in> set (cs_always cs) \<or> listed (cs_compiled cs) (cs_patterns cs) i" if "i < ?n" for i
    using assms(1) that unfolding placed_def by blast
  show ?thesis
  proof (cases "select_fast_pattern r")
    case None
    have "i \<in> set (cs_always cs @ [?n]) \<or> listed (cs_compiled cs @ [entry]) (cs_patterns cs) i" if "i < Suc ?n" for i
    proof (cases "i = ?n")
      case False
      with that have "i < ?n" by simp
      then show ?thesis
        using each listed_mono [where extra = "[entry]" and patterns' = "cs_patterns cs"] len
        by (metis Un_iff append_Nil2 set_append)
    qed simp
    with None len low al show ?thesis
      unfolding placed_def add_rule_def by (auto simp: less_Suc_eq)
  next
    case (Some choice)
    obtain b pattern nc where ch: "choice = (b, pattern, nc)" by (cases choice)
    define slot where "slot = unwrap_or (cs_patterns cs (b, nc)) ([], [])"
    define pats where "pats = (cs_patterns cs)((b, nc) \<mapsto> (fst slot @ [pattern], snd slot @ [?n]))"
    have slot: "length (fst slot) = length (snd slot)" "\<And>i. i \<in> set (snd slot) \<Longrightarrow> i < ?n"
      using len low unfolding slot_def by (cases "cs_patterns cs (b, nc)"; force)+
    have eq: "add_rule r entry cs = cs\<lparr>cs_patterns := pats, cs_compiled := cs_compiled cs @ [entry]\<rparr>"
      by (simp add: add_rule_def Some ch slot_def pats_def Let_def)
    have grow: "length needles = length owners \<and> (\<exists>ns os. pats key = Some (needles @ ns, owners @ os))"
      if "cs_patterns cs key = Some (needles, owners)" for key needles owners
      using that len unfolding pats_def slot_def by (cases "key = (b, nc)") auto
    obtain c where c: "Content c \<in> set (ru_options r)" "usable_as_fast_pattern c" "cm_buffer c = b"
      "cm_pattern c = pattern" "cm_nocase c = nc"
      using fast_pattern_chosen Some ch by blast
    have new: "listed (cs_compiled cs @ [entry]) pats ?n"
      unfolding listed_def using c slot(1) compile_rule_content [OF assms(2) c(1)]
      by (intro exI [of _ "(b, nc)"] exI [of _ "fst slot @ [pattern]"] exI [of _ "snd slot @ [?n]"]
          exI [of _ "length (fst slot)"] exI [of _ c]) (simp add: pats_def nth_append)
    have "i \<in> set (cs_always cs) \<or> listed (cs_compiled cs @ [entry]) pats i" if "i < Suc ?n" for i
    proof (cases "i = ?n")
      case False
      with that have i: "i < ?n" by simp
      from each [OF i] show ?thesis using listed_mono [where patterns = "cs_patterns cs" and patterns' = pats, OF _ i grow]
        by blast
    qed (simp add: new)
    moreover have "length needles = length owners \<and> (\<forall>i \<in> set owners. i < Suc ?n)"
      if "pats key = Some (needles, owners)" for key needles owners
    proof (cases "key = (b, nc)")
      case True
      with that have "needles = fst slot @ [pattern]" "owners = snd slot @ [?n]" by (simp_all add: pats_def)
      with slot show ?thesis by (simp add: less_Suc_eq)
    next
      case False
      with that have "cs_patterns cs key = Some (needles, owners)" by (simp add: pats_def)
      then show ?thesis using len low by (simp add: less_Suc_eq)
    qed
    ultimately show ?thesis using al unfolding eq placed_def by (simp add: less_Suc_eq)
  qed
qed

interpretation compiling: invariant_machine "\<lambda>cs. cs = empty_compile" "compile_step rb vt limits" placed for rb vt limits
proof
  show "placed cs" if "cs = empty_compile" for cs using that by (simp add: placed_def empty_compile_def)
  show "placed (compile_step rb vt limits cs r)" if "placed cs" for cs r
    using that add_rule_placed [OF that] by (auto simp: compile_step_def placed_def split: sum.splits)
qed

section \<open>The automata\<close>

definition side_of :: "(buffer \<rightharpoonup> prefilter) \<Rightarrow> buffer \<times> bool \<Rightarrow> (scanner \<times> nat list) option" where
  "side_of pfs key = (case pfs (fst key) of None \<Rightarrow> None
     | Some pf \<Rightarrow> if snd key then pf_insensitive pf else pf_sensitive pf)"

text \<open>The automaton of a key, and the rules left without one.\<close>

definition automaton_of :: "ac_builder \<Rightarrow> patterns_by_buffer \<Rightarrow> buffer \<times> bool \<Rightarrow> (scanner \<times> nat list) option" where
  "automaton_of ac patterns key = (case patterns key of None \<Rightarrow> None
     | Some (needles, owners) \<Rightarrow> map_option (\<lambda>scan. (scan, owners)) (ac (snd key) needles))"

definition leftover :: "ac_builder \<Rightarrow> patterns_by_buffer \<Rightarrow> buffer \<times> bool \<Rightarrow> nat list" where
  "leftover ac patterns key = (case patterns key of None \<Rightarrow> []
     | Some (needles, owners) \<Rightarrow> if ac (snd key) needles = None then owners else [])"

lemma build_prefilter_side:
  "side_of (fst (build_prefilter ac patterns acc key)) =
     (side_of (fst acc))(key := (case automaton_of ac patterns key of None \<Rightarrow> side_of (fst acc) key | some \<Rightarrow> some))"
proof (rule ext)
  fix k :: "buffer \<times> bool"
  obtain b nc where "key = (b, nc)" by (cases key)
  moreover obtain b' nc' where "k = (b', nc')" by (cases k)
  ultimately show "side_of (fst (build_prefilter ac patterns acc key)) k =
      ((side_of (fst acc))(key := (case automaton_of ac patterns key of None \<Rightarrow> side_of (fst acc) key | some \<Rightarrow> some))) k"
    by (cases "fst acc b")
      (auto simp: build_prefilter_def automaton_of_def side_of_def Let_def split: option.splits)
qed

lemma build_prefilter_always:
  "snd (build_prefilter ac patterns acc key) = snd acc @ leftover ac patterns key"
  by (auto simp: build_prefilter_def leftover_def Let_def split: option.splits)

lemma build_all:
  assumes "distinct keys" and "acc = foldl (build_prefilter ac patterns) (Map.empty, always) keys"
  shows "side_of (fst acc) key = (if key \<in> set keys then automaton_of ac patterns key else None)"
    and "snd acc = always @ concat (map (leftover ac patterns) keys)"
  using assms
proof (induction keys arbitrary: acc key rule: rev_induct)
  case (snoc k ks)
  { case 1
    then show ?case using snoc(1) [of "foldl (build_prefilter ac patterns) (Map.empty, always) ks"]
      by (auto simp: build_prefilter_side split: option.splits) }
  { case 2
    then show ?case using snoc(2) [of "foldl (build_prefilter ac patterns) (Map.empty, always) ks"]
      by (simp add: build_prefilter_always) }
qed (simp_all add: side_of_def)

lemma pattern_keys: "distinct pattern_keys" "key \<in> set pattern_keys"
proof -
  show "distinct pattern_keys" by (simp add: pattern_keys_def all_buffers_def)
  obtain b nc where "key = (b, nc)" by (cases key)
  then show "key \<in> set pattern_keys" by (cases b; cases nc) (simp_all add: pattern_keys_def all_buffers_def)
qed

lemma compile_tables:
  assumes "compile rb ac rules vt limits = (rs, report)"
  obtains cs where "placed cs" "rs_rules rs = cs_compiled cs"
    "\<And>key. side_of (rs_prefilters rs) key = automaton_of ac (cs_patterns cs) key"
    "rs_always rs = cs_always cs @ concat (map (leftover ac (cs_patterns cs)) pattern_keys)"
proof -
  define cs where "cs = foldl (compile_step rb vt limits) empty_compile rules"
  obtain pfs al where b: "foldl (build_prefilter ac (cs_patterns cs)) (Map.empty, cs_always cs) pattern_keys = (pfs, al)"
    by (cases "foldl (build_prefilter ac (cs_patterns cs)) (Map.empty, cs_always cs) pattern_keys")
  have rs: "rs_rules rs = cs_compiled cs" "rs_prefilters rs = pfs" "rs_always rs = al"
    using assms unfolding compile_def cs_def [symmetric] Let_def b by auto
  have "placed cs" unfolding cs_def by (rule compiling.inv_reachable) simp
  then show thesis
    using that [of cs] build_all [OF pattern_keys(1) b [symmetric]] by (simp add: rs pattern_keys(2))
qed

section \<open>The pre-filter loses nothing\<close>

text \<open>What the scan of an automaton promises: it reports exactly the patterns that stand somewhere in the
  haystack, ASCII case folded when asked to.\<close>

definition ac_faithful :: "ac_builder \<Rightarrow> bool" where
  "ac_faithful ac \<longleftrightarrow> (\<forall>nc needles scan hay. ac nc needles = Some scan \<longrightarrow>
     set (scan hay) = {k. k < length needles \<and> (\<exists>p. occurs nc (needles ! k) hay p)})"

lemma owner_candidates_set:
  "set (owner_candidates side hay) =
     (case side of None \<Rightarrow> {} | Some (scan, owners) \<Rightarrow> {owners ! k | k. k \<in> set (scan hay) \<and> k < length owners})"
  by (auto simp: owner_candidates_def List.map_filter_def split: option.splits)

lemma candidates_set:
  "set (candidates_in rs buffers) = set (rs_always rs) \<union>
     (\<Union>(b, hay) \<in> set buffers. \<Union>nc. set (owner_candidates (side_of (rs_prefilters rs) (b, nc)) hay))"
proof -
  let ?scan = "\<lambda>b hay. case rs_prefilters rs b of None \<Rightarrow> [] | Some pf \<Rightarrow> prefilter_candidates pf hay"
  have "set (candidates_in rs buffers) = (\<Union>x \<in> set buffers. set (?scan (fst x) (snd x))) \<union> set (rs_always rs)"
    unfolding candidates_in_def Let_def split_def by simp
  moreover have "set (case rs_prefilters rs b of None \<Rightarrow> [] | Some pf \<Rightarrow> prefilter_candidates pf hay) =
      (\<Union>nc. set (owner_candidates (side_of (rs_prefilters rs) (b, nc)) hay))" for b hay
    by (auto simp: prefilter_candidates_def side_of_def UNIV_bool owner_candidates_def split: option.splits)
  ultimately show ?thesis by (simp only: split_def Un_commute)
qed

lemma candidates_sorted: "sorted (candidates_in rs buffers)" "distinct (candidates_in rs buffers)"
proof -
  show s: "sorted (candidates_in rs buffers)" by (simp add: candidates_in_def Let_def sorted_remdups_adj)
  have "distinct (remdups_adj xs)" if "sorted xs" for xs :: "nat list"
    using that by (induction xs rule: remdups_adj.induct) (auto simp: less_le)
  then show "distinct (candidates_in rs buffers)" by (simp add: candidates_in_def Let_def)
qed

lemma candidates_are_rules:
  assumes "compile rb ac rules vt limits = (rs, report)" and "i \<in> set (candidates_in rs buffers)"
  shows "i < length (rs_rules rs)"
proof -
  obtain cs where cs: "placed cs" "rs_rules rs = cs_compiled cs"
    "\<And>key. side_of (rs_prefilters rs) key = automaton_of ac (cs_patterns cs) key"
    "rs_always rs = cs_always cs @ concat (map (leftover ac (cs_patterns cs)) pattern_keys)"
    using compile_tables [OF assms(1)] by metis
  have own: "j < length (cs_compiled cs)" if "cs_patterns cs key = Some (needles, owners)" "j \<in> set owners"
    for key needles owners j
    using cs(1) that unfolding placed_def by blast
  from assms(2) consider "i \<in> set (cs_always cs)" | key where "i \<in> set (leftover ac (cs_patterns cs) key)"
    | key hay where "i \<in> set (owner_candidates (automaton_of ac (cs_patterns cs) key) hay)"
    unfolding candidates_set cs(3,4) by auto
  then show ?thesis
  proof cases
    case 1
    with cs(1,2) show ?thesis by (auto simp: placed_def)
  next
    case 2
    then obtain needles owners where "cs_patterns cs key = Some (needles, owners)" "i \<in> set owners"
      unfolding leftover_def by (cases "cs_patterns cs key") (auto split: if_splits)
    with own show ?thesis by (simp add: cs(2))
  next
    case 3
    then obtain needles owners where "cs_patterns cs key = Some (needles, owners)" "i \<in> set owners"
      unfolding owner_candidates_set automaton_of_def by (cases "cs_patterns cs key") (auto split: option.splits)
    with own show ?thesis by (simp add: cs(2))
  qed
qed

lemma listed_candidate:
  assumes "ac_faithful ac" and "listed rules patterns i"
    and "\<And>c. COContent c \<in> set (cr_options (rules ! i)) \<Longrightarrow> usable_as_fast_pattern c \<Longrightarrow>
      \<exists>hay p. (cm_buffer c, hay) \<in> set buffers \<and> occurs (cm_nocase c) (cm_pattern c) hay p"
    and "\<And>key needles owners. patterns key = Some (needles, owners) \<Longrightarrow> length needles = length owners"
  shows "(\<exists>key. i \<in> set (leftover ac patterns key)) \<or>
    (\<exists>b nc hay. (b, hay) \<in> set buffers \<and> i \<in> set (owner_candidates (automaton_of ac patterns (b, nc)) hay))"
proof -
  obtain key needles owners k c where h: "patterns key = Some (needles, owners)" "k < length needles"
    "owners ! k = i" "COContent c \<in> set (cr_options (rules ! i))" "usable_as_fast_pattern c"
    "key = (cm_buffer c, cm_nocase c)" "needles ! k = cm_pattern c"
    using assms(2) unfolding listed_def by blast
  obtain hay p where o: "(cm_buffer c, hay) \<in> set buffers" "occurs (cm_nocase c) (cm_pattern c) hay p"
    using assms(3) h(4,5) by blast
  have len: "k < length owners" using assms(4) [OF h(1)] h(2) by simp
  show ?thesis
  proof (cases "ac (cm_nocase c) needles")
    case None
    with h len have "i \<in> set (leftover ac patterns key)" by (auto simp: leftover_def)
    then show ?thesis by blast
  next
    case (Some scan)
    with assms(1) h(2,7) o(2) have "k \<in> set (scan hay)" unfolding ac_faithful_def by fastforce
    with Some h len have "i \<in> set (owner_candidates (automaton_of ac patterns key) hay)"
      by (auto simp: automaton_of_def owner_candidates_set)
    with h(6) o(1) show ?thesis by blast
  qed
qed

text \<open>The buffers a scan is offered: those of the list that are filled.\<close>

definition haystacks :: "buffers \<Rightarrow> buffer list \<Rightarrow> (buffer \<times> bytes) list" where
  "haystacks bs scanned = List.map_filter (\<lambda>b. map_option (Pair b) (buffers_get bs b)) scanned"

lemma haystacks_set: "(b, hay) \<in> set (haystacks bs scanned) \<longleftrightarrow> b \<in> set scanned \<and> buffers_get bs b = Some hay"
  by (force simp: haystacks_def List.map_filter_def)

definition rule_matches :: "compiled_ruleset \<Rightarrow> match_input \<Rightarrow> flow_bits \<Rightarrow> nat \<Rightarrow> bool" where
  "rule_matches rs input bits i \<longleftrightarrow> (\<exists>effects. evaluate (rs_rules rs ! i) input bits = Some (Some effects))"

lemma matching_is_candidate:
  assumes "ac_faithful ac" and "compile rb ac rules vt limits = (rs, report)"
    and "\<And>b. b \<notin> set scanned \<Longrightarrow> buffers_get (mi_buffers input) b \<in> {None, Some []}"
    and "i < length (rs_rules rs)" and "rule_matches rs input bits i"
  shows "i \<in> set (candidates_in rs (haystacks (mi_buffers input) scanned))"
proof -
  obtain cs where cs: "placed cs" "rs_rules rs = cs_compiled cs"
    "\<And>key. side_of (rs_prefilters rs) key = automaton_of ac (cs_patterns cs) key"
    "rs_always rs = cs_always cs @ concat (map (leftover ac (cs_patterns cs)) pattern_keys)"
    using compile_tables [OF assms(2)] by metis
  obtain effects where e: "evaluate (cs_compiled cs ! i) input bits = Some (Some effects)"
    using assms(5) unfolding rule_matches_def cs(2) by blast
  have found: "\<exists>hay p. (cm_buffer c, hay) \<in> set (haystacks (mi_buffers input) scanned) \<and>
      occurs (cm_nocase c) (cm_pattern c) hay p"
    if c: "COContent c \<in> set (cr_options (cs_compiled cs ! i))" "usable_as_fast_pattern c" for c
  proof -
    obtain hay p where h: "buffers_get (mi_buffers input) (cm_buffer c) = Some hay"
      "occurs (cm_nocase c) (cm_pattern c) hay p"
      using match_needs_pattern [OF e c] by blast
    then have "hay \<noteq> []" using c(2) by (auto simp: occurs_def usable_as_fast_pattern_def)
    with h assms(3) [of "cm_buffer c"] show ?thesis by (auto simp: haystacks_set)
  qed
  have len: "length needles = length owners" if "cs_patterns cs key = Some (needles, owners)" for key needles owners
    using cs(1) that unfolding placed_def by blast
  have "i \<in> set (cs_always cs) \<or> listed (cs_compiled cs) (cs_patterns cs) i"
    using cs(1) assms(4) unfolding placed_def cs(2) by blast
  then show ?thesis
  proof
    assume "i \<in> set (cs_always cs)"
    then show ?thesis by (simp add: candidates_set cs(4))
  next
    assume "listed (cs_compiled cs) (cs_patterns cs) i"
    then have "(\<exists>key. i \<in> set (leftover ac (cs_patterns cs) key)) \<or>
      (\<exists>b nc hay. (b, hay) \<in> set (haystacks (mi_buffers input) scanned) \<and>
        i \<in> set (owner_candidates (automaton_of ac (cs_patterns cs) (b, nc)) hay))"
      by (rule listed_candidate [OF assms(1)]) (use found len in blast)+
    then consider key where "i \<in> set (leftover ac (cs_patterns cs) key)"
      | b nc hay where "(b, hay) \<in> set (haystacks (mi_buffers input) scanned)"
          "i \<in> set (owner_candidates (automaton_of ac (cs_patterns cs) (b, nc)) hay)"
      by blast
    then show ?thesis
    proof cases
      case 1
      then have "i \<in> set (rs_always rs)" using bexI [OF _ pattern_keys(2) [of key]] by (simp add: cs(4))
      then show ?thesis by (simp add: candidates_set)
    next
      case 2
      then show ?thesis by (force simp: candidates_set cs(3))
    qed
  qed
qed

lemma prefilter_exact_lemma:
  assumes "ac_faithful ac" and "compile rb ac rules vt limits = (rs, report)"
    and "\<And>b. b \<notin> set scanned \<Longrightarrow> buffers_get (mi_buffers input) b \<in> {None, Some []}"
  shows "filter (rule_matches rs input bits) (candidates_in rs (haystacks (mi_buffers input) scanned)) =
    filter (rule_matches rs input bits) [0..<length (rs_rules rs)]"
proof (rule sorted_distinct_set_unique)
  show "set (filter (rule_matches rs input bits) (candidates_in rs (haystacks (mi_buffers input) scanned))) =
      set (filter (rule_matches rs input bits) [0..<length (rs_rules rs)])"
    using matching_is_candidate [OF assms] candidates_are_rules [OF assms(2)] by auto
qed (simp_all add: candidates_sorted sorted_wrt_filter)

text \<open>The pre-filter changes nothing but the cost: when every buffer that is not scanned is absent or empty,
  as in both calls of the engine, the candidates that match are exactly the rules of the whole ruleset
  that match, in the same order, each once; and no candidate is out of range.\<close>

theorem prefilter_exact:
  assumes "ac_faithful ac" and "compile rb ac rules vt limits = (rs, report)"
    and "\<And>b. b \<notin> set scanned \<Longrightarrow> buffers_get (mi_buffers input) b \<in> {None, Some []}"
  shows "filter (rule_matches rs input bits) (candidates_in rs (haystacks (mi_buffers input) scanned)) =
    filter (rule_matches rs input bits) [0..<length (rs_rules rs)]"
  using assms by (rule prefilter_exact_lemma)

text \<open>A reference scanner, for concrete runs: every place of every pattern is tried.\<close>

definition naive_ac :: ac_builder where
  "naive_ac nc needles = Some (\<lambda>hay. filter (\<lambda>k. list_ex (occurs nc (needles ! k) hay) [0..<Suc (length hay)])
     [0..<length needles])"

lemma naive_ac_faithful: "ac_faithful naive_ac"
proof -
  have "(\<exists>p. occurs nc needle hay p) \<longleftrightarrow> (\<exists>p \<in> set [0..<Suc (length hay)]. occurs nc needle hay p)" for nc needle hay
    by (auto simp: occurs_def simp del: upt_Suc)
  then show ?thesis unfolding ac_faithful_def naive_ac_def list_ex_iff by (auto simp del: upt_Suc)
qed

definition sample_rule :: "rule_option list \<Rightarrow> rule" where
  "sample_rule opts = \<lparr>ru_header = \<lparr>rh_action = RAlert, rh_protocol = RTcp,
       rh_source = \<lparr>asp_negated = False, asp_value = AnyAddress\<rparr>,
       rh_source_port = \<lparr>psp_negated = False, psp_value = AnyPort\<rparr>, rh_direction = ToDestination,
       rh_destination = \<lparr>asp_negated = False, asp_value = AnyAddress\<rparr>,
       rh_destination_port = \<lparr>psp_negated = False, psp_value = AnyPort\<rparr>\<rparr>,
     ru_sid = 1, ru_rev = 1, ru_gid = None, ru_priority = None, ru_msg = ''sample'', ru_classtype = None,
     ru_metadata = [], ru_references = [], ru_options = opts, ru_threshold = None, ru_no_alert = False,
     ru_unsupported = [], ru_raw = [], ru_origin = None\<rparr>"

definition sample_ruleset :: compiled_ruleset where
  "sample_ruleset = fst (compile (\<lambda>_ _. Inl ''none'') naive_ac
     [sample_rule [Content (content_new [6, 7])], sample_rule [Content (content_new [8])]]
     \<lparr>vt_addresses = [], vt_ports = []\<rparr> \<lparr>regex_size_limit = 10, regex_dfa_size_limit = 10\<rparr>)"

theorem prefilter_exact_witness:
  "candidates_in sample_ruleset (haystacks (mi_buffers (payload_input [5, 6, 7])) [Payload]) = [0] \<and>
   filter (rule_matches sample_ruleset (payload_input [5, 6, 7]) {}) [0] =
   filter (rule_matches sample_ruleset (payload_input [5, 6, 7]) {}) [0..<length (rs_rules sample_ruleset)]"
proof -
  let ?scanned = "haystacks (mi_buffers (payload_input [5, 6, 7])) [Payload]"
  have c: "candidates_in sample_ruleset ?scanned = [0]" by code_simp
  have "buffers_get (mi_buffers (payload_input [5, 6, 7])) b \<in> {None, Some []}" if "b \<notin> set [Payload]" for b
    using that by (cases b) (simp_all add: payload_input_def default_buffers_def)
  from prefilter_exact [OF naive_ac_faithful prod.collapse [symmetric] this]
  have "filter (rule_matches sample_ruleset (payload_input [5, 6, 7]) {}) (candidates_in sample_ruleset ?scanned) =
      filter (rule_matches sample_ruleset (payload_input [5, 6, 7]) {}) [0..<length (rs_rules sample_ruleset)]"
    unfolding sample_ruleset_def by blast
  with c show ?thesis by simp
qed

section \<open>Nothing is lost in compiling\<close>

lemma compile_accounts:
  "length (cs_compiled cs) + rp_not_evaluable (cs_report cs) + length (rp_failed (cs_report cs)) = n \<Longrightarrow>
   (let cs' = compile_step rb vt limits cs r in
     length (cs_compiled cs') + rp_not_evaluable (cs_report cs') + length (rp_failed (cs_report cs')) = Suc n)"
  by (auto simp: compile_step_def add_rule_def Let_def split: sum.splits option.splits)

lemma compile_fold_accounts:
  "length (cs_compiled cs) + rp_not_evaluable (cs_report cs) + length (rp_failed (cs_report cs)) = n \<Longrightarrow>
   cs' = foldl (compile_step rb vt limits) cs rules \<Longrightarrow>
   length (cs_compiled cs') + rp_not_evaluable (cs_report cs') + length (rp_failed (cs_report cs')) = n + length rules"
proof (induction rules arbitrary: cs n)
  case (Cons r rules)
  then show ?case using compile_accounts [OF Cons.prems(1), of rb vt limits r] by (simp add: Let_def)
qed simp

text \<open>Every rule of the input is armed, counted as not evaluable or reported as failed, each exactly once:
  none disappears without a trace.\<close>

theorem compile_report_complete:
  assumes "compile rb ac rules vt limits = (rs, report)"
  shows "length (rs_rules rs) = rp_compiled report \<and>
    rp_compiled report + rp_not_evaluable report + length (rp_failed report) = length rules"
proof -
  define cs where "cs = foldl (compile_step rb vt limits) empty_compile rules"
  have r: "rs_rules rs = cs_compiled cs" "report = (cs_report cs)\<lparr>rp_compiled := length (cs_compiled cs)\<rparr>"
    using assms unfolding compile_def cs_def [symmetric] Let_def by (auto split: prod.splits)
  show ?thesis
    using compile_fold_accounts [of empty_compile 0 cs, OF _ cs_def]
    by (simp add: r empty_compile_def default_report_def)
qed

end
