(* ===== verification/HostRules.thy ===== *)
theory HostRules
  imports Compile
begin

text \<open>
  Host events and the rules on them (\<open>crates/engine/src/host.rs\<close>, the event bodies of
  \<open>crates/common/src/event.rs\<close>). A compiled regular expression is the function its \<open>is_match\<close>
  computes; the crate that builds it is a parameter, as in the theory of the packet rules.
\<close>

section \<open>Event bodies\<close>

datatype file_change = Created | Modified | AttributesChanged | Deleted | Renamed

fun file_change_as_str :: "file_change \<Rightarrow> string" where
  "file_change_as_str Created = ''created''"
| "file_change_as_str Modified = ''modified''"
| "file_change_as_str AttributesChanged = ''attributes_changed''"
| "file_change_as_str Deleted = ''deleted''"
| "file_change_as_str Renamed = ''renamed''"

datatype fim_detection = RealTime | BaselineRescan

record fim_event =
  fim_path :: string
  fim_change :: file_change
  fim_detected_by :: fim_detection
  fim_size :: "nat option"
  fim_sha256 :: "string option"
  fim_previous_sha256 :: "string option"
  fim_mode :: "nat option"
  fim_uid :: "nat option"
  fim_gid :: "nat option"

datatype auth_outcome = Success | Failure

fun auth_outcome_as_str :: "auth_outcome \<Rightarrow> string" where
  "auth_outcome_as_str Success = ''success''"
| "auth_outcome_as_str Failure = ''failure''"

record auth_event =
  au_outcome :: auth_outcome
  au_user :: "string option"
  au_service :: "string option"
  au_source_address :: "ip_addr option"
  au_source_port :: "nat option"
  au_message :: string
  au_log_source :: string
  au_suspicious :: "string list"

datatype process_change = Started | Exited | Listening

fun process_change_as_str :: "process_change \<Rightarrow> string" where
  "process_change_as_str Started = ''started''"
| "process_change_as_str Exited = ''exited''"
| "process_change_as_str Listening = ''listening''"

record process_event =
  pr_change :: process_change
  pr_pid :: nat
  pr_name :: string
  pr_executable :: "string option"
  pr_command_line :: "string option"
  pr_uid :: "nat option"
  pr_parent_pid :: "nat option"

section \<open>Observations\<close>

datatype host_observation = ObsFim fim_event | ObsAuth auth_event | ObsProcess process_event

fun obs_kind :: "host_observation \<Rightarrow> host_event_kind" where
  "obs_kind (ObsFim _) = HostFim"
| "obs_kind (ObsAuth _) = HostAuth"
| "obs_kind (ObsProcess _) = HostProcess"

fun obs_field :: "host_observation \<Rightarrow> host_field \<Rightarrow> string option" where
  "obs_field (ObsFim fim) FilePath = Some (fim_path fim)"
| "obs_field (ObsFim fim) FileChange = Some (file_change_as_str (fim_change fim))"
| "obs_field (ObsAuth auth) AuthOutcome = Some (auth_outcome_as_str (au_outcome auth))"
| "obs_field (ObsAuth auth) AuthUser = au_user auth"
| "obs_field (ObsAuth auth) AuthService = au_service auth"
| "obs_field (ObsAuth auth) AuthSource = map_option show_ip (au_source_address auth)"
| "obs_field (ObsProcess process) ProcessName = Some (pr_name process)"
| "obs_field (ObsProcess process) ProcessChange = Some (process_change_as_str (pr_change process))"
| "obs_field (ObsProcess process) ProcessCommandLine = pr_command_line process"
| "obs_field _ _ = None"

fun obs_subject :: "host_observation \<Rightarrow> string" where
  "obs_subject (ObsFim fim) = fim_path fim"
| "obs_subject (ObsAuth auth) = (case au_source_address auth of
     Some address \<Rightarrow> show_ip address | None \<Rightarrow> unwrap_or (au_user auth) [])"
| "obs_subject (ObsProcess process) = pr_name process"

fun obs_summary :: "host_observation \<Rightarrow> string" where
  "obs_summary (ObsFim fim) = file_change_as_str (fim_change fim) @ '' '' @ fim_path fim"
| "obs_summary (ObsAuth auth) = auth_outcome_as_str (au_outcome auth) @ '' for '' @
     unwrap_or (au_user auth) ''(unknown user)''"
| "obs_summary (ObsProcess process) = process_change_as_str (pr_change process) @ '' '' @ pr_name process @
     '' (pid '' @ show_nat (pr_pid process) @ '')''"

section \<open>Matching a field\<close>

fun str_contains :: "string \<Rightarrow> string \<Rightarrow> bool" where
  "str_contains [] p = (p = [])"
| "str_contains (c # cs) p = (starts_with (c # cs) p \<or> str_contains cs p)"

datatype compiled_matcher = CMAnyOf "string list" host_match_kind bool | CMRegex "string \<Rightarrow> bool"

fun value_matches :: "host_match_kind \<Rightarrow> string \<Rightarrow> string \<Rightarrow> bool" where
  "value_matches Exact v candidate = (v = candidate)"
| "value_matches Prefix v candidate = starts_with v candidate"
| "value_matches Contains v candidate = str_contains v candidate"

fun matcher_matches :: "compiled_matcher \<Rightarrow> string \<Rightarrow> bool" where
  "matcher_matches (CMAnyOf candidates kind nocase) v = list_ex (\<lambda>candidate.
     if nocase then value_matches kind (map char_lower v) (map char_lower candidate)
     else value_matches kind v candidate) candidates"
| "matcher_matches (CMRegex is_match) v = is_match v"

section \<open>Compiled host rules\<close>

datatype compiled_condition = CCField host_field bool compiled_matcher | CCBitIsSet string | CCBitIsNotSet string
  | CCBitEffect flow_bits_op

record compiled_host_rule =
  hr_sid :: nat
  hr_rev :: nat
  hr_msg :: string
  hr_classtype :: "string option"
  hr_severity :: nat
  hr_metadata :: "string \<rightharpoonup> string list"
  hr_kind :: host_event_kind
  hr_threshold :: "threshold option"
  hr_no_alert :: bool
  hr_origin :: string
  hr_conditions :: "compiled_condition list"

record host_ruleset =
  hs_rules :: "compiled_host_rule list"
  hs_by_kind :: "host_event_kind \<rightharpoonup> nat list"

type_synonym host_regex_builder = "string \<Rightarrow> compile_limits \<Rightarrow> string + (string \<Rightarrow> bool)"

fun compile_matcher :: "host_regex_builder \<Rightarrow> compile_limits \<Rightarrow> host_matcher \<Rightarrow> compile_error + compiled_matcher" where
  "compile_matcher hb limits (AnyOf candidates kind nocase) = Inr (CMAnyOf candidates kind nocase)"
| "compile_matcher hb limits (HostRegex source) = (case hb source limits of
       Inl reason \<Rightarrow> Inl (RegexError source reason)
     | Inr is_match \<Rightarrow> Inr (CMRegex is_match))"

fun compile_condition :: "host_regex_builder \<Rightarrow> compile_limits \<Rightarrow> rule_option \<Rightarrow> compile_error + compiled_condition" where
  "compile_condition hb limits (OnHost h) = (case compile_matcher hb limits (hf_matcher h) of
       Inl e \<Rightarrow> Inl e
     | Inr m \<Rightarrow> Inr (CCField (hf_field h) (hf_negated h) m))"
| "compile_condition hb limits (FlowBits (BitIsSet name)) = Inr (CCBitIsSet name)"
| "compile_condition hb limits (FlowBits (BitIsNotSet name)) = Inr (CCBitIsNotSet name)"
| "compile_condition hb limits (FlowBits op) = Inr (CCBitEffect op)"
| "compile_condition hb limits other = Inl (NotHandled other)"

fun host_kind_as_str :: "host_event_kind \<Rightarrow> string" where
  "host_kind_as_str HostFim = ''fim''"
| "host_kind_as_str HostAuth = ''auth''"
| "host_kind_as_str HostProcess = ''process''"

definition compile_host_rule :: "host_regex_builder \<Rightarrow> rule \<Rightarrow> compile_limits \<Rightarrow> compile_error + compiled_host_rule" where
  "compile_host_rule hb r limits = (case rule_host_event_kind r of
       Inr None \<Rightarrow> Inl (NotEvaluable ''no host field conditions'')
     | Inl (first, second) \<Rightarrow> Inl (NotEvaluable (''mixes '' @ host_kind_as_str first @ '' and '' @
         host_kind_as_str second @ '' fields, so it could never match one event''))
     | Inr (Some kind) \<Rightarrow> (case compile_each (compile_condition hb limits) (ru_options r) of
           Inl e \<Rightarrow> Inl e
         | Inr conditions \<Rightarrow> Inr \<lparr>hr_sid = ru_sid r, hr_rev = ru_rev r, hr_msg = ru_msg r,
             hr_classtype = ru_classtype r, hr_severity = severity r, hr_metadata = group_metadata (ru_metadata r),
             hr_kind = kind, hr_threshold = ru_threshold r, hr_no_alert = ru_no_alert r, hr_origin = location r,
             hr_conditions = conditions\<rparr>))"

record host_compile_state =
  hc_report :: compile_report
  hc_compiled :: "compiled_host_rule list"
  hc_by_kind :: "host_event_kind \<rightharpoonup> nat list"

definition host_compile_step :: "host_regex_builder \<Rightarrow> compile_limits \<Rightarrow> host_compile_state \<Rightarrow> rule \<Rightarrow> host_compile_state" where
  "host_compile_step hb limits cs r =
     (if \<not> is_evaluable r
      then cs\<lparr>hc_report := (hc_report cs)\<lparr>rp_not_evaluable := rp_not_evaluable (hc_report cs) + 1\<rparr>\<rparr>
      else case compile_host_rule hb r limits of
          Inr entry \<Rightarrow> cs\<lparr>hc_by_kind := (hc_by_kind cs)(hr_kind entry \<mapsto>
              unwrap_or (hc_by_kind cs (hr_kind entry)) [] @ [length (hc_compiled cs)]),
            hc_compiled := hc_compiled cs @ [entry]\<rparr>
        | Inl e \<Rightarrow> cs\<lparr>hc_report := (hc_report cs)\<lparr>rp_failed := rp_failed (hc_report cs) @
            [\<lparr>cf_sid = ru_sid r, cf_origin = location r, cf_reason = e\<rparr>]\<rparr>\<rparr>)"

definition empty_host_compile :: host_compile_state where
  "empty_host_compile = \<lparr>hc_report = default_report, hc_compiled = [], hc_by_kind = Map.empty\<rparr>"

definition compile_hosts :: "host_regex_builder \<Rightarrow> rule list \<Rightarrow> compile_limits \<Rightarrow> host_ruleset \<times> compile_report" where
  "compile_hosts hb rules limits = (let cs = foldl (host_compile_step hb limits) empty_host_compile rules
     in (\<lparr>hs_rules = hc_compiled cs, hs_by_kind = hc_by_kind cs\<rparr>,
         (hc_report cs)\<lparr>rp_compiled := length (hc_compiled cs)\<rparr>))"

definition host_candidates :: "host_ruleset \<Rightarrow> host_event_kind \<Rightarrow> nat list" where
  "host_candidates hs kind = unwrap_or (hs_by_kind hs kind) []"

definition host_rule_at :: "host_ruleset \<Rightarrow> nat \<Rightarrow> compiled_host_rule option" where
  "host_rule_at hs index = (if index < length (hs_rules hs) then Some (hs_rules hs ! index) else None)"

section \<open>Evaluation\<close>

fun eval_conditions :: "host_observation \<Rightarrow> flow_bits \<Rightarrow> compiled_condition list \<Rightarrow> flow_bits_op list \<Rightarrow>
    flow_bits_op list option" where
  "eval_conditions obs bits [] effects = Some effects"
| "eval_conditions obs bits (CCField f negated m # cs) effects = (case obs_field obs f of
       None \<Rightarrow> None
     | Some v \<Rightarrow> if matcher_matches m v = negated then None else eval_conditions obs bits cs effects)"
| "eval_conditions obs bits (CCBitIsSet name # cs) effects =
     (if bit_is_set bits name then eval_conditions obs bits cs effects else None)"
| "eval_conditions obs bits (CCBitIsNotSet name # cs) effects =
     (if bit_is_set bits name then None else eval_conditions obs bits cs effects)"
| "eval_conditions obs bits (CCBitEffect op # cs) effects = eval_conditions obs bits cs (effects @ [op])"

definition evaluate_host :: "compiled_host_rule \<Rightarrow> host_observation \<Rightarrow> flow_bits \<Rightarrow> flow_bits_op list option" where
  "evaluate_host r obs bits = (if hr_kind r \<noteq> obs_kind obs then None else eval_conditions obs bits (hr_conditions r) [])"

section \<open>Properties\<close>

text \<open>A condition on its own, and what it leaves to be done.\<close>

fun condition_holds :: "host_observation \<Rightarrow> flow_bits \<Rightarrow> compiled_condition \<Rightarrow> bool" where
  "condition_holds obs bits (CCField f negated m) = (\<exists>v. obs_field obs f = Some v \<and> matcher_matches m v \<noteq> negated)"
| "condition_holds obs bits (CCBitIsSet name) = bit_is_set bits name"
| "condition_holds obs bits (CCBitIsNotSet name) = (\<not> bit_is_set bits name)"
| "condition_holds obs bits (CCBitEffect op) = True"

fun condition_effects :: "compiled_condition \<Rightarrow> flow_bits_op list" where
  "condition_effects (CCBitEffect op) = [op]"
| "condition_effects _ = []"

lemma eval_conditions_iff:
  "eval_conditions obs bits cs effects = Some effects' \<longleftrightarrow>
     list_all (condition_holds obs bits) cs \<and> effects' = effects @ concat (map condition_effects cs)"
proof (induction cs arbitrary: effects)
  case (Cons c cs)
  then show ?case by (cases c) (auto split: option.splits)
qed auto

text \<open>A host rule matches exactly when the record is of its kind and every condition holds on its own, whatever
  their order: a condition on a field the record does not carry never holds, negated or not. What is left
  to be done is its flowbits operations in the order written.\<close>

theorem host_rule_meaning:
  "evaluate_host r obs bits = Some effects \<longleftrightarrow> hr_kind r = obs_kind obs \<and>
     list_all (condition_holds obs bits) (hr_conditions r) \<and> effects = concat (map condition_effects (hr_conditions r))"
  by (auto simp: evaluate_host_def eval_conditions_iff)

text \<open>The index by kind lists the rules of that kind, in order.\<close>

definition kinds_indexed :: "host_compile_state \<Rightarrow> bool" where
  "kinds_indexed cs \<longleftrightarrow> (\<forall>k. unwrap_or (hc_by_kind cs k) [] =
     filter (\<lambda>i. hr_kind (hc_compiled cs ! i) = k) [0..<length (hc_compiled cs)])"

lemma host_compile_step_indexed:
  assumes "kinds_indexed cs"
  shows "kinds_indexed (host_compile_step hb limits cs r)"
proof -
  let ?n = "length (hc_compiled cs)"
  have grow: "filter (\<lambda>i. hr_kind ((hc_compiled cs @ [entry]) ! i) = k) [0..<?n] =
      filter (\<lambda>i. hr_kind (hc_compiled cs ! i) = k) [0..<?n]" for entry k
    by (rule filter_cong) (auto simp: nth_append)
  show ?thesis
  proof (cases "is_evaluable r \<and> (\<exists>entry. compile_host_rule hb r limits = Inr entry)")
    case True
    then obtain entry where e: "compile_host_rule hb r limits = Inr entry" by blast
    show ?thesis using assms True e grow [of entry]
      by (simp add: kinds_indexed_def host_compile_step_def)
  next
    case False
    with assms show ?thesis by (auto simp: kinds_indexed_def host_compile_step_def split: sum.splits)
  qed
qed

interpretation host_compiling: invariant_machine "\<lambda>cs. cs = empty_host_compile" "host_compile_step hb limits" kinds_indexed
  for hb limits
  by unfold_locales (simp add: kinds_indexed_def empty_host_compile_def, rule host_compile_step_indexed)

lemma host_candidates_kind:
  assumes "compile_hosts hb rules limits = (hs, report)"
  shows "host_candidates hs k = filter (\<lambda>i. hr_kind (hs_rules hs ! i) = k) [0..<length (hs_rules hs)]"
proof -
  have "kinds_indexed (foldl (host_compile_step hb limits) empty_host_compile rules)"
    by (rule host_compiling.inv_reachable) simp
  with assms show ?thesis by (auto simp: compile_hosts_def Let_def host_candidates_def kinds_indexed_def)
qed

text \<open>Selecting by kind loses nothing: the candidates of a record's kind that match it are exactly the rules of
  the whole set that match it, in the same order.\<close>

theorem host_candidates_exact:
  assumes "compile_hosts hb rules limits = (hs, report)"
  shows "filter (\<lambda>i. evaluate_host (hs_rules hs ! i) obs bits \<noteq> None) (host_candidates hs (obs_kind obs)) =
    filter (\<lambda>i. evaluate_host (hs_rules hs ! i) obs bits \<noteq> None) [0..<length (hs_rules hs)]"
  unfolding host_candidates_kind [OF assms] filter_filter
  by (rule filter_cong) (auto simp: evaluate_host_def split: if_splits)

lemma compile_condition_kind:
  "compile_condition hb limits opt = Inr c \<Longrightarrow> (\<exists>h. opt = OnHost h) \<or> (\<exists>op. opt = FlowBits op)"
  by (cases opt) auto

text \<open>A host rule is armed only when all of its conditions are of one kind and all can be evaluated: a rule that
  mixes kinds, or carries a condition on packets, is refused, never armed without the condition.\<close>

theorem host_rule_armed:
  assumes "compile_host_rule hb r limits = Inr entry"
  shows "length (hr_conditions entry) = length (ru_options r) \<and>
    list_all (\<lambda>opt. (\<exists>op. opt = FlowBits op) \<or> (\<exists>h. opt = OnHost h \<and> field_event_kind (hf_field h) = hr_kind entry))
      (ru_options r)"
proof -
  have k: "rule_host_event_kind r = Inr (Some (hr_kind entry))"
    and cs: "list_all2 (\<lambda>x y. compile_condition hb limits x = Inr y) (ru_options r) (hr_conditions entry)"
    using assms by (auto simp: compile_host_rule_def compile_each_Inr split: sum.splits option.splits)
  have "(\<exists>op. opt = FlowBits op) \<or> (\<exists>h. opt = OnHost h \<and> field_event_kind (hf_field h) = hr_kind entry)"
    if opt: "opt \<in> set (ru_options r)" for opt
  proof -
    obtain c where "compile_condition hb limits opt = Inr c"
      using cs opt unfolding list_all2_conv_all_nth in_set_conv_nth by metis
    then have "(\<exists>h. opt = OnHost h) \<or> (\<exists>op. opt = FlowBits op)" by (rule compile_condition_kind)
    moreover have "option_host_kind opt \<in> {None, Some (hr_kind entry)}"
      using k opt by (auto simp: rule_host_kind)
    ultimately show ?thesis by auto
  qed
  with cs show ?thesis by (auto simp: list_all_iff list_all2_lengthD)
qed

definition auth_rule :: rule where
  "auth_rule = sample_rule [OnHost \<lparr>hf_field = AuthOutcome, hf_matcher = AnyOf [''failure''] Exact False, hf_negated = False\<rparr>,
     FlowBits (BitSet ''seen'')]"

definition failed_logon :: host_observation where
  "failed_logon = ObsAuth \<lparr>au_outcome = Failure, au_user = Some ''root'', au_service = Some ''sshd'',
     au_source_address = None, au_source_port = None, au_message = [], au_log_source = ''journald'', au_suspicious = []\<rparr>"

abbreviation sample_limits :: compile_limits where
  "sample_limits \<equiv> \<lparr>regex_size_limit = 10, regex_dfa_size_limit = 10\<rparr>"

theorem host_candidates_exact_witness:
  "let hs = fst (compile_hosts (\<lambda>_ _. Inl ''none'') [auth_rule] sample_limits);
       matches = (\<lambda>i. evaluate_host (hs_rules hs ! i) failed_logon {} \<noteq> None)
   in host_candidates hs (obs_kind failed_logon) = [0] \<and> filter matches [0..<length (hs_rules hs)] = [0]"
proof -
  let ?hs = "fst (compile_hosts (\<lambda>_ _. Inl ''none'') [auth_rule] sample_limits)"
  have "host_candidates ?hs (obs_kind failed_logon) = [0]" by code_simp
  moreover have "filter (\<lambda>i. evaluate_host (hs_rules ?hs ! i) failed_logon {} \<noteq> None) [0] = [0]" by code_simp
  moreover note host_candidates_exact [OF prod.collapse [symmetric], of "\<lambda>_ _. Inl ''none''" "[auth_rule]" sample_limits
      failed_logon "{}"]
  ultimately show ?thesis by (simp add: Let_def)
qed

theorem host_rule_armed_witness:
  "\<exists>entry. compile_host_rule (\<lambda>_ _. Inl ''none'') auth_rule sample_limits = Inr entry \<and> length (hr_conditions entry) = 2"
proof -
  have "\<exists>entry. compile_host_rule (\<lambda>_ _. Inl ''none'') auth_rule sample_limits = Inr entry"
    by (simp add: compile_host_rule_def auth_rule_def sample_rule_def rule_host_event_kind_def List.map_filter_simps)
  then obtain entry where e: "compile_host_rule (\<lambda>_ _. Inl ''none'') auth_rule sample_limits = Inr entry" by blast
  with host_rule_armed [OF e] show ?thesis by (simp add: auth_rule_def sample_rule_def)
qed

end
