(* ===== verification/Engine.thy ===== *)
theory Engine
  imports HostRules
begin

text \<open>
  The detection engine (\<open>crates/engine/src/engine.rs\<close>): per-flow state, thresholds, alerts. The counters
  are naturals, the threshold counts keep the 32-bit bound at which the source panics, a division by
  zero is a panic too; the outer \<open>None\<close> is a panic.
\<close>

section \<open>State\<close>

record engine_limits =
  el_compile :: compile_limits
  el_max_flow_states :: nat
  el_max_flowbits :: nat
  el_window :: nat
  el_max_thresholds :: nat
  el_normalize :: normalize_options
  el_max_http_head :: nat

definition default_engine_limits :: engine_limits where
  "default_engine_limits = \<lparr>el_compile = default_compile_limits, el_max_flow_states = 65536, el_max_flowbits = 64,
     el_window = 65536, el_max_thresholds = 65536, el_normalize = default_normalize_options,
     el_max_http_head = default_max_head\<rparr>"

record alert_record =
  ar_sid :: nat
  ar_rev :: nat
  ar_signature :: string
  ar_classtype :: "string option"
  ar_severity :: nat
  ar_metadata :: "string \<rightharpoonup> string list"
  ar_blocks :: bool

record engine_counters =
  ec_inspections :: nat
  ec_bytes_inspected :: nat
  ec_candidates :: nat
  ec_matches :: nat
  ec_alerts :: nat
  ec_thresholded :: nat
  ec_silent :: nat
  ec_flow_states :: nat
  ec_flow_states_evicted :: nat
  ec_inspection_bytes_dropped :: nat

definition zero_counters :: engine_counters where
  "zero_counters = \<lparr>ec_inspections = 0, ec_bytes_inspected = 0, ec_candidates = 0, ec_matches = 0, ec_alerts = 0,
     ec_thresholded = 0, ec_silent = 0, ec_flow_states = 0, ec_flow_states_evicted = 0,
     ec_inspection_bytes_dropped = 0\<rparr>"

record inspection_buffer =
  ib_data :: bytes
  ib_scanned :: nat

definition empty_inspection :: inspection_buffer where
  "empty_inspection = \<lparr>ib_data = [], ib_scanned = 0\<rparr>"

text \<open>The new buffer, where the region to scan starts, and how many bytes left the window.\<close>

definition append_bytes :: "inspection_buffer \<Rightarrow> bytes \<Rightarrow> nat \<Rightarrow> nat \<Rightarrow> inspection_buffer \<times> nat \<times> nat" where
  "append_bytes ib bs overlap window =
     (let data = ib_data ib @ bs;
          excess = length data - window;
          (data, scanned, dropped) =
            (if window < length data then (drop excess data, ib_scanned ib - excess, excess)
             else (data, ib_scanned ib, 0));
          start = scanned - overlap
      in (\<lparr>ib_data = data, ib_scanned = length data\<rparr>, start, dropped))"

record flow_state =
  fs_bits :: flow_bits
  fs_to_server :: inspection_buffer
  fs_to_client :: inspection_buffer
  fs_last_seen :: system_time
  fs_http :: "http_parser option"

definition default_flow_state :: flow_state where
  "default_flow_state = \<lparr>fs_bits = {}, fs_to_server = empty_inspection, fs_to_client = empty_inspection,
     fs_last_seen = 0, fs_http = None\<rparr>"

record threshold_entry =
  te_count :: nat
  te_window_start :: system_time

record engine =
  en_ruleset :: compiled_ruleset
  en_limits :: engine_limits
  en_states :: "(nat, flow_state) hashmap"
  en_thresholds :: "(nat \<times> string, threshold_entry) hashmap"
  en_counters :: engine_counters
  en_longest_pattern :: nat
  en_host_rules :: host_ruleset
  en_host_bits :: flow_bits

definition longest_pattern :: "compiled_rule list \<Rightarrow> nat" where
  "longest_pattern rules = foldl max 0 (List.map_filter (\<lambda>opt. case opt of
     COContent c \<Rightarrow> Some (length (cm_pattern c)) | _ \<Rightarrow> None) (concat (map cr_options rules)))"

definition engine_new :: "regex_builder \<Rightarrow> host_regex_builder \<Rightarrow> ac_builder \<Rightarrow> rule list \<Rightarrow> var_table \<Rightarrow> engine_limits \<Rightarrow>
    engine \<times> compile_report" where
  "engine_new rb hb ac rules vt limits =
     (let (host_input, network_rules) = partition is_host_rule_by_options rules;
          (ruleset, report) = compile rb ac network_rules vt (el_compile limits);
          (host_rules, host_report) = compile_hosts hb host_input (el_compile limits)
      in (\<lparr>en_ruleset = ruleset, en_limits = limits, en_states = [], en_thresholds = [], en_counters = zero_counters,
            en_longest_pattern = longest_pattern (rs_rules ruleset), en_host_rules = host_rules, en_host_bits = {}\<rparr>,
          merge_reports report host_report))"

abbreviation upd_ec :: "(engine_counters \<Rightarrow> engine_counters) \<Rightarrow> engine \<Rightarrow> engine" where
  "upd_ec f e \<equiv> e\<lparr>en_counters := f (en_counters e)\<rparr>"

definition engine_counters_now :: "engine \<Rightarrow> engine_counters" where
  "engine_counters_now e = (en_counters e)\<lparr>ec_flow_states := length (en_states e)\<rparr>"

definition engine_needs_http :: "engine \<Rightarrow> bool" where
  "engine_needs_http e = ruleset_needs_http (en_ruleset e)"

section \<open>Thresholds\<close>

definition threshold_verdict :: "threshold \<Rightarrow> nat \<Rightarrow> bool option" where
  "threshold_verdict t count = (case th_kind t of
       Threshold \<Rightarrow> if th_count t = 0 then None else Some (count mod th_count t = 0)
     | Limit \<Rightarrow> Some (count \<le> th_count t)
     | Both \<Rightarrow> Some (count = th_count t))"

definition count_against_threshold :: "engine \<Rightarrow> nat \<Rightarrow> threshold \<Rightarrow> string \<Rightarrow> system_time \<Rightarrow> (engine \<times> bool) option" where
  "count_against_threshold e sid t key now =
     (if el_max_thresholds (en_limits e) \<le> length (en_thresholds e) \<and> \<not> hm_contains (en_thresholds e) (sid, key)
      then Some (e, True)
      else
        let window = secs (th_seconds t);
            entry = unwrap_or (hm_get (en_thresholds e) (sid, key)) \<lparr>te_count = 0, te_window_start = now\<rparr>;
            entry = (if window \<le> unwrap_or (duration_since now (te_window_start entry)) 0
                     then \<lparr>te_count = 0, te_window_start = now\<rparr> else entry);
            entry = entry\<lparr>te_count := te_count entry + 1\<rparr>
        in if 2 ^ 32 \<le> te_count entry then None
           else do {
             verdict \<leftarrow> threshold_verdict t (te_count entry);
             Some (e\<lparr>en_thresholds := hm_insert (sid, key) entry (en_thresholds e)\<rparr>, verdict) })"

definition threshold_allows :: "engine \<Rightarrow> nat \<Rightarrow> threshold option \<Rightarrow> net_tuple \<Rightarrow> system_time \<Rightarrow> (engine \<times> bool) option" where
  "threshold_allows e sid t tuple now = (case t of None \<Rightarrow> Some (e, True)
     | Some t \<Rightarrow> count_against_threshold e sid t
         (case th_track t of BySource \<Rightarrow> show_ip (src_ip tuple) | ByDestination \<Rightarrow> show_ip (dest_ip tuple) | ByRule \<Rightarrow> []) now)"

definition host_threshold_allows :: "engine \<Rightarrow> nat \<Rightarrow> threshold option \<Rightarrow> string \<Rightarrow> system_time \<Rightarrow> (engine \<times> bool) option" where
  "host_threshold_allows e sid t subject now = (case t of None \<Rightarrow> Some (e, True)
     | Some t \<Rightarrow> count_against_threshold e sid t
         (case th_track t of BySource \<Rightarrow> subject | _ \<Rightarrow> []) now)"

section \<open>Eviction\<close>

fun evict_states :: "nat list \<Rightarrow> engine \<Rightarrow> engine" where
  "evict_states [] e = e"
| "evict_states (i # ids) e = evict_states ids
     (if hm_contains (en_states e) i
      then upd_ec (\<lambda>c. c\<lparr>ec_flow_states_evicted := ec_flow_states_evicted c + 1\<rparr>)
        (e\<lparr>en_states := hm_remove i (en_states e)\<rparr>)
      else e)"

definition engine_make_room :: "engine \<Rightarrow> engine" where
  "engine_make_room e =
     (if length (en_states e) < el_max_flow_states (en_limits e) then e
      else let batch = max (el_max_flow_states (en_limits e) div 10) 1;
               by_age = sort_key fst (map (\<lambda>(i, st). (fs_last_seen st, i)) (en_states e))
           in evict_states (map snd (take batch by_age)) e)"

definition on_flow_end :: "engine \<Rightarrow> nat \<Rightarrow> engine" where
  "on_flow_end e flow_id = e\<lparr>en_states := hm_remove flow_id (en_states e)\<rparr>"

section \<open>Inspection\<close>

text \<open>What both paths do with a rule that has matched: count it, then keep silent, hold back or alert.\<close>

definition settle_match :: "(engine \<Rightarrow> (engine \<times> bool) option) \<Rightarrow> bool \<Rightarrow> alert_record \<Rightarrow> engine \<Rightarrow>
    (engine \<times> alert_record list) option" where
  "settle_match allows no_alert alert e =
     (let e = upd_ec (\<lambda>c. c\<lparr>ec_matches := ec_matches c + 1\<rparr>) e in
      if no_alert then Some (upd_ec (\<lambda>c. c\<lparr>ec_silent := ec_silent c + 1\<rparr>) e, [])
      else do {
        (e, allowed) \<leftarrow> allows e;
        Some (if allowed then (upd_ec (\<lambda>c. c\<lparr>ec_alerts := ec_alerts c + 1\<rparr>) e, [alert])
              else (upd_ec (\<lambda>c. c\<lparr>ec_thresholded := ec_thresholded c + 1\<rparr>) e, [])) })"

definition packet_alert :: "compiled_rule \<Rightarrow> alert_record" where
  "packet_alert r = \<lparr>ar_sid = cr_sid r, ar_rev = cr_rev r, ar_signature = cr_msg r, ar_classtype = cr_classtype r,
     ar_severity = cr_severity r, ar_metadata = cr_metadata r, ar_blocks = cr_blocks r\<rparr>"

fun inspect_candidates :: "match_input \<Rightarrow> flow_bits \<Rightarrow> system_time \<Rightarrow> nat list \<Rightarrow> engine \<Rightarrow>
    (engine \<times> flow_bits_op list \<times> alert_record list) option" where
  "inspect_candidates input bits now [] e = Some (e, [], [])"
| "inspect_candidates input bits now (i # is) e = (case rule_at (en_ruleset e) i of
       None \<Rightarrow> inspect_candidates input bits now is e
     | Some r \<Rightarrow> (case evaluate r input bits of
           None \<Rightarrow> None
         | Some None \<Rightarrow> inspect_candidates input bits now is e
         | Some (Some effects) \<Rightarrow> do {
             (e, alerts) \<leftarrow> settle_match (\<lambda>e. threshold_allows e (cr_sid r) (cr_threshold r) (mi_tuple input) now)
               (cr_no_alert r) (packet_alert r) e;
             (e, pending, alerts') \<leftarrow> inspect_candidates input bits now is e;
             Some (e, effects @ pending, alerts @ alerts') }))"

definition apply_pending :: "nat \<Rightarrow> flow_bits_op list \<Rightarrow> system_time \<Rightarrow> engine \<Rightarrow> engine" where
  "apply_pending flow_id pending now e =
     (if pending = [] then e
      else let e = engine_make_room e;
               st = unwrap_or (hm_get (en_states e) flow_id) default_flow_state;
               st = st\<lparr>fs_last_seen := now,
                 fs_bits := foldl (bits_apply (el_max_flowbits (en_limits e))) (fs_bits st) pending\<rparr>
           in e\<lparr>en_states := hm_insert flow_id st (en_states e)\<rparr>)"

definition flow_bits_of :: "engine \<Rightarrow> nat \<Rightarrow> flow_bits" where
  "flow_bits_of e flow_id = (case hm_get (en_states e) flow_id of None \<Rightarrow> {} | Some st \<Rightarrow> fs_bits st)"

definition inspect_buffers :: "engine \<Rightarrow> nat \<Rightarrow> match_input \<Rightarrow> buffer list \<Rightarrow> system_time \<Rightarrow>
    (engine \<times> alert_record list) option" where
  "inspect_buffers e flow_id input prefilter_buffers now =
     (let hs = haystacks (mi_buffers input) prefilter_buffers;
          cands = candidates_in (en_ruleset e) hs;
          e = upd_ec (\<lambda>c. c\<lparr>ec_inspections := ec_inspections c + 1,
            ec_bytes_inspected := ec_bytes_inspected c + sum_list (map (length \<circ> snd) hs),
            ec_candidates := ec_candidates c + length cands\<rparr>) e
      in if cands = [] then Some (e, [])
         else do {
           (e, pending, alerts) \<leftarrow> inspect_candidates input (flow_bits_of e flow_id) now cands e;
           Some (apply_pending flow_id pending now e, alerts) })"

definition inspect_packet :: "engine \<Rightarrow> nat \<Rightarrow> net_tuple \<Rightarrow> bool \<Rightarrow> bytes \<Rightarrow> system_time \<Rightarrow>
    (engine \<times> alert_record list) option" where
  "inspect_packet e flow_id tuple to_server payload now =
     inspect_buffers e flow_id \<lparr>mi_tuple = tuple, mi_established = False, mi_to_server = to_server,
       mi_buffers = default_buffers\<lparr>bf_payload := payload\<rparr>\<rparr> [Payload] now"

definition http_input :: "net_tuple \<Rightarrow> http_request \<Rightarrow> match_input" where
  "http_input tuple request = \<lparr>mi_tuple = tuple, mi_established = True, mi_to_server = True,
     mi_buffers = \<lparr>bf_payload = [], bf_http_uri = Some (rq_uri request), bf_http_header = Some (rq_headers request),
       bf_http_user_agent = rq_user_agent request, bf_http_method = Some (rq_method request),
       bf_http_host = rq_host request, bf_normalization = rq_normalization request\<rparr>\<rparr>"

definition http_buffers :: "buffer list" where
  "http_buffers = [HttpUri, HttpHeader, HttpUserAgent, HttpMethod, HttpHost]"

fun inspect_requests :: "engine \<Rightarrow> nat \<Rightarrow> net_tuple \<Rightarrow> http_request list \<Rightarrow> system_time \<Rightarrow>
    (engine \<times> alert_record list) option" where
  "inspect_requests e flow_id tuple [] now = Some (e, [])"
| "inspect_requests e flow_id tuple (request # requests) now = do {
     (e, alerts) \<leftarrow> inspect_buffers e flow_id (http_input tuple request) http_buffers now;
     (e, alerts') \<leftarrow> inspect_requests e flow_id tuple requests now;
     Some (e, alerts @ alerts') }"

definition inspect_http :: "engine \<Rightarrow> nat \<Rightarrow> net_tuple \<Rightarrow> bytes \<Rightarrow> system_time \<Rightarrow> (engine \<times> alert_record list) option" where
  "inspect_http e flow_id tuple delivered now = (case hm_get (en_states e) flow_id of
       None \<Rightarrow> Some (e, [])
     | Some st \<Rightarrow>
         (let parser = unwrap_or (fs_http st) (http_parser_new (el_max_http_head (en_limits e)));
              (parser, requests) = http_push parser delivered (el_normalize (en_limits e))
          in inspect_requests (e\<lparr>en_states := hm_insert flow_id (st\<lparr>fs_http := Some parser\<rparr>) (en_states e)\<rparr>)
               flow_id tuple requests now))"

definition extend_window :: "engine \<Rightarrow> nat \<Rightarrow> bool \<Rightarrow> bytes \<Rightarrow> system_time \<Rightarrow> (engine \<times> bytes) option" where
  "extend_window e flow_id to_server delivered now =
     (let e = engine_make_room e;
          st = (unwrap_or (hm_get (en_states e) flow_id) default_flow_state)\<lparr>fs_last_seen := now\<rparr>;
          (ib, start, dropped) = append_bytes (if to_server then fs_to_server st else fs_to_client st) delivered
            (en_longest_pattern e - 1) (el_window (en_limits e));
          st = (if to_server then st\<lparr>fs_to_server := ib\<rparr> else st\<lparr>fs_to_client := ib\<rparr>)
      in do {
        region \<leftarrow> slice (ib_data ib) start (length (ib_data ib));
        Some (upd_ec (\<lambda>c. c\<lparr>ec_inspection_bytes_dropped := ec_inspection_bytes_dropped c + dropped\<rparr>)
          (e\<lparr>en_states := hm_insert flow_id st (en_states e)\<rparr>), region) })"

definition inspect_stream :: "engine \<Rightarrow> nat \<Rightarrow> net_tuple \<Rightarrow> bool \<Rightarrow> bytes \<Rightarrow> system_time \<Rightarrow>
    (engine \<times> alert_record list) option" where
  "inspect_stream e flow_id tuple to_server delivered now =
     (if delivered = [] then Some (e, [])
      else do {
        (e, region) \<leftarrow> extend_window e flow_id to_server delivered now;
        (e, alerts) \<leftarrow> inspect_buffers e flow_id \<lparr>mi_tuple = tuple, mi_established = True, mi_to_server = to_server,
          mi_buffers = default_buffers\<lparr>bf_payload := region\<rparr>\<rparr> [Payload] now;
        if to_server \<and> engine_needs_http e
        then do {
          (e, alerts') \<leftarrow> inspect_http e flow_id tuple delivered now;
          Some (e, alerts @ alerts') }
        else Some (e, alerts) })"

section \<open>Host records\<close>

definition host_alert :: "compiled_host_rule \<Rightarrow> alert_record" where
  "host_alert r = \<lparr>ar_sid = hr_sid r, ar_rev = hr_rev r, ar_signature = hr_msg r, ar_classtype = hr_classtype r,
     ar_severity = hr_severity r, ar_metadata = hr_metadata r, ar_blocks = False\<rparr>"

fun inspect_host_candidates :: "host_observation \<Rightarrow> flow_bits \<Rightarrow> system_time \<Rightarrow> nat list \<Rightarrow> engine \<Rightarrow>
    (engine \<times> flow_bits_op list \<times> alert_record list) option" where
  "inspect_host_candidates obs bits now [] e = Some (e, [], [])"
| "inspect_host_candidates obs bits now (i # is) e = (case host_rule_at (en_host_rules e) i of
       None \<Rightarrow> inspect_host_candidates obs bits now is e
     | Some r \<Rightarrow> (case evaluate_host r obs bits of
           None \<Rightarrow> inspect_host_candidates obs bits now is e
         | Some effects \<Rightarrow> do {
             (e, alerts) \<leftarrow> settle_match (\<lambda>e. host_threshold_allows e (hr_sid r) (hr_threshold r) (obs_subject obs) now)
               (hr_no_alert r) (host_alert r) e;
             (e, pending, alerts') \<leftarrow> inspect_host_candidates obs bits now is e;
             Some (e, effects @ pending, alerts @ alerts') }))"

definition inspect_host :: "engine \<Rightarrow> host_observation \<Rightarrow> system_time \<Rightarrow> (engine \<times> alert_record list) option" where
  "inspect_host e obs now =
     (let cands = host_candidates (en_host_rules e) (obs_kind obs) in
      if cands = [] then Some (e, [])
      else do {
        (e, pending, alerts) \<leftarrow> inspect_host_candidates obs (en_host_bits e) now cands
          (upd_ec (\<lambda>c. c\<lparr>ec_inspections := ec_inspections c + 1\<rparr>) e);
        Some (e\<lparr>en_host_bits := foldl (bits_apply (el_max_flowbits (en_limits e))) (en_host_bits e) pending\<rparr>, alerts) })"

section \<open>Thresholds\<close>

lemma count_against_frame:
  assumes "count_against_threshold e sid t key now = Some (e', verdict)"
  shows "e' = e \<or> (\<exists>entry. e' = e\<lparr>en_thresholds := hm_insert (sid, key) entry (en_thresholds e)\<rparr> \<and>
    (te_count entry = 1 \<or> (\<exists>old. hm_get (en_thresholds e) (sid, key) = Some old \<and> te_count entry = Suc (te_count old))) \<and>
    (length (en_thresholds e) < el_max_thresholds (en_limits e) \<or> hm_contains (en_thresholds e) (sid, key)))"
proof (cases "hm_get (en_thresholds e) (sid, key)")
  case None
  with assms show ?thesis
    unfolding count_against_threshold_def Let_def by (fastforce split: if_splits bind_splits)
next
  case (Some old)
  with assms show ?thesis
    unfolding count_against_threshold_def Let_def by (fastforce simp: hm_contains_def split: if_splits bind_splits)
qed

text \<open>The counter of a rule and key after some events of one window, and how many of them alerted.\<close>

fun count_events :: "engine \<Rightarrow> nat \<Rightarrow> threshold \<Rightarrow> string \<Rightarrow> system_time list \<Rightarrow> (engine \<times> bool list) option" where
  "count_events e sid t key [] = Some (e, [])"
| "count_events e sid t key (now # ts) = do {
     (e, verdict) \<leftarrow> count_against_threshold e sid t key now;
     (e, verdicts) \<leftarrow> count_events e sid t key ts;
     Some (e, verdict # verdicts) }"

definition within_window_of :: "threshold \<Rightarrow> system_time \<Rightarrow> system_time \<Rightarrow> bool" where
  "within_window_of t start now \<longleftrightarrow> unwrap_or (duration_since now start) 0 < secs (th_seconds t)"

lemma count_one:
  assumes "hm_get (en_thresholds e) (sid, key) = Some \<lparr>te_count = n, te_window_start = start\<rparr>"
    and "within_window_of t start now" and "n + 1 < 2 ^ 32" and "0 < th_count t"
  shows "\<exists>e'. count_against_threshold e sid t key now = Some (e', the (threshold_verdict t (n + 1))) \<and>
    hm_get (en_thresholds e') (sid, key) = Some \<lparr>te_count = n + 1, te_window_start = start\<rparr>"
proof -
  have "\<exists>v. threshold_verdict t (n + 1) = Some v" using assms(4) by (cases "th_kind t") (auto simp: threshold_verdict_def)
  then obtain v where v: "threshold_verdict t (n + 1) = Some v" by blast
  with assms show ?thesis
    by (simp add: count_against_threshold_def hm_contains_def within_window_of_def Let_def update_conv')
qed

lemma count_many:
  assumes "hm_get (en_thresholds e) (sid, key) = Some \<lparr>te_count = n, te_window_start = start\<rparr>"
    and "\<And>now. now \<in> set ts \<Longrightarrow> within_window_of t start now" and "n + length ts < 2 ^ 32" and "0 < th_count t"
  shows "\<exists>e'. count_events e sid t key ts =
    Some (e', map (\<lambda>i. the (threshold_verdict t (n + i + 1))) [0..<length ts])"
  using assms
proof (induction ts arbitrary: e n)
  case (Cons now ts)
  obtain e1 where e1: "count_against_threshold e sid t key now = Some (e1, the (threshold_verdict t (n + 1)))"
    "hm_get (en_thresholds e1) (sid, key) = Some \<lparr>te_count = n + 1, te_window_start = start\<rparr>"
    using count_one [of e sid key n start t now] Cons.prems by auto
  obtain e2 where "count_events e1 sid t key ts =
      Some (e2, map (\<lambda>i. the (threshold_verdict t (n + 1 + i + 1))) [0..<length ts])"
    using Cons.IH [OF e1(2)] Cons.prems(2,3,4) by auto
  with e1(1) show ?case by (simp add: upt_conv_Cons map_Suc_upt [symmetric] del: upt_Suc)
qed simp

lemma count_mod: "length (filter (\<lambda>i. Suc i mod m = 0) [0..<n]) = n div m" if "0 < m" for m n :: nat
proof (induction n)
  case (Suc n)
  then show ?case using that by (simp add: div_Suc)
qed simp

lemma count_le: "length (filter (\<lambda>i. Suc i \<le> m) [0..<n]) = min n m" for m n :: nat
  by (induction n) auto

lemma count_eq: "length (filter (\<lambda>i. Suc i = m) [0..<n]) = (if 0 < m \<and> m \<le> n then 1 else 0)" for m n :: nat
  by (induction n) auto

text \<open>Rate limits, counted over one window: of \<open>n\<close> matches of a rule for one key whose times stay inside the
  window the first of them opened, \<open>threshold\<close> lets every \<open>count\<close>-th through, \<open>limit\<close> the first
  \<open>count\<close>, and \<open>both\<close> exactly one once there were \<open>count\<close>; nothing panics below 2^32 matches.\<close>

theorem threshold_alerts:
  assumes "hm_get (en_thresholds e) (sid, key) = None"
    and "length (en_thresholds e) < el_max_thresholds (en_limits e)"
    and "0 < th_count t" and "0 < th_seconds t" and "1 + length ts < 2 ^ 32"
    and "\<And>now. now \<in> set ts \<Longrightarrow> within_window_of t start now"
  shows "\<exists>e' verdicts. count_events e sid t key (start # ts) = Some (e', verdicts) \<and>
    length (filter (\<lambda>v. v) verdicts) = (case th_kind t of
        Threshold \<Rightarrow> Suc (length ts) div th_count t
      | Limit \<Rightarrow> min (Suc (length ts)) (th_count t)
      | Both \<Rightarrow> if th_count t \<le> Suc (length ts) then 1 else 0)"
proof -
  let ?n = "Suc (length ts)"
  have "\<exists>v. threshold_verdict t 1 = Some v" using assms(3) by (cases "th_kind t") (auto simp: threshold_verdict_def)
  then obtain v where v: "threshold_verdict t 1 = Some v" by blast
  have w: "\<not> secs (th_seconds t) = 0" using assms(4) by (simp add: secs_def nanos_per_sec_def)
  obtain e1 where e1: "count_against_threshold e sid t key start = Some (e1, the (threshold_verdict t 1))"
    "hm_get (en_thresholds e1) (sid, key) = Some \<lparr>te_count = 1, te_window_start = start\<rparr>"
    using assms(1,2) w v by (auto simp: count_against_threshold_def duration_since_def Let_def update_conv')
  obtain e2 where e2: "count_events e1 sid t key ts =
      Some (e2, map (\<lambda>i. the (threshold_verdict t (1 + i + 1))) [0..<length ts])"
    using count_many [OF e1(2)] assms(3,5,6) by blast
  let ?vs = "map (\<lambda>i. the (threshold_verdict t (Suc i))) [0..<?n]"
  have "count_events e sid t key (start # ts) = Some (e2, ?vs)"
    using e1(1) e2 by (simp add: upt_conv_Cons map_Suc_upt [symmetric] del: upt_Suc)
  moreover have "length (filter (\<lambda>v. v) ?vs) = (case th_kind t of Threshold \<Rightarrow> ?n div th_count t
      | Limit \<Rightarrow> min ?n (th_count t) | Both \<Rightarrow> if th_count t \<le> ?n then 1 else 0)"
    using assms(3) count_mod [of "th_count t" ?n] count_le [of "th_count t" ?n] count_eq [of "th_count t" ?n]
    by (cases "th_kind t") (simp_all add: threshold_verdict_def filter_map o_def del: upt_Suc)
  ultimately show ?thesis by blast
qed

section \<open>The inspection window\<close>

lemma region_arith: "ld - (ld + lb - w) - ov + (ld + lb - w) = ld + lb - min w (lb + ov)" for ld lb w ov :: nat
  unfolding min_def by (cases "w \<le> lb + ov") auto

lemma append_window:
  assumes "ib_scanned ib = length (ib_data ib)" and "append_bytes ib bs overlap window = (ib', start, lost)"
  shows "ib_data ib' = drop (length (ib_data ib) + length bs - window) (ib_data ib @ bs)"
    and "ib_scanned ib' = length (ib_data ib')"
    and "start \<le> length (ib_data ib')"
    and "lost = length (ib_data ib) + length bs - window"
    and "drop start (ib_data ib') =
      drop (length (ib_data ib) + length bs - min window (length bs + overlap)) (ib_data ib @ bs)"
proof -
  define d where "d = ib_data ib"
  define ex where "ex = length d + length bs - window"
  have eq: "ib' = \<lparr>ib_data = drop ex (d @ bs), ib_scanned = length (drop ex (d @ bs))\<rparr>"
    "start = length d - ex - overlap" "lost = ex"
    using assms by (auto simp: append_bytes_def Let_def d_def ex_def split: if_splits)
  show "ib_data ib' = drop (length (ib_data ib) + length bs - window) (ib_data ib @ bs)"
    "ib_scanned ib' = length (ib_data ib')" "lost = length (ib_data ib) + length bs - window"
    by (simp_all add: eq d_def ex_def)
  show "start \<le> length (ib_data ib')" by (simp add: eq)
  have "length d - ex - overlap + ex = length d + length bs - min window (length bs + overlap)"
    unfolding ex_def by (rule region_arith)
  then show "drop start (ib_data ib') =
      drop (length (ib_data ib) + length bs - min window (length bs + overlap)) (ib_data ib @ bs)"
    by (simp add: eq d_def [symmetric] del: drop_append)
qed

lemma suffix_window:
  "m \<le> w \<Longrightarrow> drop (length (drop (length seen - w) seen) + length bs - m) (drop (length seen - w) seen @ bs) =
     drop (length (seen @ bs) - m) (seen @ bs)"
  by (cases "length seen \<le> w") (auto simp: algebra_simps)

text \<open>A direction of a flow over a sequence of deliveries: the region each of them scans.\<close>

fun scan_regions :: "nat \<Rightarrow> nat \<Rightarrow> inspection_buffer \<Rightarrow> bytes list \<Rightarrow> bytes list" where
  "scan_regions overlap window ib [] = []"
| "scan_regions overlap window ib (bs # bss) = (case append_bytes ib bs overlap window of
     (ib', start, lost) \<Rightarrow> drop start (ib_data ib') # scan_regions overlap window ib' bss)"

lemma scan_regions_suffix:
  assumes "ib_scanned ib = length (ib_data ib)" and "ib_data ib = drop (length seen - window) seen" and "k < length bss"
  shows "scan_regions overlap window ib bss ! k =
    (let so_far = seen @ concat (take (Suc k) bss)
     in drop (length so_far - min window (length (bss ! k) + overlap)) so_far)"
  using assms
proof (induction bss arbitrary: ib seen k)
  case (Cons bs bss)
  obtain ib' start lost where a: "append_bytes ib bs overlap window = (ib', start, lost)"
    by (cases "append_bytes ib bs overlap window")
  note w = append_window [OF Cons.prems(1) a]
  have d': "ib_data ib' = drop (length (seen @ bs) - window) (seen @ bs)"
    unfolding w(1) Cons.prems(2) by (rule suffix_window) simp
  show ?case
  proof (cases k)
    case 0
    have "drop start (ib_data ib') = drop (length (seen @ bs) - min window (length bs + overlap)) (seen @ bs)"
      unfolding w(5) Cons.prems(2) by (rule suffix_window) simp
    with 0 a show ?thesis by (simp add: Let_def del: drop_append)
  next
    case (Suc j)
    then show ?thesis using Cons.IH [OF w(2) d', of j] Cons.prems(3) a by (simp add: Let_def)
  qed
qed simp

lemma occurs_drop: "n \<le> p \<Longrightarrow> occurs nc needle hay p \<Longrightarrow> occurs nc needle (drop n hay) (p - n)"
  by (auto simp: occurs_def)

text \<open>A pattern that starts no further back than the overlap is whole in the region the delivery scans, when the
  window holds the delivery with its overlap.\<close>

lemma regions_cover:
  assumes "ib_scanned ib = length (ib_data ib)" and "ib_data ib = drop (length seen - window) seen"
    and "append_bytes ib bs overlap window = (ib', start, lost)"
    and "occurs nc needle (seen @ bs) p" and "length seen \<le> p + overlap" and "length bs + overlap \<le> window"
  shows "\<exists>q. occurs nc needle (drop start (ib_data ib')) q"
proof -
  have "drop start (ib_data ib') = drop (length (seen @ bs) - min window (length bs + overlap)) (seen @ bs)"
    unfolding append_window(5) [OF assms(1,3)] assms(2) by (rule suffix_window) simp
  moreover have "length (seen @ bs) - min window (length bs + overlap) \<le> p"
    using assms(5,6) by simp
  ultimately show ?thesis using occurs_drop assms(4) by metis
qed

section \<open>What an inspection leaves alone\<close>

definition same_setup :: "engine \<Rightarrow> engine \<Rightarrow> bool" where
  "same_setup e e' \<longleftrightarrow> en_ruleset e' = en_ruleset e \<and> en_limits e' = en_limits e \<and>
     en_longest_pattern e' = en_longest_pattern e \<and> en_host_rules e' = en_host_rules e"

definition same_flows :: "engine \<Rightarrow> engine \<Rightarrow> bool" where
  "same_flows e e' \<longleftrightarrow> same_setup e e' \<and> en_states e' = en_states e \<and> en_host_bits e' = en_host_bits e"

lemma same_flows_refl [simp]: "same_flows e e"
  by (simp add: same_flows_def same_setup_def)

lemma same_flows_trans: "same_flows e e' \<Longrightarrow> same_flows e' e'' \<Longrightarrow> same_flows e e''"
  by (simp add: same_flows_def same_setup_def)

definition threshold_table_ok :: "engine \<Rightarrow> bool" where
  "threshold_table_ok e \<longleftrightarrow> hm_invar (en_thresholds e) \<and> length (en_thresholds e) \<le> el_max_thresholds (en_limits e)"

definition counts_below :: "nat \<Rightarrow> engine \<Rightarrow> bool" where
  "counts_below n e \<longleftrightarrow> (\<forall>(k, entry) \<in> set (en_thresholds e). te_count entry \<le> n)"

lemma counts_below_counters [simp]: "counts_below n (e\<lparr>en_counters := c\<rparr>) = counts_below n e"
  by (simp add: counts_below_def)

lemma counts_below_mono: "counts_below m e \<Longrightarrow> m \<le> n \<Longrightarrow> counts_below n e"
  by (force simp: counts_below_def)

definition accounted :: "engine_counters \<Rightarrow> bool" where
  "accounted c \<longleftrightarrow> ec_matches c = ec_alerts c + ec_thresholded c + ec_silent c"

text \<open>The contract of a rate limiter: it touches the counters of the thresholds only and keeps their table inside its cap.\<close>

definition limiter_ok :: "(engine \<Rightarrow> (engine \<times> bool) option) \<Rightarrow> bool" where
  "limiter_ok allows \<longleftrightarrow> (\<forall>e e' verdict. allows e = Some (e', verdict) \<longrightarrow>
     same_flows e e' \<and> en_counters e' = en_counters e \<and> (threshold_table_ok e \<longrightarrow> threshold_table_ok e') \<and>
     (\<forall>n. counts_below n e \<longrightarrow> counts_below (Suc n) e'))"

definition limiter_total :: "(engine \<Rightarrow> (engine \<times> bool) option) \<Rightarrow> bool" where
  "limiter_total allows \<longleftrightarrow> (\<forall>e n. counts_below n e \<and> Suc n < 2 ^ 32 \<longrightarrow> allows e \<noteq> None)"

lemma count_against_ok: "limiter_ok (\<lambda>e. count_against_threshold e sid t key now)"
proof -
  have "same_flows e e' \<and> en_counters e' = en_counters e \<and> (threshold_table_ok e \<longrightarrow> threshold_table_ok e')"
    if "count_against_threshold e sid t key now = Some (e', verdict)" for e e' verdict
    using count_against_frame [OF that]
    by (auto simp: same_flows_def same_setup_def threshold_table_ok_def hm.size_insert hm_contains_def)
  moreover have "counts_below (Suc n) e'"
    if r: "count_against_threshold e sid t key now = Some (e', verdict)" and b: "counts_below n e" for e e' verdict n
  proof -
    consider "e' = e" | entry where "e' = e\<lparr>en_thresholds := hm_insert (sid, key) entry (en_thresholds e)\<rparr>"
        "te_count entry = 1 \<or> (\<exists>old. hm_get (en_thresholds e) (sid, key) = Some old \<and> te_count entry = Suc (te_count old))"
      using count_against_frame [OF r] by blast
    then show ?thesis
    proof cases
      case 1
      with b show ?thesis using counts_below_mono by auto
    next
      case 2
      then have "te_count entry \<le> Suc n" using b by (force simp: counts_below_def dest: hm_get_in_set)
      with b 2(1) show ?thesis by (fastforce simp: counts_below_def dest: hm_set_insert)
    qed
  qed
  ultimately show ?thesis unfolding limiter_ok_def by blast
qed

lemma limiters_ok:
  "limiter_ok (\<lambda>e. threshold_allows e sid t tuple now)" "limiter_ok (\<lambda>e. host_threshold_allows e sid t subject now)"
proof -
  have trivial: "limiter_ok (\<lambda>e. Some (e, True))" by (auto simp: limiter_ok_def intro: counts_below_mono)
  show "limiter_ok (\<lambda>e. threshold_allows e sid t tuple now)"
    unfolding threshold_allows_def by (cases t) (simp_all add: trivial count_against_ok)
  show "limiter_ok (\<lambda>e. host_threshold_allows e sid t subject now)"
    unfolding host_threshold_allows_def by (cases t) (simp_all add: trivial count_against_ok)
qed

lemma settle_match_ok:
  assumes "limiter_ok allows" and "settle_match allows no_alert alert e = Some (e', alerts)"
  shows "same_flows e e'" and "threshold_table_ok e \<Longrightarrow> threshold_table_ok e'"
    and "accounted (en_counters e) \<Longrightarrow> accounted (en_counters e')"
    and "ec_alerts (en_counters e') = ec_alerts (en_counters e) + length alerts" and "set alerts \<subseteq> {alert}"
    and "ec_matches (en_counters e') = Suc (ec_matches (en_counters e))"
    and "counts_below (ec_matches (en_counters e)) e \<Longrightarrow> counts_below (ec_matches (en_counters e')) e'"
proof -
  have k: "same_flows e1 e2 \<and> en_counters e2 = en_counters e1 \<and> (threshold_table_ok e1 \<longrightarrow> threshold_table_ok e2) \<and>
      (\<forall>n. counts_below n e1 \<longrightarrow> counts_below (Suc n) e2)"
    if "allows e1 = Some (e2, verdict)" for e1 e2 verdict
    using assms(1) that unfolding limiter_ok_def by blast
  show "ec_matches (en_counters e') = Suc (ec_matches (en_counters e))"
    "counts_below (ec_matches (en_counters e)) e \<Longrightarrow> counts_below (ec_matches (en_counters e')) e'"
    using assms(2) unfolding settle_match_def Let_def
    by (auto split: if_splits bind_splits dest!: k intro: counts_below_mono)
  show "same_flows e e'" "threshold_table_ok e \<Longrightarrow> threshold_table_ok e'"
    "accounted (en_counters e) \<Longrightarrow> accounted (en_counters e')"
    "ec_alerts (en_counters e') = ec_alerts (en_counters e) + length alerts" "set alerts \<subseteq> {alert}"
    using assms(2) unfolding settle_match_def Let_def
    by (auto simp: same_flows_def same_setup_def threshold_table_ok_def accounted_def
        split: if_splits bind_splits dest!: k)
qed

section \<open>The loop over candidates\<close>

text \<open>Packets and host records go through the same loop: a candidate is skipped, panics, or has matched, with
  what is left to do, its rate limiter, whether it is silent, and its alert.\<close>

type_synonym match_verdict = "(flow_bits_op list \<times> (engine \<Rightarrow> (engine \<times> bool) option) \<times> bool \<times> alert_record) option option"

locale match_loop =
  fixes loop :: "nat list \<Rightarrow> engine \<Rightarrow> (engine \<times> flow_bits_op list \<times> alert_record list) option"
    and verdict :: "engine \<Rightarrow> nat \<Rightarrow> match_verdict"
  assumes loop_Nil: "loop [] e = Some (e, [], [])"
    and loop_Cons: "loop (i # is) e = (case verdict e i of None \<Rightarrow> None | Some None \<Rightarrow> loop is e
      | Some (Some (effects, allows, no_alert, alert)) \<Rightarrow> do {
          (e, alerts) \<leftarrow> settle_match allows no_alert alert e;
          (e, pending, alerts') \<leftarrow> loop is e;
          Some (e, effects @ pending, alerts @ alerts') })"
    and verdict_setup: "same_setup e e' \<Longrightarrow> verdict e' i = verdict e i"
    and verdict_limiter: "verdict e i = Some (Some (effects, allows, no_alert, alert)) \<Longrightarrow> limiter_ok allows"
begin

lemma loop_step:
  assumes "loop (i # is) e = Some (e', pending, alerts)"
  shows "verdict e i = Some None \<and> loop is e = Some (e', pending, alerts) \<or>
    (\<exists>effects allows no_alert alert e1 alerts1 pending2 alerts2.
      verdict e i = Some (Some (effects, allows, no_alert, alert)) \<and> limiter_ok allows \<and>
      settle_match allows no_alert alert e = Some (e1, alerts1) \<and> loop is e1 = Some (e', pending2, alerts2) \<and>
      pending = effects @ pending2 \<and> alerts = alerts1 @ alerts2)"
  using assms verdict_limiter [of e i]
  by (auto simp: loop_Cons split: option.splits bind_splits)

lemma loop_frame:
  "loop is e = Some (e', pending, alerts) \<Longrightarrow> same_flows e e' \<and> (threshold_table_ok e \<longrightarrow> threshold_table_ok e') \<and>
     (accounted (en_counters e) \<longrightarrow> accounted (en_counters e')) \<and>
     ec_alerts (en_counters e') = ec_alerts (en_counters e) + length alerts \<and>
     (counts_below (ec_matches (en_counters e)) e \<longrightarrow> counts_below (ec_matches (en_counters e')) e') \<and>
     ec_matches (en_counters e') \<le> ec_matches (en_counters e) + length is"
proof (induction "is" arbitrary: e pending alerts)
  case (Cons i "is")
  from loop_step [OF Cons.prems] show ?case
  proof (elim disjE conjE exE)
    fix effects allows no_alert alert e1 alerts1 pending2 alerts2
    assume h: "limiter_ok allows" "settle_match allows no_alert alert e = Some (e1, alerts1)"
      "loop is e1 = Some (e', pending2, alerts2)" "alerts = alerts1 @ alerts2"
    note s = settle_match_ok [OF h(1,2)] and l = Cons.IH [OF h(3)]
    show ?thesis using s(2,3,4,6,7) l same_flows_trans [OF s(1)] h(4) by simp
  qed (use Cons.IH in fastforce)
qed (simp add: loop_Nil)

text \<open>Candidates that do not match make no difference.\<close>

lemma loop_skip: "loop is e = loop (filter (\<lambda>i. verdict e i \<noteq> Some None) is) e"
proof (induction "is" arbitrary: e)
  case (Cons i "is")
  have same: "filter (\<lambda>i. verdict e1 i \<noteq> Some None) is = filter (\<lambda>i. verdict e i \<noteq> Some None) is"
    if "same_flows e e1" for e1
    using that verdict_setup [of e e1] by (simp add: same_flows_def)
  show ?case
  proof (cases "verdict e i")
    case (Some v)
    show ?thesis
    proof (cases v)
      case (Some m)
      obtain effects allows no_alert alert where m: "m = (effects, allows, no_alert, alert)" by (cases m)
      have v: "verdict e i = Some (Some (effects, allows, no_alert, alert))"
        using \<open>verdict e i = Some v\<close> Some m by simp
      have "loop is e1 = loop (filter (\<lambda>i. verdict e i \<noteq> Some None) is) e1"
        if "settle_match allows no_alert alert e = Some (e1, alerts)" for e1 alerts
        using Cons.IH [of e1] same [OF settle_match_ok(1) [OF verdict_limiter [OF v] that]] by simp
      then show ?thesis by (cases "settle_match allows no_alert alert e") (auto simp: loop_Cons v)
    qed (use Cons.IH Some in \<open>simp add: loop_Cons\<close>)
  qed (simp add: loop_Cons)
qed (simp add: loop_Nil)

lemma loop_alerts:
  assumes "loop is e = Some (e', pending, alerts)" and "i \<in> set is"
    and "verdict e i = Some (Some (effects, \<lambda>e. Some (e, True), False, alert))"
  shows "alert \<in> set alerts"
  using assms
proof (induction "is" arbitrary: e pending alerts)
  case (Cons j "is")
  from loop_step [OF Cons.prems(1)] show ?case
  proof (elim disjE conjE exE)
    assume j: "verdict e j = Some None" "loop is e = Some (e', pending, alerts)"
    then have "i \<in> set is" using Cons.prems(2,3) by auto
    with Cons.IH [OF j(2)] Cons.prems(3) show ?thesis by blast
  next
    fix effects' allows no_alert alert' e1 alerts1 pending2 alerts2
    assume h: "limiter_ok allows" "settle_match allows no_alert alert' e = Some (e1, alerts1)"
      "loop is e1 = Some (e', pending2, alerts2)" "alerts = alerts1 @ alerts2"
      "verdict e j = Some (Some (effects', allows, no_alert, alert'))"
    show ?thesis
    proof (cases "i = j")
      case True
      with h(2,4,5) Cons.prems(3) show ?thesis by (auto simp: settle_match_def Let_def)
    next
      case False
      have "same_setup e e1" using settle_match_ok(1) [OF h(1,2)] by (simp add: same_flows_def)
      then have "verdict e1 i = Some (Some (effects, \<lambda>e. Some (e, True), False, alert))"
        using verdict_setup Cons.prems(3) by simp
      with Cons.IH [OF h(3)] False Cons.prems(2) h(4) show ?thesis by simp
    qed
  qed
qed simp

text \<open>The loop returns when no candidate panics and no counter is at its last value.\<close>

lemma loop_total:
  assumes "\<And>i. i \<in> set is \<Longrightarrow> verdict e i \<noteq> None"
    and "\<And>i effects allows no_alert alert. i \<in> set is \<Longrightarrow>
      verdict e i = Some (Some (effects, allows, no_alert, alert)) \<Longrightarrow> limiter_total allows"
    and "counts_below (ec_matches (en_counters e)) e" and "ec_matches (en_counters e) + length is < 2 ^ 32"
  shows "loop is e \<noteq> None"
  using assms
proof (induction "is" arbitrary: e)
  case (Cons i "is")
  from Cons.prems(1) [of i] obtain v where v: "verdict e i = Some v" by auto
  show ?case
  proof (cases v)
    case None
    have "loop is e \<noteq> None" by (rule Cons.IH) (use Cons.prems in \<open>auto intro: Cons.prems(2)\<close>)
    with None v show ?thesis by (simp add: loop_Cons)
  next
    case (Some m)
    obtain effects allows no_alert alert where m: "m = (effects, allows, no_alert, alert)" by (cases m)
    have lim: "limiter_ok allows" using verdict_limiter v Some m by simp
    have "limiter_total allows" using Cons.prems(2) [of i] v Some m by simp
    then have "allows (upd_ec (\<lambda>c. c\<lparr>ec_matches := ec_matches c + 1\<rparr>) e) \<noteq> None"
      unfolding limiter_total_def using Cons.prems(3,4)
      by (elim allE [of _ "upd_ec (\<lambda>c. c\<lparr>ec_matches := ec_matches c + 1\<rparr>) e"] allE [of _ "ec_matches (en_counters e)"]) simp
    then have "settle_match allows no_alert alert e \<noteq> None"
      by (auto simp: settle_match_def Let_def split: bind_splits)
    then obtain e1 alerts where s: "settle_match allows no_alert alert e = Some (e1, alerts)" by auto
    note k = settle_match_ok [OF lim s]
    have vs: "verdict e1 j = verdict e j" for j using verdict_setup k(1) by (simp add: same_flows_def)
    have "loop is e1 \<noteq> None"
      by (rule Cons.IH) (use Cons.prems k vs in \<open>auto intro: Cons.prems(2)\<close>)
    with v Some m s show ?thesis by (auto simp: loop_Cons)
  qed
qed (simp add: loop_Nil)

text \<open>And when no limiter ever fails, whatever the counters are.\<close>

lemma loop_free:
  assumes "\<And>i. i \<in> set is \<Longrightarrow> verdict e i \<noteq> None"
    and "\<And>i effects allows no_alert alert e1. i \<in> set is \<Longrightarrow>
      verdict e i = Some (Some (effects, allows, no_alert, alert)) \<Longrightarrow> allows e1 \<noteq> None"
  shows "loop is e \<noteq> None"
  using assms
proof (induction "is" arbitrary: e)
  case (Cons i "is")
  from Cons.prems(1) [of i] obtain v where v: "verdict e i = Some v" by auto
  show ?case
  proof (cases v)
    case None
    have "loop is e \<noteq> None"
    proof (rule Cons.IH)
      show "verdict e j \<noteq> None" if "j \<in> set is" for j using Cons.prems(1) [of j] that by simp
      show "allows e1 \<noteq> None" if "j \<in> set is" "verdict e j = Some (Some (effects, allows, no_alert, alert))"
        for j effects allows no_alert alert e1 using Cons.prems(2) [OF _ that(2)] that(1) by simp
    qed
    with None v show ?thesis by (simp add: loop_Cons)
  next
    case (Some m)
    obtain effects allows no_alert alert where m: "m = (effects, allows, no_alert, alert)" by (cases m)
    have lim: "limiter_ok allows" using verdict_limiter v Some m by simp
    have "allows e1 \<noteq> None" for e1 using Cons.prems(2) [of i] v Some m by simp
    then have "settle_match allows no_alert alert e \<noteq> None"
      by (simp add: settle_match_def Let_def bind_eq_None_conv split: prod.splits del: not_None_eq)
    then obtain e1 alerts where s: "settle_match allows no_alert alert e = Some (e1, alerts)" by auto
    have vs: "verdict e1 j = verdict e j" for j using verdict_setup settle_match_ok(1) [OF lim s] by (simp add: same_flows_def)
    have "loop is e1 \<noteq> None"
    proof (rule Cons.IH)
      show "verdict e1 j \<noteq> None" if "j \<in> set is" for j using Cons.prems(1) [of j] that vs by simp
      show "allows e2 \<noteq> None" if "j \<in> set is" "verdict e1 j = Some (Some (effects, allows, no_alert, alert))"
        for j effects allows no_alert alert e2 using Cons.prems(2) [OF _ that(2) [unfolded vs]] that(1) by simp
    qed
    with v Some m s show ?thesis by (auto simp: loop_Cons)
  qed
qed (simp add: loop_Nil)

end

definition packet_verdict :: "match_input \<Rightarrow> flow_bits \<Rightarrow> system_time \<Rightarrow> engine \<Rightarrow> nat \<Rightarrow> match_verdict" where
  "packet_verdict input bits now e i = (case rule_at (en_ruleset e) i of None \<Rightarrow> Some None
     | Some r \<Rightarrow> map_option (map_option (\<lambda>effects. (effects,
         \<lambda>e. threshold_allows e (cr_sid r) (cr_threshold r) (mi_tuple input) now, cr_no_alert r, packet_alert r)))
         (evaluate r input bits))"

definition host_verdict :: "host_observation \<Rightarrow> flow_bits \<Rightarrow> system_time \<Rightarrow> engine \<Rightarrow> nat \<Rightarrow> match_verdict" where
  "host_verdict obs bits now e i = Some (case host_rule_at (en_host_rules e) i of None \<Rightarrow> None
     | Some r \<Rightarrow> map_option (\<lambda>effects. (effects,
         \<lambda>e. host_threshold_allows e (hr_sid r) (hr_threshold r) (obs_subject obs) now, hr_no_alert r, host_alert r))
         (evaluate_host r obs bits))"

interpretation packets: match_loop "inspect_candidates input bits now" "packet_verdict input bits now" for input bits now
  by unfold_locales
    (auto simp: packet_verdict_def same_setup_def limiters_ok split: option.splits)

interpretation hosts: match_loop "inspect_host_candidates obs bits now" "host_verdict obs bits now" for obs bits now
  by unfold_locales
    (auto simp: host_verdict_def same_setup_def limiters_ok split: option.splits)

lemma count_against_total: "0 < th_count t \<Longrightarrow> limiter_total (\<lambda>e. count_against_threshold e sid t key now)"
proof -
  assume t: "0 < th_count t"
  have "count_against_threshold e sid t key now \<noteq> None" if b: "counts_below n e" "Suc n < 2 ^ 32" for e n
  proof -
    have "te_count (unwrap_or (hm_get (en_thresholds e) (sid, key)) \<lparr>te_count = 0, te_window_start = now\<rparr>) \<le> n"
      using b(1) by (cases "hm_get (en_thresholds e) (sid, key)") (auto simp: counts_below_def dest: hm_get_in_set)
    moreover have "\<forall>c. \<exists>v. threshold_verdict t c = Some v"
      using t by (cases "th_kind t") (simp_all add: threshold_verdict_def)
    then obtain g where "\<And>c. threshold_verdict t c = Some (g c)" by metis
    ultimately show ?thesis using b(2) by (auto simp: count_against_threshold_def Let_def split: if_splits bind_splits)
  qed
  then show ?thesis unfolding limiter_total_def by blast
qed

text \<open>A rule whose limiter never divides by zero.\<close>

definition threshold_sane :: "threshold option \<Rightarrow> bool" where
  "threshold_sane t \<longleftrightarrow> (case t of None \<Rightarrow> True | Some t \<Rightarrow> 0 < th_count t)"

lemma limiters_total:
  assumes "threshold_sane t"
  shows "limiter_total (\<lambda>e. threshold_allows e sid t tuple now)" "limiter_total (\<lambda>e. host_threshold_allows e sid t subject now)"
  using assms count_against_total
  by (cases t; simp add: threshold_sane_def threshold_allows_def host_threshold_allows_def limiter_total_def)+

section \<open>Inspection against all rules\<close>

text \<open>C3. Inspecting the candidates of the pre-filter is inspecting every rule: the same alerts, the same flowbits
  operations, the same thresholds and counters, in the same order, as the loop over the whole ruleset.\<close>

theorem inspection_exact:
  assumes "ac_faithful ac" and "compile rb ac rules vt limits = (en_ruleset e, report)"
    and "\<And>b. b \<notin> set scanned \<Longrightarrow> buffers_get (mi_buffers input) b \<in> {None, Some []}"
    and "\<And>r. r \<in> set (rs_rules (en_ruleset e)) \<Longrightarrow> evaluate r input bits \<noteq> None"
  shows "inspect_candidates input bits now (candidates_in (en_ruleset e) (haystacks (mi_buffers input) scanned)) e =
    inspect_candidates input bits now [0..<length (rs_rules (en_ruleset e))] e"
proof -
  let ?cands = "candidates_in (en_ruleset e) (haystacks (mi_buffers input) scanned)"
  let ?v = "\<lambda>i. packet_verdict input bits now e i \<noteq> Some None"
  have "?v i \<longleftrightarrow> rule_matches (en_ruleset e) input bits i" if "i < length (rs_rules (en_ruleset e))" for i
    using that assms(4) [OF nth_mem [OF that]]
    by (auto simp: packet_verdict_def rule_at_def rule_matches_def)
  moreover have "\<forall>i \<in> set ?cands. i < length (rs_rules (en_ruleset e))"
    using candidates_are_rules [OF assms(2)] by blast
  ultimately have "filter ?v ?cands = filter ?v [0..<length (rs_rules (en_ruleset e))]"
    using prefilter_exact_lemma [OF assms(1,2,3)] by (metis (mono_tags, lifting) atLeastLessThan_iff filter_cong set_upt)
  then show ?thesis
    using packets.loop_skip [of input bits now ?cands e]
      packets.loop_skip [of input bits now "[0..<length (rs_rules (en_ruleset e))]" e] by simp
qed

section \<open>A pattern split over deliveries\<close>

definition plain_content :: "content_match \<Rightarrow> bool" where
  "plain_content c \<longleftrightarrow> cm_pattern c \<noteq> [] \<and> cm_buffer c = Payload \<and> \<not> cm_negated c \<and> cm_offset c = None \<and>
     cm_depth c = None \<and> cm_distance c = None \<and> cm_within c = None"

lemma plain_hit: "plain_content c \<Longrightarrow> content_hit c hay cursor p \<longleftrightarrow> occurs (cm_nocase c) (cm_pattern c) hay p"
  by (auto simp: plain_content_def content_hit_def content_start_def content_end_def is_relative_def Let_def
      i64_saturating_add_def occurs_def)

lemma plain_rule_matches:
  assumes "cr_options r = [COContent c]" and "plain_content c" and "header_matches (cr_header r) (mi_tuple input)"
    and "occurs (cm_nocase c) (cm_pattern c) (bf_payload (mi_buffers input)) p"
  shows "evaluate r input bits = Some (Some [])"
proof -
  have c: "cm_pattern c \<noteq> []" "\<not> cm_negated c" "cm_buffer c = Payload" using assms(2) by (simp_all add: plain_content_def)
  have "\<exists>p. content_hit c (bf_payload (mi_buffers input)) 0 p" using plain_hit [OF assms(2)] assms(4) by blast
  with c have "\<exists>st. eval_options input bits [COContent c] initial_state = Some (Some st)"
    by (auto simp: with_cursor_def match_content_cases initial_state_def)
  then obtain st where st: "eval_options input bits [COContent c] initial_state = Some (Some st)" by blast
  with eval_options_effects [OF st] assms(1,3) show ?thesis by (auto simp: evaluate_def initial_state_def)
qed

definition flow_buffer :: "engine \<Rightarrow> nat \<Rightarrow> bool \<Rightarrow> inspection_buffer" where
  "flow_buffer e flow_id to_server = (let st = unwrap_or (hm_get (en_states e) flow_id) default_flow_state
     in if to_server then fs_to_server st else fs_to_client st)"

text \<open>A direction of a flow holds the end of the stream seen so far, as much of it as the window allows.\<close>

definition holds_window :: "engine \<Rightarrow> nat \<Rightarrow> bool \<Rightarrow> bytes \<Rightarrow> bool" where
  "holds_window e flow_id to_server seen \<longleftrightarrow>
     (let ib = flow_buffer e flow_id to_server in ib_scanned ib = length (ib_data ib) \<and>
        ib_data ib = drop (length seen - el_window (en_limits e)) seen)"

lemma longest_pattern_bound:
  assumes "r \<in> set rules" and "COContent c \<in> set (cr_options r)"
  shows "length (cm_pattern c) \<le> longest_pattern rules"
proof -
  have up: "acc \<le> foldl max acc xs" for acc :: nat and xs
    by (induction xs arbitrary: acc) (auto intro: order_trans [OF max.cobounded1])
  have m: "x \<le> foldl max acc xs" if "x \<in> set xs" for x acc :: nat and xs
    using that by (induction xs arbitrary: acc) (auto intro: order_trans [OF max.cobounded2 up])
  show ?thesis unfolding longest_pattern_def
    by (rule m) (use assms in \<open>force simp: List.map_filter_def image_iff\<close>)
qed

lemma room_kept: "length (en_states e) < el_max_flow_states (en_limits e) \<Longrightarrow> engine_make_room e = e"
  by (simp add: engine_make_room_def)

lemma hm_insert_length: "length (hm_insert k v m) \<le> Suc (length m)"
  by (induction m) auto

lemma deliver_eq:
  assumes "length (en_states e) < el_max_flow_states (en_limits e)"
    and "append_bytes (flow_buffer e flow_id to_server) bs (en_longest_pattern e - 1) (el_window (en_limits e)) = (ib, start, lost)"
    and "extend_window e flow_id to_server bs now = Some (e1, region)"
  shows "flow_buffer e1 flow_id to_server = ib \<and> same_setup e e1 \<and> length (en_states e1) \<le> Suc (length (en_states e)) \<and>
    region = drop start (ib_data ib)"
proof -
  define st where "st = (unwrap_or (hm_get (en_states e) flow_id) default_flow_state)\<lparr>fs_last_seen := now\<rparr>"
  have ib: "(if to_server then fs_to_server st else fs_to_client st) = flow_buffer e flow_id to_server"
    by (simp add: st_def flow_buffer_def)
  define st' where "st' = (if to_server then st\<lparr>fs_to_server := ib\<rparr> else st\<lparr>fs_to_client := ib\<rparr>)"
  have e1: "e1 = upd_ec (\<lambda>c. c\<lparr>ec_inspection_bytes_dropped := ec_inspection_bytes_dropped c + lost\<rparr>)
      (e\<lparr>en_states := hm_insert flow_id st' (en_states e)\<rparr>)"
    and r: "slice (ib_data ib) start (length (ib_data ib)) = Some region"
    using assms(3) unfolding extend_window_def Let_def room_kept [OF assms(1)] st_def [symmetric] ib assms(2) st'_def
    by (auto split: bind_splits)
  have "region = drop start (ib_data ib)" using r by (auto simp: slice_def split: if_splits)
  moreover have "flow_buffer e1 flow_id to_server = ib" by (simp add: e1 flow_buffer_def update_conv' st'_def)
  ultimately show ?thesis using hm_insert_length [of flow_id st' "en_states e"] by (simp add: e1 same_setup_def)
qed

lemma deliver_window:
  assumes "length (en_states e) < el_max_flow_states (en_limits e)"
    and "holds_window e flow_id to_server seen" and "extend_window e flow_id to_server bs now = Some (e1, region)"
  shows "holds_window e1 flow_id to_server (seen @ bs) \<and> same_setup e e1 \<and>
    length (en_states e1) \<le> Suc (length (en_states e))"
    and "occurs nc needle (seen @ bs) p \<Longrightarrow> length seen \<le> p + (en_longest_pattern e - 1) \<Longrightarrow>
      length bs + (en_longest_pattern e - 1) \<le> el_window (en_limits e) \<Longrightarrow> \<exists>q. occurs nc needle region q"
proof -
  let ?ov = "en_longest_pattern e - 1" and ?w = "el_window (en_limits e)"
  define ib where "ib = flow_buffer e flow_id to_server"
  obtain ib' start lost where a: "append_bytes ib bs ?ov ?w = (ib', start, lost)" by (cases "append_bytes ib bs ?ov ?w")
  have ib: "ib_scanned ib = length (ib_data ib)" "ib_data ib = drop (length seen - ?w) seen"
    using assms(2) by (simp_all add: holds_window_def ib_def Let_def)
  note w = append_window [OF ib(1) a]
  note d = deliver_eq [OF assms(1) a [unfolded ib_def] assms(3)]
  have "ib_data ib' = drop (length (seen @ bs) - ?w) (seen @ bs)"
    unfolding w(1) ib(2) by (rule suffix_window) simp
  with d w(2) show "holds_window e1 flow_id to_server (seen @ bs) \<and> same_setup e e1 \<and>
      length (en_states e1) \<le> Suc (length (en_states e))"
    by (simp add: holds_window_def same_setup_def Let_def)
  assume "occurs nc needle (seen @ bs) p" "length seen \<le> p + ?ov" "length bs + ?ov \<le> ?w"
  then show "\<exists>q. occurs nc needle region q"
    using regions_cover [OF ib a, of nc needle p] d by simp
qed

text \<open>An engine with room for one more flow, and a flow that has its state.\<close>

definition settled :: "engine \<Rightarrow> nat \<Rightarrow> bool" where
  "settled e flow_id \<longleftrightarrow> hm_invar (en_states e) \<and> hm_get (en_states e) flow_id \<noteq> None \<and>
     length (en_states e) < el_max_flow_states (en_limits e)"

text \<open>What an inspection of a settled flow keeps: its place and both of its windows.\<close>

definition keeps_flow :: "engine \<Rightarrow> nat \<Rightarrow> engine \<Rightarrow> bool" where
  "keeps_flow e flow_id e' \<longleftrightarrow> settled e' flow_id \<and> same_setup e e' \<and>
     (\<forall>to_server. flow_buffer e' flow_id to_server = flow_buffer e flow_id to_server)"

lemma keeps_flow_trans: "keeps_flow e f e' \<Longrightarrow> keeps_flow e' f e'' \<Longrightarrow> keeps_flow e f e''"
  by (simp add: keeps_flow_def same_setup_def)

lemma same_flows_keeps: "settled e f \<Longrightarrow> same_flows e e' \<Longrightarrow> keeps_flow e f e'"
  by (simp add: keeps_flow_def settled_def same_flows_def same_setup_def flow_buffer_def)

lemma insert_keeps:
  assumes "settled e f" and "fs_to_server st = flow_buffer e f True" and "fs_to_client st = flow_buffer e f False"
  shows "keeps_flow e f (e\<lparr>en_states := hm_insert f st (en_states e)\<rparr>)"
  using assms by (auto simp: keeps_flow_def settled_def same_setup_def flow_buffer_def hm.size_insert update_conv')

lemma apply_pending_keeps:
  assumes "settled e f"
  shows "keeps_flow e f (apply_pending f pending now e)"
proof (cases "pending = []")
  case True
  then show ?thesis using same_flows_keeps [OF assms same_flows_refl] by (simp add: apply_pending_def)
next
  case False
  have "engine_make_room e = e" using assms by (simp add: room_kept settled_def)
  with False show ?thesis unfolding apply_pending_def Let_def
    by (simp, intro insert_keeps [OF assms]) (simp_all add: flow_buffer_def)
qed

lemma inspect_buffers_keeps:
  assumes "settled e f" and "inspect_buffers e f input bufs now = Some (e', alerts)"
  shows "keeps_flow e f e'"
proof -
  let ?hs = "haystacks (mi_buffers input) bufs" and ?cands = "candidates_in (en_ruleset e) (haystacks (mi_buffers input) bufs)"
  define e1 where "e1 = upd_ec (\<lambda>c. c\<lparr>ec_inspections := ec_inspections c + 1,
      ec_bytes_inspected := ec_bytes_inspected c + sum_list (map (length \<circ> snd) ?hs),
      ec_candidates := ec_candidates c + length ?cands\<rparr>) e"
  have s1: "same_flows e e1" by (simp add: e1_def same_flows_def same_setup_def)
  show ?thesis
  proof (cases "?cands = []")
    case True
    with assms(2) have "e' = e1" by (simp add: inspect_buffers_def e1_def Let_def)
    with same_flows_keeps [OF assms(1) s1] show ?thesis by simp
  next
    case False
    with assms(2) obtain e2 pending where l: "inspect_candidates input (flow_bits_of e1 f) now ?cands e1 = Some (e2, pending, alerts)"
      and e': "e' = apply_pending f pending now e2"
      unfolding inspect_buffers_def Let_def e1_def [symmetric] by (auto split: bind_splits)
    have "keeps_flow e f e2"
      using same_flows_keeps [OF assms(1)] same_flows_trans [OF s1] packets.loop_frame [OF l] by blast
    then show ?thesis unfolding e'
      using apply_pending_keeps keeps_flow_trans by (metis keeps_flow_def)
  qed
qed

lemma inspect_requests_keeps:
  "settled e f \<Longrightarrow> inspect_requests e f tuple requests now = Some (e', alerts) \<Longrightarrow> keeps_flow e f e'"
proof (induction requests arbitrary: e alerts)
  case Nil
  then show ?case using same_flows_keeps [OF _ same_flows_refl] by simp
next
  case (Cons request requests)
  from Cons.prems(2) obtain e1 alerts1 alerts2
    where a: "inspect_buffers e f (http_input tuple request) http_buffers now = Some (e1, alerts1)"
      and b: "inspect_requests e1 f tuple requests now = Some (e', alerts2)"
    by (auto split: bind_splits)
  note k = inspect_buffers_keeps [OF Cons.prems(1) a]
  then have "settled e1 f" by (simp add: keeps_flow_def)
  from keeps_flow_trans [OF k Cons.IH [OF this b]] show ?case .
qed

lemma inspect_http_keeps:
  assumes "settled e f" and "inspect_http e f tuple bs now = Some (e', alerts)"
  shows "keeps_flow e f e'"
proof -
  obtain st where st: "hm_get (en_states e) f = Some st" using assms(1) by (auto simp: settled_def)
  obtain parser requests where p: "http_push (unwrap_or (fs_http st) (http_parser_new (el_max_http_head (en_limits e)))) bs
      (el_normalize (en_limits e)) = (parser, requests)" by (metis surj_pair)
  let ?e = "e\<lparr>en_states := hm_insert f (st\<lparr>fs_http := Some parser\<rparr>) (en_states e)\<rparr>"
  have k: "keeps_flow e f ?e" using st by (intro insert_keeps [OF assms(1)]) (simp_all add: flow_buffer_def)
  have "inspect_requests ?e f tuple requests now = Some (e', alerts)"
    using assms(2) by (simp add: inspect_http_def st p)
  with k show ?thesis using inspect_requests_keeps keeps_flow_trans by (metis keeps_flow_def)
qed

lemma deliver_settled:
  assumes "hm_invar (en_states e)" and "Suc (length (en_states e)) < el_max_flow_states (en_limits e)"
    and "extend_window e f to_server bs now = Some (e1, region)"
  shows "settled e1 f"
proof -
  have "engine_make_room e = e" using assms(2) by (simp add: room_kept)
  with assms show ?thesis
    by (auto simp: extend_window_def settled_def Let_def update_conv' intro: le_less_trans [OF hm_insert_length]
        split: bind_splits prod.splits)
qed

lemma only_payload:
  "b \<noteq> Payload \<Longrightarrow> buffers_get (default_buffers\<lparr>bf_payload := bs\<rparr>) b = None"
  by (cases b) (simp_all add: default_buffers_def)

lemma inspect_buffers_alert:
  assumes "ac_faithful ac" and "compile rb ac rules vt limits = (en_ruleset e, report)"
    and "r \<in> set (rs_rules (en_ruleset e))" and "evaluate r input (flow_bits_of e f) = Some (Some effects)"
    and "cr_threshold r = None" and "\<not> cr_no_alert r"
    and "\<And>b. b \<notin> set scanned \<Longrightarrow> buffers_get (mi_buffers input) b \<in> {None, Some []}"
    and "inspect_buffers e f input scanned now = Some (e', alerts)"
  shows "packet_alert r \<in> set alerts"
proof -
  obtain i where i: "i < length (rs_rules (en_ruleset e))" "rs_rules (en_ruleset e) ! i = r"
    using assms(3) by (auto simp: in_set_conv_nth)
  let ?hs = "haystacks (mi_buffers input) scanned" and ?cands = "candidates_in (en_ruleset e) (haystacks (mi_buffers input) scanned)"
  have "rule_matches (en_ruleset e) input (flow_bits_of e f) i" using assms(4) i(2) by (auto simp: rule_matches_def)
  then have c: "i \<in> set ?cands" using matching_is_candidate [OF assms(1,2,7) i(1)] by blast
  define e1 where "e1 = upd_ec (\<lambda>c. c\<lparr>ec_inspections := ec_inspections c + 1,
      ec_bytes_inspected := ec_bytes_inspected c + sum_list (map (length \<circ> snd) ?hs),
      ec_candidates := ec_candidates c + length ?cands\<rparr>) e"
  have "flow_bits_of e1 f = flow_bits_of e f" by (simp add: e1_def flow_bits_of_def)
  then obtain e2 pending where l: "inspect_candidates input (flow_bits_of e f) now ?cands e1 = Some (e2, pending, alerts)"
    using assms(8) c unfolding inspect_buffers_def Let_def e1_def [symmetric] by (auto split: bind_splits if_splits)
  have "packet_verdict input (flow_bits_of e f) now e1 i = Some (Some (effects, \<lambda>e. Some (e, True), False, packet_alert r))"
    using assms(4,5,6) i by (simp add: packet_verdict_def rule_at_def e1_def threshold_allows_def)
  then show ?thesis by (rule packets.loop_alerts [OF l c])
qed

lemma stream_alert:
  assumes "ac_faithful ac" and "compile rb ac rules vt limits = (en_ruleset e, report)"
    and "en_longest_pattern e = longest_pattern (rs_rules (en_ruleset e))"
    and "r \<in> set (rs_rules (en_ruleset e))" and "cr_options r = [COContent c]" and "plain_content c"
    and "cr_threshold r = None" and "\<not> cr_no_alert r" and "header_matches (cr_header r) tuple"
    and "hm_invar (en_states e)" and "Suc (length (en_states e)) < el_max_flow_states (en_limits e)"
    and "holds_window e f to_server seen" and "bs \<noteq> []"
    and "occurs (cm_nocase c) (cm_pattern c) (seen @ bs) p" and "length seen \<le> p + (en_longest_pattern e - 1)"
    and "length bs + (en_longest_pattern e - 1) \<le> el_window (en_limits e)"
    and "inspect_stream e f tuple to_server bs now = Some (e', alerts)"
  shows "packet_alert r \<in> set alerts \<and> holds_window e' f to_server (seen @ bs)"
proof -
  obtain e1 region where d: "extend_window e f to_server bs now = Some (e1, region)"
    using assms(13,17) by (auto simp: inspect_stream_def split: bind_splits)
  define input where "input = \<lparr>mi_tuple = tuple, mi_established = True, mi_to_server = to_server,
      mi_buffers = default_buffers\<lparr>bf_payload := region\<rparr>\<rparr>"
  obtain e2 alerts1 alerts2 where b: "inspect_buffers e1 f input [Payload] now = Some (e2, alerts1)"
    and h: "alerts = alerts1 @ alerts2" "e' = e2 \<or> (\<exists>more. inspect_http e2 f tuple bs now = Some (e', more))"
    using assms(13,17) d unfolding inspect_stream_def input_def by (auto split: bind_splits if_splits)
  note w = deliver_window [OF Suc_lessD [OF assms(11)] assms(12) d]
  have s1: "settled e1 f" using deliver_settled [OF assms(10,11) d] .
  note k = inspect_buffers_keeps [OF s1 b]
  have "keeps_flow e1 f e'"
    using h(2) k inspect_http_keeps keeps_flow_trans by (metis keeps_flow_def)
  then have "holds_window e' f to_server (seen @ bs)"
    using w(1) by (simp add: keeps_flow_def holds_window_def same_setup_def Let_def)
  moreover have "packet_alert r \<in> set alerts1"
  proof -
    obtain q where q: "occurs (cm_nocase c) (cm_pattern c) region q"
      using w(2) [OF assms(14,15,16)] by blast
    have v: "evaluate r input (flow_bits_of e1 f) = Some (Some [])"
      using plain_rule_matches [OF assms(5,6)] assms(9) q by (simp add: input_def)
    have rs: "compile rb ac rules vt limits = (en_ruleset e1, report)" "r \<in> set (rs_rules (en_ruleset e1))"
      using w(1) assms(2,4) by (simp_all add: same_setup_def)
    show ?thesis
      by (rule inspect_buffers_alert [OF assms(1) rs v assms(7,8) _ b]) (simp add: input_def only_payload)
  qed
  ultimately show ?thesis by (simp add: h(1))
qed

text \<open>C4. The same rule, read through a stream: a rule that asks for one pattern of the payload alerts on the delivery
  that completes the pattern, however the bytes were cut into deliveries, and the flow goes on holding
  the end of the stream; as long as the flow table has room and the window the delivery with its overlap.\<close>

theorem split_pattern_alerts:
  assumes "ac_faithful ac" and "compile rb ac rules vt limits = (en_ruleset e, report)"
    and "en_longest_pattern e = longest_pattern (rs_rules (en_ruleset e))"
    and "r \<in> set (rs_rules (en_ruleset e))" and "cr_options r = [COContent c]" and "plain_content c"
    and "cr_threshold r = None" and "\<not> cr_no_alert r" and "header_matches (cr_header r) tuple"
    and "hm_invar (en_states e)" and "Suc (length (en_states e)) < el_max_flow_states (en_limits e)"
    and "holds_window e f to_server seen" and "bs \<noteq> []"
    and "occurs (cm_nocase c) (cm_pattern c) (seen @ bs) p" and "length seen < p + length (cm_pattern c)"
    and "length bs + (en_longest_pattern e - 1) \<le> el_window (en_limits e)"
    and "inspect_stream e f tuple to_server bs now = Some (e', alerts)"
  shows "packet_alert r \<in> set alerts \<and> holds_window e' f to_server (seen @ bs)"
proof (rule stream_alert [OF assms(1-14) _ assms(16,17)])
  have "COContent c \<in> set (cr_options r)" using assms(5) by simp
  then have "length (cm_pattern c) \<le> en_longest_pattern e" using longest_pattern_bound [OF assms(4)] assms(3) by simp
  with assms(15) show "length seen \<le> p + (en_longest_pattern e - 1)" by simp
qed

text \<open>The overlap reports twice: an occurrence that was complete, and alerted on, in an earlier delivery alerts again on
  the next one, whatever that holds, when it starts within the last bytes, one fewer than the longest pattern
  of the ruleset, of what was seen.\<close>

theorem overlap_alerts_again:
  assumes "ac_faithful ac" and "compile rb ac rules vt limits = (en_ruleset e, report)"
    and "en_longest_pattern e = longest_pattern (rs_rules (en_ruleset e))"
    and "r \<in> set (rs_rules (en_ruleset e))" and "cr_options r = [COContent c]" and "plain_content c"
    and "cr_threshold r = None" and "\<not> cr_no_alert r" and "header_matches (cr_header r) tuple"
    and "hm_invar (en_states e)" and "Suc (length (en_states e)) < el_max_flow_states (en_limits e)"
    and "holds_window e f to_server seen" and "bs \<noteq> []"
    and "occurs (cm_nocase c) (cm_pattern c) seen p" and "length seen \<le> p + (en_longest_pattern e - 1)"
    and "length bs + (en_longest_pattern e - 1) \<le> el_window (en_limits e)"
    and "inspect_stream e f tuple to_server bs now = Some (e', alerts)"
  shows "packet_alert r \<in> set alerts"
proof -
  have "occurs (cm_nocase c) (cm_pattern c) (seen @ bs) p" using assms(14) by (auto simp: occurs_def)
  from stream_alert [OF assms(1-13) this assms(15-17)] show ?thesis by blast
qed

section \<open>Concrete runs\<close>

abbreviation no_regex :: regex_builder where "no_regex \<equiv> \<lambda>_ _. Inl ''none''"
abbreviation no_host_regex :: host_regex_builder where "no_host_regex \<equiv> \<lambda>_ _. Inl ''none''"
abbreviation no_vars :: var_table where "no_vars \<equiv> \<lparr>vt_addresses = [], vt_ports = []\<rparr>"

definition small_limits :: engine_limits where
  "small_limits = \<lparr>el_compile = sample_limits, el_max_flow_states = 4, el_max_flowbits = 2, el_window = 64,
     el_max_thresholds = 4, el_normalize = default_normalize_options, el_max_http_head = 80\<rparr>"

definition small_engine :: "rule list \<Rightarrow> engine" where
  "small_engine rules = fst (engine_new no_regex no_host_regex naive_ac rules no_vars small_limits)"

lemma compile_sample_rule:
  "compile_each (compile_option no_regex l) opts = Inr options \<Longrightarrow>
     compile_rule no_regex (sample_rule opts) no_vars l =
       Inr ((open_rule options)\<lparr>cr_needs_http := rule_needs_http (sample_rule opts)\<rparr>)"
  by (simp add: compile_rule_def is_evaluable_def sample_rule_def header_resolve_def resolve_addresses_def
      resolve_ports_def open_rule_def severity_def group_metadata_def location_def)

lemma small_engine_rules:
  "en_ruleset (small_engine [sample_rule [Content c]]) = fst (compile no_regex naive_ac [sample_rule [Content c]] no_vars sample_limits)"
  "en_longest_pattern (small_engine [sample_rule [Content c]]) = longest_pattern (rs_rules (en_ruleset (small_engine [sample_rule [Content c]])))"
  "en_limits (small_engine [sample_rule [Content c]]) = small_limits"
  "rs_rules (fst (compile no_regex naive_ac [sample_rule [Content c]] no_vars sample_limits)) =
     [(open_rule [COContent c])\<lparr>cr_needs_http := rule_needs_http (sample_rule [Content c])\<rparr>]"
proof -
  have "\<not> is_host_rule_by_options (sample_rule [Content c])"
    by (simp add: is_host_rule_by_options_def sample_rule_def)
  then show "en_ruleset (small_engine [sample_rule [Content c]]) = fst (compile no_regex naive_ac [sample_rule [Content c]] no_vars sample_limits)"
    "en_longest_pattern (small_engine [sample_rule [Content c]]) = longest_pattern (rs_rules (en_ruleset (small_engine [sample_rule [Content c]])))"
    "en_limits (small_engine [sample_rule [Content c]]) = small_limits"
    by (simp_all add: small_engine_def engine_new_def small_limits_def split: prod.splits)
  have "is_evaluable (sample_rule [Content c])" by (simp add: is_evaluable_def sample_rule_def)
  then show "rs_rules (fst (compile no_regex naive_ac [sample_rule [Content c]] no_vars sample_limits)) =
     [(open_rule [COContent c])\<lparr>cr_needs_http := rule_needs_http (sample_rule [Content c])\<rparr>]"
    using compile_sample_rule [of sample_limits "[Content c]"]
    by (auto simp: compile_def compile_step_def add_rule_def empty_compile_def Let_def split: prod.splits option.splits)
qed

section \<open>Everything the traffic drives is bounded\<close>

definition bits_ok :: "nat \<Rightarrow> flow_bits \<Rightarrow> bool" where
  "bits_ok limit bits \<longleftrightarrow> finite bits \<and> card bits \<le> limit"

lemma bits_apply_ok: "bits_ok limit bits \<Longrightarrow> bits_ok limit (bits_apply limit bits op)"
  by (cases op) (auto simp: bits_ok_def card_insert_if card_Diff_singleton_if)

lemma bits_fold_ok: "bits_ok limit bits \<Longrightarrow> bits_ok limit (foldl (bits_apply limit) bits ops)"
  by (induction ops arbitrary: bits) (simp_all add: bits_apply_ok)

definition buffer_ok :: "nat \<Rightarrow> inspection_buffer \<Rightarrow> bool" where
  "buffer_ok window ib \<longleftrightarrow> ib_scanned ib = length (ib_data ib) \<and> length (ib_data ib) \<le> window"

definition state_ok :: "engine_limits \<Rightarrow> flow_state \<Rightarrow> bool" where
  "state_ok l st \<longleftrightarrow> bits_ok (el_max_flowbits l) (fs_bits st) \<and> buffer_ok (el_window l) (fs_to_server st) \<and>
     buffer_ok (el_window l) (fs_to_client st) \<and>
     (case fs_http st of None \<Rightarrow> True | Some p \<Rightarrow> hp_max_head p = max (el_max_http_head l) 64 \<and> http_buffered p \<le> hp_max_head p)"

definition states_ok :: "engine_limits \<Rightarrow> (nat, flow_state) hashmap \<Rightarrow> bool" where
  "states_ok l m \<longleftrightarrow> hm_invar m \<and> (\<forall>(i, st) \<in> set m. state_ok l st)"

definition engine_wf :: "engine \<Rightarrow> bool" where
  "engine_wf e \<longleftrightarrow> states_ok (en_limits e) (en_states e) \<and>
     length (en_states e) \<le> max (el_max_flow_states (en_limits e)) 1 \<and> threshold_table_ok e \<and>
     accounted (en_counters e) \<and> counts_below (ec_matches (en_counters e)) e \<and>
     bits_ok (el_max_flowbits (en_limits e)) (en_host_bits e)"

lemma default_state_ok: "state_ok l default_flow_state"
  by (simp add: state_ok_def default_flow_state_def bits_ok_def buffer_ok_def empty_inspection_def)

lemma states_ok_get: "states_ok l m \<Longrightarrow> state_ok l (unwrap_or (hm_get m i) default_flow_state)"
  by (cases "hm_get m i") (auto simp: states_ok_def default_state_ok dest: hm_get_in_set)

lemma states_ok_insert: "states_ok l m \<Longrightarrow> state_ok l st \<Longrightarrow> states_ok l (hm_insert i st m)"
  by (force simp: states_ok_def dest: hm_set_insert)

lemma states_ok_remove: "states_ok l m \<Longrightarrow> states_ok l (hm_remove i m)"
  by (force simp: states_ok_def dest: hm_set_remove)

lemma accounted_other [simp]:
  "accounted (c\<lparr>ec_flow_states_evicted := n\<rparr>) = accounted c" "accounted (c\<lparr>ec_inspection_bytes_dropped := n\<rparr>) = accounted c"
  "accounted (c\<lparr>ec_inspections := n\<rparr>) = accounted c" "accounted (c\<lparr>ec_bytes_inspected := n\<rparr>) = accounted c"
  "accounted (c\<lparr>ec_candidates := n\<rparr>) = accounted c"
  by (simp_all add: accounted_def)

lemma evict_states_frame:
  "same_setup e (evict_states ids e) \<and> en_thresholds (evict_states ids e) = en_thresholds e \<and>
   en_host_bits (evict_states ids e) = en_host_bits e \<and>
   (accounted (en_counters e) \<longrightarrow> accounted (en_counters (evict_states ids e))) \<and>
   ec_matches (en_counters (evict_states ids e)) = ec_matches (en_counters e) \<and>
   (states_ok l (en_states e) \<longrightarrow> states_ok l (en_states (evict_states ids e)))"
proof (induction ids arbitrary: e)
  case (Cons i ids)
  then show ?case by (auto simp: same_setup_def states_ok_remove)
qed (simp add: same_setup_def)

lemma evict_states_length:
  assumes "hm_invar (en_states e)" and "distinct ids" and "set ids \<subseteq> dom (hm_get (en_states e))"
  shows "length (en_states (evict_states ids e)) = length (en_states e) - length ids"
  using assms
proof (induction ids arbitrary: e)
  case (Cons i ids)
  let ?e = "upd_ec (\<lambda>c. c\<lparr>ec_flow_states_evicted := ec_flow_states_evicted c + 1\<rparr>) (e\<lparr>en_states := hm_remove i (en_states e)\<rparr>)"
  have i: "hm_get (en_states e) i \<noteq> None" using Cons.prems(3) by auto
  then have "evict_states (i # ids) e = evict_states ids ?e" by (simp add: hm_contains_def)
  moreover have "length (en_states (evict_states ids ?e)) = length (en_states ?e) - length ids"
    using Cons.prems by (intro Cons.IH) (auto simp: delete_conv')
  ultimately show ?case using hm.size_remove [OF Cons.prems(1), of i] i by simp
qed simp

lemma make_room_frame:
  "same_setup e (engine_make_room e) \<and> en_thresholds (engine_make_room e) = en_thresholds e \<and>
   en_host_bits (engine_make_room e) = en_host_bits e \<and>
   (accounted (en_counters e) \<longrightarrow> accounted (en_counters (engine_make_room e))) \<and>
   ec_matches (en_counters (engine_make_room e)) = ec_matches (en_counters e) \<and>
   (states_ok l (en_states e) \<longrightarrow> states_ok l (en_states (engine_make_room e)))"
  using evict_states_frame [of e _ l] by (simp add: engine_make_room_def Let_def same_setup_def)

lemma make_room_length:
  assumes "hm_invar (en_states e)" and "length (en_states e) \<le> max (el_max_flow_states (en_limits e)) 1"
  shows "length (en_states (engine_make_room e)) < max (el_max_flow_states (en_limits e)) 1"
proof (cases "length (en_states e) < el_max_flow_states (en_limits e)")
  case True
  then show ?thesis by (simp add: room_kept)
next
  case False
  let ?cap = "el_max_flow_states (en_limits e)"
  define batch where "batch = max (?cap div 10) 1"
  define ids where "ids = map snd (take batch (sort_key fst (map (\<lambda>(i, st). (fs_last_seen st, i)) (en_states e))))"
  let ?by_age = "map (\<lambda>(i, st). (fs_last_seen st, i)) (en_states e)"
  have all: "map snd ?by_age = map fst (en_states e)" by (simp add: split_def o_def)
  have "distinct (map snd ?by_age)" unfolding all using assms(1) by (simp only: hm_invar_def)
  then have "distinct (map snd (sort_key fst ?by_age))" by (simp only: distinct_map set_sort distinct_sort)
  then have "distinct ids" unfolding ids_def take_map [symmetric] by (rule distinct_take)
  moreover have "set ids \<subseteq> snd ` set (sort_key fst ?by_age)"
    unfolding ids_def set_map [of snd] by (rule image_mono [OF set_take_subset])
  then have "set ids \<subseteq> set (map snd ?by_age)" unfolding set_map [of snd] set_sort .
  then have "set ids \<subseteq> dom (hm_get (en_states e))" unfolding all by (simp add: dom_map_of_conv_image_fst)
  moreover have "length ids = min batch (length (en_states e))" by (simp add: ids_def)
  moreover have "engine_make_room e = evict_states ids e"
    using False by (simp add: engine_make_room_def Let_def ids_def batch_def)
  ultimately have "length (en_states (engine_make_room e)) = length (en_states e) - min batch (length (en_states e))"
    using evict_states_length [OF assms(1), of ids] by simp
  moreover have "1 \<le> batch" by (simp add: batch_def)
  ultimately show ?thesis using assms(2) by linarith
qed

lemma insert_state_wf:
  assumes "engine_wf e" and "length (en_states e) < max (el_max_flow_states (en_limits e)) 1" and "state_ok (en_limits e) st"
  shows "engine_wf (e\<lparr>en_states := hm_insert f st (en_states e)\<rparr>)"
  using assms hm_insert_length [of f st "en_states e"]
  by (simp add: engine_wf_def states_ok_insert threshold_table_ok_def counts_below_def)

lemma replace_state_wf:
  assumes "engine_wf e" and "hm_get (en_states e) f \<noteq> None" and "state_ok (en_limits e) st"
  shows "engine_wf (e\<lparr>en_states := hm_insert f st (en_states e)\<rparr>)"
  using assms by (auto simp: engine_wf_def states_ok_insert threshold_table_ok_def counts_below_def states_ok_def hm.size_insert
      dest: hm_set_insert)

lemma make_room_wf:
  assumes "engine_wf e"
  shows "engine_wf (engine_make_room e)" and "length (en_states (engine_make_room e)) < max (el_max_flow_states (en_limits e)) 1"
proof -
  have inv: "hm_invar (en_states e)" "length (en_states e) \<le> max (el_max_flow_states (en_limits e)) 1"
    using assms by (simp_all add: engine_wf_def states_ok_def)
  show l: "length (en_states (engine_make_room e)) < max (el_max_flow_states (en_limits e)) 1"
    using make_room_length [OF inv] .
  with make_room_frame [of e "en_limits e"] assms show "engine_wf (engine_make_room e)"
    by (simp add: engine_wf_def same_setup_def threshold_table_ok_def counts_below_def)
qed

lemma counters_wf:
  "engine_wf e \<Longrightarrow> accounted c \<Longrightarrow> ec_matches c = ec_matches (en_counters e) \<Longrightarrow> engine_wf (e\<lparr>en_counters := c\<rparr>)"
  by (simp add: engine_wf_def threshold_table_ok_def)

lemma apply_pending_wf:
  assumes "engine_wf e"
  shows "engine_wf (apply_pending f pending now e)"
proof -
  let ?e = "engine_make_room e"
  note r = make_room_wf [OF assms]
  have l: "en_limits ?e = en_limits e" using make_room_frame [of e "en_limits e"] by (simp add: same_setup_def)
  have "state_ok (en_limits ?e) (unwrap_or (hm_get (en_states ?e) f) default_flow_state)"
    using r(1) by (simp add: engine_wf_def states_ok_get)
  then have "state_ok (en_limits ?e) ((unwrap_or (hm_get (en_states ?e) f) default_flow_state)\<lparr>fs_last_seen := now,
      fs_bits := foldl (bits_apply (el_max_flowbits (en_limits ?e)))
        (fs_bits (unwrap_or (hm_get (en_states ?e) f) default_flow_state)) pending\<rparr>)"
    by (simp add: state_ok_def bits_fold_ok)
  with insert_state_wf [OF r(1)] r(2) l assms show ?thesis by (simp add: apply_pending_def Let_def)
qed

lemma loop_wf:
  assumes "engine_wf e" and "same_flows e e'" and "threshold_table_ok e \<longrightarrow> threshold_table_ok e'"
    and "accounted (en_counters e) \<longrightarrow> accounted (en_counters e')"
    and "counts_below (ec_matches (en_counters e)) e \<longrightarrow> counts_below (ec_matches (en_counters e')) e'"
  shows "engine_wf e'"
  using assms by (simp add: engine_wf_def same_flows_def same_setup_def)

lemma inspect_buffers_wf:
  assumes "engine_wf e" and "inspect_buffers e f input bufs now = Some (e', alerts)"
  shows "engine_wf e'"
proof -
  let ?hs = "haystacks (mi_buffers input) bufs" and ?cands = "candidates_in (en_ruleset e) (haystacks (mi_buffers input) bufs)"
  define e1 where "e1 = upd_ec (\<lambda>c. c\<lparr>ec_inspections := ec_inspections c + 1,
      ec_bytes_inspected := ec_bytes_inspected c + sum_list (map (length \<circ> snd) ?hs),
      ec_candidates := ec_candidates c + length ?cands\<rparr>) e"
  have w1: "engine_wf e1" unfolding e1_def
    by (rule counters_wf [OF assms(1)]) (use assms(1) in \<open>simp_all add: engine_wf_def\<close>)
  show ?thesis
  proof (cases "?cands = []")
    case True
    with assms(2) w1 show ?thesis by (simp add: inspect_buffers_def e1_def Let_def)
  next
    case False
    with assms(2) obtain e2 pending where l: "inspect_candidates input (flow_bits_of e1 f) now ?cands e1 = Some (e2, pending, alerts)"
      and e': "e' = apply_pending f pending now e2"
      unfolding inspect_buffers_def Let_def e1_def [symmetric] by (auto split: bind_splits)
    have "engine_wf e2" using loop_wf [OF w1] packets.loop_frame [OF l] by blast
    then show ?thesis unfolding e' by (rule apply_pending_wf)
  qed
qed

lemma inspect_requests_wf:
  "engine_wf e \<Longrightarrow> inspect_requests e f tuple requests now = Some (e', alerts) \<Longrightarrow> engine_wf e'"
proof (induction requests arbitrary: e alerts)
  case (Cons request requests)
  from Cons.prems(2) obtain e1 alerts1 alerts2
    where a: "inspect_buffers e f (http_input tuple request) http_buffers now = Some (e1, alerts1)"
      and b: "inspect_requests e1 f tuple requests now = Some (e', alerts2)"
    by (auto split: bind_splits)
  from Cons.IH [OF inspect_buffers_wf [OF Cons.prems(1) a] b] show ?case .
qed simp

lemma parsed_state_wf:
  assumes "engine_wf e" and "hm_get (en_states e) f = Some st"
    and "http_push (unwrap_or (fs_http st) (http_parser_new (el_max_http_head (en_limits e)))) bs (el_normalize (en_limits e)) = (parser', requests)"
  shows "engine_wf (e\<lparr>en_states := hm_insert f (st\<lparr>fs_http := Some parser'\<rparr>) (en_states e)\<rparr>)"
proof -
  define parser where "parser = unwrap_or (fs_http st) (http_parser_new (el_max_http_head (en_limits e)))"
  have st: "state_ok (en_limits e) st" using assms(1,2) states_ok_get [of "en_limits e" "en_states e" f] by (simp add: engine_wf_def)
  then have p: "hp_max_head parser = max (el_max_http_head (en_limits e)) 64"
    by (cases "fs_http st") (simp_all add: parser_def state_ok_def http_parser_new_def)
  have "http_buffered parser' \<le> hp_max_head parser \<and> hp_max_head parser' = hp_max_head parser"
    using push_bounds [of parser bs "el_normalize (en_limits e)"] assms(3) by (simp add: parser_def)
  with st p have "state_ok (en_limits e) (st\<lparr>fs_http := Some parser'\<rparr>)" by (simp add: state_ok_def)
  then show ?thesis using replace_state_wf [OF assms(1)] assms(2) by simp
qed

lemma inspect_http_wf:
  assumes "engine_wf e" and "inspect_http e f tuple bs now = Some (e', alerts)"
  shows "engine_wf e'"
proof (cases "hm_get (en_states e) f")
  case (Some st)
  define parser where "parser = unwrap_or (fs_http st) (http_parser_new (el_max_http_head (en_limits e)))"
  obtain parser' requests where push: "http_push parser bs (el_normalize (en_limits e)) = (parser', requests)" by (metis surj_pair)
  have "engine_wf (e\<lparr>en_states := hm_insert f (st\<lparr>fs_http := Some parser'\<rparr>) (en_states e)\<rparr>)"
    using parsed_state_wf [OF assms(1) Some] push by (simp add: parser_def)
  moreover have "inspect_requests (e\<lparr>en_states := hm_insert f (st\<lparr>fs_http := Some parser'\<rparr>) (en_states e)\<rparr>) f tuple requests now =
      Some (e', alerts)"
    using assms(2) by (simp add: inspect_http_def Some push parser_def [symmetric])
  ultimately show ?thesis by (rule inspect_requests_wf)
qed (use assms in \<open>simp add: inspect_http_def\<close>)

lemma append_buffer_ok:
  assumes "buffer_ok window ib" and "append_bytes ib bs overlap window = (ib', start, lost)"
  shows "buffer_ok window ib'"
proof -
  have "ib_scanned ib = length (ib_data ib)" using assms(1) by (simp add: buffer_ok_def)
  from append_window(1,2) [OF this assms(2)] show ?thesis by (simp add: buffer_ok_def del: drop_append)
qed

lemma deliver_wf:
  assumes "engine_wf e" and "extend_window e f to_server bs now = Some (e1, region)"
  shows "engine_wf e1"
proof -
  let ?e = "engine_make_room e"
  note r = make_room_wf [OF assms(1)]
  have l: "en_limits ?e = en_limits e" using make_room_frame [of e "en_limits e"] by (simp add: same_setup_def)
  define st where "st = (unwrap_or (hm_get (en_states ?e) f) default_flow_state)\<lparr>fs_last_seen := now\<rparr>"
  have st: "state_ok (en_limits ?e) st"
    using r(1) states_ok_get [of "en_limits ?e" "en_states ?e" f] by (simp add: st_def engine_wf_def state_ok_def)
  define ib0 where "ib0 = (if to_server then fs_to_server st else fs_to_client st)"
  obtain ib start lost where a: "append_bytes ib0 bs (en_longest_pattern ?e - 1) (el_window (en_limits ?e)) = (ib, start, lost)"
    by (cases "append_bytes ib0 bs (en_longest_pattern ?e - 1) (el_window (en_limits ?e))")
  define st' where "st' = (if to_server then st\<lparr>fs_to_server := ib\<rparr> else st\<lparr>fs_to_client := ib\<rparr>)"
  have e1: "e1 = upd_ec (\<lambda>c. c\<lparr>ec_inspection_bytes_dropped := ec_inspection_bytes_dropped c + lost\<rparr>)
      (?e\<lparr>en_states := hm_insert f st' (en_states ?e)\<rparr>)"
    using assms(2) unfolding extend_window_def Let_def st_def [symmetric] ib0_def [symmetric] a st'_def
    by (auto split: bind_splits)
  have "buffer_ok (el_window (en_limits ?e)) ib0" using st by (simp add: ib0_def state_ok_def)
  then have "state_ok (en_limits ?e) st'" using st append_buffer_ok a by (simp add: st'_def state_ok_def)
  then have w: "engine_wf (?e\<lparr>en_states := hm_insert f st' (en_states ?e)\<rparr>)"
    using insert_state_wf [OF r(1)] r(2) l by simp
  show ?thesis unfolding e1
    by (rule counters_wf [OF w, simplified]) (use r(1) in \<open>simp_all add: engine_wf_def\<close>)
qed

lemma inspect_stream_wf:
  assumes "engine_wf e" and "inspect_stream e f tuple to_server bs now = Some (e', alerts)"
  shows "engine_wf e'"
proof (cases "bs = []")
  case False
  obtain e1 region where d: "extend_window e f to_server bs now = Some (e1, region)"
    using assms(2) False by (auto simp: inspect_stream_def split: bind_splits)
  from assms(2) False d obtain input e2 alerts1
    where b: "inspect_buffers e1 f input [Payload] now = Some (e2, alerts1)"
      and h: "e' = e2 \<or> (\<exists>more. inspect_http e2 f tuple bs now = Some (e', more))"
    unfolding inspect_stream_def by (auto split: bind_splits if_splits)
  from inspect_buffers_wf [OF deliver_wf [OF assms(1) d] b] h inspect_http_wf show ?thesis by blast
qed (use assms in \<open>simp add: inspect_stream_def\<close>)

lemma inspect_host_wf:
  assumes "engine_wf e" and "inspect_host e obs now = Some (e', alerts)"
  shows "engine_wf e'"
proof (cases "host_candidates (en_host_rules e) (obs_kind obs) = []")
  case False
  let ?e = "upd_ec (\<lambda>c. c\<lparr>ec_inspections := ec_inspections c + 1\<rparr>) e"
  from assms(2) False obtain e1 pending where l: "inspect_host_candidates obs (en_host_bits e) now
      (host_candidates (en_host_rules e) (obs_kind obs)) ?e = Some (e1, pending, alerts)"
    and e': "e' = e1\<lparr>en_host_bits := foldl (bits_apply (el_max_flowbits (en_limits e1))) (en_host_bits e1) pending\<rparr>"
    by (auto simp: inspect_host_def Let_def split: bind_splits)
  have "engine_wf ?e" by (rule counters_wf [OF assms(1)]) (use assms(1) in \<open>simp_all add: engine_wf_def\<close>)
  then have "engine_wf e1" using loop_wf hosts.loop_frame [OF l] by blast
  then show ?thesis by (simp add: e' engine_wf_def bits_fold_ok threshold_table_ok_def counts_below_def)
qed (use assms in \<open>simp add: inspect_host_def\<close>)

section \<open>The engine as a machine\<close>

datatype engine_event = OnPacket nat net_tuple bool bytes system_time | OnStream nat net_tuple bool bytes system_time
  | OnHostRecord host_observation system_time | OnFlowEnd nat

fun engine_handle :: "engine \<Rightarrow> engine_event \<Rightarrow> (engine \<times> alert_record list) option" where
  "engine_handle e (OnPacket f tuple to_server payload now) = inspect_packet e f tuple to_server payload now"
| "engine_handle e (OnStream f tuple to_server bs now) = inspect_stream e f tuple to_server bs now"
| "engine_handle e (OnHostRecord obs now) = inspect_host e obs now"
| "engine_handle e (OnFlowEnd f) = Some (on_flow_end e f, [])"

definition engine_step :: "engine option \<Rightarrow> engine_event \<Rightarrow> engine option" where
  "engine_step s ev = do { e \<leftarrow> s; (e, alerts) \<leftarrow> engine_handle e ev; Some e }"

lemma engine_handle_wf: "engine_wf e \<Longrightarrow> engine_handle e ev = Some (e', alerts) \<Longrightarrow> engine_wf e'"
proof (cases ev)
  case (OnFlowEnd f)
  assume "engine_wf e" "engine_handle e ev = Some (e', alerts)"
  with OnFlowEnd show ?thesis
    by (auto simp: engine_wf_def on_flow_end_def states_ok_remove threshold_table_ok_def counts_below_def
        intro: order_trans [OF length_delete_le])
qed (auto simp: inspect_packet_def intro: inspect_buffers_wf inspect_stream_wf inspect_host_wf)

lemma engine_new_wf: "engine_wf (fst (engine_new rb hb ac rules vt limits))"
  by (simp add: engine_new_def engine_wf_def states_ok_def threshold_table_ok_def accounted_def zero_counters_def
      counts_below_def bits_ok_def split_def Let_def)

interpretation engine_ops: invariant_machine "\<lambda>s. \<exists>rb hb ac rules vt limits. s = Some (fst (engine_new rb hb ac rules vt limits))"
  engine_step "\<lambda>s. case s of None \<Rightarrow> True | Some e \<Rightarrow> engine_wf e"
proof
  fix s :: "engine option"
  assume "\<exists>rb hb ac rules vt limits. s = Some (fst (engine_new rb hb ac rules vt limits))"
  then show "case s of None \<Rightarrow> True | Some e \<Rightarrow> engine_wf e"
    by (auto simp: engine_new_wf)
qed (auto simp: engine_step_def split: option.splits bind_splits intro: engine_handle_wf)

text \<open>C12. However much traffic there is and whatever it holds, the engine stays inside its limits: at most the configured
  number of flow states (one, when none are configured), at most the configured flowbits in each and for the
  host, no stream window and no HTTP head above its cap, and no more threshold counters than allowed; and
  every match is accounted for as an alert, a held-back match or a silent one.\<close>

theorem engine_bounded:
  assumes "foldl engine_step (Some (fst (engine_new rb hb ac rules vt limits))) events = Some e"
  shows "length (en_states e) \<le> max (el_max_flow_states (en_limits e)) 1 \<and>
    length (en_thresholds e) \<le> el_max_thresholds (en_limits e) \<and>
    card (en_host_bits e) \<le> el_max_flowbits (en_limits e) \<and>
    list_all (\<lambda>(f, st). card (fs_bits st) \<le> el_max_flowbits (en_limits e) \<and>
      length (ib_data (fs_to_server st)) \<le> el_window (en_limits e) \<and>
      length (ib_data (fs_to_client st)) \<le> el_window (en_limits e) \<and>
      (case fs_http st of None \<Rightarrow> True | Some p \<Rightarrow> http_buffered p \<le> max (el_max_http_head (en_limits e)) 64)) (en_states e) \<and>
    ec_matches (en_counters e) = ec_alerts (en_counters e) + ec_thresholded (en_counters e) + ec_silent (en_counters e)"
proof -
  have "engine_wf e"
  proof -
    have "case foldl engine_step (Some (fst (engine_new rb hb ac rules vt limits))) events of None \<Rightarrow> True | Some e \<Rightarrow> engine_wf e"
      by (rule engine_ops.inv_reachable) blast
    with assms show ?thesis by simp
  qed
  then show ?thesis
    by (auto simp: engine_wf_def states_ok_def state_ok_def bits_ok_def buffer_ok_def threshold_table_ok_def accounted_def
        list_all_iff split: option.splits)
qed

section \<open>Inspection returns\<close>

definition calm_ruleset :: "compiled_ruleset \<Rightarrow> bool" where
  "calm_ruleset rs \<longleftrightarrow> list_all (\<lambda>r. list_all calm_option (cr_options r) \<and> threshold_sane (cr_threshold r)) (rs_rules rs)"

lemma inspect_buffers_returns:
  assumes "engine_wf e" and "calm_ruleset (en_ruleset e)" and "short_buffers (mi_buffers input)"
    and "ec_matches (en_counters e) + length (candidates_in (en_ruleset e) (haystacks (mi_buffers input) bufs)) < 2 ^ 32"
  shows "\<exists>e' alerts. inspect_buffers e f input bufs now = Some (e', alerts)"
proof -
  let ?hs = "haystacks (mi_buffers input) bufs" and ?cands = "candidates_in (en_ruleset e) (haystacks (mi_buffers input) bufs)"
  define e1 where "e1 = upd_ec (\<lambda>c. c\<lparr>ec_inspections := ec_inspections c + 1,
      ec_bytes_inspected := ec_bytes_inspected c + sum_list (map (length \<circ> snd) ?hs),
      ec_candidates := ec_candidates c + length ?cands\<rparr>) e"
  have rule: "evaluate r input bits \<noteq> None" "threshold_sane (cr_threshold r)"
    if "rule_at (en_ruleset e1) i = Some r" for r i bits
    using assms(2,3) that evaluate_total_lemma [of r input bits]
    by (auto simp: calm_ruleset_def list_all_iff rule_at_def e1_def split: if_splits dest: nth_mem)
  have "inspect_candidates input (flow_bits_of e1 f) now ?cands e1 \<noteq> None"
  proof (rule packets.loop_total)
    show "packet_verdict input (flow_bits_of e1 f) now e1 i \<noteq> None" for i
      using rule(1) [of i] by (cases "rule_at (en_ruleset e1) i") (simp_all add: packet_verdict_def del: not_None_eq)
    show "limiter_total allows"
      if "packet_verdict input (flow_bits_of e1 f) now e1 i = Some (Some (effects, allows, no_alert, alert))"
      for i effects allows no_alert alert
      using that rule(2) [of i] limiters_total(1)
      by (auto simp: packet_verdict_def split: option.splits)
  qed (use assms(1,4) in \<open>simp_all add: e1_def engine_wf_def\<close>)
  then show ?thesis unfolding inspect_buffers_def Let_def e1_def [symmetric] by auto
qed

lemma deliver_returns:
  assumes "engine_wf e"
  shows "\<exists>e1 region. extend_window e f to_server bs now = Some (e1, region) \<and> length region \<le> el_window (en_limits e)"
proof -
  let ?e = "engine_make_room e"
  have l: "en_limits ?e = en_limits e" using make_room_frame [of e "en_limits e"] by (simp add: same_setup_def)
  have "state_ok (en_limits ?e) (unwrap_or (hm_get (en_states ?e) f) default_flow_state)"
    using make_room_wf(1) [OF assms] by (simp add: engine_wf_def states_ok_get)
  then have ok: "buffer_ok (el_window (en_limits ?e)) ib"
    if "ib = (if to_server then fs_to_server st else fs_to_client st)"
      "st = (unwrap_or (hm_get (en_states ?e) f) default_flow_state)\<lparr>fs_last_seen := now\<rparr>" for ib st
    using that by (simp add: state_ok_def)
  obtain ib start lost where a: "append_bytes (let st = (unwrap_or (hm_get (en_states ?e) f) default_flow_state)\<lparr>fs_last_seen := now\<rparr>
      in if to_server then fs_to_server st else fs_to_client st) bs (en_longest_pattern ?e - 1) (el_window (en_limits ?e)) = (ib, start, lost)"
    by (metis surj_pair)
  note b = ok [OF refl refl]
  have s: "start \<le> length (ib_data ib)" "length (ib_data ib) \<le> el_window (en_limits e)"
    using append_window(3) [OF _ a] append_buffer_ok [OF _ a] b l by (simp_all add: buffer_ok_def Let_def)
  then show ?thesis unfolding extend_window_def using a
    by (simp add: Let_def slice_def)
qed

lemma apply_pending_setup: "same_setup e (apply_pending f pending now e)"
  using make_room_frame [of e "en_limits e"] by (simp add: apply_pending_def Let_def same_setup_def)

lemma inspect_buffers_setup:
  assumes "inspect_buffers e f input bufs now = Some (e', alerts)"
  shows "same_setup e e'"
proof -
  have "same_setup e2 e'" if "e' = apply_pending f pending now e2" for pending e2
    using that apply_pending_setup by simp
  with assms show ?thesis unfolding inspect_buffers_def Let_def
    by (fastforce simp: same_setup_def same_flows_def split: if_splits bind_splits dest!: packets.loop_frame)
qed

lemma stream_returns:
  assumes "engine_wf e" and "calm_ruleset (en_ruleset e)" and "el_window (en_limits e) < 2 ^ 61"
    and "\<not> engine_needs_http e" and "length (rs_rules (en_ruleset e)) + ec_matches (en_counters e) < 2 ^ 32"
    and "compile rb ac rules vt limits = (en_ruleset e, report)"
  shows "\<exists>e' alerts. inspect_stream e f tuple to_server bs now = Some (e', alerts)"
proof (cases "bs = []")
  case False
  obtain e1 region where d: "extend_window e f to_server bs now = Some (e1, region)" "length region \<le> el_window (en_limits e)"
    using deliver_returns [OF assms(1)] by blast
  have f: "same_setup e e1" "ec_matches (en_counters e1) = ec_matches (en_counters e)"
    using d(1) make_room_frame [of e "en_limits e"]
    by (auto simp: extend_window_def Let_def same_setup_def split: bind_splits prod.splits)
  let ?input = "\<lparr>mi_tuple = tuple, mi_established = True, mi_to_server = to_server,
    mi_buffers = default_buffers\<lparr>bf_payload := region\<rparr>\<rparr>"
  have "buffers_get (default_buffers\<lparr>bf_payload := region\<rparr>) b = Some hay \<Longrightarrow> length hay < 2 ^ 61" for b hay
    using d(2) assms(3) by (cases b) (simp_all add: default_buffers_def)
  then have "short_buffers (mi_buffers ?input)" by (simp add: short_buffers_def)
  moreover have len: "length (candidates_in (en_ruleset e1) hs) \<le> length (rs_rules (en_ruleset e))" for hs
  proof -
    have "set (candidates_in (en_ruleset e) hs) \<subseteq> {..<length (rs_rules (en_ruleset e))}"
      using candidates_are_rules [OF assms(6)] by auto
    then show ?thesis
      using card_mono [OF finite_lessThan] distinct_card [OF candidates_sorted(2)] f(1)
      by (metis card_lessThan same_setup_def)
  qed
  ultimately have "\<exists>e' alerts. inspect_buffers e1 f ?input [Payload] now = Some (e', alerts)"
    using inspect_buffers_returns [OF deliver_wf [OF assms(1) d(1)], of ?input "[Payload]" f now] assms(2,5) f
      len [of "haystacks (mi_buffers ?input) [Payload]"]
    by (simp add: same_setup_def)
  then obtain e2 alerts where i: "inspect_buffers e1 f ?input [Payload] now = Some (e2, alerts)" by blast
  then have "en_ruleset e2 = en_ruleset e1" using inspect_buffers_setup by (simp add: same_setup_def)
  then show ?thesis using False d(1) i f(1) assms(4)
    by (auto simp: inspect_stream_def engine_needs_http_def same_setup_def)
qed (simp add: inspect_stream_def)

section \<open>Rules that cannot fail\<close>

text \<open>No jump with an offset behind it, and no threshold whose counter could run over.\<close>

definition steady :: "engine \<Rightarrow> bool" where
  "steady e \<longleftrightarrow> list_all (\<lambda>r. list_all plain_option (cr_options r) \<and> cr_threshold r = None) (rs_rules (en_ruleset e)) \<and>
     list_all (\<lambda>r. hr_threshold r = None) (hs_rules (en_host_rules e))"

lemma steady_setup: "steady e \<Longrightarrow> same_setup e e' \<Longrightarrow> steady e'"
  by (simp add: steady_def same_setup_def)

lemma steady_buffers:
  assumes "steady e" "engine_wf e"
  shows "\<exists>e' alerts. inspect_buffers e f input bufs now = Some (e', alerts) \<and> steady e' \<and> engine_wf e'"
proof -
  let ?hs = "haystacks (mi_buffers input) bufs" and ?cands = "candidates_in (en_ruleset e) (haystacks (mi_buffers input) bufs)"
  define e1 where "e1 = upd_ec (\<lambda>c. c\<lparr>ec_inspections := ec_inspections c + 1,
      ec_bytes_inspected := ec_bytes_inspected c + sum_list (map (length \<circ> snd) ?hs),
      ec_candidates := ec_candidates c + length ?cands\<rparr>) e"
  have member: "r \<in> set (rs_rules (en_ruleset e))" if "rule_at (en_ruleset e1) i = Some r" for r i
    using that by (auto simp: rule_at_def e1_def split: if_splits)
  have plain: "list_all plain_option (cr_options r)" and rule2: "cr_threshold r = None"
    if "rule_at (en_ruleset e1) i = Some r" for r i
    using assms(1) member [OF that] by (simp_all add: steady_def list_all_iff)
  have rule1: "evaluate r input bits \<noteq> None" if "rule_at (en_ruleset e1) i = Some r" for r i bits
    using plain [OF that] by (intro evaluate_returns) (simp add: list_all_iff)
  have "inspect_candidates input (flow_bits_of e1 f) now ?cands e1 \<noteq> None"
  proof (rule packets.loop_free)
    show "packet_verdict input (flow_bits_of e1 f) now e1 i \<noteq> None" for i
      using rule1 [of i] by (cases "rule_at (en_ruleset e1) i") (simp_all add: packet_verdict_def del: not_None_eq)
    show "allows e2 \<noteq> None"
      if "packet_verdict input (flow_bits_of e1 f) now e1 i = Some (Some (effects, allows, no_alert, alert))"
      for i effects allows no_alert alert e2
      using that rule2 [of i] by (auto simp: packet_verdict_def threshold_allows_def split: option.splits)
  qed
  then have "inspect_buffers e f input bufs now \<noteq> None"
    unfolding inspect_buffers_def Let_def e1_def [symmetric] by auto
  then obtain e' alerts where i: "inspect_buffers e f input bufs now = Some (e', alerts)" by auto
  then show ?thesis using inspect_buffers_wf [OF assms(2) i] steady_setup [OF assms(1) inspect_buffers_setup [OF i]] by blast
qed

lemma steady_requests:
  "steady e \<Longrightarrow> engine_wf e \<Longrightarrow> \<exists>e' alerts. inspect_requests e f tuple requests now = Some (e', alerts) \<and> steady e'"
proof (induction requests arbitrary: e)
  case (Cons request requests)
  obtain e1 alerts1 where a: "inspect_buffers e f (http_input tuple request) http_buffers now = Some (e1, alerts1)" "steady e1" "engine_wf e1"
    using steady_buffers [OF Cons.prems] by blast
  then show ?case using Cons.IH [OF a(2,3)] by auto
qed simp

lemma steady_http: "steady e \<Longrightarrow> engine_wf e \<Longrightarrow> \<exists>e' alerts. inspect_http e f tuple bs now = Some (e', alerts) \<and> steady e'"
proof (cases "hm_get (en_states e) f")
  case (Some st)
  assume s: "steady e" and wf: "engine_wf e"
  define parser where "parser = unwrap_or (fs_http st) (http_parser_new (el_max_http_head (en_limits e)))"
  obtain parser' requests where push: "http_push parser bs (el_normalize (en_limits e)) = (parser', requests)" by (metis surj_pair)
  let ?e = "e\<lparr>en_states := hm_insert f (st\<lparr>fs_http := Some parser'\<rparr>) (en_states e)\<rparr>"
  have "steady ?e" using s by (simp add: steady_def)
  moreover have "engine_wf ?e" using parsed_state_wf [OF wf Some] push by (simp add: parser_def)
  ultimately show ?thesis using steady_requests [of ?e f tuple requests now] by (simp add: inspect_http_def Some push parser_def [symmetric])
qed (simp add: inspect_http_def)

lemma steady_stream:
  assumes "steady e" "engine_wf e"
  shows "\<exists>e' alerts. inspect_stream e f tuple to_server bs now = Some (e', alerts) \<and> steady e'"
proof (cases "bs = []")
  case False
  obtain e1 region where d: "extend_window e f to_server bs now = Some (e1, region)" using deliver_returns [OF assms(2)] by blast
  have "same_setup e e1"
    using d make_room_frame [of e "en_limits e"]
    by (auto simp: extend_window_def Let_def same_setup_def split: bind_splits prod.splits)
  then have e1: "steady e1" "engine_wf e1" using steady_setup assms deliver_wf [OF assms(2) d] by blast+
  from steady_buffers [OF this] obtain e2 alerts where b: "inspect_buffers e1 f \<lparr>mi_tuple = tuple, mi_established = True, mi_to_server = to_server,
      mi_buffers = default_buffers\<lparr>bf_payload := region\<rparr>\<rparr> [Payload] now = Some (e2, alerts)" "steady e2" "engine_wf e2" by blast
  obtain e3 alerts' where "inspect_http e2 f tuple bs now = Some (e3, alerts')" "steady e3" using steady_http [OF b(2,3)] by blast
  with b d False show ?thesis by (simp add: inspect_stream_def)
qed (use assms in \<open>simp add: inspect_stream_def\<close>)

lemma steady_host:
  assumes "steady e"
  shows "\<exists>e' alerts. inspect_host e obs now = Some (e', alerts) \<and> steady e'"
proof (cases "host_candidates (en_host_rules e) (obs_kind obs) = []")
  case False
  let ?e = "upd_ec (\<lambda>c. c\<lparr>ec_inspections := ec_inspections c + 1\<rparr>) e"
  have "inspect_host_candidates obs (en_host_bits e) now (host_candidates (en_host_rules e) (obs_kind obs)) ?e \<noteq> None"
  proof (rule hosts.loop_free)
    show "host_verdict obs (en_host_bits e) now ?e i \<noteq> None" for i by (simp add: host_verdict_def)
    show "allows e2 \<noteq> None" if "host_verdict obs (en_host_bits e) now ?e i = Some (Some (effects, allows, no_alert, alert))"
      for i effects allows no_alert alert e2
      using that assms by (auto simp: host_verdict_def host_threshold_allows_def steady_def list_all_iff host_rule_at_def split: option.splits if_splits
          dest!: nth_mem)
  qed
  then obtain e1 pending alerts where l: "inspect_host_candidates obs (en_host_bits e) now
      (host_candidates (en_host_rules e) (obs_kind obs)) ?e = Some (e1, pending, alerts)" by auto
  have "same_setup ?e e1" using hosts.loop_frame [OF l] by (simp add: same_flows_def)
  then have "steady e1" using assms by (simp add: steady_def same_setup_def)
  then show ?thesis using False l by (simp add: inspect_host_def steady_def)
qed (use assms in \<open>simp add: inspect_host_def\<close>)

lemma steady_handle:
  assumes "steady e" "engine_wf e"
  shows "\<exists>e' alerts. engine_handle e ev = Some (e', alerts) \<and> steady e' \<and> engine_wf e'"
proof -
  have "\<exists>e' alerts. engine_handle e ev = Some (e', alerts) \<and> steady e'"
    using steady_buffers [OF assms] steady_stream [OF assms] steady_host [OF assms(1)] assms(1)
    by (cases ev) (simp_all add: inspect_packet_def on_flow_end_def steady_def, blast)
  then show ?thesis using engine_handle_wf [OF assms(2)] by blast
qed

text \<open>C38. Inspection returns. When the ruleset has no threshold and no \<open>byte_jump\<close> with an offset behind the jump, nothing an attacker sends makes the engine
  panic or stop: whatever packets, stream deliveries (with the HTTP requests parsed from them), host records and ended flows it is given, of
  whatever length and in whatever order, it inspects each and goes on. (A threshold counts in 32 bits and a jump with an offset adds in 64, so for
  other rules this holds only as long as those do not overflow.)\<close>

theorem inspection_returns:
  assumes "steady (fst (engine_new rb hb ac rules vt limits))"
  shows "\<exists>e. foldl engine_step (Some (fst (engine_new rb hb ac rules vt limits))) events = Some e"
proof -
  have "\<exists>e'. foldl engine_step (Some e) events = Some e'" if "steady e" "engine_wf e" for e
    using that
  proof (induction events arbitrary: e)
    case (Cons ev events)
    obtain e1 alerts where "engine_handle e ev = Some (e1, alerts)" "steady e1" "engine_wf e1" using steady_handle [OF Cons.prems] by blast
    then show ?case using Cons.IH [of e1] by (simp add: engine_step_def)
  qed simp
  then show ?thesis using assms engine_new_wf by blast
qed

lemma small_engine_fresh:
  "en_counters (small_engine rules) = zero_counters" "en_states (small_engine rules) = []"
  "en_thresholds (small_engine rules) = []" "en_limits (small_engine rules) = small_limits"
  by (simp_all add: small_engine_def engine_new_def split_def Let_def)

text \<open>A flow that has delivered two bytes of the pattern's surroundings.\<close>

definition half_way :: engine where
  "half_way = (small_engine [sample_rule [Content (content_new [6, 7])]])\<lparr>en_states :=
     [(1, default_flow_state\<lparr>fs_to_server := \<lparr>ib_data = [5, 6], ib_scanned = 2\<rparr>\<rparr>)]\<rparr>"

theorem split_pattern_alerts_witness:
  "\<exists>e' alerts. inspect_stream half_way 1 sample_tuple True [7, 8] 0 = Some (e', alerts) \<and>
     packet_alert ((open_rule [COContent (content_new [6, 7])])\<lparr>cr_needs_http :=
       rule_needs_http (sample_rule [Content (content_new [6, 7])])\<rparr>) \<in> set alerts \<and>
     holds_window e' 1 True [5, 6, 7, 8]"
proof -
  let ?r = "(open_rule [COContent (content_new [6, 7])])\<lparr>cr_needs_http := rule_needs_http (sample_rule [Content (content_new [6, 7])])\<rparr>"
  have rs: "compile no_regex naive_ac [sample_rule [Content (content_new [6, 7])]] no_vars sample_limits =
      (en_ruleset half_way, snd (compile no_regex naive_ac [sample_rule [Content (content_new [6, 7])]] no_vars sample_limits))"
    by (simp add: half_way_def small_engine_rules)
  have lp: "en_longest_pattern half_way = 2"
    by (simp add: half_way_def small_engine_rules longest_pattern_def open_rule_def content_new_def List.map_filter_simps)
  have "engine_wf (small_engine [sample_rule [Content (content_new [6, 7])]])" by (simp add: small_engine_def engine_new_wf)
  then have wf: "engine_wf half_way" 
    by (simp add: half_way_def engine_wf_def small_engine_rules small_limits_def states_ok_def hm_invar_def state_ok_def
        default_flow_state_def bits_ok_def buffer_ok_def empty_inspection_def threshold_table_ok_def counts_below_def)
  have "\<not> ruleset_needs_http (fst (compile no_regex naive_ac [sample_rule [Content (content_new [6, 7])]] no_vars sample_limits))"
    by code_simp
  then have nh: "\<not> engine_needs_http half_way" by (simp add: engine_needs_http_def half_way_def small_engine_rules)
  have calm: "calm_ruleset (en_ruleset half_way)" "length (rs_rules (en_ruleset half_way)) + ec_matches (en_counters half_way) < 2 ^ 32"
    by (simp_all add: calm_ruleset_def half_way_def small_engine_rules small_engine_fresh open_rule_def calm_option_def
        threshold_sane_def zero_counters_def)
  have win: "el_window (en_limits half_way) < 2 ^ 61" by (simp add: half_way_def small_engine_rules small_limits_def)
  obtain e' alerts where run: "inspect_stream half_way 1 sample_tuple True [7, 8] 0 = Some (e', alerts)"
    using stream_returns [OF wf calm(1) win nh calm(2) rs] by blast
  have "packet_alert ?r \<in> set alerts \<and> holds_window e' 1 True ([5, 6] @ [7, 8])"
    by (rule split_pattern_alerts [OF naive_ac_faithful rs _ _ _ _ _ _ _ _ _ _ _ _ _ _ run, where c = "content_new [6, 7]" and p = 1])
      (simp_all add: lp hm_invar_def small_engine_rules half_way_def small_limits_def plain_content_def content_new_def open_rule_def
        header_matches_def one_way_def sample_tuple_def holds_window_def flow_buffer_def occurs_def bytes_match_def
        everything_def address_set_contains_def port_set_contains_def set_contains_def longest_pattern_def)
  with run show ?thesis by auto
qed

text \<open>Two rules: the longer pattern of the second one sets the overlap for both.\<close>

lemma small_engine_two:
  fixes c d :: content_match
  defines "rules \<equiv> [sample_rule [Content c], sample_rule [Content d]]"
  shows "en_ruleset (small_engine rules) = fst (compile no_regex naive_ac rules no_vars sample_limits)"
    and "en_longest_pattern (small_engine rules) = longest_pattern (rs_rules (en_ruleset (small_engine rules)))"
    and "rs_rules (fst (compile no_regex naive_ac rules no_vars sample_limits)) =
      [(open_rule [COContent c])\<lparr>cr_needs_http := rule_needs_http (sample_rule [Content c])\<rparr>,
       (open_rule [COContent d])\<lparr>cr_needs_http := rule_needs_http (sample_rule [Content d])\<rparr>]"
proof -
  have n: "\<not> is_host_rule_by_options (sample_rule [Content x])" for x
    by (simp add: is_host_rule_by_options_def sample_rule_def)
  show "en_ruleset (small_engine rules) = fst (compile no_regex naive_ac rules no_vars sample_limits)"
    "en_longest_pattern (small_engine rules) = longest_pattern (rs_rules (en_ruleset (small_engine rules)))"
    using n by (simp_all add: rules_def small_engine_def engine_new_def small_limits_def split: prod.splits)
  have "is_evaluable (sample_rule [Content x])" for x by (simp add: is_evaluable_def sample_rule_def)
  then show "rs_rules (fst (compile no_regex naive_ac rules no_vars sample_limits)) =
      [(open_rule [COContent c])\<lparr>cr_needs_http := rule_needs_http (sample_rule [Content c])\<rparr>,
       (open_rule [COContent d])\<lparr>cr_needs_http := rule_needs_http (sample_rule [Content d])\<rparr>]"
    using compile_sample_rule [of sample_limits "[Content c]"] compile_sample_rule [of sample_limits "[Content d]"]
    by (auto simp: rules_def compile_def compile_step_def add_rule_def empty_compile_def Let_def split: prod.splits option.splits)
qed

abbreviation two_rules :: "rule list" where
  "two_rules \<equiv> [sample_rule [Content (content_new [6])], sample_rule [Content (content_new [1, 2, 3, 4])]]"

definition seen_once :: engine where
  "seen_once = (small_engine two_rules)\<lparr>en_states := [(1, default_flow_state\<lparr>fs_to_server := \<lparr>ib_data = [6], ib_scanned = 1\<rparr>\<rparr>)]\<rparr>"

lemma seen_once_facts:
  "compile no_regex naive_ac two_rules no_vars sample_limits =
     (en_ruleset seen_once, snd (compile no_regex naive_ac two_rules no_vars sample_limits))"
  "en_longest_pattern seen_once = 4" "en_longest_pattern seen_once = longest_pattern (rs_rules (en_ruleset seen_once))"
  "en_limits seen_once = small_limits" "\<not> engine_needs_http seen_once" "calm_ruleset (en_ruleset seen_once)"
  "length (rs_rules (en_ruleset seen_once)) + ec_matches (en_counters seen_once) < 2 ^ 32" "engine_wf seen_once"
proof -
  show "compile no_regex naive_ac two_rules no_vars sample_limits =
      (en_ruleset seen_once, snd (compile no_regex naive_ac two_rules no_vars sample_limits))"
    by (simp add: seen_once_def small_engine_two)
  show "en_longest_pattern seen_once = 4" "en_longest_pattern seen_once = longest_pattern (rs_rules (en_ruleset seen_once))"
    "en_limits seen_once = small_limits"
    by (simp_all add: seen_once_def small_engine_two small_engine_fresh longest_pattern_def open_rule_def content_new_def List.map_filter_simps)
  have "\<not> ruleset_needs_http (fst (compile no_regex naive_ac two_rules no_vars sample_limits))" by code_simp
  then show "\<not> engine_needs_http seen_once" by (simp add: engine_needs_http_def seen_once_def small_engine_two)
  show "calm_ruleset (en_ruleset seen_once)"
    "length (rs_rules (en_ruleset seen_once)) + ec_matches (en_counters seen_once) < 2 ^ 32"
    by (simp_all add: calm_ruleset_def seen_once_def small_engine_two small_engine_fresh open_rule_def calm_option_def
        threshold_sane_def zero_counters_def)
  have "engine_wf (small_engine two_rules)" by (simp add: small_engine_def engine_new_wf)
  then show "engine_wf seen_once"
    by (simp add: seen_once_def engine_wf_def small_engine_fresh small_limits_def states_ok_def hm_invar_def state_ok_def
        default_flow_state_def bits_ok_def buffer_ok_def empty_inspection_def threshold_table_ok_def counts_below_def)
qed

theorem overlap_alerts_again_witness:
  "\<exists>e' alerts. inspect_stream seen_once 1 sample_tuple True [9] 0 = Some (e', alerts) \<and>
     packet_alert ((open_rule [COContent (content_new [6])])\<lparr>cr_needs_http :=
       rule_needs_http (sample_rule [Content (content_new [6])])\<rparr>) \<in> set alerts"
proof -
  note f = seen_once_facts
  have win: "el_window (en_limits seen_once) < 2 ^ 61" by (simp add: f(4) small_limits_def)
  obtain e' alerts where run: "inspect_stream seen_once 1 sample_tuple True [9] 0 = Some (e', alerts)"
    using stream_returns [OF f(8,6) win f(5,7,1)] by blast
  have "packet_alert ((open_rule [COContent (content_new [6])])\<lparr>cr_needs_http :=
      rule_needs_http (sample_rule [Content (content_new [6])])\<rparr>) \<in> set alerts"
    by (rule overlap_alerts_again [OF naive_ac_faithful f(1,3) _ _ _ _ _ _ _ _ _ _ _ _ _ run, where c = "content_new [6]" and p = 0 and seen = "[6]"])
      (simp_all add: f(2,4) hm_invar_def small_engine_fresh small_engine_two seen_once_def longest_pattern_def List.map_filter_simps small_limits_def plain_content_def content_new_def open_rule_def
        header_matches_def one_way_def sample_tuple_def holds_window_def flow_buffer_def occurs_def bytes_match_def
        everything_def address_set_contains_def port_set_contains_def set_contains_def)
  with run show ?thesis by blast
qed

theorem threshold_alerts_witness:
  "\<exists>e' verdicts. count_events (small_engine []) 1 \<lparr>th_kind = Threshold, th_track = BySource, th_count = 2, th_seconds = 60\<rparr> ''a''
     [0, 1, 2] = Some (e', verdicts) \<and> length (filter (\<lambda>v. v) verdicts) = 1"
proof -
  let ?t = "\<lparr>th_kind = Threshold, th_track = BySource, th_count = 2, th_seconds = 60\<rparr>"
  have "\<exists>e' verdicts. count_events (small_engine []) 1 ?t ''a'' (0 # [1, 2]) = Some (e', verdicts) \<and>
      length (filter (\<lambda>v. v) verdicts) = (case th_kind ?t of Threshold \<Rightarrow> Suc (length [1 :: int, 2]) div th_count ?t
        | Limit \<Rightarrow> min (Suc (length [1 :: int, 2])) (th_count ?t) | Both \<Rightarrow> if th_count ?t \<le> Suc (length [1 :: int, 2]) then 1 else 0)"
    by (rule threshold_alerts)
      (auto simp: small_engine_fresh small_limits_def within_window_of_def duration_since_def secs_def nanos_per_sec_def)
  then show ?thesis by (simp del: count_events.simps)
qed

theorem inspection_exact_witness:
  "inspect_candidates (payload_input [5, 6, 7]) {} 0
     (candidates_in (en_ruleset (small_engine two_rules)) (haystacks (mi_buffers (payload_input [5, 6, 7])) [Payload])) (small_engine two_rules) =
   inspect_candidates (payload_input [5, 6, 7]) {} 0 [0, 1] (small_engine two_rules)"
proof -
  have "compile no_regex naive_ac two_rules no_vars sample_limits =
      (en_ruleset (small_engine two_rules), snd (compile no_regex naive_ac two_rules no_vars sample_limits))"
    by (simp add: small_engine_two)
  moreover have "buffers_get (mi_buffers (payload_input [5, 6, 7])) b \<in> {None, Some []}" if "b \<notin> set [Payload]" for b
    using that by (cases b) (simp_all add: payload_input_def default_buffers_def)
  moreover have "evaluate r (payload_input [5, 6, 7]) {} \<noteq> None" if "r \<in> set (rs_rules (en_ruleset (small_engine two_rules)))" for r
  proof (rule evaluate_total_lemma)
    show "list_all calm_option (cr_options r)" using that by (auto simp: small_engine_two open_rule_def calm_option_def)
    have "buffers_get (mi_buffers (payload_input [5, 6, 7])) b = Some hay \<Longrightarrow> length hay < 2 ^ 61" for b hay
      by (cases b) (auto simp: payload_input_def default_buffers_def)
    then show "short_buffers (mi_buffers (payload_input [5, 6, 7]))" by (simp add: short_buffers_def)
  qed
  moreover have "[0..<length (rs_rules (en_ruleset (small_engine two_rules)))] = [0, 1]" by (simp add: small_engine_two upt_rec)
  ultimately show ?thesis using inspection_exact [OF naive_ac_faithful] by metis
qed

theorem engine_bounded_witness:
  "let e = on_flow_end (small_engine two_rules) 7 in length (en_states e) \<le> 4 \<and> ec_matches (en_counters e) = ec_alerts (en_counters e) +
     ec_thresholded (en_counters e) + ec_silent (en_counters e)"
proof -
  have "foldl engine_step (Some (fst (engine_new no_regex no_host_regex naive_ac two_rules no_vars small_limits))) [OnFlowEnd 7] =
      Some (on_flow_end (small_engine two_rules) 7)"
    by (simp add: engine_step_def small_engine_def)
  from engine_bounded [OF this] show ?thesis
    by (simp add: Let_def on_flow_end_def small_engine_fresh small_limits_def)
qed

lemma small_steady: "steady (small_engine two_rules)"
proof -
  have "hs_rules (en_host_rules (small_engine two_rules)) = []"
    by (simp add: small_engine_def engine_new_def Let_def split_def compile_hosts_def is_host_rule_by_options_def sample_rule_def empty_host_compile_def)
  then show ?thesis by (simp add: steady_def small_engine_two open_rule_def plain_option_def)
qed

theorem inspection_returns_witness:
  "\<exists>e. foldl engine_step (Some (small_engine two_rules)) [OnStream 1 sample_tuple True [5, 6] 0, OnPacket 1 sample_tuple True [1, 2, 3, 4, 6] 1, OnFlowEnd 1] = Some e \<and>
     candidates_in (en_ruleset (small_engine two_rules)) [(Payload, [5, 6])] \<noteq> []"
proof -
  have "candidates_in (fst (compile no_regex naive_ac two_rules no_vars sample_limits)) [(Payload, [5, 6])] \<noteq> []" by code_simp
  then show ?thesis
    using inspection_returns [OF small_steady [unfolded small_engine_def]] by (simp add: small_engine_def [symmetric] small_engine_two del: foldl.simps)
qed

section \<open>Where the engine surprises\<close>

text \<open>A request is inspected with an empty payload, not with an absent one: a rule that asks for a pattern to be missing
  from the payload matches every HTTP request of the flow, whatever bytes were delivered, although it does
  not match those bytes when they hold the pattern.\<close>

theorem negated_payload_matches_requests:
  assumes "cr_options r = [COContent c]" and "cm_negated c" and "cm_buffer c = Payload" and "cm_pattern c \<noteq> []"
    and "header_matches (cr_header r) tuple"
  shows "evaluate r (http_input tuple request) bits = Some (Some [])"
proof -
  have "\<not> (\<exists>p. content_hit c [] 0 p)" using assms(4) by (auto simp: content_hit_def occurs_def)
  then have "match_content c [] 0 = Some (True, 0)" using assms(2,4) by (simp add: match_content_cases)
  then show ?thesis
    using assms(1,3,5) by (simp add: evaluate_def with_cursor_def http_input_def initial_state_def)
qed

theorem negated_payload_matches_requests_witness:
  "evaluate (open_rule [COContent ((content_new [7])\<lparr>cm_negated := True\<rparr>)]) (payload_input [7]) {} = Some None \<and>
   evaluate (open_rule [COContent ((content_new [7])\<lparr>cm_negated := True\<rparr>)]) (http_input sample_tuple
     \<lparr>rq_method = [7], rq_raw_uri = [7], rq_uri = [7], rq_normalization = default_flags, rq_version = [], rq_headers = [7],
       rq_user_agent = None, rq_host = None, rq_truncated = False\<rparr>) {} = Some (Some [])"
proof
  show "evaluate (open_rule [COContent ((content_new [7])\<lparr>cm_negated := True\<rparr>)]) (payload_input [7]) {} = Some None"
    by code_simp
qed (rule negated_payload_matches_requests [where c = "(content_new [7])\<lparr>cm_negated := True\<rparr>"],
    simp_all add: open_rule_def content_new_def header_matches_def one_way_def sample_tuple_def everything_def
      address_set_contains_def port_set_contains_def set_contains_def)

lemma evicted_get: "hm_get (en_states (evict_states ids e)) f = (if f \<in> set ids then None else hm_get (en_states e) f)"
  by (induction ids arbitrary: e) (auto simp: delete_conv' hm_contains_def)

lemma oldest_first:
  fixes t :: int
  assumes "(t, f) \<in> set xs" and "\<And>u g. (u, g) \<in> set xs \<Longrightarrow> g \<noteq> f \<Longrightarrow> t < u" and "distinct (map snd xs)" and "0 < n"
  shows "f \<in> set (map snd (take n (sort_key fst xs)))"
proof -
  let ?ys = "sort_key fst xs"
  have "?ys \<noteq> []" using assms(1) by (metis empty_iff list.set(1) set_sort)
  then obtain u g ys where ys: "?ys = (u, g) # ys" by (cases ?ys) auto
  have sorted: "sorted (map fst ?ys)" by simp
  have "(t, f) \<in> set ?ys" using assms(1) by simp
  then have "u \<le> t" using sorted unfolding ys by auto
  moreover have "(u, g) \<in> set xs" using ys by (metis list.set_intros(1) set_sort)
  ultimately have "g = f" using assms(2) by fastforce
  with ys assms(4) show ?thesis by (cases n) simp_all
qed

text \<open>Room is made even when none is needed: with the table at its cap, a delivery for a flow that already has its
  state evicts that flow first when it is the one seen longest ago, so that the window it would have
  continued is lost and only the new bytes are scanned.\<close>

theorem full_table_forgets:
  assumes "hm_invar (en_states e)" and "hm_get (en_states e) f = Some st"
    and "length (en_states e) = el_max_flow_states (en_limits e)"
    and "\<And>g st'. (g, st') \<in> set (en_states e) \<Longrightarrow> g \<noteq> f \<Longrightarrow> fs_last_seen st < fs_last_seen st'"
    and "extend_window e f to_server bs now = Some (e1, region)"
  shows "\<exists>n. region = drop n bs"
proof -
  let ?xs = "map (\<lambda>(i, st). (fs_last_seen st, i)) (en_states e)"
  define ids where "ids = map snd (take (max (el_max_flow_states (en_limits e) div 10) 1) (sort_key fst ?xs))"
  have "f \<in> set ids" unfolding ids_def
  proof (rule oldest_first [where t = "fs_last_seen st"])
    show "(fs_last_seen st, f) \<in> set ?xs" using hm_get_in_set [OF assms(2)] by force
    show "\<And>u g. (u, g) \<in> set ?xs \<Longrightarrow> g \<noteq> f \<Longrightarrow> fs_last_seen st < u" using assms(4) by auto
    have "map snd ?xs = map fst (en_states e)" by (simp add: split_def o_def)
    then show "distinct (map snd ?xs)" using assms(1) by (simp only: hm_invar_def)
  qed simp
  moreover have "engine_make_room e = evict_states ids e"
    using assms(3) by (simp add: engine_make_room_def Let_def ids_def)
  ultimately have gone: "hm_get (en_states (engine_make_room e)) f = None" by (simp add: evicted_get)
  obtain ib start lost where a: "append_bytes empty_inspection bs (en_longest_pattern (engine_make_room e) - 1)
      (el_window (en_limits (engine_make_room e))) = (ib, start, lost)" by (metis surj_pair)
  have "region = drop start (ib_data ib)"
    using assms(5) a by (auto simp: extend_window_def Let_def gone default_flow_state_def slice_def split: if_splits)
  with append_window(5) [OF _ a] show ?thesis by (auto simp: empty_inspection_def)
qed

definition full_engine :: engine where
  "full_engine = half_way\<lparr>en_limits := small_limits\<lparr>el_max_flow_states := 1\<rparr>\<rparr>"

theorem full_table_forgets_witness:
  "\<exists>e1 region n. extend_window full_engine 1 True [7] 5 = Some (e1, region) \<and> region = drop n [7]"
proof -
  have st: "en_states full_engine = [(1, default_flow_state\<lparr>fs_to_server := \<lparr>ib_data = [5, 6], ib_scanned = 2\<rparr>\<rparr>)]"
    by (simp add: full_engine_def half_way_def)
  have cap: "el_max_flow_states (en_limits full_engine) = 1" by (simp add: full_engine_def)
  have "engine_wf (small_engine [sample_rule [Content (content_new [6, 7])]])" by (simp add: small_engine_def engine_new_wf)
  then have "engine_wf full_engine"
    by (simp add: full_engine_def half_way_def engine_wf_def small_engine_rules small_limits_def states_ok_def hm_invar_def
        state_ok_def default_flow_state_def bits_ok_def buffer_ok_def empty_inspection_def threshold_table_ok_def counts_below_def)
  then obtain e1 region where d: "extend_window full_engine 1 True [7] 5 = Some (e1, region)" using deliver_returns by blast
  have "\<exists>n. region = drop n [7]"
    by (rule full_table_forgets [OF _ _ _ _ d]) (simp_all add: st cap hm_invar_def)
  with d show ?thesis by blast
qed

end
