(* ===== verification/RuleParser.thy ===== *)
theory RuleParser
  imports RuleOptions
begin

text \<open>
  The text of a rule (\<open>crates/rules/src/parser.rs\<close>): the header fields, the option block with its quoting
  and escapes, the values of each option, and the assembly into a rule. The \<open>?\<close> operator is \<open>and_then\<close>.
  Error messages keep their fixed part; the input text they quote is left out. Text is a list of
  characters below 256.
\<close>

section \<open>Errors and text\<close>

datatype parse_error = EmptyRule | MissingOptionBlock | UnterminatedOptionBlock | UnterminatedString
  | HeaderFieldCount nat | UnknownAction string | PreventionAction string | UnknownProtocol string
  | InvalidDirection string | InvalidAddress string string | InvalidPort string string | MissingOptionValue string
  | InvalidOptionValue string string | UnknownOption string | DuplicateOption string | MissingSid | MissingMsg

definition and_then :: "'e + 'a \<Rightarrow> ('a \<Rightarrow> 'e + 'b) \<Rightarrow> 'e + 'b" where
  "and_then x f = (case x of Inl e \<Rightarrow> Inl e | Inr a \<Rightarrow> f a)"

definition map_err :: "('e \<Rightarrow> 'f) \<Rightarrow> 'e + 'a \<Rightarrow> 'f + 'a" where
  "map_err g x = (case x of Inl e \<Rightarrow> Inl (g e) | Inr a \<Rightarrow> Inr a)"

definition ok_or :: "'e \<Rightarrow> 'a option \<Rightarrow> 'e + 'a" where
  "ok_or e x = (case x of None \<Rightarrow> Inl e | Some a \<Rightarrow> Inr a)"

definition trim_start :: "string \<Rightarrow> string" where
  "trim_start cs = dropWhile is_space cs"

definition words_of :: "string \<Rightarrow> string list" where
  "words_of cs = split_whitespace cs [] []"

fun str_split :: "char \<Rightarrow> string \<Rightarrow> string list" where
  "str_split s [] = [[]]"
| "str_split s (c # cs) = (if c = s then [] # str_split s cs
     else case str_split s cs of p # ps \<Rightarrow> (c # p) # ps | [] \<Rightarrow> [[c]])"

text \<open>\<open>str::parse\<close> into a signed integer between two bounds.\<close>

definition parse_int :: "int \<Rightarrow> int \<Rightarrow> string \<Rightarrow> int option" where
  "parse_int lo hi cs = (case cs of
       c # ds \<Rightarrow> if c = CHR ''-'' then (if ds \<noteq> [] \<and> hd ds = CHR ''+'' then None else map_option (\<lambda>n. - int n) (parse_uint (nat (- lo)) ds))
         else map_option int (parse_uint (nat hi) cs)
     | [] \<Rightarrow> None)"

definition parse_i32 :: "string \<Rightarrow> int option" where "parse_i32 = parse_int (- (2 ^ 31)) (2 ^ 31 - 1)"
definition parse_i64 :: "string \<Rightarrow> int option" where "parse_i64 = parse_int (- (2 ^ 63)) (2 ^ 63 - 1)"

section \<open>The header\<close>

definition parse_action :: "string \<Rightarrow> parse_error + rule_action" where
  "parse_action cs = (let l = map char_lower cs in
     if l = ''alert'' then Inr RAlert
     else if l = ''pass'' then Inr RPass
     else if l = ''drop'' then Inr RDrop
     else if l = ''reject'' \<or> l = ''rejectsrc'' \<or> l = ''rejectdst'' \<or> l = ''rejectboth'' then Inl (PreventionAction cs)
     else Inl (UnknownAction cs))"

definition parse_protocol :: "string \<Rightarrow> parse_error + rule_protocol" where
  "parse_protocol cs = (let l = map char_lower cs in
     if l = ''ip'' then Inr RIp
     else if l = ''tcp'' then Inr RTcp
     else if l = ''udp'' then Inr RUdp
     else if l = ''icmp'' then Inr RIcmp
     else if l = ''http'' then Inr RHttp
     else if l = ''dns'' then Inr RDns
     else if l = ''tls'' then Inr RTls
     else Inl (UnknownProtocol cs))"

definition parse_direction :: "string \<Rightarrow> parse_error + direction" where
  "parse_direction cs = (if cs = ''->'' then Inr ToDestination else if cs = ''<>'' then Inr Bidirectional
     else Inl (InvalidDirection cs))"

definition split_negation :: "string \<Rightarrow> bool \<times> string" where
  "split_negation cs = (case strip_prefix (CHR ''!'') cs of Some rest \<Rightarrow> (True, trim_start rest) | None \<Rightarrow> (False, cs))"

definition validate_var_name :: "string \<Rightarrow> string + unit" where
  "validate_var_name name =
     (if name = [] then Inl ''must be followed by a variable name''
      else if \<not> list_all (\<lambda>c. to_digit 36 c \<noteq> None \<or> c = CHR ''_'') name then Inl ''must be alphanumeric or underscore''
      else Inr ())"

definition validate_address_literal :: "string \<Rightarrow> string + unit" where
  "validate_address_literal cs =
     (let (addr, prefix) = (case split_once (CHR ''/'') cs of Some (a, p) \<Rightarrow> (a, Some p) | None \<Rightarrow> (cs, None))
      in and_then (ok_or ''is not an IP address'' (parse_ip addr)) (\<lambda>a.
        case prefix of None \<Rightarrow> Inr ()
        | Some p \<Rightarrow> and_then (ok_or ''is not a prefix length'' (parse_uint u8_max p)) (\<lambda>bits.
            if max_prefix_len a < bits then Inl ''prefix length exceeds the address family'' else Inr ())))"

definition ends_with :: "char \<Rightarrow> string \<Rightarrow> bool" where
  "ends_with c cs \<longleftrightarrow> cs \<noteq> [] \<and> last cs = c"

definition parse_address :: "string \<Rightarrow> parse_error + address_spec" where
  "parse_address cs =
     (let (negated, body) = split_negation cs; bad = InvalidAddress cs in
      if body = [] then Inl (bad ''empty address'')
      else and_then
        (if is_any body then Inr AnyAddress
         else case strip_prefix (CHR ''$'') body of
           Some name \<Rightarrow> and_then (map_err bad (validate_var_name name)) (\<lambda>_. Inr (AddressVar name))
         | None \<Rightarrow>
             if strip_prefix (CHR ''['') body \<noteq> None
             then if \<not> ends_with (CHR '']'') body then Inl (bad ''address list is missing its closing bracket'')
                  else if length body = 2 then Inl (bad ''empty address list'')
                  else Inr (AddressList body)
             else and_then (map_err bad (validate_address_literal body)) (\<lambda>_. Inr (AddressLiteral body)))
        (\<lambda>v. Inr \<lparr>asp_negated = negated, asp_value = v\<rparr>))"

definition parse_optional_port :: "string \<Rightarrow> string + 16 word option" where
  "parse_optional_port cs = (let cs = str_trim cs in
     if cs = [] then Inr None
     else case parse_uint u16_max cs of Some p \<Rightarrow> Inr (Some (of_nat p)) | None \<Rightarrow> Inl ''is not a port number in 0..=65535'')"

definition parse_port_field :: "string \<Rightarrow> parse_error + port_spec" where
  "parse_port_field cs =
     (let (negated, body) = split_negation cs; bad = InvalidPort cs in
      if body = [] then Inl (bad ''empty port'')
      else and_then
        (if is_any body then Inr AnyPort
         else case strip_prefix (CHR ''$'') body of
           Some name \<Rightarrow> and_then (map_err bad (validate_var_name name)) (\<lambda>_. Inr (PortVar name))
         | None \<Rightarrow>
             if strip_prefix (CHR ''['') body \<noteq> None
             then if \<not> ends_with (CHR '']'') body then Inl (bad ''port list is missing its closing bracket'')
                  else if length body = 2 then Inl (bad ''empty port list'')
                  else Inr (PortList body)
             else case split_once (CHR '':'') body of
               Some (low, high) \<Rightarrow>
                 and_then (map_err bad (parse_optional_port low)) (\<lambda>low.
                 and_then (map_err bad (parse_optional_port high)) (\<lambda>high.
                   case (low, high) of
                     (Some l, Some h) \<Rightarrow> if h < l then Inl (bad ''range start is greater than range end'') else Inr (PortRange low high)
                   | _ \<Rightarrow> Inr (PortRange low high)))
             | None \<Rightarrow> and_then (ok_or (bad ''not a port number in 0..=65535'') (parse_uint u16_max body))
                 (\<lambda>p. Inr (PortSingle (of_nat p))))
        (\<lambda>v. Inr \<lparr>psp_negated = negated, psp_value = v\<rparr>))"

definition parse_header :: "string \<Rightarrow> parse_error + rule_header" where
  "parse_header cs = (let fields = words_of cs in
     case fields of
       [f0, f1, f2, f3, f4, f5, f6] \<Rightarrow>
         and_then (parse_action f0) (\<lambda>action.
         and_then (parse_protocol f1) (\<lambda>protocol.
         and_then (parse_address f2) (\<lambda>source.
         and_then (parse_port_field f3) (\<lambda>source_port.
         and_then (parse_direction f4) (\<lambda>direction.
         and_then (parse_address f5) (\<lambda>destination.
         and_then (parse_port_field f6) (\<lambda>destination_port.
           Inr \<lparr>rh_action = action, rh_protocol = protocol, rh_source = source, rh_source_port = source_port,
             rh_direction = direction, rh_destination = destination, rh_destination_port = destination_port\<rparr>)))))))
     | _ \<Rightarrow> Inl (HeaderFieldCount (length fields)))"

section \<open>The option block\<close>

record raw_option =
  raw_name :: string
  raw_value :: "string option"
  raw_negated :: bool

text \<open>The loop over the characters, with the options so far, the current one, and whether a quote is open.\<close>

fun split_options :: "string \<Rightarrow> string list \<Rightarrow> string \<Rightarrow> bool \<Rightarrow> parse_error + string list" where
  "split_options [] options current in_quotes =
     (if in_quotes then Inl UnterminatedString
      else if str_trim current \<noteq> [] then Inr (options @ [current]) else Inr options)"
| "split_options [c] options current in_quotes =
     (if c = CHR 0x5C then Inl UnterminatedString
      else if c = CHR 0x22 then split_options [] options (current @ [c]) (\<not> in_quotes)
      else if c = CHR '';'' \<and> \<not> in_quotes then split_options [] (options @ [current]) [] in_quotes
      else split_options [] options (current @ [c]) in_quotes)"
| "split_options (c # d # cs) options current in_quotes =
     (if c = CHR 0x5C then split_options cs options (current @ [c, d]) in_quotes
      else if c = CHR 0x22 then split_options (d # cs) options (current @ [c]) (\<not> in_quotes)
      else if c = CHR '';'' \<and> \<not> in_quotes then split_options (d # cs) (options @ [current]) [] in_quotes
      else split_options (d # cs) options (current @ [c]) in_quotes)"

definition split_option_list :: "string \<Rightarrow> parse_error + string list" where
  "split_option_list body = split_options body [] [] False"

fun name_length :: "string \<Rightarrow> bool \<Rightarrow> bool \<Rightarrow> nat option" where
  "name_length [] in_quotes escaped = None"
| "name_length (c # cs) in_quotes escaped =
     (if escaped then map_option Suc (name_length cs in_quotes False)
      else if c = CHR 0x5C then map_option Suc (name_length cs in_quotes True)
      else if c = CHR 0x22 then map_option Suc (name_length cs (\<not> in_quotes) False)
      else if c = CHR '':'' \<and> \<not> in_quotes then Some 0
      else map_option Suc (name_length cs in_quotes False))"

definition split_name_value :: "string \<Rightarrow> (string \<times> string) option" where
  "split_name_value chunk = map_option (\<lambda>i. (take i chunk, drop (Suc i) chunk)) (name_length chunk False False)"

fun resolve_escapes :: "string \<Rightarrow> parse_error + string" where
  "resolve_escapes [] = Inr []"
| "resolve_escapes [c] = (if c = CHR 0x5C then Inl UnterminatedString else Inr [c])"
| "resolve_escapes (c # d # cs) =
     (if c = CHR 0x5C
      then and_then (resolve_escapes cs) (\<lambda>out.
        Inr ((if d = CHR 0x22 \<or> d = CHR '';'' \<or> d = CHR 0x5C then [d] else [c, d]) @ out))
      else and_then (resolve_escapes (d # cs)) (\<lambda>out. Inr (c # out)))"

definition unescape :: "string \<Rightarrow> parse_error + string" where
  "unescape v =
     (if 2 \<le> length v \<and> hd v = CHR 0x22 \<and> last v = CHR 0x22 then resolve_escapes (butlast (tl v))
      else if v \<noteq> [] \<and> hd v = CHR 0x22 then Inl UnterminatedString
      else resolve_escapes v)"

definition parse_chunk :: "string \<Rightarrow> parse_error + raw_option" where
  "parse_chunk chunk =
     (let (name, raw) = (case split_name_value chunk of Some (n, v) \<Rightarrow> (n, Some (str_trim v)) | None \<Rightarrow> (chunk, None));
          (negated, raw) = (case raw of
              Some v \<Rightarrow> (case strip_prefix (CHR ''!'') v of Some rest \<Rightarrow> (True, Some (str_trim rest)) | None \<Rightarrow> (False, Some v))
            | None \<Rightarrow> (False, None))
      in and_then (case raw of None \<Rightarrow> Inr None | Some v \<Rightarrow> and_then (unescape v) (\<lambda>u. Inr (Some u)))
        (\<lambda>v. Inr \<lparr>raw_name = map char_lower (str_trim name), raw_value = v, raw_negated = negated\<rparr>))"

fun parse_chunks :: "string list \<Rightarrow> parse_error + raw_option list" where
  "parse_chunks [] = Inr []"
| "parse_chunks (chunk # chunks) = (let chunk = str_trim chunk in
     if chunk = [] then parse_chunks chunks
     else and_then (parse_chunk chunk) (\<lambda>opt. and_then (parse_chunks chunks) (\<lambda>opts. Inr (opt # opts))))"

definition parse_options :: "string \<Rightarrow> parse_error + raw_option list" where
  "parse_options body = and_then (split_option_list body) parse_chunks"

section \<open>The values of options\<close>

text \<open>A content pattern: the bytes so far, whether a hex section is open, and the nibble that waits for its pair.\<close>

definition is_ascii_space :: "char \<Rightarrow> bool" where
  "is_ascii_space c \<longleftrightarrow> (of_char c :: nat) \<in> {9, 10, 12, 13, 32}"

fun content_loop :: "string \<Rightarrow> bytes \<Rightarrow> bool \<Rightarrow> nat option \<Rightarrow> string + bytes" where
  "content_loop [] out in_hex nibble = (if in_hex then Inl ''unterminated hex section'' else Inr out)"
| "content_loop (c # cs) out in_hex nibble =
     (if c = CHR ''|''
      then if in_hex \<and> nibble \<noteq> None then Inl ''a hex section ended mid-byte'' else content_loop cs out (\<not> in_hex) nibble
      else if \<not> in_hex
      then if 128 \<le> (of_char c :: nat) then Inl ''non-ASCII character in a pattern''
           else content_loop cs (out @ [of_char c]) in_hex nibble
      else if is_ascii_space c then content_loop cs out in_hex nibble
      else case to_digit 16 c of
          None \<Rightarrow> Inl ''is not a hex digit''
        | Some d \<Rightarrow> (case nibble of
              None \<Rightarrow> content_loop cs out in_hex (Some d)
            | Some h \<Rightarrow> content_loop cs (out @ [of_nat (h * 16 + d)]) in_hex None))"

definition parse_content_pattern :: "string \<Rightarrow> string + bytes" where
  "parse_content_pattern cs = content_loop cs [] False None"

text \<open>\<open>rfind\<close>, as the text before and after the last separator.\<close>

definition rsplit_once :: "char \<Rightarrow> string \<Rightarrow> (string \<times> string) option" where
  "rsplit_once s cs = map_option (\<lambda>(a, b). (rev b, rev a)) (split_once s (rev cs))"

fun pcre_flags :: "string \<Rightarrow> pcre_match \<Rightarrow> string + pcre_match" where
  "pcre_flags [] p = Inr p"
| "pcre_flags (c # cs) p =
     (if c = CHR ''i'' then pcre_flags cs (p\<lparr>pm_case_insensitive := True\<rparr>)
      else if c = CHR ''s'' then pcre_flags cs (p\<lparr>pm_dot_matches_newline := True\<rparr>)
      else if c = CHR ''m'' then pcre_flags cs (p\<lparr>pm_multi_line := True\<rparr>)
      else if c = CHR ''R'' then pcre_flags cs (p\<lparr>pm_relative := True\<rparr>)
      else Inl ''unknown pcre flag'')"

definition parse_pcre :: "string \<Rightarrow> string + pcre_match" where
  "parse_pcre cs = (case strip_prefix (CHR ''/'') (str_trim cs) of
       None \<Rightarrow> Inl ''a pcre must be delimited with /''
     | Some body \<Rightarrow> (case rsplit_once (CHR ''/'') body of
           None \<Rightarrow> Inl ''a pcre must be delimited with /''
         | Some (source, flags) \<Rightarrow>
             if source = [] then Inl ''empty expression''
             else pcre_flags flags \<lparr>pm_source = source, pm_buffer = Payload, pm_negated = False, pm_case_insensitive = False,
               pm_dot_matches_newline = False, pm_multi_line = False, pm_relative = False\<rparr>))"

fun flow_parts :: "string list \<Rightarrow> flow_match \<Rightarrow> string + flow_match" where
  "flow_parts [] f = Inr f"
| "flow_parts (part # parts) f = (let p = str_trim part in
     if p = ''established'' then flow_parts parts (f\<lparr>fm_established := Some True\<rparr>)
     else if p = ''not_established'' \<or> p = ''stateless'' then flow_parts parts (f\<lparr>fm_established := Some False\<rparr>)
     else if p = ''to_server'' \<or> p = ''from_client'' then flow_parts parts (f\<lparr>fm_to_server := Some True\<rparr>)
     else if p = ''to_client'' \<or> p = ''from_server'' then flow_parts parts (f\<lparr>fm_to_server := Some False\<rparr>)
     else Inl ''unknown flow option'')"

definition parse_flow :: "string \<Rightarrow> string + flow_match" where
  "parse_flow cs = flow_parts (str_split (CHR '','') cs) \<lparr>fm_established = None, fm_to_server = None\<rparr>"

definition parse_flowbits :: "string \<Rightarrow> string + flow_bits_op" where
  "parse_flowbits cs =
     (let (command, name) = (case split_once (CHR '','') cs of Some (a, b) \<Rightarrow> (str_trim a, str_trim b) | None \<Rightarrow> (str_trim cs, []));
          named = (\<lambda>op. if name = [] then Inl ''needs a bit name'' else Inr (op name)) in
      if command = ''set'' then named BitSet
      else if command = ''unset'' then named BitUnset
      else if command = ''toggle'' then named BitToggle
      else if command = ''isset'' then named BitIsSet
      else if command = ''isnotset'' then named BitIsNotSet
      else if command = ''noalert'' then Inr NoAlert
      else Inl ''unknown flowbits command'')"

fun test_modifiers :: "string list \<Rightarrow> byte_test \<Rightarrow> string + byte_test" where
  "test_modifiers [] t = Inr t"
| "test_modifiers (m # ms) t =
     (if m = ''relative'' then test_modifiers ms (t\<lparr>bt_relative := True\<rparr>)
      else if m = ''big'' then test_modifiers ms (t\<lparr>bt_endian := Big\<rparr>)
      else if m = ''little'' then test_modifiers ms (t\<lparr>bt_endian := Little\<rparr>)
      else if m = [] then test_modifiers ms t
      else Inl ''unsupported byte_test modifier'')"

definition parse_width :: "string \<Rightarrow> string + nat" where
  "parse_width cs = and_then (ok_or ''bytes must be a number'' (parse_uint u8_max cs)) (\<lambda>n.
     if 1 \<le> n \<and> n \<le> 8 then Inr n else Inl ''can read between 1 and 8 bytes'')"

definition parse_byte_test :: "string \<Rightarrow> string + byte_test" where
  "parse_byte_test cs = (case map str_trim (str_split (CHR '','') cs) of
       p0 # p1 # p2 # p3 # ms \<Rightarrow>
         and_then (parse_width p0) (\<lambda>width.
         let (operator, negated) = (case strip_prefix (CHR ''!'') p1 of Some rest \<Rightarrow> (str_trim rest, True) | None \<Rightarrow> (p1, False)) in
         and_then (ok_or ''unknown operator'' (numeric_parse operator)) (\<lambda>op.
         and_then (ok_or ''value must be a number'' (parse_uint u64_max p2)) (\<lambda>v.
         and_then (ok_or ''offset must be a number'' (parse_i32 p3)) (\<lambda>offset.
           test_modifiers ms \<lparr>bt_bytes = width, bt_op = op, bt_value = of_nat v, bt_offset = offset, bt_relative = False,
             bt_endian = Big, bt_negated = negated\<rparr>))))
     | _ \<Rightarrow> Inl ''byte_test needs at least bytes, operator, value, offset'')"

fun jump_modifiers :: "string list \<Rightarrow> byte_jump \<Rightarrow> string + byte_jump" where
  "jump_modifiers [] j = Inr j"
| "jump_modifiers (m # ms) j =
     (if m = ''relative'' then jump_modifiers ms (j\<lparr>bj_relative := True\<rparr>)
      else if m = ''big'' then jump_modifiers ms (j\<lparr>bj_endian := Big\<rparr>)
      else if m = ''little'' then jump_modifiers ms (j\<lparr>bj_endian := Little\<rparr>)
      else if m = [] then jump_modifiers ms j
      else case words_of m of
          w0 # w1 # _ \<Rightarrow>
            if w0 = ''multiplier''
            then and_then (ok_or ''multiplier must be a number'' (parse_uint u32_max w1)) (\<lambda>n. jump_modifiers ms (j\<lparr>bj_multiplier := n\<rparr>))
            else if w0 = ''post_offset''
            then and_then (ok_or ''post_offset must be a number'' (parse_i32 w1)) (\<lambda>n. jump_modifiers ms (j\<lparr>bj_post_offset := n\<rparr>))
            else Inl ''unsupported byte_jump modifier''
        | _ \<Rightarrow> Inl ''unsupported byte_jump modifier'')"

definition parse_byte_jump :: "string \<Rightarrow> string + byte_jump" where
  "parse_byte_jump cs = (case map str_trim (str_split (CHR '','') cs) of
       p0 # p1 # ms \<Rightarrow>
         and_then (parse_width p0) (\<lambda>width.
         and_then (ok_or ''offset must be a number'' (parse_i32 p1)) (\<lambda>offset.
           jump_modifiers ms \<lparr>bj_bytes = width, bj_offset = offset, bj_relative = False, bj_multiplier = 1, bj_endian = Big,
             bj_post_offset = 0\<rparr>))
     | _ \<Rightarrow> Inl ''byte_jump needs at least bytes and offset'')"

text \<open>\<open>split_once\<close> with a separator of two characters.\<close>

fun split_pair :: "char \<Rightarrow> char \<Rightarrow> string \<Rightarrow> (string \<times> string) option" where
  "split_pair a b (c # d # cs) = (if c = a \<and> d = b then Some ([], cs)
     else map_option (\<lambda>(p, q). (c # p, q)) (split_pair a b (d # cs)))"
| "split_pair a b _ = None"

definition is_digit :: "char \<Rightarrow> bool" where
  "is_digit c \<longleftrightarrow> to_digit 10 c \<noteq> None"

definition parse_dsize :: "string \<Rightarrow> string + dsize_match" where
  "parse_dsize cs0 = (let cs = str_trim cs0 in
     case split_pair (CHR ''<'') (CHR ''>'') cs of
       Some (low, high) \<Rightarrow>
         and_then (ok_or ''dsize bounds must be numbers'' (parse_uint u32_max (str_trim low))) (\<lambda>l.
         and_then (ok_or ''dsize bounds must be numbers'' (parse_uint u32_max (str_trim high))) (\<lambda>h.
           Inr \<lparr>dz_op = OpGreater, dz_value = l, dz_upper = Some h\<rparr>))
     | None \<Rightarrow>
         if \<not> list_ex is_digit cs then Inl ''dsize needs a number''
         else let operator = takeWhile (\<lambda>c. \<not> is_digit c) cs; v = dropWhile (\<lambda>c. \<not> is_digit c) cs in
           and_then (if str_trim operator = [] then Inr OpEqual else ok_or ''unknown operator'' (numeric_parse operator)) (\<lambda>op.
           and_then (ok_or ''dsize must be a number'' (parse_uint u32_max (str_trim v))) (\<lambda>n.
             Inr \<lparr>dz_op = op, dz_value = n, dz_upper = None\<rparr>)))"

record threshold_parts =
  tp_kind :: "threshold_kind option"
  tp_track :: "track option"
  tp_count :: "nat option"
  tp_seconds :: "nat option"

definition threshold_kind_of :: "string \<Rightarrow> string + threshold_kind" where
  "threshold_kind_of w = (if w = ''threshold'' then Inr Threshold else if w = ''limit'' then Inr Limit
     else if w = ''both'' then Inr Both else Inl ''unknown threshold type'')"

definition track_of :: "string \<Rightarrow> string + track" where
  "track_of w = (if w = ''by_src'' then Inr BySource else if w = ''by_dst'' then Inr ByDestination
     else if w = ''by_rule'' then Inr ByRule else Inl ''unknown threshold track'')"

definition threshold_part :: "string \<Rightarrow> threshold_parts \<Rightarrow> string + threshold_parts" where
  "threshold_part part tp = (case words_of part of
       [] \<Rightarrow> Inr tp
     | [w] \<Rightarrow> Inl ''unknown threshold field''
     | w # v # _ \<Rightarrow>
         if w = ''type'' then and_then (threshold_kind_of v) (\<lambda>k. Inr (tp\<lparr>tp_kind := Some k\<rparr>))
         else if w = ''track'' then and_then (track_of v) (\<lambda>k. Inr (tp\<lparr>tp_track := Some k\<rparr>))
         else if w = ''count'' then and_then (ok_or ''count must be a number'' (parse_uint u32_max v)) (\<lambda>n. Inr (tp\<lparr>tp_count := Some n\<rparr>))
         else if w = ''seconds'' then and_then (ok_or ''seconds must be a number'' (parse_uint u32_max v)) (\<lambda>n. Inr (tp\<lparr>tp_seconds := Some n\<rparr>))
         else Inl ''unknown threshold field'')"

fun threshold_loop :: "string list \<Rightarrow> threshold_parts \<Rightarrow> string + threshold_parts" where
  "threshold_loop [] tp = Inr tp"
| "threshold_loop (part # parts) tp = and_then (threshold_part part tp) (threshold_loop parts)"

definition parse_threshold :: "string \<Rightarrow> string + threshold" where
  "parse_threshold cs =
     and_then (threshold_loop (str_split (CHR '','') cs) \<lparr>tp_kind = None, tp_track = None, tp_count = None, tp_seconds = None\<rparr>) (\<lambda>tp.
     and_then (ok_or ''threshold needs a count'' (tp_count tp)) (\<lambda>count.
       if count = 0 then Inl ''threshold count must be at least 1''
       else and_then (ok_or ''threshold needs a type'' (tp_kind tp)) (\<lambda>kind.
         and_then (ok_or ''threshold needs a track'' (tp_track tp)) (\<lambda>track.
         and_then (ok_or ''threshold needs a seconds window'' (tp_seconds tp)) (\<lambda>seconds.
           Inr \<lparr>th_kind = kind, th_track = track, th_count = count, th_seconds = seconds\<rparr>)))))"

definition parse_host_values :: "string \<Rightarrow> string + string list" where
  "parse_host_values cs = (let vs = filter (\<lambda>v. v \<noteq> []) (map str_trim (str_split (CHR '','') cs))
     in if vs = [] then Inl ''needs at least one value'' else Inr vs)"

definition metadata_entry :: "string \<Rightarrow> (string \<times> string) option" where
  "metadata_entry entry0 = (let entry = str_trim entry0; key = takeWhile (\<lambda>c. \<not> is_space c) entry in
     if entry = [] then None
     else Some (key, if length key = length entry then [] else str_trim (drop (Suc (length key)) entry)))"

definition parse_metadata :: "string \<Rightarrow> (string \<times> string) list" where
  "parse_metadata cs = List.map_filter metadata_entry (str_split (CHR '','') cs)"

section \<open>Assembly\<close>

record builder =
  bd_sid :: "nat option"
  bd_rev :: "nat option"
  bd_msg :: "string option"
  bd_classtype :: "string option"
  bd_priority :: "nat option"
  bd_gid :: "nat option"
  bd_threshold :: "threshold option"
  bd_metadata :: "(string \<times> string) list"
  bd_references :: "string list"
  bd_matches :: "rule_option list"
  bd_unsupported :: "string list"
  bd_no_alert :: bool
  bd_buffer :: buffer

definition empty_builder :: builder where
  "empty_builder = \<lparr>bd_sid = None, bd_rev = None, bd_msg = None, bd_classtype = None, bd_priority = None, bd_gid = None,
     bd_threshold = None, bd_metadata = [], bd_references = [], bd_matches = [], bd_unsupported = [], bd_no_alert = False,
     bd_buffer = Payload\<rparr>"

definition recognised_unimplemented :: "string list" where
  "recognised_unimplemented = [''endswith'', ''detection_filter'', ''target'']"

definition reject_duplicate :: "'a option \<Rightarrow> string \<Rightarrow> parse_error + unit" where
  "reject_duplicate slot name = (if slot \<noteq> None then Inl (DuplicateOption name) else Inr ())"

definition require_value :: "string \<Rightarrow> string option \<Rightarrow> parse_error + string" where
  "require_value name v = ok_or (MissingOptionValue name) v"

definition parse_u32_option :: "string \<Rightarrow> string option \<Rightarrow> parse_error + nat" where
  "parse_u32_option name v = and_then (require_value name v) (\<lambda>v.
     ok_or (InvalidOptionValue name ''is not a number'') (parse_uint u32_max (str_trim v)))"

text \<open>A value read by one of the readers above, its reason turned into the error of the option.\<close>

definition read_value :: "(string \<Rightarrow> string + 'a) \<Rightarrow> string \<Rightarrow> string option \<Rightarrow> parse_error + 'a" where
  "read_value reader name v = and_then (require_value name v) (\<lambda>v. map_err (InvalidOptionValue name) (reader v))"

definition modifier_number :: "string \<Rightarrow> string option \<Rightarrow> parse_error + int" where
  "modifier_number name v = and_then (require_value name v) (\<lambda>v.
     ok_or (InvalidOptionValue name ''must be a number'') (parse_i64 (str_trim v)))"

text \<open>\<open>try_from(n).unwrap_or(0)\<close>.\<close>

definition u32_or_zero :: "int \<Rightarrow> nat" where
  "u32_or_zero n = (if 0 \<le> n \<and> n < 2 ^ 32 then nat n else 0)"

definition i32_or_zero :: "int \<Rightarrow> int" where
  "i32_or_zero n = (if - (2 ^ 31) \<le> n \<and> n < 2 ^ 31 then n else 0)"

definition modify_content :: "string \<Rightarrow> string option \<Rightarrow> content_match \<Rightarrow> parse_error + content_match" where
  "modify_content name v c =
     (if name = ''nocase'' then Inr (c\<lparr>cm_nocase := True\<rparr>)
      else if name = ''fast_pattern'' then Inr (c\<lparr>cm_fast_pattern := True\<rparr>)
      else if name = ''startswith''
      then Inr (c\<lparr>cm_offset := Some 0, cm_depth := Some (min (length (cm_pattern c)) u32_max)\<rparr>)
      else if name = ''offset'' then and_then (modifier_number name v) (\<lambda>n. Inr (c\<lparr>cm_offset := Some (u32_or_zero n)\<rparr>))
      else if name = ''depth'' then and_then (modifier_number name v) (\<lambda>n. Inr (c\<lparr>cm_depth := Some (u32_or_zero n)\<rparr>))
      else if name = ''distance'' then and_then (modifier_number name v) (\<lambda>n. Inr (c\<lparr>cm_distance := Some (i32_or_zero n)\<rparr>))
      else if name = ''within'' then and_then (modifier_number name v) (\<lambda>n. Inr (c\<lparr>cm_within := Some (u32_or_zero n)\<rparr>))
      else Inl (UnknownOption name))"

definition apply_content_modifier :: "rule_option list \<Rightarrow> string \<Rightarrow> string option \<Rightarrow> parse_error + rule_option list" where
  "apply_content_modifier opts name v =
     (if opts = [] then Inl (InvalidOptionValue name ''no preceding content for this modifier'')
      else case last opts of
          Content c \<Rightarrow> and_then (modify_content name v c) (\<lambda>c. Inr (butlast opts @ [Content c]))
        | _ \<Rightarrow> Inl (InvalidOptionValue name ''no preceding content for this modifier''))"

definition content_modifiers :: "string list" where
  "content_modifiers = [''nocase'', ''fast_pattern'', ''startswith'', ''offset'', ''depth'', ''distance'', ''within'']"

definition strip_pcre :: "string \<Rightarrow> host_field option" where
  "strip_pcre name = (if 5 \<le> length name \<and> drop (length name - 5) name = ''.pcre''
     then host_field_from_keyword (take (length name - 5) name) else None)"

definition push_match :: "builder \<Rightarrow> rule_option \<Rightarrow> builder" where
  "push_match b opt = b\<lparr>bd_matches := bd_matches b @ [opt]\<rparr>"

text \<open>The options that describe the rule.\<close>

definition describe_option :: "string \<Rightarrow> string option \<Rightarrow> builder \<Rightarrow> (parse_error + builder) option" where
  "describe_option name v b =
     (if name = ''sid'' then Some (and_then (reject_duplicate (bd_sid b) name) (\<lambda>_. and_then (parse_u32_option name v) (\<lambda>n.
        Inr (b\<lparr>bd_sid := Some n\<rparr>))))
      else if name = ''rev'' then Some (and_then (reject_duplicate (bd_rev b) name) (\<lambda>_. and_then (parse_u32_option name v) (\<lambda>n.
        Inr (b\<lparr>bd_rev := Some n\<rparr>))))
      else if name = ''gid'' then Some (and_then (reject_duplicate (bd_gid b) name) (\<lambda>_. and_then (parse_u32_option name v) (\<lambda>n.
        Inr (b\<lparr>bd_gid := Some n\<rparr>))))
      else if name = ''priority'' then Some (and_then (reject_duplicate (bd_priority b) name) (\<lambda>_. and_then (parse_u32_option name v) (\<lambda>n.
        if 1 \<le> n \<and> n \<le> 255 then Inr (b\<lparr>bd_priority := Some n\<rparr>)
        else Inl (InvalidOptionValue name ''priority must be between 1 and 255''))))
      else if name = ''msg'' then Some (and_then (reject_duplicate (bd_msg b) name) (\<lambda>_. and_then (require_value name v) (\<lambda>t.
        if str_trim t = [] then Inl (InvalidOptionValue name ''msg must not be empty'') else Inr (b\<lparr>bd_msg := Some t\<rparr>))))
      else if name = ''classtype'' then Some (and_then (reject_duplicate (bd_classtype b) name) (\<lambda>_. and_then (require_value name v) (\<lambda>t.
        Inr (b\<lparr>bd_classtype := Some t\<rparr>))))
      else if name = ''metadata'' then Some (and_then (require_value name v) (\<lambda>t. Inr (b\<lparr>bd_metadata := bd_metadata b @ parse_metadata t\<rparr>)))
      else if name = ''reference'' then Some (and_then (require_value name v) (\<lambda>t. Inr (b\<lparr>bd_references := bd_references b @ [t]\<rparr>)))
      else None)"

text \<open>The options that match.\<close>

definition match_option :: "string \<Rightarrow> string option \<Rightarrow> bool \<Rightarrow> builder \<Rightarrow> (parse_error + builder) option" where
  "match_option name v negated b =
     (if name = ''content'' then Some (and_then (read_value parse_content_pattern name v) (\<lambda>pattern.
        if pattern = [] then Inl (InvalidOptionValue name ''content must not be empty'')
        else Inr (push_match b (Content ((content_new pattern)\<lparr>cm_buffer := bd_buffer b, cm_negated := negated\<rparr>)))))
      else if name \<in> set content_modifiers then Some (and_then (apply_content_modifier (bd_matches b) name v) (\<lambda>opts.
        Inr (b\<lparr>bd_matches := opts\<rparr>)))
      else if name = ''pcre'' then Some (and_then (read_value parse_pcre name v) (\<lambda>p.
        Inr (push_match b (Pcre (p\<lparr>pm_buffer := bd_buffer b, pm_negated := negated\<rparr>)))))
      else if name = ''flow'' then Some (and_then (read_value parse_flow name v) (\<lambda>f. Inr (push_match b (OnFlow f))))
      else if name = ''flowbits'' then Some (and_then (read_value parse_flowbits name v) (\<lambda>op.
        if op = NoAlert then Inr (b\<lparr>bd_no_alert := True\<rparr>) else Inr (push_match b (FlowBits op))))
      else if name = ''byte_test'' then Some (and_then (read_value parse_byte_test name v) (\<lambda>t. Inr (push_match b (ByteTest t))))
      else if name = ''byte_jump'' then Some (and_then (read_value parse_byte_jump name v) (\<lambda>j. Inr (push_match b (ByteJump j))))
      else if name = ''dsize'' then Some (and_then (read_value parse_dsize name v) (\<lambda>d. Inr (push_match b (Dsize d))))
      else if name = ''normalized'' then Some (and_then (require_value name v) (\<lambda>t.
        and_then (ok_or (InvalidOptionValue name ''unknown condition'') (condition_parse t)) (\<lambda>c. Inr (push_match b (Normalized c)))))
      else if name = ''threshold'' then Some (and_then (reject_duplicate (bd_threshold b) name) (\<lambda>_.
        and_then (read_value parse_threshold name v) (\<lambda>t. Inr (b\<lparr>bd_threshold := Some t\<rparr>))))
      else None)"

text \<open>The options on host records, then those recognised but not implemented, then the unknown.\<close>

definition other_option :: "string \<Rightarrow> string option \<Rightarrow> bool \<Rightarrow> builder \<Rightarrow> parse_error + builder" where
  "other_option name v negated b = (case host_field_from_keyword name of
       Some f \<Rightarrow> and_then (read_value parse_host_values name v) (\<lambda>vs.
         Inr (push_match b (OnHost \<lparr>hf_field = f, hf_matcher = AnyOf vs (default_match_kind f) False, hf_negated = negated\<rparr>)))
     | None \<Rightarrow> (case strip_pcre name of
         Some f \<Rightarrow> and_then (require_value name v) (\<lambda>e.
           if str_trim e = [] then Inl (InvalidOptionValue name ''empty expression'')
           else Inr (push_match b (OnHost \<lparr>hf_field = f, hf_matcher = HostRegex e, hf_negated = negated\<rparr>)))
       | None \<Rightarrow>
           if name \<in> set recognised_unimplemented
           then Inr (if name \<in> set (bd_unsupported b) then b else b\<lparr>bd_unsupported := bd_unsupported b @ [name]\<rparr>)
           else Inl (UnknownOption name)))"

definition build_option :: "raw_option \<Rightarrow> builder \<Rightarrow> parse_error + builder" where
  "build_option opt b = (let name = raw_name opt; v = raw_value opt in
     case describe_option name v b of
       Some r \<Rightarrow> r
     | None \<Rightarrow> (case buffer_from_keyword name of
         Some buf \<Rightarrow> if v \<noteq> None then Inl (InvalidOptionValue name ''a sticky-buffer keyword takes no value'')
           else Inr (b\<lparr>bd_buffer := buf\<rparr>)
       | None \<Rightarrow> (case match_option name v (raw_negated opt) b of
           Some r \<Rightarrow> r
         | None \<Rightarrow> other_option name v (raw_negated opt) b)))"

fun build_options :: "raw_option list \<Rightarrow> builder \<Rightarrow> parse_error + builder" where
  "build_options [] b = Inr b"
| "build_options (opt # opts) b = and_then (build_option opt b) (build_options opts)"

definition build_rule :: "rule_header \<Rightarrow> raw_option list \<Rightarrow> string \<Rightarrow> parse_error + rule" where
  "build_rule header opts raw = and_then (build_options opts empty_builder) (\<lambda>b.
     and_then (ok_or MissingSid (bd_sid b)) (\<lambda>sid.
     and_then (ok_or MissingMsg (bd_msg b)) (\<lambda>msg.
       Inr \<lparr>ru_header = header, ru_sid = sid, ru_rev = unwrap_or (bd_rev b) 1, ru_gid = bd_gid b, ru_priority = bd_priority b,
         ru_msg = msg, ru_classtype = bd_classtype b, ru_metadata = bd_metadata b, ru_references = bd_references b,
         ru_options = bd_matches b, ru_threshold = bd_threshold b, ru_no_alert = bd_no_alert b,
         ru_unsupported = bd_unsupported b, ru_raw = raw, ru_origin = None\<rparr>)))"

definition parse_rule :: "string \<Rightarrow> parse_error + rule" where
  "parse_rule text0 = (let raw = str_trim text0 in
     if raw = [] then Inl EmptyRule
     else case split_once (CHR ''('') raw of
         None \<Rightarrow> Inl MissingOptionBlock
       | Some (head, _) \<Rightarrow> (case rsplit_once (CHR '')'') raw of
           None \<Rightarrow> Inl UnterminatedOptionBlock
         | Some (before, _) \<Rightarrow>
             if length before < length head then Inl UnterminatedOptionBlock
             else and_then (parse_header head) (\<lambda>header.
               and_then (parse_options (drop (Suc (length head)) before)) (\<lambda>opts. build_rule header opts raw))))"

section \<open>What a parsed rule promises\<close>

lemma and_then_Inr [simp]: "and_then x f = Inr b \<longleftrightarrow> (\<exists>a. x = Inr a \<and> f a = Inr b)"
  by (cases x) (auto simp: and_then_def)

lemma map_err_Inr [simp]: "map_err g x = Inr b \<longleftrightarrow> x = Inr b"
  by (cases x) (auto simp: map_err_def)

lemma ok_or_Inr [simp]: "ok_or e x = Inr b \<longleftrightarrow> x = Some b"
  by (cases x) (auto simp: ok_or_def)

lemma and_then_simps [simp]: "and_then (Inr a) f = f a" "and_then (Inl e) f = Inl e"
  by (simp_all add: and_then_def)

lemma map_err_simps [simp]: "map_err g (Inr a) = Inr a" "map_err g (Inl e) = Inl (g e)"
  by (simp_all add: map_err_def)

lemma ok_or_simps [simp]: "ok_or e (Some a) = Inr a" "ok_or e None = Inl e"
  by (simp_all add: ok_or_def)

definition fits_i32 :: "int \<Rightarrow> bool" where
  "fits_i32 n \<longleftrightarrow> - (2 ^ 31) \<le> n \<and> n < 2 ^ 31"

definition opt_all :: "('a \<Rightarrow> bool) \<Rightarrow> 'a option \<Rightarrow> bool" where
  "opt_all P x = (case x of None \<Rightarrow> True | Some a \<Rightarrow> P a)"

lemma opt_all_simps [simp]: "opt_all P None" "opt_all P (Some a) = P a"
  by (simp_all add: opt_all_def)

definition option_wf :: "rule_option \<Rightarrow> bool" where
  "option_wf opt = (case opt of
       Content c \<Rightarrow> cm_pattern c \<noteq> [] \<and> opt_all (\<lambda>n. n < 2 ^ 32) (cm_offset c) \<and> opt_all (\<lambda>n. n < 2 ^ 32) (cm_depth c)
         \<and> opt_all (\<lambda>n. n < 2 ^ 32) (cm_within c) \<and> opt_all fits_i32 (cm_distance c)
     | Pcre p \<Rightarrow> pm_source p \<noteq> []
     | FlowBits op \<Rightarrow> op \<noteq> NoAlert
     | ByteTest t \<Rightarrow> 1 \<le> bt_bytes t \<and> bt_bytes t \<le> 8 \<and> fits_i32 (bt_offset t)
     | ByteJump j \<Rightarrow> 1 \<le> bj_bytes j \<and> bj_bytes j \<le> 8 \<and> fits_i32 (bj_offset j) \<and> fits_i32 (bj_post_offset j) \<and> bj_multiplier j < 2 ^ 32
     | Dsize d \<Rightarrow> dz_value d < 2 ^ 32 \<and> opt_all (\<lambda>n. n < 2 ^ 32) (dz_upper d)
     | OnHost h \<Rightarrow> (case hf_matcher h of AnyOf vs _ _ \<Rightarrow> vs \<noteq> [] \<and> [] \<notin> set vs | HostRegex e \<Rightarrow> str_trim e \<noteq> [])
     | _ \<Rightarrow> True)"

definition threshold_wf :: "threshold \<Rightarrow> bool" where
  "threshold_wf t \<longleftrightarrow> 0 < th_count t \<and> th_count t < 2 ^ 32 \<and> th_seconds t < 2 ^ 32"

definition builder_wf :: "builder \<Rightarrow> bool" where
  "builder_wf b \<longleftrightarrow> opt_all (\<lambda>n. n < 2 ^ 32) (bd_sid b) \<and> opt_all (\<lambda>n. n < 2 ^ 32) (bd_rev b)
     \<and> opt_all (\<lambda>n. n < 2 ^ 32) (bd_gid b) \<and> opt_all (\<lambda>n. 1 \<le> n \<and> n \<le> 255) (bd_priority b)
     \<and> opt_all (\<lambda>t. str_trim t \<noteq> []) (bd_msg b) \<and> opt_all threshold_wf (bd_threshold b) \<and> list_all option_wf (bd_matches b)"

definition port_wf :: "port_spec \<Rightarrow> bool" where
  "port_wf p \<longleftrightarrow> (\<forall>l h. psp_value p = PortRange (Some l) (Some h) \<longrightarrow> l \<le> h)"

definition rule_wf :: "rule \<Rightarrow> bool" where
  "rule_wf r \<longleftrightarrow> ru_sid r < 2 ^ 32 \<and> ru_rev r < 2 ^ 32 \<and> opt_all (\<lambda>n. n < 2 ^ 32) (ru_gid r)
     \<and> opt_all (\<lambda>n. 1 \<le> n \<and> n \<le> 255) (ru_priority r) \<and> str_trim (ru_msg r) \<noteq> [] \<and> opt_all threshold_wf (ru_threshold r)
     \<and> list_all option_wf (ru_options r) \<and> port_wf (rh_source_port (ru_header r)) \<and> port_wf (rh_destination_port (ru_header r))"

lemma parse_digits_le: "parse_digits mx ds acc = Some n \<Longrightarrow> acc \<le> mx \<Longrightarrow> n \<le> mx"
  by (induction mx ds acc rule: parse_digits.induct) (auto split: if_splits option.splits simp: Let_def)

lemma parse_uint_le: "parse_uint mx cs = Some n \<Longrightarrow> n \<le> mx"
  by (auto simp: parse_uint_def Let_def split: if_splits dest!: parse_digits_le)

lemma parse_u32_bound: "parse_uint u32_max cs = Some n \<Longrightarrow> n < 2 ^ 32"
  using parse_uint_le [of u32_max cs n] by (simp add: u32_max_def)

lemma parse_i32_fits: "parse_i32 cs = Some n \<Longrightarrow> fits_i32 n"
  by (auto simp: parse_i32_def parse_int_def fits_i32_def split: list.splits if_splits dest!: parse_uint_le)

lemma test_modifiers_keeps:
  "test_modifiers ms t = Inr t' \<Longrightarrow> bt_bytes t' = bt_bytes t \<and> bt_offset t' = bt_offset t"
  by (induction ms t rule: test_modifiers.induct) (auto split: if_splits)

lemma jump_modifiers_keeps:
  assumes "jump_modifiers ms j = Inr j'" "fits_i32 (bj_post_offset j)" "bj_multiplier j < 2 ^ 32"
  shows "bj_bytes j' = bj_bytes j \<and> bj_offset j' = bj_offset j \<and> fits_i32 (bj_post_offset j') \<and> bj_multiplier j' < 2 ^ 32"
  using assms
proof (induction ms j rule: jump_modifiers.induct)
  case (2 m ms j)
  consider "m = ''relative''" | "m = ''big''" | "m = ''little''" | "m = []" | "m \<noteq> ''relative''" "m \<noteq> ''big''" "m \<noteq> ''little''" "m \<noteq> []"
    by blast
  then show ?case
  proof cases
    case 5
    with "2.prems"(1) obtain w0 w1 ws where w: "words_of m = w0 # w1 # ws"
      by (auto split: list.splits)
    show ?thesis
      using "2.prems" 5 w "2.IH"(5,6) by (auto split: if_splits dest: parse_i32_fits parse_u32_bound)
  qed (use "2.prems" "2.IH"(1-4) in auto)
qed simp

lemma parse_byte_test_wf: "parse_byte_test cs = Inr t \<Longrightarrow> option_wf (ByteTest t)"
  by (auto simp: parse_byte_test_def option_wf_def parse_width_def split: list.splits option.splits if_splits
      dest!: test_modifiers_keeps parse_i32_fits)

lemma parse_byte_jump_wf: "parse_byte_jump cs = Inr j \<Longrightarrow> option_wf (ByteJump j)"
  by (auto simp: parse_byte_jump_def option_wf_def parse_width_def split: list.splits if_splits
      dest!: jump_modifiers_keeps parse_i32_fits) (simp_all add: fits_i32_def)

lemma parse_dsize_wf: "parse_dsize cs = Inr d \<Longrightarrow> option_wf (Dsize d)"
  by (auto simp: parse_dsize_def option_wf_def Let_def split: option.splits if_splits dest!: parse_u32_bound)

lemma pcre_flags_keeps: "pcre_flags cs p = Inr p' \<Longrightarrow> pm_source p' = pm_source p"
  by (induction cs p rule: pcre_flags.induct) (auto split: if_splits)

lemma parse_pcre_wf: "parse_pcre cs = Inr p \<Longrightarrow> pm_source p \<noteq> []"
  by (auto simp: parse_pcre_def split: option.splits if_splits dest!: pcre_flags_keeps)

lemma parse_host_values_wf: "parse_host_values cs = Inr vs \<Longrightarrow> vs \<noteq> [] \<and> [] \<notin> set vs"
  by (auto simp: parse_host_values_def Let_def split: if_splits)

lemma threshold_part_bounds:
  assumes "threshold_part part tp = Inr tp'" "opt_all (\<lambda>n. n < 2 ^ 32) (tp_count tp)" "opt_all (\<lambda>n. n < 2 ^ 32) (tp_seconds tp)"
  shows "opt_all (\<lambda>n. n < 2 ^ 32) (tp_count tp') \<and> opt_all (\<lambda>n. n < 2 ^ 32) (tp_seconds tp')"
  using assms by (auto simp: threshold_part_def split: list.splits if_splits dest: parse_u32_bound)

lemma threshold_loop_bounds:
  assumes "threshold_loop parts tp = Inr tp'" "opt_all (\<lambda>n. n < 2 ^ 32) (tp_count tp)" "opt_all (\<lambda>n. n < 2 ^ 32) (tp_seconds tp)"
  shows "opt_all (\<lambda>n. n < 2 ^ 32) (tp_count tp') \<and> opt_all (\<lambda>n. n < 2 ^ 32) (tp_seconds tp')"
  using assms
proof (induction parts arbitrary: tp)
  case (Cons part parts)
  then show ?case
    using threshold_part_bounds by (auto simp del: opt_all_simps)
qed simp

lemma parse_threshold_wf: "parse_threshold cs = Inr t \<Longrightarrow> threshold_wf t"
  by (auto simp: parse_threshold_def threshold_wf_def split: if_splits dest!: threshold_loop_bounds)

lemma u32_or_zero_bound: "u32_or_zero n < 2 ^ 32" and i32_or_zero_fits: "fits_i32 (i32_or_zero n)"
  by (auto simp: u32_or_zero_def i32_or_zero_def fits_i32_def)

lemma modify_content_wf: "modify_content name v c = Inr c' \<Longrightarrow> option_wf (Content c) \<Longrightarrow> option_wf (Content c')"
  by (auto simp: modify_content_def option_wf_def u32_max_def u32_or_zero_bound [simplified] i32_or_zero_fits split: if_splits)

lemma apply_content_modifier_wf:
  assumes "apply_content_modifier opts name v = Inr opts'" "list_all option_wf opts"
  shows "list_all option_wf opts'"
proof -
  from assms(1) have ne: "opts \<noteq> []" by (auto simp: apply_content_modifier_def)
  then have "list_all option_wf (butlast opts)" "option_wf (last opts)"
    using assms(2) by (auto simp: list_all_iff dest: in_set_butlastD)
  with assms(1) ne show ?thesis
    by (auto simp: apply_content_modifier_def split: rule_option.splits dest: modify_content_wf)
qed

lemma describe_option_wf: "describe_option name v b = Some (Inr b') \<Longrightarrow> builder_wf b \<Longrightarrow> builder_wf b'"
  by (auto simp: describe_option_def builder_wf_def parse_u32_option_def reject_duplicate_def require_value_def
      split: if_splits dest: parse_u32_bound)

lemma push_match_wf: "builder_wf b \<Longrightarrow> option_wf opt \<Longrightarrow> builder_wf (push_match b opt)"
  by (simp add: builder_wf_def push_match_def)

lemma content_new_wf: "pattern \<noteq> [] \<Longrightarrow> option_wf (Content ((content_new pattern)\<lparr>cm_buffer := buf, cm_negated := neg\<rparr>))"
  by (simp add: option_wf_def content_new_def)

lemmas option_values_wf = parse_byte_test_wf parse_byte_jump_wf parse_dsize_wf parse_pcre_wf parse_threshold_wf content_new_wf

lemma no_alert_not_pushed [simp]: "b\<lparr>bd_no_alert := x\<rparr> \<noteq> push_match b opt"
  by (auto simp: push_match_def dest!: arg_cong [where f = bd_matches])

lemma match_option_wf: "match_option name v neg b = Some (Inr b') \<Longrightarrow> builder_wf b \<Longrightarrow> builder_wf b'"
  unfolding match_option_def
  by (auto simp: read_value_def split: if_splits intro!: push_match_wf intro: option_values_wf)
   (auto simp: builder_wf_def option_wf_def dest: apply_content_modifier_wf parse_pcre_wf parse_threshold_wf)

lemma other_option_wf: "other_option name v neg b = Inr b' \<Longrightarrow> builder_wf b \<Longrightarrow> builder_wf b'"
  by (auto simp: other_option_def read_value_def split: option.splits if_splits intro!: push_match_wf)
   (auto simp: builder_wf_def option_wf_def dest: parse_host_values_wf)

lemma build_option_wf: "build_option opt b = Inr b' \<Longrightarrow> builder_wf b \<Longrightarrow> builder_wf b'"
  by (auto simp: build_option_def Let_def split: option.splits if_splits
      intro: describe_option_wf match_option_wf other_option_wf) (simp add: builder_wf_def)

lemma build_options_wf: "build_options opts b = Inr b' \<Longrightarrow> builder_wf b \<Longrightarrow> builder_wf b'"
  by (induction opts arbitrary: b) (auto intro: build_option_wf)

lemma parse_port_wf:
  assumes "parse_port_field cs = Inr p"
  shows "port_wf p"
  unfolding port_wf_def
proof (intro allI impI)
  fix l h
  assume "psp_value p = PortRange (Some l) (Some h)"
  with assms show "l \<le> h"
    by (auto simp: parse_port_field_def Let_def split: prod.splits if_splits option.split_asm)
      (metis linorder_not_less)+
qed

lemma parse_header_wf: "parse_header cs = Inr h \<Longrightarrow> port_wf (rh_source_port h) \<and> port_wf (rh_destination_port h)"
  by (auto simp: parse_header_def Let_def split: list.splits intro: parse_port_wf)

lemma parse_rule_wf: "parse_rule cs = Inr r \<Longrightarrow> rule_wf r"
  by (auto simp: parse_rule_def build_rule_def rule_wf_def Let_def unwrap_or_def builder_wf_def
      split: option.splits if_splits dest!: parse_header_wf build_options_wf)
   (simp_all add: empty_builder_def)

section \<open>Writing rules\<close>

text \<open>
  The inverse of the parser: how an option with any value is written so that the parser reads it back. A quote,
  a semicolon and a backslash are escaped; the bytes of a pattern go into one hex section.
\<close>

definition escape :: "string \<Rightarrow> string" where
  "escape v = concat (map (\<lambda>c. if c = CHR 0x22 \<or> c = CHR '';'' \<or> c = CHR 0x5C then [CHR 0x5C, c] else [c]) v)"

definition quote :: "string \<Rightarrow> string" where
  "quote v = CHR 0x22 # escape v @ [CHR 0x22]"

definition write_value :: "raw_option \<Rightarrow> string" where
  "write_value opt = (case raw_value opt of None \<Rightarrow> []
     | Some v \<Rightarrow> CHR '':'' # (if raw_negated opt then [CHR ''!''] else []) @ quote v)"

definition write_option :: "raw_option \<Rightarrow> string" where
  "write_option opt = raw_name opt @ write_value opt"

definition write_options :: "raw_option list \<Rightarrow> string" where
  "write_options opts = concat (map (\<lambda>opt. write_option opt @ '';'') opts)"

definition name_char :: "char \<Rightarrow> bool" where
  "name_char c \<longleftrightarrow> char_lower c = c \<and> (to_digit 36 c \<noteq> None \<or> c = CHR ''_'' \<or> c = CHR ''.'')"

definition printable :: "raw_option \<Rightarrow> bool" where
  "printable opt \<longleftrightarrow> raw_name opt \<noteq> [] \<and> list_all name_char (raw_name opt) \<and> (raw_value opt = None \<longrightarrow> \<not> raw_negated opt)"

definition hex_pair :: "byte \<Rightarrow> string" where
  "hex_pair b = [''0123456789abcdef'' ! (unat b div 16), ''0123456789abcdef'' ! (unat b mod 16)]"

definition hex_section :: "bytes \<Rightarrow> string" where
  "hex_section bs = ''|'' @ concat (map hex_pair bs) @ ''|''"

lemma escape_simps [simp]:
  "escape [] = []"
  "escape (c # v) = (if c = CHR 0x22 \<or> c = CHR '';'' \<or> c = CHR 0x5C then [CHR 0x5C, c] else [c]) @ escape v"
  by (simp_all add: escape_def)

lemma resolve_plain: "c \<noteq> CHR 0x5C \<Longrightarrow> resolve_escapes (c # cs) = and_then (resolve_escapes cs) (\<lambda>out. Inr (c # out))"
  by (cases cs) simp_all

lemma resolve_escape: "resolve_escapes (escape v) = Inr v"
  by (induction v) (auto simp: resolve_plain)

lemma unescape_quote: "unescape (quote v) = Inr v"
  by (simp add: unescape_def quote_def resolve_escape)

lemma split_plain:
  "c \<noteq> CHR 0x5C \<Longrightarrow> c \<noteq> CHR 0x22 \<Longrightarrow> c \<noteq> CHR '';'' \<or> q \<Longrightarrow> split_options (c # cs) opts cur q = split_options cs opts (cur @ [c]) q"
  by (cases cs) auto

lemma split_quote: "split_options (CHR 0x22 # cs) opts cur q = split_options cs opts (cur @ [CHR 0x22]) (\<not> q)"
  by (cases cs) auto

lemma split_end: "split_options (CHR '';'' # cs) opts cur False = split_options cs (opts @ [cur]) [] False"
  by (cases cs) auto

lemma split_escape: "split_options (escape v @ cs) opts cur True = split_options cs opts (cur @ escape v) True"
  by (induction v arbitrary: cur) (auto simp: split_plain)

lemma split_name:
  assumes "list_all name_char n"
  shows "split_options (n @ cs) opts cur False = split_options cs opts (cur @ n) False"
proof -
  have "name_char c \<Longrightarrow> c \<noteq> CHR 0x5C \<and> c \<noteq> CHR 0x22 \<and> c \<noteq> CHR '';''" for c
    by (auto simp: name_char_def to_digit_def)
  with assms show ?thesis
    by (induction n arbitrary: cur) (auto simp: split_plain)
qed

lemma split_printed:
  assumes "printable opt"
  shows "split_options (write_option opt @ '';'' @ cs) opts [] False = split_options cs (opts @ [write_option opt]) [] False"
  using assms
  by (cases "raw_value opt")
    (simp_all add: write_option_def write_value_def printable_def quote_def split_name split_plain split_quote split_escape split_end)

lemma split_printed_list:
  assumes "list_all printable opts"
  shows "split_options (write_options opts) done0 [] False = Inr (done0 @ map write_option opts)"
  using assms
proof (induction opts arbitrary: done0)
  case Nil
  show ?case by (simp add: write_options_def str_trim_def)
next
  case (Cons opt opts)
  then show ?case
    using split_printed [of opt "write_options opts" done0] by (simp add: write_options_def)
qed

lemma name_length_printed:
  assumes "list_all name_char n"
  shows "name_length (n @ cs) False False = map_option (\<lambda>i. length n + i) (name_length cs False False)"
proof -
  have "name_char c \<Longrightarrow> c \<noteq> CHR 0x5C \<and> c \<noteq> CHR 0x22 \<and> c \<noteq> CHR '':''" for c
    by (auto simp: name_char_def to_digit_def)
  with assms show ?thesis
    by (induction n) (cases "name_length cs False False"; auto)+
qed

lemma trim_ends_kept:
  assumes "cs \<noteq> []" "\<not> is_space (hd cs)" "\<not> is_space (last cs)"
  shows "str_trim cs = cs"
proof -
  have "dropWhile is_space cs = cs"
    using assms(1,2) by (cases cs) auto
  moreover have "dropWhile is_space (rev cs) = rev cs"
    using assms(1,3) by (cases cs rule: rev_cases) auto
  ultimately show ?thesis by (simp add: str_trim_def)
qed

lemma name_char_not_space: "name_char c \<Longrightarrow> \<not> is_space c"
  by (auto simp: name_char_def to_digit_def is_space_def Let_def split: if_splits)

lemma quote_ends: "quote v \<noteq> [] \<and> hd (quote v) = CHR 0x22 \<and> last (quote v) = CHR 0x22"
  by (simp add: quote_def)

lemma quote_not_space: "\<not> is_space (CHR 0x22)" "\<not> is_space (CHR ''!'')"
  by (simp_all add: is_space_def)

lemma trim_quote: "str_trim (quote v) = quote v" "str_trim (CHR ''!'' # quote v) = CHR ''!'' # quote v"
  using quote_ends [of v] quote_not_space by (auto intro!: trim_ends_kept)

lemma trim_name:
  assumes "list_all name_char n"
  shows "str_trim n = n"
  using assms name_char_not_space by (intro trim_plain) (auto simp: list_all_iff)

lemma printed_trimmed:
  assumes "printable opt"
  shows "write_option opt \<noteq> [] \<and> str_trim (write_option opt) = write_option opt"
proof -
  have n: "raw_name opt \<noteq> []" "\<not> is_space (hd (raw_name opt))" "\<not> is_space (last (raw_name opt))"
    using assms name_char_not_space by (auto simp: printable_def list_all_iff)
  then have "write_option opt \<noteq> []" "\<not> is_space (hd (write_option opt))"
    by (auto simp: write_option_def)
  moreover have "\<not> is_space (last (write_option opt))"
    using n quote_ends quote_not_space
    by (cases "raw_value opt") (auto simp: write_option_def write_value_def)
  ultimately show ?thesis by (simp add: trim_ends_kept)
qed

lemma lower_name: "list_all name_char n \<Longrightarrow> map char_lower n = n"
  by (induction n) (auto simp: name_char_def)

lemma parse_printed:
  assumes "printable opt"
  shows "parse_chunk (write_option opt) = Inr opt"
proof (cases "raw_value opt")
  case None
  have "name_length (raw_name opt) False False = None"
    using assms name_length_printed [of "raw_name opt" "[]"] by (simp add: printable_def)
  with None assms show ?thesis
    by (cases opt) (simp add: parse_chunk_def split_name_value_def write_option_def write_value_def printable_def trim_name lower_name)
next
  case (Some v)
  let ?rest = "(if raw_negated opt then [CHR ''!''] else []) @ quote v"
  have "split_name_value (write_option opt) = Some (raw_name opt, ?rest)"
    using assms Some by (simp add: split_name_value_def write_option_def write_value_def printable_def name_length_printed)
  moreover have "strip_prefix (CHR ''!'') (quote v) = None"
    by (simp add: quote_def strip_prefix_def)
  ultimately show ?thesis
    using assms Some by (cases opt) (auto simp: parse_chunk_def printable_def trim_name lower_name trim_quote unescape_quote
      strip_prefix_def [of _ "CHR ''!'' # quote v"])
qed

lemma parse_printed_list: "list_all printable opts \<Longrightarrow> parse_chunks (map write_option opts) = Inr opts"
  by (induction opts) (auto simp: Let_def printed_trimmed parse_printed)

lemma options_read_back: "list_all printable opts \<Longrightarrow> parse_options (write_options opts) = Inr opts"
  by (simp add: parse_options_def split_option_list_def split_printed_list parse_printed_list)

section \<open>Patterns\<close>

lemma hex_digits: "n < 16 \<Longrightarrow> to_digit 16 (''0123456789abcdef'' ! n) = Some n \<and> \<not> is_ascii_space (''0123456789abcdef'' ! n)
    \<and> ''0123456789abcdef'' ! n \<noteq> CHR ''|''"
  by (simp add: less_Suc_eq numeral_eq_Suc) (elim disjE; simp add: to_digit_def is_ascii_space_def)

lemma hex_pair_read: "content_loop (hex_pair b @ cs) out True None = content_loop cs (out @ [b]) True None"
proof -
  have "unat b < 256" using unsigned_less [of b, where ?'a = nat] by simp
  then have "unat b div 16 < 16" "unat b mod 16 < 16" by auto
  then show ?thesis
    using hex_digits [of "unat b div 16"] hex_digits [of "unat b mod 16"] by (simp add: hex_pair_def)
qed

lemma hex_pairs_read: "content_loop (concat (map hex_pair bs) @ cs) out True None = content_loop cs (out @ bs) True None"
  by (induction bs arbitrary: out) (auto simp: hex_pair_read)

lemma hex_section_read: "parse_content_pattern (hex_section bs) = Inr bs"
  by (simp add: parse_content_pattern_def hex_section_def hex_pairs_read)

section \<open>Properties\<close>

lemma rule_text_split:
  assumes "head \<noteq> []" "\<not> is_space (hd head)" "CHR ''('' \<notin> set head"
  shows "parse_rule (head @ ''('' @ body @ '')'') =
    and_then (parse_header head) (\<lambda>header. and_then (parse_options body) (\<lambda>opts. build_rule header opts (head @ ''('' @ body @ '')'')))"
proof -
  let ?t = "head @ ''('' @ body @ '')''"
  have t: "str_trim ?t = ?t"
    using assms(1,2) by (intro trim_ends_kept) (auto simp: is_space_def)
  have "takeWhile (\<lambda>c. c \<noteq> CHR ''('') head = head"
    using assms(3) by (auto simp: takeWhile_eq_all_conv)
  then have "takeWhile (\<lambda>c. c \<noteq> CHR ''('') ?t = head"
    using assms(3) by (subst takeWhile_append2) auto
  then have "split_once (CHR ''('') ?t = Some (head, body @ '')'')"
    by (simp add: split_once_def Let_def)
  moreover have "rsplit_once (CHR '')'') ?t = Some (head @ ''('' @ body, [])"
    by (simp add: rsplit_once_def split_once_def Let_def)
  ultimately show ?thesis
    using assms(1) t by (simp add: parse_rule_def Let_def)
qed

definition http_option :: raw_option where
  "http_option = \<lparr>raw_name = ''content'', raw_value = Some (hex_section [0x22, 0x3B, 0]), raw_negated = True\<rparr>"

definition number_option :: "string \<Rightarrow> string \<Rightarrow> raw_option" where
  "number_option name v = \<lparr>raw_name = name, raw_value = Some v, raw_negated = False\<rparr>"

definition sample_text :: string where
  "sample_text = ''alert tcp any any -> any any '' @ ''('' @ write_options [number_option ''msg'' ''a;b'', http_option, number_option ''sid'' ''7''] @ '')''"

text \<open>C16. Writing a rule and parsing it back. Take any text in front of the option block that starts with no blank and holds
no opening parenthesis, and any options with lower-case names and arbitrary values, negated or not. Written out
with quotes and escapes inside one pair of parentheses, the parser reads exactly the same options in the same order and
builds the rule from them, whatever quotes, semicolons, backslashes or parentheses the values contain.\<close>

theorem rule_text_parsed:
  assumes "head \<noteq> []" "\<not> is_space (hd head)" "CHR ''('' \<notin> set head" "list_all printable opts"
  shows "parse_rule (head @ ''('' @ write_options opts @ '')'') =
    and_then (parse_header head) (\<lambda>header. build_rule header opts (head @ ''('' @ write_options opts @ '')''))"
  by (simp only: rule_text_split [OF assms(1-3)] options_read_back [OF assms(4)] and_then_simps)

lemma sample_printable: "list_all printable [number_option ''msg'' ''a;b'', http_option, number_option ''sid'' ''7'']"
  by code_simp

theorem rule_text_parsed_witness:
  "list_all printable [number_option ''msg'' ''a;b'', http_option, number_option ''sid'' ''7''] \<and>
   parse_rule sample_text = and_then (parse_header ''alert tcp any any -> any any '')
     (\<lambda>header. build_rule header [number_option ''msg'' ''a;b'', http_option, number_option ''sid'' ''7''] sample_text)"
  using rule_text_parsed [of "''alert tcp any any -> any any ''" "[number_option ''msg'' ''a;b'', http_option, number_option ''sid'' ''7'']"]
    sample_printable by (simp add: sample_text_def is_space_def)

definition rule_summary :: "parse_error + rule \<Rightarrow> (nat \<times> string \<times> rule_option list) option" where
  "rule_summary x = (case x of Inl e \<Rightarrow> None | Inr r \<Rightarrow> Some (ru_sid r, ru_msg r, ru_options r))"

lemmas number_eval = parse_uint_def digit_value_def u32_max_def parse_i64_def parse_int_def Let_def

lemma numbers_read:
  "parse_uint u32_max ''100'' = Some 100" "parse_uint u32_max ''1'' = Some 1" "parse_uint u32_max ''7'' = Some 7"
  "parse_i64 ''5000000000'' = Some 5000000000" "parse_i64 ''-1'' = Some (- 1)"
  by (simp_all add: number_eval)

lemma words_trimmed:
  "str_trim ''100'' = ''100''" "str_trim ''1'' = ''1''" "str_trim ''7'' = ''7''" "str_trim ''5000000000'' = ''5000000000''"
  "str_trim ''-1'' = ''-1''" "str_trim ''='' = ''=''" "str_trim ''=100'' = ''=100''" "str_trim ''!=100'' = ''!=100''"
  "str_trim ''!='' = ''!=''" "str_trim ''a'' = ''a''" "str_trim ''a;b'' = ''a;b''" "str_trim ''established'' = ''established''"
  by code_simp+

lemmas build_eval = build_rule_def build_option_def describe_option_def reject_duplicate_def parse_u32_option_def require_value_def
  empty_builder_def buffer_from_keyword_def match_option_def read_value_def number_option_def content_modifiers_def
  numbers_read words_trimmed push_match_def Let_def unwrap_or_def

definition plain_header :: rule_header where
  "plain_header = \<lparr>rh_action = RAlert, rh_protocol = RTcp, rh_source = \<lparr>asp_negated = False, asp_value = AnyAddress\<rparr>,
     rh_source_port = \<lparr>psp_negated = False, psp_value = AnyPort\<rparr>, rh_direction = ToDestination,
     rh_destination = \<lparr>asp_negated = False, asp_value = AnyAddress\<rparr>, rh_destination_port = \<lparr>psp_negated = False, psp_value = AnyPort\<rparr>\<rparr>"

lemma plain_header_parsed: "parse_header ''alert tcp any any -> any any '' = Inr plain_header"
  by code_simp

lemma plain_rule_parsed:
  "parse_rule (''alert tcp any any -> any any '' @ ''('' @ body @ '')'') =
    and_then (parse_options body) (\<lambda>opts. build_rule plain_header opts (''alert tcp any any -> any any '' @ ''('' @ body @ '')''))"
  by (subst rule_text_split) (simp_all add: plain_header_parsed is_space_def)

lemma sample_parsed:
  "rule_summary (parse_rule sample_text) = Some (7, ''a;b'', [Content ((content_new [0x22, 0x3B, 0])\<lparr>cm_negated := True\<rparr>)])"
  unfolding sample_text_def plain_rule_parsed options_read_back [OF sample_printable]
  by (simp add: build_eval http_option_def hex_section_read rule_summary_def content_new_def)

text \<open>C17. Every rule the parser accepts is well formed: its identifiers fit 32 bits, its priority lies between 1 and 255, its
message is not blank, a port range is not reversed, no pattern is empty, a byte test or jump reads one to eight
bytes, an offset fits its type, no alternative of a host condition is empty, and a threshold counts at least one
event. The engine relies on these for its total behaviour.\<close>

theorem parsed_rule_wf: "parse_rule cs = Inr r \<Longrightarrow> rule_wf r"
  by (rule parse_rule_wf)

theorem parsed_rule_wf_witness: "\<exists>r. parse_rule sample_text = Inr r \<and> rule_wf r \<and> ru_sid r = 7"
proof -
  obtain r where r: "parse_rule sample_text = Inr r" "ru_sid r = 7"
    using sample_parsed by (auto simp: rule_summary_def split: sum.splits)
  then show ?thesis using parsed_rule_wf [of sample_text r] by blast
qed

text \<open>
  The exclamation mark in front of a value is cut off for every option, and only a content, an expression or a host
  condition looks at it. Everywhere else the option means what it means without it.
\<close>

lemma negation_ignored:
  assumes "raw_name opt \<noteq> ''content''" "raw_name opt \<noteq> ''pcre''" "host_field_from_keyword (raw_name opt) = None"
    "strip_pcre (raw_name opt) = None"
  shows "build_option (opt\<lparr>raw_negated := True\<rparr>) b = build_option (opt\<lparr>raw_negated := False\<rparr>) b"
proof -
  have "match_option (raw_name opt) (raw_value opt) True b = match_option (raw_name opt) (raw_value opt) False b"
    using assms(1,2) by (simp add: match_option_def)
  moreover have "other_option (raw_name opt) (raw_value opt) True b = other_option (raw_name opt) (raw_value opt) False b"
    using assms(3,4) by (simp add: other_option_def)
  ultimately show ?thesis by (simp add: build_option_def Let_def split: option.splits)
qed

definition rule_with :: "string \<Rightarrow> string" where
  "rule_with opt = ''alert tcp any any -> any any '' @ ''('' @ (''msg:a; '' @ opt @ ''; sid:1;'') @ '')''"

lemma rule_with_options:
  assumes "parse_options (''msg:a; '' @ opt @ ''; sid:1;'') = Inr ([number_option ''msg'' ''a''] @ opts @ [number_option ''sid'' ''1''])"
  shows "parse_rule (rule_with opt) = build_rule plain_header ([number_option ''msg'' ''a''] @ opts @ [number_option ''sid'' ''1'']) (rule_with opt)"
  unfolding rule_with_def plain_rule_parsed assms by (simp only: and_then_simps)

text \<open>So a size written as different from 100 is the size 100, though the reader of sizes knows the operator.\<close>

lemma sizes_read:
  "parse_dsize ''=100'' = Inr \<lparr>dz_op = OpEqual, dz_value = 100, dz_upper = None\<rparr>"
  "parse_dsize ''!=100'' = Inr \<lparr>dz_op = OpNotEqual, dz_value = 100, dz_upper = None\<rparr>"
  by (simp_all add: parse_dsize_def is_digit_def to_digit_def numeric_parse_def build_eval)

lemma dsize_inverted:
  "rule_summary (parse_rule (rule_with ''dsize:!=100'')) = Some (1, ''a'', [Dsize \<lparr>dz_op = OpEqual, dz_value = 100, dz_upper = None\<rparr>])"
proof -
  have p: "parse_options (''msg:a; '' @ ''dsize:!=100'' @ ''; sid:1;'') =
      Inr ([number_option ''msg'' ''a''] @ [\<lparr>raw_name = ''dsize'', raw_value = Some ''=100'', raw_negated = True\<rparr>] @ [number_option ''sid'' ''1''])"
    by code_simp
  show ?thesis unfolding rule_with_options [OF p] by (simp add: build_eval sizes_read rule_summary_def)
qed

lemma flow_inverted:
  "rule_summary (parse_rule (rule_with ''flow:!established'')) = Some (1, ''a'', [OnFlow \<lparr>fm_established = Some True, fm_to_server = None\<rparr>])"
proof -
  have p: "parse_options (''msg:a; '' @ ''flow:!established'' @ ''; sid:1;'') =
      Inr ([number_option ''msg'' ''a''] @ [\<lparr>raw_name = ''flow'', raw_value = Some ''established'', raw_negated = True\<rparr>] @ [number_option ''sid'' ''1''])"
    by code_simp
  show ?thesis unfolding rule_with_options [OF p] by (simp add: build_eval parse_flow_def rule_summary_def)
qed

text \<open>A depth past 32 bits, or a negative one, is silently the depth 0, within which no pattern fits.\<close>

lemma depth_silently_zero:
  "rule_summary (parse_rule (rule_with ''content:x; depth:5000000000'')) = Some (1, ''a'', [Content ((content_new [0x78])\<lparr>cm_depth := Some 0\<rparr>)])"
  "rule_summary (parse_rule (rule_with ''content:x; depth:-1'')) = Some (1, ''a'', [Content ((content_new [0x78])\<lparr>cm_depth := Some 0\<rparr>)])"
proof -
  have p: "parse_options (''msg:a; '' @ ''content:x; depth:5000000000'' @ ''; sid:1;'') =
      Inr ([number_option ''msg'' ''a''] @ [number_option ''content'' ''x'', number_option ''depth'' ''5000000000''] @ [number_option ''sid'' ''1''])"
    and q: "parse_options (''msg:a; '' @ ''content:x; depth:-1'' @ ''; sid:1;'') =
      Inr ([number_option ''msg'' ''a''] @ [number_option ''content'' ''x'', number_option ''depth'' ''-1''] @ [number_option ''sid'' ''1''])"
    by code_simp+
  note depth_eval = build_eval parse_content_pattern_def content_new_def apply_content_modifier_def modify_content_def
    modifier_number_def u32_or_zero_def rule_summary_def
  show "rule_summary (parse_rule (rule_with ''content:x; depth:5000000000'')) = Some (1, ''a'', [Content ((content_new [0x78])\<lparr>cm_depth := Some 0\<rparr>)])"
    unfolding rule_with_options [OF p] by (simp add: depth_eval)
  show "rule_summary (parse_rule (rule_with ''content:x; depth:-1'')) = Some (1, ''a'', [Content ((content_new [0x78])\<lparr>cm_depth := Some 0\<rparr>)])"
    unfolding rule_with_options [OF q] by (simp add: depth_eval)
qed

end
