(* ===== verification/Loader.thy ===== *)
theory Loader
  imports RuleParser
begin

text \<open>
  Rule files (\<open>crates/rules/src/loader.rs\<close>): the logical lines of a file, the loaded rules with their index by
  number, and the report. Reading a file is the parameter \<open>fs\<close>. Text is over characters below 256, so the
  byte order mark that the source strips from the first line does not occur, and the ellipsis of a cut text is a flag.
\<close>

section \<open>Lines\<close>

definition trim_end :: "string \<Rightarrow> string" where
  "trim_end cs = rev (dropWhile is_space (rev cs))"

definition strip_suffix :: "char \<Rightarrow> string \<Rightarrow> string option" where
  "strip_suffix c cs = (if cs \<noteq> [] \<and> last cs = c then Some (butlast cs) else None)"

text \<open>\<open>str::lines\<close>: a carriage return before the line feed belongs to the line end.\<close>

definition str_lines :: "string \<Rightarrow> string list" where
  "str_lines cs = map (\<lambda>l. unwrap_or (strip_suffix (char_of (13 :: nat)) l) l) (split_lines cs [])"

fun join_lines :: "string list \<Rightarrow> nat \<Rightarrow> string \<Rightarrow> nat \<Rightarrow> (nat \<times> string) list" where
  "join_lines [] number buffer start_line = (if str_trim buffer \<noteq> [] then [(start_line, buffer)] else [])"
| "join_lines (line # rest) number buffer start_line =
     (let trimmed = str_trim line in
      if buffer = [] \<and> (trimmed = [] \<or> strip_prefix (CHR ''#'') trimmed \<noteq> None) then join_lines rest (number + 1) buffer start_line
      else let start_line = (if buffer = [] then number else start_line) in
        case strip_suffix (CHR 0x5C) trimmed of
          Some head \<Rightarrow> join_lines rest (number + 1) (buffer @ trim_end head @ '' '') start_line
        | None \<Rightarrow> (start_line, buffer @ trimmed) # join_lines rest (number + 1) [] start_line)"

definition logical_lines :: "string \<Rightarrow> (nat \<times> string) list" where
  "logical_lines cs = join_lines (str_lines cs) 1 [] 0"

text \<open>The text kept for the log: at most 256 bytes of UTF-8, cut at a character, and whether it was cut.\<close>

definition utf8_length :: "char \<Rightarrow> nat" where
  "utf8_length c = (if (of_char c :: nat) < 128 then 1 else 2)"

fun take_bytes :: "nat \<Rightarrow> string \<Rightarrow> string" where
  "take_bytes n [] = []"
| "take_bytes n (c # cs) = (if utf8_length c \<le> n then c # take_bytes (n - utf8_length c) cs else [])"

definition truncate_text :: "string \<Rightarrow> string \<times> bool" where
  "truncate_text cs = (if sum_list (map utf8_length cs) \<le> 256 then (cs, False) else (take_bytes 256 cs, True))"

section \<open>Rules and report\<close>

datatype skip_reason = Unreadable | DuplicateSid nat string | Unparseable parse_error

record skipped_rule =
  sk_file :: string
  sk_line :: nat
  sk_reason :: skip_reason
  sk_raw :: "string \<times> bool"

record load_report =
  lr_files :: "string list"
  lr_loaded :: nat
  lr_evaluable :: nat
  lr_skipped :: "skipped_rule list"
  lr_unsupported :: "string \<rightharpoonup> nat"

definition empty_report :: load_report where
  "empty_report = \<lparr>lr_files = [], lr_loaded = 0, lr_evaluable = 0, lr_skipped = [], lr_unsupported = Map.empty\<rparr>"

definition non_evaluable :: "load_report \<Rightarrow> nat option" where
  "non_evaluable report = usub (lr_loaded report) (lr_evaluable report)"

record rule_set =
  set_rules :: "rule list"
  set_by_sid :: "nat \<rightharpoonup> nat"

definition empty_rule_set :: rule_set where
  "empty_rule_set = \<lparr>set_rules = [], set_by_sid = Map.empty\<rparr>"

definition rule_get :: "rule_set \<Rightarrow> nat \<Rightarrow> rule option" where
  "rule_get rs sid = (case set_by_sid rs sid of None \<Rightarrow> None
     | Some index \<Rightarrow> if index < length (set_rules rs) then Some (set_rules rs ! index) else None)"

definition evaluable_rules :: "rule_set \<Rightarrow> rule list" where
  "evaluable_rules rs = filter is_evaluable (set_rules rs)"

definition count_option :: "string \<Rightarrow> (string \<rightharpoonup> nat) \<Rightarrow> (string \<rightharpoonup> nat)" where
  "count_option opt m = m(opt \<mapsto> unwrap_or (m opt) 0 + 1)"

definition skip :: "skipped_rule \<Rightarrow> load_report \<Rightarrow> load_report" where
  "skip s report = report\<lparr>lr_skipped := lr_skipped report @ [s]\<rparr>"

text \<open>One logical line; the lookup of the rule already there is an indexing that may panic.\<close>

definition load_line :: "string \<Rightarrow> nat \<times> string \<Rightarrow> rule_set \<times> load_report \<Rightarrow> (rule_set \<times> load_report) option" where
  "load_line file l st = (let (line, raw) = l; (rs, report) = st; origin = \<lparr>ro_file = file, ro_line = line\<rparr> in
     case parse_rule raw of
       Inl e \<Rightarrow> Some (rs, skip \<lparr>sk_file = file, sk_line = line, sk_reason = Unparseable e, sk_raw = truncate_text raw\<rparr> report)
     | Inr r \<Rightarrow> (case set_by_sid rs (ru_sid r) of
         Some existing \<Rightarrow>
           if existing < length (set_rules rs)
           then Some (rs, skip \<lparr>sk_file = file, sk_line = line,
             sk_reason = DuplicateSid (ru_sid r) (location (set_rules rs ! existing)), sk_raw = truncate_text raw\<rparr> report)
           else None
       | None \<Rightarrow>
           Some (\<lparr>set_rules = set_rules rs @ [r\<lparr>ru_origin := Some origin\<rparr>],
                   set_by_sid = (set_by_sid rs)(ru_sid r \<mapsto> length (set_rules rs))\<rparr>,
                 report\<lparr>lr_unsupported := fold count_option (ru_unsupported r) (lr_unsupported report),
                   lr_loaded := lr_loaded report + 1,
                   lr_evaluable := lr_evaluable report + (if is_evaluable r then 1 else 0)\<rparr>)))"

fun load_lines :: "string \<Rightarrow> (nat \<times> string) list \<Rightarrow> rule_set \<times> load_report \<Rightarrow> (rule_set \<times> load_report) option" where
  "load_lines file [] st = Some st"
| "load_lines file (l # ls) st = Option.bind (load_line file l st) (load_lines file ls)"

definition load_text :: "string \<Rightarrow> string \<Rightarrow> rule_set \<times> load_report \<Rightarrow> (rule_set \<times> load_report) option" where
  "load_text cs file st = load_lines file (logical_lines cs) st"

fun load_paths :: "(string \<Rightarrow> string option) \<Rightarrow> string list \<Rightarrow> rule_set \<times> load_report \<Rightarrow> (rule_set \<times> load_report) option" where
  "load_paths fs [] st = Some st"
| "load_paths fs (path # paths) (rs, report) = (case fs path of
       Some cs \<Rightarrow> Option.bind (load_text cs path (rs, report\<lparr>lr_files := lr_files report @ [path]\<rparr>)) (load_paths fs paths)
     | None \<Rightarrow> load_paths fs paths
         (rs, skip \<lparr>sk_file = path, sk_line = 0, sk_reason = Unreadable, sk_raw = ([], False)\<rparr> report))"

definition load_files :: "(string \<Rightarrow> string option) \<Rightarrow> string list \<Rightarrow> (rule_set \<times> load_report) option" where
  "load_files fs paths = load_paths fs paths (empty_rule_set, empty_report)"

text \<open>The one-line summary; the number of rules awaiting support is an unsigned subtraction.\<close>

definition report_summary :: "load_report \<Rightarrow> string option" where
  "report_summary report = map_option (\<lambda>waiting.
     show_nat (lr_loaded report) @ '' rule(s) loaded from '' @ show_nat (length (lr_files report)) @ '' file(s): '' @
     show_nat (lr_evaluable report) @ '' evaluable, '' @ show_nat waiting @ '' awaiting engine support, '' @
     show_nat (length (lr_skipped report)) @ '' skipped'') (non_evaluable report)"

section \<open>The invariant\<close>

text \<open>The index names exactly the rules of the list by their numbers, and the report counts them.\<close>

definition index_wf :: "rule_set \<Rightarrow> bool" where
  "index_wf rs \<longleftrightarrow> (\<forall>sid i. set_by_sid rs sid = Some i \<longleftrightarrow> i < length (set_rules rs) \<and> ru_sid (set_rules rs ! i) = sid)"

definition report_wf :: "rule_set \<times> load_report \<Rightarrow> bool" where
  "report_wf st \<longleftrightarrow> lr_loaded (snd st) = length (set_rules (fst st)) \<and> lr_evaluable (snd st) = length (evaluable_rules (fst st))"

definition loaded_wf :: "rule_set \<times> load_report \<Rightarrow> bool" where
  "loaded_wf st \<longleftrightarrow> index_wf (fst st) \<and> report_wf st"

lemma index_extend:
  assumes "index_wf rs" "set_by_sid rs (ru_sid r) = None"
  shows "index_wf \<lparr>set_rules = set_rules rs @ [r\<lparr>ru_origin := x\<rparr>], set_by_sid = (set_by_sid rs)(ru_sid r \<mapsto> length (set_rules rs))\<rparr>"
  using assms unfolding index_wf_def
  by (auto simp: nth_append less_Suc_eq split: if_splits) (metis option.distinct(1))+

lemma is_evaluable_origin [simp]: "is_evaluable (r\<lparr>ru_origin := x\<rparr>) = is_evaluable r"
  by (simp add: is_evaluable_def)

lemma load_line_ok:
  assumes "loaded_wf st"
  shows "\<exists>st'. load_line file l st = Some st' \<and> loaded_wf st' \<and>
    lr_loaded (snd st') + length (lr_skipped (snd st')) = lr_loaded (snd st) + length (lr_skipped (snd st)) + 1"
proof -
  obtain line raw where l: "l = (line, raw)" by force
  obtain rs report where st: "st = (rs, report)" by force
  show ?thesis
  proof (cases "parse_rule raw")
    case (Inl e)
    with assms show ?thesis by (simp add: load_line_def l st loaded_wf_def report_wf_def skip_def)
  next
    case (Inr r)
    show ?thesis
    proof (cases "set_by_sid rs (ru_sid r)")
      case None
      with assms Inr show ?thesis
        by (simp add: load_line_def l st loaded_wf_def report_wf_def evaluable_rules_def index_extend)
    next
      case (Some i)
      with assms have "i < length (set_rules rs)" by (simp add: loaded_wf_def index_wf_def st)
      with assms Inr Some show ?thesis by (simp add: load_line_def l st loaded_wf_def report_wf_def skip_def)
    qed
  qed
qed

lemma load_lines_ok:
  assumes "loaded_wf st"
  shows "\<exists>st'. load_lines file ls st = Some st' \<and> loaded_wf st' \<and>
    lr_loaded (snd st') + length (lr_skipped (snd st')) = lr_loaded (snd st) + length (lr_skipped (snd st)) + length ls"
  using assms
proof (induction ls arbitrary: st)
  case (Cons l ls)
  from load_line_ok [OF Cons.prems, of "file" l] obtain st1 where
    1: "load_line file l st = Some st1" "loaded_wf st1"
      "lr_loaded (snd st1) + length (lr_skipped (snd st1)) = lr_loaded (snd st) + length (lr_skipped (snd st)) + 1"
    by blast
  from Cons.IH [OF 1(2)] 1 show ?case by auto
qed simp

text \<open>The number of things a list of files holds: its logical lines, and one for a file that cannot be read.\<close>

definition entries_of :: "(string \<Rightarrow> string option) \<Rightarrow> string \<Rightarrow> nat" where
  "entries_of fs path = (case fs path of Some cs \<Rightarrow> length (logical_lines cs) | None \<Rightarrow> 1)"

lemma load_paths_ok:
  assumes "loaded_wf st"
  shows "\<exists>st'. load_paths fs paths st = Some st' \<and> loaded_wf st' \<and>
    lr_loaded (snd st') + length (lr_skipped (snd st')) =
      lr_loaded (snd st) + length (lr_skipped (snd st)) + sum_list (map (entries_of fs) paths)"
  using assms
proof (induction paths arbitrary: st)
  case (Cons path paths)
  obtain rs report where st: "st = (rs, report)" by force
  show ?case
  proof (cases "fs path")
    case None
    let ?st = "(rs, skip \<lparr>sk_file = path, sk_line = 0, sk_reason = Unreadable, sk_raw = ([], False)\<rparr> report)"
    have "loaded_wf ?st" using Cons.prems by (simp add: st loaded_wf_def report_wf_def skip_def)
    from Cons.IH [OF this] None show ?thesis by (auto simp: st entries_of_def skip_def)
  next
    case (Some cs)
    let ?st = "(rs, report\<lparr>lr_files := lr_files report @ [path]\<rparr>)"
    have "loaded_wf ?st" using Cons.prems by (simp add: st loaded_wf_def report_wf_def)
    from load_lines_ok [OF this, of path "logical_lines cs"] obtain st1 where
      1: "load_text cs path ?st = Some st1" "loaded_wf st1"
        "lr_loaded (snd st1) + length (lr_skipped (snd st1)) = lr_loaded report + length (lr_skipped report) + length (logical_lines cs)"
      by (auto simp: load_text_def)
    from Cons.IH [OF 1(2)] 1 Some show ?thesis by (auto simp: st entries_of_def)
  qed
qed simp

lemma empty_wf: "loaded_wf (empty_rule_set, empty_report)"
  by (simp add: loaded_wf_def index_wf_def report_wf_def empty_rule_set_def empty_report_def evaluable_rules_def)

section \<open>Refinement: the first rule of a number wins\<close>

text \<open>The abstract view of the rules is a map from numbers to rules.\<close>

definition parsed_lines :: "string \<Rightarrow> (nat \<times> string) list \<Rightarrow> rule list" where
  "parsed_lines file ls = List.map_filter (\<lambda>(line, raw). case parse_rule raw of Inl _ \<Rightarrow> None
     | Inr r \<Rightarrow> Some (r\<lparr>ru_origin := Some \<lparr>ro_file = file, ro_line = line\<rparr>\<rparr>)) ls"

definition parsed_files :: "(string \<Rightarrow> string option) \<Rightarrow> string list \<Rightarrow> rule list" where
  "parsed_files fs paths = concat (map (\<lambda>path. case fs path of None \<Rightarrow> [] | Some cs \<Rightarrow> parsed_lines path (logical_lines cs)) paths)"

definition or_first :: "'a option \<Rightarrow> 'a option \<Rightarrow> 'a option" where
  "or_first x y = (case x of Some a \<Rightarrow> Some a | None \<Rightarrow> y)"

lemma or_first_simps [simp]: "or_first None y = y" "or_first (Some a) y = Some a" "or_first x None = x"
  "or_first (or_first x y) z = or_first x (or_first y z)"
  by (auto simp: or_first_def split: option.splits)

lemma find_append: "find P (xs @ ys) = or_first (find P xs) (find P ys)"
  by (induction xs) auto

lemma index_bounded: "index_wf rs \<Longrightarrow> set_by_sid rs sid = Some i \<Longrightarrow> i < length (set_rules rs)"
  by (simp add: index_wf_def)

lemma get_wf: "index_wf rs \<Longrightarrow> rule_get rs sid = map_option (nth (set_rules rs)) (set_by_sid rs sid)"
  by (cases "set_by_sid rs sid") (simp_all add: rule_get_def index_bounded)

lemma load_line_get:
  assumes "loaded_wf st" "load_line file l st = Some st'"
  shows "rule_get (fst st') sid = or_first (rule_get (fst st) sid) (find (\<lambda>r. ru_sid r = sid) (parsed_lines file [l]))"
proof -
  obtain line raw where l: "l = (line, raw)" by force
  obtain rs report where st: "st = (rs, report)" by force
  show ?thesis
  proof (cases "parse_rule raw")
    case (Inl e)
    with assms show ?thesis by (auto simp: load_line_def l st parsed_lines_def List.map_filter_simps)
  next
    case (Inr r)
    show ?thesis
    proof (cases "set_by_sid rs (ru_sid r)")
      case None
      have wf: "index_wf rs" using assms(1) by (simp add: loaded_wf_def st)
      have "index_wf (fst st')"
        using assms load_line_ok [OF assms(1), of "file" l] by (auto simp: loaded_wf_def)
      then show ?thesis
        using assms(2) None Inr wf
        by (cases "set_by_sid rs sid") (auto simp: load_line_def l st parsed_lines_def List.map_filter_simps get_wf nth_append
          dest: index_bounded)
    next
      case (Some i)
      with assms have "i < length (set_rules rs)" "index_wf rs" by (simp_all add: loaded_wf_def index_wf_def st)
      then show ?thesis
        using assms(2) Some Inr
        by (cases "ru_sid r = sid") (auto simp: load_line_def l st parsed_lines_def List.map_filter_simps get_wf)
    qed
  qed
qed

lemma parsed_lines_Cons: "parsed_lines file (l # ls) = parsed_lines file [l] @ parsed_lines file ls"
  by (auto simp: parsed_lines_def List.map_filter_simps split: option.splits)

lemma load_lines_get:
  assumes "loaded_wf st" "load_lines file ls st = Some st'"
  shows "rule_get (fst st') sid = or_first (rule_get (fst st) sid) (find (\<lambda>r. ru_sid r = sid) (parsed_lines file ls))"
  using assms
proof (induction ls arbitrary: st)
  case Nil
  then show ?case by (simp add: parsed_lines_def List.map_filter_simps)
next
  case (Cons l ls)
  then obtain st1 where 1: "load_line file l st = Some st1" "load_lines file ls st1 = Some st'" by (auto simp: Option.bind_eq_Some_conv)
  with load_line_ok [OF Cons.prems(1), of "file" l] have "loaded_wf st1" by auto
  with 1 Cons.IH [of st1] load_line_get [OF Cons.prems(1) 1(1), of sid] show ?case
    by (simp add: parsed_lines_Cons [of "file" l ls] find_append)
qed

lemma load_paths_get:
  assumes "loaded_wf st" "load_paths fs paths st = Some st'"
  shows "rule_get (fst st') sid = or_first (rule_get (fst st) sid) (find (\<lambda>r. ru_sid r = sid) (parsed_files fs paths))"
  using assms
proof (induction paths arbitrary: st)
  case Nil
  then show ?case by (simp add: parsed_files_def)
next
  case (Cons path paths)
  obtain rs report where st: "st = (rs, report)" by force
  show ?case
  proof (cases "fs path")
    case None
    let ?st = "(rs, skip \<lparr>sk_file = path, sk_line = 0, sk_reason = Unreadable, sk_raw = ([], False)\<rparr> report)"
    have "loaded_wf ?st" using Cons.prems by (simp add: st loaded_wf_def report_wf_def skip_def)
    from Cons.IH [OF this] None Cons.prems(2) show ?thesis by (simp add: st parsed_files_def)
  next
    case (Some cs)
    let ?st = "(rs, report\<lparr>lr_files := lr_files report @ [path]\<rparr>)"
    have wf: "loaded_wf ?st" using Cons.prems by (simp add: st loaded_wf_def report_wf_def)
    from Cons.prems(2) Some obtain st1 where 1: "load_lines path (logical_lines cs) ?st = Some st1" "load_paths fs paths st1 = Some st'"
      by (auto simp: st load_text_def Option.bind_eq_Some_conv)
    with load_lines_ok [OF wf, of path "logical_lines cs"] have "loaded_wf st1" by auto
    with 1 Cons.IH [of st1] load_lines_get [OF wf 1(1), of sid] Some show ?thesis
      by (simp add: st parsed_files_def find_append)
  qed
qed

section \<open>Properties\<close>

text \<open>C13. Loading never fails and never loses a rule silently: whatever the files hold, and whether or not they can be read,
loading returns; the rules loaded and the entries in the report of what was skipped add up to exactly the logical
lines of the readable files plus one for every unreadable file; the index finds every loaded rule by its number; and
the counts of the report are those of the rules.\<close>

theorem load_accounts_for_every_rule:
  "\<exists>rs report. load_files fs paths = Some (rs, report) \<and> index_wf rs \<and> distinct (map ru_sid (set_rules rs)) \<and>
     lr_loaded report = length (set_rules rs) \<and> lr_evaluable report = length (evaluable_rules rs) \<and>
     lr_loaded report + length (lr_skipped report) = sum_list (map (entries_of fs) paths) \<and>
     report_summary report \<noteq> None"
proof -
  from load_paths_ok [OF empty_wf, of fs paths] obtain rs report where
    1: "load_files fs paths = Some (rs, report)" "loaded_wf (rs, report)"
      "lr_loaded report + length (lr_skipped report) = sum_list (map (entries_of fs) paths)"
    by (auto simp: load_files_def empty_report_def)
  then have wf: "index_wf rs" "lr_loaded report = length (set_rules rs)" "lr_evaluable report = length (evaluable_rules rs)"
    by (auto simp: loaded_wf_def report_wf_def)
  have "distinct (map ru_sid (set_rules rs))"
    using wf(1) unfolding index_wf_def distinct_conv_nth by (metis length_map nth_map option.inject)
  moreover have "report_summary report \<noteq> None"
    using wf by (simp add: report_summary_def non_evaluable_def usub_def evaluable_rules_def)
  ultimately show ?thesis using 1 wf by auto
qed

text \<open>The loaded rules are the first of each number: looking a number up finds the first rule with that number, in the order of the
files and of the lines in them, among the lines that parse, with its place of origin; a later rule with the same number never
replaces it.\<close>

theorem first_rule_wins:
  assumes "load_files fs paths = Some (rs, report)"
  shows "rule_get rs sid = find (\<lambda>r. ru_sid r = sid) (parsed_files fs paths)"
  using load_paths_get [OF empty_wf, of fs paths "(rs, report)" sid] assms
  by (simp add: load_files_def rule_get_def empty_rule_set_def)

theorem first_rule_wins_witness:
  "\<exists>rs report. load_files (\<lambda>path. if path = ''a'' then Some sample_text else None) [''a'', ''b''] = Some (rs, report)
     \<and> rule_get rs 7 = find (\<lambda>r. ru_sid r = 7) (parsed_files (\<lambda>path. if path = ''a'' then Some sample_text else None) [''a'', ''b''])"
  using first_rule_wins load_paths_ok [OF empty_wf] unfolding load_files_def by (metis surj_pair)

end
