(* ===== verification/Decode.thy ===== *)
theory Decode
  imports VerdictPath
begin

text \<open>
  The packet decoder (\<open>crates/decode/src\<close>): anomalies, the decoded layers, and the walk from the Ethernet header to
  the transport payload. The header readers of the etherparse crate are the fields of \<open>ether_parsers\<close>; a reader returns
  the fields and the bytes after the header. A slice of the frame is the list of its bytes, and since every
  slice the code takes an offset of is a tail of the frame, the offset is the difference of the lengths.
\<close>

unbundle bit_operations_syntax

section \<open>Anomalies\<close>

datatype layer = LEthernet | LVlan | LIpv4 | LIpv6 | LTcp | LUdp | LIcmp

datatype anomaly_kind = TruncatedHeader | LengthMismatch | ImpossibleLength | UnknownIpVersion | BadIpv4Checksum
  | TooManyLayers | EmptyFrame

record anomaly =
  an_kind :: anomaly_kind
  an_layer :: layer

fun layer_as_str :: "layer \<Rightarrow> string" where
  "layer_as_str LEthernet = ''ethernet''"
| "layer_as_str LVlan = ''vlan''"
| "layer_as_str LIpv4 = ''ipv4''"
| "layer_as_str LIpv6 = ''ipv6''"
| "layer_as_str LTcp = ''tcp''"
| "layer_as_str LUdp = ''udp''"
| "layer_as_str LIcmp = ''icmp''"

fun kind_as_str :: "anomaly_kind \<Rightarrow> string" where
  "kind_as_str TruncatedHeader = ''truncated_header''"
| "kind_as_str LengthMismatch = ''length_mismatch''"
| "kind_as_str ImpossibleLength = ''impossible_length''"
| "kind_as_str UnknownIpVersion = ''unknown_ip_version''"
| "kind_as_str BadIpv4Checksum = ''bad_ipv4_checksum''"
| "kind_as_str TooManyLayers = ''too_many_layers''"
| "kind_as_str EmptyFrame = ''empty_frame''"

definition show_anomaly :: "anomaly \<Rightarrow> string" where
  "show_anomaly a = layer_as_str (an_layer a) @ ''.'' @ kind_as_str (an_kind a)"

record anomaly_set =
  as_found :: "anomaly list"
  as_overflowed :: bool

definition anomaly_cap :: nat where "anomaly_cap = 8"

definition empty_anomalies :: anomaly_set where
  "empty_anomalies = \<lparr>as_found = [], as_overflowed = False\<rparr>"

definition anomaly_push :: "anomaly \<Rightarrow> anomaly_set \<Rightarrow> anomaly_set" where
  "anomaly_push a s =
     (if a \<in> set (as_found s) then s
      else if anomaly_cap \<le> length (as_found s) then s\<lparr>as_overflowed := True\<rparr>
      else s\<lparr>as_found := as_found s @ [a]\<rparr>)"

definition anomalies_contain :: "anomaly_kind \<Rightarrow> anomaly_set \<Rightarrow> bool" where
  "anomalies_contain k s = list_ex (\<lambda>a. an_kind a = k) (as_found s)"

section \<open>Layers\<close>

record ipv4_info =
  v4_source :: "32 word"
  v4_destination :: "32 word"
  v4_protocol :: byte
  v4_ttl :: byte
  v4_identification :: "16 word"
  v4_fragment_offset :: "16 word"
  v4_more_fragments :: bool
  v4_header_len :: nat
  v4_total_len :: "16 word"

definition v4_is_fragment :: "ipv4_info \<Rightarrow> bool" where
  "v4_is_fragment i \<longleftrightarrow> v4_more_fragments i \<or> v4_fragment_offset i \<noteq> 0"

record ipv6_info =
  v6_source :: "128 word"
  v6_destination :: "128 word"
  v6_protocol :: byte
  v6_hop_limit :: byte
  v6_payload_length :: "16 word"
  v6_header_len :: nat
  v6_is_fragment :: bool
  v6_fragment_offset :: "16 word"
  v6_more_fragments :: bool
  v6_identification :: "32 word"

datatype network = Ipv4 ipv4_info | Ipv6 ipv6_info

fun network_source :: "network \<Rightarrow> ip_addr" where
  "network_source (Ipv4 i) = V4 (v4_source i)"
| "network_source (Ipv6 i) = V6 (v6_source i)"

fun network_destination :: "network \<Rightarrow> ip_addr" where
  "network_destination (Ipv4 i) = V4 (v4_destination i)"
| "network_destination (Ipv6 i) = V6 (v6_destination i)"

fun network_protocol :: "network \<Rightarrow> byte" where
  "network_protocol (Ipv4 i) = v4_protocol i"
| "network_protocol (Ipv6 i) = v6_protocol i"

fun network_is_fragment :: "network \<Rightarrow> bool" where
  "network_is_fragment (Ipv4 i) = v4_is_fragment i"
| "network_is_fragment (Ipv6 i) = v6_is_fragment i"

record tcp_flags =
  tf_fin :: bool
  tf_syn :: bool
  tf_rst :: bool
  tf_psh :: bool
  tf_ack :: bool
  tf_urg :: bool
  tf_ece :: bool
  tf_cwr :: bool

definition flag_bit :: "bool \<Rightarrow> nat \<Rightarrow> byte" where
  "flag_bit b i = push_bit i (of_bool b)"

definition flag_bits :: "tcp_flags \<Rightarrow> byte" where
  "flag_bits f = flag_bit (tf_fin f) 0 OR flag_bit (tf_syn f) 1 OR flag_bit (tf_rst f) 2 OR flag_bit (tf_psh f) 3 OR
     flag_bit (tf_ack f) 4 OR flag_bit (tf_urg f) 5 OR flag_bit (tf_ece f) 6 OR flag_bit (tf_cwr f) 7"

definition flags_to_short_string :: "tcp_flags \<Rightarrow> string" where
  "flags_to_short_string f = map snd (filter fst
     [(tf_fin f, CHR ''F''), (tf_syn f, CHR ''S''), (tf_rst f, CHR ''R''), (tf_psh f, CHR ''P''),
      (tf_ack f, CHR ''A''), (tf_urg f, CHR ''U''), (tf_ece f, CHR ''E''), (tf_cwr f, CHR ''C'')])"

record tcp_info =
  ti_source_port :: "16 word"
  ti_destination_port :: "16 word"
  ti_sequence_number :: "32 word"
  ti_acknowledgment_number :: "32 word"
  ti_window_size :: "16 word"
  ti_flags :: tcp_flags
  ti_header_len :: nat

record udp_info =
  ui_source_port :: "16 word"
  ui_destination_port :: "16 word"
  ui_length :: "16 word"

record icmp_info =
  ii_type :: byte
  ii_code :: byte
  ii_is_v6 :: bool

datatype transport = TTcp tcp_info | TUdp udp_info | TIcmp icmp_info | TOther byte

fun transport_source_port :: "transport \<Rightarrow> 16 word option" where
  "transport_source_port (TTcp t) = Some (ti_source_port t)"
| "transport_source_port (TUdp u) = Some (ui_source_port u)"
| "transport_source_port _ = None"

fun transport_destination_port :: "transport \<Rightarrow> 16 word option" where
  "transport_destination_port (TTcp t) = Some (ti_destination_port t)"
| "transport_destination_port (TUdp u) = Some (ui_destination_port u)"
| "transport_destination_port _ = None"

fun transport_protocol :: "transport \<Rightarrow> protocol" where
  "transport_protocol (TTcp _) = Tcp"
| "transport_protocol (TUdp _) = Udp"
| "transport_protocol (TIcmp _) = Icmp"
| "transport_protocol (TOther _) = Ip"

section \<open>The header readers of etherparse\<close>

record ipv4_header =
  h4_total_len :: "16 word"
  h4_identification :: "16 word"
  h4_fragment_offset :: "16 word"
  h4_more_fragments :: bool
  h4_ttl :: byte
  h4_protocol :: byte
  h4_checksum :: "16 word"
  h4_calc_checksum :: "16 word"
  h4_source :: "32 word"
  h4_destination :: "32 word"

record ipv6_header =
  h6_payload_length :: "16 word"
  h6_next_header :: byte
  h6_hop_limit :: byte
  h6_source :: "128 word"
  h6_destination :: "128 word"

record tcp_header =
  ht_source_port :: "16 word"
  ht_destination_port :: "16 word"
  ht_sequence_number :: "32 word"
  ht_acknowledgment_number :: "32 word"
  ht_window_size :: "16 word"
  ht_flags :: tcp_flags

record udp_header =
  hu_source_port :: "16 word"
  hu_destination_port :: "16 word"
  hu_length :: "16 word"

record ether_parsers =
  ep_ethernet :: "bytes \<Rightarrow> (16 word \<times> bytes) option"
  ep_vlan :: "bytes \<Rightarrow> (16 word \<times> 16 word \<times> bytes) option"
  ep_ipv4 :: "bytes \<Rightarrow> (ipv4_header \<times> bytes) option"
  ep_ipv6 :: "bytes \<Rightarrow> (ipv6_header \<times> bytes) option"
  ep_tcp :: "bytes \<Rightarrow> (tcp_header \<times> bytes) option"
  ep_udp :: "bytes \<Rightarrow> (udp_header \<times> bytes) option"

section \<open>Decoding\<close>

definition max_vlan_tags :: nat where "max_vlan_tags = 2"
definition max_ipv6_extension_headers :: nat where "max_ipv6_extension_headers = 8"
definition icmp_header_len :: nat where "icmp_header_len = 8"

record decoded =
  dc_frame :: bytes
  dc_original_len :: nat
  dc_ether_type :: "16 word option"
  dc_vlan_ids :: "16 word option list"
  dc_network :: "network option"
  dc_transport :: "transport option"
  dc_payload :: "nat \<times> nat"
  dc_network_payload :: "nat \<times> nat"
  dc_anomalies :: anomaly_set

definition decoded_new :: "bytes \<Rightarrow> nat \<Rightarrow> decoded" where
  "decoded_new frame original_len = \<lparr>dc_frame = frame, dc_original_len = original_len, dc_ether_type = None,
     dc_vlan_ids = replicate max_vlan_tags None, dc_network = None, dc_transport = None, dc_payload = (0, 0),
     dc_network_payload = (0, 0), dc_anomalies = empty_anomalies\<rparr>"

definition is_snapped :: "decoded \<Rightarrow> bool" where
  "is_snapped d \<longleftrightarrow> length (dc_frame d) < dc_original_len d"

definition payload_bytes :: "decoded \<Rightarrow> bytes" where
  "payload_bytes d = unwrap_or (range_get (dc_frame d) (fst (dc_payload d)) (snd (dc_payload d))) []"

definition network_payload_bytes :: "decoded \<Rightarrow> bytes" where
  "network_payload_bytes d = unwrap_or (range_get (dc_frame d) (fst (dc_network_payload d)) (snd (dc_network_payload d))) []"

definition payload_len :: "decoded \<Rightarrow> nat" where
  "payload_len d = snd (dc_payload d) - fst (dc_payload d)"

definition five_tuple :: "decoded \<Rightarrow> net_tuple option" where
  "five_tuple d = (case dc_network d of None \<Rightarrow> None
     | Some n \<Rightarrow>
         let (sport, dport, pr) = (case dc_transport d of
             Some t \<Rightarrow> (transport_source_port t, transport_destination_port t, transport_protocol t)
           | None \<Rightarrow> (None, None, Ip))
         in Some \<lparr>src_ip = network_source n, src_port = sport, dest_ip = network_destination n, dest_port = dport, proto = pr\<rparr>)"

definition note_anomaly :: "layer \<Rightarrow> anomaly_kind \<Rightarrow> decoded \<Rightarrow> decoded" where
  "note_anomaly l k d = d\<lparr>dc_anomalies := anomaly_push \<lparr>an_kind = k, an_layer = l\<rparr> (dc_anomalies d)\<rparr>"

definition offset_of :: "bytes \<Rightarrow> bytes \<Rightarrow> nat" where
  "offset_of whole sub = length whole - length sub"

definition clamp_range :: "nat \<Rightarrow> nat \<Rightarrow> nat \<Rightarrow> nat \<times> nat" where
  "clamp_range from to frame_len = (let from = min from frame_len in (from, max (min to frame_len) from))"

text \<open>The transport headers.\<close>

definition decode_tcp :: "ether_parsers \<Rightarrow> decoded \<Rightarrow> bytes \<Rightarrow> nat \<Rightarrow> nat \<Rightarrow> decoded" where
  "decode_tcp P d sl start to =
     (if length sl < 20 then note_anomaly LTcp TruncatedHeader d
      else let data_offset = unat (drop_bit 4 (sl ! 12)); header_len = data_offset * 4 in
        if data_offset < 5 then note_anomaly LTcp ImpossibleLength d
        else if length sl < header_len then note_anomaly LTcp TruncatedHeader d
        else case ep_tcp P sl of
            None \<Rightarrow> note_anomaly LTcp TruncatedHeader d
          | Some (h, _) \<Rightarrow>
              d\<lparr>dc_transport := Some (TTcp \<lparr>ti_source_port = ht_source_port h, ti_destination_port = ht_destination_port h,
                  ti_sequence_number = ht_sequence_number h, ti_acknowledgment_number = ht_acknowledgment_number h,
                  ti_window_size = ht_window_size h, ti_flags = ht_flags h, ti_header_len = header_len\<rparr>),
                dc_payload := clamp_range (start + header_len) to (length (dc_frame d))\<rparr>)"

definition decode_udp :: "ether_parsers \<Rightarrow> decoded \<Rightarrow> bytes \<Rightarrow> nat \<Rightarrow> nat \<Rightarrow> decoded" where
  "decode_udp P d sl start to =
     (if length sl < 8 then note_anomaly LUdp TruncatedHeader d
      else case ep_udp P sl of
          None \<Rightarrow> note_anomaly LUdp TruncatedHeader d
        | Some (h, _) \<Rightarrow>
            let claimed = unat (hu_length h);
                d = (if claimed < 8 then note_anomaly LUdp ImpossibleLength d
                     else if length sl < claimed \<and> \<not> is_snapped d then note_anomaly LUdp LengthMismatch d else d);
                udp_end = saturating_add start (max claimed 8)
            in d\<lparr>dc_transport := Some (TUdp \<lparr>ui_source_port = hu_source_port h, ui_destination_port = hu_destination_port h,
                   ui_length = hu_length h\<rparr>),
                 dc_payload := clamp_range (start + 8) (min udp_end to) (length (dc_frame d))\<rparr>)"

definition decode_icmp :: "decoded \<Rightarrow> bytes \<Rightarrow> nat \<Rightarrow> nat \<Rightarrow> bool \<Rightarrow> decoded" where
  "decode_icmp d sl start to is_v6 =
     (if length sl < icmp_header_len
      then let d = note_anomaly LIcmp TruncatedHeader d in
        if 2 \<le> length sl
        then d\<lparr>dc_transport := Some (TIcmp \<lparr>ii_type = sl ! 0, ii_code = sl ! 1, ii_is_v6 = is_v6\<rparr>)\<rparr> else d
      else d\<lparr>dc_transport := Some (TIcmp \<lparr>ii_type = sl ! 0, ii_code = sl ! 1, ii_is_v6 = is_v6\<rparr>),
             dc_payload := clamp_range (start + icmp_header_len) to (length (dc_frame d))\<rparr>)"

definition decode_transport :: "ether_parsers \<Rightarrow> decoded \<Rightarrow> byte \<Rightarrow> nat \<Rightarrow> nat \<Rightarrow> decoded" where
  "decode_transport P d protocol start to =
     (let frame_len = length (dc_frame d);
          available = unwrap_or (range_get (dc_frame d) start (min to frame_len)) [] in
      if protocol = 6 then decode_tcp P d available start to
      else if protocol = 17 then decode_udp P d available start to
      else if protocol = 1 \<or> protocol = 58 then decode_icmp d available start to (protocol = 58)
      else d\<lparr>dc_transport := Some (TOther protocol), dc_payload := clamp_range start to frame_len\<rparr>)"

definition decode_transport_bytes :: "ether_parsers \<Rightarrow> bytes \<Rightarrow> byte \<Rightarrow> decoded" where
  "decode_transport_bytes P bs protocol = decode_transport P (decoded_new bs (length bs)) protocol 0 (length bs)"

text \<open>The network layers. What follows the headers is shared by both.\<close>

definition finish_network :: "ether_parsers \<Rightarrow> decoded \<Rightarrow> network \<Rightarrow> bool \<Rightarrow> byte \<Rightarrow> nat \<Rightarrow> nat \<Rightarrow> decoded" where
  "finish_network P d n later_fragment protocol transport_start to =
     (let payload = clamp_range transport_start to (length (dc_frame d));
          d = d\<lparr>dc_network := Some n, dc_network_payload := payload\<rparr>
      in if later_fragment then d\<lparr>dc_payload := payload\<rparr> else decode_transport P d protocol transport_start to)"

definition ipv4_info_of :: "ipv4_header \<Rightarrow> nat \<Rightarrow> ipv4_info" where
  "ipv4_info_of h header_len = \<lparr>v4_source = h4_source h, v4_destination = h4_destination h, v4_protocol = h4_protocol h,
     v4_ttl = h4_ttl h, v4_identification = h4_identification h, v4_fragment_offset = h4_fragment_offset h,
     v4_more_fragments = h4_more_fragments h, v4_header_len = header_len, v4_total_len = h4_total_len h\<rparr>"

definition ipv4_checks :: "ipv4_header \<Rightarrow> nat \<Rightarrow> nat \<Rightarrow> decoded \<Rightarrow> decoded" where
  "ipv4_checks h header_len slice_len d0 =
     (let d = (if h4_checksum h \<noteq> h4_calc_checksum h then note_anomaly LIpv4 BadIpv4Checksum d0 else d0);
          total_len = unat (h4_total_len h) in
      if total_len < header_len then note_anomaly LIpv4 ImpossibleLength d
      else if slice_len < total_len \<and> \<not> is_snapped d then note_anomaly LIpv4 LengthMismatch d else d)"

definition decode_ipv4 :: "ether_parsers \<Rightarrow> decoded \<Rightarrow> bytes \<Rightarrow> decoded" where
  "decode_ipv4 P d sl = (let start = offset_of (dc_frame d) sl in
     case sl of
       [] \<Rightarrow> note_anomaly LIpv4 TruncatedHeader d
     | first # _ \<Rightarrow>
         let ihl = unat (first AND 0x0f); header_len = ihl * 4 in
         if drop_bit 4 first \<noteq> 4 then note_anomaly LIpv4 UnknownIpVersion d
         else if ihl < 5 then note_anomaly LIpv4 ImpossibleLength d
         else if length sl < header_len then note_anomaly LIpv4 TruncatedHeader d
         else case ep_ipv4 P sl of
             None \<Rightarrow> note_anomaly LIpv4 TruncatedHeader d
           | Some (h, after_header) \<Rightarrow>
               let d = ipv4_checks h header_len (length sl) d;
                   info = ipv4_info_of h header_len;
                   claimed_end = saturating_add start (max (unat (h4_total_len h)) header_len)
               in finish_network P d (Ipv4 info) (v4_is_fragment info \<and> v4_fragment_offset info \<noteq> 0) (h4_protocol h)
                    (offset_of (dc_frame d) after_header) (min claimed_end (length (dc_frame d))))"

definition is_ipv6_extension :: "byte \<Rightarrow> bool" where
  "is_ipv6_extension protocol \<longleftrightarrow> protocol \<in> {0, 43, 44, 60, 51, 135}"

definition ipv6_extension_len :: "byte \<Rightarrow> bytes \<Rightarrow> nat option" where
  "ipv6_extension_len protocol sl =
     (if length sl < 2 then None
      else let len = (if protocol = 44 then 8 else if protocol = 51 then (unat (sl ! 1) + 2) * 4
                      else (unat (sl ! 1) + 1) * 8)
           in if len \<le> length sl then Some len else None)"

record extension_walk =
  xw_protocol :: byte
  xw_cursor :: bytes
  xw_is_fragment :: bool
  xw_fragment_offset :: "16 word"
  xw_more_fragments :: bool
  xw_identification :: "32 word"

definition read_fragment_header :: "extension_walk \<Rightarrow> extension_walk" where
  "read_fragment_header w =
     (let cursor = xw_cursor w; w = w\<lparr>xw_is_fragment := True\<rparr>;
          w = (case (byte_get cursor 2, byte_get cursor 3) of
              (Some hi, Some lo) \<Rightarrow> w\<lparr>xw_fragment_offset := drop_bit 3 (be_word [hi, lo]), xw_more_fragments := (lo AND 1 \<noteq> 0)\<rparr>
            | _ \<Rightarrow> w)
      in case range_get cursor 4 8 of Some bs \<Rightarrow> w\<lparr>xw_identification := be_word bs\<rparr> | None \<Rightarrow> w)"

text \<open>The walk over the extension headers, with the number still allowed and the anomalies so far.\<close>

fun walk_extensions :: "nat \<Rightarrow> extension_walk \<Rightarrow> decoded \<Rightarrow> extension_walk \<times> decoded" where
  "walk_extensions allowed w d =
     (if \<not> is_ipv6_extension (xw_protocol w) then (w, d)
      else case allowed of
          0 \<Rightarrow> (w, note_anomaly LIpv6 TooManyLayers d)
        | Suc allowed \<Rightarrow> (case ipv6_extension_len (xw_protocol w) (xw_cursor w) of
              None \<Rightarrow> (w, note_anomaly LIpv6 TruncatedHeader d)
            | Some ext_len \<Rightarrow>
                let cursor = xw_cursor w; w = (if xw_protocol w = 44 then read_fragment_header w else w)
                in walk_extensions allowed (w\<lparr>xw_protocol := cursor ! 0, xw_cursor := drop ext_len cursor\<rparr>) d))"

declare walk_extensions.simps [simp del]

definition decode_ipv6 :: "ether_parsers \<Rightarrow> decoded \<Rightarrow> bytes \<Rightarrow> decoded" where
  "decode_ipv6 P d sl = (let start = offset_of (dc_frame d) sl in
     case sl of
       [] \<Rightarrow> note_anomaly LIpv6 TruncatedHeader d
     | first # _ \<Rightarrow>
         if drop_bit 4 first \<noteq> 6 then note_anomaly LIpv6 UnknownIpVersion d
         else case ep_ipv6 P sl of
             None \<Rightarrow> note_anomaly LIpv6 TruncatedHeader d
           | Some (h, after_header) \<Rightarrow>
               let payload_length = unat (h6_payload_length h);
                   d = (if length after_header < payload_length \<and> \<not> is_snapped d then note_anomaly LIpv6 LengthMismatch d else d);
                   (w, d) = walk_extensions max_ipv6_extension_headers
                     \<lparr>xw_protocol = h6_next_header h, xw_cursor = after_header, xw_is_fragment = False, xw_fragment_offset = 0,
                      xw_more_fragments = False, xw_identification = 0\<rparr> d;
                   transport_start = offset_of (dc_frame d) (xw_cursor w);
                   info = \<lparr>v6_source = h6_source h, v6_destination = h6_destination h, v6_protocol = xw_protocol w,
                     v6_hop_limit = h6_hop_limit h, v6_payload_length = h6_payload_length h,
                     v6_header_len = transport_start - start, v6_is_fragment = xw_is_fragment w,
                     v6_fragment_offset = xw_fragment_offset w, v6_more_fragments = xw_more_fragments w,
                     v6_identification = xw_identification w\<rparr>;
                   claimed_end = saturating_add (saturating_add start 40) payload_length
               in finish_network P d (Ipv6 info) (xw_is_fragment w \<and> xw_fragment_offset w \<noteq> 0) (xw_protocol w)
                    transport_start (min claimed_end (length (dc_frame d))))"

text \<open>The frame: the VLAN tags (how many more are allowed, and the index of the next), then the network layer.\<close>

definition is_vlan :: "16 word \<Rightarrow> bool" where
  "is_vlan ether_type \<longleftrightarrow> ether_type \<in> {0x8100, 0x88A8, 0x9100}"

fun walk_vlans :: "ether_parsers \<Rightarrow> nat \<Rightarrow> 16 word \<Rightarrow> bytes \<Rightarrow> decoded \<Rightarrow> decoded + 16 word \<times> bytes \<times> decoded" where
  "walk_vlans P allowed ether_type rest d =
     (if \<not> is_vlan ether_type then Inr (ether_type, rest, d)
      else case allowed of
          0 \<Rightarrow> Inl (note_anomaly LVlan TooManyLayers d)
        | Suc allowed \<Rightarrow> (case ep_vlan P rest of
              None \<Rightarrow> Inl (note_anomaly LVlan TruncatedHeader d)
            | Some (vlan_id, ether_type, rest) \<Rightarrow>
                walk_vlans P allowed ether_type rest (d\<lparr>dc_vlan_ids := (dc_vlan_ids d)[max_vlan_tags - Suc allowed := Some vlan_id]\<rparr>)))"

declare walk_vlans.simps [simp del]

definition decode :: "ether_parsers \<Rightarrow> bytes \<Rightarrow> nat \<Rightarrow> decoded" where
  "decode P frame original_len =
     (let d = decoded_new frame original_len in
      if frame = [] then note_anomaly LEthernet EmptyFrame d
      else case ep_ethernet P frame of
          None \<Rightarrow> note_anomaly LEthernet TruncatedHeader d
        | Some (ether_type, rest) \<Rightarrow> (case walk_vlans P max_vlan_tags ether_type rest d of
              Inl d \<Rightarrow> d
            | Inr (ether_type, rest, d) \<Rightarrow>
                let d = d\<lparr>dc_ether_type := Some ether_type\<rparr> in
                if ether_type = 0x0800 then decode_ipv4 P d rest
                else if ether_type = 0x86DD then decode_ipv6 P d rest
                else d))"

section \<open>Counting\<close>

record decode_counters =
  dk_packets :: nat
  dk_ipv4 :: nat
  dk_ipv6 :: nat
  dk_tcp :: nat
  dk_udp :: nat
  dk_icmp :: nat
  dk_other_transport :: nat
  dk_non_ip :: nat
  dk_fragments :: nat
  dk_snapped :: nat
  dk_anomalous :: nat
  dk_anomalies :: nat

definition record_decoded :: "decode_counters \<Rightarrow> decoded \<Rightarrow> decode_counters" where
  "record_decoded c d =
     (let found = length (as_found (dc_anomalies d));
          c = c\<lparr>dk_packets := dk_packets c + 1\<rparr>;
          c = (if is_snapped d then c\<lparr>dk_snapped := dk_snapped c + 1\<rparr> else c);
          c = (if found \<noteq> 0 then c\<lparr>dk_anomalous := dk_anomalous c + 1, dk_anomalies := dk_anomalies c + found\<rparr> else c);
          c = (case dc_network d of Some (Ipv4 _) \<Rightarrow> c\<lparr>dk_ipv4 := dk_ipv4 c + 1\<rparr> | Some (Ipv6 _) \<Rightarrow> c\<lparr>dk_ipv6 := dk_ipv6 c + 1\<rparr>
               | None \<Rightarrow> c\<lparr>dk_non_ip := dk_non_ip c + 1\<rparr>);
          c = (if (case dc_network d of Some n \<Rightarrow> network_is_fragment n | None \<Rightarrow> False) then c\<lparr>dk_fragments := dk_fragments c + 1\<rparr> else c)
      in case dc_transport d of Some (TTcp _) \<Rightarrow> c\<lparr>dk_tcp := dk_tcp c + 1\<rparr> | Some (TUdp _) \<Rightarrow> c\<lparr>dk_udp := dk_udp c + 1\<rparr>
         | Some (TIcmp _) \<Rightarrow> c\<lparr>dk_icmp := dk_icmp c + 1\<rparr> | Some (TOther _) \<Rightarrow> c\<lparr>dk_other_transport := dk_other_transport c + 1\<rparr>
         | None \<Rightarrow> c)"

section \<open>What decoding keeps\<close>

text \<open>The anomalies are bounded, without duplicates, and no length is called a lie on a clipped frame; the ranges lie in the frame, the payload in the network payload.\<close>

definition anomalies_ok :: "decoded \<Rightarrow> bool" where
  "anomalies_ok d \<longleftrightarrow> length (as_found (dc_anomalies d)) \<le> anomaly_cap \<and> distinct (as_found (dc_anomalies d)) \<and>
     (is_snapped d \<longrightarrow> \<not> anomalies_contain LengthMismatch (dc_anomalies d))"

definition ranges_ok :: "decoded \<Rightarrow> bool" where
  "ranges_ok d \<longleftrightarrow> (let (p, q) = dc_payload d; (m, n) = dc_network_payload d in
     m \<le> n \<and> n \<le> length (dc_frame d) \<and> p \<le> q \<and> q \<le> length (dc_frame d) \<and> (p = q \<or> m \<le> p \<and> q \<le> n))"

definition decoded_ok :: "decoded \<Rightarrow> bool" where
  "decoded_ok d \<longleftrightarrow> anomalies_ok d \<and> ranges_ok d"

text \<open>Before the network layer is read the ranges are empty; before the transport only the network range is set.\<close>

definition fresh :: "decoded \<Rightarrow> bool" where
  "fresh d \<longleftrightarrow> anomalies_ok d \<and> dc_payload d = (0, 0) \<and> dc_network_payload d = (0, 0) \<and> dc_network d = None
     \<and> dc_transport d = None"

lemma note_anomaly_simps [simp]:
  "dc_frame (note_anomaly l k d) = dc_frame d" "dc_original_len (note_anomaly l k d) = dc_original_len d"
  "dc_payload (note_anomaly l k d) = dc_payload d" "dc_network_payload (note_anomaly l k d) = dc_network_payload d"
  "dc_network (note_anomaly l k d) = dc_network d" "dc_transport (note_anomaly l k d) = dc_transport d"
  "dc_vlan_ids (note_anomaly l k d) = dc_vlan_ids d" "is_snapped (note_anomaly l k d) = is_snapped d"
  by (simp_all add: note_anomaly_def is_snapped_def)

lemma is_snapped_simps [simp]:
  "is_snapped (d\<lparr>dc_network := x\<rparr>) = is_snapped d" "is_snapped (d\<lparr>dc_transport := t\<rparr>) = is_snapped d"
  "is_snapped (d\<lparr>dc_payload := p\<rparr>) = is_snapped d" "is_snapped (d\<lparr>dc_network_payload := p\<rparr>) = is_snapped d"
  "is_snapped (d\<lparr>dc_ether_type := e\<rparr>) = is_snapped d" "is_snapped (d\<lparr>dc_vlan_ids := v\<rparr>) = is_snapped d"
  by (simp_all add: is_snapped_def)

lemma anomalies_ok_simps [simp]:
  "anomalies_ok (d\<lparr>dc_network := x\<rparr>) = anomalies_ok d" "anomalies_ok (d\<lparr>dc_transport := t\<rparr>) = anomalies_ok d"
  "anomalies_ok (d\<lparr>dc_payload := p\<rparr>) = anomalies_ok d" "anomalies_ok (d\<lparr>dc_network_payload := p\<rparr>) = anomalies_ok d"
  "anomalies_ok (d\<lparr>dc_ether_type := e\<rparr>) = anomalies_ok d" "anomalies_ok (d\<lparr>dc_vlan_ids := v\<rparr>) = anomalies_ok d"
  by (simp_all add: anomalies_ok_def)

lemma note_anomaly_ok: "anomalies_ok d \<Longrightarrow> k = LengthMismatch \<longrightarrow> \<not> is_snapped d \<Longrightarrow> anomalies_ok (note_anomaly l k d)"
  by (auto simp: anomalies_ok_def note_anomaly_def anomaly_push_def anomalies_contain_def is_snapped_def)

lemma fresh_new: "fresh (decoded_new frame n)"
  by (simp add: fresh_def decoded_new_def anomalies_ok_def empty_anomalies_def anomalies_contain_def)

lemma fresh_note: "fresh d \<Longrightarrow> k = LengthMismatch \<longrightarrow> \<not> is_snapped d \<Longrightarrow> fresh (note_anomaly l k d)"
  by (simp add: fresh_def note_anomaly_ok)

lemma fresh_ok: "fresh d \<Longrightarrow> decoded_ok d"
  by (simp add: fresh_def decoded_ok_def ranges_ok_def)

lemma available_length:
  "length (unwrap_or (range_get frame start (min to (length frame))) []) = min to (length frame) - start"
  by (auto simp: range_get_def unwrap_or_def)

lemma clamp_in_network:
  assumes "0 < k" "k \<le> min to n - start"
  shows "fst (clamp_range start to n) \<le> fst (clamp_range (start + k) e n)" "to' \<le> to \<Longrightarrow> snd (clamp_range (start + k) to' n) \<le> snd (clamp_range start to n)"
  using assms by (auto simp: clamp_range_def Let_def)

lemma clamp_ordered: "fst (clamp_range a b n) \<le> snd (clamp_range a b n)" "snd (clamp_range a b n) \<le> n"
  by (auto simp: clamp_range_def Let_def)

lemma decode_transport_ok:
  assumes "anomalies_ok d" "dc_payload d = (0, 0)" "dc_network_payload d = clamp_range start to (length (dc_frame d))"
  shows "decoded_ok (decode_transport P d protocol start to)"
proof -
  let ?n = "length (dc_frame d)"
  let ?s = "unwrap_or (range_get (dc_frame d) start (min to ?n)) []"
  have inside: "ranges_ok d'" if "dc_payload d' = clamp_range (start + k) to' ?n" "dc_frame d' = dc_frame d"
    "dc_network_payload d' = dc_network_payload d" "k = 0 \<and> to' = to \<or> 0 < k \<and> k \<le> length ?s \<and> to' \<le> to" for d' k to'
    using that assms(3) clamp_in_network [of k to ?n start] clamp_ordered [of start to ?n] clamp_ordered [of "start + k" to' ?n]
    by (auto simp: ranges_ok_def available_length case_prod_unfold)
  have same: "ranges_ok d'" if "dc_payload d' = (0, 0)" "dc_frame d' = dc_frame d" "dc_network_payload d' = dc_network_payload d" for d'
    using that assms(3) clamp_ordered [of start to ?n] by (auto simp: ranges_ok_def case_prod_unfold)
  have tcp: "decoded_ok (decode_tcp P d ?s start to)"
    using assms(1,2) inside [where to' = to]
    by (auto simp: decode_tcp_def Let_def decoded_ok_def note_anomaly_ok same split: option.splits)
  have udp: "decoded_ok (decode_udp P d ?s start to)"
    using assms(1,2) inside [where k = 8]
    by (auto simp: decode_udp_def Let_def decoded_ok_def note_anomaly_ok same split: option.splits)
  have icmp: "decoded_ok (decode_icmp d ?s start to b)" for b
    using assms(1,2) inside [where k = 8 and to' = to]
    by (auto simp: decode_icmp_def icmp_header_len_def Let_def decoded_ok_def note_anomaly_ok same)
  show ?thesis
    using tcp udp icmp assms(1) inside [where k = 0 and to' = to]
    by (auto simp: decode_transport_def Let_def decoded_ok_def)
qed

lemma finish_network_ok:
  assumes "fresh d"
  shows "decoded_ok (finish_network P d n later protocol start to)"
proof (cases later)
  case True
  then show ?thesis
    using assms clamp_ordered [of start to "length (dc_frame d)"]
    by (simp add: finish_network_def Let_def decoded_ok_def ranges_ok_def fresh_def case_prod_unfold)
next
  case False
  then show ?thesis
    using assms by (auto simp: finish_network_def Let_def fresh_def intro!: decode_transport_ok)
qed

lemma walk_extensions_fresh:
  "walk_extensions k w d = (w', d') \<Longrightarrow> fresh d \<Longrightarrow> fresh d' \<and> dc_frame d' = dc_frame d \<and> dc_original_len d' = dc_original_len d"
  by (induction k w d rule: walk_extensions.induct)
    (subst (asm) (2) walk_extensions.simps, auto simp: fresh_note Let_def split: if_splits nat.splits option.splits)

lemma walk_vlans_fresh:
  assumes "fresh d" "walk_vlans P k ether_type rest d = x" "dc_frame d = frame" "dc_original_len d = n"
  shows "case x of Inl d' \<Rightarrow> fresh d' \<and> dc_frame d' = frame \<and> dc_original_len d' = n
    | Inr (_, _, d') \<Rightarrow> fresh d' \<and> dc_frame d' = frame \<and> dc_original_len d' = n"
  using assms
proof (induction k arbitrary: ether_type rest d)
  case 0
  then show ?case by (auto simp: walk_vlans.simps fresh_note)
next
  case (Suc k)
  have "fresh (d\<lparr>dc_vlan_ids := v\<rparr>)" for v using Suc.prems(1) by (simp add: fresh_def)
  then show ?case
    using Suc.prems Suc.IH [of "d\<lparr>dc_vlan_ids := v\<rparr>" for v]
    by (auto simp: walk_vlans.simps [of P "Suc k"] fresh_note split: if_splits option.splits)
qed

text \<open>So a decoded frame has no network layer and empty ranges, or its network layer was finished from such a state.\<close>

fun later_fragment :: "network \<Rightarrow> bool" where
  "later_fragment (Ipv4 i) \<longleftrightarrow> v4_fragment_offset i \<noteq> 0"
| "later_fragment (Ipv6 i) \<longleftrightarrow> v6_is_fragment i \<and> v6_fragment_offset i \<noteq> 0"

definition finished :: "ether_parsers \<Rightarrow> bytes \<Rightarrow> nat \<Rightarrow> decoded \<Rightarrow> bool" where
  "finished P frame n d \<longleftrightarrow> dc_frame d = frame \<and> dc_original_len d = n \<and> fresh d \<or>
     (\<exists>d0 net protocol start to. fresh d0 \<and> dc_frame d0 = frame \<and> dc_original_len d0 = n \<and>
       d = finish_network P d0 net (later_fragment net) protocol start to)"

lemma ipv4_checks_fresh:
  "fresh d \<Longrightarrow> fresh (ipv4_checks h l m d) \<and> dc_frame (ipv4_checks h l m d) = dc_frame d
    \<and> dc_original_len (ipv4_checks h l m d) = dc_original_len d"
  by (simp add: ipv4_checks_def Let_def fresh_note)

lemma finished_fresh: "fresh d \<Longrightarrow> finished P (dc_frame d) (dc_original_len d) d"
  by (simp add: finished_def)

lemma finished_note: "fresh d \<Longrightarrow> k \<noteq> LengthMismatch \<Longrightarrow> finished P (dc_frame d) (dc_original_len d) (note_anomaly l k d)"
  by (simp add: finished_def fresh_note)

lemma finished_network:
  "fresh d0 \<Longrightarrow> dc_frame d0 = frame \<Longrightarrow> dc_original_len d0 = n \<Longrightarrow> later = later_fragment net \<Longrightarrow>
    finished P frame n (finish_network P d0 net later protocol start to)"
  unfolding finished_def by blast

lemma decode_ipv4_finished:
  assumes "fresh d"
  shows "finished P (dc_frame d) (dc_original_len d) (decode_ipv4 P d sl)"
proof -
  have later: "(v4_is_fragment i \<and> v4_fragment_offset i \<noteq> 0) = later_fragment (Ipv4 i)" for i
    by (auto simp: v4_is_fragment_def)
  show ?thesis
    unfolding decode_ipv4_def Let_def
    using assms ipv4_checks_fresh [OF assms]
    by (auto split: list.split option.split simp: finished_note intro!: finished_network later)
qed

lemma decode_ipv6_finished:
  assumes "fresh d"
  shows "finished P (dc_frame d) (dc_original_len d) (decode_ipv6 P d sl)"
  unfolding decode_ipv6_def Let_def
  using assms
  by (auto split: list.split option.split prod.split simp: finished_note fresh_note dest!: walk_extensions_fresh intro!: finished_network)

lemma decode_finished: "finished P frame n (decode P frame n)"
proof -
  have new: "dc_frame (decoded_new frame n) = frame" "dc_original_len (decoded_new frame n) = n"
    by (simp_all add: decoded_new_def)
  have ether: "fresh (d\<lparr>dc_ether_type := e\<rparr>)" if "fresh d" for d e
    using that by (simp add: fresh_def)
  show ?thesis
  proof (cases "frame = [] \<or> ep_ethernet P frame = None")
    case True
    then show ?thesis
      using finished_note [OF fresh_new [of frame n], of _ P] new by (auto simp: decode_def Let_def)
  next
    case False
    then obtain e r where er: "frame \<noteq> []" "ep_ethernet P frame = Some (e, r)" by auto
    let ?x = "walk_vlans P max_vlan_tags e r (decoded_new frame n)"
    have x: "case ?x of Inl d \<Rightarrow> fresh d \<and> dc_frame d = frame \<and> dc_original_len d = n
        | Inr (_, _, d) \<Rightarrow> fresh d \<and> dc_frame d = frame \<and> dc_original_len d = n"
      by (rule walk_vlans_fresh [OF fresh_new refl new])
    show ?thesis
    proof (cases ?x)
      case (Inl d)
      with er x show ?thesis using finished_fresh [of d P] by (simp add: decode_def Let_def)
    next
      case (Inr y)
      obtain e' r' d where y: "y = (e', r', d)" by (cases y)
      let ?d = "d\<lparr>dc_ether_type := Some e'\<rparr>"
      have d: "fresh ?d" "dc_frame ?d = frame" "dc_original_len ?d = n" using x Inr y ether by auto
      with er Inr y show ?thesis
        using decode_ipv4_finished [OF d(1), of P r'] decode_ipv6_finished [OF d(1), of P r'] finished_fresh [OF d(1), of P]
        by (auto simp: decode_def Let_def)
    qed
  qed
qed

lemma decode_transport_keeps:
  "dc_frame (decode_transport P d protocol start to) = dc_frame d" "dc_network (decode_transport P d protocol start to) = dc_network d"
  "dc_original_len (decode_transport P d protocol start to) = dc_original_len d"
  "dc_network_payload (decode_transport P d protocol start to) = dc_network_payload d"
  "dc_vlan_ids (decode_transport P d protocol start to) = dc_vlan_ids d"
  by (auto simp: decode_transport_def decode_tcp_def decode_udp_def decode_icmp_def Let_def split: option.splits)

lemma finish_network_keeps:
  "dc_frame (finish_network P d net later protocol start to) = dc_frame d"
  "dc_network (finish_network P d net later protocol start to) = Some net"
  "dc_original_len (finish_network P d net later protocol start to) = dc_original_len d"
  "dc_vlan_ids (finish_network P d net later protocol start to) = dc_vlan_ids d"
  by (simp_all add: finish_network_def Let_def decode_transport_keeps)

lemma finished_ok: "finished P frame n d \<Longrightarrow> decoded_ok d \<and> dc_frame d = frame \<and> dc_original_len d = n"
  by (auto simp: finished_def fresh_ok finish_network_ok finish_network_keeps)

section \<open>The wire format\<close>

text \<open>
  What the readers of etherparse are documented to do: the fields of a header lie where the protocols put them, and
  the bytes after the header are returned. The Ethernet and VLAN readers fail only on short input; the others are
  only asked about headers whose version and length nibbles the decoder has checked.
\<close>

definition field :: "bytes \<Rightarrow> nat \<Rightarrow> nat \<Rightarrow> 'a::len word" where
  "field s at n = be_word (take n (drop at s))"

definition flags_of :: "byte \<Rightarrow> tcp_flags" where
  "flags_of b = \<lparr>tf_fin = bit b 0, tf_syn = bit b 1, tf_rst = bit b 2, tf_psh = bit b 3, tf_ack = bit b 4, tf_urg = bit b 5,
     tf_ece = bit b 6, tf_cwr = bit b 7\<rparr>"

definition reads_wire :: "ether_parsers \<Rightarrow> bool" where
  "reads_wire P \<longleftrightarrow>
     (\<forall>s. ep_ethernet P s = (if length s < 14 then None else Some (field s 12 2, drop 14 s))) \<and>
     (\<forall>s. ep_vlan P s = (if length s < 4 then None else Some (field s 0 2 AND 0xFFF, field s 2 2, drop 4 s))) \<and>
     (\<forall>s ihl. 5 \<le> ihl \<and> s \<noteq> [] \<and> drop_bit 4 (hd s) = 4 \<and> unat (hd s AND 0x0F) = ihl \<and> 4 * ihl \<le> length s \<longrightarrow>
        (\<exists>h. ep_ipv4 P s = Some (h, drop (4 * ihl) s) \<and> h4_total_len h = field s 2 2 \<and> h4_identification h = field s 4 2 \<and>
          h4_fragment_offset h = be_word [s ! 6 AND 0x1F, s ! 7] \<and> h4_more_fragments h = bit (s ! 6) 5 \<and>
          h4_protocol h = s ! 9 \<and> h4_source h = field s 12 4 \<and> h4_destination h = field s 16 4)) \<and>
     (\<forall>s. s \<noteq> [] \<and> drop_bit 4 (hd s) = 6 \<longrightarrow>
        (if length s < 40 then ep_ipv6 P s = None
         else \<exists>h. ep_ipv6 P s = Some (h, drop 40 s) \<and> h6_payload_length h = field s 4 2 \<and> h6_next_header h = s ! 6 \<and>
           h6_source h = field s 8 16 \<and> h6_destination h = field s 24 16)) \<and>
     (\<forall>s. 20 \<le> length s \<and> 5 \<le> unat (drop_bit 4 (s ! 12)) \<and> 4 * unat (drop_bit 4 (s ! 12)) \<le> length s \<longrightarrow>
        (\<exists>h rest. ep_tcp P s = Some (h, rest) \<and> ht_source_port h = field s 0 2 \<and> ht_destination_port h = field s 2 2 \<and>
          ht_sequence_number h = field s 4 4 \<and> ht_acknowledgment_number h = field s 8 4 \<and> ht_window_size h = field s 14 2 \<and>
          ht_flags h = flags_of (s ! 13))) \<and>
     (\<forall>s. 8 \<le> length s \<longrightarrow>
        (\<exists>h rest. ep_udp P s = Some (h, rest) \<and> hu_source_port h = field s 0 2 \<and> hu_destination_port h = field s 2 2 \<and>
          hu_length h = field s 4 2))"

text \<open>Readers that do this; the header checksum is the one's complement sum of RFC 1071.\<close>

fun ones_sum :: "bytes \<Rightarrow> nat" where
  "ones_sum (a # b # s) = unat a * 256 + unat b + ones_sum s"
| "ones_sum [a] = unat a * 256"
| "ones_sum [] = 0"

definition internet_checksum :: "bytes \<Rightarrow> 16 word" where
  "internet_checksum s = (let t = ones_sum s; t = t mod 65536 + t div 65536; t = t mod 65536 + t div 65536 in NOT (of_nat t))"

definition wire_ipv4 :: "bytes \<Rightarrow> (ipv4_header \<times> bytes) option" where
  "wire_ipv4 s = (if s = [] then None else let ihl = unat (hd s AND 0x0F) in
     if drop_bit 4 (hd s) \<noteq> 4 \<or> ihl < 5 \<or> length s < 4 * ihl then None
     else Some (\<lparr>h4_total_len = field s 2 2, h4_identification = field s 4 2, h4_fragment_offset = be_word [s ! 6 AND 0x1F, s ! 7],
       h4_more_fragments = bit (s ! 6) 5, h4_ttl = s ! 8, h4_protocol = s ! 9, h4_checksum = field s 10 2,
       h4_calc_checksum = internet_checksum (take 10 s @ take (4 * ihl - 12) (drop 12 s)),
       h4_source = field s 12 4, h4_destination = field s 16 4\<rparr>, drop (4 * ihl) s))"

definition wire_parsers :: ether_parsers where
  "wire_parsers = \<lparr>
     ep_ethernet = (\<lambda>s. if length s < 14 then None else Some (field s 12 2, drop 14 s)),
     ep_vlan = (\<lambda>s. if length s < 4 then None else Some (field s 0 2 AND 0xFFF, field s 2 2, drop 4 s)),
     ep_ipv4 = wire_ipv4,
     ep_ipv6 = (\<lambda>s. if length s < 40 then None else Some (\<lparr>h6_payload_length = field s 4 2, h6_next_header = s ! 6,
       h6_hop_limit = s ! 7, h6_source = field s 8 16, h6_destination = field s 24 16\<rparr>, drop 40 s)),
     ep_tcp = (\<lambda>s. if length s < 20 then None else Some (\<lparr>ht_source_port = field s 0 2, ht_destination_port = field s 2 2,
       ht_sequence_number = field s 4 4, ht_acknowledgment_number = field s 8 4, ht_window_size = field s 14 2,
       ht_flags = flags_of (s ! 13)\<rparr>, drop (4 * unat (drop_bit 4 (s ! 12))) s)),
     ep_udp = (\<lambda>s. if length s < 8 then None else Some (\<lparr>hu_source_port = field s 0 2, hu_destination_port = field s 2 2,
       hu_length = field s 4 2\<rparr>, drop 8 s))\<rparr>"

lemma wire_parsers_read: "reads_wire wire_parsers"
  unfolding reads_wire_def wire_parsers_def
  by (simp add: wire_ipv4_def Let_def)

lemmas wire_conjuncts = reads_wire_def [THEN iffD1, THEN conjunct1] reads_wire_def [THEN iffD1, THEN conjunct2, THEN conjunct1]
  reads_wire_def [THEN iffD1, THEN conjunct2, THEN conjunct2, THEN conjunct1]
  reads_wire_def [THEN iffD1, THEN conjunct2, THEN conjunct2, THEN conjunct2, THEN conjunct1]
  reads_wire_def [THEN iffD1, THEN conjunct2, THEN conjunct2, THEN conjunct2, THEN conjunct2, THEN conjunct1]
  reads_wire_def [THEN iffD1, THEN conjunct2, THEN conjunct2, THEN conjunct2, THEN conjunct2, THEN conjunct2]

lemmas wire_ethernet = wire_conjuncts(1) [rule_format] and wire_vlan = wire_conjuncts(2) [rule_format]
  and wire_ipv6_read = wire_conjuncts(4) [rule_format] and wire_tcp_read = wire_conjuncts(5) [rule_format]
  and wire_udp_read = wire_conjuncts(6) [rule_format]

lemma wire_ipv4_read:
  assumes "reads_wire P" "s \<noteq> []" "drop_bit 4 (hd s) = 4" "5 \<le> unat (hd s AND 0x0F)" "4 * unat (hd s AND 0x0F) \<le> length s"
  obtains h where "ep_ipv4 P s = Some (h, drop (4 * unat (hd s AND 0x0F)) s)" "h4_total_len h = field s 2 2"
    "h4_fragment_offset h = be_word [s ! 6 AND 0x1F, s ! 7]" "h4_protocol h = s ! 9" "h4_source h = field s 12 4"
    "h4_destination h = field s 16 4"
  using wire_conjuncts(3) [OF assms(1), rule_format, of "unat (hd s AND 0x0F)" s] assms by auto

section \<open>The two readers\<close>

lemma field_2: "at + 2 \<le> length s \<Longrightarrow> field s at 2 = be_word [s ! at, s ! (at + 1)]"
  unfolding field_def by (rule arg_cong [where f = be_word], rule nth_equalityI) (auto simp: less_Suc_eq numeral_2_eq_2)

lemma field_4: "at + 4 \<le> length s \<Longrightarrow> field s at 4 = be_word [s ! at, s ! (at + 1), s ! (at + 2), s ! (at + 3)]"
  unfolding field_def by (rule arg_cong [where f = be_word], rule nth_equalityI) (auto simp: less_Suc_eq numeral_eq_Suc)

definition transport_tuple :: "transport \<Rightarrow> 16 word option \<times> 16 word option \<times> protocol" where
  "transport_tuple t = (transport_source_port t, transport_destination_port t, transport_protocol t)"

definition port_tuple :: "byte \<Rightarrow> bytes option \<Rightarrow> 16 word option \<times> 16 word option \<times> protocol" where
  "port_tuple protocol rest = (let (pr, wants) = classify_protocol protocol; (sport, dport) = read_ports wants rest in (sport, dport, pr))"

lemma four_word_bytes: "4 \<le> length s \<Longrightarrow> s = s ! 0 # s ! 1 # s ! 2 # s ! 3 # drop 4 s"
  by (auto simp: numeral_eq_Suc Suc_le_length_iff)

lemma read_ports_wire:
  assumes "20 \<le> length s \<or> 8 \<le> length s" "s = take k rest"
  shows "read_ports True (Some rest) = (Some (field s 0 2), Some (field s 2 2))"
proof -
  from assms have l: "4 \<le> length rest" "4 \<le> length s" "8 \<le> k" by auto
  then have "s ! i = rest ! i" if "i < 4" for i using assms(2) that by simp
  moreover have "read_ports True (Some rest) = (Some (be_word [rest ! 0, rest ! 1]), Some (be_word [rest ! 2, rest ! 3]))"
    by (subst four_word_bytes [OF l(1)]) (simp add: read_ports_def)
  ultimately show ?thesis using l(2) by (simp add: field_2)
qed

lemma decode_tcp_wire:
  assumes "reads_wire P" "dc_transport d = None" "dc_transport (decode_tcp P d s start to) = Some t"
  shows "20 \<le> length s \<and> (\<exists>i. t = TTcp i \<and> ti_source_port i = field s 0 2 \<and> ti_destination_port i = field s 2 2 \<and>
    ti_sequence_number i = field s 4 4 \<and> ti_acknowledgment_number i = field s 8 4 \<and> ti_flags i = flags_of (s ! 13))"
proof -
  have l: "20 \<le> length s" "5 \<le> unat (drop_bit 4 (s ! 12))" "4 * unat (drop_bit 4 (s ! 12)) \<le> length s"
    using assms(2,3) by (auto simp: decode_tcp_def Let_def split: if_splits)
  from wire_tcp_read [OF assms(1)] l obtain h rest where
    "ep_tcp P s = Some (h, rest)" "ht_source_port h = field s 0 2" "ht_destination_port h = field s 2 2"
    "ht_sequence_number h = field s 4 4" "ht_acknowledgment_number h = field s 8 4" "ht_flags h = flags_of (s ! 13)"
    by blast
  with l assms(3) show ?thesis by (auto simp: decode_tcp_def Let_def)
qed

lemma decode_udp_wire:
  assumes "reads_wire P" "dc_transport d = None" "dc_transport (decode_udp P d s start to) = Some t"
  shows "8 \<le> length s \<and> (\<exists>i. t = TUdp i \<and> ui_source_port i = field s 0 2 \<and> ui_destination_port i = field s 2 2)"
proof -
  have l: "8 \<le> length s"
    using assms(2,3) by (auto simp: decode_udp_def Let_def split: if_splits)
  from wire_udp_read [OF assms(1) l] obtain h rest where
    "ep_udp P s = Some (h, rest)" "hu_source_port h = field s 0 2" "hu_destination_port h = field s 2 2"
    by blast
  with l assms(3) show ?thesis by (auto simp: decode_udp_def Let_def)
qed

lemma decode_transport_tuple:
  assumes "reads_wire P" "dc_transport d = None" "dc_frame d = pre @ rest" "dc_transport (decode_transport P d protocol (length pre) to) = Some t"
  shows "transport_tuple t = port_tuple protocol (Some rest)"
proof -
  let ?n = "length (dc_frame d)"
  define s where "s = unwrap_or (range_get (dc_frame d) (length pre) (min to ?n)) []"
  have s: "s = take (min to ?n - length pre) rest"
    by (auto simp: s_def range_get_def unwrap_or_def assms(3))
  consider "protocol = 6" | "protocol = 17" | "protocol = 1 \<or> protocol = 58" | "protocol \<notin> {1, 6, 17, 58}" by blast
  then show ?thesis
  proof cases
    case 1
    then have "dc_transport (decode_tcp P d s (length pre) to) = Some t"
      using assms(4) by (simp add: decode_transport_def s_def Let_def)
    from decode_tcp_wire [OF assms(1,2) this] 1 show ?thesis
      using read_ports_wire [OF _ s] by (auto simp: transport_tuple_def port_tuple_def classify_protocol_def)
  next
    case 2
    then have "dc_transport (decode_udp P d s (length pre) to) = Some t"
      using assms(4) by (simp add: decode_transport_def s_def Let_def)
    from decode_udp_wire [OF assms(1,2) this] 2 show ?thesis
      using read_ports_wire [OF _ s] by (auto simp: transport_tuple_def port_tuple_def classify_protocol_def)
  next
    case 3
    then have "dc_transport (decode_icmp d s (length pre) to (protocol = 58)) = Some t"
      using assms(4) by (auto simp: decode_transport_def s_def Let_def)
    then have "\<exists>i. t = TIcmp i" using assms(2) by (auto simp: decode_icmp_def Let_def split: if_splits)
    with 3 show ?thesis
      by (auto simp: transport_tuple_def port_tuple_def classify_protocol_def read_ports_def split: list.splits)
  next
    case 4
    then show ?thesis
      using assms(4) by (auto simp: decode_transport_def Let_def transport_tuple_def port_tuple_def classify_protocol_def
        read_ports_def split: list.splits)
  qed
qed

lemma finish_network_tuple:
  assumes "reads_wire P" "fresh d" "dc_frame d = pre @ rest"
    "dc_transport (finish_network P d net later protocol (length pre) to) = Some t"
  shows "\<not> later \<and> five_tuple (finish_network P d net later protocol (length pre) to) =
    Some (let (sport, dport, pr) = port_tuple protocol (Some rest) in
      \<lparr>src_ip = network_source net, src_port = sport, dest_ip = network_destination net, dest_port = dport, proto = pr\<rparr>)"
proof -
  have n: "\<not> later"
    using assms(2,4) by (auto simp: finish_network_def Let_def fresh_def split: if_splits)
  let ?d = "d\<lparr>dc_network := Some net, dc_network_payload := clamp_range (length pre) to (length (dc_frame d))\<rparr>"
  have t: "dc_transport (decode_transport P ?d protocol (length pre) to) = Some t"
    using assms(4) n by (simp add: finish_network_def)
  have "transport_tuple t = port_tuple protocol (Some rest)"
    by (rule decode_transport_tuple [OF assms(1) _ _ t]) (use assms(2,3) in \<open>auto simp: fresh_def\<close>)
  then show ?thesis
    using n t by (auto simp: finish_network_def Let_def five_tuple_def decode_transport_keeps transport_tuple_def
      split: prod.split)
qed


lemma tuple_v4_wire:
  assumes "s \<noteq> []" "drop_bit 4 (hd s) = 4" "5 \<le> unat (hd s AND 0x0F)" "4 * unat (hd s AND 0x0F) \<le> length s"
    "(be_word [s ! 6 AND 0x1F, s ! 7] :: 16 word) = 0"
  shows "tuple_from_ip_packet s = Some (let (sport, dport, pr) = port_tuple (s ! 9) (Some (drop (4 * unat (hd s AND 0x0F)) s)) in
      \<lparr>src_ip = V4 (field s 12 4), src_port = sport, dest_ip = V4 (field s 16 4), dest_port = dport, proto = pr\<rparr>)"
proof -
  have l: "20 \<le> length s" using assms(3,4) by linarith
  then have g: "byte_get s i = Some (s ! i)" if "i < 20" for i using that by (simp add: byte_get_def)
  have f: "field s 12 4 = be_word [s ! 12, s ! 13, s ! 14, s ! 15]" "field s 16 4 = be_word [s ! 16, s ! 17, s ! 18, s ! 19]"
    using l by (simp_all add: field_4)
  have h: "hd s = s ! 0" using assms(1) by (simp add: hd_conv_nth)
  have "read_v4 s = Some (V4 (field s 12 4), V4 (field s 16 4), s ! 9, Some (drop (4 * unat (hd s AND 0x0F)) s))"
    unfolding read_v4_def f using assms(3-5) h
    by (simp add: g Let_def range_from_def mult.commute not_less)
  then show ?thesis
    using assms(2) h by (simp add: tuple_from_ip_packet_def g port_tuple_def Let_def case_prod_unfold)
qed

lemma tuple_v6_wire:
  assumes "s \<noteq> []" "drop_bit 4 (hd s) = 6" "40 \<le> length s"
  shows "tuple_from_ip_packet s = Some (let (sport, dport, pr) = port_tuple (s ! 6) (Some (drop 40 s)) in
      \<lparr>src_ip = V6 (field s 8 16), src_port = sport, dest_ip = V6 (field s 24 16), dest_port = dport, proto = pr\<rparr>)"
proof -
  have g: "byte_get s 0 = Some (hd s)" "byte_get s 6 = Some (s ! 6)" "range_get s 8 24 = Some (take 16 (drop 8 s))"
    "range_get s 24 40 = Some (take 16 (drop 24 s))" "range_from s 40 = Some (drop 40 s)"
    using assms(1,3) by (simp_all add: byte_get_def range_get_def range_from_def hd_conv_nth)
  have "read_v6 s = Some (V6 (field s 8 16), V6 (field s 24 16), s ! 6, Some (drop 40 s))"
    using assms(3) by (simp add: read_v6_def g field_def)
  then show ?thesis
    using assms(2) by (simp add: tuple_from_ip_packet_def g port_tuple_def Let_def case_prod_unfold)
qed

lemma decode_ipv4_tuple:
  assumes "reads_wire P" "fresh d" "dc_frame d = pre @ s" "dc_transport (decode_ipv4 P d s) = Some t"
  shows "five_tuple (decode_ipv4 P d s) = tuple_from_ip_packet s"
proof -
  let ?ihl = "unat (hd s AND 0x0F)"
  have ok: "s \<noteq> []" "drop_bit 4 (hd s) = 4" "5 \<le> ?ihl" "4 * ?ihl \<le> length s"
    using assms(2,4) by (auto simp: decode_ipv4_def Let_def fresh_def split: list.splits if_splits)
  obtain h where h: "ep_ipv4 P s = Some (h, drop (4 * ?ihl) s)" "h4_fragment_offset h = be_word [s ! 6 AND 0x1F, s ! 7]"
      "h4_protocol h = s ! 9" "h4_source h = field s 12 4" "h4_destination h = field s 16 4"
    by (rule wire_ipv4_read [OF assms(1) ok])
  define d0 where "d0 = ipv4_checks h (?ihl * 4) (length s) d"
  define pre' where "pre' = pre @ take (4 * ?ihl) s"
  have d0: "fresh d0" "dc_frame d0 = pre' @ drop (4 * ?ihl) s"
    using ipv4_checks_fresh [OF assms(2)] assms(3) by (simp_all add: d0_def pre'_def)
  have off: "offset_of (dc_frame d0) (drop (4 * ?ihl) s) = length pre'" using d0(2) by (simp add: offset_of_def)
  define net where "net = Ipv4 (ipv4_info_of h (?ihl * 4))"
  obtain later to where r: "decode_ipv4 P d s = finish_network P d0 net later (s ! 9) (length pre') to"
      "later = (v4_is_fragment (ipv4_info_of h (?ihl * 4)) \<and> h4_fragment_offset h \<noteq> 0)"
    using ok h(1,3) off by (cases s) (simp_all add: decode_ipv4_def Let_def d0_def net_def ipv4_info_of_def not_less mult.commute)
  from finish_network_tuple [OF assms(1) d0, of net later "s ! 9" to t] assms(4) r
  have ft: "\<not> later" "five_tuple (decode_ipv4 P d s) = Some (let (sport, dport, pr) = port_tuple (s ! 9) (Some (drop (4 * ?ihl) s)) in
      \<lparr>src_ip = network_source net, src_port = sport, dest_ip = network_destination net, dest_port = dport, proto = pr\<rparr>)"
    by simp_all
  from ft(1) r(2) h(2) have "(be_word [s ! 6 AND 0x1F, s ! 7] :: 16 word) = 0"
    by (auto simp: v4_is_fragment_def ipv4_info_of_def)
  from tuple_v4_wire [OF ok this] ft(2) h(4,5) show ?thesis by (simp add: net_def ipv4_info_of_def)
qed

lemma extension_len_bound: "ipv6_extension_len p s = Some n \<Longrightarrow> 8 \<le> n \<and> n \<le> length s"
  by (auto simp: ipv6_extension_len_def Let_def split: if_splits)

lemma read_fragment_cursor [simp]: "xw_cursor (read_fragment_header w) = xw_cursor w"
  by (simp add: read_fragment_header_def Let_def split: option.split)

lemma walk_extensions_moves:
  assumes "walk_extensions k w d = (w', d')"
  shows "w' = w \<or> length (xw_cursor w') + 8 \<le> length (xw_cursor w)"
  using assms
proof (induction k arbitrary: w)
  case 0
  then show ?case by (auto simp: walk_extensions.simps split: if_splits)
next
  case (Suc k)
  show ?case
  proof (cases "is_ipv6_extension (xw_protocol w)")
    case True
    show ?thesis
    proof (cases "ipv6_extension_len (xw_protocol w) (xw_cursor w)")
      case None
      with Suc.prems True show ?thesis by (simp add: walk_extensions.simps)
    next
      case (Some n)
      let ?w = "(if xw_protocol w = 44 then read_fragment_header w else w)\<lparr>xw_protocol := xw_cursor w ! 0, xw_cursor := drop n (xw_cursor w)\<rparr>"
      have "walk_extensions k ?w d = (w', d')"
        using Suc.prems True Some by (simp add: walk_extensions.simps [of "Suc k"] Let_def)
      from Suc.IH [OF this] extension_len_bound [OF Some] show ?thesis by auto
    qed
  qed (use Suc.prems in \<open>simp add: walk_extensions.simps\<close>)
qed

lemma decode_ipv6_tuple:
  assumes "reads_wire P" "fresh d" "dc_frame d = pre @ s" "dc_transport (decode_ipv6 P d s) = Some t"
    "\<And>i. dc_network (decode_ipv6 P d s) = Some (Ipv6 i) \<Longrightarrow> v6_header_len i = 40"
  shows "five_tuple (decode_ipv6 P d s) = tuple_from_ip_packet s"
proof -
  have ok: "s \<noteq> []" "drop_bit 4 (hd s) = 6"
    using assms(2,4) by (auto simp: decode_ipv6_def Let_def fresh_def split: list.splits if_splits)
  have l: "40 \<le> length s"
  proof (rule ccontr)
    assume "\<not> 40 \<le> length s"
    with wire_ipv6_read [OF assms(1), of s] ok have "ep_ipv6 P s = None" by simp
    with assms(2,4) ok show False by (cases s) (auto simp: decode_ipv6_def Let_def fresh_def)
  qed
  with wire_ipv6_read [OF assms(1), of s] ok obtain h where
    h: "ep_ipv6 P s = Some (h, drop 40 s)" "h6_next_header h = s ! 6" "h6_source h = field s 8 16" "h6_destination h = field s 24 16"
    by auto
  define d0 where "d0 = (if length (drop 40 s) < unat (h6_payload_length h) \<and> \<not> is_snapped d then note_anomaly LIpv6 LengthMismatch d else d)"
  define w where "w = \<lparr>xw_protocol = s ! 6, xw_cursor = drop 40 s, xw_is_fragment = False, xw_fragment_offset = 0,
    xw_more_fragments = False, xw_identification = 0\<rparr>"
  obtain w' d1 where wd: "walk_extensions max_ipv6_extension_headers w d0 = (w', d1)" by fastforce
  have "fresh d0" "dc_frame d0 = pre @ s" using assms(2,3) by (simp_all add: d0_def fresh_note)
  with walk_extensions_fresh [OF wd] have d1: "fresh d1" "dc_frame d1 = pre @ s" by auto
  obtain i later to where r: "decode_ipv6 P d s = finish_network P d1 (Ipv6 i) later (xw_protocol w') (offset_of (pre @ s) (xw_cursor w')) to"
      "v6_header_len i = offset_of (pre @ s) (xw_cursor w') - offset_of (pre @ s) s" "v6_source i = field s 8 16" "v6_destination i = field s 24 16"
    using ok h wd d1(2) assms(3) unfolding w_def d0_def by (cases s) (simp_all add: decode_ipv6_def Let_def)
  then have "offset_of (pre @ s) (xw_cursor w') = length pre + 40"
    using assms(5) by (simp add: finish_network_keeps offset_of_def)
  with walk_extensions_moves [OF wd] l have w': "w' = w" by (auto simp: offset_of_def w_def)
  have d1': "dc_frame d1 = (pre @ take 40 s) @ drop 40 s" "offset_of (pre @ s) (xw_cursor w') = length (pre @ take 40 s)"
    using d1(2) l by (simp_all add: w' w_def offset_of_def)
  have eq: "decode_ipv6 P d s = finish_network P d1 (Ipv6 i) later (s ! 6) (length (pre @ take 40 s)) to"
    using r(1) d1'(2) by (simp add: w' w_def)
  from finish_network_tuple [OF assms(1) d1(1) d1'(1)] assms(4) eq
  have "five_tuple (decode_ipv6 P d s) = Some (let (sport, dport, pr) = port_tuple (s ! 6) (Some (drop 40 s)) in
      \<lparr>src_ip = network_source (Ipv6 i), src_port = sport, dest_ip = network_destination (Ipv6 i), dest_port = dport, proto = pr\<rparr>)"
    by metis
  with r(3,4) tuple_v6_wire [OF ok l] show ?thesis by simp
qed

lemma walk_vlans_suffix:
  assumes "reads_wire P" "walk_vlans P k e r d = Inr (e', r', d')" "dc_frame d = pre @ r"
    "dc_vlan_ids d = map Some ids @ replicate k None" "length ids + k = max_vlan_tags"
  shows "\<exists>pre' ids' k'. dc_frame d' = pre' @ r' \<and> dc_vlan_ids d' = map Some ids' @ replicate k' None \<and>
    length pre' = length pre + 4 * (length ids' - length ids) \<and> length ids \<le> length ids'"
  using assms(2-)
proof (induction k arbitrary: e r d pre ids)
  case 0
  then have "d' = d" "r' = r" by (auto simp: walk_vlans.simps split: if_splits)
  with "0.prems" show ?case by (intro exI [of _ pre] exI [of _ ids] exI [of _ 0]) simp
next
  case (Suc k)
  show ?case
  proof (cases "is_vlan e")
    case False
    with Suc.prems have "d' = d" "r' = r" by (auto simp: walk_vlans.simps)
    with Suc.prems show ?thesis by (intro exI [of _ pre] exI [of _ ids] exI [of _ "Suc k"]) simp
  next
    case True
    with Suc.prems(1) have "4 \<le> length r"
      by (auto simp: walk_vlans.simps wire_vlan [OF assms(1)] split: if_splits)
    define i :: "16 word" where "i = field r 0 2 AND 0xFFF"
    define d1 where "d1 = d\<lparr>dc_vlan_ids := (dc_vlan_ids d)[max_vlan_tags - Suc k := Some i]\<rparr>"
    have "walk_vlans P k (field r 2 2) (drop 4 r) d1 = Inr (e', r', d')"
      using Suc.prems(1) True \<open>4 \<le> length r\<close> by (simp add: walk_vlans.simps [of P "Suc k"] wire_vlan [OF assms(1)] d1_def i_def)
    moreover have "max_vlan_tags - Suc k = length ids" using Suc.prems(4) by simp
    then have "dc_vlan_ids d1 = map Some (ids @ [i]) @ replicate k None"
      using Suc.prems(3) by (simp add: d1_def list_update_append)
    moreover have "dc_frame d1 = (pre @ take 4 r) @ drop 4 r" using Suc.prems(2) by (simp add: d1_def)
    ultimately obtain pre' ids' k' where
      "dc_frame d' = pre' @ r'" "dc_vlan_ids d' = map Some ids' @ replicate k' None"
      "length pre' = length (pre @ take 4 r) + 4 * (length ids' - length (ids @ [i]))" "length (ids @ [i]) \<le> length ids'"
      using Suc.IH [of "field r 2 2" "drop 4 r" d1 "pre @ take 4 r" "ids @ [i]"] Suc.prems(4) by auto
    with \<open>4 \<le> length r\<close> show ?thesis
      by (intro exI [of _ pre'] exI [of _ ids'] exI [of _ k']) auto
  qed
qed

lemma decode_ipv4_vlans: "dc_vlan_ids (decode_ipv4 P d s) = dc_vlan_ids d"
  by (auto simp: decode_ipv4_def Let_def finish_network_keeps ipv4_checks_def split: list.splits option.splits)

lemma walk_extensions_vlans: "walk_extensions k w d = (w', d') \<Longrightarrow> dc_vlan_ids d' = dc_vlan_ids d"
  by (induction k w d rule: walk_extensions.induct)
    (subst (asm) (2) walk_extensions.simps, auto simp: Let_def split: if_splits nat.splits option.splits)

lemma decode_ipv6_vlans: "dc_vlan_ids (decode_ipv6 P d s) = dc_vlan_ids d"
  by (auto simp: decode_ipv6_def Let_def finish_network_keeps split: list.splits option.splits prod.splits if_splits
      dest!: walk_extensions_vlans)

lemma decode_ipv4_network: "dc_network (decode_ipv4 P d s) = Some (Ipv6 i) \<Longrightarrow> dc_network d = Some (Ipv6 i)"
  by (auto simp: decode_ipv4_def Let_def finish_network_keeps ipv4_checks_def split: list.splits option.splits if_splits)

definition vlan_count :: "decoded \<Rightarrow> nat" where
  "vlan_count d = length (filter (\<lambda>x. x \<noteq> None) (dc_vlan_ids d))"

lemma vlan_count_ids: "dc_vlan_ids d = map Some ids @ replicate k None \<Longrightarrow> vlan_count d = length ids"
  by (simp add: vlan_count_def comp_def)

lemma readers_agree_lemma:
  assumes "reads_wire P" "dc_transport (decode P frame n) = Some t"
    "\<And>i. dc_network (decode P frame n) = Some (Ipv6 i) \<Longrightarrow> v6_header_len i = 40"
  shows "five_tuple (decode P frame n) = tuple_from_ip_packet (drop (14 + 4 * vlan_count (decode P frame n)) frame)"
proof -
  let ?new = "decoded_new frame n"
  let ?x = "walk_vlans P max_vlan_tags (field frame 12 2) (drop 14 frame) ?new"
  have l: "14 \<le> length frame"
    using assms(2) fresh_new [of frame n] by (auto simp: decode_def Let_def wire_ethernet [OF assms(1)] fresh_def split: if_splits)
  have "case ?x of Inl d' \<Rightarrow> fresh d' \<and> dc_frame d' = dc_frame ?new \<and> dc_original_len d' = dc_original_len ?new
      | Inr (_, _, d') \<Rightarrow> fresh d' \<and> dc_frame d' = dc_frame ?new \<and> dc_original_len d' = dc_original_len ?new"
    by (rule walk_vlans_fresh [OF fresh_new refl refl refl])
  then obtain e r d where w: "?x = Inr (e, r, d)"
    using assms(2) l by (cases ?x) (auto simp: decode_def Let_def wire_ethernet [OF assms(1)] fresh_def split: if_splits)
  have f: "fresh d" using walk_vlans_fresh [OF fresh_new w refl refl] by simp
  obtain pre ids k where p: "dc_frame d = pre @ r" "dc_vlan_ids d = map Some ids @ replicate k None" "length pre = 14 + 4 * length ids"
    using walk_vlans_suffix [OF assms(1) w, of "take 14 frame" "[]"] l by (auto simp: decoded_new_def)
  let ?d = "d\<lparr>dc_ether_type := Some e\<rparr>"
  have fd: "fresh ?d" "dc_frame ?d = pre @ r" using f p(1) by (simp_all add: fresh_def)
  have "dc_frame d = frame" using walk_vlans_fresh [OF fresh_new w refl refl] by (simp add: decoded_new_def)
  then have r: "r = drop (14 + 4 * length ids) frame" using p(1,3) by (metis append_eq_conv_conj)
  have dec: "decode P frame n = (if e = 0x0800 then decode_ipv4 P ?d r else if e = 0x86DD then decode_ipv6 P ?d r else ?d)"
    using w l by (auto simp: decode_def Let_def wire_ethernet [OF assms(1)])
  have c: "vlan_count (decode P frame n) = length ids"
    using vlan_count_ids p(2) by (auto simp: dec vlan_count_def decode_ipv4_vlans decode_ipv6_vlans)
  from assms(2) fd(1) dec consider (v4) "decode P frame n = decode_ipv4 P ?d r" | (v6) "decode P frame n = decode_ipv6 P ?d r"
    by (auto simp: fresh_def split: if_splits)
  then show ?thesis
  proof cases
    case v4
    with decode_ipv4_tuple [OF assms(1) fd] assms(2) c r show ?thesis by simp
  next
    case v6
    with decode_ipv6_tuple [OF assms(1) fd] assms(2,3) c r show ?thesis by simp
  qed
qed

section \<open>A TCP frame\<close>

lemma field_append: "at + n \<le> length s \<Longrightarrow> field (s @ r) at n = field s at n"
  by (simp add: field_def)

lemma range_get_middle: "range_get (a @ b @ c) (length a) (length a + length b) = Some b"
  by (simp add: range_get_def)

lemma decode_ethernet_ipv4:
  assumes "reads_wire P" "length eth = 14" "field eth 12 2 = (0x0800 :: 16 word)"
  shows "decode P (eth @ s) n = decode_ipv4 P ((decoded_new (eth @ s) n)\<lparr>dc_ether_type := Some 0x0800\<rparr>) s"
proof -
  have "field (eth @ s) 12 2 = (0x0800 :: 16 word)" using assms(2,3) by (simp add: field_append)
  moreover have "\<not> is_vlan 0x0800" by (simp add: is_vlan_def)
  moreover have "eth @ s \<noteq> []" using assms(2) by auto
  ultimately show ?thesis
    using assms(2) by (auto simp: decode_def Let_def wire_ethernet [OF assms(1)] walk_vlans.simps)
qed

lemma decode_ipv4_plain:
  assumes "reads_wire P" "dc_frame d = pre @ ip @ body @ padding" "length ip = 20" "ip ! 0 = 0x45"
    "field ip 2 2 = (of_nat (20 + length body) :: 16 word)" "20 + length body < 2 ^ 16" "length (dc_frame d) \<le> u64_max"
    "(be_word [ip ! 6 AND 0x1F, ip ! 7] :: 16 word) = 0"
  obtains d0 net where "decode_ipv4 P d (ip @ body @ padding) = finish_network P d0 net False (ip ! 9) (length pre + 20) (length pre + 20 + length body)"
    "dc_frame d0 = dc_frame d"
proof -
  let ?s = "ip @ body @ padding"
  have hd: "hd ?s = 0x45" using assms(3,4) by (cases ip) auto
  have s: "?s \<noteq> []" "drop_bit 4 (hd ?s) = 4" "5 \<le> unat (hd ?s AND 0x0F)" "4 * unat (hd ?s AND 0x0F) \<le> length ?s"
    unfolding hd using assms(3) by (simp_all add: drop_bit_eq_div) (use assms(3) in auto)
  obtain h where h: "ep_ipv4 P ?s = Some (h, drop (4 * unat (hd ?s AND 0x0F)) ?s)" "h4_total_len h = field ?s 2 2"
      "h4_fragment_offset h = be_word [?s ! 6 AND 0x1F, ?s ! 7]" "h4_protocol h = ?s ! 9"
    by (rule wire_ipv4_read [OF assms(1) s])
  have ihl: "unat (hd ?s AND 0x0F) = 5" unfolding hd by simp
  have "h4_total_len h = of_nat (20 + length body)"
    using h(2) assms(3,5) field_append [of 2 2 ip "body @ padding", where ?'a = 16] by (simp del: of_nat_add)
  then have tl: "unat (h4_total_len h) = 20 + length body"
    using assms(6) by (simp add: unat_of_nat take_bit_eq_mod del: of_nat_add)
  have off: "h4_fragment_offset h = 0" "h4_protocol h = ip ! 9"
    using h(3,4) assms(3,8) by (simp_all add: nth_append)
  define d0 where "d0 = ipv4_checks h 20 (length ?s) d"
  have d0: "dc_frame d0 = dc_frame d" by (simp add: d0_def ipv4_checks_def Let_def)
  have "decode_ipv4 P d ?s = finish_network P d0 (Ipv4 (ipv4_info_of h 20)) False (ip ! 9) (length pre + 20) (length pre + 20 + length body)"
  proof -
    obtain l where l: "?s = 0x45 # l" using s(1) hd by (cases ?s) auto
    from arg_cong [OF this, of length] assms(3) have "length l = 19 + length body + length padding" by simp
    then show ?thesis
      using h(1) ihl tl off assms(2,7) d0 unfolding l d0_def
      by (simp add: decode_ipv4_def Let_def ipv4_info_of_def v4_is_fragment_def offset_of_def saturating_add_def min_def add.assoc)
  qed
  from this d0 show thesis by (rule that)
qed

lemma finish_network_tcp:
  fixes net
  assumes "reads_wire P" "dc_frame d = pre @ tcp @ data @ padding" "20 \<le> length tcp" "5 \<le> unat (drop_bit 4 (tcp ! 12))"
    "length tcp = 4 * unat (drop_bit 4 (tcp ! 12))"
  defines "r \<equiv> finish_network P d net False 6 (length pre) (length pre + length (tcp @ data))"
  shows "payload_bytes r = data \<and> network_payload_bytes r = tcp @ data \<and> (\<exists>i. dc_transport r = Some (TTcp i) \<and>
    ti_source_port i = field tcp 0 2 \<and> ti_destination_port i = field tcp 2 2 \<and> ti_sequence_number i = field tcp 4 4 \<and>
    ti_acknowledgment_number i = field tcp 8 4 \<and> ti_flags i = flags_of (tcp ! 13))"
proof -
  let ?s = "tcp @ data"
  let ?to = "length pre + length ?s"
  have le: "?to \<le> length (dc_frame d)" using assms(2) by simp
  have c: "clamp_range (length pre) ?to (length (dc_frame d)) = (length pre, ?to)"
    "clamp_range (length pre + length tcp) ?to (length (dc_frame d)) = (length pre + length tcp, ?to)"
    using le by (auto simp: clamp_range_def Let_def)
  have av: "range_get (dc_frame d) (length pre) ?to = Some ?s"
    using range_get_middle [of pre ?s padding] by (simp add: assms(2))
  have s: "?s ! 12 = tcp ! 12" "?s ! 13 = tcp ! 13" using assms(3) by (simp_all add: nth_append)
  have "20 \<le> length ?s \<and> 5 \<le> unat (drop_bit 4 (?s ! 12)) \<and> 4 * unat (drop_bit 4 (?s ! 12)) \<le> length ?s"
    using assms(3,4,5) s(1) by simp
  from wire_tcp_read [OF assms(1) this] obtain h rest where h: "ep_tcp P ?s = Some (h, rest)"
    "ht_source_port h = field ?s 0 2" "ht_destination_port h = field ?s 2 2" "ht_sequence_number h = field ?s 4 4"
    "ht_acknowledgment_number h = field ?s 8 4" "ht_flags h = flags_of (?s ! 13)" by blast
  have r: "dc_frame r = dc_frame d" "dc_payload r = (length pre + length tcp, ?to)" "dc_network_payload r = (length pre, ?to)"
    "\<exists>i. dc_transport r = Some (TTcp i) \<and> ti_source_port i = ht_source_port h \<and> ti_destination_port i = ht_destination_port h \<and>
      ti_sequence_number i = ht_sequence_number h \<and> ti_acknowledgment_number i = ht_acknowledgment_number h \<and> ti_flags i = ht_flags h"
    using le c av h(1) s assms(3-5)
    by (simp_all add: r_def finish_network_def Let_def decode_transport_def decode_tcp_def unwrap_or_def min_absorb1 mult.commute)
  have "range_get (dc_frame d) (length pre + length tcp) ?to = Some data"
    using range_get_middle [of "pre @ tcp" data padding] by (simp add: assms(2) add.assoc)
  then show ?thesis
    using r av h s(2) assms(3) by (simp add: payload_bytes_def network_payload_bytes_def unwrap_or_def field_append)
qed

definition tcp_frame_ok :: "bytes \<Rightarrow> bytes \<Rightarrow> bytes \<Rightarrow> bytes \<Rightarrow> bool" where
  "tcp_frame_ok eth ip tcp data \<longleftrightarrow>
     length eth = 14 \<and> field eth 12 2 = (0x0800 :: 16 word) \<and>
     length ip = 20 \<and> ip ! 0 = 0x45 \<and> ip ! 9 = 6 \<and> (be_word [ip ! 6 AND 0x1F, ip ! 7] :: 16 word) = 0 \<and>
     field ip 2 2 = (of_nat (20 + length (tcp @ data)) :: 16 word) \<and> 20 + length (tcp @ data) < 2 ^ 16 \<and>
     20 \<le> length tcp \<and> length tcp = 4 * unat (drop_bit 4 (tcp ! 12))"

lemma tcp_frame_lemma:
  fixes n
  assumes "reads_wire P" "tcp_frame_ok eth ip tcp data" "length (eth @ ip @ tcp @ data @ padding) \<le> u64_max"
  defines "r \<equiv> decode P (eth @ ip @ tcp @ data @ padding) n"
  shows "payload_bytes r = data \<and> network_payload_bytes r = tcp @ data \<and> (\<exists>i. dc_transport r = Some (TTcp i) \<and>
    ti_source_port i = field tcp 0 2 \<and> ti_destination_port i = field tcp 2 2 \<and> ti_sequence_number i = field tcp 4 4 \<and>
    ti_acknowledgment_number i = field tcp 8 4 \<and> ti_flags i = flags_of (tcp ! 13))"
proof -
  let ?frame = "eth @ ip @ tcp @ data @ padding"
  note ok = assms(2) [unfolded tcp_frame_ok_def]
  define d where "d = (decoded_new ?frame n)\<lparr>dc_ether_type := Some 0x0800\<rparr>"
  have d: "dc_frame d = eth @ ip @ (tcp @ data) @ padding" by (simp add: d_def decoded_new_def)
  have r: "r = decode_ipv4 P d (ip @ (tcp @ data) @ padding)"
    using decode_ethernet_ipv4 [OF assms(1), of eth "ip @ (tcp @ data) @ padding" n] ok by (simp add: r_def d_def)
  obtain d0 net where f: "r = finish_network P d0 net False (ip ! 9) (length eth + 20) (length eth + 20 + length (tcp @ data))"
      "dc_frame d0 = dc_frame d"
    unfolding r by (rule decode_ipv4_plain [OF assms(1) d]) (use ok d assms(3) in \<open>auto\<close>)
  have "dc_frame d0 = (eth @ ip) @ tcp @ data @ padding" using f(2) d by simp
  from finish_network_tcp [OF assms(1) this, of net] ok f(1) show ?thesis
    by (simp add: add.assoc)
qed

section \<open>Properties\<close>

text \<open>C22. Decoding stays in bounds: for any bytes, any claimed original length and whatever the header readers
return, the payload and the network payload are ranges of the frame, the payload is empty or lies inside the network payload,
at most eight anomalies are stored, none twice, and a frame clipped by the capture is never reported as
lying about its length.\<close>

theorem decode_in_bounds:
  "let d = decode P frame n; (p, q) = dc_payload d; (i, j) = dc_network_payload d in
     dc_frame d = frame \<and> p \<le> q \<and> q \<le> length frame \<and> i \<le> j \<and> j \<le> length frame \<and> (p = q \<or> i \<le> p \<and> q \<le> j) \<and>
     length (payload_bytes d) = q - p \<and> length (as_found (dc_anomalies d)) \<le> 8 \<and> distinct (as_found (dc_anomalies d)) \<and>
     (length frame < n \<longrightarrow> \<not> anomalies_contain LengthMismatch (dc_anomalies d))"
proof -
  have "decoded_ok (decode P frame n)" "dc_frame (decode P frame n) = frame" "dc_original_len (decode P frame n) = n"
    using finished_ok [OF decode_finished] by blast+
  then show ?thesis
    by (auto simp: decoded_ok_def ranges_ok_def anomalies_ok_def is_snapped_def anomaly_cap_def payload_bytes_def range_get_def
      unwrap_or_def Let_def case_prod_unfold)
qed

text \<open>A frame to apply the properties to: a segment from port 80 to port 443 with two bytes of data and padding.\<close>

definition sample_eth :: bytes where "sample_eth = replicate 12 0 @ [8, 0]"
definition sample_ip :: bytes where "sample_ip = [0x45, 0, 0, 42, 0, 0, 0, 0, 64, 6, 0, 0, 10, 0, 0, 1, 10, 0, 0, 2]"
definition sample_tcp :: bytes where "sample_tcp = [0, 80, 1, 187, 0, 0, 0, 1, 0, 0, 0, 0, 0x50, 0x18, 0, 0, 0, 0, 0, 0]"

lemma sample_frame_ok: "tcp_frame_ok sample_eth sample_ip sample_tcp [1, 2]"
  by (simp add: tcp_frame_ok_def sample_eth_def sample_ip_def sample_tcp_def field_def be_word_def drop_bit_eq_div)

definition sample_frame :: bytes where
  "sample_frame = sample_eth @ sample_ip @ sample_tcp @ [1, 2] @ [0, 0, 0, 0]"

lemma sample_frame_length: "length sample_frame = 60"
  by (simp add: sample_frame_def sample_eth_def sample_ip_def sample_tcp_def)

theorem decode_in_bounds_witness:
  "length sample_frame < 64 \<and> \<not> anomalies_contain LengthMismatch (dc_anomalies (decode wire_parsers sample_frame 64))"
  using decode_in_bounds [of wire_parsers sample_frame 64] by (simp add: Let_def case_prod_unfold sample_frame_length)

text \<open>C24. A TCP segment is decoded to exactly its data: for an Ethernet frame with an unfragmented IPv4 packet, a TCP header with any
options, any data, and any padding after the packet, the ports, the sequence and acknowledgement numbers and the
flags are those of the header, the payload is the data without the padding, and the network payload is header and data,
provided the header readers follow the wire format.\<close>

theorem tcp_frame_decoded:
  fixes n
  assumes "reads_wire P" "tcp_frame_ok eth ip tcp data" "length (eth @ ip @ tcp @ data @ padding) \<le> u64_max"
  defines "d \<equiv> decode P (eth @ ip @ tcp @ data @ padding) n"
  shows "payload_bytes d = data \<and> network_payload_bytes d = tcp @ data \<and> (\<exists>i. dc_transport d = Some (TTcp i) \<and>
    ti_source_port i = field tcp 0 2 \<and> ti_destination_port i = field tcp 2 2 \<and> ti_sequence_number i = field tcp 4 4 \<and>
    ti_acknowledgment_number i = field tcp 8 4 \<and> ti_flags i = flags_of (tcp ! 13))"
  unfolding d_def by (rule tcp_frame_lemma [OF assms(1-3)])

lemma sample_frame_fits: "length (sample_eth @ sample_ip @ sample_tcp @ [1, 2] @ [0, 0, 0, 0]) \<le> u64_max"
  using sample_frame_length by (simp add: sample_frame_def u64_max_def)

theorem tcp_frame_decoded_witness: "payload_bytes (decode wire_parsers sample_frame 60) = [1, 2]"
  using tcp_frame_decoded [OF wire_parsers_read sample_frame_ok sample_frame_fits, of 60] by (simp add: sample_frame_def)

text \<open>C23. Detection and prevention name the same conversation: whenever the decoder reads a transport header, behind any VLAN tags, the
5-tuple it hands to the flow table and the rules equals the one the verdict path reads from the bare IP packet. For IPv6
this needs that no extension header was walked, since the verdict path does not walk them.\<close>

theorem readers_agree:
  assumes "reads_wire P" "dc_transport (decode P frame n) = Some t"
    "\<And>i. dc_network (decode P frame n) = Some (Ipv6 i) \<Longrightarrow> v6_header_len i = 40"
  shows "five_tuple (decode P frame n) = tuple_from_ip_packet (drop (14 + 4 * vlan_count (decode P frame n)) frame)"
  by (rule readers_agree_lemma [OF assms])

theorem readers_agree_witness:
  "five_tuple (decode wire_parsers sample_frame 60) = tuple_from_ip_packet (drop (14 + 4 * vlan_count (decode wire_parsers sample_frame 60)) sample_frame)"
proof -
  have "\<exists>t. dc_transport (decode wire_parsers sample_frame 60) = Some t"
    using tcp_frame_lemma [OF wire_parsers_read sample_frame_ok sample_frame_fits, of 60] by (auto simp: sample_frame_def)
  moreover have "dc_network (decode wire_parsers sample_frame 60) \<noteq> Some (Ipv6 i)" for i
    using sample_frame_ok by (auto simp: sample_frame_def tcp_frame_ok_def decode_ethernet_ipv4 [OF wire_parsers_read] decoded_new_def
      dest: decode_ipv4_network)
  ultimately show ?thesis using readers_agree [OF wire_parsers_read, of sample_frame 60] by auto
qed

text \<open>A later fragment has no ports: a frame that carries a fragment other than the first of a datagram yields no transport header, no
ports, and as its payload the whole network payload, so nothing is read from the middle of someone's data.\<close>

theorem later_fragment_no_ports:
  assumes "dc_network (decode P frame n) = Some net" "later_fragment net"
  shows "dc_transport (decode P frame n) = None \<and> dc_payload (decode P frame n) = dc_network_payload (decode P frame n) \<and>
    (\<exists>t. five_tuple (decode P frame n) = Some t \<and> src_port t = None \<and> dest_port t = None)"
proof -
  from assms(1) decode_finished [of P frame n] obtain d0 protocol start to where
    "fresh d0" "decode P frame n = finish_network P d0 net True protocol start to"
    using assms(2) by (auto simp: finished_def fresh_def finish_network_keeps)
  then show ?thesis by (simp add: finish_network_def Let_def fresh_def five_tuple_def)
qed


definition fragment_frame :: bytes where
  "fragment_frame = sample_eth @ [0x45, 0, 0, 28, 0, 0, 0, 1, 64, 6, 0, 0, 10, 0, 0, 1, 10, 0, 0, 2, 0, 80, 1, 187, 0, 0, 0, 1]"

lemma fragment_frame_network:
  "\<exists>i. dc_network (decode wire_parsers fragment_frame 42) = Some (Ipv4 i) \<and> v4_fragment_offset i = 1"
proof -
  have "length sample_eth = 14" "field sample_eth 12 2 = (0x0800 :: 16 word)"
    by (simp_all add: sample_eth_def field_def be_word_def)
  moreover have "ep_ipv4 wire_parsers = wire_ipv4" by (simp add: wire_parsers_def)
  ultimately show ?thesis
    by (simp add: fragment_frame_def decode_ethernet_ipv4 [OF wire_parsers_read] decode_ipv4_def Let_def finish_network_keeps wire_ipv4_def
      ipv4_info_of_def be_word_def drop_bit_eq_div)
qed

theorem later_fragment_no_ports_witness:
  "dc_transport (decode wire_parsers fragment_frame 42) = None \<and> payload_len (decode wire_parsers fragment_frame 42) =
    snd (dc_network_payload (decode wire_parsers fragment_frame 42)) - fst (dc_network_payload (decode wire_parsers fragment_frame 42))"
proof -
  obtain i where "dc_network (decode wire_parsers fragment_frame 42) = Some (Ipv4 i)" "v4_fragment_offset i = 1"
    using fragment_frame_network by blast
  with later_fragment_no_ports [of wire_parsers fragment_frame 42 "Ipv4 i"] show ?thesis by (simp add: payload_len_def)
qed

end
