(* ===== verification/Pipeline.thy ===== *)
theory Pipeline
  imports Engine Decode Correlation FlowTable Defrag Policy
begin

text \<open>
  The packet pipeline (\<open>crates/cli/src/pipeline.rs\<close>) over the components: decoding, defragmentation, flow tracking,
  detection, enforcement, correlation, and the events that come out. What leaves the process is collected in
  lists: the events handed to the emitter, the addresses handed to nft, the stream dumps. The monotonic clock is the
  function \<open>pl_clock\<close>, read once per enforcement; the wall-clock reading of a host record comes with the
  record. A component that panics makes the pipeline panic (\<open>None\<close>). The counters published for the statistics
  thread are copies of the components' counters and are left out, as are log lines.
\<close>

section \<open>Events\<close>

datatype alert_action = Alerted | ActionBlocked

datatype alert_source = FromNetwork | FromHost

record alert_event =
  ae_action :: alert_action
  ae_source :: alert_source
  ae_sid :: nat
  ae_rev :: nat
  ae_signature :: string
  ae_classtype :: "string option"
  ae_severity :: nat
  ae_metadata :: "string \<rightharpoonup> string list"

record anomaly_record =
  rec_layer :: string
  rec_kind :: string

record anomaly_event =
  ane_anomalies :: "anomaly_record list"
  ane_interface :: string
  ane_captured_len :: nat
  ane_packet_len :: nat
  ane_truncated :: bool

datatype flow_end_reason = FlowClosed | FlowTimedOut | FlowEvicted | FlowSensorStopped

record flow_event =
  fe_reason :: flow_end_reason
  fe_start :: system_time
  fe_end :: system_time
  fe_duration_ms :: nat
  fe_packets_to_server :: nat
  fe_bytes_to_server :: nat
  fe_packets_to_client :: nat
  fe_bytes_to_client :: nat
  fe_tcp_flags :: "string option"

datatype event_payload = PAlert alert_event | PAnomaly anomaly_event | PFlow flow_event | PFim fim_event | PAuth auth_event
  | PProcess process_event | PIncident incident_event

record event =
  ev_timestamp :: system_time
  ev_payload :: event_payload
  ev_flow_id :: "nat option"
  ev_net :: "net_tuple option"

definition build_at :: "system_time \<Rightarrow> event_payload \<Rightarrow> event" where
  "build_at timestamp payload = \<lparr>ev_timestamp = timestamp, ev_payload = payload, ev_flow_id = None, ev_net = None\<rparr>"

definition with_flow_id :: "nat \<Rightarrow> event \<Rightarrow> event" where
  "with_flow_id flow_id e = e\<lparr>ev_flow_id := Some flow_id\<rparr>"

definition with_net :: "net_tuple \<Rightarrow> event \<Rightarrow> event" where
  "with_net tuple e = e\<lparr>ev_net := Some tuple\<rparr>"

section \<open>The state\<close>

record pipeline_options =
  po_emit_anomaly_events :: bool
  po_emit_flow_events :: bool
  po_dump_streams :: bool

record packet_pipeline =
  pl_sensor :: string
  pl_flows :: flow_table
  pl_defrag :: defragmenter
  pl_policy :: policy_resolver
  pl_decode :: decode_counters
  pl_stream_bytes_delivered :: nat
  pl_engine :: "engine option"
  pl_correlator :: "correlator option"
  pl_host_alerts :: nat
  pl_prevention :: "prevention option"
  pl_poisoned :: bool
  pl_options :: pipeline_options
  pl_clock :: "nat \<Rightarrow> instant"
  pl_ticks :: nat
  pl_events :: "event list"
  pl_nft :: "(ip_addr \<times> duration) list"
  pl_dumps :: "(nat \<times> bool \<times> bytes) list"

definition zero_decode_counters :: decode_counters where
  "zero_decode_counters = \<lparr>dk_packets = 0, dk_ipv4 = 0, dk_ipv6 = 0, dk_tcp = 0, dk_udp = 0, dk_icmp = 0, dk_other_transport = 0,
     dk_non_ip = 0, dk_fragments = 0, dk_snapped = 0, dk_anomalous = 0, dk_anomalies = 0\<rparr>"

text \<open>The flow section of the configuration is its two numbers.\<close>

definition pipeline_new :: "string \<Rightarrow> nat \<Rightarrow> nat \<Rightarrow> reassembly_config \<Rightarrow> pipeline_options \<Rightarrow> (nat \<Rightarrow> instant) \<Rightarrow> packet_pipeline" where
  "pipeline_new sensor flow_max flow_timeout_secs reassembly options clock =
     (let limits = default_limits\<lparr>max_flows := flow_max, flow_timeout := secs flow_timeout_secs,
            lim_max_fragment_sets := max_fragment_sets reassembly, fragment_timeout := secs (fragment_timeout_secs reassembly)\<rparr>
      in \<lparr>pl_sensor = sensor, pl_flows = with_reassembly limits reassembly, pl_defrag = defrag_new reassembly,
        pl_policy = resolver_from_config reassembly, pl_decode = zero_decode_counters, pl_stream_bytes_delivered = 0,
        pl_engine = None, pl_correlator = None, pl_host_alerts = 0, pl_prevention = None, pl_poisoned = False,
        pl_options = options, pl_clock = clock, pl_ticks = 0, pl_events = [], pl_nft = [], pl_dumps = []\<rparr>)"

definition arm :: "engine \<Rightarrow> packet_pipeline \<Rightarrow> packet_pipeline" where
  "arm e pl = pl\<lparr>pl_engine := Some e\<rparr>"

definition arm_prevention :: "prevention \<Rightarrow> packet_pipeline \<Rightarrow> packet_pipeline" where
  "arm_prevention p pl = pl\<lparr>pl_prevention := Some p\<rparr>"

definition attach_correlator :: "correlator option \<Rightarrow> packet_pipeline \<Rightarrow> packet_pipeline" where
  "attach_correlator c pl = pl\<lparr>pl_correlator := c\<rparr>"

definition emit_event :: "event \<Rightarrow> packet_pipeline \<Rightarrow> packet_pipeline" where
  "emit_event e pl = pl\<lparr>pl_events := pl_events pl @ [e]\<rparr>"

section \<open>Tuples\<close>

definition port_or_none :: "16 word \<Rightarrow> 16 word option" where
  "port_or_none port = (if port \<noteq> 0 then Some port else None)"

definition protocol_from_number :: "byte \<Rightarrow> protocol" where
  "protocol_from_number protocol = (if protocol = 6 then Tcp else if protocol = 17 then Udp
     else if protocol = 1 \<or> protocol = 58 then Icmp else Ip)"

definition summary_tuple :: "packet_summary \<Rightarrow> net_tuple" where
  "summary_tuple p = \<lparr>src_ip = fst (pk_source p), src_port = port_or_none (snd (pk_source p)), dest_ip = fst (pk_destination p),
     dest_port = port_or_none (snd (pk_destination p)), proto = protocol_from_number (pk_protocol p)\<rparr>"

definition flip_tuple :: "net_tuple \<Rightarrow> net_tuple" where
  "flip_tuple t = \<lparr>src_ip = dest_ip t, src_port = dest_port t, dest_ip = src_ip t, dest_port = src_port t, proto = proto t\<rparr>"

definition tcp_segment_of :: "transport option \<Rightarrow> bytes \<Rightarrow> tcp_segment option" where
  "tcp_segment_of t payload = (case t of
       Some (TTcp i) \<Rightarrow> Some \<lparr>seg_sequence = ti_sequence_number i, seg_acknowledgment = ti_acknowledgment_number i,
         seg_flags = flag_bits (ti_flags i), seg_payload = payload\<rparr>
     | _ \<Rightarrow> None)"

section \<open>Alerts\<close>

text \<open>What the rule asked for against what the sensor may do.\<close>

definition enforce :: "bool \<Rightarrow> net_tuple \<Rightarrow> packet_pipeline \<Rightarrow> packet_pipeline \<times> alert_action" where
  "enforce rule_blocks tuple pl =
     (if \<not> rule_blocks then (pl, Alerted)
      else case pl_prevention pl of
          None \<Rightarrow> (pl, Alerted)
        | Some p \<Rightarrow>
            if pl_poisoned pl then (pl, Alerted)
            else
              let (p, outcome) = block p tuple (pl_clock pl (pl_ticks pl));
                  pl = pl\<lparr>pl_prevention := Some p, pl_ticks := pl_ticks pl + 1\<rparr>
              in case outcome of
                  Blocked source \<Rightarrow>
                    ((case source of Some address \<Rightarrow> pl\<lparr>pl_nft := pl_nft pl @ [(address, ps_source_block (pv_settings p))]\<rparr>
                      | None \<Rightarrow> pl), ActionBlocked)
                | _ \<Rightarrow> (pl, Alerted))"

definition correlate :: "domain \<Rightarrow> event_kind \<Rightarrow> nat option \<Rightarrow> nat \<Rightarrow> string \<Rightarrow> system_time \<Rightarrow> packet_pipeline \<Rightarrow> packet_pipeline option" where
  "correlate domain event_type sid sev summary timestamp pl = (case pl_correlator pl of
       None \<Rightarrow> Some pl
     | Some c \<Rightarrow> do {
         (c, incident) \<leftarrow> correlator_observe c \<lparr>obs_host = pl_sensor pl, obs_timestamp = timestamp, obs_domain = domain,
           obs_event_type = event_type, obs_sid = sid, obs_severity = sev, obs_summary = summary\<rparr>;
         let pl = pl\<lparr>pl_correlator := Some c\<rparr>;
         Some (case incident of Some i \<Rightarrow> emit_event (build_at timestamp (PIncident i)) pl | None \<Rightarrow> pl) })"

definition alert_body :: "alert_action \<Rightarrow> alert_source \<Rightarrow> alert_record \<Rightarrow> alert_event" where
  "alert_body action source r = \<lparr>ae_action = action, ae_source = source, ae_sid = ar_sid r, ae_rev = ar_rev r,
     ae_signature = ar_signature r, ae_classtype = ar_classtype r, ae_severity = ar_severity r, ae_metadata = ar_metadata r\<rparr>"

fun report_alerts :: "nat \<Rightarrow> net_tuple \<Rightarrow> system_time \<Rightarrow> alert_record list \<Rightarrow> packet_pipeline \<Rightarrow> packet_pipeline" where
  "report_alerts flow_id tuple timestamp [] pl = pl"
| "report_alerts flow_id tuple timestamp (r # rs) pl =
     (let (pl, action) = enforce (ar_blocks r) tuple pl
      in report_alerts flow_id tuple timestamp rs
           (emit_event (with_net tuple (with_flow_id flow_id (build_at timestamp (PAlert (alert_body action FromNetwork r))))) pl))"

fun correlate_alerts :: "system_time \<Rightarrow> alert_record list \<Rightarrow> packet_pipeline \<Rightarrow> packet_pipeline option" where
  "correlate_alerts timestamp [] pl = Some pl"
| "correlate_alerts timestamp (r # rs) pl =
     Option.bind (correlate Correlation.Network Alert (Some (ar_sid r)) (ar_severity r) (ar_signature r) timestamp pl) (correlate_alerts timestamp rs)"

definition emit_alerts :: "nat \<Rightarrow> net_tuple \<Rightarrow> system_time \<Rightarrow> alert_record list \<Rightarrow> packet_pipeline \<Rightarrow> packet_pipeline option" where
  "emit_alerts flow_id tuple timestamp records pl = correlate_alerts timestamp records (report_alerts flow_id tuple timestamp records pl)"

section \<open>Packets\<close>

definition pipeline_inspect_packet :: "nat \<Rightarrow> net_tuple \<Rightarrow> bool \<Rightarrow> bytes \<Rightarrow> system_time \<Rightarrow> packet_pipeline \<Rightarrow> packet_pipeline option" where
  "pipeline_inspect_packet flow_id tuple to_server payload timestamp pl = (case pl_engine pl of
       None \<Rightarrow> Some pl
     | Some e \<Rightarrow> do {
         (e, alerts) \<leftarrow> inspect_packet e flow_id tuple to_server payload timestamp;
         emit_alerts flow_id tuple timestamp alerts (pl\<lparr>pl_engine := Some e\<rparr>) })"

definition dump_stream :: "nat \<Rightarrow> bool \<Rightarrow> bytes \<Rightarrow> packet_pipeline \<Rightarrow> packet_pipeline" where
  "dump_stream flow_id to_server bs pl =
     (if po_dump_streams (pl_options pl) \<and> bs \<noteq> [] then pl\<lparr>pl_dumps := pl_dumps pl @ [(flow_id, to_server, bs)]\<rparr> else pl)"

definition consume_direction :: "nat \<Rightarrow> net_tuple \<Rightarrow> bool \<Rightarrow> bytes \<Rightarrow> system_time \<Rightarrow> packet_pipeline \<Rightarrow> packet_pipeline option" where
  "consume_direction flow_id oriented is_to_server bs timestamp pl =
     (if bs = [] then Some pl
      else let tuple = (if is_to_server then oriented else flip_tuple oriented) in
        case pl_engine pl of
          None \<Rightarrow> Some pl
        | Some e \<Rightarrow> do {
            (e, alerts) \<leftarrow> inspect_stream e flow_id tuple is_to_server bs timestamp;
            emit_alerts flow_id tuple timestamp alerts (pl\<lparr>pl_engine := Some e\<rparr>) })"

definition consume_ready :: "nat \<Rightarrow> net_tuple \<Rightarrow> system_time \<Rightarrow> stream_ready \<Rightarrow> packet_pipeline \<Rightarrow> packet_pipeline option" where
  "consume_ready flow_id oriented timestamp ready pl =
     (if ready_is_empty ready then Some pl
      else do {
        let pl = pl\<lparr>pl_stream_bytes_delivered := pl_stream_bytes_delivered pl + ready_len ready\<rparr>;
        let pl = dump_stream flow_id False (ready_to_client ready) (dump_stream flow_id True (ready_to_server ready) pl);
        pl \<leftarrow> consume_direction flow_id oriented True (ready_to_server ready) timestamp pl;
        consume_direction flow_id oriented False (ready_to_client ready) timestamp pl })"

definition pipeline_observe :: "packet_summary \<Rightarrow> packet_pipeline \<Rightarrow> (packet_pipeline \<times> nat) option" where
  "pipeline_observe p pl = do {
     (flows, ready, observed) \<leftarrow> observe (pl_flows pl) p (for_destination (pl_policy pl)) default_ready;
     let pl = pl\<lparr>pl_flows := flows\<rparr>;
     let flow_id = unat (ob_flow_id observed);
     let tuple = summary_tuple p;
     let oriented = (if ob_to_server observed then tuple else flip_tuple tuple);
     pl \<leftarrow> (if pk_tcp p = None \<and> pk_payload p \<noteq> []
       then pipeline_inspect_packet flow_id tuple (ob_to_server observed) (pk_payload p) (pk_timestamp p) pl else Some pl);
     pl \<leftarrow> consume_ready flow_id oriented (pk_timestamp p) ready pl;
     Some (pl, flow_id) }"

definition fragment_of :: "network \<Rightarrow> bytes \<Rightarrow> fragment_view" where
  "fragment_of n payload =
     (let (identification, offset, mf) = (case n of
          Ipv4 ip \<Rightarrow> (ucast (v4_identification ip), v4_fragment_offset ip, v4_more_fragments ip)
        | Ipv6 ip \<Rightarrow> (v6_identification ip, v6_fragment_offset ip, v6_more_fragments ip))
      in \<lparr>fv_source = network_source n, fv_destination = network_destination n, fv_identification = identification,
           fv_protocol = network_protocol n, fv_offset = offset, fv_more_fragments = mf, fv_payload = payload\<rparr>)"

definition defragment :: "network \<Rightarrow> decoded \<Rightarrow> system_time \<Rightarrow> packet_pipeline \<Rightarrow> (packet_pipeline \<times> reassembled option) option" where
  "defragment n d timestamp pl = do {
     let policy = for_destination (pl_policy pl) (network_destination n);
     (df, r) \<leftarrow> defrag_push (pl_defrag pl) (fragment_of n (network_payload_bytes d)) timestamp policy;
     Some (pl\<lparr>pl_defrag := df\<rparr>, r) }"

definition port_of :: "(transport \<Rightarrow> 16 word option) \<Rightarrow> transport option \<Rightarrow> 16 word" where
  "port_of f t = unwrap_or (Option.bind t f) 0"

definition on_reassembled :: "ether_parsers \<Rightarrow> reassembled \<Rightarrow> system_time \<Rightarrow> packet_pipeline \<Rightarrow> packet_pipeline option" where
  "on_reassembled P r timestamp pl =
     (let d = decode_transport_bytes P (ra_data r) (ra_protocol r) in
      map_option fst (pipeline_observe \<lparr>pk_protocol = ra_protocol r,
        pk_source = (ra_source r, port_of transport_source_port (dc_transport d)),
        pk_destination = (ra_destination r, port_of transport_destination_port (dc_transport d)),
        pk_timestamp = timestamp, pk_frame_len = length (ra_data r), pk_payload = payload_bytes d,
        pk_tcp = tcp_segment_of (dc_transport d) (payload_bytes d)\<rparr> pl))"

definition pipeline_track :: "ether_parsers \<Rightarrow> decoded \<Rightarrow> system_time \<Rightarrow> packet_pipeline \<Rightarrow> (packet_pipeline \<times> nat option) option" where
  "pipeline_track P d timestamp pl = (case dc_network d of
       None \<Rightarrow> Some (pl, None)
     | Some n \<Rightarrow>
         if network_is_fragment n
         then do {
           (pl, flow_id) \<leftarrow> pipeline_observe \<lparr>pk_protocol = network_protocol n, pk_source = (network_source n, 0),
             pk_destination = (network_destination n, 0), pk_timestamp = timestamp, pk_frame_len = length (dc_frame d),
             pk_payload = payload_bytes d, pk_tcp = None\<rparr> pl;
           (pl, r) \<leftarrow> defragment n d timestamp pl;
           pl \<leftarrow> (case r of Some r \<Rightarrow> on_reassembled P r timestamp pl | None \<Rightarrow> Some pl);
           Some (pl, Some flow_id) }
         else do {
           (pl, flow_id) \<leftarrow> pipeline_observe \<lparr>pk_protocol = network_protocol n,
             pk_source = (network_source n, port_of transport_source_port (dc_transport d)),
             pk_destination = (network_destination n, port_of transport_destination_port (dc_transport d)),
             pk_timestamp = timestamp, pk_frame_len = length (dc_frame d), pk_payload = payload_bytes d,
             pk_tcp = tcp_segment_of (dc_transport d) (payload_bytes d)\<rparr> pl;
           Some (pl, Some flow_id) })"

record raw_packet =
  rp_data :: bytes
  rp_original_len :: nat
  rp_timestamp :: system_time
  rp_interface :: string

definition emit_anomaly :: "raw_packet \<Rightarrow> decoded \<Rightarrow> nat option \<Rightarrow> packet_pipeline \<Rightarrow> packet_pipeline" where
  "emit_anomaly packet d flow_id pl =
     (let body = \<lparr>ane_anomalies = map (\<lambda>a. \<lparr>rec_layer = layer_as_str (an_layer a), rec_kind = kind_as_str (an_kind a)\<rparr>) (as_found (dc_anomalies d)),
            ane_interface = rp_interface packet, ane_captured_len = min (length (rp_data packet)) u32_max,
            ane_packet_len = min (rp_original_len packet) u32_max, ane_truncated = as_overflowed (dc_anomalies d)\<rparr>;
          e = build_at (rp_timestamp packet) (PAnomaly body);
          e = (case flow_id of Some i \<Rightarrow> with_flow_id i e | None \<Rightarrow> e);
          e = (case five_tuple d of Some t \<Rightarrow> with_net t e | None \<Rightarrow> e)
      in emit_event e pl)"

fun end_reason_event :: "end_reason \<Rightarrow> flow_end_reason" where
  "end_reason_event FlowTable.Closed = FlowClosed"
| "end_reason_event TimedOut = FlowTimedOut"
| "end_reason_event Evicted = FlowEvicted"
| "end_reason_event SensorStopped = FlowSensorStopped"

definition flow_event_of :: "ended_flow \<Rightarrow> event" where
  "flow_event_of entry =
     (let f = ef_flow entry; (initiator, resp) = oriented_tuple f;
          body = \<lparr>fe_reason = end_reason_event (ef_reason entry), fe_start = fl_start f, fe_end = fl_last_seen f,
            fe_duration_ms = min (flow_duration f div 1000000) u64_max,
            fe_packets_to_server = dir_packets (fl_to_server f), fe_bytes_to_server = dir_bytes (fl_to_server f),
            fe_packets_to_client = dir_packets (fl_to_client f), fe_bytes_to_client = dir_bytes (fl_to_client f),
            fe_tcp_flags = tcp_flags_string f\<rparr>
      in with_net \<lparr>src_ip = fst initiator, src_port = port_or_none (snd initiator), dest_ip = fst resp,
           dest_port = port_or_none (snd resp), proto = protocol_from_number (key_protocol (fl_key f))\<rparr>
           (with_flow_id (unat (fl_id f)) (build_at (fl_last_seen f) (PFlow body))))"

definition emit_flow :: "ended_flow \<Rightarrow> packet_pipeline \<Rightarrow> packet_pipeline" where
  "emit_flow entry pl = emit_event (flow_event_of entry) pl"

text \<open>The tails of the ended flows: counted and dumped; the engine forgets the flows.\<close>

definition count_tail :: "ended_flow \<Rightarrow> packet_pipeline \<Rightarrow> packet_pipeline" where
  "count_tail entry pl =
     (let ready = ef_final_ready entry; flow_id = unat (fl_id (ef_flow entry)) in
      if ready_is_empty ready then pl
      else dump_stream flow_id False (ready_to_client ready) (dump_stream flow_id True (ready_to_server ready)
        (pl\<lparr>pl_stream_bytes_delivered := pl_stream_bytes_delivered pl + ready_len ready\<rparr>)))"

definition take_final_deliveries :: "packet_pipeline \<Rightarrow> packet_pipeline" where
  "take_final_deliveries pl =
     (let ended = ft_ended (pl_flows pl);
          pl = fold count_tail ended pl;
          pl = pl\<lparr>pl_flows := (pl_flows pl)\<lparr>ft_ended := map (\<lambda>entry. entry\<lparr>ef_final_ready := default_ready\<rparr>) ended\<rparr>\<rparr>
      in pl\<lparr>pl_engine := map_option (\<lambda>e. foldl on_flow_end e (map (\<lambda>entry. unat (fl_id (ef_flow entry))) ended)) (pl_engine pl)\<rparr>)"

definition drain_ended_flows :: "packet_pipeline \<Rightarrow> packet_pipeline" where
  "drain_ended_flows pl =
     (if ft_ended (pl_flows pl) = [] then pl
      else
        let pl = take_final_deliveries pl; ended = ft_ended (pl_flows pl);
            pl = pl\<lparr>pl_flows := (pl_flows pl)\<lparr>ft_ended := []\<rparr>\<rparr>
        in if po_emit_flow_events (pl_options pl) then fold emit_flow ended pl else pl)"

definition on_packet :: "ether_parsers \<Rightarrow> raw_packet \<Rightarrow> packet_pipeline \<Rightarrow> packet_pipeline option" where
  "on_packet P packet pl = do {
     let d = decode P (rp_data packet) (rp_original_len packet);
     let pl = pl\<lparr>pl_decode := record_decoded (pl_decode pl) d\<rparr>;
     (pl, flow_id) \<leftarrow> pipeline_track P d (rp_timestamp packet) pl;
     let pl = (if po_emit_anomaly_events (pl_options pl) \<and> as_found (dc_anomalies d) \<noteq> [] then emit_anomaly packet d flow_id pl else pl);
     Some (drain_ended_flows pl) }"

definition flush_pipeline :: "packet_pipeline \<Rightarrow> packet_pipeline option" where
  "flush_pipeline pl = do {
     flows \<leftarrow> flow_flush (pl_flows pl);
     Some (drain_ended_flows (pl\<lparr>pl_flows := flows\<rparr>)) }"

section \<open>Host records\<close>

text \<open>A batch of the host sensors, every record with the wall-clock reading taken when it is handled.\<close>

record host_batch =
  hb_fim :: "(fim_event \<times> system_time) list"
  hb_auth :: "(auth_event \<times> system_time) list"
  hb_process :: "(process_event \<times> system_time) list"
  hb_overflows :: "system_time list"

definition overflow_event :: "system_time \<Rightarrow> event" where
  "overflow_event timestamp = build_at timestamp (PAnomaly \<lparr>ane_anomalies = [\<lparr>rec_layer = ''host'', rec_kind = ''fim_queue_overflow''\<rparr>],
     ane_interface = [], ane_captured_len = 0, ane_packet_len = 0, ane_truncated = False\<rparr>)"

definition report_host_alerts :: "system_time \<Rightarrow> alert_record list \<Rightarrow> packet_pipeline \<Rightarrow> packet_pipeline" where
  "report_host_alerts timestamp records pl =
     fold (\<lambda>r. emit_event (build_at timestamp (PAlert (alert_body Alerted FromHost r)))) records
       (pl\<lparr>pl_host_alerts := pl_host_alerts pl + length records\<rparr>)"

definition inspect_and_emit_host :: "host_observation \<Rightarrow> event_kind \<Rightarrow> string \<Rightarrow> system_time \<Rightarrow> packet_pipeline \<Rightarrow> packet_pipeline option" where
  "inspect_and_emit_host obs event_type summary timestamp pl = do {
     (pl, records) \<leftarrow> (case pl_engine pl of
         None \<Rightarrow> Some (pl, [])
       | Some e \<Rightarrow> map_option (\<lambda>(e, alerts). (pl\<lparr>pl_engine := Some e\<rparr>, alerts)) (inspect_host e obs timestamp));
     let pl = report_host_alerts timestamp records pl;
     let (sid, sev, summary) = (case records of r # _ \<Rightarrow> (Some (ar_sid r), ar_severity r, ar_signature r) | [] \<Rightarrow> (None, 3, summary));
     correlate Host event_type sid sev summary timestamp pl }"

definition emit_fim :: "fim_event \<times> system_time \<Rightarrow> packet_pipeline \<Rightarrow> packet_pipeline option" where
  "emit_fim x pl = (let (e, timestamp) = x in map_option (emit_event (build_at timestamp (PFim e)))
     (inspect_and_emit_host (ObsFim e) Fim (file_change_as_str (fim_change e) @ '' '' @ fim_path e) timestamp pl))"

definition emit_auth :: "auth_event \<times> system_time \<Rightarrow> packet_pipeline \<Rightarrow> packet_pipeline option" where
  "emit_auth x pl = (let (e, timestamp) = x in map_option (emit_event (build_at timestamp (PAuth e)))
     (inspect_and_emit_host (ObsAuth e) Auth
       (auth_outcome_as_str (au_outcome e) @ '' authentication for '' @ unwrap_or (au_user e) ''an unnamed account'') timestamp pl))"

definition emit_process :: "process_event \<times> system_time \<Rightarrow> packet_pipeline \<Rightarrow> packet_pipeline option" where
  "emit_process x pl = (let (e, timestamp) = x in map_option (emit_event (build_at timestamp (PProcess e)))
     (inspect_and_emit_host (ObsProcess e) Process
       (process_change_as_str (pr_change e) @ '' '' @ pr_name e @ '' (pid '' @ show_nat (pr_pid e) @ '')'') timestamp pl))"

fun emit_all :: "('a \<Rightarrow> packet_pipeline \<Rightarrow> packet_pipeline option) \<Rightarrow> 'a list \<Rightarrow> packet_pipeline \<Rightarrow> packet_pipeline option" where
  "emit_all f [] pl = Some pl"
| "emit_all f (x # xs) pl = Option.bind (f x pl) (emit_all f xs)"

definition emit_host_batch :: "host_batch \<Rightarrow> packet_pipeline \<Rightarrow> packet_pipeline option" where
  "emit_host_batch batch pl = do {
     let pl = fold (\<lambda>t. emit_event (overflow_event t)) (hb_overflows batch) pl;
     pl \<leftarrow> emit_all emit_fim (hb_fim batch) pl;
     pl \<leftarrow> emit_all emit_auth (hb_auth batch) pl;
     emit_all emit_process (hb_process batch) pl }"

section \<open>What every step keeps\<close>

text \<open>
  The interface of the pipeline for its properties: a predicate on the state that looks only at the events and the
  verdict store, survives an event that claims nothing, and survives an alert that claims what enforcing it returned,
  is kept by everything a packet causes up to its anomaly event.
\<close>

definition claims_nothing :: "event \<Rightarrow> bool" where
  "claims_nothing e = (case ev_payload e of PAlert a \<Rightarrow> ae_action a = Alerted | _ \<Rightarrow> True)"

definition is_anomaly :: "event \<Rightarrow> bool" where
  "is_anomaly e = (case ev_payload e of PAnomaly _ \<Rightarrow> True | _ \<Rightarrow> False)"

definition network_alert :: "nat \<Rightarrow> net_tuple \<Rightarrow> system_time \<Rightarrow> alert_action \<Rightarrow> alert_record \<Rightarrow> event" where
  "network_alert flow_id tuple timestamp action r =
     with_net tuple (with_flow_id flow_id (build_at timestamp (PAlert (alert_body action FromNetwork r))))"

locale step_invariant =
  fixes inv :: "packet_pipeline \<Rightarrow> bool"
  assumes quiet: "inv pl \<Longrightarrow> pl_events pl' = pl_events pl \<Longrightarrow> pl_prevention pl' = pl_prevention pl \<Longrightarrow> inv pl'"
    and plain: "inv pl \<Longrightarrow> claims_nothing e \<Longrightarrow> \<not> is_anomaly e \<Longrightarrow> inv (emit_event e pl)"
    and enforced: "inv pl \<Longrightarrow> enforce b tuple pl = (pl', action) \<Longrightarrow> inv (emit_event (network_alert f tuple t action r) pl')"
begin

lemma set_engine: "inv (pl\<lparr>pl_engine := e\<rparr>)" if "inv pl"
  using that by (rule quiet) simp_all

lemma report_kept: "inv pl \<Longrightarrow> inv (report_alerts f tuple t rs pl)"
proof (induction rs arbitrary: pl)
  case (Cons r rs)
  then show ?case
    using enforced [of pl "ar_blocks r" tuple _ _ f t r] by (auto simp: network_alert_def split: prod.split)
qed simp

lemma correlate_kept:
  assumes "inv pl" "correlate domain kind sid sev summary t pl = Some pl'"
  shows "inv pl'"
proof (cases "pl_correlator pl")
  case (Some c)
  have upd: "inv (pl\<lparr>pl_correlator := c'\<rparr>)" for c' using assms(1) by (rule quiet) simp_all
  from assms(2) Some show ?thesis
    by (auto simp: correlate_def Let_def build_at_def claims_nothing_def is_anomaly_def split: bind_splits option.splits
        intro!: upd plain)
qed (use assms in \<open>simp add: correlate_def\<close>)

lemma correlate_alerts_kept: "inv pl \<Longrightarrow> correlate_alerts t rs pl = Some pl' \<Longrightarrow> inv pl'"
  by (induction rs arbitrary: pl) (auto split: bind_splits dest: correlate_kept)

lemma emit_alerts_kept: "inv pl \<Longrightarrow> emit_alerts f tuple t rs pl = Some pl' \<Longrightarrow> inv pl'"
  unfolding emit_alerts_def by (rule correlate_alerts_kept [OF report_kept])

lemma inspect_kept: "inv pl \<Longrightarrow> pipeline_inspect_packet f tuple ts bs t pl = Some pl' \<Longrightarrow> inv pl'"
  by (auto simp: pipeline_inspect_packet_def split: option.splits bind_splits intro: emit_alerts_kept [OF set_engine])

lemma direction_kept: "inv pl \<Longrightarrow> consume_direction f tuple ts bs t pl = Some pl' \<Longrightarrow> inv pl'"
  by (auto simp: consume_direction_def Let_def split: if_splits option.splits bind_splits intro: emit_alerts_kept [OF set_engine])

lemma dump_kept: "inv pl \<Longrightarrow> inv (dump_stream f ts bs pl)"
  by (auto simp: dump_stream_def elim: quiet)

lemma consume_kept: "inv pl \<Longrightarrow> consume_ready f tuple t ready pl = Some pl' \<Longrightarrow> inv pl'"
proof -
  assume "inv pl" "consume_ready f tuple t ready pl = Some pl'"
  moreover from this(1) have "inv (pl\<lparr>pl_stream_bytes_delivered := n\<rparr>)" for n by (rule quiet) simp_all
  ultimately show ?thesis
    by (auto simp: consume_ready_def Let_def split: if_splits bind_splits) (metis direction_kept dump_kept)
qed

lemma observe_kept: "inv pl \<Longrightarrow> pipeline_observe p pl = Some (pl', i) \<Longrightarrow> inv pl'"
proof -
  assume inv: "inv pl" and r: "pipeline_observe p pl = Some (pl', i)"
  from inv have "inv (pl\<lparr>pl_flows := t\<rparr>)" for t by (rule quiet) simp_all
  with r show ?thesis
    by (auto simp: pipeline_observe_def Let_def split: if_splits bind_splits) (metis consume_kept inspect_kept)+
qed

lemma defragment_kept: "inv pl \<Longrightarrow> defragment n d t pl = Some (pl', r) \<Longrightarrow> inv pl'"
  by (auto simp: defragment_def Let_def split: bind_splits elim: quiet)

lemma reassembled_kept: "inv pl \<Longrightarrow> on_reassembled P r t pl = Some pl' \<Longrightarrow> inv pl'"
  by (auto simp: on_reassembled_def Let_def intro: observe_kept)

lemma track_kept:
  assumes "inv pl" "pipeline_track P d t pl = Some (pl', i)"
  shows "inv pl'"
proof (cases "dc_network d")
  case None
  with assms show ?thesis by (simp add: pipeline_track_def)
next
  case (Some n)
  with assms show ?thesis
    by (fastforce simp: pipeline_track_def split: if_splits bind_splits option.splits dest: observe_kept defragment_kept reassembled_kept)
qed

lemma emit_flow_kept: "inv pl \<Longrightarrow> inv (emit_flow entry pl)"
  by (auto simp: emit_flow_def flow_event_of_def Let_def build_at_def with_net_def with_flow_id_def claims_nothing_def is_anomaly_def
      split: prod.split intro: plain)

lemma tail_kept: "inv pl \<Longrightarrow> inv (count_tail entry pl)"
proof -
  assume "inv pl"
  then have "inv (pl\<lparr>pl_stream_bytes_delivered := n\<rparr>)" for n by (rule quiet) simp_all
  with \<open>inv pl\<close> show ?thesis by (auto simp: count_tail_def Let_def intro: dump_kept)
qed

lemma fold_kept: "(\<And>x pl. inv pl \<Longrightarrow> inv (f x pl)) \<Longrightarrow> inv pl \<Longrightarrow> inv (fold f xs pl)"
  by (induction xs arbitrary: pl) auto

lemma finals_kept: "inv pl \<Longrightarrow> inv (take_final_deliveries pl)"
  unfolding take_final_deliveries_def Let_def
  by (rule quiet [OF fold_kept [OF tail_kept]]) simp_all

lemma drain_kept: "inv pl \<Longrightarrow> inv (drain_ended_flows pl)"
proof -
  assume "inv pl"
  then have "inv ((take_final_deliveries pl)\<lparr>pl_flows := t\<rparr>)" for t by (rule quiet [OF finals_kept]) simp_all
  with \<open>inv pl\<close> show ?thesis by (auto simp: drain_ended_flows_def Let_def intro: fold_kept emit_flow_kept)
qed

lemma flush_kept: "inv pl \<Longrightarrow> flush_pipeline pl = Some pl' \<Longrightarrow> inv pl'"
  by (auto simp: flush_pipeline_def split: bind_splits intro!: drain_kept elim: quiet)

end

text \<open>A predicate that survives anomaly events too is kept by whole packets and by host batches.\<close>

locale run_invariant = step_invariant +
  assumes anomalous: "inv pl \<Longrightarrow> is_anomaly e \<Longrightarrow> inv (emit_event e pl)"
begin

lemma packet_kept: "inv pl \<Longrightarrow> on_packet P packet pl = Some pl' \<Longrightarrow> inv pl'"
proof -
  assume inv: "inv pl" and r: "on_packet P packet pl = Some pl'"
  have an: "inv pl \<Longrightarrow> inv (emit_anomaly packet d i pl)" for d i pl
    by (auto simp: emit_anomaly_def Let_def build_at_def with_flow_id_def with_net_def is_anomaly_def split: option.split
        intro!: anomalous)
  from inv have "inv (pl\<lparr>pl_decode := c\<rparr>)" for c by (rule quiet) simp_all
  with r show ?thesis
    by (auto simp: on_packet_def Let_def split: if_splits bind_splits intro!: drain_kept) (metis an track_kept)+
qed

lemma event_kept: "inv pl \<Longrightarrow> claims_nothing e \<Longrightarrow> inv (emit_event e pl)"
  using plain anomalous by blast

lemma host_alerts_kept: "inv pl \<Longrightarrow> inv (report_host_alerts t rs pl)"
proof -
  assume "inv pl"
  then have "inv (pl\<lparr>pl_host_alerts := n\<rparr>)" for n by (rule quiet) simp_all
  then show ?thesis unfolding report_host_alerts_def
    by (intro fold_kept) (auto simp: build_at_def alert_body_def claims_nothing_def intro: event_kept)
qed

lemma host_inspect_kept:
  assumes "inv pl" "inspect_and_emit_host obs kind summary t pl = Some pl'"
  shows "inv pl'"
proof -
  have "\<exists>e records sid sev sm. correlate Host kind sid sev sm t (report_host_alerts t records (pl\<lparr>pl_engine := e\<rparr>)) = Some pl'"
  proof (cases "pl_engine pl")
    case None
    then have "pl\<lparr>pl_engine := None\<rparr> = pl" by simp
    moreover have "correlate Host kind None 3 summary t (report_host_alerts t [] pl) = Some pl'"
      using None assms(2) by (simp add: inspect_and_emit_host_def)
    ultimately show ?thesis by metis
  qed (use assms(2) in \<open>auto simp: inspect_and_emit_host_def Let_def split: bind_splits list.splits; blast\<close>)
  then show ?thesis using correlate_kept host_alerts_kept set_engine assms(1) by blast
qed

lemma emit_all_kept: "(\<And>x pl pl'. inv pl \<Longrightarrow> f x pl = Some pl' \<Longrightarrow> inv pl') \<Longrightarrow> inv pl \<Longrightarrow> emit_all f xs pl = Some pl' \<Longrightarrow> inv pl'"
  by (induction xs arbitrary: pl) (auto split: bind_splits)

lemma host_record_kept:
  "inv pl \<Longrightarrow> emit_fim x pl = Some pl' \<Longrightarrow> inv pl'"
  "inv pl \<Longrightarrow> emit_auth y pl = Some pl' \<Longrightarrow> inv pl'"
  "inv pl \<Longrightarrow> emit_process z pl = Some pl' \<Longrightarrow> inv pl'"
  by (auto simp: emit_fim_def emit_auth_def emit_process_def build_at_def claims_nothing_def split: prod.splits
      intro!: event_kept dest: host_inspect_kept)

lemma batch_kept: "inv pl \<Longrightarrow> emit_host_batch batch pl = Some pl' \<Longrightarrow> inv pl'"
proof -
  assume inv: "inv pl" and r: "emit_host_batch batch pl = Some pl'"
  from inv have "inv (fold (\<lambda>t. emit_event (overflow_event t)) ts pl)" for ts
    by (intro fold_kept) (auto simp: overflow_event_def build_at_def claims_nothing_def intro: event_kept)
  with r show ?thesis
    by (auto simp: emit_host_batch_def Let_def split: bind_splits) (metis emit_all_kept host_record_kept)
qed

end

text \<open>Runs of the pipeline.\<close>

datatype pipeline_op = PacketIn raw_packet | BatchIn host_batch | FlushAll

fun pipeline_step :: "ether_parsers \<Rightarrow> packet_pipeline option \<Rightarrow> pipeline_op \<Rightarrow> packet_pipeline option" where
  "pipeline_step P None op = None"
| "pipeline_step P (Some pl) (PacketIn packet) = on_packet P packet pl"
| "pipeline_step P (Some pl) (BatchIn batch) = emit_host_batch batch pl"
| "pipeline_step P (Some pl) FlushAll = flush_pipeline pl"

context run_invariant
begin

lemma step_kept: "inv pl \<Longrightarrow> pipeline_step P (Some pl) op = Some pl' \<Longrightarrow> inv pl'"
  by (cases op) (auto dest: packet_kept batch_kept flush_kept)

lemma run_kept: "inv pl \<Longrightarrow> foldl (pipeline_step P) (Some pl) ops = Some pl' \<Longrightarrow> inv pl'"
proof (induction ops arbitrary: pl)
  case (Cons op ops)
  have "foldl (pipeline_step P) None xs = None" for xs by (induction xs) auto
  with Cons.prems obtain pl1 where "pipeline_step P (Some pl) op = Some pl1" "foldl (pipeline_step P) (Some pl1) ops = Some pl'"
    by (cases "pipeline_step P (Some pl) op") auto
  with Cons step_kept show ?case by blast
qed simp

end

section \<open>Honest alerts\<close>

text \<open>An alert that says blocked names a conversation the store now drops, in both directions.\<close>

definition dropped_by :: "prevention option \<Rightarrow> net_tuple \<Rightarrow> bool" where
  "dropped_by p t \<longleftrightarrow> (\<exists>q. p = Some q \<and> armed q \<and> \<not> protected q t \<and> hm_contains (pv_flows q) (from_tuple t))"

definition honest_event :: "prevention option \<Rightarrow> event \<Rightarrow> bool" where
  "honest_event p e \<longleftrightarrow> claims_nothing e \<or> (\<exists>t. ev_net e = Some t \<and> dropped_by p t)"

definition honest :: "packet_pipeline \<Rightarrow> bool" where
  "honest pl \<longleftrightarrow> list_all (honest_event (pl_prevention pl)) (pl_events pl)"

lemma block_keeps_dropped:
  assumes "block p t now = (p', out)" "dropped_by (Some p) u"
  shows "dropped_by (Some p') u"
  using block_state [OF assms(1)] assms(2)
  by (auto simp: dropped_by_def armed_def protected_def is_allow_listed_def hm_contains_def update_conv)

lemma enforce_result:
  assumes "enforce b tuple pl = (pl', action)"
  shows "pl_events pl' = pl_events pl" "dropped_by (pl_prevention pl) u \<Longrightarrow> dropped_by (pl_prevention pl') u"
    "action = ActionBlocked \<Longrightarrow> dropped_by (pl_prevention pl') tuple"
proof -
  show "pl_events pl' = pl_events pl"
    using assms by (auto simp: enforce_def Let_def split: if_splits option.splits prod.splits block_outcome.splits)
  show "dropped_by (pl_prevention pl') u" if "dropped_by (pl_prevention pl) u"
    using assms that block_keeps_dropped
    by (auto simp: enforce_def Let_def split: if_splits option.splits prod.splits block_outcome.splits)
  show "dropped_by (pl_prevention pl') tuple" if "action = ActionBlocked"
  proof -
    from assms that obtain p p' src where b: "block p tuple (pl_clock pl (pl_ticks pl)) = (p', Blocked src)" "pl_prevention pl' = Some p'"
      by (auto simp: enforce_def Let_def split: if_splits option.splits prod.splits block_outcome.splits)
    then have "src = Some (src_ip tuple)"
      by (auto simp: block_def Let_def split: if_splits option.splits)
    with block_state [OF b(1)] b(2) show ?thesis
      by (auto simp: dropped_by_def armed_def protected_def is_allow_listed_def hm_contains_def update_conv)
  qed
qed

interpretation honesty: run_invariant honest
proof unfold_locales
  show "honest pl'" if "honest pl" "pl_events pl' = pl_events pl" "pl_prevention pl' = pl_prevention pl" for pl pl'
    using that by (simp add: honest_def)
  show "honest (emit_event e pl)" if "honest pl" "claims_nothing e" for pl e
    using that by (simp add: honest_def emit_event_def honest_event_def)
  show "honest (emit_event e pl)" if "honest pl" "is_anomaly e" for pl e
    using that by (auto simp: honest_def emit_event_def honest_event_def claims_nothing_def is_anomaly_def split: event_payload.splits)
  show "honest (emit_event (network_alert f tuple t action r) pl')" if "honest pl" "enforce b tuple pl = (pl', action)"
    for pl b tuple pl' action f t r
    using that(1) enforce_result [OF that(2)]
    by (cases action) (auto simp: honest_def emit_event_def honest_event_def list_all_iff network_alert_def with_net_def with_flow_id_def
      build_at_def alert_body_def claims_nothing_def)
qed

interpretation anomalies: step_invariant "\<lambda>pl. length (filter is_anomaly (pl_events pl)) = n" for n
proof unfold_locales
  show "length (filter is_anomaly (pl_events (emit_event (network_alert f tuple t action r) pl'))) = n"
    if "length (filter is_anomaly (pl_events pl)) = n" "enforce b tuple pl = (pl', action)" for pl b tuple pl' action f t r
    using that(1) enforce_result(1) [OF that(2)]
    by (simp add: emit_event_def network_alert_def with_net_def with_flow_id_def build_at_def is_anomaly_def)
qed (simp_all add: emit_event_def)


section \<open>Tails\<close>

lemma count_tail_frame: "pl_events (count_tail entry pl) = pl_events pl \<and> pl_engine (count_tail entry pl) = pl_engine pl \<and>
    pl_flows (count_tail entry pl) = pl_flows pl \<and> pl_options (count_tail entry pl) = pl_options pl \<and>
    pl_prevention (count_tail entry pl) = pl_prevention pl"
  by (simp add: count_tail_def dump_stream_def Let_def)

lemma fold_tail_frame: "pl_events (fold count_tail xs pl) = pl_events pl \<and> pl_engine (fold count_tail xs pl) = pl_engine pl \<and>
    pl_flows (fold count_tail xs pl) = pl_flows pl \<and> pl_options (fold count_tail xs pl) = pl_options pl \<and>
    pl_prevention (fold count_tail xs pl) = pl_prevention pl"
  by (induction xs arbitrary: pl) (auto simp: count_tail_frame)

lemma fold_flow_frame: "fold emit_flow xs pl = pl\<lparr>pl_events := pl_events pl @ map flow_event_of xs\<rparr>"
  by (induction xs arbitrary: pl) (simp_all add: emit_flow_def emit_event_def)

text \<open>What the tail bytes of ended flows are makes no difference to the engine or to the events.\<close>

definition with_tails :: "(ended_flow \<Rightarrow> stream_ready) \<Rightarrow> packet_pipeline \<Rightarrow> packet_pipeline" where
  "with_tails f pl = pl\<lparr>pl_flows := (pl_flows pl)\<lparr>ft_ended := map (\<lambda>entry. entry\<lparr>ef_final_ready := f entry\<rparr>) (ft_ended (pl_flows pl))\<rparr>\<rparr>"

lemma tails_not_inspected:
  "pl_engine (drain_ended_flows (with_tails f pl)) = pl_engine (drain_ended_flows pl) \<and>
   pl_events (drain_ended_flows (with_tails f pl)) = pl_events (drain_ended_flows pl)"
proof (cases "ft_ended (pl_flows pl) = []")
  case True
  then show ?thesis by (simp add: drain_ended_flows_def with_tails_def)
next
  case False
  let ?pl = "with_tails f pl"
  have o: "map (\<lambda>entry. entry\<lparr>ef_final_ready := default_ready\<rparr>) (ft_ended (pl_flows ?pl)) =
      map (\<lambda>entry. entry\<lparr>ef_final_ready := default_ready\<rparr>) (ft_ended (pl_flows pl))"
    "map (\<lambda>entry. unat (fl_id (ef_flow entry))) (ft_ended (pl_flows ?pl)) = map (\<lambda>entry. unat (fl_id (ef_flow entry))) (ft_ended (pl_flows pl))"
    "pl_options ?pl = pl_options pl" "pl_engine ?pl = pl_engine pl" "pl_events ?pl = pl_events pl" "ft_ended (pl_flows ?pl) \<noteq> []"
    using False by (simp_all add: with_tails_def comp_def)
  show ?thesis
    using False o by (simp add: drain_ended_flows_def Let_def take_final_deliveries_def fold_tail_frame fold_flow_frame)
qed

section \<open>Properties\<close>

lemma dropped_by_decide:
  assumes "dropped_by p t"
  shows "\<exists>q. p = Some q \<and> (\<forall>now. snd (decide q t now) = Drop FlowVerdict \<and> snd (decide q (reverse_tuple t) now) = Drop FlowVerdict)"
proof -
  have "protected q (reverse_tuple t) = protected q t" for q by (auto simp: protected_def reverse_tuple_def)
  with assms show ?thesis by (auto simp: dropped_by_def decide_def protected_def Let_def from_tuple_reverse)
qed


text \<open>A packet produces at most one anomaly event, whatever is wrong with it, however many flows it ends and however many rules it matches.\<close>

theorem one_anomaly_per_packet:
  assumes "on_packet P packet pl = Some pl'"
  shows "length (filter is_anomaly (pl_events pl')) \<le> length (filter is_anomaly (pl_events pl)) + 1"
proof -
  let ?n = "length (filter is_anomaly (pl_events pl))"
  let ?d = "decode P (rp_data packet) (rp_original_len packet)"
  from assms obtain pl1 i where t: "pipeline_track P ?d (rp_timestamp packet) (pl\<lparr>pl_decode := record_decoded (pl_decode pl) ?d\<rparr>) = Some (pl1, i)"
    and r: "pl' = drain_ended_flows (if po_emit_anomaly_events (pl_options pl1) \<and> as_found (dc_anomalies ?d) \<noteq> []
      then emit_anomaly packet ?d i pl1 else pl1)"
    by (auto simp: on_packet_def Let_def split: bind_splits)
  have "length (filter is_anomaly (pl_events pl1)) = ?n"
    by (rule anomalies.track_kept [OF _ t]) simp
  then have "length (filter is_anomaly (pl_events (if po_emit_anomaly_events (pl_options pl1) \<and> as_found (dc_anomalies ?d) \<noteq> []
      then emit_anomaly packet ?d i pl1 else pl1))) \<le> ?n + 1"
    by (simp add: emit_anomaly_def Let_def emit_event_def)
  then show ?thesis using anomalies.drain_kept [OF refl] r by metis
qed

text \<open>An example: an armed store with room for one verdict, a rule that blocks, and a packet whose frame is empty.\<close>

definition example_options :: pipeline_options where
  "example_options = \<lparr>po_emit_anomaly_events = True, po_emit_flow_events = True, po_dump_streams = False\<rparr>"

definition example_pipeline :: packet_pipeline where
  "example_pipeline = arm_prevention (prevention_new \<lparr>ps_mode = Prevent, ps_fail_mode = Open, ps_allow_list = [], ps_source_block = 5,
     ps_max_blocked_flows = 1, ps_max_blocked_sources = 1\<rparr>)
     (pipeline_new ''sensor'' 1 1 default_reassembly_config example_options (\<lambda>n. n))"

definition example_tuple :: net_tuple where
  "example_tuple = \<lparr>src_ip = V4 1, src_port = Some 7, dest_ip = V4 2, dest_port = Some 80, proto = Tcp\<rparr>"

definition example_alert :: alert_record where
  "example_alert = \<lparr>ar_sid = 9, ar_rev = 1, ar_signature = ''x'', ar_classtype = None, ar_severity = 1, ar_metadata = Map.empty, ar_blocks = True\<rparr>"


theorem one_anomaly_per_packet_witness:
  "\<exists>pl'. on_packet wire_parsers \<lparr>rp_data = [], rp_original_len = 0, rp_timestamp = 0, rp_interface = ''eth0''\<rparr> example_pipeline = Some pl' \<and>
     length (filter is_anomaly (pl_events pl')) \<le> length (filter is_anomaly (pl_events example_pipeline)) + 1"
proof -
  let ?p = "\<lparr>rp_data = [], rp_original_len = 0, rp_timestamp = 0, rp_interface = ''eth0''\<rparr> :: raw_packet"
  have "dc_network (decode wire_parsers [] 0) = None"
    by (simp add: decode_def decoded_new_def note_anomaly_def Let_def)
  then obtain pl' where "on_packet wire_parsers ?p example_pipeline = Some pl'"
    by (simp add: on_packet_def pipeline_track_def Let_def)
  with one_anomaly_per_packet [OF this] show ?thesis by blast
qed

end
