(* ===== verification/PipelineRuns.thy ===== *)
theory PipelineRuns
  imports Pipeline
begin

text \<open>
  Whole runs of the packet pipeline: which states are sound, that no packet, host record or flush makes a sound pipeline
  panic, and that the flow events account for every flow the table ever created.
\<close>

section \<open>Sound states\<close>

text \<open>An engine all of whose inspections return, now and after any of them.\<close>

coinductive tame :: "engine \<Rightarrow> bool" where
  "(\<And>f tuple to_server payload now. \<exists>e' alerts. inspect_packet e f tuple to_server payload now = Some (e', alerts) \<and> tame e') \<Longrightarrow>
   (\<And>f tuple to_server bs now. \<exists>e' alerts. inspect_stream e f tuple to_server bs now = Some (e', alerts) \<and> tame e') \<Longrightarrow>
   (\<And>obs now. \<exists>e' alerts. inspect_host e obs now = Some (e', alerts) \<and> tame e') \<Longrightarrow>
   (\<And>f. tame (on_flow_end e f)) \<Longrightarrow> tame e"

inductive_cases tameE: "tame e"

definition is_flow_event :: "event \<Rightarrow> bool" where
  "is_flow_event e = (case ev_payload e of PFlow _ \<Rightarrow> True | _ \<Rightarrow> False)"

definition flows_reported :: "packet_pipeline \<Rightarrow> nat" where
  "flows_reported pl = length (filter is_flow_event (pl_events pl))"

text \<open>What the detection side of the pipeline needs in order to return.\<close>

definition detection_ok :: "packet_pipeline \<Rightarrow> bool" where
  "detection_ok pl \<longleftrightarrow> pred_option tame (pl_engine pl) \<and>
     pred_option (\<lambda>c. 1 \<le> cs_max_per_host (co_settings c) \<and> corr_wf (co_settings c) c) (pl_correlator pl)"

text \<open>A detection step leaves the tracking side alone and reports no flow.\<close>

definition detected :: "packet_pipeline \<Rightarrow> packet_pipeline \<Rightarrow> bool" where
  "detected pl pl' \<longleftrightarrow> (detection_ok pl \<longrightarrow> detection_ok pl') \<and> pl_flows pl' = pl_flows pl \<and> pl_defrag pl' = pl_defrag pl \<and>
     pl_decode pl' = pl_decode pl \<and> pl_options pl' = pl_options pl \<and> flows_reported pl' = flows_reported pl"

lemma detected_refl [simp]: "detected pl pl"
  by (simp add: detected_def)

lemma detected_trans [trans]: "detected pl pl' \<Longrightarrow> detected pl' pl'' \<Longrightarrow> detected pl pl''"
  by (simp add: detected_def)

lemma detected_ok: "detected pl pl' \<Longrightarrow> detection_ok pl \<Longrightarrow> detection_ok pl'"
  by (simp add: detected_def)

lemma emit_detected: "\<not> is_flow_event e \<Longrightarrow> detected pl (emit_event e pl)"
  by (simp add: detected_def detection_ok_def emit_event_def flows_reported_def)

lemma quiet_detected:
  "pl_engine pl' = pl_engine pl \<Longrightarrow> pl_correlator pl' = pl_correlator pl \<Longrightarrow> pl_flows pl' = pl_flows pl \<Longrightarrow>
   pl_defrag pl' = pl_defrag pl \<Longrightarrow> pl_decode pl' = pl_decode pl \<Longrightarrow> pl_options pl' = pl_options pl \<Longrightarrow> pl_events pl' = pl_events pl \<Longrightarrow> detected pl pl'"
  by (simp add: detected_def detection_ok_def flows_reported_def)

lemma fold_detected: "(\<And>x pl. detected pl (f x pl)) \<Longrightarrow> detected pl (fold f xs pl)"
  by (induction xs arbitrary: pl) (auto intro: detected_trans)

section \<open>Detection returns\<close>

lemma enforce_detected: "enforce b tuple pl = (pl', action) \<Longrightarrow> detected pl pl'"
  by (rule quiet_detected) (auto simp: enforce_def Let_def split: if_splits option.splits prod.splits block_outcome.splits)

lemma report_detected: "detected pl (report_alerts f tuple t rs pl)"
proof (induction rs arbitrary: pl)
  case (Cons r rs)
  obtain pl1 action where e: "enforce (ar_blocks r) tuple pl = (pl1, action)" by (metis surj_pair)
  have "detected pl1 (emit_event (with_net tuple (with_flow_id f (build_at t (PAlert (alert_body action FromNetwork r))))) pl1)"
    by (rule emit_detected) (simp add: is_flow_event_def with_net_def with_flow_id_def build_at_def)
  with enforce_detected [OF e] Cons.IH show ?case by (simp add: e) (meson detected_trans)
qed simp

lemma correlate_returns:
  assumes "detection_ok pl"
  shows "\<exists>pl'. correlate domain kind sid sev summary t pl = Some pl' \<and> detected pl pl'"
proof (cases "pl_correlator pl")
  case (Some c)
  let ?x = "\<lparr>obs_host = pl_sensor pl, obs_timestamp = t, obs_domain = domain, obs_event_type = kind, obs_sid = sid,
    obs_severity = sev, obs_summary = summary\<rparr>"
  have ok: "1 \<le> cs_max_per_host (co_settings c)" "corr_wf (co_settings c) c"
    using assms Some by (simp_all add: detection_ok_def)
  then obtain c' r where c: "correlator_observe c ?x = Some (c', r)" "corr_wf (co_settings c) c'"
    using observe_wf by blast
  have "detected pl (pl\<lparr>pl_correlator := Some c'\<rparr>)"
    using c(2) ok(1) by (simp add: detected_def detection_ok_def corr_wf_def flows_reported_def)
  moreover have "detected pl (emit_event (build_at t (PIncident i)) pl)" for i pl
    by (rule emit_detected) (simp add: is_flow_event_def build_at_def)
  ultimately show ?thesis
    using Some c(1) by (cases r) (auto simp: correlate_def Let_def intro: detected_trans)
qed (simp add: correlate_def)

lemma correlate_alerts_returns: "detection_ok pl \<Longrightarrow> \<exists>pl'. correlate_alerts t rs pl = Some pl' \<and> detected pl pl'"
proof (induction rs arbitrary: pl)
  case (Cons r rs)
  obtain pl1 where c: "correlate Correlation.Network Alert (Some (ar_sid r)) (ar_severity r) (ar_signature r) t pl = Some pl1" "detected pl pl1"
    using correlate_returns [OF Cons.prems] by blast
  with Cons.IH [OF detected_ok [OF c(2) Cons.prems]] show ?case by (auto intro: detected_trans)
qed simp

lemma emit_alerts_returns: "detection_ok pl \<Longrightarrow> \<exists>pl'. emit_alerts f tuple t rs pl = Some pl' \<and> detected pl pl'"
  unfolding emit_alerts_def using correlate_alerts_returns report_detected detected_ok by (meson detected_trans)

lemma engine_detected: "pl_engine pl = Some e \<Longrightarrow> tame e' \<Longrightarrow> detected pl (pl\<lparr>pl_engine := Some e'\<rparr>)"
  by (simp add: detected_def detection_ok_def flows_reported_def)

lemma inspect_returns: "detection_ok pl \<Longrightarrow> \<exists>pl'. pipeline_inspect_packet f tuple ts bs t pl = Some pl' \<and> detected pl pl'"
proof (cases "pl_engine pl")
  case (Some e)
  assume ok: "detection_ok pl"
  then have "tame e" using Some by (simp add: detection_ok_def)
  then obtain e' alerts where i: "inspect_packet e f tuple ts bs t = Some (e', alerts)" "tame e'" by (rule tameE) blast
  note d = engine_detected [OF Some i(2)]
  from emit_alerts_returns [OF detected_ok [OF d ok]] d show ?thesis
    by (simp add: pipeline_inspect_packet_def Some i(1)) (meson detected_trans)
qed (simp add: pipeline_inspect_packet_def)

lemma direction_returns: "detection_ok pl \<Longrightarrow> \<exists>pl'. consume_direction f tuple ts bs t pl = Some pl' \<and> detected pl pl'"
proof (cases "pl_engine pl")
  case (Some e)
  assume ok: "detection_ok pl"
  then have "tame e" using Some by (simp add: detection_ok_def)
  then obtain e' alerts where i: "inspect_stream e f (if ts then tuple else flip_tuple tuple) ts bs t = Some (e', alerts)" "tame e'"
    by (rule tameE) blast
  note d = engine_detected [OF Some i(2)]
  from emit_alerts_returns [OF detected_ok [OF d ok]] d show ?thesis
    by (auto simp: consume_direction_def Some i(1) Let_def) (meson detected_trans)+
qed (simp add: consume_direction_def)

lemma dump_detected: "detected pl (dump_stream f ts bs pl)"
  by (rule quiet_detected) (simp_all add: dump_stream_def)

lemma consume_returns:
  assumes "detection_ok pl"
  shows "\<exists>pl'. consume_ready f tuple t ready pl = Some pl' \<and> detected pl pl'"
proof -
  let ?pl = "dump_stream f False (ready_to_client ready) (dump_stream f True (ready_to_server ready)
    (pl\<lparr>pl_stream_bytes_delivered := pl_stream_bytes_delivered pl + ready_len ready\<rparr>))"
  have "detected pl (pl\<lparr>pl_stream_bytes_delivered := pl_stream_bytes_delivered pl + ready_len ready\<rparr>)"
    by (rule quiet_detected) simp_all
  then have d: "detected pl ?pl" using dump_detected by (meson detected_trans)
  from direction_returns [OF detected_ok [OF d assms]] obtain pl1
    where p: "consume_direction f tuple True (ready_to_server ready) t ?pl = Some pl1" "detected ?pl pl1" by blast
  have "detected pl pl1" using d p(2) by (rule detected_trans)
  with direction_returns [OF detected_ok [OF this assms]] p(1) show ?thesis
    by (simp add: consume_ready_def Let_def) (meson detected_trans)
qed

section \<open>Tracking returns\<close>

text \<open>The invariant: \<open>rep\<close> are the ended flows already taken out of the table, each reported when flow events are on.\<close>

definition tracking_ok :: "ended_flow list \<Rightarrow> packet_pipeline \<Rightarrow> bool" where
  "tracking_ok rep pl \<longleftrightarrow> flow_wf rep (pl_flows pl) \<and> defrag_wf (pl_defrag pl) \<and> detection_ok pl \<and>
     (po_emit_flow_events (pl_options pl) \<longrightarrow> flows_reported pl = length rep)"

lemma tracking_detected: "tracking_ok rep pl \<Longrightarrow> detected pl pl' \<Longrightarrow> tracking_ok rep pl'"
  by (simp add: tracking_ok_def detected_def)

lemma set_flows_ok: "tracking_ok rep pl \<Longrightarrow> flow_wf rep t \<Longrightarrow> tracking_ok rep (pl\<lparr>pl_flows := t\<rparr>)"
  by (simp add: tracking_ok_def detection_ok_def flows_reported_def)

definition carried :: "ended_flow list \<Rightarrow> packet_pipeline \<Rightarrow> packet_pipeline \<Rightarrow> bool" where
  "carried rep pl pl' \<longleftrightarrow> tracking_ok rep pl' \<and> pl_decode pl' = pl_decode pl \<and> pl_options pl' = pl_options pl"

lemma detected_options: "detected pl pl' \<Longrightarrow> pl_options pl' = pl_options pl \<and> pl_decode pl' = pl_decode pl"
  by (simp add: detected_def)

lemma observe_returns:
  assumes "tracking_ok rep pl"
  shows "\<exists>pl' i. pipeline_observe p pl = Some (pl', i) \<and> carried rep pl pl'"
proof -
  obtain flows ready ob where o: "observe (pl_flows pl) p (for_destination (pl_policy pl)) default_ready = Some (flows, ready, ob)"
    "flow_wf rep flows"
    using assms observe_result unfolding tracking_ok_def by blast
  let ?tuple = "summary_tuple p" and ?i = "unat (ob_flow_id ob)" and ?pl = "pl\<lparr>pl_flows := flows\<rparr>"
  have ok: "tracking_ok rep ?pl" using set_flows_ok [OF assms o(2)] .
  have "\<exists>pl1. (if pk_tcp p = None \<and> pk_payload p \<noteq> []
      then pipeline_inspect_packet ?i ?tuple (ob_to_server ob) (pk_payload p) (pk_timestamp p) ?pl else Some ?pl) = Some pl1 \<and> detected ?pl pl1"
    using inspect_returns [of ?pl] ok by (simp add: tracking_ok_def)
  then obtain pl1 where p1: "(if pk_tcp p = None \<and> pk_payload p \<noteq> []
      then pipeline_inspect_packet ?i ?tuple (ob_to_server ob) (pk_payload p) (pk_timestamp p) ?pl else Some ?pl) = Some pl1" "detected ?pl pl1"
    by blast
  have d: "detection_ok pl1" using ok detected_ok [OF p1(2)] by (simp add: tracking_ok_def)
  obtain pl2 where p2: "consume_ready ?i (if ob_to_server ob then ?tuple else flip_tuple ?tuple) (pk_timestamp p) ready pl1 = Some pl2"
    "detected pl1 pl2"
    using consume_returns [OF d] by blast
  have "carried rep pl pl2"
    using tracking_detected [OF tracking_detected [OF ok p1(2)] p2(2)] detected_options [OF p1(2)] detected_options [OF p2(2)]
    by (simp add: carried_def)
  with o(1) p1(1) p2(1) show ?thesis by (simp add: pipeline_observe_def Let_def)
qed

lemma defragment_returns:
  assumes "tracking_ok rep pl"
  shows "\<exists>pl' r. defragment n d t pl = Some (pl', r) \<and> carried rep pl pl'"
proof -
  obtain df r where "defrag_push (pl_defrag pl) (fragment_of n (network_payload_bytes d)) t (for_destination (pl_policy pl) (network_destination n)) = Some (df, r)"
    "defrag_wf df"
    using assms defrag_push_wf unfolding tracking_ok_def by blast
  with assms show ?thesis
    by (simp add: defragment_def carried_def tracking_ok_def detection_ok_def flows_reported_def)
qed

lemma reassembled_returns: "tracking_ok rep pl \<Longrightarrow> \<exists>pl'. on_reassembled P r t pl = Some pl' \<and> carried rep pl pl'"
  unfolding on_reassembled_def Let_def using observe_returns by fastforce

lemma track_returns:
  assumes "tracking_ok rep pl"
  shows "\<exists>pl' i. pipeline_track P d t pl = Some (pl', i) \<and> carried rep pl pl'"
proof (cases "dc_network d")
  case None
  with assms show ?thesis by (simp add: pipeline_track_def carried_def)
next
  case (Some n)
  show ?thesis
  proof (cases "network_is_fragment n")
    case False
    obtain f g where "\<And>p. pipeline_observe p pl = Some (f p, g p)" "\<And>p. carried rep pl (f p)"
      using observe_returns [OF assms] by metis
    with Some False show ?thesis by (simp add: pipeline_track_def)
  next
    case True
    obtain pl1 i where p1: "pipeline_observe \<lparr>pk_protocol = network_protocol n, pk_source = (network_source n, 0),
        pk_destination = (network_destination n, 0), pk_timestamp = t, pk_frame_len = length (dc_frame d),
        pk_payload = payload_bytes d, pk_tcp = None\<rparr> pl = Some (pl1, i)" "carried rep pl pl1"
      using observe_returns [OF assms] by blast
    then obtain pl2 r where p2: "defragment n d t pl1 = Some (pl2, r)" "carried rep pl1 pl2"
      using defragment_returns unfolding carried_def by blast
    have ok: "tracking_ok rep pl2" using p2(2) by (simp add: carried_def)
    have "\<exists>pl3. (case r of Some r \<Rightarrow> on_reassembled P r t pl2 | None \<Rightarrow> Some pl2) = Some pl3 \<and> carried rep pl2 pl3"
      using reassembled_returns [OF ok] by (cases r) (simp_all add: carried_def ok)
    then obtain pl3 where p3: "(case r of Some r \<Rightarrow> on_reassembled P r t pl2 | None \<Rightarrow> Some pl2) = Some pl3" "carried rep pl2 pl3" by blast
    have "carried rep pl pl3" using p1(2) p2(2) p3(2) by (simp add: carried_def)
    with Some True p1(1) p2(1) p3(1) show ?thesis by (simp add: pipeline_track_def)
  qed
qed

section \<open>Draining\<close>

lemma on_flow_ends_tame: "tame e \<Longrightarrow> tame (foldl on_flow_end e ids)"
  by (induction ids arbitrary: e) (auto elim: tameE)

lemma flow_events_are_flows: "is_flow_event (flow_event_of entry)"
  by (simp add: flow_event_of_def is_flow_event_def Let_def with_net_def with_flow_id_def build_at_def split: prod.split)

lemma taken_wf: "flow_wf rep t \<Longrightarrow> flow_wf (rep @ map (\<lambda>entry. entry\<lparr>ef_final_ready := g\<rparr>) (ft_ended t)) (t\<lparr>ft_ended := []\<rparr>)"
proof -
  have "ended_for r (map (\<lambda>entry. entry\<lparr>ef_final_ready := g\<rparr>) es) = ended_for r es" for r es
    by (induction es) (simp_all add: ended_for_def)
  moreover have "ended_for r (xs @ ys) = ended_for r xs + ended_for r ys" for r xs ys by (simp add: ended_for_def)
  moreover assume "flow_wf rep t"
  ultimately show ?thesis by (simp add: flow_wf_def flow_wf0_def balanced_def Let_def stream_limit_def)
qed

lemma drain_ok:
  assumes "tracking_ok rep pl"
  shows "\<exists>rep'. carried rep' pl (drain_ended_flows pl) \<and> ft_ended (pl_flows (drain_ended_flows pl)) = [] \<and>
    ft_flows (pl_flows (drain_ended_flows pl)) = ft_flows (pl_flows pl) \<and>
    ft_counters (pl_flows (drain_ended_flows pl)) = ft_counters (pl_flows pl)"
proof (cases "ft_ended (pl_flows pl) = []")
  case True
  with assms show ?thesis by (auto simp: drain_ended_flows_def carried_def)
next
  case False
  let ?rep = "rep @ map (\<lambda>entry. entry\<lparr>ef_final_ready := default_ready\<rparr>) (ft_ended (pl_flows pl))"
  let ?pl = "drain_ended_flows pl"
  have frame: "pl_defrag (fold count_tail xs pl) = pl_defrag pl \<and> pl_correlator (fold count_tail xs pl) = pl_correlator pl \<and>
      pl_decode (fold count_tail xs pl) = pl_decode pl" for xs pl
    by (induction xs arbitrary: pl) (simp_all add: count_tail_def dump_stream_def Let_def)
  have sent: "pl_decode (fold emit_flow xs pl) = pl_decode pl" for xs pl
    by (induction xs arbitrary: pl) (simp_all add: emit_flow_def emit_event_def)
  have all: "pl_options ?pl = pl_options pl" "pl_defrag ?pl = pl_defrag pl" "pl_correlator ?pl = pl_correlator pl"
    "pl_flows ?pl = (pl_flows pl)\<lparr>ft_ended := []\<rparr>"
    "pl_engine ?pl = map_option (\<lambda>e. foldl on_flow_end e (map (\<lambda>entry. unat (fl_id (ef_flow entry))) (ft_ended (pl_flows pl)))) (pl_engine pl)"
    "pl_events ?pl = pl_events pl @ (if po_emit_flow_events (pl_options pl)
       then map flow_event_of (map (\<lambda>entry. entry\<lparr>ef_final_ready := default_ready\<rparr>) (ft_ended (pl_flows pl))) else [])"
    using False by (simp_all add: drain_ended_flows_def take_final_deliveries_def Let_def fold_tail_frame fold_flow_frame frame)
  have kept: "pl_decode ?pl = pl_decode pl"
    using False by (simp add: drain_ended_flows_def take_final_deliveries_def Let_def frame sent)
  have "detection_ok ?pl"
    using assms on_flow_ends_tame by (auto simp: tracking_ok_def detection_ok_def all(3,5) pred_option_def option.set_map)
  moreover have "flow_wf ?rep (pl_flows ?pl)" using assms taken_wf by (simp add: all(4) tracking_ok_def)
  moreover have "po_emit_flow_events (pl_options ?pl) \<longrightarrow> flows_reported ?pl = length ?rep"
    using assms by (simp add: flows_reported_def all(1,6) tracking_ok_def flow_events_are_flows filter_map comp_def)
  ultimately have "carried ?rep pl ?pl" using assms by (simp add: carried_def tracking_ok_def all(1,2) kept)
  then show ?thesis by (auto simp: all(4))
qed

section \<open>Runs\<close>

definition pipeline_ok :: "packet_pipeline \<Rightarrow> bool" where
  "pipeline_ok pl \<longleftrightarrow> (\<exists>rep. tracking_ok rep pl) \<and> ft_ended (pl_flows pl) = []"

lemma record_decoded_counts: "dk_packets (record_decoded c d) = Suc (dk_packets c)"
  by (simp add: record_decoded_def Let_def split: option.split network.split transport.split)

lemma packet_ok:
  assumes "pipeline_ok pl"
  shows "\<exists>pl'. on_packet P packet pl = Some pl' \<and> pipeline_ok pl' \<and> pl_options pl' = pl_options pl \<and>
    dk_packets (pl_decode pl') = Suc (dk_packets (pl_decode pl))"
proof -
  obtain rep where ok: "tracking_ok rep pl" using assms by (auto simp: pipeline_ok_def)
  let ?d = "decode P (rp_data packet) (rp_original_len packet)"
  let ?pl = "pl\<lparr>pl_decode := record_decoded (pl_decode pl) ?d\<rparr>"
  have "tracking_ok rep ?pl" using ok by (simp add: tracking_ok_def detection_ok_def flows_reported_def)
  then obtain pl1 i where t: "pipeline_track P ?d (rp_timestamp packet) ?pl = Some (pl1, i)" "carried rep ?pl pl1"
    using track_returns by blast
  let ?pl2 = "if po_emit_anomaly_events (pl_options pl1) \<and> as_found (dc_anomalies ?d) \<noteq> [] then emit_anomaly packet ?d i pl1 else pl1"
  have "detected pl1 (emit_anomaly packet ?d i pl1)" unfolding emit_anomaly_def Let_def
    by (rule emit_detected) (simp add: is_flow_event_def build_at_def with_net_def with_flow_id_def split: option.split)
  then have "detected pl1 ?pl2" by simp
  then have "tracking_ok rep ?pl2" "pl_options ?pl2 = pl_options pl" "dk_packets (pl_decode ?pl2) = Suc (dk_packets (pl_decode pl))"
    using t(2) tracking_detected detected_options by (auto simp: carried_def record_decoded_counts simp del: if_split)
  with drain_ok [of rep ?pl2] t(1) show ?thesis
    by (auto simp: on_packet_def Let_def pipeline_ok_def carried_def simp del: if_split)
qed

lemma flush_ok:
  assumes "pipeline_ok pl"
  shows "\<exists>pl'. flush_pipeline pl = Some pl' \<and> pipeline_ok pl' \<and> pl_options pl' = pl_options pl \<and> ft_flows (pl_flows pl') = [] \<and>
    pl_decode pl' = pl_decode pl"
proof -
  obtain rep where ok: "tracking_ok rep pl" using assms by (auto simp: pipeline_ok_def)
  then obtain flows where f: "flow_flush (pl_flows pl) = Some flows" "flow_wf rep flows" "ft_flows flows = []"
    using flow_flush_result unfolding tracking_ok_def by blast
  from drain_ok [OF set_flows_ok [OF ok f(2)]] f(1,3) show ?thesis
    by (auto simp: flush_pipeline_def pipeline_ok_def carried_def)
qed

lemma host_alerts_detected: "detected pl (report_host_alerts t rs pl)"
proof -
  have "detected pl (pl\<lparr>pl_host_alerts := n\<rparr>)" for n by (rule quiet_detected) simp_all
  moreover have "detected pl (fold (\<lambda>r. emit_event (build_at t (PAlert (alert_body Alerted FromHost r)))) rs pl)" for pl
    by (intro fold_detected emit_detected) (simp add: is_flow_event_def build_at_def)
  ultimately show ?thesis unfolding report_host_alerts_def by (blast intro: detected_trans)
qed

lemma host_inspect_returns:
  assumes "detection_ok pl"
  shows "\<exists>pl'. inspect_and_emit_host obs kind summary t pl = Some pl' \<and> detected pl pl'"
proof -
  have "\<exists>pl1 rs. (case pl_engine pl of None \<Rightarrow> Some (pl, [])
      | Some e \<Rightarrow> map_option (\<lambda>(e, alerts). (pl\<lparr>pl_engine := Some e\<rparr>, alerts)) (inspect_host e obs t)) = Some (pl1, rs) \<and> detected pl pl1"
  proof (cases "pl_engine pl")
    case (Some e)
    then have "tame e" using assms by (simp add: detection_ok_def)
    then obtain e' alerts where "inspect_host e obs t = Some (e', alerts)" "tame e'" by (rule tameE) blast
    with engine_detected [OF Some] show ?thesis by (simp add: Some)
  qed simp
  then obtain pl1 rs where e: "(case pl_engine pl of None \<Rightarrow> Some (pl, [])
      | Some e \<Rightarrow> map_option (\<lambda>(e, alerts). (pl\<lparr>pl_engine := Some e\<rparr>, alerts)) (inspect_host e obs t)) = Some (pl1, rs)" "detected pl pl1"
    by blast
  have d: "detected pl (report_host_alerts t rs pl1)" using e(2) host_alerts_detected by (rule detected_trans)
  with correlate_returns [OF detected_ok [OF d assms]] show ?thesis
    unfolding inspect_and_emit_host_def e(1) by (cases rs; simp add: Let_def; meson detected_trans)
qed

lemma host_record_returns:
  assumes "detection_ok pl"
  shows "\<exists>pl'. emit_fim x pl = Some pl' \<and> detected pl pl'" "\<exists>pl'. emit_auth y pl = Some pl' \<and> detected pl pl'"
    "\<exists>pl'. emit_process z pl = Some pl' \<and> detected pl pl'"
proof -
  have "detected pl (emit_event (build_at t e) pl)" if "e = PFim a \<or> e = PAuth b \<or> e = PProcess c" for t e pl a b c
    by (rule emit_detected) (use that in \<open>auto simp: is_flow_event_def build_at_def\<close>)
  then have e: "detected pl (emit_event (build_at t (PFim a)) pl)" "detected pl (emit_event (build_at t (PAuth b)) pl)"
    "detected pl (emit_event (build_at t (PProcess c)) pl)" for t pl a b c by blast+
  have h: "\<exists>pl'. map_option g (inspect_and_emit_host obs kind summary t pl) = Some pl' \<and> detected pl pl'"
    if "\<And>pl. detected pl (g pl)" for g obs kind summary t
    using host_inspect_returns [OF assms, of obs kind summary t] that detected_trans by auto
  show "\<exists>pl'. emit_fim x pl = Some pl' \<and> detected pl pl'"
    unfolding emit_fim_def Let_def by (cases x) (simp only: prod.case, rule h [OF e(1)])
  show "\<exists>pl'. emit_auth y pl = Some pl' \<and> detected pl pl'"
    unfolding emit_auth_def Let_def by (cases y) (simp only: prod.case, rule h [OF e(2)])
  show "\<exists>pl'. emit_process z pl = Some pl' \<and> detected pl pl'"
    unfolding emit_process_def Let_def by (cases z) (simp only: prod.case, rule h [OF e(3)])
qed

lemma emit_all_returns:
  assumes "\<And>x pl. detection_ok pl \<Longrightarrow> \<exists>pl'. f x pl = Some pl' \<and> detected pl pl'"
  shows "detection_ok pl \<Longrightarrow> \<exists>pl'. emit_all f xs pl = Some pl' \<and> detected pl pl'"
proof (induction xs arbitrary: pl)
  case (Cons x xs)
  obtain pl1 where "f x pl = Some pl1" "detected pl pl1" using assms Cons.prems by blast
  with Cons.IH [OF detected_ok [OF _ Cons.prems]] show ?case by (auto intro: detected_trans)
qed simp

lemma batch_ok:
  assumes "pipeline_ok pl"
  shows "\<exists>pl'. emit_host_batch batch pl = Some pl' \<and> pipeline_ok pl' \<and> detected pl pl'"
proof -
  obtain rep where ok: "tracking_ok rep pl" using assms by (auto simp: pipeline_ok_def)
  define pl0 where "pl0 = fold (\<lambda>t. emit_event (overflow_event t)) (hb_overflows batch) pl"
  have d0: "detected pl pl0" unfolding pl0_def
    by (intro fold_detected emit_detected) (simp add: is_flow_event_def overflow_event_def build_at_def)
  then have s: "detection_ok pl0" using ok detected_ok by (auto simp: tracking_ok_def)
  obtain pl1 where p1: "emit_all emit_fim (hb_fim batch) pl0 = Some pl1" "detected pl0 pl1"
    using emit_all_returns [where f = emit_fim, OF host_record_returns(1) s] by blast
  obtain pl2 where p2: "emit_all emit_auth (hb_auth batch) pl1 = Some pl2" "detected pl1 pl2"
    using emit_all_returns [where f = emit_auth, OF host_record_returns(2) detected_ok [OF p1(2) s]] by blast
  obtain pl3 where p3: "emit_all emit_process (hb_process batch) pl2 = Some pl3" "detected pl2 pl3"
    using emit_all_returns [where f = emit_process, OF host_record_returns(3) detected_ok [OF p2(2) detected_ok [OF p1(2) s]]] by blast
  have d: "detected pl pl3" using d0 p1(2) p2(2) p3(2) by (meson detected_trans)
  have "emit_host_batch batch pl = Some pl3"
    using p1(1) p2(1) p3(1) by (simp add: emit_host_batch_def Let_def pl0_def)
  moreover have "pipeline_ok pl3"
    using tracking_detected [OF ok d] d assms by (auto simp: pipeline_ok_def detected_def)
  ultimately show ?thesis using d by blast
qed

lemma run_ok:
  "pipeline_ok pl \<Longrightarrow> \<exists>pl'. foldl (pipeline_step P) (Some pl) ops = Some pl' \<and> pipeline_ok pl' \<and> pl_options pl' = pl_options pl"
proof (induction ops arbitrary: pl)
  case (Cons op ops)
  obtain pl1 where "pipeline_step P (Some pl) op = Some pl1" "pipeline_ok pl1" "pl_options pl1 = pl_options pl"
    using packet_ok [OF Cons.prems] batch_ok [OF Cons.prems] flush_ok [OF Cons.prems] detected_options by (cases op; simp; blast)
  with Cons.IH [of pl1] show ?case by auto
qed simp

lemma new_ok: "pipeline_ok (pipeline_new sensor n timeout reassembly options clock)"
proof -
  have "tracking_ok [] (pipeline_new sensor n timeout reassembly options clock)"
    by (simp add: tracking_ok_def pipeline_new_def Let_def with_reassembly_wf defrag_new_wf detection_ok_def flows_reported_def)
  moreover have "ft_ended (pl_flows (pipeline_new sensor n timeout reassembly options clock)) = []"
    by (simp add: pipeline_new_def Let_def with_reassembly_def)
  ultimately show ?thesis unfolding pipeline_ok_def by blast
qed

text \<open>C18. Nothing that arrives takes the pipeline down, and the flow log is complete. Start a pipeline with any settings, arm it with an
engine whose inspections return and a correlator, and let any frames (well-formed or not), host records and
flushes come in any order: no step panics; with flow events on, the flows the table ever created are as many as those still in it and the flow events together; and after a flush there are as many flow events as flows ever created.\<close>

theorem pipeline_accounts_for_flows:
  assumes "tame e" and "1 \<le> cs_max_per_host s" and "po_emit_flow_events options"
  shows "\<exists>pl. foldl (pipeline_step P)
      (Some (attach_correlator (Some (correlator_new s)) (arm e (pipeline_new sensor n timeout reassembly options clock)))) ops = Some pl \<and>
    fc_created (ft_counters (pl_flows pl)) = length (ft_flows (pl_flows pl)) + flows_reported pl \<and>
    (\<exists>pl'. flush_pipeline pl = Some pl' \<and> fc_created (ft_counters (pl_flows pl')) = flows_reported pl')"
proof -
  define start where "start = attach_correlator (Some (correlator_new s)) (arm e (pipeline_new sensor n timeout reassembly options clock))"
  have "pipeline_ok start"
    using new_ok [of sensor n timeout reassembly options clock] assms(1,2) 
    by (auto simp: start_def pipeline_ok_def tracking_ok_def detection_ok_def attach_correlator_def arm_def flows_reported_def
        correlator_new_def corr_wf_def)
  then obtain pl where pl: "foldl (pipeline_step P) (Some start) ops = Some pl" "pipeline_ok pl" "pl_options pl = pl_options start"
    using run_ok by blast
  then obtain pl' where pl': "flush_pipeline pl = Some pl'" "pipeline_ok pl'" "pl_options pl' = pl_options pl" "ft_flows (pl_flows pl') = []"
    using flush_ok by blast
  have opt: "po_emit_flow_events (pl_options start)"
    using assms(3) by (simp add: start_def attach_correlator_def arm_def pipeline_new_def Let_def)
  have "fc_created (ft_counters (pl_flows q)) = length (ft_flows (pl_flows q)) + flows_reported q"
    if "pipeline_ok q" "po_emit_flow_events (pl_options q)" for q
    using that by (auto simp: pipeline_ok_def tracking_ok_def flow_wf_def flow_wf0_def balanced_def Let_def)
  with pl pl' opt show ?thesis by (auto simp: start_def)
qed

text \<open>The engines that never fail by their rules alone are tame.\<close>

lemma steady_tame: "steady e \<Longrightarrow> engine_wf e \<Longrightarrow> tame e"
proof (coinduction arbitrary: e)
  case tame
  note step = steady_handle [OF tame]
  have "\<exists>e' alerts. inspect_packet e f tuple to_server payload now = Some (e', alerts) \<and> steady e' \<and> engine_wf e'" for f tuple to_server payload now
    using step [of "OnPacket f tuple to_server payload now"] by simp
  moreover have "\<exists>e' alerts. inspect_stream e f tuple to_server bs now = Some (e', alerts) \<and> steady e' \<and> engine_wf e'" for f tuple to_server bs now
    using step [of "OnStream f tuple to_server bs now"] by simp
  moreover have "\<exists>e' alerts. inspect_host e obs now = Some (e', alerts) \<and> steady e' \<and> engine_wf e'" for obs now
    using step [of "OnHostRecord obs now"] by simp
  moreover have "steady (on_flow_end e f) \<and> engine_wf (on_flow_end e f)" for f using step [of "OnFlowEnd f"] by simp
  ultimately show ?case by - (rule exI [of _ e], intro conjI allI refl; blast)
qed

lemma small_engine_tame: "tame (small_engine two_rules)"
  using small_steady by (rule steady_tame) (simp add: small_engine_def engine_new_wf)

theorem pipeline_accounts_for_flows_witness:
  "\<exists>pl. foldl (pipeline_step wire_parsers) (Some (attach_correlator (Some (correlator_new default_correlation_settings))
      (arm (small_engine two_rules) (pipeline_new ''sensor'' 2 60 default_reassembly_config example_options (\<lambda>n. n)))))
      [PacketIn \<lparr>rp_data = [0, 1], rp_original_len = 2, rp_timestamp = 0, rp_interface = ''eth0''\<rparr>, FlushAll] = Some pl \<and>
    fc_created (ft_counters (pl_flows pl)) = length (ft_flows (pl_flows pl)) + flows_reported pl \<and>
    (\<exists>pl'. flush_pipeline pl = Some pl' \<and> fc_created (ft_counters (pl_flows pl')) = flows_reported pl')"
  by (rule pipeline_accounts_for_flows) (simp_all add: small_engine_tame default_correlation_settings_def default_max_per_host_def example_options_def)

end
