(* ===== verification/Logs.thy ===== *)
theory Logs
  imports Loader HostRules "HOL-Library.Sublist"
begin

text \<open>
  Authentication logs (\<open>crates/hids/src/logs.rs\<close>): the message of a record, a line of a syslog file, a journal
  record, and the tailer that follows a file. Text is over characters below 256, as elsewhere. The reader of JSON is a
  parameter; the decoding of bytes into text (\<open>String::from_utf8_lossy\<close>) is the parameter \<open>lossy\<close>, of which only its
  behaviour on ASCII is used. Notes in \<open>suspicious\<close> keep their fixed part and the text they quote, not its
  escaping.
\<close>

section \<open>Text\<close>

definition max_field :: nat where "max_field = 256"
definition max_message :: nat where "max_message = 2048"
definition max_line :: nat where "max_line = 16 * 1024"

definition is_control_char :: "char \<Rightarrow> bool" where
  "is_control_char c \<longleftrightarrow> (let n = of_char c :: nat in n < 32 \<or> 127 \<le> n \<and> n < 160)"

definition byte_len :: "string \<Rightarrow> nat" where
  "byte_len cs = sum_list (map utf8_length cs)"

fun sanitise_loop :: "string \<Rightarrow> nat \<Rightarrow> string \<Rightarrow> bool \<Rightarrow> string \<times> bool" where
  "sanitise_loop [] limit out changed = (out, changed)"
| "sanitise_loop (c # cs) limit out changed =
     (if limit \<le> byte_len out then (out, True)
      else if is_control_char c then sanitise_loop cs limit (out @ ''.'') True
      else sanitise_loop cs limit (out @ [c]) changed)"

definition sanitise :: "string \<Rightarrow> nat \<Rightarrow> string \<times> bool" where
  "sanitise cs limit = sanitise_loop cs limit [] False"

definition clip :: "string \<Rightarrow> nat \<Rightarrow> string" where
  "clip cs limit = take limit cs"

definition is_alphanumeric :: "char \<Rightarrow> bool" where
  "is_alphanumeric c \<longleftrightarrow> (let n = of_char c :: nat in 48 \<le> n \<and> n \<le> 57 \<or> 65 \<le> n \<and> n \<le> 90 \<or> 97 \<le> n \<and> n \<le> 122)"

definition plausible_username :: "string \<Rightarrow> bool" where
  "plausible_username name \<longleftrightarrow> name \<noteq> [] \<and> byte_len name \<le> 64 \<and>
     list_all (\<lambda>c. is_alphanumeric c \<or> c \<in> {CHR ''.'', CHR ''_'', CHR ''-'', CHR ''$'', CHR ''@'', CHR 0x5C, CHR ''/''}) name"

section \<open>Messages\<close>

fun find_map :: "('a \<Rightarrow> 'b option) \<Rightarrow> 'a list \<Rightarrow> 'b option" where
  "find_map f [] = None"
| "find_map f (x # xs) = (case f x of Some y \<Rightarrow> Some y | None \<Rightarrow> find_map f xs)"

definition strip_text :: "string \<Rightarrow> string \<Rightarrow> string option" where
  "strip_text p cs = (if starts_with cs p then Some (drop (length p) cs) else None)"

text \<open>The tokens after the first occurrence of a word.\<close>

fun after_word :: "string \<Rightarrow> string list \<Rightarrow> string list option" where
  "after_word w [] = None"
| "after_word w (t # ts) = (if t = w then Some ts else after_word w ts)"

definition first_of :: "'a list \<Rightarrow> 'a option" where
  "first_of xs = (case xs of x # _ \<Rightarrow> Some x | [] \<Rightarrow> None)"

definition or_else :: "'a option \<Rightarrow> 'a option \<Rightarrow> 'a option" where
  "or_else x y = (case x of Some a \<Rightarrow> Some a | None \<Rightarrow> y)"

definition user_token :: "string list \<Rightarrow> string option" where
  "user_token tokens =
     or_else (find_map (strip_text ''user='') tokens)
       (or_else (Option.bind (after_word ''for'' tokens) (\<lambda>ts. first_of (dropWhile (\<lambda>t. t = ''invalid'' \<or> t = ''user'') ts)))
         (Option.bind (after_word ''user'' tokens) first_of))"

definition extract_user :: "string list \<Rightarrow> string list \<Rightarrow> string option \<times> string list" where
  "extract_user tokens suspicious = (case user_token tokens of
       None \<Rightarrow> (None, suspicious)
     | Some candidate \<Rightarrow>
         if plausible_username candidate then (Some candidate, suspicious)
         else (Some (fst (sanitise candidate 64)), suspicious @ [''user token '' @ clip candidate 32 @ '' is not a plausible account name'']))"

definition extract_source :: "string list \<Rightarrow> string list \<Rightarrow> (ip_addr option \<times> nat option) \<times> string list" where
  "extract_source tokens suspicious = (case after_word ''from'' tokens of
       None \<Rightarrow> ((None, None), suspicious)
     | Some [] \<Rightarrow> ((None, None), suspicious)
     | Some (candidate # rest) \<Rightarrow> (case parse_ip candidate of
           None \<Rightarrow> ((None, None), suspicious @ [''source token '' @ clip candidate 48 @ '' is not an address''])
         | Some address \<Rightarrow>
             ((Some address, case rest of w # p # _ \<Rightarrow> if w = ''port'' then parse_uint u16_max p else None | _ \<Rightarrow> None), suspicious)))"

definition auth_outcome_of :: "string \<Rightarrow> auth_outcome option" where
  "auth_outcome_of lower =
     (if starts_with lower ''failed password'' \<or> starts_with lower ''failed publickey'' \<or> str_contains lower ''authentication failure'' \<or>
         starts_with lower ''invalid user'' \<or> starts_with lower ''failed none'' then Some Failure
      else if starts_with lower ''accepted password'' \<or> starts_with lower ''accepted publickey'' \<or>
         starts_with lower ''session opened for user'' then Some Success
      else None)"

definition parse_auth_message :: "string \<Rightarrow> string option \<Rightarrow> string \<Rightarrow> auth_event option" where
  "parse_auth_message message service log_source =
     (let (clean, message_changed) = sanitise message max_message in
      case auth_outcome_of (map char_lower clean) of
        None \<Rightarrow> None
      | Some outcome \<Rightarrow>
          let suspicious = (if message_changed then [''message contained control characters or was truncated''] else []);
              tokens = words_of clean;
              (user, suspicious) = extract_user tokens suspicious;
              ((address, port), suspicious) = extract_source tokens suspicious
          in Some \<lparr>au_outcome = outcome, au_user = user, au_service = map_option (\<lambda>s. fst (sanitise s max_field)) service,
               au_source_address = address, au_source_port = port, au_message = clean, au_log_source = log_source,
               au_suspicious = suspicious\<rparr>)"

section \<open>Lines and journal records\<close>

definition is_blank :: "char \<Rightarrow> bool" where
  "is_blank c \<longleftrightarrow> c = CHR '' '' \<or> of_char c = (9 :: nat)"

definition next_token :: "string \<Rightarrow> (string \<times> string) option" where
  "next_token text =
     (let text = dropWhile is_blank text in
      if text = [] then None
      else Some (takeWhile (\<lambda>c. \<not> is_blank c) text, dropWhile is_blank (dropWhile (\<lambda>c. \<not> is_blank c) text)))"

definition is_graphic :: "char \<Rightarrow> bool" where
  "is_graphic c \<longleftrightarrow> (let n = of_char c :: nat in 33 \<le> n \<and> n \<le> 126)"

definition service_of :: "string \<Rightarrow> string" where
  "service_of tag = takeWhile (\<lambda>c. c \<noteq> CHR ''['') (rev (dropWhile (\<lambda>c. c = CHR '':'') (rev tag)))"

definition parse_syslog_line :: "string \<Rightarrow> string \<Rightarrow> auth_event option" where
  "parse_syslog_line line log_source =
     (if max_line < byte_len line then None
      else do {
        (month, rest) \<leftarrow> next_token line;
        (day, rest) \<leftarrow> next_token rest;
        (time, rest) \<leftarrow> next_token rest;
        (host, rest) \<leftarrow> next_token rest;
        (tag, message) \<leftarrow> next_token rest;
        let service = service_of tag;
        if service = [] \<or> \<not> list_all is_graphic service then None
        else parse_auth_message message (Some service) log_source })"

datatype json = JString string | JArray "json list" | JNumber nat | JObject "(string \<times> json) list" | JOther

definition json_get :: "json \<Rightarrow> string \<Rightarrow> json option" where
  "json_get j key = (case j of JObject kvs \<Rightarrow> map_of kvs key | _ \<Rightarrow> None)"

definition journal_string :: "(bytes \<Rightarrow> string) \<Rightarrow> json \<Rightarrow> string option" where
  "journal_string lossy j = (case j of
       JString text \<Rightarrow> Some text
     | JArray vs \<Rightarrow> Some (lossy (List.map_filter (\<lambda>v. case v of JNumber n \<Rightarrow> Some (if n < 256 then word_of_nat n else 46) | _ \<Rightarrow> None) vs))
     | _ \<Rightarrow> None)"

definition parse_journal_record :: "(string \<Rightarrow> json option) \<Rightarrow> (bytes \<Rightarrow> string) \<Rightarrow> string \<Rightarrow> string \<Rightarrow> auth_event option" where
  "parse_journal_record read_json lossy text log_source =
     (if max_line < byte_len text then None
      else do {
        j \<leftarrow> read_json text;
        m \<leftarrow> json_get j ''MESSAGE'';
        message \<leftarrow> journal_string lossy m;
        let service = Option.bind (or_else (json_get j ''SYSLOG_IDENTIFIER'') (json_get j ''_COMM'')) (journal_string lossy);
        parse_auth_message message service log_source })"

section \<open>Following a file\<close>

type_synonym file_identity = "nat \<times> nat"

record tailer =
  tl_offset :: nat
  tl_identity :: "file_identity option"
  tl_pending :: string
  tl_oversized :: nat
  tl_rotations :: nat

text \<open>What the file system answers to one poll: metadata (length and identity), then the contents with how many bytes
  one \<open>read\<close> returns at most, or an error of either.\<close>

datatype read_result = ReadFailed | Contents bytes nat

datatype file_view = NotFound | StatFailed | Present nat "file_identity option" read_result

definition tailer_new :: "file_view \<Rightarrow> tailer" where
  "tailer_new view = \<lparr>tl_offset = (case view of Present len _ _ \<Rightarrow> len | _ \<Rightarrow> 0),
     tl_identity = (case view of Present _ identity _ \<Rightarrow> identity | _ \<Rightarrow> None),
     tl_pending = [], tl_oversized = 0, tl_rotations = 0\<rparr>"

definition from_start :: "file_view \<Rightarrow> tailer" where
  "from_start view = (tailer_new view)\<lparr>tl_offset := 0\<rparr>"

abbreviation newline :: char where
  "newline \<equiv> char_of (10 :: nat)"

text \<open>\<open>str::split_inclusive\<close>.\<close>

fun split_inclusive :: "char \<Rightarrow> string \<Rightarrow> string \<Rightarrow> string list" where
  "split_inclusive s [] acc = (if acc = [] then [] else [acc])"
| "split_inclusive s (c # cs) acc = (if c = s then (acc @ [c]) # split_inclusive s cs [] else split_inclusive s cs (acc @ [c]))"

definition take_piece :: "string \<Rightarrow> tailer \<times> string list \<Rightarrow> tailer \<times> string list" where
  "take_piece piece x = (case x of (t, lines) \<Rightarrow> (case strip_suffix newline piece of
       Some line \<Rightarrow>
         let complete = tl_pending t @ unwrap_or (strip_suffix (char_of (13 :: nat)) line) line; t = t\<lparr>tl_pending := []\<rparr> in
         if max_line < byte_len complete then (t\<lparr>tl_oversized := tl_oversized t + 1\<rparr>, lines) else (t, lines @ [complete])
     | None \<Rightarrow>
         if max_line < byte_len (tl_pending t) + byte_len piece
         then (t\<lparr>tl_oversized := tl_oversized t + 1, tl_pending := []\<rparr>, lines)
         else (t\<lparr>tl_pending := tl_pending t @ piece\<rparr>, lines)))"

definition note_rotation :: "nat \<Rightarrow> file_identity option \<Rightarrow> tailer \<Rightarrow> tailer" where
  "note_rotation len identity t =
     (if len < tl_offset t \<or> identity \<noteq> None \<and> identity \<noteq> tl_identity t
      then t\<lparr>tl_offset := 0, tl_pending := [], tl_rotations := tl_rotations t + 1\<rparr> else t)"

text \<open>One bounded read from the offset.\<close>

definition read_cap :: nat where
  "read_cap = 1024 * 1024"

definition read_bytes :: "nat \<Rightarrow> nat \<Rightarrow> bytes \<Rightarrow> nat \<Rightarrow> bytes" where
  "read_bytes len offset bs most = take (min (min (len - offset) read_cap) most) (drop offset bs)"

definition read_new_lines :: "(bytes \<Rightarrow> string) \<Rightarrow> file_view \<Rightarrow> tailer \<Rightarrow> tailer \<times> string list option" where
  "read_new_lines lossy view t = (case view of
       NotFound \<Rightarrow> (t, Some [])
     | StatFailed \<Rightarrow> (t, None)
     | Present len identity result \<Rightarrow>
         let t = (note_rotation len identity t)\<lparr>tl_identity := identity\<rparr> in
         if len = tl_offset t then (t, Some [])
         else case result of
             ReadFailed \<Rightarrow> (t, None)
           | Contents bs most \<Rightarrow>
               let buffer = read_bytes len (tl_offset t) bs most;
                   t = t\<lparr>tl_offset := saturating_add (tl_offset t) (length buffer)\<rparr>;
                   (t, lines) = fold take_piece (split_inclusive newline (lossy buffer) []) (t, [])
               in (t, Some lines))"

section \<open>Events are safe to print\<close>

definition printable_text :: "string \<Rightarrow> bool" where
  "printable_text cs \<longleftrightarrow> list_all (\<lambda>c. \<not> is_control_char c) cs"

lemma printable_simps [simp]: "printable_text []" "printable_text (c # cs) \<longleftrightarrow> \<not> is_control_char c \<and> printable_text cs"
  "printable_text (xs @ ys) \<longleftrightarrow> printable_text xs \<and> printable_text ys"
  by (simp_all add: printable_text_def)

lemma byte_len_simps [simp]: "byte_len [] = 0" "byte_len (c # cs) = utf8_length c + byte_len cs" "byte_len (xs @ ys) = byte_len xs + byte_len ys"
  by (simp_all add: byte_len_def)

lemma dot_plain [simp]: "\<not> is_control_char (CHR ''.'')" "utf8_length (CHR ''.'') = 1"
  by (simp_all add: is_control_char_def utf8_length_def)

lemma utf8_length_bounds: "1 \<le> utf8_length c" "utf8_length c \<le> 2"
  by (simp_all add: utf8_length_def)

lemma sanitise_loop_safe:
  "sanitise_loop cs limit out changed = (r, ch) \<Longrightarrow> printable_text out \<Longrightarrow> byte_len out \<le> limit + 1 \<Longrightarrow>
   printable_text r \<and> byte_len r \<le> limit + 1"
proof (induction cs limit out changed rule: sanitise_loop.induct)
  case (2 c cs limit out changed)
  show ?case
  proof (cases "limit \<le> byte_len out")
    case False
    then have "byte_len (out @ ''.'') \<le> limit + 1" "byte_len (out @ [c]) \<le> limit + 1"
      using utf8_length_bounds(2) [of c] by simp_all
    with 2 False show ?thesis by (auto split: if_splits)
  qed (use 2 in auto)
qed auto

lemma sanitise_safe: "printable_text (fst (sanitise cs limit)) \<and> byte_len (fst (sanitise cs limit)) \<le> limit + 1"
  using sanitise_loop_safe [of cs limit "[]" False] unfolding sanitise_def by (metis byte_len_simps(1) prod.collapse printable_simps(1) zero_le)

lemma plausible_printable: "plausible_username name \<Longrightarrow> printable_text name \<and> byte_len name \<le> 64"
proof -
  have "\<not> is_control_char c" if "is_alphanumeric c \<or> c \<in> {CHR ''.'', CHR ''_'', CHR ''-'', CHR ''$'', CHR ''@'', CHR 0x5C, CHR ''/''}" for c
    using that by (auto simp: is_alphanumeric_def is_control_char_def Let_def)
  then show "plausible_username name \<Longrightarrow> printable_text name \<and> byte_len name \<le> 64"
    by (auto simp: plausible_username_def printable_text_def list_all_iff)
qed

text \<open>C34. An authentication event is safe to print and bounded, whatever was typed at the login prompt: no control character in its
message, account or service, and none of them longer than its limit (by more than the last character).\<close>

theorem auth_event_safe:
  assumes "parse_auth_message message service log_source = Some e"
  shows "printable_text (au_message e) \<and> byte_len (au_message e) \<le> 2049 \<and>
    pred_option (\<lambda>u. printable_text u \<and> byte_len u \<le> 65) (au_user e) \<and>
    pred_option (\<lambda>s. printable_text s \<and> byte_len s \<le> 257) (au_service e)"
proof -
  let ?clean = "fst (sanitise message max_message)"
  have m: "au_message e = ?clean" "au_service e = map_option (\<lambda>s. fst (sanitise s max_field)) service"
    and u: "\<exists>susp. au_user e = fst (extract_user (words_of ?clean) susp)"
    using assms by (auto simp: parse_auth_message_def Let_def split: prod.splits option.splits) (metis fst_conv)+
  have "pred_option (\<lambda>u. printable_text u \<and> byte_len u \<le> 65) (fst (extract_user ts susp))" for ts susp
    using sanitise_safe [of _ 64] plausible_printable
    by (fastforce simp: extract_user_def split: option.split)
  with m u sanitise_safe [of message max_message] sanitise_safe [of _ max_field] show ?thesis
    by (auto simp: max_message_def max_field_def option.pred_map comp_def pred_option_def)
qed

section \<open>Where the source address comes from\<close>

lemma after_word_first: "w \<notin> set pre \<Longrightarrow> after_word w (pre @ w # ts) = Some ts"
  by (induction pre) auto

text \<open>The address of an event is the token after the first \<open>from\<close>, and a daemon writes the account name, which the client
  chose, before its own \<open>from\<close>: a client that logs in as \<open>x from A\<close> chooses the address of the event.\<close>

lemma source_chosen_by_client:
  assumes "''from'' \<notin> set before" and "parse_ip a = Some address"
  shows "fst (fst (extract_source (before @ [''from'', a] @ [''from'', b, ''port'', p]) suspicious)) = Some address"
  using after_word_first [OF assms(1), of "[a, ''from'', b, ''port'', p]"] assms(2) by (simp add: extract_source_def)

lemma sanitise_loop_plain:
  "printable_text cs \<Longrightarrow> byte_len out + byte_len cs \<le> limit \<Longrightarrow> sanitise_loop cs limit out changed = (out @ cs, changed)"
proof (induction cs arbitrary: out)
  case (Cons c cs)
  then show ?case using utf8_length_bounds(1) [of c] by simp
qed simp

lemma sanitise_plain: "printable_text cs \<Longrightarrow> byte_len cs \<le> limit \<Longrightarrow> sanitise cs limit = (cs, False)"
  using sanitise_loop_plain [of cs "[]" limit False] by (simp add: sanitise_def)

lemma byte_len_bound: "byte_len cs \<le> 2 * length cs"
proof (induction cs)
  case (Cons c cs)
  then show ?case using utf8_length_bounds(2) [of c] by simp
qed simp

definition forged_message :: string where
  "forged_message = ''Failed password for invalid user admin from 10.0.0.1 port 22 from 203.0.113.7 port 4022 ssh2''"

lemma forged_source:
  "\<exists>e. parse_auth_message forged_message (Some ''sshd'') ''auth.log'' = Some e \<and> au_user e = Some ''admin'' \<and>
     au_source_address e = parse_ip ''10.0.0.1'' \<and> parse_ip ''10.0.0.1'' \<noteq> None \<and> au_suspicious e = []"
proof -
  have "printable_text forged_message" by code_simp
  moreover have "byte_len forged_message \<le> max_message"
    using byte_len_bound [of forged_message] by (simp add: max_message_def forged_message_def)
  ultimately have c: "sanitise forged_message max_message = (forged_message, False)" by (rule sanitise_plain)
  have w: "words_of forged_message = [''Failed'', ''password'', ''for'', ''invalid'', ''user'', ''admin'', ''from'', ''10.0.0.1'', ''port'', ''22'',
      ''from'', ''203.0.113.7'', ''port'', ''4022'', ''ssh2'']" by code_simp
  have o: "auth_outcome_of (map char_lower forged_message) = Some Failure" by code_simp
  have ip: "parse_ip ''10.0.0.1'' = Some (V4 0x0A000001)" by code_simp
  have "plausible_username ''admin''" by (simp add: plausible_username_def is_alphanumeric_def utf8_length_def)
  then have u: "extract_user (words_of forged_message) [] = (Some ''admin'', [])"
    by (simp add: extract_user_def w user_token_def strip_text_def starts_with_def or_else_def first_of_def)
  show ?thesis
    by (simp add: parse_auth_message_def c o u) (simp add: w extract_source_def ip)
qed

section \<open>Whole lines\<close>

definition carriage_return :: char where
  "carriage_return = char_of (13 :: nat)"

text \<open>A text none of whose lines is too long.\<close>

definition short_lines :: "string \<Rightarrow> bool" where
  "short_lines cs \<longleftrightarrow> (\<forall>ys. sublist ys cs \<longrightarrow> newline \<notin> set ys \<longrightarrow> byte_len ys \<le> max_line)"

lemma short_lines_prefix: "short_lines (xs @ ys) \<Longrightarrow> newline \<notin> set xs \<Longrightarrow> byte_len xs \<le> max_line"
  by (auto simp: short_lines_def)

lemma short_lines_drop: "short_lines (xs @ ys) \<Longrightarrow> short_lines ys"
  by (simp add: short_lines_def sublist_append)

lemma strip_suffix_simps: "strip_suffix c (xs @ [c]) = Some xs" "c \<notin> set xs \<Longrightarrow> strip_suffix c xs = None"
  by (auto simp: strip_suffix_def)

definition unbroken :: "string list \<Rightarrow> bool" where
  "unbroken ls \<longleftrightarrow> list_all (\<lambda>l. newline \<notin> set l) ls"

definition with_newlines :: "string list \<Rightarrow> string" where
  "with_newlines ls = concat (map (\<lambda>l. l @ [newline]) ls)"

lemma line_simps [simp]: "unbroken []" "unbroken (xs @ ys) \<longleftrightarrow> unbroken xs \<and> unbroken ys" "unbroken [l] \<longleftrightarrow> newline \<notin> set l"
  "with_newlines [] = []" "with_newlines (xs @ ys) = with_newlines xs @ with_newlines ys" "with_newlines [l] = l @ [newline]"
  by (simp_all add: unbroken_def with_newlines_def)

lemma pieces_taken:
  assumes "newline \<notin> set acc" "newline \<notin> set (tl_pending t)" "carriage_return \<notin> set (acc @ cs)" "short_lines (tl_pending t @ acc @ cs)"
  shows "\<exists>new rest. fold take_piece (split_inclusive newline cs acc) (t, lines) = (t\<lparr>tl_pending := rest\<rparr>, lines @ new) \<and>
    tl_pending t @ acc @ cs = with_newlines new @ rest \<and> newline \<notin> set rest \<and> unbroken new"
  using assms
proof (induction cs arbitrary: acc t lines)
  case Nil
  show ?case
  proof (cases "acc = []")
    case True
    then show ?thesis using Nil.prems by (intro exI [of _ "[]"] exI [of _ "tl_pending t"]) simp
  next
    case False
    have "byte_len (tl_pending t @ acc) \<le> max_line" using Nil.prems short_lines_prefix [of "tl_pending t @ acc" "[]"] by simp
    then have "take_piece acc (t, lines) = (t\<lparr>tl_pending := tl_pending t @ acc\<rparr>, lines)"
      using Nil.prems(1) by (simp add: take_piece_def strip_suffix_simps)
    with False Nil.prems show ?thesis by (intro exI [of _ "[]"] exI [of _ "tl_pending t @ acc"]) simp
  qed
next
  case (Cons c cs)
  show ?case
  proof (cases "c = newline")
    case False
    with Cons.IH [of "acc @ [c]" t lines] Cons.prems show ?thesis by simp
  next
    case True
    let ?line = "tl_pending t @ acc"
    have "byte_len ?line \<le> max_line" using Cons.prems short_lines_prefix [of ?line "c # cs"] by simp
    then have piece: "take_piece (acc @ [newline]) (t, lines) = (t\<lparr>tl_pending := []\<rparr>, lines @ [?line])"
      using Cons.prems(3) by (simp add: take_piece_def strip_suffix_simps carriage_return_def Let_def)
    have "short_lines cs" using Cons.prems(4) short_lines_drop [of "?line @ [c]" cs] by simp
    then obtain new rest where n: "fold take_piece (split_inclusive newline cs []) (t\<lparr>tl_pending := []\<rparr>, lines @ [?line]) =
        (t\<lparr>tl_pending := rest\<rparr>, (lines @ [?line]) @ new)" "cs = with_newlines new @ rest" "newline \<notin> set rest" "unbroken new"
      using Cons.IH [of "[]" "t\<lparr>tl_pending := []\<rparr>" "lines @ [?line]"] Cons.prems(3) by auto
    have "unbroken (?line # new)" using n(4) Cons.prems(1,2) by (simp add: unbroken_def)
    moreover have "?line @ c # cs = with_newlines (?line # new) @ rest" using n(2) True by (simp add: with_newlines_def)
    ultimately show ?thesis using n(1,3) piece True by (intro exI [of _ "?line # new"] exI [of _ rest]) simp
  qed
qed

text \<open>A file that only grows, polled at the given lengths, each read returning at most so many bytes.\<close>

definition text_of :: "bytes \<Rightarrow> string" where
  "text_of bs = map (\<lambda>b. char_of (unat b)) bs"

definition ascii_text :: "(bytes \<Rightarrow> string) \<Rightarrow> bool" where
  "ascii_text lossy \<longleftrightarrow> (\<forall>bs. list_all (\<lambda>b. b < 128) bs \<longrightarrow> lossy bs = text_of bs)"

definition tail_step :: "(bytes \<Rightarrow> string) \<Rightarrow> bytes \<Rightarrow> file_identity \<Rightarrow> tailer \<times> string list \<Rightarrow> nat \<times> nat \<Rightarrow> tailer \<times> string list" where
  "tail_step lossy bs i s poll = (case s of (t, out) \<Rightarrow> case poll of (len, most) \<Rightarrow>
     case read_new_lines lossy (Present len (Some i) (Contents (take len bs) most)) t of (t, lines) \<Rightarrow> (t, out @ unwrap_or lines []))"

definition tail_inv :: "bytes \<Rightarrow> file_identity \<Rightarrow> nat \<Rightarrow> tailer \<times> string list \<Rightarrow> bool" where
  "tail_inv bs i len s \<longleftrightarrow> (case s of (t, out) \<Rightarrow> tl_identity t = Some i \<and> tl_offset t \<le> len \<and> tl_oversized t = 0 \<and> tl_rotations t = 0 \<and>
     text_of (take (tl_offset t) bs) = with_newlines out @ tl_pending t \<and> newline \<notin> set (tl_pending t) \<and> unbroken out)"

lemma tail_step_inv:
  assumes "ascii_text lossy" "list_all (\<lambda>b. b < 128) bs" "carriage_return \<notin> set (text_of bs)" "short_lines (text_of bs)" "length bs \<le> u64_max"
    and inv: "tail_inv bs i len s" and "len \<le> len'" "len' \<le> length bs"
  shows "tail_inv bs i len' (tail_step lossy bs i s (len', most))"
proof -
  obtain t out where s: "s = (t, out)" by (cases s)
  note i = inv [unfolded tail_inv_def s prod.case]
  have rot: "note_rotation len' (Some i) t = t" "t\<lparr>tl_identity := Some i\<rparr> = t" using i assms(7) by (simp_all add: note_rotation_def)
  show ?thesis
  proof (cases "len' = tl_offset t")
    case True
    then show ?thesis using i rot by (simp add: tail_inv_def tail_step_def s read_new_lines_def)
  next
    case False
    define n where "n = min (min (len' - tl_offset t) read_cap) most"
    define buffer where "buffer = read_bytes len' (tl_offset t) (take len' bs) most"
    have off: "tl_offset t < len'" using False i assms(7) by simp
    have n: "n \<le> len' - tl_offset t" by (simp add: n_def)
    have bl: "length buffer = n" "tl_offset t + n \<le> len'" using n off assms(8) by (simp_all add: buffer_def read_bytes_def n_def)
    have "buffer = take n (drop (tl_offset t) bs)" using n by (simp add: buffer_def read_bytes_def n_def drop_take)
    then have whole: "take (tl_offset t) bs @ buffer = take (tl_offset t + length buffer) bs" unfolding bl(1) by (simp add: take_add)
    have "list_all (\<lambda>b. b < 128) buffer" using assms(2) unfolding buffer_def read_bytes_def list_all_iff by (meson in_set_dropD in_set_takeD)
    then have decoded: "lossy buffer = text_of buffer" using assms(1) by (simp add: ascii_text_def)
    let ?t = "t\<lparr>tl_offset := tl_offset t + length buffer\<rparr>"
    have text_append: "text_of (xs @ ys) = text_of xs @ text_of ys" for xs ys by (simp add: text_of_def)
    have so_far: "text_of (take (tl_offset t + length buffer) bs) = with_newlines out @ tl_pending t @ text_of buffer"
      using i by (simp add: whole [symmetric] text_append)
    have tx: "text_of bs = with_newlines out @ (tl_pending t @ text_of buffer) @ text_of (drop (tl_offset t + length buffer) bs)"
      using so_far by (metis append.assoc append_take_drop_id text_append)
    have "short_lines (tl_pending t @ text_of buffer)"
      using assms(4) unfolding tx short_lines_def by (meson sublist_appendI sublist_order.order.trans)
    moreover have "carriage_return \<notin> set (text_of buffer)" using assms(3) unfolding tx by simp
    ultimately obtain new rest where p: "fold take_piece (split_inclusive newline (text_of buffer) []) (?t, []) = (?t\<lparr>tl_pending := rest\<rparr>, new)"
      "tl_pending t @ text_of buffer = with_newlines new @ rest" "newline \<notin> set rest" "unbroken new"
      using pieces_taken [of "[]" ?t "text_of buffer" "[]"] i by auto
    have "saturating_add (tl_offset t) (length buffer) = tl_offset t + length buffer"
      using bl assms(5,8) by (intro saturating_add_eq) simp
    then have "read_new_lines lossy (Present len' (Some i) (Contents (take len' bs) most)) t = (?t\<lparr>tl_pending := rest\<rparr>, Some new)"
      using False rot by (simp add: read_new_lines_def Let_def buffer_def [symmetric] decoded p(1))
    then show ?thesis using i bl p(2-4) so_far by (simp add: tail_inv_def tail_step_def s)
  qed
qed

lemma tail_run_inv:
  assumes "ascii_text lossy" "list_all (\<lambda>b. b < 128) bs" "carriage_return \<notin> set (text_of bs)" "short_lines (text_of bs)" "length bs \<le> u64_max"
    and "tail_inv bs i len s" and "sorted (len # map fst polls)" and "list_all (\<lambda>(l, _). l \<le> length bs) polls"
  shows "tail_inv bs i (foldl max len (map fst polls)) (foldl (tail_step lossy bs i) s polls)"
  using assms(6-8)
proof (induction polls arbitrary: len s)
  case (Cons poll polls)
  obtain l most where p: "poll = (l, most)" by (cases poll)
  have "tail_inv bs i l (tail_step lossy bs i s poll)"
    unfolding p by (rule tail_step_inv [OF assms(1-5) Cons.prems(1)]) (use Cons.prems p in auto)
  moreover have "max len l = l" using Cons.prems(2) p by simp
  ultimately show ?case using Cons.IH [of l] Cons.prems p by simp
qed simp

text \<open>C33. The tailer delivers the lines of a growing log, each once, whole and in order, however the file grows between polls and however
little each read returns: at any moment the lines delivered, each followed by its newline, and then the part held back are exactly what has been read
of the file. (An ASCII log with newline line ends and no line above the limit.)\<close>

theorem tailer_delivers_lines:
  assumes "ascii_text lossy" "list_all (\<lambda>b. b < 128) bs" "carriage_return \<notin> set (text_of bs)" "short_lines (text_of bs)" "length bs \<le> u64_max"
    and "sorted (map fst polls)" and "list_all (\<lambda>(l, _). l \<le> length bs) polls"
    and "foldl (tail_step lossy bs i) (from_start (Present 0 (Some i) result), []) polls = (t, out)"
  shows "text_of (take (tl_offset t) bs) = with_newlines out @ tl_pending t \<and> unbroken out \<and> newline \<notin> set (tl_pending t) \<and>
    tl_oversized t = 0 \<and> tl_rotations t = 0"
proof -
  have "tail_inv bs i 0 (from_start (Present 0 (Some i) result), [])"
    by (simp add: tail_inv_def from_start_def tailer_new_def text_of_def)
  from tail_run_inv [OF assms(1-5) this _ assms(7)] assms(6,8) show ?thesis by (simp add: tail_inv_def)
qed

text \<open>A poll that has something to read moves on.\<close>

lemma poll_progress:
  assumes "tl_identity t = Some i" "tl_offset t < len" "len \<le> length bs" "len \<le> u64_max"
  shows "tl_offset (fst (read_new_lines lossy (Present len (Some i) (Contents (take len bs) most)) t)) =
    tl_offset t + min (min (len - tl_offset t) read_cap) most"
proof -
  have rot: "note_rotation len (Some i) t = t" "t\<lparr>tl_identity := Some i\<rparr> = t" using assms(1,2) by (simp_all add: note_rotation_def)
  have f: "tl_offset (fst (fold take_piece ps (u, ls))) = tl_offset u" for ps u ls
  proof (induction ps arbitrary: u ls)
    case (Cons p ps)
    have "tl_offset (fst (take_piece p (u, ls))) = tl_offset u" by (simp add: take_piece_def Let_def split: option.split)
    then show ?case using Cons.IH [of "fst (take_piece p (u, ls))" "snd (take_piece p (u, ls))"] by simp
  qed simp
  let ?k = "min (min (len - tl_offset t) read_cap) most"
  have k: "length (read_bytes len (tl_offset t) (take len bs) most) = ?k" using assms(2,3) by (simp add: read_bytes_def)
  have "?k \<le> len - tl_offset t" by simp
  then have "saturating_add (tl_offset t) ?k = tl_offset t + ?k" using assms(2,4) by (intro saturating_add_eq) linarith
  then show ?thesis using assms(2) rot k by (simp add: read_new_lines_def Let_def split_def f)
qed

section \<open>An over-long line\<close>

text \<open>When a line grows past the limit before its newline arrives, the part held is dropped and counted; what follows is then
  taken for the start of a line, so the rest of the same line is delivered as a line of its own.\<close>

lemma oversized_tail_delivered:
  assumes "max_line < byte_len (tl_pending t) + byte_len piece" "newline \<notin> set piece" "newline \<notin> set rest" "carriage_return \<notin> set rest"
    "byte_len rest \<le> max_line"
  shows "snd (fold take_piece [piece, rest @ [newline]] (t, [])) = [rest]"
  using assms by (simp add: take_piece_def strip_suffix_simps carriage_return_def Let_def)

section \<open>Examples\<close>

definition sample_log :: bytes where
  "sample_log = [97, 98, 10, 99]"

theorem tailer_delivers_lines_witness:
  "(case foldl (tail_step text_of sample_log (1, 2)) (from_start (Present 0 (Some (1, 2)) ReadFailed), []) [(2, 9), (4, 1), (4, 9)] of
     (t, out) \<Rightarrow> text_of (take (tl_offset t) sample_log) = with_newlines out @ tl_pending t) \<and>
   snd (foldl (tail_step text_of sample_log (1, 2)) (from_start (Present 0 (Some (1, 2)) ReadFailed), []) [(2, 9), (4, 1), (4, 9)]) = [''ab'']"
proof
  let ?polls = "[(2, 9), (4, 1), (4, 9)] :: (nat \<times> nat) list"
  obtain t out where r: "foldl (tail_step text_of sample_log (1, 2)) (from_start (Present 0 (Some (1, 2)) ReadFailed), []) ?polls = (t, out)"
    by (metis surj_pair)
  have "short_lines (text_of sample_log)" unfolding short_lines_def
  proof (intro allI impI)
    fix ys assume "sublist ys (text_of sample_log)"
    then have "length ys \<le> 4" using sublist_length_le by (fastforce simp: text_of_def sample_log_def)
    then show "byte_len ys \<le> max_line" using byte_len_bound [of ys] by (simp add: max_line_def)
  qed
  then show "case foldl (tail_step text_of sample_log (1, 2)) (from_start (Present 0 (Some (1, 2)) ReadFailed), []) ?polls of
      (t, out) \<Rightarrow> text_of (take (tl_offset t) sample_log) = with_newlines out @ tl_pending t"
    using tailer_delivers_lines [of text_of sample_log ?polls "(1, 2)" ReadFailed t out] r
    by (simp add: ascii_text_def sample_log_def text_of_def carriage_return_def u64_max_def)
  have "char_of (97 :: nat) = CHR ''a''" "char_of (98 :: nat) = CHR ''b''" "(CHR ''a'' = newline) = False" "(CHR ''b'' = newline) = False"
    by code_simp+
  then show "snd (foldl (tail_step text_of sample_log (1, 2)) (from_start (Present 0 (Some (1, 2)) ReadFailed), []) ?polls) = [''ab'']"
    by (simp add: tail_step_def from_start_def tailer_new_def read_new_lines_def note_rotation_def read_bytes_def read_cap_def Let_def
        sample_log_def text_of_def saturating_add_def u64_max_def take_piece_def strip_suffix_def max_line_def byte_len_def utf8_length_def)
qed

theorem auth_event_safe_witness:
  "\<exists>e. parse_auth_message forged_message (Some ''sshd'') ''auth.log'' = Some e \<and> printable_text (au_message e) \<and> byte_len (au_message e) \<le> 2049"
proof -
  obtain e where "parse_auth_message forged_message (Some ''sshd'') ''auth.log'' = Some e" using forged_source by blast
  with auth_event_safe [OF this] show ?thesis by blast
qed

end
