(* ===== verification/Evtx.thy ===== *)
theory Evtx
  imports Logs
begin

text \<open>
  Windows logon events (\<open>crates/hids/src/evtx.rs\<close>): the fields of a rendered Security log event and the authentication event made
  from them. Text is over characters below 256; notes in \<open>suspicious\<close> keep the text they quote, not its escaping.
\<close>

section \<open>Logon types\<close>

definition event_id_logon_success :: nat where "event_id_logon_success = 4624"
definition event_id_logon_failure :: nat where "event_id_logon_failure = 4625"
definition event_id_explicit_credentials :: nat where "event_id_explicit_credentials = 4648"
definition max_field_chars :: nat where "max_field_chars = 256"
definition max_event_bytes :: nat where "max_event_bytes = 64 * 1024"

datatype logon_type =
    Interactive | Network | Batch | Service | Unlock | NetworkCleartext | NewCredentials | RemoteInteractive | CachedInteractive
  | OtherLogon nat

definition from_code :: "nat \<Rightarrow> logon_type" where
  "from_code code =
     (if code = 2 then Interactive else if code = 3 then Network else if code = 4 then Batch else if code = 5 then Service
      else if code = 7 then Unlock else if code = 8 then NetworkCleartext else if code = 9 then NewCredentials
      else if code = 10 then RemoteInteractive else if code = 11 then CachedInteractive else OtherLogon code)"

fun logon_type_as_str :: "logon_type \<Rightarrow> string" where
  "logon_type_as_str Interactive = ''interactive''"
| "logon_type_as_str Network = ''network''"
| "logon_type_as_str Batch = ''batch''"
| "logon_type_as_str Service = ''service''"
| "logon_type_as_str Unlock = ''unlock''"
| "logon_type_as_str NetworkCleartext = ''network-cleartext''"
| "logon_type_as_str NewCredentials = ''new-credentials''"
| "logon_type_as_str RemoteInteractive = ''remote-interactive''"
| "logon_type_as_str CachedInteractive = ''cached-interactive''"
| "logon_type_as_str (OtherLogon _) = ''other''"

definition is_remote :: "logon_type \<Rightarrow> bool" where
  "is_remote t \<longleftrightarrow> t \<in> {Network, NetworkCleartext, RemoteInteractive}"

record parsed_logon =
  pl_event :: auth_event
  pl_logon_type :: "logon_type option"
  pl_event_id :: nat

section \<open>Searching and replacing\<close>

text \<open>\<open>str::find\<close>: where a text first occurs.\<close>

fun find_text :: "string \<Rightarrow> string \<Rightarrow> nat option" where
  "find_text p [] = (if p = [] then Some 0 else None)"
| "find_text p (c # cs) = (if starts_with (c # cs) p then Some 0 else map_option Suc (find_text p cs))"

text \<open>\<open>str::replace\<close>, for a text that is not empty: from left to right, without overlaps.\<close>

function replace_text :: "string \<Rightarrow> string \<Rightarrow> string \<Rightarrow> string" where
  "replace_text p new [] = []"
| "replace_text p new (c # cs) = (if starts_with (c # cs) p then new @ replace_text p new (drop (length p - 1) cs)
     else c # replace_text p new cs)"
  by pat_completeness auto
termination
  by (relation "measure (\<lambda>(p, new, cs). length cs)") auto

section \<open>Fields\<close>

fun evtx_sanitise_loop :: "string \<Rightarrow> nat \<Rightarrow> string \<Rightarrow> bool \<Rightarrow> string \<times> bool" where
  "evtx_sanitise_loop [] limit out changed = (out, changed)"
| "evtx_sanitise_loop (c # cs) limit out changed =
     (if limit \<le> length out then (out, True)
      else if is_control_char c then evtx_sanitise_loop cs limit (out @ ''.'') True
      else evtx_sanitise_loop cs limit (out @ [c]) changed)"

definition evtx_sanitise :: "string \<Rightarrow> nat \<Rightarrow> string \<times> bool" where
  "evtx_sanitise cs limit = evtx_sanitise_loop cs limit [] False"

definition decode_entities :: "string \<Rightarrow> string" where
  "decode_entities cs = replace_text ''&amp;'' ''&'' (replace_text ''&apos;'' [CHR 0x27] (replace_text ''&quot;'' [CHR 0x22]
     (replace_text ''&gt;'' ''>'' (replace_text ''&lt;'' ''<'' cs))))"

definition opening_tag :: "string \<Rightarrow> string" where
  "opening_tag name = ''<Data Name='' @ [CHR 0x22] @ name @ [CHR 0x22] @ ''>''"

definition closing_tag :: string where
  "closing_tag = ''</Data>''"

lemma find_text_bound: "find_text p cs = Some i \<Longrightarrow> i + length p \<le> length cs"
proof (induction cs arbitrary: i)
  case (Cons c cs)
  show ?case
  proof (cases "starts_with (c # cs) p")
    case True
    then have "length p \<le> length (c # cs)" unfolding starts_with_def by (metis length_take min.cobounded2 length_Cons nat_le_linear take_all)
    then show ?thesis using True Cons.prems by simp
  next
    case False
    then obtain j where "find_text p cs = Some j" "i = Suc j" using Cons.prems by auto
    then show ?thesis using Cons.IH by simp
  qed
qed (simp split: if_splits)

function data_fields :: "string \<Rightarrow> string \<Rightarrow> string list" where
  "data_fields name rest = (case find_text (opening_tag name) rest of
       None \<Rightarrow> []
     | Some start \<Rightarrow>
         let after = drop (start + length (opening_tag name)) rest in
         case find_text closing_tag after of
           Some stop \<Rightarrow> take stop after # data_fields name (drop stop after)
         | None \<Rightarrow> [])"
  by pat_completeness auto
termination
  by (relation "measure (\<lambda>(name, rest). length rest)") (auto simp: opening_tag_def dest!: find_text_bound)

declare data_fields.simps [simp del]

definition event_id :: "string \<Rightarrow> nat option" where
  "event_id xml = do {
     start \<leftarrow> find_text ''<EventID'' xml;
     let after = drop start xml;
     gt \<leftarrow> find_text ''>'' after;
     let opened = gt + 1;
     closed \<leftarrow> find_text ''</EventID>'' after;
     if closed \<le> opened then None
     else parse_uint u32_max (str_trim (drop opened (take closed after))) }"

definition field_note :: "string \<Rightarrow> string \<Rightarrow> string" where
  "field_note name note = ''field '' @ name @ note"

definition evtx_field :: "string \<Rightarrow> string \<Rightarrow> string list \<Rightarrow> string option \<times> string list" where
  "evtx_field xml name suspicious =
     (let occurrences = data_fields name xml in
      if 1 < length occurrences
      then (None, suspicious @ [field_note name ('' appears '' @ show_nat (length occurrences) @ '' times; refusing it rather than choosing one'')])
      else case occurrences of
          [] \<Rightarrow> (None, suspicious)
        | raw # _ \<Rightarrow>
            let decoded = decode_entities raw;
                suspicious = (if CHR ''<'' \<in> set decoded \<or> CHR ''>'' \<in> set decoded
                  then suspicious @ [field_note name '' contains markup after decoding''] else suspicious);
                (clean, changed) = evtx_sanitise decoded max_field_chars;
                suspicious = (if changed then suspicious @ [field_note name '' was truncated or held control characters''] else suspicious)
            in (if clean = [] then None else Some clean, suspicious))"

definition meaningful :: "string option \<Rightarrow> string option" where
  "meaningful v = (case v of None \<Rightarrow> None | Some cs \<Rightarrow> if cs \<noteq> ''-'' \<and> cs \<noteq> [] then Some cs else None)"

definition meaningful_field :: "string \<Rightarrow> string \<Rightarrow> string list \<Rightarrow> string option \<times> string list" where
  "meaningful_field xml name suspicious = (case evtx_field xml name suspicious of (v, s) \<Rightarrow> (meaningful v, s))"

section \<open>The event\<close>

definition logon_outcome :: "nat \<Rightarrow> auth_outcome option" where
  "logon_outcome eid =
     (if eid = event_id_logon_success \<or> eid = event_id_explicit_credentials then Some Success
      else if eid = event_id_logon_failure then Some Failure
      else None)"

definition logon_address :: "string option \<Rightarrow> string list \<Rightarrow> ip_addr option \<times> string list" where
  "logon_address raw_address suspicious = (case raw_address of
       None \<Rightarrow> (None, suspicious)
     | Some text \<Rightarrow> (case parse_ip text of
           Some address \<Rightarrow> (Some address, suspicious)
         | None \<Rightarrow> (None, if text \<in> {''LOCAL'', ''127.0.0.1'', ''::1''} then suspicious
             else suspicious @ [''IpAddress '' @ take 48 text @ '' is not an address''])))"

definition logon_message :: "auth_outcome \<Rightarrow> nat \<Rightarrow> logon_type option \<Rightarrow> string option \<Rightarrow> string option \<Rightarrow> string option \<Rightarrow> string" where
  "logon_message outcome eid kind user domain workstation =
     (case outcome of Success \<Rightarrow> ''successful'' | Failure \<Rightarrow> ''failed'') @ '' logon (event '' @ show_nat eid @ '')'' @
     (case kind of Some k \<Rightarrow> '', type '' @ logon_type_as_str k | None \<Rightarrow> []) @
     (case user of
        Some account \<Rightarrow> '', account '' @ (case domain of Some d \<Rightarrow> d @ [CHR 0x5C] @ account | None \<Rightarrow> account)
      | None \<Rightarrow> []) @
     (case workstation of Some host \<Rightarrow> '', from workstation '' @ host | None \<Rightarrow> [])"

definition with_status :: "string \<Rightarrow> nat \<Rightarrow> string \<Rightarrow> string list \<Rightarrow> string \<times> string list" where
  "with_status xml eid message suspicious =
     (if eid = event_id_logon_failure
      then (case meaningful_field xml ''Status'' suspicious of
          (Some status, s) \<Rightarrow> (message @ '', status '' @ status, s)
        | (None, s) \<Rightarrow> (message, s))
      else (message, suspicious))"

definition parse_logon_event :: "string \<Rightarrow> parsed_logon option" where
  "parse_logon_event xml =
     (if max_event_bytes < byte_len xml then None
      else do {
        eid \<leftarrow> event_id xml;
        outcome \<leftarrow> logon_outcome eid;
        let (user, suspicious) = meaningful_field xml ''TargetUserName'' [];
        let (domain, suspicious) = meaningful_field xml ''TargetDomainName'' suspicious;
        let (workstation, suspicious) = meaningful_field xml ''WorkstationName'' suspicious;
        let (code, suspicious) = meaningful_field xml ''LogonType'' suspicious;
        let kind = map_option from_code (Option.bind code (parse_uint u32_max));
        let (raw_address, suspicious) = meaningful_field xml ''IpAddress'' suspicious;
        let (source_address, suspicious) = logon_address raw_address suspicious;
        let (raw_port, suspicious) = meaningful_field xml ''IpPort'' suspicious;
        let source_port = Option.bind (Option.bind raw_port (parse_uint u16_max)) (\<lambda>port. if port \<noteq> 0 then Some port else None);
        let message = logon_message outcome eid kind user domain workstation;
        let (message, suspicious) = with_status xml eid message suspicious;
        let (process, suspicious) = meaningful_field xml ''LogonProcessName'' suspicious;
        Some \<lparr>pl_event = \<lparr>au_outcome = outcome, au_user = user, au_service = or_else process (Some ''Security''),
            au_source_address = source_address, au_source_port = source_port, au_message = message,
            au_log_source = ''windows-security'', au_suspicious = suspicious\<rparr>,
          pl_logon_type = kind, pl_event_id = eid\<rparr> })"

section \<open>Where a text is found\<close>

lemma starts_with_append [simp]: "starts_with (p @ s) p"
  by (simp add: starts_with_def)

lemma find_text_here: "p \<noteq> [] \<Longrightarrow> find_text p (p @ s) = Some 0"
  by (cases p) (use starts_with_append [of p s] in auto)

lemma find_text_skip:
  assumes "\<And>i. i < length a \<Longrightarrow> \<not> starts_with (drop i a @ s) p"
  shows "find_text p (a @ s) = map_option ((+) (length a)) (find_text p s)"
  using assms
proof (induction a)
  case Nil
  show ?case by (cases "find_text p s") simp_all
next
  case (Cons c a)
  have "\<not> starts_with (drop i a @ s) p" if "i < length a" for i using Cons.prems [of "Suc i"] that by simp
  from Cons.IH [OF this] show ?case using Cons.prems [of 0] by (cases "find_text p s") simp_all
qed

lemma starts_with_head: "starts_with (c # cs) (d # p) \<Longrightarrow> c = d"
  by (simp add: starts_with_def)

lemma find_text_plain: "d \<notin> set a \<Longrightarrow> find_text (d # p) (a @ s) = map_option ((+) (length a)) (find_text (d # p) s)"
proof (rule find_text_skip)
  fix i
  assume "d \<notin> set a" and i: "i < length a"
  then have "a ! i \<noteq> d" by (metis nth_mem)
  then show "\<not> starts_with (drop i a @ s) (d # p)"
    using starts_with_head [of "a ! i" "drop (Suc i) a @ s" d p] Cons_nth_drop_Suc [OF i] by (metis append_Cons)
qed

lemma find_text_tag:
  "d \<notin> set a \<Longrightarrow> \<not> starts_with (c # a @ s) (d # p) \<Longrightarrow> find_text (d # p) (c # a @ s) = map_option ((+) (Suc (length a))) (find_text (d # p) s)"
  using find_text_plain [of d a p s] by (cases "find_text (d # p) s") simp_all

lemma find_text_split: "find_text p s = Some i \<Longrightarrow> s = take i s @ p @ drop (i + length p) s"
proof (induction s arbitrary: i)
  case (Cons c cs)
  show ?case
  proof (cases "starts_with (c # cs) p")
    case True
    then show ?thesis using Cons.prems unfolding starts_with_def by (metis append_Nil append_take_drop_id find_text.simps(2) option.inject plus_nat.add_0 starts_with_def take0)
  next
    case False
    then obtain j where "find_text p cs = Some j" "i = Suc j" using Cons.prems by auto
    then show ?thesis using Cons.IH by simp
  qed
qed (simp split: if_splits)

lemma find_text_first: "p \<noteq> [] \<Longrightarrow> \<exists>i \<le> length a. find_text p (a @ p @ b) = Some i"
proof (induction a)
  case Nil
  then show ?case using find_text_here by simp
next
  case (Cons c a)
  then obtain i where "i \<le> length a" "find_text p (a @ p @ b) = Some i" by blast
  then show ?case by (cases "starts_with (c # a @ p @ b) p") auto
qed

section \<open>Entities\<close>

text \<open>How the renderer writes a value: markup and quotes become the five entities.\<close>

definition escape_char :: "char \<Rightarrow> string" where
  "escape_char c = (if c = CHR ''<'' then ''&lt;'' else if c = CHR ''>'' then ''&gt;'' else if c = CHR 0x22 then ''&quot;''
     else if c = CHR 0x27 then ''&apos;'' else if c = CHR ''&'' then ''&amp;'' else [c])"

definition escape :: "string \<Rightarrow> string" where
  "escape cs = concat (map escape_char cs)"

text \<open>A value in which the entities of the characters in \<open>done\<close> have been decoded already.\<close>

definition partly :: "char set \<Rightarrow> string \<Rightarrow> string" where
  "partly decoded cs = concat (map (\<lambda>c. if c \<in> decoded then [c] else escape_char c) cs)"

lemma replace_text_other: "starts_with (c # cs) p = False \<Longrightarrow> replace_text p new (c # cs) = c # replace_text p new cs"
  by simp

lemma replace_text_plain: "d \<notin> set a \<Longrightarrow> replace_text (d # p) new (a @ s) = a @ replace_text (d # p) new s"
  by (induction a) (auto dest: starts_with_head)

lemma replace_text_here: "p \<noteq> [] \<Longrightarrow> replace_text p new (p @ s) = new @ replace_text p new s"
  by (cases p) (use starts_with_append [of p s] in auto)

lemma replace_text_tag:
  "d \<notin> set a \<Longrightarrow> \<not> starts_with (c # a @ s) (d # p) \<Longrightarrow> replace_text (d # p) new (c # a @ s) = c # a @ replace_text (d # p) new s"
  using replace_text_plain [of d a p new s] by simp

lemma entities_differ:
  assumes "escape_char c = CHR ''&'' # q" and "escape_char d = CHR ''&'' # p" and "c \<noteq> d"
  shows "CHR ''&'' \<notin> set q" and "\<not> starts_with (CHR ''&'' # q @ s) (CHR ''&'' # p)"
  using assms unfolding escape_char_def starts_with_def by (auto split: if_splits)

lemma decode_step:
  assumes "escape_char d = CHR ''&'' # p" and "CHR ''&'' \<notin> decoded"
  shows "replace_text (escape_char d) [d] (partly decoded cs) = partly (insert d decoded) cs"
proof (induction cs)
  case (Cons c cs)
  let ?r = "partly decoded cs"
  have IH: "replace_text (CHR ''&'' # p) [d] ?r = partly (insert d decoded) cs" using Cons.IH assms(1) by simp
  have d: "d \<in> {CHR ''<'', CHR ''>'', CHR 0x22, CHR 0x27, CHR ''&''}" using assms(1) by (auto simp: escape_char_def split: if_splits)
  show ?case
  proof (cases "c \<in> decoded \<or> length (escape_char c) = 1")
    case True
    let ?x = "if c \<in> decoded then [c] else escape_char c"
    have x: "CHR ''&'' \<notin> set ?x" "c \<noteq> d \<or> c \<in> decoded" using True assms d by (auto simp: escape_char_def split: if_splits)
    have "replace_text (escape_char d) [d] (?x @ ?r) = ?x @ partly (insert d decoded) cs"
      using replace_text_plain [OF x(1), of p "[d]" ?r] IH assms(1) by simp
    then show ?thesis using x(2) by (auto simp: partly_def)
  next
    case False
    then obtain q where q: "escape_char c = CHR ''&'' # q" and c: "c \<notin> decoded" by (auto simp: escape_char_def split: if_splits)
    have "replace_text (escape_char d) [d] (escape_char c @ ?r) = (if c = d then [d] else escape_char c) @ partly (insert d decoded) cs"
    proof (cases "c = d")
      case True
      then show ?thesis using replace_text_here [of "escape_char d" "[d]" ?r] IH assms(1) by (simp del: replace_text.simps)
    next
      case False
      with entities_differ [OF q assms(1)] show ?thesis
        using replace_text_tag [of "CHR ''&''" q "CHR ''&''" ?r p "[d]"] IH assms(1) q by (simp del: replace_text.simps)
    qed
    then show ?thesis using c by (auto simp: partly_def)
  qed
qed (simp add: partly_def)

lemma decode_escape: "decode_entities (escape cs) = cs"
proof -
  let ?q = "CHR 0x22" and ?a = "CHR 0x27"
  have 0: "escape cs = partly {} cs" by (simp add: escape_def partly_def)
  have 1: "replace_text ''&lt;'' ''<'' (partly {} cs) = partly {CHR ''<''} cs"
    using decode_step [of "CHR ''<''" _ "{}" cs] by (simp add: escape_char_def)
  have 2: "replace_text ''&gt;'' ''>'' (partly {CHR ''<''} cs) = partly {CHR ''>'', CHR ''<''} cs"
    using decode_step [of "CHR ''>''" _ "{CHR ''<''}" cs] by (simp add: escape_char_def)
  have 3: "replace_text ''&quot;'' [?q] (partly {CHR ''>'', CHR ''<''} cs) = partly {?q, CHR ''>'', CHR ''<''} cs"
    using decode_step [of ?q _ "{CHR ''>'', CHR ''<''}" cs] by (simp add: escape_char_def)
  have 4: "replace_text ''&apos;'' [?a] (partly {?q, CHR ''>'', CHR ''<''} cs) = partly {?a, ?q, CHR ''>'', CHR ''<''} cs"
    using decode_step [of ?a _ "{?q, CHR ''>'', CHR ''<''}" cs] by (simp add: escape_char_def)
  have 5: "replace_text ''&amp;'' ''&'' (partly {?a, ?q, CHR ''>'', CHR ''<''} cs) = partly {CHR ''&'', ?a, ?q, CHR ''>'', CHR ''<''} cs"
    using decode_step [of "CHR ''&''" _ "{?a, ?q, CHR ''>'', CHR ''<''}" cs] by (simp add: escape_char_def)
  have "partly {CHR ''&'', ?a, ?q, CHR ''>'', CHR ''<''} cs = cs"
    by (induction cs) (auto simp: partly_def escape_char_def)
  then show ?thesis by (simp add: decode_entities_def 0 1 2 3 4 5)
qed

lemma escape_no_markup: "CHR ''<'' \<notin> set (escape cs)"
  by (induction cs) (auto simp: escape_def escape_char_def)

section \<open>A rendered event\<close>

definition render_field :: "string \<times> string \<Rightarrow> string" where
  "render_field f = opening_tag (fst f) @ escape (snd f) @ closing_tag"

definition rendered :: "nat \<Rightarrow> (string \<times> string) list \<Rightarrow> string" where
  "rendered eid fs = ''<Event><System><EventID>'' @ show_nat eid @ ''</EventID></System><EventData>'' @
     concat (map render_field fs) @ ''</EventData></Event>''"

definition plain_name :: "string \<Rightarrow> bool" where
  "plain_name n \<longleftrightarrow> CHR ''<'' \<notin> set n \<and> CHR 0x22 \<notin> set n"

definition opening_rest :: "string \<Rightarrow> string" where
  "opening_rest n = ''Data Name='' @ [CHR 0x22] @ n @ [CHR 0x22] @ ''>''"

lemma opening_tag_rest: "opening_tag n = CHR ''<'' # opening_rest n"
  by (simp add: opening_tag_def opening_rest_def)

lemma opening_rest_plain: "plain_name n \<Longrightarrow> CHR ''<'' \<notin> set (opening_rest n)"
  by (simp add: opening_rest_def plain_name_def)

lemma quoted_unique: "q \<notin> set m \<Longrightarrow> q \<notin> set n \<Longrightarrow> m @ q # x = n @ q # y \<Longrightarrow> m = n"
proof (induction m arbitrary: n)
  case Nil
  then show ?case by (cases n) auto
next
  case (Cons c m)
  then show ?case by (cases n) auto
qed

lemma opening_differs: "plain_name m \<Longrightarrow> plain_name n \<Longrightarrow> m \<noteq> n \<Longrightarrow> \<not> starts_with (opening_tag m @ s) (opening_tag n)"
proof
  assume n: "plain_name m" "plain_name n" "m \<noteq> n" and "starts_with (opening_tag m @ s) (opening_tag n)"
  then obtain z where "opening_tag m @ s = opening_tag n @ z" unfolding starts_with_def by (metis append_take_drop_id)
  then have "m @ CHR 0x22 # (''>'' @ s) = n @ CHR 0x22 # (''>'' @ z)" by (simp add: opening_tag_def)
  with n show False unfolding plain_name_def by (blast dest: quoted_unique)
qed

lemma data_fields_skip:
  assumes "find_text (opening_tag n) (a @ s) = map_option ((+) (length a)) (find_text (opening_tag n) s)"
  shows "data_fields n (a @ s) = data_fields n s"
  unfolding data_fields.simps [of n "a @ s"] data_fields.simps [of n s] assms
  by (cases "find_text (opening_tag n) s") (simp_all add: add.assoc)

lemma data_fields_closing: "data_fields n (closing_tag @ s) = data_fields n s"
proof (rule data_fields_skip)
  show "find_text (opening_tag n) (closing_tag @ s) = map_option ((+) (length closing_tag)) (find_text (opening_tag n) s)"
    using find_text_tag [of "CHR ''<''" "''/Data>''" "CHR ''<''" s "opening_rest n"]
    by (simp add: closing_tag_def opening_tag_rest starts_with_def opening_rest_def)
qed

lemma data_fields_plain: "CHR ''<'' \<notin> set a \<Longrightarrow> data_fields n (a @ s) = data_fields n s"
  by (rule data_fields_skip) (simp add: opening_tag_rest find_text_plain)

lemma data_fields_other:
  assumes "plain_name m" and "plain_name n" and "m \<noteq> n"
  shows "data_fields n (render_field (m, v) @ s) = data_fields n s"
proof -
  have "data_fields n (opening_tag m @ t) = data_fields n t" for t
    using find_text_tag [OF opening_rest_plain [OF assms(1)], of "CHR ''<''" t "opening_rest n"] opening_differs [OF assms, of t]
    by (intro data_fields_skip) (simp add: opening_tag_rest)
  then show ?thesis by (simp add: render_field_def data_fields_plain escape_no_markup data_fields_closing)
qed

lemma data_fields_this: "data_fields n (render_field (n, v) @ s) = escape v # data_fields n s"
proof -
  have "find_text closing_tag (escape v @ closing_tag @ s) = Some (length (escape v))"
    using find_text_plain [OF escape_no_markup, of "''/Data>''" v "closing_tag @ s"] find_text_here [of closing_tag s]
    by (simp add: closing_tag_def)
  then show ?thesis
    using find_text_here [of "opening_tag n" "escape v @ closing_tag @ s"] data_fields_closing [of n s]
    unfolding data_fields.simps [of n "render_field (n, v) @ s"] by (simp add: render_field_def opening_tag_def)
qed

definition visible :: "string \<Rightarrow> string" where
  "visible cs = map (\<lambda>c. if is_control_char c then CHR ''.'' else c) cs"

lemma evtx_sanitise_visible: "fst (evtx_sanitise cs limit) = take limit (visible cs)"
proof -
  have "fst (evtx_sanitise_loop cs limit out changed) = out @ take (limit - length out) (visible cs)" if "length out \<le> limit" for out changed
    using that
  proof (induction cs limit out changed rule: evtx_sanitise_loop.induct)
    case (2 c cs limit out changed)
    then show ?case by (cases "limit - length out") (auto simp: visible_def diff_Suc)
  qed (simp add: visible_def)
  then show ?thesis by (simp add: evtx_sanitise_def)
qed

text \<open>What the event keeps of a field: its value without control characters, at most 256 of them, and nothing for an empty value or a dash.\<close>

definition kept :: "(string \<times> string) list \<Rightarrow> string \<Rightarrow> string option" where
  "kept fs n = Option.bind (map_of fs n) (\<lambda>v. meaningful (Some (take max_field_chars (visible v))))"

lemma data_fields_rendered:
  assumes "list_all plain_name (map fst fs)" and "distinct (map fst fs)" and "plain_name n"
  shows "data_fields n (rendered eid fs) = (case map_of fs n of None \<Rightarrow> [] | Some v \<Rightarrow> [escape v])"
proof -
  let ?tail = "''</EventData></Event>''"
  have nil: "data_fields n x = []" if "find_text (opening_tag n) x = None" for x using that by (subst data_fields.simps) simp
  have e: "data_fields n ?tail = []"
    by (rule nil) (simp add: opening_tag_def starts_with_def)
  have fields: "data_fields n (concat (map render_field fs) @ ?tail) = (case map_of fs n of None \<Rightarrow> [] | Some v \<Rightarrow> [escape v])"
    using assms(1,2)
  proof (induction fs)
    case (Cons f fs)
    obtain m v where f: "f = (m, v)" by (cases f)
    show ?case
    proof (cases "m = n")
      case True
      then have "map_of fs n = None" using Cons.prems(2) f by (auto simp: map_of_eq_None_iff)
      then show ?thesis using Cons.IH Cons.prems True f by (simp add: data_fields_this)
    next
      case False
      then show ?thesis using Cons.IH Cons.prems f assms(3) by (simp add: data_fields_other)
    qed
  qed (simp add: e)
  have digits: "CHR ''<'' \<notin> set (show_nat eid)" using show_nat_chars [of eid] by (auto simp: digit_char_p_def)
  have tag: "data_fields n (CHR ''<'' # c # a @ s) = data_fields n s" if "CHR ''<'' \<notin> set (c # a)" and "c \<noteq> CHR ''D''" for c a s
  proof -
    have "\<not> starts_with (CHR ''<'' # (c # a) @ s) (opening_tag n)" using that(2) by (simp add: starts_with_def opening_tag_def)
    then show ?thesis
      using find_text_tag [OF that(1), of "CHR ''<''" s "opening_rest n"] data_fields_skip [of n "CHR ''<'' # c # a" s]
      by (simp add: opening_tag_rest)
  qed
  have "data_fields n (rendered eid fs) = data_fields n (concat (map render_field fs) @ ?tail)"
    unfolding rendered_def
    using tag [of "CHR ''E''" "''vent>''"] tag [of "CHR ''S''" "''ystem>''"] tag [of "CHR ''E''" "''ventID>''"]
      tag [of "CHR ''/''" "''EventID>''"] tag [of "CHR ''/''" "''System>''"] tag [of "CHR ''E''" "''ventData>''"] data_fields_plain [OF digits, of n]
    by simp
  then show ?thesis by (simp only: fields)
qed

lemma meaningful_field_rendered:
  assumes "list_all plain_name (map fst fs)" and "distinct (map fst fs)" and "plain_name n"
  shows "fst (meaningful_field (rendered eid fs) n s) = kept fs n"
  unfolding meaningful_field_def evtx_field_def data_fields_rendered [OF assms] kept_def
  by (cases "map_of fs n") (auto simp: Let_def split_def decode_escape evtx_sanitise_visible meaningful_def)

lemma str_trim_dense: "\<forall>c \<in> set cs. \<not> is_space c \<Longrightarrow> str_trim cs = cs"
proof -
  assume cs: "\<forall>c \<in> set cs. \<not> is_space c"
  then have "dropWhile is_space cs = cs" "dropWhile is_space (rev cs) = rev cs"
    unfolding dropWhile_eq_self_iff by (metis hd_in_set, metis hd_in_set set_rev)
  then show ?thesis by (simp add: str_trim_def)
qed

lemma event_id_rendered: "logon_outcome eid = Some outcome \<Longrightarrow> event_id (rendered eid fs) = Some eid"
proof -
  assume "logon_outcome eid = Some outcome"
  then have small: "eid \<le> u32_max" by (auto simp: logon_outcome_def event_id_logon_success_def event_id_logon_failure_def
        event_id_explicit_credentials_def u32_max_def split: if_splits)
  let ?d = "show_nat eid"
  have plain: "CHR ''<'' \<notin> set ?d" using show_nat_chars [of eid] by (auto simp: digit_char_p_def)
  obtain z where r: "rendered eid fs = ''<Event><System>'' @ ''<EventID>'' @ ?d @ ''</EventID>'' @ z" by (simp add: rendered_def)
  have 1: "find_text ''<EventID'' (rendered eid fs) = Some 15" unfolding r by (simp add: starts_with_def)
  have 2: "drop 15 (rendered eid fs) = ''<EventID>'' @ ?d @ ''</EventID>'' @ z" unfolding r by simp
  have 3: "find_text ''>'' (''<EventID>'' @ x) = Some 8" for x by (simp add: starts_with_def)
  have 4: "find_text ''</EventID>'' (''<EventID>'' @ ?d @ ''</EventID>'' @ z) = Some (9 + length ?d)"
    using find_text_tag [of "CHR ''<''" "''EventID>''" "CHR ''<''" "?d @ ''</EventID>'' @ z" "''/EventID>''"]
      find_text_plain [OF plain, of "''/EventID>''" "''</EventID>'' @ z"] find_text_here [of "''</EventID>''" z]
    by (simp add: starts_with_def)
  have 5: "str_trim ?d = ?d" using show_nat_chars [of eid] by (intro str_trim_dense) (auto simp: digit_char_p_def is_space_def Let_def)
  have 6: "drop 9 (take (9 + length ?d) (''<EventID>'' @ ?d @ ''</EventID>'' @ z)) = ?d" by (simp add: drop_take)
  show ?thesis
    using show_nat_ne [of eid] parse_uint_show [OF small]
    by (simp add: event_id_def Let_def 1 2 3 4 5 6 del: append_Cons append.simps find_text.simps drop_append take_append)
qed

text \<open>C32. What a rendered logon event says is what the authentication event says, whatever was typed at the logon prompt: the user, the source address and port, the logon type and the service
are read back as the values of their own fields, so neither markup nor entities nor anything else in the account name can become
another field. Only control characters, what exceeds 256 characters and a lone dash,
which stands for no value, are lost, and an event of more than 64 KiB is not read at all.\<close>

theorem logon_fields_read:
  assumes "logon_outcome eid = Some outcome" and "distinct (map fst fs)" and "list_all plain_name (map fst fs)"
    and "byte_len (rendered eid fs) \<le> max_event_bytes"
  shows "\<exists>p. parse_logon_event (rendered eid fs) = Some p \<and> pl_event_id p = eid \<and> au_outcome (pl_event p) = outcome \<and>
    au_user (pl_event p) = kept fs ''TargetUserName'' \<and>
    au_source_address (pl_event p) = Option.bind (kept fs ''IpAddress'') parse_ip \<and>
    au_source_port (pl_event p) = Option.bind (Option.bind (kept fs ''IpPort'') (parse_uint u16_max)) (\<lambda>port. if port \<noteq> 0 then Some port else None) \<and>
    pl_logon_type p = map_option from_code (Option.bind (kept fs ''LogonType'') (parse_uint u32_max)) \<and>
    au_service (pl_event p) = or_else (kept fs ''LogonProcessName'') (Some ''Security'')"
proof -
  let ?xml = "rendered eid fs"
  have k: "fst (meaningful_field ?xml n s) = kept fs n" if "plain_name n" for n s
    using meaningful_field_rendered [OF assms(3,2) that] .
  have names: "plain_name ''TargetUserName''" "plain_name ''IpAddress''" "plain_name ''IpPort''" "plain_name ''LogonType''" "plain_name ''LogonProcessName''"
    by (simp_all add: plain_name_def)
  have address: "fst (logon_address a s) = Option.bind a parse_ip" for a s
    by (simp add: logon_address_def split: option.split)
  show ?thesis
    using assms(1,4) event_id_rendered [OF assms(1), of fs] k [OF names(1)] k [OF names(2)] k [OF names(3)] k [OF names(4)] k [OF names(5)] address
    by (simp add: parse_logon_event_def Let_def split_def)
qed

section \<open>A renderer that does not escape\<close>

lemma data_fields_found: "data_fields n (a @ opening_tag n @ v @ closing_tag @ c) \<noteq> [] \<and>
   (\<exists>x a'. data_fields n (a @ opening_tag n @ v @ closing_tag @ c) = x # data_fields n (a' @ closing_tag @ c))"
proof -
  let ?s = "a @ opening_tag n @ v @ closing_tag @ c"
  let ?o = "opening_tag n"
  obtain i where i: "i \<le> length a" "find_text ?o ?s = Some i"
    using find_text_first [of ?o a "v @ closing_tag @ c"] by (auto simp: opening_tag_def)
  define after where "after = drop (i + length ?o) ?s"
  have after: "after = drop (i + length ?o) (a @ ?o @ v) @ closing_tag @ c" using i(1) by (simp add: after_def)
  obtain j where j: "j \<le> length (drop (i + length ?o) (a @ ?o @ v))" "find_text closing_tag after = Some j"
    using find_text_first [of closing_tag "drop (i + length ?o) (a @ ?o @ v)" c] by (auto simp: after closing_tag_def)
  have "drop j after = drop j (drop (i + length ?o) (a @ ?o @ v)) @ closing_tag @ c" using j(1) by (simp add: after)
  moreover have "data_fields n ?s = take j after # data_fields n (drop j after)"
    by (subst data_fields.simps) (simp add: i(2) j(2) after_def [symmetric] Let_def del: drop_append)
  ultimately show ?thesis by (metis list.distinct(1))
qed

lemma data_fields_twice:
  "1 < length (data_fields n (a @ opening_tag n @ v @ closing_tag @ b @ opening_tag n @ w @ closing_tag @ c))"
proof -
  obtain x a' where "data_fields n (a @ opening_tag n @ v @ closing_tag @ b @ opening_tag n @ w @ closing_tag @ c) =
      x # data_fields n (a' @ closing_tag @ b @ opening_tag n @ w @ closing_tag @ c)"
    using data_fields_found [of n a v "b @ opening_tag n @ w @ closing_tag @ c"] by blast
  moreover have "data_fields n (a' @ closing_tag @ b @ opening_tag n @ w @ closing_tag @ c) \<noteq> []"
    using data_fields_found [of n "a' @ closing_tag @ b" w c] by simp
  ultimately show ?thesis by simp
qed

text \<open>Even a renderer that escapes nothing gives no forged source: when an account name smuggles in an address field of its own, before
the real one, after it or around it, the event has no source address at all, and says why.\<close>

theorem injected_field_refused:
  assumes "parse_logon_event (a @ opening_tag ''IpAddress'' @ v @ closing_tag @ b @ opening_tag ''IpAddress'' @ w @ closing_tag @ c) = Some p"
  shows "au_source_address (pl_event p) = None \<and> (\<exists>s \<in> set (au_suspicious (pl_event p)). starts_with s ''field IpAddress appears '')"
proof -
  define xml where "xml = a @ opening_tag ''IpAddress'' @ v @ closing_tag @ b @ opening_tag ''IpAddress'' @ w @ closing_tag @ c"
  have refused: "meaningful_field xml ''IpAddress'' s = (None, s @ [field_note ''IpAddress'' ('' appears '' @
      show_nat (length (data_fields ''IpAddress'' xml)) @ '' times; refusing it rather than choosing one'')])" for s
    using data_fields_twice [of "''IpAddress''" a v b w c] by (simp add: meaningful_field_def evtx_field_def xml_def meaningful_def)
  have grows: "set s \<subseteq> set (snd (meaningful_field xml n s))" for n s
    by (auto simp: meaningful_field_def evtx_field_def Let_def split_def split: list.split)
  have kept_note: "x \<in> set s \<Longrightarrow> x \<in> set (snd (with_status xml eid m s))" for x eid m s
    using grows [of s "''Status''"] by (auto simp: with_status_def split: prod.split option.split)
  have appears: "starts_with (field_note ''IpAddress'' ('' appears '' @ z)) ''field IpAddress appears ''" for z
    by (simp add: field_note_def starts_with_def)
  let ?n = "field_note ''IpAddress'' ('' appears '' @ show_nat (length (data_fields ''IpAddress'' xml)) @ '' times; refusing it rather than choosing one'')"
  obtain s1 s2 eid m where p: "au_source_address (pl_event p) = fst (logon_address None s1)" "s1 = s2 @ [?n]"
      "au_suspicious (pl_event p) = snd (meaningful_field xml ''LogonProcessName'' (snd (with_status xml eid m
        (snd (meaningful_field xml ''IpPort'' (snd (logon_address None s1)))))))"
    using assms unfolding xml_def [symmetric] parse_logon_event_def Let_def split_def refused
    by (auto split: if_splits bind_splits)
  have "?n \<in> set (snd (logon_address None s1))" by (simp add: p(2) logon_address_def)
  then have "?n \<in> set (au_suspicious (pl_event p))" unfolding p(3) using grows kept_note by blast
  moreover have "au_source_address (pl_event p) = None" by (simp add: p(1) logon_address_def)
  ultimately have "au_source_address (pl_event p) = None \<and> ?n \<in> set (au_suspicious (pl_event p))" by blast
  then show ?thesis using appears by blast
qed

section \<open>Examples\<close>

definition hostile_name :: string where
  "hostile_name = ''x</Data><Data Name='' @ [CHR 0x22] @ ''IpAddress'' @ [CHR 0x22] @ ''>10.0.0.1''"

definition hostile_fields :: "(string \<times> string) list" where
  "hostile_fields = [(''TargetUserName'', hostile_name), (''IpAddress'', ''203.0.113.7'')]"

lemma show_ids: "show_nat 4625 = ''4625''"
  by (simp add: show_nat.simps char_of_def bit_0 odd_iff_mod_2_eq_one bit_iff_odd)

lemmas hostile_eval = hostile_fields_def hostile_name_def rendered_def render_field_def opening_tag_def closing_tag_def escape_def escape_char_def

lemma byte_len_double: "byte_len cs \<le> 2 * length cs"
  by (induction cs) (auto simp: utf8_length_def)

lemma short_event: "length xml \<le> 1000 \<Longrightarrow> byte_len xml \<le> max_event_bytes"
  using byte_len_double [of xml] by (simp add: max_event_bytes_def)

lemma hostile_small: "byte_len (rendered 4625 hostile_fields) \<le> max_event_bytes"
  by (rule short_event) (simp add: hostile_eval show_ids)

lemma hostile_kept: "kept hostile_fields ''TargetUserName'' = Some hostile_name" "kept hostile_fields ''IpAddress'' = Some ''203.0.113.7''"
  by (simp_all add: kept_def hostile_fields_def hostile_name_def visible_def is_control_char_def max_field_chars_def meaningful_def)

lemma failed_logon: "logon_outcome 4625 = Some Failure"
  by (simp add: logon_outcome_def event_id_logon_success_def event_id_logon_failure_def event_id_explicit_credentials_def)

theorem logon_fields_read_witness:
  "\<exists>p. parse_logon_event (rendered 4625 hostile_fields) = Some p \<and> au_user (pl_event p) = Some hostile_name \<and>
     au_source_address (pl_event p) = parse_ip ''203.0.113.7''"
proof -
  have "\<exists>p. parse_logon_event (rendered 4625 hostile_fields) = Some p \<and> au_user (pl_event p) = kept hostile_fields ''TargetUserName'' \<and>
      au_source_address (pl_event p) = Option.bind (kept hostile_fields ''IpAddress'') parse_ip"
    using logon_fields_read [OF failed_logon, of hostile_fields] hostile_small
    by (simp add: hostile_fields_def plain_name_def) blast
  then show ?thesis by (simp add: hostile_kept)
qed

theorem injected_field_refused_witness:
  "\<exists>p. parse_logon_event (rendered 4625 [(''IpAddress'', ''10.0.0.1''), (''IpAddress'', ''203.0.113.7'')]) = Some p \<and>
     au_source_address (pl_event p) = None"
proof -
  let ?fs = "[(''IpAddress'', ''10.0.0.1''), (''IpAddress'', ''203.0.113.7'')]"
  let ?o = "opening_tag ''IpAddress''"
  define a where "a = ''<Event><System><EventID>4625</EventID></System><EventData>''"
  have xml: "rendered 4625 ?fs = a @ ?o @ ''10.0.0.1'' @ closing_tag @ [] @ ?o @ ''203.0.113.7'' @ closing_tag @ ''</EventData></Event>''"
    by (simp add: rendered_def render_field_def escape_def escape_char_def show_ids a_def)
  have "byte_len (rendered 4625 ?fs) \<le> max_event_bytes"
    by (rule short_event) (simp add: hostile_eval show_ids)
  then obtain p where p: "parse_logon_event (rendered 4625 ?fs) = Some p"
    using event_id_rendered [OF failed_logon, of ?fs] failed_logon by (simp add: parse_logon_event_def Let_def split_def)
  then show ?thesis using injected_field_refused [OF p [unfolded xml]] by blast
qed

end
