(* ===== verification/EventLog.thy ===== *)
theory EventLog
  imports Prelude
begin

text \<open>
  The event log (\<open>crates/common/src/eventlog.rs\<close>): the bounded queue between the threads that emit events and the thread that
  writes them. Events and lines are type parameters, and turning an event into a line (\<open>to_ndjson\<close>) is a parameter that
  may fail. A sink is the lines handed to it, in order, with the outcome of its \<open>n\<close>-th write and flush. The threads interleave
  between the operations on shared data: each step below is one operation on the channel or a counter, with what
  only its own thread can see. The number of queued events is kept at its 64 bits; the other counters are natural numbers. The
  sender outlives the writer thread, so a disconnected receive cannot happen.
\<close>

section \<open>Sinks and counters\<close>

record 'l sink =
  sk_lines :: "'l list"
  sk_flushes :: nat
  sk_write_ok :: "nat \<Rightarrow> bool"
  sk_flush_ok :: "nat \<Rightarrow> bool"

definition write_line :: "'l \<Rightarrow> 'l sink \<Rightarrow> 'l sink \<times> bool" where
  "write_line line k = (k\<lparr>sk_lines := sk_lines k @ [line]\<rparr>, sk_write_ok k (length (sk_lines k)))"

definition flush_sink :: "'l sink \<Rightarrow> 'l sink \<times> bool" where
  "flush_sink k = (k\<lparr>sk_flushes := sk_flushes k + 1\<rparr>, sk_flush_ok k (sk_flushes k))"

record pipeline_counters =
  pc_emitted :: nat
  pc_dropped :: nat
  pc_written :: nat
  pc_write_errors :: nat
  pc_queued :: "64 word"
  pc_capacity :: nat

definition add_write_errors :: "nat \<Rightarrow> pipeline_counters \<Rightarrow> pipeline_counters" where
  "add_write_errors n c = c\<lparr>pc_write_errors := pc_write_errors c + n\<rparr>"

definition write_event :: "('e \<Rightarrow> 'l option) \<Rightarrow> 'e \<Rightarrow> 'l sink list \<Rightarrow> pipeline_counters \<Rightarrow> 'l sink list \<times> pipeline_counters" where
  "write_event to_line event sinks c = (case to_line event of
       None \<Rightarrow> (sinks, add_write_errors 1 c)
     | Some line \<Rightarrow>
         let results = map (write_line line) sinks;
             c = add_write_errors (length (filter (\<lambda>(_, ok). \<not> ok) results)) c
         in (map fst results, if list_ex snd results then c\<lparr>pc_written := pc_written c + 1\<rparr> else c))"

definition flush_all :: "'l sink list \<Rightarrow> pipeline_counters \<Rightarrow> 'l sink list \<times> pipeline_counters" where
  "flush_all sinks c =
     (let results = map flush_sink sinks
      in (map fst results, add_write_errors (length (filter (\<lambda>(_, ok). \<not> ok) results)) c))"

section \<open>The queue and its threads\<close>

datatype 'e message = Event 'e | Shutdown

text \<open>Where a thread is in \<open>emit\<close>, and the writer in \<open>writer_loop\<close>.\<close>

datatype 'e emit_phase = Idle | Counted 'e | Accepted | Refused

datatype 'e writer_phase = Running | Got 'e | Parked | Draining | DrainGot 'e | Closing | Finished

text \<open>Besides the shared data, two records of what happened: the events the channel took, in order, and those handed to
  \<open>write_event\<close>; and how many had been taken when the first shutdown message was sent.\<close>

record ('e, 'l) event_pipeline =
  ep_queue :: "'e message list"
  ep_counters :: pipeline_counters
  ep_sinks :: "'l sink list"
  ep_threads :: "'e emit_phase list"
  ep_writer :: "'e writer_phase"
  ep_taken :: "'e list"
  ep_handled :: "'e list"
  ep_mark :: "nat option"

definition spawn :: "'l sink list \<Rightarrow> nat \<Rightarrow> nat \<Rightarrow> ('e, 'l) event_pipeline" where
  "spawn sinks capacity threads = \<lparr>ep_queue = [],
     ep_counters = \<lparr>pc_emitted = 0, pc_dropped = 0, pc_written = 0, pc_write_errors = 0, pc_queued = 0, pc_capacity = max 1 capacity\<rparr>,
     ep_sinks = sinks, ep_threads = replicate threads Idle, ep_writer = Running, ep_taken = [], ep_handled = [], ep_mark = None\<rparr>"

definition count_with :: "(pipeline_counters \<Rightarrow> pipeline_counters) \<Rightarrow> ('e, 'l) event_pipeline \<Rightarrow> ('e, 'l) event_pipeline" where
  "count_with f s = s\<lparr>ep_counters := f (ep_counters s)\<rparr>"

definition set_phase :: "nat \<Rightarrow> 'e emit_phase \<Rightarrow> ('e, 'l) event_pipeline \<Rightarrow> ('e, 'l) event_pipeline" where
  "set_phase i p s = s\<lparr>ep_threads := (ep_threads s)[i := p]\<rparr>"

text \<open>One thread in \<open>emit\<close>: count the event, try to send it, count the outcome.\<close>

definition emit_begin :: "nat \<Rightarrow> 'e \<Rightarrow> ('e, 'l) event_pipeline \<Rightarrow> ('e, 'l) event_pipeline" where
  "emit_begin i e s = set_phase i (Counted e) (count_with (\<lambda>c. c\<lparr>pc_emitted := pc_emitted c + 1\<rparr>) s)"

definition try_send :: "nat \<Rightarrow> 'e \<Rightarrow> ('e, 'l) event_pipeline \<Rightarrow> ('e, 'l) event_pipeline" where
  "try_send i e s =
     (if ep_writer s = Finished \<or> pc_capacity (ep_counters s) \<le> length (ep_queue s) then set_phase i Refused s
      else set_phase i Accepted (s\<lparr>ep_queue := ep_queue s @ [Event e], ep_taken := ep_taken s @ [e]\<rparr>))"

definition emit_end :: "nat \<Rightarrow> ('e, 'l) event_pipeline \<Rightarrow> ('e, 'l) event_pipeline" where
  "emit_end i s = set_phase i Idle (count_with (\<lambda>c.
     if ep_threads s ! i = Accepted then c\<lparr>pc_queued := pc_queued c + 1\<rparr> else c\<lparr>pc_dropped := pc_dropped c + 1\<rparr>) s)"

text \<open>\<open>shutdown\<close>: the send waits for room, and does nothing once the receiver is gone.\<close>

definition send_shutdown :: "('e, 'l) event_pipeline \<Rightarrow> ('e, 'l) event_pipeline" where
  "send_shutdown s = (if ep_writer s = Finished then s
     else s\<lparr>ep_queue := ep_queue s @ [Shutdown], ep_mark := (case ep_mark s of None \<Rightarrow> Some (length (ep_taken s)) | Some n \<Rightarrow> Some n)\<rparr>)"

text \<open>The writer: \<open>Running\<close> and \<open>Parked\<close> are the two receives of its loop, \<open>Draining\<close> the one behind it; after the last flush the
  receiver is dropped with what is still in it.\<close>

definition handle_event :: "('e \<Rightarrow> 'l option) \<Rightarrow> 'e \<Rightarrow> ('e, 'l) event_pipeline \<Rightarrow> ('e, 'l) event_pipeline" where
  "handle_event to_line e s =
     (case write_event to_line e (ep_sinks s) ((ep_counters s)\<lparr>pc_queued := pc_queued (ep_counters s) - 1\<rparr>) of
        (sinks, c) \<Rightarrow> s\<lparr>ep_sinks := sinks, ep_counters := c, ep_handled := ep_handled s @ [e]\<rparr>)"

definition flush_then :: "'e writer_phase \<Rightarrow> ('e, 'l) event_pipeline \<Rightarrow> ('e, 'l) event_pipeline" where
  "flush_then p s = (case flush_all (ep_sinks s) (ep_counters s) of (sinks, c) \<Rightarrow> s\<lparr>ep_sinks := sinks, ep_counters := c, ep_writer := p\<rparr>)"

definition writer_step :: "('e \<Rightarrow> 'l option) \<Rightarrow> ('e, 'l) event_pipeline \<Rightarrow> ('e, 'l) event_pipeline" where
  "writer_step to_line s = (case ep_writer s of
       Running \<Rightarrow> (case ep_queue s of
           [] \<Rightarrow> flush_then Parked s
         | Event e # q \<Rightarrow> s\<lparr>ep_queue := q, ep_writer := Got e\<rparr>
         | Shutdown # q \<Rightarrow> s\<lparr>ep_queue := q, ep_writer := Draining\<rparr>)
     | Parked \<Rightarrow> (case ep_queue s of
           [] \<Rightarrow> s
         | Event e # q \<Rightarrow> s\<lparr>ep_queue := q, ep_writer := Got e\<rparr>
         | Shutdown # q \<Rightarrow> s\<lparr>ep_queue := q, ep_writer := Draining\<rparr>)
     | Got e \<Rightarrow> (handle_event to_line e s)\<lparr>ep_writer := Running\<rparr>
     | Draining \<Rightarrow> (case ep_queue s of
           [] \<Rightarrow> flush_then Closing s
         | Event e # q \<Rightarrow> s\<lparr>ep_queue := q, ep_writer := DrainGot e\<rparr>
         | Shutdown # q \<Rightarrow> flush_then Closing (s\<lparr>ep_queue := q\<rparr>))
     | DrainGot e \<Rightarrow> (handle_event to_line e s)\<lparr>ep_writer := Draining\<rparr>
     | Closing \<Rightarrow> s\<lparr>ep_queue := [], ep_writer := Finished\<rparr>
     | Finished \<Rightarrow> s)"

text \<open>Any thread may take the next step.\<close>

inductive log_step :: "('e \<Rightarrow> 'l option) \<Rightarrow> ('e, 'l) event_pipeline \<Rightarrow> ('e, 'l) event_pipeline \<Rightarrow> bool" for to_line where
  begin_emit: "i < length (ep_threads s) \<Longrightarrow> ep_threads s ! i = Idle \<Longrightarrow> log_step to_line s (emit_begin i e s)"
| send_event: "i < length (ep_threads s) \<Longrightarrow> ep_threads s ! i = Counted e \<Longrightarrow> log_step to_line s (try_send i e s)"
| end_emit: "i < length (ep_threads s) \<Longrightarrow> ep_threads s ! i \<in> {Accepted, Refused} \<Longrightarrow> log_step to_line s (emit_end i s)"
| stop: "ep_writer s = Finished \<or> length (ep_queue s) < pc_capacity (ep_counters s) \<Longrightarrow> log_step to_line s (send_shutdown s)"
| advance: "log_step to_line s (writer_step to_line s)"

inductive log_run :: "('e \<Rightarrow> 'l option) \<Rightarrow> ('e, 'l) event_pipeline \<Rightarrow> ('e, 'l) event_pipeline \<Rightarrow> bool" for to_line where
  log_refl: "log_run to_line s s"
| log_next: "log_run to_line s t \<Longrightarrow> log_step to_line t u \<Longrightarrow> log_run to_line s u"

section \<open>What every interleaving keeps\<close>

definition event_of :: "'e message \<Rightarrow> 'e option" where
  "event_of m = (case m of Event e \<Rightarrow> Some e | Shutdown \<Rightarrow> None)"

definition waiting :: "('e, 'l) event_pipeline \<Rightarrow> 'e list" where
  "waiting s = List.map_filter event_of (ep_queue s)"

definition in_flight :: "'e writer_phase \<Rightarrow> 'e list" where
  "in_flight w = (case w of Got e \<Rightarrow> [e] | DrainGot e \<Rightarrow> [e] | _ \<Rightarrow> [])"

definition before_stop :: "'e writer_phase \<Rightarrow> bool" where
  "before_stop w = (case w of Running \<Rightarrow> True | Got _ \<Rightarrow> True | Parked \<Rightarrow> True | _ \<Rightarrow> False)"

definition phases :: "('e emit_phase \<Rightarrow> bool) \<Rightarrow> ('e, 'l) event_pipeline \<Rightarrow> nat" where
  "phases p s = length (filter p (ep_threads s))"

definition is_counted :: "'e emit_phase \<Rightarrow> bool" where
  "is_counted p = (case p of Counted _ \<Rightarrow> True | _ \<Rightarrow> False)"

text \<open>The channel is a queue: what was handled, what the writer holds and what waits is what was taken, in order.\<close>

definition fifo_inv :: "('e, 'l) event_pipeline \<Rightarrow> bool" where
  "fifo_inv s \<longleftrightarrow> (if ep_writer s = Finished then \<exists>lost. ep_taken s = ep_handled s @ lost
     else ep_taken s = ep_handled s @ in_flight (ep_writer s) @ waiting s)"

definition count_inv :: "('e, 'l) event_pipeline \<Rightarrow> bool" where
  "count_inv s \<longleftrightarrow>
     pc_emitted (ep_counters s) = length (ep_taken s) + pc_dropped (ep_counters s) + phases is_counted s + phases ((=) Refused) s \<and>
     of_nat (length (ep_taken s)) = pc_queued (ep_counters s) + of_nat (length (ep_handled s)) + of_nat (phases ((=) Accepted) s) \<and>
     length (ep_queue s) \<le> pc_capacity (ep_counters s)"

definition mark_inv :: "('e, 'l) event_pipeline \<Rightarrow> bool" where
  "mark_inv s \<longleftrightarrow> (case ep_mark s of
       None \<Rightarrow> Shutdown \<notin> set (ep_queue s) \<and> before_stop (ep_writer s)
     | Some n \<Rightarrow> n \<le> length (ep_taken s) \<and>
         (if before_stop (ep_writer s)
          then \<exists>es q. ep_queue s = map Event es @ Shutdown # q \<and> n = length (ep_handled s) + length (in_flight (ep_writer s)) + length es
          else n \<le> length (ep_handled s)))"

definition sink_inv :: "('e \<Rightarrow> 'l option) \<Rightarrow> 'l list list \<Rightarrow> ('e, 'l) event_pipeline \<Rightarrow> bool" where
  "sink_inv to_line before s \<longleftrightarrow> map sk_lines (ep_sinks s) = map (\<lambda>ls. ls @ List.map_filter to_line (ep_handled s)) before"

named_theorems log_simps

lemma length_filter_update:
  "i < length xs \<Longrightarrow> length (filter p (xs[i := y])) + (if p (xs ! i) then 1 else 0) = length (filter p xs) + (if p y then 1 else 0)"
proof (induction xs arbitrary: i)
  case (Cons x xs)
  then show ?case by (cases i) auto
qed simp

lemma phases_set: "i < length (ep_threads s) \<Longrightarrow>
   phases p (set_phase i y s) + (if p (ep_threads s ! i) then 1 else 0) = phases p s + (if p y then 1 else 0)"
  by (simp add: phases_def set_phase_def length_filter_update)

lemma set_phase_keeps [simp, log_simps]:
  "ep_queue (set_phase i p s) = ep_queue s" "ep_counters (set_phase i p s) = ep_counters s" "ep_sinks (set_phase i p s) = ep_sinks s"
  "ep_writer (set_phase i p s) = ep_writer s" "ep_taken (set_phase i p s) = ep_taken s" "ep_handled (set_phase i p s) = ep_handled s"
  "ep_mark (set_phase i p s) = ep_mark s" "waiting (set_phase i p s) = waiting s"
  by (simp_all add: set_phase_def waiting_def)

lemma count_with_keeps [simp, log_simps]:
  "ep_queue (count_with f s) = ep_queue s" "ep_counters (count_with f s) = f (ep_counters s)" "ep_sinks (count_with f s) = ep_sinks s"
  "ep_writer (count_with f s) = ep_writer s" "ep_taken (count_with f s) = ep_taken s" "ep_handled (count_with f s) = ep_handled s"
  "ep_mark (count_with f s) = ep_mark s" "ep_threads (count_with f s) = ep_threads s" "phases p (count_with f s) = phases p s"
  "waiting (count_with f s) = waiting s"
  by (simp_all add: count_with_def phases_def waiting_def)

lemma write_event_keeps: "write_event to_line e sinks c = (sinks', c') \<Longrightarrow>
   pc_emitted c' = pc_emitted c \<and> pc_dropped c' = pc_dropped c \<and> pc_queued c' = pc_queued c \<and> pc_capacity c' = pc_capacity c \<and>
   map sk_lines sinks' = map (\<lambda>ls. ls @ List.map_filter to_line [e]) (map sk_lines sinks)"
  by (cases "to_line e")
    (auto simp: write_event_def add_write_errors_def Let_def write_line_def List.map_filter_simps comp_def split: if_splits)

lemma flush_all_keeps: "flush_all sinks c = (sinks', c') \<Longrightarrow>
   pc_emitted c' = pc_emitted c \<and> pc_dropped c' = pc_dropped c \<and> pc_queued c' = pc_queued c \<and> pc_capacity c' = pc_capacity c \<and>
   map sk_lines sinks' = map sk_lines sinks"
  by (auto simp: flush_all_def add_write_errors_def Let_def flush_sink_def comp_def)

lemma handle_event_keeps:
  "ep_queue (handle_event f e s) = ep_queue s" "ep_threads (handle_event f e s) = ep_threads s" "ep_writer (handle_event f e s) = ep_writer s"
  "ep_taken (handle_event f e s) = ep_taken s" "ep_handled (handle_event f e s) = ep_handled s @ [e]" "ep_mark (handle_event f e s) = ep_mark s"
  "pc_emitted (ep_counters (handle_event f e s)) = pc_emitted (ep_counters s)" "pc_dropped (ep_counters (handle_event f e s)) = pc_dropped (ep_counters s)"
  "pc_queued (ep_counters (handle_event f e s)) = pc_queued (ep_counters s) - 1" "pc_capacity (ep_counters (handle_event f e s)) = pc_capacity (ep_counters s)"
  "map sk_lines (ep_sinks (handle_event f e s)) = map (\<lambda>ls. ls @ List.map_filter f [e]) (map sk_lines (ep_sinks s))"
  by (auto simp: handle_event_def split: prod.split dest: write_event_keeps)

lemma flush_then_keeps:
  "ep_queue (flush_then p s) = ep_queue s" "ep_threads (flush_then p s) = ep_threads s" "ep_writer (flush_then p s) = p"
  "ep_taken (flush_then p s) = ep_taken s" "ep_handled (flush_then p s) = ep_handled s" "ep_mark (flush_then p s) = ep_mark s"
  "pc_emitted (ep_counters (flush_then p s)) = pc_emitted (ep_counters s)" "pc_dropped (ep_counters (flush_then p s)) = pc_dropped (ep_counters s)"
  "pc_queued (ep_counters (flush_then p s)) = pc_queued (ep_counters s)" "pc_capacity (ep_counters (flush_then p s)) = pc_capacity (ep_counters s)"
  "map sk_lines (ep_sinks (flush_then p s)) = map sk_lines (ep_sinks s)"
  by (auto simp: flush_then_def split: prod.split dest: flush_all_keeps)

declare handle_event_keeps [simp, log_simps] flush_then_keeps [simp, log_simps]

lemma writer_keeps [log_simps]:
  "ep_taken (writer_step f s) = ep_taken s" "ep_mark (writer_step f s) = ep_mark s" "ep_threads (writer_step f s) = ep_threads s"
  "phases p (writer_step f s) = phases p s" "pc_emitted (ep_counters (writer_step f s)) = pc_emitted (ep_counters s)"
  "pc_dropped (ep_counters (writer_step f s)) = pc_dropped (ep_counters s)" "pc_capacity (ep_counters (writer_step f s)) = pc_capacity (ep_counters s)"
  by (simp_all add: writer_step_def phases_def split: writer_phase.split list.split message.split)

lemma fifo_step:
  assumes "log_step f s t" and "fifo_inv s"
  shows "fifo_inv t"
  using assms
proof cases
  case (send_event i e)
  then show ?thesis using assms(2)
    by (auto simp: fifo_inv_def try_send_def waiting_def List.map_filter_def event_of_def)
next
  case stop
  then show ?thesis using assms(2)
    by (auto simp: fifo_inv_def send_shutdown_def waiting_def List.map_filter_def event_of_def)
next
  case advance
  then show ?thesis using assms(2)
    by (auto simp: fifo_inv_def writer_step_def waiting_def in_flight_def List.map_filter_simps event_of_def
        split: writer_phase.splits list.splits message.splits)
qed (simp_all add: fifo_inv_def emit_begin_def emit_end_def)

lemma sink_step: "log_step f s t \<Longrightarrow> sink_inv f before s \<Longrightarrow> sink_inv f before t"
proof (induction rule: log_step.induct)
  case (advance s)
  have app: "List.map_filter f (xs @ [e]) = List.map_filter f xs @ List.map_filter f [e]" for xs e by (simp add: List.map_filter_def)
  from advance show ?case
    by (auto simp: sink_inv_def writer_step_def app split: writer_phase.splits list.splits message.splits)
qed (simp_all add: sink_inv_def emit_begin_def emit_end_def try_send_def send_shutdown_def)

lemma count_writer: "count_inv s \<Longrightarrow> count_inv (writer_step f s)"
proof -
  assume c: "count_inv s"
  have "pc_queued (ep_counters (writer_step f s)) + of_nat (length (ep_handled (writer_step f s))) =
      pc_queued (ep_counters s) + of_nat (length (ep_handled s))"
    by (simp add: writer_step_def split: writer_phase.split list.split message.split)
  moreover have "length (ep_queue (writer_step f s)) \<le> length (ep_queue s)"
    by (simp add: writer_step_def split: writer_phase.split list.split message.split)
  ultimately show ?thesis using c by (simp add: count_inv_def log_simps)
qed

lemma count_step:
  assumes "log_step f s t" and "count_inv s"
  shows "count_inv t"
  using assms
proof cases
  case (begin_emit i e)
  let ?s = "count_with (\<lambda>c. c\<lparr>pc_emitted := pc_emitted c + 1\<rparr>) s"
  have "phases p (set_phase i (Counted e) ?s) + (if p Idle then 1 else 0) = phases p s + (if p (Counted e) then 1 else 0)" for p
    using phases_set [of i ?s p "Counted e"] begin_emit by simp
  from this [of is_counted] this [of "(=) Refused"] this [of "(=) Accepted"] assms(2) begin_emit show ?thesis
    by (simp add: count_inv_def emit_begin_def is_counted_def)
next
  case (send_event i e)
  have p: "phases p (set_phase i y s) + (if p (Counted e) then 1 else 0) = phases p s + (if p y then 1 else 0)" for p y
    using phases_set [of i s p y] send_event by simp
  have p': "phases p (s\<lparr>ep_queue := q, ep_taken := x\<rparr>) = phases p s" for p q x by (simp add: phases_def)
  have p'': "phases p (set_phase i y (s\<lparr>ep_queue := q, ep_taken := x\<rparr>)) = phases p (set_phase i y s)" for p y q x
    by (simp add: phases_def set_phase_def)
  show ?thesis using p [of is_counted] p [of "(=) Refused"] p [of "(=) Accepted"] assms(2) send_event
    by (auto simp: count_inv_def try_send_def is_counted_def p'')
next
  case (end_emit i)
  have p: "phases p s + (if p Idle then 1 else 0) = phases p (set_phase i Idle s) + (if p (ep_threads s ! i) then 1 else 0)" for p
    using phases_set [of i s p Idle] end_emit by simp
  have p': "phases p (set_phase i Idle (count_with g s)) = phases p (set_phase i Idle s)" for p g by (simp add: phases_def set_phase_def)
  show ?thesis using p [of is_counted] p [of "(=) Refused"] p [of "(=) Accepted"] assms(2) end_emit
    by (auto simp: count_inv_def emit_end_def is_counted_def p')
next
  case stop
  then show ?thesis using assms(2) by (auto simp: count_inv_def send_shutdown_def phases_def)
next
  case advance
  then show ?thesis using count_writer assms(2) by blast
qed

lemma first_stop:
  "map Event es @ Shutdown # q = Event e # x \<longleftrightarrow> (\<exists>es'. es = e # es' \<and> x = map Event es' @ Shutdown # q)"
  "map Event es @ Shutdown # q = Shutdown # x \<longleftrightarrow> es = [] \<and> x = q"
  by (cases es; auto)+

lemma mark_step:
  assumes "log_step f s t" and "mark_inv s" and "fifo_inv s"
  shows "mark_inv t"
  using assms(1)
proof cases
  case (send_event i e)
  then show ?thesis using assms(2)
    by (auto simp: mark_inv_def try_send_def split: option.splits) blast
next
  case stop
  have "\<exists>es. ep_queue s = map Event es \<and> length es = length (waiting s)" if "Shutdown \<notin> set (ep_queue s)"
  proof -
    have "q = map Event (List.map_filter event_of q)" if "Shutdown \<notin> set q" for q :: "'a message list"
      using that by (induction q) (auto simp: List.map_filter_simps event_of_def split: message.splits)
    from this [OF that] show ?thesis unfolding waiting_def by metis
  qed
  then show ?thesis using assms(2,3) stop
    by (auto simp: mark_inv_def send_shutdown_def fifo_inv_def before_stop_def split: option.splits) blast
next
  case advance
  then show ?thesis using assms(2)
    by (auto simp: mark_inv_def writer_step_def before_stop_def in_flight_def first_stop
        split: option.splits writer_phase.splits list.splits message.splits)
qed (use assms(2) in \<open>auto simp: mark_inv_def emit_begin_def emit_end_def split: option.splits\<close>)

definition log_inv :: "('e \<Rightarrow> 'l option) \<Rightarrow> 'l list list \<Rightarrow> ('e, 'l) event_pipeline \<Rightarrow> bool" where
  "log_inv f before s \<longleftrightarrow> fifo_inv s \<and> count_inv s \<and> mark_inv s \<and> sink_inv f before s"

lemma log_inv_step: "log_step f s t \<Longrightarrow> log_inv f before s \<Longrightarrow> log_inv f before t"
  unfolding log_inv_def by (blast intro: fifo_step count_step mark_step sink_step)

lemma log_inv_spawn: "log_inv f (map sk_lines sinks) (spawn sinks capacity threads)"
  by (simp add: log_inv_def fifo_inv_def count_inv_def mark_inv_def sink_inv_def spawn_def in_flight_def waiting_def phases_def is_counted_def
      before_stop_def List.map_filter_simps comp_def)

lemma log_inv_run: "log_run f s t \<Longrightarrow> log_inv f before s \<Longrightarrow> log_inv f before t"
  by (induction rule: log_run.induct) (auto intro: log_inv_step)

lemma capacity_fixed: "log_run f s t \<Longrightarrow> pc_capacity (ep_counters t) = pc_capacity (ep_counters s)"
proof (induction rule: log_run.induct)
  case (log_next s t u)
  from log_next(2) have "pc_capacity (ep_counters u) = pc_capacity (ep_counters t)"
    by cases (simp_all add: emit_begin_def try_send_def emit_end_def send_shutdown_def log_simps)
  with log_next.IH show ?case by simp
qed simp

text \<open>C27. Whatever the interleaving of the threads, the log is the accepted events in order. Every sink has been handed the same lines, those of the
events handled so far; and until the writer has ended, the events the channel accepted are those handled, then the one in the writer's
hands, then those waiting in the queue, in order, none lost and none twice. When the writer has ended, the events handled are a first
part of those accepted that contains everything accepted before shutdown was asked for, so only an event accepted after that can be
missing. The queue never exceeds its capacity; and every event emitted has been accepted, or dropped and counted as such, or is still in \<open>emit\<close>.\<close>

theorem event_log_faithful:
  assumes "log_run to_line (spawn sinks capacity threads) s"
  shows "map sk_lines (ep_sinks s) = map (\<lambda>k. sk_lines k @ List.map_filter to_line (ep_handled s)) sinks \<and>
    (if ep_writer s = Finished
     then \<exists>n lost. ep_mark s = Some n \<and> n \<le> length (ep_handled s) \<and> ep_taken s = ep_handled s @ lost
     else ep_taken s = ep_handled s @ in_flight (ep_writer s) @ waiting s) \<and> length (ep_queue s) \<le> max 1 capacity \<and>
    pc_emitted (ep_counters s) = length (ep_taken s) + pc_dropped (ep_counters s) + phases is_counted s + phases ((=) Refused) s"
proof -
  have "log_inv to_line (map sk_lines sinks) s" using log_inv_run [OF assms log_inv_spawn] .
  moreover have "pc_capacity (ep_counters s) = max 1 capacity" using capacity_fixed [OF assms] by (simp add: spawn_def)
  moreover have "ep_writer s = Finished \<Longrightarrow> mark_inv s \<Longrightarrow> \<exists>n. ep_mark s = Some n \<and> n \<le> length (ep_handled s)"
    by (auto simp: mark_inv_def before_stop_def split: option.splits)
  ultimately show ?thesis
    by (auto simp: log_inv_def fifo_inv_def count_inv_def sink_inv_def comp_def split: if_splits)
qed

section \<open>Shutdown\<close>

definition weight :: "'e writer_phase \<Rightarrow> nat" where
  "weight w = (case w of Running \<Rightarrow> 2 | Got _ \<Rightarrow> 3 | Parked \<Rightarrow> 2 | Draining \<Rightarrow> 2 | DrainGot _ \<Rightarrow> 3 | Closing \<Rightarrow> 1 | Finished \<Rightarrow> 0)"

definition work_left :: "('e, 'l) event_pipeline \<Rightarrow> nat" where
  "work_left s = (if ep_writer s = Finished then 0 else 2 * length (ep_queue s) + weight (ep_writer s))"

lemma writer_progress:
  assumes "mark_inv s" and "ep_mark s = Some n" and "ep_writer s \<noteq> Finished"
  shows "work_left (writer_step f s) < work_left s"
  using assms by (auto simp: work_left_def weight_def writer_step_def mark_inv_def before_stop_def
      split: writer_phase.splits list.splits message.splits)

lemma writer_stays: "ep_writer s = Finished \<Longrightarrow> writer_step f s = s"
  by (simp add: writer_step_def)

lemma writer_finishes:
  assumes "log_inv f before s" and "ep_mark s = Some n" and "work_left s \<le> fuel"
  shows "ep_writer ((writer_step f ^^ fuel) s) = Finished"
  using assms
proof (induction fuel arbitrary: s)
  case 0
  then show ?case by (auto simp: work_left_def weight_def split: writer_phase.splits if_splits)
next
  case (Suc fuel)
  have inv: "log_inv f before (writer_step f s)" using Suc.prems(1) log_inv_step [OF log_step.advance] by blast
  have "work_left (writer_step f s) \<le> fuel"
  proof (cases "ep_writer s = Finished")
    case True
    then show ?thesis by (simp add: writer_stays work_left_def)
  next
    case False
    then show ?thesis using writer_progress [OF _ Suc.prems(2) False, of f] Suc.prems(1,3) by (simp add: log_inv_def)
  qed
  with Suc.IH [OF inv] Suc.prems(2) show ?case by (simp add: log_simps funpow_swap1)
qed

text \<open>C28. Shutting down ends and loses nothing that was accepted before: once a shutdown message is in the queue, the writer, in as many of its own steps as the queue needs, has finished, and every event taken before that message was sent has been handed to every sink, in order.\<close>

theorem shutdown_writes_all:
  assumes "log_run to_line (spawn sinks capacity threads) s" and "ep_mark s = Some n"
  defines "t \<equiv> (writer_step to_line ^^ (2 * length (ep_queue s) + 3)) s"
  shows "ep_writer t = Finished \<and> (\<exists>rest. ep_handled t = take n (ep_taken s) @ rest) \<and>
    map sk_lines (ep_sinks t) = map (\<lambda>k. sk_lines k @ List.map_filter to_line (ep_handled t)) sinks"
proof -
  let ?before = "map sk_lines sinks"
  have inv: "log_inv to_line ?before s" using log_inv_run [OF assms(1) log_inv_spawn] .
  have "work_left s \<le> 2 * length (ep_queue s) + 3" by (simp add: work_left_def weight_def split: writer_phase.split)
  then have fin: "ep_writer t = Finished" unfolding t_def using writer_finishes [OF inv assms(2)] by blast
  have iter: "log_run to_line s ((writer_step to_line ^^ k) s) \<and> ep_taken ((writer_step to_line ^^ k) s) = ep_taken s \<and>
      ep_mark ((writer_step to_line ^^ k) s) = ep_mark s" for k
    by (induction k) (auto intro: log_run.intros log_step.advance simp: log_simps)
  then have t: "log_inv to_line ?before t" "ep_taken t = ep_taken s" "ep_mark t = Some n"
    unfolding t_def using inv log_inv_run assms(2) by (blast, simp_all)
  obtain lost where "ep_taken s = ep_handled t @ lost" using t fin by (auto simp: log_inv_def fifo_inv_def)
  moreover have "n \<le> length (ep_handled t)" using t fin by (simp add: log_inv_def mark_inv_def before_stop_def)
  ultimately have "ep_handled t = take n (ep_taken s) @ drop n (ep_handled t)" by simp
  with fin t(1) show ?thesis by (auto simp: log_inv_def sink_inv_def comp_def)
qed

section \<open>Schedules\<close>

text \<open>A schedule names the steps one by one; a step that is not enabled is refused.\<close>

datatype 'e action = Begin nat 'e | Send nat | End nat | Stop | Advance

fun perform :: "('e \<Rightarrow> 'l option) \<Rightarrow> 'e action \<Rightarrow> ('e, 'l) event_pipeline \<Rightarrow> ('e, 'l) event_pipeline option" where
  "perform f (Begin i e) s = (if i < length (ep_threads s) \<and> is_counted (ep_threads s ! i) = False \<and> ep_threads s ! i \<noteq> Accepted \<and> ep_threads s ! i \<noteq> Refused
     then Some (emit_begin i e s) else None)"
| "perform f (Send i) s = (if i < length (ep_threads s) then (case ep_threads s ! i of Counted e \<Rightarrow> Some (try_send i e s) | _ \<Rightarrow> None) else None)"
| "perform f (End i) s = (if i < length (ep_threads s) then (case ep_threads s ! i of Accepted \<Rightarrow> Some (emit_end i s) | Refused \<Rightarrow> Some (emit_end i s) | _ \<Rightarrow> None)
     else None)"
| "perform f Stop s = (if (case ep_writer s of Finished \<Rightarrow> True | _ \<Rightarrow> length (ep_queue s) < pc_capacity (ep_counters s)) then Some (send_shutdown s) else None)"
| "perform f Advance s = Some (writer_step f s)"

fun schedule :: "('e \<Rightarrow> 'l option) \<Rightarrow> 'e action list \<Rightarrow> ('e, 'l) event_pipeline \<Rightarrow> ('e, 'l) event_pipeline option" where
  "schedule f [] s = Some s"
| "schedule f (a # as) s = Option.bind (perform f a s) (schedule f as)"

lemma perform_step: "perform f a s = Some t \<Longrightarrow> log_step f s t"
  by (cases a) (auto simp: is_counted_def intro: log_step.intros split: if_splits emit_phase.splits writer_phase.splits)

lemma log_run_trans: "log_run f t u \<Longrightarrow> log_run f s t \<Longrightarrow> log_run f s u"
  by (induction rule: log_run.induct) (auto intro: log_run.intros)

lemma schedule_run: "schedule f as s = Some t \<Longrightarrow> log_run f s t"
proof (induction as arbitrary: s)
  case (Cons a as)
  then obtain u where u: "perform f a s = Some u" "schedule f as u = Some t" by (auto split: bind_splits)
  then show ?case using log_run_trans [OF Cons.IH [OF u(2)]] perform_step [OF u(1)] by (blast intro: log_run.intros)
qed (simp add: log_run.intros)

definition quiet_sink :: "nat sink" where
  "quiet_sink = \<lparr>sk_lines = [], sk_flushes = 0, sk_write_ok = (\<lambda>_. True), sk_flush_ok = (\<lambda>_. True)\<rparr>"

lemmas log_eval = spawn_def quiet_sink_def emit_begin_def try_send_def emit_end_def send_shutdown_def writer_step_def handle_event_def flush_then_def
  write_event_def flush_all_def add_write_errors_def write_line_def flush_sink_def set_phase_def count_with_def is_counted_def Let_def

text \<open>The counter of queued events is raised after the event has been sent: when the writer is faster, it is lowered first and passes below zero, so
  that for a moment an empty queue is reported to hold \<open>2^64 - 1\<close> events.\<close>

lemma queued_wraps:
  "\<exists>s. log_run Some (spawn [quiet_sink] 1 1) s \<and> ep_queue s = [] \<and> pc_queued (ep_counters s) = - 1"
proof -
  obtain s where s: "schedule Some [Begin 0 7, Send 0, Advance, Advance] (spawn [quiet_sink] 1 1) = Some s"
      "ep_queue s = []" "pc_queued (ep_counters s) = - 1"
    by (simp add: log_eval)
  then show ?thesis by (blast intro: schedule_run)
qed

text \<open>An event sent between the writer's last look at the queue and the end of the receiver is accepted, never counted as dropped and never
  written.\<close>

lemma accepted_then_lost:
  "\<exists>s. log_run Some (spawn [quiet_sink] 2 1) s \<and> ep_writer s = Finished \<and> ep_taken s = [7] \<and> ep_handled s = [] \<and> pc_dropped (ep_counters s) = 0 \<and>
     ep_threads s = [Idle]"
proof -
  obtain s where s: "schedule Some [Begin 0 7, Stop, Advance, Advance, Send 0, Advance, End 0] (spawn [quiet_sink] 2 1) = Some s"
      "ep_writer s = Finished" "ep_taken s = [7]" "ep_handled s = []" "pc_dropped (ep_counters s) = 0" "ep_threads s = [Idle]"
    by (simp add: log_eval)
  then show ?thesis by (blast intro: schedule_run)
qed

theorem event_log_faithful_witness:
  "\<exists>s. log_run Some (spawn [quiet_sink] 1 2) s \<and> map sk_lines (ep_sinks s) = [[7 :: nat]] \<and> pc_emitted (ep_counters s) = 2 \<and> pc_dropped (ep_counters s) = 1"
proof -
  let ?as = "[Begin 0 7, Begin 1 8, Send 0, Send 1, Advance, Advance, End 1, End 0]"
  obtain s where s: "schedule Some ?as (spawn [quiet_sink] 1 2) = Some s" "ep_handled s = [7]" "ep_taken s = [7]" "pc_dropped (ep_counters s) = 1"
      "ep_threads s = [Idle, Idle]"
    by (simp add: log_eval numeral_2_eq_2)
  have r: "log_run Some (spawn [quiet_sink] 1 2) s" using s(1) by (rule schedule_run)
  show ?thesis
    using event_log_faithful [OF r] r s by (auto simp: quiet_sink_def phases_def is_counted_def List.map_filter_simps)
qed

theorem shutdown_writes_all_witness:
  "\<exists>s t. log_run Some (spawn [quiet_sink] 3 1) s \<and> ep_handled s = [] \<and> t = (writer_step Some ^^ 7) s \<and> ep_writer t = Finished \<and>
     (\<exists>rest. ep_handled t = [7 :: nat] @ rest)"
proof -
  obtain s where s: "schedule Some [Begin 0 7, Send 0, End 0, Stop] (spawn [quiet_sink] 3 1) = Some s" "ep_mark s = Some 1" "ep_taken s = [7]"
      "length (ep_queue s) = 2" "ep_handled s = []"
    by (simp add: log_eval)
  have r: "log_run Some (spawn [quiet_sink] 3 1) s" using s(1) by (rule schedule_run)
  show ?thesis using shutdown_writes_all [OF r s(2)] r s by auto
qed

end
