(* ===== verification/Usn.thy ===== *)
theory Usn
  imports HostRules
begin

text \<open>
  The NTFS change journal (\<open>crates/hids/src/usn.rs\<close>): records, whole read responses, the state of the journal and
  the plan for catching up after a restart. Integers are little-endian words; a file name is the list of its Unicode
  code points. A parser returns \<open>None\<close> for a panic, \<open>Inl\<close> for a rejected record.
\<close>

section \<open>Records\<close>

definition v2_header :: nat where
  "v2_header = 60"

definition v3_header :: nat where
  "v3_header = 76"

definition next_usn_prefix :: nat where
  "next_usn_prefix = 8"

definition journal_data_v0 :: nat where
  "journal_data_v0 = 56"

definition max_name_chars :: nat where
  "max_name_chars = 255"

record usn_record =
  ur_usn :: int
  ur_file_reference :: "128 word"
  ur_parent_reference :: "128 word"
  ur_timestamp :: int
  ur_reason :: "32 word"
  ur_attributes :: "32 word"
  ur_file_name :: "nat list"
  ur_version :: "16 word \<times> 16 word"

definition usn_is_directory :: "usn_record \<Rightarrow> bool" where
  "usn_is_directory r \<longleftrightarrow> and (ur_attributes r) 0x10 \<noteq> 0"

text \<open>The reasons that mean a change of content: data overwritten, extended or truncated, the same of named streams,
  and a stream added or removed.\<close>

definition content_reasons :: "32 word" where
  "content_reasons = or 0x1 (or 0x2 (or 0x4 (or 0x10 (or 0x20 (or 0x40 0x200000)))))"

text \<open>Basic information, security, extended attributes, compression, encryption, object id, reparse point, hard
  link, indexing and integrity.\<close>

definition attribute_reasons :: "32 word" where
  "attribute_reasons = or 0x8000 (or 0x800 (or 0x400 (or 0x20000 (or 0x40000 (or 0x80000 (or 0x100000 (or 0x10000 (or 0x4000 0x800000))))))))"

definition usn_change :: "usn_record \<Rightarrow> file_change option" where
  "usn_change r =
     (if and (ur_reason r) 0x200 \<noteq> 0 then Some Deleted
      else if and (ur_reason r) 0x100 \<noteq> 0 then Some Created
      else if and (ur_reason r) (or 0x1000 0x2000) \<noteq> 0 then Some Renamed
      else if and (ur_reason r) content_reasons \<noteq> 0 then Some Modified
      else if and (ur_reason r) attribute_reasons \<noteq> 0 then Some AttributesChanged
      else None)"

datatype record_error =
    TooShort nat
  | UnsupportedVersion "16 word" "16 word"
  | LengthMismatch nat nat
  | NameOutOfBounds nat nat nat
  | OddNameLength nat

text \<open>\<open>read_int!\<close>: a little-endian integer of \<open>width\<close> bytes, when it fits.\<close>

definition read_le :: "nat \<Rightarrow> bytes \<Rightarrow> nat \<Rightarrow> 'a::len word option" where
  "read_le width bs pos = (if pos + width \<le> length bs then Some (be_word (rev (take width (drop pos bs)))) else None)"

section \<open>Names\<close>

text \<open>\<open>String::from_utf16_lossy\<close>: an unpaired surrogate becomes the replacement character.\<close>

fun from_utf16_lossy :: "nat list \<Rightarrow> nat list" where
  "from_utf16_lossy [] = []"
| "from_utf16_lossy [u] = [if u < 0xD800 \<or> 0xDFFF < u then u else 0xFFFD]"
| "from_utf16_lossy (u # v # us) =
     (if u < 0xD800 \<or> 0xDFFF < u then u # from_utf16_lossy (v # us)
      else if 0xDC00 \<le> u \<or> v < 0xDC00 \<or> 0xDFFF < v then 0xFFFD # from_utf16_lossy (v # us)
      else ((u mod 0x400) * 0x400 + v mod 0x400 + 0x10000) # from_utf16_lossy us)"

fun code_units :: "bytes \<Rightarrow> nat list" where
  "code_units (a # b # bs) = unat (be_word [b, a] :: 16 word) # code_units bs"
| "code_units _ = []"

definition is_control :: "nat \<Rightarrow> bool" where
  "is_control c \<longleftrightarrow> c < 32 \<or> 127 \<le> c \<and> c < 160"

definition decode_name :: "bytes \<Rightarrow> nat list" where
  "decode_name bs = map (\<lambda>c. if is_control c then 46 else c) (take max_name_chars (from_utf16_lossy (code_units bs)))"

section \<open>Parsing\<close>

text \<open>The \<open>?\<close> operator in a function that may panic.\<close>

definition tried :: "('e + 'a) option \<Rightarrow> ('a \<Rightarrow> ('e + 'b) option) \<Rightarrow> ('e + 'b) option" where
  "tried x f = (case x of None \<Rightarrow> None | Some (Inl e) \<Rightarrow> Some (Inl e) | Some (Inr a) \<Rightarrow> f a)"

definition usn_field :: "nat \<Rightarrow> bytes \<Rightarrow> nat \<Rightarrow> nat \<Rightarrow> (record_error + 'a::len word) option" where
  "usn_field width bs pos len = Some (case read_le width bs pos of Some w \<Rightarrow> Inr w | None \<Rightarrow> Inl (TooShort len))"

definition header_of :: "16 word \<Rightarrow> nat option" where
  "header_of major = (if major = 2 then Some v2_header else if major = 3 then Some v3_header else None)"

text \<open>File and parent reference, and where the fields after them start.\<close>

definition read_references :: "bytes \<Rightarrow> nat \<Rightarrow> 16 word \<Rightarrow> (record_error + 128 word \<times> 128 word \<times> nat) option" where
  "read_references rec declared major =
     (if major = 2
      then tried (usn_field 8 rec 8 declared) (\<lambda>f :: 64 word. tried (usn_field 8 rec 16 declared) (\<lambda>p :: 64 word.
        Some (Inr (ucast f, ucast p, 24))))
      else tried (usn_field 16 rec 8 declared) (\<lambda>f :: 128 word. tried (usn_field 16 rec 24 declared) (\<lambda>p :: 128 word.
        Some (Inr (f, p, 40)))))"

definition read_fields :: "bytes \<Rightarrow> nat \<Rightarrow> nat \<Rightarrow> 16 word \<Rightarrow> 16 word \<Rightarrow> (record_error + usn_record) option" where
  "read_fields rec declared header major minor =
     tried (read_references rec declared major) (\<lambda>(file_reference, parent_reference, rest).
     tried (usn_field 8 rec rest declared) (\<lambda>usn :: 64 word.
     tried (usn_field 8 rec (rest + 8) declared) (\<lambda>timestamp :: 64 word.
     tried (usn_field 4 rec (rest + 16) declared) (\<lambda>reason :: 32 word.
     tried (usn_field 4 rec (rest + 28) declared) (\<lambda>attributes :: 32 word.
     tried (usn_field 2 rec (rest + 32) declared) (\<lambda>name_len16 :: 16 word.
     tried (usn_field 2 rec (rest + 34) declared) (\<lambda>name_offset16 :: 16 word.
       let name_len = unat name_len16; name_offset = unat name_offset16; stop = name_offset + name_len in
       if odd name_len then Some (Inl (OddNameLength name_len))
       else if name_offset < header \<or> declared < stop then Some (Inl (NameOutOfBounds name_offset name_len declared))
       else map_option (\<lambda>name. Inr \<lparr>ur_usn = sint usn, ur_file_reference = file_reference, ur_parent_reference = parent_reference,
         ur_timestamp = sint timestamp, ur_reason = reason, ur_attributes = attributes, ur_file_name = decode_name name,
         ur_version = (major, minor)\<rparr>) (slice rec name_offset stop))))))))"

definition parse_record :: "bytes \<Rightarrow> (record_error + usn_record) option" where
  "parse_record bs =
     tried (usn_field 4 bs 0 (length bs)) (\<lambda>declared32 :: 32 word.
     tried (usn_field 2 bs 4 (length bs)) (\<lambda>major :: 16 word.
     tried (usn_field 2 bs 6 (length bs)) (\<lambda>minor :: 16 word.
       case header_of major of
         None \<Rightarrow> Some (Inl (UnsupportedVersion major minor))
       | Some header \<Rightarrow>
           let declared = unat declared32 in
           if declared < header \<or> length bs < declared then Some (Inl (LengthMismatch declared (length bs)))
           else Option.bind (slice bs 0 declared) (\<lambda>rec. read_fields rec declared header major minor))))"

record read_response =
  rr_next_usn :: int
  rr_records :: "usn_record list"
  rr_rejected :: nat

definition default_read_response :: read_response where
  "default_read_response = \<lparr>rr_next_usn = 0, rr_records = [], rr_rejected = 0\<rparr>"

definition reject :: "read_response \<Rightarrow> read_response" where
  "reject r = r\<lparr>rr_rejected := rr_rejected r + 1\<rparr>"

definition collect :: "record_error + usn_record \<Rightarrow> read_response \<Rightarrow> read_response" where
  "collect x r = (case x of Inr rec \<Rightarrow> r\<lparr>rr_records := rr_records r @ [rec]\<rparr> | Inl e \<Rightarrow> reject r)"

function walk_records :: "bytes \<Rightarrow> nat \<Rightarrow> read_response \<Rightarrow> read_response option" where
  "walk_records buffer offset r =
     (if length buffer \<le> offset then Some r
      else let remaining = drop offset buffer in
        case read_le 4 remaining 0 of
          None \<Rightarrow> Some (reject r)
        | Some (declared32 :: 32 word) \<Rightarrow>
            let declared = unat declared32 in
            if declared < v2_header \<or> length remaining < declared then Some (reject r)
            else Option.bind (slice remaining 0 declared) (\<lambda>rec.
              Option.bind (parse_record rec) (\<lambda>x. walk_records buffer (offset + declared) (collect x r))))"
  by pat_completeness auto
termination
  by (relation "measure (\<lambda>(buffer, offset, r). length buffer - offset)") (auto simp: v2_header_def)

declare walk_records.simps [simp del]

definition parse_read_response :: "bytes \<Rightarrow> read_response option" where
  "parse_read_response buffer = (case read_le 8 buffer 0 of
       None \<Rightarrow> Some default_read_response
     | Some (next_usn :: 64 word) \<Rightarrow> walk_records buffer next_usn_prefix (default_read_response\<lparr>rr_next_usn := sint next_usn\<rparr>))"

section \<open>The journal\<close>

record journal_data =
  jd_journal_id :: "64 word"
  jd_first_usn :: int
  jd_next_usn :: int
  jd_lowest_valid_usn :: int
  jd_max_usn :: int

definition parse_journal_data :: "bytes \<Rightarrow> journal_data option" where
  "parse_journal_data bs =
     (if length bs < journal_data_v0 then None
      else Option.bind (read_le 8 bs 0) (\<lambda>journal_id :: 64 word.
        Option.bind (read_le 8 bs 8) (\<lambda>first_usn :: 64 word.
        Option.bind (read_le 8 bs 16) (\<lambda>next_usn :: 64 word.
        Option.bind (read_le 8 bs 24) (\<lambda>lowest :: 64 word.
        Option.bind (read_le 8 bs 32) (\<lambda>max_usn :: 64 word.
        Some \<lparr>jd_journal_id = journal_id, jd_first_usn = sint first_usn, jd_next_usn = sint next_usn,
          jd_lowest_valid_usn = sint lowest, jd_max_usn = sint max_usn\<rparr>))))))"

datatype rescan_reason = NoStoredPosition | JournalReplaced | RecordsAgedOut | PositionFromTheFuture

datatype catch_up = Resume int | FullRescan rescan_reason

definition plan_catch_up :: "(64 word \<times> int) option \<Rightarrow> journal_data \<Rightarrow> catch_up" where
  "plan_catch_up remembered current = (case remembered of
       None \<Rightarrow> FullRescan NoStoredPosition
     | Some (stored_journal, stored_usn) \<Rightarrow>
         if stored_journal \<noteq> jd_journal_id current then FullRescan JournalReplaced
         else if jd_next_usn current < stored_usn then FullRescan PositionFromTheFuture
         else if stored_usn < jd_lowest_valid_usn current \<or> stored_usn < jd_first_usn current then FullRescan RecordsAgedOut
         else Resume stored_usn)"


section \<open>Reading what was written\<close>

definition le_bytes :: "nat \<Rightarrow> 'a::len word \<Rightarrow> bytes" where
  "le_bytes n w = rev (be_bytes n w)"

lemma length_le_bytes [simp]: "length (le_bytes n w) = n"
  by (simp add: le_bytes_def)

lemma read_le_at: "length xs = pos \<Longrightarrow> LENGTH('a) \<le> 8 * n \<Longrightarrow> read_le n (xs @ le_bytes n w @ ys) pos = Some w" for w :: "'a::len word"
  by (simp add: read_le_def le_bytes_def be_word_be_bytes)

lemma read_le_total: "pos + n \<le> length bs \<Longrightarrow> \<exists>w. read_le n bs pos = Some w"
  by (simp add: read_le_def)

lemma tried_simps [simp]: "tried (Some (Inr a)) f = f a" "tried (Some (Inl e)) f = Some (Inl e)" "tried None f = None"
  by (simp_all add: tried_def)

definition returns :: "'a option \<Rightarrow> bool" where
  "returns x \<longleftrightarrow> x \<noteq> None"

lemma returns_intros [intro!]: "returns (Some a)" "returns (usn_field n bs pos len)"
  by (simp_all add: returns_def usn_field_def)

lemma tried_returns [intro!]: "returns x \<Longrightarrow> (\<And>a. returns (f a)) \<Longrightarrow> returns (tried x f)"
  by (auto simp: returns_def tried_def split: option.split sum.split)

text \<open>No record makes the parser panic.\<close>

lemma fields_return: "length rec = n \<Longrightarrow> returns (read_fields rec n header major minor)"
proof -
  have "returns (read_references rec n major)" by (auto simp: read_references_def)
  moreover assume "length rec = n"
  moreover have "returns (map_option g x)" if "x \<noteq> None" for g x using that by (simp add: returns_def)
  ultimately show ?thesis unfolding read_fields_def by (auto simp: Let_def slice_def)
qed

lemma record_returns: "returns (parse_record bs)"
proof -
  have "returns (Option.bind (slice bs 0 n) (\<lambda>rec. read_fields rec n header major minor))" if "n \<le> length bs" for n header major minor
    using that fields_return [of "take n bs"] by (simp add: slice_def)
  then show ?thesis unfolding parse_record_def by (auto simp: Let_def split: option.split)
qed

text \<open>How many records and rejections a buffer can hold.\<close>

definition outcomes :: "read_response \<Rightarrow> nat" where
  "outcomes r = length (rr_records r) + rr_rejected r"

lemma outcomes_simps [simp]: "outcomes (reject r) = Suc (outcomes r)" "outcomes (collect x r) = Suc (outcomes r)"
  by (simp_all add: outcomes_def reject_def collect_def split: sum.split)

lemma walk_bounded:
  "\<exists>r'. walk_records buffer offset r = Some r' \<and> outcomes r' \<le> outcomes r + (length buffer - offset + 59) div 60 \<and> rr_next_usn r' = rr_next_usn r"
proof (induction buffer offset r rule: walk_records.induct)
  case (1 buffer offset r)
  let ?rem = "drop offset buffer"
  consider "length buffer \<le> offset" | "offset < length buffer" "read_le 4 ?rem 0 = (None :: 32 word option)"
    | w :: "32 word" where "offset < length buffer" "read_le 4 ?rem 0 = Some w" "unat w < v2_header \<or> length ?rem < unat w"
    | w :: "32 word" where "offset < length buffer" "read_le 4 ?rem 0 = Some w" "\<not> (unat w < v2_header \<or> length ?rem < unat w)"
    by (metis not_le not_Some_eq)
  then show ?case
  proof cases
    case 4
    obtain x where x: "parse_record (take (unat w) ?rem) = Some x"
      using record_returns unfolding returns_def by blast
    have rec: "slice ?rem 0 (unat w) = Some (take (unat w) ?rem)" using 4(3) by (simp add: slice_def)
    have "\<exists>r'. walk_records buffer (offset + unat w) (collect x r) = Some r' \<and>
        outcomes r' \<le> outcomes (collect x r) + (length buffer - (offset + unat w) + 59) div 60 \<and> rr_next_usn r' = rr_next_usn (collect x r)"
      using 1 [OF _ refl 4(2) refl 4(3) rec x] 4(1) by simp
    moreover have "walk_records buffer offset r = walk_records buffer (offset + unat w) (collect x r)"
      using 4 x rec by (subst walk_records.simps) (simp add: Let_def)
    moreover have "Suc (i div 60) \<le> j div 60" if "i + 60 \<le> j" for i j :: nat using div_le_mono [OF that, of 60] by simp
    then have "Suc ((length buffer - (offset + unat w) + 59) div 60) \<le> (length buffer - offset + 59) div 60"
      by this (use 4(1,3) in \<open>unfold v2_header_def length_drop, linarith\<close>)
    moreover have "rr_next_usn (collect x r) = rr_next_usn r" by (simp add: collect_def reject_def split: sum.split)
    ultimately show ?thesis by fastforce
  qed (subst walk_records.simps, simp add: Let_def reject_def outcomes_def)+
qed

text \<open>A record as it lies in a response: its first four bytes are its length.\<close>

definition well_sized :: "bytes \<Rightarrow> bool" where
  "well_sized c \<longleftrightarrow> v2_header \<le> length c \<and> length c < 2 ^ 32 \<and> take 4 c = le_bytes 4 (word_of_nat (length c) :: 32 word)"

definition collect_all :: "bytes list \<Rightarrow> read_response \<Rightarrow> read_response" where
  "collect_all cs r = fold (\<lambda>c. collect (the (parse_record c))) cs r"

lemma well_sized_length: "well_sized c \<Longrightarrow> read_le 4 (c @ xs) 0 = Some (word_of_nat (length c) :: 32 word)"
proof -
  assume c: "well_sized c"
  then have "take 4 (c @ xs) = le_bytes 4 (word_of_nat (length c) :: 32 word)" "4 \<le> length (c @ xs)"
    by (simp_all add: well_sized_def v2_header_def)
  then show ?thesis by (simp add: read_le_def le_bytes_def be_word_be_bytes)
qed

lemma walk_chunks: "list_all well_sized cs \<Longrightarrow> walk_records (pre @ concat cs) (length pre) r = Some (collect_all cs r)"
proof (induction cs arbitrary: pre r)
  case Nil
  then show ?case by (subst walk_records.simps) (simp add: collect_all_def)
next
  case (Cons c cs)
  then have c: "well_sized c" and len: "unat (word_of_nat (length c) :: 32 word) = length c"
    by (simp_all add: well_sized_def unat_of_nat)
  obtain x where x: "parse_record c = Some x" using record_returns unfolding returns_def by blast
  have "c \<noteq> []" using c by (auto simp: well_sized_def v2_header_def)
  then have "walk_records (pre @ concat (c # cs)) (length pre) r = walk_records (pre @ concat (c # cs)) (length pre + length c) (collect x r)"
    using c len x by (subst walk_records.simps) (simp add: well_sized_length Let_def slice_def, simp add: well_sized_def)
  also have "\<dots> = walk_records ((pre @ c) @ concat cs) (length (pre @ c)) (collect x r)" by simp
  also have "\<dots> = Some (collect_all cs (collect x r))" by (rule Cons.IH) (use Cons.prems in simp)
  finally show ?case by (simp add: collect_all_def x)
qed

lemma collect_all_eq:
  "rr_next_usn (collect_all cs r) = rr_next_usn r"
  "rr_records (collect_all cs r) = rr_records r @ List.map_filter (\<lambda>c. case parse_record c of Some (Inr rec) \<Rightarrow> Some rec | _ \<Rightarrow> None) cs"
  "rr_rejected (collect_all cs r) = rr_rejected r + length (filter (\<lambda>c. case parse_record c of Some (Inr rec) \<Rightarrow> False | _ \<Rightarrow> True) cs)"
proof (induction cs arbitrary: r)
  case (Cons c cs)
  obtain x where x: "parse_record c = Some x" using record_returns unfolding returns_def by blast
  {
    case 1 show ?case using Cons(1) [of "collect x r"] x by (simp add: collect_all_def collect_def reject_def split: sum.split)
  next
    case 2 show ?case using Cons(2) [of "collect x r"] x
      by (cases x) (simp_all add: collect_all_def collect_def reject_def List.map_filter_simps)
  next
    case 3 show ?case using Cons(3) [of "collect x r"] x
      by (cases x) (simp_all add: collect_all_def collect_def reject_def)
  }
qed (simp_all add: collect_all_def List.map_filter_simps)

text \<open>A response of the journal is read record by record: whatever the records are, as long as each says how long it is,
every record that parses is delivered, in order, every one that does not is counted, and a bad one never hides or shifts the ones
after it.\<close>

theorem response_read_record_by_record:
  assumes "list_all well_sized cs"
  shows "parse_read_response (le_bytes 8 n @ concat cs) = Some \<lparr>rr_next_usn = sint (n :: 64 word),
    rr_records = List.map_filter (\<lambda>c. case parse_record c of Some (Inr rec) \<Rightarrow> Some rec | _ \<Rightarrow> None) cs,
    rr_rejected = length (filter (\<lambda>c. case parse_record c of Some (Inr rec) \<Rightarrow> False | _ \<Rightarrow> True) cs)\<rparr>"
proof -
  let ?r = "default_read_response\<lparr>rr_next_usn := sint n\<rparr>"
  have "read_le 8 (le_bytes 8 n @ concat cs) 0 = Some n" using read_le_at [of "[]" 0 8 n "concat cs"] by simp
  moreover have "walk_records (le_bytes 8 n @ concat cs) 8 ?r = Some (collect_all cs ?r)"
    using walk_chunks [OF assms, of "le_bytes 8 n"] by simp
  ultimately show ?thesis
    by (simp add: parse_read_response_def next_usn_prefix_def) (intro read_response.equality; simp add: collect_all_eq default_read_response_def)
qed

text \<open>Whatever the kernel hands back, reading it returns, and the number of records and rejections together is at most one for
every sixty bytes begun after the prefix: a corrupt length stops the walk instead of being stepped through.\<close>

theorem response_bounded:
  "\<exists>r. parse_read_response buffer = Some r \<and> length (rr_records r) + rr_rejected r \<le> (length buffer - 8 + 59) div 60"
proof (cases "read_le 8 buffer 0 :: 64 word option")
  case None
  then show ?thesis by (simp add: parse_read_response_def default_read_response_def)
next
  case (Some n)
  then show ?thesis
    using walk_bounded [of buffer 8 "default_read_response\<lparr>rr_next_usn := sint n\<rparr>"]
    by (auto simp: parse_read_response_def next_usn_prefix_def outcomes_def default_read_response_def)
qed

section \<open>The wire format\<close>

text \<open>The documented layout of a record, version 2 and version 3, with its name (UTF-16 code units) right after the
  header and padding behind it.\<close>

definition wire_tail :: "nat \<Rightarrow> usn_record \<Rightarrow> 64 word \<Rightarrow> 64 word \<Rightarrow> 32 word \<Rightarrow> 32 word \<Rightarrow> 16 word list \<Rightarrow> bytes \<Rightarrow> bytes" where
  "wire_tail header r usn timestamp source_info security_id units padding =
     le_bytes 8 usn @ le_bytes 8 timestamp @ le_bytes 4 (ur_reason r) @ le_bytes 4 source_info @ le_bytes 4 security_id @
     le_bytes 4 (ur_attributes r) @ le_bytes 2 (word_of_nat (2 * length units) :: 16 word) @ le_bytes 2 (word_of_nat header :: 16 word) @
     concat (map (le_bytes 2) units) @ padding"

definition wire_references :: "usn_record \<Rightarrow> bytes" where
  "wire_references r = (if fst (ur_version r) = 2
     then le_bytes 8 (ucast (ur_file_reference r) :: 64 word) @ le_bytes 8 (ucast (ur_parent_reference r) :: 64 word)
     else le_bytes 16 (ur_file_reference r) @ le_bytes 16 (ur_parent_reference r))"

definition wire_record :: "usn_record \<Rightarrow> 64 word \<Rightarrow> 64 word \<Rightarrow> 32 word \<Rightarrow> 32 word \<Rightarrow> 16 word list \<Rightarrow> bytes \<Rightarrow> bytes" where
  "wire_record r usn timestamp source_info security_id units padding =
     (let header = (if fst (ur_version r) = 2 then v2_header else v3_header)
      in le_bytes 4 (word_of_nat (header + 2 * length units + length padding) :: 32 word) @
         le_bytes 2 (fst (ur_version r)) @ le_bytes 2 (snd (ur_version r)) @ wire_references r @
         wire_tail header r usn timestamp source_info security_id units padding)"

text \<open>A record a journal can hold: a known version, references that fit it, a name within its 16-bit length. The name on the wire is \<open>units\<close>.\<close>

definition storable :: "usn_record \<Rightarrow> 64 word \<Rightarrow> 64 word \<Rightarrow> 16 word list \<Rightarrow> bytes \<Rightarrow> bool" where
  "storable r usn timestamp units padding \<longleftrightarrow>
     (fst (ur_version r) = 2 \<and> ucast (ucast (ur_file_reference r) :: 64 word) = ur_file_reference r \<and>
        ucast (ucast (ur_parent_reference r) :: 64 word) = ur_parent_reference r \<or> fst (ur_version r) = 3) \<and>
     ur_usn r = sint usn \<and> ur_timestamp r = sint timestamp \<and> length units < 2 ^ 15 \<and> length padding < 2 ^ 16"

lemma concat_units_length: "length (concat (map (le_bytes 2) units)) = 2 * length units" for units :: "16 word list"
  by (induction units) simp_all

lemma field_at: "bs = xs @ le_bytes n w @ ys \<Longrightarrow> length xs = pos \<Longrightarrow> LENGTH('a) \<le> 8 * n \<Longrightarrow> usn_field n bs pos len = Some (Inr w)"
  for w :: "'a::len word"
  by (simp add: usn_field_def read_le_at)

lemma wire_length: "length (wire_record r usn timestamp si sid units padding) =
    (if fst (ur_version r) = 2 then v2_header else v3_header) + 2 * length units + length padding"
  by (simp add: wire_record_def wire_tail_def wire_references_def Let_def concat_units_length v2_header_def v3_header_def)

lemma tail_read:
  assumes "storable r usn timestamp units padding" and "length pre = rest" and "rest + 36 = header" and "header < 2 ^ 15"
    and "rec = pre @ wire_tail header r usn timestamp si sid units padding"
    and "read_references rec (length rec) (fst (ur_version r)) = Some (Inr (ur_file_reference r, ur_parent_reference r, rest))"
  shows "read_fields rec (length rec) header (fst (ur_version r)) (snd (ur_version r)) = Some (Inr (r\<lparr>ur_file_name := decode_name (concat (map (le_bytes 2) units))\<rparr>))"
proof -
  let ?units = "concat (map (le_bytes 2) units) @ padding"
  define nl nof :: "16 word" where "nl = word_of_nat (2 * length units)" and "nof = word_of_nat header"
  define t where "t = le_bytes 4 (ur_attributes r) @ le_bytes 2 nl @ le_bytes 2 nof @ ?units"
  have w: "rec = pre @ le_bytes 8 usn @ le_bytes 8 timestamp @ le_bytes 4 (ur_reason r) @ le_bytes 4 si @ le_bytes 4 sid @ t"
    using assms(5) by (simp add: wire_tail_def t_def nl_def nof_def)
  let ?l = "length rec"
  have f1: "usn_field 8 rec rest ?l = Some (Inr usn)" by (rule field_at [OF w]) (simp_all add: assms(2))
  have f2: "usn_field 8 rec (rest + 8) ?l = Some (Inr timestamp)"
    by (rule field_at [where xs = "pre @ le_bytes 8 usn"]) (simp_all add: w assms(2))
  have f3: "usn_field 4 rec (rest + 16) ?l = Some (Inr (ur_reason r))"
    by (rule field_at [where xs = "pre @ le_bytes 8 usn @ le_bytes 8 timestamp"]) (simp_all add: w assms(2))
  let ?p = "pre @ le_bytes 8 usn @ le_bytes 8 timestamp @ le_bytes 4 (ur_reason r) @ le_bytes 4 si @ le_bytes 4 sid"
  have f4: "usn_field 4 rec (rest + 28) ?l = Some (Inr (ur_attributes r))"
    by (rule field_at [where xs = ?p]) (simp_all add: w t_def assms(2))
  have f5: "usn_field 2 rec (rest + 32) ?l = Some (Inr nl)"
    by (rule field_at [where xs = "?p @ le_bytes 4 (ur_attributes r)"]) (simp_all add: w t_def assms(2))
  have f6: "usn_field 2 rec (rest + 34) ?l = Some (Inr nof)"
    by (rule field_at [where xs = "?p @ le_bytes 4 (ur_attributes r) @ le_bytes 2 nl"]) (simp_all add: w t_def assms(2))
  have n: "unat nl = 2 * length units" "unat nof = header"
    using assms(1,4) unfolding nl_def nof_def by (simp_all only: storable_def unat_of_nat) simp_all
  have l: "?l = header + 2 * length units + length padding"
    using assms(2,3) by (simp add: w t_def concat_units_length)
  have "drop header rec = ?units" using assms(2,3) by (simp add: w t_def)
  then have s: "slice rec header (header + 2 * length units) = Some (concat (map (le_bytes 2) units))"
    by (simp add: slice_def l concat_units_length)
  have v: "r\<lparr>ur_file_name := decode_name (concat (map (le_bytes 2) units))\<rparr> = \<lparr>ur_usn = sint usn, ur_file_reference = ur_file_reference r, ur_parent_reference = ur_parent_reference r,
      ur_timestamp = sint timestamp, ur_reason = ur_reason r, ur_attributes = ur_attributes r,
      ur_file_name = decode_name (concat (map (le_bytes 2) units)), ur_version = ur_version r\<rparr>"
    using assms(1) by (simp add: storable_def)
  have fit: "\<not> ?l < header + 2 * length units" using l by simp
  show ?thesis unfolding read_fields_def
    by (simp add: assms(6) f1 f2 f3 f4 f5 f6 Let_def n fit s v [symmetric])
qed

lemma references_read:
  assumes "storable r usn timestamp units padding" and rec: "rec = start @ wire_references r @ rest" and "length start = 8"
  shows "read_references rec n (fst (ur_version r)) = Some (Inr (ur_file_reference r, ur_parent_reference r, 8 + length (wire_references r)))"
proof (cases "fst (ur_version r) = 2")
  case True
  have "usn_field 8 rec 8 n = Some (Inr (ucast (ur_file_reference r) :: 64 word))"
    by (rule field_at [where xs = start]) (simp_all add: rec wire_references_def True assms(3))
  moreover have "usn_field 8 rec 16 n = Some (Inr (ucast (ur_parent_reference r) :: 64 word))"
    by (rule field_at [where xs = "start @ le_bytes 8 (ucast (ur_file_reference r) :: 64 word)"])
      (simp_all add: rec wire_references_def True assms(3))
  ultimately show ?thesis using assms(1) True by (simp add: read_references_def storable_def wire_references_def)
next
  case False
  have "usn_field 16 rec 8 n = Some (Inr (ur_file_reference r))"
    by (rule field_at [where xs = start]) (simp_all add: rec wire_references_def False assms(3))
  moreover have "usn_field 16 rec 24 n = Some (Inr (ur_parent_reference r))"
    by (rule field_at [where xs = "start @ le_bytes 16 (ur_file_reference r)"])
      (simp_all add: rec wire_references_def False assms(3))
  ultimately show ?thesis using False by (simp add: read_references_def wire_references_def)
qed

lemma record_read:
  assumes "storable r usn timestamp units padding"
  shows "parse_record (wire_record r usn timestamp si sid units padding @ extra) = Some (Inr (r\<lparr>ur_file_name := decode_name (concat (map (le_bytes 2) units))\<rparr>))"
proof -
  let ?v2 = "fst (ur_version r) = 2"
  define header where "header = (if ?v2 then v2_header else v3_header)"
  define rec where "rec = wire_record r usn timestamp si sid units padding"
  define declared where "declared = (word_of_nat (header + 2 * length units + length padding) :: 32 word)"
  define pre where "pre = le_bytes 4 declared @ le_bytes 2 (fst (ur_version r)) @ le_bytes 2 (snd (ur_version r)) @ wire_references r"
  have h: "header_of (fst (ur_version r)) = Some header" "header \<le> 76" "8 + length (wire_references r) + 36 = header"
    "length pre = 8 + length (wire_references r)"
    using assms by (auto simp: storable_def header_of_def header_def pre_def wire_references_def v2_header_def v3_header_def)
  have rec: "rec = pre @ wire_tail header r usn timestamp si sid units padding"
    by (simp add: rec_def wire_record_def Let_def header_def pre_def declared_def)
  have len: "length rec = header + 2 * length units + length padding" by (simp add: rec_def wire_length header_def)
  have d: "unat declared = length rec"
    using assms h(2) unfolding declared_def len by (simp add: unat_of_nat storable_def del: of_nat_add)
  have refs: "read_references rec n (fst (ur_version r)) =
      Some (Inr (ur_file_reference r, ur_parent_reference r, 8 + length (wire_references r)))" for n
    by (rule references_read [OF assms, where start = "le_bytes 4 declared @ le_bytes 2 (fst (ur_version r)) @ le_bytes 2 (snd (ur_version r))"])
      (simp_all add: rec pre_def)
  have "usn_field 4 (rec @ extra) 0 n = Some (Inr declared)" "usn_field 2 (rec @ extra) 4 n = Some (Inr (fst (ur_version r)))"
    "usn_field 2 (rec @ extra) 6 n = Some (Inr (snd (ur_version r)))" for n
    by (rule field_at [where xs = "[]"], simp_all add: rec pre_def)
      (rule field_at [where xs = "le_bytes 4 declared"], simp_all,
       rule field_at [where xs = "le_bytes 4 declared @ le_bytes 2 (fst (ur_version r))"], simp_all)
  moreover have "read_fields rec (length rec) header (fst (ur_version r)) (snd (ur_version r)) =
      Some (Inr (r\<lparr>ur_file_name := decode_name (concat (map (le_bytes 2) units))\<rparr>))"
    using tail_read [OF assms h(4,3) _ rec refs] h(2) by simp
  ultimately show ?thesis unfolding parse_record_def rec_def [symmetric]
    using h(1) len by (simp add: d slice_def)
qed

section \<open>Names survive\<close>

text \<open>UTF-16 of a list of Unicode scalar values.\<close>

definition scalar :: "nat \<Rightarrow> bool" where
  "scalar c \<longleftrightarrow> c < 0xD800 \<or> 0xE000 \<le> c \<and> c < 0x110000"

definition encode_scalar :: "nat \<Rightarrow> nat list" where
  "encode_scalar c = (if c < 0x10000 then [c] else [0xD800 + (c - 0x10000) div 0x400, 0xDC00 + (c - 0x10000) mod 0x400])"

definition encode_utf16 :: "nat list \<Rightarrow> nat list" where
  "encode_utf16 cs = concat (map encode_scalar cs)"

lemma lossy_scalar: "scalar c \<Longrightarrow> from_utf16_lossy (encode_scalar c @ us) = c # from_utf16_lossy us"
proof (cases "c < 0x10000")
  case True
  assume "scalar c"
  with True show ?thesis by (cases us) (auto simp: encode_scalar_def scalar_def)
next
  case False
  assume c: "scalar c"
  define d where "d = c - 0x10000"
  have d: "c = d + 0x10000" "d div 0x400 < 0x400" using False c by (auto simp: d_def scalar_def)
  have e: "encode_scalar c = [0xD800 + d div 0x400, 0xDC00 + d mod 0x400]" using False by (simp add: encode_scalar_def d_def)
  have "(0xD800 + d div 0x400) mod 0x400 = d div 0x400" "(0xDC00 + d mod 0x400) mod 0x400 = d mod 0x400"
    using d(2) by (simp_all add: mod_add_left_eq [symmetric] mod_add_eq [symmetric])
  moreover have "d mod 0x400 < 0x400" by simp
  ultimately show ?thesis using d e by (simp add: div_mult_mod_eq)
qed

lemma lossy_encoded: "list_all scalar cs \<Longrightarrow> from_utf16_lossy (encode_utf16 cs) = cs"
  by (induction cs) (simp_all add: encode_utf16_def lossy_scalar)

lemma encode_units: "list_all scalar cs \<Longrightarrow> list_all (\<lambda>u. u < 2 ^ 16) (encode_utf16 cs)"
  by (induction cs) (auto simp: encode_utf16_def encode_scalar_def scalar_def)

lemma units_read: "code_units (concat (map (le_bytes 2) us)) = map unat us" for us :: "16 word list"
proof (induction us)
  case (Cons u us)
  obtain a b where ab: "be_bytes 2 u = [a, b]" by (metis be_bytes_Suc length_0_conv length_be_bytes numeral_2_eq_2)
  then have "be_word [a, b] = u" using be_word_be_bytes [of 2 u] by simp
  with ab Cons show ?case by (simp add: le_bytes_def)
qed simp

text \<open>What is left of a name: 255 characters, with a dot for every control character.\<close>

definition printable_name :: "nat list \<Rightarrow> nat list" where
  "printable_name name = map (\<lambda>c. if c < 0x20 \<or> 0x7F \<le> c \<and> c < 0xA0 then 0x2E else c) (take 255 name)"

lemma printable_unchanged: "length name \<le> 255 \<Longrightarrow> list_all (\<lambda>c. \<not> is_control c) name \<Longrightarrow> printable_name name = name"
  unfolding printable_name_def by (simp, intro map_idI) (auto simp: list_all_iff is_control_def)

definition utf16_units :: "nat list \<Rightarrow> 16 word list" where
  "utf16_units name = map word_of_nat (encode_utf16 name)"

lemma name_decoded:
  assumes "list_all scalar name"
  shows "decode_name (concat (map (le_bytes 2) (utf16_units name))) = printable_name name"
proof -
  have "map unat (utf16_units name) = encode_utf16 name"
    unfolding utf16_units_def using encode_units [OF assms(1)] by simp (intro map_idI, auto simp: list_all_iff unat_of_nat)
  then have "code_units (concat (map (le_bytes 2) (utf16_units name))) = encode_utf16 name"
    using units_read [of "utf16_units name"] by simp
  then show ?thesis using assms lossy_encoded by (simp add: decode_name_def max_name_chars_def printable_name_def is_control_def)
qed

text \<open>C26. A journal record is read as it was written: whatever its version (2 or 3), its references, its time, reasons and attributes, its padding and
whatever follows it in the buffer, and whatever Unicode name of fewer than 32768 code units is in it, in UTF-16. The record read is the one written, with the name
cut to its first 255 characters and every control character in it shown as a dot; so a name of at most 255 characters without
control characters is read back unchanged.\<close>

theorem usn_record_read:
  assumes "storable r usn timestamp (utf16_units (ur_file_name r)) padding" and "list_all scalar (ur_file_name r)"
  shows "parse_record (wire_record r usn timestamp source_info security_id (utf16_units (ur_file_name r)) padding @ following) =
      Some (Inr (r\<lparr>ur_file_name := printable_name (ur_file_name r)\<rparr>)) \<and>
    (length (ur_file_name r) \<le> 255 \<and> list_all (\<lambda>c. \<not> is_control c) (ur_file_name r) \<longrightarrow>
      parse_record (wire_record r usn timestamp source_info security_id (utf16_units (ur_file_name r)) padding @ following) = Some (Inr r))"
  using record_read [OF assms(1)] by (simp add: name_decoded [OF assms(2)] printable_unchanged)

section \<open>Catching up\<close>

text \<open>The journal is resumed exactly when the stored position is one of this journal that nothing has overtaken; then every
  record from there to the journal's end is one the journal can still give.\<close>

lemma resumed_exactly:
  "plan_catch_up remembered j = Resume u \<longleftrightarrow> remembered = Some (jd_journal_id j, u) \<and> u \<le> jd_next_usn j \<and>
     (\<forall>v \<ge> u. jd_first_usn j \<le> v \<and> jd_lowest_valid_usn j \<le> v)"
  by (auto simp: plan_catch_up_def split: option.splits prod.splits if_splits)

lemma rescan_reasons:
  "plan_catch_up remembered j = FullRescan reason \<Longrightarrow> (case reason of
     NoStoredPosition \<Rightarrow> remembered = None
   | JournalReplaced \<Rightarrow> \<exists>i u. remembered = Some (i, u) \<and> i \<noteq> jd_journal_id j
   | PositionFromTheFuture \<Rightarrow> \<exists>u. remembered = Some (jd_journal_id j, u) \<and> jd_next_usn j < u
   | RecordsAgedOut \<Rightarrow> \<exists>u. remembered = Some (jd_journal_id j, u) \<and> u < max (jd_lowest_valid_usn j) (jd_first_usn j))"
  by (auto simp: plan_catch_up_def split: option.splits prod.splits if_splits)

text \<open>A deletion is a deletion whatever else the record says, and a bare close is nothing.\<close>

lemma deletion_wins: "bit (ur_reason r) 9 \<Longrightarrow> usn_change r = Some Deleted"
proof -
  assume "bit (ur_reason r) 9"
  then have "bit (and (ur_reason r) 0x200) 9" by (simp add: bit_and_iff)
  then show ?thesis by (auto simp: usn_change_def)
qed

section \<open>Examples\<close>

definition sample_usn :: usn_record where
  "sample_usn = \<lparr>ur_usn = 10, ur_file_reference = 7, ur_parent_reference = 5, ur_timestamp = 0, ur_reason = 0x100, ur_attributes = 0,
     ur_file_name = [0x61, 0x1F600], ur_version = (2, 0)\<rparr>"

definition unknown_usn :: usn_record where
  "unknown_usn = \<lparr>ur_usn = 10, ur_file_reference = 7, ur_parent_reference = 5, ur_timestamp = 0, ur_reason = 0x100, ur_attributes = 0,
     ur_file_name = [0x61], ur_version = (9, 0)\<rparr>"

lemma sample_units: "utf16_units [0x61, 0x1F600] = [0x61, 0xD83D, 0xDE00]"
  by (simp add: utf16_units_def encode_utf16_def encode_scalar_def)

lemma sample_storable: "storable sample_usn 10 0 (utf16_units (ur_file_name sample_usn)) [0, 0]"
  by (simp add: storable_def sample_usn_def utf16_units_def encode_utf16_def encode_scalar_def)

lemma sample_name: "list_all scalar (ur_file_name sample_usn)" "printable_name (ur_file_name sample_usn) = ur_file_name sample_usn"
  by (simp_all add: sample_usn_def scalar_def printable_name_def)

lemma sample_file_name: "ur_file_name sample_usn = [0x61, 0x1F600]"
  by (simp add: sample_usn_def)

lemma sample_kept: "sample_usn\<lparr>ur_file_name := ur_file_name sample_usn\<rparr> = sample_usn"
  by simp

lemma sample_wire: "utf16_units (ur_file_name sample_usn) = [0x61, 0xD83D, 0xDE00]"
  unfolding sample_file_name by (rule sample_units)

theorem usn_record_read_witness:
  "parse_record (wire_record sample_usn 10 0 0 0 [0x61, 0xD83D, 0xDE00] [0, 0] @ [1, 2, 3]) = Some (Inr sample_usn)"
  using conjunct2 [OF usn_record_read [OF sample_storable sample_name(1), of 0 0 "[1, 2, 3]"]] by (simp add: sample_file_name sample_units is_control_def)

lemma wire_well_sized: "length units < 2 ^ 15 \<Longrightarrow> length padding < 2 ^ 16 \<Longrightarrow> well_sized (wire_record r usn timestamp si sid units padding)"
  by (simp add: well_sized_def wire_length) (simp add: wire_record_def Let_def v2_header_def v3_header_def)

theorem response_read_record_by_record_witness:
  "parse_read_response (le_bytes 8 (40 :: 64 word) @ concat [wire_record sample_usn 10 0 0 0 [0x61, 0xD83D, 0xDE00] [0, 0],
     wire_record unknown_usn 10 0 0 0 [0x61] [], wire_record sample_usn 10 0 0 0 [0x61, 0xD83D, 0xDE00] [0, 0]]) =
   Some \<lparr>rr_next_usn = 40, rr_records = [sample_usn, sample_usn], rr_rejected = 1\<rparr>"
proof -
  let ?bad = "wire_record unknown_usn 10 0 0 0 [0x61] []"
  have good: "parse_record (wire_record sample_usn 10 0 0 0 [0x61, 0xD83D, 0xDE00] [0, 0]) = Some (Inr sample_usn)"
    using record_read [OF sample_storable, of 0 0 "[]"]
    unfolding name_decoded [OF sample_name(1)] sample_name(2) sample_kept unfolding sample_wire by simp
  have bad: "parse_record ?bad = Some (Inl (UnsupportedVersion 9 0))" by code_simp
  show ?thesis
    by (subst response_read_record_by_record) (simp_all add: wire_well_sized good bad List.map_filter_simps)
qed

end
