(* ===== verification/Replay.thy ===== *)
theory Replay
  imports Pipeline Usn
begin

text \<open>
  Reading capture files (\<open>crates/capture/src/replay.rs\<close>, \<open>LinkType\<close>, \<open>CaptureError\<close> and the counters of \<open>crates/capture/src/lib.rs\<close>). The
  reader is the list of what its \<open>read\<close> calls find: some bytes, an interruption, or an error; a read takes at most as many bytes as
  were asked for and leaves the rest, and past the end of the list it returns nothing. Lengths and offsets are natural
  numbers, the fields of the file words.
\<close>

section \<open>Headers and errors\<close>

definition file_header_len :: nat where "file_header_len = 24"
definition record_header_len :: nat where "record_header_len = 16"
definition max_frame_len :: nat where "max_frame_len = 262144"

definition magic_micros :: "32 word" where "magic_micros = 0xa1b2c3d4"
definition magic_micros_swapped :: "32 word" where "magic_micros_swapped = 0xd4c3b2a1"
definition magic_nanos :: "32 word" where "magic_nanos = 0xa1b23c4d"
definition magic_nanos_swapped :: "32 word" where "magic_nanos_swapped = 0x4d3cb2a1"
definition magic_pcapng :: "32 word" where "magic_pcapng = 0x0a0d0d0a"

datatype link_type = Ethernet | OtherLink "32 word"

definition link_from_raw :: "32 word \<Rightarrow> link_type" where
  "link_from_raw v = (if v = 1 then Ethernet else OtherLink v)"

fun link_as_raw :: "link_type \<Rightarrow> 32 word" where
  "link_as_raw Ethernet = 1"
| "link_as_raw (OtherLink v) = v"

datatype not_pcap = ShortHeader nat | Pcapng | UnknownMagic "32 word"

datatype capture_error = CaptureIo | NotPcap not_pcap | UnsupportedLinkType "32 word" | RecordTooLarge nat "32 word"
  | Backend string

record file_header =
  fh_version_major :: "16 word"
  fh_version_minor :: "16 word"
  fh_snaplen :: "32 word"
  fh_link_type :: link_type
  fh_nanosecond_timestamps :: bool
  fh_byte_swapped :: bool

text \<open>A field of a header, which is as long as the caller made it.\<close>

definition word_at :: "bool \<Rightarrow> nat \<Rightarrow> bytes \<Rightarrow> nat \<Rightarrow> 'a::len word" where
  "word_at swapped n raw pos = (let bs = take n (drop pos raw) in if swapped then be_word bs else be_word (rev bs))"

definition parse_file_header :: "bytes \<Rightarrow> capture_error + file_header" where
  "parse_file_header raw =
     (let magic_le = word_at False 4 raw 0 :: 32 word;
          build = (\<lambda>swapped nanos. Inr \<lparr>fh_version_major = word_at swapped 2 raw 4, fh_version_minor = word_at swapped 2 raw 6,
            fh_snaplen = word_at swapped 4 raw 16, fh_link_type = link_from_raw (word_at swapped 4 raw 20),
            fh_nanosecond_timestamps = nanos, fh_byte_swapped = swapped\<rparr>)
      in if magic_le = magic_micros then build False False
         else if magic_le = magic_nanos then build False True
         else if magic_le = magic_micros_swapped then build True False
         else if magic_le = magic_nanos_swapped then build True True
         else Inl (NotPcap (if word_at True 4 raw 0 = magic_pcapng \<or> magic_le = magic_pcapng then Pcapng else UnknownMagic magic_le)))"

section \<open>Reading\<close>

datatype read_event = Data bytes | Interrupted | ReadError

type_synonym reader = "read_event list"

definition reader_size :: "reader \<Rightarrow> nat" where
  "reader_size r = sum_list (map (\<lambda>e. case e of Data bs \<Rightarrow> length bs + 1 | _ \<Rightarrow> 1) r)"

text \<open>\<open>fill\<close>: until the buffer is full or the reader has nothing more; the bytes read so far are \<open>got\<close> and \<open>n\<close> are still wanted.\<close>

function fill :: "reader \<Rightarrow> nat \<Rightarrow> bytes \<Rightarrow> (capture_error + bytes) \<times> reader" where
  "fill r n got = (if n = 0 then (Inr got, r)
     else case r of
         [] \<Rightarrow> (Inr got, [])
       | Interrupted # r \<Rightarrow> fill r n got
       | ReadError # r \<Rightarrow> (Inl CaptureIo, r)
       | Data bs # r \<Rightarrow>
           if bs = [] then (Inr got, r)
           else if n < length bs then (Inr (got @ take n bs), Data (drop n bs) # r)
           else fill r (n - length bs) (got @ bs))"
  by pat_completeness auto
termination
  by (relation "measure (\<lambda>(r, n, got). length r)") auto

lemma fill_rules [simp]:
  "fill r 0 got = (Inr got, r)" "fill [] n got = (Inr got, [])" "fill (Interrupted # r) (Suc n) got = fill r (Suc n) got"
  "fill (ReadError # r) (Suc n) got = (Inl CaptureIo, r)" "fill (Data [] # r) (Suc n) got = (Inr got, r)"
  "bs \<noteq> [] \<Longrightarrow> fill (Data bs # r) (Suc n) got =
     (if Suc n < length bs then (Inr (got @ take (Suc n) bs), Data (drop (Suc n) bs) # r) else fill r (Suc n - length bs) (got @ bs))"
  by (subst fill.simps; simp)+

declare fill.simps [simp del]

record capture_counters =
  cc_packets :: nat
  cc_bytes :: nat
  cc_drops :: nat
  cc_interface_drops :: nat

record pcap_replay =
  pr_reader :: reader
  pr_file :: string
  pr_header :: file_header
  pr_buffer :: bytes
  pr_original_len :: nat
  pr_timestamp :: system_time
  pr_counters :: capture_counters
  pr_offset :: nat
  pr_truncated :: bool
  pr_finished :: bool

definition from_reader :: "reader \<Rightarrow> string \<Rightarrow> capture_error + pcap_replay" where
  "from_reader r name = (case fill r file_header_len [] of
       (Inl e, _) \<Rightarrow> Inl e
     | (Inr raw, r) \<Rightarrow>
         if length raw < file_header_len then Inl (NotPcap (ShortHeader (length raw)))
         else case parse_file_header raw of
             Inl e \<Rightarrow> Inl e
           | Inr header \<Rightarrow>
               if fh_link_type header \<noteq> Ethernet then Inl (UnsupportedLinkType (link_as_raw (fh_link_type header)))
               else Inr \<lparr>pr_reader = r, pr_file = name, pr_header = header, pr_buffer = [], pr_original_len = 0, pr_timestamp = 0,
                 pr_counters = \<lparr>cc_packets = 0, cc_bytes = 0, cc_drops = 0, cc_interface_drops = 0\<rparr>, pr_offset = file_header_len,
                 pr_truncated = False, pr_finished = False\<rparr>)"

definition timestamp_of :: "file_header \<Rightarrow> 32 word \<Rightarrow> 32 word \<Rightarrow> system_time" where
  "timestamp_of header seconds fraction =
     (let nanos = (if fh_nanosecond_timestamps header then unat fraction else min (unat fraction * 1000) (2 ^ 32 - 1))
      in int (unat seconds * nanos_per_sec) + int nanos)"

definition read_record :: "pcap_replay \<Rightarrow> (capture_error + bool) \<times> pcap_replay" where
  "read_record p = (case fill (pr_reader p) record_header_len [] of
       (Inl e, r) \<Rightarrow> (Inl e, p\<lparr>pr_reader := r\<rparr>)
     | (Inr raw, r) \<Rightarrow>
         let p = p\<lparr>pr_reader := r\<rparr> in
         if raw = [] then (Inr False, p)
         else if length raw < record_header_len then (Inr False, p\<lparr>pr_truncated := True\<rparr>)
         else
           let at = (\<lambda>pos. word_at (fh_byte_swapped (pr_header p)) 4 raw pos :: 32 word);
               seconds = at 0; fraction = at 4; captured_len = at 8; wire_len = at 12
           in if max_frame_len < unat captured_len then (Inl (RecordTooLarge (pr_offset p) captured_len), p)
              else
                let p = p\<lparr>pr_offset := pr_offset p + record_header_len\<rparr> in
                case fill (pr_reader p) (unat captured_len) [] of
                  (Inl e, r) \<Rightarrow> (Inl e, p\<lparr>pr_reader := r\<rparr>)
                | (Inr frame, r) \<Rightarrow>
                    if length frame < unat captured_len
                    then (Inr False, p\<lparr>pr_reader := r, pr_buffer := frame @ replicate (unat captured_len - length frame) 0, pr_truncated := True\<rparr>)
                    else (Inr True, p\<lparr>pr_reader := r, pr_buffer := frame, pr_offset := pr_offset p + unat captured_len,
                      pr_timestamp := timestamp_of (pr_header p) seconds fraction, pr_original_len := max (unat wire_len) (unat captured_len)\<rparr>))"

datatype captured = Frame raw_packet | IdleSource | EndOfSource

definition next_packet :: "pcap_replay \<Rightarrow> (capture_error + captured) \<times> pcap_replay" where
  "next_packet p =
     (if pr_finished p then (Inr EndOfSource, p)
      else case read_record p of
          (Inl e, p) \<Rightarrow> (Inl e, p)
        | (Inr False, p) \<Rightarrow> (Inr EndOfSource, p\<lparr>pr_finished := True\<rparr>)
        | (Inr True, p) \<Rightarrow>
            let len = length (pr_buffer p);
                p = p\<lparr>pr_counters := (pr_counters p)\<lparr>cc_packets := cc_packets (pr_counters p) + 1, cc_bytes := cc_bytes (pr_counters p) + len\<rparr>\<rparr>
            in (Inr (Frame \<lparr>rp_data = pr_buffer p, rp_original_len = pr_original_len p, rp_timestamp = pr_timestamp p, rp_interface = pr_file p\<rparr>), p))"

text \<open>Polling until the source ends or fails: the frames delivered, and the error that stopped it. Every frame takes a record header out of
  the reader, so the size of the reader bounds the calls.\<close>

fun replay_all :: "nat \<Rightarrow> pcap_replay \<Rightarrow> raw_packet list \<times> capture_error option \<times> pcap_replay" where
  "replay_all 0 p = ([], None, p)"
| "replay_all (Suc fuel) p = (case next_packet p of
       (Inl e, p) \<Rightarrow> ([], Some e, p)
     | (Inr (Frame f), p) \<Rightarrow> (case replay_all fuel p of (fs, e, p) \<Rightarrow> (f # fs, e, p))
     | (Inr IdleSource, p) \<Rightarrow> replay_all fuel p
     | (Inr EndOfSource, p) \<Rightarrow> ([], None, p))"

section \<open>Any reader\<close>

definition bytes_left :: "reader \<Rightarrow> nat" where
  "bytes_left r = sum_list (map (\<lambda>e. case e of Data bs \<Rightarrow> length bs | _ \<Rightarrow> 0) r)"

lemma bytes_left_simps [simp]: "bytes_left [] = 0" "bytes_left (Data bs # r) = length bs + bytes_left r"
  "bytes_left (Interrupted # r) = bytes_left r" "bytes_left (ReadError # r) = bytes_left r"
  by (simp_all add: bytes_left_def)

lemma fill_takes:
  "fill r n got = (res, r') \<Longrightarrow> bytes_left r' \<le> bytes_left r \<and>
   (\<forall>out. res = Inr out \<longrightarrow> bytes_left r' + length out = bytes_left r + length got \<and> length out \<le> length got + n)"
proof (induction r arbitrary: n got)
  case (Cons e r)
  show ?case
  proof (cases n)
    case (Suc m)
    show ?thesis
    proof (cases e)
      case (Data bs)
      show ?thesis
      proof (cases "bs = [] \<or> n < length bs")
        case True
        then show ?thesis using Cons.prems Data Suc by (cases bs) auto
      next
        case False
        then have "fill r (n - length bs) (got @ bs) = (res, r')" using Cons.prems Data Suc by simp
        from Cons.IH [OF this] show ?thesis using False Data by auto
      qed
    qed (use Cons.IH [of n got] Cons.prems Suc in auto)
  qed (use Cons.prems in auto)
qed auto

lemma read_record_takes:
  assumes "read_record p = (res, p')"
  shows "bytes_left (pr_reader p') \<le> bytes_left (pr_reader p)"
    and "res = Inr True \<Longrightarrow> bytes_left (pr_reader p') + record_header_len + length (pr_buffer p') \<le> bytes_left (pr_reader p) \<and>
      length (pr_buffer p') \<le> max_frame_len \<and> length (pr_buffer p') \<le> pr_original_len p'"
    and "pr_finished p' = pr_finished p"
proof -
  obtain h r1 where f1: "fill (pr_reader p) record_header_len [] = (h, r1)" by (metis surj_pair)
  note t1 = fill_takes [OF f1]
  have "bytes_left (pr_reader p') \<le> bytes_left (pr_reader p) \<and> (res = Inr True \<longrightarrow>
      bytes_left (pr_reader p') + record_header_len + length (pr_buffer p') \<le> bytes_left (pr_reader p) \<and> length (pr_buffer p') \<le> max_frame_len \<and>
      length (pr_buffer p') \<le> pr_original_len p') \<and> pr_finished p' = pr_finished p"
  proof (cases h)
    case (Inl e)
    then show ?thesis using assms f1 t1 by (auto simp: read_record_def)
  next
    case (Inr raw)
    let ?len = "word_at (fh_byte_swapped (pr_header p)) 4 raw 8 :: 32 word"
    obtain f r2 where f2: "fill r1 (unat ?len) [] = (f, r2)" by (metis surj_pair)
    note t2 = fill_takes [OF f2]
    show ?thesis using assms f1 f2 t1 t2 Inr
      by (cases f) (auto simp: read_record_def Let_def split: if_splits)
  qed
  then show "bytes_left (pr_reader p') \<le> bytes_left (pr_reader p)" and "res = Inr True \<Longrightarrow>
      bytes_left (pr_reader p') + record_header_len + length (pr_buffer p') \<le> bytes_left (pr_reader p) \<and>
      length (pr_buffer p') \<le> max_frame_len \<and> length (pr_buffer p') \<le> pr_original_len p'" and "pr_finished p' = pr_finished p"
    by blast+
qed

text \<open>Whatever a capture file claims, its reader stays within its means: every frame has at most 262144 bytes and at most its
length on the wire, and all of them together are bytes of the file, each frame having cost a header as well.\<close>

theorem replay_bounded:
  "case replay_all fuel p of (fs, e, p') \<Rightarrow>
     list_all (\<lambda>f. length (rp_data f) \<le> max_frame_len \<and> length (rp_data f) \<le> rp_original_len f) fs \<and>
     sum_list (map (\<lambda>f. record_header_len + length (rp_data f)) fs) + bytes_left (pr_reader p') \<le> bytes_left (pr_reader p)"
proof (induction fuel arbitrary: p)
  case (Suc fuel)
  obtain x p1 where n: "next_packet p = (x, p1)" by (metis surj_pair)
  show ?case
  proof (cases "pr_finished p")
    case True
    then show ?thesis by (simp add: next_packet_def)
  next
    case False
    obtain res q where r: "read_record p = (res, q)" by (metis surj_pair)
    note t = read_record_takes [OF r]
    show ?thesis
    proof (cases "res = Inr True")
      case True
      obtain fs e p' where "replay_all fuel p1 = (fs, e, p')" by (metis prod_cases3)
      then show ?thesis using Suc.IH [of p1] n t(2) [OF True] True r False by (auto simp: next_packet_def Let_def)
    next
      case f: False
      then show ?thesis using n r False t(1) by (auto simp: next_packet_def split: sum.splits bool.splits)
    qed
  qed
qed simp

lemma next_takes:
  assumes "next_packet p = (Inr (Frame f), p')"
  shows "bytes_left (pr_reader p') div record_header_len < bytes_left (pr_reader p) div record_header_len"
proof -
  obtain q where r: "read_record p = (Inr True, q)" and q: "pr_reader p' = pr_reader q"
    using assms by (auto simp: next_packet_def Let_def split: if_splits prod.splits sum.splits bool.splits)
  have "bytes_left (pr_reader q) + record_header_len \<le> bytes_left (pr_reader p)" using read_record_takes(2) [OF r] by simp
  then have "Suc (bytes_left (pr_reader q) div record_header_len) \<le> bytes_left (pr_reader p) div record_header_len"
    using div_le_mono [of "bytes_left (pr_reader q) + record_header_len" "bytes_left (pr_reader p)" record_header_len]
    by (simp add: record_header_len_def)
  then show ?thesis by (simp add: q)
qed

text \<open>Nor does fuel beyond what was needed to reach the end.\<close>

lemma replay_more:
  "replay_all m p = (fs, e, p') \<Longrightarrow> e \<noteq> None \<or> pr_finished p' \<Longrightarrow> m \<le> n \<Longrightarrow> replay_all n p = (fs, e, p')"
proof (induction m arbitrary: p fs n)
  case 0
  then have "next_packet p = (Inr EndOfSource, p)" "fs = []" "e = None" "p' = p" by (auto simp: next_packet_def)
  then show ?case by (cases n) simp_all
next
  case (Suc m)
  then obtain k where n: "n = Suc k" "m \<le> k" by (cases n) auto
  obtain x p1 where x: "next_packet p = (x, p1)" by (metis surj_pair)
  obtain fs1 e1 p2 where r: "replay_all m p1 = (fs1, e1, p2)" by (metis prod_cases3)
  have "e1 = e \<Longrightarrow> p2 = p' \<Longrightarrow> replay_all k p1 = (fs1, e, p')" using Suc.IH r Suc.prems(2) n(2) by blast
  then show ?case using Suc.prems(1) by (auto simp: n(1) x r split: sum.splits captured.splits)
qed

lemma never_idle: "next_packet p \<noteq> (Inr IdleSource, p')"
  by (simp add: next_packet_def Let_def split: prod.split sum.split bool.split)

text \<open>More fuel than that changes nothing.\<close>

lemma replay_stable:
  "bytes_left (pr_reader p) div record_header_len < m \<Longrightarrow> bytes_left (pr_reader p) div record_header_len < n \<Longrightarrow> replay_all m p = replay_all n p"
proof (induction m arbitrary: p n)
  case (Suc m)
  then obtain k where n: "n = Suc k" by (cases n) auto
  obtain x p1 where x: "next_packet p = (x, p1)" by (metis surj_pair)
  show ?case
  proof (cases "\<exists>f. x = Inr (Frame f)")
    case True
    then obtain f where f: "x = Inr (Frame f)" by blast
    with next_takes x have "replay_all m p1 = replay_all k p1" using Suc.IH [of p1 k] Suc.prems n by fastforce
    then show ?thesis by (simp add: n x f)
  next
    case False
    with never_idle x show ?thesis by (auto simp: n split: sum.split captured.split)
  qed
qed simp

text \<open>C31. Replaying a file ends: polled once more than the file has room for records, the source has reported its end or an error.\<close>

theorem replay_ends:
  assumes "bytes_left (pr_reader p) div record_header_len < fuel"
  shows "case replay_all fuel p of (fs, e, p') \<Rightarrow> e \<noteq> None \<or> pr_finished p'"
  using assms
proof (induction fuel arbitrary: p)
  case (Suc fuel)
  show ?case
  proof (cases "pr_finished p")
    case True
    then show ?thesis by (simp add: next_packet_def)
  next
    case False
    obtain res q where r: "read_record p = (res, q)" by (metis surj_pair)
    note t = read_record_takes [OF r]
    show ?thesis
    proof (cases "res = Inr True")
      case True
      obtain f p1 where n: "next_packet p = (Inr (Frame f), p1)" using r False True by (auto simp: next_packet_def Let_def)
      then have "bytes_left (pr_reader p1) div record_header_len < fuel" using next_takes Suc.prems by fastforce
      from Suc.IH [OF this] n show ?thesis by (auto split: prod.splits)
    next
      case f: False
      then show ?thesis using r False by (auto simp: next_packet_def split: sum.splits bool.splits)
    qed
  qed
qed simp

section \<open>A file as it was written\<close>

text \<open>A reader that does not fail: interrupted calls and pieces of any size, which together are the file.\<close>

definition clean :: "reader \<Rightarrow> bool" where
  "clean r \<longleftrightarrow> ReadError \<notin> set r \<and> Data [] \<notin> set r"

definition contents :: "reader \<Rightarrow> bytes" where
  "contents r = concat (map (\<lambda>e. case e of Data bs \<Rightarrow> bs | _ \<Rightarrow> []) r)"

lemma contents_simps [simp]: "contents [] = []" "contents (Data bs # r) = bs @ contents r" "contents (Interrupted # r) = contents r"
  by (simp_all add: contents_def)

lemma fill_clean: "clean r \<Longrightarrow> \<exists>r'. fill r n got = (Inr (got @ take n (contents r)), r') \<and> clean r' \<and> contents r' = drop n (contents r)"
proof (induction r arbitrary: n got)
  case (Cons e r)
  then have c: "clean r" by (simp add: clean_def)
  show ?case
  proof (cases n)
    case (Suc m)
    show ?thesis
    proof (cases e)
      case (Data bs)
      then have ne: "bs \<noteq> []" using Cons.prems by (auto simp: clean_def)
      show ?thesis
      proof (cases "n < length bs")
        case True
        then show ?thesis using Cons.prems Data Suc ne by (simp add: clean_def)
      next
        case False
        then show ?thesis using Cons.IH [OF c, of "n - length bs" "got @ bs"] Data Suc ne by simp
      qed
    next
      case Interrupted
      then show ?thesis using Cons.IH [OF c, of n got] Suc by simp
    next
      case ReadError
      then show ?thesis using Cons.prems by (simp add: clean_def)
    qed
  qed (use Cons.prems in simp)
qed (simp add: clean_def)

definition in_order :: "bool \<Rightarrow> nat \<Rightarrow> 'a::len word \<Rightarrow> bytes" where
  "in_order swapped n w = (if swapped then be_bytes n w else le_bytes n w)"

lemma in_order_length [simp]: "length (in_order swapped n w) = n"
  by (simp add: in_order_def)

lemma word_at_field:
  "raw = xs @ in_order swapped n w @ ys \<Longrightarrow> length xs = pos \<Longrightarrow> LENGTH('a) \<le> 8 * n \<Longrightarrow> word_at swapped n raw pos = w" for w :: "'a::len word"
  by (auto simp: word_at_def in_order_def le_bytes_def be_word_be_bytes)

text \<open>A packet to be stored: seconds, fraction, length on the wire, and the bytes captured.\<close>

type_synonym stored_packet = "32 word \<times> 32 word \<times> 32 word \<times> bytes"

definition record_bytes :: "bool \<Rightarrow> stored_packet \<Rightarrow> bytes" where
  "record_bytes swapped k = (case k of (seconds, fraction, wire_len, bs) \<Rightarrow>
     in_order swapped 4 seconds @ in_order swapped 4 fraction @ in_order swapped 4 (word_of_nat (length bs) :: 32 word) @
     in_order swapped 4 wire_len @ bs)"

definition header_bytes :: "file_header \<Rightarrow> 32 word \<Rightarrow> 32 word \<Rightarrow> bytes" where
  "header_bytes h zone sigfigs = (let b = fh_byte_swapped h in
     in_order b 4 (if fh_nanosecond_timestamps h then magic_nanos else magic_micros) @ in_order b 2 (fh_version_major h) @
     in_order b 2 (fh_version_minor h) @ in_order b 4 zone @ in_order b 4 sigfigs @ in_order b 4 (fh_snaplen h) @
     in_order b 4 (link_as_raw (fh_link_type h)))"

definition frame_of :: "file_header \<Rightarrow> string \<Rightarrow> stored_packet \<Rightarrow> raw_packet" where
  "frame_of h name k = (case k of (seconds, fraction, wire_len, bs) \<Rightarrow>
     \<lparr>rp_data = bs, rp_original_len = max (unat wire_len) (length bs), rp_timestamp = timestamp_of h seconds fraction, rp_interface = name\<rparr>)"

definition storable_packet :: "stored_packet \<Rightarrow> bool" where
  "storable_packet k \<longleftrightarrow> length (snd (snd (snd k))) \<le> max_frame_len"

lemma swapped_magic:
  "be_word (rev (be_bytes 4 magic_micros)) = magic_micros_swapped" "be_word (rev (be_bytes 4 magic_nanos)) = magic_nanos_swapped"
  by code_simp+

lemma header_read:
  assumes "fh_link_type h = Ethernet"
  shows "parse_file_header (header_bytes h zone sigfigs) = Inr h"
proof -
  let ?b = "fh_byte_swapped h"
  let ?m = "if fh_nanosecond_timestamps h then magic_nanos else magic_micros"
  let ?raw = "header_bytes h zone sigfigs"
  let ?a = "in_order ?b 4 ?m" and ?v = "in_order ?b 2 (fh_version_major h)" and ?w = "in_order ?b 2 (fh_version_minor h)"
  let ?z = "in_order ?b 4 zone @ in_order ?b 4 sigfigs" and ?s = "in_order ?b 4 (fh_snaplen h)" and ?l = "in_order ?b 4 (link_as_raw (fh_link_type h))"
  have raw: "?raw = ?a @ ?v @ ?w @ ?z @ ?s @ ?l" by (simp add: header_bytes_def Let_def)
  have magic: "word_at False 4 ?raw 0 = (if ?b then (if fh_nanosecond_timestamps h then magic_nanos_swapped else magic_micros_swapped) else ?m)"
    unfolding raw by (simp add: word_at_def in_order_def le_bytes_def be_word_be_bytes swapped_magic)
  have at: "word_at ?b 2 ?raw 4 = fh_version_major h"
    by (rule word_at_field [where xs = ?a and ys = "?w @ ?z @ ?s @ ?l"]) (simp_all add: raw)
  moreover have "word_at ?b 2 ?raw 6 = fh_version_minor h"
    by (rule word_at_field [where xs = "?a @ ?v" and ys = "?z @ ?s @ ?l"]) (simp_all add: raw)
  moreover have "word_at ?b 4 ?raw 16 = fh_snaplen h"
    by (rule word_at_field [where xs = "?a @ ?v @ ?w @ ?z" and ys = ?l]) (simp_all add: raw)
  moreover have "word_at ?b 4 ?raw 20 = link_as_raw (fh_link_type h)"
    by (rule word_at_field [where xs = "?a @ ?v @ ?w @ ?z @ ?s" and ys = "[]"]) (simp_all add: raw)
  moreover have "magic_micros \<noteq> magic_nanos" "magic_micros_swapped \<noteq> magic_micros" "magic_micros_swapped \<noteq> magic_nanos"
    "magic_nanos_swapped \<noteq> magic_micros" "magic_nanos_swapped \<noteq> magic_nanos" "magic_nanos_swapped \<noteq> magic_micros_swapped"
    by (simp_all add: magic_micros_def magic_nanos_def magic_micros_swapped_def magic_nanos_swapped_def)
  ultimately show ?thesis
    using magic assms by (cases ?b; cases "fh_nanosecond_timestamps h") (auto simp: parse_file_header_def Let_def link_from_raw_def intro!: file_header.equality)
qed

lemma record_fields:
  fixes b seconds fraction wire_len bs
  defines "raw \<equiv> take record_header_len (record_bytes b (seconds, fraction, wire_len, bs))"
  shows "word_at b 4 raw 0 = seconds" "word_at b 4 raw 4 = fraction" "word_at b 4 raw 8 = (word_of_nat (length bs) :: 32 word)"
    "word_at b 4 raw 12 = wire_len" "length raw = record_header_len" "drop record_header_len (record_bytes b (seconds, fraction, wire_len, bs)) = bs"
proof -
  let ?s = "in_order b 4 seconds" and ?f = "in_order b 4 fraction" and ?c = "in_order b 4 (word_of_nat (length bs) :: 32 word)" and ?w = "in_order b 4 wire_len"
  have raw: "raw = ?s @ ?f @ ?c @ ?w" by (simp add: raw_def record_bytes_def record_header_len_def)
  show "word_at b 4 raw 0 = seconds" by (rule word_at_field [where xs = "[]" and ys = "?f @ ?c @ ?w"]) (simp_all add: raw)
  show "word_at b 4 raw 4 = fraction" by (rule word_at_field [where xs = ?s and ys = "?c @ ?w"]) (simp_all add: raw)
  show "word_at b 4 raw 8 = (word_of_nat (length bs) :: 32 word)" by (rule word_at_field [where xs = "?s @ ?f" and ys = ?w]) (simp_all add: raw)
  show "word_at b 4 raw 12 = wire_len" by (rule word_at_field [where xs = "?s @ ?f @ ?c" and ys = "[]"]) (simp_all add: raw)
  show "length raw = record_header_len" by (simp add: raw record_header_len_def)
  show "drop record_header_len (record_bytes b (seconds, fraction, wire_len, bs)) = bs" by (simp add: record_bytes_def record_header_len_def)
qed

lemma frame_length: "storable_packet (s, f, w, bs) \<Longrightarrow> unat (word_of_nat (length bs) :: 32 word) = length bs"
  by (simp add: storable_packet_def max_frame_len_def unat_of_nat take_bit_nat_eq_self)

text \<open>One poll on a file whose next record is complete.\<close>

lemma next_record:
  assumes "clean (pr_reader p)" and "contents (pr_reader p) = record_bytes (fh_byte_swapped (pr_header p)) k @ rest" and "storable_packet k" and "\<not> pr_finished p"
  shows "\<exists>p'. next_packet p = (Inr (Frame (frame_of (pr_header p) (pr_file p) k)), p') \<and> clean (pr_reader p') \<and> contents (pr_reader p') = rest \<and>
    pr_header p' = pr_header p \<and> pr_file p' = pr_file p \<and> \<not> pr_finished p' \<and> pr_truncated p' = pr_truncated p \<and>
    cc_packets (pr_counters p') = cc_packets (pr_counters p) + 1"
proof -
  obtain s f w bs where k: "k = (s, f, w, bs)" by (cases k)
  let ?b = "fh_byte_swapped (pr_header p)"
  let ?raw = "take record_header_len (record_bytes ?b k)"
  note fields = record_fields [of ?b s f w bs, folded k]
  have len: "record_header_len \<le> length (record_bytes ?b k)" using fields(5) by simp
  obtain r1 where f1: "fill (pr_reader p) record_header_len [] = (Inr ?raw, r1)" "clean r1" "contents r1 = bs @ rest"
    using fill_clean [OF assms(1), of record_header_len "[]"] len fields(6) by (auto simp: assms(2))
  obtain r2 where f2: "fill r1 (length bs) [] = (Inr bs, r2)" "clean r2" "contents r2 = rest"
    using fill_clean [OF f1(2), of "length bs" "[]"] f1(3) by auto
  have u: "unat (word_of_nat (length bs) :: 32 word) = length bs" using frame_length assms(3) k by blast
  have small: "length bs \<le> max_frame_len" using assms(3) k by (simp add: storable_packet_def)
  have ne: "?raw \<noteq> []" using fields(5) by (auto simp: record_header_len_def)
  have "\<exists>p'. read_record p = (Inr True, p') \<and> pr_reader p' = r2 \<and> pr_buffer p' = bs \<and> pr_timestamp p' = timestamp_of (pr_header p) s f \<and>
      pr_original_len p' = max (unat w) (length bs) \<and> pr_header p' = pr_header p \<and> pr_file p' = pr_file p \<and> pr_finished p' = pr_finished p \<and>
      pr_truncated p' = pr_truncated p \<and> pr_counters p' = pr_counters p"
    using ne small len by (simp add: read_record_def f1(1) f2(1) fields u Let_def)
  then show ?thesis using assms(4) f2 k by (auto simp: next_packet_def Let_def frame_of_def)
qed

text \<open>The poll after the last complete record: the file ends there, or in the middle of another.\<close>

lemma next_tail:
  assumes "clean (pr_reader p)" and "contents (pr_reader p) = take n (record_bytes (fh_byte_swapped (pr_header p)) k)"
    and "storable_packet k" and "n < length (record_bytes (fh_byte_swapped (pr_header p)) k)" and "\<not> pr_finished p"
  shows "\<exists>p'. next_packet p = (Inr EndOfSource, p') \<and> pr_finished p' \<and> (pr_truncated p' \<longleftrightarrow> pr_truncated p \<or> 0 < n) \<and> pr_counters p' = pr_counters p"
proof -
  obtain s f w bs where k: "k = (s, f, w, bs)" by (cases k)
  let ?b = "fh_byte_swapped (pr_header p)"
  let ?all = "record_bytes ?b k"
  note fields = record_fields [of ?b s f w bs, folded k]
  obtain r1 where f1: "fill (pr_reader p) record_header_len [] = (Inr (take record_header_len (take n ?all)), r1)" "clean r1"
      "contents r1 = drop record_header_len (take n ?all)"
    using fill_clean [OF assms(1), of record_header_len "[]"] by (auto simp: assms(2))
  show ?thesis
  proof (cases "n < record_header_len")
    case True
    then show ?thesis using assms(4,5) f1(1) by (auto simp: next_packet_def read_record_def Let_def)
  next
    case False
    then have raw: "take record_header_len (take n ?all) = take record_header_len ?all" by (simp add: min_absorb1)
    have rest: "contents r1 = take (n - record_header_len) bs" using f1(3) fields(6) by (simp add: drop_take)
    obtain r2 where f2: "fill r1 (length bs) [] = (Inr (take (n - record_header_len) bs), r2)"
      using fill_clean [OF f1(2), of "length bs" "[]"] rest by (auto simp: take_all_iff min_def)
    have len: "length ?all = record_header_len + length bs" using fields(5,6) by (metis append_take_drop_id length_append)
    have short: "n - record_header_len < length bs" using assms(4) len False by simp
    have u: "unat (word_of_nat (length bs) :: 32 word) = length bs" using frame_length assms(3) k by blast
    have small: "length bs \<le> max_frame_len" using assms(3) k by (simp add: storable_packet_def)
    have ne: "take record_header_len ?all \<noteq> []" "0 < n" using fields(5) False by (auto simp: record_header_len_def)
    show ?thesis using ne small short assms(5) False len
      by (simp add: next_packet_def read_record_def f1(1) raw f2 fields u Let_def)
  qed
qed

lemma replay_records:
  assumes "clean (pr_reader p)" and "contents (pr_reader p) = concat (map (record_bytes (fh_byte_swapped (pr_header p))) ks) @
      take n (record_bytes (fh_byte_swapped (pr_header p)) k)" and "list_all storable_packet (k # ks)"
    and "n < length (record_bytes (fh_byte_swapped (pr_header p)) k)" and "\<not> pr_finished p"
  shows "\<exists>p'. replay_all (Suc (length ks)) p = (map (frame_of (pr_header p) (pr_file p)) ks, None, p') \<and> pr_finished p' \<and>
    (pr_truncated p' \<longleftrightarrow> pr_truncated p \<or> 0 < n) \<and> cc_packets (pr_counters p') = cc_packets (pr_counters p) + length ks"
  using assms
proof (induction ks arbitrary: p)
  case Nil
  then show ?case using next_tail [of p n k] by auto
next
  case (Cons x ks)
  obtain p1 where p1: "next_packet p = (Inr (Frame (frame_of (pr_header p) (pr_file p) x)), p1)" "clean (pr_reader p1)"
      "contents (pr_reader p1) = concat (map (record_bytes (fh_byte_swapped (pr_header p))) ks) @ take n (record_bytes (fh_byte_swapped (pr_header p)) k)"
      "pr_header p1 = pr_header p" "pr_file p1 = pr_file p" "\<not> pr_finished p1" "pr_truncated p1 = pr_truncated p"
      "cc_packets (pr_counters p1) = cc_packets (pr_counters p) + 1"
    using next_record [of p x] Cons.prems by auto
  obtain p' where "replay_all (Suc (length ks)) p1 = (map (frame_of (pr_header p) (pr_file p)) ks, None, p')" "pr_finished p'"
      "pr_truncated p' \<longleftrightarrow> pr_truncated p \<or> 0 < n" "cc_packets (pr_counters p') = cc_packets (pr_counters p) + 1 + length ks"
    using Cons.IH [of p1] p1 Cons.prems(3,4) by auto
  then show ?case using p1(1) by (simp del: replay_all.simps add: replay_all.simps(2) [of "Suc (length ks)" p])
qed

lemma file_replayed:
  assumes "clean r" and "contents r = header_bytes h zone sigfigs @ concat (map (record_bytes (fh_byte_swapped h)) ks) @
      take n (record_bytes (fh_byte_swapped h) k)"
    and "fh_link_type h = Ethernet" and "list_all storable_packet (k # ks)" and "n < length (record_bytes (fh_byte_swapped h) k)"
  shows "\<exists>p p'. from_reader r name = Inr p \<and> cc_packets (pr_counters p) = 0 \<and> replay_all (Suc (length ks)) p = (map (frame_of h name) ks, None, p') \<and> pr_finished p' \<and>
    (pr_truncated p' \<longleftrightarrow> 0 < n) \<and> cc_packets (pr_counters p') = length ks"
proof -
  have len: "length (header_bytes h zone sigfigs) = file_header_len" by (simp add: header_bytes_def file_header_len_def Let_def)
  obtain r1 where r1: "fill r file_header_len [] = (Inr (header_bytes h zone sigfigs), r1)" "clean r1"
      "contents r1 = concat (map (record_bytes (fh_byte_swapped h)) ks) @ take n (record_bytes (fh_byte_swapped h) k)"
    using fill_clean [OF assms(1), of file_header_len "[]"] len by (auto simp: assms(2))
  obtain p where p: "from_reader r name = Inr p" "pr_reader p = r1" "pr_header p = h" "pr_file p = name" "\<not> pr_finished p" "\<not> pr_truncated p"
      "cc_packets (pr_counters p) = 0"
    using header_read [OF assms(3), of zone sigfigs] assms(3) len by (simp add: from_reader_def r1(1))
  obtain p' where "replay_all (Suc (length ks)) p = (map (frame_of h name) ks, None, p')" "pr_finished p'" "pr_truncated p' \<longleftrightarrow> 0 < n"
      "cc_packets (pr_counters p') = length ks"
    using replay_records [of p ks n k] p r1(2,3) assms(4,5) by auto
  then show ?thesis using p(1,7) by blast
qed

text \<open>C30. A capture file is replayed as it was written, in whatever byte order, whatever pieces it is read in and however often the calls are
interrupted: one frame per record, in order, with its bytes, its time and its length on the wire; and a file that was cut short gives
every complete record and is reported as truncated exactly when it ends inside another.\<close>

theorem capture_file_replayed:
  assumes "clean r" and "contents r = header_bytes h zone sigfigs @ concat (map (record_bytes (fh_byte_swapped h)) ks) @
      take n (record_bytes (fh_byte_swapped h) k)"
    and "fh_link_type h = Ethernet" and "list_all storable_packet (k # ks)" and "n < length (record_bytes (fh_byte_swapped h) k)"
  shows "\<exists>p p'. from_reader r name = Inr p \<and> replay_all (Suc (length ks)) p = (map (frame_of h name) ks, None, p') \<and> pr_finished p' \<and>
    (pr_truncated p' \<longleftrightarrow> 0 < n) \<and> cc_packets (pr_counters p') = length ks"
  using file_replayed [OF assms] by blast

section \<open>Examples\<close>

definition sample_header :: file_header where
  "sample_header = \<lparr>fh_version_major = 2, fh_version_minor = 4, fh_snaplen = 65535, fh_link_type = Ethernet, fh_nanosecond_timestamps = False,
     fh_byte_swapped = True\<rparr>"

definition sample_reader :: reader where
  "sample_reader = [Interrupted, Data (header_bytes sample_header 0 0), Data (record_bytes True (7, 5, 60, [1, 2, 3])), Interrupted,
     Data (take 18 (record_bytes True (8, 0, 3, [4, 5, 6])))]"

theorem capture_file_replayed_witness:
  "\<exists>p p'. from_reader sample_reader ''f'' = Inr p \<and>
     replay_all 2 p = ([\<lparr>rp_data = [1, 2, 3], rp_original_len = 60, rp_timestamp = 7000005000, rp_interface = ''f''\<rparr>], None, p') \<and> pr_truncated p'"
proof -
  have c: "clean sample_reader"
    by (simp add: clean_def sample_reader_def header_bytes_def record_bytes_def Let_def in_order_def be_bytes_def sample_header_def upt_rec)
  have b: "contents sample_reader = header_bytes sample_header 0 0 @ concat (map (record_bytes (fh_byte_swapped sample_header)) [(7, 5, 60, [1, 2, 3])]) @
      take 18 (record_bytes (fh_byte_swapped sample_header) (8, 0, 3, [4, 5, 6]))"
    by (simp add: sample_reader_def sample_header_def)
  have f: "frame_of sample_header ''f'' (7, 5, 60, [1, 2, 3]) =
      \<lparr>rp_data = [1, 2, 3], rp_original_len = 60, rp_timestamp = 7000005000, rp_interface = ''f''\<rparr>"
    by (simp add: frame_of_def timestamp_of_def sample_header_def nanos_per_sec_def)
  show ?thesis
    using capture_file_replayed [OF c b, of "''f''"]
    by (simp add: storable_packet_def max_frame_len_def sample_header_def [THEN arg_cong [of _ _ fh_link_type]] f record_bytes_def numeral_2_eq_2
        del: replay_all.simps) (metis)
qed

definition sample_replay :: pcap_replay where
  "sample_replay = \<lparr>pr_reader = [Data [1, 2, 3], Interrupted, Data [4]], pr_file = ''f'', pr_header = sample_header, pr_buffer = [], pr_original_len = 0,
     pr_timestamp = 0, pr_counters = \<lparr>cc_packets = 0, cc_bytes = 0, cc_drops = 0, cc_interface_drops = 0\<rparr>, pr_offset = 24, pr_truncated = False,
     pr_finished = False\<rparr>"

theorem replay_ends_witness:
  "case replay_all 1 sample_replay of (fs, e, p') \<Rightarrow> e \<noteq> None \<or> pr_finished p'"
  by (rule replay_ends) (simp add: sample_replay_def record_header_len_def)

end
