(* ===== verification/Fim.thy ===== *)
theory Fim
  imports HostRules NetText "HOL-Library.Multiset" "HOL-Library.List_Lexorder" "HOL-Library.Char_ord"
begin

text \<open>
  File integrity monitoring (\<open>crates/hids/src/fim.rs\<close>): walking the watched roots, the baseline, the rescan that
  compares the two, and the check of one path that a notification asks for. The file system is the argument \<open>fs_view\<close>: what
  the walk sees, and what inspecting a path later sees, so the two may differ. Hashing (the sha2 crate) is part of the view. The
  baseline table of the database is an association list and its statements are the operations below, with SQLite's
  \<open>LIKE\<close>, which ignores the case of ASCII letters; a failing database is left out. Paths are absolute and normal.
\<close>

section \<open>Settings, records and the file system\<close>

record fim_settings =
  fset_paths :: "string list"
  fset_max_file_bytes :: nat
  fset_max_depth :: nat
  fset_max_entries :: nat

definition default_fim_settings :: fim_settings where
  "default_fim_settings = \<lparr>fset_paths = [], fset_max_file_bytes = 64 * 1024 * 1024, fset_max_depth = 16, fset_max_entries = 50000\<rparr>"

record file_record =
  fr_sha256 :: "string option"
  fr_size :: nat
  fr_mode :: nat
  fr_uid :: nat
  fr_gid :: nat

datatype lstat = StatError | IsSymlink | IsFile | IsDir | IsOther

datatype metadata = MetaNotFound | MetaError | MetaOther | MetaFile nat nat nat nat

text \<open>At the walk: the kind of a path and the names in a directory (an unreadable entry is \<open>None\<close>). At an inspection: the
  metadata (size, mode, user and group of a file) and the hash, when the file could be read.\<close>

record fs_view =
  fs_lstat :: "string \<Rightarrow> lstat"
  fs_list :: "string \<Rightarrow> string option list option"
  fs_meta :: "string \<Rightarrow> metadata"
  fs_hash :: "string \<Rightarrow> string option"

datatype inspected = Failed | Absent | Found file_record

definition inspect_file :: "fs_view \<Rightarrow> nat \<Rightarrow> string \<Rightarrow> inspected" where
  "inspect_file v max_file_bytes path = (case fs_meta v path of
       MetaNotFound \<Rightarrow> Absent
     | MetaError \<Rightarrow> Failed
     | MetaOther \<Rightarrow> Absent
     | MetaFile len mode uid gid \<Rightarrow> Found \<lparr>fr_sha256 = (if len \<le> max_file_bytes then fs_hash v path else None),
         fr_size = len, fr_mode = mode, fr_uid = uid, fr_gid = gid\<rparr>)"

section \<open>The baseline\<close>

type_synonym baseline = "(string, file_record) hashmap"

definition i64_max :: nat where
  "i64_max = 2 ^ 63 - 1"

definition baseline_get :: "baseline \<Rightarrow> string \<Rightarrow> file_record option" where
  "baseline_get b path = hm_get b path"

definition baseline_put :: "string \<Rightarrow> file_record \<Rightarrow> baseline \<Rightarrow> baseline" where
  "baseline_put path r b = hm_insert path (r\<lparr>fr_size := min (fr_size r) i64_max\<rparr>) b"

definition baseline_remove :: "string \<Rightarrow> baseline \<Rightarrow> baseline" where
  "baseline_remove path b = hm_remove path b"

definition paths_under :: "string \<Rightarrow> baseline \<Rightarrow> string list" where
  "paths_under prefix b = filter (\<lambda>p. starts_with (map char_lower p) (map char_lower prefix)) (map fst b)"

section \<open>Walking\<close>

record walk_limits =
  wl_over_entry_limit :: nat
  wl_over_depth_limit :: nat
  wl_unreadable :: nat
  wl_symlinks_skipped :: nat
  wl_abandoned :: bool

definition no_limits :: walk_limits where
  "no_limits = \<lparr>wl_over_entry_limit = 0, wl_over_depth_limit = 0, wl_unreadable = 0, wl_symlinks_skipped = 0, wl_abandoned = False\<rparr>"

definition walk_truncated :: "walk_limits \<Rightarrow> bool" where
  "walk_truncated l \<longleftrightarrow> wl_abandoned l \<or> 0 < wl_over_entry_limit l \<or> 0 < wl_over_depth_limit l \<or> 0 < wl_unreadable l"

definition join_path :: "string \<Rightarrow> string \<Rightarrow> string" where
  "join_path dir name = (if dir \<noteq> [] \<and> last dir = CHR ''/'' then dir @ name else dir @ ''/'' @ name)"

text \<open>The roots with those that name the same directory collapsed; \<open>canonical\<close> is \<open>fs::canonicalize\<close>.\<close>

fun resolve_loop :: "(string \<Rightarrow> string option) \<Rightarrow> string list \<Rightarrow> string list \<Rightarrow> (string \<times> string) list \<Rightarrow> string list \<times> (string \<times> string) list" where
  "resolve_loop canonical [] roots collapsed = (roots, collapsed)"
| "resolve_loop canonical (path # paths) roots collapsed =
     (let target = unwrap_or (canonical path) path in
      if target \<in> set roots then resolve_loop canonical paths roots (collapsed @ [(path, target)])
      else resolve_loop canonical paths (roots @ [target]) collapsed)"

definition resolve_roots :: "(string \<Rightarrow> string option) \<Rightarrow> string list \<Rightarrow> string list \<times> (string \<times> string) list" where
  "resolve_roots canonical paths = resolve_loop canonical paths [] []"

type_synonym walk_state = "string list \<times> walk_limits"

definition note_unreadable :: "nat \<Rightarrow> walk_limits \<Rightarrow> walk_limits" where
  "note_unreadable n l = l\<lparr>wl_unreadable := wl_unreadable l + n\<rparr>"

definition add_found :: "nat \<Rightarrow> string \<Rightarrow> walk_state \<Rightarrow> walk_state" where
  "add_found max_entries path s = (case s of (found, l) \<Rightarrow>
     if max_entries \<le> length found then (found, l\<lparr>wl_over_entry_limit := wl_over_entry_limit l + 1\<rparr>)
     else (if path \<in> set found then found else found @ [path], l))"

lemma pop_smaller: "(M, add_mset x M) \<in> mult less_than"
  using one_step_implies_mult [of "{#x#}" "{#}" less_than M] by simp

text \<open>The stack of one root: the top is the head of the list, so entries are pushed in reverse.\<close>

function walk_stack :: "fs_view \<Rightarrow> fim_settings \<Rightarrow> (string \<times> nat) list \<Rightarrow> walk_state \<Rightarrow> walk_state" where
  "walk_stack v s [] st = st"
| "walk_stack v s ((path, depth) # stack) st = (case fs_lstat v path of
       StatError \<Rightarrow> walk_stack v s stack (fst st, note_unreadable 1 (snd st))
     | IsSymlink \<Rightarrow> walk_stack v s stack (fst st, (snd st)\<lparr>wl_symlinks_skipped := wl_symlinks_skipped (snd st) + 1\<rparr>)
     | IsFile \<Rightarrow> walk_stack v s stack (add_found (fset_max_entries s) path st)
     | IsOther \<Rightarrow> walk_stack v s stack st
     | IsDir \<Rightarrow>
         if fset_max_depth s \<le> depth
         then walk_stack v s stack (fst st, (snd st)\<lparr>wl_over_depth_limit := wl_over_depth_limit (snd st) + 1\<rparr>)
         else case fs_list v path of
             None \<Rightarrow> walk_stack v s stack (fst st, note_unreadable 1 (snd st))
           | Some entries \<Rightarrow>
               walk_stack v s (rev (map (\<lambda>name. (join_path path name, Suc depth)) (List.map_filter (\<lambda>e. e) entries)) @ stack)
                 (fst st, note_unreadable (length (filter (\<lambda>e. e = None) entries)) (snd st)))"
  by pat_completeness auto
termination
proof (relation "inv_image (mult less_than) (\<lambda>(v, s, stack, st). mset (map (\<lambda>(path, depth). Suc (fset_max_depth s) - depth) stack))", goal_cases)
  case 1
  then show ?case by (simp add: wf_mult)
next
  case (7 v s path depth stack st entries)
  let ?f = "\<lambda>(path :: string, depth). Suc (fset_max_depth s) - depth"
  let ?new = "rev (map (\<lambda>name. (join_path path name, Suc depth)) (List.map_filter (\<lambda>e. e) entries))"
  have "(mset (map ?f stack) + mset (map ?f ?new), mset (map ?f stack) + {#Suc (fset_max_depth s) - depth#}) \<in> mult less_than"
    by (rule one_step_implies_mult) (use 7 in auto)
  then show ?case by (simp add: ac_simps)
qed (simp_all add: pop_smaller)

text \<open>Paths are ordered by their components, and the walk returns what it found in that order.\<close>

fun components :: "string \<Rightarrow> string list" where
  "components [] = [[]]"
| "components (c # cs) = (case components cs of
       [] \<Rightarrow> [[c]]
     | part # parts \<Rightarrow> if c = CHR ''/'' then [] # part # parts else (c # part) # parts)"

definition walk_roots :: "fs_view \<Rightarrow> fim_settings \<Rightarrow> string list \<Rightarrow> walk_state" where
  "walk_roots v s roots = fold (\<lambda>root. walk_stack v s [(root, 0)]) roots ([], no_limits)"

definition walk :: "fs_view \<Rightarrow> fim_settings \<Rightarrow> string list \<Rightarrow> walk_state" where
  "walk v s roots = (case walk_roots v s roots of (found, limits) \<Rightarrow> (sort_key components found, limits))"

section \<open>The monitor\<close>

record rescan_outcome =
  ro_events :: "fim_event list"
  ro_files_seen :: nat
  ro_limits :: walk_limits

record monitor =
  mon_settings :: fim_settings
  mon_baseline :: baseline
  mon_establishing :: bool

definition monitor_new :: "fim_settings \<Rightarrow> baseline \<Rightarrow> monitor" where
  "monitor_new s b = \<lparr>mon_settings = s, mon_baseline = b, mon_establishing = (b = [])\<rparr>"

definition change_event :: "string \<Rightarrow> file_change \<Rightarrow> fim_detection \<Rightarrow> file_record \<Rightarrow> string option \<Rightarrow> fim_event" where
  "change_event path change detected_by current previous_sha256 = \<lparr>fim_path = path, fim_change = change, fim_detected_by = detected_by,
     fim_size = Some (fr_size current), fim_sha256 = fr_sha256 current, fim_previous_sha256 = previous_sha256,
     fim_mode = Some (fr_mode current), fim_uid = Some (fr_uid current), fim_gid = Some (fr_gid current)\<rparr>"

definition deleted_event :: "string \<Rightarrow> fim_detection \<Rightarrow> string option \<Rightarrow> fim_event" where
  "deleted_event path detected_by previous_sha256 = \<lparr>fim_path = path, fim_change = Deleted, fim_detected_by = detected_by, fim_size = None,
     fim_sha256 = None, fim_previous_sha256 = previous_sha256, fim_mode = None, fim_uid = None, fim_gid = None\<rparr>"

definition content_changed :: "file_record \<Rightarrow> file_record \<Rightarrow> bool" where
  "content_changed previous current = (case (fr_sha256 previous, fr_sha256 current) of
       (Some before, Some after) \<Rightarrow> before \<noteq> after
     | _ \<Rightarrow> fr_size previous \<noteq> fr_size current)"

definition difference :: "string \<Rightarrow> file_record option \<Rightarrow> file_record \<Rightarrow> fim_detection \<Rightarrow> fim_event option" where
  "difference path previous current detected_by = (case previous of
       None \<Rightarrow> Some (change_event path Created detected_by current None)
     | Some previous \<Rightarrow>
         if content_changed previous current then Some (change_event path Modified detected_by current (fr_sha256 previous))
         else if fr_mode previous \<noteq> fr_mode current \<or> fr_uid previous \<noteq> fr_uid current \<or> fr_gid previous \<noteq> fr_gid current
         then Some (change_event path AttributesChanged detected_by current (fr_sha256 previous))
         else None)"

definition add_events :: "fim_event list \<Rightarrow> rescan_outcome \<Rightarrow> rescan_outcome" where
  "add_events es out = out\<lparr>ro_events := ro_events out @ es\<rparr>"

text \<open>The files of the walk in turn; \<open>go i\<close> is what the \<open>i\<close>-th call of \<open>should_continue\<close> returns.\<close>

fun scan_files :: "fs_view \<Rightarrow> fim_detection \<Rightarrow> (nat \<Rightarrow> bool) \<Rightarrow> nat \<Rightarrow> string list \<Rightarrow> monitor \<Rightarrow> rescan_outcome \<Rightarrow> monitor \<times> rescan_outcome" where
  "scan_files v by_whom go i [] m out = (m, out)"
| "scan_files v by_whom go i (path # paths) m out =
     (if \<not> go i then (m, out\<lparr>ro_limits := (ro_limits out)\<lparr>wl_abandoned := True\<rparr>\<rparr>)
      else
        let out = out\<lparr>ro_files_seen := ro_files_seen out + 1\<rparr> in
        case inspect_file v (fset_max_file_bytes (mon_settings m)) path of
          Absent \<Rightarrow> scan_files v by_whom go (Suc i) paths m out
        | Failed \<Rightarrow> scan_files v by_whom go (Suc i) paths m (out\<lparr>ro_limits := note_unreadable 1 (ro_limits out)\<rparr>)
        | Found current \<Rightarrow>
            let previous = baseline_get (mon_baseline m) path;
                m = m\<lparr>mon_baseline := baseline_put path current (mon_baseline m)\<rparr>;
                out = (if mon_establishing m then out
                  else add_events (case difference path previous current by_whom of None \<Rightarrow> [] | Some e \<Rightarrow> [e]) out)
            in scan_files v by_whom go (Suc i) paths m out)"

definition delete_known :: "fim_detection \<Rightarrow> string list \<Rightarrow> string \<Rightarrow> monitor \<times> rescan_outcome \<Rightarrow> monitor \<times> rescan_outcome" where
  "delete_known by_whom seen known x = (case x of (m, out) \<Rightarrow>
     if known \<in> set seen then (m, out)
     else (m\<lparr>mon_baseline := baseline_remove known (mon_baseline m)\<rparr>,
       add_events [deleted_event known by_whom (Option.bind (baseline_get (mon_baseline m) known) fr_sha256)] out))"

definition delete_under :: "fim_detection \<Rightarrow> string list \<Rightarrow> string \<Rightarrow> monitor \<times> rescan_outcome \<Rightarrow> monitor \<times> rescan_outcome" where
  "delete_under by_whom seen root x = fold (delete_known by_whom seen) (paths_under root (mon_baseline (fst x))) x"

definition rescan_until :: "fs_view \<Rightarrow> fim_detection \<Rightarrow> (nat \<Rightarrow> bool) \<Rightarrow> monitor \<Rightarrow> monitor \<times> rescan_outcome" where
  "rescan_until v by_whom go m =
     (let (paths, limits) = walk v (mon_settings m) (fset_paths (mon_settings m));
          (m1, out) = scan_files v by_whom go 0 paths m \<lparr>ro_events = [], ro_files_seen = 0, ro_limits = limits\<rparr>
      in if wl_abandoned (ro_limits out) then (m1, out)
         else
           let (m2, out) = (if \<not> mon_establishing m \<and> \<not> walk_truncated (ro_limits out)
                 then fold (delete_under by_whom paths) (fset_paths (mon_settings m)) (m1, out) else (m1, out))
           in (m2\<lparr>mon_establishing := False\<rparr>, out))"

definition rescan :: "fs_view \<Rightarrow> fim_detection \<Rightarrow> monitor \<Rightarrow> monitor \<times> rescan_outcome" where
  "rescan v by_whom m = rescan_until v by_whom (\<lambda>_. True) m"

definition is_watched :: "monitor \<Rightarrow> string \<Rightarrow> bool" where
  "is_watched m path \<longleftrightarrow> list_ex (\<lambda>root. path = root \<or> starts_with path (join_path root [])) (fset_paths (mon_settings m))"

definition recheck :: "fs_view \<Rightarrow> string \<Rightarrow> monitor \<Rightarrow> monitor \<times> fim_event option" where
  "recheck v path m =
     (if \<not> is_watched m path then (m, None)
      else
        let current = inspect_file v (fset_max_file_bytes (mon_settings m)) path in
        if mon_establishing m
        then (case current of Found r \<Rightarrow> (m\<lparr>mon_baseline := baseline_put path r (mon_baseline m)\<rparr>, None) | _ \<Rightarrow> (m, None))
        else
          let previous = baseline_get (mon_baseline m) path in
          case current of
            Found r \<Rightarrow> (m\<lparr>mon_baseline := baseline_put path r (mon_baseline m)\<rparr>, difference path previous r RealTime)
          | Absent \<Rightarrow> (case previous of
                None \<Rightarrow> (m, None)
              | Some p \<Rightarrow> (m\<lparr>mon_baseline := baseline_remove path (mon_baseline m)\<rparr>, Some (deleted_event path RealTime (fr_sha256 p))))
          | Failed \<Rightarrow> (m, None))"

section \<open>What the walk finds\<close>

definition walk_ok :: "fs_view \<Rightarrow> fim_settings \<Rightarrow> walk_state \<Rightarrow> bool" where
  "walk_ok v s st \<longleftrightarrow> distinct (fst st) \<and> length (fst st) \<le> fset_max_entries s \<and> (\<forall>p \<in> set (fst st). fs_lstat v p = IsFile) \<and>
     \<not> wl_abandoned (snd st)"

lemma walk_ok_limits: "walk_ok v s st \<Longrightarrow> wl_abandoned l = wl_abandoned (snd st) \<Longrightarrow> walk_ok v s (fst st, l)"
  by (simp add: walk_ok_def)

lemma add_found_ok: "walk_ok v s st \<Longrightarrow> fs_lstat v p = IsFile \<Longrightarrow> walk_ok v s (add_found (fset_max_entries s) p st)"
  by (cases st) (auto simp: walk_ok_def add_found_def)

lemma walk_stack_ok: "walk_ok v s st \<Longrightarrow> walk_ok v s (walk_stack v s stack st)"
proof (induction v s stack st rule: walk_stack.induct)
  case (2 v s path depth stack st)
  have l: "walk_ok v s (fst st, note_unreadable n (snd st))" for n
    using 2(8) by (rule walk_ok_limits) (simp add: note_unreadable_def)
  have l': "walk_ok v s (fst st, (snd st)\<lparr>wl_symlinks_skipped := n\<rparr>)" "walk_ok v s (fst st, (snd st)\<lparr>wl_over_depth_limit := n\<rparr>)" for n
    using 2(8) by (rule walk_ok_limits, simp)+
  show ?case
    by (cases "fs_lstat v path") (use 2 l l' in \<open>auto simp: add_found_ok split: option.split\<close>)
qed simp

lemma walk_sorted: "walk_ok v s st \<Longrightarrow> walk_ok v s (sort_key f (fst st), snd st)"
  by (simp add: walk_ok_def)

lemma walk_found: "walk_ok v s (walk v s roots)"
proof -
  have "walk_ok v s (fold (\<lambda>root. walk_stack v s [(root, 0)]) roots st)" if "walk_ok v s st" for st
    using that
  proof (induction roots arbitrary: st)
    case (Cons root roots)
    then show ?case using Cons.IH [OF walk_stack_ok [OF Cons.prems]] by (simp del: walk_stack.simps)
  qed simp
  moreover have "walk_ok v s ([], no_limits)" by (simp add: walk_ok_def no_limits_def)
  ultimately have "walk_ok v s (walk_roots v s roots)" unfolding walk_roots_def by blast
  from walk_sorted [OF this] show ?thesis by (simp add: walk_def split_def)
qed

section \<open>What a rescan reports\<close>

abbreviation inspect_by :: "fs_view \<Rightarrow> monitor \<Rightarrow> string \<Rightarrow> inspected" where
  "inspect_by v m \<equiv> inspect_file v (fset_max_file_bytes (mon_settings m))"

definition clipped :: "file_record \<Rightarrow> file_record" where
  "clipped r = r\<lparr>fr_size := min (fr_size r) i64_max\<rparr>"

definition file_events :: "fs_view \<Rightarrow> fim_detection \<Rightarrow> monitor \<Rightarrow> string \<Rightarrow> fim_event list" where
  "file_events v by_whom m p = (case inspect_by v m p of
       Found r \<Rightarrow> (case difference p (baseline_get (mon_baseline m) p) r by_whom of None \<Rightarrow> [] | Some e \<Rightarrow> [e])
     | _ \<Rightarrow> [])"

definition recorded :: "fs_view \<Rightarrow> monitor \<Rightarrow> string list \<Rightarrow> string \<Rightarrow> file_record option" where
  "recorded v m paths p = (if p \<in> set paths then case inspect_by v m p of Found r \<Rightarrow> Some (clipped r) | _ \<Rightarrow> baseline_get (mon_baseline m) p
     else baseline_get (mon_baseline m) p)"

lemma put_get: "baseline_get (baseline_put p r b) q = (if q = p then Some (clipped r) else baseline_get b q)"
  by (simp add: baseline_get_def baseline_put_def update_conv clipped_def)

lemma remove_get: "baseline_get (baseline_remove p b) q = (if q = p then None else baseline_get b q)"
  by (simp add: baseline_get_def baseline_remove_def delete_conv')

definition scan_post :: "fs_view \<Rightarrow> fim_detection \<Rightarrow> string list \<Rightarrow> monitor \<Rightarrow> rescan_outcome \<Rightarrow> monitor \<times> rescan_outcome \<Rightarrow> bool" where
  "scan_post v by_whom paths m out x \<longleftrightarrow> mon_settings (fst x) = mon_settings m \<and> mon_establishing (fst x) = mon_establishing m \<and>
     (hm_invar (mon_baseline m) \<longrightarrow> hm_invar (mon_baseline (fst x))) \<and>
     (\<forall>p. baseline_get (mon_baseline (fst x)) p = recorded v m paths p) \<and>
     ro_events (snd x) = ro_events out @ (if mon_establishing m then [] else concat (map (file_events v by_whom m) paths)) \<and>
     wl_abandoned (ro_limits (snd x)) = wl_abandoned (ro_limits out)"

lemma scan_result: "distinct paths \<Longrightarrow> scan_post v by_whom paths m out (scan_files v by_whom (\<lambda>_. True) i paths m out)"
proof (induction paths arbitrary: i m out)
  case (Cons path paths)
  show ?case
  proof (cases "inspect_by v m path")
    case (Found r)
    define m1 where "m1 = m\<lparr>mon_baseline := baseline_put path r (mon_baseline m)\<rparr>"
    define out1 where "out1 = (if mon_establishing m then out\<lparr>ro_files_seen := ro_files_seen out + 1\<rparr>
      else add_events (file_events v by_whom m path) (out\<lparr>ro_files_seen := ro_files_seen out + 1\<rparr>))"
    have step: "scan_files v by_whom (\<lambda>_. True) i (path # paths) m out = scan_files v by_whom (\<lambda>_. True) (Suc i) paths m1 out1"
      using Found by (simp add: Let_def m1_def out1_def file_events_def)
    have events: "concat (map (file_events v by_whom m1) paths) = concat (map (file_events v by_whom m) paths)"
      using Cons.prems by (intro arg_cong [of _ _ concat] map_cong refl) (auto simp: file_events_def m1_def put_get split: inspected.split)
    have rec: "recorded v m1 paths p = recorded v m (path # paths) p" for p
      using Cons.prems Found by (auto simp: recorded_def m1_def put_get split: inspected.split)
    have m1: "hm_invar (mon_baseline m) \<Longrightarrow> hm_invar (mon_baseline m1)" "mon_establishing m1 = mon_establishing m" "mon_settings m1 = mon_settings m"
      by (simp_all add: m1_def baseline_put_def)
    have out1: "ro_events out1 = ro_events out @ (if mon_establishing m then [] else file_events v by_whom m path)"
      "wl_abandoned (ro_limits out1) = wl_abandoned (ro_limits out)" by (simp_all add: out1_def add_events_def)
    have "scan_post v by_whom paths m1 out1 (scan_files v by_whom (\<lambda>_. True) (Suc i) paths m1 out1)"
      using Cons.IH Cons.prems by simp
    then show ?thesis unfolding step by (simp add: scan_post_def events rec m1 out1)
  next
    case Failed
    with Cons.IH [of m "out\<lparr>ro_files_seen := ro_files_seen out + 1, ro_limits := note_unreadable 1 (ro_limits out)\<rparr>" "Suc i"] Cons.prems
    show ?thesis by (auto simp: scan_post_def recorded_def file_events_def Let_def note_unreadable_def)
  next
    case Absent
    with Cons.IH [of m "out\<lparr>ro_files_seen := ro_files_seen out + 1\<rparr>" "Suc i"] Cons.prems
    show ?thesis by (auto simp: scan_post_def recorded_def file_events_def Let_def)
  qed
qed (simp add: scan_post_def recorded_def)

text \<open>Deleting the known paths that were not seen.\<close>

definition deletion :: "fim_detection \<Rightarrow> monitor \<Rightarrow> string \<Rightarrow> fim_event" where
  "deletion by_whom m p = deleted_event p by_whom (Option.bind (baseline_get (mon_baseline m) p) fr_sha256)"

definition del_post :: "fim_detection \<Rightarrow> (string \<Rightarrow> bool) \<Rightarrow> monitor \<times> rescan_outcome \<Rightarrow> monitor \<times> rescan_outcome \<Rightarrow> bool" where
  "del_post by_whom P x y \<longleftrightarrow> mon_settings (fst y) = mon_settings (fst x) \<and> ro_limits (snd y) = ro_limits (snd x) \<and>
     (hm_invar (mon_baseline (fst x)) \<longrightarrow> hm_invar (mon_baseline (fst y))) \<and>
     (\<forall>p. baseline_get (mon_baseline (fst y)) p = (if P p then None else baseline_get (mon_baseline (fst x)) p)) \<and>
     (\<exists>ps. distinct ps \<and> set ps = {p. P p} \<and> ro_events (snd y) = ro_events (snd x) @ map (deletion by_whom (fst x)) ps)"

lemma del_post_trans:
  assumes "del_post w P x y" "del_post w Q y z" "\<And>p. P p \<Longrightarrow> \<not> Q p"
  shows "del_post w (\<lambda>p. P p \<or> Q p) x z"
proof -
  have same: "deletion w (fst y) p = deletion w (fst x) p" if "Q p" for p
    using assms(1,3) that by (auto simp: del_post_def deletion_def)
  obtain ps where ps: "distinct ps" "set ps = {p. P p}" "ro_events (snd y) = ro_events (snd x) @ map (deletion w (fst x)) ps"
    using assms(1) by (auto simp: del_post_def)
  obtain qs where qs: "distinct qs" "set qs = {p. Q p}" "ro_events (snd z) = ro_events (snd y) @ map (deletion w (fst y)) qs"
    using assms(2) by (auto simp: del_post_def)
  have "map (deletion w (fst y)) qs = map (deletion w (fst x)) qs" using same qs(2) by simp
  then have "ro_events (snd z) = ro_events (snd x) @ map (deletion w (fst x)) (ps @ qs)" using ps(3) qs(3) by simp
  moreover have "distinct (ps @ qs)" "set (ps @ qs) = {p. P p \<or> Q p}" using ps qs assms(3) by auto
  ultimately have "\<exists>rs. distinct rs \<and> set rs = {p. P p \<or> Q p} \<and> ro_events (snd z) = ro_events (snd x) @ map (deletion w (fst x)) rs" by blast
  with assms(1,2) show ?thesis by (simp add: del_post_def)
qed

lemma remove_invar: "hm_invar b \<Longrightarrow> hm_invar (baseline_remove p b)"
  by (simp add: baseline_remove_def)

lemma delete_known_post: "p \<notin> set seen \<Longrightarrow> del_post w (\<lambda>q. q = p) x (delete_known w seen p x)"
  by (cases x) (auto simp: delete_known_def del_post_def remove_get deletion_def add_events_def remove_invar intro!: exI [of _ "[p]"])

lemma delete_fold_post: "distinct ps \<Longrightarrow> del_post w (\<lambda>q. q \<in> set ps \<and> q \<notin> set seen) x (fold (delete_known w seen) ps x)"
proof (induction ps arbitrary: x)
  case (Cons p ps)
  show ?case
  proof (cases "p \<in> set seen")
    case True
    then have "delete_known w seen p x = x" by (cases x) (simp add: delete_known_def)
    moreover have "(\<lambda>q. q \<in> set (p # ps) \<and> q \<notin> set seen) = (\<lambda>q. q \<in> set ps \<and> q \<notin> set seen)" using True by auto
    ultimately show ?thesis using Cons by simp
  next
    case False
    have "del_post w (\<lambda>q. q = p \<or> q \<in> set ps \<and> q \<notin> set seen) x (fold (delete_known w seen) ps (delete_known w seen p x))"
      by (rule del_post_trans [OF delete_known_post [OF False]]) (use Cons in auto)
    moreover have "(\<lambda>q. q = p \<or> q \<in> set ps \<and> q \<notin> set seen) = (\<lambda>q. q \<in> set (p # ps) \<and> q \<notin> set seen)" using False by auto
    ultimately show ?thesis by simp
  qed
qed (simp add: del_post_def)

definition under :: "string \<Rightarrow> string \<Rightarrow> bool" where
  "under root p \<longleftrightarrow> starts_with (map char_lower p) (map char_lower root)"

lemma paths_under_set: "set (paths_under root b) = {p. baseline_get b p \<noteq> None \<and> under root p}"
  by (auto simp: paths_under_def under_def baseline_get_def map_of_eq_None_iff)

lemma delete_roots_post:
  "hm_invar (mon_baseline (fst x)) \<Longrightarrow>
   del_post w (\<lambda>p. baseline_get (mon_baseline (fst x)) p \<noteq> None \<and> list_ex (\<lambda>r. under r p) roots \<and> p \<notin> set seen) x (fold (delete_under w seen) roots x)"
proof (induction roots arbitrary: x)
  case (Cons root roots)
  let ?y = "delete_under w seen root x"
  let ?P = "\<lambda>q. q \<in> set (paths_under root (mon_baseline (fst x))) \<and> q \<notin> set seen"
  have "distinct (paths_under root (mon_baseline (fst x)))" using Cons.prems by (simp add: paths_under_def hm_invar_def)
  then have y: "del_post w ?P x ?y" unfolding delete_under_def by (rule delete_fold_post)
  then have "hm_invar (mon_baseline (fst ?y))" and g: "\<And>p. baseline_get (mon_baseline (fst ?y)) p = (if ?P p then None else baseline_get (mon_baseline (fst x)) p)"
    using Cons.prems by (simp_all add: del_post_def)
  then have "del_post w (\<lambda>p. ?P p \<or> baseline_get (mon_baseline (fst ?y)) p \<noteq> None \<and> list_ex (\<lambda>r. under r p) roots \<and> p \<notin> set seen) x
      (fold (delete_under w seen) roots ?y)"
    by (intro del_post_trans [OF y Cons.IH]) (auto simp: g)
  moreover have "(\<lambda>p. ?P p \<or> baseline_get (mon_baseline (fst ?y)) p \<noteq> None \<and> list_ex (\<lambda>r. under r p) roots \<and> p \<notin> set seen) =
      (\<lambda>p. baseline_get (mon_baseline (fst x)) p \<noteq> None \<and> list_ex (\<lambda>r. under r p) (root # roots) \<and> p \<notin> set seen)"
    by (auto simp: g paths_under_set)
  ultimately show ?case by simp
qed (simp add: del_post_def)

lemma rescan_result:
  assumes "hm_invar (mon_baseline m)" and "\<not> mon_establishing m" and "walk v (mon_settings m) (fset_paths (mon_settings m)) = (paths, limits)"
    and "rescan v w m = (m', out)" and "\<not> walk_truncated (ro_limits out)"
  defines "gone \<equiv> \<lambda>p. baseline_get (mon_baseline m) p \<noteq> None \<and> list_ex (\<lambda>r. under r p) (fset_paths (mon_settings m)) \<and> p \<notin> set paths"
  shows "\<exists>ps. distinct ps \<and> set ps = {p. gone p} \<and> ro_events out = concat (map (file_events v w m) paths) @ map (deletion w m) ps"
    and "\<And>p. baseline_get (mon_baseline m') p = (if gone p then None else recorded v m paths p)"
    and "hm_invar (mon_baseline m')" "\<not> mon_establishing m'" "mon_settings m' = mon_settings m"
proof -
  let ?x = "scan_files v w (\<lambda>_. True) 0 paths m \<lparr>ro_events = [], ro_files_seen = 0, ro_limits = limits\<rparr>"
  have ok: "walk_ok v (mon_settings m) (paths, limits)" using walk_found [of v "mon_settings m" "fset_paths (mon_settings m)"] assms(3) by simp
  then have s: "scan_post v w paths m \<lparr>ro_events = [], ro_files_seen = 0, ro_limits = limits\<rparr> ?x"
    by (intro scan_result) (simp add: walk_ok_def)
  let ?z = "fold (delete_under w paths) (fset_paths (mon_settings m)) ?x"
  have z: "del_post w (\<lambda>p. baseline_get (mon_baseline (fst ?x)) p \<noteq> None \<and> list_ex (\<lambda>r. under r p) (fset_paths (mon_settings m)) \<and> p \<notin> set paths) ?x ?z"
    using s assms(1) by (intro delete_roots_post) (simp add: scan_post_def)
  have g: "(\<lambda>p. baseline_get (mon_baseline (fst ?x)) p \<noteq> None \<and> list_ex (\<lambda>r. under r p) (fset_paths (mon_settings m)) \<and> p \<notin> set paths) = gone"
    using s by (auto simp: scan_post_def recorded_def gone_def fun_eq_iff)
  have ab: "\<not> wl_abandoned (ro_limits (snd ?x))" using s ok by (simp add: scan_post_def walk_ok_def)
  have "ro_limits out = ro_limits (snd ?x)"
    using assms(2,4) ab z by (auto simp: rescan_def rescan_until_def assms(3) Let_def split_def del_post_def split: if_splits)
  then have "\<not> walk_truncated (ro_limits (snd ?x))" using assms(5) by simp
  then have r: "m' = (fst ?z)\<lparr>mon_establishing := False\<rparr>" "out = snd ?z"
    using assms(2,4) ab by (auto simp: rescan_def rescan_until_def assms(3) Let_def split_def)
  have d: "deletion w (fst ?x) p = deletion w m p" if "gone p" for p
    using s that by (auto simp: deletion_def gone_def scan_post_def recorded_def)
  obtain ps where ps: "distinct ps" "set ps = {p. gone p}" "ro_events (snd ?z) = ro_events (snd ?x) @ map (deletion w (fst ?x)) ps"
    using z unfolding g by (auto simp: del_post_def)
  have "map (deletion w (fst ?x)) ps = map (deletion w m) ps" using d ps(2) by simp
  then have "ro_events out = concat (map (file_events v w m) paths) @ map (deletion w m) ps"
    using ps(3) s assms(2) unfolding r(2) by (simp add: scan_post_def)
  with ps(1,2) show "\<exists>ps. distinct ps \<and> set ps = {p. gone p} \<and> ro_events out = concat (map (file_events v w m) paths) @ map (deletion w m) ps" by blast
  show "baseline_get (mon_baseline m') p = (if gone p then None else recorded v m paths p)" for p
    using z s unfolding g r(1) by (simp add: del_post_def scan_post_def)
  show "hm_invar (mon_baseline m')" "\<not> mon_establishing m'" "mon_settings m' = mon_settings m"
    using z s assms(1) unfolding r(1) by (simp_all add: del_post_def scan_post_def)
qed

section \<open>What a rescan should report\<close>

text \<open>A change of a file, from what is known of it before and after. Two contents are told apart by their hashes when both are known, and by
  their sizes otherwise; mode, owner and group are attributes.\<close>

fun file_change_of :: "file_record option \<Rightarrow> file_record option \<Rightarrow> file_change option" where
  "file_change_of None None = None"
| "file_change_of None (Some b) = Some Created"
| "file_change_of (Some a) None = Some Deleted"
| "file_change_of (Some a) (Some b) =
     (if (if fr_sha256 a = None \<or> fr_sha256 b = None then fr_size a = fr_size b else fr_sha256 a = fr_sha256 b)
      then if (fr_mode a, fr_uid a, fr_gid a) = (fr_mode b, fr_uid b, fr_gid b) then None else Some AttributesChanged
      else Some Modified)"

definition file_report :: "fim_detection \<Rightarrow> string \<Rightarrow> file_change \<Rightarrow> file_record option \<Rightarrow> file_record option \<Rightarrow> fim_event" where
  "file_report w path change a b = \<lparr>fim_path = path, fim_change = change, fim_detected_by = w, fim_size = map_option fr_size b,
     fim_sha256 = Option.bind b fr_sha256, fim_previous_sha256 = Option.bind a fr_sha256, fim_mode = map_option fr_mode b,
     fim_uid = map_option fr_uid b, fim_gid = map_option fr_gid b\<rparr>"

text \<open>What the scan could see of a path: a file the walk found, as it was when inspected; nothing where the walk found no file under a
  watched root. A file that disappears between the walk and its inspection leaves what was known.\<close>

definition visible :: "fs_view \<Rightarrow> monitor \<Rightarrow> string list \<Rightarrow> string \<Rightarrow> file_record option" where
  "visible v m paths p =
     (if p \<in> set paths then case inspect_by v m p of Found r \<Rightarrow> Some r | _ \<Rightarrow> baseline_get (mon_baseline m) p
      else if list_ex (\<lambda>root. under root p) (fset_paths (mon_settings m)) then None
      else baseline_get (mon_baseline m) p)"

lemma difference_spec:
  "difference p a r w = map_option (\<lambda>change. file_report w p change a (Some r)) (file_change_of a (Some r))"
  by (cases a; cases "Option.bind a fr_sha256"; cases "fr_sha256 r")
    (auto simp: difference_def content_changed_def change_event_def file_report_def)

lemma unchanged_spec: "file_change_of a a = None"
  by (cases a) auto

lemma file_events_spec:
  "p \<in> set paths \<Longrightarrow> file_events v w m p =
     (case file_change_of (baseline_get (mon_baseline m) p) (visible v m paths p) of
        None \<Rightarrow> [] | Some change \<Rightarrow> [file_report w p change (baseline_get (mon_baseline m) p) (visible v m paths p)])"
  by (simp add: file_events_def visible_def difference_spec unchanged_spec split: inspected.split option.split)

lemma deletion_spec:
  "baseline_get (mon_baseline m) p = Some a \<Longrightarrow> deletion w m p = file_report w p Deleted (Some a) None"
  by (simp add: deletion_def deleted_event_def file_report_def)

lemma file_event_paths: "map fim_path (concat (map (file_events v w m) paths)) = filter (\<lambda>p. file_events v w m p \<noteq> []) paths"
proof (induction paths)
  case (Cons p paths)
  have "map fim_path (file_events v w m p) = (if file_events v w m p = [] then [] else [p])"
    by (auto simp: file_events_def difference_spec file_report_def split: inspected.split option.splits)
  with Cons show ?case by simp
qed simp


text \<open>A rescan of an unchanged file system reports nothing: after one complete rescan, a second one that sees the same files raises no event, so every
change is reported once.\<close>

theorem rescan_reports_once:
  assumes "hm_invar (mon_baseline m)" and "\<not> mon_establishing m" and "walk v (mon_settings m) (fset_paths (mon_settings m)) = (paths, limits)"
    and "rescan v w m = (m1, out1)" and "\<not> walk_truncated (ro_limits out1)"
    and "rescan v w m1 = (m2, out2)" and "\<not> walk_truncated (ro_limits out2)"
    and "\<And>p r. p \<in> set paths \<Longrightarrow> inspect_by v m p = Found r \<Longrightarrow> fr_size r < 2 ^ 63"
  shows "ro_events out2 = []"
proof -
  note f = rescan_result [OF assms(1-5)]
  have w: "walk v (mon_settings m1) (fset_paths (mon_settings m1)) = (paths, limits)" using f(5) assms(3) by simp
  have "file_events v w m1 p = []" if "p \<in> set paths" for p
  proof (cases "inspect_by v m p")
    case (Found r)
    then have "clipped r = r" using assms(8) [OF that] by (simp add: clipped_def i64_max_def)
    then have "baseline_get (mon_baseline m1) p = Some r" using f(2) [of p] that Found by (auto simp: recorded_def)
    then show ?thesis using Found f(5)
      by (auto simp: file_events_def difference_def content_changed_def split: option.splits inspected.splits)
  qed (use f(5) in \<open>simp_all add: file_events_def\<close>)
  moreover have none: "baseline_get (mon_baseline m1) p = None"
    if "list_ex (\<lambda>r. under r p) (fset_paths (mon_settings m1))" "p \<notin> set paths" for p
    using f(2) [of p] f(5) that by (auto simp: recorded_def)
  have "{p. baseline_get (mon_baseline m1) p \<noteq> None \<and> list_ex (\<lambda>r. under r p) (fset_paths (mon_settings m1)) \<and> p \<notin> set paths} = {}"
    by (auto simp: none)
  moreover obtain ps where "set ps = {p. baseline_get (mon_baseline m1) p \<noteq> None \<and> list_ex (\<lambda>r. under r p) (fset_paths (mon_settings m1)) \<and> p \<notin> set paths}"
      "ro_events out2 = concat (map (file_events v w m1) paths) @ map (deletion w m1) ps"
    using rescan_result(1) [OF f(3,4) w assms(6,7)] by blast
  ultimately show ?thesis by (simp only: set_empty concat_eq_Nil_conv append_is_Nil_conv map_is_Nil_conv) simp
qed

section \<open>A watched root that vanishes\<close>

lemma walk_unreadable_mono: "wl_unreadable (snd st) \<le> wl_unreadable (snd (walk_stack v s stack st))"
proof (induction v s stack st rule: walk_stack.induct)
  case (2 v s path depth stack st)
  have "wl_unreadable (snd (add_found n path st)) = wl_unreadable (snd st)" for n by (cases st) (simp add: add_found_def)
  with 2 show ?case
    by (cases "fs_lstat v path") (auto simp: note_unreadable_def split: option.split)
qed simp

lemma fold_unreadable_mono: "wl_unreadable (snd st) \<le> wl_unreadable (snd (fold (\<lambda>root. walk_stack v s [(root, 0)]) roots st))"
proof (induction roots arbitrary: st)
  case (Cons root roots)
  show ?case using le_trans [OF walk_unreadable_mono Cons.IH] by (simp del: walk_stack.simps)
qed simp

lemma vanished_root_counted: "root \<in> set roots \<Longrightarrow> fs_lstat v root = StatError \<Longrightarrow> 0 < wl_unreadable (snd (walk v s roots))"
proof -
  assume "root \<in> set roots" and e: "fs_lstat v root = StatError"
  then obtain xs ys where roots: "roots = xs @ root # ys" by (meson split_list)
  let ?st = "fold (\<lambda>root. walk_stack v s [(root, 0)]) xs ([], no_limits)"
  have "0 < wl_unreadable (snd (walk_stack v s [(root, 0)] ?st))" using e by (simp add: note_unreadable_def)
  then show ?thesis
    using fold_unreadable_mono [of "walk_stack v s [(root, 0)] ?st" v s ys] by (simp add: walk_def walk_roots_def split_def roots del: walk_stack.simps)
qed

lemma add_events_limits [simp]: "ro_limits (add_events es out) = ro_limits out"
  by (simp add: add_events_def)

lemma scan_unreadable_mono: "wl_unreadable (ro_limits out) \<le> wl_unreadable (ro_limits (snd (scan_files v w go i paths m out)))"
proof (induction paths arbitrary: i m out)
  case (Cons path paths)
  have IH: "wl_unreadable (ro_limits out) \<le> wl_unreadable (ro_limits out') \<Longrightarrow>
      wl_unreadable (ro_limits out) \<le> wl_unreadable (ro_limits (snd (scan_files v w go i' paths m' out')))" for i' m' out'
    using Cons.IH le_trans by blast
  show ?case
    by (cases "inspect_by v m path") (simp_all add: Let_def note_unreadable_def IH)
qed simp

lemma difference_not_deleted: "difference p prev r w = Some e \<Longrightarrow> fim_change e \<noteq> Deleted"
  by (auto simp: difference_def change_event_def split: option.splits if_splits)

text \<open>When a watched root itself is deleted, the walk counts it as unreadable, and a walk that could not read something infers no
  deletions: a rescan then reports no deletion at all, under this root or any other.\<close>

lemma vanished_root_unreported:
  assumes "root \<in> set (fset_paths (mon_settings m))" and "fs_lstat v root = StatError" and "rescan v w m = (m', out)" and "e \<in> set (ro_events out)"
  shows "fim_change e \<noteq> Deleted"
proof -
  obtain paths limits where wk: "walk v (mon_settings m) (fset_paths (mon_settings m)) = (paths, limits)" by (metis surj_pair)
  let ?o = "\<lparr>ro_events = [], ro_files_seen = 0, ro_limits = limits\<rparr>"
  let ?x = "scan_files v w (\<lambda>_. True) 0 paths m ?o"
  have ok: "walk_ok v (mon_settings m) (paths, limits)" using walk_found [of v "mon_settings m" "fset_paths (mon_settings m)"] wk by simp
  have s: "scan_post v w paths m ?o ?x" using ok by (intro scan_result) (simp add: walk_ok_def)
  have "0 < wl_unreadable (ro_limits (snd ?x))"
    using vanished_root_counted [OF assms(1,2), of "mon_settings m"] wk scan_unreadable_mono [of ?o v w "\<lambda>_. True" 0 paths m] by simp
  then have "walk_truncated (ro_limits (snd ?x))" by (simp add: walk_truncated_def)
  then have "ro_events out = ro_events (snd ?x)"
    using assms(3) by (auto simp: rescan_def rescan_until_def wk Let_def split_def split: if_splits)
  then have "e \<in> set (concat (map (file_events v w m) paths))"
    using s assms(4) by (auto simp: scan_post_def split: if_splits)
  then show ?thesis
    by (auto simp: file_events_def difference_not_deleted split: inspected.splits option.splits dest!: difference_not_deleted [OF sym])
qed

section \<open>Examples\<close>

definition sample_view :: fs_view where
  "sample_view = \<lparr>fs_lstat = (\<lambda>p. if p = ''/w'' then IsDir else if p = ''/w/a'' \<or> p = ''/w/b'' then IsFile else StatError),
     fs_list = (\<lambda>p. if p = ''/w'' then Some [Some ''a'', Some ''b''] else None),
     fs_meta = (\<lambda>p. if p = ''/w/a'' \<or> p = ''/w/b'' then MetaFile 3 420 0 0 else MetaNotFound), fs_hash = (\<lambda>p. Some p)\<rparr>"

definition sample_fim :: fim_settings where
  "sample_fim = \<lparr>fset_paths = [''/w''], fset_max_file_bytes = 10, fset_max_depth = 2, fset_max_entries = 5\<rparr>"

lemma sample_walk: "walk sample_view sample_fim [''/w''] = ([''/w/a'', ''/w/b''], no_limits)"
  by (simp add: walk_def walk_roots_def sample_view_def sample_fim_def join_path_def List.map_filter_simps add_found_def note_unreadable_def no_limits_def)

lemmas sample_eval = sample_walk inspect_file_def sample_view_def sample_fim_def baseline_put_def baseline_get_def no_limits_def
  walk_truncated_def add_events_def Let_def

text \<open>A first scan stopped after one file, and the restart that follows: the stopped scan has left rows in the baseline, so the new
  monitor does not take its first scan for the one that establishes it, and reports the file the first never reached as created.\<close>

lemma restart_reports_created:
  "let (m1, out1) = rescan_until sample_view BaselineRescan (\<lambda>i. i < 1) (monitor_new sample_fim []);
       (m2, out2) = rescan sample_view BaselineRescan (monitor_new sample_fim (mon_baseline m1))
   in ro_events out1 = [] \<and> mon_establishing m1 \<and> map (\<lambda>e. (fim_path e, fim_change e)) (ro_events out2) = [(''/w/b'', Created)]"
proof -
  have s: "fset_paths sample_fim = [''/w'']" "fset_max_file_bytes sample_fim = 10" by (simp_all add: sample_fim_def)
  have i: "inspect_file sample_view 10 ''/w/a'' = Found \<lparr>fr_sha256 = Some ''/w/a'', fr_size = 3, fr_mode = 420, fr_uid = 0, fr_gid = 0\<rparr>"
    "inspect_file sample_view 10 ''/w/b'' = Found \<lparr>fr_sha256 = Some ''/w/b'', fr_size = 3, fr_mode = 420, fr_uid = 0, fr_gid = 0\<rparr>"
    by (simp_all add: inspect_file_def sample_view_def)
  show ?thesis
    by (simp add: rescan_def rescan_until_def monitor_new_def s i sample_walk baseline_put_def baseline_get_def no_limits_def walk_truncated_def
        add_events_def Let_def difference_def content_changed_def change_event_def i64_max_def delete_under_def paths_under_def starts_with_def
        char_lower_def delete_known_def)
qed

text \<open>A restored baseline that knows one file as it is, misses one, and knows one that has gone.\<close>

abbreviation sample_record :: "string \<Rightarrow> file_record" where
  "sample_record h \<equiv> \<lparr>fr_sha256 = Some h, fr_size = 3, fr_mode = 420, fr_uid = 0, fr_gid = 0\<rparr>"

definition sample_monitor :: monitor where
  "sample_monitor = monitor_new sample_fim [(''/w/a'', sample_record ''/w/a''), (''/w/c'', sample_record ''old'')]"

lemma sample_inspect:
  "inspect_file sample_view 10 ''/w/a'' = Found (sample_record ''/w/a'')" "inspect_file sample_view 10 ''/w/b'' = Found (sample_record ''/w/b'')"
  by (simp_all add: inspect_file_def sample_view_def)

lemmas monitor_eval = rescan_def rescan_until_def monitor_new_def sample_monitor_def sample_inspect sample_walk baseline_put_def
  baseline_get_def baseline_remove_def no_limits_def walk_truncated_def add_events_def Let_def difference_def content_changed_def change_event_def
  deleted_event_def i64_max_def delete_under_def paths_under_def starts_with_def char_lower_def delete_known_def

lemma sample_fim_paths [simp]: "fset_paths sample_fim = [''/w'']" "fset_max_file_bytes sample_fim = 10"
  by (simp_all add: sample_fim_def)

lemma sample_rescan:
  "map (\<lambda>e. (fim_path e, fim_change e)) (ro_events (snd (rescan sample_view BaselineRescan sample_monitor))) = [(''/w/b'', Created), (''/w/c'', Deleted)]"
  "\<not> walk_truncated (ro_limits (snd (rescan sample_view BaselineRescan sample_monitor)))"
  "\<not> walk_truncated (ro_limits (snd (rescan sample_view BaselineRescan (fst (rescan sample_view BaselineRescan sample_monitor)))))"
  by (simp_all add: monitor_eval)

lemma sample_monitor_ready: "hm_invar (mon_baseline sample_monitor)" "\<not> mon_establishing sample_monitor" "mon_settings sample_monitor = sample_fim"
  by (simp_all add: sample_monitor_def monitor_new_def hm_invar_def)


theorem rescan_reports_once_witness:
  "ro_events (snd (rescan sample_view BaselineRescan sample_monitor)) \<noteq> [] \<and>
   ro_events (snd (rescan sample_view BaselineRescan (fst (rescan sample_view BaselineRescan sample_monitor)))) = []"
proof -
  obtain m1 out1 where r1: "rescan sample_view BaselineRescan sample_monitor = (m1, out1)" by fastforce
  obtain m2 out2 where r2: "rescan sample_view BaselineRescan m1 = (m2, out2)" by fastforce
  have "ro_events out2 = []"
  proof (rule rescan_reports_once [OF sample_monitor_ready(1,2) _ r1 _ r2])
    show "walk sample_view (mon_settings sample_monitor) (fset_paths (mon_settings sample_monitor)) = ([''/w/a'', ''/w/b''], no_limits)"
      by (simp add: sample_monitor_ready sample_walk)
    show "\<not> walk_truncated (ro_limits out1)" "\<not> walk_truncated (ro_limits out2)" using sample_rescan r1 r2 by simp_all
    show "fr_size r < 2 ^ 63" if "p \<in> set [''/w/a'', ''/w/b'']" and "inspect_by sample_view sample_monitor p = Found r" for p r
      using that by (auto simp: sample_monitor_ready sample_inspect)
  qed
  then show ?thesis using sample_rescan(1) r1 r2 by auto
qed

end
