(* ===== verification/Sources.thy ===== *)
theory Sources
  imports Fim
begin

text \<open>
  What each host event source is doing (\<open>crates/hids/src/sources.rs\<close>, \<open>SourceState\<close> and \<open>SourceStatus\<close> of
  \<open>crates/common/src/event.rs\<close>). The registry is an association list; what it reports is ordered by name.
\<close>

datatype source_state = Active | Degraded | Unavailable | Unsupported

fun source_state_as_str :: "source_state \<Rightarrow> string" where
  "source_state_as_str Active = ''active''"
| "source_state_as_str Degraded = ''degraded''"
| "source_state_as_str Unavailable = ''unavailable''"
| "source_state_as_str Unsupported = ''unsupported''"

definition is_hole :: "source_state \<Rightarrow> bool" where
  "is_hole s \<longleftrightarrow> s \<noteq> Active"

record source_status =
  ss_name :: string
  ss_state :: source_state
  ss_detail :: string
  ss_records :: nat

type_synonym source_registry = "(string, source_status) hashmap"

definition fim_realtime :: string where "fim_realtime = ''fim.realtime''"
definition fim_baseline :: string where "fim_baseline = ''fim.baseline''"
definition auth_structured :: string where "auth_structured = ''auth.structured''"
definition auth_files :: string where "auth_files = ''auth.files''"
definition process_table :: string where "process_table = ''process.table''"
definition process_sockets :: string where "process_sockets = ''process.sockets''"

definition declare_source :: "string \<Rightarrow> source_state \<Rightarrow> string \<Rightarrow> source_registry \<Rightarrow> source_registry" where
  "declare_source name state detail r = hm_insert name
     \<lparr>ss_name = name, ss_state = state, ss_detail = detail, ss_records = (case hm_get r name of Some e \<Rightarrow> ss_records e | None \<Rightarrow> 0)\<rparr> r"

definition source_active :: "string \<Rightarrow> source_registry \<Rightarrow> source_registry" where
  "source_active name = declare_source name Active []"

definition source_unavailable :: "string \<Rightarrow> string \<Rightarrow> source_registry \<Rightarrow> source_registry" where
  "source_unavailable name = declare_source name Unavailable"

definition source_unsupported :: "string \<Rightarrow> string \<Rightarrow> source_registry \<Rightarrow> source_registry" where
  "source_unsupported name = declare_source name Unsupported"

definition source_degraded :: "string \<Rightarrow> string \<Rightarrow> source_registry \<Rightarrow> source_registry" where
  "source_degraded name = declare_source name Degraded"

definition source_produced :: "string \<Rightarrow> nat \<Rightarrow> source_registry \<Rightarrow> source_registry" where
  "source_produced name n r =
     (let e = (case hm_get r name of Some e \<Rightarrow> e | None \<Rightarrow> \<lparr>ss_name = name, ss_state = Active, ss_detail = [], ss_records = 0\<rparr>)
      in hm_insert name (e\<lparr>ss_records := ss_records e + n\<rparr>) r)"

definition state_of :: "source_registry \<Rightarrow> string \<Rightarrow> source_state option" where
  "state_of r name = map_option ss_state (hm_get r name)"

definition source_snapshot :: "source_registry \<Rightarrow> source_status list" where
  "source_snapshot r = map snd (sort_key fst r)"

definition source_holes :: "source_registry \<Rightarrow> source_status list" where
  "source_holes r = filter (\<lambda>e. is_hole (ss_state e)) (source_snapshot r)"

definition platform_gaps :: "string \<Rightarrow> (string \<times> string) list" where
  "platform_gaps os =
     (if os = ''linux'' then []
      else if os = ''windows'' then
        [(auth_structured, ''Windows Event Log (4624/4625) arrives in Phase 5; journald is Linux-only''),
         (process_table, ''ETW process monitoring arrives in Phase 5; /proc is Linux-only''),
         (process_sockets, ''GetExtendedTcpTable arrives in Phase 5; /proc/net/tcp is Linux-only'')]
      else if os = ''macos'' then
        [(auth_structured, ''the macOS unified log and OpenBSM arrive in Phase 6; journald is Linux-only''),
         (process_table, ''macOS process monitoring arrives in Phase 6; /proc is Linux-only''),
         (process_sockets, ''macOS socket enumeration arrives in Phase 6; /proc/net/tcp is Linux-only'')]
      else
        [(auth_structured, ''no host backend for this platform''), (process_table, ''no host backend for this platform''),
         (process_sockets, ''no host backend for this platform'')])"

definition declare_platform_gaps :: "string \<Rightarrow> source_registry \<Rightarrow> source_registry" where
  "declare_platform_gaps os r = fold (\<lambda>(name, detail). source_unsupported name detail) (platform_gaps os) r"

section \<open>Lookups\<close>

lemma state_declared [simp]: "state_of (declare_source name s detail r) n = (if n = name then Some s else state_of r n)"
  by (simp add: state_of_def declare_source_def update_conv')

lemma state_set [simp]:
  "state_of (source_active name r) n = (if n = name then Some Active else state_of r n)"
  "state_of (source_unavailable name detail r) n = (if n = name then Some Unavailable else state_of r n)"
  "state_of (source_unsupported name detail r) n = (if n = name then Some Unsupported else state_of r n)"
  "state_of (source_degraded name detail r) n = (if n = name then Some Degraded else state_of r n)"
  by (simp_all add: source_active_def source_unavailable_def source_unsupported_def source_degraded_def)

lemma state_produced [simp]: "state_of (source_produced name k r) n = (if n = name \<and> state_of r n = None then Some Active else state_of r n)"
  by (auto simp: state_of_def source_produced_def Let_def update_conv' split: option.split)

lemma registry_invar [simp]:
  "hm_invar r \<Longrightarrow> hm_invar (declare_source name s detail r)" "hm_invar r \<Longrightarrow> hm_invar (source_produced name k r)"
  by (simp_all add: declare_source_def source_produced_def Let_def)

lemma source_names [simp]: "distinct [fim_realtime, fim_baseline, auth_structured, auth_files, process_table, process_sockets]"
  by (simp add: fim_realtime_def fim_baseline_def auth_structured_def auth_files_def process_table_def process_sockets_def)

text \<open>What is reported is what was declared: a source is among the holes exactly when its state is one.\<close>

lemma hole_reported:
  assumes "hm_invar r" and "state_of r n = Some s"
  shows "(\<exists>e \<in> set (source_holes r). hm_get r n = Some e) \<longleftrightarrow> is_hole s"
proof -
  obtain e where e: "hm_get r n = Some e" "ss_state e = s" using assms(2) by (auto simp: state_of_def)
  then have "(n, e) \<in> set r" by (simp add: map_of_SomeD)
  then have "e \<in> set (source_snapshot r)" by (force simp: source_snapshot_def)
  then show ?thesis using e by (auto simp: source_holes_def)
qed

end
