(* ===== verification/Processes.thy ===== *)
theory Processes
  imports Logs
begin

text \<open>
  Process and socket monitoring (\<open>crates/hids/src/process.rs\<close>): the readers of \<open>/proc\<close> files, one sweep, and the watcher
  that compares consecutive sweeps. The \<open>/proc\<close> tree at the time of a sweep is the argument \<open>proc_tree\<close>; a file that cannot be
  read is \<open>None\<close>. Text is over characters below 256, with \<open>cmdline\<close> already decoded; the text of a socket address is a parameter.
\<close>

section \<open>What a sweep reads\<close>

record process_key =
  pk_pid :: nat
  pk_start_time :: nat

record process_info =
  pi_key :: process_key
  pi_name :: string
  pi_executable :: "string option"
  pi_command_line :: "string option"
  pi_uid :: "nat option"
  pi_parent_pid :: "nat option"

type_synonym socket_addr = "ip_addr \<times> 16 word"

record listening_socket =
  ls_address :: socket_addr
  ls_inode :: nat

record snapshot =
  sn_processes :: "(process_key, process_info) hashmap"
  sn_listening :: "(socket_addr, listening_socket) hashmap"
  sn_truncated :: nat
  sn_unreadable :: nat

record scan_limits =
  sl_max_processes :: nat
  sl_max_sockets :: nat

definition default_scan_limits :: scan_limits where
  "default_scan_limits = \<lparr>sl_max_processes = 16384, sl_max_sockets = 8192\<rparr>"

definition max_command_line :: nat where
  "max_command_line = 4096"

text \<open>One directory of \<open>/proc\<close>: the text of \<open>stat\<close>, the target of \<open>exe\<close>, \<open>cmdline\<close>, \<open>status\<close>, and the targets of the links in
  \<open>fd\<close> (an unreadable link is \<open>None\<close>).\<close>

record proc_dir =
  pd_stat :: "string option"
  pd_exe :: "string option"
  pd_cmdline :: "string option"
  pd_status :: "string option"
  pd_fd :: "string option list option"

text \<open>The entries of the root in directory order, none when it cannot be read, the two socket tables, and which files exist, readable or not.\<close>

record proc_tree =
  pt_entries :: "(string \<times> proc_dir) list option"
  pt_tcp :: "string option"
  pt_tcp6 :: "string option"
  pt_exists :: "string \<Rightarrow> bool"

section \<open>Readers\<close>

definition u64_text :: "string \<Rightarrow> nat option" where
  "u64_text = parse_uint u64_max"

definition proc_sanitise :: "string \<Rightarrow> nat \<Rightarrow> string" where
  "proc_sanitise text limit = map (\<lambda>c. if is_control_char c then CHR ''.'' else c) (take limit text)"

definition list_get :: "'a list \<Rightarrow> nat \<Rightarrow> 'a option" where
  "list_get xs i = (if i < length xs then Some (xs ! i) else None)"

text \<open>\<open>find\<close> and \<open>rfind\<close> of a character.\<close>

definition find_char :: "char \<Rightarrow> string \<Rightarrow> nat option" where
  "find_char c text = (if c \<in> set text then Some (length (takeWhile (\<lambda>d. d \<noteq> c) text)) else None)"

definition rfind_char :: "char \<Rightarrow> string \<Rightarrow> nat option" where
  "rfind_char c text = map_option (\<lambda>i. length text - 1 - i) (find_char c (rev text))"

definition parse_stat :: "string \<Rightarrow> (string \<times> nat option \<times> nat) option" where
  "parse_stat stat = do {
     opening \<leftarrow> find_char (CHR ''('') stat;
     closing \<leftarrow> rfind_char (CHR '')'') stat;
     if closing < opening then None
     else do {
       inner \<leftarrow> slice stat (opening + 1) closing;
       let name = proc_sanitise inner 128;
       let rest = words_of (drop (closing + 1) stat);
       let parent_pid = Option.bind (list_get rest 1) (parse_uint u32_max);
       start_time \<leftarrow> Option.bind (list_get rest 19) u64_text;
       Some (name, parent_pid, start_time) } }"

definition parse_status_uid :: "string \<Rightarrow> nat option" where
  "parse_status_uid status = do {
     line \<leftarrow> find (\<lambda>l. starts_with l ''Uid:'') (str_lines status);
     word \<leftarrow> list_get (words_of line) 1;
     parse_uint u32_max word }"

text \<open>\<open>from_str_radix(_, 16)\<close>: one optional plus sign, then digits, with an overflow check.\<close>

fun hex_digits_value :: "nat \<Rightarrow> string \<Rightarrow> nat \<Rightarrow> nat option" where
  "hex_digits_value mx [] acc = Some acc"
| "hex_digits_value mx (c # cs) acc = (case to_digit 16 c of
       None \<Rightarrow> None
     | Some d \<Rightarrow> if mx < acc * 16 + d then None else hex_digits_value mx cs (acc * 16 + d))"

definition from_hex :: "nat \<Rightarrow> string \<Rightarrow> nat option" where
  "from_hex mx cs = (let ds = (case cs of c # rest \<Rightarrow> if c = CHR ''+'' then rest else cs | [] \<Rightarrow> [])
     in if ds = [] then None else hex_digits_value mx ds 0)"

definition word_octets :: "nat \<Rightarrow> bytes" where
  "word_octets n = rev (be_bytes 4 (word_of_nat n :: 32 word))"

fun hex_words :: "nat \<Rightarrow> string \<Rightarrow> bytes option" where
  "hex_words 0 cs = Some []"
| "hex_words (Suc n) cs = do {
     w \<leftarrow> from_hex u32_max (take 8 cs);
     bs \<leftarrow> hex_words n (drop 8 cs);
     Some (word_octets w @ bs) }"

definition parse_hex_address :: "string \<Rightarrow> bool \<Rightarrow> socket_addr option" where
  "parse_hex_address text is_v6 = do {
     (address, port) \<leftarrow> split_once (CHR '':'') text;
     p \<leftarrow> from_hex u16_max port;
     if is_v6
     then if byte_len address \<noteq> 32 then None
          else map_option (\<lambda>bs. (V6 (be_word bs), word_of_nat p)) (hex_words 4 address)
     else if byte_len address \<noteq> 8 then None
          else map_option (\<lambda>bs. (V4 (be_word bs), word_of_nat p)) (hex_words 1 address) }"

definition listening_line :: "bool \<Rightarrow> string \<Rightarrow> listening_socket option" where
  "listening_line is_v6 line =
     (let columns = words_of line in do {
        local_addr \<leftarrow> list_get columns 1;
        state \<leftarrow> list_get columns 3;
        if map char_lower state \<noteq> ''0a'' then None
        else do {
          address \<leftarrow> parse_hex_address local_addr is_v6;
          Some \<lparr>ls_address = address, ls_inode = unwrap_or (Option.bind (list_get columns 9) u64_text) 0\<rparr> } })"

definition parse_net_table :: "string \<Rightarrow> bool \<Rightarrow> listening_socket list" where
  "parse_net_table text is_v6 = List.map_filter (listening_line is_v6) (drop 1 (str_lines text))"

definition command_line_of :: "string \<Rightarrow> string option" where
  "command_line_of raw =
     (let joined = concat (case filter (\<lambda>p. p \<noteq> []) (str_split (char_of (0 :: nat)) raw) of [] \<Rightarrow> []
            | p # ps \<Rightarrow> p # map (\<lambda>q. CHR '' '' # q) ps)
      in if joined = [] then None else Some (proc_sanitise joined max_command_line))"

definition read_process :: "proc_dir \<Rightarrow> nat \<Rightarrow> process_info option" where
  "read_process dir pid = do {
     stat \<leftarrow> pd_stat dir;
     (name, parent_pid, start_time) \<leftarrow> parse_stat stat;
     Some \<lparr>pi_key = \<lparr>pk_pid = pid, pk_start_time = start_time\<rparr>, pi_name = name, pi_executable = pd_exe dir,
       pi_command_line = Option.bind (pd_cmdline dir) command_line_of, pi_uid = Option.bind (pd_status dir) parse_status_uid,
       pi_parent_pid = parent_pid\<rparr> }"

section \<open>A sweep\<close>

definition add_process :: "scan_limits \<Rightarrow> string \<times> proc_dir \<Rightarrow> snapshot \<Rightarrow> snapshot" where
  "add_process limits entry s = (case parse_uint u32_max (fst entry) of
       None \<Rightarrow> s
     | Some pid \<Rightarrow>
         if sl_max_processes limits \<le> length (sn_processes s) then s\<lparr>sn_truncated := sn_truncated s + 1\<rparr>
         else case read_process (snd entry) pid of
             Some info \<Rightarrow> s\<lparr>sn_processes := hm_insert (pi_key info) info (sn_processes s)\<rparr>
           | None \<Rightarrow> s\<lparr>sn_unreadable := sn_unreadable s + 1\<rparr>)"

fun add_sockets :: "scan_limits \<Rightarrow> listening_socket list \<Rightarrow> snapshot \<Rightarrow> snapshot" where
  "add_sockets limits [] s = s"
| "add_sockets limits (x # xs) s =
     (if sl_max_sockets limits \<le> length (sn_listening s) then s\<lparr>sn_truncated := sn_truncated s + 1\<rparr>
      else add_sockets limits xs (s\<lparr>sn_listening := hm_insert (ls_address x) x (sn_listening s)\<rparr>))"

definition add_table :: "scan_limits \<Rightarrow> string option \<Rightarrow> bool \<Rightarrow> snapshot \<Rightarrow> snapshot" where
  "add_table limits table is_v6 s = (case table of None \<Rightarrow> s | Some text \<Rightarrow> add_sockets limits (parse_net_table text is_v6) s)"

definition empty_snapshot :: snapshot where
  "empty_snapshot = \<lparr>sn_processes = [], sn_listening = [], sn_truncated = 0, sn_unreadable = 0\<rparr>"

text \<open>The maps are ordered by their keys, as a \<open>BTreeMap\<close> is: by pid and start time, and by address and port.\<close>

definition in_key_order :: "snapshot \<Rightarrow> snapshot" where
  "in_key_order s = s\<lparr>sn_processes := sort_key (\<lambda>(k, _). (pk_pid k, pk_start_time k)) (sn_processes s),
     sn_listening := sort_key fst (sn_listening s)\<rparr>"

definition take_snapshot :: "proc_tree \<Rightarrow> scan_limits \<Rightarrow> snapshot" where
  "take_snapshot tree limits = (case pt_entries tree of
       None \<Rightarrow> empty_snapshot\<lparr>sn_unreadable := 1\<rparr>
     | Some entries \<Rightarrow> in_key_order
         (add_table limits (pt_tcp6 tree) True (add_table limits (pt_tcp tree) False (fold (add_process limits) entries empty_snapshot))))"

section \<open>The watcher\<close>

record watcher =
  wt_limits :: scan_limits
  wt_known_processes :: "process_key set"
  wt_known_listening :: "socket_addr set"
  wt_established :: bool

record sweep_outcome =
  so_events :: "process_event list"
  so_truncated :: nat
  so_processes_seen :: nat
  so_sockets_seen :: nat

definition watcher_new :: "scan_limits \<Rightarrow> watcher" where
  "watcher_new limits = \<lparr>wt_limits = limits, wt_known_processes = {}, wt_known_listening = {}, wt_established = False\<rparr>"

definition holds_socket :: "proc_tree \<Rightarrow> string \<Rightarrow> process_info \<Rightarrow> bool" where
  "holds_socket tree needle info = (case Option.bind (pt_entries tree) (\<lambda>es. map_of es (show_nat (pk_pid (pi_key info)))) of
       None \<Rightarrow> False
     | Some dir \<Rightarrow> (case pd_fd dir of None \<Rightarrow> False | Some links \<Rightarrow> Some needle \<in> set links))"

definition owner_of :: "proc_tree \<Rightarrow> snapshot \<Rightarrow> nat \<Rightarrow> process_info option" where
  "owner_of tree s inode = (if inode = 0 then None
     else find (holds_socket tree (''socket:['' @ show_nat inode @ '']'')) (map snd (sn_processes s)))"

definition sockets_readable :: "proc_tree \<Rightarrow> bool" where
  "sockets_readable tree = list_ex (pt_exists tree) [''net/tcp'', ''net/tcp6'']"

definition started_event :: "process_info \<Rightarrow> process_event" where
  "started_event info = \<lparr>pr_change = Started, pr_pid = pk_pid (pi_key info), pr_name = pi_name info, pr_executable = pi_executable info,
     pr_command_line = pi_command_line info, pr_uid = pi_uid info, pr_parent_pid = pi_parent_pid info\<rparr>"

definition listening_event :: "(socket_addr \<Rightarrow> string) \<Rightarrow> process_info option \<Rightarrow> socket_addr \<Rightarrow> process_event" where
  "listening_event show_socket owner address = \<lparr>pr_change = Listening,
     pr_pid = (case owner of Some i \<Rightarrow> pk_pid (pi_key i) | None \<Rightarrow> 0),
     pr_name = (case owner of Some i \<Rightarrow> pi_name i | None \<Rightarrow> ''unknown''),
     pr_executable = Option.bind owner pi_executable, pr_command_line = Some (''listening on '' @ show_socket address),
     pr_uid = Option.bind owner pi_uid, pr_parent_pid = Option.bind owner pi_parent_pid\<rparr>"

definition sweep :: "(socket_addr \<Rightarrow> string) \<Rightarrow> proc_tree \<Rightarrow> watcher \<Rightarrow> watcher \<times> sweep_outcome" where
  "sweep show_socket tree w =
     (let s = take_snapshot tree (wt_limits w);
          events = (if wt_established w
            then map (\<lambda>(key, info). started_event info) (filter (\<lambda>(key, _). key \<notin> wt_known_processes w) (sn_processes s)) @
                 map (\<lambda>(address, socket). listening_event show_socket (owner_of tree s (ls_inode socket)) address)
                   (filter (\<lambda>(address, _). address \<notin> wt_known_listening w) (sn_listening s))
            else [])
      in (w\<lparr>wt_known_processes := fst ` set (sn_processes s), wt_known_listening := fst ` set (sn_listening s), wt_established := True\<rparr>,
          \<lparr>so_events = events, so_truncated = sn_truncated s, so_processes_seen = length (sn_processes s),
           so_sockets_seen = length (sn_listening s)\<rparr>))"

section \<open>Nothing in a name moves the fields\<close>

lemma find_char_first: "c \<notin> set pre \<Longrightarrow> find_char c (pre @ c # post) = Some (length pre)"
  by (simp add: find_char_def takeWhile_append)

lemma rfind_char_last: "c \<notin> set post \<Longrightarrow> rfind_char c (pre @ c # post) = Some (length pre)"
  using find_char_first [of c "rev post" "rev pre"] by (simp add: rfind_char_def)

lemma proc_sanitise_plain: "printable_text text \<Longrightarrow> length text \<le> limit \<Longrightarrow> proc_sanitise text limit = text"
  unfolding proc_sanitise_def by (subst take_all) (auto simp: printable_text_def list_all_iff intro: map_idI)

text \<open>A process cannot misreport its parent or its start time: whatever it calls itself, spaces and parentheses included, the line the
kernel writes for it is read with its true name, and the parent and start time are the fields after the name.\<close>

theorem stat_read:
  assumes "CHR ''('' \<notin> set pid" and "printable_text name" and "length name \<le> 128" and "CHR '')'' \<notin> set following"
    and "19 < length (words_of following)" and "u64_text (words_of following ! 19) = Some start_time"
  shows "parse_stat (pid @ ''('' @ name @ '')'' @ following) = Some (name, parse_uint u32_max (words_of following ! 1), start_time)"
proof -
  let ?s = "pid @ ''('' @ name @ '')'' @ following"
  have o: "find_char (CHR ''('') ?s = Some (length pid)" using find_char_first [OF assms(1)] by simp
  have c: "rfind_char (CHR '')'') ?s = Some (length pid + 1 + length name)"
    using rfind_char_last [OF assms(4), of "pid @ ''('' @ name"] by simp
  have i: "slice ?s (length pid + 1) (length pid + 1 + length name) = Some name" by (simp add: slice_def)
  have r: "drop (length pid + 1 + length name + 1) ?s = following" by simp
  show ?thesis
    unfolding parse_stat_def o c using i r assms(5,6) proc_sanitise_plain [OF assms(2,3)] by (simp add: list_get_def)
qed

section \<open>Socket addresses\<close>

text \<open>The hexadecimal digits the kernel writes.\<close>

definition hex_char :: "nat \<Rightarrow> char" where
  "hex_char d = char_of (if d < 10 then 48 + d else 55 + d)"

fun hex_text :: "nat \<Rightarrow> nat \<Rightarrow> string" where
  "hex_text 0 n = []"
| "hex_text (Suc k) n = hex_text k (n div 16) @ [hex_char (n mod 16)]"

lemma length_hex_text [simp]: "length (hex_text k n) = k"
  by (induction k arbitrary: n) simp_all

lemma hex_char_cases: "d < 16 \<Longrightarrow> to_digit 16 (hex_char d) = Some d \<and> hex_char d \<noteq> CHR ''+'' \<and> hex_char d \<noteq> CHR '':'' \<and> utf8_length (hex_char d) = 1"
proof -
  assume d: "d < 16"
  then have n: "(of_char (hex_char d) :: nat) = (if d < 10 then 48 + d else 55 + d)" by (simp add: hex_char_def)
  have "(of_char (CHR ''+'') :: nat) = 43" "(of_char (CHR '':'') :: nat) = 58" by simp_all
  with n d have "(of_char (hex_char d) :: nat) \<noteq> of_char (CHR ''+'')" "(of_char (hex_char d) :: nat) \<noteq> of_char (CHR '':'')"
    by (auto split: if_splits)
  then have "hex_char d \<noteq> CHR ''+''" "hex_char d \<noteq> CHR '':''" by metis+
  with n d show ?thesis by (simp add: to_digit_def utf8_length_def)
qed

lemma hex_value_append: "hex_digits_value mx (xs @ ys) acc = Option.bind (hex_digits_value mx xs acc) (hex_digits_value mx ys)"
  by (induction xs arbitrary: acc) (auto split: option.split)

lemma hex_text_value: "n < 16 ^ k \<Longrightarrow> n \<le> mx \<Longrightarrow> hex_digits_value mx (hex_text k n) 0 = Some n"
proof (induction k arbitrary: n)
  case (Suc k)
  have "n div 16 < 16 ^ k" using Suc.prems by (simp add: less_mult_imp_div_less mult.commute)
  moreover have "n div 16 \<le> mx" using Suc.prems div_le_dividend [of n 16] by linarith
  ultimately have "hex_digits_value mx (hex_text k (n div 16)) 0 = Some (n div 16)" by (rule Suc.IH)
  then show ?case using hex_char_cases [of "n mod 16"] Suc.prems by (simp add: hex_value_append)
qed simp

lemma hex_text_chars: "c \<in> set (hex_text k n) \<Longrightarrow> c \<noteq> CHR ''+'' \<and> c \<noteq> CHR '':'' \<and> utf8_length c = 1"
  by (induction k arbitrary: n) (use hex_char_cases in auto)

lemma from_hex_text: "0 < k \<Longrightarrow> n < 16 ^ k \<Longrightarrow> n \<le> mx \<Longrightarrow> from_hex mx (hex_text k n) = Some n"
proof -
  assume k: "0 < k" and n: "n < 16 ^ k" "n \<le> mx"
  obtain c cs where t: "hex_text k n = c # cs" using k by (cases "hex_text k n") (metis length_hex_text list.size(3) less_irrefl)
  have "c \<noteq> CHR ''+''" using hex_text_chars [of c k n] t by simp
  then show ?thesis using hex_text_value [OF n] t by (simp add: from_hex_def)
qed

lemma hex_text_len: "byte_len (hex_text k n) = k"
proof -
  have "byte_len cs = length cs" if "\<And>c. c \<in> set cs \<Longrightarrow> utf8_length c = 1" for cs using that by (induction cs) auto
  then show ?thesis using hex_text_chars by (metis length_hex_text)
qed

lemma bytes_word_bytes: "be_bytes 4 (be_word [a, b, c, d] :: 32 word) = [a, b, c, d]"
proof -
  have "be_bytes 4 w = [ucast (drop_bit 24 w), ucast (drop_bit 16 w), ucast (drop_bit 8 w), ucast w]" for w :: "32 word"
    by (simp add: be_bytes_Suc numeral_eq_Suc be_bytes_def)
  moreover have "\<not> bit x (8 + n)" "\<not> bit x (16 + n)" "\<not> bit x (24 + n)" for x :: byte and n
    using bit_imp_le_length [of x] by fastforce+
  ultimately show ?thesis
    by (simp add: be_word_def) (intro conjI bit_word_eqI; auto simp: bit_simps)
qed

lemma octets_read:
  assumes "length bs = 4"
  shows "word_octets (unat (be_word (rev bs) :: 32 word)) = bs"
proof -
  obtain a b c d where "bs = [a, b, c, d]" using assms by (auto simp: length_Suc_conv numeral_eq_Suc)
  then show ?thesis by (simp add: word_octets_def bytes_word_bytes)
qed

text \<open>How the kernel writes an address: the bytes of each 32-bit group as the number they are on a little-endian machine.\<close>

fun kernel_hex :: "bytes \<Rightarrow> string" where
  "kernel_hex (a # b # c # d # bs) = hex_text 8 (unat (be_word [d, c, b, a] :: 32 word)) @ kernel_hex bs"
| "kernel_hex _ = []"

lemma hex_words_read: "length bs = 4 * n \<Longrightarrow> hex_words n (kernel_hex bs) = Some bs"
proof (induction n arbitrary: bs)
  case (Suc n)
  then obtain a b c d cs where bs: "bs = a # b # c # d # cs" by (auto simp: length_Suc_conv numeral_eq_Suc)
  have "unat (be_word [d, c, b, a] :: 32 word) < 2 ^ 32" using unsigned_less [of "be_word [d, c, b, a] :: 32 word"] by simp
  then have "from_hex u32_max (hex_text 8 (unat (be_word [d, c, b, a] :: 32 word))) = Some (unat (be_word [d, c, b, a] :: 32 word))"
    by (intro from_hex_text) (simp_all add: u32_max_def)
  with octets_read [of "[a, b, c, d]"] Suc bs show ?case by simp
qed simp

lemma kernel_hex_text: "length bs = 4 * n \<Longrightarrow> byte_len (kernel_hex bs) = 8 * n \<and> CHR '':'' \<notin> set (kernel_hex bs)"
proof (induction n arbitrary: bs)
  case (Suc n)
  then obtain a b c d cs where bs: "bs = a # b # c # d # cs" by (auto simp: length_Suc_conv numeral_eq_Suc)
  with Suc show ?case using hex_text_chars by (auto simp: hex_text_len)
qed simp

lemma split_once_first: "c \<notin> set xs \<Longrightarrow> split_once c (xs @ c # ys) = Some (xs, ys)"
  by (simp add: split_once_def takeWhile_append dropWhile_append)

text \<open>The address of a listening socket is the one the kernel wrote, for IPv4 and IPv6 and every port.\<close>

theorem socket_address_read:
  "parse_hex_address (kernel_hex (be_bytes 4 a) @ '':'' @ hex_text 4 (unat port)) False = Some (V4 a, port) \<and>
   parse_hex_address (kernel_hex (be_bytes 16 b) @ '':'' @ hex_text 4 (unat port)) True = Some (V6 b, port)"
proof -
  have p: "from_hex u16_max (hex_text 4 (unat port)) = Some (unat port)"
    using unsigned_less [of port, where ?'a = nat] by (intro from_hex_text) (simp_all add: u16_max_def)
  have "parse_hex_address (kernel_hex bs @ '':'' @ hex_text 4 (unat port)) v6 =
      (if v6 then if 8 * n \<noteq> 32 then None else map_option (\<lambda>bs. (V6 (be_word bs), port)) (hex_words 4 (kernel_hex bs))
       else if 8 * n \<noteq> 8 then None else map_option (\<lambda>bs. (V4 (be_word bs), port)) (hex_words 1 (kernel_hex bs)))"
    if "length bs = 4 * n" for bs n v6
    using kernel_hex_text [OF that] split_once_first [of "CHR '':''" "kernel_hex bs" "hex_text 4 (unat port)"] p
    by (simp add: parse_hex_address_def)
  from this [of "be_bytes 4 a" 1 False] this [of "be_bytes 16 b" 4 True] show ?thesis
    using hex_words_read [of "be_bytes 4 a" 1] hex_words_read [of "be_bytes 16 b" 4] by (simp add: be_word_be_bytes)
qed

section \<open>What a sweep reports\<close>

definition snapshot_ok :: "scan_limits \<Rightarrow> snapshot \<Rightarrow> bool" where
  "snapshot_ok limits s \<longleftrightarrow> hm_invar (sn_processes s) \<and> hm_invar (sn_listening s) \<and> length (sn_processes s) \<le> sl_max_processes limits \<and>
     length (sn_listening s) \<le> sl_max_sockets limits \<and> list_all (\<lambda>(k, i). pi_key i = k) (sn_processes s)"

lemma keyed_insert: "list_all (\<lambda>(k, i). pi_key i = k) m \<Longrightarrow> list_all (\<lambda>(k, i). pi_key i = k) (hm_insert (pi_key info) info m)"
  unfolding list_all_iff by (auto dest: hm_set_insert)

lemma insert_length: "length (hm_insert k v m) \<le> Suc (length m)"
  by (induction m) auto

lemma insert_fits: "\<not> n \<le> length m \<Longrightarrow> length (hm_insert k v m) \<le> n"
  using insert_length [of k v m] by simp

lemma add_process_ok: "snapshot_ok limits s \<Longrightarrow> snapshot_ok limits (add_process limits e s)"
  by (auto simp: add_process_def snapshot_ok_def keyed_insert insert_fits split: option.split)

lemma add_sockets_ok: "snapshot_ok limits s \<Longrightarrow> snapshot_ok limits (add_sockets limits xs s)"
proof (induction xs arbitrary: s)
  case (Cons x xs)
  then show ?case by (auto simp: snapshot_ok_def insert_fits)
qed simp

lemma in_key_order_ok: "snapshot_ok limits s \<Longrightarrow> snapshot_ok limits (in_key_order s)"
  unfolding snapshot_ok_def in_key_order_def hm_invar_def list_all_iff
  by (auto simp: distinct_map inj_on_def)

lemma snapshot_ok: "snapshot_ok limits (take_snapshot tree limits)"
proof -
  have "snapshot_ok limits empty_snapshot" by (simp add: snapshot_ok_def empty_snapshot_def)
  moreover have "snapshot_ok limits (fold (add_process limits) es s)" if "snapshot_ok limits s" for es s
    using that by (induction es arbitrary: s) (auto intro: add_process_ok)
  moreover have "snapshot_ok limits (empty_snapshot\<lparr>sn_unreadable := 1\<rparr>)" by (simp add: snapshot_ok_def empty_snapshot_def)
  ultimately show ?thesis by (auto simp: take_snapshot_def add_table_def add_sockets_ok intro!: in_key_order_ok split: option.split)
qed

definition seen_processes :: "proc_tree \<Rightarrow> scan_limits \<Rightarrow> process_info set" where
  "seen_processes tree limits = snd ` set (sn_processes (take_snapshot tree limits))"

text \<open>A sweep reports exactly what is new since the one before: one started event for every process that is there now under a pid and start
time that were not there then, so a recycled pid is a new process, and none for any other; the first sweep reports nothing.\<close>

theorem sweep_reports_new_processes:
  assumes "sweep show_socket before w = (w1, o1)" and "sweep show_socket now w1 = (w2, o2)"
  defines "new \<equiv> {i \<in> seen_processes now (wt_limits w). pi_key i \<notin> pi_key ` seen_processes before (wt_limits w)}"
  shows "(\<not> wt_established w \<longrightarrow> so_events o1 = []) \<and>
    {e \<in> set (so_events o2). pr_change e = Started} = started_event ` new \<and>
    length (filter (\<lambda>e. pr_change e = Started) (so_events o2)) = card new"
proof -
  let ?l = "wt_limits w"
  let ?a = "sn_processes (take_snapshot before ?l)" and ?b = "sn_processes (take_snapshot now ?l)"
  have l: "wt_limits w1 = ?l" "wt_known_processes w1 = fst ` set ?a" "wt_established w1"
    by (simp_all add: arg_cong [OF assms(1), of fst, simplified, symmetric] sweep_def Let_def)
  have keyed: "fst ` set (sn_processes (take_snapshot tree ?l)) = pi_key ` seen_processes tree ?l"
    "(k, i) \<in> set (sn_processes (take_snapshot tree ?l)) \<Longrightarrow> k = pi_key i" for tree k i
    using snapshot_ok [of ?l tree] by (force simp: snapshot_ok_def seen_processes_def list_all_iff image_iff)+
  let ?f = "filter (\<lambda>(key, _). key \<notin> fst ` set ?a) ?b"
  have infos: "snd ` set ?f = new"
    unfolding new_def keyed(1) using keyed(2) [of _ _ now] by (force simp: seen_processes_def)
  have started: "filter (\<lambda>e. pr_change e = Started) (so_events o2) = map (\<lambda>(key, info). started_event info) ?f"
    using assms(2) l by (auto simp: sweep_def Let_def started_event_def listening_event_def filter_map comp_def split_def)
  have "distinct (map fst ?b)" using snapshot_ok [of ?l now] by (simp add: snapshot_ok_def hm_invar_def)
  then have "distinct ?f" by (metis distinct_filter distinct_map)
  moreover have "inj_on snd (set ?f)" by (intro inj_onI) (auto; metis keyed(2))
  ultimately have "length ?f = card new" by (simp only: infos [symmetric] card_image distinct_card)
  moreover have "{e \<in> set (so_events o2). pr_change e = Started} = started_event ` new"
  proof -
    have "{e \<in> set (so_events o2). pr_change e = Started} = set (filter (\<lambda>e. pr_change e = Started) (so_events o2))" by auto
    also have "\<dots> = started_event ` snd ` set ?f" unfolding started by (simp add: image_image split_def)
    finally show ?thesis by (simp only: infos)
  qed
  moreover have "\<not> wt_established w \<longrightarrow> so_events o1 = []" using assms(1) by (auto simp: sweep_def Let_def)
  ultimately show ?thesis by (simp add: started)
qed

section \<open>Examples\<close>

definition sample_fields :: string where
  "sample_fields = '' S 1 2 3 4 5 6 7 8 9 10 11 12 13 14 15 16 17 18 900 20''"

lemma sample_fields_read: "words_of sample_fields ! Suc 0 = ''1''" "words_of sample_fields ! 19 = ''900''" "length (words_of sample_fields) = 21"
  by code_simp+

lemma sample_numbers: "u64_text ''900'' = Some 900" "parse_uint u32_max ''1'' = Some 1"
  by (simp_all add: u64_text_def parse_uint_def digit_value_def u64_max_def u32_max_def)

theorem stat_read_witness:
  "parse_stat (''77 '' @ ''('' @ ''a) R 4 (b'' @ '')'' @ sample_fields) = Some (''a) R 4 (b'', Some 1, 900)"
proof -
  have "printable_text ''a) R 4 (b''" "CHR '')'' \<notin> set sample_fields" by code_simp+
  then show ?thesis
    using stat_read [of "''77 ''" "''a) R 4 (b''" sample_fields 900]
    by (simp add: sample_fields_read sample_numbers)
qed

definition sample_tree :: "string \<Rightarrow> proc_tree" where
  "sample_tree stat = \<lparr>pt_entries = Some [(''77'', \<lparr>pd_stat = Some stat, pd_exe = None, pd_cmdline = None, pd_status = None, pd_fd = None\<rparr>)],
     pt_tcp = None, pt_tcp6 = None, pt_exists = (\<lambda>_. False)\<rparr>"

theorem sweep_reports_new_processes_witness:
  "let (w1, o1) = sweep (\<lambda>_. []) (sample_tree ''77 (sh)'') (watcher_new default_scan_limits);
       (w2, o2) = sweep (\<lambda>_. []) (sample_tree (''77 '' @ ''('' @ ''sh'' @ '')'' @ sample_fields)) w1
   in so_events o1 = [] \<and> map pr_pid (so_events o2) = [77]"
proof -
  let ?s = "''77 '' @ ''('' @ ''sh'' @ '')'' @ sample_fields"
  obtain w1 o1 where 1: "sweep (\<lambda>_. []) (sample_tree ''77 (sh)'') (watcher_new default_scan_limits) = (w1, o1)" by (metis surj_pair)
  obtain w2 o2 where 2: "sweep (\<lambda>_. []) (sample_tree ?s) w1 = (w2, o2)" by (metis surj_pair)
  have "CHR '')'' \<notin> set sample_fields" by code_simp
  then have full: "parse_stat ?s = Some (''sh'', Some 1, 900)"
    using stat_read [of "''77 ''" "''sh''" sample_fields 900] by (simp add: sample_fields_read sample_numbers is_control_char_def)
  have none: "parse_stat ''77 (sh)'' = None" by code_simp
  have pid: "parse_uint u32_max ''77'' = Some 77" by (simp add: parse_uint_def digit_value_def u32_max_def)
  have limits: "wt_limits (watcher_new default_scan_limits) = default_scan_limits" by (simp add: watcher_new_def)
  let ?i = "\<lparr>pi_key = \<lparr>pk_pid = 77, pk_start_time = 900\<rparr>, pi_name = ''sh'', pi_executable = None, pi_command_line = None, pi_uid = None,
    pi_parent_pid = Some 1\<rparr>"
  have "seen_processes (sample_tree ''77 (sh)'') default_scan_limits = {}" "seen_processes (sample_tree ?s) default_scan_limits = {?i}"
    by (simp_all add: seen_processes_def take_snapshot_def sample_tree_def add_process_def pid empty_snapshot_def default_scan_limits_def
        read_process_def none full add_table_def in_key_order_def del: append_Cons append.simps)
  then have "so_events o1 = []" "length (filter (\<lambda>e. pr_change e = Started) (so_events o2)) = 1"
    "{e \<in> set (so_events o2). pr_change e = Started} = {started_event ?i}"
    using sweep_reports_new_processes [OF 1 2] unfolding limits by (simp_all add: watcher_new_def)
  moreover have "so_events o2 = filter (\<lambda>e. pr_change e = Started) (so_events o2)"
  proof -
    have "sn_listening (take_snapshot (sample_tree ?s) l) = []" for l
      by (simp add: take_snapshot_def sample_tree_def add_table_def add_process_def empty_snapshot_def in_key_order_def split: option.split)
    then show ?thesis using 2 by (auto simp: sweep_def Let_def started_event_def filter_id_conv)
  qed
  ultimately have "length (so_events o2) = 1" "set (so_events o2) = {started_event ?i}" by (metis, metis set_filter)
  then have "so_events o2 = [started_event ?i]" by (cases "so_events o2") auto
  then have "map pr_pid (so_events o2) = [77]" by (simp add: started_event_def)
  with 1 2 \<open>so_events o1 = []\<close> show ?thesis by simp
qed

end
