(* ===== verification/HostSensor.thy ===== *)
theory HostSensor
  imports Sources Processes
begin

text \<open>
  The host sensor (\<open>crates/hids/src/sensor.rs\<close>): the worker that owns the file baseline, and the sensor that polls it, the
  authentication logs and the process table. What the outside shows is an argument of the operation that looks: a view of the file
  system for each notification and one for the rescan, a view of every log file and of \<open>/proc\<close> for a poll. A channel is the list
  of what is in it; the threads on its two ends act through the operations that send and receive. Failures of the baseline
  database are left out, as in \<open>Fim\<close>. An \<open>Instant\<close> is a natural number.
\<close>

section \<open>Settings and findings\<close>

definition channel_depth :: nat where "channel_depth = 4096"
definition max_notifications_per_tick :: nat where "max_notifications_per_tick = 512"
definition max_log_lines_per_poll :: nat where "max_log_lines_per_poll = 1024"

record host_settings =
  hset_fim :: "(fim_settings \<times> duration) option"
  hset_auth_files :: "string list"
  hset_journald :: bool
  hset_proc_root :: string
  hset_process_monitoring :: bool
  hset_process_interval :: duration
  hset_process_limits :: scan_limits

record host_findings =
  hf_fim :: "fim_event list"
  hf_auth :: "auth_event list"
  hf_process :: "process_event list"
  hf_overflows :: nat

definition no_findings :: host_findings where
  "no_findings = \<lparr>hf_fim = [], hf_auth = [], hf_process = [], hf_overflows = 0\<rparr>"

definition findings_empty :: "host_findings \<Rightarrow> bool" where
  "findings_empty b \<longleftrightarrow> hf_fim b = [] \<and> hf_auth b = [] \<and> hf_process b = []"

section \<open>The worker\<close>

record fim_counters =
  fk_watched_paths :: nat
  fk_watch_failures :: nat
  fk_realtime :: nat
  fk_rescan :: nat
  fk_overflows :: nat
  fk_rescans :: nat
  fk_baseline_entries :: nat

definition no_fim_counters :: fim_counters where
  "no_fim_counters = \<lparr>fk_watched_paths = 0, fk_watch_failures = 0, fk_realtime = 0, fk_rescan = 0, fk_overflows = 0, fk_rescans = 0,
     fk_baseline_entries = 0\<rparr>"

record fim_update =
  fu_events :: "fim_event list"
  fu_overflows :: nat
  fu_counters :: fim_counters

text \<open>What the watcher library reports: an error, that its queue overflowed, or paths that something happened to.\<close>

datatype notification = WatchError | QueueOverflow | Touched "string list"

record fim_worker =
  fw_monitor :: monitor
  fw_notifications :: "notification list option"
  fw_connected :: bool
  fw_rescan_interval :: duration
  fw_next_rescan :: "nat option"
  fw_overflow_pending :: bool
  fw_counters :: fim_counters

definition count_fim :: "(fim_counters \<Rightarrow> fim_counters) \<Rightarrow> fim_worker \<Rightarrow> fim_worker" where
  "count_fim f w = w\<lparr>fw_counters := f (fw_counters w)\<rparr>"

definition add_failures :: "nat \<Rightarrow> fim_counters \<Rightarrow> fim_counters" where
  "add_failures n c = c\<lparr>fk_watch_failures := fk_watch_failures c + n\<rparr>"

text \<open>\<open>created\<close> says whether there is a watcher at all, \<open>watch_ok\<close> which paths it takes.\<close>

definition install_watcher :: "bool \<Rightarrow> (string \<Rightarrow> bool) \<Rightarrow> fim_worker \<Rightarrow> fim_worker" where
  "install_watcher created watch_ok w =
     (if \<not> created then count_fim (add_failures 1) w
      else
        let paths = fset_paths (mon_settings (fw_monitor w));
            w = count_fim (\<lambda>c. add_failures (length (filter (\<lambda>p. \<not> watch_ok p) paths))
              (c\<lparr>fk_watched_paths := fk_watched_paths c + length (filter watch_ok paths)\<rparr>)) w
        in w\<lparr>fw_notifications := Some [], fw_connected := True\<rparr>)"

definition worker_start :: "(string \<Rightarrow> string option) \<Rightarrow> bool \<Rightarrow> (string \<Rightarrow> bool) \<Rightarrow> baseline \<Rightarrow> fim_settings \<Rightarrow> duration \<Rightarrow> fim_worker" where
  "worker_start canonical created watch_ok stored_rows settings interval =
     install_watcher created watch_ok
       \<lparr>fw_monitor = monitor_new (settings\<lparr>fset_paths := fst (resolve_roots canonical (fset_paths settings))\<rparr>) stored_rows,
        fw_notifications = None, fw_connected = False, fw_rescan_interval = interval, fw_next_rescan = None, fw_overflow_pending = False,
        fw_counters = no_fim_counters\<rparr>"

text \<open>The watcher's side of the channel: a notification that finds it full is dropped.\<close>

definition forward_notification :: "notification \<Rightarrow> fim_worker \<Rightarrow> fim_worker" where
  "forward_notification n w = (case fw_notifications w of
       Some ns \<Rightarrow> if length ns < channel_depth then w\<lparr>fw_notifications := Some (ns @ [n])\<rparr> else w
     | None \<Rightarrow> w)"

fun recheck_all :: "fs_view \<Rightarrow> string list \<Rightarrow> monitor \<Rightarrow> monitor \<times> fim_event list" where
  "recheck_all v [] m = (m, [])"
| "recheck_all v (p # ps) m = (case recheck v p m of (m, e) \<Rightarrow> (case recheck_all v ps m of (m, es) \<Rightarrow>
     (m, (case e of Some e \<Rightarrow> e # es | None \<Rightarrow> es))))"

definition handle_notification :: "fs_view \<Rightarrow> notification \<Rightarrow> fim_worker \<Rightarrow> fim_worker \<times> fim_event list \<times> bool" where
  "handle_notification v n w = (case n of
       WatchError \<Rightarrow> ((count_fim (add_failures 1) w)\<lparr>fw_overflow_pending := True\<rparr>, [], True)
     | QueueOverflow \<Rightarrow> ((count_fim (\<lambda>c. c\<lparr>fk_overflows := fk_overflows c + 1\<rparr>) w)\<lparr>fw_overflow_pending := True\<rparr>, [], True)
     | Touched paths \<Rightarrow> (case recheck_all v paths (fw_monitor w) of (m, events) \<Rightarrow>
         (count_fim (\<lambda>c. c\<lparr>fk_realtime := fk_realtime c + length events\<rparr>) (w\<lparr>fw_monitor := m\<rparr>), events, False)))"

definition watcher_lost :: "fim_worker \<Rightarrow> fim_worker" where
  "watcher_lost w = (count_fim (add_failures 1) w)\<lparr>fw_overflow_pending := True, fw_notifications := None, fw_connected := False\<rparr>"

text \<open>Receiving: \<open>views i\<close> is the file system when the \<open>i\<close>-th notification is handled.\<close>

fun drain_notifications :: "(nat \<Rightarrow> fs_view) \<Rightarrow> nat \<Rightarrow> nat \<Rightarrow> fim_worker \<Rightarrow> fim_event list \<Rightarrow> fim_worker \<times> fim_event list" where
  "drain_notifications views i 0 w events = (w, events)"
| "drain_notifications views i (Suc n) w events = (case fw_notifications w of
       None \<Rightarrow> (w, events)
     | Some [] \<Rightarrow> if fw_connected w then (w, events) else (watcher_lost w, events)
     | Some (x # xs) \<Rightarrow> (case handle_notification (views i) x (w\<lparr>fw_notifications := Some xs\<rparr>) of (w, es, _) \<Rightarrow>
         drain_notifications views (Suc i) n w (events @ es)))"

definition worker_rescan :: "fs_view \<Rightarrow> (nat \<Rightarrow> bool) \<Rightarrow> fim_worker \<Rightarrow> fim_worker \<times> fim_event list" where
  "worker_rescan v go w = (case rescan_until v BaselineRescan go (fw_monitor w) of (m, out) \<Rightarrow>
     (count_fim (\<lambda>c. c\<lparr>fk_rescans := fk_rescans c + 1, fk_rescan := fk_rescan c + length (ro_events out),
        fk_baseline_entries := length (mon_baseline m)\<rparr>) (w\<lparr>fw_monitor := m\<rparr>), ro_events out))"

definition tick :: "(nat \<Rightarrow> fs_view) \<Rightarrow> fs_view \<Rightarrow> (nat \<Rightarrow> bool) \<Rightarrow> nat \<Rightarrow> fim_worker \<Rightarrow> fim_worker \<times> fim_update" where
  "tick views v go now w =
     (let (w, events) = drain_notifications views 0 max_notifications_per_tick w [];
          forced = fw_overflow_pending w;
          w = w\<lparr>fw_overflow_pending := False\<rparr>;
          due = (case fw_next_rescan w of None \<Rightarrow> True | Some at \<Rightarrow> at \<le> now);
          (w, events) = (if forced \<or> due
            then (case worker_rescan v go w of (w, es) \<Rightarrow> (w\<lparr>fw_next_rescan := Some (now + fw_rescan_interval w)\<rparr>, events @ es))
            else (w, events))
      in (w, \<lparr>fu_events = events, fu_overflows = (if forced then 1 else 0), fu_counters = fw_counters w\<rparr>))"

section \<open>The sensor\<close>

record hids_stats =
  st_enabled :: bool
  st_watched_paths :: nat
  st_watch_failures :: nat
  st_fim_realtime :: nat
  st_fim_rescan :: nat
  st_inotify_overflows :: nat
  st_rescans :: nat
  st_baseline_entries :: nat
  st_auth_records :: nat
  st_auth_unparsed :: nat
  st_auth_suspicious :: nat
  st_process_events :: nat
  st_sources :: "source_status list"

record host_sensor =
  hs_settings :: host_settings
  hs_fim_updates :: "fim_update list option"
  hs_fim_alive :: bool
  hs_fim_counters :: fim_counters
  hs_tailers :: "(string \<times> tailer) list"
  hs_journal :: "string list option"
  hs_processes :: "watcher option"
  hs_next_sweep :: nat
  hs_sources :: source_registry
  hs_stats :: hids_stats

definition on_sources :: "(source_registry \<Rightarrow> source_registry) \<Rightarrow> host_sensor \<Rightarrow> host_sensor" where
  "on_sources f s = s\<lparr>hs_sources := f (hs_sources s)\<rparr>"

text \<open>The worker's side of the update channel: an update that finds it full, or nobody listening, is dropped.\<close>

definition send_update :: "fim_update \<Rightarrow> host_sensor \<Rightarrow> host_sensor" where
  "send_update u s = (case hs_fim_updates s of
       Some us \<Rightarrow> if length us < channel_depth then s\<lparr>hs_fim_updates := Some (us @ [u])\<rparr> else s
     | None \<Rightarrow> s)"

definition publish_fim_counters :: "host_sensor \<Rightarrow> host_sensor" where
  "publish_fim_counters s = (let c = hs_fim_counters s in
     s\<lparr>hs_stats := (hs_stats s)\<lparr>st_watched_paths := fk_watched_paths c, st_watch_failures := fk_watch_failures c, st_fim_realtime := fk_realtime c,
       st_fim_rescan := fk_rescan c, st_inotify_overflows := fk_overflows c, st_rescans := fk_rescans c,
       st_baseline_entries := fk_baseline_entries c\<rparr>\<rparr>)"

definition events_from :: "fim_update \<Rightarrow> host_findings \<times> fim_counters \<Rightarrow> host_findings \<times> fim_counters" where
  "events_from u x = (case x of (b, c) \<Rightarrow>
     (b\<lparr>hf_fim := hf_fim b @ fu_events u, hf_overflows := hf_overflows b + fu_overflows u\<rparr>, fu_counters u))"

definition judge_fim :: "fim_counters \<Rightarrow> source_registry \<Rightarrow> source_registry" where
  "judge_fim c r =
     (let r = (if fk_watched_paths c = 0 \<and> 0 < fk_watch_failures c
            then source_unavailable fim_realtime ''no path could be watched in real time; only the periodic rescan sees changes'' r
            else if 0 < fk_watch_failures c
            then source_degraded fim_realtime
              (show_nat (fk_watch_failures c) @ '' path(s) could not be watched; those are covered by the rescan only'') r
            else if 0 < fk_watched_paths c then source_active fim_realtime r else r);
          r = (if 0 < fk_rescans c \<and> fk_baseline_entries c = 0
            then source_unavailable fim_baseline ''a scan completed but the baseline is empty: hids.fim.paths matched no files'' r
            else if 0 < fk_rescans c then source_active fim_baseline r else r)
      in source_produced fim_realtime 0 r)"

definition drain_fim :: "host_sensor \<Rightarrow> host_findings \<Rightarrow> host_sensor \<times> host_findings" where
  "drain_fim s b = (case hs_fim_updates s of
       None \<Rightarrow> (s, b)
     | Some us \<Rightarrow>
         let (b, c) = fold events_from us (b, hs_fim_counters s);
             s = s\<lparr>hs_fim_updates := (if hs_fim_alive s then Some [] else None), hs_fim_counters := c\<rparr>;
             s = (if hset_fim (hs_settings s) \<noteq> None then on_sources (judge_fim c) s else s)
         in (publish_fim_counters s, b))"

text \<open>One line or record: counted, and an event when it parses.\<close>

definition take_record :: "auth_event option \<Rightarrow> hids_stats \<times> host_findings \<Rightarrow> hids_stats \<times> host_findings" where
  "take_record parsed x = (case x of (st, b) \<Rightarrow>
     let st = st\<lparr>st_auth_records := st_auth_records st + 1\<rparr> in
     case parsed of
       Some e \<Rightarrow> (if au_suspicious e \<noteq> [] then st\<lparr>st_auth_suspicious := st_auth_suspicious st + 1\<rparr> else st, b\<lparr>hf_auth := hf_auth b @ [e]\<rparr>)
     | None \<Rightarrow> (st\<lparr>st_auth_unparsed := st_auth_unparsed st + 1\<rparr>, b))"

fun poll_files :: "(bytes \<Rightarrow> string) \<Rightarrow> (string \<Rightarrow> file_view) \<Rightarrow> nat \<Rightarrow> (string \<times> tailer) list \<Rightarrow> hids_stats \<times> host_findings \<Rightarrow>
    nat \<times> (string \<times> tailer) list \<times> hids_stats \<times> host_findings" where
  "poll_files lossy files budget [] x = (budget, [], x)"
| "poll_files lossy files budget ((path, t) # ts) x =
     (if budget = 0 then (budget, (path, t) # ts, x)
      else case read_new_lines lossy (files path) t of
          (t, None) \<Rightarrow> (case poll_files lossy files budget ts x of (n, ts, x) \<Rightarrow> (n, (path, t) # ts, x))
        | (t, Some lines) \<Rightarrow>
            let taken = take budget lines;
                x = fold (\<lambda>line. take_record (parse_syslog_line line (''file:'' @ path))) taken x
            in case poll_files lossy files (budget - length taken) ts x of (n, ts, x) \<Rightarrow> (n, (path, t) # ts, x))"

definition drain_journal :: "nat \<Rightarrow> string list \<Rightarrow> string list \<times> string list" where
  "drain_journal budget lines = (take budget lines, drop budget lines)"

definition poll_logs :: "(string \<Rightarrow> json option) \<Rightarrow> (bytes \<Rightarrow> string) \<Rightarrow> (string \<Rightarrow> file_view) \<Rightarrow> host_sensor \<Rightarrow> host_findings \<Rightarrow>
    host_sensor \<times> host_findings" where
  "poll_logs read_json lossy files s b =
     (let (budget, ts, st, b) = poll_files lossy files max_log_lines_per_poll (hs_tailers s) (hs_stats s, b) in
      case hs_journal s of
        None \<Rightarrow> (s\<lparr>hs_tailers := ts, hs_stats := st\<rparr>, b)
      | Some lines \<Rightarrow>
          let (out, left) = drain_journal budget lines;
              (st, b) = fold (\<lambda>line. take_record (parse_journal_record read_json lossy line ''journald'')) out (st, b)
          in (s\<lparr>hs_tailers := ts, hs_stats := st, hs_journal := Some left\<rparr>, b))"

definition judge_process :: "string \<Rightarrow> nat \<Rightarrow> bool \<Rightarrow> source_registry \<Rightarrow> source_registry" where
  "judge_process root seen sockets r =
     (let r = (if seen \<le> 1
            then source_unavailable process_table (''a sweep of '' @ root @ '' saw '' @ show_nat seen @
              '' process(es); a process table always contains this one, so the view is restricted (ProtectProc/hidepid?), not quiet'') r
            else source_active process_table r)
      in if sockets then source_active process_sockets r
         else source_unavailable process_sockets (''no socket table under '' @ root @ '': listening sockets are invisible (ProcSubset=pid?)'') r)"

definition sweep_processes :: "(socket_addr \<Rightarrow> string) \<Rightarrow> proc_tree \<Rightarrow> host_sensor \<Rightarrow> host_findings \<Rightarrow> host_sensor \<times> host_findings" where
  "sweep_processes show_socket tree s b = (case hs_processes s of
       None \<Rightarrow> (s, b)
     | Some w \<Rightarrow> (case sweep show_socket tree w of (w, out) \<Rightarrow>
         let s = on_sources (\<lambda>r. source_produced process_table (length (so_events out))
               (judge_process (hset_proc_root (hs_settings s)) (so_processes_seen out) (sockets_readable tree) r)) s
         in (s\<lparr>hs_processes := Some w, hs_stats := (hs_stats s)\<lparr>st_process_events := st_process_events (hs_stats s) + length (so_events out)\<rparr>\<rparr>,
             b\<lparr>hf_process := hf_process b @ so_events out\<rparr>)))"

text \<open>What a poll sees: the log files and the process tree.\<close>

record host_view =
  hv_files :: "string \<Rightarrow> file_view"
  hv_proc :: proc_tree

definition poll_at :: "(string \<Rightarrow> json option) \<Rightarrow> (bytes \<Rightarrow> string) \<Rightarrow> (socket_addr \<Rightarrow> string) \<Rightarrow> host_view \<Rightarrow> nat \<Rightarrow> host_sensor \<Rightarrow>
    host_sensor \<times> host_findings" where
  "poll_at read_json lossy show_socket hv now s =
     (let (s, b) = drain_fim s no_findings;
          (s, b) = poll_logs read_json lossy (hv_files hv) s b;
          (s, b) = (if hs_processes s \<noteq> None \<and> hs_next_sweep s \<le> now
            then (case sweep_processes show_socket (hv_proc hv) s b of (s, b) \<Rightarrow> (s\<lparr>hs_next_sweep := now + hset_process_interval (hs_settings s)\<rparr>, b))
            else (s, b))
      in (s\<lparr>hs_stats := (hs_stats s)\<lparr>st_sources := source_snapshot (hs_sources s)\<rparr>\<rparr>, b))"

section \<open>Starting\<close>

definition join_comma :: "string list \<Rightarrow> string" where
  "join_comma xs = (case xs of [] \<Rightarrow> [] | x # xs \<Rightarrow> x @ concat (map (\<lambda>y. '', '' @ y) xs))"

definition declare_auth_files :: "(string \<Rightarrow> bool) \<Rightarrow> host_sensor \<Rightarrow> host_sensor" where
  "declare_auth_files exists s =
     (if hs_tailers s = [] then s
      else
        let configured = map fst (hs_tailers s); present = filter exists configured in
        if present = [] then on_sources (source_unavailable auth_files (''none of the configured files exist: '' @ join_comma configured)) s
        else if length present < length configured
        then on_sources (source_degraded auth_files (show_nat (length present) @ '' of '' @ show_nat (length configured) @ '' configured files exist'')) s
        else on_sources (source_active auth_files) s)"

text \<open>What starting finds: the platform, the log files, whether \<open>journalctl\<close> could be run, and the worker, when the baseline opened.\<close>

record start_view =
  sv_os :: string
  sv_file :: "string \<Rightarrow> file_view"
  sv_exists :: "string \<Rightarrow> bool"
  sv_journal_error :: "string option"
  sv_worker :: "fim_worker option"
  sv_now :: nat

definition host_start :: "start_view \<Rightarrow> host_settings \<Rightarrow> host_sensor option" where
  "host_start sv settings =
     (let s = \<lparr>hs_settings = settings, hs_fim_updates = None, hs_fim_alive = False, hs_fim_counters = no_fim_counters,
            hs_tailers = map (\<lambda>p. (p, tailer_new (sv_file sv p))) (hset_auth_files settings), hs_journal = None,
            hs_processes = (if sv_os sv = ''linux'' \<and> hset_process_monitoring settings then Some (watcher_new (hset_process_limits settings)) else None),
            hs_next_sweep = sv_now sv, hs_sources = declare_platform_gaps (sv_os sv) [],
            hs_stats = \<lparr>st_enabled = True, st_watched_paths = 0, st_watch_failures = 0, st_fim_realtime = 0, st_fim_rescan = 0, st_inotify_overflows = 0,
              st_rescans = 0, st_baseline_entries = 0, st_auth_records = 0, st_auth_unparsed = 0, st_auth_suspicious = 0, st_process_events = 0,
              st_sources = []\<rparr>\<rparr>;
          started = (case hset_fim settings of
              None \<Rightarrow> Some s
            | Some _ \<Rightarrow> map_option (\<lambda>w. publish_fim_counters (s\<lparr>hs_fim_counters := fw_counters w, hs_fim_updates := Some [], hs_fim_alive := True\<rparr>))
                (sv_worker sv))
      in map_option (\<lambda>s.
           let s = (if hset_journald settings \<and> sv_os sv = ''linux''
                 then (case sv_journal_error sv of
                     None \<Rightarrow> (on_sources (source_active auth_structured) s)\<lparr>hs_journal := Some []\<rparr>
                   | Some detail \<Rightarrow> (on_sources (source_unavailable auth_structured (''journalctl: '' @ detail)) s)\<lparr>hs_journal := None\<rparr>)
                 else s);
               s = declare_auth_files (sv_exists sv) s
           in s\<lparr>hs_stats := (hs_stats s)\<lparr>st_sources := source_snapshot (hs_sources s)\<rparr>\<rparr>) started)"

section \<open>After an overflow\<close>

text \<open>A change the baseline does not know yet: a file the walk finds that is not as recorded, or a recorded file that is gone.\<close>

definition change_pending :: "fs_view \<Rightarrow> monitor \<Rightarrow> string list \<Rightarrow> string \<Rightarrow> bool" where
  "change_pending v m paths p \<longleftrightarrow>
     (p \<in> set paths \<and> (\<exists>r. inspect_by v m p = Found r \<and> difference p (baseline_get (mon_baseline m) p) r BaselineRescan \<noteq> None)) \<or>
     (p \<notin> set paths \<and> inspect_by v m p = Absent \<and> baseline_get (mon_baseline m) p \<noteq> None \<and> list_ex (\<lambda>r. under r p) (fset_paths (mon_settings m)))"

definition watching :: "monitor \<Rightarrow> monitor \<Rightarrow> bool" where
  "watching m m' \<longleftrightarrow> mon_settings m' = mon_settings m \<and> (hm_invar (mon_baseline m) \<longrightarrow> hm_invar (mon_baseline m')) \<and>
     (\<not> mon_establishing m \<longrightarrow> \<not> mon_establishing m')"

definition told :: "string \<Rightarrow> fim_event list \<Rightarrow> bool" where
  "told p es \<longleftrightarrow> (\<exists>e \<in> set es. fim_path e = p)"

lemma told_append [simp]: "told p (es @ fs) \<longleftrightarrow> told p es \<or> told p fs"
  by (auto simp: told_def)

lemma difference_path: "difference p b r w = Some e \<Longrightarrow> fim_path e = p"
  by (auto simp: difference_def change_event_def split: option.splits if_splits)

lemma difference_by: "difference p b r w \<noteq> None \<longleftrightarrow> difference p b r w' \<noteq> None"
  by (simp add: difference_def split: option.split)

lemma recheck_keeps:
  assumes "recheck v q m = (m', e)"
  shows "watching m m'" and "\<not> mon_establishing m \<Longrightarrow> change_pending v m paths p \<Longrightarrow> change_pending v m' paths p \<or> told p (case e of Some e \<Rightarrow> [e] | None \<Rightarrow> [])"
proof -
  show "watching m m'" using assms
    by (auto simp: recheck_def watching_def Let_def baseline_put_def baseline_remove_def split: if_splits inspected.splits option.splits)
next
  assume est: "\<not> mon_establishing m" and c: "change_pending v m paths p"
  show "change_pending v m' paths p \<or> told p (case e of Some e \<Rightarrow> [e] | None \<Rightarrow> [])"
  proof (cases "q = p \<and> is_watched m q")
    case True
    show ?thesis
    proof (cases "inspect_by v m p")
      case (Found r)
      then have "difference p (baseline_get (mon_baseline m) p) r BaselineRescan \<noteq> None" using c by (auto simp: change_pending_def)
      then obtain d where "difference p (baseline_get (mon_baseline m) p) r RealTime = Some d" using difference_by by blast
      then show ?thesis using assms est True Found difference_path by (auto simp: recheck_def told_def)
    next
      case Absent
      then obtain b where "baseline_get (mon_baseline m) p = Some b" using c by (auto simp: change_pending_def)
      then show ?thesis using assms est True Absent by (auto simp: recheck_def told_def deleted_event_def)
    next
      case Failed
      then show ?thesis using c by (simp add: change_pending_def)
    qed
  next
    case False
    then have "baseline_get (mon_baseline m') p = baseline_get (mon_baseline m) p" "mon_settings m' = mon_settings m"
      using assms est by (auto simp: recheck_def Let_def put_get remove_get split: if_splits inspected.splits option.splits)
    then show ?thesis using c by (simp add: change_pending_def)
  qed
qed

lemma watching_refl: "watching m m"
  by (simp add: watching_def)

lemma watching_trans: "watching m n \<Longrightarrow> watching n k \<Longrightarrow> watching m k"
  by (auto simp: watching_def)

lemma recheck_all_keeps:
  "recheck_all v ps m = (m', es) \<Longrightarrow> watching m m' \<and>
   (\<not> mon_establishing m \<longrightarrow> change_pending v m paths p \<longrightarrow> change_pending v m' paths p \<or> told p es)"
proof (induction ps arbitrary: m m' es)
  case (Cons q ps)
  obtain m1 e where 1: "recheck v q m = (m1, e)" by (metis surj_pair)
  obtain m2 es2 where 2: "recheck_all v ps m1 = (m2, es2)" by (metis surj_pair)
  have r: "m' = m2" "es = (case e of Some e \<Rightarrow> e # es2 | None \<Rightarrow> es2)" using Cons.prems 1 2 by simp_all
  have "told p es \<longleftrightarrow> told p (case e of Some e \<Rightarrow> [e] | None \<Rightarrow> []) \<or> told p es2" by (auto simp: r told_def split: option.split)
  then show ?case
    using recheck_keeps(1) [OF 1] recheck_keeps(2) [OF 1, of paths p] Cons.IH [OF 2] r(1) by (auto simp: watching_def)
qed (simp add: watching_refl)

definition is_gap :: "notification \<Rightarrow> bool" where
  "is_gap n \<longleftrightarrow> n = WatchError \<or> n = QueueOverflow"

lemma handle_keeps:
  assumes "handle_notification v n w = (w', es, g)"
  shows "watching (fw_monitor w) (fw_monitor w') \<and> fw_notifications w' = fw_notifications w \<and>
    (fw_overflow_pending w' \<longleftrightarrow> fw_overflow_pending w \<or> is_gap n) \<and>
    (\<not> mon_establishing (fw_monitor w) \<longrightarrow> change_pending v (fw_monitor w) paths p \<longrightarrow> change_pending v (fw_monitor w') paths p \<or> told p es)"
proof (cases n)
  case (Touched ps)
  obtain m events where r: "recheck_all v ps (fw_monitor w) = (m, events)" by (metis surj_pair)
  then show ?thesis using assms Touched recheck_all_keeps [OF r, of paths p]
    by (auto simp: handle_notification_def count_fim_def is_gap_def)
qed (use assms in \<open>auto simp: handle_notification_def count_fim_def is_gap_def watching_refl\<close>)

lemma drain_keeps:
  assumes "drain_notifications (\<lambda>_. v) i n w events = (w', out)"
  shows "watching (fw_monitor w) (fw_monitor w')"
    and "\<not> mon_establishing (fw_monitor w) \<Longrightarrow> change_pending v (fw_monitor w) paths p \<or> told p events \<Longrightarrow>
      change_pending v (fw_monitor w') paths p \<or> told p out"
    and "fw_overflow_pending w \<Longrightarrow> fw_overflow_pending w'"
    and "fw_notifications w = Some ns \<Longrightarrow> list_ex is_gap (take n ns) \<Longrightarrow> fw_overflow_pending w'"
proof -
  have "watching (fw_monitor w) (fw_monitor w') \<and>
      (\<not> mon_establishing (fw_monitor w) \<longrightarrow> change_pending v (fw_monitor w) paths p \<or> told p events \<longrightarrow>
        change_pending v (fw_monitor w') paths p \<or> told p out) \<and>
      (fw_overflow_pending w \<longrightarrow> fw_overflow_pending w') \<and>
      (\<forall>ns. fw_notifications w = Some ns \<longrightarrow> list_ex is_gap (take n ns) \<longrightarrow> fw_overflow_pending w')"
    using assms
  proof (induction n arbitrary: i w events)
    case (Suc n)
    show ?case
    proof (cases "fw_notifications w")
      case None
      then show ?thesis using Suc.prems by (simp add: watching_refl)
    next
      case (Some ns)
      show ?thesis
      proof (cases ns)
        case Nil
        then show ?thesis using Suc.prems Some by (auto simp: watching_refl watcher_lost_def count_fim_def split: if_splits)
      next
        case (Cons x xs)
        obtain w1 es g where h: "handle_notification v x (w\<lparr>fw_notifications := Some xs\<rparr>) = (w1, es, g)" by (metis prod_cases3)
        then have d: "drain_notifications (\<lambda>_. v) (Suc i) n w1 (events @ es) = (w', out)" using Suc.prems Some Cons by simp
        have est: "\<not> mon_establishing (fw_monitor w) \<Longrightarrow> \<not> mon_establishing (fw_monitor w1)"
          using handle_keeps [OF h] by (simp add: watching_def)
        have k: "watching (fw_monitor w) (fw_monitor w1)" "fw_notifications w1 = Some xs" "fw_overflow_pending w1 \<longleftrightarrow> fw_overflow_pending w \<or> is_gap x"
          "\<not> mon_establishing (fw_monitor w) \<Longrightarrow> change_pending v (fw_monitor w) paths p \<Longrightarrow> change_pending v (fw_monitor w1) paths p \<or> told p es"
          using handle_keeps [OF h, of paths p] by simp_all
        note IH = Suc.IH [OF d]
        have "watching (fw_monitor w) (fw_monitor w')" using IH k(1) watching_trans by blast
        moreover have "change_pending v (fw_monitor w') paths p \<or> told p out"
          if "\<not> mon_establishing (fw_monitor w)" "change_pending v (fw_monitor w) paths p \<or> told p events"
          using IH est k(4) that told_append by blast
        moreover have "fw_overflow_pending w'" if "fw_overflow_pending w \<or> is_gap x \<or> list_ex is_gap (take n xs)"
          using IH k(2,3) that by blast
        ultimately show ?thesis using Some Cons by simp
      qed
    qed
  qed (simp add: watching_refl)
  then show "watching (fw_monitor w) (fw_monitor w')" and "\<not> mon_establishing (fw_monitor w) \<Longrightarrow>
      change_pending v (fw_monitor w) paths p \<or> told p events \<Longrightarrow> change_pending v (fw_monitor w') paths p \<or> told p out"
    and "fw_overflow_pending w \<Longrightarrow> fw_overflow_pending w'"
    and "fw_notifications w = Some ns \<Longrightarrow> list_ex is_gap (take n ns) \<Longrightarrow> fw_overflow_pending w'"
    by blast+
qed

lemma scan_limits_kept:
  "\<forall>p \<in> set paths. inspect_by v m p \<noteq> Failed \<Longrightarrow> ro_limits (snd (scan_files v w (\<lambda>_. True) i paths m out)) = ro_limits out"
proof (induction paths arbitrary: i m out)
  case (Cons p paths)
  show ?case
  proof (cases "inspect_by v m p")
    case (Found r)
    then show ?thesis using Cons by (simp add: Let_def)
  qed (use Cons in \<open>simp_all add: Let_def\<close>)
qed simp

lemma delete_limits [simp]: "ro_limits (snd (fold (delete_under w seen) roots x)) = ro_limits (snd x)"
proof -
  have "ro_limits (snd (delete_known w seen p y)) = ro_limits (snd y)" for p y by (cases y) (simp add: delete_known_def)
  then have "ro_limits (snd (fold (delete_known w seen) ps y)) = ro_limits (snd y)" for ps y by (induction ps arbitrary: y) simp_all
  then have "ro_limits (snd (delete_under w seen root y)) = ro_limits (snd y)" for root y by (simp add: delete_under_def)
  then show ?thesis by (induction roots arbitrary: x) simp_all
qed

lemma rescan_complete:
  assumes "walk v (mon_settings m) (fset_paths (mon_settings m)) = (paths, limits)" and "\<not> walk_truncated limits" and "\<forall>p \<in> set paths. inspect_by v m p \<noteq> Failed"
    and "rescan v w m = (m', out)"
  shows "\<not> walk_truncated (ro_limits out)"
proof -
  let ?o = "\<lparr>ro_events = [], ro_files_seen = 0, ro_limits = limits\<rparr>"
  have l: "ro_limits (snd (scan_files v w (\<lambda>_. True) 0 paths m ?o)) = limits" using scan_limits_kept [OF assms(3), of w 0 ?o] by simp
  then have "ro_limits out = limits"
    using assms(1,2,4) by (auto simp: rescan_def rescan_until_def Let_def split_def split: if_splits)
  then show ?thesis using assms(2) by simp
qed

text \<open>Whether or not the walk was cut short, a rescan compares every file it found.\<close>

lemma fold_grows:
  assumes "\<And>x y. f y \<subseteq> f (g x y)"
  shows "f y \<subseteq> f (fold g xs y)"
proof (induction xs arbitrary: y)
  case (Cons x xs)
  show ?case using order_trans [OF assms Cons.IH] by simp
qed simp

lemma rescan_compares:
  assumes "\<not> mon_establishing m" and "walk v (mon_settings m) (fset_paths (mon_settings m)) = (paths, limits)" and "rescan v w m = (m', out)"
  shows "set (concat (map (file_events v w m) paths)) \<subseteq> set (ro_events out)"
proof -
  let ?o = "\<lparr>ro_events = [], ro_files_seen = 0, ro_limits = limits\<rparr>" and ?roots = "fset_paths (mon_settings m)"
  let ?x = "scan_files v w (\<lambda>_. True) 0 paths m ?o"
  have ok: "walk_ok v (mon_settings m) (paths, limits)" using walk_found [of v "mon_settings m" ?roots] assms(2) by simp
  then have s: "ro_events (snd ?x) = concat (map (file_events v w m) paths)"
    using scan_result [of paths v w m ?o 0] assms(1) by (simp add: walk_ok_def scan_post_def)
  have known: "set (ro_events (snd y)) \<subseteq> set (ro_events (snd (delete_known w paths q y)))" for q y
    by (cases y) (auto simp: delete_known_def add_events_def)
  have "set (ro_events (snd y)) \<subseteq> set (ro_events (snd (fold (delete_known w paths) qs y)))" for qs y
    by (rule fold_grows [where f = "\<lambda>y. set (ro_events (snd y))"]) (rule known)
  then have under: "set (ro_events (snd y)) \<subseteq> set (ro_events (snd (delete_under w paths root y)))" for root y
    by (simp add: delete_under_def)
  have "set (ro_events (snd y)) \<subseteq> set (ro_events (snd (fold (delete_under w paths) roots y)))" for roots y
    by (rule fold_grows [where f = "\<lambda>y. set (ro_events (snd y))"]) (rule under)
  from this [of ?x ?roots] have "set (ro_events (snd ?x)) \<subseteq> set (ro_events out)"
    using assms by (auto simp: rescan_def rescan_until_def Let_def split_def split: if_splits)
  then show ?thesis by (simp add: s)
qed

lemma rescan_tells_found:
  assumes "\<not> mon_establishing m" and "walk v (mon_settings m) (fset_paths (mon_settings m)) = (paths, limits)" and "rescan v BaselineRescan m = (m', out)"
    and "p \<in> set paths" "change_pending v m paths p"
  shows "told p (ro_events out)"
proof -
  obtain r e where "inspect_by v m p = Found r" "difference p (baseline_get (mon_baseline m) p) r BaselineRescan = Some e"
    using assms(4,5) by (auto simp: change_pending_def)
  then have "e \<in> set (concat (map (file_events v BaselineRescan m) paths))" "fim_path e = p"
    using assms(4) by (auto simp: file_events_def dest: difference_path intro!: bexI [of _ p])
  then show ?thesis using rescan_compares [OF assms(1-3)] by (auto simp: told_def)
qed

lemma rescan_tells_gone:
  assumes "hm_invar (mon_baseline m)" and "\<not> mon_establishing m" and "walk v (mon_settings m) (fset_paths (mon_settings m)) = (paths, limits)"
    and "rescan v BaselineRescan m = (m', out)" and "\<not> walk_truncated (ro_limits out)" and "p \<notin> set paths" "change_pending v m paths p"
  shows "told p (ro_events out)"
proof -
  obtain ps where ps: "set ps = {p. baseline_get (mon_baseline m) p \<noteq> None \<and> list_ex (\<lambda>r. under r p) (fset_paths (mon_settings m)) \<and> p \<notin> set paths}"
      "ro_events out = concat (map (file_events v BaselineRescan m) paths) @ map (deletion BaselineRescan m) ps"
    using rescan_result(1) [OF assms(1-5)] by blast
  have "p \<in> set ps" using assms(6,7) by (simp add: ps(1) change_pending_def)
  moreover have "fim_path (deletion BaselineRescan m p) = p" by (simp add: deletion_def deleted_event_def)
  ultimately show ?thesis by (auto simp: told_def ps(2))
qed

text \<open>C29. A gap in the notifications is answered in the same tick. Take a worker whose baseline is established and a tick during which the file
system does not change and the sensor is not stopped, and let an overflow or an error of the watcher be among the 512 notifications
the tick takes: then the tick says that there was a gap and compares the baseline with the file system. It reports an event for every file that the walk finds and
that is not as the baseline had it, whatever notifications were lost, even where the walk was cut short; and, when the walk was not cut
short and every file it found could be read, an event for every known file under a watched root that is gone. The next rescan is a full
interval away. (The update of a tick can still be lost on its way to the sensor, when the channel is full.)\<close>

theorem overflow_recovered:
  assumes "hm_invar (mon_baseline (fw_monitor w))" and "\<not> mon_establishing (fw_monitor w)"
    and "fw_notifications w = Some ns" and "list_ex is_gap (take 512 ns)"
    and "walk v (mon_settings (fw_monitor w)) (fset_paths (mon_settings (fw_monitor w))) = (paths, limits)"
    and "tick (\<lambda>_. v) v (\<lambda>_. True) now w = (w', u)"
  defines "known \<equiv> baseline_get (mon_baseline (fw_monitor w))" and "look \<equiv> inspect_by v (fw_monitor w)"
  shows "fu_overflows u = 1 \<and> \<not> fw_overflow_pending w' \<and> fw_next_rescan w' = Some (now + fw_rescan_interval w') \<and>
    (\<forall>p \<in> set paths. \<forall>r. look p = Found r \<and> file_change_of (known p) (Some r) \<noteq> None \<longrightarrow> (\<exists>e \<in> set (fu_events u). fim_path e = p)) \<and>
    (\<not> walk_truncated limits \<and> (\<forall>p \<in> set paths. look p \<noteq> Failed) \<longrightarrow>
      (\<forall>p. p \<notin> set paths \<and> look p = Absent \<and> known p \<noteq> None \<and> list_ex (\<lambda>root. under root p) (fset_paths (mon_settings (fw_monitor w))) \<longrightarrow>
        (\<exists>e \<in> set (fu_events u). fim_path e = p)))"
proof -
  let ?m = "fw_monitor w"
  obtain w1 es where d: "drain_notifications (\<lambda>_. v) 0 max_notifications_per_tick w [] = (w1, es)" by (metis surj_pair)
  have forced: "fw_overflow_pending w1" using drain_keeps(4) [OF d assms(3)] assms(4) by (simp add: max_notifications_per_tick_def)
  have k: "watching ?m (fw_monitor w1)" using drain_keeps(1) [OF d] .
  obtain m2 out where r: "rescan v BaselineRescan (fw_monitor w1) = (m2, out)" by (metis surj_pair)
  have s: "mon_settings (fw_monitor w1) = mon_settings ?m" "hm_invar (mon_baseline (fw_monitor w1))" "\<not> mon_establishing (fw_monitor w1)"
    using k assms(1,2) by (simp_all add: watching_def)
  have wk: "walk v (mon_settings (fw_monitor w1)) (fset_paths (mon_settings (fw_monitor w1))) = (paths, limits)" using assms(5) s(1) by simp
  have u: "fu_events u = es @ ro_events out" "fu_overflows u = 1" "\<not> fw_overflow_pending w'" "fw_next_rescan w' = Some (now + fw_rescan_interval w')"
    using assms(6) d forced r by (auto simp: tick_def worker_rescan_def rescan_def count_fim_def Let_def split: prod.splits)
  have found: "told p (fu_events u)" if "change_pending v ?m paths p" "p \<in> set paths" for p
    using drain_keeps(2) [OF d assms(2), of paths p] rescan_tells_found [OF s(3) wk r that(2)] that(1) u(1) by auto
  have gone: "told p (fu_events u)" if "\<not> walk_truncated limits" "\<forall>p \<in> set paths. look p \<noteq> Failed" "change_pending v ?m paths p" "p \<notin> set paths" for p
  proof -
    have "\<not> walk_truncated (ro_limits out)" using rescan_complete [OF wk that(1) _ r] that(2) s(1) by (simp add: look_def)
    then show ?thesis using drain_keeps(2) [OF d assms(2), of paths p] rescan_tells_gone [OF s(2,3) wk r _ that(4)] that(3) u(1) by auto
  qed
  have "change_pending v ?m paths p" if "p \<in> set paths" "look p = Found r" "file_change_of (known p) (Some r) \<noteq> None" for p r
    using that by (simp add: change_pending_def look_def known_def difference_spec)
  moreover have "change_pending v ?m paths p"
    if "p \<notin> set paths" "look p = Absent" "known p \<noteq> None" "list_ex (\<lambda>root. under root p) (fset_paths (mon_settings ?m))" for p
    using that by (simp add: change_pending_def look_def known_def)
  ultimately show ?thesis using u(2-4) found gone unfolding told_def by blast
qed

section \<open>Log records are accounted for\<close>

definition log_books :: "hids_stats \<Rightarrow> host_findings \<Rightarrow> int" where
  "log_books st b = int (st_auth_records st) - int (st_auth_unparsed st) - int (length (hf_auth b))"

lemma take_record_books: "take_record parsed (st, b) = (st', b') \<Longrightarrow>
   log_books st' b' = log_books st b \<and> st_auth_records st' = st_auth_records st + 1"
  by (auto simp: take_record_def log_books_def Let_def split: option.splits if_splits)

lemma take_records_books: "fold (\<lambda>line. take_record (f line)) lines (st, b) = (st', b') \<Longrightarrow>
   log_books st' b' = log_books st b \<and> st_auth_records st' = st_auth_records st + length lines"
proof (induction lines arbitrary: st b)
  case (Cons line lines)
  obtain st1 b1 where t: "take_record (f line) (st, b) = (st1, b1)" by (metis surj_pair)
  then show ?case using Cons.IH [of st1 b1] Cons.prems take_record_books [OF t] by simp
qed simp

lemma poll_files_books: "poll_files lossy files budget ts (st, b) = (n, ts', st', b') \<Longrightarrow>
   log_books st' b' = log_books st b \<and> st_auth_records st' + n = st_auth_records st + budget \<and> map fst ts' = map fst ts"
proof (induction ts arbitrary: budget st b n ts' st' b')
  case (Cons x ts)
  obtain path t where x: "x = (path, t)" by (cases x)
  show ?case
  proof (cases "budget = 0")
    case False
    obtain t1 res where r: "read_new_lines lossy (files path) t = (t1, res)" by (metis surj_pair)
    show ?thesis
    proof (cases res)
      case None
      obtain n1 ts1 st1 b1 where p: "poll_files lossy files budget ts (st, b) = (n1, ts1, st1, b1)" by (metis prod_cases4)
      then show ?thesis using Cons.prems Cons.IH [OF p] False r None x by auto
    next
      case (Some lines)
      let ?t = "take budget lines"
      obtain st1 b1 where f: "fold (\<lambda>line. take_record (parse_syslog_line line (''file:'' @ path))) ?t (st, b) = (st1, b1)" by (metis surj_pair)
      obtain n1 ts1 st2 b2 where p: "poll_files lossy files (budget - length ?t) ts (st1, b1) = (n1, ts1, st2, b2)" by (metis prod_cases4)
      then show ?thesis using Cons.prems Cons.IH [OF p] take_records_books [OF f] False r Some x f by (auto simp: Let_def)
    qed
  qed (use Cons.prems x in auto)
qed auto

text \<open>A poll of the logs is bounded and keeps its books: it takes at most 1024 lines from all files and the journal together, and every line it
takes is either an event or counted as not understood.\<close>

theorem log_poll_accounted:
  assumes "poll_logs read_json lossy files s b = (s', b')"
  shows "st_auth_records (hs_stats s') \<le> st_auth_records (hs_stats s) + max_log_lines_per_poll \<and>
    int (length (hf_auth b')) - int (length (hf_auth b)) =
      (int (st_auth_records (hs_stats s')) - int (st_auth_records (hs_stats s))) -
      (int (st_auth_unparsed (hs_stats s')) - int (st_auth_unparsed (hs_stats s)))"
proof -
  obtain n ts st b1 where p: "poll_files lossy files max_log_lines_per_poll (hs_tailers s) (hs_stats s, b) = (n, ts, st, b1)" by (metis prod_cases4)
  note k = poll_files_books [OF p]
  show ?thesis
  proof (cases "hs_journal s")
    case None
    then show ?thesis using assms p k by (auto simp: poll_logs_def log_books_def)
  next
    case (Some lines)
    obtain st2 b2 where f: "fold (\<lambda>line. take_record (parse_journal_record read_json lossy line ''journald'')) (take n lines) (st, b1) = (st2, b2)"
      by (metis surj_pair)
    note k2 = take_records_books [OF f]
    have "hs_stats s' = st2" "b' = b2" using assms p f Some by (auto simp: poll_logs_def drain_journal_def)
    moreover have "length (take n lines) \<le> n" by simp
    ultimately show ?thesis using k k2 by (auto simp: log_books_def)
  qed
qed

text \<open>What a file had beyond the budget of a poll is gone: the tailer has moved past it and no counter knows.\<close>

lemma surplus_lines_lost:
  assumes "hs_tailers s = [(path, t)]" and "hs_journal s = None" and "read_new_lines lossy (files path) t = (t', Some lines)"
    and "max_log_lines_per_poll < length lines" and "poll_logs read_json lossy files s b = (s', b')"
  shows "hs_tailers s' = [(path, t')] \<and> st_auth_records (hs_stats s') = st_auth_records (hs_stats s) + max_log_lines_per_poll \<and>
    length (drop max_log_lines_per_poll lines) > 0"
proof -
  obtain st1 b1 where f: "fold (\<lambda>line. take_record (parse_syslog_line line (''file:'' @ path))) (take max_log_lines_per_poll lines) (hs_stats s, b) = (st1, b1)"
    by (metis surj_pair)
  have pos: "max_log_lines_per_poll \<noteq> 0" by (simp add: max_log_lines_per_poll_def)
  show ?thesis using assms pos f take_records_books [OF f] by (auto simp: poll_logs_def Let_def)
qed

section \<open>Silence that is wrong is said to be\<close>

lemma drain_fim_keeps: "drain_fim s b = (s', b') \<Longrightarrow>
   hs_processes s' = hs_processes s \<and> hs_next_sweep s' = hs_next_sweep s \<and> hs_settings s' = hs_settings s"
  by (auto simp: drain_fim_def publish_fim_counters_def on_sources_def Let_def split: option.splits prod.splits if_splits)

lemma poll_logs_keeps: "poll_logs read_json lossy files s b = (s', b') \<Longrightarrow>
   hs_processes s' = hs_processes s \<and> hs_next_sweep s' = hs_next_sweep s \<and> hs_settings s' = hs_settings s"
  by (auto simp: poll_logs_def Let_def split: option.splits prod.splits)

definition processes_visible :: "proc_tree \<Rightarrow> scan_limits \<Rightarrow> nat" where
  "processes_visible tree limits = length (sn_processes (take_snapshot tree limits))"

text \<open>A sensor that cannot see the processes says so: whenever a poll sweeps the process table, the statistics list that source, as a
coverage hole with its reason exactly when the sweep saw at most the sensor itself.\<close>

theorem blind_sweep_declared:
  assumes "hs_processes s = Some pw" and "hs_next_sweep s \<le> now" and "poll_at read_json lossy show_socket hv now s = (s', b)"
  shows "\<exists>e \<in> set (st_sources (hs_stats s')). ss_name e = process_table \<and>
    (is_hole (ss_state e) \<longleftrightarrow> processes_visible (hv_proc hv) (wt_limits pw) \<le> 1) \<and> (ss_detail e = [] \<longleftrightarrow> \<not> is_hole (ss_state e))"
proof -
  obtain s1 b1 where 1: "drain_fim s no_findings = (s1, b1)" by (metis surj_pair)
  obtain s2 b2 where 2: "poll_logs read_json lossy (hv_files hv) s1 b1 = (s2, b2)" by (metis surj_pair)
  have k: "hs_processes s2 = Some pw" "hs_next_sweep s2 \<le> now" using drain_fim_keeps [OF 1] poll_logs_keeps [OF 2] assms(1,2) by simp_all
  obtain w out where sw: "sweep show_socket (hv_proc hv) pw = (w, out)" by (metis surj_pair)
  have seen: "so_processes_seen out = processes_visible (hv_proc hv) (wt_limits pw)"
    using sw by (auto simp: sweep_def Let_def processes_visible_def)
  let ?r = "source_produced process_table (length (so_events out))
    (judge_process (hset_proc_root (hs_settings s2)) (so_processes_seen out) (sockets_readable (hv_proc hv)) (hs_sources s2))"
  have st: "st_sources (hs_stats s') = source_snapshot ?r"
    using assms(3) 1 2 k sw by (auto simp: poll_at_def sweep_processes_def on_sources_def Let_def)
  have ne: "process_sockets \<noteq> process_table" by (simp add: process_sockets_def process_table_def)
  obtain e where e: "hm_get ?r process_table = Some e" "ss_name e = process_table"
      "is_hole (ss_state e) \<longleftrightarrow> so_processes_seen out \<le> 1" "ss_detail e = [] \<longleftrightarrow> \<not> is_hole (ss_state e)"
    using ne by (auto simp: source_produced_def judge_process_def source_active_def source_unavailable_def declare_source_def update_conv' is_hole_def Let_def
        split: if_splits)
  then have "e \<in> set (source_snapshot ?r)" using map_of_SomeD [OF e(1)] by (force simp: source_snapshot_def)
  then show ?thesis using e seen st by auto
qed

section \<open>Examples\<close>

definition sample_worker :: fim_worker where
  "sample_worker = \<lparr>fw_monitor = sample_monitor, fw_notifications = Some [QueueOverflow], fw_connected = True, fw_rescan_interval = 9,
     fw_next_rescan = Some 100, fw_overflow_pending = False, fw_counters = no_fim_counters\<rparr>"

theorem overflow_recovered_witness:
  "let (w', u) = tick (\<lambda>_. sample_view) sample_view (\<lambda>_. True) 5 sample_worker in
     fu_overflows u = 1 \<and> (\<exists>e \<in> set (fu_events u). fim_path e = ''/w/b'') \<and> (\<exists>e \<in> set (fu_events u). fim_path e = ''/w/c'')"
proof -
  obtain w' u where t: "tick (\<lambda>_. sample_view) sample_view (\<lambda>_. True) 5 sample_worker = (w', u)" by (metis surj_pair)
  have m: "fw_monitor sample_worker = sample_monitor" "fw_notifications sample_worker = Some [QueueOverflow]" by (simp_all add: sample_worker_def)
  have known: "baseline_get (mon_baseline sample_monitor) ''/w/b'' = None" "baseline_get (mon_baseline sample_monitor) ''/w/c'' \<noteq> None"
    by (simp_all add: sample_monitor_def monitor_new_def baseline_get_def)
  have gone: "inspect_file sample_view 10 ''/w/c'' = Absent" by (simp add: inspect_file_def sample_view_def)
  have "under ''/w'' ''/w/c''" by (simp add: under_def starts_with_def char_lower_def)
  moreover have "list_ex is_gap (take 512 [QueueOverflow])" by (simp add: is_gap_def)
  moreover have "walk sample_view (mon_settings (fw_monitor sample_worker)) (fset_paths (mon_settings (fw_monitor sample_worker))) = ([''/w/a'', ''/w/b''], no_limits)"
    using m sample_monitor_ready sample_walk by simp
  moreover have "hm_invar (mon_baseline (fw_monitor sample_worker))" "\<not> mon_establishing (fw_monitor sample_worker)" using sample_monitor_ready m by simp_all
  moreover have "\<not> walk_truncated no_limits" by (simp add: walk_truncated_def no_limits_def)
  ultimately have all: "fu_overflows u = 1 \<and> (\<exists>e \<in> set (fu_events u). fim_path e = ''/w/b'') \<and>
      (\<forall>p. p \<notin> set [''/w/a'', ''/w/b''] \<and> inspect_file sample_view 10 p = Absent \<and> baseline_get (mon_baseline sample_monitor) p \<noteq> None \<and> under ''/w'' p \<longrightarrow>
        (\<exists>e \<in> set (fu_events u). fim_path e = p))"
    using overflow_recovered [OF _ _ m(2) _ _ t] by (simp add: m sample_monitor_ready sample_inspect known)
  moreover have "\<exists>e \<in> set (fu_events u). fim_path e = ''/w/c''"
    using all [THEN conjunct2, THEN conjunct2, THEN spec, of "''/w/c''"] known gone \<open>under ''/w'' ''/w/c''\<close> by simp
  ultimately show ?thesis by (simp add: t)
qed

definition sample_sensor :: host_sensor where
  "sample_sensor = the (host_start \<lparr>sv_os = ''linux'', sv_file = (\<lambda>_. NotFound), sv_exists = (\<lambda>_. False), sv_journal_error = None, sv_worker = None, sv_now = 3\<rparr>
     \<lparr>hset_fim = None, hset_auth_files = [''/var/log/auth.log''], hset_journald = True, hset_proc_root = ''/proc'', hset_process_monitoring = True,
      hset_process_interval = 5, hset_process_limits = default_scan_limits\<rparr>)"

lemmas sensor_eval = sample_sensor_def host_start_def declare_auth_files_def on_sources_def declare_platform_gaps_def platform_gaps_def Let_def

theorem blind_sweep_declared_witness:
  "\<exists>s' b. poll_at (\<lambda>_. None) (\<lambda>_. []) (\<lambda>_. []) \<lparr>hv_files = (\<lambda>_. NotFound), hv_proc = sample_tree ''77 (sh)''\<rparr> 3 sample_sensor = (s', b) \<and>
     (\<exists>e \<in> set (st_sources (hs_stats s')). ss_name e = process_table \<and> is_hole (ss_state e))"
proof -
  let ?hv = "\<lparr>hv_files = (\<lambda>_. NotFound), hv_proc = sample_tree ''77 (sh)''\<rparr>"
  obtain s' b where p: "poll_at (\<lambda>_. None) (\<lambda>_. []) (\<lambda>_. []) ?hv 3 sample_sensor = (s', b)" by (metis surj_pair)
  have s: "hs_processes sample_sensor = Some (watcher_new default_scan_limits)" "hs_next_sweep sample_sensor \<le> 3" by (simp_all add: sensor_eval)
  have n: "parse_stat ''77 (sh)'' = None" by code_simp
  have "length (sn_processes (take_snapshot (sample_tree ''77 (sh)'') l)) = 0" for l
    by (simp add: take_snapshot_def sample_tree_def add_process_def add_table_def empty_snapshot_def in_key_order_def read_process_def n split: option.split)
  then show ?thesis using blind_sweep_declared [OF s p] p by (auto simp: processes_visible_def)
qed

theorem log_poll_accounted_witness:
  "\<exists>s' b'. poll_logs (\<lambda>_. None) (\<lambda>_. []) (\<lambda>_. NotFound) (sample_sensor\<lparr>hs_journal := Some [''x'']\<rparr>) no_findings = (s', b') \<and>
     st_auth_records (hs_stats s') = 1 \<and> int (length (hf_auth b')) = 1 - int (st_auth_unparsed (hs_stats s'))"
proof -
  let ?s = "sample_sensor\<lparr>hs_journal := Some [''x'']\<rparr>"
  obtain s' b' where p: "poll_logs (\<lambda>_. None) (\<lambda>_. []) (\<lambda>_. NotFound) ?s no_findings = (s', b')" by (metis surj_pair)
  have st: "st_auth_records (hs_stats ?s) = 0" "st_auth_unparsed (hs_stats ?s) = 0" "hf_auth no_findings = []" "hs_tailers ?s = [(''/var/log/auth.log'', tailer_new NotFound)]"
    by (simp_all add: sensor_eval no_findings_def)
  have "parse_journal_record (\<lambda>_. None) (\<lambda>_. []) ''x'' ''journald'' = None" by (simp add: parse_journal_record_def)
  then have "st_auth_records (hs_stats s') = 1"
    using p st by (auto simp: poll_logs_def read_new_lines_def drain_journal_def max_log_lines_per_poll_def take_record_def Let_def)
  then show ?thesis using log_poll_accounted [OF p] p st by simp
qed

end
