(* ===== verification/Config.thy ===== *)
theory Config
  imports Policy RuleOptions
begin

text \<open>
  The configuration file (\<open>crates/common/src/config.rs\<close>): its sections with their defaults, the rules for relative paths, the
  check and the warnings. The YAML reader is a parameter: it turns text into a configuration or an error. Paths are text with the
  separator \<open>/\<close>. An error message is its key with the value it quotes; numbers are natural numbers.
\<close>

section \<open>The sections\<close>

record paths_config =
  pc_data_dir :: string
  pc_log_dir :: string

definition default_paths_config :: paths_config where
  "default_paths_config = \<lparr>pc_data_dir = ''data'', pc_log_dir = ''logs''\<rparr>"

record vars_config =
  vc_address_groups :: vars
  vc_port_groups :: vars

record capture_config =
  ca_enabled :: bool
  ca_interfaces :: "string list"
  ca_snaplen :: nat
  ca_promiscuous :: bool
  ca_bpf_filter :: "string option"
  ca_buffer_size_bytes :: "int option"

definition default_capture_config :: capture_config where
  "default_capture_config = \<lparr>ca_enabled = False, ca_interfaces = [], ca_snaplen = 65535, ca_promiscuous = True, ca_bpf_filter = None,
     ca_buffer_size_bytes = None\<rparr>"

record flow_config =
  fc_max_flows :: nat
  fc_timeout_secs :: nat
  fc_emit_events :: bool

definition default_flow_config :: flow_config where
  "default_flow_config = \<lparr>fc_max_flows = 65536, fc_timeout_secs = 300, fc_emit_events = True\<rparr>"

record normalize_config =
  nc_decode_rounds :: nat
  nc_collapse_path :: bool
  nc_backslash_is_separator :: bool

definition default_normalize_config :: normalize_config where
  "default_normalize_config = \<lparr>nc_decode_rounds = 2, nc_collapse_path = True, nc_backslash_is_separator = False\<rparr>"

record detect_config =
  dt_enabled :: bool
  dt_regex_size_limit :: nat
  dt_regex_dfa_size_limit :: nat
  dt_max_flow_states :: nat
  dt_max_flowbits_per_flow :: nat
  dt_inspection_window :: nat
  dt_max_threshold_entries :: nat

definition default_detect_config :: detect_config where
  "default_detect_config = \<lparr>dt_enabled = True, dt_regex_size_limit = 2 ^ 20, dt_regex_dfa_size_limit = 2 ^ 20, dt_max_flow_states = 65536,
     dt_max_flowbits_per_flow = 64, dt_inspection_window = 65536, dt_max_threshold_entries = 65536\<rparr>"

record rules_config =
  ru_directory :: string
  ru_files :: "string list"

definition default_rules_config :: rules_config where
  "default_rules_config = \<lparr>ru_directory = ''rules'', ru_files = [''cybersentinel.rules'']\<rparr>"

record file_output_config =
  fo_enabled :: bool
  fo_path :: string

definition default_file_output_config :: file_output_config where
  "default_file_output_config = \<lparr>fo_enabled = True, fo_path = ''events.json''\<rparr>"

record webhook_output_config =
  wo_enabled :: bool
  wo_url :: "string option"

text \<open>The sections of stdout and syslog are their switch.\<close>

record outputs_config =
  ou_stdout :: bool
  ou_file :: file_output_config
  ou_syslog :: bool
  ou_webhook :: webhook_output_config

definition default_outputs_config :: outputs_config where
  "default_outputs_config = \<lparr>ou_stdout = True, ou_file = default_file_output_config, ou_syslog = False,
     ou_webhook = \<lparr>wo_enabled = False, wo_url = None\<rparr>\<rparr>"

record logging_config =
  lg_level :: string
  lg_queue_capacity :: nat

definition default_logging_config :: logging_config where
  "default_logging_config = \<lparr>lg_level = ''info'', lg_queue_capacity = 8192\<rparr>"

record stats_config =
  sg_enabled :: bool
  sg_interval_secs :: nat

definition default_stats_config :: stats_config where
  "default_stats_config = \<lparr>sg_enabled = True, sg_interval_secs = 30\<rparr>"

record prevent_config =
  pg_enabled :: bool
  pg_mode :: string
  pg_fail_mode :: string
  pg_queue :: nat
  pg_queue_length :: nat
  pg_allow_list :: "string list"
  pg_source_block_secs :: nat
  pg_max_blocked_flows :: nat
  pg_max_blocked_sources :: nat

definition default_prevent_config :: prevent_config where
  "default_prevent_config = \<lparr>pg_enabled = False, pg_mode = ''detect'', pg_fail_mode = ''open'', pg_queue = 0, pg_queue_length = 1024,
     pg_allow_list = [], pg_source_block_secs = 600, pg_max_blocked_flows = 65536, pg_max_blocked_sources = 16384\<rparr>"

record fim_config =
  fg_enabled :: bool
  fg_paths :: "string list"
  fg_baseline :: string
  fg_rescan_interval_secs :: nat
  fg_max_file_bytes :: nat
  fg_max_depth :: nat
  fg_max_entries :: nat

definition default_fim_config :: fim_config where
  "default_fim_config = \<lparr>fg_enabled = True, fg_paths = [''/etc'', ''/usr/bin'', ''/usr/sbin'', ''/bin'', ''/sbin''],
     fg_baseline = ''fim-baseline.db'', fg_rescan_interval_secs = 3600, fg_max_file_bytes = 64 * 1024 * 1024, fg_max_depth = 16,
     fg_max_entries = 50000\<rparr>"

record auth_config =
  ag_enabled :: bool
  ag_journald :: bool
  ag_files :: "string list"

definition default_auth_config :: auth_config where
  "default_auth_config = \<lparr>ag_enabled = True, ag_journald = True, ag_files = [''/var/log/auth.log'', ''/var/log/secure'']\<rparr>"

record process_config =
  pp_enabled :: bool
  pp_proc_root :: string
  pp_interval_secs :: nat
  pp_max_processes :: nat
  pp_max_sockets :: nat

definition default_process_config :: process_config where
  "default_process_config = \<lparr>pp_enabled = True, pp_proc_root = ''/proc'', pp_interval_secs = 5, pp_max_processes = 16384,
     pp_max_sockets = 8192\<rparr>"

record hids_config =
  hc_enabled :: bool
  hc_fim :: fim_config
  hc_auth :: auth_config
  hc_process :: process_config

definition default_hids_config :: hids_config where
  "default_hids_config = \<lparr>hc_enabled = True, hc_fim = default_fim_config, hc_auth = default_auth_config, hc_process = default_process_config\<rparr>"

record correlation_config =
  co_enabled :: bool
  co_window_secs :: nat
  co_cooldown_secs :: nat
  co_max_hosts :: nat
  co_max_per_host :: nat

definition default_correlation_config :: correlation_config where
  "default_correlation_config = \<lparr>co_enabled = True, co_window_secs = 120, co_cooldown_secs = 300, co_max_hosts = 1024, co_max_per_host = 256\<rparr>"

text \<open>The sections of the sensor and of decoding are their single value.\<close>

record config =
  cf_sensor_name :: "string option"
  cf_paths :: paths_config
  cf_vars :: vars_config
  cf_capture :: capture_config
  cf_emit_anomaly_events :: bool
  cf_flow :: flow_config
  cf_reassembly :: reassembly_config
  cf_normalize :: normalize_config
  cf_detect :: detect_config
  cf_rules :: rules_config
  cf_hids :: hids_config
  cf_correlation :: correlation_config
  cf_prevent :: prevent_config
  cf_outputs :: outputs_config
  cf_logging :: logging_config
  cf_stats :: stats_config
  cf_source_path :: "string option"
  cf_paths_resolved :: bool

definition default_config :: config where
  "default_config = \<lparr>cf_sensor_name = None, cf_paths = default_paths_config, cf_vars = \<lparr>vc_address_groups = [], vc_port_groups = []\<rparr>,
     cf_capture = default_capture_config, cf_emit_anomaly_events = True, cf_flow = default_flow_config, cf_reassembly = default_reassembly_config,
     cf_normalize = default_normalize_config, cf_detect = default_detect_config, cf_rules = default_rules_config, cf_hids = default_hids_config,
     cf_correlation = default_correlation_config, cf_prevent = default_prevent_config, cf_outputs = default_outputs_config,
     cf_logging = default_logging_config, cf_stats = default_stats_config, cf_source_path = None, cf_paths_resolved = False\<rparr>"

section \<open>Paths\<close>

definition is_relative :: "string \<Rightarrow> bool" where
  "is_relative p \<longleftrightarrow> (case p of [] \<Rightarrow> True | c # _ \<Rightarrow> c \<noteq> CHR ''/'')"

text \<open>\<open>Path::join\<close>: an absolute path replaces the base.\<close>

definition path_join :: "string \<Rightarrow> string \<Rightarrow> string" where
  "path_join base p = (if \<not> is_relative p then p else if base = [] \<or> last base = CHR ''/'' then base @ p else base @ ''/'' @ p)"

definition resolve_paths :: "config \<Rightarrow> config" where
  "resolve_paths c =
     (if cf_paths_resolved c then c
      else
        let out = ou_file (cf_outputs c); rules = cf_rules c; fim = hc_fim (cf_hids c);
            out = (if is_relative (fo_path out) then out\<lparr>fo_path := path_join (pc_log_dir (cf_paths c)) (fo_path out)\<rparr> else out);
            rules = rules\<lparr>ru_files := map (\<lambda>f. if is_relative f then path_join (ru_directory rules) f else f) (ru_files rules)\<rparr>;
            fim = (if is_relative (fg_baseline fim) then fim\<lparr>fg_baseline := path_join (pc_data_dir (cf_paths c)) (fg_baseline fim)\<rparr> else fim)
        in c\<lparr>cf_paths_resolved := True, cf_outputs := (cf_outputs c)\<lparr>ou_file := out\<rparr>, cf_rules := rules,
             cf_hids := (cf_hids c)\<lparr>hc_fim := fim\<rparr>\<rparr>)"

definition sensor_id_path :: "config \<Rightarrow> string" where
  "sensor_id_path c = path_join (pc_data_dir (cf_paths c)) ''sensor-id''"

section \<open>The check\<close>

datatype invalid = QueueCapacityZero | StatsIntervalZero | OutputPathEmpty | WebhookUrlMissing | SnaplenZero | MaxFlowsZero | FlowTimeoutZero
  | ReassemblyInvalid config_error | RescanIntervalZero | MaxEntriesZero | ProcessIntervalZero | BadMode string | BadFailMode string
  | BadAllowListEntry string | SourceBlockZero | CorrelationWindowZero | InspectionWindowZero | MaxFlowStatesZero | DecodeRoundsTooMany
  | BadLevel string

definition ascii_lowercase :: "string \<Rightarrow> string" where
  "ascii_lowercase = map char_lower"

definition log_levels :: "string list" where
  "log_levels = [''error'', ''warn'', ''info'', ''debug'', ''trace'']"

fun check_allow_list :: "string list \<Rightarrow> invalid + unit" where
  "check_allow_list [] = Inr ()"
| "check_allow_list (entry # rest) = (case network_from_str entry of
       Inl _ \<Rightarrow> Inl (BadAllowListEntry entry)
     | Inr _ \<Rightarrow> check_allow_list rest)"

text \<open>The checks before and after the reassembly section and the allow-list, which can fail in ways of their own.\<close>

definition check_basics :: "config \<Rightarrow> invalid + unit" where
  "check_basics c =
     (if lg_queue_capacity (cf_logging c) = 0 then Inl QueueCapacityZero
      else if sg_enabled (cf_stats c) \<and> sg_interval_secs (cf_stats c) = 0 then Inl StatsIntervalZero
      else if fo_enabled (ou_file (cf_outputs c)) \<and> fo_path (ou_file (cf_outputs c)) = [] then Inl OutputPathEmpty
      else if wo_enabled (ou_webhook (cf_outputs c)) \<and> wo_url (ou_webhook (cf_outputs c)) = None then Inl WebhookUrlMissing
      else if ca_snaplen (cf_capture c) = 0 then Inl SnaplenZero
      else if fc_max_flows (cf_flow c) = 0 then Inl MaxFlowsZero
      else if fc_timeout_secs (cf_flow c) = 0 then Inl FlowTimeoutZero
      else Inr ())"

definition check_host :: "config \<Rightarrow> invalid + unit" where
  "check_host c =
     (let fim = hc_fim (cf_hids c); processes = hc_process (cf_hids c); prevent = cf_prevent c in
      if fg_enabled fim \<and> fg_rescan_interval_secs fim = 0 then Inl RescanIntervalZero
      else if fg_enabled fim \<and> fg_max_entries fim = 0 then Inl MaxEntriesZero
      else if pp_enabled processes \<and> pp_interval_secs processes = 0 then Inl ProcessIntervalZero
      else if pg_mode prevent \<notin> {''detect'', ''prevent''} then Inl (BadMode (pg_mode prevent))
      else if pg_fail_mode prevent \<notin> {''open'', ''closed''} then Inl (BadFailMode (pg_fail_mode prevent))
      else check_allow_list (pg_allow_list prevent))"

definition check_detection :: "config \<Rightarrow> invalid + unit" where
  "check_detection c =
     (if pg_enabled (cf_prevent c) \<and> pg_source_block_secs (cf_prevent c) = 0 then Inl SourceBlockZero
      else if co_enabled (cf_correlation c) \<and> co_window_secs (cf_correlation c) = 0 then Inl CorrelationWindowZero
      else if dt_inspection_window (cf_detect c) = 0 then Inl InspectionWindowZero
      else if dt_max_flow_states (cf_detect c) = 0 then Inl MaxFlowStatesZero
      else if 8 < nc_decode_rounds (cf_normalize c) then Inl DecodeRoundsTooMany
      else let level = ascii_lowercase (lg_level (cf_logging c)) in if level \<in> set log_levels then Inr () else Inl (BadLevel level))"

definition check :: "config \<Rightarrow> invalid + unit" where
  "check c = (case check_basics c of Inl e \<Rightarrow> Inl e | Inr _ \<Rightarrow>
     case reassembly_check (cf_reassembly c) of Inl e \<Rightarrow> Inl (ReassemblyInvalid e) | Inr _ \<Rightarrow>
     case check_host c of Inl e \<Rightarrow> Inl e | Inr _ \<Rightarrow> check_detection c)"

section \<open>Loading and warnings\<close>

datatype 'e load_error = ConfigIo | ConfigParse 'e | ConfigInvalid invalid

definition from_yaml :: "(string \<Rightarrow> 'e + config) \<Rightarrow> string \<Rightarrow> 'e + config" where
  "from_yaml yaml cs = (if str_trim cs = [] then Inr default_config else yaml cs)"

definition load :: "(string \<Rightarrow> 'e + config) \<Rightarrow> (string \<Rightarrow> string option) \<Rightarrow> string \<Rightarrow> 'e load_error + config" where
  "load yaml read path = (case read path of
       None \<Rightarrow> Inl ConfigIo
     | Some cs \<Rightarrow> (case from_yaml yaml cs of
           Inl e \<Rightarrow> Inl (ConfigParse e)
         | Inr c \<Rightarrow>
             let c = resolve_paths (c\<lparr>cf_source_path := Some path\<rparr>)
             in case check c of Inl e \<Rightarrow> Inl (ConfigInvalid e) | Inr _ \<Rightarrow> Inr c))"

datatype warning = NoOutputs | NoRules | NoHomeNet | SyslogInert | WebhookInert | SmallSnaplen nat | FilterSet | DetectionOff
  | ManyInterfaces nat

definition warnings :: "config \<Rightarrow> warning list" where
  "warnings c =
     (let out = cf_outputs c; capture = cf_capture c in
      (if \<not> ou_stdout out \<and> \<not> fo_enabled (ou_file out) \<and> \<not> ou_syslog out \<and> \<not> wo_enabled (ou_webhook out) then [NoOutputs] else []) @
      (if ru_files (cf_rules c) = [] then [NoRules] else []) @
      (if \<not> hm_contains (vc_address_groups (cf_vars c)) ''HOME_NET'' then [NoHomeNet] else []) @
      (if ou_syslog out then [SyslogInert] else []) @
      (if wo_enabled (ou_webhook out) then [WebhookInert] else []) @
      (if ca_snaplen capture < 1518 then [SmallSnaplen (ca_snaplen capture)] else []) @
      (if ca_bpf_filter capture \<noteq> None then [FilterSet] else []) @
      (if \<not> dt_enabled (cf_detect c) then [DetectionOff] else []) @
      (if 1 < length (ca_interfaces capture) then [ManyInterfaces (length (ca_interfaces capture))] else []))"

section \<open>What is accepted\<close>

lemma check_allow_list_ok: "check_allow_list es = Inr () \<longleftrightarrow> list_all (\<lambda>e. \<exists>n. network_from_str e = Inr n) es"
  by (induction es) (auto split: sum.split)

lemma check_basics_ok:
  "check_basics c = Inr () \<longleftrightarrow> 1 \<le> lg_queue_capacity (cf_logging c) \<and> 1 \<le> ca_snaplen (cf_capture c) \<and> 1 \<le> fc_max_flows (cf_flow c) \<and>
     1 \<le> fc_timeout_secs (cf_flow c) \<and> (sg_enabled (cf_stats c) \<longrightarrow> 1 \<le> sg_interval_secs (cf_stats c)) \<and>
     (fo_enabled (ou_file (cf_outputs c)) \<longrightarrow> fo_path (ou_file (cf_outputs c)) \<noteq> []) \<and>
     (wo_enabled (ou_webhook (cf_outputs c)) \<longrightarrow> wo_url (ou_webhook (cf_outputs c)) \<noteq> None)"
  by (auto simp: check_basics_def)

lemma check_host_ok:
  "check_host c = Inr () \<longleftrightarrow> list_all (\<lambda>e. \<exists>n. network_from_str e = Inr n) (pg_allow_list (cf_prevent c)) \<and>
     pg_mode (cf_prevent c) \<in> {''detect'', ''prevent''} \<and> pg_fail_mode (cf_prevent c) \<in> {''open'', ''closed''} \<and>
     (fg_enabled (hc_fim (cf_hids c)) \<longrightarrow> 1 \<le> fg_rescan_interval_secs (hc_fim (cf_hids c)) \<and> 1 \<le> fg_max_entries (hc_fim (cf_hids c))) \<and>
     (pp_enabled (hc_process (cf_hids c)) \<longrightarrow> 1 \<le> pp_interval_secs (hc_process (cf_hids c)))"
  by (auto simp: check_host_def Let_def check_allow_list_ok)

lemma check_detection_ok:
  "check_detection c = Inr () \<longleftrightarrow> 1 \<le> dt_inspection_window (cf_detect c) \<and> 1 \<le> dt_max_flow_states (cf_detect c) \<and>
     nc_decode_rounds (cf_normalize c) \<le> 8 \<and> (pg_enabled (cf_prevent c) \<longrightarrow> 1 \<le> pg_source_block_secs (cf_prevent c)) \<and>
     (co_enabled (cf_correlation c) \<longrightarrow> 1 \<le> co_window_secs (cf_correlation c)) \<and> ascii_lowercase (lg_level (cf_logging c)) \<in> set log_levels"
  by (auto simp: check_detection_def Let_def)

lemma check_parts:
  "check c = Inr () \<longleftrightarrow> check_basics c = Inr () \<and> reassembly_check (cf_reassembly c) = Inr () \<and> check_host c = Inr () \<and> check_detection c = Inr ()"
  by (auto simp: check_def split: sum.splits)

lemma resolve_resolved: "cf_paths_resolved (resolve_paths c)"
  by (simp add: resolve_paths_def Let_def)

lemma resolve_idempotent: "resolve_paths (resolve_paths c) = resolve_paths c"
  using resolve_resolved [of c] by (simp add: resolve_paths_def [of "resolve_paths c"])

lemma path_join_relative: "\<not> is_relative p \<Longrightarrow> path_join base p = p"
  by (simp add: path_join_def)

lemma resolved_files: "\<not> cf_paths_resolved c \<Longrightarrow>
    ru_files (cf_rules (resolve_paths c)) = map (path_join (ru_directory (cf_rules c))) (ru_files (cf_rules c)) \<and>
    fo_path (ou_file (cf_outputs (resolve_paths c))) = path_join (pc_log_dir (cf_paths c)) (fo_path (ou_file (cf_outputs c))) \<and>
    fg_baseline (hc_fim (cf_hids (resolve_paths c))) = path_join (pc_data_dir (cf_paths c)) (fg_baseline (hc_fim (cf_hids c)))"
  by (simp add: resolve_paths_def Let_def path_join_relative)

lemma load_checked:
  "load yaml read path = Inr c \<Longrightarrow> check c = Inr () \<and> cf_paths_resolved c \<and> resolve_paths c = c \<and> cf_source_path c = Some path"
  by (auto simp: load_def Let_def resolve_idempotent resolve_resolved resolve_paths_def split: option.splits sum.splits)

text \<open>What the sensor asks of a configuration: sizes and times that are not zero (of a part that can be switched off, when it is on),
  reassembly limits in order, names and networks that can be read. Nothing is asked of \<open>correlation.max-per-host\<close>.\<close>

definition usable :: "config \<Rightarrow> bool" where
  "usable c \<longleftrightarrow>
     1 \<le> lg_queue_capacity (cf_logging c) \<and> 1 \<le> ca_snaplen (cf_capture c) \<and> 1 \<le> fc_max_flows (cf_flow c) \<and> 1 \<le> fc_timeout_secs (cf_flow c) \<and>
     1 \<le> dt_inspection_window (cf_detect c) \<and> 1 \<le> dt_max_flow_states (cf_detect c) \<and> nc_decode_rounds (cf_normalize c) \<le> 8 \<and>
     (sg_enabled (cf_stats c) \<longrightarrow> 1 \<le> sg_interval_secs (cf_stats c)) \<and>
     (fo_enabled (ou_file (cf_outputs c)) \<longrightarrow> fo_path (ou_file (cf_outputs c)) \<noteq> []) \<and>
     (wo_enabled (ou_webhook (cf_outputs c)) \<longrightarrow> wo_url (ou_webhook (cf_outputs c)) \<noteq> None) \<and>
     (fg_enabled (hc_fim (cf_hids c)) \<longrightarrow> 1 \<le> fg_rescan_interval_secs (hc_fim (cf_hids c)) \<and> 1 \<le> fg_max_entries (hc_fim (cf_hids c))) \<and>
     (pp_enabled (hc_process (cf_hids c)) \<longrightarrow> 1 \<le> pp_interval_secs (hc_process (cf_hids c))) \<and>
     (pg_enabled (cf_prevent c) \<longrightarrow> 1 \<le> pg_source_block_secs (cf_prevent c)) \<and>
     (co_enabled (cf_correlation c) \<longrightarrow> 1 \<le> co_window_secs (cf_correlation c)) \<and>
     1 \<le> max_fragment_sets (cf_reassembly c) \<and> 1 \<le> fragment_timeout_secs (cf_reassembly c) \<and> 1 \<le> delivery_flush_bytes (cf_reassembly c) \<and>
     delivery_flush_bytes (cf_reassembly c) \<le> max_stream_bytes_per_flow (cf_reassembly c) \<and>
     max_stream_bytes_per_flow (cf_reassembly c) \<le> max_stream_bytes_total (cf_reassembly c) \<and>
     distinct (map hp_network (host_policies (cf_reassembly c))) \<and>
     list_all (\<lambda>e. \<exists>n. network_from_str e = Inr n) (pg_allow_list (cf_prevent c)) \<and>
     pg_mode (cf_prevent c) \<in> {''detect'', ''prevent''} \<and> pg_fail_mode (cf_prevent c) \<in> {''open'', ''closed''} \<and>
     ascii_lowercase (lg_level (cf_logging c)) \<in> set log_levels"

lemma check_usable: "check c = Inr () \<longleftrightarrow> usable c"
proof -
  have "1 \<le> delivery_flush_bytes r \<and> delivery_flush_bytes r \<le> max_stream_bytes_per_flow r \<longrightarrow> 1 \<le> max_stream_bytes_per_flow r" for r by linarith
  then show ?thesis unfolding check_parts check_basics_ok reassembly_check_ok check_host_ok check_detection_ok usable_def by blast
qed

lemma load_exact:
  "load yaml read path = Inr c \<longleftrightarrow> (\<exists>cs c0. read path = Some cs \<and> from_yaml yaml cs = Inr c0 \<and>
     c = resolve_paths (c0\<lparr>cf_source_path := Some path\<rparr>) \<and> usable c)"
  by (auto simp: load_def Let_def check_usable [symmetric] split: option.splits sum.splits)

lemmas default_sections = default_config_def default_paths_config_def default_capture_config_def default_flow_config_def default_normalize_config_def
  default_detect_config_def default_rules_config_def default_outputs_config_def default_file_output_config_def default_logging_config_def
  default_stats_config_def default_prevent_config_def default_hids_config_def default_fim_config_def default_auth_config_def
  default_process_config_def default_correlation_config_def default_reassembly_config_def

lemma default_accepted: "check (resolve_paths default_config) = Inr ()"
  by (simp add: check_parts check_basics_def check_host_def check_detection_def reassembly_check_ok Let_def resolve_paths_def default_sections
      is_relative_def path_join_def ascii_lowercase_def log_levels_def char_lower_def)

lemma empty_file_loads:
  "read path = Some cs \<Longrightarrow> str_trim cs = [] \<Longrightarrow> load yaml read path = Inr (resolve_paths (default_config\<lparr>cf_source_path := Some path\<rparr>))"
proof -
  have parts: "check_basics (c\<lparr>cf_source_path := x\<rparr>) = check_basics c" "check_host (c\<lparr>cf_source_path := x\<rparr>) = check_host c"
    "check_detection (c\<lparr>cf_source_path := x\<rparr>) = check_detection c" for c x
    by (simp_all add: check_basics_def check_host_def check_detection_def Let_def cong: if_cong)
  have "check (c\<lparr>cf_source_path := x\<rparr>) = check c" "resolve_paths (c\<lparr>cf_source_path := x\<rparr>) = (resolve_paths c)\<lparr>cf_source_path := x\<rparr>" for c x
    by (simp_all add: check_def parts resolve_paths_def Let_def split: sum.split)
  then have "check (resolve_paths (default_config\<lparr>cf_source_path := Some path\<rparr>)) = Inr ()" by (simp add: default_accepted)
  then show "read path = Some cs \<Longrightarrow> str_trim cs = [] \<Longrightarrow> load yaml read path = Inr (resolve_paths (default_config\<lparr>cf_source_path := Some path\<rparr>))"
    by (simp add: load_def from_yaml_def)
qed

text \<open>The check of the output path comes after the paths were resolved, and the empty path is relative: it never fires.\<close>

lemma empty_output_path_accepted:
  "pc_log_dir (cf_paths c) \<noteq> [] \<Longrightarrow> check_basics (resolve_paths c) \<noteq> Inl OutputPathEmpty" if "\<not> cf_paths_resolved c"
  using resolved_files [OF that] by (auto simp: check_basics_def path_join_def is_relative_def split: list.splits)

text \<open>C15. What the loader hands on is what the check promises, and nothing else is refused. Loading succeeds exactly when the file can be read and parsed and,
with its relative paths joined to their directories, asks for: a queue, a snapshot length, a flow table, a flow timeout, an inspection window and a
number of flow states of at least one, at most eight decoding rounds, for each of statistics, file monitoring, process monitoring, prevention and correlation
that is on an interval, a size or a block time of at least one, an output path and a webhook address where those outputs are on, reassembly limits in
order with a fragment set, a fragment timeout and a flush size of at least one, no network with two overlap policies, an allow-list of networks, a known mode, fail mode and
log level. (The check leaves out \<open>correlation.max-per-host\<close>.) In what is handed on, absolute paths are kept, relative ones joined once, and joining
again changes nothing. An empty file is accepted and is the defaults.\<close>

theorem loaded_config_usable:
  "(load yaml read path = Inr c \<longleftrightarrow> (\<exists>cs c0. read path = Some cs \<and> from_yaml yaml cs = Inr c0 \<and>
      c = resolve_paths (c0\<lparr>cf_source_path := Some path\<rparr>) \<and> usable c)) \<and>
   (load yaml read path = Inr c \<longrightarrow> resolve_paths c = c \<and> cf_source_path c = Some path) \<and>
   (load yaml read path = Inr c \<and> read path = Some cs \<and> from_yaml yaml cs = Inr c0 \<and> \<not> cf_paths_resolved c0 \<longrightarrow>
      ru_files (cf_rules c) = map (path_join (ru_directory (cf_rules c0))) (ru_files (cf_rules c0)) \<and>
      fo_path (ou_file (cf_outputs c)) = path_join (pc_log_dir (cf_paths c0)) (fo_path (ou_file (cf_outputs c0))) \<and>
      fg_baseline (hc_fim (cf_hids c)) = path_join (pc_data_dir (cf_paths c0)) (fg_baseline (hc_fim (cf_hids c0)))) \<and>
   (read path = Some cs \<and> str_trim cs = [] \<longrightarrow> load yaml read path = Inr (resolve_paths (default_config\<lparr>cf_source_path := Some path\<rparr>)))"
proof (intro conjI impI)
  show "load yaml read path = Inr c \<longleftrightarrow> (\<exists>cs c0. read path = Some cs \<and> from_yaml yaml cs = Inr c0 \<and>
      c = resolve_paths (c0\<lparr>cf_source_path := Some path\<rparr>) \<and> usable c)" by (rule load_exact)
  show "resolve_paths c = c" "cf_source_path c = Some path" if "load yaml read path = Inr c" using load_checked [OF that] by blast+
next
  assume "load yaml read path = Inr c \<and> read path = Some cs \<and> from_yaml yaml cs = Inr c0 \<and> \<not> cf_paths_resolved c0"
  then have c: "c = resolve_paths (c0\<lparr>cf_source_path := Some path\<rparr>)" "\<not> cf_paths_resolved (c0\<lparr>cf_source_path := Some path\<rparr>)" by (auto simp: load_exact)
  show "ru_files (cf_rules c) = map (path_join (ru_directory (cf_rules c0))) (ru_files (cf_rules c0))"
    "fo_path (ou_file (cf_outputs c)) = path_join (pc_log_dir (cf_paths c0)) (fo_path (ou_file (cf_outputs c0)))"
    "fg_baseline (hc_fim (cf_hids c)) = path_join (pc_data_dir (cf_paths c0)) (fg_baseline (hc_fim (cf_hids c0)))"
    using resolved_files [OF c(2)] by (simp_all add: c(1))
next
  assume "read path = Some cs \<and> str_trim cs = []"
  then show "load yaml read path = Inr (resolve_paths (default_config\<lparr>cf_source_path := Some path\<rparr>))" using empty_file_loads by blast
qed

theorem loaded_config_usable_witness:
  "\<exists>c. load (\<lambda>_. Inl () :: unit + config) (\<lambda>_. Some []) ''c.yaml'' = Inr c \<and> usable c \<and> resolve_paths c = c \<and>
     ru_files (cf_rules c) = [''rules/cybersentinel.rules'']"
proof -
  let ?c = "resolve_paths (default_config\<lparr>cf_source_path := Some ''c.yaml''\<rparr>)"
  have e: "str_trim [] = []" by code_simp
  then have y: "from_yaml (\<lambda>_. Inl () :: unit + config) [] = Inr default_config" by (simp add: from_yaml_def)
  note t = loaded_config_usable [of "\<lambda>_. Inl () :: unit + config" "\<lambda>_. Some []" "''c.yaml''" ?c "[]" default_config]
  have l: "load (\<lambda>_. Inl () :: unit + config) (\<lambda>_. Some []) ''c.yaml'' = Inr ?c" using t e by blast
  moreover have "\<not> cf_paths_resolved default_config" by (simp add: default_sections)
  ultimately have "usable ?c \<and> resolve_paths ?c = ?c \<and> ru_files (cf_rules ?c) = map (path_join (ru_directory (cf_rules default_config))) (ru_files (cf_rules default_config))"
    using t y by blast
  then show ?thesis using l by (intro exI [of _ ?c]) (simp add: default_sections path_join_def is_relative_def)
qed

end
