(* ===== verification/Startup.thy ===== *)
theory Startup
  imports Config
begin

text \<open>
  What happens once at start: the sensor's identity (\<open>crates/common/src/sensor.rs\<close>) and dropping privileges (\<open>crates/capture/src/privileges.rs\<close>,
  \<open>drop_privileges\<close> of \<open>crates/cli/src/run.rs\<close>). The file system is a map from paths to contents and the paths that can be written; the
  test for a UUID and a fresh one are parameters, as is the version. The kernel's capability sets are lists, and a parameter says which
  sets it refuses to change. Only the Linux variant is modelled.
\<close>

section \<open>Identity\<close>

record id_files =
  if_contents :: "string \<rightharpoonup> string"
  if_writable :: "string \<Rightarrow> bool"

definition host_name :: "string \<Rightarrow> string" where
  "host_name raw = (let name = str_trim raw in if name = [] then ''unknown-host'' else name)"

text \<open>Creating the parent directory fails only when the file could not be written either.\<close>

definition load_or_create_id :: "(string \<Rightarrow> bool) \<Rightarrow> string \<Rightarrow> string \<Rightarrow> id_files \<Rightarrow> string option \<times> id_files" where
  "load_or_create_id is_uuid fresh path files =
     (let create = (if if_writable files path
            then (Some fresh, files\<lparr>if_contents := (if_contents files)(path \<mapsto> fresh @ [CHR 0x0A])\<rparr>)
            else (None, files))
      in case if_contents files path of
          None \<Rightarrow> create
        | Some existing \<Rightarrow> if is_uuid (str_trim existing) then (Some (str_trim existing), files) else create)"

record sensor_info =
  si_name :: string
  si_id :: string
  si_version :: string

definition resolve :: "(string \<Rightarrow> bool) \<Rightarrow> string \<Rightarrow> string \<Rightarrow> string \<Rightarrow> config \<Rightarrow> id_files \<Rightarrow> sensor_info option \<times> id_files" where
  "resolve is_uuid fresh hostname version c files =
     (let name = unwrap_or (cf_sensor_name c) (host_name hostname)
      in case load_or_create_id is_uuid fresh (sensor_id_path c) files of
          (None, files) \<Rightarrow> (None, files)
        | (Some sid, files) \<Rightarrow> (Some \<lparr>si_name = name, si_id = sid, si_version = version\<rparr>, files))"

lemma trim_newline: "is_space c \<Longrightarrow> str_trim (cs @ [c]) = str_trim cs"
proof -
  assume c: "is_space c"
  have "rev (dropWhile is_space (cs @ [c])) = (if dropWhile is_space cs = [] then [] else c # rev (dropWhile is_space cs))"
    using c by (induction cs) auto
  then show ?thesis using c by (cases "dropWhile is_space cs = []") (simp_all add: str_trim_def del: dropWhile_eq_Nil_conv)
qed

text \<open>A sensor keeps its identity: whatever the id file held at first, once an identity was resolved every later start on the same files, whatever the
host is called then and whatever new identifier could have been drawn, resolves the same one; and an id file that holds an identifier is never
overwritten.\<close>

theorem identity_stable:
  assumes "is_uuid fresh" and "str_trim fresh = fresh" and "resolve is_uuid fresh hostname version c files = (Some info, files')"
  shows "\<exists>info'. resolve is_uuid fresh' hostname' version' c files' = (Some info', files') \<and> si_id info' = si_id info \<and> is_uuid (si_id info) \<and>
    (\<forall>existing. if_contents files (sensor_id_path c) = Some existing \<and> is_uuid (str_trim existing) \<longrightarrow> files' = files \<and> si_id info = str_trim existing)"
proof -
  let ?path = "sensor_id_path c"
  have nl: "str_trim (fresh @ [CHR 0x0A]) = fresh" using trim_newline [of "CHR 0x0A" fresh] assms(2) by (simp add: is_space_def)
  obtain sid where l: "load_or_create_id is_uuid fresh ?path files = (Some sid, files')" "si_id info = sid"
    using assms(3) by (auto simp: resolve_def Let_def split: prod.splits option.splits)
  have "if_contents files' ?path \<noteq> None \<and> str_trim (the (if_contents files' ?path)) = sid \<and> is_uuid sid"
    using l(1) assms(1) nl by (auto simp: load_or_create_id_def Let_def split: option.splits if_splits)
  then have "load_or_create_id is_uuid fresh' ?path files' = (Some sid, files')" by (auto simp: load_or_create_id_def)
  moreover have "is_uuid sid" using l(1) assms(1) by (auto simp: load_or_create_id_def Let_def split: option.splits if_splits)
  moreover have "files' = files \<and> sid = str_trim existing" if "if_contents files ?path = Some existing" "is_uuid (str_trim existing)" for existing
    using l(1) that by (simp add: load_or_create_id_def)
  ultimately show ?thesis using l(2) by (auto simp: resolve_def Let_def)
qed

section \<open>Privileges\<close>

datatype capability = CapNetRaw | CapNetAdmin | CapDacReadSearch | OtherCapability nat

datatype cap_set = Permitted | Effective | Inheritable | Ambient

record privilege_report =
  pv_uid :: nat
  pv_capabilities_dropped :: bool
  pv_running_as_root :: bool
  pv_supported :: bool
  pv_retained :: nat

definition is_overprivileged :: "privilege_report \<Rightarrow> bool" where
  "is_overprivileged r = pv_running_as_root r"

text \<open>One \<open>caps::set\<close>: the sets afterwards and whether the kernel agreed.\<close>

definition set_caps :: "(cap_set \<Rightarrow> bool) \<Rightarrow> cap_set \<Rightarrow> capability list \<Rightarrow> (cap_set \<Rightarrow> capability list) \<Rightarrow> (cap_set \<Rightarrow> capability list) \<times> bool" where
  "set_caps refuses s keep caps = (if refuses s then (caps, False) else (caps(s := keep), True))"

definition drop_after_capture_open_retaining ::
    "(cap_set \<Rightarrow> bool) \<Rightarrow> nat option \<Rightarrow> capability list \<Rightarrow> (cap_set \<Rightarrow> capability list) \<Rightarrow> (cap_set \<Rightarrow> capability list) \<times> privilege_report" where
  "drop_after_capture_open_retaining refuses proc_uid retain caps =
     (let uid = unwrap_or proc_uid 0;
          keep = remdups (filter (\<lambda>x. x \<in> set (caps Permitted)) retain);
          (caps, _) = set_caps refuses Ambient keep caps;
          (caps, inheritable) = set_caps refuses Inheritable keep caps;
          (caps, effective) = set_caps refuses Effective keep caps;
          (caps, permitted) = set_caps refuses Permitted keep caps
      in (caps, \<lparr>pv_uid = uid, pv_capabilities_dropped = (inheritable \<and> effective \<and> permitted), pv_running_as_root = (uid = 0), pv_supported = True,
            pv_retained = length keep\<rparr>))"

definition retained_capabilities :: "config \<Rightarrow> capability list" where
  "retained_capabilities c = (if hc_enabled (cf_hids c) then [CapDacReadSearch] else []) @ (if pg_enabled (cf_prevent c) then [CapNetAdmin] else [])"

definition drop_privileges :: "(cap_set \<Rightarrow> bool) \<Rightarrow> nat option \<Rightarrow> config \<Rightarrow> (cap_set \<Rightarrow> capability list) \<Rightarrow> (cap_set \<Rightarrow> capability list) \<times> privilege_report" where
  "drop_privileges refuses proc_uid c caps = drop_after_capture_open_retaining refuses proc_uid (retained_capabilities c) caps"

text \<open>Dropping privileges does what its report says: no set holds a capability that neither it nor the
permitted set held; when the report says that they were dropped, the
process can use and pass on only what host monitoring and the verdict path need, of what it held; the raw socket capability is gone;
and a refusal by the kernel of any of those three sets is reported.\<close>

theorem privileges_dropped:
  assumes "drop_privileges refuses proc_uid c caps = (caps', report)"
  shows "(pv_capabilities_dropped report \<longleftrightarrow> \<not> refuses Permitted \<and> \<not> refuses Effective \<and> \<not> refuses Inheritable) \<and>
    (pv_capabilities_dropped report \<longrightarrow> (\<forall>s. s \<noteq> Ambient \<longrightarrow> CapNetRaw \<notin> set (caps' s) \<and>
      set (caps' s) = set (caps Permitted) \<inter> set (retained_capabilities c))) \<and>
    (\<forall>s. set (caps' s) \<subseteq> set (caps s) \<union> set (caps Permitted))"
proof -
  have "caps' s = (if refuses s then caps s else remdups (filter (\<lambda>x. x \<in> set (caps Permitted)) (retained_capabilities c)))" for s
    using assms by (cases s) (auto simp: drop_privileges_def drop_after_capture_open_retaining_def set_caps_def Let_def split: if_splits)
  moreover have "pv_capabilities_dropped report \<longleftrightarrow> \<not> refuses Permitted \<and> \<not> refuses Effective \<and> \<not> refuses Inheritable"
    using assms by (auto simp: drop_privileges_def drop_after_capture_open_retaining_def set_caps_def Let_def split: if_splits)
  moreover have "CapNetRaw \<notin> set (retained_capabilities c)" by (simp add: retained_capabilities_def)
  ultimately show ?thesis by (auto, (metis cap_set.exhaust)+)
qed

theorem identity_stable_witness:
  "\<exists>info files'. resolve (\<lambda>u. u \<in> {''u1'', ''u2''}) ''u1'' ''host'' ''1'' default_config \<lparr>if_contents = Map.empty, if_writable = (\<lambda>_. True)\<rparr> = (Some info, files') \<and>
     (\<exists>info'. resolve (\<lambda>u. u \<in> {''u1'', ''u2''}) ''u2'' ''other'' ''2'' default_config files' = (Some info', files') \<and> si_id info' = ''u1'')"
proof -
  let ?u = "\<lambda>u. u \<in> {''u1'', ''u2''}" and ?f = "\<lparr>if_contents = Map.empty, if_writable = (\<lambda>_. True)\<rparr>"
  have t: "str_trim ''u1'' = ''u1''" by code_simp
  obtain info files' where r: "resolve ?u ''u1'' ''host'' ''1'' default_config ?f = (Some info, files')" "si_id info = ''u1''"
    by (simp add: resolve_def load_or_create_id_def Let_def)
  from identity_stable [OF _ t r(1), where fresh' = "''u2''" and hostname' = "''other''" and version' = "''2''"] r show ?thesis by auto
qed

theorem privileges_dropped_witness:
  "\<exists>caps' report. drop_privileges (\<lambda>s. s = Ambient) (Some 33) default_config (\<lambda>_. [CapNetRaw, CapNetAdmin, CapDacReadSearch]) = (caps', report) \<and>
     pv_capabilities_dropped report \<and> set (caps' Effective) = {CapDacReadSearch}"
proof -
  let ?caps = "\<lambda>_ :: cap_set. [CapNetRaw, CapNetAdmin, CapDacReadSearch]"
  obtain caps' report where d: "drop_privileges (\<lambda>s. s = Ambient) (Some 33) default_config ?caps = (caps', report)" by (metis surj_pair)
  have "set (retained_capabilities default_config) = {CapDacReadSearch}" by (simp add: retained_capabilities_def default_sections)
  with privileges_dropped [OF d] d show ?thesis by auto
qed

end
