(* ===== verification/PacketLoop.thy ===== *)
theory PacketLoop
  imports Replay HostSensor PipelineRuns
begin

text \<open>
  The loops that drive the pipeline (\<open>run_packet_loop\<close> and \<open>host_only_loop\<close> of \<open>crates/cli/src/run.rs\<close>; \<open>service_host\<close>, \<open>drain_host\<close> and
  \<open>publish\<close> of \<open>crates/cli/src/pipeline.rs\<close>). The loops are written over any packet source, as the code's are over
  \<open>dyn PacketSource\<close>; what a source promises is the locale \<open>packet_source\<close>. The shutdown flag is a function of the round of the loop; what
  the host sensors see at their n-th poll, the clock included, is the n-th entry of the surroundings, and what the kernel says of
  its queue at the n-th publication likewise. A loop that has not returned when its fuel is spent is \<open>StillRunning\<close>, a panic is
  \<open>Panicked\<close>. Sleeping is left out.
\<close>

section \<open>The pipeline with its host sensor\<close>

text \<open>What a poll finds: the updates and journal lines that arrived since the last one, the files and the process tree, the clock before, in and after it, and the
  wall-clock readings taken as its records are handled.\<close>

record poll_env =
  pe_updates :: "fim_update list"
  pe_journal :: "string list"
  pe_view :: host_view
  pe_before :: instant
  pe_now :: instant
  pe_after :: instant
  pe_times :: "nat \<Rightarrow> system_time"

record surroundings =
  en_parsers :: ether_parsers
  en_json :: "string \<Rightarrow> json option"
  en_lossy :: "bytes \<Rightarrow> string"
  en_show_socket :: "socket_addr \<Rightarrow> string"
  en_polls :: "nat \<Rightarrow> poll_env"
  en_depth :: "nat \<Rightarrow> queue_depth_line option"

record pipeline_snapshot =
  sp_source :: string
  sp_capture :: capture_counters
  sp_decode :: decode_counters
  sp_flows :: flow_counters
  sp_active_flows :: nat
  sp_flow_capacity :: nat
  sp_defrag :: defrag_counters
  sp_active_fragment_sets :: nat
  sp_streams :: stream_counters
  sp_stream_bytes_buffered :: nat
  sp_engine :: engine_counters
  sp_rules :: compile_report
  sp_hids :: "hids_stats option \<times> nat"
  sp_prevent :: prevent_stats
  sp_correlation :: "correlation_stats option"
  sp_capture_truncated :: bool

text \<open>The pipeline, the fields of \<open>PacketPipeline\<close> that its own theory leaves out, and the shared slot.\<close>

record sensor_run =
  sr_pipeline :: packet_pipeline
  sr_host :: "host_sensor option"
  sr_rules :: compile_report
  sr_source :: string
  sr_polls :: nat
  sr_publications :: nat
  sr_snapshot :: pipeline_snapshot

text \<open>The threads of the host sensor: their channels fill between polls.\<close>

definition arrive :: "poll_env \<Rightarrow> host_sensor \<Rightarrow> host_sensor" where
  "arrive env s = (fold send_update (pe_updates env) s)\<lparr>hs_journal := map_option (\<lambda>ls. ls @ pe_journal env) (hs_journal s)\<rparr>"

definition stamp :: "(nat \<Rightarrow> system_time) \<Rightarrow> host_findings \<Rightarrow> host_batch" where
  "stamp clock b =
     (let read = (\<lambda>start n. map clock [start..<start + n]);
          n1 = hf_overflows b; n2 = n1 + length (hf_fim b); n3 = n2 + length (hf_auth b)
      in \<lparr>hb_fim = zip (hf_fim b) (read n1 (length (hf_fim b))), hb_auth = zip (hf_auth b) (read n2 (length (hf_auth b))),
          hb_process = zip (hf_process b) (read n3 (length (hf_process b))), hb_overflows = read 0 n1\<rparr>)"

text \<open>One poll with its findings handled: the state, and whether the sensor found something and has scanned its baseline.\<close>

definition poll_and_emit :: "surroundings \<Rightarrow> host_sensor \<Rightarrow> sensor_run \<Rightarrow> (sensor_run \<times> bool \<times> bool) option" where
  "poll_and_emit E s st =
     (let env = en_polls E (sr_polls st);
          (s, b) = poll_at (en_json E) (en_lossy E) (en_show_socket E) (pe_view env) (pe_now env) (arrive env s)
      in map_option (\<lambda>pl. (st\<lparr>sr_pipeline := pl, sr_host := Some s, sr_polls := Suc (sr_polls st)\<rparr>,
             \<not> findings_empty b \<or> 0 < hf_overflows b, 0 < st_rescans (hs_stats s)))
           (emit_host_batch (stamp (pe_times env) b) (sr_pipeline st)))"

definition service_host :: "surroundings \<Rightarrow> sensor_run \<Rightarrow> sensor_run option" where
  "service_host E st = (case sr_host st of
       None \<Rightarrow> Some st
     | Some s \<Rightarrow> map_option fst (poll_and_emit E s st))"

datatype 'a outcome = Returned 'a | StillRunning | Panicked

fun and_then :: "'a outcome \<Rightarrow> ('a \<Rightarrow> 'b outcome) \<Rightarrow> 'b outcome" where
  "and_then (Returned x) f = f x"
| "and_then StillRunning f = StillRunning"
| "and_then Panicked f = Panicked"

definition no_panic :: "'a option \<Rightarrow> 'a outcome" where
  "no_panic x = (case x of None \<Rightarrow> Panicked | Some y \<Rightarrow> Returned y)"

fun drain_loop :: "surroundings \<Rightarrow> instant \<Rightarrow> nat \<Rightarrow> sensor_run \<Rightarrow> sensor_run outcome" where
  "drain_loop E until 0 st = StillRunning"
| "drain_loop E until (Suc fuel) st = (case sr_host st of
       None \<Rightarrow> Returned st
     | Some s \<Rightarrow> and_then (no_panic (poll_and_emit E s st)) (\<lambda>(st', seen_something, baseline_ready).
         if seen_something \<and> baseline_ready \<or> until \<le> pe_after (en_polls E (sr_polls st)) then Returned st' else drain_loop E until fuel st'))"

definition drain_host :: "surroundings \<Rightarrow> duration \<Rightarrow> nat \<Rightarrow> sensor_run \<Rightarrow> sensor_run outcome" where
  "drain_host E deadline fuel st =
     (if sr_host st = None then Returned st else drain_loop E (pe_before (en_polls E (sr_polls st)) + deadline) fuel st)"

section \<open>Publishing\<close>

definition read_depth :: "queue_depth_line option \<Rightarrow> packet_pipeline \<Rightarrow> packet_pipeline" where
  "read_depth depth pl = (if pl_poisoned pl then pl
     else pl\<lparr>pl_prevention := map_option (\<lambda>p. case depth of None \<Rightarrow> p | Some d \<Rightarrow> record_queue_depth p d) (pl_prevention pl)\<rparr>)"

definition publish :: "surroundings \<Rightarrow> capture_counters \<Rightarrow> sensor_run \<Rightarrow> sensor_run" where
  "publish E capture st =
     (let pl = read_depth (en_depth E (sr_publications st)) (sr_pipeline st);
          flows = pl_flows pl
      in st\<lparr>sr_pipeline := pl, sr_publications := Suc (sr_publications st),
           sr_snapshot := \<lparr>sp_source = sr_source st, sp_capture = capture, sp_decode = pl_decode pl, sp_flows = ft_counters flows,
             sp_active_flows = flow_len flows, sp_flow_capacity = max_flows (ft_limits flows), sp_defrag = df_counters (pl_defrag pl),
             sp_active_fragment_sets = active_sets (pl_defrag pl),
             sp_streams = (table_stream_counters flows)\<lparr>sc_bytes_delivered := pl_stream_bytes_delivered pl\<rparr>,
             sp_stream_bytes_buffered = ft_stream_bytes flows,
             sp_engine = (case pl_engine pl of None \<Rightarrow> zero_counters | Some e \<Rightarrow> engine_counters_now e), sp_rules = sr_rules st,
             sp_hids = (map_option hs_stats (sr_host st), pl_host_alerts pl),
             sp_prevent = (if pl_poisoned pl then default_prevent_stats
               else case pl_prevention pl of None \<Rightarrow> default_prevent_stats | Some p \<Rightarrow> prevention_stats p),
             sp_correlation = map_option co_stats (pl_correlator pl), sp_capture_truncated = sp_capture_truncated (sr_snapshot st)\<rparr>\<rparr>)"

section \<open>The loops\<close>

definition publish_every_packets :: nat where "publish_every_packets = 1024"
definition host_drain :: duration where "host_drain = secs 5"

definition no_capture :: capture_counters where
  "no_capture = \<lparr>cc_packets = 0, cc_bytes = 0, cc_drops = 0, cc_interface_drops = 0\<rparr>"

text \<open>The rounds of \<open>run_packet_loop\<close>, and then the whole: the error that stopped the capture, if one did, the source and the state.\<close>

fun packet_rounds :: "surroundings \<Rightarrow> ('s \<Rightarrow> (capture_error + captured) \<times> 's) \<Rightarrow> ('s \<Rightarrow> capture_counters) \<Rightarrow> (nat \<Rightarrow> bool) \<Rightarrow> nat \<Rightarrow> nat \<Rightarrow> nat \<Rightarrow>
    's \<Rightarrow> sensor_run \<Rightarrow> (capture_error option \<times> 's \<times> sensor_run) outcome" where
  "packet_rounds E next_frame counters shutdown 0 round seen src st = StillRunning"
| "packet_rounds E next_frame counters shutdown (Suc fuel) round seen src st =
     (if shutdown round then Returned (None, src, st)
      else case next_frame src of
          (Inr (Frame frame), src) \<Rightarrow> and_then (no_panic (on_packet (en_parsers E) frame (sr_pipeline st))) (\<lambda>pl.
            let st = st\<lparr>sr_pipeline := pl\<rparr>; seen = Suc seen in
            if seen mod publish_every_packets = 0
            then and_then (no_panic (service_host E st)) (\<lambda>st.
              packet_rounds E next_frame counters shutdown fuel (Suc round) seen src (publish E (counters src) st))
            else packet_rounds E next_frame counters shutdown fuel (Suc round) seen src st)
        | (Inr IdleSource, src) \<Rightarrow> and_then (no_panic (service_host E st)) (\<lambda>st.
            packet_rounds E next_frame counters shutdown fuel (Suc round) seen src (publish E (counters src) st))
        | (Inr EndOfSource, src) \<Rightarrow> Returned (None, src, st)
        | (Inl e, src) \<Rightarrow> Returned (Some e, src, st))"

definition mark_truncated :: "bool \<Rightarrow> sensor_run \<Rightarrow> sensor_run" where
  "mark_truncated torn st = (if torn then st\<lparr>sr_snapshot := (sr_snapshot st)\<lparr>sp_capture_truncated := True\<rparr>\<rparr> else st)"

definition run_packet_loop :: "surroundings \<Rightarrow> ('s \<Rightarrow> (capture_error + captured) \<times> 's) \<Rightarrow> ('s \<Rightarrow> capture_counters) \<Rightarrow> ('s \<Rightarrow> bool) \<Rightarrow>
    (nat \<Rightarrow> bool) \<Rightarrow> nat \<Rightarrow> nat \<Rightarrow> 's \<Rightarrow> sensor_run \<Rightarrow> (capture_error option \<times> 's \<times> sensor_run) outcome" where
  "run_packet_loop E next_frame counters torn shutdown fuel drain_fuel src st =
     and_then (packet_rounds E next_frame counters shutdown fuel 0 0 src st) (\<lambda>(e, src, st).
     and_then (no_panic (flush_pipeline (sr_pipeline st))) (\<lambda>pl.
     and_then (drain_host E host_drain drain_fuel (st\<lparr>sr_pipeline := pl\<rparr>)) (\<lambda>st.
       Returned (e, src, mark_truncated (torn src) (publish E (counters src) st)))))"

fun host_rounds :: "surroundings \<Rightarrow> (nat \<Rightarrow> bool) \<Rightarrow> nat \<Rightarrow> nat \<Rightarrow> sensor_run \<Rightarrow> sensor_run outcome" where
  "host_rounds E shutdown 0 round st = StillRunning"
| "host_rounds E shutdown (Suc fuel) round st =
     (if shutdown round then Returned st
      else and_then (no_panic (service_host E st)) (\<lambda>st. host_rounds E shutdown fuel (Suc round) (publish E no_capture st)))"

definition host_only_loop :: "surroundings \<Rightarrow> (nat \<Rightarrow> bool) \<Rightarrow> nat \<Rightarrow> nat \<Rightarrow> sensor_run \<Rightarrow> sensor_run outcome" where
  "host_only_loop E shutdown fuel drain_fuel st =
     and_then (host_rounds E shutdown fuel 0 st) (\<lambda>st.
     and_then (drain_host E host_drain drain_fuel st) (\<lambda>st. Returned (publish E no_capture st)))"

section \<open>The loops as runs of the pipeline\<close>

datatype sensor_op = Op pipeline_op | QueueRead "queue_depth_line option"

fun sensor_step :: "ether_parsers \<Rightarrow> packet_pipeline option \<Rightarrow> sensor_op \<Rightarrow> packet_pipeline option" where
  "sensor_step P pl (Op op) = pipeline_step P pl op"
| "sensor_step P pl (QueueRead depth) = map_option (read_depth depth) pl"

definition runs :: "ether_parsers \<Rightarrow> packet_pipeline \<Rightarrow> sensor_op list \<Rightarrow> packet_pipeline \<Rightarrow> bool" where
  "runs P pl ops pl' \<longleftrightarrow> foldl (sensor_step P) (Some pl) ops = Some pl'"

fun frames_of :: "sensor_op list \<Rightarrow> raw_packet list" where
  "frames_of [] = []"
| "frames_of (Op (PacketIn f) # ops) = f # frames_of ops"
| "frames_of (_ # ops) = frames_of ops"

lemma frames_of_append [simp]: "frames_of (xs @ ys) = frames_of xs @ frames_of ys"
  by (induction xs rule: frames_of.induct) simp_all

lemma runs_nil [simp]: "runs P pl [] pl' \<longleftrightarrow> pl' = pl"
  by (auto simp: runs_def)

lemma runs_one: "runs P pl [op] pl' \<longleftrightarrow> sensor_step P (Some pl) op = Some pl'"
  by (simp add: runs_def)

lemma runs_trans: "runs P pl xs pl1 \<Longrightarrow> runs P pl1 ys pl2 \<Longrightarrow> runs P pl (xs @ ys) pl2"
  by (simp add: runs_def)

text \<open>Between the packets there are only host batches and readings of the queue.\<close>

fun beside :: "sensor_op \<Rightarrow> bool" where
  "beside (Op (BatchIn _)) = True"
| "beside (QueueRead _) = True"
| "beside _ = False"

lemma beside_no_frames: "list_all beside ops \<Longrightarrow> frames_of ops = []"
  by (induction ops rule: frames_of.induct) simp_all

text \<open>What host batches and queue readings leave alone.\<close>

definition untouched :: "packet_pipeline \<Rightarrow> packet_pipeline \<Rightarrow> bool" where
  "untouched pl pl' \<longleftrightarrow> pl_flows pl' = pl_flows pl \<and> pl_decode pl' = pl_decode pl \<and> pl_options pl' = pl_options pl"

lemma read_depth_fields [simp]:
  "pl_flows (read_depth d pl) = pl_flows pl" "pl_decode (read_depth d pl) = pl_decode pl" "pl_options (read_depth d pl) = pl_options pl"
  "pl_engine (read_depth d pl) = pl_engine pl" "pl_correlator (read_depth d pl) = pl_correlator pl" "pl_defrag (read_depth d pl) = pl_defrag pl"
  "pl_events (read_depth d pl) = pl_events pl"
  by (simp_all add: read_depth_def)

lemma read_depth_ok: "pipeline_ok pl \<Longrightarrow> pipeline_ok (read_depth d pl)"
  by (simp add: pipeline_ok_def tracking_ok_def detection_ok_def flows_reported_def)

lemma beside_ok: "list_all beside ops \<Longrightarrow> pipeline_ok pl \<Longrightarrow> \<exists>pl'. runs P pl ops pl' \<and> pipeline_ok pl' \<and> untouched pl pl'"
proof (induction ops arbitrary: pl)
  case (Cons op ops)
  have "\<exists>pl1. runs P pl [op] pl1 \<and> pipeline_ok pl1 \<and> untouched pl pl1"
  proof (cases op)
    case (Op b)
    with Cons.prems obtain batch where "b = BatchIn batch" by (cases b) auto
    with Op batch_ok [OF Cons.prems(2), of batch] show ?thesis by (auto simp: runs_one untouched_def detected_def)
  next
    case (QueueRead d)
    with read_depth_ok [OF Cons.prems(2), of d] show ?thesis by (auto simp: runs_one untouched_def)
  qed
  then obtain pl1 where 1: "runs P pl [op] pl1" "pipeline_ok pl1" "untouched pl pl1" by blast
  with Cons.IH [OF _ 1(2)] Cons.prems(1) runs_trans [OF 1(1)] show ?case by (fastforce simp: untouched_def)
qed (auto simp: untouched_def)

lemma run_counts:
  "pipeline_ok pl \<Longrightarrow> \<exists>pl'. runs P pl ops pl' \<and> pipeline_ok pl' \<and> pl_options pl' = pl_options pl \<and>
    dk_packets (pl_decode pl') = dk_packets (pl_decode pl) + length (frames_of ops)"
proof (induction ops arbitrary: pl)
  case (Cons op ops)
  have "\<exists>pl1. runs P pl [op] pl1 \<and> pipeline_ok pl1 \<and> pl_options pl1 = pl_options pl \<and>
      dk_packets (pl_decode pl1) = dk_packets (pl_decode pl) + length (frames_of [op])"
  proof (cases "beside op")
    case True
    then show ?thesis using beside_ok [of "[op]" pl P] Cons.prems beside_no_frames [of "[op]"] by (auto simp: untouched_def)
  next
    case False
    then show ?thesis using packet_ok [OF Cons.prems, of P] flush_ok [OF Cons.prems]
      by (cases op rule: beside.cases) (auto simp: runs_one)
  qed
  then obtain pl1 where 1: "runs P pl [op] pl1" "pipeline_ok pl1" "pl_options pl1 = pl_options pl"
      "dk_packets (pl_decode pl1) = dk_packets (pl_decode pl) + length (frames_of [op])" by blast
  obtain pl2 where "runs P pl1 ops pl2" "pipeline_ok pl2" "pl_options pl2 = pl_options pl1"
      "dk_packets (pl_decode pl2) = dk_packets (pl_decode pl1) + length (frames_of ops)"
    using Cons.IH [OF 1(2)] by blast
  with 1 runs_trans [OF 1(1)] frames_of_append [of "[op]" ops] show ?case by force
qed auto

lemma poll_run:
  "poll_and_emit E s st = Some (st', x, y) \<Longrightarrow>
   (\<exists>ops. list_all beside ops \<and> runs P (sr_pipeline st) ops (sr_pipeline st')) \<and> sr_polls st' = Suc (sr_polls st) \<and> sr_host st' \<noteq> None"
proof -
  assume p: "poll_and_emit E s st = Some (st', x, y)"
  let ?env = "en_polls E (sr_polls st)"
  obtain s1 f where "poll_at (en_json E) (en_lossy E) (en_show_socket E) (pe_view ?env) (pe_now ?env) (arrive ?env s) = (s1, f)" by (metis surj_pair)
  then have b: "emit_host_batch (stamp (pe_times ?env) f) (sr_pipeline st) = Some (sr_pipeline st')" "sr_polls st' = Suc (sr_polls st)" "sr_host st' \<noteq> None"
    using p by (auto simp: poll_and_emit_def Let_def)
  then have "runs P (sr_pipeline st) [Op (BatchIn (stamp (pe_times ?env) f))] (sr_pipeline st')" by (simp add: runs_one)
  with b show ?thesis by (intro conjI exI [of _ "[Op (BatchIn (stamp (pe_times ?env) f))]"]) simp_all
qed

lemma poll_returns: "pipeline_ok (sr_pipeline st) \<Longrightarrow> \<exists>st' x y. poll_and_emit E s st = Some (st', x, y)"
  using batch_ok by (fastforce simp: poll_and_emit_def Let_def split_def)

lemma service_run:
  "service_host E st = Some st' \<Longrightarrow> \<exists>ops. list_all beside ops \<and> runs P (sr_pipeline st) ops (sr_pipeline st')"
  using poll_run by (fastforce simp: service_host_def intro: exI [of _ "[]"] split: option.splits)

lemma service_returns: "pipeline_ok (sr_pipeline st) \<Longrightarrow> \<exists>st'. service_host E st = Some st'"
  using poll_returns by (fastforce simp: service_host_def split: option.split)

lemma publish_run: "runs P (sr_pipeline st) [QueueRead (en_depth E (sr_publications st))] (sr_pipeline (publish E c st))"
  by (simp add: runs_one publish_def Let_def)

text \<open>Servicing the host and publishing.\<close>

lemma serviced:
  assumes "service_host E st = Some st1"
  shows "\<exists>ops. list_all beside ops \<and> runs P (sr_pipeline st) ops (sr_pipeline (publish E c st1))"
proof -
  obtain ops where "list_all beside ops" "runs P (sr_pipeline st) ops (sr_pipeline st1)" using service_run [OF assms] by blast
  then show ?thesis using runs_trans [OF _ publish_run] by (intro exI [of _ "ops @ [QueueRead (en_depth E (sr_publications st1))]"]) auto
qed

lemma drain_loop_run:
  "drain_loop E until fuel st = Returned st' \<Longrightarrow> \<exists>ops. list_all beside ops \<and> runs P (sr_pipeline st) ops (sr_pipeline st')"
proof (induction fuel arbitrary: st)
  case (Suc fuel)
  show ?case
  proof (cases "sr_host st")
    case None
    then show ?thesis using Suc.prems by (auto intro: exI [of _ "[]"])
  next
    case (Some s)
    then obtain st1 x y where p: "poll_and_emit E s st = Some (st1, x, y)"
      using Suc.prems by (cases "poll_and_emit E s st") (auto simp: no_panic_def)
    obtain ops where ops: "list_all beside ops" "runs P (sr_pipeline st) ops (sr_pipeline st1)" using poll_run [OF p] by blast
    show ?thesis
    proof (cases "st' = st1")
      case True
      with ops show ?thesis by blast
    next
      case False
      then have "drain_loop E until fuel st1 = Returned st'" using Suc.prems Some p by (auto simp: no_panic_def split: if_splits)
      with Suc.IH obtain ops' where "list_all beside ops'" "runs P (sr_pipeline st1) ops' (sr_pipeline st')" by blast
      with ops runs_trans show ?thesis by (intro exI [of _ "ops @ ops'"]) auto
    qed
  qed
qed simp

lemma drain_host_run:
  "drain_host E deadline fuel st = Returned st' \<Longrightarrow> \<exists>ops. list_all beside ops \<and> runs P (sr_pipeline st) ops (sr_pipeline st')"
  using drain_loop_run by (fastforce simp: drain_host_def intro: exI [of _ "[]"] split: if_splits)

text \<open>Draining ends when the clock has passed its deadline.\<close>

lemma drain_loop_returns:
  "pipeline_ok (sr_pipeline st) \<Longrightarrow> until \<le> pe_after (en_polls E (sr_polls st + n)) \<Longrightarrow> n < fuel \<Longrightarrow> \<exists>st'. drain_loop E until fuel st = Returned st'"
proof (induction fuel arbitrary: st n)
  case (Suc fuel)
  show ?case
  proof (cases "sr_host st")
    case (Some s)
    obtain st1 x y where p: "poll_and_emit E s st = Some (st1, x, y)" using poll_returns [OF Suc.prems(1)] by blast
    obtain ops where ops: "list_all beside ops" "runs (en_parsers E) (sr_pipeline st) ops (sr_pipeline st1)" and k: "sr_polls st1 = Suc (sr_polls st)"
      using poll_run [OF p] by blast
    have ok: "pipeline_ok (sr_pipeline st1)"
      using beside_ok [OF ops(1) Suc.prems(1), of "en_parsers E"] ops(2) by (auto simp: runs_def)
    show ?thesis
    proof (cases n)
      case 0
      then show ?thesis using Suc.prems(2) Some p by (simp add: no_panic_def)
    next
      case (Suc m)
      then show ?thesis using Suc.IH [OF ok, of m] Suc.prems(2,3) Some p k by (auto simp: no_panic_def)
    qed
  qed simp
qed simp

lemma drain_host_returns:
  assumes "pipeline_ok (sr_pipeline st)" and "pe_before (en_polls E (sr_polls st)) + deadline \<le> pe_after (en_polls E (sr_polls st + n))" and "n < fuel"
  shows "\<exists>st'. drain_host E deadline fuel st = Returned st'"
  using drain_loop_returns [OF assms] by (simp add: drain_host_def)

section \<open>Packet sources\<close>

text \<open>What the loop relies on: the frames still to come are handed over one by one, an idle poll loses none, the source is at its end or
  has failed only when none is left, and its counter counts the frames it handed over.\<close>

locale packet_source =
  fixes next_frame :: "'s \<Rightarrow> (capture_error + captured) \<times> 's"
    and counters :: "'s \<Rightarrow> capture_counters"
    and to_come :: "'s \<Rightarrow> raw_packet list"
  assumes frame_next: "next_frame s = (Inr (Frame f), s') \<Longrightarrow> to_come s = f # to_come s' \<and> cc_packets (counters s') = Suc (cc_packets (counters s))"
    and idle_next: "next_frame s = (Inr IdleSource, s') \<Longrightarrow> to_come s' = to_come s \<and> cc_packets (counters s') = cc_packets (counters s)"
    and end_next: "next_frame s = (Inr EndOfSource, s') \<Longrightarrow> to_come s = [] \<and> cc_packets (counters s') = cc_packets (counters s)"
    and error_next: "next_frame s = (Inl e, s') \<Longrightarrow> to_come s = [] \<and> cc_packets (counters s') = cc_packets (counters s)"
begin

lemma rounds_run:
  "packet_rounds E next_frame counters shutdown fuel round seen src st = Returned (e, src', st') \<Longrightarrow>
   \<exists>ops rest. runs (en_parsers E) (sr_pipeline st) ops (sr_pipeline st') \<and> to_come src = frames_of ops @ rest \<and>
     ((\<forall>k. \<not> shutdown k) \<longrightarrow> rest = []) \<and> cc_packets (counters src') = cc_packets (counters src) + length (frames_of ops)"
proof (induction fuel arbitrary: round seen src st)
  case (Suc fuel)
  show ?case
  proof (cases "shutdown round")
    case True
    then show ?thesis using Suc.prems by (intro exI [of _ "[]"] exI [of _ "to_come src"]) auto
  next
    case go: False
    obtain res src1 where n: "next_frame src = (res, src1)" by (metis surj_pair)
    consider (frame) f where "res = Inr (Frame f)" | (idle) "res = Inr IdleSource" | (stop) "res = Inr EndOfSource \<or> (\<exists>e. res = Inl e)"
      by (cases res; simp; metis captured.exhaust)
    then show ?thesis
    proof cases
      case frame
      obtain pl where pl: "on_packet (en_parsers E) f (sr_pipeline st) = Some pl"
        using Suc.prems go n frame by (cases "on_packet (en_parsers E) f (sr_pipeline st)") (auto simp: no_panic_def)
      let ?st = "st\<lparr>sr_pipeline := pl\<rparr>"
      have 1: "runs (en_parsers E) (sr_pipeline st) [Op (PacketIn f)] (sr_pipeline ?st)" using pl by (simp add: runs_one)
      note t = frame_next [OF n [unfolded frame]]
      obtain st1 seen1 ops1 where r: "packet_rounds E next_frame counters shutdown fuel (Suc round) seen1 src1 st1 = Returned (e, src', st')"
        and ops1: "list_all beside ops1" "runs (en_parsers E) (sr_pipeline ?st) ops1 (sr_pipeline st1)"
      proof (cases "Suc seen mod publish_every_packets = 0")
        case True
        obtain st2 where st2: "service_host E ?st = Some st2"
          using Suc.prems go n frame pl True by (cases "service_host E ?st") (auto simp: no_panic_def Let_def)
        obtain ops2 where "list_all beside ops2" "runs (en_parsers E) (sr_pipeline ?st) ops2 (sr_pipeline (publish E (counters src1) st2))"
          using serviced [OF st2] by blast
        with st2 Suc.prems go n frame pl True that show thesis by (auto simp: no_panic_def Let_def)
      next
        case False
        with Suc.prems go n frame pl that [of "Suc seen" ?st "[]"] show thesis by (simp add: no_panic_def Let_def)
      qed
      from Suc.IH [OF r] obtain ops rest where i: "runs (en_parsers E) (sr_pipeline st1) ops (sr_pipeline st')" "to_come src1 = frames_of ops @ rest"
          "(\<forall>k. \<not> shutdown k) \<longrightarrow> rest = []" "cc_packets (counters src') = cc_packets (counters src1) + length (frames_of ops)" by blast
      have "runs (en_parsers E) (sr_pipeline st) ([Op (PacketIn f)] @ ops1 @ ops) (sr_pipeline st')" using runs_trans [OF 1 runs_trans [OF ops1(2) i(1)]] .
      with i t beside_no_frames [OF ops1(1)] show ?thesis by (intro exI [of _ "[Op (PacketIn f)] @ ops1 @ ops"] exI [of _ rest]) simp
    next
      case idle
      obtain st2 where st2: "service_host E st = Some st2"
        using Suc.prems go n idle by (cases "service_host E st") (auto simp: no_panic_def)
      obtain ops1 where ops1: "list_all beside ops1" "runs (en_parsers E) (sr_pipeline st) ops1 (sr_pipeline (publish E (counters src1) st2))"
        using serviced [OF st2] by blast
      have "packet_rounds E next_frame counters shutdown fuel (Suc round) seen src1 (publish E (counters src1) st2) = Returned (e, src', st')"
        using Suc.prems go n idle st2 by (simp add: no_panic_def)
      from Suc.IH [OF this] obtain ops rest where i: "runs (en_parsers E) (sr_pipeline (publish E (counters src1) st2)) ops (sr_pipeline st')"
          "to_come src1 = frames_of ops @ rest" "(\<forall>k. \<not> shutdown k) \<longrightarrow> rest = []"
          "cc_packets (counters src') = cc_packets (counters src1) + length (frames_of ops)" by blast
      with idle_next [OF n [unfolded idle]] beside_no_frames [OF ops1(1)] runs_trans [OF ops1(2) i(1)] show ?thesis
        by (intro exI [of _ "ops1 @ ops"] exI [of _ rest]) simp
    next
      case stop
      then show ?thesis using Suc.prems go n end_next error_next by (fastforce intro: exI [of _ "[]"])
    qed
  qed
qed simp

lemma loop_run:
  assumes "run_packet_loop E next_frame counters torn shutdown fuel drain_fuel src st = Returned (e, src', st')"
  shows "\<exists>before after rest. runs (en_parsers E) (sr_pipeline st) (before @ [Op FlushAll] @ after) (sr_pipeline st') \<and> list_all beside after \<and>
    to_come src = frames_of before @ rest \<and> ((\<forall>k. \<not> shutdown k) \<longrightarrow> rest = []) \<and>
    cc_packets (sp_capture (sr_snapshot st')) = cc_packets (counters src) + length (frames_of before)"
proof -
  obtain e1 src1 st1 where r: "packet_rounds E next_frame counters shutdown fuel 0 0 src st = Returned (e1, src1, st1)"
    using assms by (cases "packet_rounds E next_frame counters shutdown fuel 0 0 src st") (auto simp: run_packet_loop_def)
  obtain pl where f: "flush_pipeline (sr_pipeline st1) = Some pl"
    using assms r by (cases "flush_pipeline (sr_pipeline st1)") (auto simp: run_packet_loop_def no_panic_def)
  obtain st2 where d: "drain_host E host_drain drain_fuel (st1\<lparr>sr_pipeline := pl\<rparr>) = Returned st2"
    using assms r f by (cases "drain_host E host_drain drain_fuel (st1\<lparr>sr_pipeline := pl\<rparr>)") (auto simp: run_packet_loop_def no_panic_def)
  have st': "st' = mark_truncated (torn src1) (publish E (counters src1) st2)"
    using assms r f d by (auto simp: run_packet_loop_def no_panic_def)
  obtain before rest where b: "runs (en_parsers E) (sr_pipeline st) before (sr_pipeline st1)" "to_come src = frames_of before @ rest"
      "(\<forall>k. \<not> shutdown k) \<longrightarrow> rest = []" "cc_packets (counters src1) = cc_packets (counters src) + length (frames_of before)"
    using rounds_run [OF r] by blast
  obtain after where a: "list_all beside after" "runs (en_parsers E) pl after (sr_pipeline st2)"
    using drain_host_run [OF d] by auto
  let ?q = "[QueueRead (en_depth E (sr_publications st2))]"
  have "runs (en_parsers E) (sr_pipeline st1) [Op FlushAll] pl" using f by (simp add: runs_one)
  moreover have "runs (en_parsers E) (sr_pipeline st2) ?q (sr_pipeline st')"
    using publish_run [of "en_parsers E" st2 E] by (simp add: st' mark_truncated_def)
  ultimately have "runs (en_parsers E) (sr_pipeline st) (before @ [Op FlushAll] @ (after @ ?q)) (sr_pipeline st')"
    using b(1) a(2) runs_trans by metis
  moreover have "cc_packets (sp_capture (sr_snapshot st')) = cc_packets (counters src1)"
    by (simp add: st' mark_truncated_def publish_def Let_def)
  ultimately show ?thesis using a(1) b by (intro exI [of _ before] exI [of _ "after @ ?q"] exI [of _ rest]) simp
qed

end

section \<open>The loops return\<close>

lemma beside_keeps:
  "list_all beside ops \<Longrightarrow> runs P pl ops pl' \<Longrightarrow> pipeline_ok pl \<Longrightarrow> pipeline_ok pl' \<and> untouched pl pl'"
  using beside_ok [of ops pl P] by (auto simp: runs_def)

lemma serviced_returns:
  assumes "pipeline_ok (sr_pipeline st)"
  shows "\<exists>st1. service_host E st = Some st1 \<and> pipeline_ok (sr_pipeline (publish E c st1))"
proof -
  obtain st1 where s: "service_host E st = Some st1" using service_returns [OF assms] by blast
  obtain ops where "list_all beside ops" "runs (en_parsers E) (sr_pipeline st) ops (sr_pipeline (publish E c st1))" using serviced [OF s] by blast
  with beside_keeps [OF _ _ assms] s show ?thesis by blast
qed

text \<open>One round: it is the last one, or the loop goes on with one round less to run.\<close>

lemma round_step:
  assumes "pipeline_ok (sr_pipeline st)" and "next_frame src = (res, src1)"
  shows "res = Inr EndOfSource \<or> (\<exists>e. res = Inl e) \<Longrightarrow> \<exists>e st'. packet_rounds E next_frame counters shutdown (Suc fuel) round seen src st = Returned (e, st') \<and>
      pipeline_ok (sr_pipeline (snd st'))"
    and "res = Inr IdleSource \<or> (\<exists>f. res = Inr (Frame f)) \<Longrightarrow> \<not> shutdown round \<Longrightarrow> \<exists>seen' st'.
      packet_rounds E next_frame counters shutdown (Suc fuel) round seen src st = packet_rounds E next_frame counters shutdown fuel (Suc round) seen' src1 st' \<and>
      pipeline_ok (sr_pipeline st')"
proof -
  show "\<exists>e st'. packet_rounds E next_frame counters shutdown (Suc fuel) round seen src st = Returned (e, st') \<and> pipeline_ok (sr_pipeline (snd st'))"
    if "res = Inr EndOfSource \<or> (\<exists>e. res = Inl e)"
    using that assms by auto
next
  assume go: "\<not> shutdown round" and "res = Inr IdleSource \<or> (\<exists>f. res = Inr (Frame f))"
  then show "\<exists>seen' st'. packet_rounds E next_frame counters shutdown (Suc fuel) round seen src st =
      packet_rounds E next_frame counters shutdown fuel (Suc round) seen' src1 st' \<and> pipeline_ok (sr_pipeline st')"
  proof (elim disjE exE)
    assume "res = Inr IdleSource"
    moreover obtain st1 where "service_host E st = Some st1" "pipeline_ok (sr_pipeline (publish E (counters src1) st1))"
      using serviced_returns [OF assms(1), of E "counters src1"] by blast
    ultimately show ?thesis using assms(2) go by (intro exI [of _ seen] exI [of _ "publish E (counters src1) st1"]) (simp add: no_panic_def)
  next
    fix f assume f: "res = Inr (Frame f)"
    obtain pl where pl: "on_packet (en_parsers E) f (sr_pipeline st) = Some pl" "pipeline_ok pl" using packet_ok [OF assms(1)] by blast
    let ?st = "st\<lparr>sr_pipeline := pl\<rparr>"
    have ok: "pipeline_ok (sr_pipeline ?st)" using pl(2) by simp
    obtain st1 where "service_host E ?st = Some st1" "pipeline_ok (sr_pipeline (publish E (counters src1) st1))"
      using serviced_returns [OF ok, of E "counters src1"] by blast
    with pl ok f assms(2) go show ?thesis
      by (intro exI [of _ "Suc seen"] exI [of _ "if Suc seen mod publish_every_packets = 0 then publish E (counters src1) st1 else ?st"])
        (simp add: no_panic_def Let_def)
  qed
qed

lemma rounds_return:
  "pipeline_ok (sr_pipeline st) \<Longrightarrow> shutdown (round + k) \<Longrightarrow> k < fuel \<Longrightarrow>
   \<exists>e src' st'. packet_rounds E next_frame counters shutdown fuel round seen src st = Returned (e, src', st') \<and> pipeline_ok (sr_pipeline st')"
proof (induction fuel arbitrary: round seen src st k)
  case (Suc fuel)
  obtain res src1 where n: "next_frame src = (res, src1)" by (metis surj_pair)
  show ?case
  proof (cases "shutdown round \<or> res = Inr EndOfSource \<or> (\<exists>e. res = Inl e)")
    case True
    then show ?thesis
      using Suc.prems(1) round_step(1) [where next_frame = next_frame, OF Suc.prems(1) n, of E counters shutdown fuel round seen] by auto
  next
    case False
    then have "res = Inr IdleSource \<or> (\<exists>f. res = Inr (Frame f))" by (cases res; simp; metis captured.exhaust)
    then obtain seen' st1 where s: "packet_rounds E next_frame counters shutdown (Suc fuel) round seen src st =
        packet_rounds E next_frame counters shutdown fuel (Suc round) seen' src1 st1" "pipeline_ok (sr_pipeline st1)"
      using round_step(2) [where next_frame = next_frame, OF Suc.prems(1) n] False by blast
    obtain j where "k = Suc j" using False Suc.prems(2) by (cases k) auto
    with Suc.IH [OF s(2), of "Suc round" j] Suc.prems(2,3) s(1) show ?thesis by auto
  qed
qed simp

text \<open>A source that is never idle, such as a file, ends the loop by itself.\<close>

locale file_source = packet_source next_frame counters to_come
  for next_frame :: "'s \<Rightarrow> (capture_error + captured) \<times> 's" and counters and to_come +
  assumes never_waits: "next_frame s \<noteq> (Inr IdleSource, s')"
begin

lemma file_rounds_return:
  "pipeline_ok (sr_pipeline st) \<Longrightarrow> length (to_come src) < fuel \<Longrightarrow>
   \<exists>e src' st'. packet_rounds E next_frame counters shutdown fuel round seen src st = Returned (e, src', st') \<and> pipeline_ok (sr_pipeline st')"
proof (induction fuel arbitrary: round seen src st)
  case (Suc fuel)
  obtain res src1 where n: "next_frame src = (res, src1)" by (metis surj_pair)
  show ?case
  proof (cases "shutdown round \<or> res = Inr EndOfSource \<or> (\<exists>e. res = Inl e)")
    case True
    then show ?thesis
      using Suc.prems(1) round_step(1) [where next_frame = next_frame, OF Suc.prems(1) n, of E counters shutdown fuel round seen] by auto
  next
    case False
    then have "\<exists>f. res = Inr (Frame f)" using never_waits n by (cases res; simp; metis captured.exhaust)
    then obtain f where f: "res = Inr (Frame f)" by blast
    then obtain seen' st1 where s: "packet_rounds E next_frame counters shutdown (Suc fuel) round seen src st =
        packet_rounds E next_frame counters shutdown fuel (Suc round) seen' src1 st1" "pipeline_ok (sr_pipeline st1)"
      using round_step(2) [where next_frame = next_frame, OF Suc.prems(1) n] False by blast
    have "length (to_come src1) < fuel" using frame_next [OF n [unfolded f]] Suc.prems(2) by simp
    with Suc.IH [OF s(2)] s(1) show ?thesis by simp
  qed
qed simp

end

abbreviation torn_flag :: "sensor_run \<Rightarrow> bool" where
  "torn_flag st \<equiv> sp_capture_truncated (sr_snapshot st)"

lemma publish_fields [simp]:
  "torn_flag (publish E c st) = torn_flag st" "sr_polls (publish E c st) = sr_polls st" "sr_host (publish E c st) = sr_host st"
  "sp_capture (sr_snapshot (publish E c st)) = c" "sp_decode (sr_snapshot (publish E c st)) = pl_decode (sr_pipeline st)"
  "sp_flows (sr_snapshot (publish E c st)) = ft_counters (pl_flows (sr_pipeline st))"
  by (simp_all add: publish_def Let_def)

lemma poll_snapshot: "poll_and_emit E s st = Some (st', x) \<Longrightarrow> sr_snapshot st' = sr_snapshot st"
  by (auto simp: poll_and_emit_def Let_def split: prod.splits)

lemma service_snapshot: "service_host E st = Some st' \<Longrightarrow> sr_snapshot st' = sr_snapshot st"
  using poll_snapshot by (fastforce simp: service_host_def split: option.splits)

lemma drain_snapshot: "drain_loop E until fuel st = Returned st' \<Longrightarrow> sr_snapshot st' = sr_snapshot st"
proof (induction fuel arbitrary: st)
  case (Suc fuel)
  show ?case
  proof (cases "sr_host st")
    case (Some s)
    show ?thesis
    proof (cases "poll_and_emit E s st")
      case (Some x)
      then show ?thesis using Suc.prems Suc.IH poll_snapshot \<open>sr_host st = Some s\<close>
        by (cases x) (fastforce simp: no_panic_def split: if_splits)
    qed (use Some Suc.prems in \<open>simp add: no_panic_def\<close>)
  qed (use Suc.prems in simp)
qed simp

text \<open>Rounds leave the mark of a torn file as it was; only the end of the loop sets it.\<close>

lemma rounds_flag:
  "packet_rounds E next_frame counters shutdown fuel round seen src st = Returned (e, src', st') \<Longrightarrow> torn_flag st' = torn_flag st"
proof (induction fuel arbitrary: round seen src st)
  case (Suc fuel)
  obtain res src1 where n: "next_frame src = (res, src1)" by (metis surj_pair)
  show ?case
  proof (cases "shutdown round \<or> res = Inr EndOfSource \<or> (\<exists>e. res = Inl e)")
    case True
    then show ?thesis using Suc.prems n by (auto split: if_splits)
  next
    case False
    then consider (idle) "res = Inr IdleSource" | (frame) f where "res = Inr (Frame f)" by (cases res; simp; metis captured.exhaust)
    then show ?thesis
    proof cases
      case idle
      then show ?thesis using Suc.prems n False Suc.IH service_snapshot
        by (cases "service_host E st") (fastforce simp: no_panic_def)+
    next
      case frame
      obtain pl where pl: "on_packet (en_parsers E) f (sr_pipeline st) = Some pl"
        using Suc.prems n False frame by (cases "on_packet (en_parsers E) f (sr_pipeline st)") (auto simp: no_panic_def)
      then show ?thesis using Suc.prems n False frame Suc.IH service_snapshot
        by (cases "service_host E (st\<lparr>sr_pipeline := pl\<rparr>)") (fastforce simp: no_panic_def Let_def split: if_splits)+
    qed
  qed
qed simp

text \<open>After the rounds: every flow is ended, the host drained, the counters published.\<close>

definition drains :: "surroundings \<Rightarrow> nat \<Rightarrow> bool" where
  "drains E fuel \<longleftrightarrow> (\<forall>i. \<exists>n < fuel. pe_before (en_polls E i) + host_drain \<le> pe_after (en_polls E (i + n)))"

lemma loop_returns:
  assumes "packet_rounds E next_frame counters shutdown fuel 0 0 src st = Returned (e, src1, st1)" and "pipeline_ok (sr_pipeline st1)" and "drains E drain_fuel"
  shows "\<exists>st'. run_packet_loop E next_frame counters torn shutdown fuel drain_fuel src st = Returned (e, src1, st') \<and> pipeline_ok (sr_pipeline st') \<and>
    ft_flows (pl_flows (sr_pipeline st')) = [] \<and> pl_options (sr_pipeline st') = pl_options (sr_pipeline st1) \<and>
    sp_decode (sr_snapshot st') = pl_decode (sr_pipeline st1) \<and> pl_decode (sr_pipeline st') = pl_decode (sr_pipeline st1) \<and> sp_flows (sr_snapshot st') = ft_counters (pl_flows (sr_pipeline st')) \<and>
    sp_capture (sr_snapshot st') = counters src1 \<and> (torn_flag st' \<longleftrightarrow> torn src1 \<or> torn_flag st)"
proof -
  obtain pl where f: "flush_pipeline (sr_pipeline st1) = Some pl" "pipeline_ok pl" "pl_options pl = pl_options (sr_pipeline st1)" "ft_flows (pl_flows pl) = []"
      "pl_decode pl = pl_decode (sr_pipeline st1)"
    using flush_ok [OF assms(2)] by blast
  let ?st = "st1\<lparr>sr_pipeline := pl\<rparr>"
  obtain n where "n < drain_fuel" "pe_before (en_polls E (sr_polls ?st)) + host_drain \<le> pe_after (en_polls E (sr_polls ?st + n))"
    using assms(3) unfolding drains_def by blast
  then obtain st2 where d: "drain_host E host_drain drain_fuel ?st = Returned st2"
    using drain_host_returns [of ?st E host_drain n drain_fuel] f(2) by auto
  obtain ops where ops: "list_all beside ops" "runs (en_parsers E) pl ops (sr_pipeline st2)" using drain_host_run [OF d] by auto
  note k = beside_keeps [OF ops f(2)]
  have flag: "torn_flag st2 = torn_flag st"
    using d drain_snapshot rounds_flag [OF assms(1)] by (fastforce simp: drain_host_def split: if_splits)
  let ?st' = "mark_truncated (torn src1) (publish E (counters src1) st2)"
  have "run_packet_loop E next_frame counters torn shutdown fuel drain_fuel src st = Returned (e, src1, ?st')"
    using assms(1) f(1) d by (simp add: run_packet_loop_def no_panic_def)
  moreover have "pipeline_ok (sr_pipeline ?st')"
    using k read_depth_ok by (simp add: mark_truncated_def publish_def Let_def)
  moreover have "pl_flows (sr_pipeline ?st') = pl_flows (sr_pipeline st2)" "pl_options (sr_pipeline ?st') = pl_options (sr_pipeline st2)"
      "pl_decode (sr_pipeline ?st') = pl_decode (sr_pipeline st2)"
    by (simp_all add: mark_truncated_def publish_def Let_def)
  ultimately show ?thesis using f k flag by (auto simp: untouched_def mark_truncated_def)
qed

lemma host_rounds_return:
  "pipeline_ok (sr_pipeline st) \<Longrightarrow> shutdown (round + k) \<Longrightarrow> k < fuel \<Longrightarrow>
   \<exists>st'. host_rounds E shutdown fuel round st = Returned st' \<and> pipeline_ok (sr_pipeline st')"
proof (induction fuel arbitrary: round st k)
  case (Suc fuel)
  show ?case
  proof (cases "shutdown round")
    case False
    obtain st1 where "service_host E st = Some st1" "pipeline_ok (sr_pipeline (publish E no_capture st1))"
      using serviced_returns [OF Suc.prems(1)] by blast
    moreover obtain j where "k = Suc j" using False Suc.prems(2) by (cases k) auto
    ultimately show ?thesis using False Suc.IH [of "publish E no_capture st1" "Suc round" j] Suc.prems(2,3) by (simp add: no_panic_def)
  qed (use Suc.prems in auto)
qed simp

lemma host_loop_returns:
  assumes "pipeline_ok (sr_pipeline st)" and "shutdown k" and "k < fuel" and "drains E drain_fuel"
  shows "\<exists>st'. host_only_loop E shutdown fuel drain_fuel st = Returned st' \<and> pipeline_ok (sr_pipeline st')"
proof -
  obtain st1 where 1: "host_rounds E shutdown fuel 0 st = Returned st1" "pipeline_ok (sr_pipeline st1)"
    using host_rounds_return [OF assms(1), of shutdown 0 k fuel] assms(2,3) by auto
  obtain n where "n < drain_fuel" "pe_before (en_polls E (sr_polls st1)) + host_drain \<le> pe_after (en_polls E (sr_polls st1 + n))"
    using assms(4) unfolding drains_def by blast
  then obtain st2 where d: "drain_host E host_drain drain_fuel st1 = Returned st2" using drain_host_returns [OF 1(2)] by blast
  obtain ops where ops: "list_all beside ops" "runs (en_parsers E) (sr_pipeline st1) ops (sr_pipeline st2)" using drain_host_run [OF d] by blast
  then have "pipeline_ok (sr_pipeline (publish E no_capture st2))"
    using beside_keeps [OF ops 1(2)] read_depth_ok by (simp add: publish_def Let_def)
  then show ?thesis using 1(1) d by (simp add: host_only_loop_def)
qed

text \<open>The host-only loop leaves the packet side alone, and publishes it with capture counters of zero.\<close>

lemma host_rounds_keep:
  "host_rounds E shutdown fuel round st = Returned st' \<Longrightarrow>
   (\<exists>ops. list_all beside ops \<and> runs P (sr_pipeline st) ops (sr_pipeline st')) \<and> torn_flag st' = torn_flag st"
proof (induction fuel arbitrary: round st)
  case (Suc fuel)
  show ?case
  proof (cases "shutdown round")
    case True
    then show ?thesis using Suc.prems by (auto intro: exI [of _ "[]"])
  next
    case False
    then obtain st1 where s: "service_host E st = Some st1" "host_rounds E shutdown fuel (Suc round) (publish E no_capture st1) = Returned st'"
      using Suc.prems by (cases "service_host E st") (auto simp: no_panic_def)
    obtain ops where "list_all beside ops" "runs P (sr_pipeline st) ops (sr_pipeline (publish E no_capture st1))" using serviced [OF s(1)] by blast
    moreover obtain ops' where "list_all beside ops'" "runs P (sr_pipeline (publish E no_capture st1)) ops' (sr_pipeline st')" "torn_flag st' = torn_flag st1"
      using Suc.IH [OF s(2)] by auto
    ultimately show ?thesis using runs_trans [of P "sr_pipeline st" ops] service_snapshot [OF s(1)] by (intro conjI exI [of _ "ops @ ops'"]) auto
  qed
qed simp

lemma host_loop_keeps:
  assumes "host_only_loop E shutdown fuel drain_fuel st = Returned st'" and "pipeline_ok (sr_pipeline st)"
  shows "\<exists>ops. list_all beside ops \<and> runs (en_parsers E) (sr_pipeline st) ops (sr_pipeline st')" "untouched (sr_pipeline st) (sr_pipeline st')"
    "torn_flag st' = torn_flag st" "sp_capture (sr_snapshot st') = no_capture" "sp_decode (sr_snapshot st') = pl_decode (sr_pipeline st')"
    "sp_flows (sr_snapshot st') = ft_counters (pl_flows (sr_pipeline st'))"
proof -
  obtain st1 where 1: "host_rounds E shutdown fuel 0 st = Returned st1"
      "and_then (drain_host E host_drain drain_fuel st1) (\<lambda>st. Returned (publish E no_capture st)) = Returned st'"
    using assms(1) by (cases "host_rounds E shutdown fuel 0 st") (auto simp: host_only_loop_def)
  then obtain st2 where 2: "drain_host E host_drain drain_fuel st1 = Returned st2" "st' = publish E no_capture st2"
    by (cases "drain_host E host_drain drain_fuel st1") auto
  obtain ops1 where o1: "list_all beside ops1" "runs (en_parsers E) (sr_pipeline st) ops1 (sr_pipeline st1)" "torn_flag st1 = torn_flag st"
    using host_rounds_keep [OF 1(1)] by blast
  obtain ops2 where o2: "list_all beside ops2" "runs (en_parsers E) (sr_pipeline st1) ops2 (sr_pipeline st2)" using drain_host_run [OF 2(1)] by blast
  let ?ops = "ops1 @ ops2 @ [QueueRead (en_depth E (sr_publications st2))]"
  have r: "list_all beside ?ops" "runs (en_parsers E) (sr_pipeline st) ?ops (sr_pipeline st')"
    using o1 o2 runs_trans [OF o1(2) runs_trans [OF o2(2) publish_run]] 2(2) by auto
  then show "\<exists>ops. list_all beside ops \<and> runs (en_parsers E) (sr_pipeline st) ops (sr_pipeline st')" by blast
  show "untouched (sr_pipeline st) (sr_pipeline st')" using beside_keeps [OF r assms(2)] by blast
  show "torn_flag st' = torn_flag st" using 2 o1(3) drain_snapshot by (fastforce simp: drain_host_def split: if_splits)
  show "sp_capture (sr_snapshot st') = no_capture" "sp_decode (sr_snapshot st') = pl_decode (sr_pipeline st')"
    "sp_flows (sr_snapshot st') = ft_counters (pl_flows (sr_pipeline st'))"
    by (simp_all add: 2(2) publish_def Let_def)
qed

section \<open>Capture files as a source\<close>

definition frames_left :: "pcap_replay \<Rightarrow> raw_packet list" where
  "frames_left p = fst (replay_all (Suc (bytes_left (pr_reader p) div record_header_len)) p)"

lemma next_counts:
  "next_packet p = (res, p') \<Longrightarrow> cc_packets (pr_counters p') = cc_packets (pr_counters p) + (case res of Inr (Frame _) \<Rightarrow> 1 | _ \<Rightarrow> 0)"
proof -
  have "pr_counters q = pr_counters p" if "read_record p = (x, q)" for x q
    using that by (auto simp: read_record_def Let_def split: prod.splits sum.splits if_splits)
  then show "next_packet p = (res, p') \<Longrightarrow> ?thesis"
    by (auto simp: next_packet_def Let_def split: if_splits prod.splits sum.splits bool.splits)
qed

interpretation replay: file_source next_packet pr_counters frames_left
proof unfold_locales
  fix p f p' assume n: "next_packet p = (Inr (Frame f), p')"
  have "replay_all (bytes_left (pr_reader p) div record_header_len) p' = replay_all (Suc (bytes_left (pr_reader p') div record_header_len)) p'"
    using next_takes [OF n] by (intro replay_stable) auto
  with n next_counts [OF n] show "frames_left p = f # frames_left p' \<and> cc_packets (pr_counters p') = Suc (cc_packets (pr_counters p))"
    by (simp add: frames_left_def split: prod.split)
next
  fix p p' assume n: "next_packet p = (Inr EndOfSource, p')"
  with next_counts [OF n] show "frames_left p = [] \<and> cc_packets (pr_counters p') = cc_packets (pr_counters p)" by (simp add: frames_left_def)
next
  fix p e p' assume n: "next_packet p = (Inl e, p')"
  with next_counts [OF n] show "frames_left p = [] \<and> cc_packets (pr_counters p') = cc_packets (pr_counters p)" by (simp add: frames_left_def)
qed (use never_idle in \<open>auto\<close>)

text \<open>The loop leaves a capture file where reading it to its end does.\<close>

lemma replay_rounds:
  "packet_rounds E next_packet pr_counters (\<lambda>_. False) fuel round seen p st = Returned (e, p', st') \<Longrightarrow>
   \<exists>fs. replay_all fuel p = (fs, e, p')"
proof (induction fuel arbitrary: round seen p st)
  case (Suc fuel)
  obtain res p1 where n: "next_packet p = (res, p1)" by (metis surj_pair)
  show ?case
  proof (cases "res = Inr EndOfSource \<or> (\<exists>e. res = Inl e)")
    case True
    then show ?thesis using Suc.prems n by auto
  next
    case False
    then have "\<exists>f. res = Inr (Frame f)" using never_idle n by (cases res; simp; metis captured.exhaust)
    then obtain f where f: "res = Inr (Frame f)" by blast
    have "\<exists>seen' st1. packet_rounds E next_packet pr_counters (\<lambda>_. False) fuel (Suc round) seen' p1 st1 = Returned (e, p', st')"
    proof (cases "on_packet (en_parsers E) f (sr_pipeline st)")
      case (Some pl)
      then show ?thesis using Suc.prems n f
        by (cases "service_host E (st\<lparr>sr_pipeline := pl\<rparr>)") (auto simp: no_panic_def Let_def split: if_splits)
    qed (use Suc.prems n f in \<open>simp add: no_panic_def\<close>)
    then show ?thesis using Suc.IH n f by fastforce
  qed
qed simp

end
