(* ===== verification/Live.thy ===== *)
theory Live
  imports PacketLoop
begin

text \<open>
  Live capture (\<open>crates/capture/src/live.rs\<close>). The pcap crate is outside the sources: its calls are the fields of \<open>pcap_calls\<close>, and an open
  handle is the list of what its reads return; past the end of the list the link is quiet. The text of an error is what the crate
  says. Debug output is left out.
\<close>

section \<open>Opening\<close>

record live_options =
  lo_interface :: "string option"
  lo_snaplen :: nat
  lo_promiscuous :: bool
  lo_bpf_filter :: "string option"
  lo_poll_timeout_ms :: int
  lo_buffer_size_bytes :: "int option"

definition default_live_options :: live_options where
  "default_live_options = \<lparr>lo_interface = None, lo_snaplen = 65535, lo_promiscuous = True, lo_bpf_filter = None, lo_poll_timeout_ms = 250,
     lo_buffer_size_bytes = None\<rparr>"

text \<open>A packet of the handle: its \<open>timeval\<close>, its length on the wire and its bytes.\<close>

record pcap_packet =
  pk_tv_sec :: int
  pk_tv_usec :: int
  pk_wire_len :: nat
  pk_bytes :: bytes

datatype pcap_error = TimeoutExpired | NoMorePackets | PcapFailed string

type_synonym pcap_handle = "(pcap_error + pcap_packet) list"

record handle_settings =
  hn_device :: string
  hn_promisc :: bool
  hn_snaplen :: int
  hn_timeout :: int
  hn_immediate_mode :: bool
  hn_buffer_size :: "int option"

record pcap_calls =
  pcap_device_list :: "string + string list"
  pcap_device_lookup :: "string + string option"
  pcap_from_device :: "string \<Rightarrow> string option"
  pcap_open :: "handle_settings \<Rightarrow> string + pcap_handle"
  pcap_setnonblock :: "pcap_handle \<Rightarrow> string + pcap_handle"
  pcap_filter :: "string \<Rightarrow> pcap_handle \<Rightarrow> string + pcap_handle"
  pcap_datalink :: "pcap_handle \<Rightarrow> int"
  pcap_stats :: "pcap_handle \<Rightarrow> (nat \<times> nat) option"

definition select_device :: "pcap_calls \<Rightarrow> string option \<Rightarrow> capture_error + string" where
  "select_device pcap interface = (case interface of
       Some wanted \<Rightarrow> (case pcap_device_list pcap of
           Inl e \<Rightarrow> Inl (Backend (''listing capture devices: '' @ e))
         | Inr devices \<Rightarrow> (case find (\<lambda>d. d = wanted) devices of
               Some d \<Rightarrow> Inr d
             | None \<Rightarrow> Inl (Backend (''no capture device named '' @ wanted @ ''; available: '' @ join_comma devices))))
     | None \<Rightarrow> (case pcap_device_lookup pcap of
           Inl e \<Rightarrow> Inl (Backend (''finding a default device: '' @ e))
         | Inr None \<Rightarrow> Inl (Backend ''no capture device is available on this host'')
         | Inr (Some d) \<Rightarrow> Inr d))"

definition i32_max :: int where "i32_max = 2 ^ 31 - 1"

record live_capture =
  lc_handle :: pcap_handle
  lc_name :: string
  lc_link_type :: link_type
  lc_delivered_packets :: nat
  lc_delivered_bytes :: nat

text \<open>The link type is a 32-bit number; a negative one is taken for the largest.\<close>

definition link_of :: "int \<Rightarrow> link_type" where
  "link_of raw = link_from_raw (if 0 \<le> raw then word_of_int raw else - 1)"

definition live_open :: "pcap_calls \<Rightarrow> live_options \<Rightarrow> capture_error + live_capture" where
  "live_open pcap options = (case select_device pcap (lo_interface options) of
       Inl e \<Rightarrow> Inl e
     | Inr name \<Rightarrow> (case pcap_from_device pcap name of
           Some e \<Rightarrow> Inl (Backend (''selecting a capture device: '' @ e))
         | None \<Rightarrow> (case pcap_open pcap \<lparr>hn_device = name, hn_promisc = lo_promiscuous options,
                 hn_snaplen = (if int (lo_snaplen options) \<le> i32_max then int (lo_snaplen options) else i32_max),
                 hn_timeout = lo_poll_timeout_ms options, hn_immediate_mode = True, hn_buffer_size = lo_buffer_size_bytes options\<rparr> of
               Inl e \<Rightarrow> Inl (Backend (''opening '' @ name @ '': '' @ e @
                 '' (live capture needs CAP_NET_RAW; try running under the shipped systemd unit)''))
             | Inr handle \<Rightarrow> (case pcap_setnonblock pcap handle of
                   Inl e \<Rightarrow> Inl (Backend (''setting '' @ name @ '' non-blocking: '' @ e))
                 | Inr handle \<Rightarrow> (case (case lo_bpf_filter options of None \<Rightarrow> Inr handle | Some f \<Rightarrow> pcap_filter pcap f handle) of
                       Inl e \<Rightarrow> Inl (Backend (''BPF filter '' @ the (lo_bpf_filter options) @ '': '' @ e))
                     | Inr handle \<Rightarrow>
                         let link = link_of (pcap_datalink pcap handle) in
                         if link \<noteq> Ethernet then Inl (UnsupportedLinkType (link_as_raw link))
                         else Inr \<lparr>lc_handle = handle, lc_name = name, lc_link_type = link, lc_delivered_packets = 0, lc_delivered_bytes = 0\<rparr>)))))"

section \<open>Reading\<close>

definition timeval_to_system_time :: "int \<Rightarrow> int \<Rightarrow> system_time" where
  "timeval_to_system_time seconds microseconds =
     (if seconds < 0 then 0
      else seconds * int nanos_per_sec + min (max microseconds 0) 999999 * 1000)"

definition live_next :: "live_capture \<Rightarrow> (capture_error + captured) \<times> live_capture" where
  "live_next c = (case lc_handle c of
       [] \<Rightarrow> (Inr IdleSource, c)
     | r # rest \<Rightarrow>
         let c = c\<lparr>lc_handle := rest\<rparr> in
         case r of
           Inr packet \<Rightarrow> (Inr (Frame \<lparr>rp_data = pk_bytes packet, rp_original_len = pk_wire_len packet,
               rp_timestamp = timeval_to_system_time (pk_tv_sec packet) (pk_tv_usec packet), rp_interface = lc_name c\<rparr>),
             c\<lparr>lc_delivered_packets := lc_delivered_packets c + 1, lc_delivered_bytes := lc_delivered_bytes c + length (pk_bytes packet)\<rparr>)
         | Inl TimeoutExpired \<Rightarrow> (Inr IdleSource, c)
         | Inl NoMorePackets \<Rightarrow> (Inr EndOfSource, c)
         | Inl (PcapFailed e) \<Rightarrow> (Inl (Backend e), c))"

definition live_counters :: "(pcap_handle \<Rightarrow> (nat \<times> nat) option) \<Rightarrow> live_capture \<Rightarrow> capture_counters" where
  "live_counters stats c =
     (let (drops, interface_drops) = (case stats (lc_handle c) of Some d \<Rightarrow> d | None \<Rightarrow> (0, 0))
      in \<lparr>cc_packets = lc_delivered_packets c, cc_bytes = lc_delivered_bytes c, cc_drops = drops, cc_interface_drops = interface_drops\<rparr>)"

text \<open>The frames of the handle up to where it ends or fails.\<close>

fun frames_until :: "string \<Rightarrow> pcap_handle \<Rightarrow> raw_packet list" where
  "frames_until name [] = []"
| "frames_until name (Inr packet # rest) = \<lparr>rp_data = pk_bytes packet, rp_original_len = pk_wire_len packet,
     rp_timestamp = timeval_to_system_time (pk_tv_sec packet) (pk_tv_usec packet), rp_interface = name\<rparr> # frames_until name rest"
| "frames_until name (Inl TimeoutExpired # rest) = frames_until name rest"
| "frames_until name (Inl _ # rest) = []"

interpretation live: packet_source live_next "live_counters stats" "\<lambda>c. frames_until (lc_name c) (lc_handle c)"
  by unfold_locales
    (auto simp: live_next_def live_counters_def Let_def split: list.splits sum.splits pcap_error.splits option.splits prod.splits)

lemma timeval_in_range:
  "0 \<le> timeval_to_system_time seconds microseconds \<and>
   (0 \<le> seconds \<longrightarrow> timeval_to_system_time seconds microseconds div int nanos_per_sec = seconds)"
proof (cases "seconds < 0")
  case False
  have "seconds * 1000000000 \<le> seconds * 1000000000 + min (max microseconds 0) 999999 * 1000"
    "seconds * 1000000000 + min (max microseconds 0) 999999 * 1000 < (seconds + 1) * 1000000000" by auto
  then show ?thesis using False by (auto simp: timeval_to_system_time_def nanos_per_sec_def)
qed (simp add: timeval_to_system_time_def)

lemma opened_ethernet: "live_open pcap options = Inr c \<Longrightarrow> lc_link_type c = Ethernet \<and> lc_delivered_packets c = 0"
  by (auto simp: live_open_def Let_def split: sum.splits option.splits if_splits)

end
