(* ===== verification/Run.thy ===== *)
theory Run
  imports Complex_Main Startup Live Loader EventLog
begin

text \<open>
  The sensor put together (\<open>crates/cli/src/run.rs\<close>, \<open>crates/cli/src/validate.rs\<close>): the settings of every component from the configuration, the
  pipeline with its engine, its host sensor and its verdict store, the main loop over the packet source, and the statistics. What
  starting finds of the host, the rule files and the regular expression and automaton builders are arguments. The clock of the
  process is the uptime given to the statistics. The threads of the verdict path and of the statistics, privileges and log lines
  are left out; the drop rate is a real number.
\<close>

section \<open>Settings from the configuration\<close>

definition build_engine :: "regex_builder \<Rightarrow> host_regex_builder \<Rightarrow> ac_builder \<Rightarrow> config \<Rightarrow> rule list \<Rightarrow> engine \<times> compile_report" where
  "build_engine rb hb ac c rules =
     (let detect = cf_detect c; normalize = cf_normalize c;
          limits = default_engine_limits\<lparr>
            el_compile := \<lparr>regex_size_limit = dt_regex_size_limit detect, regex_dfa_size_limit = dt_regex_dfa_size_limit detect\<rparr>,
            el_max_flow_states := dt_max_flow_states detect, el_max_flowbits := dt_max_flowbits_per_flow detect,
            el_window := dt_inspection_window detect, el_max_thresholds := dt_max_threshold_entries detect,
            el_normalize := \<lparr>decode_rounds = nc_decode_rounds normalize, opt_collapse_path = nc_collapse_path normalize,
              backslash_is_separator = nc_backslash_is_separator normalize\<rparr>\<rparr>
      in engine_new rb hb ac rules \<lparr>vt_addresses = vc_address_groups (cf_vars c), vt_ports = vc_port_groups (cf_vars c)\<rparr> limits)"

definition configured_host :: "config \<Rightarrow> host_settings option" where
  "configured_host c =
     (let hids = cf_hids c; fim = hc_fim hids; auth = hc_auth hids; processes = hc_process hids in
      if \<not> hc_enabled hids then None
      else
        let settings = \<lparr>
              hset_fim = (if fg_enabled fim
                then Some (\<lparr>fset_paths = fg_paths fim, fset_max_file_bytes = fg_max_file_bytes fim, fset_max_depth = fg_max_depth fim,
                  fset_max_entries = fg_max_entries fim\<rparr>, secs (fg_rescan_interval_secs fim)) else None),
              hset_auth_files = (if ag_enabled auth then ag_files auth else []),
              hset_journald = (ag_enabled auth \<and> ag_journald auth), hset_proc_root = pp_proc_root processes,
              hset_process_monitoring = pp_enabled processes, hset_process_interval = secs (pp_interval_secs processes),
              hset_process_limits = \<lparr>sl_max_processes = pp_max_processes processes, sl_max_sockets = pp_max_sockets processes\<rparr>\<rparr>;
            anything_enabled = (hset_fim settings \<noteq> None \<or> hset_auth_files settings \<noteq> [] \<or> hset_journald settings \<or>
              hset_process_monitoring settings)
        in if anything_enabled then Some settings else None)"

definition prevention_of :: "prevent_config \<Rightarrow> prevention_settings" where
  "prevention_of p = \<lparr>ps_mode = (if pg_mode p = ''prevent'' then Prevent else Detect),
     ps_fail_mode = (if pg_fail_mode p = ''closed'' then fail_mode.Closed else Open),
     ps_allow_list = List.map_filter (\<lambda>entry. case network_from_str entry of Inr n \<Rightarrow> Some n | Inl _ \<Rightarrow> None) (pg_allow_list p),
     ps_source_block = secs (pg_source_block_secs p), ps_max_blocked_flows = pg_max_blocked_flows p,
     ps_max_blocked_sources = pg_max_blocked_sources p\<rparr>"

definition start_prevention :: "config \<Rightarrow> prevention option" where
  "start_prevention c = (if pg_enabled (cf_prevent c) then Some (prevention_new (prevention_of (cf_prevent c))) else None)"

definition configured_correlator :: "config \<Rightarrow> correlator option" where
  "configured_correlator c =
     (let co = cf_correlation c in
      if co_enabled co
      then Some (correlator_new \<lparr>cs_window = secs (co_window_secs co), cs_max_hosts = co_max_hosts co, cs_max_per_host = co_max_per_host co,
        cs_cooldown = secs (co_cooldown_secs co)\<rparr>)
      else None)"

definition live_options_of :: "config \<Rightarrow> live_options" where
  "live_options_of c =
     (let ca = cf_capture c in default_live_options\<lparr>lo_interface := (case ca_interfaces ca of [] \<Rightarrow> None | i # _ \<Rightarrow> Some i),
        lo_snaplen := ca_snaplen ca, lo_promiscuous := ca_promiscuous ca, lo_bpf_filter := ca_bpf_filter ca,
        lo_buffer_size_bytes := ca_buffer_size_bytes ca\<rparr>)"

section \<open>Putting the sensor together\<close>

record run_args =
  ra_replay :: "string option"
  ra_once :: bool
  ra_strict :: bool
  ra_dump_streams :: bool

datatype packet_input = ReplayInput pcap_replay | LiveInput live_capture | NoInput

text \<open>Opening a capture file gives what its reads find.\<close>

definition open_source :: "(string \<Rightarrow> reader option) \<Rightarrow> pcap_calls \<Rightarrow> run_args \<Rightarrow> config \<Rightarrow> capture_error + packet_input" where
  "open_source files pcap args c = (case ra_replay args of
       Some path \<Rightarrow> (case files path of
           None \<Rightarrow> Inl CaptureIo
         | Some r \<Rightarrow> (case from_reader r path of Inl e \<Rightarrow> Inl e | Inr p \<Rightarrow> Inr (ReplayInput p)))
     | None \<Rightarrow> if \<not> ca_enabled (cf_capture c) then Inr NoInput
         else (case live_open pcap (live_options_of c) of Inl e \<Rightarrow> Inl e | Inr l \<Rightarrow> Inr (LiveInput l)))"

fun input_name :: "packet_input \<Rightarrow> string" where
  "input_name (ReplayInput p) = pr_file p"
| "input_name (LiveInput l) = lc_name l"
| "input_name NoInput = []"

definition attach_host_monitoring :: "start_view \<Rightarrow> config \<Rightarrow> sensor_run \<Rightarrow> sensor_run" where
  "attach_host_monitoring sv c st = (case configured_host c of
       None \<Rightarrow> st
     | Some settings \<Rightarrow> (case host_start sv settings of
           None \<Rightarrow> st
         | Some s \<Rightarrow> st\<lparr>sr_host := Some s, sr_pipeline := attach_correlator (configured_correlator c) (sr_pipeline st)\<rparr>))"

definition empty_snapshot_of :: "string \<Rightarrow> nat \<Rightarrow> pipeline_snapshot" where
  "empty_snapshot_of name capacity = \<lparr>sp_source = name, sp_capture = no_capture, sp_decode = zero_decode_counters, sp_flows = default_flow_counters,
     sp_active_flows = 0, sp_flow_capacity = capacity, sp_defrag = default_defrag_counters, sp_active_fragment_sets = 0,
     sp_streams = default_stream_counters, sp_stream_bytes_buffered = 0, sp_engine = zero_counters, sp_rules = default_report,
     sp_hids = (None, 0), sp_prevent = default_prevent_stats, sp_correlation = None, sp_capture_truncated = False\<rparr>"

text \<open>The first half of \<open>main_loop\<close>: the pipeline, the engine, the host sensor, the verdict store.\<close>

definition assemble :: "run_args \<Rightarrow> config \<Rightarrow> engine \<times> compile_report \<Rightarrow> start_view \<Rightarrow> (nat \<Rightarrow> instant) \<Rightarrow> string \<Rightarrow> string \<Rightarrow> sensor_run" where
  "assemble args c ec sv clock sensor name =
     (let options = \<lparr>po_emit_anomaly_events = cf_emit_anomaly_events c, po_emit_flow_events = fc_emit_events (cf_flow c),
            po_dump_streams = ra_dump_streams args\<rparr>;
          pl = pipeline_new sensor (fc_max_flows (cf_flow c)) (fc_timeout_secs (cf_flow c)) (cf_reassembly c) options clock;
          st = \<lparr>sr_pipeline = pl, sr_host = None, sr_rules = default_report, sr_source = name, sr_polls = 0, sr_publications = 0,
            sr_snapshot = empty_snapshot_of name (fc_max_flows (cf_flow c))\<rparr>;
          st = (if dt_enabled (cf_detect c) then st\<lparr>sr_pipeline := arm (fst ec) pl, sr_rules := snd ec\<rparr> else st);
          st = attach_host_monitoring sv c st
      in case start_prevention c of None \<Rightarrow> st | Some p \<Rightarrow> st\<lparr>sr_pipeline := arm_prevention p (sr_pipeline st)\<rparr>)"

section \<open>Statistics\<close>

definition drop_rate :: "capture_counters \<Rightarrow> real" where
  "drop_rate c =
     (let offered = cc_packets c + cc_drops c + cc_interface_drops c
      in if offered = 0 then 0 else real (cc_drops c + cc_interface_drops c) / real offered)"

record event_stats =
  es_emitted :: nat
  es_dropped :: nat
  es_written :: nat
  es_write_errors :: nat
  es_queued :: nat
  es_queue_capacity :: nat

record rule_stats =
  rt_loaded :: nat
  rt_skipped :: nat
  rt_with_unsupported_options :: nat

record capture_stats =
  ct_enabled :: bool
  ct_source :: "string option"
  ct_packets :: nat
  ct_bytes :: nat
  ct_drops :: nat
  ct_interface_drops :: nat
  ct_drop_rate :: real

record flow_stats =
  ft_enabled :: bool
  ft_active :: nat
  ft_created :: nat
  ft_closed :: nat
  ft_timed_out :: nat
  ft_evicted :: nat
  ft_capacity :: nat

record reassembly_stats =
  rs_enabled :: bool
  rs_fragments :: nat
  rs_datagrams_reassembled :: nat
  rs_fragment_sets_active :: nat
  rs_fragment_timeouts :: nat
  rs_fragment_evictions :: nat
  rs_fragment_conflicts :: nat
  rs_stream_bytes_buffered :: nat
  rs_stream_bytes_delivered :: nat
  rs_stream_conflicts :: nat
  rs_stream_out_of_window :: nat
  rs_stream_after_fin :: nat
  rs_stream_flushed_unacked :: nat
  rs_stream_dropped_incomplete :: nat
  rs_resets_ignored :: nat

record decode_stats =
  de_enabled :: bool
  de_packets :: nat
  de_ipv4 :: nat
  de_ipv6 :: nat
  de_tcp :: nat
  de_udp :: nat
  de_icmp :: nat
  de_non_ip :: nat
  de_fragments :: nat
  de_snapped :: nat
  de_anomalous :: nat
  de_anomalies :: nat

record engine_stats =
  gs_enabled :: bool
  gs_rules_armed :: nat
  gs_rules_awaiting_support :: nat
  gs_rules_failed :: nat
  gs_rules_without_prefilter :: nat
  gs_inspections :: nat
  gs_bytes_inspected :: nat
  gs_candidates :: nat
  gs_matches :: nat
  gs_alerts :: nat
  gs_thresholded :: nat
  gs_silent :: nat
  gs_flow_states :: nat
  gs_flow_states_evicted :: nat
  gs_inspection_bytes_dropped :: nat

record stats_event =
  se_uptime_secs :: nat
  se_events :: event_stats
  se_rules :: rule_stats
  se_capture :: capture_stats
  se_decode :: decode_stats
  se_flows :: flow_stats
  se_reassembly :: reassembly_stats
  se_hids :: "hids_stats option \<times> nat"
  se_prevent :: prevent_stats
  se_correlation :: "correlation_stats option"
  se_engine :: engine_stats

text \<open>The event that \<open>emit_stats\<close> hands to the event log; \<open>non_evaluable\<close> is a subtraction that cannot go below zero on a report of the loader.\<close>

definition stats_of :: "pipeline_counters \<Rightarrow> load_report \<Rightarrow> nat \<Rightarrow> pipeline_snapshot \<Rightarrow> stats_event option" where
  "stats_of q report uptime s = map_option (\<lambda>unsupported.
     let capturing = (sp_source s \<noteq> []); cap = sp_capture s; fl = sp_flows s; st = sp_streams s; df = sp_defrag s; ru = sp_rules s;
       dec = sp_decode s; eng = sp_engine s in
     \<lparr>se_uptime_secs = uptime,
      se_events = \<lparr>es_emitted = pc_emitted q, es_dropped = pc_dropped q, es_written = pc_written q, es_write_errors = pc_write_errors q,
        es_queued = unat (pc_queued q), es_queue_capacity = pc_capacity q\<rparr>,
      se_rules = \<lparr>rt_loaded = lr_loaded report, rt_skipped = length (lr_skipped report), rt_with_unsupported_options = unsupported\<rparr>,
      se_capture = \<lparr>ct_enabled = capturing, ct_source = (if capturing then Some (sp_source s) else None), ct_packets = cc_packets cap,
        ct_bytes = cc_bytes cap, ct_drops = cc_drops cap, ct_interface_drops = cc_interface_drops cap, ct_drop_rate = drop_rate cap\<rparr>,
      se_decode = \<lparr>de_enabled = capturing, de_packets = dk_packets dec, de_ipv4 = dk_ipv4 dec, de_ipv6 = dk_ipv6 dec, 
        de_tcp = dk_tcp dec, de_udp = dk_udp dec, de_icmp = dk_icmp dec, de_non_ip = dk_non_ip dec, 
        de_fragments = dk_fragments dec, de_snapped = dk_snapped dec, de_anomalous = dk_anomalous dec, de_anomalies = dk_anomalies dec\<rparr>,
      se_flows = \<lparr>ft_enabled = capturing, ft_active = sp_active_flows s, ft_created = fc_created fl, ft_closed = fc_closed fl,
        ft_timed_out = fc_timed_out fl, ft_evicted = fc_evicted fl, ft_capacity = sp_flow_capacity s\<rparr>,
      se_reassembly = \<lparr>rs_enabled = capturing, rs_fragments = dc_fragments df, rs_datagrams_reassembled = dc_completed df,
        rs_fragment_sets_active = sp_active_fragment_sets s, rs_fragment_timeouts = dc_timed_out df, rs_fragment_evictions = dc_evicted df,
        rs_fragment_conflicts = dc_conflicting_overlaps df, rs_stream_bytes_buffered = sp_stream_bytes_buffered s,
        rs_stream_bytes_delivered = sc_bytes_delivered st, rs_stream_conflicts = sc_conflicting_overlaps st,
        rs_stream_out_of_window = sc_out_of_window st, rs_stream_after_fin = sc_after_fin st, rs_stream_flushed_unacked = sc_flushed_unacked st,
        rs_stream_dropped_incomplete = sc_dropped_incomplete st, rs_resets_ignored = fc_resets_ignored fl\<rparr>,
      se_hids = sp_hids s, se_prevent = sp_prevent s, se_correlation = sp_correlation s,
      se_engine = \<lparr>gs_enabled = (capturing \<and> 0 < rp_compiled ru), gs_rules_armed = rp_compiled ru, gs_rules_awaiting_support = rp_not_evaluable ru,
        gs_rules_failed = length (rp_failed ru), gs_rules_without_prefilter = rp_without_prefilter ru, gs_inspections = ec_inspections eng, gs_bytes_inspected = ec_bytes_inspected eng, 
        gs_candidates = ec_candidates eng, gs_matches = ec_matches eng, gs_alerts = ec_alerts eng, 
        gs_thresholded = ec_thresholded eng, gs_silent = ec_silent eng, gs_flow_states = ec_flow_states eng, 
        gs_flow_states_evicted = ec_flow_states_evicted eng, gs_inspection_bytes_dropped = ec_inspection_bytes_dropped eng\<rparr>\<rparr>)
     (non_evaluable report)"

section \<open>The main loop\<close>

text \<open>The loop over the source, and the host loop that keeps an enforcing sensor up after its capture file has ended. The flag is read by the
  rounds of the first loop, between the loops, and by the rounds of the second.\<close>

record shutdown_flag =
  sd_first :: "nat \<Rightarrow> bool"
  sd_between :: bool
  sd_second :: "nat \<Rightarrow> bool"

definition capture_loop :: "surroundings \<Rightarrow> (pcap_handle \<Rightarrow> (nat \<times> nat) option) \<Rightarrow> (nat \<Rightarrow> bool) \<Rightarrow> nat \<Rightarrow> nat \<Rightarrow> packet_input \<Rightarrow> sensor_run \<Rightarrow>
    (capture_error option \<times> sensor_run) outcome" where
  "capture_loop E stats shutdown fuel drain_fuel src st = (case src of
       ReplayInput p \<Rightarrow> and_then (run_packet_loop E next_packet pr_counters pr_truncated shutdown fuel drain_fuel p st) (\<lambda>(e, _, st). Returned (e, st))
     | LiveInput l \<Rightarrow> and_then (run_packet_loop E live_next (live_counters stats) (\<lambda>_. False) shutdown fuel drain_fuel l st) (\<lambda>(e, _, st). Returned (e, st))
     | NoInput \<Rightarrow> and_then (host_only_loop E shutdown fuel drain_fuel st) (\<lambda>st. Returned (None, st)))"

definition main_loop :: "surroundings \<Rightarrow> (pcap_handle \<Rightarrow> (nat \<times> nat) option) \<Rightarrow> bool \<Rightarrow> bool \<Rightarrow> shutdown_flag \<Rightarrow> nat \<Rightarrow> nat \<Rightarrow> packet_input \<Rightarrow> sensor_run \<Rightarrow>
    (capture_error option \<times> sensor_run) outcome" where
  "main_loop E stats once enforcing sd fuel drain_fuel src st =
     (let st = publish E no_capture st in
      if once then Returned (None, st)
      else and_then (capture_loop E stats (sd_first sd) fuel drain_fuel src st) (\<lambda>(e, st).
        if e = None \<and> enforcing \<and> \<not> sd_between sd
        then and_then (host_only_loop E (sd_second sd) fuel drain_fuel st) (\<lambda>st. Returned (None, st))
        else Returned (e, st)))"

section \<open>Rule validation\<close>

text \<open>\<open>validate\<close>, and the check \<open>run --strict\<close> makes before the main loop: the number of problems, which is the error.\<close>

definition rule_problems :: "load_report \<Rightarrow> compile_report \<Rightarrow> nat" where
  "rule_problems load_rep compile_rep = length (lr_skipped load_rep) + length (rp_failed compile_rep)"

definition validate :: "regex_builder \<Rightarrow> host_regex_builder \<Rightarrow> ac_builder \<Rightarrow> (string \<Rightarrow> string option) \<Rightarrow> config \<Rightarrow> (nat + nat) option" where
  "validate rb hb ac fs c = map_option (\<lambda>(rules, load_rep).
     let compile_rep = snd (build_engine rb hb ac c (set_rules rules)); problems = rule_problems load_rep compile_rep
     in if 0 < problems then Inl problems else Inr (rp_compiled compile_rep)) (load_files fs (ru_files (cf_rules c)))"

section \<open>The whole run\<close>

datatype 'e run_error = RunConfig "'e load_error" | RunIdentity | RunCapture capture_error | RunSinks | RunStrict nat

text \<open>What a run meets outside: the text files, the identity files, the capture files and libpcap, whether the event file opens and the kernel's queue
  could be bound, the builders, the host, the clock, and the shutdown flag.\<close>

record run_world =
  rw_text :: "string \<Rightarrow> string option"
  rw_is_uuid :: "string \<Rightarrow> bool"
  rw_fresh :: string
  rw_hostname :: string
  rw_version :: string
  rw_id_files :: id_files
  rw_captures :: "string \<Rightarrow> reader option"
  rw_pcap :: pcap_calls
  rw_sink_opens :: "string \<Rightarrow> bool"
  rw_queue_bound :: "nat \<Rightarrow> bool"
  rw_regex :: regex_builder
  rw_host_regex :: host_regex_builder
  rw_automaton :: ac_builder
  rw_start :: start_view
  rw_clock :: "nat \<Rightarrow> instant"
  rw_surroundings :: surroundings
  rw_shutdown :: shutdown_flag

definition sinks_open :: "(string \<Rightarrow> bool) \<Rightarrow> config \<Rightarrow> bool" where
  "sinks_open opens c \<longleftrightarrow> (fo_enabled (ou_file (cf_outputs c)) \<longrightarrow> opens (fo_path (ou_file (cf_outputs c))))"

definition run :: "(string \<Rightarrow> 'e + config) \<Rightarrow> run_world \<Rightarrow> nat \<Rightarrow> nat \<Rightarrow> run_args \<Rightarrow> string \<Rightarrow>
    ('e run_error + capture_error option \<times> sensor_run) outcome" where
  "run yaml w fuel drain_fuel args path = (case load yaml (rw_text w) path of
       Inl e \<Rightarrow> Returned (Inl (RunConfig e))
     | Inr c \<Rightarrow> (case resolve (rw_is_uuid w) (rw_fresh w) (rw_hostname w) (rw_version w) c (rw_id_files w) of
           (None, _) \<Rightarrow> Returned (Inl RunIdentity)
         | (Some info, _) \<Rightarrow> (case open_source (rw_captures w) (rw_pcap w) args c of
               Inl e \<Rightarrow> Returned (Inl (RunCapture e))
             | Inr src \<Rightarrow>
                 if \<not> sinks_open (rw_sink_opens w) c then Returned (Inl RunSinks)
                 else and_then (no_panic (load_files (rw_text w) (ru_files (cf_rules c)))) (\<lambda>(rules, report).
                   let ec = build_engine (rw_regex w) (rw_host_regex w) (rw_automaton w) c (set_rules rules);
                       problems = rule_problems report (snd ec);
                       enforcing = (pg_enabled (cf_prevent c) \<and> rw_queue_bound w (pg_queue (cf_prevent c)))
                   in if ra_strict args \<and> 0 < problems then Returned (Inl (RunStrict problems))
                      else and_then (main_loop (rw_surroundings w) (pcap_stats (rw_pcap w)) (ra_once args) enforcing (rw_shutdown w) fuel drain_fuel src
                          (assemble args c ec (rw_start w) (rw_clock w) (si_name info) (input_name src))) (\<lambda>r. Returned (Inr r))))))"

text \<open>A strict run starts only what validation passes.\<close>

lemma strict_run_validated:
  assumes "run yaml w fuel drain_fuel args path = Returned (Inr r)" and "ra_strict args"
  shows "\<exists>c n. load yaml (rw_text w) path = Inr c \<and> validate (rw_regex w) (rw_host_regex w) (rw_automaton w) (rw_text w) c = Some (Inr n)"
proof -
  obtain c where c: "load yaml (rw_text w) path = Inr c" using assms(1) by (auto simp: run_def split: sum.splits)
  obtain rules report where l: "load_files (rw_text w) (ru_files (cf_rules c)) = Some (rules, report)"
    using assms(1) c by (auto simp: run_def no_panic_def split: sum.splits prod.splits option.splits if_splits)
  have "rule_problems report (snd (build_engine (rw_regex w) (rw_host_regex w) (rw_automaton w) c (set_rules rules))) = 0"
    using assms c l by (auto simp: run_def no_panic_def Let_def split: sum.splits prod.splits option.splits if_splits)
  then show ?thesis using c l by (auto simp: validate_def Let_def)
qed

section \<open>The allow-list, from the file to the verdict\<close>

lemma listed_network: "entry \<in> set (pg_allow_list p) \<Longrightarrow> network_from_str entry = Inr n \<Longrightarrow> n \<in> set (ps_allow_list (prevention_of p))"
  by (force simp: prevention_of_def List.map_filter_def)

lemma allow_list_entries:
  "list_all (\<lambda>e. \<exists>n. network_from_str e = Inr n) es \<Longrightarrow>
   map Inr (List.map_filter (\<lambda>entry. case network_from_str entry of Inr n \<Rightarrow> Some n | Inl _ \<Rightarrow> None) es) = map network_from_str es"
  by (induction es) (auto simp: List.map_filter_simps)

text \<open>C10. An address the operator wrote into the allow-list is never blocked: when the configuration loads, every entry of the list is a network, none is
passed over, and whatever detection asks for and however the mode changes, no packet to or from an address in it is dropped and no
such address is among the blocked sources.\<close>

theorem listed_never_dropped:
  assumes "load yaml read path = Inr c" and "start_prevention c = Some p" and "entry \<in> set (pg_allow_list (cf_prevent c))"
  shows "\<exists>n. network_from_str entry = Inr n \<and>
    (net_contains n (src_ip t) \<or> net_contains n (dest_ip t) \<longrightarrow> snd (decide (foldl prevent_step p ops) t now) = Accept) \<and>
    (\<forall>a. net_contains n a \<longrightarrow> \<not> hm_contains (pv_sources (foldl prevent_step p ops)) a)"
proof -
  have "list_all (\<lambda>e. \<exists>n. network_from_str e = Inr n) (pg_allow_list (cf_prevent c))"
    using assms(1) unfolding load_exact usable_def by blast
  then obtain n where n: "network_from_str entry = Inr n" using assms(3) by (auto simp: list_all_iff)
  let ?s = "prevention_of (cf_prevent c)" and ?p = "foldl prevent_step p ops"
  have p: "p = prevention_new ?s" using assms(2) by (simp add: start_prevention_def split: if_splits)
  have wf: "prevention_wf ?s ?p" unfolding p by (rule prevent_ops.inv_reachable) simp
  have al: "ps_allow_list (pv_settings ?p) = ps_allow_list ?s"
    using settings_kept [where p = ?p and s = ?s] wf by (simp add: prevention_wf_def)
  have listed: "n \<in> set (ps_allow_list ?s)" using listed_network [OF assms(3) n] .
  have "snd (decide ?p t now) = Accept" if "net_contains n (src_ip t) \<or> net_contains n (dest_ip t)"
  proof -
    have "protected ?p t" using that al listed by (auto simp: protected_def is_allow_listed_def list_ex_iff)
    then have "\<not> is_drop (snd (decide ?p t now))" by (simp add: decide_drop_iff)
    then show ?thesis by (cases "snd (decide ?p t now)") auto
  qed
  moreover have "\<not> hm_contains (pv_sources ?p) a" if "net_contains n a" for a
    using that wf listed al by (auto simp: prevention_wf_def hm_contains_def is_allow_listed_def list_ex_iff)
  ultimately show ?thesis using n by blast
qed

section \<open>The sensor as it is put together\<close>

lemma assemble_ok:
  assumes "tame (fst ec)" and "co_enabled (cf_correlation c) \<Longrightarrow> 1 \<le> co_max_per_host (cf_correlation c)"
  shows "pipeline_ok (sr_pipeline (assemble args c ec sv clock sensor name))"
proof -
  let ?new = "pipeline_new sensor (fc_max_flows (cf_flow c)) (fc_timeout_secs (cf_flow c)) (cf_reassembly c)
    \<lparr>po_emit_anomaly_events = cf_emit_anomaly_events c, po_emit_flow_events = fc_emit_events (cf_flow c), po_dump_streams = ra_dump_streams args\<rparr> clock"
  have arm_ok: "pipeline_ok (arm e pl)" if "pipeline_ok pl" "tame e" for e pl
    using that by (auto simp: pipeline_ok_def tracking_ok_def detection_ok_def arm_def flows_reported_def)
  have prevent_ok: "pipeline_ok (arm_prevention p pl) = pipeline_ok pl" for p pl
    by (simp add: pipeline_ok_def tracking_ok_def detection_ok_def arm_prevention_def flows_reported_def)
  have attach_ok: "pipeline_ok (attach_correlator (configured_correlator c) pl)" if "pipeline_ok pl" for pl
    using that assms(2) by (auto simp: pipeline_ok_def tracking_ok_def detection_ok_def attach_correlator_def flows_reported_def configured_correlator_def
        Let_def correlator_new_def corr_wf_def)
  have "pipeline_ok ?new" by (rule new_ok)
  with arm_ok [OF _ assms(1)] attach_ok prevent_ok show ?thesis
    by (simp add: assemble_def Let_def attach_host_monitoring_def split: option.split)
qed

lemma assemble_fields:
  "pl_options (sr_pipeline (assemble args c ec sv clock sensor name)) = \<lparr>po_emit_anomaly_events = cf_emit_anomaly_events c,
     po_emit_flow_events = fc_emit_events (cf_flow c), po_dump_streams = ra_dump_streams args\<rparr>"
  "pl_decode (sr_pipeline (assemble args c ec sv clock sensor name)) = zero_decode_counters"
  "torn_flag (assemble args c ec sv clock sensor name) = False"
  by (simp_all add: assemble_def Let_def attach_host_monitoring_def arm_def arm_prevention_def attach_correlator_def pipeline_new_def empty_snapshot_of_def
      split: option.split)

text \<open>With flow events on, the books of the flow table are those of the event stream.\<close>

lemma flows_balanced:
  "pipeline_ok q \<Longrightarrow> po_emit_flow_events (pl_options q) \<Longrightarrow>
   fc_created (ft_counters (pl_flows q)) = length (ft_flows (pl_flows q)) + flows_reported q"
  by (auto simp: pipeline_ok_def tracking_ok_def flow_wf_def flow_wf0_def balanced_def Let_def)

section \<open>A capture file, analysed\<close>

declare replay_all.simps [simp del] packet_rounds.simps [simp del]

lemma file_left:
  assumes "clean r" and "contents r = header_bytes h zone sigfigs @ concat (map (record_bytes (fh_byte_swapped h)) ks) @
      take n (record_bytes (fh_byte_swapped h) k)"
    and "fh_link_type h = Ethernet" and "list_all storable_packet (k # ks)" and "n < length (record_bytes (fh_byte_swapped h) k)"
  shows "\<exists>p p'. from_reader r name = Inr p \<and> cc_packets (pr_counters p) = 0 \<and> frames_left p = map (frame_of h name) ks \<and>
    replay_all (Suc (length ks)) p = (map (frame_of h name) ks, None, p') \<and> pr_finished p' \<and> (pr_truncated p' \<longleftrightarrow> 0 < n)"
proof -
  obtain p p' where p: "from_reader r name = Inr p" "cc_packets (pr_counters p) = 0"
      "replay_all (Suc (length ks)) p = (map (frame_of h name) ks, None, p')" "pr_finished p'" "pr_truncated p' \<longleftrightarrow> 0 < n"
    using file_replayed [OF assms] by blast
  let ?N = "Suc (bytes_left (pr_reader p) div record_header_len)" and ?M = "Suc (length ks)"
  have "replay_all (max ?N ?M) p = replay_all ?N p" by (intro replay_stable) auto
  moreover have "replay_all (max ?N ?M) p = (map (frame_of h name) ks, None, p')" using replay_more [OF p(3)] p(4) by simp
  ultimately show ?thesis using p by (auto simp: frames_left_def)
qed

text \<open>The loop over a capture file that is read to its end without an error.\<close>

lemma replay_loop:
  assumes ok: "pipeline_ok (sr_pipeline st)" and whole: "replay_all (Suc (length fs)) p = (fs, None, p')" "frames_left p = fs" and "drains E drain_fuel"
    and "pr_finished p'" and "Suc (length fs) \<le> fuel"
  shows "\<exists>st' before after. run_packet_loop E next_packet pr_counters pr_truncated (\<lambda>_. False) fuel drain_fuel p st = Returned (None, p', st') \<and>
    pipeline_ok (sr_pipeline st') \<and> runs (en_parsers E) (sr_pipeline st) (before @ [Op FlushAll] @ after) (sr_pipeline st') \<and> list_all beside after \<and>
    frames_of before = fs \<and> ft_flows (pl_flows (sr_pipeline st')) = [] \<and> pl_options (sr_pipeline st') = pl_options (sr_pipeline st) \<and>
    cc_packets (sp_capture (sr_snapshot st')) = cc_packets (pr_counters p) + length fs \<and>
    sp_decode (sr_snapshot st') = pl_decode (sr_pipeline st') \<and> dk_packets (pl_decode (sr_pipeline st')) = dk_packets (pl_decode (sr_pipeline st)) + length fs \<and>
    sp_flows (sr_snapshot st') = ft_counters (pl_flows (sr_pipeline st')) \<and> (torn_flag st' \<longleftrightarrow> pr_truncated p' \<or> torn_flag st)"
proof -
  have all: "replay_all fuel p = (fs, None, p')" using replay_more [OF whole(1)] assms(5,6) by simp
  obtain e p1 st1 where rounds: "packet_rounds E next_packet pr_counters (\<lambda>_. False) fuel 0 0 p st = Returned (e, p1, st1)"
      "pipeline_ok (sr_pipeline st1)"
    using replay.file_rounds_return [where shutdown = "\<lambda>_. False", OF ok, of p fuel E 0 0] whole(2) assms(6) by auto
  have e: "e = None" "p1 = p'" using replay_rounds [OF rounds(1)] all by auto
  obtain st' where st': "run_packet_loop E next_packet pr_counters pr_truncated (\<lambda>_. False) fuel drain_fuel p st = Returned (None, p', st')"
      "pipeline_ok (sr_pipeline st')" "ft_flows (pl_flows (sr_pipeline st')) = []" "pl_options (sr_pipeline st') = pl_options (sr_pipeline st1)"
      "sp_decode (sr_snapshot st') = pl_decode (sr_pipeline st1)" "pl_decode (sr_pipeline st') = pl_decode (sr_pipeline st1)"
      "sp_flows (sr_snapshot st') = ft_counters (pl_flows (sr_pipeline st'))" "torn_flag st' \<longleftrightarrow> pr_truncated p' \<or> torn_flag st"
    using loop_returns [OF rounds assms(4), of pr_truncated] e by blast
  obtain before after where b: "runs (en_parsers E) (sr_pipeline st) (before @ [Op FlushAll] @ after) (sr_pipeline st')" "list_all beside after"
      "frames_of before = fs" "cc_packets (sp_capture (sr_snapshot st')) = cc_packets (pr_counters p) + length fs"
    using replay.loop_run [OF st'(1)] whole(2) by auto
  obtain ops1 where o1: "runs (en_parsers E) (sr_pipeline st) ops1 (sr_pipeline st1)" "frames_of ops1 = fs"
    using replay.rounds_run [OF rounds(1)] whole(2) by auto
  then have "dk_packets (pl_decode (sr_pipeline st1)) = dk_packets (pl_decode (sr_pipeline st)) + length fs"
      "pl_options (sr_pipeline st1) = pl_options (sr_pipeline st)"
    using run_counts [OF ok, of "en_parsers E" ops1] by (auto simp: runs_def)
  with st' b show ?thesis by auto
qed

text \<open>After a capture that ended without an error the main loop returns, or stays up as a host-only loop while a kernel queue is served.\<close>

lemma after_capture:
  assumes capture: "capture_loop E stats (sd_first sd) fuel drain_fuel src (publish E no_capture st) = Returned (None, st1)"
    and "pipeline_ok (sr_pipeline st1)" and "drains E drain_fuel" and "enforcing \<Longrightarrow> \<not> sd_between sd \<Longrightarrow> \<exists>m < fuel. sd_second sd m"
    and "sp_decode (sr_snapshot st1) = pl_decode (sr_pipeline st1)" "sp_flows (sr_snapshot st1) = ft_counters (pl_flows (sr_pipeline st1))"
  shows "\<exists>st' ops. main_loop E stats False enforcing sd fuel drain_fuel src st = Returned (None, st') \<and>
    list_all beside ops \<and> runs (en_parsers E) (sr_pipeline st1) ops (sr_pipeline st') \<and> untouched (sr_pipeline st1) (sr_pipeline st') \<and>
    torn_flag st' = torn_flag st1 \<and> sp_capture (sr_snapshot st') = (if enforcing \<and> \<not> sd_between sd then no_capture else sp_capture (sr_snapshot st1)) \<and>
    sp_decode (sr_snapshot st') = pl_decode (sr_pipeline st') \<and> sp_flows (sr_snapshot st') = ft_counters (pl_flows (sr_pipeline st'))"
proof (cases "enforcing \<and> \<not> sd_between sd")
  case True
  then obtain m where "m < fuel" "sd_second sd m" using assms(4) by auto
  then obtain st' where h: "host_only_loop E (sd_second sd) fuel drain_fuel st1 = Returned st'" using host_loop_returns [OF assms(2) _ _ assms(3)] by blast
  then have "main_loop E stats False enforcing sd fuel drain_fuel src st = Returned (None, st')"
    using capture True by (simp add: main_loop_def Let_def)
  with host_loop_keeps [OF h assms(2)] True show ?thesis by auto
next
  case False
  then have "main_loop E stats False enforcing sd fuel drain_fuel src st = Returned (None, st1)"
    using capture by (auto simp: main_loop_def Let_def)
  with assms(5,6) False show ?thesis by (intro exI [of _ st1] exI [of _ "[]"]) (auto simp: untouched_def)
qed

text \<open>C5. The sensor analyses a capture file completely, in order and only once. Take a file of packets with Ethernet frames, the last record possibly cut
short, and a reader that gives its bytes (in pieces of any size, with interruptions) and does not fail; put the sensor together from any configuration whose
correlation, if it is on, has room for an observation per host, with an engine whose inspections return; run it without \<open>--once\<close> and without a request to
stop before the file is at its end; and let the host sensors' clock reach the deadline of a drain. The loop returns without an error or a panic, if it serves
a kernel queue after it is told to stop. Then the pipeline has been given exactly the packets of the file, in order, and a flush behind the last; the
statistics count each of them as decoded; no flow is left open; with flow events on there are as many of them as flows were ever created;
and the file is marked as cut short when it is. Each packet is counted as captured too, unless the sensor stayed up to serve a
kernel queue: it then publishes capture counters of zero.\<close>

theorem capture_file_analysed:
  fixes args sv clock sensor name
  assumes "clean r" and "contents r = header_bytes h zone sigfigs @ concat (map (record_bytes (fh_byte_swapped h)) ks) @
      take n (record_bytes (fh_byte_swapped h) k)"
    and "fh_link_type h = Ethernet" and "list_all storable_packet (k # ks)" and "n < length (record_bytes (fh_byte_swapped h) k)"
    and "tame (fst ec)" and "co_enabled (cf_correlation c) \<Longrightarrow> 1 \<le> co_max_per_host (cf_correlation c)"
    and "drains E drain_fuel" and "sd_first sd = (\<lambda>_. False)" and "Suc (length ks) \<le> fuel"
    and "enforcing \<Longrightarrow> \<not> sd_between sd \<Longrightarrow> \<exists>m < fuel. sd_second sd m"
  defines "st \<equiv> assemble args c ec sv clock sensor name"
  shows "\<exists>p st' before after. from_reader r name = Inr p \<and>
    main_loop E stats False enforcing sd fuel drain_fuel (ReplayInput p) st = Returned (None, st') \<and>
    runs (en_parsers E) (sr_pipeline st) (before @ [Op FlushAll] @ after) (sr_pipeline st') \<and> list_all beside after \<and>
    frames_of before = map (frame_of h name) ks \<and> dk_packets (sp_decode (sr_snapshot st')) = length ks \<and>
    cc_packets (sp_capture (sr_snapshot st')) = (if enforcing \<and> \<not> sd_between sd then 0 else length ks) \<and>
    ft_flows (pl_flows (sr_pipeline st')) = [] \<and>
    (fc_emit_events (cf_flow c) \<longrightarrow> fc_created (sp_flows (sr_snapshot st')) = flows_reported (sr_pipeline st')) \<and> (torn_flag st' \<longleftrightarrow> 0 < n)"
proof -
  obtain p p' where p: "from_reader r name = Inr p" "cc_packets (pr_counters p) = 0" "frames_left p = map (frame_of h name) ks"
      "replay_all (Suc (length ks)) p = (map (frame_of h name) ks, None, p')" "pr_finished p'" "pr_truncated p' \<longleftrightarrow> 0 < n"
    using file_left [OF assms(1-5)] by blast
  let ?st = "publish E no_capture st" and ?ops0 = "[QueueRead (en_depth E (sr_publications st))]"
  have ok: "pipeline_ok (sr_pipeline ?st)"
    using assemble_ok [OF assms(6,7)] read_depth_ok by (simp add: st_def publish_def Let_def)
  have start: "pl_options (sr_pipeline ?st) = pl_options (sr_pipeline st)" "dk_packets (pl_decode (sr_pipeline ?st)) = 0" "\<not> torn_flag ?st"
    using assemble_fields(2,3) [of args c ec sv clock sensor name] by (simp_all add: publish_def Let_def st_def zero_decode_counters_def)
  obtain st1 before after where st1: "run_packet_loop E next_packet pr_counters pr_truncated (\<lambda>_. False) fuel drain_fuel p ?st = Returned (None, p', st1)"
      "pipeline_ok (sr_pipeline st1)" "runs (en_parsers E) (sr_pipeline ?st) (before @ [Op FlushAll] @ after) (sr_pipeline st1)" "list_all beside after"
      "frames_of before = map (frame_of h name) ks" "ft_flows (pl_flows (sr_pipeline st1)) = []" "pl_options (sr_pipeline st1) = pl_options (sr_pipeline ?st)"
      "cc_packets (sp_capture (sr_snapshot st1)) = length ks" "sp_decode (sr_snapshot st1) = pl_decode (sr_pipeline st1)"
      "dk_packets (pl_decode (sr_pipeline st1)) = length ks" "sp_flows (sr_snapshot st1) = ft_counters (pl_flows (sr_pipeline st1))"
      "torn_flag st1 \<longleftrightarrow> pr_truncated p'"
    using replay_loop [where fs = "map (frame_of h name) ks" and fuel = fuel, OF ok _ p(3) assms(8) p(5)] p(2,4) start assms(10) by auto
  have capture: "capture_loop E stats (sd_first sd) fuel drain_fuel (ReplayInput p) ?st = Returned (None, st1)"
    using st1(1) assms(9) by (simp add: capture_loop_def)
  obtain st' ops where st': "main_loop E stats False enforcing sd fuel drain_fuel (ReplayInput p) st = Returned (None, st')"
      "list_all beside ops" "runs (en_parsers E) (sr_pipeline st1) ops (sr_pipeline st')" "untouched (sr_pipeline st1) (sr_pipeline st')"
      "torn_flag st' = torn_flag st1" "cc_packets (sp_capture (sr_snapshot st')) = (if enforcing \<and> \<not> sd_between sd then 0 else length ks)"
      "sp_decode (sr_snapshot st') = pl_decode (sr_pipeline st')" "sp_flows (sr_snapshot st') = ft_counters (pl_flows (sr_pipeline st'))"
    using after_capture [where enforcing = enforcing, OF capture st1(2) assms(8,11) st1(9,11)] st1(8) by (auto simp: no_capture_def split: if_splits)
  have "runs (en_parsers E) (sr_pipeline st) ((?ops0 @ before) @ [Op FlushAll] @ after @ ops) (sr_pipeline st')"
    using runs_trans [OF publish_run runs_trans [OF st1(3) st'(3)]] by simp
  moreover have "pipeline_ok (sr_pipeline st')" using beside_keeps [OF st'(2,3) st1(2)] by blast
  then have "fc_emit_events (cf_flow c) \<longrightarrow> fc_created (sp_flows (sr_snapshot st')) = flows_reported (sr_pipeline st')"
    using flows_balanced [of "sr_pipeline st'"] st'(4,8) st1(6,7) start(1) by (auto simp: untouched_def st_def assemble_fields)
  ultimately show ?thesis
    using p(1,6) st1(4,5,6,10,12) st' by (intro exI [of _ p] exI [of _ st'] exI [of _ "?ops0 @ before"] exI [of _ "after @ ops"])
      (simp add: untouched_def)
qed

section \<open>Any source\<close>

fun input_frames :: "packet_input \<Rightarrow> raw_packet list" where
  "input_frames (ReplayInput p) = frames_left p"
| "input_frames (LiveInput l) = frames_until (lc_name l) (lc_handle l)"
| "input_frames NoInput = []"

text \<open>C19. The main loop adds nothing to the pipeline and takes nothing away: whatever the source, its errors and idle polls, the host sensors and the
shutdown signal did, what a capture loop that returned has done to the pipeline is a sequence of the pipeline's own steps; the packets in
it are a first part of the packets of the source, in order and each once, all of them unless the loop was told to stop; and a flush
comes after the last of them, with only host records and readings of the kernel's queue behind it.\<close>

theorem loop_refines_pipeline:
  assumes "capture_loop E stats shutdown fuel drain_fuel src st = Returned (e, st')" and "src \<noteq> NoInput"
  shows "\<exists>before after rest. runs (en_parsers E) (sr_pipeline st) (before @ [Op FlushAll] @ after) (sr_pipeline st') \<and> list_all beside after \<and>
    input_frames src = frames_of before @ rest \<and> ((\<forall>k. \<not> shutdown k) \<longrightarrow> rest = [])"
proof (cases src)
  case (ReplayInput p)
  obtain p' where "run_packet_loop E next_packet pr_counters pr_truncated shutdown fuel drain_fuel p st = Returned (e, p', st')"
    using assms(1) ReplayInput
    by (cases "run_packet_loop E next_packet pr_counters pr_truncated shutdown fuel drain_fuel p st") (auto simp: capture_loop_def)
  from replay.loop_run [OF this] show ?thesis by (auto simp: ReplayInput)
next
  case (LiveInput l)
  obtain l' where "run_packet_loop E live_next (live_counters stats) (\<lambda>_. False) shutdown fuel drain_fuel l st = Returned (e, l', st')"
    using assms(1) LiveInput
    by (cases "run_packet_loop E live_next (live_counters stats) (\<lambda>_. False) shutdown fuel drain_fuel l st") (auto simp: capture_loop_def)
  from live.loop_run [OF this] show ?thesis by (auto simp: LiveInput)
qed (use assms(2) in simp)

text \<open>C20. The sensor stops when it is told to. Take any configuration whose correlation, if it is on, has room for an observation per host (the
check accepts one that has none, and the correlator then panics), an engine whose inspections return, and host sensors whose clock reaches the deadline of a
drain. Once the shutdown flag is set, at the latest at its k-th look, the loop over any source, an idle or an endless one included, has returned by the
next round and without a panic, and with a packet source no flow is left open.\<close>

theorem shutdown_ends_loop:
  assumes "tame (fst ec)" and "co_enabled (cf_correlation c) \<Longrightarrow> 1 \<le> co_max_per_host (cf_correlation c)"
    and "shutdown k" and "drains E drain_fuel"
  shows "\<exists>e st'. capture_loop E stats shutdown (Suc k) drain_fuel src (assemble args c ec sv clock sensor name) = Returned (e, st') \<and>
    (src \<noteq> NoInput \<longrightarrow> ft_flows (pl_flows (sr_pipeline st')) = [])"
proof -
  let ?st = "assemble args c ec sv clock sensor name"
  have ok: "pipeline_ok (sr_pipeline ?st)" using assemble_ok [OF assms(1,2)] .
  have loop: "\<exists>e s' st'. run_packet_loop E nf cs torn shutdown (Suc k) drain_fuel s ?st = Returned (e, s', st') \<and>
      ft_flows (pl_flows (sr_pipeline st')) = []"
    for nf :: "'a \<Rightarrow> (capture_error + captured) \<times> 'a" and cs torn and s :: 'a
  proof -
    obtain e s1 st1 where "packet_rounds E nf cs shutdown (Suc k) 0 0 s ?st = Returned (e, s1, st1)" "pipeline_ok (sr_pipeline st1)"
      using rounds_return [where shutdown = shutdown and round = 0 and k = k and fuel = "Suc k", OF ok] assms(3) by fastforce
    from loop_returns [OF this assms(4)] show ?thesis by blast
  qed
  show ?thesis
  proof (cases src)
    case (ReplayInput p)
    from loop [of next_packet pr_counters pr_truncated p] ReplayInput show ?thesis by (auto simp: capture_loop_def)
  next
    case (LiveInput l)
    from loop [of live_next "live_counters stats" "\<lambda>_. False" l] LiveInput show ?thesis by (auto simp: capture_loop_def)
  next
    case NoInput
    from host_loop_returns [where shutdown = shutdown and k = k and fuel = "Suc k", OF ok _ _ assms(4)] assms(3) NoInput show ?thesis
      by (auto simp: capture_loop_def)
  qed
qed

section \<open>Validation\<close>

lemma host_compile_accounts:
  "length (hc_compiled cs) + rp_not_evaluable (hc_report cs) + length (rp_failed (hc_report cs)) = n \<Longrightarrow>
   cs' = foldl (host_compile_step hb limits) cs rules \<Longrightarrow>
   length (hc_compiled cs') + rp_not_evaluable (hc_report cs') + length (rp_failed (hc_report cs')) = n + length rules"
proof (induction rules arbitrary: cs n)
  case (Cons r rules)
  let ?cs = "host_compile_step hb limits cs r"
  have "length (hc_compiled ?cs) + rp_not_evaluable (hc_report ?cs) + length (rp_failed (hc_report ?cs)) = Suc n"
    using Cons.prems(1) by (auto simp: host_compile_step_def split: sum.split)
  from Cons.IH [OF this] Cons.prems(2) show ?case by simp
qed simp

lemma host_report_complete:
  assumes "compile_hosts hb rules limits = (hs, report)"
  shows "length (hs_rules hs) = rp_compiled report \<and> rp_compiled report + rp_not_evaluable report + length (rp_failed report) = length rules"
proof -
  define cs where "cs = foldl (host_compile_step hb limits) empty_host_compile rules"
  have r: "hs_rules hs = hc_compiled cs" "report = (hc_report cs)\<lparr>rp_compiled := length (hc_compiled cs)\<rparr>"
    using assms unfolding compile_hosts_def cs_def [symmetric] Let_def by auto
  show ?thesis using host_compile_accounts [of empty_host_compile 0 cs, OF _ cs_def] by (simp add: r empty_host_compile_def default_report_def)
qed

lemma engine_report_complete:
  assumes "engine_new rb hb ac rules vt limits = (e, report)"
  shows "length (rs_rules (en_ruleset e)) + length (hs_rules (en_host_rules e)) = rp_compiled report \<and>
    rp_compiled report + rp_not_evaluable report + length (rp_failed report) = length rules"
proof -
  obtain hosts nets where p: "partition is_host_rule_by_options rules = (hosts, nets)" by (metis surj_pair)
  obtain rs r1 where c: "compile rb ac nets vt (el_compile limits) = (rs, r1)" by (metis surj_pair)
  obtain hr r2 where h: "compile_hosts hb hosts (el_compile limits) = (hr, r2)" by (metis surj_pair)
  have "length hosts + length nets = length rules" using p sum_length_filter_compl [of is_host_rule_by_options rules] by (auto simp: comp_def)
  with compile_report_complete [OF c] host_report_complete [OF h] assms show ?thesis
    by (auto simp: engine_new_def p c h merge_reports_def simp del: partition_filter_conv)
qed

text \<open>C14. What validation lets through is what runs: validating never panics; it either counts problems, or nothing in the rule files was skipped, the
rules loaded are as many as the files have entries, and each of them is armed in the engine the sensor would run, the number of which
validation reports, or is counted as using a keyword that is not supported yet.\<close>

theorem validated_rules_run:
  "\<exists>rs rep e comp verdict. load_files fs (ru_files (cf_rules c)) = Some (rs, rep) \<and> build_engine rb hb ac c (set_rules rs) = (e, comp) \<and>
     validate rb hb ac fs c = Some verdict \<and>
     (case verdict of
        Inl problems \<Rightarrow> problems = length (lr_skipped rep) + length (rp_failed comp) \<and> 0 < problems
      | Inr running \<Rightarrow> length (set_rules rs) = sum_list (map (entries_of fs) (ru_files (cf_rules c))) \<and> lr_skipped rep = [] \<and>
          running = length (rs_rules (en_ruleset e)) + length (hs_rules (en_host_rules e)) \<and>
          running + rp_not_evaluable comp = length (set_rules rs))"
proof -
  obtain rs rep where l: "load_files fs (ru_files (cf_rules c)) = Some (rs, rep)" "loaded_wf (rs, rep)"
      "lr_loaded rep + length (lr_skipped rep) = sum_list (map (entries_of fs) (ru_files (cf_rules c)))"
    using load_paths_ok [OF empty_wf, of fs "ru_files (cf_rules c)"] by (auto simp: load_files_def empty_report_def)
  then have n: "lr_loaded rep = length (set_rules rs)" by (auto simp: loaded_wf_def report_wf_def)
  obtain e comp where b: "build_engine rb hb ac c (set_rules rs) = (e, comp)" by (metis surj_pair)
  then have r: "length (rs_rules (en_ruleset e)) + length (hs_rules (en_host_rules e)) = rp_compiled comp"
      "rp_compiled comp + rp_not_evaluable comp + length (rp_failed comp) = length (set_rules rs)"
    using engine_report_complete by (auto simp: build_engine_def Let_def)
  let ?problems = "length (lr_skipped rep) + length (rp_failed comp)"
  have "validate rb hb ac fs c = Some (if 0 < ?problems then Inl ?problems else Inr (rp_compiled comp))"
    by (simp add: validate_def l(1) b rule_problems_def Let_def)
  with l n b r show ?thesis by (intro exI [of _ rs] exI [of _ rep] exI [of _ e] exI [of _ comp]) auto
qed

section \<open>Examples\<close>

definition guarded_config :: config where
  "guarded_config = default_config\<lparr>cf_prevent := default_prevent_config\<lparr>pg_enabled := True, pg_mode := ''prevent'', pg_allow_list := [''10.0.0.0/8'']\<rparr>\<rparr>"

lemma guarded_loads:
  "load (\<lambda>_. Inr guarded_config) (\<lambda>_. Some ''x'') ''c.yaml'' = Inr (resolve_paths (guarded_config\<lparr>cf_source_path := Some ''c.yaml''\<rparr>))"
proof -
  have "network_from_str ''10.0.0.0/8'' = Inr \<lparr>net_address = V4 0x0A000000, net_prefix_len = 8\<rparr>" by code_simp
  then have "check (resolve_paths (guarded_config\<lparr>cf_source_path := Some ''c.yaml''\<rparr>)) = Inr ()"
    by (simp add: Let_def guarded_config_def check_parts check_basics_def check_host_def check_detection_def reassembly_check_ok
        resolve_paths_def default_sections is_relative_def path_join_def ascii_lowercase_def log_levels_def char_lower_def)
  moreover have "str_trim ''x'' \<noteq> []" by code_simp
  ultimately show ?thesis by (simp add: load_def from_yaml_def)
qed

theorem listed_never_dropped_witness:
  "\<exists>c p. load (\<lambda>_. Inr guarded_config :: unit + config) (\<lambda>_. Some ''x'') ''c.yaml'' = Inr c \<and> start_prevention c = Some p \<and> armed p \<and>
     snd (decide (foldl prevent_step p [Condemn \<lparr>src_ip = V4 0x0A010203, src_port = None, dest_ip = V4 2, dest_port = None, proto = Icmp\<rparr> 0])
       \<lparr>src_ip = V4 0x0A010203, src_port = None, dest_ip = V4 2, dest_port = None, proto = Icmp\<rparr> 1) = Accept"
proof -
  let ?c = "resolve_paths (guarded_config\<lparr>cf_source_path := Some ''c.yaml''\<rparr>)"
  let ?t = "\<lparr>src_ip = V4 0x0A010203, src_port = None, dest_ip = V4 2, dest_port = None, proto = Icmp\<rparr>"
  have pc: "cf_prevent ?c = default_prevent_config\<lparr>pg_enabled := True, pg_mode := ''prevent'', pg_allow_list := [''10.0.0.0/8'']\<rparr>"
    by (simp add: guarded_config_def resolve_paths_def Let_def)
  then obtain p where p: "start_prevention ?c = Some p" "armed p"
    by (simp add: start_prevention_def prevention_of_def armed_def prevention_new_def)
  have n: "network_from_str ''10.0.0.0/8'' = Inr \<lparr>net_address = V4 0x0A000000, net_prefix_len = 8\<rparr>" by code_simp
  moreover have "net_contains \<lparr>net_address = V4 0x0A000000, net_prefix_len = 8\<rparr> (V4 0x0A010203)" by code_simp
  moreover have e: "''10.0.0.0/8'' \<in> set (pg_allow_list (cf_prevent ?c))" by (simp add: pc)
  ultimately have "snd (decide (foldl prevent_step p [Condemn ?t 0]) ?t 1) = Accept"
    using listed_never_dropped [OF guarded_loads p(1) e, where t = ?t and ops = "[Condemn ?t 0]" and now = 1] by auto
  with p guarded_loads show ?thesis by blast
qed

definition sample_surroundings :: surroundings where
  "sample_surroundings = \<lparr>en_parsers = wire_parsers, en_json = (\<lambda>_. None), en_lossy = (\<lambda>_. []), en_show_socket = (\<lambda>_. []),
     en_polls = (\<lambda>i. \<lparr>pe_updates = [], pe_journal = [], pe_view = \<lparr>hv_files = (\<lambda>_. NotFound), hv_proc = sample_tree []\<rparr>, pe_before = 0, pe_now = 0,
       pe_after = host_drain, pe_times = int\<rparr>), en_depth = (\<lambda>_. None)\<rparr>"

definition sample_start :: start_view where
  "sample_start = \<lparr>sv_os = ''linux'', sv_file = (\<lambda>_. NotFound), sv_exists = (\<lambda>_. False), sv_journal_error = None, sv_worker = None, sv_now = 0\<rparr>"

definition sample_args :: run_args where
  "sample_args = \<lparr>ra_replay = None, ra_once = False, ra_strict = False, ra_dump_streams = False\<rparr>"

definition sample_flag :: shutdown_flag where
  "sample_flag = \<lparr>sd_first = (\<lambda>_. False), sd_between = False, sd_second = (\<lambda>_. True)\<rparr>"

abbreviation sample_sensor_run :: sensor_run where
  "sample_sensor_run \<equiv> assemble sample_args default_config (small_engine two_rules, default_report) sample_start (\<lambda>n. n) ''sensor'' ''f''"

lemma sample_drains: "drains sample_surroundings 1"
  by (simp add: drains_def sample_surroundings_def)

lemma default_windows: "1 \<le> co_max_per_host (cf_correlation default_config)" "fc_emit_events (cf_flow default_config)"
  by (simp_all add: default_config_def default_correlation_config_def default_flow_config_def)

lemma sample_file:
  "clean sample_reader" "contents sample_reader = header_bytes sample_header 0 0 @ concat (map (record_bytes (fh_byte_swapped sample_header)) [(7, 5, 60, [1, 2, 3])]) @
      take 18 (record_bytes (fh_byte_swapped sample_header) (8, 0, 3, [4, 5, 6]))"
  "fh_link_type sample_header = Ethernet" "list_all storable_packet [(8, 0, 3, [4, 5, 6]), (7, 5, 60, [1, 2, 3])]"
  "18 < length (record_bytes (fh_byte_swapped sample_header) (8, 0, 3, [4, 5, 6]))"
  by (simp_all add: clean_def sample_reader_def sample_header_def header_bytes_def record_bytes_def Let_def in_order_def be_bytes_def storable_packet_def
      max_frame_len_def upt_rec)

theorem capture_file_analysed_witness:
  "(\<exists>p st' before after. from_reader sample_reader ''f'' = Inr p \<and>
    main_loop sample_surroundings (\<lambda>_. None) False False sample_flag 2 1 (ReplayInput p) sample_sensor_run = Returned (None, st') \<and>
    runs wire_parsers (sr_pipeline sample_sensor_run) (before @ [Op FlushAll] @ after) (sr_pipeline st') \<and>
    dk_packets (sp_decode (sr_snapshot st')) = 1 \<and> cc_packets (sp_capture (sr_snapshot st')) = 1 \<and>
    fc_created (sp_flows (sr_snapshot st')) = flows_reported (sr_pipeline st') \<and> torn_flag st') \<and>
   (\<exists>p st'. from_reader sample_reader ''f'' = Inr p \<and>
    main_loop sample_surroundings (\<lambda>_. None) False True sample_flag 2 1 (ReplayInput p) sample_sensor_run = Returned (None, st') \<and>
    dk_packets (sp_decode (sr_snapshot st')) = 1 \<and> cc_packets (sp_capture (sr_snapshot st')) = 0)"
proof -
  have flag: "sd_first sample_flag = (\<lambda>_. False)" "sd_second sample_flag 0" "\<not> sd_between sample_flag" by (simp_all add: sample_flag_def)
  have stop: "\<exists>m < 2. sd_second sample_flag m" using flag(2) by (intro exI [of _ 0]) simp
  have p: "en_parsers sample_surroundings = wire_parsers" by (simp add: sample_surroundings_def)
  have engine: "tame (fst (small_engine two_rules, default_report))" by (simp add: small_engine_tame)
  note analysed = capture_file_analysed [OF sample_file engine default_windows(1) sample_drains flag(1), where args = sample_args and sv = sample_start
      and clock = "\<lambda>n. n" and sensor = "''sensor''" and name = "''f''" and stats = "\<lambda>_. None" and fuel = 2]
  show ?thesis using analysed [of False] analysed [of True] stop flag(3) default_windows(2) by (auto simp: p)
qed

theorem loop_refines_pipeline_witness:
  "\<exists>p st' before after. capture_loop sample_surroundings (\<lambda>_. None) (\<lambda>_. False) 2 1 (ReplayInput p) sample_sensor_run = Returned (None, st') \<and>
    runs wire_parsers (sr_pipeline sample_sensor_run) (before @ [Op FlushAll] @ after) (sr_pipeline st') \<and>
    map rp_data (frames_of before) = [[1, 2, 3]]"
proof -
  obtain p p' where p: "frames_left p = map (frame_of sample_header ''f'') [(7, 5, 60, [1, 2, 3])]"
      "replay_all (Suc (length [(7 :: 32 word, 5 :: 32 word, 60 :: 32 word, [1, 2, 3 :: byte])])) p = (map (frame_of sample_header ''f'') [(7, 5, 60, [1, 2, 3])], None, p')"
      "pr_finished p'"
    using file_left [OF sample_file, of "''f''"] by blast
  have ok: "pipeline_ok (sr_pipeline sample_sensor_run)" by (rule assemble_ok) (use small_engine_tame default_windows in auto)
  obtain st' where "run_packet_loop sample_surroundings next_packet pr_counters pr_truncated (\<lambda>_. False) 2 1 p sample_sensor_run = Returned (None, p', st')"
    using replay_loop [OF ok _ p(1) sample_drains p(3), of 2] p(2) by auto
  then have c: "capture_loop sample_surroundings (\<lambda>_. None) (\<lambda>_. False) 2 1 (ReplayInput p) sample_sensor_run = Returned (None, st')"
    by (simp add: capture_loop_def)
  have e: "en_parsers sample_surroundings = wire_parsers" by (simp add: sample_surroundings_def)
  obtain before after where b: "runs wire_parsers (sr_pipeline sample_sensor_run) (before @ [Op FlushAll] @ after) (sr_pipeline st')"
      "frames_left p = frames_of before"
    using loop_refines_pipeline [OF c] by (auto simp: e)
  have "frames_of before = map (frame_of sample_header ''f'') [(7, 5, 60, [1, 2, 3])]" using b(2) p(1) by simp
  then have "map rp_data (frames_of before) = [[1, 2, 3]]" by (simp add: frame_of_def)
  with c b(1) show ?thesis by (intro exI conjI)
qed

theorem shutdown_ends_loop_witness:
  "\<exists>e st'. capture_loop sample_surroundings (\<lambda>_. None) (\<lambda>k. 3 \<le> k) 4 1
      (LiveInput \<lparr>lc_handle = [], lc_name = ''eth0'', lc_link_type = Ethernet, lc_delivered_packets = 0, lc_delivered_bytes = 0\<rparr>) sample_sensor_run =
    Returned (e, st') \<and> ft_flows (pl_flows (sr_pipeline st')) = []"
proof -
  have "(\<lambda>k. 3 \<le> k) (3 :: nat)" "tame (fst (small_engine two_rules, default_report))" by (simp_all add: small_engine_tame)
  from shutdown_ends_loop [where shutdown = "\<lambda>k. 3 \<le> k" and k = 3, OF this(2) default_windows(1) this(1) sample_drains, of "\<lambda>_. None"
      "LiveInput \<lparr>lc_handle = [], lc_name = ''eth0'', lc_link_type = Ethernet, lc_delivered_packets = 0, lc_delivered_bytes = 0\<rparr>"
      sample_args sample_start "\<lambda>n. n" "''sensor''" "''f''"]
  show ?thesis by (simp add: eval_nat_numeral)
qed

section \<open>What statistics and the check leave out\<close>

lemma drop_rate_range: "0 \<le> drop_rate c \<and> drop_rate c \<le> 1"
  by (auto simp: drop_rate_def Let_def)

text \<open>A sensor without a packet source reports its engine as switched off, although it inspects every host record with it.\<close>

lemma host_only_engine_reported_off:
  "stats_of q report uptime s = Some ev \<Longrightarrow> sp_source s = [] \<Longrightarrow> \<not> gs_enabled (se_engine ev)"
  by (auto simp: stats_of_def Let_def)

text \<open>The check accepts correlation windows without room, which the correlator cannot use.\<close>

lemma zero_per_host_accepted:
  "check (resolve_paths (default_config\<lparr>cf_correlation := default_correlation_config\<lparr>co_max_per_host := 0\<rparr>\<rparr>)) = Inr ()"
  by (simp add: check_parts check_basics_def check_host_def check_detection_def reassembly_check_ok Let_def resolve_paths_def default_sections
      is_relative_def path_join_def ascii_lowercase_def log_levels_def char_lower_def)

end
