(* ===== verification/Inline.thy ===== *)
theory Inline
  imports VerdictPath
begin

text \<open>
  The verdict thread beside the detection path (\<open>spawn_verdict_thread\<close> of \<open>crates/cli/src/run.rs\<close>, \<open>enforce\<close> and \<open>publish\<close> of
  \<open>crates/cli/src/pipeline.rs\<close>): two threads and one verdict store behind a mutex. What happens under the lock is one step; the threads
  take their steps in any order. The verdict thread waits for a packet, holds it until it has the lock, judges and answers it;
  it stops when the shutdown flag is set or the queue has ended. Nothing that runs under the lock panics, so the mutex is never poisoned.
\<close>

datatype verdict_phase = Waiting | Holding queued_packet | Stopped

record inline_state =
  il_queue :: kernel_queue
  il_phase :: verdict_phase
  il_store :: prevention

datatype inline_event = ShutdownSeen | Taken queued_packet | QueueEnded | Judged queued_packet decision instant nat
  | Detected net_tuple instant block_outcome | DepthRead queue_depth_line

inductive inline_step :: "inline_event \<Rightarrow> inline_state \<Rightarrow> inline_state \<Rightarrow> bool" where
  see_shutdown: "il_phase st = Waiting \<Longrightarrow> inline_step ShutdownSeen st (st\<lparr>il_phase := Stopped\<rparr>)"
| take_packet: "il_phase st = Waiting \<Longrightarrow> kernel_next (il_queue st) = (Some packet, q) \<Longrightarrow>
    inline_step (Taken packet) st (st\<lparr>il_queue := q, il_phase := Holding packet\<rparr>)"
| queue_ends: "il_phase st = Waiting \<Longrightarrow> kernel_next (il_queue st) = (None, q) \<Longrightarrow>
    inline_step QueueEnded st (st\<lparr>il_queue := q, il_phase := Stopped\<rparr>)"
| judge_packet: "il_phase st = Holding packet \<Longrightarrow> judge_and_resolve kernel_resolve (il_queue st) (il_store st) packet now micros = (q, p, d) \<Longrightarrow>
    inline_step (Judged packet d now micros) st (st\<lparr>il_queue := q, il_phase := Waiting, il_store := p\<rparr>)"
| detect: "block (il_store st) t now = (p, out) \<Longrightarrow> inline_step (Detected t now out) st (st\<lparr>il_store := p\<rparr>)"
| read_queue_depth: "inline_step (DepthRead d) st (st\<lparr>il_store := record_queue_depth (il_store st) d\<rparr>)"

inductive inline_run :: "inline_state \<Rightarrow> inline_event list \<Rightarrow> inline_state \<Rightarrow> bool" where
  run_start: "inline_run st [] st"
| run_next: "inline_run st trace st1 \<Longrightarrow> inline_step ev st1 st2 \<Longrightarrow> inline_run st (trace @ [ev]) st2"

inductive_cases judged_stepE: "inline_step (Judged packet d now micros) st st'"

definition inline_start :: "prevention_settings \<Rightarrow> recv_result list \<Rightarrow> inline_state" where
  "inline_start s incoming = \<lparr>il_queue = kernel_bind incoming, il_phase = Waiting, il_store = prevention_new s\<rparr>"

section \<open>The store\<close>

fun store_ops :: "inline_event \<Rightarrow> prevent_op list" where
  "store_ops (Judged packet d now micros) = [Judge (qp_tuple packet) now, Latency (min micros u64_max)]"
| "store_ops (Detected t now out) = [Condemn t now]"
| "store_ops (DepthRead d) = [Depth d]"
| "store_ops _ = []"

definition trace_ops :: "inline_event list \<Rightarrow> prevent_op list" where
  "trace_ops trace = concat (map store_ops trace)"

lemma step_store: "inline_step ev st st' \<Longrightarrow> il_store st' = foldl prevent_step (il_store st) (store_ops ev)"
  by (induction rule: inline_step.induct) (auto simp: judge_and_resolve_def judge_def Let_def split: prod.splits)

lemma run_store: "inline_run (inline_start s incoming) trace st \<Longrightarrow> il_store st = foldl prevent_step (prevention_new s) (trace_ops trace)"
proof (induction "inline_start s incoming" trace st rule: inline_run.induct)
  case (run_next trace st1 ev st2)
  then show ?case using step_store [OF run_next.hyps(3)] by (simp add: trace_ops_def)
qed (simp add: trace_ops_def inline_start_def)

lemma granted_snocD:
  "granted s (ops @ [op]) t tm \<Longrightarrow>
   granted s ops t tm \<or> (\<exists>src. op = Condemn t tm \<and> snd (block (foldl prevent_step (prevention_new s) ops) t tm) = Blocked src)"
proof -
  assume "granted s (ops @ [op]) t tm"
  then obtain pre post src where g: "ops @ [op] = pre @ Condemn t tm # post" "snd (block (foldl prevent_step (prevention_new s) pre) t tm) = Blocked src"
    unfolding granted_def by blast
  show ?thesis
  proof (cases post rule: rev_cases)
    case Nil
    then show ?thesis using g by auto
  next
    case (snoc post' x)
    then have "ops = pre @ Condemn t tm # post'" using g(1) by simp
    then show ?thesis using g(2) unfolding granted_def by blast
  qed
qed

text \<open>What was granted was asked for by the detection path, in a step of the trace.\<close>

lemma granted_detected:
  "inline_run (inline_start s incoming) trace st \<Longrightarrow> granted s (trace_ops trace) t tm \<Longrightarrow> \<exists>src. Detected t tm (Blocked src) \<in> set trace"
proof (induction "inline_start s incoming" trace st rule: inline_run.induct)
  case run_start
  then show ?case by (simp add: trace_ops_def granted_def)
next
  case (run_next trace st1 ev st2)
  have t: "trace_ops (trace @ [ev]) = trace_ops trace @ store_ops ev" by (simp add: trace_ops_def)
  have "granted s (trace_ops trace) t tm \<or> (\<exists>src. ev = Detected t tm (Blocked src))"
  proof (cases ev)
    case (Judged packet d now micros)
    then have "granted s ((trace_ops trace @ [Judge (qp_tuple packet) now]) @ [Latency (min micros u64_max)]) t tm" using run_next.prems t by simp
    then show ?thesis using granted_snocD by blast
  next
    case (Detected t' now out)
    have "block (il_store st1) t' now = (fst (block (il_store st1) t' now), out)"
      using run_next.hyps(3) Detected by (auto elim: inline_step.cases)
    then show ?thesis using granted_snocD [of s "trace_ops trace" "Condemn t' now" t tm] run_next.prems t Detected run_store [OF run_next.hyps(1)]
      by (auto dest: arg_cong [where f = snd])
  qed (use run_next.prems t granted_snocD [of s "trace_ops trace"] in auto)
  then show ?case using run_next.hyps(2) by auto
qed

section \<open>The queue\<close>

text \<open>The packet the thread holds has been taken and not been answered.\<close>

definition held :: "inline_state \<Rightarrow> 32 word list" where
  "held st = (case il_phase st of Holding packet \<Rightarrow> [qp_id packet] | _ \<Rightarrow> [])"

definition queue_ok :: "recv_result list \<Rightarrow> inline_state \<Rightarrow> bool" where
  "queue_ok incoming st \<longleftrightarrow> (case il_phase st of
       Waiting \<Rightarrow> map fst (kq_sent (il_queue st)) @ message_ids (kq_incoming (il_queue st)) = message_ids incoming
     | Holding packet \<Rightarrow> (\<exists>q. kernel_next q = (Some packet, il_queue st)) \<and>
         map fst (kq_sent (il_queue st)) @ qp_id packet # message_ids (kq_incoming (il_queue st)) = message_ids incoming
     | Stopped \<Rightarrow> \<exists>rest. map fst (kq_sent (il_queue st)) @ rest = message_ids incoming)"

lemma answers_fst: "map fst (kernel_answers q) = map fst (kq_sent q)"
  by (simp add: comp_def case_prod_unfold)

lemma queue_step: "inline_step ev st st' \<Longrightarrow> queue_ok incoming st \<Longrightarrow> queue_ok incoming st'"
proof (induction rule: inline_step.induct)
  case (take_packet st packet q)
  then show ?case using kernel_next_spec [OF take_packet(2)] by (auto simp: queue_ok_def)
next
  case (queue_ends st q)
  then show ?case using kernel_next_spec [OF queue_ends(2)] by (auto simp: queue_ok_def)
next
  case (judge_packet st packet now micros q p d)
  obtain q0 where n: "kernel_next q0 = (Some packet, il_queue st)" using judge_packet(1,3) by (auto simp: queue_ok_def)
  have q: "q = kernel_resolve (il_queue st) packet d"
    using judge_packet(2) by (auto simp: judge_and_resolve_def judge_def Let_def split: prod.splits)
  have "map fst (kq_sent q) = map fst (kq_sent (il_queue st)) @ [qp_id packet]"
    using arg_cong [OF kernel.answer [OF n, of d], where f = "map fst"] by (simp add: q comp_def case_prod_unfold)
  moreover have "message_ids (kq_incoming q) = message_ids (kq_incoming (il_queue st))" using kernel.owed_res [OF n, of d] by (simp add: q)
  ultimately show ?case using judge_packet(1,3) by (simp add: queue_ok_def)
qed (auto simp: queue_ok_def split: verdict_phase.splits)

lemma queue_run: "inline_run (inline_start s incoming) trace st \<Longrightarrow> queue_ok incoming st"
proof (induction "inline_start s incoming" trace st rule: inline_run.induct)
  case run_start
  then show ?case by (simp add: queue_ok_def inline_start_def kernel_bind_def)
next
  case (run_next trace st1 ev st2)
  then show ?case using queue_step by blast
qed

section \<open>What is answered\<close>

text \<open>A run up to any event of its trace is a run.\<close>

lemma run_upto:
  "inline_run st0 (pre @ ev # post) st \<Longrightarrow> \<exists>st1 st2. inline_run st0 pre st1 \<and> inline_step ev st1 st2"
proof (induction post arbitrary: st rule: rev_induct)
  case Nil
  then show ?case by (cases rule: inline_run.cases) auto
next
  case (snoc x post)
  from snoc.prems obtain st' where "inline_run st0 (pre @ ev # post) st'"
    by (cases rule: inline_run.cases) auto
  then show ?case by (rule snoc.IH)
qed

text \<open>The drops among the judgements of a trace, as the kernel is to be told of them.\<close>

fun drop_answer :: "inline_event \<Rightarrow> (32 word \<times> nfq_verdict) list" where
  "drop_answer (Judged packet (Drop reason) now micros) = [(qp_id packet, NfDrop)]"
| "drop_answer _ = []"

definition sent_drops :: "inline_state \<Rightarrow> (32 word \<times> nfq_verdict) list" where
  "sent_drops st = filter (\<lambda>(_, v). v = NfDrop) (kq_sent (il_queue st))"

lemma next_sends_no_drop:
  "kernel_next q = (x, q') \<Longrightarrow> filter (\<lambda>(_, v). v = NfDrop) (kq_sent q') = filter (\<lambda>(_, v). v = NfDrop) (kq_sent q)"
proof (induction q arbitrary: x q' rule: kernel_next.induct)
  case (1 q)
  show ?case
  proof (cases "kq_incoming q")
    case (Cons m rest)
    then show ?thesis using "1.prems" "1.IH" [OF Cons]
      by (cases m) (auto simp: kernel_next.simps [of q] split: option.splits)
  qed (use "1.prems" in \<open>auto simp: kernel_next.simps [of q]\<close>)
qed

lemma drops_step:
  assumes "inline_step ev st st'" "queue_ok incoming st"
  shows "sent_drops st' = sent_drops st @ drop_answer ev"
  using assms
proof (cases rule: inline_step.cases)
  case (judge_packet packet now micros q p d)
  obtain q0 where n: "kernel_next q0 = (Some packet, il_queue st)" using judge_packet assms(2) by (auto simp: queue_ok_def)
  have q: "q = kernel_resolve (il_queue st) packet d"
    using judge_packet by (auto simp: judge_and_resolve_def judge_def Let_def split: prod.splits)
  show ?thesis using kernel_next_spec [OF n] judge_packet
    by (cases d) (auto simp: sent_drops_def q kernel_resolve_def split: option.splits)
qed (auto simp: sent_drops_def next_sends_no_drop)

lemma drops_run:
  "inline_run (inline_start s incoming) trace st \<Longrightarrow> sent_drops st = concat (map drop_answer trace)"
proof (induction "inline_start s incoming" trace st rule: inline_run.induct)
  case run_start
  then show ?case by (simp add: sent_drops_def inline_start_def kernel_bind_def)
next
  case (run_next trace st1 ev st2)
  then show ?case using drops_step [OF run_next.hyps(3) queue_run [OF run_next.hyps(1)]] by simp
qed

text \<open>A packet in hand is a message the kernel sent, with the tuple its bytes say.\<close>

definition read_from :: "recv_result list \<Rightarrow> queued_packet \<Rightarrow> bool" where
  "read_from incoming packet \<longleftrightarrow> (\<exists>payload. Message (qp_id packet) payload (qp_received packet) \<in> set incoming \<and>
     tuple_from_ip_packet payload = Some (qp_tuple packet))"

lemma next_read:
  "kernel_next q = (x, q') \<Longrightarrow> set (kq_incoming q') \<subseteq> set (kq_incoming q) \<and> (\<forall>packet. x = Some packet \<longrightarrow> read_from (kq_incoming q) packet)"
proof (induction q arbitrary: x q' rule: kernel_next.induct)
  case (1 q)
  show ?case
  proof (cases "kq_incoming q")
    case (Cons m rest)
    then show ?thesis
    proof (cases m)
      case (Message pid payload received)
      then show ?thesis using "1.prems" "1.IH"(1) [OF Cons Message] Cons
        by (cases "tuple_from_ip_packet payload") (fastforce simp: kernel_next.simps [of q] read_from_def)+
    next
      case RecvRetry
      then show ?thesis using "1.prems" "1.IH"(2) [OF Cons RecvRetry] Cons by (fastforce simp: kernel_next.simps [of q] read_from_def)
    qed (use "1.prems" Cons in \<open>auto simp: kernel_next.simps [of q]\<close>)
  qed (use "1.prems" in \<open>auto simp: kernel_next.simps [of q]\<close>)
qed

definition genuine_packets :: "recv_result list \<Rightarrow> inline_state \<Rightarrow> bool" where
  "genuine_packets incoming st \<longleftrightarrow> set (kq_incoming (il_queue st)) \<subseteq> set incoming \<and>
     (\<forall>packet. il_phase st = Holding packet \<longrightarrow> read_from incoming packet)"

lemma resolve_incoming [simp]: "kq_incoming (kernel_resolve q packet d) = kq_incoming q"
  by (simp add: kernel_resolve_def split: option.splits)

lemma read_from_mono: "read_from incoming packet \<Longrightarrow> set incoming \<subseteq> set incoming' \<Longrightarrow> read_from incoming' packet"
  by (auto simp: read_from_def)

lemma genuine_step: "inline_step ev st st' \<Longrightarrow> genuine_packets incoming st \<Longrightarrow> genuine_packets incoming st'"
proof (induction rule: inline_step.induct)
  case (take_packet st packet q)
  then show ?case using next_read [OF take_packet(2)] read_from_mono by (fastforce simp: genuine_packets_def)
next
  case (queue_ends st q)
  then show ?case using next_read [OF queue_ends(2)] by (fastforce simp: genuine_packets_def)
qed (auto simp: genuine_packets_def judge_and_resolve_def judge_def Let_def split: prod.splits)

lemma genuine_run: "inline_run (inline_start s incoming) trace st \<Longrightarrow> genuine_packets incoming st"
proof (induction "inline_start s incoming" trace st rule: inline_run.induct)
  case run_start
  then show ?case by (simp add: genuine_packets_def inline_start_def kernel_bind_def)
next
  case (run_next trace st1 ev st2)
  then show ?case using genuine_step by blast
qed

text \<open>Nothing on the two threads ends a verdict against a conversation.\<close>

lemma verdict_stays:
  assumes "inline_step ev st st'" "hm_contains (pv_flows (il_store st)) key" "hm_invar (pv_flows (il_store st))"
  shows "hm_contains (pv_flows (il_store st')) key"
  using assms
proof (cases rule: inline_step.cases)
  case (judge_packet packet now micros q p d)
  obtain p1 d1 where "decide (il_store st) (qp_tuple packet) now = (p1, d1)" by fastforce
  with decide_state(2) [OF this] judge_packet assms(2) show ?thesis
    by (auto simp: judge_and_resolve_def judge_def Let_def split: prod.splits)
next
  case (detect t now p out)
  with block_state [OF detect(3)] assms(2,3) show ?thesis by (auto simp: hm_contains_def hm.get_insert)
qed (use assms(2) in auto)

lemma detected_stands:
  "inline_run (inline_start s incoming) trace st \<Longrightarrow> Detected t tm (Blocked src) \<in> set trace \<Longrightarrow>
   hm_contains (pv_flows (il_store st)) (from_tuple t)"
proof (induction "inline_start s incoming" trace st rule: inline_run.induct)
  case (run_next trace st1 ev st2)
  have "prevention_wf s (il_store st1)" unfolding run_store [OF run_next.hyps(1)] by (rule prevent_ops.inv_reachable) simp
  then have inv: "hm_invar (pv_flows (il_store st1))" by (simp add: prevention_wf_def)
  show ?case
  proof (cases "ev = Detected t tm (Blocked src)")
    case True
    from run_next.hyps(3) obtain p where "block (il_store st1) t tm = (p, Blocked src)" "il_store st2 = p"
      unfolding True by (cases rule: inline_step.cases) auto
    moreover from this(1) have "src = Some (src_ip t)" by (auto simp: block_def Let_def split: if_splits option.splits)
    ultimately show ?thesis using block_state [OF \<open>block (il_store st1) t tm = (p, Blocked src)\<close>] inv by (auto simp: hm_contains_def hm.get_insert)
  qed (use run_next verdict_stays [OF run_next.hyps(3) _ inv] in auto)
qed simp

lemma mode_kept: "inline_run (inline_start s incoming) trace st \<Longrightarrow> pv_settings (il_store st) = s"
proof (induction "inline_start s incoming" trace st rule: inline_run.induct)
  case run_start
  then show ?case by (simp add: inline_start_def prevention_new_def)
next
  case (run_next trace st1 ev st2)
  from run_next.hyps(3) have "pv_settings (il_store st2) = pv_settings (il_store st1)"
  proof (cases rule: inline_step.cases)
    case (judge_packet packet now micros q p d)
    obtain p1 d1 where "decide (il_store st1) (qp_tuple packet) now = (p1, d1)" by fastforce
    with decide_state(1) [OF this] judge_packet show ?thesis
      by (auto simp: judge_and_resolve_def judge_def Let_def split: prod.splits)
  next
    case (detect t now p out)
    with block_state [OF detect(3)] show ?thesis by auto
  qed auto
  with run_next show ?case by simp
qed

section \<open>Under any schedule\<close>

definition listed :: "prevention_settings \<Rightarrow> net_tuple \<Rightarrow> bool" where
  "listed s t \<longleftrightarrow> (\<exists>n \<in> set (ps_allow_list s). net_contains n (src_ip t) \<or> net_contains n (dest_ip t))"

lemma judged_decision:
  assumes run: "inline_run (inline_start s incoming) pre st1" and step: "inline_step (Judged packet d now micros) st1 st2"
  shows "read_from incoming packet" and "d = snd (decide (il_store st1) (qp_tuple packet) now)"
    and "is_drop d \<Longrightarrow> ps_mode s = Prevent \<and> \<not> listed s (qp_tuple packet) \<and> (\<exists>t tm src. Detected t tm (Blocked src) \<in> set pre \<and>
      (from_tuple t = from_tuple (qp_tuple packet) \<or> src_ip t = src_ip (qp_tuple packet) \<and> now < tm + ps_source_block s))"
    and "Detected t tm (Blocked src) \<in> set pre \<Longrightarrow> from_tuple t = from_tuple (qp_tuple packet) \<Longrightarrow> is_drop d"
proof -
  have h: "il_phase st1 = Holding packet" "d = snd (decide (il_store st1) (qp_tuple packet) now)"
    using step by (auto elim!: judged_stepE simp: judge_and_resolve_def judge_def Let_def split: prod.splits)
  show "d = snd (decide (il_store st1) (qp_tuple packet) now)" by (rule h(2))
  show "read_from incoming packet" using genuine_run [OF run] h(1) by (simp add: genuine_packets_def)
  have l: "protected (il_store st1) (qp_tuple packet) = listed s (qp_tuple packet)"
    by (auto simp: protected_def is_allow_listed_def mode_kept [OF run] list_ex_iff listed_def)
  show "ps_mode s = Prevent \<and> \<not> listed s (qp_tuple packet) \<and> (\<exists>t tm src. Detected t tm (Blocked src) \<in> set pre \<and>
      (from_tuple t = from_tuple (qp_tuple packet) \<or> src_ip t = src_ip (qp_tuple packet) \<and> now < tm + ps_source_block s))" if "is_drop d"
  proof -
    have drop: "is_drop (snd (decide (il_store st1) (qp_tuple packet) now))" using that h(2) by simp
    from no_drop_without_block [OF drop [unfolded run_store [OF run]]] granted_detected [OF run]
    have "\<exists>t tm src. Detected t tm (Blocked src) \<in> set pre \<and>
      (from_tuple t = from_tuple (qp_tuple packet) \<or> src_ip t = src_ip (qp_tuple packet) \<and> now < tm + ps_source_block s)" by blast
    with drop l show ?thesis by (simp add: decide_drop_iff armed_def mode_kept [OF run])
  qed
  show "is_drop d" if "Detected t tm (Blocked src) \<in> set pre" "from_tuple t = from_tuple (qp_tuple packet)"
  proof -
    have c: "hm_contains (pv_flows (il_store st1)) (from_tuple (qp_tuple packet))" using detected_stands [OF run that(1)] that(2) by simp
    have wf: "prevention_wf s (il_store st1)" unfolding run_store [OF run] by (rule prevent_ops.inv_reachable) simp
    then have np: "\<not> protected (il_store st1) (qp_tuple packet)"
      using c by (auto simp: prevention_wf_def hm_contains_def key_listed_from_tuple [symmetric])
    from split_list [OF that(1)] obtain a b where "pre = a @ Detected t tm (Blocked src) # b" by blast
    with run_upto [of "inline_start s incoming" a] run
    obtain sta stb where a: "inline_run (inline_start s incoming) a sta" "inline_step (Detected t tm (Blocked src)) sta stb" by blast
    from a(2) have "armed (il_store sta)" by (auto elim!: inline_step.cases simp: block_def split: if_splits)
    then have "armed (il_store st1)" by (simp add: armed_def mode_kept [OF a(1)] mode_kept [OF run])
    with c np show ?thesis by (simp add: h(2) decide_drop_iff condemned_def)
  qed
qed


definition sample_payload :: bytes where
  "sample_payload = [0x45, 0, 0, 20, 0, 0, 0, 0, 64, 1, 0, 0, 10, 0, 0, 1, 10, 0, 0, 2]"

definition sample_tuple :: net_tuple where
  "sample_tuple = \<lparr>src_ip = V4 0x0A000001, src_port = None, dest_ip = V4 0x0A000002, dest_port = None, proto = Icmp\<rparr>"


end
