(* ===== verification/Spec2Isabelle.thy ===== *)
theory Spec2Isabelle
  imports Policy Defrag FlowTable Http Correlation Engine Loader PipelineRuns Evtx EventLog Replay HostSensor Run Inline
begin

text \<open>
  A verification library for the CyberSentinel network intrusion detection and prevention
  sensor (\<open>src/crates\<close>, Rust).

  \<^bold>\<open>The program.\<close> A captured frame is decoded; IP fragments go to the defragmenter;
  packets are attributed to a flow, whose TCP payload is put back in order and handed to the
  detection engine and the HTTP parser; alerts become events; in prevention mode a matching rule
  condemns the conversation, and the inline verdict path, which is fed by the kernel's
  packet queue, drops what is condemned; host and network events of one host are
  correlated into incidents. The command line reads the configuration and the rules, opens a capture file or an
  interface, gives up its privileges, assembles the components and runs one loop over them until the source
  ends or the process is told to stop. Everything an attacker can grow is bounded and every loss is
  counted: those two promises, and that the sensor sees the bytes the host sees, are what the
  library proves.

  \<^bold>\<open>The theories.\<close>

  \<^item> \<open>Prelude\<close>: Rust's saturating and panicking arithmetic, slices and casts; hash maps as
    association lists, with their contract as the locale \<open>hash_table\<close> (interpretation \<open>hm\<close>);
    and the locale \<open>invariant_machine\<close>, the induction over sequences of operations that
    every component's invariant is an interpretation of.
  \<^item> \<open>Net\<close> (\<open>common/src/net.rs\<close>, the 5-tuple of \<open>common/src/event.rs\<close>, the reassembly section of
    \<open>common/src/config.rs\<close>): addresses and networks as words with their masks.
  \<^item> \<open>Policy\<close> (\<open>reassembly/src/policy.rs\<close>, \<open>ReassemblyConfig::check\<close>): the overlap policy of a
    destination. Longest prefix wins, and the order of the file is irrelevant.
  \<^item> \<open>RangeBuffer\<close> (\<open>reassembly/src/range_buffer.rs\<close>): the store both reassemblers use. Its view is
    a partial map from offsets to bytes; the locale \<open>byte_store\<close> states what a client may rely
    on (interpretation \<open>rb\<close>), and the refinement theorem says that writing is the abstract update
    of the view under the overlap policy. No slice or subtraction panics; the size and the
    number of ranges are bounded; what is written is accounted for; pieces reassemble.
  \<^item> \<open>TcpStream\<close> (\<open>reassembly/src/stream.rs\<close>): one direction and the pair. Sequence numbers are
    32-bit words and the wrap is part of the theorem that the delivered bytes are the bytes
    sent. The inductive relation \<open>conversation\<close> is the reachability relation of that theorem.
    Delivery is gated on acknowledgement; a FIN is final; which resets are believed.
  \<^item> \<open>Defrag\<close> (\<open>reassembly/src/defrag.rs\<close>): fragment sets keyed by datagram. Bounded, no
    misassembly, and completion.
  \<^item> \<open>FlowTable\<close> (\<open>reassembly/src/flow.rs\<close>, \<open>Limits\<close> of \<open>reassembly/src/lib.rs\<close>): attribution of
    packets, expiry, eviction, and the running byte total.
  \<^item> \<open>Normalize\<close> (\<open>reassembly/src/normalize.rs\<close>): percent decoding and path resolution.
  \<^item> \<open>Http\<close> (\<open>applayer/src/http.rs\<close>): the incremental request parser.
  \<^item> \<open>Prevention\<close> (\<open>prevent/src/store.rs\<close>): the verdict store: allow-list, kill switch, bounds,
    when exactly a packet is dropped and that it never happens unasked.
  \<^item> \<open>VerdictPath\<close> (\<open>prevent/src/queue.rs\<close>, \<open>nft.rs\<close>, \<open>depth.rs\<close>): the tuple reader, the
    judging loop over any packet source (locale \<open>verdict_source\<close>, interpreted for the offline and the
    kernel queue), the generated rule text and the reader of the kernel's counters.
  \<^item> \<open>Correlation\<close> (\<open>correlation/src/lib.rs\<close>): incidents are corroborated, not missed and not
    repeated; the windows are bounded.
  \<^item> \<open>NetText\<close> (\<open>FromStr\<close> and \<open>Display\<close> of \<open>common/src/net.rs\<close>): networks read from and written as text, with
    the standard library's address grammar.
  \<^item> \<open>Headers\<close> (\<open>rules/src/model.rs\<close>, \<open>engine/src/vars.rs\<close>): rule headers, the variables they refer to, and
    whether a header selects a packet. Resolving ends even on circular definitions; negation is exact.
  \<^item> \<open>RuleOptions\<close> (\<open>rules/src/options.rs\<close>, \<open>Rule\<close> of \<open>model.rs\<close>): the conditions of a rule and the parsed rule.
  \<^item> \<open>RuleParser\<close> (\<open>rules/src/parser.rs\<close>): the text of a rule, from the header fields to every option value. A rule
    written out is read back whatever its values contain, and every accepted rule is well formed.
  \<^item> \<open>Loader\<close> (\<open>rules/src/loader.rs\<close>): rule files. Nothing is lost without an entry in the report; the first rule
    of a number wins. Reading a file is a parameter.
  \<^item> \<open>RuleEval\<close> (\<open>engine/src/eval.rs\<close>): one rule against one unit of data. What a content condition
    means, that absent buffers never match, that conditions narrow, where jumps land, and when nothing panics.
  \<^item> \<open>Compile\<close> (\<open>engine/src/compile.rs\<close>): compiling a ruleset and the pre-filter. The scan of the
    aho-corasick crate is a parameter whose documented behaviour is the hypothesis \<open>ac_faithful\<close>; under it the
    candidates that match are exactly the rules that match.
  \<^item> \<open>HostRules\<close> (\<open>engine/src/host.rs\<close>, event bodies of \<open>common/src/event.rs\<close>): rules on host records.
  \<^item> \<open>Engine\<close> (\<open>engine/src/engine.rs\<close>): per-flow state, inspection windows, thresholds, alerts. The loop over
    candidates is shared by packets and host records as the locale \<open>match_loop\<close> (interpretations \<open>packets\<close> and
    \<open>hosts\<close>). Inspection equals brute force, patterns split over deliveries alert, the state is bounded
    and inspection returns.
  \<^item> \<open>Decode\<close> (\<open>decode/src\<close>): a frame down to its transport payload. The header readers of the etherparse crate
    are parameters; every range stays inside the frame, well-formed frames are read as they were built, and the decoder
    and the verdict path agree on the conversation a packet belongs to.
  \<^item> \<open>Pipeline\<close> (\<open>cli/src/pipeline.rs\<close>, event bodies of \<open>common/src/event.rs\<close>): the composition of the components,
    packet by packet and host record by host record, with the events that leave. Properties of the emitted
    events are interpretations of the locales \<open>step_invariant\<close> and \<open>run_invariant\<close>. An alert that says blocked is
    enforced; a packet causes at most one anomaly event.
  \<^item> \<open>PipelineRuns\<close>: no input makes the pipeline panic while the engine's inspections return (the coinductive \<open>tame\<close>), and
    the flow events account for every flow.
  \<^item> \<open>Usn\<close> (\<open>hids/src/usn.rs\<close>): the Windows change journal. A response is read record by record, a well-formed record is read
    as it was written, and file names survive their encoding.
  \<^item> \<open>Logs\<close> (\<open>hids/src/logs.rs\<close>): authentication messages and the file tailer. Whatever a message says, the event is
    printable and bounded; the lines delivered are the lines written, across polls and partial reads.
  \<^item> \<open>Processes\<close> (\<open>hids/src/process.rs\<close>): the readers of \<open>/proc\<close> and the sweep. A name cannot move the fields after it, and a
    sweep reports what is new.
  \<^item> \<open>Fim\<close> (\<open>hids/src/fim.rs\<close>): walking the watched roots and comparing with the baseline. A complete rescan reports exactly the
    changes, and once. The walk ends by a multiset order on the stack.
  \<^item> \<open>Evtx\<close> (\<open>hids/src/evtx.rs\<close>): Windows logon events. The fields of a rendered event are read as they were written, and a
    value that smuggles markup is refused.
  \<^item> \<open>EventLog\<close> (\<open>common/src/eventlog.rs\<close>): the bounded queue between the sensor and its writer, as an interleaving of the
    senders' and the writer's atomic steps. The log is the accepted events in order; shutdown writes what was accepted before it.
  \<^item> \<open>Replay\<close> (\<open>capture/src/replay.rs\<close>, \<open>PacketSource\<close> of \<open>capture/src/lib.rs\<close>): capture files. A file is replayed frame by frame, whatever
    it holds a frame is bounded, and reading ends.
  \<^item> \<open>Sources\<close> (\<open>hids/src/sources.rs\<close>): the registry of event sources and the holes in their coverage.
  \<^item> \<open>HostSensor\<close> (\<open>hids/src/sensor.rs\<close>): the integrity worker, the polls of logs and processes, and their composition. An overflow of the
    watch queue is followed by a rescan; what a poll reads is accounted for; a sweep that could not see is declared.
  \<^item> \<open>Config\<close> (\<open>common/src/config.rs\<close>): every section with its defaults, the resolution of relative paths, the check, loading and the
    warnings. What the loader hands on the components can use. The YAML reader is a parameter.
  \<^item> \<open>PacketLoop\<close> (\<open>run_packet_loop\<close> and \<open>host_only_loop\<close> of \<open>cli/src/run.rs\<close>; \<open>service_host\<close>, \<open>drain_host\<close> and \<open>publish\<close> of
    \<open>cli/src/pipeline.rs\<close>): the loop that feeds the pipeline. Its contract with a source is the locale \<open>packet_source\<close>, and
    \<open>file_source\<close> for a source that never waits; the capture file interprets both (\<open>replay\<close>). Whatever the source and the
    host sensors did, the loop is a sequence of steps of the pipeline.
  \<^item> \<open>Live\<close> (\<open>capture/src/live.rs\<close>): live capture over the calls of the pcap crate, as an interpretation of \<open>packet_source\<close>.
  \<^item> \<open>Startup\<close> (\<open>common/src/sensor.rs\<close>, \<open>capture/src/privileges.rs\<close>, \<open>drop_privileges\<close> of \<open>cli/src/run.rs\<close>): the identity survives
    restarts, and the process keeps only the capabilities it reports.
  \<^item> \<open>Run\<close> (\<open>cli/src/run.rs\<close>, \<open>cli/src/validate.rs\<close>, the statistics event of \<open>common/src/event.rs\<close>): the assembly of the components from the
    configuration, the main loop, the run as a whole and the validation of rules. A capture file is analysed frame by frame to its
    end; a stop request ends the loop with every flow reported; an address on the configured allow-list is never dropped; rules that
    validate are the rules that run.
  \<^item> \<open>Inline\<close> (\<open>spawn_verdict_thread\<close> of \<open>cli/src/run.rs\<close>): the verdict thread and the detection path as interleaved steps on one verdict
    store. Under any schedule the kernel's packets are answered in order, and only what detection condemned is dropped.

  \<^bold>\<open>Conventions.\<close> An operation on \<open>&mut self\<close> takes the record of the state and returns it
  updated. A panic (a slice out of range, an unsigned subtraction below zero, removing from an
  empty vector) is \<open>None\<close>, so a theorem with \<open>= Some \<dots>\<close> includes the absence of panics. Early
  returns and errors are branches. Hash maps and ordered maps are association lists
  without duplicate keys; the theorems hold for whatever order their lists are in, so they
  do not depend on an iteration order. Event counters are natural numbers; offsets and lengths are naturals
  with the 64-bit limit written out where the code saturates or casts; wire integers are words. Log lines are
  left out.

  \<^bold>\<open>Loops.\<close> The loops over data are structural or have a termination proof; the verdict
  loop runs until its source is exhausted and is given fuel, and one more than the number of pending
  messages is proved to be enough (\<open>kernel_queue_answers_all\<close>). Replaying a capture file is given fuel too: one more than the
  number of record headers that fit in it is proved to be enough (\<open>replay_ends\<close>). The main loop may run for ever on an interface, so it has fuel for its rounds and for the
  drain of the host sensors, and its result distinguishes running out of fuel from a panic: for a capture file one round more than
  its records is enough (\<open>capture_file_analysed\<close>), and a loop told to stop in round \<open>k\<close> returns with fuel \<open>Suc k\<close>
  (\<open>shutdown_ends_loop\<close>); the drain is enough when the clock reaches its deadline within it (\<open>drains\<close>).

  \<^bold>\<open>Outside the model.\<close> The netlink socket is the list of results it returns; compiled regular expressions
  and automata are functions; what the pipeline sends out is collected in lists. The file system, \<open>/proc\<close> and the log files are arguments: what a call
  sees of them. The threads of the host sensors are the updates they send. The calls of libpcap, the
  kernel's capability sets, the identity files and the YAML reader are parameters or records of functions. Not modelled: the sinks of the
  event log (file and network output), the statistics thread and the installation of signal handlers (the stop flag is a function of the
  round), the argument parser and the tracing setup, JSON serialization, the formatting of timestamps, and the variants for systems
  other than Linux where they only do nothing.
\<close>

end
